(* ===== verification/Memx_Prelude.thy ===== *)
theory Memx_Prelude
  imports Main "HOL-Library.Word" "HOL-Library.Monad_Syntax"
begin

text \<open>
  Shared vocabulary of the development: the machine types of the LP64 build the code is
  written for, the named fact collections, and the generic lemmas on words and lists that
  every component uses.  Shifts and masks are reduced to \<open>div\<close>, \<open>mod\<close> and \<open>*\<close> on
  natural numbers once, here.
\<close>

unbundle bit_operations_syntax

type_synonym u64 = "64 word"
type_synonym u32 = "32 word"

text \<open>\<open>SIZE_MAX\<close> and \<open>UINTPTR_MAX\<close> of \<open>stdint.h\<close>: the largest 64-bit word.\<close>

abbreviation SIZE_MAX :: u64 where
  "SIZE_MAX \<equiv> - 1"

abbreviation UINTPTR_MAX :: u64 where
  "UINTPTR_MAX \<equiv> - 1"

named_theorems unat_bits "shifts, masks and additions read through unat"

named_theorems memx_unfold "defining equations a simulation step unfolds"

section \<open>Words\<close>

lemma unat_lt_64 [simp]: "unat (x :: u64) < 18446744073709551616"
  using unsigned_less [of x] by simp

lemma unat_SIZE_MAX [simp]: "unat (- 1 :: u64) = 18446744073709551615"
  by (simp add: unsigned_minus_1_eq_mask mask_eq_exp_minus_1)

lemma unat_pow2 [unat_bits]: "n < 64 \<Longrightarrow> unat (2 ^ n :: u64) = 2 ^ n"
  using power_strict_increasing [of n 64 "2 :: nat"]
  unfolding push_bit_of_1 [symmetric]
  by (subst unsigned_push_bit_eq) (simp add: take_bit_eq_mod)

lemma unat_drop [unat_bits]: "unat (drop_bit n (x :: u64)) = unat x div 2 ^ n"
  by (subst unat_drop_bit_eq) (rule drop_bit_eq_div)

text \<open>Simplification turns the code's \<open>push_bit n 1\<close> into \<open>2 ^ n\<close>; the mask is read through:\<close>

lemma pow2_minus_1: "(2 :: u64) ^ n - 1 = mask n"
  by (simp add: mask_eq_exp_minus_1)

lemma unat_mask_64 [unat_bits]: "n < 64 \<Longrightarrow> unat (mask n :: u64) = 2 ^ n - 1"
  unfolding pow2_minus_1 [symmetric]
  by (simp add: unat_sub word_le_nat_alt unat_pow2)

lemma unat_and_mask [unat_bits]: "unat (x AND mask n :: u64) = unat x mod 2 ^ n"
  unfolding take_bit_eq_mask [symmetric]
  by (subst unsigned_take_bit_eq) (rule take_bit_eq_mod)

lemma and_mask_eq_0_iff: "(x AND mask n :: u64) = 0 \<longleftrightarrow> 2 ^ n dvd unat x"
  by (simp add: and_mask_dvd_nat)

lemma unat_and_not_mask [unat_bits]:
  "unat (x AND NOT (mask n) :: u64) = unat x div 2 ^ n * 2 ^ n"
proof -
  have "(x AND mask n) + (x AND NOT (mask n)) = x"
    by (subst disjunctive_add) (auto simp: bit_simps intro!: bit_word_eqI)
  then have "x AND NOT (mask n) = x - (x AND mask n)"
    by (simp add: algebra_simps)
  moreover have "x AND mask n \<le> x" by (rule word_and_le2)
  ultimately have "unat (x AND NOT (mask n)) = unat x - unat x mod 2 ^ n"
    by (simp add: unat_sub unat_and_mask)
  then show ?thesis by (simp add: minus_mod_eq_div_mult)
qed

lemma unat_add_exact [unat_bits]:
  "unat (a :: u64) + unat b < 2 ^ 64 \<Longrightarrow> unat (a + b) = unat a + unat b"
  by (simp add: unat_word_ariths)

lemma unat_sub_exact [unat_bits]: "b \<le> a \<Longrightarrow> unat (a - b :: u64) = unat a - unat b"
  by (rule unat_sub)

lemma unat_mult_exact [unat_bits]:
  "unat (a :: u64) * unat b < 2 ^ 64 \<Longrightarrow> unat (a * b) = unat a * unat b"
  by (simp add: unat_word_ariths)

lemma unat_eq_iff: "(a :: u64) = b \<longleftrightarrow> unat a = unat b"
  by (rule word_unat_eq_iff)

end
