(* ===== verification/Memx_Config.thy ===== *)
theory Memx_Config
  imports Memx_Prelude
begin

text \<open>
  Configuration and address arithmetic of the index: \<^verbatim>\<open>memx_config_t\<close>, its validation, and the
  small integer helpers of \<^verbatim>\<open>src/memx.c\<close>.  The enums that cross the public interface
  (\<^verbatim>\<open>memx_directory_mode_t\<close>, \<^verbatim>\<open>memx_policy_t\<close>, \<^verbatim>\<open>memx_hint_mode_t\<close>) are kept as the raw 32-bit
  values a C caller can store in them, because the validation code tests for values outside
  the enumeration.
\<close>

section \<open>Public enumerations\<close>

datatype memx_status =
    MEMX_OK
  | MEMX_ERROR_INVALID_ARGUMENT
  | MEMX_ERROR_OUT_OF_RANGE
  | MEMX_ERROR_OVERLAP
  | MEMX_ERROR_NOT_FOUND
  | MEMX_ERROR_OUT_OF_MEMORY
  | MEMX_ERROR_BUSY
  | MEMX_ERROR_UNSUPPORTED

datatype memx_region_type = MEMX_REGION_EMPTY | MEMX_REGION_UNIFORM | MEMX_REGION_DENSE

datatype memx_storage_mode = MEMX_STORAGE_ADAPTIVE | MEMX_STORAGE_FLAT | MEMX_STORAGE_OVERLAY

definition MEMX_DIRECTORY_BOUNDED :: u32 where "MEMX_DIRECTORY_BOUNDED = 0"
definition MEMX_DIRECTORY_SPARSE :: u32 where "MEMX_DIRECTORY_SPARSE = 1"
definition MEMX_POLICY_FAST :: u32 where "MEMX_POLICY_FAST = 0"
definition MEMX_POLICY_BALANCED :: u32 where "MEMX_POLICY_BALANCED = 1"
definition MEMX_POLICY_COMPACT :: u32 where "MEMX_POLICY_COMPACT = 2"
definition MEMX_HINT_VALIDATED :: u32 where "MEMX_HINT_VALIDATED = 0"
definition MEMX_HINT_TRUSTED :: u32 where "MEMX_HINT_TRUSTED = 1"

text \<open>\<^verbatim>\<open>MEMX_HANDLE_INVALID\<close>: the only value that is not a handle.\<close>

definition MEMX_HANDLE_INVALID :: u64 where
  "MEMX_HANDLE_INVALID = UINTPTR_MAX"

text \<open>The numeric code of a status, and the diagnostic string, which also covers unknown codes.\<close>

fun memx_status_code :: "memx_status \<Rightarrow> u32" where
  "memx_status_code MEMX_OK = 0"
| "memx_status_code MEMX_ERROR_INVALID_ARGUMENT = 1"
| "memx_status_code MEMX_ERROR_OUT_OF_RANGE = 2"
| "memx_status_code MEMX_ERROR_OVERLAP = 3"
| "memx_status_code MEMX_ERROR_NOT_FOUND = 4"
| "memx_status_code MEMX_ERROR_OUT_OF_MEMORY = 5"
| "memx_status_code MEMX_ERROR_BUSY = 6"
| "memx_status_code MEMX_ERROR_UNSUPPORTED = 7"

definition memx_status_string :: "u32 \<Rightarrow> string" where
  "memx_status_string code =
     (if code = 0 then ''ok''
      else if code = 1 then ''invalid argument''
      else if code = 2 then ''out of range''
      else if code = 3 then ''overlap''
      else if code = 4 then ''not found''
      else if code = 5 then ''out of memory''
      else if code = 6 then ''busy''
      else if code = 7 then ''unsupported''
      else ''unknown'')"

section \<open>Allocator callbacks and configuration\<close>

text \<open>
  The two callbacks of \<^verbatim>\<open>memx_allocator_t\<close>.  A callback is a function on the state behind the
  \<^verbatim>\<open>void *context\<close>, whose type \<^typ>\<open>'c\<close> is left open; \<^term>\<open>None\<close> is a null function pointer.
  An allocation returns the address it hands out, 0 standing for \<^verbatim>\<open>NULL\<close>.
\<close>

record 'c memx_allocator =
  allocate :: "('c \<Rightarrow> u64 \<Rightarrow> u64 \<times> 'c) option"
  deallocate :: "('c \<Rightarrow> u64 \<Rightarrow> 'c) option"

text \<open>The C library's \<^verbatim>\<open>malloc\<close> and \<^verbatim>\<open>free\<close>, used when the caller supplies no callbacks.\<close>

record 'c libc =
  libc_malloc :: "'c \<Rightarrow> u64 \<Rightarrow> u64 \<times> 'c"
  libc_free :: "'c \<Rightarrow> u64 \<Rightarrow> 'c"

definition memx_default_allocate :: "'c libc \<Rightarrow> 'c \<Rightarrow> u64 \<Rightarrow> u64 \<times> 'c" where
  "memx_default_allocate lc ctx sz = libc_malloc lc ctx sz"

definition memx_default_deallocate :: "'c libc \<Rightarrow> 'c \<Rightarrow> u64 \<Rightarrow> 'c" where
  "memx_default_deallocate lc ctx pointer = libc_free lc ctx pointer"

record 'c memx_config =
  directory_mode :: u32
  policy :: u32
  hint_mode :: u32
  region_shift :: u32
  granule_shift :: u32
  base_address :: u64
  managed_size :: u64
  address_bits :: u32
  overlay_huge_pages :: bool
  allocator :: "'c memx_allocator"

definition memx_config_default :: "'c memx_config" where
  "memx_config_default =
     \<lparr>directory_mode = MEMX_DIRECTORY_BOUNDED,
      policy = MEMX_POLICY_BALANCED,
      hint_mode = MEMX_HINT_VALIDATED,
      region_shift = 21,
      granule_shift = 12,
      base_address = 0,
      managed_size = 0,
      address_bits = 64,
      overlay_huge_pages = False,
      allocator = \<lparr>allocate = None, deallocate = None\<rparr>\<rparr>"

section \<open>Integer helpers\<close>

text \<open>
  C leaves a shift by the word width or more undefined; every caller below shifts by a value
  that \<open>memx_shift_valid\<close> has accepted.
\<close>

definition memx_is_aligned :: "u64 \<Rightarrow> u32 \<Rightarrow> bool" where
  "memx_is_aligned v shift =
     (let mask' = push_bit (unat shift) (1 :: u64) - 1 in v AND mask' = 0)"

text \<open>The C function reports overflow as its result and the end through an out parameter.\<close>

definition memx_add_overflows :: "u64 \<Rightarrow> u64 \<Rightarrow> u64 option" where
  "memx_add_overflows base sz =
     (if UINTPTR_MAX - base < sz then None else Some (base + sz))"

definition memx_shift_valid :: "u32 \<Rightarrow> bool" where
  "memx_shift_valid shift = (shift < 64)"

text \<open>\<^verbatim>\<open>sysconf(_SC_PAGESIZE)\<close> is the parameter \<open>result\<close>, a signed C \<^verbatim>\<open>long\<close>.\<close>

definition memx_host_page_size :: "u64 \<Rightarrow> u64" where
  "memx_host_page_size result =
     (if 0 < sint result \<and> result AND (result - 1) = 0 then result else 4096)"

definition memx_page_account :: "u64 \<Rightarrow> u64 \<Rightarrow> u64" where
  "memx_page_account bytes page_size =
     (if bytes = 0 then 0
      else if SIZE_MAX - (page_size - 1) < bytes then SIZE_MAX
      else (bytes + page_size - 1) AND NOT (page_size - 1))"

definition memx_region_boundary :: "u64 \<Rightarrow> u64 \<Rightarrow> u64 \<Rightarrow> u64" where
  "memx_region_boundary cursor region_size end' =
     (let region_mask = region_size - 1;
          aligned = cursor AND NOT region_mask
      in if UINTPTR_MAX - region_size < aligned then end'
         else aligned + region_size)"

section \<open>Validation\<close>

text \<open>
  \<^verbatim>\<open>memx_validate_config\<close> may fill in the default callbacks; the result pairs the status with
  the (possibly updated) configuration.
\<close>

definition memx_validate_config ::
  "'c libc \<Rightarrow> 'c memx_config \<Rightarrow> memx_status \<times> 'c memx_config" where
  "memx_validate_config lc config =
     (if \<not> memx_shift_valid (region_shift config)
          \<or> \<not> memx_shift_valid (granule_shift config)
          \<or> region_shift config < granule_shift config
      then (MEMX_ERROR_INVALID_ARGUMENT, config)
      else if MEMX_POLICY_COMPACT < policy config \<or> MEMX_HINT_TRUSTED < hint_mode config
      then (MEMX_ERROR_INVALID_ARGUMENT, config)
      else if (allocate (allocator config) = None) \<noteq> (deallocate (allocator config) = None)
      then (MEMX_ERROR_INVALID_ARGUMENT, config)
      else
        let config =
              (if allocate (allocator config) = None
               then config\<lparr>allocator := \<lparr>allocate = Some (memx_default_allocate lc),
                                        deallocate = Some (memx_default_deallocate lc)\<rparr>\<rparr>
               else config)
        in
        if directory_mode config = MEMX_DIRECTORY_BOUNDED then
          let region_size = push_bit (unat (region_shift config)) (1 :: u64) in
          if managed_size config = 0
             \<or> \<not> memx_is_aligned (base_address config) (region_shift config)
             \<or> managed_size config AND (region_size - 1) \<noteq> 0
          then (MEMX_ERROR_INVALID_ARGUMENT, config)
          else if UINTPTR_MAX - base_address config < managed_size config
          then (MEMX_ERROR_INVALID_ARGUMENT, config)
          else (MEMX_OK, config)
        else if directory_mode config = MEMX_DIRECTORY_SPARSE then
          if base_address config \<noteq> 0 \<or> address_bits config = 0
             \<or> 64 < address_bits config
             \<or> address_bits config \<le> region_shift config
          then (MEMX_ERROR_INVALID_ARGUMENT, config)
          else if 32 < address_bits config - region_shift config
          then (MEMX_ERROR_UNSUPPORTED, config)
          else (MEMX_OK, config)
        else (MEMX_ERROR_INVALID_ARGUMENT, config))"

section \<open>What the helpers compute\<close>

lemma memx_shift_valid_iff: "memx_shift_valid s \<longleftrightarrow> unat s < 64"
  by (simp add: memx_shift_valid_def word_less_nat_alt)

lemma memx_is_aligned_iff: "memx_is_aligned v s \<longleftrightarrow> 2 ^ unat s dvd unat v"
  by (simp add: memx_is_aligned_def pow2_minus_1 and_mask_eq_0_iff)

lemma memx_add_overflows_None: "memx_add_overflows b n = None \<longleftrightarrow> 2 ^ 64 \<le> unat b + unat n"
  by (simp add: memx_add_overflows_def word_less_nat_alt unat_sub_exact)
     (use unat_lt_64 [of b] in linarith)

lemma memx_add_overflows_Some:
  "memx_add_overflows b n = Some e \<longleftrightarrow> unat b + unat n < 2 ^ 64 \<and> e = b + n"
  using memx_add_overflows_None [of b n]
  by (auto simp: memx_add_overflows_def split: if_splits)

lemma memx_region_boundary_unat:
  assumes r: "r < 64"
  shows "unat (memx_region_boundary c (push_bit r 1) e) =
    (if unat c div 2 ^ r * 2 ^ r + 2 ^ r < 2 ^ 64
     then unat c div 2 ^ r * 2 ^ r + 2 ^ r else unat e)"
proof -
  have lt: "(2 :: nat) ^ r < 2 ^ 64" using r by (intro power_strict_increasing) auto
  then have "UINTPTR_MAX - 2 ^ r < c AND NOT (mask r)
      \<longleftrightarrow> \<not> unat c div 2 ^ r * 2 ^ r + 2 ^ r < 2 ^ 64"
    by (auto simp: word_less_nat_alt unat_and_not_mask unat_pow2 [OF r] unat_sub_exact)
  then show ?thesis
    by (simp add: memx_region_boundary_def Let_def pow2_minus_1 unat_add_exact
        unat_and_not_mask unat_pow2 [OF r])
qed

text \<open>Rounding up to a power of two: the least multiple that is not below the argument.\<close>

lemma round_up_mask:
  assumes "k < 64" and "unat (x :: u64) + (2 ^ k - 1) < 2 ^ 64"
  shows "unat ((x + 2 ^ k - 1) AND NOT (2 ^ k - 1)) =
    (unat x + (2 ^ k - 1)) div 2 ^ k * 2 ^ k"
proof -
  have e: "x + 2 ^ k - 1 = x + mask k"
    by (simp add: pow2_minus_1 [symmetric])
  show ?thesis
    unfolding e pow2_minus_1
    using assms by (simp add: unat_and_not_mask unat_add_exact unat_mask_64)
qed

end
