(* ===== verification/Memx_Descriptor.thy ===== *)
theory Memx_Descriptor
  imports Memx_Config
begin

text \<open>
  The one-word region descriptor of \<^verbatim>\<open>src/memx.c\<close>: zero is EMPTY, tag 1 carries a handle shifted
  left by two, tag 2 carries the address of a dense table.  The lemmas are the round trips of
  the two encodings and the separation of the three tags.
\<close>

definition MEMX_DESCRIPTOR_TAG_MASK :: u64 where "MEMX_DESCRIPTOR_TAG_MASK = 3"
definition MEMX_DESCRIPTOR_UNIFORM_TAG :: u64 where "MEMX_DESCRIPTOR_UNIFORM_TAG = 1"
definition MEMX_DESCRIPTOR_DENSE_TAG :: u64 where "MEMX_DESCRIPTOR_DENSE_TAG = 2"
definition MEMX_INLINE_HANDLE_MAX :: u64 where
  "MEMX_INLINE_HANDLE_MAX = drop_bit 2 UINTPTR_MAX"

text \<open>\<^verbatim>\<open>_Alignof(uintptr_t)\<close> is 8 on the modelled target, which is more than 4.\<close>

definition MEMX_INTERNAL_ALIGNMENT :: u64 where "MEMX_INTERNAL_ALIGNMENT = 8"

definition memx_region_init :: u64 where
  "memx_region_init = 0"

definition memx_region_type_decode :: "u64 \<Rightarrow> memx_region_type" where
  "memx_region_type_decode region =
     (let tag = region AND MEMX_DESCRIPTOR_TAG_MASK in
      if region = 0 then MEMX_REGION_EMPTY
      else if tag = MEMX_DESCRIPTOR_UNIFORM_TAG then MEMX_REGION_UNIFORM
      else if tag = MEMX_DESCRIPTOR_DENSE_TAG then MEMX_REGION_DENSE
      else MEMX_REGION_EMPTY)"

definition memx_uniform_decode :: "u64 \<Rightarrow> u64" where
  "memx_uniform_decode region = drop_bit 2 region"

definition memx_uniform_encode :: "u64 \<Rightarrow> u64" where
  "memx_uniform_encode handle = push_bit 2 handle OR MEMX_DESCRIPTOR_UNIFORM_TAG"

definition memx_dense_decode :: "u64 \<Rightarrow> u64" where
  "memx_dense_decode region = region AND NOT MEMX_DESCRIPTOR_TAG_MASK"

definition memx_dense_encode :: "u64 \<Rightarrow> u64" where
  "memx_dense_encode dense = dense OR MEMX_DESCRIPTOR_DENSE_TAG"

lemmas descriptor_defs =
  MEMX_DESCRIPTOR_TAG_MASK_def MEMX_DESCRIPTOR_UNIFORM_TAG_def MEMX_DESCRIPTOR_DENSE_TAG_def
  MEMX_INLINE_HANDLE_MAX_def memx_region_type_decode_def memx_uniform_decode_def
  memx_uniform_encode_def memx_dense_decode_def memx_dense_encode_def

section \<open>Bit patterns\<close>

lemma bit_3_iff: "bit (3 :: u64) n \<longleftrightarrow> n < 2"
proof -
  have "(3 :: u64) = mask 2" by (simp add: mask_eq_exp_minus_1)
  then show ?thesis by (simp only: bit_mask_iff) auto
qed

lemma bit_and_3: "bit (x AND 3 :: u64) n \<longleftrightarrow> n < 2 \<and> bit x n"
  by (simp only: bit_and_iff bit_3_iff) auto

lemma bit_and_not_3: "bit (x AND NOT 3 :: u64) n \<longleftrightarrow> 2 \<le> n \<and> bit x n"
  by (simp only: bit_and_iff bit_not_iff bit_3_iff) (auto dest: bit_imp_le_length)

lemma bit_2_iff: "bit (2 :: u64) n \<longleftrightarrow> n = 1"
  using bit_exp_iff [where ?'a = "64 word", of 1 n] by auto

lemma inline_handle_iff: "h \<le> MEMX_INLINE_HANDLE_MAX \<longleftrightarrow> unat h < 2 ^ 62"
proof -
  have "unat MEMX_INLINE_HANDLE_MAX = 4611686018427387903"
    unfolding MEMX_INLINE_HANDLE_MAX_def by (subst unat_drop) simp
  then show ?thesis by (auto simp: word_le_nat_alt)
qed

lemma aligned4_iff: "p AND 3 = (0 :: u64) \<longleftrightarrow> 4 dvd unat p"
  using and_mask_eq_0_iff [of p 2] by (simp add: mask_eq_exp_minus_1)

lemma aligned8_aligned4: "p mod 8 = (0 :: u64) \<Longrightarrow> p AND 3 = 0"
  by (simp add: aligned4_iff unat_eq_iff [of "p mod 8"] unat_mod_distrib) presburger

section \<open>Uniform descriptors\<close>

lemma memx_uniform_encode_nonzero: "memx_uniform_encode h \<noteq> 0"
proof -
  have "bit (memx_uniform_encode h) 0"
    by (simp add: descriptor_defs bit_simps)
  then show ?thesis by auto
qed

lemma memx_uniform_encode_tag: "memx_uniform_encode h AND 3 = 1"
  unfolding descriptor_defs
  by (rule bit_word_eqI, subst bit_and_3) (auto simp: bit_simps)

lemma memx_uniform_roundtrip:
  assumes "h \<le> MEMX_INLINE_HANDLE_MAX"
  shows "memx_uniform_decode (memx_uniform_encode h) = h"
proof (rule bit_word_eqI)
  fix n assume "n < LENGTH(64)"
  have "unat (take_bit 62 h) = unat h"
    using assms by (subst unsigned_take_bit_eq) (simp add: inline_handle_iff take_bit_eq_mod)
  then have "h = take_bit 62 h" by (simp only: unat_eq_iff)
  then have "bit h n \<Longrightarrow> n < 62"
    by (metis bit_take_bit_iff)
  then show "bit (memx_uniform_decode (memx_uniform_encode h)) n = bit h n"
    by (auto simp: descriptor_defs bit_simps)
qed

lemma memx_uniform_decode_inline: "memx_uniform_decode d \<le> MEMX_INLINE_HANDLE_MAX"
  by (simp add: inline_handle_iff memx_uniform_decode_def unat_drop)
     (use unat_lt_64 [of d] in linarith)

lemma memx_uniform_decode_valid: "memx_uniform_decode d \<noteq> MEMX_HANDLE_INVALID"
  using memx_uniform_decode_inline [of d]
  by (auto simp: inline_handle_iff MEMX_HANDLE_INVALID_def)

section \<open>Dense descriptors\<close>

lemma memx_dense_encode_tag: "p AND 3 = 0 \<Longrightarrow> memx_dense_encode p AND 3 = 2"
  by (simp add: descriptor_defs bit.conj_disj_distrib2)

lemma memx_dense_encode_nonzero: "memx_dense_encode p \<noteq> 0"
proof -
  have "bit (memx_dense_encode p) 1"
    by (simp add: descriptor_defs bit_simps bit_2_iff)
  then show ?thesis by auto
qed

lemma memx_dense_roundtrip:
  assumes "p AND 3 = 0"
  shows "memx_dense_decode (memx_dense_encode p) = p"
proof -
  have low: "\<not> bit p n" if "n < 2" for n
    using assms that by (metis bit_and_3 bit_0_eq bot_apply bot_bool_def)
  have two: "\<not> bit (2 :: u64) n" if "2 \<le> n" for n
    using that by (simp only: bit_2_iff)
  show ?thesis
    unfolding memx_dense_decode_def memx_dense_encode_def MEMX_DESCRIPTOR_TAG_MASK_def
      MEMX_DESCRIPTOR_DENSE_TAG_def
    using low two by (intro bit_word_eqI, subst bit_and_not_3) (metis bit_or_iff not_less)
qed

section \<open>Decoding\<close>

lemma memx_region_type_decode_simps [simp]:
  "memx_region_type_decode 0 = MEMX_REGION_EMPTY"
  "memx_region_type_decode (memx_uniform_encode h) = MEMX_REGION_UNIFORM"
  "p AND 3 = 0 \<Longrightarrow> memx_region_type_decode (memx_dense_encode p) = MEMX_REGION_DENSE"
  using memx_uniform_encode_nonzero [of h] memx_uniform_encode_tag [of h]
    memx_dense_encode_nonzero [of p] memx_dense_encode_tag [of p]
  by (simp_all add: memx_region_type_decode_def MEMX_DESCRIPTOR_TAG_MASK_def
      MEMX_DESCRIPTOR_UNIFORM_TAG_def MEMX_DESCRIPTOR_DENSE_TAG_def Let_def)

end
