(* ===== verification/Memx_Memory.thy ===== *)
theory Memx_Memory
  imports Memx_Descriptor
begin

text \<open>
  The memory the index lives in.  Every block the allocator callbacks hand out is an object of
  an explicit store, keyed by its address; a block is raw until the code has initialised it and
  then has the element type the code uses it at.  An operation returns \<^term>\<open>None\<close> where the C
  program would have undefined behaviour (a null callback, a read or write outside a live block
  of the right type, a release of a block that is not live) or would not return, so that a
  theorem \<open>f x = Some y\<close> is at once a statement of memory safety and of termination.
\<close>

datatype memx_object =
    RawBlock u64              \<comment> \<open>allocated and not initialised, with its size in bytes\<close>
  | IndexBlock                \<comment> \<open>\<^verbatim>\<open>struct memx_index\<close>; its fields are a record of their own\<close>
  | RegionTable "u64 list"    \<comment> \<open>\<^verbatim>\<open>memx_region_t[]\<close>: the bounded directory or a sparse leaf\<close>
  | LeafRoots "u64 list"      \<comment> \<open>\<^verbatim>\<open>memx_sparse_leaf_t *[]\<close>: the sparse root\<close>
  | HandleTable "u64 list"    \<comment> \<open>\<^verbatim>\<open>memx_handle_t[]\<close>: a dense region, flat table or overlay\<close>

text \<open>
  \<open>huge_page_cache\<close> is the static \<^verbatim>\<open>cached_size\<close> of \<^verbatim>\<open>memx_host_huge_page_size\<close>.
  \<open>maps\<close> holds what \<^verbatim>\<open>mmap\<close> supplies rather than the allocator: the accessible handle arrays of
  frozen overlays, keyed by the address of their first element.
\<close>

record 'c memx_world =
  heap :: "u64 \<rightharpoonup> memx_object"
  maps :: "u64 \<rightharpoonup> u64 list"
  huge_page_cache :: u64
  ctx :: 'c

text \<open>Bytes an initialised object needs: 8 per word; \<open>sizeof(memx_index_t)\<close> is fixed below.\<close>

definition sizeof_memx_index :: u64 where
  "sizeof_memx_index = 200"

fun object_bytes :: "memx_object \<Rightarrow> nat" where
  "object_bytes (RawBlock n) = unat n"
| "object_bytes IndexBlock = unat sizeof_memx_index"
| "object_bytes (RegionTable xs) = 8 * length xs"
| "object_bytes (LeafRoots xs) = 8 * length xs"
| "object_bytes (HandleTable xs) = 8 * length xs"

section \<open>Allocator calls\<close>

text \<open>The indirect calls \<^verbatim>\<open>allocator.allocate(context, size)\<close> and \<^verbatim>\<open>allocator.deallocate\<close>.\<close>

definition call_allocate ::
  "'c memx_allocator \<Rightarrow> u64 \<Rightarrow> 'c memx_world \<Rightarrow> (u64 \<times> 'c memx_world) option" where
  "call_allocate A n w =
     (case allocate A of
        None \<Rightarrow> None
      | Some f \<Rightarrow>
          (let (p, c) = f (ctx w) n in
           if p = 0 then Some (0, w\<lparr>ctx := c\<rparr>)
           else Some (p, w\<lparr>heap := (heap w)(p \<mapsto> RawBlock n), ctx := c\<rparr>)))"

definition memx_deallocate ::
  "'c memx_allocator \<Rightarrow> u64 \<Rightarrow> 'c memx_world \<Rightarrow> 'c memx_world option" where
  "memx_deallocate A p w =
     (case deallocate A of
        None \<Rightarrow> None
      | Some g \<Rightarrow>
          (case heap w p of
             None \<Rightarrow> None
           | Some _ \<Rightarrow> Some (w\<lparr>heap := (heap w)(p := None), ctx := g (ctx w) p\<rparr>)))"

definition memx_allocate ::
  "'c memx_allocator \<Rightarrow> u64 \<Rightarrow> 'c memx_world \<Rightarrow> (u64 \<times> 'c memx_world) option" where
  "memx_allocate A n w = do {
     (pointer, w) \<leftarrow> call_allocate A n w;
     if pointer \<noteq> 0 \<and> pointer mod MEMX_INTERNAL_ALIGNMENT \<noteq> 0
     then do { w \<leftarrow> memx_deallocate A pointer w; Some (0, w) }
     else Some (pointer, w)
   }"

section \<open>Typed access\<close>

definition init_object :: "u64 \<Rightarrow> memx_object \<Rightarrow> 'c memx_world \<Rightarrow> 'c memx_world option" where
  "init_object p obj w =
     (case heap w p of
        Some (RawBlock n) \<Rightarrow>
          (if object_bytes obj \<le> unat n then Some (w\<lparr>heap := (heap w)(p \<mapsto> obj)\<rparr>) else None)
      | _ \<Rightarrow> None)"

definition read_region :: "'c memx_world \<Rightarrow> u64 \<times> nat \<Rightarrow> u64 option" where
  "read_region w slot =
     (case heap w (fst slot) of
        Some (RegionTable xs) \<Rightarrow> (if snd slot < length xs then Some (xs ! snd slot) else None)
      | _ \<Rightarrow> None)"

definition write_region :: "u64 \<times> nat \<Rightarrow> u64 \<Rightarrow> 'c memx_world \<Rightarrow> 'c memx_world option" where
  "write_region slot v w =
     (case heap w (fst slot) of
        Some (RegionTable xs) \<Rightarrow>
          (if snd slot < length xs
           then Some (w\<lparr>heap := (heap w)(fst slot \<mapsto> RegionTable (xs[snd slot := v]))\<rparr>)
           else None)
      | _ \<Rightarrow> None)"

definition read_root :: "'c memx_world \<Rightarrow> u64 \<Rightarrow> nat \<Rightarrow> u64 option" where
  "read_root w p i =
     (case heap w p of
        Some (LeafRoots xs) \<Rightarrow> (if i < length xs then Some (xs ! i) else None)
      | _ \<Rightarrow> None)"

definition write_root :: "u64 \<Rightarrow> nat \<Rightarrow> u64 \<Rightarrow> 'c memx_world \<Rightarrow> 'c memx_world option" where
  "write_root p i v w =
     (case heap w p of
        Some (LeafRoots xs) \<Rightarrow>
          (if i < length xs
           then Some (w\<lparr>heap := (heap w)(p \<mapsto> LeafRoots (xs[i := v]))\<rparr>) else None)
      | _ \<Rightarrow> None)"

definition read_handle :: "'c memx_world \<Rightarrow> u64 \<Rightarrow> nat \<Rightarrow> u64 option" where
  "read_handle w p i =
     (case heap w p of
        Some (HandleTable xs) \<Rightarrow> (if i < length xs then Some (xs ! i) else None)
      | _ \<Rightarrow> None)"

definition write_handle :: "u64 \<Rightarrow> nat \<Rightarrow> u64 \<Rightarrow> 'c memx_world \<Rightarrow> 'c memx_world option" where
  "write_handle p i v w =
     (case heap w p of
        Some (HandleTable xs) \<Rightarrow>
          (if i < length xs
           then Some (w\<lparr>heap := (heap w)(p \<mapsto> HandleTable (xs[i := v]))\<rparr>) else None)
      | _ \<Rightarrow> None)"

definition read_map :: "'c memx_world \<Rightarrow> u64 \<Rightarrow> nat \<Rightarrow> u64 option" where
  "read_map w p i =
     (case maps w p of
        Some xs \<Rightarrow> (if i < length xs then Some (xs ! i) else None)
      | None \<Rightarrow> None)"

text \<open>\<^verbatim>\<open>for (i = 0; i < count; ++i) entries[first + i] = v\<close>\<close>

fun fill_handles :: "u64 \<Rightarrow> nat \<Rightarrow> nat \<Rightarrow> u64 \<Rightarrow> 'c memx_world \<Rightarrow> 'c memx_world option" where
  "fill_handles p first 0 v w = Some w"
| "fill_handles p first (Suc n) v w = do {
     w \<leftarrow> write_handle p first v w;
     fill_handles p (Suc first) n v w
   }"

section \<open>What the callbacks promise\<close>

text \<open>
  The contract of the two callbacks, as \<^verbatim>\<open>memx.h\<close> and every C allocator state it: a non-null
  result is the address of a block that is not live, which is live from then on; a release
  ends the life of a live block.  \<open>live\<close> reads the live addresses off the callback state.
  Alignment is not assumed, since the code tests it.
\<close>

definition allocator_contract :: "'c memx_allocator \<Rightarrow> ('c \<Rightarrow> u64 set) \<Rightarrow> bool" where
  "allocator_contract A live \<longleftrightarrow>
     (\<exists>f g. allocate A = Some f \<and> deallocate A = Some g
       \<and> (\<forall>c n p c'. f c n = (p, c') \<longrightarrow>
             (if p = 0 then live c' = live c
              else p \<notin> live c \<and> live c' = insert p (live c)))
       \<and> (\<forall>c p. p \<noteq> 0 \<longrightarrow> p \<in> live c \<longrightarrow> live (g c p) = live c - {p}))"

text \<open>The store holds exactly the live blocks, and nothing lives at the null pointer.\<close>

definition world_ok :: "'c memx_allocator \<Rightarrow> ('c \<Rightarrow> u64 set) \<Rightarrow> 'c memx_world \<Rightarrow> bool" where
  "world_ok A live w \<longleftrightarrow>
     allocator_contract A live \<and> dom (heap w) = live (ctx w) \<and> heap w 0 = None"

lemma world_ok_heap_upd:
  "world_ok A live w \<Longrightarrow> heap w p \<noteq> None \<Longrightarrow>
   world_ok A live (w\<lparr>heap := (heap w)(p \<mapsto> obj)\<rparr>)"
  by (auto simp: world_ok_def)

lemma call_allocate_cases:
  assumes "world_ok A live w"
  obtains (null) w' where "call_allocate A n w = Some (0, w')" "heap w' = heap w"
      "world_ok A live w'"
    | (block) p w' where "call_allocate A n w = Some (p, w')" "p \<noteq> 0" "heap w p = None"
      "heap w' = (heap w)(p \<mapsto> RawBlock n)" "world_ok A live w'"
proof -
  from assms obtain f g where A: "allocate A = Some f" and
    f: "\<And>c n p c'. f c n = (p, c') \<Longrightarrow>
      (if p = 0 then live c' = live c else p \<notin> live c \<and> live c' = insert p (live c))"
    by (auto simp: world_ok_def allocator_contract_def)
  obtain p c where pc: "f (ctx w) n = (p, c)" by fastforce
  from f [OF pc] assms A pc that show thesis
    by (cases "p = 0") (force simp: call_allocate_def world_ok_def)+
qed

lemma memx_deallocate_ok:
  assumes "world_ok A live w" and "heap w p \<noteq> None"
  obtains w' where "memx_deallocate A p w = Some w'" "heap w' = (heap w)(p := None)"
    "world_ok A live w'"
proof -
  from assms obtain g where A: "deallocate A = Some g" and
    g: "\<And>c p. p \<noteq> 0 \<Longrightarrow> p \<in> live c \<Longrightarrow> live (g c p) = live c - {p}"
    by (auto simp: world_ok_def allocator_contract_def)
  from assms have "p \<in> live (ctx w)" "p \<noteq> 0" by (auto simp: world_ok_def)
  with assms A g [of p "ctx w"] that show thesis
    by (auto simp: memx_deallocate_def world_ok_def)
qed

lemma memx_allocate_cases:
  assumes ok: "world_ok A live w"
  obtains (null) w' where "memx_allocate A n w = Some (0, w')" "heap w' = heap w"
      "world_ok A live w'"
    | (block) p w' where "memx_allocate A n w = Some (p, w')" "p \<noteq> 0" "p mod 8 = 0"
      "heap w p = None" "heap w' = (heap w)(p \<mapsto> RawBlock n)" "world_ok A live w'"
  using ok
proof (cases rule: call_allocate_cases [where n = n])
  case (null w')
  then show ?thesis using that(1) by (simp add: memx_allocate_def)
next
  case (block p w')
  show ?thesis
  proof (cases "p mod 8 = 0")
    case True
    with block that(2) show ?thesis
      by (simp add: memx_allocate_def MEMX_INTERNAL_ALIGNMENT_def)
  next
    case False
    from block have "heap w' p \<noteq> None" by simp
    with \<open>world_ok A live w'\<close> obtain w'' where
      "memx_deallocate A p w' = Some w''" "heap w'' = (heap w')(p := None)" "world_ok A live w''"
      by (rule memx_deallocate_ok)
    with block False that(1) show ?thesis
      by (simp add: memx_allocate_def MEMX_INTERNAL_ALIGNMENT_def fun_upd_idem)
  qed
qed

section \<open>Access in bounds\<close>

lemma init_object_ok:
  "heap w p = Some (RawBlock n) \<Longrightarrow> object_bytes obj \<le> unat n \<Longrightarrow>
   init_object p obj w = Some (w\<lparr>heap := (heap w)(p \<mapsto> obj)\<rparr>)"
  by (simp add: init_object_def)

lemma read_region_ok [simp]:
  "heap w p = Some (RegionTable ds) \<Longrightarrow> i < length ds \<Longrightarrow> read_region w (p, i) = Some (ds ! i)"
  by (simp add: read_region_def)

lemma write_region_ok [simp]:
  "heap w p = Some (RegionTable ds) \<Longrightarrow> i < length ds \<Longrightarrow>
   write_region (p, i) v w = Some (w\<lparr>heap := (heap w)(p \<mapsto> RegionTable (ds[i := v]))\<rparr>)"
  by (simp add: write_region_def)

lemma read_root_ok [simp]:
  "heap w p = Some (LeafRoots rs) \<Longrightarrow> i < length rs \<Longrightarrow> read_root w p i = Some (rs ! i)"
  by (simp add: read_root_def)

lemma write_root_ok [simp]:
  "heap w p = Some (LeafRoots rs) \<Longrightarrow> i < length rs \<Longrightarrow>
   write_root p i v w = Some (w\<lparr>heap := (heap w)(p \<mapsto> LeafRoots (rs[i := v]))\<rparr>)"
  by (simp add: write_root_def)

lemma read_handle_ok [simp]:
  "heap w p = Some (HandleTable hs) \<Longrightarrow> i < length hs \<Longrightarrow> read_handle w p i = Some (hs ! i)"
  by (simp add: read_handle_def)

text \<open>Writing \<open>n\<close> handles from position \<open>a\<close>: a splice of the table.\<close>

lemma fill_handles_ok:
  "heap w p = Some (HandleTable hs) \<Longrightarrow> a + n \<le> length hs \<Longrightarrow>
   \<exists>w'. fill_handles p a n v w = Some w'
     \<and> heap w' = (heap w)(p \<mapsto> HandleTable (take a hs @ replicate n v @ drop (a + n) hs))
     \<and> ctx w' = ctx w"
proof (induction p a n v w arbitrary: hs rule: fill_handles.induct)
  case (1 p a v w)
  then show ?case by (auto intro: exI [of _ w])
next
  case (2 p a n v w)
  let ?w = "w\<lparr>heap := (heap w)(p \<mapsto> HandleTable (hs[a := v]))\<rparr>"
  from "2.prems" have wr: "write_handle p a v w = Some ?w"
    by (simp add: write_handle_def)
  have "\<exists>w'. fill_handles p (Suc a) n v ?w = Some w'
      \<and> heap w' = (heap ?w)(p \<mapsto> HandleTable
          (take (Suc a) (hs[a := v]) @ replicate n v @ drop (Suc a + n) (hs[a := v])))
      \<and> ctx w' = ctx ?w"
    using "2.prems" by (intro "2.IH" [OF wr]) auto
  moreover have "take (Suc a) (hs[a := v]) = take a hs @ [v]"
    using "2.prems" by (simp add: take_Suc_conv_app_nth)
  ultimately show ?case using wr by (auto simp: fun_eq_iff)
qed

lemma fill_handles_world_ok:
  "world_ok A live w \<Longrightarrow> heap w p \<noteq> None \<Longrightarrow>
   heap w' = (heap w)(p \<mapsto> obj) \<Longrightarrow> ctx w' = ctx w \<Longrightarrow> world_ok A live w'"
  by (auto simp: world_ok_def)

end
