(* ===== verification/Memx_Index.thy ===== *)
theory Memx_Index
  imports Memx_Memory
begin

text \<open>
  \<^verbatim>\<open>struct memx_index\<close> and the operations of \<^verbatim>\<open>src/memx.c\<close> that create, address, read and
  destroy an index: \<^verbatim>\<open>memx_index_create\<close>, \<^verbatim>\<open>memx_address_to_region\<close>, the two
  \<^verbatim>\<open>memx_get_region\<close> functions, leaf pruning, \<^verbatim>\<open>memx_lookup_address\<close>,
  \<^verbatim>\<open>memx_region_type_at\<close> and \<^verbatim>\<open>memx_index_destroy\<close>.
\<close>

section \<open>State\<close>

text \<open>
  The fields of \<^verbatim>\<open>struct memx_index\<close>; \<open>self\<close> is the address of the structure, which the code
  passes to the deallocator, and \<open>directory\<close> is the union of the bounded and sparse pointers.
\<close>

record 'c memx_index =
  config :: "'c memx_config"
  self :: u64
  region_count :: u64
  granules_per_region :: u64
  dense_bytes :: u64
  sparse_region_bits :: u32
  sparse_leaf_bits :: u32
  sparse_root_count :: u64
  sparse_leaf_count :: u64
  directory :: u64
  allocated_sparse_leaves :: u64
  dense_regions :: u64
  uniform_regions :: u64
  flat_mode :: bool
  overlay_mode :: bool
  flat_entries :: u64
  overlay_entries :: u64
  overlay_mapping :: u64
  overlay_bytes :: u64
  overlay_private_bytes :: u64

abbreviation bounded :: "'c memx_index \<Rightarrow> bool" where
  "bounded ix \<equiv> directory_mode (config ix) = MEMX_DIRECTORY_BOUNDED"

abbreviation index_allocator :: "'c memx_index \<Rightarrow> 'c memx_allocator" where
  "index_allocator ix \<equiv> allocator (config ix)"

text \<open>The zeroed \<^verbatim>\<open>temporary\<close> of \<^verbatim>\<open>memx_index_create\<close>, with its configuration.\<close>

definition blank_index :: "'c memx_config \<Rightarrow> u64 \<Rightarrow> 'c memx_index" where
  "blank_index cfg p =
     \<lparr>config = cfg, self = p, region_count = 0, granules_per_region = 0, dense_bytes = 0,
      sparse_region_bits = 0, sparse_leaf_bits = 0, sparse_root_count = 0,
      sparse_leaf_count = 0, directory = 0, allocated_sparse_leaves = 0, dense_regions = 0,
      uniform_regions = 0, flat_mode = False, overlay_mode = False, flat_entries = 0,
      overlay_entries = 0, overlay_mapping = 0, overlay_bytes = 0, overlay_private_bytes = 0\<rparr>"

section \<open>Creation\<close>

text \<open>The bounded branch: the descriptor array, one EMPTY descriptor per region.\<close>

definition create_bounded ::
  "'c memx_index \<Rightarrow> 'c memx_world \<Rightarrow> (memx_status \<times> 'c memx_index \<times> 'c memx_world) option" where
  "create_bounded ix w = (
     let cfg = config ix;
         ix = ix\<lparr>region_count := drop_bit (unat (region_shift cfg)) (managed_size cfg)\<rparr>
     in if SIZE_MAX div 8 < region_count ix
        then do { w \<leftarrow> memx_deallocate (index_allocator ix) (self ix) w;
                  Some (MEMX_ERROR_OUT_OF_MEMORY, ix, w) }
        else do {
          (p, w) \<leftarrow> memx_allocate (index_allocator ix) (region_count ix * 8) w;
          if p = 0
          then do { w \<leftarrow> memx_deallocate (index_allocator ix) (self ix) w;
                    Some (MEMX_ERROR_OUT_OF_MEMORY, ix, w) }
          else do {
            w \<leftarrow> init_object p
                  (RegionTable (replicate (unat (region_count ix)) memx_region_init)) w;
            Some (MEMX_OK, ix\<lparr>directory := p\<rparr>, w)
          }
        })"

text \<open>The sparse branch: the root array of null leaf pointers.\<close>

definition create_sparse ::
  "'c memx_index \<Rightarrow> 'c memx_world \<Rightarrow> (memx_status \<times> 'c memx_index \<times> 'c memx_world) option" where
  "create_sparse ix w = (
     let cfg = config ix;
         rb = address_bits cfg - region_shift cfg;
         lb = rb div 2;
         ix = ix\<lparr>sparse_region_bits := rb, sparse_leaf_bits := lb,
                 sparse_root_count := push_bit (unat (rb - lb)) 1,
                 sparse_leaf_count := push_bit (unat lb) 1\<rparr>
     in if SIZE_MAX div 8 < sparse_root_count ix
        then do { w \<leftarrow> memx_deallocate (index_allocator ix) (self ix) w;
                  Some (MEMX_ERROR_OUT_OF_MEMORY, ix, w) }
        else do {
          (p, w) \<leftarrow> memx_allocate (index_allocator ix) (sparse_root_count ix * 8) w;
          if p = 0
          then do { w \<leftarrow> memx_deallocate (index_allocator ix) (self ix) w;
                    Some (MEMX_ERROR_OUT_OF_MEMORY, ix, w) }
          else do {
            w \<leftarrow> init_object p (LeafRoots (replicate (unat (sparse_root_count ix)) 0)) w;
            Some (MEMX_OK,
                  ix\<lparr>directory := p, region_count := push_bit (unat rb) 1\<rparr>, w)
          }
        })"

definition memx_index_create ::
  "'c libc \<Rightarrow> 'c memx_config option \<Rightarrow> bool \<Rightarrow> 'c memx_world
     \<Rightarrow> (memx_status \<times> 'c memx_index option \<times> 'c memx_world) option" where
  "memx_index_create lc input out_index_present w =
     (case input of
        None \<Rightarrow> Some (MEMX_ERROR_INVALID_ARGUMENT, None, w)
      | Some cfg \<Rightarrow>
         (if \<not> out_index_present then Some (MEMX_ERROR_INVALID_ARGUMENT, None, w)
          else
            let (status, cfg) = memx_validate_config lc cfg in
            if status \<noteq> MEMX_OK then Some (status, None, w)
            else do {
              (p, w) \<leftarrow> call_allocate (allocator cfg) sizeof_memx_index w;
              if p = 0 then Some (MEMX_ERROR_OUT_OF_MEMORY, None, w)
              else if p mod MEMX_INTERNAL_ALIGNMENT \<noteq> 0
              then do { w \<leftarrow> memx_deallocate (allocator cfg) p w;
                        Some (MEMX_ERROR_OUT_OF_MEMORY, None, w) }
              else do {
                w \<leftarrow> init_object p IndexBlock w;
                let ix = (blank_index cfg p)
                           \<lparr>granules_per_region :=
                              push_bit (unat (region_shift cfg - granule_shift cfg)) 1\<rparr>;
                if SIZE_MAX div 8 < granules_per_region ix
                then do { w \<leftarrow> memx_deallocate (allocator cfg) p w;
                          Some (MEMX_ERROR_UNSUPPORTED, None, w) }
                else do {
                  (status, ix, w) \<leftarrow>
                     (if directory_mode cfg = MEMX_DIRECTORY_BOUNDED
                      then create_bounded ix w else create_sparse ix w);
                  if status \<noteq> MEMX_OK then Some (status, None, w)
                  else if SIZE_MAX - 8 < (granules_per_region ix - 1) * 8
                  then do { w \<leftarrow> memx_deallocate (allocator cfg) (directory ix) w;
                            w \<leftarrow> memx_deallocate (allocator cfg) p w;
                            Some (MEMX_ERROR_OUT_OF_MEMORY, None, w) }
                  else Some (MEMX_OK,
                             Some (ix\<lparr>dense_bytes := 8 + (granules_per_region ix - 1) * 8\<rparr>), w)
                }
              }
            }))"

section \<open>Addressing\<close>

text \<open>\<^term>\<open>None\<close> is the C result \<^verbatim>\<open>false\<close>; otherwise the region and granule indices.\<close>

definition memx_address_to_region :: "'c memx_index \<Rightarrow> u64 \<Rightarrow> (u64 \<times> u64) option" where
  "memx_address_to_region ix address =
     (let cfg = config ix;
          split = (\<lambda>relative :: u64.
             Some (drop_bit (unat (region_shift cfg)) relative,
                   drop_bit (unat (granule_shift cfg)) relative AND (granules_per_region ix - 1)))
      in if bounded ix then
           (if address < base_address cfg then None
            else let relative = address - base_address cfg in
                 if managed_size cfg \<le> relative then None else split relative)
         else if address_bits cfg < 64 \<and> drop_bit (unat (address_bits cfg)) address \<noteq> 0 then None
         else split address)"

text \<open>
  A region slot is the address of its table and the position in it; the outer \<^term>\<open>None\<close> is
  undefined behaviour, the inner one a null pointer.
\<close>

definition memx_get_region ::
  "'c memx_index \<Rightarrow> u64 \<Rightarrow> 'c memx_world \<Rightarrow> (u64 \<times> nat) option option" where
  "memx_get_region ix region_index w =
     (if bounded ix then Some (Some (directory ix, unat region_index))
      else do {
        leaf \<leftarrow> read_root w (directory ix)
                  (unat (drop_bit (unat (sparse_leaf_bits ix)) region_index));
        Some (if leaf = 0 then None
              else Some (leaf, unat (region_index AND (sparse_leaf_count ix - 1))))
      })"

definition memx_get_region_mut ::
  "'c memx_index \<Rightarrow> u64 \<Rightarrow> bool \<Rightarrow> 'c memx_world
     \<Rightarrow> ((u64 \<times> nat) option \<times> 'c memx_index \<times> 'c memx_world) option" where
  "memx_get_region_mut ix region_index create w =
     (if bounded ix then Some (Some (directory ix, unat region_index), ix, w)
      else do {
        let root_index = unat (drop_bit (unat (sparse_leaf_bits ix)) region_index);
        let leaf_index = unat (region_index AND (sparse_leaf_count ix - 1));
        leaf \<leftarrow> read_root w (directory ix) root_index;
        if leaf = 0 \<and> create then do {
          let bytes = 8 + (sparse_leaf_count ix - 1) * 8;
          (leaf, w) \<leftarrow> memx_allocate (index_allocator ix) bytes w;
          if leaf = 0 then Some (None, ix, w)
          else do {
            w \<leftarrow> init_object leaf
                  (RegionTable (replicate (unat (sparse_leaf_count ix)) memx_region_init)) w;
            w \<leftarrow> write_root (directory ix) root_index leaf w;
            Some (Some (leaf, leaf_index),
                  ix\<lparr>allocated_sparse_leaves := allocated_sparse_leaves ix + 1\<rparr>, w)
          }
        }
        else Some (if leaf = 0 then None else Some (leaf, leaf_index), ix, w)
      })"

definition memx_sparse_prune_leaf ::
  "'c memx_index \<Rightarrow> u64 \<Rightarrow> 'c memx_world \<Rightarrow> ('c memx_index \<times> 'c memx_world) option" where
  "memx_sparse_prune_leaf ix region_index w =
     (if directory_mode (config ix) \<noteq> MEMX_DIRECTORY_SPARSE then Some (ix, w)
      else do {
        let root_index = unat (drop_bit (unat (sparse_leaf_bits ix)) region_index);
        leaf \<leftarrow> read_root w (directory ix) root_index;
        if leaf = 0 then Some (ix, w)
        else case heap w leaf of
               Some (RegionTable ds) \<Rightarrow>
                 (if length ds < unat (sparse_leaf_count ix) then None
                  else if \<exists>d \<in> set (take (unat (sparse_leaf_count ix)) ds). d \<noteq> 0
                  then Some (ix, w)
                  else do {
                    w \<leftarrow> write_root (directory ix) root_index 0 w;
                    w \<leftarrow> memx_deallocate (index_allocator ix) leaf w;
                    Some (ix\<lparr>allocated_sparse_leaves := allocated_sparse_leaves ix - 1\<rparr>, w)
                  })
             | _ \<Rightarrow> None
      })"

section \<open>Lookup\<close>

definition memx_region_lookup :: "'c memx_world \<Rightarrow> (u64 \<times> nat) option \<Rightarrow> u64 \<Rightarrow> u64 option" where
  "memx_region_lookup w region granule_index =
     (case region of
        None \<Rightarrow> Some MEMX_HANDLE_INVALID
      | Some slot \<Rightarrow> do {
          d \<leftarrow> read_region w slot;
          case memx_region_type_decode d of
            MEMX_REGION_EMPTY \<Rightarrow> Some MEMX_HANDLE_INVALID
          | MEMX_REGION_UNIFORM \<Rightarrow> Some (memx_uniform_decode d)
          | MEMX_REGION_DENSE \<Rightarrow> read_handle w (memx_dense_decode d) (unat granule_index)
        })"

definition memx_lookup_address ::
  "'c memx_index option \<Rightarrow> 'c memx_world \<Rightarrow> u64 \<Rightarrow> u64 option" where
  "memx_lookup_address index w address =
     (case index of
        None \<Rightarrow> Some MEMX_HANDLE_INVALID
      | Some ix \<Rightarrow>
         (case memx_address_to_region ix address of
            None \<Rightarrow> Some MEMX_HANDLE_INVALID
          | Some (region_index, granule_index) \<Rightarrow>
             (let position = drop_bit (unat (granule_shift (config ix)))
                               (address - base_address (config ix))
              in if flat_mode ix then read_handle w (flat_entries ix) (unat position)
                 else do {
                   region \<leftarrow> memx_get_region ix region_index w;
                   case region of
                     None \<Rightarrow> Some MEMX_HANDLE_INVALID
                   | Some slot \<Rightarrow>
                      (if overlay_mode ix then do {
                         d \<leftarrow> read_region w slot;
                         case memx_region_type_decode d of
                           MEMX_REGION_EMPTY \<Rightarrow> Some MEMX_HANDLE_INVALID
                         | MEMX_REGION_UNIFORM \<Rightarrow> Some (memx_uniform_decode d)
                         | MEMX_REGION_DENSE \<Rightarrow>
                             read_map w (overlay_entries ix) (unat position)
                       }
                       else memx_region_lookup w region granule_index)
                 })))"

definition memx_region_type_at ::
  "'c memx_index option \<Rightarrow> 'c memx_world \<Rightarrow> u64 \<Rightarrow> bool
     \<Rightarrow> (memx_status \<times> memx_region_type option) option" where
  "memx_region_type_at index w address out_type_present =
     (case index of
        None \<Rightarrow> Some (MEMX_ERROR_INVALID_ARGUMENT, None)
      | Some ix \<Rightarrow>
         (if \<not> out_type_present then Some (MEMX_ERROR_INVALID_ARGUMENT, None)
          else case memx_address_to_region ix address of
                 None \<Rightarrow> Some (MEMX_ERROR_OUT_OF_RANGE, None)
               | Some (region_index, granule_index) \<Rightarrow>
                  (if flat_mode ix then Some (MEMX_OK, Some MEMX_REGION_DENSE)
                   else do {
                     region \<leftarrow> memx_get_region ix region_index w;
                     case region of
                       None \<Rightarrow> Some (MEMX_OK, Some MEMX_REGION_EMPTY)
                     | Some slot \<Rightarrow> do {
                         d \<leftarrow> read_region w slot;
                         Some (MEMX_OK, Some (memx_region_type_decode d))
                       }
                   })))"

section \<open>Destruction\<close>

definition memx_region_destroy ::
  "'c memx_index \<Rightarrow> u64 \<times> nat \<Rightarrow> 'c memx_world \<Rightarrow> 'c memx_world option" where
  "memx_region_destroy ix slot w = do {
     d \<leftarrow> read_region w slot;
     w \<leftarrow> (if memx_region_type_decode d = MEMX_REGION_DENSE
          then memx_deallocate (index_allocator ix) (memx_dense_decode d) w
          else Some w);
     write_region slot memx_region_init w
   }"

text \<open>The loops over a descriptor table and over the sparse root; the last argument counts down.\<close>

fun destroy_table ::
  "'c memx_index \<Rightarrow> u64 \<Rightarrow> nat \<Rightarrow> nat \<Rightarrow> 'c memx_world \<Rightarrow> 'c memx_world option" where
  "destroy_table ix p i 0 w = Some w"
| "destroy_table ix p i (Suc n) w = do {
     w \<leftarrow> memx_region_destroy ix (p, i) w;
     destroy_table ix p (Suc i) n w
   }"

fun destroy_leaves ::
  "'c memx_index \<Rightarrow> nat \<Rightarrow> nat \<Rightarrow> 'c memx_world \<Rightarrow> 'c memx_world option" where
  "destroy_leaves ix r 0 w = Some w"
| "destroy_leaves ix r (Suc n) w = do {
     leaf \<leftarrow> read_root w (directory ix) r;
     w \<leftarrow> (if leaf = 0 then Some w
          else do {
            w \<leftarrow> destroy_table ix leaf 0 (unat (sparse_leaf_count ix)) w;
            memx_deallocate (index_allocator ix) leaf w
          });
     destroy_leaves ix (Suc r) n w
   }"

text \<open>
  \<^verbatim>\<open>munmap\<close> is the parameter of the platform; in the store it removes every array that
  lies in the unmapped range.
\<close>

definition memx_overlay_deallocate ::
  "('c \<Rightarrow> u64 \<Rightarrow> u64 \<Rightarrow> 'c) \<Rightarrow> u64 \<Rightarrow> u64 \<Rightarrow> 'c memx_world \<Rightarrow> 'c memx_world" where
  "memx_overlay_deallocate munmap mapping bytes w =
     (if mapping \<noteq> 0
      then w\<lparr>maps := (\<lambda>p. if unat mapping \<le> unat p \<and> unat p < unat mapping + unat bytes
                          then None else maps w p),
             ctx := munmap (ctx w) mapping bytes\<rparr>
      else w)"

definition memx_index_destroy ::
  "('c \<Rightarrow> u64 \<Rightarrow> u64 \<Rightarrow> 'c) \<Rightarrow> 'c memx_index option \<Rightarrow> 'c memx_world \<Rightarrow> 'c memx_world option" where
  "memx_index_destroy munmap index w =
     (case index of
        None \<Rightarrow> Some w
      | Some ix \<Rightarrow> do {
          w \<leftarrow>
            (if flat_mode ix then memx_deallocate (index_allocator ix) (flat_entries ix) w
             else if overlay_mode ix then
               memx_deallocate (index_allocator ix) (directory ix)
                 (memx_overlay_deallocate munmap (overlay_mapping ix) (overlay_bytes ix) w)
             else if bounded ix then do {
               w \<leftarrow> destroy_table ix (directory ix) 0 (unat (region_count ix)) w;
               memx_deallocate (index_allocator ix) (directory ix) w
             }
             else do {
               w \<leftarrow> destroy_leaves ix 0 (unat (sparse_root_count ix)) w;
               memx_deallocate (index_allocator ix) (directory ix) w
             });
          memx_deallocate (index_allocator ix) (self ix) w
        })"

end
