(* ===== verification/Memx_Invariant.thy ===== *)
theory Memx_Invariant
  imports Memx_Index
begin

text \<open>
  The representation invariant of an adaptive index and the abstraction it supports: the map
  from granule numbers to handles.  Section by section: the geometry that validation fixes, the
  directory as a function from region numbers to descriptors, the expansion of a descriptor,
  ownership of heap blocks, and one lemma (\<open>region_replace\<close>) that covers every way the code
  changes a region.
\<close>

section \<open>Geometry\<close>

abbreviation rshift :: "'c memx_index \<Rightarrow> nat" where
  "rshift ix \<equiv> unat (region_shift (config ix))"

abbreviation gshift :: "'c memx_index \<Rightarrow> nat" where
  "gshift ix \<equiv> unat (granule_shift (config ix))"

abbreviation per_region :: "'c memx_index \<Rightarrow> nat" where
  "per_region ix \<equiv> unat (granules_per_region ix)"

abbreviation regions :: "'c memx_index \<Rightarrow> nat" where
  "regions ix \<equiv> unat (region_count ix)"

abbreviation base_of :: "'c memx_index \<Rightarrow> nat" where
  "base_of ix \<equiv> unat (base_address (config ix))"

abbreviation leaf_size :: "'c memx_index \<Rightarrow> nat" where
  "leaf_size ix \<equiv> unat (sparse_leaf_count ix)"

text \<open>What a successful \<open>memx_index_create\<close> has established and no operation changes.\<close>

definition index_shape :: "'c memx_index \<Rightarrow> bool" where
  "index_shape ix \<longleftrightarrow>
     rshift ix < 64 \<and> gshift ix \<le> rshift ix
     \<and> per_region ix = 2 ^ (rshift ix - gshift ix) \<and> 8 * per_region ix < 2 ^ 64
     \<and> unat (dense_bytes ix) = 8 * per_region ix
     \<and> (if bounded ix then
          2 ^ rshift ix dvd base_of ix \<and> 0 < regions ix \<and> 8 * regions ix < 2 ^ 64
          \<and> unat (managed_size (config ix)) = regions ix * 2 ^ rshift ix
          \<and> base_of ix + regions ix * 2 ^ rshift ix < 2 ^ 64
        else
          directory_mode (config ix) = MEMX_DIRECTORY_SPARSE \<and> base_of ix = 0
          \<and> address_bits (config ix) \<le> 64
          \<and> regions ix * 2 ^ rshift ix = 2 ^ unat (address_bits (config ix))
          \<and> 0 < unat (address_bits (config ix))
          \<and> leaf_size ix = 2 ^ unat (sparse_leaf_bits ix) \<and> unat (sparse_leaf_bits ix) \<le> 16
          \<and> regions ix = unat (sparse_root_count ix) * leaf_size ix
          \<and> regions ix \<le> 2 ^ 32)"

definition covered :: "'c memx_index \<Rightarrow> u64 \<Rightarrow> bool" where
  "covered ix a \<longleftrightarrow> base_of ix \<le> unat a \<and> unat a < base_of ix + regions ix * 2 ^ rshift ix"

definition granule_of :: "'c memx_index \<Rightarrow> u64 \<Rightarrow> nat" where
  "granule_of ix a = (unat a - base_of ix) div 2 ^ gshift ix"

lemma per_region_pos: "index_shape ix \<Longrightarrow> 0 < per_region ix"
  by (simp add: index_shape_def)

lemma region_bytes: "index_shape ix \<Longrightarrow> 2 ^ rshift ix = per_region ix * 2 ^ gshift ix"
  by (auto simp: index_shape_def power_add [symmetric])

lemma granule_div_region:
  "index_shape ix \<Longrightarrow> x div 2 ^ gshift ix div per_region ix = x div 2 ^ rshift ix"
  by (simp add: region_bytes div_mult2_eq [symmetric] mult.commute)

lemma base_dvd: "index_shape ix \<Longrightarrow> 2 ^ rshift ix dvd base_of ix"
  by (auto simp: index_shape_def split: if_splits)

lemma shape_end: "index_shape ix \<Longrightarrow> base_of ix + regions ix * 2 ^ rshift ix \<le> 2 ^ 64"
  by (auto simp: index_shape_def word_le_nat_alt split: if_splits
      intro: power_increasing [of _ 64 "2 :: nat", simplified])

lemma granule_of_lt:
  assumes "index_shape ix" "covered ix a"
  shows "granule_of ix a < regions ix * per_region ix"
  unfolding granule_of_def
  using assms by (intro less_mult_imp_div_less)
    (auto simp: covered_def region_bytes mult.assoc)

lemma memx_address_to_region_spec:
  assumes shape: "index_shape ix"
  shows "memx_address_to_region ix a =
    (if covered ix a
     then Some (of_nat (granule_of ix a div per_region ix), of_nat (granule_of ix a mod per_region ix))
     else None)"
proof -
  have mask: "granules_per_region ix - 1 = mask (rshift ix - gshift ix)"
  proof -
    have "rshift ix - gshift ix < 64" "per_region ix = 2 ^ (rshift ix - gshift ix)"
      using shape by (auto simp: index_shape_def)
    then have "granules_per_region ix = 2 ^ (rshift ix - gshift ix)"
      unfolding unat_eq_iff by (simp only: unat_pow2)
    then show ?thesis by (simp add: pow2_minus_1)
  qed
  have split: "drop_bit (rshift ix) x = of_nat (unat x div 2 ^ gshift ix div per_region ix)"
    "drop_bit (gshift ix) x AND (granules_per_region ix - 1)
       = of_nat (unat x div 2 ^ gshift ix mod per_region ix)" for x :: u64
  proof -
    show "drop_bit (rshift ix) x = of_nat (unat x div 2 ^ gshift ix div per_region ix)"
      by (subst granule_div_region [OF shape]) (simp only: unat_drop [symmetric] of_nat_unat ucast_id)
    have "per_region ix = 2 ^ (rshift ix - gshift ix)"
      using shape by (simp add: index_shape_def)
    then show "drop_bit (gshift ix) x AND (granules_per_region ix - 1)
       = of_nat (unat x div 2 ^ gshift ix mod per_region ix)"
      unfolding mask unat_drop [symmetric] by (simp only: unat_and_mask [symmetric]) simp
  qed
  show ?thesis
  proof (cases "bounded ix")
    case True
    then have m: "unat (managed_size (config ix)) = regions ix * 2 ^ rshift ix"
      using shape by (simp add: index_shape_def)
    show ?thesis
      using True by (auto simp: memx_address_to_region_def Let_def split covered_def granule_of_def
          word_less_nat_alt word_le_nat_alt unat_sub m not_less)
  next
    case False
    let ?ab = "unat (address_bits (config ix))"
    have sp: "base_of ix = 0" "regions ix * 2 ^ rshift ix = 2 ^ ?ab"
      "address_bits (config ix) \<le> 64" "base_address (config ix) = 0"
      using shape False by (auto simp: index_shape_def unat_eq_iff)
    have "drop_bit ?ab a = 0 \<longleftrightarrow> unat a < 2 ^ ?ab"
      unfolding unat_eq_iff by (simp add: unat_drop div_eq_0_iff)
    moreover have "unat a < 2 ^ ?ab" if "\<not> address_bits (config ix) < 64"
    proof -
      from that sp(3) have "address_bits (config ix) = 64" by simp
      then show ?thesis by simp
    qed
    ultimately have "address_bits (config ix) < 64 \<and> drop_bit ?ab a \<noteq> 0 \<longleftrightarrow> \<not> covered ix a"
      by (auto simp: covered_def sp)
    then show ?thesis
      using False sp by (simp add: memx_address_to_region_def Let_def split granule_of_def)
  qed
qed

section \<open>The directory as a function of the region number\<close>

definition leaf_at :: "'c memx_index \<Rightarrow> (u64 \<rightharpoonup> memx_object) \<Rightarrow> nat \<Rightarrow> u64" where
  "leaf_at ix h r =
     (case h (directory ix) of
        Some (LeafRoots rts) \<Rightarrow> (if r < length rts then rts ! r else 0)
      | _ \<Rightarrow> 0)"

text \<open>Where the descriptor of region \<open>i\<close> is stored, if its table exists.\<close>

definition rslot :: "'c memx_index \<Rightarrow> (u64 \<rightharpoonup> memx_object) \<Rightarrow> nat \<Rightarrow> (u64 \<times> nat) option" where
  "rslot ix h i =
     (if bounded ix then Some (directory ix, i)
      else let leaf = leaf_at ix h (i div leaf_size ix) in
           if leaf = 0 then None else Some (leaf, i mod leaf_size ix))"

text \<open>The descriptor of region \<open>i\<close>; a missing leaf reads as EMPTY.\<close>

definition rdesc :: "'c memx_index \<Rightarrow> (u64 \<rightharpoonup> memx_object) \<Rightarrow> nat \<Rightarrow> u64" where
  "rdesc ix h i =
     (case rslot ix h i of
        None \<Rightarrow> 0
      | Some (p, j) \<Rightarrow> (case h p of Some (RegionTable ds) \<Rightarrow> ds ! j | _ \<Rightarrow> 0))"

text \<open>The blocks that hold descriptors and leaf pointers.\<close>

definition leaf_blocks :: "'c memx_index \<Rightarrow> (u64 \<rightharpoonup> memx_object) \<Rightarrow> u64 set" where
  "leaf_blocks ix h = (if bounded ix then {} else {p. p \<noteq> 0 \<and> (\<exists>r. leaf_at ix h r = p)})"

definition dir_ok :: "'c memx_index \<Rightarrow> (u64 \<rightharpoonup> memx_object) \<Rightarrow> bool" where
  "dir_ok ix h \<longleftrightarrow>
     (if bounded ix then
        \<exists>ds. h (directory ix) = Some (RegionTable ds) \<and> length ds = regions ix
      else
        (\<exists>rts. h (directory ix) = Some (LeafRoots rts)
           \<and> length rts = unat (sparse_root_count ix))
        \<and> (\<forall>r. leaf_at ix h r \<noteq> 0 \<longrightarrow>
             (\<exists>ds. h (leaf_at ix h r) = Some (RegionTable ds) \<and> length ds = leaf_size ix))
        \<and> (\<forall>r s. leaf_at ix h r \<noteq> 0 \<longrightarrow> leaf_at ix h r = leaf_at ix h s \<longrightarrow> r = s)
        \<and> unat (allocated_sparse_leaves ix) = card {r. leaf_at ix h r \<noteq> 0})"

lemma leaf_size_pos: "index_shape ix \<Longrightarrow> \<not> bounded ix \<Longrightarrow> 0 < leaf_size ix"
  by (simp add: index_shape_def)

lemma root_lt:
  "index_shape ix \<Longrightarrow> \<not> bounded ix \<Longrightarrow> i < regions ix \<Longrightarrow>
   i div leaf_size ix < unat (sparse_root_count ix)"
  by (auto simp: index_shape_def intro: less_mult_imp_div_less)

lemma leaf_split:
  assumes "index_shape ix" "\<not> bounded ix"
  shows "unat (drop_bit (unat (sparse_leaf_bits ix)) (i :: u64)) = unat i div leaf_size ix"
    and "unat (i AND (sparse_leaf_count ix - 1)) = unat i mod leaf_size ix"
proof -
  from assms have l: "leaf_size ix = 2 ^ unat (sparse_leaf_bits ix)"
    and b: "unat (sparse_leaf_bits ix) < 64"
    by (auto simp: index_shape_def)
  from l b have "sparse_leaf_count ix = 2 ^ unat (sparse_leaf_bits ix)"
    unfolding unat_eq_iff by (simp only: unat_pow2)
  then have "sparse_leaf_count ix - 1 = mask (unat (sparse_leaf_bits ix))"
    by (simp add: pow2_minus_1)
  with l show "unat (i AND (sparse_leaf_count ix - 1)) = unat i mod leaf_size ix"
    by (simp only: unat_and_mask)
  from l show "unat (drop_bit (unat (sparse_leaf_bits ix)) i) = unat i div leaf_size ix"
    by (simp only: unat_drop)
qed

lemma read_root_leaf:
  assumes "dir_ok ix (heap w)" "\<not> bounded ix" "r < unat (sparse_root_count ix)"
  shows "read_root w (directory ix) r = Some (leaf_at ix (heap w) r)"
  using assms by (auto simp: dir_ok_def leaf_at_def read_root_def)

lemma get_region_spec:
  assumes "index_shape ix" "dir_ok ix (heap w)" "unat i < regions ix"
  shows "memx_get_region ix i w = Some (rslot ix (heap w) (unat i))"
  using assms read_root_leaf [OF assms(2)] root_lt [OF assms(1) _ assms(3)]
  by (auto simp: memx_get_region_def rslot_def Let_def leaf_split)

lemma get_region_mut_False:
  assumes "index_shape ix" "dir_ok ix (heap w)" "unat i < regions ix"
  shows "memx_get_region_mut ix i False w = Some (rslot ix (heap w) (unat i), ix, w)"
  using assms read_root_leaf [OF assms(2)] root_lt [OF assms(1) _ assms(3)]
  by (auto simp: memx_get_region_mut_def rslot_def Let_def leaf_split)

text \<open>A slot lies in a live table of the right length.\<close>

lemma rslot_table:
  assumes shape: "index_shape ix" and dir: "dir_ok ix h" and i: "i < regions ix"
    and slot: "rslot ix h i = Some (p, j)"
  obtains ds where "h p = Some (RegionTable ds)" "j < length ds" "rdesc ix h i = ds ! j"
    "p = directory ix \<and> bounded ix \<or> p \<in> leaf_blocks ix h"
proof (cases "bounded ix")
  case True
  with dir i slot that show thesis
    by (auto simp: dir_ok_def rslot_def rdesc_def)
next
  case False
  with leaf_size_pos [OF shape] have "i mod leaf_size ix < leaf_size ix" by simp
  with False dir slot that show thesis
    by (fastforce simp: dir_ok_def rslot_def rdesc_def leaf_blocks_def Let_def split: if_splits)
qed

lemma rslot_inj:
  assumes "dir_ok ix h" "rslot ix h i = Some s" "rslot ix h j = Some s"
  shows "i = j"
proof (cases "bounded ix")
  case True
  with assms show ?thesis by (auto simp: rslot_def)
next
  case False
  with assms have "i div leaf_size ix = j div leaf_size ix" "i mod leaf_size ix = j mod leaf_size ix"
    by (auto simp: rslot_def dir_ok_def Let_def split: if_splits)
  then show ?thesis by (metis div_mult_mod_eq)
qed

lemma rdesc_0: "rslot ix h i = None \<Longrightarrow> rdesc ix h i = 0"
  by (simp add: rdesc_def)

text \<open>
  A change of the heap that keeps every root array and every descriptor table (up to the
  contents of one table) keeps the directory.
\<close>

lemma leaf_at_cong:
  "h' (directory ix) = h (directory ix) \<Longrightarrow> leaf_at ix h' r = leaf_at ix h r"
  by (simp add: leaf_at_def)

lemma slot_write:
  assumes shape: "index_shape ix" and dir: "dir_ok ix h" and i: "i < regions ix"
    and slot: "rslot ix h i = Some (p, j)" and tab: "h p = Some (RegionTable ds)"
    and h': "h' p = Some (RegionTable (ds[j := d]))"
    and same: "\<And>q. q \<noteq> p \<Longrightarrow> q = directory ix \<or> q \<in> leaf_blocks ix h \<Longrightarrow> h' q = h q"
  shows "dir_ok ix h'"
    and "rslot ix h' k = rslot ix h k"
    and "k < regions ix \<Longrightarrow> rdesc ix h' k = (if k = i then d else rdesc ix h k)"
    and "leaf_blocks ix h' = leaf_blocks ix h"
proof -
  obtain "j < length ds" and where_p: "p = directory ix \<and> bounded ix \<or> p \<in> leaf_blocks ix h"
    using rslot_table [OF shape dir i slot] tab by auto
  have leaf: "leaf_at ix h' r = leaf_at ix h r" if "\<not> bounded ix" for r
  proof -
    from that where_p dir tab have "p \<noteq> directory ix" by (auto simp: dir_ok_def)
    then show ?thesis using same by (intro leaf_at_cong) auto
  qed
  show rs: "rslot ix h' k = rslot ix h k" for k
    using leaf by (simp add: rslot_def)
  show lb: "leaf_blocks ix h' = leaf_blocks ix h"
    using leaf by (simp add: leaf_blocks_def)
  have other: "h' q = h q" if "rslot ix h k = Some (q, m)" "q \<noteq> p" "k < regions ix" for q m k
    using rslot_table [OF shape dir that(3,1)] same that by blast
  show "rdesc ix h' k = (if k = i then d else rdesc ix h k)" if k: "k < regions ix"
  proof (cases "rslot ix h k")
    case None
    with slot show ?thesis by (auto simp: rdesc_def rs)
  next
    case (Some s)
    obtain q m where s: "s = (q, m)" by (cases s)
    show ?thesis
    proof (cases "q = p")
      case True
      then have "k = i \<longleftrightarrow> m = j"
        using rslot_inj [OF dir, of i _ k] slot Some s by auto
      with Some s True tab h' \<open>j < length ds\<close> show ?thesis by (simp add: rdesc_def rs)
    next
      case False
      with Some s slot have "k \<noteq> i" by auto
      with Some s other [OF _ False k] show ?thesis by (simp add: rdesc_def rs)
    qed
  qed
  show "dir_ok ix h'"
  proof (cases "bounded ix")
    case True
    with dir where_p tab h' show ?thesis by (auto simp: dir_ok_def leaf_blocks_def)
  next
    case False
    have "\<exists>es. h' (leaf_at ix h r) = Some (RegionTable es) \<and> length es = leaf_size ix"
      if "leaf_at ix h r \<noteq> 0" for r
    proof (cases "leaf_at ix h r = p")
      case True
      with False dir tab h' that show ?thesis by (fastforce simp: dir_ok_def)
    next
      case ne: False
      with that False have "leaf_at ix h r \<in> leaf_blocks ix h" by (auto simp: leaf_blocks_def)
      with ne same have "h' (leaf_at ix h r) = h (leaf_at ix h r)" by blast
      with False dir that show ?thesis by (simp add: dir_ok_def)
    qed
    moreover have "h' (directory ix) = h (directory ix)"
    proof -
      from False dir tab have "p \<noteq> directory ix" by (auto simp: dir_ok_def)
      then show ?thesis using same by simp
    qed
    ultimately show ?thesis using False dir by (simp add: dir_ok_def leaf)
  qed
qed

section \<open>Expansion of a descriptor\<close>

abbreviation is_dense :: "u64 \<Rightarrow> bool" where
  "is_dense d \<equiv> memx_region_type_decode d = MEMX_REGION_DENSE"

abbreviation is_uniform :: "u64 \<Rightarrow> bool" where
  "is_uniform d \<equiv> memx_region_type_decode d = MEMX_REGION_UNIFORM"

text \<open>The handle a descriptor gives to granule \<open>g\<close> of its region.\<close>

definition dvalue :: "(u64 \<rightharpoonup> memx_object) \<Rightarrow> u64 \<Rightarrow> nat \<Rightarrow> u64" where
  "dvalue h d g =
     (case memx_region_type_decode d of
        MEMX_REGION_EMPTY \<Rightarrow> MEMX_HANDLE_INVALID
      | MEMX_REGION_UNIFORM \<Rightarrow> memx_uniform_decode d
      | MEMX_REGION_DENSE \<Rightarrow>
          (case h (memx_dense_decode d) of
             Some (HandleTable hs) \<Rightarrow> hs ! g
           | _ \<Rightarrow> MEMX_HANDLE_INVALID))"

text \<open>The abstraction: the handle of every granule, numbered from the base of the index.\<close>

definition gmap :: "'c memx_index \<Rightarrow> (u64 \<rightharpoonup> memx_object) \<Rightarrow> nat \<Rightarrow> u64" where
  "gmap ix h k = dvalue h (rdesc ix h (k div per_region ix)) (k mod per_region ix)"

definition desc_ok :: "nat \<Rightarrow> (u64 \<rightharpoonup> memx_object) \<Rightarrow> u64 \<Rightarrow> bool" where
  "desc_ok n h d \<longleftrightarrow>
     d = 0 \<or> is_uniform d
     \<or> is_dense d \<and> (\<exists>hs. h (memx_dense_decode d) = Some (HandleTable hs) \<and> length hs = n)"

definition regions_ok :: "'c memx_index \<Rightarrow> (u64 \<rightharpoonup> memx_object) \<Rightarrow> bool" where
  "regions_ok ix h \<longleftrightarrow>
     (\<forall>i < regions ix. desc_ok (per_region ix) h (rdesc ix h i))
     \<and> (\<forall>i < regions ix. \<forall>j < regions ix.
          is_dense (rdesc ix h i) \<longrightarrow> is_dense (rdesc ix h j) \<longrightarrow>
          memx_dense_decode (rdesc ix h i) = memx_dense_decode (rdesc ix h j) \<longrightarrow> i = j)"

definition count_regions :: "'c memx_index \<Rightarrow> (u64 \<rightharpoonup> memx_object) \<Rightarrow> memx_region_type \<Rightarrow> nat" where
  "count_regions ix h t = card {i. i < regions ix \<and> memx_region_type_decode (rdesc ix h i) = t}"

text \<open>
  A region that ends at \<open>2 ^ 64\<close> can never be mapped as a whole, because an exclusive end is a
  64-bit word; its last granule stays unmapped, and the region is never UNIFORM.  The loops
  rely on it: for that region \<open>memx_region_boundary\<close> answers the end of the range.
\<close>

definition top_region :: "'c memx_index \<Rightarrow> nat \<Rightarrow> bool" where
  "top_region ix i \<longleftrightarrow> base_of ix + (i + 1) * 2 ^ rshift ix = 2 ^ 64"

definition top_ok :: "'c memx_index \<Rightarrow> (u64 \<rightharpoonup> memx_object) \<Rightarrow> bool" where
  "top_ok ix h \<longleftrightarrow>
     (\<forall>i < regions ix. top_region ix i \<longrightarrow>
        dvalue h (rdesc ix h i) (per_region ix - 1) = MEMX_HANDLE_INVALID)"

section \<open>Ownership\<close>

definition dense_blocks :: "'c memx_index \<Rightarrow> (u64 \<rightharpoonup> memx_object) \<Rightarrow> u64 set" where
  "dense_blocks ix h =
     {p. \<exists>i < regions ix. is_dense (rdesc ix h i) \<and> p = memx_dense_decode (rdesc ix h i)}"

text \<open>Every block the index holds; the rest of the heap is the frame \<open>fr\<close>.\<close>

definition owned :: "'c memx_index \<Rightarrow> (u64 \<rightharpoonup> memx_object) \<Rightarrow> u64 set" where
  "owned ix h = {self ix, directory ix} \<union> leaf_blocks ix h \<union> dense_blocks ix h"

definition frame_ok :: "(u64 \<rightharpoonup> memx_object) \<Rightarrow> 'c memx_index \<Rightarrow> (u64 \<rightharpoonup> memx_object) \<Rightarrow> bool" where
  "frame_ok fr ix h \<longleftrightarrow> (\<forall>p. fr p = (if p \<in> owned ix h then None else h p))"

text \<open>The invariant of an index in adaptive mode (neither flat nor frozen).\<close>

definition index_inv ::
  "('c \<Rightarrow> u64 set) \<Rightarrow> (u64 \<rightharpoonup> memx_object) \<Rightarrow> 'c memx_index \<Rightarrow> 'c memx_world \<Rightarrow> bool" where
  "index_inv live fr ix w \<longleftrightarrow>
     world_ok (index_allocator ix) live w
     \<and> index_shape ix \<and> dir_ok ix (heap w) \<and> regions_ok ix (heap w) \<and> top_ok ix (heap w)
     \<and> unat (dense_regions ix) = count_regions ix (heap w) MEMX_REGION_DENSE
     \<and> unat (uniform_regions ix) = count_regions ix (heap w) MEMX_REGION_UNIFORM
     \<and> heap w (self ix) = Some IndexBlock \<and> frame_ok fr ix (heap w)
     \<and> \<not> flat_mode ix \<and> \<not> overlay_mode ix"

lemma rdesc_counters [simp]:
  "rdesc (ix\<lparr>dense_regions := a, uniform_regions := b\<rparr>) h = rdesc ix h"
  "leaf_blocks (ix\<lparr>dense_regions := a, uniform_regions := b\<rparr>) h = leaf_blocks ix h"
  "dir_ok (ix\<lparr>dense_regions := a, uniform_regions := b\<rparr>) h = dir_ok ix h"
  "index_shape (ix\<lparr>dense_regions := a, uniform_regions := b\<rparr>) = index_shape ix"
  "top_region (ix\<lparr>dense_regions := a, uniform_regions := b\<rparr>) = top_region ix"
  "rslot (ix\<lparr>dense_regions := a, uniform_regions := b\<rparr>) h = rslot ix h"
  by (simp_all add: fun_eq_iff rdesc_def rslot_def leaf_at_def leaf_blocks_def dir_ok_def
      index_shape_def top_region_def Let_def)

lemma regions_counters [simp]:
  "regions_ok (ix\<lparr>dense_regions := a, uniform_regions := b\<rparr>) h = regions_ok ix h"
  "top_ok (ix\<lparr>dense_regions := a, uniform_regions := b\<rparr>) h = top_ok ix h"
  "count_regions (ix\<lparr>dense_regions := a, uniform_regions := b\<rparr>) h = count_regions ix h"
  "frame_ok fr (ix\<lparr>dense_regions := a, uniform_regions := b\<rparr>) h = frame_ok fr ix h"
  "gmap (ix\<lparr>dense_regions := a, uniform_regions := b\<rparr>) h = gmap ix h"
  "granule_of (ix\<lparr>dense_regions := a, uniform_regions := b\<rparr>) = granule_of ix"
  "covered (ix\<lparr>dense_regions := a, uniform_regions := b\<rparr>) = covered ix"
  by (simp_all add: fun_eq_iff regions_ok_def top_ok_def count_regions_def frame_ok_def owned_def
      dense_blocks_def gmap_def granule_of_def covered_def)

lemma desc_not_dense: "d = 0 \<or> is_uniform d \<Longrightarrow> \<not> is_dense d"
  by auto

lemma dvalue_simps [simp]:
  "dvalue h 0 g = MEMX_HANDLE_INVALID"
  "is_uniform d \<Longrightarrow> dvalue h d g = memx_uniform_decode d"
  "is_dense d \<Longrightarrow> h (memx_dense_decode d) = Some (HandleTable hs) \<Longrightarrow> dvalue h d g = hs ! g"
  by (simp_all add: dvalue_def)

lemma dvalue_cong:
  "(is_dense d \<Longrightarrow> h' (memx_dense_decode d) = h (memx_dense_decode d)) \<Longrightarrow>
   dvalue h' d g = dvalue h d g"
  by (simp add: dvalue_def split: memx_region_type.split)

text \<open>Kinds of blocks: what is stored at an owned address.\<close>

lemma dir_block_kind:
  assumes "dir_ok ix h" "q = directory ix \<or> q \<in> leaf_blocks ix h"
  shows "(\<exists>ds. h q = Some (RegionTable ds)) \<or> (\<exists>rts. h q = Some (LeafRoots rts))"
  using assms by (auto simp: dir_ok_def leaf_blocks_def split: if_splits)

lemma dense_block_kind:
  assumes "regions_ok ix h" "i < regions ix" "is_dense (rdesc ix h i)"
  obtains hs where "h (memx_dense_decode (rdesc ix h i)) = Some (HandleTable hs)"
    "length hs = per_region ix"
proof -
  from assms have "desc_ok (per_region ix) h (rdesc ix h i)" by (simp add: regions_ok_def)
  with assms(3) that show thesis by (auto simp: desc_ok_def)
qed

lemma card_point_update:
  assumes "i < (n :: nat)" and f': "\<And>k. k < n \<Longrightarrow> f' k = (if k = i then d else f k)"
  shows "card {k. k < n \<and> P (f' k)} + (if P (f i) then 1 else 0)
       = card {k. k < n \<and> P (f k)} + (if P d then 1 else 0)"
proof -
  let ?A = "{k. k < n \<and> k \<noteq> i \<and> P (f k)}"
  have f: "{k. k < n \<and> P (f k)} = (if P (f i) then insert i ?A else ?A)"
    using assms(1) by auto
  have f'': "{k. k < n \<and> P (f' k)} = (if P d then insert i ?A else ?A)"
    using assms(1) by (auto simp: f' split: if_splits)
  have "finite ?A" by simp
  then show ?thesis unfolding f f'' by simp
qed

section \<open>Replacing one region\<close>

text \<open>
  The heap effect common to every step that gives region \<open>i\<close> the descriptor \<open>d1\<close>: its slot
  holds \<open>d1\<close>; a dense \<open>d1\<close> is either new (its table was not live before) or the old descriptor
  (its table was rewritten in place); an old table that \<open>d1\<close> no longer uses is gone; nothing
  else has changed.
\<close>

definition region_change ::
  "'c memx_index \<Rightarrow> (u64 \<rightharpoonup> memx_object) \<Rightarrow> (u64 \<rightharpoonup> memx_object) \<Rightarrow> nat \<Rightarrow> u64 \<Rightarrow> bool" where
  "region_change ix h h' i d1 \<longleftrightarrow>
     (let d0 = rdesc ix h i in
      \<exists>p j ds. rslot ix h i = Some (p, j) \<and> h p = Some (RegionTable ds)
        \<and> h' p = Some (RegionTable (ds[j := d1]))
        \<and> desc_ok (per_region ix) h' d1
        \<and> (is_dense d1 \<longrightarrow> d1 = d0 \<or> h (memx_dense_decode d1) = None)
        \<and> (is_dense d0 \<longrightarrow> d1 \<noteq> d0 \<longrightarrow> h' (memx_dense_decode d0) = None)
        \<and> (\<forall>q. q \<noteq> p \<longrightarrow> (is_dense d1 \<longrightarrow> q \<noteq> memx_dense_decode d1) \<longrightarrow>
              (is_dense d0 \<longrightarrow> q \<noteq> memx_dense_decode d0) \<longrightarrow> h' q = h q))"

lemma region_change_dir:
  assumes shape: "index_shape ix" and dir: "dir_ok ix h" and reg: "regions_ok ix h"
    and i: "i < regions ix" and change: "region_change ix h h' i d1"
  shows "dir_ok ix h'" and "rslot ix h' k = rslot ix h k"
    and "k < regions ix \<Longrightarrow> rdesc ix h' k = (if k = i then d1 else rdesc ix h k)"
    and "leaf_blocks ix h' = leaf_blocks ix h"
proof -
  from change obtain p j ds where c: "rslot ix h i = Some (p, j)" "h p = Some (RegionTable ds)"
    "h' p = Some (RegionTable (ds[j := d1]))"
    "is_dense d1 \<Longrightarrow> d1 = rdesc ix h i \<or> h (memx_dense_decode d1) = None"
    "\<And>q. q \<noteq> p \<Longrightarrow> (is_dense d1 \<longrightarrow> q \<noteq> memx_dense_decode d1) \<Longrightarrow>
       (is_dense (rdesc ix h i) \<longrightarrow> q \<noteq> memx_dense_decode (rdesc ix h i)) \<Longrightarrow> h' q = h q"
    by (auto simp: region_change_def Let_def)
  have same: "h' q = h q" if "q \<noteq> p" "q = directory ix \<or> q \<in> leaf_blocks ix h" for q
  proof (rule c(5) [OF that(1)])
    note kind = dir_block_kind [OF dir that(2)]
    show old: "is_dense (rdesc ix h i) \<longrightarrow> q \<noteq> memx_dense_decode (rdesc ix h i)"
      using kind dense_block_kind [OF reg i] by fastforce
    show "is_dense d1 \<longrightarrow> q \<noteq> memx_dense_decode d1"
      using kind old c(4) by auto
  qed
  note sw = slot_write [OF shape dir i c(1,2,3) same]
  show "dir_ok ix h'" by (rule sw(1))
  show "rslot ix h' k = rslot ix h k" by (rule sw(2))
  show "k < regions ix \<Longrightarrow> rdesc ix h' k = (if k = i then d1 else rdesc ix h k)" by (rule sw(3))
  show "leaf_blocks ix h' = leaf_blocks ix h" by (rule sw(4))
qed

text \<open>The table of any other dense region is untouched.\<close>

lemma region_change_other:
  assumes dir: "dir_ok ix h" and shape: "index_shape ix"
    and reg: "regions_ok ix h" and i: "i < regions ix"
    and change: "region_change ix h h' i d1"
    and k: "k < regions ix" "k \<noteq> i" "is_dense (rdesc ix h k)"
  shows "h' (memx_dense_decode (rdesc ix h k)) = h (memx_dense_decode (rdesc ix h k))"
    and "is_dense d1 \<Longrightarrow> memx_dense_decode d1 \<noteq> memx_dense_decode (rdesc ix h k)"
proof -
  let ?q = "memx_dense_decode (rdesc ix h k)"
  from change obtain p j ds where c: "rslot ix h i = Some (p, j)" "h p = Some (RegionTable ds)"
    "is_dense d1 \<Longrightarrow> d1 = rdesc ix h i \<or> h (memx_dense_decode d1) = None"
    "\<And>q. q \<noteq> p \<Longrightarrow> (is_dense d1 \<longrightarrow> q \<noteq> memx_dense_decode d1) \<Longrightarrow>
       (is_dense (rdesc ix h i) \<longrightarrow> q \<noteq> memx_dense_decode (rdesc ix h i)) \<Longrightarrow> h' q = h q"
    by (auto simp: region_change_def Let_def)
  obtain hs where q: "h ?q = Some (HandleTable hs)" using dense_block_kind [OF reg k(1,3)] .
  have old: "is_dense (rdesc ix h i) \<longrightarrow> ?q \<noteq> memx_dense_decode (rdesc ix h i)"
    using reg i k by (metis regions_ok_def)
  show new: "is_dense d1 \<Longrightarrow> memx_dense_decode d1 \<noteq> ?q"
    using c(3) old q by force
  from q c(2) have "?q \<noteq> p" by auto
  then show "h' ?q = h ?q" using old new by (intro c(4)) auto
qed

lemma region_change_regions_ok:
  assumes "index_shape ix" "dir_ok ix h" "regions_ok ix h" "i < regions ix"
    and "region_change ix h h' i d1"
  shows "regions_ok ix h'"
proof -
  note d = region_change_dir(3) [OF assms]
  note other = region_change_other [OF assms(2,1,3-5)]
  have "desc_ok (per_region ix) h' (rdesc ix h' k)" if k: "k < regions ix" for k
  proof (cases "k = i")
    case True
    with assms(5) k show ?thesis by (auto simp: d region_change_def Let_def)
  next
    case False
    have "desc_ok (per_region ix) h (rdesc ix h k)" using assms(3) k by (simp add: regions_ok_def)
    then show ?thesis using other(1) [OF k False] False k by (auto simp: d desc_ok_def)
  qed
  moreover have "k = l" if "k < regions ix" "l < regions ix" "is_dense (rdesc ix h' k)"
    "is_dense (rdesc ix h' l)" "memx_dense_decode (rdesc ix h' k) = memx_dense_decode (rdesc ix h' l)"
    for k l
    using that other(2) [of k] other(2) [of l] assms(3)
    by (auto simp: d regions_ok_def split: if_splits)
  ultimately show ?thesis by (simp add: regions_ok_def)
qed

lemma region_change_dvalue:
  assumes "index_shape ix" "dir_ok ix h" "regions_ok ix h" "i < regions ix"
    and "region_change ix h h' i d1" and "k < regions ix"
  shows "dvalue h' (rdesc ix h' k) g =
    (if k = i then dvalue h' d1 g else dvalue h (rdesc ix h k) g)"
  using region_change_dir(3) [OF assms] region_change_other(1) [OF assms(2,1,3-6)]
  by (auto intro!: dvalue_cong)

lemma region_change_count:
  assumes "index_shape ix" "dir_ok ix h" "regions_ok ix h" "i < regions ix"
    and "region_change ix h h' i d1"
  shows "count_regions ix h' t + (if memx_region_type_decode (rdesc ix h i) = t then 1 else 0)
       = count_regions ix h t + (if memx_region_type_decode d1 = t then 1 else 0)"
  unfolding count_regions_def
  by (rule card_point_update [where f' = "rdesc ix h'" and f = "rdesc ix h"
        and P = "\<lambda>d. memx_region_type_decode d = t"])
     (use assms region_change_dir(3) [OF assms] in auto)

lemma region_change_frame:
  assumes "index_shape ix" "dir_ok ix h" "regions_ok ix h" "i < regions ix"
    and change: "region_change ix h h' i d1"
    and self: "h (self ix) = Some IndexBlock" and fr: "frame_ok fr ix h"
  shows "h' (self ix) = Some IndexBlock" and "frame_ok fr ix h'"
proof -
  note dir = region_change_dir [OF assms(1-4) change]
  note other = region_change_other [OF assms(2,1,3,4) change]
  let ?d0 = "rdesc ix h i"
  from change obtain p j ds where c: "rslot ix h i = Some (p, j)" "h p = Some (RegionTable ds)"
    "is_dense d1 \<Longrightarrow> d1 = ?d0 \<or> h (memx_dense_decode d1) = None"
    "is_dense ?d0 \<Longrightarrow> d1 \<noteq> ?d0 \<Longrightarrow> h' (memx_dense_decode ?d0) = None"
    "\<And>q. q \<noteq> p \<Longrightarrow> (is_dense d1 \<longrightarrow> q \<noteq> memx_dense_decode d1) \<Longrightarrow>
       (is_dense ?d0 \<longrightarrow> q \<noteq> memx_dense_decode ?d0) \<Longrightarrow> h' q = h q"
    by (auto simp: region_change_def Let_def)
  have old: "is_dense ?d0 \<Longrightarrow> \<exists>hs. h (memx_dense_decode ?d0) = Some (HandleTable hs)"
    using dense_block_kind [OF assms(3,4)] by metis
  have "self ix \<noteq> p" "is_dense ?d0 \<Longrightarrow> self ix \<noteq> memx_dense_decode ?d0"
    using self c(2) old by auto
  moreover have "is_dense d1 \<Longrightarrow> self ix \<noteq> memx_dense_decode d1"
    using c(3) calculation(2) self by auto
  ultimately show "h' (self ix) = Some IndexBlock" using self c(5) by simp
  have p_owned: "p \<in> owned ix h"
    using rslot_table [OF assms(1,2,4) c(1)] by (auto simp: owned_def)
  have old_owned: "is_dense ?d0 \<Longrightarrow> memx_dense_decode ?d0 \<in> owned ix h"
    using assms(4) by (auto simp: owned_def dense_blocks_def)
  let ?old = "if is_dense ?d0 then {memx_dense_decode ?d0} else {}"
  let ?new = "if is_dense d1 then {memx_dense_decode d1} else {}"
  let ?B = "{q. \<exists>k < regions ix. k \<noteq> i \<and> is_dense (rdesc ix h k) \<and> q = memx_dense_decode (rdesc ix h k)}"
  have "dense_blocks ix h = ?B \<union> ?old"
    using assms(4) by (auto simp: dense_blocks_def)
  moreover have "?old \<inter> ?B = {}"
    using assms(3,4) by (auto simp: regions_ok_def)
  moreover have "dense_blocks ix h' = ?B \<union> ?new"
    using assms(4) unfolding dense_blocks_def by (auto simp: dir(3)) metis+
  moreover have "?old \<inter> ({self ix, directory ix} \<union> leaf_blocks ix h) = {}"
    using old self dir_block_kind [OF assms(2), of "memx_dense_decode ?d0"] by auto
  ultimately have new: "owned ix h' = (owned ix h - ?old) \<union> ?new"
    unfolding owned_def dir(4) by blast
  show "frame_ok fr ix h'"
    unfolding frame_ok_def
  proof
    fix q
    have "fr q = (if q \<in> owned ix h then None else h q)" using fr by (simp add: frame_ok_def)
    then show "fr q = (if q \<in> owned ix h' then None else h' q)"
      using c(3,4) c(5) [of q] p_owned old_owned unfolding new
      by (cases "d1 = ?d0"; cases "q = p"; cases "is_dense d1"; cases "is_dense ?d0";
          cases "q = memx_dense_decode ?d0") auto
  qed
qed

text \<open>
  The master lemma: after such a change, with the two counters adjusted, the invariant holds
  again and only the handles of region \<open>i\<close> have changed.
\<close>

lemma region_replace:
  assumes inv: "index_inv live fr ix w" and i: "i < regions ix"
    and change: "region_change ix (heap w) (heap w') i d1"
    and ok: "world_ok (index_allocator ix) live w'"
    and nd: "unat nd + (if is_dense (rdesc ix (heap w) i) then 1 else 0)
           = unat (dense_regions ix) + (if is_dense d1 then 1 else 0)"
    and nu: "unat nu + (if is_uniform (rdesc ix (heap w) i) then 1 else 0)
           = unat (uniform_regions ix) + (if is_uniform d1 then 1 else 0)"
    and top: "top_region ix i \<Longrightarrow> dvalue (heap w') d1 (per_region ix - 1) = MEMX_HANDLE_INVALID"
  shows "index_inv live fr (ix\<lparr>dense_regions := nd, uniform_regions := nu\<rparr>) w'"
    and "k < regions ix * per_region ix \<Longrightarrow>
      gmap ix (heap w') k =
        (if k div per_region ix = i then dvalue (heap w') d1 (k mod per_region ix)
         else gmap ix (heap w) k)"
    and "k < regions ix \<Longrightarrow>
      rdesc ix (heap w') k = (if k = i then d1 else rdesc ix (heap w) k)"
    and "rslot ix (heap w') k = rslot ix (heap w) k"
proof -
  note iv = inv [unfolded index_inv_def]
  have pre: "index_shape ix" "dir_ok ix (heap w)" "regions_ok ix (heap w)"
    using iv by auto
  note dir = region_change_dir [OF pre i change]
  show "rslot ix (heap w') k = rslot ix (heap w) k" by (rule dir(2))
  show "k < regions ix \<Longrightarrow>
      rdesc ix (heap w') k = (if k = i then d1 else rdesc ix (heap w) k)"
    by (rule dir(3))
  note dval = region_change_dvalue [OF pre i change]
  note frame = region_change_frame [OF pre i change, of fr]
  note cnt = region_change_count [OF pre i change]
  have "top_ok ix (heap w')"
    using iv top by (simp add: top_ok_def dval)
  moreover have "unat nd = count_regions ix (heap w') MEMX_REGION_DENSE"
    "unat nu = count_regions ix (heap w') MEMX_REGION_UNIFORM"
    using iv nd nu cnt [of MEMX_REGION_DENSE] cnt [of MEMX_REGION_UNIFORM] by (auto split: if_splits)
  ultimately show "index_inv live fr (ix\<lparr>dense_regions := nd, uniform_regions := nu\<rparr>) w'"
    using iv ok dir(1) region_change_regions_ok [OF pre i change] frame
    by (simp add: index_inv_def)
  show "gmap ix (heap w') k =
        (if k div per_region ix = i then dvalue (heap w') d1 (k mod per_region ix)
         else gmap ix (heap w) k)" if "k < regions ix * per_region ix"
    using dval [of "k div per_region ix"] that
    by (simp add: gmap_def less_mult_imp_div_less)
qed

lemma count_regions_le: "count_regions ix h t \<le> regions ix"
proof -
  have "count_regions ix h t \<le> card {..< regions ix}"
    unfolding count_regions_def by (intro card_mono) auto
  then show ?thesis by simp
qed

end
