(* ===== verification/Memx_Mutate.thy ===== *)
theory Memx_Mutate
  imports Memx_Index
begin

text \<open>
  \<^verbatim>\<open>memx_insert\<close> and \<^verbatim>\<open>memx_remove\<close> with everything they call.  The four \<^verbatim>\<open>while (cursor < end)\<close>
  loops of the two functions share their header (region boundary, clamped part end) and their
  exit on an error status; that shape is \<open>region_walk\<close>, and each loop supplies its body.
\<close>

section \<open>Loops over an address range\<close>

partial_function (option) region_walk ::
  "(u64 \<Rightarrow> u64 \<Rightarrow> u64 \<Rightarrow> 's \<Rightarrow> (memx_status \<times> 's) option) \<Rightarrow> u64 \<Rightarrow> u64 \<Rightarrow> u64 \<Rightarrow> 's
     \<Rightarrow> (memx_status \<times> 's) option" where
  "region_walk body region_size end' cursor s =
     (if cursor < end' then
        let region_end = memx_region_boundary cursor region_size end';
            part_end = (if region_end < end' then region_end else end')
        in do {
          (status, s) \<leftarrow> body cursor region_end part_end s;
          if status = MEMX_OK then region_walk body region_size end' part_end s
          else Some (status, s)
        }
      else Some (MEMX_OK, s))"

text \<open>\<^verbatim>\<open>for (address = base; address < end; address += step)\<close> with an early exit.\<close>

partial_function (option) granule_walk ::
  "(u64 \<Rightarrow> 's \<Rightarrow> (memx_status \<times> 's) option) \<Rightarrow> u64 \<Rightarrow> u64 \<Rightarrow> u64 \<Rightarrow> 's
     \<Rightarrow> (memx_status \<times> 's) option" where
  "granule_walk body step end' address s =
     (if address < end' then do {
        (status, s) \<leftarrow> body address s;
        if status = MEMX_OK then granule_walk body step end' (address + step) s
        else Some (status, s)
      }
      else Some (MEMX_OK, s))"

declare region_walk.simps [code] granule_walk.simps [code]

section \<open>Dense regions\<close>

text \<open>The null pointer is 0; the tag test repeats the alignment contract.\<close>

definition memx_dense_create ::
  "'c memx_index \<Rightarrow> u64 \<Rightarrow> 'c memx_world \<Rightarrow> (u64 \<times> 'c memx_world) option" where
  "memx_dense_create ix initial w = do {
     (dense, w) \<leftarrow> memx_allocate (index_allocator ix) (dense_bytes ix) w;
     if dense = 0 then Some (0, w)
     else if dense AND MEMX_DESCRIPTOR_TAG_MASK \<noteq> 0
     then do { w \<leftarrow> memx_deallocate (index_allocator ix) dense w; Some (0, w) }
     else do {
       w \<leftarrow> init_object dense
              (HandleTable (replicate (unat (granules_per_region ix)) initial)) w;
       Some (dense, w)
     }
   }"

definition memx_region_reclassify ::
  "'c memx_index \<Rightarrow> u64 \<times> nat \<Rightarrow> 'c memx_world \<Rightarrow> ('c memx_index \<times> 'c memx_world) option" where
  "memx_region_reclassify ix slot w = do {
     region \<leftarrow> read_region w slot;
     if memx_region_type_decode region \<noteq> MEMX_REGION_DENSE then Some (ix, w)
     else do {
       let dense = memx_dense_decode region;
       first \<leftarrow> read_handle w dense 0;
       entries \<leftarrow> (case heap w dense of Some (HandleTable hs) \<Rightarrow> Some hs | _ \<Rightarrow> None);
       if length entries < unat (granules_per_region ix) then None
       else do {
         let all_equal =
               list_all (\<lambda>h. h = first) (take (unat (granules_per_region ix)) entries);
         if all_equal \<and> (first = MEMX_HANDLE_INVALID \<or> first \<le> MEMX_INLINE_HANDLE_MAX)
         then do {
           let ix = ix\<lparr>dense_regions := dense_regions ix - 1\<rparr>;
           (ix, w) \<leftarrow>
             (if first = MEMX_HANDLE_INVALID
              then do { w \<leftarrow> write_region slot 0 w; Some (ix, w) }
              else do { w \<leftarrow> write_region slot (memx_uniform_encode first) w;
                        Some (ix\<lparr>uniform_regions := uniform_regions ix + 1\<rparr>, w) });
           w \<leftarrow> memx_deallocate (index_allocator ix) dense w;
           Some (ix, w)
         }
         else Some (ix, w)
       }
     }
   }"

section \<open>Range checks\<close>

text \<open>The second component is \<^verbatim>\<open>*out_end\<close>, meaningful when the status is OK.\<close>

definition memx_validate_range ::
  "'c memx_index option \<Rightarrow> u64 \<Rightarrow> u64 \<Rightarrow> memx_status \<times> u64" where
  "memx_validate_range index base sz =
     (case index of
        None \<Rightarrow> (MEMX_ERROR_INVALID_ARGUMENT, 0)
      | Some ix \<Rightarrow>
         (if sz = 0 \<or> \<not> memx_is_aligned base (granule_shift (config ix))
             \<or> sz AND (push_bit (unat (granule_shift (config ix))) 1 - 1) \<noteq> 0
          then (MEMX_ERROR_INVALID_ARGUMENT, 0)
          else case memx_add_overflows base sz of
                 None \<Rightarrow> (MEMX_ERROR_INVALID_ARGUMENT, 0)
               | Some e \<Rightarrow>
                  (if memx_address_to_region ix base = None
                      \<or> memx_address_to_region ix (e - 1) = None
                   then (MEMX_ERROR_OUT_OF_RANGE, e)
                   else (MEMX_OK, e))))"

definition preflight_body ::
  "'c memx_index \<Rightarrow> u64 \<Rightarrow> bool \<Rightarrow> 'c memx_world \<Rightarrow> u64 \<Rightarrow> unit \<Rightarrow> (memx_status \<times> unit) option" where
  "preflight_body ix expected inserting w address u = do {
     actual \<leftarrow> memx_lookup_address (Some ix) w address;
     if inserting
     then Some (if actual \<noteq> MEMX_HANDLE_INVALID then MEMX_ERROR_OVERLAP else MEMX_OK, u)
     else Some (if actual \<noteq> expected then MEMX_ERROR_NOT_FOUND else MEMX_OK, u)
   }"

definition memx_preflight_range ::
  "'c memx_index \<Rightarrow> u64 \<Rightarrow> u64 \<Rightarrow> u64 \<Rightarrow> bool \<Rightarrow> 'c memx_world \<Rightarrow> memx_status option" where
  "memx_preflight_range ix base end' expected inserting w =
     map_option fst
       (granule_walk (preflight_body ix expected inserting w)
          (push_bit (unat (granule_shift (config ix))) 1) end' base ())"

section \<open>Flat mode\<close>

definition flat_position :: "'c memx_index \<Rightarrow> u64 \<Rightarrow> nat" where
  "flat_position ix cursor =
     unat (drop_bit (unat (granule_shift (config ix))) (cursor - base_address (config ix)))"

definition flat_check_body ::
  "'c memx_index \<Rightarrow> u64 \<Rightarrow> memx_status \<Rightarrow> 'c memx_world \<Rightarrow> u64 \<Rightarrow> unit
     \<Rightarrow> (memx_status \<times> unit) option" where
  "flat_check_body ix expected failure w cursor u = do {
     actual \<leftarrow> read_handle w (flat_entries ix) (flat_position ix cursor);
     Some (if actual \<noteq> expected then failure else MEMX_OK, u)
   }"

definition flat_write_body ::
  "'c memx_index \<Rightarrow> u64 \<Rightarrow> u64 \<Rightarrow> 'c memx_world \<Rightarrow> (memx_status \<times> 'c memx_world) option" where
  "flat_write_body ix handle cursor w = do {
     w \<leftarrow> write_handle (flat_entries ix) (flat_position ix cursor) handle w;
     Some (MEMX_OK, w)
   }"

text \<open>The two loops of the flat branches: check every entry, then overwrite every entry.\<close>

definition flat_update ::
  "'c memx_index \<Rightarrow> u64 \<Rightarrow> u64 \<Rightarrow> u64 \<Rightarrow> memx_status \<Rightarrow> u64 \<Rightarrow> 'c memx_world
     \<Rightarrow> (memx_status \<times> 'c memx_world) option" where
  "flat_update ix base end' expected failure replacement w = do {
     let step = push_bit (unat (granule_shift (config ix))) 1;
     (status, _) \<leftarrow> granule_walk (flat_check_body ix expected failure w) step end' base ();
     if status \<noteq> MEMX_OK then Some (status, w)
     else granule_walk (flat_write_body ix replacement) step end' base w
   }"

section \<open>Insert\<close>

text \<open>\<^verbatim>\<open>memx_address_to_region\<close> with its result ignored: both indices keep their initial 0.\<close>

definition region_of :: "'c memx_index \<Rightarrow> u64 \<Rightarrow> u64 \<times> u64" where
  "region_of ix cursor =
     (case memx_address_to_region ix cursor of None \<Rightarrow> (0, 0) | Some p \<Rightarrow> p)"

definition prepare_insert_body ::
  "u64 \<Rightarrow> u64 \<Rightarrow> u64 \<Rightarrow> u64 \<Rightarrow> u64 \<Rightarrow> 'c memx_index \<times> 'c memx_world
     \<Rightarrow> (memx_status \<times> 'c memx_index \<times> 'c memx_world) option" where
  "prepare_insert_body region_size handle cursor region_end part_end s = (
     let (ix, w) = s;
         region_mask = region_size - 1;
         whole_region = (cursor AND region_mask = 0 \<and> part_end - cursor = region_size);
         (region_index, granule_index) = region_of ix cursor
     in do {
       (region, ix, w) \<leftarrow> memx_get_region_mut ix region_index True w;
       case region of
         None \<Rightarrow> Some (MEMX_ERROR_OUT_OF_MEMORY, ix, w)
       | Some slot \<Rightarrow> do {
           d \<leftarrow> read_region w slot;
           if memx_region_type_decode d = MEMX_REGION_EMPTY
              \<and> (\<not> whole_region \<or> MEMX_INLINE_HANDLE_MAX < handle)
           then do {
             (dense, w) \<leftarrow> memx_dense_create ix MEMX_HANDLE_INVALID w;
             if dense = 0 then Some (MEMX_ERROR_OUT_OF_MEMORY, ix, w)
             else do {
               w \<leftarrow> write_region slot (memx_dense_encode dense) w;
               Some (MEMX_OK, ix\<lparr>dense_regions := dense_regions ix + 1\<rparr>, w)
             }
           }
           else Some (MEMX_OK, ix, w)
         }
     })"

definition memx_prepare_insert_regions ::
  "'c memx_index \<Rightarrow> u64 \<Rightarrow> u64 \<Rightarrow> u64 \<Rightarrow> 'c memx_world
     \<Rightarrow> (memx_status \<times> 'c memx_index \<times> 'c memx_world) option" where
  "memx_prepare_insert_regions ix base end' handle w = (
     let region_size = push_bit (unat (region_shift (config ix))) 1 in
     region_walk (prepare_insert_body region_size handle) region_size end' base (ix, w))"

definition insert_body ::
  "u64 \<Rightarrow> u64 \<Rightarrow> u64 \<Rightarrow> u64 \<Rightarrow> u64 \<Rightarrow> u64 \<Rightarrow> 'c memx_index \<times> 'c memx_world
     \<Rightarrow> (memx_status \<times> 'c memx_index \<times> 'c memx_world) option" where
  "insert_body region_size granule_size handle cursor region_end part_end s = (
     let (ix, w) = s;
         region_offset = cursor AND (region_size - 1);
         (region_index, granule_index) = region_of ix cursor
     in do {
       (region, ix, w) \<leftarrow> memx_get_region_mut ix region_index False w;
       case region of
         None \<Rightarrow> Some (MEMX_ERROR_OUT_OF_MEMORY, ix, w)
       | Some slot \<Rightarrow> do {
           d \<leftarrow> read_region w slot;
           if memx_region_type_decode d = MEMX_REGION_EMPTY \<and> region_offset = 0
              \<and> part_end = region_end \<and> handle \<le> MEMX_INLINE_HANDLE_MAX
           then do {
             w \<leftarrow> write_region slot (memx_uniform_encode handle) w;
             Some (MEMX_OK, ix\<lparr>uniform_regions := uniform_regions ix + 1\<rparr>, w)
           }
           else do {
             let count = unat ((part_end - cursor) div granule_size);
             (status, ix, w) \<leftarrow>
               (if memx_region_type_decode d = MEMX_REGION_EMPTY then do {
                  (dense, w) \<leftarrow> memx_dense_create ix MEMX_HANDLE_INVALID w;
                  if dense = 0 then Some (MEMX_ERROR_OUT_OF_MEMORY, ix, w)
                  else do {
                    w \<leftarrow> write_region slot (memx_dense_encode dense) w;
                    Some (MEMX_OK, ix\<lparr>dense_regions := dense_regions ix + 1\<rparr>, w)
                  }
                }
                else Some (MEMX_OK, ix, w));
             if status \<noteq> MEMX_OK then Some (status, ix, w)
             else do {
               d \<leftarrow> read_region w slot;
               w \<leftarrow> fill_handles (memx_dense_decode d) (unat granule_index) count handle w;
               (ix, w) \<leftarrow> memx_region_reclassify ix slot w;
               Some (MEMX_OK, ix, w)
             }
           }
         }
     })"

definition memx_insert ::
  "'c memx_index option \<Rightarrow> u64 \<Rightarrow> u64 \<Rightarrow> u64 \<Rightarrow> 'c memx_world
     \<Rightarrow> (memx_status \<times> 'c memx_index option \<times> 'c memx_world) option" where
  "memx_insert index base sz handle w =
     (if handle = MEMX_HANDLE_INVALID then Some (MEMX_ERROR_INVALID_ARGUMENT, index, w)
      else if (case index of None \<Rightarrow> False | Some ix \<Rightarrow> overlay_mode ix)
      then Some (MEMX_ERROR_BUSY, index, w)
      else let (status, end') = memx_validate_range index base sz in
      if status \<noteq> MEMX_OK then Some (status, index, w)
      else case index of None \<Rightarrow> None | Some ix \<Rightarrow>
        (let region_size = push_bit (unat (region_shift (config ix))) 1;
             granule_size = push_bit (unat (granule_shift (config ix))) 1
         in if flat_mode ix then do {
              (status, w) \<leftarrow> flat_update ix base end' MEMX_HANDLE_INVALID
                               MEMX_ERROR_OVERLAP handle w;
              Some (status, Some ix, w)
            }
            else do {
              status \<leftarrow> memx_preflight_range ix base end' MEMX_HANDLE_INVALID True w;
              if status \<noteq> MEMX_OK then Some (status, Some ix, w)
              else do {
                (status, ix, w) \<leftarrow> memx_prepare_insert_regions ix base end' handle w;
                if status \<noteq> MEMX_OK then Some (status, Some ix, w)
                else do {
                  (status, ix, w) \<leftarrow>
                    region_walk (insert_body region_size granule_size handle)
                      region_size end' base (ix, w);
                  Some (status, Some ix, w)
                }
              }
            }))"

section \<open>Remove\<close>

text \<open>First loop: every partially removed uniform region becomes dense.\<close>

definition prepare_remove_body ::
  "u64 \<Rightarrow> u64 \<Rightarrow> u64 \<Rightarrow> u64 \<Rightarrow> 'c memx_index \<times> 'c memx_world
     \<Rightarrow> (memx_status \<times> 'c memx_index \<times> 'c memx_world) option" where
  "prepare_remove_body region_size cursor region_end part_end s = (
     let (ix, w) = s;
         region_offset = cursor AND (region_size - 1);
         (region_index, granule_index) = region_of ix cursor
     in do {
       (region, ix, w) \<leftarrow> memx_get_region_mut ix region_index False w;
       case region of
         None \<Rightarrow> Some (MEMX_ERROR_NOT_FOUND, ix, w)
       | Some slot \<Rightarrow> do {
           d \<leftarrow> read_region w slot;
           if memx_region_type_decode d = MEMX_REGION_UNIFORM
              \<and> \<not> (region_offset = 0 \<and> part_end = region_end)
           then do {
             (dense, w) \<leftarrow> memx_dense_create ix (memx_uniform_decode d) w;
             if dense = 0 then Some (MEMX_ERROR_OUT_OF_MEMORY, ix, w)
             else do {
               let ix = ix\<lparr>uniform_regions := uniform_regions ix - 1,
                          dense_regions := dense_regions ix + 1\<rparr>;
               w \<leftarrow> write_region slot (memx_dense_encode dense) w;
               Some (MEMX_OK, ix, w)
             }
           }
           else Some (MEMX_OK, ix, w)
         }
     })"

text \<open>Second loop: clear the range, then drop a sparse leaf the range leaves behind.\<close>

definition remove_body ::
  "u64 \<Rightarrow> u64 \<Rightarrow> u64 \<Rightarrow> u64 \<Rightarrow> u64 \<Rightarrow> u64 \<Rightarrow> 'c memx_index \<times> 'c memx_world
     \<Rightarrow> (memx_status \<times> 'c memx_index \<times> 'c memx_world) option" where
  "remove_body region_size granule_size end' cursor region_end part_end s = (
     let (ix, w) = s;
         region_offset = cursor AND (region_size - 1);
         count = unat ((part_end - cursor) div granule_size);
         (region_index, granule_index) = region_of ix cursor
     in do {
       (region, ix, w) \<leftarrow> memx_get_region_mut ix region_index False w;
       case region of
         None \<Rightarrow> Some (MEMX_ERROR_NOT_FOUND, ix, w)
       | Some slot \<Rightarrow> do {
           d \<leftarrow> read_region w slot;
           (ix, w) \<leftarrow>
             (if memx_region_type_decode d = MEMX_REGION_UNIFORM
                 \<and> region_offset = 0 \<and> part_end = region_end
              then do {
                w \<leftarrow> write_region slot 0 w;
                Some (ix\<lparr>uniform_regions := uniform_regions ix - 1\<rparr>, w)
              }
              else do {
                w \<leftarrow> fill_handles (memx_dense_decode d) (unat granule_index) count
                       MEMX_HANDLE_INVALID w;
                memx_region_reclassify ix slot w
              });
           if directory_mode (config ix) = MEMX_DIRECTORY_SPARSE then do {
             let root_index = drop_bit (unat (sparse_leaf_bits ix)) region_index;
             let leaves_root =
                   (part_end = end'
                    \<or> (case memx_address_to_region ix part_end of
                         None \<Rightarrow> False
                       | Some (next_region_index, _) \<Rightarrow>
                           drop_bit (unat (sparse_leaf_bits ix)) next_region_index \<noteq> root_index));
             if leaves_root then do {
               (ix, w) \<leftarrow> memx_sparse_prune_leaf ix region_index w;
               Some (MEMX_OK, ix, w)
             }
             else Some (MEMX_OK, ix, w)
           }
           else Some (MEMX_OK, ix, w)
         }
     })"

definition memx_remove ::
  "'c memx_index option \<Rightarrow> u64 \<Rightarrow> u64 \<Rightarrow> u64 \<Rightarrow> 'c memx_world
     \<Rightarrow> (memx_status \<times> 'c memx_index option \<times> 'c memx_world) option" where
  "memx_remove index base sz expected_handle w =
     (if expected_handle = MEMX_HANDLE_INVALID then Some (MEMX_ERROR_INVALID_ARGUMENT, index, w)
      else if (case index of None \<Rightarrow> False | Some ix \<Rightarrow> overlay_mode ix)
      then Some (MEMX_ERROR_BUSY, index, w)
      else let (status, end') = memx_validate_range index base sz in
      if status \<noteq> MEMX_OK then Some (status, index, w)
      else case index of None \<Rightarrow> None | Some ix \<Rightarrow>
        (let region_size = push_bit (unat (region_shift (config ix))) 1;
             granule_size = push_bit (unat (granule_shift (config ix))) 1
         in if flat_mode ix then do {
              (status, w) \<leftarrow> flat_update ix base end' expected_handle
                               MEMX_ERROR_NOT_FOUND MEMX_HANDLE_INVALID w;
              Some (status, Some ix, w)
            }
            else do {
              status \<leftarrow> memx_preflight_range ix base end' expected_handle False w;
              if status \<noteq> MEMX_OK then Some (status, Some ix, w)
              else do {
                (status, ix, w) \<leftarrow>
                  region_walk (prepare_remove_body region_size) region_size end' base (ix, w);
                if status \<noteq> MEMX_OK then Some (status, Some ix, w)
                else do {
                  (status, ix, w) \<leftarrow>
                    region_walk (remove_body region_size granule_size end')
                      region_size end' base (ix, w);
                  Some (status, Some ix, w)
                }
              }
            }))"

end
