(* ===== verification/Memx_Walk.thy ===== *)
theory Memx_Walk
  imports Memx_Invariant Memx_Mutate
begin

text \<open>
  The two loop shapes of \<open>Memx_Mutate\<close>, read on granule numbers.  A cursor is the address of a
  granule boundary; one round of \<open>region_walk\<close> handles the granules from the cursor's to the
  end of its region or of the range.  The rules below turn a loop into an induction whose
  invariant speaks about granule numbers, and prove that the loop returns.
\<close>

section \<open>Index records that differ in counters only\<close>

definition same_index :: "'c memx_index \<Rightarrow> 'c memx_index \<Rightarrow> bool" where
  "same_index ix ix' \<longleftrightarrow>
     ix' = ix\<lparr>allocated_sparse_leaves := allocated_sparse_leaves ix',
             dense_regions := dense_regions ix', uniform_regions := uniform_regions ix'\<rparr>"

lemma same_index_refl [simp]: "same_index ix ix"
  by (simp add: same_index_def)

lemma same_index_trans: "same_index a b \<Longrightarrow> same_index b c \<Longrightarrow> same_index a c"
  unfolding same_index_def by (cases a; cases b; cases c) auto

lemma same_index_counters [simp]:
  "same_index ix (ix\<lparr>dense_regions := a, uniform_regions := b\<rparr>)"
  "same_index ix (ix\<lparr>dense_regions := a\<rparr>)"
  "same_index ix (ix\<lparr>uniform_regions := b\<rparr>)"
  "same_index ix (ix\<lparr>allocated_sparse_leaves := c\<rparr>)"
  by (cases ix; simp add: same_index_def)+

lemma same_index_fields:
  assumes "same_index ix ix'"
  shows "config ix' = config ix" "self ix' = self ix" "region_count ix' = region_count ix"
    "granules_per_region ix' = granules_per_region ix" "directory ix' = directory ix"
    "sparse_leaf_bits ix' = sparse_leaf_bits ix" "sparse_leaf_count ix' = sparse_leaf_count ix"
    "sparse_root_count ix' = sparse_root_count ix" "dense_bytes ix' = dense_bytes ix"
    "flat_mode ix' = flat_mode ix" "overlay_mode ix' = overlay_mode ix"
  using assms by (cases ix; cases ix'; simp add: same_index_def)+

lemma same_index_view:
  assumes "same_index ix ix'"
  shows "rdesc ix' h = rdesc ix h" "rslot ix' h = rslot ix h" "gmap ix' h = gmap ix h"
    "index_shape ix' = index_shape ix" "covered ix' = covered ix"
    "granule_of ix' = granule_of ix" "top_region ix' = top_region ix"
    "region_of ix' = region_of ix"
  using same_index_fields [OF assms]
  by (simp_all add: fun_eq_iff rdesc_def rslot_def leaf_at_def gmap_def index_shape_def
      covered_def granule_of_def top_region_def region_of_def memx_address_to_region_def Let_def)

section \<open>Granule boundaries\<close>

definition at :: "'c memx_index \<Rightarrow> u64 \<Rightarrow> nat \<Rightarrow> bool" where
  "at ix c k \<longleftrightarrow> unat c = base_of ix + k * 2 ^ gshift ix"

abbreviation region_bytes_of :: "'c memx_index \<Rightarrow> u64" where
  "region_bytes_of ix \<equiv> push_bit (rshift ix) 1"

abbreviation granule_bytes_of :: "'c memx_index \<Rightarrow> u64" where
  "granule_bytes_of ix \<equiv> push_bit (gshift ix) 1"

text \<open>\<^verbatim>\<open>region_end\<close> and \<^verbatim>\<open>part_end\<close> of the loops.\<close>

definition region_end_of :: "'c memx_index \<Rightarrow> u64 \<Rightarrow> u64 \<Rightarrow> u64" where
  "region_end_of ix c e = memx_region_boundary c (region_bytes_of ix) e"

definition part_end_of :: "'c memx_index \<Rightarrow> u64 \<Rightarrow> u64 \<Rightarrow> u64" where
  "part_end_of ix c e = (if region_end_of ix c e < e then region_end_of ix c e else e)"

text \<open>The granule number where the part that starts at granule \<open>k\<close> ends.\<close>

definition stop_of :: "'c memx_index \<Rightarrow> nat \<Rightarrow> nat \<Rightarrow> nat" where
  "stop_of ix k m = min m ((k div per_region ix + 1) * per_region ix)"

lemma at_less: "at ix c k \<Longrightarrow> at ix e m \<Longrightarrow> c < e \<longleftrightarrow> k < m"
  by (simp add: at_def word_less_nat_alt)

lemma at_inj: "at ix c k \<Longrightarrow> at ix e k \<Longrightarrow> c = e"
  by (simp add: at_def unat_eq_iff)

lemma at_granule_of: "at ix c k \<Longrightarrow> granule_of ix c = k"
  by (simp add: at_def granule_of_def)

lemma at_covered:
  assumes "index_shape ix" "at ix c k" "k < regions ix * per_region ix"
  shows "covered ix c"
  using assms by (simp add: at_def covered_def region_bytes mult.assoc [symmetric])

lemma region_of_at:
  assumes "index_shape ix" "at ix c k" "k < regions ix * per_region ix"
  shows "region_of ix c = (of_nat (k div per_region ix), of_nat (k mod per_region ix))"
  using assms by (simp add: region_of_def memx_address_to_region_spec at_covered at_granule_of)

lemma per_region_lt: "index_shape ix \<Longrightarrow> per_region ix < 2 ^ 64"
  by simp

lemma unat_of_nat_le: "n < unat (x :: u64) \<Longrightarrow> unat (of_nat n :: u64) = n"
proof -
  assume "n < unat x"
  with unat_lt_64 [of x] have "n < 18446744073709551616" by linarith
  then show ?thesis by (simp add: unat_of_nat)
qed

lemma unat_granule_index:
  "index_shape ix \<Longrightarrow> unat (of_nat (k mod per_region ix) :: u64) = k mod per_region ix"
  by (rule unat_of_nat_le [of _ "granules_per_region ix"]) (simp add: per_region_pos)

lemma unat_region_index:
  "k < regions ix * per_region ix \<Longrightarrow> unat (of_nat (k div per_region ix) :: u64) = k div per_region ix"
  by (rule unat_of_nat_le [of _ "region_count ix"]) (rule less_mult_imp_div_less)

text \<open>Offset of a cursor in its region.\<close>

lemma at_region_div:
  assumes "index_shape ix" "at ix c k"
  shows "unat c div 2 ^ rshift ix * 2 ^ rshift ix
       = base_of ix + k div per_region ix * per_region ix * 2 ^ gshift ix"
proof -
  from base_dvd [OF assms(1)] obtain b where b: "base_of ix = b * 2 ^ rshift ix"
    by (metis dvd_def mult.commute)
  have "unat c div 2 ^ rshift ix = b + k * 2 ^ gshift ix div 2 ^ rshift ix"
    using assms(2) by (simp add: at_def b)
  also have "k * 2 ^ gshift ix div 2 ^ rshift ix = k div per_region ix"
    by (simp add: region_bytes [OF assms(1)])
  finally show ?thesis
    by (simp add: b add_mult_distrib region_bytes [OF assms(1)])
qed

lemma cursor_offset_zero:
  assumes "index_shape ix" "at ix c k"
  shows "c AND (region_bytes_of ix - 1) = 0 \<longleftrightarrow> k mod per_region ix = 0"
proof -
  have "c AND (region_bytes_of ix - 1) = 0 \<longleftrightarrow> 2 ^ rshift ix dvd unat c"
    by (simp add: pow2_minus_1 and_mask_eq_0_iff)
  also have "\<dots> \<longleftrightarrow> unat c div 2 ^ rshift ix * 2 ^ rshift ix = unat c"
    by (metis dvd_div_mult_self dvd_triv_right)
  also have "\<dots> \<longleftrightarrow> k div per_region ix * per_region ix = k"
    using assms(2) unfolding at_region_div [OF assms] by (simp add: at_def)
  also have "\<dots> \<longleftrightarrow> k mod per_region ix = 0"
    by (metis add_cancel_left_right div_mult_mod_eq add.commute)
  finally show ?thesis .
qed

lemma region_end_unat:
  assumes shape: "index_shape ix" and c: "at ix c k"
  shows "unat (region_end_of ix c e) =
    (if base_of ix + (k div per_region ix + 1) * per_region ix * 2 ^ gshift ix < 2 ^ 64
     then base_of ix + (k div per_region ix + 1) * per_region ix * 2 ^ gshift ix
     else unat e)"
proof -
  have "rshift ix < 64" using shape by (simp add: index_shape_def)
  moreover have "base_of ix + k div per_region ix * per_region ix * 2 ^ gshift ix + 2 ^ rshift ix
      = base_of ix + (k div per_region ix + 1) * per_region ix * 2 ^ gshift ix"
    by (simp add: region_bytes [OF shape] add_mult_distrib)
  ultimately show ?thesis
    unfolding region_end_of_def
    by (simp only: memx_region_boundary_unat at_region_div [OF shape c])
qed

text \<open>One part: it is not empty, and it ends at a granule boundary.\<close>

lemma stop_of_bounds: "k < m \<Longrightarrow> 0 < per_region ix \<Longrightarrow> k < stop_of ix k m \<and> stop_of ix k m \<le> m"
  by (auto simp: stop_of_def) (metis dividend_less_div_times mult.commute add.commute mult_Suc)

lemma part_end_at:
  assumes shape: "index_shape ix" and c: "at ix c k" and e: "at ix e m" and "k < m"
  shows "at ix (part_end_of ix c e) (stop_of ix k m)"
proof -
  let ?s = "(k div per_region ix + 1) * per_region ix"
  have e64: "base_of ix + m * 2 ^ gshift ix < 2 ^ 64"
    using e unat_lt_64 [of e] by (simp add: at_def)
  show ?thesis
  proof (cases "base_of ix + ?s * 2 ^ gshift ix < 2 ^ 64")
    case True
    then show ?thesis
      using e by (auto simp: part_end_of_def stop_of_def at_def word_less_nat_alt
          region_end_unat [OF shape c] min_def)
  next
    case False
    with e64 have "m < ?s" by (meson add_le_cancel_left leI le_less_trans mult_le_cancel2)
    moreover from False have "region_end_of ix c e = e"
      unfolding unat_eq_iff by (simp add: region_end_unat [OF shape c])
    ultimately show ?thesis using e by (simp add: part_end_of_def stop_of_def)
  qed
qed

text \<open>The loop's test for a whole rest of a region, and what the last region makes of it.\<close>

lemma part_end_eq_region_end:
  assumes shape: "index_shape ix" and c: "at ix c k" and e: "at ix e m" and "k < m"
    and "m \<le> regions ix * per_region ix"
  shows "part_end_of ix c e = region_end_of ix c e \<longleftrightarrow>
    (k div per_region ix + 1) * per_region ix \<le> m \<or> top_region ix (k div per_region ix)"
proof -
  let ?s = "(k div per_region ix + 1) * per_region ix"
  have tr: "top_region ix (k div per_region ix) \<longleftrightarrow> base_of ix + ?s * 2 ^ gshift ix = 2 ^ 64"
    unfolding top_region_def region_bytes [OF shape] by (simp only: mult.assoc)
  have "k div per_region ix < regions ix"
    using assms(4,5) by (intro less_mult_imp_div_less) simp
  then have "?s * 2 ^ gshift ix \<le> regions ix * per_region ix * 2 ^ gshift ix"
    by (intro mult_le_mono1) simp
  then have le: "base_of ix + ?s * 2 ^ gshift ix \<le> 2 ^ 64"
    using shape_end [OF shape] unfolding region_bytes [OF shape] mult.assoc by linarith
  show ?thesis
  proof (cases "base_of ix + ?s * 2 ^ gshift ix < 2 ^ 64")
    case True
    then have "at ix (region_end_of ix c e) ?s"
      by (simp add: at_def region_end_unat [OF shape c])
    then have "region_end_of ix c e < e \<longleftrightarrow> ?s < m" "region_end_of ix c e = e \<longleftrightarrow> ?s = m"
      using e by (auto simp: at_less) (auto simp: at_def unat_eq_iff)
    then show ?thesis
      using True unfolding tr part_end_of_def by auto
  next
    case False
    then have "region_end_of ix c e = e"
      unfolding unat_eq_iff by (simp add: region_end_unat [OF shape c])
    with False le show ?thesis unfolding tr part_end_of_def by simp
  qed
qed

lemma top_region_stop:
  assumes "index_shape ix" "at ix e m" "top_region ix (k div per_region ix)"
  shows "m < (k div per_region ix + 1) * per_region ix"
proof -
  have "base_of ix + m * 2 ^ gshift ix
      < base_of ix + (k div per_region ix + 1) * per_region ix * 2 ^ gshift ix"
    using assms(2,3) unat_lt_64 [of e]
    unfolding top_region_def region_bytes [OF assms(1)] at_def mult.assoc by simp
  then show ?thesis by (simp only: add_less_cancel_left mult_less_cancel2)
qed

section \<open>Loop rules\<close>

lemma part_bytes:
  assumes "at ix c k" "at ix p n" "k \<le> n"
  shows "unat (p - c) = (n - k) * 2 ^ gshift ix"
proof -
  from assms have "c \<le> p" by (simp add: at_def word_le_nat_alt)
  then have "unat (p - c) = unat p - unat c" by (rule unat_sub_exact)
  with assms show ?thesis by (simp add: at_def diff_mult_distrib)
qed

lemma part_count:
  assumes "index_shape ix" "at ix c k" "at ix p n" "k \<le> n"
  shows "unat ((p - c) div granule_bytes_of ix) = n - k"
proof -
  have "gshift ix < 64" using assms(1) by (simp add: index_shape_def)
  then show ?thesis by (simp add: unat_div part_bytes [OF assms(2-4)] unat_pow2)
qed

text \<open>\<open>region_walk\<close> returns, and its invariant carries from the first granule to the end.\<close>

lemma region_walk_rule:
  assumes shape: "index_shape ix"
    and e: "at ix e m" and m: "m \<le> regions ix * per_region ix"
    and step: "\<And>k c s. k0 \<le> k \<Longrightarrow> k < m \<Longrightarrow> at ix c k \<Longrightarrow> I k s \<Longrightarrow>
      \<exists>st s'. body c (region_end_of ix c e) (part_end_of ix c e) s = Some (st, s')
        \<and> (if st = MEMX_OK then I (stop_of ix k m) s' else Q st s')"
    and fin: "\<And>s. I m s \<Longrightarrow> Q MEMX_OK s"
    and c: "at ix c k" and k: "k0 \<le> k" "k \<le> m" and I: "I k s"
  shows "\<exists>st s'. region_walk body (region_bytes_of ix) e c s = Some (st, s') \<and> Q st s'"
  using c k I
proof (induction "m - k" arbitrary: c k s rule: less_induct)
  case less
  show ?case
  proof (cases "k = m")
    case True
    with less.prems e have "\<not> c < e" by (simp add: at_less)
    then show ?thesis
      using True less.prems fin by (subst region_walk.simps) auto
  next
    case False
    with less.prems have km: "k < m" by simp
    then have "c < e" using less.prems e by (simp add: at_less)
    from step [OF less.prems(2) km less.prems(1,4)] obtain st s' where
      b: "body c (region_end_of ix c e) (part_end_of ix c e) s = Some (st, s')" and
      r: "if st = MEMX_OK then I (stop_of ix k m) s' else Q st s'" by blast
    have unfold: "region_walk body (region_bytes_of ix) e c s =
      (if st = MEMX_OK then region_walk body (region_bytes_of ix) e (part_end_of ix c e) s'
       else Some (st, s'))"
      using \<open>c < e\<close> b
      unfolding region_walk.simps [of body _ e c s] Let_def region_end_of_def [symmetric]
        part_end_of_def [symmetric]
      by (simp del: push_bit_of_1)
    show ?thesis
    proof (cases "st = MEMX_OK")
      case True
      note st = stop_of_bounds [OF km per_region_pos [OF shape]]
      have "\<exists>st s''. region_walk body (region_bytes_of ix) e (part_end_of ix c e) s' = Some (st, s'')
          \<and> Q st s''"
        using st r True less.prems(2) km
        by (intro less.hyps [of "stop_of ix k m"] part_end_at [OF shape less.prems(1) e km]) auto
      with True unfold show ?thesis by simp
    next
      case nok: False
      with unfold r show ?thesis by auto
    qed
  qed
qed

lemma at_step:
  assumes "index_shape ix" "at ix c k" "at ix e m" "k < m"
  shows "at ix (c + granule_bytes_of ix) (Suc k)"
proof -
  have g: "gshift ix < 64" using assms(1) by (simp add: index_shape_def)
  have "Suc k * 2 ^ gshift ix \<le> m * 2 ^ gshift ix"
    using assms(4) by (intro mult_le_mono1) simp
  then have "unat c + 2 ^ gshift ix < 2 ^ 64"
    using assms(2,3) unat_lt_64 [of e] by (simp add: at_def)
  then show ?thesis
    using assms(2) by (simp add: at_def unat_add_exact unat_pow2 [OF g])
qed

lemma granule_walk_rule:
  assumes shape: "index_shape ix" and e: "at ix e m"
    and step: "\<And>k c s. k0 \<le> k \<Longrightarrow> k < m \<Longrightarrow> at ix c k \<Longrightarrow> I k s \<Longrightarrow>
      \<exists>st s'. body c s = Some (st, s') \<and> (if st = MEMX_OK then I (Suc k) s' else Q st s')"
    and fin: "\<And>s. I m s \<Longrightarrow> Q MEMX_OK s"
    and c: "at ix c k" and k: "k0 \<le> k" "k \<le> m" and I: "I k s"
  shows "\<exists>st s'. granule_walk body (granule_bytes_of ix) e c s = Some (st, s') \<and> Q st s'"
  using c k I
proof (induction "m - k" arbitrary: c k s rule: less_induct)
  case less
  show ?case
  proof (cases "k = m")
    case True
    with less.prems e have "\<not> c < e" by (simp add: at_less)
    then show ?thesis
      using True less.prems fin by (subst granule_walk.simps) auto
  next
    case False
    with less.prems have km: "k < m" by simp
    then have "c < e" using less.prems e by (simp add: at_less)
    from step [OF less.prems(2) km less.prems(1,4)] obtain st s' where
      b: "body c s = Some (st, s')" and
      r: "if st = MEMX_OK then I (Suc k) s' else Q st s'" by blast
    have unfold: "granule_walk body (granule_bytes_of ix) e c s =
      (if st = MEMX_OK then granule_walk body (granule_bytes_of ix) e (c + granule_bytes_of ix) s'
       else Some (st, s'))"
      using \<open>c < e\<close> b by (subst granule_walk.simps) simp
    show ?thesis
    proof (cases "st = MEMX_OK")
      case True
      have "\<exists>st s''. granule_walk body (granule_bytes_of ix) e (c + granule_bytes_of ix) s'
            = Some (st, s'') \<and> Q st s''"
        using r True less.prems(2) km
        by (intro less.hyps [of "Suc k"] at_step [OF shape less.prems(1) e km]) auto
      with True unfold show ?thesis by simp
    next
      case nok: False
      with unfold r show ?thesis by auto
    qed
  qed
qed

end
