(* ===== verification/Memx_Steps.thy ===== *)
theory Memx_Steps
  imports Memx_Walk
begin

text \<open>
  The primitive state changes of insert and remove, each proved once against the invariant:
  installing a dense table, setting and clearing a uniform descriptor, filling a dense table,
  reclassifying it, creating and pruning a sparse leaf.  Every lemma says what happens to the
  granule map and that the rest of the index is left alone.
\<close>

section \<open>Invariant and counters\<close>

lemma index_invD:
  assumes "index_inv live fr ix w"
  shows "world_ok (index_allocator ix) live w" "index_shape ix" "dir_ok ix (heap w)"
    "regions_ok ix (heap w)" "top_ok ix (heap w)"
    "unat (dense_regions ix) = count_regions ix (heap w) MEMX_REGION_DENSE"
    "unat (uniform_regions ix) = count_regions ix (heap w) MEMX_REGION_UNIFORM"
    "heap w (self ix) = Some IndexBlock" "frame_ok fr ix (heap w)"
    "\<not> flat_mode ix" "\<not> overlay_mode ix"
  using assms by (simp_all add: index_inv_def)

lemma index_inv_cong:
  "index_inv live fr ix w \<Longrightarrow> heap w' = heap w \<Longrightarrow> world_ok (index_allocator ix) live w' \<Longrightarrow>
   index_inv live fr ix w'"
  by (simp add: index_inv_def)

lemma count_less:
  assumes "i < regions ix" "memx_region_type_decode (rdesc ix h i) \<noteq> t"
  shows "count_regions ix h t < regions ix"
proof -
  have "count_regions ix h t \<le> card ({..< regions ix} - {i})"
    unfolding count_regions_def using assms by (intro card_mono) auto
  also have "\<dots> < regions ix" using assms(1) by simp
  finally show ?thesis .
qed

lemma count_pos:
  assumes "i < regions ix" "memx_region_type_decode (rdesc ix h i) = t"
  shows "0 < count_regions ix h t"
  unfolding count_regions_def using assms by (auto simp: card_gt_0_iff)

lemma unat_inc: "unat (x :: u64) < unat (y :: u64) \<Longrightarrow> unat (x + 1) = unat x + 1"
proof -
  assume "unat x < unat y"
  with unat_lt_64 [of y] have "unat x + 1 < 18446744073709551616" by linarith
  then show ?thesis by (subst unat_add_exact) simp_all
qed

lemma unat_dec: "0 < unat (x :: u64) \<Longrightarrow> unat (x - 1) = unat x - 1"
  by (subst unat_sub_exact) (auto simp: word_le_nat_alt)

lemma counter_inc:
  assumes inv: "index_inv live fr ix w" and i: "i < regions ix"
  shows "\<not> is_dense (rdesc ix (heap w) i) \<Longrightarrow> unat (dense_regions ix + 1) = unat (dense_regions ix) + 1"
    and "\<not> is_uniform (rdesc ix (heap w) i) \<Longrightarrow>
      unat (uniform_regions ix + 1) = unat (uniform_regions ix) + 1"
proof -
  note lt = count_less [OF i, of "heap w"]
  show "unat (dense_regions ix + 1) = unat (dense_regions ix) + 1"
    if "\<not> is_dense (rdesc ix (heap w) i)"
    using lt [OF that] index_invD(6) [OF inv] by (intro unat_inc [where y = "region_count ix"]) simp
  show "unat (uniform_regions ix + 1) = unat (uniform_regions ix) + 1"
    if "\<not> is_uniform (rdesc ix (heap w) i)"
    using lt [OF that] index_invD(7) [OF inv] by (intro unat_inc [where y = "region_count ix"]) simp
qed

lemma counter_dec:
  assumes inv: "index_inv live fr ix w" and i: "i < regions ix"
  shows "is_dense (rdesc ix (heap w) i) \<Longrightarrow> unat (dense_regions ix - 1) + 1 = unat (dense_regions ix)"
    and "is_uniform (rdesc ix (heap w) i) \<Longrightarrow>
      unat (uniform_regions ix - 1) + 1 = unat (uniform_regions ix)"
proof -
  note gt = count_pos [OF i, of "heap w"]
  show "unat (dense_regions ix - 1) + 1 = unat (dense_regions ix)"
    if "is_dense (rdesc ix (heap w) i)"
    using gt [OF that] index_invD(6) [OF inv] by (subst unat_dec) simp_all
  show "unat (uniform_regions ix - 1) + 1 = unat (uniform_regions ix)"
    if "is_uniform (rdesc ix (heap w) i)"
    using gt [OF that] index_invD(7) [OF inv] by (subst unat_dec) simp_all
qed

lemma counter_fill:
  "ix\<lparr>dense_regions := a\<rparr> = ix\<lparr>dense_regions := a, uniform_regions := uniform_regions ix\<rparr>"
  "ix\<lparr>uniform_regions := b\<rparr> = ix\<lparr>dense_regions := dense_regions ix, uniform_regions := b\<rparr>"
  "ix = ix\<lparr>dense_regions := dense_regions ix, uniform_regions := uniform_regions ix\<rparr>"
  by simp_all

section \<open>What a step promises\<close>

text \<open>
  \<open>step_to live fr s s' f\<close>: from \<open>s\<close> the code reaches \<open>s'\<close>, with the invariant and every
  constant field kept, and the granule map changed to \<open>f\<close> applied to the old one.
\<close>

definition step_to ::
  "('c \<Rightarrow> u64 set) \<Rightarrow> (u64 \<rightharpoonup> memx_object) \<Rightarrow> 'c memx_index \<times> 'c memx_world
     \<Rightarrow> 'c memx_index \<times> 'c memx_world \<Rightarrow> (nat \<Rightarrow> u64 \<Rightarrow> u64) \<Rightarrow> bool" where
  "step_to live fr s s' f \<longleftrightarrow>
     (case (s, s') of ((ix, w), (ix', w')) \<Rightarrow>
        same_index ix ix' \<and> index_inv live fr ix' w'
        \<and> (\<forall>k < regions ix * per_region ix.
             gmap ix (heap w') k = f k (gmap ix (heap w) k)))"

text \<open>\<open>only_region\<close>: slots stay where they are and no other descriptor changes.\<close>

definition only_region ::
  "'c memx_index \<Rightarrow> (u64 \<rightharpoonup> memx_object) \<Rightarrow> (u64 \<rightharpoonup> memx_object) \<Rightarrow> nat \<Rightarrow> bool" where
  "only_region ix h h' i \<longleftrightarrow>
     (\<forall>k. rslot ix h' k = rslot ix h k)
     \<and> (\<forall>k < regions ix. k \<noteq> i \<longrightarrow> rdesc ix h' k = rdesc ix h k)"

lemma step_toI:
  "same_index ix ix' \<Longrightarrow> index_inv live fr ix' w' \<Longrightarrow>
   (\<And>k. k < regions ix * per_region ix \<Longrightarrow> gmap ix (heap w') k = f k (gmap ix (heap w) k)) \<Longrightarrow>
   step_to live fr (ix, w) (ix', w') f"
  by (simp add: step_to_def)

lemma step_to_trans:
  assumes "step_to live fr s s' f" "step_to live fr s' s'' g"
    and "\<And>k x. h k x = g k (f k x)"
  shows "step_to live fr s s'' h"
  using assms
  by (auto simp: step_to_def same_index_fields same_index_view intro: same_index_trans
      split: prod.splits)

lemma region_step:
  assumes inv: "index_inv live fr ix w" and i: "i < regions ix"
    and change: "region_change ix (heap w) (heap w') i d1"
    and ok: "world_ok (index_allocator ix) live w'"
    and nd: "unat nd + (if is_dense (rdesc ix (heap w) i) then 1 else 0)
           = unat (dense_regions ix) + (if is_dense d1 then 1 else 0)"
    and nu: "unat nu + (if is_uniform (rdesc ix (heap w) i) then 1 else 0)
           = unat (uniform_regions ix) + (if is_uniform d1 then 1 else 0)"
    and top: "top_region ix i \<Longrightarrow> dvalue (heap w') d1 (per_region ix - 1) = MEMX_HANDLE_INVALID"
    and val: "\<And>g. g < per_region ix \<Longrightarrow>
      dvalue (heap w') d1 g
        = f (i * per_region ix + g) (dvalue (heap w) (rdesc ix (heap w) i) g)"
    and other: "\<And>k x. k div per_region ix \<noteq> i \<Longrightarrow> f k x = x"
  shows "step_to live fr (ix, w) (ix\<lparr>dense_regions := nd, uniform_regions := nu\<rparr>, w') f"
    and "rdesc ix (heap w') i = d1" and "only_region ix (heap w) (heap w') i"
proof -
  note rr = region_replace [OF inv i change ok nd nu top]
  have "gmap ix (heap w') k = f k (gmap ix (heap w) k)" if k: "k < regions ix * per_region ix" for k
  proof (cases "k div per_region ix = i")
    case True
    have "k mod per_region ix < per_region ix"
      using per_region_pos [OF index_invD(2) [OF inv]] by simp
    moreover have "i * per_region ix + k mod per_region ix = k"
      using True by (metis div_mult_mod_eq)
    moreover have "gmap ix (heap w') k = dvalue (heap w') d1 (k mod per_region ix)"
      using True by (subst rr(2)) (simp_all add: k)
    ultimately show ?thesis
      using val [of "k mod per_region ix"] True by (simp add: gmap_def)
  next
    case False
    then show ?thesis by (simp add: rr(2) k other)
  qed
  then show "step_to live fr (ix, w) (ix\<lparr>dense_regions := nd, uniform_regions := nu\<rparr>, w') f"
    by (intro step_toI rr(1)) auto
  show "rdesc ix (heap w') i = d1" using rr(3) i by simp
  show "only_region ix (heap w) (heap w') i" using rr(3,4) by (simp add: only_region_def)
qed

text \<open>The slot of a region with a table: the code reads its descriptor there.\<close>

lemma slot_access:
  assumes inv: "index_inv live fr ix w" and i: "i < regions ix"
    and slot: "rslot ix (heap w) i = Some s"
  obtains p j ds where "s = (p, j)" "heap w p = Some (RegionTable ds)" "j < length ds"
    "rdesc ix (heap w) i = ds ! j" "read_region w s = Some (rdesc ix (heap w) i)"
proof -
  obtain p j where s: "s = (p, j)" by (cases s)
  obtain ds where "heap w p = Some (RegionTable ds)" "j < length ds" "rdesc ix (heap w) i = ds ! j"
    using rslot_table [OF index_invD(2,3) [OF inv] i] slot s by metis
  then show thesis using that s by simp
qed

lemma rdesc_ok:
  "index_inv live fr ix w \<Longrightarrow> i < regions ix \<Longrightarrow> desc_ok (per_region ix) (heap w) (rdesc ix (heap w) i)"
  by (simp add: index_inv_def regions_ok_def)

lemma rdesc_cases:
  assumes "index_inv live fr ix w" "i < regions ix"
  obtains "rdesc ix (heap w) i = 0" | "is_uniform (rdesc ix (heap w) i)"
    | hs where "is_dense (rdesc ix (heap w) i)"
      "heap w (memx_dense_decode (rdesc ix (heap w) i)) = Some (HandleTable hs)"
      "length hs = per_region ix"
  using rdesc_ok [OF assms] by (auto simp: desc_ok_def)

section \<open>Installing a dense table\<close>

lemma memx_dense_create_cases:
  assumes inv: "index_inv live fr ix w"
  obtains (null) w' where "memx_dense_create ix v w = Some (0, w')" "heap w' = heap w"
      "world_ok (index_allocator ix) live w'"
    | (block) q w' where "memx_dense_create ix v w = Some (q, w')" "q \<noteq> 0" "q AND 3 = 0"
      "heap w q = None" "heap w' = (heap w)(q \<mapsto> HandleTable (replicate (per_region ix) v))"
      "world_ok (index_allocator ix) live w'"
  using index_invD(1) [OF inv]
proof (cases rule: memx_allocate_cases [where n = "dense_bytes ix"])
  case (null w')
  then show ?thesis using that(1) by (simp add: memx_dense_create_def)
next
  case (block q w')
  have bytes: "unat (dense_bytes ix) = 8 * per_region ix"
    using index_invD(2) [OF inv] by (simp add: index_shape_def)
  have q: "q AND 3 = 0" using block by (intro aligned8_aligned4)
  let ?obj = "HandleTable (replicate (per_region ix) v)"
  have "init_object q ?obj w' = Some (w'\<lparr>heap := (heap w')(q \<mapsto> ?obj)\<rparr>)"
    using block by (intro init_object_ok) (auto simp: bytes)
  then have "memx_dense_create ix v w = Some (q, w'\<lparr>heap := (heap w')(q \<mapsto> ?obj)\<rparr>)"
    using block q by (simp add: memx_dense_create_def MEMX_DESCRIPTOR_TAG_MASK_def)
  moreover have "world_ok (index_allocator ix) live (w'\<lparr>heap := (heap w')(q \<mapsto> ?obj)\<rparr>)"
    using block by (intro world_ok_heap_upd) auto
  ultimately show ?thesis using that(2) block q by simp
qed

text \<open>
  Publishing a fresh table: a region that is EMPTY or UNIFORM becomes DENSE with the same
  value in every granule.
\<close>

lemma install_dense:
  assumes inv: "index_inv live fr ix w" and i: "i < regions ix"
    and slot: "rslot ix (heap w) i = Some s"
    and nd: "\<not> is_dense (rdesc ix (heap w) i)"
    and q: "heap w q = None" "q AND 3 = 0"
    and w1: "heap w1 = (heap w)(q \<mapsto> HandleTable (replicate (per_region ix) v))"
    and ok: "world_ok (index_allocator ix) live w1"
    and v: "v = dvalue (heap w) (rdesc ix (heap w) i) 0"
    and b: "b = (if is_uniform (rdesc ix (heap w) i) then uniform_regions ix - 1
                 else uniform_regions ix)"
  obtains w2 where "write_region s (memx_dense_encode q) w1 = Some w2"
    "step_to live fr (ix, w) (ix\<lparr>dense_regions := dense_regions ix + 1, uniform_regions := b\<rparr>, w2)
       (\<lambda>k x. x)"
    "rdesc ix (heap w2) i = memx_dense_encode q" "only_region ix (heap w) (heap w2) i"
proof -
  let ?d0 = "rdesc ix (heap w) i" and ?d1 = "memx_dense_encode q"
  obtain p j ds where s: "s = (p, j)" and p: "heap w p = Some (RegionTable ds)" "j < length ds"
    by (rule slot_access [OF inv i slot])
  let ?w2 = "w1\<lparr>heap := (heap w1)(p \<mapsto> RegionTable (ds[j := ?d1]))\<rparr>"
  have pq: "p \<noteq> q" using p q by auto
  then have wr: "write_region s ?d1 w1 = Some ?w2" using p s w1 by simp
  have d0: "?d0 = 0 \<or> is_uniform ?d0" using rdesc_cases [OF inv i] nd by metis
  have hq: "heap ?w2 (memx_dense_decode ?d1) = Some (HandleTable (replicate (per_region ix) v))"
    using pq w1 q by (simp add: memx_dense_roundtrip)
  have dv: "dvalue (heap ?w2) ?d1 g = dvalue (heap w) ?d0 g" if "g < per_region ix" for g
    using d0 that q hq by (auto simp: v)
  have change: "region_change ix (heap w) (heap ?w2) i ?d1"
    unfolding region_change_def Let_def
    using slot p q s pq w1 hq nd by (intro exI [of _ p] exI [of _ j] exI [of _ ds])
      (auto simp: desc_ok_def memx_dense_roundtrip)
  have ok2: "world_ok (index_allocator ix) live ?w2"
    using p pq w1 by (intro world_ok_heap_upd [OF ok]) simp
  have cnt: "unat (dense_regions ix + 1) + (if is_dense ?d0 then 1 else 0)
      = unat (dense_regions ix) + (if is_dense ?d1 then 1 else 0)"
    "unat b + (if is_uniform ?d0 then 1 else 0)
      = unat (uniform_regions ix) + (if is_uniform ?d1 then 1 else 0)"
    using counter_inc(1) [OF inv i nd] counter_dec(2) [OF inv i] nd q by (auto simp: b)
  have pos: "per_region ix - 1 < per_region ix"
    using per_region_pos [OF index_invD(2) [OF inv]] by simp
  have top: "dvalue (heap ?w2) ?d1 (per_region ix - 1) = MEMX_HANDLE_INVALID"
    if "top_region ix i"
    unfolding dv [OF pos] using index_invD(5) [OF inv] i that by (simp add: top_ok_def)
  note rs = region_step [OF inv i change ok2 cnt top, where f = "\<lambda>k x. x"]
  show thesis by (rule that [OF wr]) (use rs dv in auto)
qed

section \<open>Setting and clearing a uniform region\<close>

lemma set_uniform:
  assumes inv: "index_inv live fr ix w" and i: "i < regions ix"
    and slot: "rslot ix (heap w) i = Some s"
    and d0: "rdesc ix (heap w) i = 0" and h: "h \<le> MEMX_INLINE_HANDLE_MAX"
    and nt: "\<not> top_region ix i"
  obtains w2 where "write_region s (memx_uniform_encode h) w = Some w2"
    "step_to live fr (ix, w) (ix\<lparr>uniform_regions := uniform_regions ix + 1\<rparr>, w2)
       (\<lambda>k x. if k div per_region ix = i then h else x)"
    "only_region ix (heap w) (heap w2) i"
proof -
  let ?d1 = "memx_uniform_encode h"
  obtain p j ds where s: "s = (p, j)" and p: "heap w p = Some (RegionTable ds)" "j < length ds"
    by (rule slot_access [OF inv i slot])
  let ?w2 = "w\<lparr>heap := (heap w)(p \<mapsto> RegionTable (ds[j := ?d1]))\<rparr>"
  have wr: "write_region s ?d1 w = Some ?w2" using p s by simp
  have change: "region_change ix (heap w) (heap ?w2) i ?d1"
    unfolding region_change_def Let_def
    using slot p s d0 by (intro exI [of _ p] exI [of _ j] exI [of _ ds]) (auto simp: desc_ok_def)
  have ok2: "world_ok (index_allocator ix) live ?w2"
    using p by (intro world_ok_heap_upd [OF index_invD(1) [OF inv]]) simp
  have cnt: "unat (dense_regions ix) + (if is_dense (rdesc ix (heap w) i) then 1 else 0)
      = unat (dense_regions ix) + (if is_dense ?d1 then 1 else 0)"
    "unat (uniform_regions ix + 1) + (if is_uniform (rdesc ix (heap w) i) then 1 else 0)
      = unat (uniform_regions ix) + (if is_uniform ?d1 then 1 else 0)"
    using counter_inc(2) [OF inv i] d0 by auto
  have div: "(i * per_region ix + g) div per_region ix = i" if "g < per_region ix" for g
    using that by simp
  note rs = region_step [OF inv i change ok2 cnt, folded counter_fill,
      where f = "\<lambda>k x. if k div per_region ix = i then h else x"]
  show thesis
    by (rule that [OF wr]) (use rs nt div memx_uniform_roundtrip [OF h] in auto)
qed

lemma clear_uniform:
  assumes inv: "index_inv live fr ix w" and i: "i < regions ix"
    and slot: "rslot ix (heap w) i = Some s" and d0: "is_uniform (rdesc ix (heap w) i)"
  obtains w2 where "write_region s 0 w = Some w2"
    "step_to live fr (ix, w) (ix\<lparr>uniform_regions := uniform_regions ix - 1\<rparr>, w2)
       (\<lambda>k x. if k div per_region ix = i then MEMX_HANDLE_INVALID else x)"
    "only_region ix (heap w) (heap w2) i"
proof -
  obtain p j ds where s: "s = (p, j)" and p: "heap w p = Some (RegionTable ds)" "j < length ds"
    by (rule slot_access [OF inv i slot])
  let ?w2 = "w\<lparr>heap := (heap w)(p \<mapsto> RegionTable (ds[j := 0]))\<rparr>"
  have wr: "write_region s 0 w = Some ?w2" using p s by simp
  have change: "region_change ix (heap w) (heap ?w2) i 0"
    unfolding region_change_def Let_def
    using slot p s d0 by (intro exI [of _ p] exI [of _ j] exI [of _ ds]) (auto simp: desc_ok_def)
  have ok2: "world_ok (index_allocator ix) live ?w2"
    using p by (intro world_ok_heap_upd [OF index_invD(1) [OF inv]]) simp
  have cnt: "unat (dense_regions ix) + (if is_dense (rdesc ix (heap w) i) then 1 else 0)
      = unat (dense_regions ix) + (if is_dense 0 then 1 else 0)"
    "unat (uniform_regions ix - 1) + (if is_uniform (rdesc ix (heap w) i) then 1 else 0)
      = unat (uniform_regions ix) + (if is_uniform 0 then 1 else 0)"
    using counter_dec(2) [OF inv i] d0 by auto
  have div: "(i * per_region ix + g) div per_region ix = i" if "g < per_region ix" for g
    using that by simp
  note rs = region_step [OF inv i change ok2 cnt, folded counter_fill,
      where f = "\<lambda>k x. if k div per_region ix = i then MEMX_HANDLE_INVALID else x"]
  show thesis
    by (rule that [OF wr]) (use rs div in auto)
qed

section \<open>Filling and reclassifying a dense region\<close>

lemma nth_splice:
  assumes "a + n \<le> length hs" "g < length hs"
  shows "(take a hs @ replicate n v @ drop (a + n) hs) ! g = (if a \<le> g \<and> g < a + n then v else hs ! g)"
  using assms by (auto simp: nth_append)

lemma fill_dense:
  assumes inv: "index_inv live fr ix w" and i: "i < regions ix"
    and slot: "rslot ix (heap w) i = Some s" and d0: "is_dense (rdesc ix (heap w) i)"
    and fit: "a + n \<le> per_region ix"
    and top: "top_region ix i \<Longrightarrow> a + n < per_region ix \<or> v = MEMX_HANDLE_INVALID"
  obtains w2 where "fill_handles (memx_dense_decode (rdesc ix (heap w) i)) a n v w = Some w2"
    "step_to live fr (ix, w) (ix, w2)
       (\<lambda>k x. if k div per_region ix = i \<and> a \<le> k mod per_region ix \<and> k mod per_region ix < a + n
               then v else x)"
    "only_region ix (heap w) (heap w2) i" "rdesc ix (heap w2) i = rdesc ix (heap w) i"
proof -
  let ?d = "rdesc ix (heap w) i" let ?q = "memx_dense_decode ?d"
  obtain p j ds where s: "s = (p, j)" and p: "heap w p = Some (RegionTable ds)" "j < length ds"
    "?d = ds ! j"
    by (rule slot_access [OF inv i slot])
  obtain hs where hs: "heap w ?q = Some (HandleTable hs)" "length hs = per_region ix"
    using dense_block_kind [OF index_invD(4) [OF inv] i d0] .
  obtain w2 where fill: "fill_handles ?q a n v w = Some w2"
    and h2: "heap w2 = (heap w)(?q \<mapsto> HandleTable (take a hs @ replicate n v @ drop (a + n) hs))"
    and c2: "ctx w2 = ctx w"
    using fill_handles_ok [OF hs(1), of a n v] fit hs(2) by auto
  have pq: "p \<noteq> ?q" using p hs by auto
  have change: "region_change ix (heap w) (heap w2) i ?d"
    unfolding region_change_def Let_def
    using slot p s d0 h2 pq hs(2) fit
    by (intro exI [of _ p] exI [of _ j] exI [of _ ds]) (auto simp: desc_ok_def)
  have ok2: "world_ok (index_allocator ix) live w2"
    by (rule fill_handles_world_ok [OF index_invD(1) [OF inv] _ h2 c2]) (simp add: hs)
  have dv: "dvalue (heap w2) ?d g = (if a \<le> g \<and> g < a + n then v else dvalue (heap w) ?d g)"
    if "g < per_region ix" for g
    using that d0 fit hs by (simp add: h2 nth_splice)
  have pos: "per_region ix - 1 < per_region ix"
    using per_region_pos [OF index_invD(2) [OF inv]] by simp
  have top': "dvalue (heap w2) ?d (per_region ix - 1) = MEMX_HANDLE_INVALID" if "top_region ix i"
    unfolding dv [OF pos] using index_invD(5) [OF inv] i top that by (auto simp: top_ok_def)
  have div: "(i * per_region ix + g) div per_region ix = i"
    "(i * per_region ix + g) mod per_region ix = g" if "g < per_region ix" for g
    using that by simp_all
  note rs = region_step [OF inv i change ok2 refl refl top', folded counter_fill(3),
      where f = "\<lambda>k x. if k div per_region ix = i \<and> a \<le> k mod per_region ix
                      \<and> k mod per_region ix < a + n then v else x"]
  show thesis by (rule that [OF fill]) (use rs dv div in auto)
qed

lemma all_equal_first:
  "list_all (\<lambda>h. h = c) xs \<Longrightarrow> g < length xs \<Longrightarrow> xs ! g = c"
  by (simp add: list_all_length)

text \<open>
  The two shrinking branches: the table has one value throughout, and an EMPTY or UNIFORM
  descriptor with that value replaces it.
\<close>

lemma reclassify_shrink:
  assumes inv: "index_inv live fr ix w" and i: "i < regions ix"
    and slot: "rslot ix (heap w) i = Some s" and d0: "is_dense (rdesc ix (heap w) i)"
    and d1: "d1 = 0 \<or> is_uniform d1"
    and same: "\<And>g. g < per_region ix \<Longrightarrow> dvalue (heap w) (rdesc ix (heap w) i) g = dvalue (heap w) d1 0"
    and b: "b = (if d1 = 0 then uniform_regions ix else uniform_regions ix + 1)"
  obtains w1 w2 where "write_region s d1 w = Some w1"
    "memx_deallocate (index_allocator ix) (memx_dense_decode (rdesc ix (heap w) i)) w1 = Some w2"
    "step_to live fr (ix, w) (ix\<lparr>dense_regions := dense_regions ix - 1, uniform_regions := b\<rparr>, w2)
       (\<lambda>k x. x)"
    "only_region ix (heap w) (heap w2) i"
proof -
  let ?d = "rdesc ix (heap w) i" let ?q = "memx_dense_decode ?d"
  obtain p j ds where s: "s = (p, j)" and p: "heap w p = Some (RegionTable ds)" "j < length ds"
    by (rule slot_access [OF inv i slot])
  obtain hs where hs: "heap w ?q = Some (HandleTable hs)" "length hs = per_region ix"
    using dense_block_kind [OF index_invD(4) [OF inv] i d0] .
  have pq: "p \<noteq> ?q" using p hs by auto
  let ?w1 = "w\<lparr>heap := (heap w)(p \<mapsto> RegionTable (ds[j := d1]))\<rparr>"
  have wr: "write_region s d1 w = Some ?w1" using p s by simp
  have ok1: "world_ok (index_allocator ix) live ?w1"
    using p by (intro world_ok_heap_upd [OF index_invD(1) [OF inv]]) simp
  moreover have "heap ?w1 ?q \<noteq> None" using hs pq by simp
  ultimately obtain w2 where de: "memx_deallocate (index_allocator ix) ?q ?w1 = Some w2"
    and h2: "heap w2 = (heap ?w1)(?q := None)" and ok2: "world_ok (index_allocator ix) live w2"
    by (rule memx_deallocate_ok)
  have nd1: "\<not> is_dense d1" using d1 by auto
  have change: "region_change ix (heap w) (heap w2) i d1"
    unfolding region_change_def Let_def
    using slot p s d0 d1 nd1 h2 pq
    by (intro exI [of _ p] exI [of _ j] exI [of _ ds]) (auto simp: desc_ok_def)
  have dv: "dvalue (heap w2) d1 g = dvalue (heap w) ?d g" if "g < per_region ix" for g
    using d1 same [OF that] by auto
  have cnt: "unat (dense_regions ix - 1) + (if is_dense ?d then 1 else 0)
      = unat (dense_regions ix) + (if is_dense d1 then 1 else 0)"
    "unat b + (if is_uniform ?d then 1 else 0)
      = unat (uniform_regions ix) + (if is_uniform d1 then 1 else 0)"
    using counter_inc(2) [OF inv i] counter_dec(1) [OF inv i] d0 d1 nd1 by (auto simp: b)
  have pos: "per_region ix - 1 < per_region ix"
    using per_region_pos [OF index_invD(2) [OF inv]] by simp
  have top: "dvalue (heap w2) d1 (per_region ix - 1) = MEMX_HANDLE_INVALID" if "top_region ix i"
    unfolding dv [OF pos] using index_invD(5) [OF inv] i that by (auto simp: top_ok_def)
  note rs = region_step [OF inv i change ok2 cnt top, where f = "\<lambda>k x. x"]
  show thesis by (rule that [OF wr de]) (use rs dv in auto)
qed

definition all_first :: "nat \<Rightarrow> u64 list \<Rightarrow> bool" where
  "all_first n hs \<longleftrightarrow> list_all (\<lambda>h. h = hs ! 0) (take n hs)
     \<and> (hs ! 0 = MEMX_HANDLE_INVALID \<or> hs ! 0 \<le> MEMX_INLINE_HANDLE_MAX)"

lemma reclassify_eval:
  assumes rd: "read_region w s = Some d" and d: "is_dense d"
    and hs: "heap w (memx_dense_decode d) = Some (HandleTable hs)" "length hs = per_region ix"
    and pos: "0 < per_region ix"
  shows "\<not> all_first (per_region ix) hs \<Longrightarrow> memx_region_reclassify ix s w = Some (ix, w)"
    and "all_first (per_region ix) hs \<Longrightarrow> hs ! 0 = MEMX_HANDLE_INVALID \<Longrightarrow>
      write_region s 0 w = Some w1 \<Longrightarrow>
      memx_deallocate (index_allocator ix) (memx_dense_decode d) w1 = Some w2 \<Longrightarrow>
      memx_region_reclassify ix s w = Some (ix\<lparr>dense_regions := dense_regions ix - 1\<rparr>, w2)"
    and "all_first (per_region ix) hs \<Longrightarrow> hs ! 0 \<noteq> MEMX_HANDLE_INVALID \<Longrightarrow>
      write_region s (memx_uniform_encode (hs ! 0)) w = Some w1 \<Longrightarrow>
      memx_deallocate (index_allocator ix) (memx_dense_decode d) w1 = Some w2 \<Longrightarrow>
      memx_region_reclassify ix s w = Some (ix\<lparr>dense_regions := dense_regions ix - 1,
        uniform_regions := uniform_regions ix + 1\<rparr>, w2)"
proof -
  have h0: "read_handle w (memx_dense_decode d) 0 = Some (hs ! 0)" using hs pos by simp
  have e: "memx_region_reclassify ix s w =
    (if all_first (per_region ix) hs
     then do {
       (ix, w) \<leftarrow> (if hs ! 0 = MEMX_HANDLE_INVALID
          then do { w \<leftarrow> write_region s 0 w; Some (ix\<lparr>dense_regions := dense_regions ix - 1\<rparr>, w) }
          else do { w \<leftarrow> write_region s (memx_uniform_encode (hs ! 0)) w;
                    Some (ix\<lparr>dense_regions := dense_regions ix - 1,
                             uniform_regions := uniform_regions ix + 1\<rparr>, w) });
       w \<leftarrow> memx_deallocate (index_allocator ix) (memx_dense_decode d) w;
       Some (ix, w) }
     else Some (ix, w))"
    unfolding memx_region_reclassify_def all_first_def rd bind.bind_lunit Let_def h0 hs
    by (simp add: d hs(2))
  show "\<not> all_first (per_region ix) hs \<Longrightarrow> memx_region_reclassify ix s w = Some (ix, w)"
    unfolding e by (rule if_not_P)
  show "all_first (per_region ix) hs \<Longrightarrow> hs ! 0 = MEMX_HANDLE_INVALID \<Longrightarrow>
      write_region s 0 w = Some w1 \<Longrightarrow>
      memx_deallocate (index_allocator ix) (memx_dense_decode d) w1 = Some w2 \<Longrightarrow>
      memx_region_reclassify ix s w = Some (ix\<lparr>dense_regions := dense_regions ix - 1\<rparr>, w2)"
    unfolding e by simp
  show "all_first (per_region ix) hs \<Longrightarrow> hs ! 0 \<noteq> MEMX_HANDLE_INVALID \<Longrightarrow>
      write_region s (memx_uniform_encode (hs ! 0)) w = Some w1 \<Longrightarrow>
      memx_deallocate (index_allocator ix) (memx_dense_decode d) w1 = Some w2 \<Longrightarrow>
      memx_region_reclassify ix s w = Some (ix\<lparr>dense_regions := dense_regions ix - 1,
        uniform_regions := uniform_regions ix + 1\<rparr>, w2)"
    unfolding e by simp
qed

lemma reclassify:
  assumes inv: "index_inv live fr ix w" and i: "i < regions ix"
    and slot: "rslot ix (heap w) i = Some s"
  obtains ix' w' where "memx_region_reclassify ix s w = Some (ix', w')"
    "step_to live fr (ix, w) (ix', w') (\<lambda>k x. x)" "only_region ix (heap w) (heap w') i"
proof (cases "is_dense (rdesc ix (heap w) i)")
  case False
  have "read_region w s = Some (rdesc ix (heap w) i)" using slot_access [OF inv i slot] by metis
  with False have "memx_region_reclassify ix s w = Some (ix, w)"
    by (simp add: memx_region_reclassify_def)
  then show thesis by (rule that) (simp_all add: step_to_def inv only_region_def)
next
  case True
  let ?d = "rdesc ix (heap w) i"
  obtain hs where hs: "heap w (memx_dense_decode ?d) = Some (HandleTable hs)"
    "length hs = per_region ix"
    using dense_block_kind [OF index_invD(4) [OF inv] i True] .
  have pos: "0 < per_region ix" using per_region_pos [OF index_invD(2) [OF inv]] .
  have rd: "read_region w s = Some ?d" using slot_access [OF inv i slot] by metis
  note ev = reclassify_eval [OF rd True hs pos]
  have val: "dvalue (heap w) ?d g = hs ! 0" if "all_first (per_region ix) hs" "g < per_region ix" for g
    using that True hs all_equal_first [of "hs ! 0" "take (per_region ix) hs" g]
    by (simp add: all_first_def)
  consider (keep) "\<not> all_first (per_region ix) hs"
    | (empty) "all_first (per_region ix) hs" "hs ! 0 = MEMX_HANDLE_INVALID"
    | (uniform) "all_first (per_region ix) hs" "hs ! 0 \<noteq> MEMX_HANDLE_INVALID" by blast
  then show thesis
  proof cases
    case keep
    show thesis by (rule that [OF ev(1) [OF keep]]) (simp_all add: step_to_def inv only_region_def)
  next
    case empty
    show thesis
    proof (rule reclassify_shrink [OF inv i slot True, of 0 "uniform_regions ix"])
      fix w1 w2
      assume st: "write_region s 0 w = Some w1"
        "memx_deallocate (index_allocator ix) (memx_dense_decode ?d) w1 = Some w2"
        "step_to live fr (ix, w) (ix\<lparr>dense_regions := dense_regions ix - 1,
          uniform_regions := uniform_regions ix\<rparr>, w2) (\<lambda>k x. x)"
        "only_region ix (heap w) (heap w2) i"
      show thesis by (rule that [OF ev(2) [OF empty st(1,2)]]) (use st in simp_all)
    qed (use val empty in auto)
  next
    case uniform
    then have inl: "hs ! 0 \<le> MEMX_INLINE_HANDLE_MAX" by (simp add: all_first_def)
    show thesis
    proof (rule reclassify_shrink [OF inv i slot True, of "memx_uniform_encode (hs ! 0)"
          "uniform_regions ix + 1"])
      fix w1 w2
      assume st: "write_region s (memx_uniform_encode (hs ! 0)) w = Some w1"
        "memx_deallocate (index_allocator ix) (memx_dense_decode ?d) w1 = Some w2"
        "step_to live fr (ix, w) (ix\<lparr>dense_regions := dense_regions ix - 1,
          uniform_regions := uniform_regions ix + 1\<rparr>, w2) (\<lambda>k x. x)"
        "only_region ix (heap w) (heap w2) i"
      show thesis by (rule that [OF ev(3) [OF uniform st(1,2)]]) (use st in simp_all)
    qed (use val uniform inl in \<open>auto simp: memx_uniform_roundtrip memx_uniform_encode_nonzero\<close>)
  qed
qed

end
