(* ===== verification/Memx_Leaf.thy ===== *)
theory Memx_Leaf
  imports Memx_Steps
begin

text \<open>
  The sparse directory's own steps: \<^verbatim>\<open>memx_get_region_mut\<close> with \<^verbatim>\<open>create\<close>, which may publish a
  new leaf, and \<^verbatim>\<open>memx_sparse_prune_leaf\<close>, which unpublishes and releases a leaf whose
  descriptors are all EMPTY.  Neither changes the granule map.
\<close>

lemma leaf_counters [simp]:
  "rdesc (ix\<lparr>allocated_sparse_leaves := n\<rparr>) h = rdesc ix h"
  "leaf_blocks (ix\<lparr>allocated_sparse_leaves := n\<rparr>) h = leaf_blocks ix h"
  "leaf_at (ix\<lparr>allocated_sparse_leaves := n\<rparr>) h = leaf_at ix h"
  "index_shape (ix\<lparr>allocated_sparse_leaves := n\<rparr>) = index_shape ix"
  "top_region (ix\<lparr>allocated_sparse_leaves := n\<rparr>) = top_region ix"
  "rslot (ix\<lparr>allocated_sparse_leaves := n\<rparr>) h = rslot ix h"
  by (simp_all add: fun_eq_iff rdesc_def rslot_def leaf_at_def leaf_blocks_def
      index_shape_def top_region_def Let_def)

lemma leaf_counters_regions [simp]:
  "regions_ok (ix\<lparr>allocated_sparse_leaves := n\<rparr>) h = regions_ok ix h"
  "top_ok (ix\<lparr>allocated_sparse_leaves := n\<rparr>) h = top_ok ix h"
  "count_regions (ix\<lparr>allocated_sparse_leaves := n\<rparr>) h = count_regions ix h"
  "owned (ix\<lparr>allocated_sparse_leaves := n\<rparr>) h = owned ix h"
  "frame_ok fr (ix\<lparr>allocated_sparse_leaves := n\<rparr>) h = frame_ok fr ix h"
  "gmap (ix\<lparr>allocated_sparse_leaves := n\<rparr>) h = gmap ix h"
  by (simp_all add: fun_eq_iff regions_ok_def top_ok_def count_regions_def frame_ok_def owned_def
      dense_blocks_def gmap_def)

text \<open>Every way of changing the directory that keeps the descriptors keeps the invariant.\<close>

lemma directory_change:
  assumes inv: "index_inv live fr ix w"
    and dir: "dir_ok (ix\<lparr>allocated_sparse_leaves := n\<rparr>) (heap w')"
    and desc: "\<And>k. k < regions ix \<Longrightarrow> rdesc ix (heap w') k = rdesc ix (heap w) k"
    and dense: "\<And>q hs. heap w q = Some (HandleTable hs) \<Longrightarrow> heap w' q = Some (HandleTable hs)"
    and self: "heap w' (self ix) = Some IndexBlock"
    and fr: "frame_ok fr ix (heap w')"
    and ok: "world_ok (index_allocator ix) live w'"
  shows "step_to live fr (ix, w) (ix\<lparr>allocated_sparse_leaves := n\<rparr>, w') (\<lambda>k x. x)"
proof (rule step_toI)
  have val: "dvalue (heap w') (rdesc ix (heap w) k) g = dvalue (heap w) (rdesc ix (heap w) k) g"
    if "k < regions ix" for k g
    using dense dense_block_kind [OF index_invD(4) [OF inv] that] by (intro dvalue_cong) metis
  have "desc_ok (per_region ix) (heap w') (rdesc ix (heap w') k)" if k: "k < regions ix" for k
    using rdesc_ok [OF inv k] dense unfolding desc [OF k] desc_ok_def by blast
  then have "regions_ok ix (heap w')"
    using index_invD(4) [OF inv] by (simp add: regions_ok_def desc)
  moreover have "count_regions ix (heap w') t = count_regions ix (heap w) t" for t
    unfolding count_regions_def using desc by (intro arg_cong [of _ _ card]) auto
  moreover have "top_ok ix (heap w')"
    using index_invD(5) [OF inv] by (simp add: top_ok_def desc val)
  ultimately show "index_inv live fr (ix\<lparr>allocated_sparse_leaves := n\<rparr>) w'"
    using index_invD [OF inv] dir self fr ok by (simp add: index_inv_def)
  show "gmap ix (heap w') k = gmap ix (heap w) k" if "k < regions ix * per_region ix" for k
    using less_mult_imp_div_less [OF that] by (simp add: gmap_def desc val)
qed simp

text \<open>What the directory block of a sparse index holds.\<close>

lemma sparse_root:
  assumes inv: "index_inv live fr ix w" and sp: "\<not> bounded ix"
  obtains rts where "heap w (directory ix) = Some (LeafRoots rts)"
    "length rts = unat (sparse_root_count ix)"
    "\<And>r. r < length rts \<Longrightarrow> leaf_at ix (heap w) r = rts ! r"
    "\<And>r. \<not> r < length rts \<Longrightarrow> leaf_at ix (heap w) r = 0"
  using index_invD(3) [OF inv] sp by (auto simp: dir_ok_def leaf_at_def)

lemma leaf_table:
  assumes inv: "index_inv live fr ix w" and sp: "\<not> bounded ix" and "leaf_at ix (heap w) r \<noteq> 0"
  obtains ds where "heap w (leaf_at ix (heap w) r) = Some (RegionTable ds)"
    "length ds = leaf_size ix"
  using index_invD(3) [OF inv] assms by (auto simp: dir_ok_def)

lemma finite_leaves: "finite {r. leaf_at ix h r \<noteq> 0}"
proof (cases "h (directory ix)")
  case None
  then show ?thesis by (simp add: leaf_at_def)
next
  case (Some obj)
  show ?thesis
  proof (cases obj)
    case (LeafRoots rts)
    have "{r. leaf_at ix h r \<noteq> 0} \<subseteq> {..< length rts}"
      using Some LeafRoots by (auto simp: leaf_at_def split: if_splits)
    then show ?thesis by (rule finite_subset) simp
  qed (use Some in \<open>simp_all add: leaf_at_def\<close>)
qed

section \<open>Publishing a leaf\<close>

lemma add_leaf:
  assumes inv: "index_inv live fr ix w" and sp: "\<not> bounded ix"
    and r: "r < unat (sparse_root_count ix)" and no: "leaf_at ix (heap w) r = 0"
    and q: "q \<noteq> 0" "heap w q = None"
    and rts: "heap w (directory ix) = Some (LeafRoots rts)"
    and h': "heap w' = (heap w)(q \<mapsto> RegionTable (replicate (leaf_size ix) 0),
                                directory ix \<mapsto> LeafRoots (rts[r := q]))"
    and ok: "world_ok (index_allocator ix) live w'"
  shows "step_to live fr (ix, w)
      (ix\<lparr>allocated_sparse_leaves := allocated_sparse_leaves ix + 1\<rparr>, w') (\<lambda>k x. x)"
    and "rslot ix (heap w') k =
      (if k div leaf_size ix = r then Some (q, k mod leaf_size ix) else rslot ix (heap w) k)"
    and "k < regions ix \<Longrightarrow> rdesc ix (heap w') k = rdesc ix (heap w) k"
proof -
  note dir = index_invD(3) [OF inv]
  have len: "length rts = unat (sparse_root_count ix)"
    using dir sp rts by (auto simp: dir_ok_def)
  have qd: "q \<noteq> directory ix" using q rts by auto
  have leaf: "leaf_at ix (heap w') s = (if s = r then q else leaf_at ix (heap w) s)" for s
    using r len rts by (simp add: leaf_at_def h')
  have slot: "rslot ix (heap w') k =
      (if k div leaf_size ix = r then Some (q, k mod leaf_size ix) else rslot ix (heap w) k)" for k
    using sp q by (simp add: rslot_def leaf)
  then show "rslot ix (heap w') k =
      (if k div leaf_size ix = r then Some (q, k mod leaf_size ix) else rslot ix (heap w) k)" .
  have old: "leaf_at ix (heap w) s \<noteq> q \<and> leaf_at ix (heap w) s \<noteq> directory ix"
    if "leaf_at ix (heap w) s \<noteq> 0" for s
  proof -
    from leaf_table [OF inv sp that]
    obtain ds where "heap w (leaf_at ix (heap w) s) = Some (RegionTable ds)" by blast
    with q rts show ?thesis by auto
  qed
  have inj: "s = t" if "leaf_at ix (heap w) s \<noteq> 0" "leaf_at ix (heap w) s = leaf_at ix (heap w) t" for s t
    using dir sp that by (simp add: dir_ok_def)
  have desc: "rdesc ix (heap w') k = rdesc ix (heap w) k" for k
  proof (cases "k div leaf_size ix = r")
    case True
    have "k mod leaf_size ix < leaf_size ix"
      using leaf_size_pos [OF index_invD(2) [OF inv] sp] by simp
    with True sp no qd show ?thesis
      by (simp add: rdesc_def slot) (simp add: rslot_def h')
  next
    case False
    then show ?thesis
      using sp old [of "k div leaf_size ix"] by (simp add: rdesc_def slot) (simp add: rslot_def h' Let_def)
  qed
  then show "k < regions ix \<Longrightarrow> rdesc ix (heap w') k = rdesc ix (heap w) k" by simp
  have lb: "leaf_blocks ix (heap w') = insert q (leaf_blocks ix (heap w))"
    using sp q no by (auto simp: leaf_blocks_def leaf)
  have "card {s. leaf_at ix (heap w') s \<noteq> 0} = Suc (card {s. leaf_at ix (heap w) s \<noteq> 0})"
  proof -
    have "{s. leaf_at ix (heap w') s \<noteq> 0} = insert r {s. leaf_at ix (heap w) s \<noteq> 0}"
      using q by (auto simp: leaf)
    then show ?thesis using no finite_leaves [of ix "heap w"] by simp
  qed
  moreover have "card {s. leaf_at ix (heap w) s \<noteq> 0} < unat (sparse_root_count ix)"
  proof -
    have "{s. leaf_at ix (heap w) s \<noteq> 0} \<subseteq> {..< unat (sparse_root_count ix)} - {r}"
      using no len rts by (auto simp: leaf_at_def split: if_splits)
    then have "card {s. leaf_at ix (heap w) s \<noteq> 0} \<le> card ({..< unat (sparse_root_count ix)} - {r})"
      by (intro card_mono) auto
    also have "\<dots> < unat (sparse_root_count ix)" using r by simp
    finally show ?thesis .
  qed
  ultimately have cnt: "unat (allocated_sparse_leaves ix + 1) = card {s. leaf_at ix (heap w') s \<noteq> 0}"
    using dir sp unat_inc [of "allocated_sparse_leaves ix" "sparse_root_count ix"]
    by (simp add: dir_ok_def)
  have dir': "dir_ok (ix\<lparr>allocated_sparse_leaves := allocated_sparse_leaves ix + 1\<rparr>) (heap w')"
  proof -
    have "\<exists>ds. heap w' (leaf_at ix (heap w') s) = Some (RegionTable ds) \<and> length ds = leaf_size ix"
      if "leaf_at ix (heap w') s \<noteq> 0" for s
    proof (cases "s = r")
      case True
      then have "leaf_at ix (heap w') s = q" by (simp only: leaf if_True simp_thms)
      moreover have "heap w' q = Some (RegionTable (replicate (leaf_size ix) 0))"
        using qd by (simp add: h')
      ultimately show ?thesis by simp
    next
      case False
      with that have nz: "leaf_at ix (heap w) s \<noteq> 0" by (simp add: leaf)
      obtain ds where "heap w (leaf_at ix (heap w) s) = Some (RegionTable ds)" "length ds = leaf_size ix"
        using leaf_table [OF inv sp nz] .
      moreover have "leaf_at ix (heap w') s = leaf_at ix (heap w) s"
        using False by (simp only: leaf if_False)
      ultimately show ?thesis using old [OF nz] by (simp add: h')
    qed
    moreover have "s = t" if "leaf_at ix (heap w') s \<noteq> 0" "leaf_at ix (heap w') s = leaf_at ix (heap w') t"
      for s t
      using that old [of s] old [of t] inj [of s t] q(1)
      unfolding leaf by (cases "s = r"; cases "t = r") simp_all
    moreover have "heap w' (directory ix) = Some (LeafRoots (rts[r := q]))"
      "length (rts[r := q]) = unat (sparse_root_count ix)" using len by (simp_all add: h')
    ultimately show ?thesis using sp cnt by (simp add: dir_ok_def)
  qed
  show "step_to live fr (ix, w)
      (ix\<lparr>allocated_sparse_leaves := allocated_sparse_leaves ix + 1\<rparr>, w') (\<lambda>k x. x)"
  proof (rule directory_change [OF inv dir' desc _ _ _ ok])
    show "heap w' p = Some (HandleTable hs)" if "heap w p = Some (HandleTable hs)" for p hs
      using that q rts by (auto simp: h')
    show "heap w' (self ix) = Some IndexBlock"
      using index_invD(8) [OF inv] q rts by (auto simp: h')
    have "owned ix (heap w') = insert q (owned ix (heap w))"
      unfolding owned_def dense_blocks_def lb desc by auto
    moreover have "directory ix \<in> owned ix (heap w)" by (simp add: owned_def)
    ultimately show "frame_ok fr ix (heap w')"
      using index_invD(9) [OF inv] q by (auto simp: frame_ok_def h')
  qed
qed

text \<open>\<^verbatim>\<open>memx_get_region_mut(index, i, true)\<close>: out of memory, or a slot for the region.\<close>

lemma get_region_mut_True:
  assumes inv: "index_inv live fr ix w" and i: "unat i < regions ix"
  obtains (null) w' where "memx_get_region_mut ix i True w = Some (None, ix, w')"
      "index_inv live fr ix w'" "heap w' = heap w"
    | (slot) s ix' w' where "memx_get_region_mut ix i True w = Some (Some s, ix', w')"
      "step_to live fr (ix, w) (ix', w') (\<lambda>k x. x)"
      "rslot ix (heap w') (unat i) = Some s"
      "\<And>k s'. rslot ix (heap w) k = Some s' \<Longrightarrow> rslot ix (heap w') k = Some s'"
      "\<And>k. k < regions ix \<Longrightarrow> rdesc ix (heap w') k = rdesc ix (heap w) k"
proof (cases "rslot ix (heap w) (unat i)")
  case (Some s)
  have "memx_get_region_mut ix i True w = Some (Some s, ix, w)"
  proof (cases "bounded ix")
    case True
    with Some show ?thesis by (simp add: memx_get_region_mut_def rslot_def)
  next
    case False
    then show ?thesis
      using Some read_root_leaf [OF index_invD(3) [OF inv]] root_lt [OF index_invD(2) [OF inv] _ i]
      by (auto simp: memx_get_region_mut_def rslot_def Let_def leaf_split [OF index_invD(2) [OF inv]]
          split: if_splits)
  qed
  then show thesis by (rule slot) (use Some in \<open>simp_all add: step_to_def inv\<close>)
next
  case None
  then have sp: "\<not> bounded ix" by (auto simp: rslot_def)
  let ?r = "unat i div leaf_size ix"
  from None sp have no: "leaf_at ix (heap w) ?r = 0" by (auto simp: rslot_def Let_def split: if_splits)
  have r: "?r < unat (sparse_root_count ix)" by (rule root_lt [OF index_invD(2) [OF inv] sp i])
  have rd: "read_root w (directory ix) ?r = Some 0"
    using read_root_leaf [OF index_invD(3) [OF inv] sp r] no by simp
  note sh = index_invD(2) [OF inv]
  let ?bytes = "8 + (sparse_leaf_count ix - 1) * 8"
  have le: "leaf_size ix \<le> 2 ^ 16" "0 < leaf_size ix"
    using sh sp leaf_size_pos [OF sh sp] power_increasing [of "unat (sparse_leaf_bits ix)" 16 "2 :: nat"]
    by (simp_all add: index_shape_def)
  then have bytes: "unat ?bytes = 8 * leaf_size ix"
  proof -
    have s: "unat (sparse_leaf_count ix - 1) = leaf_size ix - 1" using le by (intro unat_dec) simp
    then have m: "unat ((sparse_leaf_count ix - 1) * 8) = (leaf_size ix - 1) * 8"
      using le by (subst unat_mult_exact) simp_all
    show ?thesis
      using le unat_add_exact [of 8 "(sparse_leaf_count ix - 1) * 8"] unfolding m by simp
  qed
  show thesis
    using index_invD(1) [OF inv]
  proof (cases rule: memx_allocate_cases [where n = ?bytes])
    case (null w')
    have "memx_get_region_mut ix i True w = Some (None, ix, w')"
      using sp rd null by (simp add: memx_get_region_mut_def leaf_split [OF sh sp])
    then show thesis
      by (rule that(1)) (use null in \<open>auto intro: index_inv_cong [OF inv]\<close>)
  next
    case (block q w1)
    obtain rts where rts: "heap w (directory ix) = Some (LeafRoots rts)"
      "length rts = unat (sparse_root_count ix)"
      using sparse_root [OF inv sp] .
    let ?w2 = "w1\<lparr>heap := (heap w1)(q \<mapsto> RegionTable (replicate (leaf_size ix) 0))\<rparr>"
    let ?w3 = "?w2\<lparr>heap := (heap ?w2)(directory ix \<mapsto> LeafRoots (rts[?r := q]))\<rparr>"
    have qd: "q \<noteq> directory ix" using block rts by auto
    have i2: "init_object q (RegionTable (replicate (leaf_size ix) 0)) w1 = Some ?w2"
      using block bytes by (intro init_object_ok) auto
    have i3: "write_root (directory ix) ?r q ?w2 = Some ?w3"
      using block rts qd r by simp
    have h3: "heap ?w3 = (heap w)(q \<mapsto> RegionTable (replicate (leaf_size ix) 0),
                 directory ix \<mapsto> LeafRoots (rts[?r := q]))"
      using block by simp
    have ok2: "world_ok (index_allocator ix) live ?w2"
      using block by (intro world_ok_heap_upd) auto
    have ok3: "world_ok (index_allocator ix) live ?w3"
      using block rts qd by (intro world_ok_heap_upd [OF ok2]) auto
    note al = add_leaf [OF inv sp r no block(2,4) rts(1) h3 ok3]
    have "memx_get_region_mut ix i True w = Some (Some (q, unat i mod leaf_size ix),
        ix\<lparr>allocated_sparse_leaves := allocated_sparse_leaves ix + 1\<rparr>, ?w3)"
      using sp rd block(1,2) i2 i3
      by (simp add: memx_get_region_mut_def leaf_split [OF sh sp] memx_region_init_def)
    then show thesis
    proof (rule that(2))
      show "rslot ix (heap ?w3) k = Some s'" if "rslot ix (heap w) k = Some s'" for k s'
        using that no sp unfolding al(2) by (auto simp: rslot_def Let_def split: if_splits)
    qed (use al in auto)
  qed
qed

section \<open>Pruning a leaf\<close>

lemma drop_leaf:
  assumes inv: "index_inv live fr ix w" and sp: "\<not> bounded ix"
    and r: "r < unat (sparse_root_count ix)" and yes: "leaf_at ix (heap w) r \<noteq> 0"
    and tab: "heap w (leaf_at ix (heap w) r) = Some (RegionTable ds)" "\<forall>d \<in> set ds. d = 0"
    and rts: "heap w (directory ix) = Some (LeafRoots rts)"
    and h': "heap w' = (heap w)(directory ix \<mapsto> LeafRoots (rts[r := 0]),
                                leaf_at ix (heap w) r := None)"
    and ok: "world_ok (index_allocator ix) live w'"
  shows "step_to live fr (ix, w)
      (ix\<lparr>allocated_sparse_leaves := allocated_sparse_leaves ix - 1\<rparr>, w') (\<lambda>k x. x)"
    and "rslot ix (heap w') k =
      (if k div leaf_size ix = r then None else rslot ix (heap w) k)"
    and "rdesc ix (heap w') k = rdesc ix (heap w) k"
proof -
  note dir = index_invD(3) [OF inv]
  let ?q = "leaf_at ix (heap w) r"
  have len: "length rts = unat (sparse_root_count ix)"
    using dir sp rts by (auto simp: dir_ok_def)
  have qd: "?q \<noteq> directory ix" using tab rts by auto
  have inj: "s = t" if "leaf_at ix (heap w) s \<noteq> 0" "leaf_at ix (heap w) s = leaf_at ix (heap w) t" for s t
    using dir sp that by (simp add: dir_ok_def)
  have leaf: "leaf_at ix (heap w') s = (if s = r then 0 else leaf_at ix (heap w) s)" for s
    using r len rts qd by (simp add: leaf_at_def h')
  have slot: "rslot ix (heap w') k =
      (if k div leaf_size ix = r then None else rslot ix (heap w) k)" for k
    using sp by (simp add: rslot_def leaf)
  then show "rslot ix (heap w') k =
      (if k div leaf_size ix = r then None else rslot ix (heap w) k)" .
  have old: "heap w' (leaf_at ix (heap w) s) = heap w (leaf_at ix (heap w) s)"
    if nz: "leaf_at ix (heap w) s \<noteq> 0" and ne: "s \<noteq> r" for s
  proof -
    from leaf_table [OF inv sp nz]
    obtain es where "heap w (leaf_at ix (heap w) s) = Some (RegionTable es)" by blast
    moreover have "leaf_at ix (heap w) s \<noteq> ?q" using inj [OF nz] ne by blast
    ultimately show ?thesis using rts by (auto simp: h')
  qed
  have lds: "length ds = leaf_size ix"
    using leaf_table [OF inv sp yes] tab by auto
  have desc: "rdesc ix (heap w') k = rdesc ix (heap w) k" for k
  proof (cases "k div leaf_size ix = r")
    case True
    have "k mod leaf_size ix < leaf_size ix"
      using leaf_size_pos [OF index_invD(2) [OF inv] sp] by simp
    then have "ds ! (k mod leaf_size ix) = 0" using tab(2) lds by simp
    with True sp yes tab(1) show ?thesis
      by (simp add: rdesc_def slot) (simp add: rslot_def Let_def)
  next
    case False
    then show ?thesis
      using sp old [of "k div leaf_size ix"] by (simp add: rdesc_def slot) (simp add: rslot_def Let_def)
  qed
  then show "rdesc ix (heap w') k = rdesc ix (heap w) k" .
  have lb: "leaf_blocks ix (heap w') = leaf_blocks ix (heap w) - {?q}"
  proof -
    have "(\<exists>s. (if s = r then 0 else leaf_at ix (heap w) s) = p)
        \<longleftrightarrow> (\<exists>s. leaf_at ix (heap w) s = p) \<and> p \<noteq> ?q" if "p \<noteq> 0" for p
      using that inj by metis
    then have "{p. p \<noteq> 0 \<and> (\<exists>s. (if s = r then 0 else leaf_at ix (heap w) s) = p)}
        = {p. p \<noteq> 0 \<and> (\<exists>s. leaf_at ix (heap w) s = p)} - {?q}" by blast
    then show ?thesis using sp unfolding leaf_blocks_def leaf by (simp only: if_False)
  qed
  have "{s. leaf_at ix (heap w) s \<noteq> 0} = insert r {s. leaf_at ix (heap w') s \<noteq> 0}"
    using yes by (auto simp: leaf)
  then have "card {s. leaf_at ix (heap w) s \<noteq> 0} = Suc (card {s. leaf_at ix (heap w') s \<noteq> 0})"
    using finite_leaves [of ix "heap w'"] by (simp add: leaf)
  then have cnt: "unat (allocated_sparse_leaves ix - 1) = card {s. leaf_at ix (heap w') s \<noteq> 0}"
    using dir sp unat_dec [of "allocated_sparse_leaves ix"] by (simp add: dir_ok_def)
  have dir': "dir_ok (ix\<lparr>allocated_sparse_leaves := allocated_sparse_leaves ix - 1\<rparr>) (heap w')"
  proof -
    have "\<exists>es. heap w' (leaf_at ix (heap w') s) = Some (RegionTable es) \<and> length es = leaf_size ix"
      if "leaf_at ix (heap w') s \<noteq> 0" for s
    proof -
      from that have nz: "leaf_at ix (heap w) s \<noteq> 0" "s \<noteq> r" by (auto simp: leaf split: if_splits)
      from leaf_table [OF inv sp nz(1)] obtain es where
        "heap w (leaf_at ix (heap w) s) = Some (RegionTable es)" "length es = leaf_size ix" by blast
      with nz old [OF nz] show ?thesis by (simp add: leaf)
    qed
    moreover have "s = t" if "leaf_at ix (heap w') s \<noteq> 0" "leaf_at ix (heap w') s = leaf_at ix (heap w') t"
      for s t
      using that inj [of s t] unfolding leaf by (cases "s = r"; cases "t = r") simp_all
    moreover have "heap w' (directory ix) = Some (LeafRoots (rts[r := 0]))"
      "length (rts[r := 0]) = unat (sparse_root_count ix)" using len qd by (simp_all add: h')
    ultimately show ?thesis using sp cnt by (simp add: dir_ok_def)
  qed
  show "step_to live fr (ix, w)
      (ix\<lparr>allocated_sparse_leaves := allocated_sparse_leaves ix - 1\<rparr>, w') (\<lambda>k x. x)"
  proof (rule directory_change [OF inv dir' desc _ _ _ ok])
    show "heap w' p = Some (HandleTable hs)" if "heap w p = Some (HandleTable hs)" for p hs
      using that tab rts by (auto simp: h')
    show "heap w' (self ix) = Some IndexBlock"
      using index_invD(8) [OF inv] tab rts by (auto simp: h')
    have "owned ix (heap w') \<union> {?q} = owned ix (heap w)"
      using yes sp unfolding owned_def dense_blocks_def lb desc by (auto simp: leaf_blocks_def)
    moreover have "directory ix \<in> owned ix (heap w')" by (simp add: owned_def)
    ultimately show "frame_ok fr ix (heap w')"
      using index_invD(9) [OF inv] qd unfolding frame_ok_def h' by fastforce
  qed
qed

lemma prune_leaf:
  assumes inv: "index_inv live fr ix w" and i: "unat i < regions ix"
  obtains ix' w' where "memx_sparse_prune_leaf ix i w = Some (ix', w')"
    "step_to live fr (ix, w) (ix', w') (\<lambda>k x. x)"
    "\<And>k. k < regions ix \<Longrightarrow> rdesc ix (heap w') k = rdesc ix (heap w) k"
    "\<And>k. bounded ix \<or> k div leaf_size ix \<noteq> unat i div leaf_size ix \<Longrightarrow>
       rslot ix (heap w') k = rslot ix (heap w) k"
proof (cases "directory_mode (config ix) = MEMX_DIRECTORY_SPARSE")
  case False
  then have "memx_sparse_prune_leaf ix i w = Some (ix, w)" by (simp add: memx_sparse_prune_leaf_def)
  then show thesis by (rule that) (simp_all add: step_to_def inv)
next
  case True
  then have sp: "\<not> bounded ix" by (simp add: MEMX_DIRECTORY_SPARSE_def MEMX_DIRECTORY_BOUNDED_def)
  note sh = index_invD(2) [OF inv]
  let ?r = "unat i div leaf_size ix" let ?q = "leaf_at ix (heap w) ?r"
  have r: "?r < unat (sparse_root_count ix)" by (rule root_lt [OF sh sp i])
  have rd: "read_root w (directory ix) ?r = Some ?q"
    using read_root_leaf [OF index_invD(3) [OF inv] sp r] .
  show thesis
  proof (cases "?q = 0")
    case True
    then have "memx_sparse_prune_leaf ix i w = Some (ix, w)"
      using rd by (simp add: memx_sparse_prune_leaf_def leaf_split [OF sh sp])
    then show thesis by (rule that) (simp_all add: step_to_def inv)
  next
    case nz: False
    from leaf_table [OF inv sp nz] obtain ds where
      ds: "heap w ?q = Some (RegionTable ds)" "length ds = leaf_size ix" by blast
    show thesis
    proof (cases "\<exists>d \<in> set ds. d \<noteq> 0")
      case True
      then have "memx_sparse_prune_leaf ix i w = Some (ix, w)"
        using rd ds nz \<open>directory_mode _ = _\<close>
        by (simp add: memx_sparse_prune_leaf_def leaf_split [OF sh sp])
      then show thesis by (rule that) (simp_all add: step_to_def inv)
    next
      case False
      obtain rts where rts: "heap w (directory ix) = Some (LeafRoots rts)"
        "length rts = unat (sparse_root_count ix)"
        using sparse_root [OF inv sp] .
      let ?w1 = "w\<lparr>heap := (heap w)(directory ix \<mapsto> LeafRoots (rts[?r := 0]))\<rparr>"
      have i1: "write_root (directory ix) ?r 0 w = Some ?w1" using rts r by simp
      have "world_ok (index_allocator ix) live ?w1"
        using rts by (intro world_ok_heap_upd [OF index_invD(1) [OF inv]]) simp
      moreover have "heap ?w1 ?q \<noteq> None" using ds rts by auto
      ultimately obtain w2 where de: "memx_deallocate (index_allocator ix) ?q ?w1 = Some w2"
        and h2: "heap w2 = (heap ?w1)(?q := None)" and ok2: "world_ok (index_allocator ix) live w2"
        by (rule memx_deallocate_ok)
      have h2': "heap w2 = (heap w)(directory ix \<mapsto> LeafRoots (rts[?r := 0]), ?q := None)"
        by (simp add: h2)
      have z: "\<forall>d \<in> set ds. d = 0" using False by blast
      note dl = drop_leaf [OF inv sp r nz ds(1) z rts(1) h2' ok2]
      have "memx_sparse_prune_leaf ix i w =
          Some (ix\<lparr>allocated_sparse_leaves := allocated_sparse_leaves ix - 1\<rparr>, w2)"
        using rd ds nz z i1 de \<open>directory_mode _ = _\<close>
        by (simp add: memx_sparse_prune_leaf_def leaf_split [OF sh sp])
      then show thesis by (rule that) (use dl sp in auto)
    qed
  qed
qed

section \<open>Lookup\<close>

text \<open>In adaptive mode \<^verbatim>\<open>memx_lookup_address\<close> reads the granule map.\<close>

lemma lookup_granule:
  assumes inv: "index_inv live fr ix w"
  shows "memx_lookup_address (Some ix) w a =
    Some (if covered ix a then gmap ix (heap w) (granule_of ix a) else MEMX_HANDLE_INVALID)"
proof (cases "covered ix a")
  case False
  then show ?thesis
    by (simp add: memx_lookup_address_def memx_address_to_region_spec [OF index_invD(2) [OF inv]])
next
  case True
  note sh = index_invD(2) [OF inv]
  let ?k = "granule_of ix a"
  have k: "?k < regions ix * per_region ix" by (rule granule_of_lt [OF sh True])
  have ri: "unat (of_nat (?k div per_region ix) :: u64) = ?k div per_region ix"
    by (rule unat_region_index [OF k])
  have gi: "unat (of_nat (?k mod per_region ix) :: u64) = ?k mod per_region ix"
    by (rule unat_granule_index [OF sh])
  have lt: "?k div per_region ix < regions ix" by (rule less_mult_imp_div_less [OF k])
  have gr: "memx_get_region ix (of_nat (?k div per_region ix)) w
      = Some (rslot ix (heap w) (?k div per_region ix))"
    using get_region_spec [OF sh index_invD(3) [OF inv]] lt ri by metis
  show ?thesis
  proof (cases "rslot ix (heap w) (?k div per_region ix)")
    case None
    then show ?thesis
      using True gr index_invD(10,11) [OF inv]
      by (simp add: memx_lookup_address_def memx_address_to_region_spec [OF sh] gmap_def rdesc_0)
  next
    case (Some s)
    let ?d = "rdesc ix (heap w) (?k div per_region ix)"
    have rd: "read_region w s = Some ?d" using slot_access [OF inv lt Some] by metis
    have e: "memx_lookup_address (Some ix) w a =
        memx_region_lookup w (Some s) (of_nat (?k mod per_region ix))"
      using True gr Some index_invD(10,11) [OF inv]
      by (simp add: memx_lookup_address_def memx_address_to_region_spec [OF sh])
    have "?k mod per_region ix < per_region ix" using per_region_pos [OF sh] by simp
    moreover have "memx_region_lookup w (Some s) g = Some (dvalue (heap w) ?d (unat g))"
      if "unat g < per_region ix" for g
      using inv lt
    proof (cases rule: rdesc_cases)
      case (3 hs)
      then have "read_handle w (memx_dense_decode ?d) (unat g) = Some (hs ! unat g)"
        using that by simp
      with 3 show ?thesis by (simp add: memx_region_lookup_def rd)
    qed (simp_all add: memx_region_lookup_def rd)
    ultimately show ?thesis unfolding e gmap_def using True gi by simp
  qed
qed

end
