(* ===== verification/Memx_Range.thy ===== *)
theory Memx_Range
  imports Memx_Leaf
begin

text \<open>
  What one part of a range is on granule numbers, what \<^verbatim>\<open>memx_validate_range\<close> establishes, and
  the preflight pass of insert and remove: it returns, changes nothing, and answers OK exactly
  when every granule of the range holds the expected handle.
\<close>

section \<open>Parts of a range\<close>

lemma stop_of_cases:
  assumes "k < m" "0 < per_region ix"
  obtains "stop_of ix k m = m" "m \<le> (k div per_region ix + 1) * per_region ix"
    | "stop_of ix k m = (k div per_region ix + 1) * per_region ix"
      "(k div per_region ix + 1) * per_region ix \<le> m"
  by (cases "m \<le> (k div per_region ix + 1) * per_region ix") (auto simp: stop_of_def)

lemma part_granules:
  assumes km: "k < m" and pos: "0 < per_region ix"
  shows "g div per_region ix = k div per_region ix \<and> k mod per_region ix \<le> g mod per_region ix
      \<and> g mod per_region ix < k mod per_region ix + (stop_of ix k m - k)
    \<longleftrightarrow> k \<le> g \<and> g < stop_of ix k m"
proof -
  let ?n = "per_region ix" let ?i = "k div ?n" let ?s = "stop_of ix k m"
  have ks: "k < ?s" using stop_of_bounds [OF km pos] by simp
  have k: "k = ?i * ?n + k mod ?n" by simp
  have s: "?s \<le> ?i * ?n + ?n" by (simp add: stop_of_def)
  have g: "g = g div ?n * ?n + g mod ?n" by simp
  show ?thesis
  proof (cases "g div ?n = ?i")
    case True
    with g have "g = ?i * ?n + g mod ?n" by simp
    then show ?thesis using k ks True by linarith
  next
    case False
    have "\<not> (k \<le> g \<and> g < ?s)"
    proof
      assume a: "k \<le> g \<and> g < ?s"
      then have "?i \<le> g div ?n" by (intro div_le_mono) simp
      moreover have "g div ?n < ?i + 1"
        using a s by (intro less_mult_imp_div_less) (simp add: add.commute)
      ultimately show False using False by simp
    qed
    with False show ?thesis by simp
  qed
qed

lemma part_fits:
  assumes km: "k < m" and pos: "0 < per_region ix"
  shows "k mod per_region ix + (stop_of ix k m - k) \<le> per_region ix"
proof -
  have "k = k div per_region ix * per_region ix + k mod per_region ix" by simp
  moreover have "stop_of ix k m \<le> k div per_region ix * per_region ix + per_region ix"
    by (simp add: stop_of_def)
  moreover have "k < stop_of ix k m" using stop_of_bounds [OF km pos] by simp
  ultimately show ?thesis by linarith
qed

lemma part_fits_top:
  assumes km: "k < m" and pos: "0 < per_region ix"
    and m: "m < (k div per_region ix + 1) * per_region ix"
  shows "k mod per_region ix + (stop_of ix k m - k) < per_region ix"
proof -
  have "k = k div per_region ix * per_region ix + k mod per_region ix" by simp
  moreover have "stop_of ix k m = m" using m by (simp add: stop_of_def)
  moreover have "m < k div per_region ix * per_region ix + per_region ix" using m by simp
  ultimately show ?thesis using km by linarith
qed

text \<open>The granules of a part lie in one region; the next part starts a region, or the range ends.\<close>

lemma part_region:
  assumes "k < m" "0 < per_region ix" "k \<le> g" "g < stop_of ix k m"
  shows "g div per_region ix = k div per_region ix"
  using part_granules [OF assms(1,2), of g] assms(3,4) by simp

lemma stop_aligned: "stop_of ix k m = m \<or> stop_of ix k m mod per_region ix = 0"
  by (simp add: stop_of_def min_def)

lemma beyond_stop:
  assumes "k < m" "0 < per_region ix" "stop_of ix k m \<le> g" "g < m"
  shows "g div per_region ix \<noteq> k div per_region ix"
proof
  assume eq: "g div per_region ix = k div per_region ix"
  from assms have "(k div per_region ix + 1) * per_region ix \<le> g" by (auto simp: stop_of_def)
  then have "(k div per_region ix + 1) * per_region ix div per_region ix \<le> g div per_region ix"
    by (rule div_le_mono)
  with eq assms(2) show False by simp
qed

lemma region_granule:
  "0 < (n :: nat) \<Longrightarrow> g div n = i \<longleftrightarrow> i * n \<le> g \<and> g < (i + 1) * n"
  by (metis Suc_eq_plus1 div_nat_eqI dividend_less_div_times less_or_eq_imp_le mult.commute
      div_times_less_eq_dividend mult_Suc add.commute)

section \<open>Validation\<close>

lemma granule_dvd_base: "index_shape ix \<Longrightarrow> 2 ^ gshift ix dvd base_of ix"
  by (meson base_dvd dvd_trans index_shape_def le_imp_power_dvd)

text \<open>A granule-aligned address of the range is a granule boundary.\<close>

lemma aligned_at:
  assumes "index_shape ix" "2 ^ gshift ix dvd unat a" "base_of ix \<le> unat a"
  obtains k where "at ix a k" "unat a = base_of ix + k * 2 ^ gshift ix"
proof -
  have "2 ^ gshift ix dvd unat a - base_of ix"
    using assms granule_dvd_base by (intro dvd_diff_nat) auto
  then obtain k where k: "unat a - base_of ix = 2 ^ gshift ix * k" by (auto simp: dvd_def)
  show thesis by (rule that [of k]) (use k assms(3) in \<open>simp_all add: at_def mult.commute\<close>)
qed

lemma memx_validate_range_OK:
  assumes shape: "index_shape ix"
    and ok: "memx_validate_range (Some ix) base sz = (MEMX_OK, e)"
  obtains k0 m where "at ix base k0" "at ix e m" "k0 < m" "m \<le> regions ix * per_region ix"
    "e = base + sz" "unat e = unat base + unat sz" "unat sz = (m - k0) * 2 ^ gshift ix"
proof -
  note cov = memx_address_to_region_spec [OF shape]
  have sz0: "sz \<noteq> 0" and al: "2 ^ gshift ix dvd unat base" "2 ^ gshift ix dvd unat sz"
    and ov: "memx_add_overflows base sz = Some e"
    and c: "covered ix base" "covered ix (e - 1)"
    using ok by (auto simp: memx_validate_range_def memx_is_aligned_iff cov pow2_minus_1
        and_mask_eq_0_iff split: if_splits option.splits)
  have e: "e = base + sz" "unat e = unat base + unat sz"
    using ov by (auto simp: memx_add_overflows_Some unat_add_exact)
  have base_le: "base_of ix \<le> unat base" using c by (simp add: covered_def)
  obtain k0 where k0: "at ix base k0" using aligned_at [OF shape al(1) base_le] .
  have "base_of ix \<le> unat e" "2 ^ gshift ix dvd unat e"
    unfolding e(2) using base_le al by simp_all
  then obtain m where m: "at ix e m" using aligned_at [OF shape] by metis
  have pos: "0 < unat sz" using sz0 by (simp add: unat_gt_0)
  have km: "k0 * 2 ^ gshift ix + unat sz = m * 2 ^ gshift ix"
    using k0 m e(2) unfolding at_def by linarith
  then have lt: "k0 < m" using pos by (metis add_less_cancel_left less_add_same_cancel1 mult_less_cancel2)
  have "unat (e - 1) = unat e - 1" using pos e(2) by (intro unat_dec) simp
  then have "unat e \<le> base_of ix + regions ix * 2 ^ rshift ix"
    using c(2) pos e(2) unfolding covered_def by linarith
  then have "m * 2 ^ gshift ix \<le> regions ix * per_region ix * 2 ^ gshift ix"
    using m by (simp add: at_def region_bytes [OF shape] mult.assoc)
  then have "m \<le> regions ix * per_region ix" by simp
  moreover have "unat sz = (m - k0) * 2 ^ gshift ix"
    using km by (simp add: diff_mult_distrib)
  ultimately show thesis using that k0 m lt e by blast
qed

lemma validate_range_exact:
  assumes shape: "index_shape ix"
  shows "memx_validate_range (Some ix) base sz = (MEMX_OK, e) \<longleftrightarrow>
    sz \<noteq> 0 \<and> 2 ^ gshift ix dvd unat base \<and> 2 ^ gshift ix dvd unat sz
    \<and> unat e = unat base + unat sz
    \<and> base_of ix \<le> unat base \<and> unat base + unat sz \<le> base_of ix + regions ix * 2 ^ rshift ix"
    (is "?v \<longleftrightarrow> ?r")
proof -
  note cov = memx_address_to_region_spec [OF shape]
  have v: "?v \<longleftrightarrow> sz \<noteq> 0 \<and> 2 ^ gshift ix dvd unat base \<and> 2 ^ gshift ix dvd unat sz
      \<and> memx_add_overflows base sz = Some e \<and> covered ix base \<and> covered ix (e - 1)"
    by (auto simp: memx_validate_range_def memx_is_aligned_iff cov pow2_minus_1
        and_mask_eq_0_iff split: if_splits option.splits)
  have o: "memx_add_overflows base sz = Some e \<longleftrightarrow> unat e = unat base + unat sz"
  proof
    assume a: "unat e = unat base + unat sz"
    then have lt: "unat base + unat sz < 18446744073709551616" using unat_lt_64 [of e] by linarith
    then have "unat (base + sz) = unat base + unat sz" by (intro unat_add_exact) simp
    then have "e = base + sz" using a by (simp only: unat_eq_iff)
    with lt show "memx_add_overflows base sz = Some e" by (simp add: memx_add_overflows_Some)
  qed (auto simp: memx_add_overflows_Some unat_add_exact)
  have "covered ix base \<and> covered ix (e - 1) \<longleftrightarrow>
      base_of ix \<le> unat base \<and> unat base + unat sz \<le> base_of ix + regions ix * 2 ^ rshift ix"
    if "sz \<noteq> 0" "unat e = unat base + unat sz"
  proof -
    have "0 < unat sz" using that(1) by (simp add: unat_gt_0)
    moreover have "unat (e - 1) = unat e - 1"
      using that calculation by (intro unat_minus_one) auto
    ultimately show ?thesis using that(2) by (auto simp: covered_def)
  qed
  then show ?thesis unfolding v o by auto
qed

section \<open>Preflight\<close>

definition holds :: "'c memx_index \<Rightarrow> 'c memx_world \<Rightarrow> nat \<Rightarrow> nat \<Rightarrow> u64 \<Rightarrow> bool" where
  "holds ix w k m v \<longleftrightarrow> (\<forall>g. k \<le> g \<and> g < m \<longrightarrow> gmap ix (heap w) g = v)"

lemma preflight_step:
  assumes inv: "index_inv live fr ix w" and c: "at ix c k" and k: "k < regions ix * per_region ix"
  shows "preflight_body ix expected inserting w c u =
    Some (if inserting
          then (if gmap ix (heap w) k \<noteq> MEMX_HANDLE_INVALID then MEMX_ERROR_OVERLAP else MEMX_OK)
          else (if gmap ix (heap w) k \<noteq> expected then MEMX_ERROR_NOT_FOUND else MEMX_OK), u)"
proof -
  have "memx_lookup_address (Some ix) w c = Some (gmap ix (heap w) k)"
    using lookup_granule [OF inv, of c] at_covered [OF index_invD(2) [OF inv] c k]
      at_granule_of [OF c] by simp
  then show ?thesis by (simp add: preflight_body_def)
qed

lemma preflight:
  assumes inv: "index_inv live fr ix w" and b: "at ix base k0" and e: "at ix e m"
    and km: "k0 \<le> m" and m: "m \<le> regions ix * per_region ix"
    and v: "v = (if inserting then MEMX_HANDLE_INVALID else expected)"
  shows "memx_preflight_range ix base e expected inserting w =
    Some (if holds ix w k0 m v then MEMX_OK
          else if inserting then MEMX_ERROR_OVERLAP else MEMX_ERROR_NOT_FOUND)"
proof -
  let ?fail = "if inserting then MEMX_ERROR_OVERLAP else MEMX_ERROR_NOT_FOUND"
  let ?Q = "\<lambda>st (u :: unit). st = (if holds ix w k0 m v then MEMX_OK else ?fail)"
  have "\<exists>st u. granule_walk (preflight_body ix expected inserting w)
      (granule_bytes_of ix) e base () = Some (st, u) \<and> ?Q st u"
  proof (rule granule_walk_rule [OF index_invD(2) [OF inv] e, where ?k0.0 = k0
        and I = "\<lambda>k u. holds ix w k0 k v", OF _ _ b _ km])
    fix k c u
    assume h: "k0 \<le> k" "k < m" "at ix c k" "holds ix w k0 k v"
    have st: "preflight_body ix expected inserting w c u =
        Some (if gmap ix (heap w) k = v then MEMX_OK else ?fail, u)"
      using preflight_step [OF inv h(3)] h(2) m by (auto simp: v)
    show "\<exists>st u'. preflight_body ix expected inserting w c u = Some (st, u') \<and>
        (if st = MEMX_OK then holds ix w k0 (Suc k) v else ?Q st u')"
    proof (cases "gmap ix (heap w) k = v")
      case True
      then show ?thesis using h(4) st by (auto simp: holds_def less_Suc_eq)
    next
      case False
      then have "\<not> holds ix w k0 m v" using h by (auto simp: holds_def)
      then show ?thesis using False st by auto
    qed
  qed (auto simp: holds_def)
  then show ?thesis by (auto simp: memx_preflight_range_def)
qed

section \<open>Loop states\<close>

text \<open>
  A loop runs on the index it was given, \<open>ix0\<close>, up to counters; \<open>G\<close> is the granule map the
  loop has reached.
\<close>

definition tracks ::
  "('c \<Rightarrow> u64 set) \<Rightarrow> (u64 \<rightharpoonup> memx_object) \<Rightarrow> 'c memx_index \<Rightarrow> (nat \<Rightarrow> u64)
     \<Rightarrow> 'c memx_index \<Rightarrow> 'c memx_world \<Rightarrow> bool" where
  "tracks live fr ix0 G ix w \<longleftrightarrow>
     same_index ix0 ix \<and> index_inv live fr ix w
     \<and> (\<forall>g < regions ix0 * per_region ix0. gmap ix0 (heap w) g = G g)"

lemma tracks_step:
  assumes "tracks live fr ix0 G ix w" "step_to live fr (ix, w) (ix', w') f"
    and "\<And>g. g < regions ix0 * per_region ix0 \<Longrightarrow> f g (G g) = G' g"
  shows "tracks live fr ix0 G' ix' w'"
proof -
  from assms(1) have same: "same_index ix0 ix" by (simp add: tracks_def)
  note fields = same_index_fields [OF same] same_index_view [OF same]
  from assms show ?thesis
    by (auto simp: tracks_def step_to_def fields intro: same_index_trans)
qed

lemma tracks_heap:
  "tracks live fr ix0 G ix w \<Longrightarrow> index_inv live fr ix w' \<Longrightarrow> heap w' = heap w \<Longrightarrow>
   tracks live fr ix0 G ix w'"
  by (simp add: tracks_def)

lemma tracksD:
  assumes "tracks live fr ix0 G ix w"
  shows "same_index ix0 ix" "index_inv live fr ix w"
    "g < regions ix0 * per_region ix0 \<Longrightarrow> gmap ix0 (heap w) g = G g"
  using assms by (simp_all add: tracks_def)

text \<open>The state of a loop at a cursor, in terms of the index the loop was given.\<close>

lemma tracks_view:
  assumes t: "tracks live fr ix0 G ix w" and c: "at ix0 c k" and k: "k < regions ix0 * per_region ix0"
  shows "index_shape ix0" "0 < per_region ix0" "k div per_region ix0 < regions ix0"
    "region_of ix c = (of_nat (k div per_region ix0), of_nat (k mod per_region ix0))"
    "unat (of_nat (k div per_region ix0) :: u64) = k div per_region ix0"
    "unat (of_nat (k mod per_region ix0) :: u64) = k mod per_region ix0"
proof -
  note same = tracksD(1) [OF t]
  show sh: "index_shape ix0"
    using index_invD(2) [OF tracksD(2) [OF t]] by (simp add: same_index_view [OF same])
  show "0 < per_region ix0" by (rule per_region_pos [OF sh])
  show "k div per_region ix0 < regions ix0" by (rule less_mult_imp_div_less [OF k])
  show "region_of ix c = (of_nat (k div per_region ix0), of_nat (k mod per_region ix0))"
    unfolding same_index_view [OF same] by (rule region_of_at [OF sh c k])
  show "unat (of_nat (k div per_region ix0) :: u64) = k div per_region ix0"
    by (rule unat_region_index [OF k])
  show "unat (of_nat (k mod per_region ix0) :: u64) = k mod per_region ix0"
    by (rule unat_granule_index [OF sh])
qed

lemma gmap_desc:
  assumes "k < regions ix * per_region ix" "gmap ix h k = v"
  shows "dvalue h (rdesc ix h (k div per_region ix)) (k mod per_region ix) = v"
  using assms by (simp add: gmap_def)

text \<open>\<^verbatim>\<open>memx_get_region_mut\<close> without \<^verbatim>\<open>create\<close>, at a cursor.\<close>

lemma get_region_at:
  assumes t: "tracks live fr ix0 G ix w" and c: "at ix0 c k" and k: "k < regions ix0 * per_region ix0"
  shows "memx_get_region_mut ix (of_nat (k div per_region ix0)) False w =
    Some (rslot ix0 (heap w) (k div per_region ix0), ix, w)"
proof -
  note same = tracksD(1) [OF t] and inv = tracksD(2) [OF t]
  note v = tracks_view [OF t c k]
  show ?thesis
    using get_region_mut_False [OF index_invD(2,3) [OF inv], of "of_nat (k div per_region ix0)"] v
    by (simp add: same_index_view [OF same] same_index_fields [OF same])
qed

end
