(* ===== verification/Memx_Insert.thy ===== *)
theory Memx_Insert
  imports Memx_Range
begin

text \<open>
  Correctness of \<^verbatim>\<open>memx_insert\<close> in adaptive mode: both loops return, the invariant survives
  every outcome, OK means that exactly the granules of the range now hold the handle, and any
  other status means that no lookup has changed.
\<close>

section \<open>Preparation\<close>

text \<open>
  What the first loop establishes for every region of the range: it has a slot, and it is
  EMPTY only if the insert covers it whole with a handle that fits a descriptor.
\<close>

definition prepared ::
  "'c memx_index \<Rightarrow> (u64 \<rightharpoonup> memx_object) \<Rightarrow> u64 \<Rightarrow> nat \<Rightarrow> nat \<Rightarrow> nat \<Rightarrow> bool" where
  "prepared ix h handle k0 m i \<longleftrightarrow>
     rslot ix h i \<noteq> None
     \<and> (rdesc ix h i = 0 \<longrightarrow>
          k0 \<le> i * per_region ix \<and> (i + 1) * per_region ix \<le> m \<and> \<not> top_region ix i
          \<and> handle \<le> MEMX_INLINE_HANDLE_MAX)"

lemma whole_region_iff:
  assumes sh: "index_shape ix" and c: "at ix c k" and e: "at ix e m" and km: "k < m"
  shows "c AND (region_bytes_of ix - 1) = 0 \<and> part_end_of ix c e - c = region_bytes_of ix
    \<longleftrightarrow> k mod per_region ix = 0 \<and> (k div per_region ix + 1) * per_region ix \<le> m"
proof -
  let ?n = "per_region ix" let ?i = "k div ?n" let ?s = "stop_of ix k m"
  have pos: "0 < ?n" by (rule per_region_pos [OF sh])
  have ks: "k < ?s" using stop_of_bounds [OF km pos] by simp
  have r: "unat (region_bytes_of ix) = ?n * 2 ^ gshift ix"
  proof -
    have "rshift ix < 64" using sh by (simp add: index_shape_def)
    then show ?thesis by (simp add: unat_pow2 region_bytes [OF sh])
  qed
  have "part_end_of ix c e - c = region_bytes_of ix \<longleftrightarrow> (?s - k) * 2 ^ gshift ix = ?n * 2 ^ gshift ix"
    unfolding unat_eq_iff r part_bytes [OF c part_end_at [OF sh c e km] less_imp_le [OF ks]] ..
  also have "\<dots> \<longleftrightarrow> ?s - k = ?n" by simp
  finally have part: "part_end_of ix c e - c = region_bytes_of ix \<longleftrightarrow> ?s - k = ?n" .
  have k: "k = ?i * ?n + k mod ?n" by simp
  have s: "?s = min m (?i * ?n + ?n)" by (simp add: stop_of_def)
  have "k mod ?n = 0 \<Longrightarrow> ?s - k = ?n \<longleftrightarrow> ?i * ?n + ?n \<le> m"
    using k s ks pos by (simp add: min_def) linarith
  then show ?thesis unfolding cursor_offset_zero [OF sh c] part by auto
qed

lemma prepare_insert_eval:
  assumes "region_of ix c = (a, b)" "memx_get_region_mut ix a True w = Some (Some s, ix1, w1)"
    "read_region w1 s = Some d"
  shows "prepare_insert_body rs handle c re pe (ix, w) =
    (if memx_region_type_decode d = MEMX_REGION_EMPTY
        \<and> (\<not> (c AND (rs - 1) = 0 \<and> pe - c = rs) \<or> MEMX_INLINE_HANDLE_MAX < handle)
     then do {
       (dense, w) \<leftarrow> memx_dense_create ix1 MEMX_HANDLE_INVALID w1;
       if dense = 0 then Some (MEMX_ERROR_OUT_OF_MEMORY, ix1, w)
       else do {
         w \<leftarrow> write_region s (memx_dense_encode dense) w;
         Some (MEMX_OK, ix1\<lparr>dense_regions := dense_regions ix1 + 1\<rparr>, w)
       }
     }
     else Some (MEMX_OK, ix1, w1))"
  unfolding prepare_insert_body_def Let_def using assms by simp

lemma prepare_insert_step:
  assumes t: "tracks live fr ix0 G ix w" and c: "at ix0 c k" and e: "at ix0 e m"
    and k: "k0 \<le> k" "k < m" and m: "m \<le> regions ix0 * per_region ix0"
    and inval: "\<And>g. k0 \<le> g \<Longrightarrow> g < m \<Longrightarrow> G g = MEMX_HANDLE_INVALID"
  shows "\<exists>st ix' w'. prepare_insert_body (region_bytes_of ix0) handle c (region_end_of ix0 c e)
        (part_end_of ix0 c e) (ix, w) = Some (st, ix', w')
    \<and> tracks live fr ix0 G ix' w' \<and> st \<in> {MEMX_OK, MEMX_ERROR_OUT_OF_MEMORY}
    \<and> (st = MEMX_OK \<longrightarrow> prepared ix0 (heap w') handle k0 m (k div per_region ix0)
        \<and> (\<forall>i < regions ix0. prepared ix0 (heap w) handle k0 m i \<longrightarrow>
              prepared ix0 (heap w') handle k0 m i))"
proof -
  let ?i = "k div per_region ix0"
  let ?whole = "c AND (region_bytes_of ix0 - 1) = 0 \<and> part_end_of ix0 c e - c = region_bytes_of ix0"
  have kN: "k < regions ix0 * per_region ix0" using k m by simp
  note same = tracksD(1) [OF t] and inv = tracksD(2) [OF t]
  note v = tracks_view [OF t c kN]
  note sv = same_index_fields [OF same] same_index_view [OF same]
  have whole: "k mod per_region ix0 = 0 \<and> (?i + 1) * per_region ix0 \<le> m" if ?whole
    using whole_region_iff [OF v(1) c e k(2)] that by blast
  have i: "unat (of_nat ?i :: u64) < regions ix" using v by (simp add: sv)
  show ?thesis
    using inv i
  proof (cases rule: get_region_mut_True)
    case (null w')
    then show ?thesis
      using v tracks_heap [OF t null(2,3)]
      by (intro exI [of _ MEMX_ERROR_OUT_OF_MEMORY] exI [of _ ix] exI [of _ w'])
         (simp add: prepare_insert_body_def)
  next
    case (slot s ix1 w1)
    have t1: "tracks live fr ix0 G ix1 w1" by (rule tracks_step [OF t slot(2)]) simp
    note same1 = tracksD(1) [OF t1] and inv1 = tracksD(2) [OF t1]
    note sv1 = same_index_fields [OF same1] same_index_view [OF same1]
    have s1: "rslot ix0 (heap w1) ?i = Some s" using slot(3) v by (simp add: sv)
    have mono: "rslot ix0 (heap w1) j = Some s'" if "rslot ix0 (heap w) j = Some s'" for j s'
      using slot(4) [of j s'] that by (simp add: sv)
    have d1: "rdesc ix0 (heap w1) j = rdesc ix0 (heap w) j" if "j < regions ix0" for j
      using slot(5) [of j] that by (simp add: sv)
    have keep1: "prepared ix0 (heap w1) handle k0 m j"
      if "j < regions ix0" "prepared ix0 (heap w) handle k0 m j" for j
      using that mono d1 by (auto simp: prepared_def)
    let ?d = "rdesc ix0 (heap w1) ?i"
    have i1: "?i < regions ix1" using v by (simp add: sv1)
    have s1': "rslot ix1 (heap w1) ?i = Some s" using s1 by (simp add: sv1)
    have "read_region w1 s = Some (rdesc ix1 (heap w1) ?i)"
      by (rule slot_access [OF inv1 i1 s1'])
    then have rd: "read_region w1 s = Some ?d" by (simp add: sv1)
    let ?body = "prepare_insert_body (region_bytes_of ix0) handle c (region_end_of ix0 c e)
        (part_end_of ix0 c e) (ix, w)"
    note ev = prepare_insert_eval [OF v(4) slot(1) rd, of "region_bytes_of ix0" handle
        "region_end_of ix0 c e" "part_end_of ix0 c e"]
    show ?thesis
    proof (cases "memx_region_type_decode ?d = MEMX_REGION_EMPTY
        \<and> (\<not> ?whole \<or> MEMX_INLINE_HANDLE_MAX < handle)")
      case False
      then have "?body = Some (MEMX_OK, ix1, w1)" unfolding ev by (rule if_not_P)
      moreover have "prepared ix0 (heap w1) handle k0 m ?i"
      proof -
        have "k0 \<le> ?i * per_region ix0 \<and> (?i + 1) * per_region ix0 \<le> m \<and> \<not> top_region ix0 ?i
            \<and> handle \<le> MEMX_INLINE_HANDLE_MAX" if "?d = 0"
        proof -
          have w: ?whole and h: "handle \<le> MEMX_INLINE_HANDLE_MAX" using False that by auto
          have "?i * per_region ix0 = k" using whole [OF w] by (metis add.right_neutral div_mult_mod_eq)
          moreover have "\<not> top_region ix0 ?i"
          proof
            assume "top_region ix0 ?i"
            from top_region_stop [OF v(1) e this] whole [OF w] show False by linarith
          qed
          ultimately show ?thesis using whole [OF w] h k(1) by simp
        qed
        then show ?thesis using s1 by (simp add: prepared_def)
      qed
      ultimately show ?thesis
        using t1 keep1 by (intro exI [of _ MEMX_OK] exI [of _ ix1] exI [of _ w1]) simp
    next
      case True
      have nd: "\<not> is_dense (rdesc ix1 (heap w1) ?i)" using True by (simp add: sv1)
      have "rdesc ix1 (heap w1) ?i = 0"
        by (rule rdesc_cases [OF inv1 i1]) (use True in \<open>simp_all add: sv1\<close>)
      then have d0: "?d = 0" by (simp add: sv1)
      show ?thesis
        using inv1
      proof (cases rule: memx_dense_create_cases [where v = MEMX_HANDLE_INVALID])
        case (null w2)
        have "?body = Some (MEMX_ERROR_OUT_OF_MEMORY, ix1, w2)"
          unfolding ev if_P [OF True] by (simp add: null(1))
        moreover have "tracks live fr ix0 G ix1 w2"
          by (rule tracks_heap [OF t1 index_inv_cong [OF inv1 null(2,3)] null(2)])
        ultimately show ?thesis
          by (intro exI [of _ MEMX_ERROR_OUT_OF_MEMORY] exI [of _ ix1] exI [of _ w2]) simp
      next
        case (block q w2)
        have v0: "MEMX_HANDLE_INVALID = dvalue (heap w1) (rdesc ix1 (heap w1) ?i) 0"
          using d0 by (simp add: sv1)
        have nu: "uniform_regions ix1 = (if is_uniform (rdesc ix1 (heap w1) ?i)
            then uniform_regions ix1 - 1 else uniform_regions ix1)" using d0 by (simp add: sv1)
        obtain w3 where ins: "write_region s (memx_dense_encode q) w2 = Some w3"
          "step_to live fr (ix1, w1) (ix1\<lparr>dense_regions := dense_regions ix1 + 1,
             uniform_regions := uniform_regions ix1\<rparr>, w3) (\<lambda>k x. x)"
          "rdesc ix1 (heap w3) ?i = memx_dense_encode q" "only_region ix1 (heap w1) (heap w3) ?i"
          by (rule install_dense [OF inv1 i1 s1' nd block(4,3,5,6) v0 nu])
        have "?body = Some (MEMX_OK, ix1\<lparr>dense_regions := dense_regions ix1 + 1\<rparr>, w3)"
          unfolding ev if_P [OF True] by (simp add: block(1,2) ins(1))
        moreover have "tracks live fr ix0 G (ix1\<lparr>dense_regions := dense_regions ix1 + 1\<rparr>) w3"
          by (subst counter_fill(1)) (rule tracks_step [OF t1 ins(2) refl])
        moreover have pi: "prepared ix0 (heap w3) handle k0 m ?i"
          using ins(3,4) s1 memx_dense_encode_nonzero [of q]
          by (simp add: prepared_def only_region_def sv1)
        moreover have "prepared ix0 (heap w3) handle k0 m j"
          if "j < regions ix0" "prepared ix0 (heap w) handle k0 m j" for j
          using keep1 [OF that] ins(4) pi that(1)
          by (cases "j = ?i") (simp_all add: prepared_def only_region_def sv1)
        ultimately show ?thesis
          by (intro exI [of _ MEMX_OK] exI [of _ "ix1\<lparr>dense_regions := dense_regions ix1 + 1\<rparr>"]
              exI [of _ w3]) simp
      qed
    qed
  qed
qed

lemma prepare_insert:
  assumes t: "tracks live fr ix0 G ix w" and b: "at ix0 base k0" and e: "at ix0 e m"
    and km: "k0 \<le> m" and m: "m \<le> regions ix0 * per_region ix0"
    and inval: "\<And>g. k0 \<le> g \<Longrightarrow> g < m \<Longrightarrow> G g = MEMX_HANDLE_INVALID"
  shows "\<exists>st ix' w'. memx_prepare_insert_regions ix base e handle w = Some (st, ix', w')
    \<and> tracks live fr ix0 G ix' w' \<and> st \<in> {MEMX_OK, MEMX_ERROR_OUT_OF_MEMORY}
    \<and> (st = MEMX_OK \<longrightarrow> (\<forall>g. k0 \<le> g \<and> g < m \<longrightarrow>
          prepared ix0 (heap w') handle k0 m (g div per_region ix0)))"
proof -
  let ?P = "\<lambda>k w. \<forall>g. k0 \<le> g \<and> g < k \<longrightarrow> prepared ix0 (heap w) handle k0 m (g div per_region ix0)"
  let ?I = "\<lambda>k s. tracks live fr ix0 G (fst s) (snd s) \<and> ?P k (snd s)"
  let ?Q = "\<lambda>st s. tracks live fr ix0 G (fst s) (snd s) \<and> st \<in> {MEMX_OK, MEMX_ERROR_OUT_OF_MEMORY}
    \<and> (st = MEMX_OK \<longrightarrow> ?P m (snd s))"
  note same = tracksD(1) [OF t]
  have sh: "index_shape ix0"
    using index_invD(2) [OF tracksD(2) [OF t]] by (simp add: same_index_view [OF same])
  have pos: "0 < per_region ix0" by (rule per_region_pos [OF sh])
  have "\<exists>st s'. region_walk (prepare_insert_body (region_bytes_of ix0) handle) (region_bytes_of ix0)
      e base (ix, w) = Some (st, s') \<and> ?Q st s'"
  proof (rule region_walk_rule [OF sh e m, where I = ?I and ?k0.0 = k0, OF _ _ b _ km])
    fix k c s
    assume h: "k0 \<le> k" "k < m" "at ix0 c k" "?I k s"
    obtain ix1 w1 where s: "s = (ix1, w1)" by (cases s)
    have t1: "tracks live fr ix0 G ix1 w1" using h(4) s by simp
    obtain st ix' w' where step: "prepare_insert_body (region_bytes_of ix0) handle c
        (region_end_of ix0 c e) (part_end_of ix0 c e) (ix1, w1) = Some (st, ix', w')"
      "tracks live fr ix0 G ix' w'" "st \<in> {MEMX_OK, MEMX_ERROR_OUT_OF_MEMORY}"
      "st = MEMX_OK \<Longrightarrow> prepared ix0 (heap w') handle k0 m (k div per_region ix0)"
      "\<And>i. st = MEMX_OK \<Longrightarrow> i < regions ix0 \<Longrightarrow> prepared ix0 (heap w1) handle k0 m i \<Longrightarrow>
         prepared ix0 (heap w') handle k0 m i"
      using prepare_insert_step [OF t1 h(3) e h(1,2) m inval, of handle] by blast
    have "prepared ix0 (heap w') handle k0 m (g div per_region ix0)"
      if "st = MEMX_OK" "k0 \<le> g" "g < stop_of ix0 k m" for g
    proof (cases "g < k")
      case True
      have "g div per_region ix0 < regions ix0"
        using True h(2) m by (intro less_mult_imp_div_less) simp
      then show ?thesis using True that(1,2) h(4) s by (intro step(5)) auto
    next
      case False
      then show ?thesis
        using part_region [OF h(2) pos, of g] that step(4) by simp
    qed
    then show "\<exists>st s'. prepare_insert_body (region_bytes_of ix0) handle c
        (region_end_of ix0 c e) (part_end_of ix0 c e) s = Some (st, s')
        \<and> (if st = MEMX_OK then ?I (stop_of ix0 k m) s' else ?Q st s')"
      using step(1-3) s by auto
  qed (use t in auto)
  then show ?thesis
    by (auto simp: memx_prepare_insert_regions_def Let_def same_index_fields [OF same])
qed

section \<open>The write pass\<close>

lemma insert_eval_uniform:
  assumes "region_of ix c = (a, b)" "memx_get_region_mut ix a False w = Some (Some s, ix, w)"
    "read_region w s = Some 0" "c AND (rs - 1) = 0" "pe = re" "handle \<le> MEMX_INLINE_HANDLE_MAX"
    "write_region s (memx_uniform_encode handle) w = Some w'"
  shows "insert_body rs gs handle c re pe (ix, w) =
    Some (MEMX_OK, ix\<lparr>uniform_regions := uniform_regions ix + 1\<rparr>, w')"
  unfolding insert_body_def Let_def using assms by simp

lemma insert_eval_dense:
  assumes "region_of ix c = (a, b)" "memx_get_region_mut ix a False w = Some (Some s, ix, w)"
    "read_region w s = Some d" "is_dense d" "n = unat ((pe - c) div gs)"
    "fill_handles (memx_dense_decode d) (unat b) n handle w = Some w1"
    "memx_region_reclassify ix s w1 = Some (ix2, w2)"
  shows "insert_body rs gs handle c re pe (ix, w) = Some (MEMX_OK, ix2, w2)"
  unfolding insert_body_def Let_def using assms by simp

text \<open>A region whose granule is unmapped is not UNIFORM.\<close>

lemma unmapped_not_uniform:
  assumes "k < regions ix * per_region ix" "gmap ix h k = MEMX_HANDLE_INVALID"
  shows "\<not> is_uniform (rdesc ix h (k div per_region ix))"
  using gmap_desc [OF assms] by (auto simp: memx_uniform_decode_valid)

lemma prepared_other:
  assumes "only_region ix h h' i" "j < regions ix" "j \<noteq> i" "prepared ix h handle k0 m j"
  shows "prepared ix h' handle k0 m j"
  using assms by (simp add: prepared_def only_region_def)

text \<open>A part of a dense region: the granules of the part are filled, then the table may shrink.\<close>

lemma fill_part:
  assumes t: "tracks live fr ix0 G ix w" and e: "at ix0 e m"
    and km: "k < m" and kN: "k < regions ix0 * per_region ix0"
    and i: "i = k div per_region ix0" and slot: "rslot ix0 (heap w) i = Some s"
    and d: "is_dense (rdesc ix0 (heap w) i)"
  obtains w1 ix2 w2 where
    "fill_handles (memx_dense_decode (rdesc ix0 (heap w) i)) (k mod per_region ix0)
       (stop_of ix0 k m - k) v w = Some w1"
    "memx_region_reclassify ix s w1 = Some (ix2, w2)"
    "tracks live fr ix0 (\<lambda>g. if k \<le> g \<and> g < stop_of ix0 k m then v else G g) ix2 w2"
    "only_region ix0 (heap w) (heap w2) i"
proof -
  note same = tracksD(1) [OF t] and inv = tracksD(2) [OF t]
  note sv = same_index_fields [OF same] same_index_view [OF same]
  have sh: "index_shape ix0" using index_invD(2) [OF inv] by (simp add: sv)
  have pos: "0 < per_region ix0" by (rule per_region_pos [OF sh])
  have i': "i < regions ix" using less_mult_imp_div_less [OF kN] by (simp add: sv i)
  have slot': "rslot ix (heap w) i = Some s" and d': "is_dense (rdesc ix (heap w) i)"
    using slot d by (simp_all add: sv)
  have fit: "k mod per_region ix0 + (stop_of ix0 k m - k) \<le> per_region ix"
    using part_fits [OF km pos] by (simp add: sv)
  have top: "k mod per_region ix0 + (stop_of ix0 k m - k) < per_region ix \<or> v = MEMX_HANDLE_INVALID"
    if "top_region ix i"
    using part_fits_top [OF km pos] top_region_stop [OF sh e] that by (simp add: sv i)
  obtain w1 where f: "fill_handles (memx_dense_decode (rdesc ix (heap w) i)) (k mod per_region ix0)
      (stop_of ix0 k m - k) v w = Some w1"
    "step_to live fr (ix, w) (ix, w1)
       (\<lambda>g x. if g div per_region ix = i \<and> k mod per_region ix0 \<le> g mod per_region ix
           \<and> g mod per_region ix < k mod per_region ix0 + (stop_of ix0 k m - k) then v else x)"
    "only_region ix (heap w) (heap w1) i" "rdesc ix (heap w1) i = rdesc ix (heap w) i"
    by (rule fill_dense [OF inv i' slot' d' fit top])
  have t1: "tracks live fr ix0 (\<lambda>g. if k \<le> g \<and> g < stop_of ix0 k m then v else G g) ix w1"
    by (rule tracks_step [OF t f(2)]) (simp only: sv i part_granules [OF km pos])
  have slot1: "rslot ix (heap w1) i = Some s" using slot' f(3) by (simp add: only_region_def)
  obtain ix2 w2 where r: "memx_region_reclassify ix s w1 = Some (ix2, w2)"
    "step_to live fr (ix, w1) (ix2, w2) (\<lambda>k x. x)" "only_region ix (heap w1) (heap w2) i"
    by (rule reclassify [OF tracksD(2) [OF t1] i' slot1])
  show thesis
  proof (rule that [OF _ r(1)])
    show "tracks live fr ix0 (\<lambda>g. if k \<le> g \<and> g < stop_of ix0 k m then v else G g) ix2 w2"
      by (rule tracks_step [OF t1 r(2)]) simp
    show "only_region ix0 (heap w) (heap w2) i"
      using f(3) r(3) by (simp add: only_region_def sv)
  qed (use f(1) in \<open>simp add: sv\<close>)
qed

lemma insert_step:
  assumes t: "tracks live fr ix0 G ix w" and c: "at ix0 c k" and e: "at ix0 e m"
    and k: "k0 \<le> k" "k < m" and m: "m \<le> regions ix0 * per_region ix0"
    and start: "k = k0 \<or> k mod per_region ix0 = 0"
    and free: "G k = MEMX_HANDLE_INVALID"
    and prep: "prepared ix0 (heap w) handle k0 m (k div per_region ix0)"
  shows "\<exists>ix' w'. insert_body (region_bytes_of ix0) (granule_bytes_of ix0) handle c
        (region_end_of ix0 c e) (part_end_of ix0 c e) (ix, w) = Some (MEMX_OK, ix', w')
    \<and> tracks live fr ix0 (\<lambda>g. if k \<le> g \<and> g < stop_of ix0 k m then handle else G g) ix' w'
    \<and> only_region ix0 (heap w) (heap w') (k div per_region ix0)"
proof -
  let ?i = "k div per_region ix0" let ?d = "rdesc ix0 (heap w) (k div per_region ix0)"
  have kN: "k < regions ix0 * per_region ix0" using k m by simp
  note same = tracksD(1) [OF t] and inv = tracksD(2) [OF t]
  note v = tracks_view [OF t c kN]
  note sv = same_index_fields [OF same] same_index_view [OF same]
  obtain s where s: "rslot ix0 (heap w) ?i = Some s" using prep by (auto simp: prepared_def)
  have i': "?i < regions ix" and s': "rslot ix (heap w) ?i = Some s" using v s by (simp_all add: sv)
  have gr: "memx_get_region_mut ix (of_nat ?i) False w = Some (Some s, ix, w)"
    using get_region_at [OF t c kN] s by simp
  have "read_region w s = Some (rdesc ix (heap w) ?i)" by (rule slot_access [OF inv i' s'])
  then have rd: "read_region w s = Some ?d" by (simp add: sv)
  have nu: "\<not> is_uniform ?d"
    using tracksD(3) [OF t kN] free by (intro unmapped_not_uniform [OF kN]) simp
  show ?thesis
  proof (cases "?d = 0")
    case True
    then have p: "k0 \<le> ?i * per_region ix0" "(?i + 1) * per_region ix0 \<le> m" "\<not> top_region ix0 ?i"
      "handle \<le> MEMX_INLINE_HANDLE_MAX" using prep by (simp_all add: prepared_def)
    have kmod: "k mod per_region ix0 = 0"
    proof (cases "k = k0")
      case True
      then have "?i * per_region ix0 = k" using p(1) div_times_less_eq_dividend [of k "per_region ix0"] by linarith
      then show ?thesis by (metis mod_mult_self2_is_0)
    qed (use start in simp)
    then have ki: "?i * per_region ix0 = k" by (metis add.right_neutral div_mult_mod_eq)
    have stop: "stop_of ix0 k m = (?i + 1) * per_region ix0" using p(2) by (simp add: stop_of_def)
    have off: "c AND (region_bytes_of ix0 - 1) = 0" using cursor_offset_zero [OF v(1) c] kmod by simp
    have pe: "part_end_of ix0 c e = region_end_of ix0 c e"
      using part_end_eq_region_end [OF v(1) c e k(2) m] p(2) by blast
    have d0: "rdesc ix (heap w) ?i = 0" and nt: "\<not> top_region ix ?i"
      using True p by (simp_all add: sv)
    obtain w2 where u: "write_region s (memx_uniform_encode handle) w = Some w2"
      "step_to live fr (ix, w) (ix\<lparr>uniform_regions := uniform_regions ix + 1\<rparr>, w2)
         (\<lambda>g x. if g div per_region ix = ?i then handle else x)"
      "only_region ix (heap w) (heap w2) ?i"
      by (rule set_uniform [OF inv i' s' d0 p(4) nt])
    have rd0: "read_region w s = Some 0" using rd True by simp
    note ev = insert_eval_uniform [OF v(4) gr rd0 off pe p(4) u(1)]
    have "tracks live fr ix0 (\<lambda>g. if k \<le> g \<and> g < stop_of ix0 k m then handle else G g)
        (ix\<lparr>uniform_regions := uniform_regions ix + 1\<rparr>) w2"
      using region_granule [OF v(2), of _ ?i]
      by (intro tracks_step [OF t u(2)]) (simp only: sv stop ki)
    then show ?thesis using ev u(3) by (simp add: only_region_def sv)
  next
    case False
    have "is_dense (rdesc ix (heap w) ?i)"
      by (rule rdesc_cases [OF inv i']) (use False nu in \<open>simp_all add: sv\<close>)
    then have d: "is_dense ?d" by (simp add: sv)
    obtain w1 ix2 w2 where f: "fill_handles (memx_dense_decode ?d) (k mod per_region ix0)
         (stop_of ix0 k m - k) handle w = Some w1"
      "memx_region_reclassify ix s w1 = Some (ix2, w2)"
      "tracks live fr ix0 (\<lambda>g. if k \<le> g \<and> g < stop_of ix0 k m then handle else G g) ix2 w2"
      "only_region ix0 (heap w) (heap w2) ?i"
      by (rule fill_part [OF t e k(2) kN refl s d])
    have ks: "k \<le> stop_of ix0 k m" using stop_of_bounds [OF k(2) v(2)] by simp
    have n: "stop_of ix0 k m - k = unat ((part_end_of ix0 c e - c) div granule_bytes_of ix0)"
      using part_count [OF v(1) c part_end_at [OF v(1) c e k(2)] ks] by simp
    have fi: "fill_handles (memx_dense_decode ?d) (unat (of_nat (k mod per_region ix0) :: u64))
        (stop_of ix0 k m - k) handle w = Some w1" using f(1) v(6) by simp
    show ?thesis using insert_eval_dense [OF v(4) gr rd d n fi f(2)] f(3,4) by blast
  qed
qed

lemma insert_pass:
  assumes t: "tracks live fr ix0 G ix w" and b: "at ix0 base k0" and e: "at ix0 e m"
    and km: "k0 \<le> m" and m: "m \<le> regions ix0 * per_region ix0"
    and inval: "\<And>g. k0 \<le> g \<Longrightarrow> g < m \<Longrightarrow> G g = MEMX_HANDLE_INVALID"
    and prep: "\<And>g. k0 \<le> g \<Longrightarrow> g < m \<Longrightarrow> prepared ix0 (heap w) handle k0 m (g div per_region ix0)"
  shows "\<exists>ix' w'. region_walk (insert_body (region_bytes_of ix0) (granule_bytes_of ix0) handle)
        (region_bytes_of ix0) e base (ix, w) = Some (MEMX_OK, ix', w')
    \<and> tracks live fr ix0 (\<lambda>g. if k0 \<le> g \<and> g < m then handle else G g) ix' w'"
proof -
  let ?G = "\<lambda>k g. if k0 \<le> g \<and> g < k then handle else G g"
  let ?I = "\<lambda>k s. tracks live fr ix0 (?G k) (fst s) (snd s)
    \<and> (\<forall>g. k \<le> g \<and> g < m \<longrightarrow> prepared ix0 (heap (snd s)) handle k0 m (g div per_region ix0))
    \<and> (k = k0 \<or> k mod per_region ix0 = 0 \<or> k = m)"
  let ?Q = "\<lambda>st s. st = MEMX_OK \<and> tracks live fr ix0 (?G m) (fst s) (snd s)"
  note same = tracksD(1) [OF t]
  have sh: "index_shape ix0"
    using index_invD(2) [OF tracksD(2) [OF t]] by (simp add: same_index_view [OF same])
  have pos: "0 < per_region ix0" by (rule per_region_pos [OF sh])
  have "?G k0 = G" by (auto simp: fun_eq_iff)
  with t have t0: "tracks live fr ix0 (?G k0) ix w" by simp
  have "\<exists>st s'. region_walk (insert_body (region_bytes_of ix0) (granule_bytes_of ix0) handle)
      (region_bytes_of ix0) e base (ix, w) = Some (st, s') \<and> ?Q st s'"
  proof (rule region_walk_rule [OF sh e m, where I = ?I and ?k0.0 = k0, OF _ _ b _ km])
    fix k c s
    assume h: "k0 \<le> k" "k < m" "at ix0 c k" "?I k s"
    obtain ix1 w1 where s: "s = (ix1, w1)" by (cases s)
    have t1: "tracks live fr ix0 (?G k) ix1 w1" using h(4) s by simp
    have st: "k = k0 \<or> k mod per_region ix0 = 0" using h(2,4) by auto
    have fr: "?G k k = MEMX_HANDLE_INVALID" using inval [OF h(1,2)] by simp
    have pr: "prepared ix0 (heap w1) handle k0 m (k div per_region ix0)" using h(2,4) s by simp
    obtain ix' w' where step: "insert_body (region_bytes_of ix0) (granule_bytes_of ix0) handle c
        (region_end_of ix0 c e) (part_end_of ix0 c e) (ix1, w1) = Some (MEMX_OK, ix', w')"
      "tracks live fr ix0 (\<lambda>g. if k \<le> g \<and> g < stop_of ix0 k m then handle else ?G k g) ix' w'"
      "only_region ix0 (heap w1) (heap w') (k div per_region ix0)"
      using insert_step [OF t1 h(3) e h(1,2) m st fr pr] by blast
    have ks: "k < stop_of ix0 k m" "stop_of ix0 k m \<le> m"
      using stop_of_bounds [OF h(2) pos] by simp_all
    have "(\<lambda>g. if k \<le> g \<and> g < stop_of ix0 k m then handle else ?G k g) = ?G (stop_of ix0 k m)"
      using h(1) ks by (auto simp: fun_eq_iff)
    then have t2: "tracks live fr ix0 (?G (stop_of ix0 k m)) ix' w'" using step(2) by simp
    have "prepared ix0 (heap w') handle k0 m (g div per_region ix0)"
      if "stop_of ix0 k m \<le> g" "g < m" for g
    proof (rule prepared_other [OF step(3)])
      show "g div per_region ix0 < regions ix0" using that m by (intro less_mult_imp_div_less) simp
      show "g div per_region ix0 \<noteq> k div per_region ix0" by (rule beyond_stop [OF h(2) pos that])
      show "prepared ix0 (heap w1) handle k0 m (g div per_region ix0)" using h(4) s that ks by simp
    qed
    then show "\<exists>st s'. insert_body (region_bytes_of ix0) (granule_bytes_of ix0) handle c
        (region_end_of ix0 c e) (part_end_of ix0 c e) s = Some (st, s')
        \<and> (if st = MEMX_OK then ?I (stop_of ix0 k m) s' else ?Q st s')"
      using step(1) t2 s stop_aligned [of ix0 k m] by auto
  qed (use t0 prep in auto)
  then show ?thesis by auto
qed

section \<open>The whole operation\<close>

text \<open>The adaptive path after a successful validation.\<close>

lemma insert_valid:
  assumes inv: "index_inv live fr ix w" and h: "handle \<noteq> MEMX_HANDLE_INVALID"
    and val: "memx_validate_range (Some ix) base sz = (MEMX_OK, e)"
    and b: "at ix base k0" and e: "at ix e m" and km: "k0 < m" and m: "m \<le> regions ix * per_region ix"
  obtains st ix' w' where "memx_insert (Some ix) base sz handle w = Some (st, Some ix', w')"
    "\<not> holds ix w k0 m MEMX_HANDLE_INVALID \<Longrightarrow> st = MEMX_ERROR_OVERLAP \<and> ix' = ix \<and> w' = w"
    "holds ix w k0 m MEMX_HANDLE_INVALID \<Longrightarrow> st \<in> {MEMX_OK, MEMX_ERROR_OUT_OF_MEMORY}"
    "tracks live fr ix (\<lambda>g. if st = MEMX_OK \<and> k0 \<le> g \<and> g < m then handle else gmap ix (heap w) g) ix' w'"
proof -
  have t: "tracks live fr ix (gmap ix (heap w)) ix w" using inv by (simp add: tracks_def)
  note pf = preflight [OF inv b e less_imp_le [OF km] m refl, where inserting = True and expected = MEMX_HANDLE_INVALID, simplified if_True]
  note nf = index_invD(10,11) [OF inv]
  show thesis
  proof (cases "holds ix w k0 m MEMX_HANDLE_INVALID")
    case False
    then have "memx_insert (Some ix) base sz handle w = Some (MEMX_ERROR_OVERLAP, Some ix, w)"
      using h val nf pf by (simp add: memx_insert_def)
    then show thesis by (rule that) (use False t in simp_all)
  next
    case True
    then have inval: "\<And>g. k0 \<le> g \<Longrightarrow> g < m \<Longrightarrow> gmap ix (heap w) g = MEMX_HANDLE_INVALID"
      by (simp add: holds_def)
    obtain st1 ix1 w1 where p: "memx_prepare_insert_regions ix base e handle w = Some (st1, ix1, w1)"
      "tracks live fr ix (gmap ix (heap w)) ix1 w1" "st1 \<in> {MEMX_OK, MEMX_ERROR_OUT_OF_MEMORY}"
      "\<And>g. st1 = MEMX_OK \<Longrightarrow> k0 \<le> g \<Longrightarrow> g < m \<Longrightarrow> prepared ix (heap w1) handle k0 m (g div per_region ix)"
      using prepare_insert [OF t b e less_imp_le [OF km] m inval, of handle] by blast
    show thesis
    proof (cases "st1 = MEMX_OK")
      case False
      then have "memx_insert (Some ix) base sz handle w = Some (st1, Some ix1, w1)"
        using h val nf pf True p(1) by (simp add: memx_insert_def)
      then show thesis by (rule that) (use True False p(2,3) in simp_all)
    next
      case ok: True
      obtain ix2 w2 where q: "region_walk (insert_body (region_bytes_of ix) (granule_bytes_of ix) handle)
          (region_bytes_of ix) e base (ix1, w1) = Some (MEMX_OK, ix2, w2)"
        "tracks live fr ix (\<lambda>g. if k0 \<le> g \<and> g < m then handle else gmap ix (heap w) g) ix2 w2"
        using insert_pass [OF p(2) b e less_imp_le [OF km] m inval p(4) [OF ok]] by blast
      have "memx_insert (Some ix) base sz handle w = Some (MEMX_OK, Some ix2, w2)"
        using h val nf pf True p(1) ok q(1) by (simp add: memx_insert_def del: push_bit_of_1)
      then show thesis by (rule that) (use True q(2) in simp_all)
    qed
  qed
qed

end
