(* ===== verification/Memx_Remove.thy ===== *)
theory Memx_Remove
  imports Memx_Insert
begin

text \<open>
  Correctness of \<^verbatim>\<open>memx_remove\<close> in adaptive mode, along the lines of \<open>Memx_Insert\<close>: the first
  loop only turns partially removed uniform regions into dense ones, which no lookup can see;
  the second clears the range, shrinks dense regions and prunes sparse leaves.
\<close>

section \<open>Preparation\<close>

definition removable ::
  "'c memx_index \<Rightarrow> (u64 \<rightharpoonup> memx_object) \<Rightarrow> nat \<Rightarrow> nat \<Rightarrow> nat \<Rightarrow> bool" where
  "removable ix h k0 m i \<longleftrightarrow>
     (is_uniform (rdesc ix h i) \<longrightarrow> k0 \<le> i * per_region ix \<and> (i + 1) * per_region ix \<le> m)"

lemma uniform_not_top:
  assumes inv: "index_inv live fr ix w" and i: "i < regions ix"
    and u: "is_uniform (rdesc ix (heap w) i)"
  shows "\<not> top_region ix i"
  using index_invD(5) [OF inv] i u by (auto simp: top_ok_def memx_uniform_decode_valid)

lemma mapped_slot:
  assumes "k < regions ix * per_region ix" "gmap ix h k \<noteq> MEMX_HANDLE_INVALID"
  obtains s where "rslot ix h (k div per_region ix) = Some s"
    and "rdesc ix h (k div per_region ix) \<noteq> 0"
proof -
  have "rdesc ix h (k div per_region ix) \<noteq> 0" using assms(2) by (auto simp: gmap_def)
  moreover have "rslot ix h (k div per_region ix) \<noteq> None" using calculation rdesc_0 by metis
  ultimately show thesis using that by blast
qed

lemma prepare_remove_eval:
  assumes "region_of ix c = (a, b)" "memx_get_region_mut ix a False w = Some (Some s, ix, w)"
    "read_region w s = Some d"
  shows "prepare_remove_body rs c re pe (ix, w) =
    (if is_uniform d \<and> \<not> (c AND (rs - 1) = 0 \<and> pe = re)
     then do {
       (dense, w) \<leftarrow> memx_dense_create ix (memx_uniform_decode d) w;
       if dense = 0 then Some (MEMX_ERROR_OUT_OF_MEMORY, ix, w)
       else do {
         w \<leftarrow> write_region s (memx_dense_encode dense) w;
         Some (MEMX_OK, ix\<lparr>uniform_regions := uniform_regions ix - 1,
                           dense_regions := dense_regions ix + 1\<rparr>, w)
       }
     }
     else Some (MEMX_OK, ix, w))"
  unfolding prepare_remove_body_def Let_def using assms by simp

lemma prepare_remove_step:
  assumes t: "tracks live fr ix0 G ix w" and c: "at ix0 c k" and e: "at ix0 e m"
    and k: "k0 \<le> k" "k < m" and m: "m \<le> regions ix0 * per_region ix0"
    and mapped: "G k \<noteq> MEMX_HANDLE_INVALID"
  shows "\<exists>st ix' w'. prepare_remove_body (region_bytes_of ix0) c (region_end_of ix0 c e)
        (part_end_of ix0 c e) (ix, w) = Some (st, ix', w')
    \<and> tracks live fr ix0 G ix' w' \<and> st \<in> {MEMX_OK, MEMX_ERROR_OUT_OF_MEMORY}
    \<and> (st = MEMX_OK \<longrightarrow> removable ix0 (heap w') k0 m (k div per_region ix0)
        \<and> (\<forall>i < regions ix0. removable ix0 (heap w) k0 m i \<longrightarrow> removable ix0 (heap w') k0 m i))"
proof -
  let ?i = "k div per_region ix0" let ?d = "rdesc ix0 (heap w) (k div per_region ix0)"
  have kN: "k < regions ix0 * per_region ix0" using k m by simp
  note same = tracksD(1) [OF t] and inv = tracksD(2) [OF t]
  note v = tracks_view [OF t c kN]
  note sv = same_index_fields [OF same] same_index_view [OF same]
  have gk: "gmap ix0 (heap w) k \<noteq> MEMX_HANDLE_INVALID" using tracksD(3) [OF t kN] mapped by simp
  obtain s where s: "rslot ix0 (heap w) ?i = Some s" by (rule mapped_slot [OF kN gk])
  have i': "?i < regions ix" and s': "rslot ix (heap w) ?i = Some s" using v s by (simp_all add: sv)
  have gr: "memx_get_region_mut ix (of_nat ?i) False w = Some (Some s, ix, w)"
    using get_region_at [OF t c kN] s by simp
  have "read_region w s = Some (rdesc ix (heap w) ?i)" by (rule slot_access [OF inv i' s'])
  then have rd: "read_region w s = Some ?d" by (simp add: sv)
  note ev = prepare_remove_eval [OF v(4) gr rd, of "region_bytes_of ix0" "region_end_of ix0 c e"
      "part_end_of ix0 c e"]
  show ?thesis
  proof (cases "is_uniform ?d \<and> \<not> (c AND (region_bytes_of ix0 - 1) = 0
      \<and> part_end_of ix0 c e = region_end_of ix0 c e)")
    case False
    have "removable ix0 (heap w) k0 m ?i"
      unfolding removable_def
    proof
      assume u: "is_uniform ?d"
      then have off: "k mod per_region ix0 = 0"
        and pe: "part_end_of ix0 c e = region_end_of ix0 c e"
        using False cursor_offset_zero [OF v(1) c] by auto
      have "\<not> top_region ix0 ?i" using uniform_not_top [OF inv i'] u by (simp add: sv)
      then have "(?i + 1) * per_region ix0 \<le> m"
        using part_end_eq_region_end [OF v(1) c e k(2) m] pe by blast
      moreover have "?i * per_region ix0 = k" using off by (metis add.right_neutral div_mult_mod_eq)
      ultimately show "k0 \<le> ?i * per_region ix0 \<and> (?i + 1) * per_region ix0 \<le> m" using k(1) by simp
    qed
    then show ?thesis
      unfolding ev if_not_P [OF False] using t
      by (intro exI [of _ MEMX_OK] exI [of _ ix] exI [of _ w]) simp
  next
    case True
    then have u: "is_uniform (rdesc ix (heap w) ?i)" by (simp add: sv)
    show ?thesis
      using inv
    proof (cases rule: memx_dense_create_cases [where v = "memx_uniform_decode ?d"])
      case (null w2)
      have "tracks live fr ix0 G ix w2"
        by (rule tracks_heap [OF t index_inv_cong [OF inv null(2,3)] null(2)])
      then show ?thesis
        unfolding ev if_P [OF True]
        by (intro exI [of _ MEMX_ERROR_OUT_OF_MEMORY] exI [of _ ix] exI [of _ w2]) (simp add: null(1))
    next
      case (block q w2)
      have v0: "memx_uniform_decode ?d = dvalue (heap w) (rdesc ix (heap w) ?i) 0"
        using True by (simp add: sv)
      have nd: "\<not> is_dense (rdesc ix (heap w) ?i)" using u by simp
      have b: "uniform_regions ix - 1 = (if is_uniform (rdesc ix (heap w) ?i)
          then uniform_regions ix - 1 else uniform_regions ix)" using u by simp
      have f: "heap w2 = (heap w)(q \<mapsto> HandleTable (replicate (per_region ix) (memx_uniform_decode ?d)))"
        using block(5) .
      obtain w3 where ins: "write_region s (memx_dense_encode q) w2 = Some w3"
        "step_to live fr (ix, w) (ix\<lparr>dense_regions := dense_regions ix + 1,
             uniform_regions := uniform_regions ix - 1\<rparr>, w3) (\<lambda>k x. x)"
        "rdesc ix (heap w3) ?i = memx_dense_encode q" "only_region ix (heap w) (heap w3) ?i"
        by (rule install_dense [OF inv i' s' nd block(4,3) f block(6) v0 b])
      let ?ix = "ix\<lparr>uniform_regions := uniform_regions ix - 1, dense_regions := dense_regions ix + 1\<rparr>"
      have swap: "?ix = ix\<lparr>dense_regions := dense_regions ix + 1,
          uniform_regions := uniform_regions ix - 1\<rparr>" by simp
      have run: "prepare_remove_body (region_bytes_of ix0) c (region_end_of ix0 c e)
          (part_end_of ix0 c e) (ix, w) = Some (MEMX_OK, ?ix, w3)"
        unfolding ev if_P [OF True] using block(1,2) ins(1) by simp
      have "tracks live fr ix0 G ?ix w3"
        unfolding swap by (rule tracks_step [OF t ins(2) refl])
      moreover have ri: "removable ix0 (heap w3) k0 m ?i"
        using ins(3) block(3) by (simp add: removable_def sv)
      moreover have "removable ix0 (heap w3) k0 m j"
        if "j < regions ix0" "removable ix0 (heap w) k0 m j" for j
        using that ins(4) ri by (cases "j = ?i") (simp_all add: removable_def only_region_def sv)
      ultimately show ?thesis
        using run by (intro exI [of _ MEMX_OK] exI [of _ ?ix] exI [of _ w3]) simp
    qed
  qed
qed

lemma prepare_remove:
  assumes t: "tracks live fr ix0 G ix w" and b: "at ix0 base k0" and e: "at ix0 e m"
    and km: "k0 \<le> m" and m: "m \<le> regions ix0 * per_region ix0"
    and mapped: "\<And>g. k0 \<le> g \<Longrightarrow> g < m \<Longrightarrow> G g \<noteq> MEMX_HANDLE_INVALID"
  shows "\<exists>st ix' w'. region_walk (prepare_remove_body (region_bytes_of ix0)) (region_bytes_of ix0)
        e base (ix, w) = Some (st, ix', w')
    \<and> tracks live fr ix0 G ix' w' \<and> st \<in> {MEMX_OK, MEMX_ERROR_OUT_OF_MEMORY}
    \<and> (st = MEMX_OK \<longrightarrow> (\<forall>g. k0 \<le> g \<and> g < m \<longrightarrow>
          removable ix0 (heap w') k0 m (g div per_region ix0)))"
proof -
  let ?P = "\<lambda>k w. \<forall>g. k0 \<le> g \<and> g < k \<longrightarrow> removable ix0 (heap w) k0 m (g div per_region ix0)"
  let ?I = "\<lambda>k s. tracks live fr ix0 G (fst s) (snd s) \<and> ?P k (snd s)"
  let ?Q = "\<lambda>st s. tracks live fr ix0 G (fst s) (snd s) \<and> st \<in> {MEMX_OK, MEMX_ERROR_OUT_OF_MEMORY}
    \<and> (st = MEMX_OK \<longrightarrow> ?P m (snd s))"
  note same = tracksD(1) [OF t]
  have sh: "index_shape ix0"
    using index_invD(2) [OF tracksD(2) [OF t]] by (simp add: same_index_view [OF same])
  have pos: "0 < per_region ix0" by (rule per_region_pos [OF sh])
  have "\<exists>st s'. region_walk (prepare_remove_body (region_bytes_of ix0)) (region_bytes_of ix0)
      e base (ix, w) = Some (st, s') \<and> ?Q st s'"
  proof (rule region_walk_rule [OF sh e m, where I = ?I and ?k0.0 = k0, OF _ _ b _ km])
    fix k c s
    assume h: "k0 \<le> k" "k < m" "at ix0 c k" "?I k s"
    obtain ix1 w1 where s: "s = (ix1, w1)" by (cases s)
    have t1: "tracks live fr ix0 G ix1 w1" using h(4) s by simp
    obtain st ix' w' where step: "prepare_remove_body (region_bytes_of ix0) c
        (region_end_of ix0 c e) (part_end_of ix0 c e) (ix1, w1) = Some (st, ix', w')"
      "tracks live fr ix0 G ix' w'" "st \<in> {MEMX_OK, MEMX_ERROR_OUT_OF_MEMORY}"
      "st = MEMX_OK \<Longrightarrow> removable ix0 (heap w') k0 m (k div per_region ix0)"
      "\<And>i. st = MEMX_OK \<Longrightarrow> i < regions ix0 \<Longrightarrow> removable ix0 (heap w1) k0 m i \<Longrightarrow>
         removable ix0 (heap w') k0 m i"
      using prepare_remove_step [OF t1 h(3) e h(1,2) m mapped [OF h(1,2)]] by blast
    have "removable ix0 (heap w') k0 m (g div per_region ix0)"
      if "st = MEMX_OK" "k0 \<le> g" "g < stop_of ix0 k m" for g
    proof (cases "g < k")
      case True
      have "g div per_region ix0 < regions ix0"
        using True h(2) m by (intro less_mult_imp_div_less) simp
      then show ?thesis using True that(1,2) h(4) s by (intro step(5)) auto
    next
      case False
      then show ?thesis
        using part_region [OF h(2) pos, of g] that step(4) by simp
    qed
    then show "\<exists>st s'. prepare_remove_body (region_bytes_of ix0) c
        (region_end_of ix0 c e) (part_end_of ix0 c e) s = Some (st, s')
        \<and> (if st = MEMX_OK then ?I (stop_of ix0 k m) s' else ?Q st s')"
      using step(1-3) s by auto
  qed (use t in auto)
  then show ?thesis by auto
qed

section \<open>The clearing pass\<close>

text \<open>The tail of one round: pruning, when the range leaves the leaf.\<close>

definition prune_tail ::
  "u64 \<Rightarrow> u64 \<Rightarrow> u64 \<Rightarrow> 'c memx_index \<Rightarrow> 'c memx_world
     \<Rightarrow> (memx_status \<times> 'c memx_index \<times> 'c memx_world) option" where
  "prune_tail end' part_end a ix w =
     (if directory_mode (config ix) = MEMX_DIRECTORY_SPARSE
         \<and> (part_end = end' \<or> (case memx_address_to_region ix part_end of
               None \<Rightarrow> False
             | Some (n, _) \<Rightarrow> drop_bit (unat (sparse_leaf_bits ix)) n
                               \<noteq> drop_bit (unat (sparse_leaf_bits ix)) a))
      then do { (ix, w) \<leftarrow> memx_sparse_prune_leaf ix a w; Some (MEMX_OK, ix, w) }
      else Some (MEMX_OK, ix, w))"

lemma remove_eval_uniform:
  assumes "region_of ix c = (a, b)" "memx_get_region_mut ix a False w = Some (Some s, ix, w)"
    "read_region w s = Some d" "is_uniform d" "c AND (rs - 1) = 0" "pe = re"
    "write_region s 0 w = Some w1"
  shows "remove_body rs gs end' c re pe (ix, w) =
    prune_tail end' pe a (ix\<lparr>uniform_regions := uniform_regions ix - 1\<rparr>) w1"
  unfolding remove_body_def prune_tail_def Let_def using assms by simp

lemma remove_eval_dense:
  assumes "region_of ix c = (a, b)" "memx_get_region_mut ix a False w = Some (Some s, ix, w)"
    "read_region w s = Some d" "is_dense d" "n = unat ((pe - c) div gs)"
    "fill_handles (memx_dense_decode d) (unat b) n MEMX_HANDLE_INVALID w = Some w1"
    "memx_region_reclassify ix s w1 = Some (ix2, w2)"
  shows "remove_body rs gs end' c re pe (ix, w) = prune_tail end' pe a ix2 w2"
  unfolding remove_body_def prune_tail_def Let_def using assms by simp

lemma prune_tail_ok:
  assumes t: "tracks live fr ix0 G ix w" and a: "unat a < regions ix0"
  obtains ix' w' where "prune_tail end' pe a ix w = Some (MEMX_OK, ix', w')"
    "tracks live fr ix0 G ix' w'"
    "\<forall>j < regions ix0. rdesc ix0 (heap w') j = rdesc ix0 (heap w) j"
proof -
  note same = tracksD(1) [OF t] and inv = tracksD(2) [OF t]
  note sv = same_index_fields [OF same] same_index_view [OF same]
  have a': "unat a < regions ix" using a by (simp add: sv)
  obtain ix' w' where p: "memx_sparse_prune_leaf ix a w = Some (ix', w')"
    "step_to live fr (ix, w) (ix', w') (\<lambda>k x. x)"
    "\<And>k. k < regions ix \<Longrightarrow> rdesc ix (heap w') k = rdesc ix (heap w) k"
    using prune_leaf [OF inv a'] by metis
  have t': "tracks live fr ix0 G ix' w'" by (rule tracks_step [OF t p(2) refl])
  have "prune_tail end' pe a ix w \<in> {Some (MEMX_OK, ix', w'), Some (MEMX_OK, ix, w)}"
    unfolding prune_tail_def p(1) by simp
  then consider "prune_tail end' pe a ix w = Some (MEMX_OK, ix', w')"
    | "prune_tail end' pe a ix w = Some (MEMX_OK, ix, w)" by blast
  then show thesis
  proof cases
    case 1
    then show thesis by (rule that) (use t' p(3) in \<open>simp_all add: sv\<close>)
  next
    case 2
    then show thesis by (rule that) (use t in simp_all)
  qed
qed

lemma remove_step:
  assumes t: "tracks live fr ix0 G ix w" and c: "at ix0 c k" and e: "at ix0 e m"
    and k: "k0 \<le> k" "k < m" and m: "m \<le> regions ix0 * per_region ix0"
    and start: "k = k0 \<or> k mod per_region ix0 = 0"
    and mapped: "G k \<noteq> MEMX_HANDLE_INVALID"
    and prep: "removable ix0 (heap w) k0 m (k div per_region ix0)"
  shows "\<exists>ix' w'. remove_body (region_bytes_of ix0) (granule_bytes_of ix0) e c
        (region_end_of ix0 c e) (part_end_of ix0 c e) (ix, w) = Some (MEMX_OK, ix', w')
    \<and> tracks live fr ix0
        (\<lambda>g. if k \<le> g \<and> g < stop_of ix0 k m then MEMX_HANDLE_INVALID else G g) ix' w'
    \<and> (\<forall>j < regions ix0. j \<noteq> k div per_region ix0 \<longrightarrow>
          rdesc ix0 (heap w') j = rdesc ix0 (heap w) j)"
proof -
  let ?i = "k div per_region ix0" let ?d = "rdesc ix0 (heap w) (k div per_region ix0)"
  let ?G = "\<lambda>g. if k \<le> g \<and> g < stop_of ix0 k m then MEMX_HANDLE_INVALID else G g"
  have kN: "k < regions ix0 * per_region ix0" using k m by simp
  note same = tracksD(1) [OF t] and inv = tracksD(2) [OF t]
  note v = tracks_view [OF t c kN]
  note sv = same_index_fields [OF same] same_index_view [OF same]
  have gk: "gmap ix0 (heap w) k \<noteq> MEMX_HANDLE_INVALID" using tracksD(3) [OF t kN] mapped by simp
  obtain s where s: "rslot ix0 (heap w) ?i = Some s" and d0: "?d \<noteq> 0"
    by (rule mapped_slot [OF kN gk])
  have i': "?i < regions ix" and s': "rslot ix (heap w) ?i = Some s" using v s by (simp_all add: sv)
  have a: "unat (of_nat ?i :: u64) < regions ix0" using v by simp
  have gr: "memx_get_region_mut ix (of_nat ?i) False w = Some (Some s, ix, w)"
    using get_region_at [OF t c kN] s by simp
  have "read_region w s = Some (rdesc ix (heap w) ?i)" by (rule slot_access [OF inv i' s'])
  then have rd: "read_region w s = Some ?d" by (simp add: sv)
  have finish: ?thesis
    if run: "remove_body (region_bytes_of ix0) (granule_bytes_of ix0) e c (region_end_of ix0 c e)
        (part_end_of ix0 c e) (ix, w) = prune_tail e (part_end_of ix0 c e) (of_nat ?i) ix2 w2"
      and t2: "tracks live fr ix0 ?G ix2 w2" and o2: "only_region ix0 (heap w) (heap w2) ?i"
    for ix2 w2
  proof -
    obtain ix' w' where p: "prune_tail e (part_end_of ix0 c e) (of_nat ?i) ix2 w2 = Some (MEMX_OK, ix', w')"
      "tracks live fr ix0 ?G ix' w'"
      "\<forall>j < regions ix0. rdesc ix0 (heap w') j = rdesc ix0 (heap w2) j"
      by (rule prune_tail_ok [OF t2 a, of e "part_end_of ix0 c e"])
    have "remove_body (region_bytes_of ix0) (granule_bytes_of ix0) e c (region_end_of ix0 c e)
        (part_end_of ix0 c e) (ix, w) = Some (MEMX_OK, ix', w')"
      unfolding run by (rule p(1))
    moreover have "\<forall>j < regions ix0. j \<noteq> ?i \<longrightarrow> rdesc ix0 (heap w') j = rdesc ix0 (heap w) j"
      unfolding only_region_def
    proof (intro allI impI)
      fix j assume j: "j < regions ix0" "j \<noteq> ?i"
      have "rdesc ix0 (heap w') j = rdesc ix0 (heap w2) j" using p(3) j(1) by blast
      also have "\<dots> = rdesc ix0 (heap w) j" using o2 j by (simp add: only_region_def)
      finally show "rdesc ix0 (heap w') j = rdesc ix0 (heap w) j" .
    qed
    ultimately show ?thesis using p(2) by (intro exI conjI)
  qed
  show ?thesis
  proof (cases "is_uniform ?d")
    case True
    then have p: "k0 \<le> ?i * per_region ix0" "(?i + 1) * per_region ix0 \<le> m"
      using prep by (simp_all add: removable_def)
    have kmod: "k mod per_region ix0 = 0"
    proof (cases "k = k0")
      case True
      then have "?i * per_region ix0 = k" using p(1) div_times_less_eq_dividend [of k "per_region ix0"] by linarith
      then show ?thesis by (metis mod_mult_self2_is_0)
    qed (use start in simp)
    then have ki: "?i * per_region ix0 = k" by (metis add.right_neutral div_mult_mod_eq)
    have stop: "stop_of ix0 k m = (?i + 1) * per_region ix0" using p(2) by (simp add: stop_of_def)
    have off: "c AND (region_bytes_of ix0 - 1) = 0" using cursor_offset_zero [OF v(1) c] kmod by simp
    have pe: "part_end_of ix0 c e = region_end_of ix0 c e"
      using part_end_eq_region_end [OF v(1) c e k(2) m] p(2) by blast
    have u: "is_uniform (rdesc ix (heap w) ?i)" using True by (simp add: sv)
    obtain w1 where cl: "write_region s 0 w = Some w1"
      "step_to live fr (ix, w) (ix\<lparr>uniform_regions := uniform_regions ix - 1\<rparr>, w1)
         (\<lambda>g x. if g div per_region ix = ?i then MEMX_HANDLE_INVALID else x)"
      "only_region ix (heap w) (heap w1) ?i"
      by (rule clear_uniform [OF inv i' s' u])
    show ?thesis
    proof (rule finish [OF remove_eval_uniform [OF v(4) gr rd True off pe cl(1)]])
      show "tracks live fr ix0 ?G (ix\<lparr>uniform_regions := uniform_regions ix - 1\<rparr>) w1"
        by (rule tracks_step [OF t cl(2)]) (simp only: sv stop region_granule [OF v(2)] ki)
    qed (use cl(3) in \<open>simp add: only_region_def sv\<close>)
  next
    case False
    have "is_dense (rdesc ix (heap w) ?i)"
      by (rule rdesc_cases [OF inv i']) (use False d0 in \<open>simp_all add: sv\<close>)
    then have d: "is_dense ?d" by (simp add: sv)
    obtain w1 ix2 w2 where f: "fill_handles (memx_dense_decode ?d) (k mod per_region ix0)
         (stop_of ix0 k m - k) MEMX_HANDLE_INVALID w = Some w1"
      "memx_region_reclassify ix s w1 = Some (ix2, w2)"
      "tracks live fr ix0 ?G ix2 w2" "only_region ix0 (heap w) (heap w2) ?i"
      by (rule fill_part [OF t e k(2) kN refl s d])
    have ks: "k \<le> stop_of ix0 k m" using stop_of_bounds [OF k(2) v(2)] by simp
    have n: "stop_of ix0 k m - k = unat ((part_end_of ix0 c e - c) div granule_bytes_of ix0)"
      using part_count [OF v(1) c part_end_at [OF v(1) c e k(2)] ks] by simp
    have fi: "fill_handles (memx_dense_decode ?d) (unat (of_nat (k mod per_region ix0) :: u64))
        (stop_of ix0 k m - k) MEMX_HANDLE_INVALID w = Some w1" using f(1) v(6) by simp
    show ?thesis by (rule finish [OF remove_eval_dense [OF v(4) gr rd d n fi f(2)] f(3,4)])
  qed
qed

lemma remove_pass:
  assumes t: "tracks live fr ix0 G ix w" and b: "at ix0 base k0" and e: "at ix0 e m"
    and km: "k0 \<le> m" and m: "m \<le> regions ix0 * per_region ix0"
    and mapped: "\<And>g. k0 \<le> g \<Longrightarrow> g < m \<Longrightarrow> G g \<noteq> MEMX_HANDLE_INVALID"
    and prep: "\<And>g. k0 \<le> g \<Longrightarrow> g < m \<Longrightarrow> removable ix0 (heap w) k0 m (g div per_region ix0)"
  shows "\<exists>ix' w'. region_walk (remove_body (region_bytes_of ix0) (granule_bytes_of ix0) e)
        (region_bytes_of ix0) e base (ix, w) = Some (MEMX_OK, ix', w')
    \<and> tracks live fr ix0 (\<lambda>g. if k0 \<le> g \<and> g < m then MEMX_HANDLE_INVALID else G g) ix' w'"
proof -
  let ?G = "\<lambda>k g. if k0 \<le> g \<and> g < k then MEMX_HANDLE_INVALID else G g"
  let ?I = "\<lambda>k s. tracks live fr ix0 (?G k) (fst s) (snd s)
    \<and> (\<forall>g. k \<le> g \<and> g < m \<longrightarrow> removable ix0 (heap (snd s)) k0 m (g div per_region ix0))
    \<and> (k = k0 \<or> k mod per_region ix0 = 0 \<or> k = m)"
  let ?Q = "\<lambda>st s. st = MEMX_OK \<and> tracks live fr ix0 (?G m) (fst s) (snd s)"
  note same = tracksD(1) [OF t]
  have sh: "index_shape ix0"
    using index_invD(2) [OF tracksD(2) [OF t]] by (simp add: same_index_view [OF same])
  have pos: "0 < per_region ix0" by (rule per_region_pos [OF sh])
  have "?G k0 = G" by (auto simp: fun_eq_iff)
  with t have t0: "tracks live fr ix0 (?G k0) ix w" by simp
  have "\<exists>st s'. region_walk (remove_body (region_bytes_of ix0) (granule_bytes_of ix0) e)
      (region_bytes_of ix0) e base (ix, w) = Some (st, s') \<and> ?Q st s'"
  proof (rule region_walk_rule [OF sh e m, where I = ?I and ?k0.0 = k0, OF _ _ b _ km])
    fix k c s
    assume h: "k0 \<le> k" "k < m" "at ix0 c k" "?I k s"
    obtain ix1 w1 where s: "s = (ix1, w1)" by (cases s)
    have t1: "tracks live fr ix0 (?G k) ix1 w1" using h(4) s by simp
    have st: "k = k0 \<or> k mod per_region ix0 = 0" using h(2,4) by auto
    have mp: "?G k k \<noteq> MEMX_HANDLE_INVALID" using mapped [OF h(1,2)] by simp
    have pr: "removable ix0 (heap w1) k0 m (k div per_region ix0)" using h(2,4) s by simp
    obtain ix' w' where step: "remove_body (region_bytes_of ix0) (granule_bytes_of ix0) e c
        (region_end_of ix0 c e) (part_end_of ix0 c e) (ix1, w1) = Some (MEMX_OK, ix', w')"
      "tracks live fr ix0 (\<lambda>g. if k \<le> g \<and> g < stop_of ix0 k m then MEMX_HANDLE_INVALID else ?G k g) ix' w'"
      "\<And>j. j < regions ix0 \<Longrightarrow> j \<noteq> k div per_region ix0 \<Longrightarrow>
         rdesc ix0 (heap w') j = rdesc ix0 (heap w1) j"
      using remove_step [OF t1 h(3) e h(1,2) m st mp pr] by blast
    have ks: "k < stop_of ix0 k m" "stop_of ix0 k m \<le> m"
      using stop_of_bounds [OF h(2) pos] by simp_all
    have "(\<lambda>g. if k \<le> g \<and> g < stop_of ix0 k m then MEMX_HANDLE_INVALID else ?G k g)
        = ?G (stop_of ix0 k m)"
      using h(1) ks by (auto simp: fun_eq_iff)
    then have t2: "tracks live fr ix0 (?G (stop_of ix0 k m)) ix' w'" using step(2) by simp
    have "removable ix0 (heap w') k0 m (g div per_region ix0)"
      if "stop_of ix0 k m \<le> g" "g < m" for g
    proof -
      have "g div per_region ix0 < regions ix0" using that m by (intro less_mult_imp_div_less) simp
      moreover have "g div per_region ix0 \<noteq> k div per_region ix0" by (rule beyond_stop [OF h(2) pos that])
      moreover have "removable ix0 (heap w1) k0 m (g div per_region ix0)" using h(4) s that ks by simp
      ultimately show ?thesis using step(3) by (simp add: removable_def)
    qed
    then show "\<exists>st s'. remove_body (region_bytes_of ix0) (granule_bytes_of ix0) e c
        (region_end_of ix0 c e) (part_end_of ix0 c e) s = Some (st, s')
        \<and> (if st = MEMX_OK then ?I (stop_of ix0 k m) s' else ?Q st s')"
      using step(1) t2 s stop_aligned [of ix0 k m] by auto
  qed (use t0 prep in auto)
  then show ?thesis by auto
qed

section \<open>The whole operation\<close>

lemma remove_valid:
  assumes inv: "index_inv live fr ix w" and h: "expected \<noteq> MEMX_HANDLE_INVALID"
    and val: "memx_validate_range (Some ix) base sz = (MEMX_OK, e)"
    and b: "at ix base k0" and e: "at ix e m" and km: "k0 < m" and m: "m \<le> regions ix * per_region ix"
  obtains st ix' w' where "memx_remove (Some ix) base sz expected w = Some (st, Some ix', w')"
    "\<not> holds ix w k0 m expected \<Longrightarrow> st = MEMX_ERROR_NOT_FOUND \<and> ix' = ix \<and> w' = w"
    "holds ix w k0 m expected \<Longrightarrow> st \<in> {MEMX_OK, MEMX_ERROR_OUT_OF_MEMORY}"
    "tracks live fr ix (\<lambda>g. if st = MEMX_OK \<and> k0 \<le> g \<and> g < m then MEMX_HANDLE_INVALID
       else gmap ix (heap w) g) ix' w'"
proof -
  have t: "tracks live fr ix (gmap ix (heap w)) ix w" using inv by (simp add: tracks_def)
  note pf = preflight [OF inv b e less_imp_le [OF km] m refl, where inserting = False
      and expected = expected, simplified if_False]
  note nf = index_invD(10,11) [OF inv]
  show thesis
  proof (cases "holds ix w k0 m expected")
    case False
    then have "memx_remove (Some ix) base sz expected w = Some (MEMX_ERROR_NOT_FOUND, Some ix, w)"
      using h val nf pf by (simp add: memx_remove_def)
    then show thesis by (rule that) (use False t in simp_all)
  next
    case True
    then have mapped: "\<And>g. k0 \<le> g \<Longrightarrow> g < m \<Longrightarrow> gmap ix (heap w) g \<noteq> MEMX_HANDLE_INVALID"
      using h by (simp add: holds_def)
    obtain st1 ix1 w1 where p: "region_walk (prepare_remove_body (region_bytes_of ix))
        (region_bytes_of ix) e base (ix, w) = Some (st1, ix1, w1)"
      "tracks live fr ix (gmap ix (heap w)) ix1 w1" "st1 \<in> {MEMX_OK, MEMX_ERROR_OUT_OF_MEMORY}"
      "\<And>g. st1 = MEMX_OK \<Longrightarrow> k0 \<le> g \<Longrightarrow> g < m \<Longrightarrow> removable ix (heap w1) k0 m (g div per_region ix)"
      using prepare_remove [OF t b e less_imp_le [OF km] m mapped] by blast
    show thesis
    proof (cases "st1 = MEMX_OK")
      case False
      then have "memx_remove (Some ix) base sz expected w = Some (st1, Some ix1, w1)"
        using h val nf pf True p(1) by (simp add: memx_remove_def del: push_bit_of_1)
      then show thesis by (rule that) (use True False p(2,3) in simp_all)
    next
      case ok: True
      obtain ix2 w2 where q: "region_walk (remove_body (region_bytes_of ix) (granule_bytes_of ix) e)
          (region_bytes_of ix) e base (ix1, w1) = Some (MEMX_OK, ix2, w2)"
        "tracks live fr ix (\<lambda>g. if k0 \<le> g \<and> g < m then MEMX_HANDLE_INVALID
           else gmap ix (heap w) g) ix2 w2"
        using remove_pass [OF p(2) b e less_imp_le [OF km] m mapped p(4) [OF ok]] by blast
      have "memx_remove (Some ix) base sz expected w = Some (MEMX_OK, Some ix2, w2)"
        using h val nf pf True p(1) ok q(1) by (simp add: memx_remove_def del: push_bit_of_1)
      then show thesis by (rule that) (use True q(2) in simp_all)
    qed
  qed
qed

end
