(* ===== verification/Memx_Lifecycle.thy ===== *)
theory Memx_Lifecycle
  imports Memx_Remove
begin

text \<open>
  Creation and destruction: \<^verbatim>\<open>memx_index_create\<close> either establishes the invariant with every
  granule unmapped, or gives back every block it took; \<^verbatim>\<open>memx_index_destroy\<close> gives back every
  block an adaptive index owns, whatever has been inserted and removed before.
\<close>

section \<open>What validation establishes\<close>

lemma validate_unchanged:
  assumes "memx_validate_config lc cfg = (MEMX_OK, cfg')"
  shows "cfg' = cfg\<lparr>allocator := allocator cfg'\<rparr>"
  using assms by (cases cfg) (auto simp: memx_validate_config_def Let_def split: if_splits)

lemma validate_common:
  assumes "memx_validate_config lc cfg = (MEMX_OK, cfg')"
  shows "unat (region_shift cfg') < 64" "unat (granule_shift cfg') \<le> unat (region_shift cfg')"
  using assms by (auto simp: memx_validate_config_def Let_def memx_shift_valid_iff not_less word_le_nat_alt
      split: if_splits)

lemma validate_bounded:
  assumes "memx_validate_config lc cfg = (MEMX_OK, cfg')"
    and "directory_mode cfg' = MEMX_DIRECTORY_BOUNDED"
  shows "managed_size cfg' \<noteq> 0" "2 ^ unat (region_shift cfg') dvd unat (base_address cfg')"
    "2 ^ unat (region_shift cfg') dvd unat (managed_size cfg')"
    "unat (base_address cfg') + unat (managed_size cfg') < 2 ^ 64"
proof -
  from assms have v: "managed_size cfg' \<noteq> 0" "memx_is_aligned (base_address cfg') (region_shift cfg')"
    "managed_size cfg' AND (push_bit (unat (region_shift cfg')) 1 - 1) = 0"
    "\<not> UINTPTR_MAX - base_address cfg' < managed_size cfg'"
    by (auto simp: memx_validate_config_def Let_def split: if_splits)
  show "managed_size cfg' \<noteq> 0" by (rule v)
  show "2 ^ unat (region_shift cfg') dvd unat (base_address cfg')"
    using v(2) by (simp add: memx_is_aligned_iff)
  show "2 ^ unat (region_shift cfg') dvd unat (managed_size cfg')"
    using v(3) by (simp add: pow2_minus_1 and_mask_eq_0_iff)
  show "unat (base_address cfg') + unat (managed_size cfg') < 2 ^ 64"
    using v(4) memx_add_overflows_None [of "base_address cfg'" "managed_size cfg'"]
    by (simp add: memx_add_overflows_def)
qed

lemma validate_sparse:
  assumes "memx_validate_config lc cfg = (MEMX_OK, cfg')"
    and "directory_mode cfg' \<noteq> MEMX_DIRECTORY_BOUNDED"
  shows "directory_mode cfg' = MEMX_DIRECTORY_SPARSE" "base_address cfg' = 0"
    "address_bits cfg' \<le> 64" "region_shift cfg' < address_bits cfg'"
    "address_bits cfg' - region_shift cfg' \<le> 32"
  using assms by (auto simp: memx_validate_config_def Let_def split: if_splits)

text \<open>The widths of a sparse directory, as natural numbers.\<close>

lemma sparse_widths:
  assumes v: "memx_validate_config lc cfg = (MEMX_OK, cfg')"
    and s: "directory_mode cfg' \<noteq> MEMX_DIRECTORY_BOUNDED"
    and rb: "rb = address_bits cfg' - region_shift cfg'"
  shows "unat rb + unat (region_shift cfg') = unat (address_bits cfg')" "0 < unat rb"
    "unat rb \<le> 32" "unat (rb div 2) = unat rb div 2"
    "unat (rb - rb div 2) = unat rb - unat rb div 2"
proof -
  note vs = validate_sparse [OF v s]
  have r: "unat rb = unat (address_bits cfg') - unat (region_shift cfg')"
    unfolding rb using vs(4) by (intro unat_sub) simp
  with vs(4) show "unat rb + unat (region_shift cfg') = unat (address_bits cfg')" "0 < unat rb"
    by (auto simp: word_less_nat_alt)
  show "unat rb \<le> 32" using vs(5) by (simp add: rb word_le_nat_alt)
  show h: "unat (rb div 2) = unat rb div 2" by (simp add: unat_div)
  then have "rb div 2 \<le> rb" by (simp add: word_le_nat_alt)
  then show "unat (rb - rb div 2) = unat rb - unat rb div 2" by (simp add: unat_sub h)
qed

section \<open>A fresh index\<close>

definition empty_directory :: "'c memx_index \<Rightarrow> memx_object" where
  "empty_directory ix =
     (if bounded ix then RegionTable (replicate (regions ix) 0)
      else LeafRoots (replicate (unat (sparse_root_count ix)) 0))"

lemma fresh_inv:
  assumes shape: "index_shape ix"
    and h: "heap w' = fr(self ix \<mapsto> IndexBlock, directory ix \<mapsto> empty_directory ix)"
    and new: "fr (self ix) = None" "fr (directory ix) = None" "self ix \<noteq> directory ix"
    and zero: "dense_regions ix = 0" "uniform_regions ix = 0" "allocated_sparse_leaves ix = 0"
      "\<not> flat_mode ix" "\<not> overlay_mode ix"
    and ok: "world_ok (index_allocator ix) live w'"
  shows "index_inv live fr ix w'" and "gmap ix (heap w') k = MEMX_HANDLE_INVALID \<or> \<not> k < regions ix * per_region ix"
proof -
  have leaf: "leaf_at ix (heap w') r = 0" if "\<not> bounded ix" for r
    using that by (simp add: leaf_at_def h empty_directory_def)
  have d0: "rdesc ix (heap w') i = 0" if "i < regions ix" for i
    using that leaf by (cases "bounded ix") (simp_all add: rdesc_def rslot_def h empty_directory_def)
  have "dir_ok ix (heap w')"
    using leaf zero by (cases "bounded ix") (simp_all add: dir_ok_def h empty_directory_def)
  moreover have "count_regions ix (heap w') t = 0" if "t \<noteq> MEMX_REGION_EMPTY" for t
  proof -
    have "{i. i < regions ix \<and> memx_region_type_decode (rdesc ix (heap w') i) = t} = {}"
      using that d0 by auto
    then show ?thesis by (simp add: count_regions_def)
  qed
  moreover have "owned ix (heap w') = {self ix, directory ix}"
    using leaf d0 by (auto simp: owned_def leaf_blocks_def dense_blocks_def)
  ultimately show "index_inv live fr ix w'"
    using shape zero ok new d0
    by (auto simp: index_inv_def regions_ok_def desc_ok_def top_ok_def frame_ok_def h)
  show "gmap ix (heap w') k = MEMX_HANDLE_INVALID \<or> \<not> k < regions ix * per_region ix"
    by (auto simp: gmap_def d0 less_mult_imp_div_less)
qed

section \<open>Creation\<close>

text \<open>The two directory branches, from a blank index with its own block in place.\<close>

lemma SIZE_MAX_div_8: "\<not> SIZE_MAX div 8 < (x :: u64) \<Longrightarrow> 8 * unat x < 2 ^ 64 - 7"
  by (simp add: not_less word_le_nat_alt unat_div) 

lemma words_8: "8 * unat x < 2 ^ 64 \<Longrightarrow> unat (x * 8 :: u64) = 8 * unat x"
  by (subst unat_mult_exact) simp_all

text \<open>Allocate the directory, or give the index block back.\<close>

lemma directory_alloc:
  assumes ok: "world_ok A live w" and self: "heap w p = Some IndexBlock"
    and bytes: "object_bytes D \<le> unat n"
  obtains (null) w1 w2 where "memx_allocate A n w = Some (0, w1)"
      "memx_deallocate A p w1 = Some w2" "heap w2 = (heap w)(p := None)" "world_ok A live w2"
    | (block) q w1 where "memx_allocate A n w = Some (q, w1)" "q \<noteq> 0" "heap w q = None"
      "init_object q D w1 = Some (w1\<lparr>heap := (heap w)(q \<mapsto> D)\<rparr>)"
      "world_ok A live (w1\<lparr>heap := (heap w)(q \<mapsto> D)\<rparr>)"
  using ok
proof (cases rule: memx_allocate_cases [where n = n])
  case (null w1)
  have "heap w1 p \<noteq> None" using null self by simp
  then obtain w2 where "memx_deallocate A p w1 = Some w2" "heap w2 = (heap w1)(p := None)"
    "world_ok A live w2" using null(3) by (metis memx_deallocate_ok)
  with null that(1) show ?thesis by simp
next
  case (block q w1)
  have "init_object q D w1 = Some (w1\<lparr>heap := (heap w1)(q \<mapsto> D)\<rparr>)"
    using block bytes by (intro init_object_ok) simp_all
  moreover have "world_ok A live (w1\<lparr>heap := (heap w1)(q \<mapsto> D)\<rparr>)"
    using block by (intro world_ok_heap_upd) simp_all
  ultimately show ?thesis using block that(2) by simp
qed

lemma create_bounded_ok:
  assumes ok: "world_ok (index_allocator ix) live w" and self: "heap w (self ix) = Some IndexBlock"
    and ix1: "ix1 = ix\<lparr>region_count := drop_bit (unat (region_shift (config ix))) (managed_size (config ix))\<rparr>"
    and mode: "bounded ix"
  obtains (fail) ix' w' where "create_bounded ix w = Some (MEMX_ERROR_OUT_OF_MEMORY, ix', w')"
      "heap w' = (heap w)(self ix := None)" "world_ok (index_allocator ix) live w'"
    | (good) q w' where "create_bounded ix w = Some (MEMX_OK, ix1\<lparr>directory := q\<rparr>, w')"
      "8 * regions ix1 < 2 ^ 64" "q \<noteq> 0" "heap w q = None"
      "heap w' = (heap w)(q \<mapsto> empty_directory ix1)" "world_ok (index_allocator ix) live w'"
proof (cases "SIZE_MAX div 8 < region_count ix1")
  case True
  have "heap w (self ix) \<noteq> None" using self by simp
  then obtain w2 where d: "memx_deallocate (index_allocator ix) (self ix) w = Some w2"
    "heap w2 = (heap w)(self ix := None)" "world_ok (index_allocator ix) live w2"
    using ok by (metis memx_deallocate_ok)
  have "create_bounded ix w = Some (MEMX_ERROR_OUT_OF_MEMORY, ix1, w2)"
    using True d(1) by (simp add: create_bounded_def ix1 Let_def)
  then show thesis by (rule fail) (use d in simp_all)
next
  case False
  have lt: "8 * regions ix1 < 2 ^ 64" using SIZE_MAX_div_8 [OF False] by simp
  have D: "empty_directory ix1 = RegionTable (replicate (regions ix1) 0)"
    using mode by (simp add: empty_directory_def ix1)
  have "object_bytes (empty_directory ix1) \<le> unat (region_count ix1 * 8)"
    using lt by (simp add: D words_8)
  with ok self show thesis
  proof (cases rule: directory_alloc)
    case (null w1 w2)
    have "create_bounded ix w = Some (MEMX_ERROR_OUT_OF_MEMORY, ix1, w2)"
      using False null(1,2) by (simp add: create_bounded_def ix1 Let_def)
    then show thesis by (rule fail) (use null in simp_all)
  next
    case (block q w1)
    have "create_bounded ix w = Some (MEMX_OK, ix1\<lparr>directory := q\<rparr>, w1\<lparr>heap := (heap w)(q \<mapsto> empty_directory ix1)\<rparr>)"
      unfolding D using False block(1,2) block(4) [unfolded D]
      by (simp add: create_bounded_def ix1 memx_region_init_def Let_def)
    then show thesis by (rule that(2)) (use block lt in simp_all)
  qed
qed

lemma create_sparse_ok:
  assumes ok: "world_ok (index_allocator ix) live w" and self: "heap w (self ix) = Some IndexBlock"
    and rb: "rb = address_bits (config ix) - region_shift (config ix)"
    and ix1: "ix1 = ix\<lparr>sparse_region_bits := rb, sparse_leaf_bits := rb div 2,
                 sparse_root_count := push_bit (unat (rb - rb div 2)) 1,
                 sparse_leaf_count := push_bit (unat (rb div 2)) 1\<rparr>"
    and mode: "\<not> bounded ix"
  obtains (fail) ix' w' where "create_sparse ix w = Some (MEMX_ERROR_OUT_OF_MEMORY, ix', w')"
      "heap w' = (heap w)(self ix := None)" "world_ok (index_allocator ix) live w'"
    | (good) q w' where "create_sparse ix w =
        Some (MEMX_OK, ix1\<lparr>directory := q, region_count := push_bit (unat rb) 1\<rparr>, w')"
      "q \<noteq> 0" "heap w q = None"
      "heap w' = (heap w)(q \<mapsto> empty_directory ix1)" "world_ok (index_allocator ix) live w'"
proof (cases "SIZE_MAX div 8 < sparse_root_count ix1")
  case True
  have "heap w (self ix) \<noteq> None" using self by simp
  then obtain w2 where d: "memx_deallocate (index_allocator ix) (self ix) w = Some w2"
    "heap w2 = (heap w)(self ix := None)" "world_ok (index_allocator ix) live w2"
    using ok by (metis memx_deallocate_ok)
  have "create_sparse ix w = Some (MEMX_ERROR_OUT_OF_MEMORY, ix1, w2)"
    using True d(1) by (simp add: create_sparse_def ix1 rb Let_def)
  then show thesis by (rule fail) (use d in simp_all)
next
  case False
  have lt: "8 * unat (sparse_root_count ix1) < 2 ^ 64" using SIZE_MAX_div_8 [OF False] by simp
  have D: "empty_directory ix1 = LeafRoots (replicate (unat (sparse_root_count ix1)) 0)"
    using mode by (simp add: empty_directory_def ix1)
  have "object_bytes (empty_directory ix1) \<le> unat (sparse_root_count ix1 * 8)"
    using lt by (simp add: D words_8)
  with ok self show thesis
  proof (cases rule: directory_alloc)
    case (null w1 w2)
    have "create_sparse ix w = Some (MEMX_ERROR_OUT_OF_MEMORY, ix1, w2)"
      using False null(1,2) by (simp add: create_sparse_def ix1 rb Let_def)
    then show thesis by (rule fail) (use null in simp_all)
  next
    case (block q w1)
    have "create_sparse ix w = Some (MEMX_OK, ix1\<lparr>directory := q, region_count := push_bit (unat rb) 1\<rparr>,
        w1\<lparr>heap := (heap w)(q \<mapsto> empty_directory ix1)\<rparr>)"
      unfolding D using False block(1,2) block(4) [unfolded D]
      by (simp add: create_sparse_def ix1 rb Let_def)
    then show thesis by (rule that(2)) (use block in simp_all)
  qed
qed

text \<open>The shape of the finished record, from its fields.\<close>

lemma granule_width:
  assumes "memx_validate_config lc cfg = (MEMX_OK, cfg')"
    and g: "g = push_bit (unat (region_shift cfg' - granule_shift cfg')) (1 :: u64)"
  shows "unat g = 2 ^ (unat (region_shift cfg') - unat (granule_shift cfg'))"
proof -
  note v = validate_common [OF assms(1)]
  have "unat (region_shift cfg' - granule_shift cfg')
      = unat (region_shift cfg') - unat (granule_shift cfg')"
    using v(2) by (intro unat_sub) (simp add: word_le_nat_alt)
  then show ?thesis using v by (simp add: g unat_pow2)
qed

lemma dense_bytes_exact:
  assumes "0 < unat (g :: u64)" "8 * unat g < 2 ^ 64"
  shows "unat (8 + (g - 1) * 8) = 8 * unat g"
proof -
  have s: "unat (g - 1) = unat g - 1" using assms(1) by (rule unat_dec)
  then have m: "unat ((g - 1) * 8) = (unat g - 1) * 8"
    using assms by (subst unat_mult_exact) simp_all
  show ?thesis using assms unat_add_exact [of 8 "(g - 1) * 8"] unfolding m by simp
qed

lemma dense_bytes_branch_dead:
  assumes "\<not> SIZE_MAX div 8 < (g :: u64)" "0 < unat g"
  shows "\<not> SIZE_MAX - 8 < (g - 1) * 8"
proof -
  have s: "unat (g - 1) = unat g - 1" using assms(2) by (rule unat_dec)
  have lt: "8 * unat g < 2 ^ 64 - 7" using SIZE_MAX_div_8 [OF assms(1)] .
  then have m: "unat ((g - 1) * 8) = (unat g - 1) * 8"
    using assms s by (subst unat_mult_exact) simp_all
  have "unat (SIZE_MAX - 8) = 2 ^ 64 - 9" using unat_sub_exact [of 8 SIZE_MAX] by simp
  then show ?thesis using lt by (simp only: word_less_nat_alt m)
qed

lemma bounded_shape:
  assumes v: "memx_validate_config lc cfg = (MEMX_OK, config ix)" and b: "bounded ix"
    and g: "granules_per_region ix
      = push_bit (unat (region_shift (config ix) - granule_shift (config ix))) 1"
    and rc: "region_count ix = drop_bit (unat (region_shift (config ix))) (managed_size (config ix))"
    and db: "dense_bytes ix = 8 + (granules_per_region ix - 1) * 8"
    and lt: "8 * per_region ix < 2 ^ 64" "8 * regions ix < 2 ^ 64"
  shows "index_shape ix"
proof -
  note vc = validate_common [OF v] and vb = validate_bounded [OF v b] and w = granule_width [OF v g]
  have m: "unat (managed_size (config ix)) = regions ix * 2 ^ rshift ix"
    using vb(3) by (simp add: rc unat_drop)
  moreover have "0 < regions ix"
  proof (rule ccontr)
    assume "\<not> 0 < regions ix"
    then have "unat (managed_size (config ix)) = 0" using m by simp
    then show False using vb(1) by (simp add: unat_eq_iff)
  qed
  moreover have "unat (dense_bytes ix) = 8 * per_region ix"
    unfolding db using w lt(1) by (intro dense_bytes_exact) simp_all
  ultimately show ?thesis
    unfolding index_shape_def using b vc vb(2,4) w lt by simp
qed

lemma sparse_shape:
  assumes v: "memx_validate_config lc cfg = (MEMX_OK, config ix)" and b: "\<not> bounded ix"
    and g: "granules_per_region ix
      = push_bit (unat (region_shift (config ix) - granule_shift (config ix))) 1"
    and rb: "rb = address_bits (config ix) - region_shift (config ix)"
    and rc: "region_count ix = push_bit (unat rb) 1"
    and lb: "sparse_leaf_bits ix = rb div 2"
    and roots: "sparse_root_count ix = push_bit (unat (rb - rb div 2)) 1"
    and leaf: "sparse_leaf_count ix = push_bit (unat (rb div 2)) 1"
    and db: "dense_bytes ix = 8 + (granules_per_region ix - 1) * 8"
    and lt: "8 * per_region ix < 2 ^ 64"
  shows "index_shape ix"
proof -
  note vc = validate_common [OF v] and vs = validate_sparse [OF v b]
    and w = granule_width [OF v g] and sw = sparse_widths [OF v b rb]
  have n: "unat rb div 2 < 64" "unat rb - unat rb div 2 < 64" "unat rb < 64" using sw(3) by auto
  have c: "regions ix = 2 ^ unat rb" "leaf_size ix = 2 ^ (unat rb div 2)"
    "unat (sparse_root_count ix) = 2 ^ (unat rb - unat rb div 2)"
    unfolding rc leaf roots using n by (simp_all add: sw(4,5) unat_pow2)
  have split: "unat rb - unat rb div 2 + unat rb div 2 = unat rb" by simp
  have "regions ix = unat (sparse_root_count ix) * leaf_size ix"
    unfolding c power_add [symmetric] split ..
  moreover have "regions ix * 2 ^ rshift ix = 2 ^ unat (address_bits (config ix))"
    unfolding c power_add [symmetric] sw(1) ..
  moreover have "regions ix \<le> 2 ^ 32" unfolding c using sw(3) by (intro power_increasing) simp_all
  moreover have "unat (dense_bytes ix) = 8 * per_region ix"
    unfolding db using w lt(1) by (intro dense_bytes_exact) simp_all
  moreover have "unat (sparse_leaf_bits ix) = unat rb div 2" unfolding lb by (rule sw(4))
  moreover have "unat rb div 2 \<le> 16" using sw(3) by simp
  ultimately show ?thesis
    unfolding index_shape_def using b vc vs w lt c(2) sw(1,2) by simp
qed

lemma blank_index_fields [simp]:
  "config (blank_index cfg p) = cfg" "self (blank_index cfg p) = p"
  "dense_regions (blank_index cfg p) = 0" "uniform_regions (blank_index cfg p) = 0"
  "allocated_sparse_leaves (blank_index cfg p) = 0"
  "\<not> flat_mode (blank_index cfg p)" "\<not> overlay_mode (blank_index cfg p)"
  by (simp_all add: blank_index_def)

lemma gmap_dense_bytes [simp]: "gmap (ix\<lparr>dense_bytes := n\<rparr>) h = gmap ix h"
  by (simp add: fun_eq_iff gmap_def rdesc_def rslot_def leaf_at_def Let_def)

text \<open>After the index block is in place and its granule count is acceptable.\<close>

lemma create_body:
  assumes v: "memx_validate_config lc cfg = (MEMX_OK, cfg')"
    and ok: "world_ok (allocator cfg') live w" and h: "heap w = fr(p \<mapsto> IndexBlock)"
    and p: "fr p = None"
    and ix0: "ix0 = (blank_index cfg' p)\<lparr>granules_per_region :=
                push_bit (unat (region_shift cfg' - granule_shift cfg')) 1\<rparr>"
    and small: "\<not> SIZE_MAX div 8 < granules_per_region ix0"
    and D: "D = (if directory_mode cfg' = MEMX_DIRECTORY_BOUNDED then create_bounded ix0 w
                 else create_sparse ix0 w)"
  obtains (fail) ix' w' where "D = Some (MEMX_ERROR_OUT_OF_MEMORY, ix', w')" "heap w' = fr"
      "world_ok (allocator cfg') live w'"
    | (good) ix1 w' where "D = Some (MEMX_OK, ix1, w')"
      "granules_per_region ix1 = granules_per_region ix0"
      "config ix1 = cfg'" "self ix1 = p"
      "index_inv live fr (ix1\<lparr>dense_bytes := 8 + (granules_per_region ix1 - 1) * 8\<rparr>) w'"
      "\<And>k. k < regions ix1 * per_region ix1 \<Longrightarrow> gmap ix1 (heap w') k = MEMX_HANDLE_INVALID"
proof -
  have f: "config ix0 = cfg'" "self ix0 = p" "index_allocator ix0 = allocator cfg'"
    by (simp_all add: ix0)
  have lt: "8 * per_region ix0 < 2 ^ 64" using SIZE_MAX_div_8 [OF small] by simp
  have ok0: "world_ok (index_allocator ix0) live w" and s0: "heap w (self ix0) = Some IndexBlock"
    using ok h by (simp_all add: f)
  have restored: "(heap w)(p := None) = fr" using h p by (simp add: fun_eq_iff)
  show thesis
  proof (cases "directory_mode cfg' = MEMX_DIRECTORY_BOUNDED")
    case True
    then have b0: "bounded ix0" by (simp add: f)
    have De: "D = create_bounded ix0 w" using D True by simp
    show thesis
    proof (rule create_bounded_ok [OF ok0 s0 refl b0])
      fix ix' w'
      assume "create_bounded ix0 w = Some (MEMX_ERROR_OUT_OF_MEMORY, ix', w')"
        "heap w' = (heap w)(self ix0 := None)" "world_ok (index_allocator ix0) live w'"
      then show thesis by (intro fail) (simp_all add: De f restored)
    next
      fix q w'
      let ?ix1 = "ix0\<lparr>region_count := drop_bit (unat (region_shift (config ix0)))
          (managed_size (config ix0))\<rparr>"
      let ?ix2 = "?ix1\<lparr>directory := q\<rparr>"
      let ?ix3 = "?ix2\<lparr>dense_bytes := 8 + (granules_per_region ?ix2 - 1) * 8\<rparr>"
      assume a: "create_bounded ix0 w = Some (MEMX_OK, ?ix2, w')"
        "8 * regions ?ix1 < 2 ^ 64" "q \<noteq> 0" "heap w q = None"
        "heap w' = (heap w)(q \<mapsto> empty_directory ?ix1)" "world_ok (index_allocator ix0) live w'"
      have shape: "index_shape ?ix3"
        by (rule bounded_shape [of lc cfg]) (use v True a(2) lt in \<open>simp_all add: f ix0\<close>)
      have "empty_directory ?ix3 = empty_directory ?ix1" by (simp add: empty_directory_def)
      then have h': "heap w' = fr(self ?ix3 \<mapsto> IndexBlock, directory ?ix3 \<mapsto> empty_directory ?ix3)"
        using a(5) h f(2) by simp
      have new: "fr (self ?ix3) = None" "fr (directory ?ix3) = None" "self ?ix3 \<noteq> directory ?ix3"
        using p a(4) h by (auto simp: f split: if_splits)
      have ok3: "world_ok (index_allocator ?ix3) live w'" using a(6) by simp
      note fi = fresh_inv [OF shape h' new _ _ _ _ _ ok3]
      have z: "dense_regions ?ix3 = 0" "uniform_regions ?ix3 = 0" "allocated_sparse_leaves ?ix3 = 0"
        "\<not> flat_mode ?ix3" "\<not> overlay_mode ?ix3" by (simp_all add: ix0)
      show thesis
      proof (rule good)
        show "D = Some (MEMX_OK, ?ix2, w')" using De a(1) by simp
        show "index_inv live fr ?ix3 w'" by (rule fi(1) [OF z])
        show "gmap ?ix2 (heap w') k = MEMX_HANDLE_INVALID" if "k < regions ?ix2 * per_region ?ix2" for k
          using fi(2) [OF z, of k] that unfolding gmap_dense_bytes by simp
      qed (simp_all add: f)
    qed
  next
    case False
    then have b0: "\<not> bounded ix0" by (simp add: f)
    have De: "D = create_sparse ix0 w" using D False by simp
    let ?rb = "address_bits (config ix0) - region_shift (config ix0)"
    show thesis
    proof (rule create_sparse_ok [OF ok0 s0 refl refl b0])
      fix ix' w'
      assume "create_sparse ix0 w = Some (MEMX_ERROR_OUT_OF_MEMORY, ix', w')"
        "heap w' = (heap w)(self ix0 := None)" "world_ok (index_allocator ix0) live w'"
      then show thesis by (intro fail) (simp_all add: De f restored)
    next
      fix q w'
      let ?ix1 = "ix0\<lparr>sparse_region_bits := ?rb, sparse_leaf_bits := ?rb div 2,
                 sparse_root_count := push_bit (unat (?rb - ?rb div 2)) 1,
                 sparse_leaf_count := push_bit (unat (?rb div 2)) 1\<rparr>"
      let ?ix2 = "?ix1\<lparr>directory := q, region_count := push_bit (unat ?rb) 1\<rparr>"
      let ?ix3 = "?ix2\<lparr>dense_bytes := 8 + (granules_per_region ?ix2 - 1) * 8\<rparr>"
      assume a: "create_sparse ix0 w = Some (MEMX_OK, ?ix2, w')" "q \<noteq> 0" "heap w q = None"
        "heap w' = (heap w)(q \<mapsto> empty_directory ?ix1)" "world_ok (index_allocator ix0) live w'"
      have shape: "index_shape ?ix3"
        by (rule sparse_shape [of lc cfg, OF _ _ _ refl]) (use v False lt in \<open>simp_all add: f ix0\<close>)
      have "empty_directory ?ix3 = empty_directory ?ix1"
        using b0 by (simp add: empty_directory_def)
      then have h': "heap w' = fr(self ?ix3 \<mapsto> IndexBlock, directory ?ix3 \<mapsto> empty_directory ?ix3)"
        using a(4) h f(2) by simp
      have new: "fr (self ?ix3) = None" "fr (directory ?ix3) = None" "self ?ix3 \<noteq> directory ?ix3"
        using p a(3) h by (auto simp: f split: if_splits)
      have ok3: "world_ok (index_allocator ?ix3) live w'" using a(5) by simp
      note fi = fresh_inv [OF shape h' new _ _ _ _ _ ok3]
      have z: "dense_regions ?ix3 = 0" "uniform_regions ?ix3 = 0" "allocated_sparse_leaves ?ix3 = 0"
        "\<not> flat_mode ?ix3" "\<not> overlay_mode ?ix3" by (simp_all add: ix0)
      show thesis
      proof (rule good)
        show "D = Some (MEMX_OK, ?ix2, w')" using De a(1) by simp
        show "index_inv live fr ?ix3 w'" by (rule fi(1) [OF z])
        show "gmap ?ix2 (heap w') k = MEMX_HANDLE_INVALID" if "k < regions ?ix2 * per_region ?ix2" for k
          using fi(2) [OF z, of k] that unfolding gmap_dense_bytes by simp
      qed (simp_all add: f)
    qed
  qed
qed

lemma memx_index_create_spec:
  assumes v: "memx_validate_config lc cfg = (MEMX_OK, cfg')"
    and ok: "world_ok (allocator cfg') live w"
  obtains (fail) st w' where "memx_index_create lc (Some cfg) True w = Some (st, None, w')"
      "st \<in> {MEMX_ERROR_OUT_OF_MEMORY, MEMX_ERROR_UNSUPPORTED}" "heap w' = heap w"
      "world_ok (allocator cfg') live w'"
    | (good) ix w' where "memx_index_create lc (Some cfg) True w = Some (MEMX_OK, Some ix, w')"
      "config ix = cfg'" "index_inv live (heap w) ix w'"
      "\<And>k. k < regions ix * per_region ix \<Longrightarrow> gmap ix (heap w') k = MEMX_HANDLE_INVALID"
  using ok
proof (cases rule: call_allocate_cases [where n = sizeof_memx_index])
  case (null w1)
  have "memx_index_create lc (Some cfg) True w = Some (MEMX_ERROR_OUT_OF_MEMORY, None, w1)"
    using v null(1) by (simp add: memx_index_create_def)
  then show thesis by (rule fail) (use null in simp_all)
next
  case (block p w1)
  have h1: "heap w1 p \<noteq> None" using block(4) by simp
  show thesis
  proof (cases "p mod MEMX_INTERNAL_ALIGNMENT \<noteq> 0")
    case True
    obtain w2 where d: "memx_deallocate (allocator cfg') p w1 = Some w2" "heap w2 = (heap w1)(p := None)"
      "world_ok (allocator cfg') live w2"
      using memx_deallocate_ok [OF block(5) h1] .
    have "memx_index_create lc (Some cfg) True w = Some (MEMX_ERROR_OUT_OF_MEMORY, None, w2)"
      using v block(1,2) True d(1) by (simp add: memx_index_create_def)
    then show thesis by (rule fail) (use d block(3,4) in \<open>auto simp: fun_eq_iff\<close>)
  next
    case False
    let ?w2 = "w1\<lparr>heap := (heap w)(p \<mapsto> IndexBlock)\<rparr>"
    have i: "init_object p IndexBlock w1 = Some ?w2"
      using block(4) init_object_ok [of w1 p sizeof_memx_index IndexBlock] by simp
    have ok2: "world_ok (allocator cfg') live ?w2"
      using world_ok_heap_upd [OF block(5) h1, of IndexBlock] block(4) by simp
    let ?ix0 = "(blank_index cfg' p)\<lparr>granules_per_region :=
                push_bit (unat (region_shift cfg' - granule_shift cfg')) 1\<rparr>"
    have run: "memx_index_create lc (Some cfg) True w =
      (if SIZE_MAX div 8 < granules_per_region ?ix0
       then do { w \<leftarrow> memx_deallocate (allocator cfg') p ?w2; Some (MEMX_ERROR_UNSUPPORTED, None, w) }
       else do {
         (status, ix, w) \<leftarrow> (if directory_mode cfg' = MEMX_DIRECTORY_BOUNDED
                      then create_bounded ?ix0 ?w2 else create_sparse ?ix0 ?w2);
         if status \<noteq> MEMX_OK then Some (status, None, w)
         else if SIZE_MAX - 8 < (granules_per_region ix - 1) * 8
         then do { w \<leftarrow> memx_deallocate (allocator cfg') (directory ix) w;
                   w \<leftarrow> memx_deallocate (allocator cfg') p w;
                   Some (MEMX_ERROR_OUT_OF_MEMORY, None, w) }
         else Some (MEMX_OK, Some (ix\<lparr>dense_bytes := 8 + (granules_per_region ix - 1) * 8\<rparr>), w)
       })"
      using v block(1,2) False i by (simp add: memx_index_create_def Let_def del: push_bit_of_1)
    show thesis
    proof (cases "SIZE_MAX div 8 < granules_per_region ?ix0")
      case True
      have h2: "heap ?w2 p \<noteq> None" by simp
      obtain w3 where d: "memx_deallocate (allocator cfg') p ?w2 = Some w3"
        "heap w3 = (heap ?w2)(p := None)" "world_ok (allocator cfg') live w3"
        using memx_deallocate_ok [OF ok2 h2] .
      have "memx_index_create lc (Some cfg) True w = Some (MEMX_ERROR_UNSUPPORTED, None, w3)"
        unfolding run if_P [OF True] d(1) by simp
      then show thesis by (rule fail) (use d block(3) in \<open>auto simp: fun_eq_iff\<close>)
    next
      case small: False
      have h2: "heap ?w2 = (heap w)(p \<mapsto> IndexBlock)" by simp
      show thesis
      proof (rule create_body [OF v ok2 h2 block(3) refl small refl])
        fix ix' w'
        assume a: "(if directory_mode cfg' = MEMX_DIRECTORY_BOUNDED then create_bounded ?ix0 ?w2
            else create_sparse ?ix0 ?w2) = Some (MEMX_ERROR_OUT_OF_MEMORY, ix', w')"
          "heap w' = heap w" "world_ok (allocator cfg') live w'"
        have "memx_index_create lc (Some cfg) True w = Some (MEMX_ERROR_OUT_OF_MEMORY, None, w')"
          unfolding run if_not_P [OF small] a(1) by simp
        then show thesis by (rule fail) (use a in simp_all)
      next
        fix ix1 w'
        assume a: "(if directory_mode cfg' = MEMX_DIRECTORY_BOUNDED then create_bounded ?ix0 ?w2
            else create_sparse ?ix0 ?w2) = Some (MEMX_OK, ix1, w')"
          "granules_per_region ix1 = granules_per_region ?ix0" "config ix1 = cfg'" "self ix1 = p"
          "index_inv live (heap w) (ix1\<lparr>dense_bytes := 8 + (granules_per_region ix1 - 1) * 8\<rparr>) w'"
          "\<And>k. k < regions ix1 * per_region ix1 \<Longrightarrow> gmap ix1 (heap w') k = MEMX_HANDLE_INVALID"
        have "0 < unat (granules_per_region ?ix0)" using granule_width [OF v refl] by simp
        then have dead: "\<not> SIZE_MAX - 8 < (granules_per_region ix1 - 1) * 8"
          unfolding a(2) by (rule dense_bytes_branch_dead [OF small])
        have "memx_index_create lc (Some cfg) True w =
            Some (MEMX_OK, Some (ix1\<lparr>dense_bytes := 8 + (granules_per_region ix1 - 1) * 8\<rparr>), w')"
          unfolding run if_not_P [OF small] a(1) using dead by simp
        then show thesis
          by (rule good) (use a(3,5,6) in \<open>simp_all del: One_nat_def\<close>)
      qed
    qed
  qed
qed

section \<open>Destruction\<close>

lemma region_destroy_ok:
  assumes ok: "world_ok (index_allocator ix) live w" and p: "heap w p = Some (RegionTable ds)"
    and i: "i < length ds"
    and d: "is_dense (ds ! i) \<Longrightarrow> \<exists>hs. heap w (memx_dense_decode (ds ! i)) = Some (HandleTable hs)"
  obtains w' where "memx_region_destroy ix (p, i) w = Some w'" "world_ok (index_allocator ix) live w'"
    "heap w' p = Some (RegionTable (ds[i := 0]))"
    "\<And>q. q \<noteq> p \<Longrightarrow> heap w' q =
       (if is_dense (ds ! i) \<and> q = memx_dense_decode (ds ! i) then None else heap w q)"
proof (cases "is_dense (ds ! i)")
  case False
  let ?w = "w\<lparr>heap := (heap w)(p \<mapsto> RegionTable (ds[i := 0]))\<rparr>"
  have "memx_region_destroy ix (p, i) w = Some ?w"
    using False p i by (simp add: memx_region_destroy_def memx_region_init_def)
  moreover have "world_ok (index_allocator ix) live ?w" using ok p by (intro world_ok_heap_upd) simp_all
  ultimately show thesis by (rule that) (use False in simp_all)
next
  case True
  let ?q = "memx_dense_decode (ds ! i)"
  obtain hs where q: "heap w ?q = Some (HandleTable hs)" using d [OF True] by blast
  then have live: "heap w ?q \<noteq> None" and pq: "p \<noteq> ?q" using p by auto
  obtain w1 where d1: "memx_deallocate (index_allocator ix) ?q w = Some w1"
    "heap w1 = (heap w)(?q := None)" "world_ok (index_allocator ix) live w1"
    using memx_deallocate_ok [OF ok live] .
  let ?w = "w1\<lparr>heap := (heap w1)(p \<mapsto> RegionTable (ds[i := 0]))\<rparr>"
  have p1: "heap w1 p = Some (RegionTable ds)" using d1(2) p pq by simp
  have "memx_region_destroy ix (p, i) w = Some ?w"
    using True p p1 i d1(1) by (simp add: memx_region_destroy_def memx_region_init_def)
  moreover have "world_ok (index_allocator ix) live ?w"
    using d1(3) p1 by (intro world_ok_heap_upd) simp_all
  ultimately show thesis by (rule that) (use True d1(2) in simp_all)
qed

text \<open>The blocks a table's descriptors own from position \<open>i\<close> on.\<close>

definition table_blocks :: "u64 list \<Rightarrow> nat \<Rightarrow> nat \<Rightarrow> u64 set" where
  "table_blocks ds i n =
     {q. \<exists>j. i \<le> j \<and> j < i + n \<and> is_dense (ds ! j) \<and> q = memx_dense_decode (ds ! j)}"

definition table_ok :: "(u64 \<rightharpoonup> memx_object) \<Rightarrow> u64 list \<Rightarrow> nat \<Rightarrow> nat \<Rightarrow> bool" where
  "table_ok h ds i n \<longleftrightarrow>
     (\<forall>j. i \<le> j \<and> j < i + n \<and> is_dense (ds ! j) \<longrightarrow>
          (\<exists>hs. h (memx_dense_decode (ds ! j)) = Some (HandleTable hs)))
     \<and> (\<forall>j k. i \<le> j \<and> j < i + n \<and> i \<le> k \<and> k < i + n \<and> is_dense (ds ! j) \<and> is_dense (ds ! k)
          \<and> memx_dense_decode (ds ! j) = memx_dense_decode (ds ! k) \<longrightarrow> j = k)"

lemma table_blocks_Suc:
  "table_blocks ds i (Suc n) =
     (if is_dense (ds ! i) then {memx_dense_decode (ds ! i)} else {}) \<union> table_blocks ds (Suc i) n"
proof -
  have "(i \<le> j \<and> j < i + Suc n \<and> P) = ((j = i \<and> P) \<or> (Suc i \<le> j \<and> j < Suc i + n \<and> P))" for j P
    by auto
  then show ?thesis unfolding table_blocks_def by auto
qed

lemma destroy_table_ok:
  assumes "world_ok (index_allocator ix) live w" "heap w p = Some (RegionTable ds)"
    "i + n \<le> length ds" "table_ok (heap w) ds i n"
  shows "\<exists>w' ds'. destroy_table ix p i n w = Some w' \<and> world_ok (index_allocator ix) live w'
    \<and> heap w' p = Some (RegionTable ds')
    \<and> (\<forall>q. q \<noteq> p \<longrightarrow> heap w' q = (if q \<in> table_blocks ds i n then None else heap w q))"
  using assms
proof (induction n arbitrary: i w ds)
  case 0
  then show ?case by (auto simp: table_blocks_def)
next
  case (Suc n)
  have d: "\<exists>hs. heap w (memx_dense_decode (ds ! i)) = Some (HandleTable hs)" if "is_dense (ds ! i)"
    using Suc.prems(4) that by (simp add: table_ok_def)
  have il: "i < length ds" using Suc.prems(3) by simp
  obtain w1 where w1: "memx_region_destroy ix (p, i) w = Some w1" "world_ok (index_allocator ix) live w1"
    "heap w1 p = Some (RegionTable (ds[i := 0]))"
    "\<And>q. q \<noteq> p \<Longrightarrow> heap w1 q =
       (if is_dense (ds ! i) \<and> q = memx_dense_decode (ds ! i) then None else heap w q)"
    by (rule region_destroy_ok [OF Suc.prems(1,2) il d]) blast+
  have nth: "ds[i := 0] ! j = ds ! j" if "Suc i \<le> j" for j using that by simp
  have tb: "table_blocks (ds[i := 0]) (Suc i) n = table_blocks ds (Suc i) n"
    unfolding table_blocks_def using nth by (metis (no_types, lifting))
  have tok: "table_ok (heap w1) (ds[i := 0]) (Suc i) n"
    unfolding table_ok_def
  proof (intro conjI allI impI)
    fix j assume j: "Suc i \<le> j \<and> j < Suc i + n \<and> is_dense (ds[i := 0] ! j)"
    then have dj: "is_dense (ds ! j)" using nth [of j] by auto
    have "i \<le> j \<and> j < i + Suc n \<and> is_dense (ds ! j)" using j dj by simp
    then obtain hs where hs: "heap w (memx_dense_decode (ds ! j)) = Some (HandleTable hs)"
      using Suc.prems(4) unfolding table_ok_def by blast
    have ne: "is_dense (ds ! i) \<Longrightarrow> memx_dense_decode (ds ! j) \<noteq> memx_dense_decode (ds ! i)"
    proof
      assume di: "is_dense (ds ! i)" and eq: "memx_dense_decode (ds ! j) = memx_dense_decode (ds ! i)"
      have "i \<le> j \<and> j < i + Suc n \<and> i \<le> i \<and> i < i + Suc n" using j by simp
      then have "j = i" using Suc.prems(4) dj di eq unfolding table_ok_def by blast
      then show False using j by simp
    qed
    have "memx_dense_decode (ds ! j) \<noteq> p" using hs Suc.prems(2) by auto
    then have "heap w1 (memx_dense_decode (ds ! j)) = heap w (memx_dense_decode (ds ! j))"
      using w1(4) ne by auto
    with hs show "\<exists>hs. heap w1 (memx_dense_decode (ds[i := 0] ! j)) = Some (HandleTable hs)"
      using nth j by simp
  next
    fix j k
    assume a: "Suc i \<le> j \<and> j < Suc i + n \<and> Suc i \<le> k \<and> k < Suc i + n \<and> is_dense (ds[i := 0] ! j)
      \<and> is_dense (ds[i := 0] ! k)
      \<and> memx_dense_decode (ds[i := 0] ! j) = memx_dense_decode (ds[i := 0] ! k)"
    then have "i \<le> j \<and> j < i + Suc n \<and> i \<le> k \<and> k < i + Suc n \<and> is_dense (ds ! j) \<and> is_dense (ds ! k)
      \<and> memx_dense_decode (ds ! j) = memx_dense_decode (ds ! k)" using nth by auto
    then show "j = k" using Suc.prems(4) unfolding table_ok_def by blast
  qed
  have l: "Suc i + n \<le> length (ds[i := 0])" using Suc.prems(3) by simp
  from Suc.IH [OF w1(2,3) l tok, unfolded tb] obtain w' ds' where
    ih: "destroy_table ix p (Suc i) n w1 = Some w' \<and> world_ok (index_allocator ix) live w'
      \<and> heap w' p = Some (RegionTable ds')
      \<and> (\<forall>q. q \<noteq> p \<longrightarrow> heap w' q = (if q \<in> table_blocks ds (Suc i) n then None else heap w1 q))"
    by (elim exE)
  then have w': "heap w' q = (if q \<in> table_blocks ds (Suc i) n then None else heap w1 q)"
    if "q \<noteq> p" for q using that by simp
  have "heap w' q = (if q \<in> table_blocks ds i (Suc n) then None else heap w q)" if "q \<noteq> p" for q
    unfolding w' [OF that] w1(4) [OF that] table_blocks_Suc by auto
  then show ?case using w1(1) ih by (intro exI [of _ w'] exI [of _ ds']) simp
qed

text \<open>One sparse leaf with everything below it.\<close>

definition leaf_owned :: "(u64 \<rightharpoonup> memx_object) \<Rightarrow> nat \<Rightarrow> u64 \<Rightarrow> u64 set" where
  "leaf_owned h n leaf =
     (if leaf = 0 then {}
      else insert leaf (case h leaf of Some (RegionTable ds) \<Rightarrow> table_blocks ds 0 n | _ \<Rightarrow> {}))"

definition leaf_ready :: "(u64 \<rightharpoonup> memx_object) \<Rightarrow> nat \<Rightarrow> u64 \<Rightarrow> bool" where
  "leaf_ready h n leaf \<longleftrightarrow>
     leaf = 0 \<or> (\<exists>ds. h leaf = Some (RegionTable ds) \<and> length ds = n \<and> table_ok h ds 0 n)"

lemma leaf_ready_cong:
  assumes "leaf_ready h n leaf" "\<And>q. q \<in> leaf_owned h n leaf \<Longrightarrow> h' q = h q"
  shows "leaf_ready h' n leaf \<and> leaf_owned h' n leaf = leaf_owned h n leaf"
proof (cases "leaf = 0")
  case True
  then show ?thesis by (simp add: leaf_ready_def leaf_owned_def)
next
  case False
  then obtain ds where ds: "h leaf = Some (RegionTable ds)" "length ds = n" "table_ok h ds 0 n"
    using assms(1) by (auto simp: leaf_ready_def)
  have own: "leaf_owned h n leaf = insert leaf (table_blocks ds 0 n)"
    using False ds by (simp add: leaf_owned_def)
  have h': "h' leaf = Some (RegionTable ds)" using assms(2) own ds(1) by simp
  have "h' (memx_dense_decode (ds ! j)) = h (memx_dense_decode (ds ! j))"
    if "j < n" "is_dense (ds ! j)" for j
    using that assms(2) unfolding own by (auto simp: table_blocks_def)
  then have "table_ok h' ds 0 n" using ds(3) by (simp add: table_ok_def)
  then show ?thesis using h' ds(2) own False by (simp add: leaf_ready_def leaf_owned_def)
qed

lemma destroy_leaves_ok:
  assumes "world_ok (index_allocator ix) live w" "heap w (directory ix) = Some (LeafRoots rts)"
    "r + n \<le> length rts"
    "\<And>s. r \<le> s \<Longrightarrow> s < r + n \<Longrightarrow> leaf_ready (heap w) (leaf_size ix) (rts ! s)"
    "\<And>s. r \<le> s \<Longrightarrow> s < r + n \<Longrightarrow> directory ix \<notin> leaf_owned (heap w) (leaf_size ix) (rts ! s)"
    "\<And>s t. r \<le> s \<Longrightarrow> s < t \<Longrightarrow> t < r + n \<Longrightarrow>
       leaf_owned (heap w) (leaf_size ix) (rts ! s) \<inter> leaf_owned (heap w) (leaf_size ix) (rts ! t) = {}"
  shows "\<exists>w'. destroy_leaves ix r n w = Some w' \<and> world_ok (index_allocator ix) live w'
    \<and> (\<forall>q. heap w' q =
          (if \<exists>s. r \<le> s \<and> s < r + n \<and> q \<in> leaf_owned (heap w) (leaf_size ix) (rts ! s)
           then None else heap w q))"
  using assms
proof (induction n arbitrary: r w)
  case 0
  then show ?case by auto
next
  case (Suc n)
  let ?l = "rts ! r" let ?n = "leaf_size ix"
  have rd: "read_root w (directory ix) r = Some ?l" using Suc.prems(2,3) by simp
  obtain w1 where step: "(if ?l = 0 then Some w else do {
        w \<leftarrow> destroy_table ix ?l 0 ?n w; memx_deallocate (index_allocator ix) ?l w }) = Some w1"
    and ok1: "world_ok (index_allocator ix) live w1"
    and h1: "\<And>q. heap w1 q = (if q \<in> leaf_owned (heap w) ?n ?l then None else heap w q)"
  proof (cases "?l = 0")
    case True
    then show thesis using that [of w] Suc.prems(1) by (simp add: leaf_owned_def)
  next
    case False
    obtain ds where ds: "heap w ?l = Some (RegionTable ds)" "length ds = ?n" "table_ok (heap w) ds 0 ?n"
      using Suc.prems(4) [of r] False by (auto simp: leaf_ready_def)
    obtain w1 ds' where t: "destroy_table ix ?l 0 ?n w = Some w1" "world_ok (index_allocator ix) live w1"
      "heap w1 ?l = Some (RegionTable ds')"
      "\<And>q. q \<noteq> ?l \<Longrightarrow> heap w1 q = (if q \<in> table_blocks ds 0 ?n then None else heap w q)"
      using destroy_table_ok [OF Suc.prems(1) ds(1) _ ds(3)] ds(2) by auto
    have "heap w1 ?l \<noteq> None" using t(3) by simp
    then obtain w2 where d: "memx_deallocate (index_allocator ix) ?l w1 = Some w2"
      "heap w2 = (heap w1)(?l := None)" "world_ok (index_allocator ix) live w2"
      using memx_deallocate_ok [OF t(2)] by blast
    have own: "leaf_owned (heap w) ?n ?l = insert ?l (table_blocks ds 0 ?n)"
      using False ds by (simp add: leaf_owned_def)
    show thesis
      by (rule that [of w2]) (use False t(1,4) d own in auto)
  qed
  have dir1: "heap w1 (directory ix) = Some (LeafRoots rts)"
    using h1 Suc.prems(2) Suc.prems(5) [of r] by simp
  have keep: "leaf_ready (heap w1) ?n (rts ! s) \<and> leaf_owned (heap w1) ?n (rts ! s) = leaf_owned (heap w) ?n (rts ! s)"
    if "Suc r \<le> s" "s < Suc r + n" for s
  proof (rule leaf_ready_cong)
    show "leaf_ready (heap w) ?n (rts ! s)" using that by (intro Suc.prems(4)) simp_all
    fix q assume q: "q \<in> leaf_owned (heap w) ?n (rts ! s)"
    have "leaf_owned (heap w) ?n ?l \<inter> leaf_owned (heap w) ?n (rts ! s) = {}"
      using that by (intro Suc.prems(6)) simp_all
    with q show "heap w1 q = heap w q" unfolding h1 by auto
  qed
  have "\<exists>w'. destroy_leaves ix (Suc r) n w1 = Some w' \<and> world_ok (index_allocator ix) live w'
    \<and> (\<forall>q. heap w' q =
          (if \<exists>s. Suc r \<le> s \<and> s < Suc r + n \<and> q \<in> leaf_owned (heap w1) ?n (rts ! s)
           then None else heap w1 q))"
  proof (rule Suc.IH [OF ok1 dir1])
    show "directory ix \<notin> leaf_owned (heap w1) ?n (rts ! s)" if "Suc r \<le> s" "s < Suc r + n" for s
      using keep [OF that] Suc.prems(5) [of s] that by simp
    show "leaf_owned (heap w1) ?n (rts ! s) \<inter> leaf_owned (heap w1) ?n (rts ! t) = {}"
      if "Suc r \<le> s" "s < t" "t < Suc r + n" for s t
      using keep [of s] keep [of t] Suc.prems(6) [of s t] that by simp
  qed (use Suc.prems(3) keep in auto)
  then obtain w' where w': "destroy_leaves ix (Suc r) n w1 = Some w'"
    "world_ok (index_allocator ix) live w'"
    "\<And>q. heap w' q = (if \<exists>s. Suc r \<le> s \<and> s < Suc r + n \<and> q \<in> leaf_owned (heap w1) ?n (rts ! s)
        then None else heap w1 q)" by blast
  have split: "(\<exists>s. r \<le> s \<and> s < r + Suc n \<and> P s) \<longleftrightarrow> P r \<or> (\<exists>s. Suc r \<le> s \<and> s < Suc r + n \<and> P s)" for P
  proof -
    have "r \<le> s \<and> s < r + Suc n \<longleftrightarrow> s = r \<or> Suc r \<le> s \<and> s < Suc r + n" for s by auto
    then show ?thesis by metis
  qed
  have same: "(\<exists>s. Suc r \<le> s \<and> s < Suc r + n \<and> q \<in> leaf_owned (heap w1) ?n (rts ! s))
      \<longleftrightarrow> (\<exists>s. Suc r \<le> s \<and> s < Suc r + n \<and> q \<in> leaf_owned (heap w) ?n (rts ! s))" for q
    using keep by blast
  have "heap w' q = (if \<exists>s. r \<le> s \<and> s < r + Suc n \<and> q \<in> leaf_owned (heap w) ?n (rts ! s)
        then None else heap w q)" for q
    unfolding w'(3) same split h1 by auto
  moreover have "destroy_leaves ix r (Suc n) w = Some w'"
    using rd step w'(1) by (simp split: if_splits)
  ultimately show ?case using w'(2) by blast
qed

text \<open>What the invariant says about the tables the destructor walks.\<close>

lemma bounded_table:
  assumes inv: "index_inv live fr ix w" and b: "bounded ix"
  obtains ds where "heap w (directory ix) = Some (RegionTable ds)" "length ds = regions ix"
    "table_ok (heap w) ds 0 (regions ix)" "dense_blocks ix (heap w) = table_blocks ds 0 (regions ix)"
proof -
  obtain ds where ds: "heap w (directory ix) = Some (RegionTable ds)" "length ds = regions ix"
    using index_invD(3) [OF inv] b by (auto simp: dir_ok_def)
  have d: "rdesc ix (heap w) i = ds ! i" for i using b ds by (simp add: rdesc_def rslot_def)
  have "table_ok (heap w) ds 0 (regions ix)"
    using index_invD(4) [OF inv] unfolding table_ok_def regions_ok_def d
    by (auto simp: desc_ok_def)
  moreover have "dense_blocks ix (heap w) = table_blocks ds 0 (regions ix)"
    by (auto simp: dense_blocks_def table_blocks_def d)
  ultimately show thesis using that ds by blast
qed

lemma dense_inj:
  assumes "index_inv live fr ix w" "i < regions ix" "j < regions ix"
    "is_dense (rdesc ix (heap w) i)" "is_dense (rdesc ix (heap w) j)"
    "memx_dense_decode (rdesc ix (heap w) i) = memx_dense_decode (rdesc ix (heap w) j)"
  shows "i = j"
  using index_invD(4) [OF assms(1)] assms(2-6) unfolding regions_ok_def by blast

lemma sparse_region_number:
  assumes "s < unat (sparse_root_count ix)" "j < leaf_size ix"
    "regions ix = unat (sparse_root_count ix) * leaf_size ix"
  shows "s * leaf_size ix + j < regions ix" "(s * leaf_size ix + j) div leaf_size ix = s"
    "(s * leaf_size ix + j) mod leaf_size ix = j"
proof -
  have "s * leaf_size ix + j < (s + 1) * leaf_size ix" using assms(2) by simp
  also have "\<dots> \<le> regions ix" unfolding assms(3) using assms(1) by (intro mult_le_mono1) simp
  finally show "s * leaf_size ix + j < regions ix" .
  show "(s * leaf_size ix + j) div leaf_size ix = s" "(s * leaf_size ix + j) mod leaf_size ix = j"
    using assms(2) by simp_all
qed

lemma sparse_tables:
  assumes inv: "index_inv live fr ix w" and b: "\<not> bounded ix"
    and rts: "heap w (directory ix) = Some (LeafRoots rts)" "length rts = unat (sparse_root_count ix)"
  shows "s < length rts \<Longrightarrow> leaf_ready (heap w) (leaf_size ix) (rts ! s)"
    and "s < length rts \<Longrightarrow> q \<in> leaf_owned (heap w) (leaf_size ix) (rts ! s) \<Longrightarrow>
      (\<exists>ds. heap w q = Some (RegionTable ds) \<and> q = rts ! s)
      \<or> (\<exists>hs j. heap w q = Some (HandleTable hs) \<and> j < leaf_size ix
           \<and> is_dense (rdesc ix (heap w) (s * leaf_size ix + j))
           \<and> q = memx_dense_decode (rdesc ix (heap w) (s * leaf_size ix + j)))"
    and "(\<exists>s < length rts. q \<in> leaf_owned (heap w) (leaf_size ix) (rts ! s))
      \<longleftrightarrow> q \<in> leaf_blocks ix (heap w) \<union> dense_blocks ix (heap w)"
proof -
  let ?n = "leaf_size ix" let ?h = "heap w"
  have reg: "regions ix = unat (sparse_root_count ix) * ?n"
    using index_invD(2) [OF inv] b by (simp add: index_shape_def)
  have leaf: "leaf_at ix ?h r = (if r < length rts then rts ! r else 0)" for r
    using rts(1) by (simp add: leaf_at_def)
  have table: "\<exists>ds. ?h (rts ! s) = Some (RegionTable ds) \<and> length ds = ?n
      \<and> (\<forall>j < ?n. rdesc ix ?h (s * ?n + j) = ds ! j)"
    if s: "s < length rts" "rts ! s \<noteq> 0" for s
  proof -
    obtain ds where ds: "?h (rts ! s) = Some (RegionTable ds)" "length ds = ?n"
      using leaf_table [OF inv b, of s] s by (auto simp: leaf)
    have "rdesc ix ?h (s * ?n + j) = ds ! j" if "j < ?n" for j
      using sparse_region_number(2,3) [of s ix j] that s rts(2) reg b ds
      by (simp add: rdesc_def rslot_def leaf)
    then show ?thesis using ds by blast
  qed
  have num: "s * ?n + j < regions ix" if "s < length rts" "j < ?n" for s j
    using sparse_region_number(1) that rts(2) reg by metis
  show ready: "leaf_ready ?h ?n (rts ! s)" if s: "s < length rts" for s
  proof (cases "rts ! s = 0")
    case True
    then show ?thesis by (simp add: leaf_ready_def)
  next
    case False
    obtain ds where ds: "?h (rts ! s) = Some (RegionTable ds)" "length ds = ?n"
      "\<And>j. j < ?n \<Longrightarrow> rdesc ix ?h (s * ?n + j) = ds ! j" using table [OF s False] by blast
    have "table_ok ?h ds 0 ?n"
      unfolding table_ok_def
    proof (intro conjI allI impI)
      fix j assume j: "0 \<le> j \<and> j < 0 + ?n \<and> is_dense (ds ! j)"
      then have jn: "j < ?n" and dj: "is_dense (rdesc ix ?h (s * ?n + j))" using ds(3) by simp_all
      have "\<exists>hs. ?h (memx_dense_decode (rdesc ix ?h (s * ?n + j))) = Some (HandleTable hs)"
        by (rule dense_block_kind [OF index_invD(4) [OF inv] num [OF s jn] dj]) blast
      then show "\<exists>hs. ?h (memx_dense_decode (ds ! j)) = Some (HandleTable hs)"
        using ds(3) [OF jn] by simp
    next
      fix j k
      assume a: "0 \<le> j \<and> j < 0 + ?n \<and> 0 \<le> k \<and> k < 0 + ?n \<and> is_dense (ds ! j) \<and> is_dense (ds ! k)
        \<and> memx_dense_decode (ds ! j) = memx_dense_decode (ds ! k)"
      then have jk: "j < ?n" "k < ?n" by simp_all
      have "s * ?n + j = s * ?n + k"
        using a unfolding ds(3) [OF jk(1), symmetric] ds(3) [OF jk(2), symmetric]
        by (intro dense_inj [OF inv num [OF s jk(1)] num [OF s jk(2)]]) simp_all
      then show "j = k" by simp
    qed
    then show ?thesis using ds by (simp add: leaf_ready_def)
  qed
  have owned_of: "leaf_owned ?h ?n (rts ! s) = (if rts ! s = 0 then {} else insert (rts ! s)
      {q. \<exists>j < ?n. is_dense (rdesc ix ?h (s * ?n + j)) \<and> q = memx_dense_decode (rdesc ix ?h (s * ?n + j))})"
    if s: "s < length rts" for s
  proof (cases "rts ! s = 0")
    case True
    then show ?thesis by (simp add: leaf_owned_def)
  next
    case False
    obtain ds where "?h (rts ! s) = Some (RegionTable ds)" "length ds = ?n"
      "\<And>j. j < ?n \<Longrightarrow> rdesc ix ?h (s * ?n + j) = ds ! j" using table [OF s False] by blast
    then show ?thesis using False by (auto simp: leaf_owned_def table_blocks_def)
  qed
  show "(\<exists>ds. ?h q = Some (RegionTable ds) \<and> q = rts ! s)
      \<or> (\<exists>hs j. ?h q = Some (HandleTable hs) \<and> j < ?n \<and> is_dense (rdesc ix ?h (s * ?n + j))
           \<and> q = memx_dense_decode (rdesc ix ?h (s * ?n + j)))"
    if s: "s < length rts" and q: "q \<in> leaf_owned ?h ?n (rts ! s)" for s
  proof -
    from q have nz: "rts ! s \<noteq> 0" by (auto simp: leaf_owned_def)
    from q consider "q = rts ! s" | j where "j < ?n" "is_dense (rdesc ix ?h (s * ?n + j))"
      "q = memx_dense_decode (rdesc ix ?h (s * ?n + j))"
      unfolding owned_of [OF s] using nz by auto
    then show ?thesis
    proof cases
      case 1
      then show ?thesis using table [OF s nz] by blast
    next
      case 2
      then show ?thesis
        using dense_block_kind [OF index_invD(4) [OF inv] num [OF s 2(1)] 2(2)] by metis
    qed
  qed
  show "(\<exists>s < length rts. q \<in> leaf_owned ?h ?n (rts ! s))
      \<longleftrightarrow> q \<in> leaf_blocks ix ?h \<union> dense_blocks ix ?h"
  proof
    assume "\<exists>s < length rts. q \<in> leaf_owned ?h ?n (rts ! s)"
    then obtain s where s: "s < length rts" "q \<in> leaf_owned ?h ?n (rts ! s)" by blast
    then have "rts ! s \<noteq> 0" by (auto simp: leaf_owned_def)
    then have "rts ! s \<in> leaf_blocks ix ?h" using s(1) b by (auto simp: leaf_blocks_def leaf)
    moreover have "q \<in> insert (rts ! s) (dense_blocks ix ?h)"
      using s num unfolding owned_of [OF s(1)] dense_blocks_def by (auto split: if_splits)
    ultimately show "q \<in> leaf_blocks ix ?h \<union> dense_blocks ix ?h" by auto
  next
    assume "q \<in> leaf_blocks ix ?h \<union> dense_blocks ix ?h"
    then show "\<exists>s < length rts. q \<in> leaf_owned ?h ?n (rts ! s)"
    proof
      assume "q \<in> leaf_blocks ix ?h"
      then obtain s where "s < length rts" "q = rts ! s" "rts ! s \<noteq> 0"
        using b by (auto simp: leaf_blocks_def leaf split: if_splits)
      then show ?thesis by (auto simp: leaf_owned_def)
    next
      assume "q \<in> dense_blocks ix ?h"
      then obtain i where i: "i < regions ix" "is_dense (rdesc ix ?h i)" "q = memx_dense_decode (rdesc ix ?h i)"
        by (auto simp: dense_blocks_def)
      let ?s = "i div ?n"
      have s: "?s < length rts" using root_lt [OF index_invD(2) [OF inv] b i(1)] rts(2) by simp
      have e: "?s * ?n + i mod ?n = i" by simp
      have "rslot ix ?h i \<noteq> None"
      proof
        assume "rslot ix ?h i = None"
        then have "rdesc ix ?h i = 0" by (rule rdesc_0)
        with i(2) show False by simp
      qed
      then have nz: "rts ! ?s \<noteq> 0" using b s by (auto simp: rslot_def leaf Let_def split: if_splits)
      have "i mod ?n < ?n" using leaf_size_pos [OF index_invD(2) [OF inv] b] by simp
      then have "q \<in> leaf_owned ?h ?n (rts ! ?s)"
        unfolding owned_of [OF s] using nz i(2,3) e by (auto intro!: exI [of _ "i mod ?n"])
      then show ?thesis using s by blast
    qed
  qed
qed

lemma memx_index_destroy_spec:
  assumes inv: "index_inv live fr ix w"
  obtains w' where "memx_index_destroy munmap (Some ix) w = Some w'" "heap w' = fr"
    "world_ok (index_allocator ix) live w'"
proof -
  let ?A = "index_allocator ix" let ?h = "heap w"
  have fr: "fr q = (if q \<in> owned ix ?h then None else ?h q)" for q
    using index_invD(9) [OF inv] by (simp add: frame_ok_def)
  have self: "?h (self ix) = Some IndexBlock" by (rule index_invD(8) [OF inv])
  note modes = index_invD(10,11) [OF inv] and result = that
  have finish: thesis
    if run: "memx_index_destroy munmap (Some ix) w = do {
          w \<leftarrow> memx_deallocate ?A (directory ix) w1; memx_deallocate ?A (self ix) w }"
      and ok1: "world_ok ?A live w1" and dir: "heap w1 (directory ix) \<noteq> None"
      and sd: "self ix \<noteq> directory ix" and s1: "heap w1 (self ix) \<noteq> None"
      and h1: "\<And>q. q \<noteq> directory ix \<Longrightarrow> q \<noteq> self ix \<Longrightarrow> heap w1 q = fr q"
    for w1
  proof -
    obtain w2 where w2: "memx_deallocate ?A (directory ix) w1 = Some w2"
      "heap w2 = (heap w1)(directory ix := None)" "world_ok ?A live w2"
      using memx_deallocate_ok [OF ok1 dir] .
    have "heap w2 (self ix) \<noteq> None" using w2(2) s1 sd by simp
    then obtain w3 where w3: "memx_deallocate ?A (self ix) w2 = Some w3"
      "heap w3 = (heap w2)(self ix := None)" "world_ok ?A live w3"
      using memx_deallocate_ok [OF w2(3)] by blast
    have "fr (self ix) = None" "fr (directory ix) = None" by (simp_all add: fr owned_def)
    then have "heap w3 = fr" using h1 by (auto simp: fun_eq_iff w3(2) w2(2))
    moreover have "memx_index_destroy munmap (Some ix) w = Some w3" using run w2(1) w3(1) by simp
    ultimately show thesis using result w3(3) by blast
  qed
  show thesis
  proof (cases "bounded ix")
    case True
    obtain ds where ds: "?h (directory ix) = Some (RegionTable ds)" "length ds = regions ix"
      "table_ok ?h ds 0 (regions ix)" "dense_blocks ix ?h = table_blocks ds 0 (regions ix)"
      by (rule bounded_table [OF inv True])
    obtain w1 ds' where w1: "destroy_table ix (directory ix) 0 (regions ix) w = Some w1"
      "world_ok ?A live w1" "heap w1 (directory ix) = Some (RegionTable ds')"
      "\<And>q. q \<noteq> directory ix \<Longrightarrow> heap w1 q = (if q \<in> dense_blocks ix ?h then None else ?h q)"
      using destroy_table_ok [OF index_invD(1) [OF inv] ds(1) _ ds(3)] ds(2) unfolding ds(4) by auto
    have sd: "self ix \<noteq> directory ix" using self ds(1) by auto
    have "self ix \<notin> dense_blocks ix ?h"
      using self ds(3) unfolding ds(4) by (auto simp: table_blocks_def table_ok_def)
    then have s1: "heap w1 (self ix) \<noteq> None" using w1(4) [OF sd] self by simp
    show thesis
    proof (rule finish [OF _ w1(2) _ sd s1])
      show "heap w1 q = fr q" if "q \<noteq> directory ix" "q \<noteq> self ix" for q
        using that True w1(4) by (simp add: fr owned_def leaf_blocks_def)
    qed (use True modes w1(1,3) in \<open>simp_all add: memx_index_destroy_def\<close>)
  next
    case False
    obtain rts where rts: "?h (directory ix) = Some (LeafRoots rts)"
      "length rts = unat (sparse_root_count ix)"
      using sparse_root [OF inv False] by metis
    note st = sparse_tables [OF inv False rts]
    have disj: "leaf_owned ?h (leaf_size ix) (rts ! s) \<inter> leaf_owned ?h (leaf_size ix) (rts ! t) = {}"
      if "s < t" "t < length rts" for s t
    proof (rule ccontr)
      assume "\<not> ?thesis"
      then obtain q where q: "q \<in> leaf_owned ?h (leaf_size ix) (rts ! s)"
        "q \<in> leaf_owned ?h (leaf_size ix) (rts ! t)" by blast
      have sl: "s < length rts" using that by simp
      have leaf: "leaf_at ix ?h r = rts ! r" if "r < length rts" for r
        using that rts(1) by (simp add: leaf_at_def)
      have nz: "rts ! s \<noteq> 0" using q(1) by (auto simp: leaf_owned_def)
      from st(2) [OF sl q(1)] st(2) [OF that(2) q(2)] consider
        "rts ! s = rts ! t"
        | j k where "j < leaf_size ix" "k < leaf_size ix"
          "is_dense (rdesc ix ?h (s * leaf_size ix + j))" "is_dense (rdesc ix ?h (t * leaf_size ix + k))"
          "memx_dense_decode (rdesc ix ?h (s * leaf_size ix + j))
             = memx_dense_decode (rdesc ix ?h (t * leaf_size ix + k))"
        by auto
      then show False
      proof cases
        case 1
        then have "s = t"
          using index_invD(3) [OF inv] False nz leaf [OF sl] leaf [OF that(2)] unfolding dir_ok_def
          by (metis (no_types, lifting))
        then show False using that by simp
      next
        case 2
        have reg: "regions ix = unat (sparse_root_count ix) * leaf_size ix"
          using index_invD(2) [OF inv] False by (simp add: index_shape_def)
        note ns = sparse_region_number [of s ix j, OF _ 2(1) reg]
          and nt = sparse_region_number [of t ix k, OF _ 2(2) reg]
        have "s * leaf_size ix + j = t * leaf_size ix + k"
          using ns(1) nt(1) sl that(2) rts(2) by (intro dense_inj [OF inv _ _ 2(3-5)]) simp_all
        then have "s = t" using ns(2) nt(2) sl that(2) rts(2) by metis
        then show False using that by simp
      qed
    qed
    have dirn: "directory ix \<notin> leaf_owned ?h (leaf_size ix) (rts ! s)" if "s < length rts" for s
      using st(2) [OF that] rts(1) by fastforce
    obtain w1 where w1: "destroy_leaves ix 0 (length rts) w = Some w1" "world_ok ?A live w1"
      "\<And>q. heap w1 q = (if \<exists>s. 0 \<le> s \<and> s < 0 + length rts \<and> q \<in> leaf_owned ?h (leaf_size ix) (rts ! s)
          then None else ?h q)"
      using destroy_leaves_ok [OF index_invD(1) [OF inv] rts(1), of 0 "length rts"] st(1) dirn disj
      by force
    have h1: "heap w1 q = (if q \<in> leaf_blocks ix ?h \<union> dense_blocks ix ?h then None else ?h q)" for q
      unfolding w1(3) st(3) [symmetric] by simp
    have sd: "self ix \<noteq> directory ix" using self rts(1) by auto
    have dn: "directory ix \<notin> leaf_blocks ix ?h \<union> dense_blocks ix ?h"
      using dirn unfolding st(3) [symmetric] by blast
    have sn: "self ix \<notin> leaf_blocks ix ?h \<union> dense_blocks ix ?h"
      using st(2) self unfolding st(3) [symmetric] by fastforce
    show thesis
    proof (rule finish [OF _ w1(2) _ sd])
      show "heap w1 (self ix) \<noteq> None" using h1 sn self by simp
      show "heap w1 (directory ix) \<noteq> None" using h1 dn rts(1) by simp
      show "heap w1 q = fr q" if "q \<noteq> directory ix" "q \<noteq> self ix" for q
        using that by (simp add: h1 fr owned_def)
    qed (use False modes w1(1) rts(2) in \<open>simp add: memx_index_destroy_def\<close>)
  qed
qed

end
