(* ===== verification/Memx_Flat.thy ===== *)
theory Memx_Flat
  imports Memx_Lifecycle
begin

text \<open>
  Flat mode: \<^verbatim>\<open>memx_index_optimize\<close>, which turns a fully dense bounded index into one table, the
  bounded and flat read views with their inline lookups from \<^verbatim>\<open>memx.h\<close>, and insert and remove on
  the flat table.  The theorems say that optimising is invisible to every lookup, and that flat
  updates meet the same contract as adaptive ones, without any allocation failure.
\<close>

section \<open>Views\<close>

record memx_bounded_view =
  bv_base_address :: u64
  bv_region_shift :: u32
  bv_granule_shift :: u32
  bv_granules_per_region :: u64
  bv_descriptors :: u64

record memx_flat_view =
  fv_base_address :: u64
  fv_granule_shift :: u32
  fv_entry_count :: u64
  fv_entries :: u64

definition memx_index_bounded_view ::
  "'c memx_index option \<Rightarrow> bool \<Rightarrow> memx_status \<times> memx_bounded_view option" where
  "memx_index_bounded_view index out_view_present =
     (case index of
        None \<Rightarrow> (MEMX_ERROR_INVALID_ARGUMENT, None)
      | Some ix \<Rightarrow>
         (if \<not> out_view_present then (MEMX_ERROR_INVALID_ARGUMENT, None)
          else if \<not> bounded ix \<or> flat_mode ix \<or> overlay_mode ix then (MEMX_ERROR_UNSUPPORTED, None)
          else (MEMX_OK, Some \<lparr>bv_base_address = base_address (config ix),
                               bv_region_shift = region_shift (config ix),
                               bv_granule_shift = granule_shift (config ix),
                               bv_granules_per_region = granules_per_region ix,
                               bv_descriptors = directory ix\<rparr>)))"

definition memx_index_flat_view ::
  "'c memx_index option \<Rightarrow> bool \<Rightarrow> memx_status \<times> memx_flat_view option" where
  "memx_index_flat_view index out_view_present =
     (case index of
        None \<Rightarrow> (MEMX_ERROR_INVALID_ARGUMENT, None)
      | Some ix \<Rightarrow>
         (if \<not> out_view_present then (MEMX_ERROR_INVALID_ARGUMENT, None)
          else if \<not> flat_mode ix then (MEMX_ERROR_UNSUPPORTED, None)
          else (MEMX_OK, Some \<lparr>fv_base_address = base_address (config ix),
                               fv_granule_shift = granule_shift (config ix),
                               fv_entry_count = drop_bit (unat (granule_shift (config ix)))
                                                  (managed_size (config ix)),
                               fv_entries = flat_entries ix\<rparr>)))"

definition memx_bounded_lookup_assume_mapped ::
  "memx_bounded_view \<Rightarrow> 'c memx_world \<Rightarrow> u64 \<Rightarrow> u64 option" where
  "memx_bounded_lookup_assume_mapped view w address = (
     let relative = address - bv_base_address view;
         region_index = drop_bit (unat (bv_region_shift view)) relative;
         granule_index = drop_bit (unat (bv_granule_shift view)) relative
                           AND (bv_granules_per_region view - 1)
     in do {
       descriptor \<leftarrow> read_region w (bv_descriptors view, unat region_index);
       let tag = descriptor AND 3;
       if descriptor = 0 then Some MEMX_HANDLE_INVALID
       else if tag = 1 then Some (drop_bit 2 descriptor)
       else if tag \<noteq> 2 then Some MEMX_HANDLE_INVALID
       else read_handle w (descriptor AND NOT 3) (unat granule_index)
     })"

definition memx_flat_lookup_assume_mapped ::
  "memx_flat_view \<Rightarrow> 'c memx_world \<Rightarrow> u64 \<Rightarrow> u64 option" where
  "memx_flat_lookup_assume_mapped view w address =
     read_handle w (fv_entries view)
       (unat (drop_bit (unat (fv_granule_shift view)) (address - fv_base_address view)))"

definition memx_lookup :: "'c memx_index option \<Rightarrow> 'c memx_world \<Rightarrow> u64 \<Rightarrow> u64 option" where
  "memx_lookup index w pointer = memx_lookup_address index w pointer"

section \<open>Optimising to a flat table\<close>

text \<open>The first \<open>n\<close> entries of a handle table; fewer would be an out-of-bounds read.\<close>

definition table_entries :: "'c memx_world \<Rightarrow> u64 \<Rightarrow> nat \<Rightarrow> u64 list option" where
  "table_entries w p n =
     (case heap w p of
        Some (HandleTable hs) \<Rightarrow> (if n \<le> length hs then Some (take n hs) else None)
      | _ \<Rightarrow> None)"

text \<open>The copy loop, in region order, and the release loop.\<close>

fun gather_dense :: "'c memx_index \<Rightarrow> 'c memx_world \<Rightarrow> nat \<Rightarrow> nat \<Rightarrow> u64 list option" where
  "gather_dense ix w i 0 = Some []"
| "gather_dense ix w i (Suc n) = do {
     d \<leftarrow> read_region w (directory ix, i);
     row \<leftarrow> table_entries w (memx_dense_decode d) (unat (granules_per_region ix));
     rest \<leftarrow> gather_dense ix w (Suc i) n;
     Some (row @ rest)
   }"

fun release_dense :: "'c memx_index \<Rightarrow> nat \<Rightarrow> nat \<Rightarrow> 'c memx_world \<Rightarrow> 'c memx_world option" where
  "release_dense ix i 0 w = Some w"
| "release_dense ix i (Suc n) w = do {
     d \<leftarrow> read_region w (directory ix, i);
     w \<leftarrow> memx_deallocate (index_allocator ix) (memx_dense_decode d) w;
     release_dense ix (Suc i) n w
   }"

definition memx_index_optimize ::
  "'c memx_index option \<Rightarrow> 'c memx_world
     \<Rightarrow> (memx_status \<times> 'c memx_index option \<times> 'c memx_world) option" where
  "memx_index_optimize index w =
     (case index of
        None \<Rightarrow> Some (MEMX_ERROR_INVALID_ARGUMENT, None, w)
      | Some ix \<Rightarrow>
         (if flat_mode ix then Some (MEMX_OK, Some ix, w)
          else if overlay_mode ix then Some (MEMX_ERROR_BUSY, Some ix, w)
          else if \<not> bounded ix \<or> dense_regions ix \<noteq> region_count ix
          then Some (MEMX_ERROR_UNSUPPORTED, Some ix, w)
          else if SIZE_MAX div granules_per_region ix < region_count ix
          then Some (MEMX_ERROR_OUT_OF_MEMORY, Some ix, w)
          else let entry_count = region_count ix * granules_per_region ix in
          if SIZE_MAX div 8 < entry_count
          then Some (MEMX_ERROR_OUT_OF_MEMORY, Some ix, w)
          else do {
            (entries, w) \<leftarrow> memx_allocate (index_allocator ix) (entry_count * 8) w;
            if entries = 0 then Some (MEMX_ERROR_OUT_OF_MEMORY, Some ix, w)
            else do {
              values \<leftarrow> gather_dense ix w 0 (unat (region_count ix));
              w \<leftarrow> init_object entries (HandleTable values) w;
              w \<leftarrow> release_dense ix 0 (unat (region_count ix)) w;
              w \<leftarrow> memx_deallocate (index_allocator ix) (directory ix) w;
              Some (MEMX_OK,
                    Some (ix\<lparr>directory := 0, flat_entries := entries, flat_mode := True,
                            dense_regions := 0\<rparr>), w)
            }
          }))"

section \<open>The invariant of flat mode\<close>

definition flat_inv ::
  "('c \<Rightarrow> u64 set) \<Rightarrow> (u64 \<rightharpoonup> memx_object) \<Rightarrow> 'c memx_index \<Rightarrow> 'c memx_world \<Rightarrow> bool" where
  "flat_inv live fr ix w \<longleftrightarrow>
     world_ok (index_allocator ix) live w \<and> index_shape ix \<and> bounded ix
     \<and> flat_mode ix \<and> \<not> overlay_mode ix
     \<and> heap w (self ix) = Some IndexBlock
     \<and> (\<exists>hs. heap w (flat_entries ix) = Some (HandleTable hs)
           \<and> length hs = regions ix * per_region ix)
     \<and> (\<forall>q. fr q = (if q \<in> {self ix, flat_entries ix} then None else heap w q))"

definition fmap_of :: "'c memx_index \<Rightarrow> (u64 \<rightharpoonup> memx_object) \<Rightarrow> nat \<Rightarrow> u64" where
  "fmap_of ix h k = (case h (flat_entries ix) of Some (HandleTable hs) \<Rightarrow> hs ! k | _ \<Rightarrow> MEMX_HANDLE_INVALID)"

lemma flat_invD:
  assumes "flat_inv live fr ix w"
  shows "world_ok (index_allocator ix) live w" "index_shape ix" "bounded ix" "flat_mode ix"
    "\<not> overlay_mode ix" "heap w (self ix) = Some IndexBlock"
    "fr q = (if q \<in> {self ix, flat_entries ix} then None else heap w q)"
  using assms unfolding flat_inv_def by blast+

lemma flat_table:
  assumes "flat_inv live fr ix w"
  obtains hs where "heap w (flat_entries ix) = Some (HandleTable hs)"
    "length hs = regions ix * per_region ix" "fmap_of ix (heap w) = (!) hs"
  using assms by (auto simp: flat_inv_def fmap_of_def fun_eq_iff)

text \<open>Position of an address in the flat table.\<close>

lemma flat_offset:
  assumes "index_shape ix" "covered ix a"
  shows "unat (drop_bit (gshift ix) (a - base_address (config ix))) = granule_of ix a"
  using assms by (simp add: granule_of_def covered_def unat_drop unat_sub word_le_nat_alt)

lemma flat_lookup:
  assumes inv: "flat_inv live fr ix w"
  shows "memx_lookup_address (Some ix) w a =
    Some (if covered ix a then fmap_of ix (heap w) (granule_of ix a) else MEMX_HANDLE_INVALID)"
proof -
  note sh = flat_invD(2) [OF inv]
  obtain hs where hs: "heap w (flat_entries ix) = Some (HandleTable hs)"
    "length hs = regions ix * per_region ix" "fmap_of ix (heap w) = (!) hs"
    by (rule flat_table [OF inv])
  show ?thesis
    using granule_of_lt [OF sh, of a] flat_offset [OF sh, of a] flat_invD(4) [OF inv] hs
    by (auto simp: memx_lookup_address_def memx_address_to_region_spec [OF sh])
qed

section \<open>Reading through the views\<close>

text \<open>The inline lookup on a bounded view agrees with the full lookup on every covered address.\<close>

lemma bounded_view_lookup:
  assumes inv: "index_inv live fr ix w" and b: "bounded ix" and cov: "covered ix a"
    and view: "memx_index_bounded_view (Some ix) True = (MEMX_OK, Some v)"
  shows "memx_bounded_lookup_assume_mapped v w a = memx_lookup_address (Some ix) w a"
proof -
  note sh = index_invD(2) [OF inv]
  have v: "v = \<lparr>bv_base_address = base_address (config ix), bv_region_shift = region_shift (config ix),
      bv_granule_shift = granule_shift (config ix), bv_granules_per_region = granules_per_region ix,
      bv_descriptors = directory ix\<rparr>"
    using view by (simp add: memx_index_bounded_view_def split: if_splits)
  have nb: "\<not> a < base_address (config ix)" using cov by (simp add: covered_def word_less_nat_alt)
  have nm: "\<not> managed_size (config ix) \<le> a - base_address (config ix)"
  proof -
    have "unat a - base_of ix < regions ix * 2 ^ rshift ix"
      using cov unfolding covered_def by linarith
    then show ?thesis using sh b nb by (simp add: index_shape_def word_le_nat_alt unat_sub not_less)
  qed
  let ?slot = "(directory ix, unat (drop_bit (rshift ix) (a - base_address (config ix))))"
  let ?g = "drop_bit (gshift ix) (a - base_address (config ix)) AND (granules_per_region ix - 1)"
  have "memx_lookup_address (Some ix) w a = memx_region_lookup w (Some ?slot) ?g"
    using b nb nm index_invD(10,11) [OF inv]
    by (simp add: memx_lookup_address_def memx_address_to_region_def memx_get_region_def Let_def)
  also have "\<dots> = memx_bounded_lookup_assume_mapped v w a"
    unfolding v
    by (cases "read_region w ?slot")
       (auto simp: memx_bounded_lookup_assume_mapped_def memx_region_lookup_def descriptor_defs Let_def)
  finally show ?thesis ..
qed

lemma flat_view_lookup:
  assumes inv: "flat_inv live fr ix w" and cov: "covered ix a"
    and view: "memx_index_flat_view (Some ix) True = (MEMX_OK, Some v)"
  shows "memx_flat_lookup_assume_mapped v w a = memx_lookup_address (Some ix) w a"
    and "unat (drop_bit (unat (fv_granule_shift v)) (a - fv_base_address v)) < unat (fv_entry_count v)"
proof -
  note sh = flat_invD(2) [OF inv] and b = flat_invD(3) [OF inv]
  have v: "v = \<lparr>fv_base_address = base_address (config ix), fv_granule_shift = granule_shift (config ix),
      fv_entry_count = drop_bit (gshift ix) (managed_size (config ix)), fv_entries = flat_entries ix\<rparr>"
    using view by (simp add: memx_index_flat_view_def split: if_splits)
  have "unat (drop_bit (gshift ix) (managed_size (config ix))) = regions ix * per_region ix"
    using sh b by (simp add: unat_drop index_shape_def region_bytes [OF sh])
  then show "unat (drop_bit (unat (fv_granule_shift v)) (a - fv_base_address v)) < unat (fv_entry_count v)"
    using granule_of_lt [OF sh cov] flat_offset [OF sh cov] by (simp add: v)
  show "memx_flat_lookup_assume_mapped v w a = memx_lookup_address (Some ix) w a"
    using cov flat_invD(4) [OF inv]
    by (simp add: v memx_flat_lookup_assume_mapped_def memx_lookup_address_def
        memx_address_to_region_spec [OF sh])
qed

section \<open>Optimising keeps every lookup\<close>

lemma gather_dense_ok:
  assumes dir: "heap w (directory ix) = Some (RegionTable ds)" and pos: "0 < per_region ix"
    and tabs: "\<And>j. j < length ds \<Longrightarrow> is_dense (ds ! j) \<and>
      (\<exists>hs. heap w (memx_dense_decode (ds ! j)) = Some (HandleTable hs) \<and> length hs = per_region ix)"
  shows "i + n \<le> length ds \<Longrightarrow> \<exists>vs. gather_dense ix w i n = Some vs
    \<and> length vs = n * per_region ix
    \<and> (\<forall>k < n * per_region ix. vs ! k =
          dvalue (heap w) (ds ! ((i * per_region ix + k) div per_region ix))
            ((i * per_region ix + k) mod per_region ix))"
proof (induction n arbitrary: i)
  case 0
  then show ?case by simp
next
  case (Suc n)
  let ?p = "per_region ix"
  have il: "i < length ds" using Suc.prems by simp
  obtain hs where hs: "is_dense (ds ! i)" "heap w (memx_dense_decode (ds ! i)) = Some (HandleTable hs)"
    "length hs = ?p" using tabs [OF il] by blast
  have rd: "read_region w (directory ix, i) = Some (ds ! i)" using dir il by simp
  have te: "table_entries w (memx_dense_decode (ds ! i)) ?p = Some hs"
    using hs by (simp add: table_entries_def)
  obtain vs where vs: "gather_dense ix w (Suc i) n = Some vs" "length vs = n * ?p"
    "\<And>k. k < n * ?p \<Longrightarrow> vs ! k = dvalue (heap w) (ds ! ((Suc i * ?p + k) div ?p)) ((Suc i * ?p + k) mod ?p)"
    using Suc.IH [of "Suc i"] Suc.prems by auto
  have "(hs @ vs) ! k = dvalue (heap w) (ds ! ((i * ?p + k) div ?p)) ((i * ?p + k) mod ?p)"
    if k: "k < Suc n * ?p" for k
  proof (cases "k < ?p")
    case True
    then have "(i * ?p + k) div ?p = i" "(i * ?p + k) mod ?p = k" by simp_all
    then show ?thesis using True hs by (simp add: nth_append)
  next
    case False
    then have "Suc i * ?p + (k - ?p) = i * ?p + k" by simp
    moreover have "k - ?p < n * ?p" using k False by simp
    ultimately show ?thesis using vs(3) [of "k - ?p"] False hs(3) by (simp add: nth_append)
  qed
  then show ?case using rd te vs hs(3) by simp
qed

lemma release_dense_ok:
  assumes "world_ok (index_allocator ix) live w" "heap w (directory ix) = Some (RegionTable ds)"
    "i + n \<le> length ds" "table_ok (heap w) ds i n" "\<And>j. j < length ds \<Longrightarrow> is_dense (ds ! j)"
  shows "\<exists>w'. release_dense ix i n w = Some w' \<and> world_ok (index_allocator ix) live w'
    \<and> (\<forall>q. heap w' q = (if q \<in> table_blocks ds i n then None else heap w q))"
  using assms(1-4)
proof (induction n arbitrary: i w)
  case 0
  then show ?case by (auto simp: table_blocks_def)
next
  case (Suc n)
  have il: "i < length ds" using Suc.prems(3) by simp
  let ?q = "memx_dense_decode (ds ! i)"
  have rd: "read_region w (directory ix, i) = Some (ds ! i)" using Suc.prems(2) il by simp
  have tok: "\<exists>hs. heap w (memx_dense_decode (ds ! j)) = Some (HandleTable hs)"
    if "i \<le> j" "j < i + Suc n" for j
    using Suc.prems(3,4) assms(5) that unfolding table_ok_def by simp
  have inj: "j = k" if "i \<le> j" "j < i + Suc n" "i \<le> k" "k < i + Suc n"
    "memx_dense_decode (ds ! j) = memx_dense_decode (ds ! k)" for j k
    using Suc.prems(3,4) assms(5) that unfolding table_ok_def by simp
  have "heap w ?q \<noteq> None" using tok [of i] by auto
  then obtain w1 where w1: "memx_deallocate (index_allocator ix) ?q w = Some w1"
    "heap w1 = (heap w)(?q := None)" "world_ok (index_allocator ix) live w1"
    using memx_deallocate_ok [OF Suc.prems(1)] by blast
  have "?q \<noteq> directory ix" using tok [of i] Suc.prems(2) by auto
  then have dir1: "heap w1 (directory ix) = Some (RegionTable ds)" using w1(2) Suc.prems(2) by simp
  have keep: "heap w1 (memx_dense_decode (ds ! j)) = heap w (memx_dense_decode (ds ! j))"
    if "Suc i \<le> j" "j < Suc i + n" for j
    using inj [of j i] that by (auto simp: w1(2))
  have "table_ok (heap w1) ds (Suc i) n"
    unfolding table_ok_def
  proof (intro conjI allI impI)
    fix j assume j: "Suc i \<le> j \<and> j < Suc i + n \<and> is_dense (ds ! j)"
    then show "\<exists>hs. heap w1 (memx_dense_decode (ds ! j)) = Some (HandleTable hs)"
      using tok [of j] keep [of j] by simp
  next
    fix j k assume "Suc i \<le> j \<and> j < Suc i + n \<and> Suc i \<le> k \<and> k < Suc i + n \<and> is_dense (ds ! j)
      \<and> is_dense (ds ! k) \<and> memx_dense_decode (ds ! j) = memx_dense_decode (ds ! k)"
    then show "j = k" by (intro inj) simp_all
  qed
  moreover have "Suc i + n \<le> length ds" using Suc.prems(3) by simp
  ultimately obtain w' where w': "release_dense ix (Suc i) n w1 = Some w'"
    "world_ok (index_allocator ix) live w'"
    "\<forall>q. heap w' q = (if q \<in> table_blocks ds (Suc i) n then None else heap w1 q)"
    using Suc.IH [OF w1(3) dir1] by blast
  have "heap w' q = (if q \<in> table_blocks ds i (Suc n) then None else heap w q)" for q
    using w'(3) assms(5) [OF il] unfolding table_blocks_Suc w1(2) by auto
  then show ?case using rd w1(1) w'(1,2) by simp
qed

lemma all_dense:
  assumes "count_regions ix h MEMX_REGION_DENSE = regions ix" "i < regions ix"
  shows "is_dense (rdesc ix h i)"
proof (rule ccontr)
  assume "\<not> is_dense (rdesc ix h i)"
  then have "count_regions ix h MEMX_REGION_DENSE < regions ix"
    by (rule count_less [OF assms(2)])
  with assms(1) show False by simp
qed

lemma entry_count_exact:
  assumes "\<not> SIZE_MAX div y < (x :: u64)" "y \<noteq> 0"
  shows "unat (x * y) = unat x * unat y"
proof -
  have "unat x \<le> unat SIZE_MAX div unat y"
    using assms(1) by (simp only: not_less word_le_nat_alt unat_div)
  then have "unat x * unat y \<le> unat SIZE_MAX div unat y * unat y" by (rule mult_le_mono1)
  also have "\<dots> \<le> unat SIZE_MAX" by (rule div_times_less_eq_dividend)
  finally show ?thesis by (intro unat_mult_exact) simp
qed

lemma memx_index_optimize_spec:
  assumes inv: "index_inv live fr ix w"
  obtains (unsupported) "memx_index_optimize (Some ix) w = Some (MEMX_ERROR_UNSUPPORTED, Some ix, w)"
      "\<not> bounded ix \<or> (\<exists>i < regions ix. \<not> is_dense (rdesc ix (heap w) i))"
    | (nomem) w' where "memx_index_optimize (Some ix) w = Some (MEMX_ERROR_OUT_OF_MEMORY, Some ix, w')"
      "index_inv live fr ix w'" "heap w' = heap w"
    | (good) ix' w' where "memx_index_optimize (Some ix) w = Some (MEMX_OK, Some ix', w')"
      "flat_inv live fr ix' w'" "config ix' = config ix"
      "region_count ix' = region_count ix" "granules_per_region ix' = granules_per_region ix"
      "\<And>k. k < regions ix * per_region ix \<Longrightarrow> fmap_of ix' (heap w') k = gmap ix (heap w) k"
proof (cases "\<not> bounded ix \<or> dense_regions ix \<noteq> region_count ix")
  case True
  note modes = index_invD(10,11) [OF inv]
  have nd: "\<not> bounded ix \<or> (\<exists>i < regions ix. \<not> is_dense (rdesc ix (heap w) i))"
  proof (rule ccontr)
    assume a: "\<not> ?thesis"
    have "count_regions ix (heap w) MEMX_REGION_DENSE = card {..< regions ix}"
      unfolding count_regions_def using a by (intro arg_cong [of _ _ card]) auto
    then have "unat (dense_regions ix) = regions ix" using index_invD(6) [OF inv] by simp
    then show False using True a by (simp add: unat_eq_iff)
  qed
  show thesis
    by (rule unsupported) (use True modes nd in \<open>auto simp: memx_index_optimize_def\<close>)
next
  case False
  then have b: "bounded ix" and dr: "dense_regions ix = region_count ix" by simp_all
  note modes = index_invD(10,11) [OF inv] and sh = index_invD(2) [OF inv]
  have dense: "is_dense (rdesc ix (heap w) i)" if "i < regions ix" for i
    using index_invD(6) [OF inv] dr that by (intro all_dense) simp_all
  let ?A = "index_allocator ix"
  let ?entries = "region_count ix * granules_per_region ix"
  show thesis
  proof (cases "SIZE_MAX div granules_per_region ix < region_count ix \<or> SIZE_MAX div 8 < ?entries")
    case True
    show thesis
      by (rule nomem [of w]) (use True b dr modes inv in \<open>auto simp: memx_index_optimize_def Let_def\<close>)
  next
    case small: False
    have g0: "granules_per_region ix \<noteq> 0" using per_region_pos [OF sh] by (auto simp: unat_eq_iff)
    have n1: "unat ?entries = regions ix * per_region ix"
      using small g0 by (intro entry_count_exact) simp_all
    have n2: "unat (?entries * 8) = 8 * (regions ix * per_region ix)"
  proof -
      have "8 * unat ?entries < 2 ^ 64 - 7" using small by (intro SIZE_MAX_div_8) simp
      then have "8 * unat ?entries < 2 ^ 64" by linarith
      then have "unat (?entries * 8) = 8 * unat ?entries" by (rule words_8)
      then show ?thesis unfolding n1 .
    qed
    have run: "memx_index_optimize (Some ix) w = do {
            (entries, w) \<leftarrow> memx_allocate ?A (?entries * 8) w;
            if entries = 0 then Some (MEMX_ERROR_OUT_OF_MEMORY, Some ix, w)
            else do {
              values \<leftarrow> gather_dense ix w 0 (regions ix);
              w \<leftarrow> init_object entries (HandleTable values) w;
              w \<leftarrow> release_dense ix 0 (regions ix) w;
              w \<leftarrow> memx_deallocate ?A (directory ix) w;
              Some (MEMX_OK, Some (ix\<lparr>directory := 0, flat_entries := entries, flat_mode := True,
                                      dense_regions := 0\<rparr>), w)
            }
          }"
      using small b dr modes by (simp add: memx_index_optimize_def Let_def)
    show thesis
      using index_invD(1) [OF inv]
    proof (cases rule: memx_allocate_cases [where n = "?entries * 8"])
      case (null w1)
      show thesis
        by (rule nomem [of w1])
           (use null index_inv_cong [OF inv null(2,3)] in \<open>simp_all add: run\<close>)
    next
      case (block p w1)
      obtain ds where ds: "heap w (directory ix) = Some (RegionTable ds)" "length ds = regions ix"
        "table_ok (heap w) ds 0 (regions ix)" "dense_blocks ix (heap w) = table_blocks ds 0 (regions ix)"
        by (rule bounded_table [OF inv b])
      have d: "rdesc ix (heap w) i = ds ! i" for i using b ds by (simp add: rdesc_def rslot_def)
      have live: "heap w q \<noteq> None \<Longrightarrow> q \<noteq> p" for q using block(4) by auto
      have dir1: "heap w1 (directory ix) = Some (RegionTable ds)"
        using ds(1) block(5) live by simp
      have tab: "is_dense (ds ! j) \<and> (\<exists>hs. heap w (memx_dense_decode (ds ! j)) = Some (HandleTable hs)
          \<and> length hs = per_region ix)" if "j < length ds" for j
        using dense [of j] dense_block_kind [OF index_invD(4) [OF inv], of j] that ds(2) unfolding d
        by metis
      have same: "heap w1 (memx_dense_decode (ds ! j)) = heap w (memx_dense_decode (ds ! j))"
        if "j < length ds" for j
        using tab [OF that] live by (auto simp: block(5))
      have tab1: "is_dense (ds ! j) \<and> (\<exists>hs. heap w1 (memx_dense_decode (ds ! j)) = Some (HandleTable hs)
          \<and> length hs = per_region ix)" if "j < length ds" for j
        using tab [OF that] same [OF that] by simp
      obtain vs where vs: "gather_dense ix w1 0 (regions ix) = Some vs"
        "length vs = regions ix * per_region ix"
        "\<And>k. k < regions ix * per_region ix \<Longrightarrow>
           vs ! k = dvalue (heap w1) (ds ! (k div per_region ix)) (k mod per_region ix)"
        using gather_dense_ok [OF dir1 per_region_pos [OF sh] tab1, of 0 "regions ix"] ds(2) by auto
      have vals: "vs ! k = gmap ix (heap w) k" if "k < regions ix * per_region ix" for k
        using vs(3) [OF that] same [of "k div per_region ix"] less_mult_imp_div_less [OF that] ds(2)
        by (simp add: gmap_def d) (metis dvalue_cong)
      let ?w2 = "w1\<lparr>heap := (heap w)(p \<mapsto> HandleTable vs)\<rparr>"
      have i2: "init_object p (HandleTable vs) w1 = Some ?w2"
        using block(5) n2 vs(2) init_object_ok [of w1 p "?entries * 8" "HandleTable vs"] by simp
      have ok2: "world_ok ?A live ?w2"
        using world_ok_heap_upd [OF block(6), of p "HandleTable vs"] block(5) by simp
      have dir2: "heap ?w2 (directory ix) = Some (RegionTable ds)" using ds(1) live by simp
      have same2: "heap ?w2 (memx_dense_decode (ds ! j)) = heap w (memx_dense_decode (ds ! j))"
        if "j < length ds" for j
        using tab [OF that] live by auto
      have tok2: "table_ok (heap ?w2) ds 0 (regions ix)"
        using ds(2,3) same2 unfolding table_ok_def by simp
      obtain w3 where w3: "release_dense ix 0 (regions ix) ?w2 = Some w3" "world_ok ?A live w3"
        "\<And>q. heap w3 q = (if q \<in> table_blocks ds 0 (regions ix) then None else heap ?w2 q)"
        using release_dense_ok [OF ok2 dir2 _ tok2] tab ds(2) by auto
      have kind: "\<exists>hs. heap w q = Some (HandleTable hs)" if "q \<in> table_blocks ds 0 (regions ix)" for q
        using that tab ds(2) by (auto simp: table_blocks_def)
      have pn: "p \<notin> table_blocks ds 0 (regions ix)" using kind [of p] block(4) by auto
      have dn: "directory ix \<notin> table_blocks ds 0 (regions ix)"
        using kind [of "directory ix"] ds(1) by auto
      have sn: "self ix \<notin> table_blocks ds 0 (regions ix)"
        using kind [of "self ix"] index_invD(8) [OF inv] by auto
      have "heap w3 (directory ix) \<noteq> None" using w3(3) dn dir2 by simp
      then obtain w4 where w4: "memx_deallocate ?A (directory ix) w3 = Some w4"
        "heap w4 = (heap w3)(directory ix := None)" "world_ok ?A live w4"
        using memx_deallocate_ok [OF w3(2)] by blast
      let ?ix = "ix\<lparr>directory := 0, flat_entries := p, flat_mode := True, dense_regions := 0\<rparr>"
      have pd: "p \<noteq> directory ix" using live ds(1) by force
      have ps: "p \<noteq> self ix" using live index_invD(8) [OF inv] by force
      have sd: "self ix \<noteq> directory ix" using index_invD(8) [OF inv] ds(1) by auto
      have h4: "heap w4 q = (if q \<in> table_blocks ds 0 (regions ix) \<or> q = directory ix then None
          else if q = p then Some (HandleTable vs) else heap w q)" for q
        by (simp add: w4(2) w3(3))
      have p4: "heap w4 p = Some (HandleTable vs)" using h4 pn pd by simp
      have fin: "memx_index_optimize (Some ix) w = Some (MEMX_OK, Some ?ix, w4)"
        unfolding run using block(1,2) vs(1) i2 w3(1) w4(1) by simp
      have shape: "index_shape ?ix" using sh b by (simp add: index_shape_def)
      have "fr q = (if q \<in> {self ix, p} then None else heap w4 q)" for q
        using index_invD(9) [OF inv] block(4) pd ps sn b
        unfolding frame_ok_def owned_def ds(4) h4 by (auto simp: leaf_blocks_def)
      then have "flat_inv live fr ?ix w4"
        using w4(3) shape b modes p4 vs(2) h4 sn sd ps index_invD(8) [OF inv]
        by (simp add: flat_inv_def)
      then show thesis
        by (rule good [OF fin]) (use vals p4 in \<open>simp_all add: fmap_of_def\<close>)
    qed
  qed
qed

text \<open>The converse of the refusal: an index that is sparse or has a region that is not dense is
  never converted.\<close>

lemma optimize_refused:
  assumes inv: "index_inv live fr ix w"
    and nd: "\<not> bounded ix \<or> (\<exists>i < regions ix. \<not> is_dense (rdesc ix (heap w) i))"
  shows "memx_index_optimize (Some ix) w = Some (MEMX_ERROR_UNSUPPORTED, Some ix, w)"
proof -
  have "\<not> bounded ix \<or> dense_regions ix \<noteq> region_count ix"
    using nd all_dense [of ix "heap w"] index_invD(6) [OF inv] by auto
  then show ?thesis using index_invD(10,11) [OF inv] by (auto simp: memx_index_optimize_def)
qed

section \<open>Updates in flat mode\<close>

definition flat_holds :: "'c memx_index \<Rightarrow> 'c memx_world \<Rightarrow> nat \<Rightarrow> nat \<Rightarrow> u64 \<Rightarrow> bool" where
  "flat_holds ix w k m v \<longleftrightarrow> (\<forall>g. k \<le> g \<and> g < m \<longrightarrow> fmap_of ix (heap w) g = v)"

lemma flat_position_at:
  assumes "index_shape ix" "at ix c k" "k < regions ix * per_region ix"
  shows "flat_position ix c = k"
  unfolding flat_position_def
  using flat_offset [OF assms(1) at_covered [OF assms]] at_granule_of [OF assms(2)] by simp

text \<open>The state of the write loop at granule \<open>k\<close>.\<close>

definition flat_written ::
  "'c memx_index \<Rightarrow> 'c memx_world \<Rightarrow> u64 list \<Rightarrow> nat \<Rightarrow> nat \<Rightarrow> u64 \<Rightarrow> 'c memx_world \<Rightarrow> bool" where
  "flat_written ix w hs k0 k v w' \<longleftrightarrow>
     (\<exists>hs'. heap w' = (heap w)(flat_entries ix \<mapsto> HandleTable hs') \<and> length hs' = length hs
        \<and> (\<forall>g < length hs. hs' ! g = (if k0 \<le> g \<and> g < k then v else hs ! g)) \<and> ctx w' = ctx w)"

lemma flat_write_step:
  assumes "flat_written ix w hs k0 k v w1" "k0 \<le> k" "k < length hs" "flat_position ix c = k"
  obtains w2 where "flat_write_body ix v c w1 = Some (MEMX_OK, w2)"
    "flat_written ix w hs k0 (Suc k) v w2"
proof -
  obtain hs1 where h: "heap w1 = (heap w)(flat_entries ix \<mapsto> HandleTable hs1)" "length hs1 = length hs"
    "\<forall>g < length hs. hs1 ! g = (if k0 \<le> g \<and> g < k then v else hs ! g)" "ctx w1 = ctx w"
    using assms(1) unfolding flat_written_def by blast
  let ?w2 = "w1\<lparr>heap := (heap w)(flat_entries ix \<mapsto> HandleTable (hs1[k := v]))\<rparr>"
  have "flat_write_body ix v c w1 = Some (MEMX_OK, ?w2)"
    using assms(3,4) h(1,2) by (simp add: flat_write_body_def write_handle_def)
  moreover have "flat_written ix w hs k0 (Suc k) v ?w2"
    unfolding flat_written_def
    using h assms(2,3) by (intro exI [of _ "hs1[k := v]"]) (auto simp: nth_list_update less_Suc_eq)
  ultimately show thesis by (rule that)
qed

lemma flat_update_ok:
  assumes inv: "flat_inv live fr ix w" and b: "at ix base k0" and e: "at ix e m"
    and km: "k0 \<le> m" and m: "m \<le> regions ix * per_region ix" and nf: "failure \<noteq> MEMX_OK"
  obtains (refused) "flat_update ix base e expected failure v w = Some (failure, w)"
      "\<not> flat_holds ix w k0 m expected"
    | (wrote) w' where "flat_update ix base e expected failure v w = Some (MEMX_OK, w')"
      "flat_holds ix w k0 m expected" "flat_inv live fr ix w'"
      "\<And>g. g < regions ix * per_region ix \<Longrightarrow>
         fmap_of ix (heap w') g = (if k0 \<le> g \<and> g < m then v else fmap_of ix (heap w) g)"
proof -
  note sh = flat_invD(2) [OF inv]
  obtain hs where hs: "heap w (flat_entries ix) = Some (HandleTable hs)"
    "length hs = regions ix * per_region ix" "fmap_of ix (heap w) = (!) hs"
    by (rule flat_table [OF inv])
  let ?st = "if flat_holds ix w k0 m expected then MEMX_OK else failure"
  have "\<exists>st u. granule_walk (flat_check_body ix expected failure w) (granule_bytes_of ix) e base ()
      = Some (st, u) \<and> st = ?st"
  proof (rule granule_walk_rule [OF sh e, where ?k0.0 = k0
        and I = "\<lambda>k u. flat_holds ix w k0 k expected", OF _ _ b _ km])
    fix k c u
    assume h: "k0 \<le> k" "k < m" "at ix c k" "flat_holds ix w k0 k expected"
    have kN: "k < regions ix * per_region ix" using h m by simp
    have st: "flat_check_body ix expected failure w c u =
        Some (if hs ! k = expected then MEMX_OK else failure, u)"
      using hs kN flat_position_at [OF sh h(3) kN] by (simp add: flat_check_body_def)
    show "\<exists>st u'. flat_check_body ix expected failure w c u = Some (st, u') \<and>
        (if st = MEMX_OK then flat_holds ix w k0 (Suc k) expected else st = ?st)"
    proof (cases "hs ! k = expected")
      case True
      then show ?thesis using h(4) st by (auto simp: flat_holds_def hs(3) less_Suc_eq)
    next
      case False
      then have "\<not> flat_holds ix w k0 m expected" using h by (auto simp: flat_holds_def hs(3))
      then show ?thesis using False st nf by auto
    qed
  qed (auto simp: flat_holds_def)
  then have check: "granule_walk (flat_check_body ix expected failure w) (granule_bytes_of ix) e base ()
      = Some (?st, ())" by auto
  show thesis
  proof (cases "flat_holds ix w k0 m expected")
    case False
    then show thesis using check nf by (intro refused) (simp_all add: flat_update_def)
  next
    case True
    have "\<exists>st w'. granule_walk (flat_write_body ix v) (granule_bytes_of ix) e base w = Some (st, w')
        \<and> (st = MEMX_OK \<and> flat_written ix w hs k0 m v w')"
    proof (rule granule_walk_rule [OF sh e, where ?k0.0 = k0
          and I = "\<lambda>k. flat_written ix w hs k0 k v", OF _ _ b _ km])
      fix k c w1
      assume h: "k0 \<le> k" "k < m" "at ix c k" "flat_written ix w hs k0 k v w1"
      have kN: "k < regions ix * per_region ix" using h m by simp
      have kl: "k < length hs" using kN hs(2) by simp
      show "\<exists>st w'. flat_write_body ix v c w1 = Some (st, w') \<and>
          (if st = MEMX_OK then flat_written ix w hs k0 (Suc k) v w'
           else st = MEMX_OK \<and> flat_written ix w hs k0 m v w')"
        by (rule flat_write_step [OF h(4,1) kl flat_position_at [OF sh h(3) kN]]) auto
    next
      show "flat_written ix w hs k0 k0 v w"
        unfolding flat_written_def using hs(1) by (intro exI [of _ hs]) (auto simp: fun_eq_iff)
    qed simp_all
    then obtain w' where w': "granule_walk (flat_write_body ix v) (granule_bytes_of ix) e base w
        = Some (MEMX_OK, w')" "flat_written ix w hs k0 m v w'" by blast
    obtain hs' where h: "heap w' = (heap w)(flat_entries ix \<mapsto> HandleTable hs')" "length hs' = length hs"
      "\<forall>g < length hs. hs' ! g = (if k0 \<le> g \<and> g < m then v else hs ! g)" "ctx w' = ctx w"
      using w'(2) unfolding flat_written_def by blast
    have ok': "world_ok (index_allocator ix) live w'"
      by (rule fill_handles_world_ok [OF flat_invD(1) [OF inv] _ h(1,4)]) (simp add: hs(1))
    have sf: "self ix \<noteq> flat_entries ix" using hs(1) flat_invD(6) [OF inv] by auto
    show thesis
    proof (rule wrote)
      show "flat_update ix base e expected failure v w = Some (MEMX_OK, w')"
        using check True w'(1) by (simp add: flat_update_def)
      show "flat_inv live fr ix w'"
        using inv ok' sf h(2) hs by (auto simp: flat_inv_def h(1))
      show "fmap_of ix (heap w') g = (if k0 \<le> g \<and> g < m then v else fmap_of ix (heap w) g)"
        if "g < regions ix * per_region ix" for g
        using h(3) that hs(2,3) by (simp add: fmap_of_def h(1))
    qed (rule True)
  qed
qed

lemma flat_insert:
  assumes inv: "flat_inv live fr ix w" and h: "handle \<noteq> MEMX_HANDLE_INVALID"
    and val: "memx_validate_range (Some ix) base sz = (MEMX_OK, e)"
    and b: "at ix base k0" and e: "at ix e m" and km: "k0 < m" and m: "m \<le> regions ix * per_region ix"
  obtains (refused) "memx_insert (Some ix) base sz handle w = Some (MEMX_ERROR_OVERLAP, Some ix, w)"
      "\<not> flat_holds ix w k0 m MEMX_HANDLE_INVALID"
    | (wrote) w' where "memx_insert (Some ix) base sz handle w = Some (MEMX_OK, Some ix, w')"
      "flat_holds ix w k0 m MEMX_HANDLE_INVALID" "flat_inv live fr ix w'"
      "\<And>g. g < regions ix * per_region ix \<Longrightarrow>
         fmap_of ix (heap w') g = (if k0 \<le> g \<and> g < m then handle else fmap_of ix (heap w) g)"
proof -
  have e1: "memx_insert (Some ix) base sz handle w = do {
      (status, w) \<leftarrow> flat_update ix base e MEMX_HANDLE_INVALID MEMX_ERROR_OVERLAP handle w;
      Some (status, Some ix, w) }"
    using h val flat_invD(4,5) [OF inv] by (simp add: memx_insert_def)
  have nf: "MEMX_ERROR_OVERLAP \<noteq> MEMX_OK" by simp
  show thesis
    using inv b e less_imp_le [OF km] m nf
  proof (cases rule: flat_update_ok [where expected = MEMX_HANDLE_INVALID and v = handle])
    case refused
    then show thesis by (intro that(1)) (simp_all add: e1)
  next
    case (wrote w')
    then show thesis by (intro that(2) [of w']) (simp_all add: e1)
  qed
qed

lemma flat_remove:
  assumes inv: "flat_inv live fr ix w" and h: "expected \<noteq> MEMX_HANDLE_INVALID"
    and val: "memx_validate_range (Some ix) base sz = (MEMX_OK, e)"
    and b: "at ix base k0" and e: "at ix e m" and km: "k0 < m" and m: "m \<le> regions ix * per_region ix"
  obtains (refused) "memx_remove (Some ix) base sz expected w = Some (MEMX_ERROR_NOT_FOUND, Some ix, w)"
      "\<not> flat_holds ix w k0 m expected"
    | (wrote) w' where "memx_remove (Some ix) base sz expected w = Some (MEMX_OK, Some ix, w')"
      "flat_holds ix w k0 m expected" "flat_inv live fr ix w'"
      "\<And>g. g < regions ix * per_region ix \<Longrightarrow>
         fmap_of ix (heap w') g = (if k0 \<le> g \<and> g < m then MEMX_HANDLE_INVALID
                                   else fmap_of ix (heap w) g)"
proof -
  have e1: "memx_remove (Some ix) base sz expected w = do {
      (status, w) \<leftarrow> flat_update ix base e expected MEMX_ERROR_NOT_FOUND MEMX_HANDLE_INVALID w;
      Some (status, Some ix, w) }"
    using h val flat_invD(4,5) [OF inv] by (simp add: memx_remove_def)
  have nf: "MEMX_ERROR_NOT_FOUND \<noteq> MEMX_OK" by simp
  show thesis
    using inv b e less_imp_le [OF km] m nf
  proof (cases rule: flat_update_ok [where expected = expected and v = MEMX_HANDLE_INVALID])
    case refused
    then show thesis by (intro that(1)) (simp_all add: e1)
  next
    case (wrote w')
    then show thesis by (intro that(2) [of w']) (simp_all add: e1)
  qed
qed

lemma flat_destroy:
  assumes inv: "flat_inv live fr ix w"
  obtains w' where "memx_index_destroy munmap (Some ix) w = Some w'" "heap w' = fr"
    "world_ok (index_allocator ix) live w'"
proof -
  let ?A = "index_allocator ix"
  obtain hs where hs: "heap w (flat_entries ix) = Some (HandleTable hs)" using flat_table [OF inv] by metis
  then have "heap w (flat_entries ix) \<noteq> None" by simp
  then obtain w1 where w1: "memx_deallocate ?A (flat_entries ix) w = Some w1"
    "heap w1 = (heap w)(flat_entries ix := None)" "world_ok ?A live w1"
    using memx_deallocate_ok [OF flat_invD(1) [OF inv]] by blast
  have ne: "self ix \<noteq> flat_entries ix" using hs flat_invD(6) [OF inv] by auto
  then have "heap w1 (self ix) \<noteq> None" using w1(2) flat_invD(6) [OF inv] by simp
  then obtain w2 where w2: "memx_deallocate ?A (self ix) w1 = Some w2"
    "heap w2 = (heap w1)(self ix := None)" "world_ok ?A live w2"
    using memx_deallocate_ok [OF w1(3)] by blast
  show thesis
  proof (rule that)
    show "memx_index_destroy munmap (Some ix) w = Some w2"
      using flat_invD(4) [OF inv] w1(1) w2(1) by (simp add: memx_index_destroy_def)
    show "heap w2 = fr" using flat_invD(7) [OF inv] by (auto simp: fun_eq_iff w2(2) w1(2))
  qed (rule w2(3))
qed

end
