(* ===== verification/Memx_Overlay.thy ===== *)
theory Memx_Overlay
  imports Memx_Flat
begin

text \<open>
  Overlay mode: \<^verbatim>\<open>memx_overlay_allocate\<close> with its guard pages, \<^verbatim>\<open>memx_index_optimize_overlay\<close>, the
  overlay view and its branchless lookup.  The kernel calls are parameters.  The theorems: the
  payload sits between two inaccessible pages; freezing is invisible to every lookup; the
  private byte count is the number of pages that dense regions touch, times the page size;
  the branchless lookup agrees with the full one wherever an address is mapped.
\<close>

section \<open>The platform\<close>

text \<open>\<^term>\<open>None\<close> of \<open>os_mmap\<close> is \<^verbatim>\<open>MAP_FAILED\<close>; \<open>os_probe\<close> is what reading the kernel's
  huge-page size file gives, \<^term>\<open>None\<close> when it cannot be opened.\<close>

record 'c memx_os =
  os_page_result :: u64
  os_probe :: "u64 option"
  os_mmap :: "'c \<Rightarrow> u64 \<Rightarrow> u64 option \<times> 'c"
  os_mprotect :: "'c \<Rightarrow> u64 \<Rightarrow> u64 \<Rightarrow> bool \<times> 'c"
  os_madvise :: "'c \<Rightarrow> u64 \<Rightarrow> u64 \<Rightarrow> 'c"
  os_munmap :: "'c \<Rightarrow> u64 \<Rightarrow> u64 \<Rightarrow> 'c"

definition memx_overlay_platform_supported :: bool where
  "memx_overlay_platform_supported = True"

definition memx_host_huge_page_size :: "'c memx_os \<Rightarrow> 'c memx_world \<Rightarrow> u64 \<times> 'c memx_world" where
  "memx_host_huge_page_size os w =
     (if huge_page_cache w \<noteq> SIZE_MAX then (huge_page_cache w, w)
      else
        let found = (case os_probe os of None \<Rightarrow> 0 | Some v \<Rightarrow> v);
            v = (if found = 0 \<or> found AND (found - 1) \<noteq> 0
                    \<or> found \<le> memx_host_page_size (os_page_result os) then 0 else found)
        in (v, w\<lparr>huge_page_cache := v\<rparr>))"

record memx_overlay_block =
  ob_entries :: u64
  ob_reserved_bytes :: u64
  ob_page_size :: u64
  ob_mapping :: u64

definition memx_overlay_allocate ::
  "'c memx_os \<Rightarrow> u64 \<Rightarrow> bool \<Rightarrow> 'c memx_world \<Rightarrow> memx_overlay_block option \<times> 'c memx_world" where
  "memx_overlay_allocate os bytes huge_pages w = (
     let page_size = os_page_result os in
     if sint page_size \<le> 0 then (None, w)
     else if page_size AND (page_size - 1) \<noteq> 0 then (None, w)
     else
       let (huge_page_size, w) = (if huge_pages then memx_host_huge_page_size os w else (0, w));
           granularity = (if huge_pages \<and> page_size < huge_page_size \<and> huge_page_size \<le> bytes
                          then huge_page_size else page_size)
       in
       if SIZE_MAX - (granularity - 1) < bytes then (None, w)
       else
         let rounded = (bytes + granularity - 1) AND NOT (granularity - 1);
             guard = granularity
         in
         if SIZE_MAX div 2 < guard \<or> SIZE_MAX - guard * 2 < rounded then (None, w)
         else
           let reserved = rounded + guard * 2;
               (mapping, c) = os_mmap os (ctx w) reserved;
               w = w\<lparr>ctx := c\<rparr>
           in case mapping of
                None \<Rightarrow> (None, w)
              | Some mapping \<Rightarrow>
                 (let payload = (mapping + 1 + granularity - 1) AND NOT (granularity - 1);
                      (ok, c) = os_mprotect os (ctx w) payload rounded;
                      w = w\<lparr>ctx := c\<rparr>
                  in if \<not> ok then (None, w\<lparr>ctx := os_munmap os (ctx w) mapping reserved\<rparr>)
                     else
                       let w = (if granularity \<noteq> page_size
                                then w\<lparr>ctx := os_madvise os (ctx w) payload rounded\<rparr> else w);
                           w = w\<lparr>maps := (maps w)(payload \<mapsto> replicate (unat rounded div 8) 0)\<rparr>
                       in (Some \<lparr>ob_entries = payload, ob_reserved_bytes = reserved,
                                 ob_page_size = granularity, ob_mapping = mapping\<rparr>, w)))"

section \<open>Freezing\<close>

text \<open>Phase one, first loop: no descriptor carries an unknown tag.\<close>

fun descriptors_valid :: "'c memx_index \<Rightarrow> 'c memx_world \<Rightarrow> nat \<Rightarrow> nat \<Rightarrow> bool option" where
  "descriptors_valid ix w i 0 = Some True"
| "descriptors_valid ix w i (Suc n) = do {
     d \<leftarrow> read_region w (directory ix, i);
     if d \<noteq> 0 \<and> memx_region_type_decode d = MEMX_REGION_EMPTY then Some False
     else descriptors_valid ix w (Suc i) n
   }"

text \<open>\<^verbatim>\<open>memcpy\<close> of one dense table into the overlay.\<close>

definition overlay_copy_row ::
  "u64 \<Rightarrow> nat \<Rightarrow> u64 list \<Rightarrow> 'c memx_world \<Rightarrow> 'c memx_world option" where
  "overlay_copy_row p first row w =
     (case maps w p of
        Some es \<Rightarrow>
          (if first + length row \<le> length es
           then Some (w\<lparr>maps := (maps w)(p \<mapsto>
                  take first es @ row @ drop (first + length row) es)\<rparr>)
           else None)
      | None \<Rightarrow> None)"

text \<open>The footprint update of the second loop: private bytes and the end of the last page.\<close>

definition overlay_account ::
  "u64 \<Rightarrow> u64 \<Rightarrow> u64 \<Rightarrow> u64 \<times> u64 \<Rightarrow> u64 \<times> u64" where
  "overlay_account page_size region_bytes region_index acc = (
     let (private_bytes, previous_page_end) = acc;
         dense_start = region_index * region_bytes;
         dense_end = dense_start + region_bytes;
         page_start = dense_start AND NOT (page_size - 1);
         page_end = (dense_end + page_size - 1) AND NOT (page_size - 1)
     in if previous_page_end < page_end
        then (private_bytes + (page_end - (if page_start < previous_page_end
                                           then previous_page_end else page_start)), page_end)
        else (private_bytes, previous_page_end))"

fun overlay_fill ::
  "'c memx_index \<Rightarrow> u64 \<Rightarrow> u64 \<Rightarrow> u64 \<Rightarrow> nat \<Rightarrow> nat \<Rightarrow> u64 \<times> u64 \<Rightarrow> 'c memx_world
     \<Rightarrow> ((u64 \<times> u64) \<times> 'c memx_world) option" where
  "overlay_fill ix p page_size region_bytes i 0 acc w = Some (acc, w)"
| "overlay_fill ix p page_size region_bytes i (Suc n) acc w = do {
     d \<leftarrow> read_region w (directory ix, i);
     if memx_region_type_decode d = MEMX_REGION_DENSE then do {
       row \<leftarrow> table_entries w (memx_dense_decode d) (unat (granules_per_region ix));
       w \<leftarrow> overlay_copy_row p (i * unat (granules_per_region ix)) row w;
       overlay_fill ix p page_size region_bytes (Suc i) n
         (overlay_account page_size region_bytes (of_nat i) acc) w
     }
     else overlay_fill ix p page_size region_bytes (Suc i) n acc w
   }"

text \<open>The loop after the publication point: dense descriptors lose their tables.\<close>

fun overlay_publish :: "'c memx_index \<Rightarrow> nat \<Rightarrow> nat \<Rightarrow> 'c memx_world \<Rightarrow> 'c memx_world option" where
  "overlay_publish ix i 0 w = Some w"
| "overlay_publish ix i (Suc n) w = do {
     d \<leftarrow> read_region w (directory ix, i);
     w \<leftarrow> (if memx_region_type_decode d = MEMX_REGION_DENSE then do {
             w \<leftarrow> write_region (directory ix, i) MEMX_DESCRIPTOR_DENSE_TAG w;
             memx_deallocate (index_allocator ix) (memx_dense_decode d) w
           }
           else Some w);
     overlay_publish ix (Suc i) n w
   }"

definition memx_index_optimize_overlay ::
  "'c memx_os \<Rightarrow> 'c memx_index option \<Rightarrow> 'c memx_world
     \<Rightarrow> (memx_status \<times> 'c memx_index option \<times> 'c memx_world) option" where
  "memx_index_optimize_overlay os index w =
     (case index of
        None \<Rightarrow> Some (MEMX_ERROR_INVALID_ARGUMENT, None, w)
      | Some ix \<Rightarrow>
         (if overlay_mode ix then Some (MEMX_OK, Some ix, w)
          else if flat_mode ix \<or> \<not> bounded ix \<or> \<not> memx_overlay_platform_supported
          then Some (MEMX_ERROR_UNSUPPORTED, Some ix, w)
          else if SIZE_MAX div granules_per_region ix < region_count ix
          then Some (MEMX_ERROR_OUT_OF_MEMORY, Some ix, w)
          else let entry_count = region_count ix * granules_per_region ix in
          if SIZE_MAX div 8 < entry_count
          then Some (MEMX_ERROR_OUT_OF_MEMORY, Some ix, w)
          else do {
            let bytes = entry_count * 8;
            let overlay_region_bytes = granules_per_region ix * 8;
            valid \<leftarrow> descriptors_valid ix w 0 (unat (region_count ix));
            if \<not> valid then Some (MEMX_ERROR_INVALID_ARGUMENT, Some ix, w)
            else let (block, w) =
                   memx_overlay_allocate os bytes (overlay_huge_pages (config ix)) w
            in case block of
                 None \<Rightarrow> Some (MEMX_ERROR_OUT_OF_MEMORY, Some ix, w)
               | Some b \<Rightarrow> do {
                   ((private_bytes, _), w) \<leftarrow>
                     overlay_fill ix (ob_entries b) (ob_page_size b) overlay_region_bytes 0
                       (unat (region_count ix)) (0, 0) w;
                   let ix' = ix\<lparr>overlay_entries := ob_entries b, overlay_mapping := ob_mapping b,
                               overlay_bytes := ob_reserved_bytes b,
                               overlay_private_bytes := private_bytes, overlay_mode := True\<rparr>;
                   w \<leftarrow> overlay_publish ix' 0 (unat (region_count ix)) w;
                   Some (MEMX_OK, Some ix', w)
                 }
          }))"

section \<open>The overlay view\<close>

record memx_overlay_view =
  ov_base_address :: u64
  ov_region_shift :: u32
  ov_granule_shift :: u32
  ov_entry_count :: u64
  ov_descriptors :: u64
  ov_dense_overlay :: u64

definition memx_index_overlay_view ::
  "'c memx_index option \<Rightarrow> bool \<Rightarrow> memx_status \<times> memx_overlay_view option" where
  "memx_index_overlay_view index out_view_present =
     (case index of
        None \<Rightarrow> (MEMX_ERROR_INVALID_ARGUMENT, None)
      | Some ix \<Rightarrow>
         (if \<not> out_view_present then (MEMX_ERROR_INVALID_ARGUMENT, None)
          else if \<not> overlay_mode ix then (MEMX_ERROR_UNSUPPORTED, None)
          else (MEMX_OK, Some \<lparr>ov_base_address = base_address (config ix),
                               ov_region_shift = region_shift (config ix),
                               ov_granule_shift = granule_shift (config ix),
                               ov_entry_count = drop_bit (unat (granule_shift (config ix)))
                                                  (managed_size (config ix)),
                               ov_descriptors = directory ix,
                               ov_dense_overlay = overlay_entries ix\<rparr>)))"

definition memx_overlay_lookup_trusted ::
  "memx_overlay_view \<Rightarrow> 'c memx_world \<Rightarrow> u64 \<Rightarrow> u64 option" where
  "memx_overlay_lookup_trusted view w address = (
     let relative = address - ov_base_address view;
         region_index = drop_bit (unat (ov_region_shift view)) relative;
         granule_index = drop_bit (unat (ov_granule_shift view)) relative
     in do {
       descriptor \<leftarrow> read_region w (ov_descriptors view, unat region_index);
       let dense_mask = (0 :: u64) - (drop_bit 1 descriptor AND 1);
       dense \<leftarrow> read_map w (ov_dense_overlay view) (unat granule_index);
       let uniform = drop_bit 2 descriptor;
       Some ((dense AND dense_mask) OR (uniform AND NOT dense_mask))
     })"

section \<open>Powers of two\<close>

lemma nat_pow2_test: "0 < (n :: nat) \<Longrightarrow> n AND (n - 1) = 0 \<Longrightarrow> \<exists>k. n = 2 ^ k"
proof (induction n rule: less_induct)
  case (less n)
  show ?case
  proof (cases "even n")
    case True
    then obtain m where m: "n = 2 * m" by (auto elim: evenE)
    with less.prems have pos: "0 < m" by simp
    have e: "n AND (n - 1) = 2 * (m AND (m - 1))"
    proof -
      have "(n - 1) div 2 = m - 1" "n div 2 = m" using m pos by auto
      then show ?thesis using m by (subst and_nat_rec) simp
    qed
    then have "m AND (m - 1) = 0" using less.prems by simp
    then obtain k where "m = 2 ^ k" using less.IH [of m] m pos by auto
    then have "n = 2 ^ Suc k" using m by simp
    then show ?thesis by blast
  next
    case False
    then obtain m where m: "n = 2 * m + 1" by (auto elim: oddE)
    have "n AND (n - 1) = 2 * (m AND m)"
      using m by (subst and_nat_rec) simp
    then have "n = 2 ^ 0" using less.prems m by simp
    then show ?thesis by blast
  qed
qed

lemma pow2_test:
  assumes "(x :: u64) AND (x - 1) = 0" "x \<noteq> 0"
  obtains k where "k < 64" "x = 2 ^ k" "unat x = 2 ^ k"
proof -
  have p: "0 < unat x" using assms(2) by (simp add: unat_gt_0)
  have "unat (x AND (x - 1)) = unat x AND unat (x - 1)" by (rule unsigned_and_eq)
  then have "unat x AND (unat x - 1) = 0" using assms(1) unat_dec [OF p] by simp
  then obtain k where k: "unat x = 2 ^ k" using nat_pow2_test [OF p] by blast
  have "k < 64"
  proof (rule ccontr)
    assume "\<not> k < 64"
    then have "(2 :: nat) ^ 64 \<le> unat x" unfolding k by (intro power_increasing) simp_all
    then show False using unat_lt_64 [of x] by simp
  qed
  moreover have "x = 2 ^ k" using unat_pow2 [OF \<open>k < 64\<close>] k by (simp only: unat_eq_iff)
  ultimately show thesis using that k by blast
qed

section \<open>The reservation\<close>

text \<open>What the kernel documents: a mapping is page aligned, in the address space, not null; no
  call touches the allocator's blocks.\<close>

definition os_contract :: "'c memx_os \<Rightarrow> ('c \<Rightarrow> u64 set) \<Rightarrow> bool" where
  "os_contract os live \<longleftrightarrow>
     (\<forall>c n m c'. os_mmap os c n = (m, c') \<longrightarrow> live c' = live c
        \<and> (\<forall>a. m = Some a \<longrightarrow> a \<noteq> 0 \<and> unat (os_page_result os) dvd unat a
              \<and> unat a + unat n \<le> 2 ^ 64))
     \<and> (\<forall>c p n b c'. os_mprotect os c p n = (b, c') \<longrightarrow> live c' = live c)
     \<and> (\<forall>c p n. live (os_madvise os c p n) = live c)
     \<and> (\<forall>c p n. live (os_munmap os c p n) = live c)"

definition page_power :: "u64 \<Rightarrow> bool" where
  "page_power g \<longleftrightarrow> (\<exists>k < 64. unat g = 2 ^ k)"

definition page_cache_ok :: "'c memx_os \<Rightarrow> u64 \<Rightarrow> bool" where
  "page_cache_ok os c \<longleftrightarrow> c = SIZE_MAX \<or> c = 0 \<or> page_power c"

lemma host_huge_page:
  assumes "page_cache_ok os (huge_page_cache w)"
  obtains v w' where "memx_host_huge_page_size os w = (v, w')" "v = 0 \<or> page_power v"
    "heap w' = heap w" "maps w' = maps w" "ctx w' = ctx w" "huge_page_cache w' = v"
proof (cases "huge_page_cache w = SIZE_MAX")
  case False
  then show thesis
    using assms by (intro that [of "huge_page_cache w" w])
      (auto simp: memx_host_huge_page_size_def page_cache_ok_def)
next
  case True
  let ?f = "case os_probe os of None \<Rightarrow> 0 | Some v \<Rightarrow> v"
  let ?v = "if ?f = 0 \<or> ?f AND (?f - 1) \<noteq> 0 \<or> ?f \<le> memx_host_page_size (os_page_result os)
            then 0 else ?f"
  define v where "v = ?v"
  have "memx_host_huge_page_size os w = (v, w\<lparr>huge_page_cache := v\<rparr>)"
    using True by (simp only: memx_host_huge_page_size_def Let_def simp_thms if_False v_def)
  moreover have "v = 0 \<or> page_power v"
  proof (cases "v = 0")
    case False
    then have f: "v = ?f" "?f \<noteq> 0" "?f AND (?f - 1) = 0" unfolding v_def by (meson)+
    obtain k where "k < 64" "unat ?f = 2 ^ k" by (rule pow2_test [OF f(3,2)])
    then show ?thesis unfolding f(1) by (auto simp: page_power_def)
  qed simp
  ultimately show thesis by (rule that) simp_all
qed

lemma page_power_mask: "page_power g \<Longrightarrow> \<exists>k < 64. g = 2 ^ k \<and> unat g = 2 ^ k"
  unfolding page_power_def by (metis unat_eq_iff unat_pow2)

lemma pow2_dvd_le: "page_power p \<Longrightarrow> page_power g \<Longrightarrow> unat p \<le> unat g \<Longrightarrow> unat p dvd unat g"
  unfolding page_power_def by (metis le_imp_power_dvd power_le_imp_le_exp one_less_numeral_iff semiring_norm(76))

lemma unat_lt_pow: "unat (x :: u64) < 2 ^ 64"
  by simp

text \<open>The geometry of a reservation: a guard below the payload and one above it.\<close>

definition reservation ::
  "u64 \<Rightarrow> u64 \<Rightarrow> memx_overlay_block \<Rightarrow> nat \<Rightarrow> bool" where
  "reservation page bytes b rounded \<longleftrightarrow>
     page_power (ob_page_size b) \<and> unat page \<le> unat (ob_page_size b)
     \<and> unat bytes \<le> rounded \<and> rounded < unat bytes + unat (ob_page_size b)
     \<and> unat (ob_page_size b) dvd rounded
     \<and> unat (ob_page_size b) dvd unat (ob_entries b)
     \<and> unat (ob_mapping b) + unat page \<le> unat (ob_entries b)
     \<and> unat (ob_entries b) + rounded + unat (ob_page_size b)
         \<le> unat (ob_mapping b) + unat (ob_reserved_bytes b)
     \<and> unat (ob_mapping b) + unat (ob_reserved_bytes b) \<le> 2 ^ 64 \<and> ob_mapping b \<noteq> 0"

lemma reservation_geometry:
  assumes page: "page_power page" and g: "page_power g" "unat page \<le> unat g"
    and small: "\<not> SIZE_MAX - (g - 1) < bytes"
    and rounded: "rounded = (bytes + g - 1) AND NOT (g - 1)"
    and room: "\<not> SIZE_MAX div 2 < g" "\<not> SIZE_MAX - g * 2 < rounded"
    and m: "m \<noteq> 0" "unat page dvd unat m" "unat m + unat (rounded + g * 2) \<le> 2 ^ 64"
    and p: "payload = (m + 1 + g - 1) AND NOT (g - 1)"
  shows "reservation page bytes \<lparr>ob_entries = payload, ob_reserved_bytes = rounded + g * 2,
      ob_page_size = g, ob_mapping = m\<rparr> (unat rounded)"
proof -
  obtain k where k: "k < 64" "g = 2 ^ k" "unat g = 2 ^ k" using page_power_mask [OF g(1)] by blast
  have gpos: "0 < unat g" unfolding k(3) by simp
  have g1: "unat (g - 1) = unat g - 1" by (rule unat_dec [OF gpos])
  have "g - 1 \<le> SIZE_MAX" by simp
  then have "unat (SIZE_MAX - (g - 1)) = 2 ^ 64 - 1 - (unat g - 1)" using unat_sub_exact [of "g - 1" SIZE_MAX] by (simp add: g1)
  then have "unat bytes \<le> 2 ^ 64 - 1 - (unat g - 1)"
    using small by (simp only: word_less_nat_alt not_less)
  then have fit: "unat bytes + (unat g - 1) < 2 ^ 64"
    using unat_lt_pow [of g] gpos by linarith
  have r: "unat rounded = (unat bytes + (unat g - 1)) div unat g * unat g"
    unfolding rounded k(3) using round_up_mask [OF k(1), of bytes] fit k by simp
  have rb: "unat bytes \<le> unat rounded" "unat rounded < unat bytes + unat g"
  proof -
    have "unat bytes + (unat g - 1) = unat rounded + (unat bytes + (unat g - 1)) mod unat g"
      unfolding r by (rule div_mult_mod_eq [symmetric])
    moreover have "(unat bytes + (unat g - 1)) mod unat g < unat g" using gpos by simp
    ultimately show "unat bytes \<le> unat rounded" "unat rounded < unat bytes + unat g"
      using gpos by linarith+
  qed
  have g2: "unat (g * 2) = unat g * 2"
    using room(1) by (intro unat_mult_exact [of g 2, simplified]) (simp add: word_less_nat_alt unat_div)
  have "g * 2 \<le> SIZE_MAX" by simp
  then have "unat (SIZE_MAX - g * 2) = 2 ^ 64 - 1 - unat g * 2"
    using unat_sub_exact [of "g * 2" SIZE_MAX] by (simp add: g2)
  then have "unat rounded \<le> 2 ^ 64 - 1 - unat g * 2"
    using room(2) by (simp only: word_less_nat_alt not_less)
  moreover have "unat g * 2 < 2 ^ 64" unfolding g2 [symmetric] by (rule unat_lt_pow)
  ultimately have sum: "unat rounded + unat g * 2 < 2 ^ 64" by linarith
  then have res: "unat (rounded + g * 2) = unat rounded + unat g * 2"
    by (subst unat_add_exact) (simp_all add: g2)
  have mg: "unat m + unat g < 2 ^ 64" using m(3) gpos unfolding res by linarith
  have "m + 1 + g - 1 = m + g" by simp
  then have "payload = (m + g) AND NOT (mask k)" unfolding p k(2) pow2_minus_1 by simp
  then have pl: "unat payload = (unat m + unat g) div unat g * unat g"
    using mg by (simp add: unat_and_not_mask unat_add_exact k(3))
  have up: "unat payload \<le> unat m + unat g" unfolding pl by (rule div_times_less_eq_dividend)
  have lo: "unat m < unat payload"
  proof -
    have "unat m + unat g = unat payload + (unat m + unat g) mod unat g"
      unfolding pl by (rule div_mult_mod_eq [symmetric])
    moreover have "(unat m + unat g) mod unat g < unat g" using gpos by simp
    ultimately show ?thesis by linarith
  qed
  have "unat page dvd unat g" by (rule pow2_dvd_le [OF page g])
  then have "unat page dvd unat payload" unfolding pl by (rule dvd_mult)
  then have "unat page dvd unat payload - unat m" using m(2) by (rule dvd_diff_nat)
  then have "unat page \<le> unat payload - unat m" using lo by (intro dvd_imp_le) simp_all
  then have low: "unat m + unat page \<le> unat payload" using lo by linarith
  have d: "unat g dvd unat rounded" "unat g dvd unat payload" unfolding r pl by simp_all
  have "unat m + unat (rounded + g * 2) \<le> 2 ^ 64" by (rule m(3))
  moreover have "unat payload + unat rounded + unat g \<le> unat m + unat (rounded + g * 2)"
    unfolding res using up by linarith
  ultimately show ?thesis
    unfolding reservation_def memx_overlay_block.simps using g rb low m(1) d by blast
qed

text \<open>The call after the page size and the granularity are settled.\<close>

definition overlay_map ::
  "'c memx_os \<Rightarrow> u64 \<Rightarrow> u64 \<Rightarrow> 'c memx_world \<Rightarrow> memx_overlay_block option \<times> 'c memx_world" where
  "overlay_map os bytes g w = (
     if SIZE_MAX - (g - 1) < bytes then (None, w)
     else
       let rounded = (bytes + g - 1) AND NOT (g - 1) in
       if SIZE_MAX div 2 < g \<or> SIZE_MAX - g * 2 < rounded then (None, w)
       else
         let reserved = rounded + g * 2; (mapping, c) = os_mmap os (ctx w) reserved; w = w\<lparr>ctx := c\<rparr>
         in case mapping of
              None \<Rightarrow> (None, w)
            | Some mapping \<Rightarrow>
               (let payload = (mapping + 1 + g - 1) AND NOT (g - 1);
                    (ok, c) = os_mprotect os (ctx w) payload rounded;
                    w = w\<lparr>ctx := c\<rparr>
                in if \<not> ok then (None, w\<lparr>ctx := os_munmap os (ctx w) mapping reserved\<rparr>)
                   else
                     let w = (if g \<noteq> os_page_result os
                              then w\<lparr>ctx := os_madvise os (ctx w) payload rounded\<rparr> else w);
                         w = w\<lparr>maps := (maps w)(payload \<mapsto> replicate (unat rounded div 8) 0)\<rparr>
                     in (Some \<lparr>ob_entries = payload, ob_reserved_bytes = reserved,
                               ob_page_size = g, ob_mapping = mapping\<rparr>, w)))"

lemma overlay_map_cases:
  assumes os: "os_contract os live" and page: "page_power (os_page_result os)"
    and g: "page_power g" "unat (os_page_result os) \<le> unat g"
  obtains (fail) w' where "overlay_map os bytes g w = (None, w')" "heap w' = heap w"
      "maps w' = maps w" "live (ctx w') = live (ctx w)"
    | (good) b n w' where "overlay_map os bytes g w = (Some b, w')"
      "reservation (os_page_result os) bytes b n" "heap w' = heap w"
      "maps w' = (maps w)(ob_entries b \<mapsto> replicate (n div 8) 0)" "live (ctx w') = live (ctx w)"
proof -
  let ?rounded = "(bytes + g - 1) AND NOT (g - 1)"
  let ?reserved = "?rounded + g * 2"
  show thesis
  proof (cases "SIZE_MAX - (g - 1) < bytes \<or> SIZE_MAX div 2 < g \<or> SIZE_MAX - g * 2 < ?rounded")
    case True
    then show thesis by (intro fail [of w]) (auto simp: overlay_map_def Let_def)
  next
    case room: False
    obtain m c where mc: "os_mmap os (ctx w) ?reserved = (m, c)" by fastforce
    have lc: "live c = live (ctx w)"
      and ma: "\<And>a. m = Some a \<Longrightarrow> a \<noteq> 0 \<and> unat (os_page_result os) dvd unat a
          \<and> unat a + unat ?reserved \<le> 2 ^ 64"
      using os mc unfolding os_contract_def by blast+
    show thesis
    proof (cases m)
      case None
      then show thesis using room mc lc
        by (intro fail [of "w\<lparr>ctx := c\<rparr>"]) (simp_all add: overlay_map_def Let_def)
    next
      case (Some a)
      let ?payload = "(a + 1 + g - 1) AND NOT (g - 1)"
      obtain ok c2 where pc: "os_mprotect os c ?payload ?rounded = (ok, c2)" by fastforce
      have l2: "live c2 = live c" using os pc unfolding os_contract_def by blast
      show thesis
      proof (cases ok)
        case False
        have "live (os_munmap os c2 a ?reserved) = live c2" using os by (simp add: os_contract_def)
        then show thesis using room mc lc Some pc l2 False
          by (intro fail [of "w\<lparr>ctx := os_munmap os c2 a ?reserved\<rparr>"])
             (simp_all add: overlay_map_def Let_def)
      next
        case True
        let ?b = "\<lparr>ob_entries = ?payload, ob_reserved_bytes = ?reserved, ob_page_size = g, ob_mapping = a\<rparr>"
        let ?c = "if g \<noteq> os_page_result os then os_madvise os c2 ?payload ?rounded else c2"
        let ?w = "w\<lparr>ctx := ?c, maps := (maps w)(?payload \<mapsto> replicate (unat ?rounded div 8) 0)\<rparr>"
        have l3: "live ?c = live c2" using os by (simp add: os_contract_def)
        have "overlay_map os bytes g w = (Some ?b, ?w)"
          using room mc Some pc True by (simp add: overlay_map_def Let_def)
        moreover have "reservation (os_page_result os) bytes ?b (unat ?rounded)"
          using room ma [OF Some] by (intro reservation_geometry [OF page g _ refl _ _ _ _ _ refl]) simp_all
        ultimately show thesis using lc l2 l3 by (intro good [of ?b ?w "unat ?rounded"]) simp_all
      qed
    qed
  qed
qed

lemma memx_overlay_allocate_cases:
  assumes os: "os_contract os live" and cache: "page_cache_ok os (huge_page_cache w)"
  obtains (fail) w' where "memx_overlay_allocate os bytes hp w = (None, w')" "heap w' = heap w"
      "maps w' = maps w" "live (ctx w') = live (ctx w)"
    | (good) b n w' where "memx_overlay_allocate os bytes hp w = (Some b, w')"
      "page_power (os_page_result os)"
      "reservation (os_page_result os) bytes b n" "heap w' = heap w"
      "maps w' = (maps w)(ob_entries b \<mapsto> replicate (n div 8) 0)" "live (ctx w') = live (ctx w)"
proof -
  let ?page = "os_page_result os"
  show thesis
  proof (cases "sint ?page \<le> 0 \<or> ?page AND (?page - 1) \<noteq> 0")
    case True
    then have "memx_overlay_allocate os bytes hp w = (None, w)"
      unfolding memx_overlay_allocate_def Let_def [of ?page] by (meson if_P)
    then show thesis by (rule fail) simp_all
  next
    case False
    then have "?page \<noteq> 0" "?page AND (?page - 1) = 0" by auto
    then obtain k where "k < 64" "unat ?page = 2 ^ k" using pow2_test by metis
    then have page: "page_power ?page" by (auto simp: page_power_def)
    obtain v w1 where hs: "(if hp then memx_host_huge_page_size os w else (0, w)) = (v, w1)"
      "v = 0 \<or> page_power v" "heap w1 = heap w" "maps w1 = maps w" "ctx w1 = ctx w"
    proof (cases hp)
      case True
      show thesis
      proof (rule host_huge_page [OF cache])
        fix v w1 assume "memx_host_huge_page_size os w = (v, w1)" "v = 0 \<or> page_power v"
          "heap w1 = heap w" "maps w1 = maps w" "ctx w1 = ctx w"
        then show thesis using True by (intro that [of v w1]) simp_all
      qed
    next
      case False
      then show thesis by (intro that [of 0 w]) simp_all
    qed
    let ?g = "if hp \<and> ?page < v \<and> v \<le> bytes then v else ?page"
    have g: "page_power ?g" "unat ?page \<le> unat ?g"
      using hs(2) page by (auto simp: word_less_nat_alt)
    have run: "memx_overlay_allocate os bytes hp w = overlay_map os bytes ?g w1"
      using False hs(1) by (simp add: memx_overlay_allocate_def overlay_map_def Let_def)
    show thesis
      using os page g
    proof (cases rule: overlay_map_cases [where w = w1 and bytes = bytes])
      case (fail w')
      then show thesis by (intro that(1) [of w']) (simp_all add: run hs)
    next
      case (good b n w')
      then show thesis by (intro that(2) [of b w' n]) (simp_all add: run hs page)
    qed
  qed
qed

section \<open>Page accounting\<close>

text \<open>
  The pages that the dense ones among the first \<open>n\<close> rows touch: row \<open>j\<close> occupies the bytes from
  \<open>j * s\<close>, page \<open>p\<close> those from \<open>p * G\<close>.
\<close>

definition touched :: "nat \<Rightarrow> nat \<Rightarrow> (nat \<Rightarrow> bool) \<Rightarrow> nat \<Rightarrow> nat set" where
  "touched G s P n = {p. \<exists>j < n. P j \<and> p * G < (j + 1) * s \<and> j * s < (p + 1) * G}"

definition page_lo :: "nat \<Rightarrow> nat \<Rightarrow> nat \<Rightarrow> nat" where
  "page_lo G s j = j * s div G"

definition page_hi :: "nat \<Rightarrow> nat \<Rightarrow> nat \<Rightarrow> nat" where
  "page_hi G s j = (j * s + s + (G - 1)) div G"

lemma ceiling_less:
  assumes "0 < (G :: nat)" shows "p < (x + (G - 1)) div G \<longleftrightarrow> p * G < x"
proof -
  have "p < (x + (G - 1)) div G \<longleftrightarrow> Suc p * G \<le> x + (G - 1)"
    using assms by (simp add: Suc_le_eq [symmetric] less_eq_div_iff_mult_less_eq)
  also have "\<dots> \<longleftrightarrow> p * G < x" using assms by (cases G) auto
  finally show ?thesis .
qed

lemma row_pages:
  assumes "0 < G"
  shows "p * G < (j + 1) * s \<and> j * s < (p + 1) * G \<longleftrightarrow> page_lo G s j \<le> p \<and> p < page_hi G s j"
proof -
  have "page_lo G s j \<le> p \<longleftrightarrow> j * s < (p + 1) * G"
    using assms by (simp add: page_lo_def less_Suc_eq_le [symmetric] div_less_iff_less_mult)
  moreover have "p < page_hi G s j \<longleftrightarrow> p * G < (j + 1) * s"
    using ceiling_less [OF assms, of p "j * s + s"] by (simp add: page_hi_def add.commute)
  ultimately show ?thesis by blast
qed

lemma touched_Suc:
  assumes "0 < G"
  shows "touched G s P (Suc i) =
    touched G s P i \<union> (if P i then {page_lo G s i ..< page_hi G s i} else {})"
proof -
  have "touched G s P n = {p. \<exists>j < n. P j \<and> page_lo G s j \<le> p \<and> p < page_hi G s j}" for n
    unfolding touched_def row_pages [OF assms] by simp
  then show ?thesis by (auto simp: less_Suc_eq)
qed

lemma page_lo_hi: "0 < G \<Longrightarrow> 0 < s \<Longrightarrow> page_lo G s j < page_hi G s j"
  unfolding page_hi_def
  by (subst ceiling_less) (auto simp: page_lo_def intro: le_less_trans [OF div_times_less_eq_dividend])

text \<open>The loop's second accumulator, divided by the page size.\<close>

definition high_page :: "nat \<Rightarrow> nat \<Rightarrow> (nat \<Rightarrow> bool) \<Rightarrow> nat \<Rightarrow> nat \<Rightarrow> bool" where
  "high_page G s P i h \<longleftrightarrow>
     (\<forall>p \<in> touched G s P i. p < h) \<and> (h = 0 \<or> (\<exists>j < i. P j \<and> h = page_hi G s j))"

lemma page_step:
  assumes G: "0 < G" and s: "0 < s" and h: "high_page G s P i h" and P: "P i"
  shows "h \<le> page_hi G s i"
    and "h < page_hi G s i \<Longrightarrow> card (touched G s P (Suc i)) = card (touched G s P i)
       + (page_hi G s i - (if page_lo G s i < h then h else page_lo G s i))"
    and "h = page_hi G s i \<Longrightarrow> touched G s P (Suc i) = touched G s P i"
    and "high_page G s P (Suc i) (page_hi G s i)"
proof -
  let ?T = "touched G s P i" and ?lo = "page_lo G s i" and ?hi = "page_hi G s i"
  have T': "touched G s P (Suc i) = ?T \<union> {?lo ..< ?hi}" using touched_Suc [OF G] P by simp
  have below: "\<forall>p \<in> ?T. p < h" using h by (simp add: high_page_def)
  have fin: "finite ?T" using below by (meson finite_nat_set_iff_bounded)
  have last: "h \<le> ?lo + 1 \<and> h \<le> ?hi \<and> (0 < h \<longrightarrow> h - 1 \<in> ?T)"
  proof (cases "h = 0")
    case False
    then obtain j where j: "j < i" "P j" "h = page_hi G s j" using h by (auto simp: high_page_def)
    have js: "j * s + s \<le> i * s" using mult_le_mono1 [of "Suc j" i s] j(1) by simp
    have "h \<le> (i * s + (G - 1)) div G" unfolding j(3) page_hi_def using js by (intro div_le_mono) linarith
    also have "\<dots> \<le> (i * s + G) div G" by (intro div_le_mono) simp
    also have "\<dots> = ?lo + 1" using G by (simp add: page_lo_def div_add_self2)
    finally have "h \<le> ?lo + 1" .
    moreover have "h \<le> ?hi" unfolding j(3) page_hi_def using js by (intro div_le_mono) linarith
    moreover have "page_lo G s j \<le> h - 1 \<and> h - 1 < page_hi G s j"
      using page_lo_hi [OF G s, of j] j(3) by simp
    then have "h - 1 \<in> ?T"
      unfolding touched_def row_pages [OF G] using j(1,2) by blast
    ultimately show ?thesis by simp
  qed simp
  then show "h \<le> ?hi" by simp
  show "card (touched G s P (Suc i)) = card ?T + (?hi - (if ?lo < h then h else ?lo))" if "h < ?hi"
  proof (cases "?lo < h")
    case True
    then have h1: "h = ?lo + 1" using last by linarith
    then have hl: "h = ?lo + 1" "?lo \<in> ?T" using last by simp_all
    then have "?T \<union> {?lo ..< ?hi} = ?T \<union> {h ..< ?hi}"
      using that by (auto simp: Suc_le_eq order.order_iff_strict)
    moreover have "?T \<inter> {h ..< ?hi} = {}" using below by auto
    ultimately show ?thesis using True fin by (simp add: T' card_Un_disjoint)
  next
    case False
    then have "?T \<inter> {?lo ..< ?hi} = {}" using below by force
    then show ?thesis using False fin by (simp add: T' card_Un_disjoint)
  qed
  show "touched G s P (Suc i) = ?T" if "h = ?hi"
  proof -
    have "0 < h" using page_lo_hi [OF G s, of i] that by simp
    then have "h - 1 \<in> ?T" "{?lo ..< ?hi} \<subseteq> {h - 1}" using last that by auto
    then show ?thesis unfolding T' by blast
  qed
  show "high_page G s P (Suc i) ?hi"
    unfolding high_page_def T' using below \<open>h \<le> ?hi\<close> P by (auto intro!: exI [of _ i])
qed

lemma touched_bounds:
  assumes "high_page G s P i h" shows "finite (touched G s P i)" "card (touched G s P i) \<le> h"
proof -
  have "touched G s P i \<subseteq> {..< h}" using assms by (auto simp: high_page_def)
  then show "finite (touched G s P i)" "card (touched G s P i) \<le> h"
    by (auto intro: finite_subset dest: card_mono [rotated])
qed

text \<open>\<open>overlay_account\<close> computes one step of it, without overflow.\<close>

definition accounts :: "nat \<Rightarrow> nat \<Rightarrow> (nat \<Rightarrow> bool) \<Rightarrow> nat \<Rightarrow> u64 \<times> u64 \<Rightarrow> bool" where
  "accounts G s P i acc \<longleftrightarrow>
     (\<exists>h. high_page G s P i h \<and> unat (fst acc) = G * card (touched G s P i)
        \<and> unat (snd acc) = G * h)"

lemma overlay_account_step:
  assumes g: "page_power g" and acc: "accounts (unat g) (unat s) P i acc" and P: "P i"
    and s: "0 < unat s" and i: "i < n" and fit: "n * unat s + (unat g - 1) < 2 ^ 64"
  shows "accounts (unat g) (unat s) P (Suc i) (overlay_account g s (of_nat i) acc)"
proof -
  let ?G = "unat g" and ?s = "unat s"
  let ?lo = "page_lo ?G ?s i" and ?hi = "page_hi ?G ?s i"
  obtain k where k: "k < 64" "g = 2 ^ k" "?G = 2 ^ k" using page_power_mask [OF g] by blast
  have G: "0 < ?G" unfolding k(3) by simp
  obtain a b where ab: "acc = (a, b)" by (cases acc)
  obtain h where h: "high_page ?G ?s P i h" "unat a = ?G * card (touched ?G ?s P i)" "unat b = ?G * h"
    using acc by (auto simp: accounts_def ab)
  have "Suc i * ?s \<le> n * ?s" using i by (intro mult_le_mono1) simp
  then have room: "i * ?s + ?s + (?G - 1) < 2 ^ 64" using fit by simp
  have "i \<le> i * ?s" using s by simp
  then have "i < 2 ^ 64" using room by linarith
  then have "i < 18446744073709551616" by simp
  then have ui: "unat (of_nat i :: u64) = i" by (simp add: unat_of_nat)
  have start: "unat (of_nat i * s) = i * ?s" using room by (subst unat_mult_exact) (simp_all add: ui)
  have ende: "unat (of_nat i * s + s) = i * ?s + ?s"
    using room by (subst unat_add_exact) (simp_all add: start)
  have lo: "unat ((of_nat i * s) AND NOT (g - 1)) = ?lo * ?G"
    unfolding k(2) pow2_minus_1 unat_and_not_mask start page_lo_def k(3) [unfolded k(2)] ..
  have hi: "unat ((of_nat i * s + s + g - 1) AND NOT (g - 1)) = ?hi * ?G"
    using round_up_mask [OF k(1), of "of_nat i * s + s"] room
    unfolding k(2) [symmetric] k(3) [symmetric] ende page_hi_def by simp
  note st = page_step [OF G s h(1) P]
  have hmax: "?hi * ?G < 2 ^ 64" unfolding hi [symmetric] by (rule unat_lt_pow)
  have run: "overlay_account g s (of_nat i) acc =
    (if h < ?hi then (a + (((of_nat i * s + s + g - 1) AND NOT (g - 1))
         - (if ?lo < h then b else (of_nat i * s) AND NOT (g - 1))),
         (of_nat i * s + s + g - 1) AND NOT (g - 1)) else (a, b))"
  proof -
    have "b < (of_nat i * s + s + g - 1) AND NOT (g - 1) \<longleftrightarrow> h < ?hi"
      unfolding word_less_nat_alt hi h(3) using G by (simp add: mult.commute)
    moreover have "(of_nat i * s) AND NOT (g - 1) < b \<longleftrightarrow> ?lo < h"
      unfolding word_less_nat_alt lo h(3) using G by (simp add: mult.commute)
    ultimately show ?thesis by (simp add: overlay_account_def ab Let_def)
  qed
  show ?thesis
  proof (cases "h < ?hi")
    case False
    then have e: "h = ?hi" using st(1) by simp
    then show ?thesis
      unfolding accounts_def run using h st(3) [OF e] st(4) by (intro exI [of _ h]) simp
  next
    case True
    let ?m = "if ?lo < h then h else ?lo"
    have m: "unat (if ?lo < h then b else (of_nat i * s) AND NOT (g - 1)) = ?m * ?G"
      using h(3) lo by (simp add: mult.commute)
    have mh: "?m \<le> ?hi" using True page_lo_hi [OF G s, of i] by simp
    then have "?m * ?G \<le> ?hi * ?G" by (intro mult_le_mono1) simp
    let ?D = "((of_nat i * s + s + g - 1) AND NOT (g - 1))
        - (if ?lo < h then b else (of_nat i * s) AND NOT (g - 1))"
    have d: "unat ?D = (?hi - ?m) * ?G"
      using \<open>?m * ?G \<le> ?hi * ?G\<close>
      by (subst unat_sub_exact) (simp_all only: word_le_nat_alt hi m diff_mult_distrib)
    have c: "card (touched ?G ?s P (Suc i)) = card (touched ?G ?s P i) + (?hi - ?m)"
      by (rule st(2) [OF True])
    then have total: "?G * card (touched ?G ?s P (Suc i)) = unat a + unat ?D"
      unfolding d h(2) by (simp only: distrib_left mult.commute)
    have "?G * card (touched ?G ?s P (Suc i)) \<le> ?hi * ?G"
      using touched_bounds(2) [OF st(4)] by (simp add: mult.commute)
    then have "unat a + unat ?D < 2 ^ 64" using hmax unfolding total by linarith
    then have "unat (a + ?D) = ?G * card (touched ?G ?s P (Suc i))"
      unfolding total by (rule unat_add_exact)
    then show ?thesis
      unfolding accounts_def run if_P [OF True] using hi st(4)
      by (intro exI [of _ ?hi]) (simp only: fst_conv snd_conv mult.commute simp_thms)
  qed
qed

end
