(* ===== verification/Memx_Freeze.thy ===== *)
theory Memx_Freeze
  imports Memx_Overlay
begin

text \<open>
  Correctness of \<^verbatim>\<open>memx_index_optimize_overlay\<close>: a failed call leaves the index as it was, a
  successful one keeps every lookup, releases every dense table, and records the page count
  of \<open>Memx_Overlay\<close>.  Then the frozen index: lookups, the branchless lookup, refused updates,
  destruction.
\<close>

section \<open>The invariant of overlay mode\<close>

definition overlay_inv ::
  "('c \<Rightarrow> u64 set) \<Rightarrow> (u64 \<rightharpoonup> memx_object) \<Rightarrow> 'c memx_index \<Rightarrow> 'c memx_world \<Rightarrow> bool" where
  "overlay_inv live fr ix w \<longleftrightarrow>
     world_ok (index_allocator ix) live w \<and> index_shape ix \<and> bounded ix
     \<and> overlay_mode ix \<and> \<not> flat_mode ix
     \<and> heap w (self ix) = Some IndexBlock
     \<and> (\<exists>ds. heap w (directory ix) = Some (RegionTable ds) \<and> length ds = regions ix
           \<and> (\<forall>j < regions ix. ds ! j = 0 \<or> is_uniform (ds ! j) \<or> ds ! j = MEMX_DESCRIPTOR_DENSE_TAG))
     \<and> (\<exists>es. maps w (overlay_entries ix) = Some es \<and> regions ix * per_region ix \<le> length es)
     \<and> overlay_mapping ix \<noteq> 0 \<and> unat (overlay_mapping ix) \<le> unat (overlay_entries ix)
     \<and> unat (overlay_entries ix) < unat (overlay_mapping ix) + unat (overlay_bytes ix)
     \<and> (\<forall>q. fr q = (if q \<in> {self ix, directory ix} then None else heap w q))"

definition omap :: "'c memx_index \<Rightarrow> 'c memx_world \<Rightarrow> nat \<Rightarrow> u64" where
  "omap ix w k =
     (let d = rdesc ix (heap w) (k div per_region ix) in
      case memx_region_type_decode d of
        MEMX_REGION_EMPTY \<Rightarrow> MEMX_HANDLE_INVALID
      | MEMX_REGION_UNIFORM \<Rightarrow> memx_uniform_decode d
      | MEMX_REGION_DENSE \<Rightarrow>
          (case maps w (overlay_entries ix) of Some es \<Rightarrow> es ! k | None \<Rightarrow> MEMX_HANDLE_INVALID))"

lemma dense_tag_type [simp]: "is_dense MEMX_DESCRIPTOR_DENSE_TAG"
  by (simp add: descriptor_defs)

lemma overlay_invD:
  assumes "overlay_inv live fr ix w"
  shows "world_ok (index_allocator ix) live w" "index_shape ix" "bounded ix"
    "overlay_mode ix" "\<not> flat_mode ix" "heap w (self ix) = Some IndexBlock"
    "overlay_mapping ix \<noteq> 0" "unat (overlay_mapping ix) \<le> unat (overlay_entries ix)"
    "unat (overlay_entries ix) < unat (overlay_mapping ix) + unat (overlay_bytes ix)"
    "fr q = (if q \<in> {self ix, directory ix} then None else heap w q)"
  using assms unfolding overlay_inv_def by blast+

lemma overlay_tables:
  assumes "overlay_inv live fr ix w"
  obtains ds es where "heap w (directory ix) = Some (RegionTable ds)" "length ds = regions ix"
    "\<forall>j < regions ix. ds ! j = 0 \<or> is_uniform (ds ! j) \<or> ds ! j = MEMX_DESCRIPTOR_DENSE_TAG"
    "rdesc ix (heap w) = (!) ds"
    "maps w (overlay_entries ix) = Some es" "regions ix * per_region ix \<le> length es"
  using assms unfolding overlay_inv_def
  by (auto simp: rdesc_def rslot_def fun_eq_iff)

lemma overlay_lookup:
  assumes inv: "overlay_inv live fr ix w"
  shows "memx_lookup_address (Some ix) w a =
    Some (if covered ix a then omap ix w (granule_of ix a) else MEMX_HANDLE_INVALID)"
proof (cases "covered ix a")
  case False
  then show ?thesis
    by (simp add: memx_lookup_address_def memx_address_to_region_spec [OF overlay_invD(2) [OF inv]])
next
  case True
  note sh = overlay_invD(2) [OF inv]
  let ?k = "granule_of ix a" let ?i = "granule_of ix a div per_region ix"
  obtain ds es where t: "heap w (directory ix) = Some (RegionTable ds)" "length ds = regions ix"
    "\<forall>j < regions ix. ds ! j = 0 \<or> is_uniform (ds ! j) \<or> ds ! j = MEMX_DESCRIPTOR_DENSE_TAG"
    "rdesc ix (heap w) = (!) ds"
    "maps w (overlay_entries ix) = Some es" "regions ix * per_region ix \<le> length es"
    by (rule overlay_tables [OF inv])
  have k: "?k < regions ix * per_region ix" by (rule granule_of_lt [OF sh True])
  then have i: "?i < regions ix" by (rule less_mult_imp_div_less)
  have ui: "unat (of_nat ?i :: u64) = ?i" by (rule unat_region_index [OF k])
  have rr: "read_region w (directory ix, ?i) = Some (ds ! ?i)" using t(1,2) i by simp
  have rm: "read_map w (overlay_entries ix) ?k = Some (es ! ?k)" using t(5,6) k by (simp add: read_map_def)
  have pos: "unat (drop_bit (gshift ix) (a - base_address (config ix))) = ?k"
    by (rule flat_offset [OF sh True])
  have e: "memx_lookup_address (Some ix) w a = do {
      d \<leftarrow> read_region w (directory ix, ?i);
      case memx_region_type_decode d of
        MEMX_REGION_EMPTY \<Rightarrow> Some MEMX_HANDLE_INVALID
      | MEMX_REGION_UNIFORM \<Rightarrow> Some (memx_uniform_decode d)
      | MEMX_REGION_DENSE \<Rightarrow> read_map w (overlay_entries ix)
          (unat (drop_bit (gshift ix) (a - base_address (config ix)))) }"
    using True overlay_invD(3-5) [OF inv] ui
    by (simp add: memx_lookup_address_def memx_address_to_region_spec [OF sh] memx_get_region_def)
  show ?thesis
    unfolding e pos omap_def Let_def using True rr rm t(4,5)
    by (simp split: memx_region_type.split)
qed

section \<open>The copy loop\<close>

lemma descriptors_valid_ok:
  assumes "heap w (directory ix) = Some (RegionTable ds)"
    "\<And>j. j < length ds \<Longrightarrow> ds ! j = 0 \<or> memx_region_type_decode (ds ! j) \<noteq> MEMX_REGION_EMPTY"
  shows "i + n \<le> length ds \<Longrightarrow> descriptors_valid ix w i n = Some True"
proof (induction n arbitrary: i)
  case (Suc n)
  then have "descriptors_valid ix w (Suc i) n = Some True" by simp
  then show ?case using assms(1) assms(2) [of i] Suc.prems by auto
qed simp

definition row_entry :: "(u64 \<rightharpoonup> memx_object) \<Rightarrow> u64 list \<Rightarrow> nat \<Rightarrow> nat \<Rightarrow> u64" where
  "row_entry h ds per k = dvalue h (ds ! (k div per)) (k mod per)"

text \<open>After \<open>i\<close> rows: the dense ones are in place, and the footprint is theirs.\<close>

definition filled ::
  "'c memx_index \<Rightarrow> u64 list \<Rightarrow> u64 \<Rightarrow> u64 \<Rightarrow> u64 \<Rightarrow> nat \<Rightarrow> 'c memx_world \<Rightarrow> nat \<Rightarrow> u64 \<times> u64
     \<Rightarrow> 'c memx_world \<Rightarrow> bool" where
  "filled ix ds p g s len w0 i acc w \<longleftrightarrow>
     heap w = heap w0 \<and> ctx w = ctx w0
     \<and> accounts (unat g) (unat s) (\<lambda>j. is_dense (ds ! j)) i acc
     \<and> (\<exists>es. maps w = (maps w0)(p \<mapsto> es) \<and> length es = len
          \<and> (\<forall>k < i * per_region ix. is_dense (ds ! (k div per_region ix)) \<longrightarrow>
               es ! k = row_entry (heap w0) ds (per_region ix) k))"

lemma overlay_fill_step:
  assumes f: "filled ix ds p g s len w0 i acc w"
    and d: "is_dense (ds ! i)"
    and row: "heap w0 (memx_dense_decode (ds ! i)) = Some (HandleTable hs)" "length hs = per_region ix"
    and len: "(i + 1) * per_region ix \<le> len"
    and g: "page_power g" and s: "0 < unat s" and i: "i < n"
    and fit: "n * unat s + (unat g - 1) < 2 ^ 64"
  obtains w' where "overlay_copy_row p (i * per_region ix) hs w = Some w'"
    "filled ix ds p g s len w0 (Suc i) (overlay_account g s (of_nat i) acc) w'"
proof -
  let ?n = "per_region ix"
  obtain es where es: "maps w = (maps w0)(p \<mapsto> es)" "length es = len"
    "\<forall>k < i * ?n. is_dense (ds ! (k div ?n)) \<longrightarrow> es ! k = row_entry (heap w0) ds ?n k"
    and hw: "heap w = heap w0" "ctx w = ctx w0"
    and acc: "accounts (unat g) (unat s) (\<lambda>j. is_dense (ds ! j)) i acc"
    using f unfolding filled_def by blast
  let ?es = "take (i * ?n) es @ hs @ drop (i * ?n + ?n) es"
  let ?w = "w\<lparr>maps := (maps w)(p \<mapsto> ?es)\<rparr>"
  have room: "i * ?n + ?n \<le> length es" using len es(2) by simp
  have "overlay_copy_row p (i * ?n) hs w = Some ?w"
    using room es(1) row(2) by (simp add: overlay_copy_row_def)
  moreover have "?es ! k = row_entry (heap w0) ds ?n k"
    if k: "k < Suc i * ?n" "is_dense (ds ! (k div ?n))" for k
  proof (cases "k < i * ?n")
    case True
    then show ?thesis using es(3) k(2) room by (simp add: nth_append)
  next
    case False
    then obtain r where r: "k = i * ?n + r" using le_Suc_ex not_less by blast
    then have "r < ?n" using k(1) by simp
    then have "k div ?n = i" "k mod ?n = r" by (simp_all add: r)
    moreover have "?es ! k = hs ! r" using r \<open>r < ?n\<close> room row(2) by (simp add: nth_append)
    ultimately show ?thesis using d row(1) by (simp add: row_entry_def)
  qed
  moreover have "length ?es = len" using room row(2) es(2) by simp
  moreover have "maps ?w = (maps w0)(p \<mapsto> ?es)" by (simp add: es(1))
  ultimately have "filled ix ds p g s len w0 (Suc i) (overlay_account g s (of_nat i) acc) ?w"
    unfolding filled_def
    using hw overlay_account_step [OF g acc d s i fit] by (intro conjI exI [of _ ?es]) simp_all
  then show thesis using that \<open>overlay_copy_row p (i * ?n) hs w = Some ?w\<close> by blast
qed

lemma filled_skip:
  assumes "filled ix ds p g s len w0 i acc w" "\<not> is_dense (ds ! i)" "0 < per_region ix" "0 < unat g"
  shows "filled ix ds p g s len w0 (Suc i) acc w"
proof -
  let ?n = "per_region ix"
  obtain es where es: "maps w = (maps w0)(p \<mapsto> es)" "length es = len"
    "\<forall>k < i * ?n. is_dense (ds ! (k div ?n)) \<longrightarrow> es ! k = row_entry (heap w0) ds ?n k"
    and hw: "heap w = heap w0" "ctx w = ctx w0"
    and acc: "accounts (unat g) (unat s) (\<lambda>j. is_dense (ds ! j)) i acc"
    using assms(1) unfolding filled_def by blast
  have "accounts (unat g) (unat s) (\<lambda>j. is_dense (ds ! j)) (Suc i) acc"
    using acc assms(2) unfolding accounts_def high_page_def touched_Suc [OF assms(4)]
    by (auto simp: less_Suc_eq)
  moreover have "es ! k = row_entry (heap w0) ds ?n k"
    if "k < Suc i * ?n" "is_dense (ds ! (k div ?n))" for k
  proof -
    have "k div ?n < Suc i" using that(1) by (rule less_mult_imp_div_less)
    then have "k div ?n < i" using assms(2) that(2) by (metis less_antisym)
    then have "k < i * ?n" using assms(3) by (simp add: div_less_iff_less_mult)
    then show ?thesis using es(3) that(2) by blast
  qed
  ultimately show ?thesis unfolding filled_def using es(1,2) hw by blast
qed

lemma overlay_fill_ok:
  assumes dir: "heap w0 (directory ix) = Some (RegionTable ds)" "length ds = n"
    and tabs: "\<And>j. j < n \<Longrightarrow> is_dense (ds ! j) \<Longrightarrow>
      \<exists>hs. heap w0 (memx_dense_decode (ds ! j)) = Some (HandleTable hs) \<and> length hs = per_region ix"
    and len: "n * per_region ix \<le> len" and pos: "0 < per_region ix"
    and g: "page_power g" and s: "0 < unat s" and fit: "n * unat s + (unat g - 1) < 2 ^ 64"
  shows "i + m = n \<Longrightarrow> filled ix ds p g s len w0 i acc w \<Longrightarrow>
    \<exists>acc' w'. overlay_fill ix p g s i m acc w = Some (acc', w') \<and> filled ix ds p g s len w0 n acc' w'"
proof (induction m arbitrary: i acc w)
  case 0
  then show ?case by simp
next
  case (Suc m)
  have i: "i < n" using Suc.prems(1) by simp
  have hw: "heap w = heap w0" using Suc.prems(2) by (simp add: filled_def)
  have rd: "read_region w (directory ix, i) = Some (ds ! i)" using dir i hw by simp
  show ?case
  proof (cases "is_dense (ds ! i)")
    case False
    have "0 < unat g" using g by (auto simp: page_power_def)
    then have "filled ix ds p g s len w0 (Suc i) acc w"
      by (rule filled_skip [OF Suc.prems(2) False pos])
    then show ?thesis using Suc.IH [of "Suc i"] Suc.prems(1) rd False by simp
  next
    case True
    obtain hs where hs: "heap w0 (memx_dense_decode (ds ! i)) = Some (HandleTable hs)"
      "length hs = per_region ix" using tabs [OF i True] by blast
    have "(i + 1) * per_region ix \<le> n * per_region ix" using i by (intro mult_le_mono1) simp
    then have li: "(i + 1) * per_region ix \<le> len" using len by linarith
    obtain w' where w': "overlay_copy_row p (i * per_region ix) hs w = Some w'"
      "filled ix ds p g s len w0 (Suc i) (overlay_account g s (of_nat i) acc) w'"
      by (rule overlay_fill_step [OF Suc.prems(2) True hs li g s i fit])
    have te: "table_entries w (memx_dense_decode (ds ! i)) (per_region ix) = Some hs"
      using hs by (simp add: table_entries_def hw)
    show ?thesis using Suc.IH [OF _ w'(2)] Suc.prems(1) rd True te w'(1) by simp
  qed
qed

section \<open>The publication loop\<close>

lemma overlay_publish_ok:
  assumes "world_ok (index_allocator ix) live w" "heap w (directory ix) = Some (RegionTable ds)"
    "i + n \<le> length ds" "table_ok (heap w) ds i n"
  shows "\<exists>w' ds'. overlay_publish ix i n w = Some w' \<and> world_ok (index_allocator ix) live w'
    \<and> maps w' = maps w \<and> heap w' (directory ix) = Some (RegionTable ds') \<and> length ds' = length ds
    \<and> (\<forall>j < length ds. ds' ! j = (if i \<le> j \<and> j < i + n \<and> is_dense (ds ! j)
                                  then MEMX_DESCRIPTOR_DENSE_TAG else ds ! j))
    \<and> (\<forall>q. q \<noteq> directory ix \<longrightarrow> heap w' q = (if q \<in> table_blocks ds i n then None else heap w q))"
  using assms
proof (induction n arbitrary: i w ds)
  case 0
  then show ?case by (intro exI [of _ w] exI [of _ ds]) (auto simp: table_blocks_def)
next
  case (Suc n)
  let ?dir = "directory ix"
  have il: "i < length ds" using Suc.prems(3) by simp
  have rd: "read_region w (?dir, i) = Some (ds ! i)" using Suc.prems(2) il by simp
  show ?case
  proof (cases "is_dense (ds ! i)")
    case False
    have "table_ok (heap w) ds (Suc i) n" using Suc.prems(4) unfolding table_ok_def by auto
    moreover have "Suc i + n \<le> length ds" using Suc.prems(3) by simp
    ultimately obtain w' ds' where ih: "overlay_publish ix (Suc i) n w = Some w'"
      "world_ok (index_allocator ix) live w'" "maps w' = maps w"
      "heap w' ?dir = Some (RegionTable ds')" "length ds' = length ds"
      "\<forall>j < length ds. ds' ! j = (if Suc i \<le> j \<and> j < Suc i + n \<and> is_dense (ds ! j)
                                  then MEMX_DESCRIPTOR_DENSE_TAG else ds ! j)"
      "\<forall>q. q \<noteq> ?dir \<longrightarrow> heap w' q = (if q \<in> table_blocks ds (Suc i) n then None else heap w q)"
      using Suc.IH [OF Suc.prems(1,2)] by blast
    have "i \<le> j \<and> j < i + Suc n \<and> is_dense (ds ! j) \<longleftrightarrow> Suc i \<le> j \<and> j < Suc i + n \<and> is_dense (ds ! j)"
      for j using False by (cases "j = i") auto
    moreover have "table_blocks ds i (Suc n) = table_blocks ds (Suc i) n"
      using False by (simp add: table_blocks_Suc)
    ultimately show ?thesis
      using ih rd False by (intro exI [of _ w'] exI [of _ ds']) simp
  next
    case True
    let ?q = "memx_dense_decode (ds ! i)" and ?ds = "ds[i := MEMX_DESCRIPTOR_DENSE_TAG]"
    obtain hs where hs: "heap w ?q = Some (HandleTable hs)"
      using Suc.prems(4) True unfolding table_ok_def by auto
    let ?w1 = "w\<lparr>heap := (heap w)(?dir \<mapsto> RegionTable ?ds)\<rparr>"
    have wr: "write_region (?dir, i) MEMX_DESCRIPTOR_DENSE_TAG w = Some ?w1"
      using Suc.prems(2) il by simp
    have ok1: "world_ok (index_allocator ix) live ?w1"
      using Suc.prems(2) by (intro world_ok_heap_upd [OF Suc.prems(1)]) simp
    have qd: "?q \<noteq> ?dir" using hs Suc.prems(2) by auto
    have "heap ?w1 ?q \<noteq> None" using hs qd by simp
    then obtain w2 where w2: "memx_deallocate (index_allocator ix) ?q ?w1 = Some w2"
      "heap w2 = (heap ?w1)(?q := None)" "world_ok (index_allocator ix) live w2"
      using memx_deallocate_ok [OF ok1] by blast
    have m2: "maps w2 = maps w"
      using w2(1) by (auto simp: memx_deallocate_def split: option.splits)
    have dir2: "heap w2 ?dir = Some (RegionTable ?ds)" using w2(2) qd by simp
    have nth: "?ds ! j = ds ! j" if "Suc i \<le> j" for j using that by simp
    have tb: "table_blocks ?ds (Suc i) n = table_blocks ds (Suc i) n"
      unfolding table_blocks_def using nth by (metis (no_types, lifting))
    have tok: "table_ok (heap w2) ?ds (Suc i) n"
      unfolding table_ok_def
    proof (intro conjI allI impI)
      fix j assume j: "Suc i \<le> j \<and> j < Suc i + n \<and> is_dense (?ds ! j)"
      then have dj: "i \<le> j \<and> j < i + Suc n \<and> is_dense (ds ! j)" using nth [of j] by auto
      then obtain ks where ks: "heap w (memx_dense_decode (ds ! j)) = Some (HandleTable ks)"
        using Suc.prems(4) unfolding table_ok_def by blast
      have "memx_dense_decode (ds ! j) \<noteq> ?q"
      proof
        assume eq: "memx_dense_decode (ds ! j) = ?q"
        have "i \<le> j \<and> j < i + Suc n \<and> i \<le> i \<and> i < i + Suc n" using j by simp
        then have "j = i" using Suc.prems(4) dj True eq unfolding table_ok_def by blast
        then show False using j by simp
      qed
      moreover have "memx_dense_decode (ds ! j) \<noteq> ?dir" using ks Suc.prems(2) by auto
      ultimately show "\<exists>ks. heap w2 (memx_dense_decode (?ds ! j)) = Some (HandleTable ks)"
        using ks nth j by (simp add: w2(2))
    next
      fix j k
      assume a: "Suc i \<le> j \<and> j < Suc i + n \<and> Suc i \<le> k \<and> k < Suc i + n \<and> is_dense (?ds ! j)
        \<and> is_dense (?ds ! k) \<and> memx_dense_decode (?ds ! j) = memx_dense_decode (?ds ! k)"
      then have "i \<le> j \<and> j < i + Suc n \<and> i \<le> k \<and> k < i + Suc n \<and> is_dense (ds ! j) \<and> is_dense (ds ! k)
        \<and> memx_dense_decode (ds ! j) = memx_dense_decode (ds ! k)" using nth by auto
      then show "j = k" using Suc.prems(4) unfolding table_ok_def by blast
    qed
    have l: "Suc i + n \<le> length ?ds" using Suc.prems(3) by simp
    from Suc.IH [OF w2(3) dir2 l tok, unfolded tb m2] obtain w' ds' where
      ih: "overlay_publish ix (Suc i) n w2 = Some w'"
      "world_ok (index_allocator ix) live w'" "maps w' = maps w"
      "heap w' ?dir = Some (RegionTable ds')" "length ds' = length ?ds"
      "\<forall>j < length ?ds. ds' ! j = (if Suc i \<le> j \<and> j < Suc i + n \<and> is_dense (?ds ! j)
                                  then MEMX_DESCRIPTOR_DENSE_TAG else ?ds ! j)"
      "\<forall>q. q \<noteq> ?dir \<longrightarrow> heap w' q = (if q \<in> table_blocks ds (Suc i) n then None else heap w2 q)"
      by blast
    have "ds' ! j = (if i \<le> j \<and> j < i + Suc n \<and> is_dense (ds ! j)
        then MEMX_DESCRIPTOR_DENSE_TAG else ds ! j)" if "j < length ds" for j
      using ih(6) that True il by (cases "j = i") (auto simp: nth_list_update)
    moreover have "heap w' q = (if q \<in> table_blocks ds i (Suc n) then None else heap w q)"
      if "q \<noteq> ?dir" for q
      using ih(7) that True unfolding table_blocks_Suc by (auto simp: w2(2))
    ultimately show ?thesis
      using ih rd True wr w2(1) by (intro exI [of _ w'] exI [of _ ds']) simp
  qed
qed

section \<open>Freezing keeps every lookup\<close>

text \<open>The part of the operation that follows a successful reservation.\<close>

lemma freeze_body:
  assumes inv: "index_inv live fr ix w" and b: "bounded ix"
    and bytes: "unat bytes = regions ix * (8 * per_region ix)"
    and s: "unat s = 8 * per_region ix"
    and res: "page_power page" "reservation page bytes b n"
    and w1: "heap w1 = heap w" "maps w1 = (maps w)(ob_entries b \<mapsto> replicate (n div 8) 0)"
      "live (ctx w1) = live (ctx w)"
  obtains acc w2 w3 ix' where
    "overlay_fill ix (ob_entries b) (ob_page_size b) s 0 (regions ix) (0, 0) w1 = Some (acc, w2)"
    "ix' = ix\<lparr>overlay_entries := ob_entries b, overlay_mapping := ob_mapping b,
             overlay_bytes := ob_reserved_bytes b, overlay_private_bytes := fst acc,
             overlay_mode := True\<rparr>"
    "overlay_publish ix' 0 (regions ix) w2 = Some w3"
    "overlay_inv live fr ix' w3"
    "\<And>k. k < regions ix * per_region ix \<Longrightarrow> omap ix' w3 k = gmap ix (heap w) k"
    "unat (fst acc) = unat (ob_page_size b)
       * card (touched (unat (ob_page_size b)) (8 * per_region ix)
                 (\<lambda>i. is_dense (rdesc ix (heap w) i)) (regions ix))"
proof -
  let ?g = "ob_page_size b" and ?N = "regions ix" and ?n = "per_region ix" and ?p = "ob_entries b"
  note sh = index_invD(2) [OF inv] and modes = index_invD(10,11) [OF inv]
  have pos: "0 < ?n" by (rule per_region_pos [OF sh])
  obtain ds where ds: "heap w (directory ix) = Some (RegionTable ds)" "length ds = ?N"
    "table_ok (heap w) ds 0 ?N" "dense_blocks ix (heap w) = table_blocks ds 0 ?N"
    by (rule bounded_table [OF inv b])
  have rd: "rdesc ix (heap w) i = ds ! i" for i using b ds by (simp add: rdesc_def rslot_def)
  have dok: "desc_ok ?n (heap w) (ds ! j)" if "j < ?N" for j
    using rdesc_ok [OF inv that] by (simp add: rd)
  have tabs: "\<exists>hs. heap w (memx_dense_decode (ds ! j)) = Some (HandleTable hs) \<and> length hs = ?n"
    if "j < ?N" "is_dense (ds ! j)" for j
    using dok [OF that(1)] that(2) by (auto simp: desc_ok_def)
  have g: "page_power ?g" using res(2) by (simp add: reservation_def)
  have gpos: "0 < unat ?g" using g by (auto simp: page_power_def)
  have rng: "unat bytes \<le> n" "unat ?p + n + unat ?g \<le> 2 ^ 64"
    using res(2) unfolding reservation_def by linarith+
  have fit: "?N * unat s + (unat ?g - 1) < 2 ^ 64" using rng gpos unfolding s bytes by linarith
  have len: "?N * ?n \<le> n div 8" using rng(1) unfolding bytes by simp
  have f0: "filled ix ds ?p ?g s (n div 8) w1 0 (0, 0) w1"
  proof -
    have "high_page (unat ?g) (unat s) (\<lambda>j. is_dense (ds ! j)) 0 0"
      by (simp add: high_page_def touched_def)
    then have "accounts (unat ?g) (unat s) (\<lambda>j. is_dense (ds ! j)) 0 (0, 0)"
      unfolding accounts_def by (intro exI [of _ 0]) (simp add: touched_def)
    then show ?thesis
      unfolding filled_def using w1(2) by (intro conjI exI [of _ "replicate (n div 8) 0"]) (simp_all add: fun_eq_iff)
  qed
  have dir1: "heap w1 (directory ix) = Some (RegionTable ds)" by (simp add: w1(1) ds(1))
  have tabs1: "\<exists>hs. heap w1 (memx_dense_decode (ds ! j)) = Some (HandleTable hs) \<and> length hs = ?n"
    if "j < ?N" "is_dense (ds ! j)" for j using tabs [OF that] by (simp add: w1(1))
  have spos: "0 < unat s" using pos by (simp add: s)
  obtain acc w2 where fill: "overlay_fill ix ?p ?g s 0 ?N (0, 0) w1 = Some (acc, w2)"
    and f: "filled ix ds ?p ?g s (n div 8) w1 ?N acc w2"
    using overlay_fill_ok [OF dir1 ds(2) tabs1 len pos g spos fit _ f0] by auto
  obtain es where es: "maps w2 = (maps w1)(?p \<mapsto> es)" "length es = n div 8"
    "\<And>k. k < ?N * ?n \<Longrightarrow> is_dense (ds ! (k div ?n)) \<Longrightarrow> es ! k = row_entry (heap w) ds ?n k"
    and h2: "heap w2 = heap w" "ctx w2 = ctx w1"
    and acc: "accounts (unat ?g) (unat s) (\<lambda>j. is_dense (ds ! j)) ?N acc"
    using f unfolding filled_def w1(1) by blast
  let ?ix = "ix\<lparr>overlay_entries := ?p, overlay_mapping := ob_mapping b,
             overlay_bytes := ob_reserved_bytes b, overlay_private_bytes := fst acc,
             overlay_mode := True\<rparr>"
  have ok2: "world_ok (index_allocator ?ix) live w2"
    using index_invD(1) [OF inv] w1(3) h2 by (simp add: world_ok_def)
  have dir2: "heap w2 (directory ?ix) = Some (RegionTable ds)" by (simp add: h2 ds(1))
  have tok2: "table_ok (heap w2) ds 0 ?N" using ds(3) by (simp add: h2)
  have l2: "0 + ?N \<le> length ds" by (simp add: ds(2))
  obtain w3 ds' where pub: "overlay_publish ?ix 0 ?N w2 = Some w3"
    "world_ok (index_allocator ?ix) live w3" "maps w3 = maps w2"
    "heap w3 (directory ?ix) = Some (RegionTable ds')" "length ds' = length ds"
    "\<forall>j < length ds. ds' ! j = (if 0 \<le> j \<and> j < 0 + ?N \<and> is_dense (ds ! j)
                                then MEMX_DESCRIPTOR_DENSE_TAG else ds ! j)"
    "\<forall>q. q \<noteq> directory ?ix \<longrightarrow> heap w3 q = (if q \<in> table_blocks ds 0 ?N then None else heap w2 q)"
    using overlay_publish_ok [OF ok2 dir2 l2 tok2] by blast
  have d': "ds' ! j = (if is_dense (ds ! j) then MEMX_DESCRIPTOR_DENSE_TAG else ds ! j)" if "j < ?N" for j
    using pub(6) that ds(2) by simp
  have kind: "\<exists>hs. heap w q = Some (HandleTable hs)" if "q \<in> table_blocks ds 0 ?N" for q
    using that tabs by (force simp: table_blocks_def)
  have sn: "self ix \<notin> table_blocks ds 0 ?N" using kind [of "self ix"] index_invD(8) [OF inv] by auto
  have sd: "self ix \<noteq> directory ix" using index_invD(8) [OF inv] ds(1) by auto
  have self3: "heap w3 (self ix) = Some IndexBlock"
    using pub(7) sn sd index_invD(8) [OF inv] by (simp add: h2)
  have fr3: "fr q = (if q \<in> {self ix, directory ix} then None else heap w3 q)" for q
    using index_invD(9) [OF inv] pub(7) b unfolding frame_ok_def owned_def ds(4)
    by (auto simp: leaf_blocks_def h2)
  have descs: "\<forall>j < ?N. ds' ! j = 0 \<or> is_uniform (ds' ! j) \<or> ds' ! j = MEMX_DESCRIPTOR_DENSE_TAG"
    using d' dok by (auto simp: desc_ok_def)
  have map3: "maps w3 ?p = Some es" by (simp add: pub(3) es(1))
  have shape: "index_shape ?ix" using sh b by (simp add: index_shape_def)
  have geo: "ob_mapping b \<noteq> 0" "unat (ob_mapping b) \<le> unat ?p"
    "unat ?p < unat (ob_mapping b) + unat (ob_reserved_bytes b)"
    using res(2) gpos unfolding reservation_def by linarith+
  have "overlay_inv live fr ?ix w3"
    unfolding overlay_inv_def
  proof (intro conjI)
    show "\<exists>xs. heap w3 (directory ?ix) = Some (RegionTable xs) \<and> length xs = regions ?ix
        \<and> (\<forall>j < regions ?ix. xs ! j = 0 \<or> is_uniform (xs ! j) \<or> xs ! j = MEMX_DESCRIPTOR_DENSE_TAG)"
      using pub(4,5) ds(2) descs by (intro exI [of _ ds']) simp
    show "\<exists>xs. maps w3 (overlay_entries ?ix) = Some xs \<and> regions ?ix * per_region ?ix \<le> length xs"
      using map3 len es(2) by simp
    show "\<forall>q. fr q = (if q \<in> {self ?ix, directory ?ix} then None else heap w3 q)" using fr3 by simp
  qed (use pub(2) shape b modes self3 geo in simp_all)
  moreover have "omap ?ix w3 k = gmap ix (heap w) k" if k: "k < ?N * ?n" for k
  proof -
    have i: "k div ?n < ?N" by (rule less_mult_imp_div_less [OF k])
    have r3: "rdesc ?ix (heap w3) (k div ?n) = ds' ! (k div ?n)"
      using b pub(4) by (simp add: rdesc_def rslot_def)
    show ?thesis
    proof (cases "is_dense (ds ! (k div ?n))")
      case True
      then show ?thesis
        using es(3) [OF k True] map3 d' [OF i] by (simp add: omap_def r3 gmap_def rd row_entry_def)
    next
      case False
      then have "ds ! (k div ?n) = 0 \<or> is_uniform (ds ! (k div ?n))"
        using dok [OF i] by (auto simp: desc_ok_def)
      then show ?thesis using d' [OF i] False by (auto simp: omap_def r3 gmap_def rd)
    qed
  qed
  moreover have "unat (fst acc) = unat ?g
      * card (touched (unat ?g) (8 * ?n) (\<lambda>i. is_dense (rdesc ix (heap w) i)) ?N)"
    using acc unfolding accounts_def s rd by blast
  ultimately show thesis using that fill pub(1) by blast
qed

text \<open>The page size a freeze counts in: the huge page when the configuration asks for huge pages,
  the host offers one larger than its base page and the whole table fills at least one; the base
  page otherwise.\<close>

definition overlay_page :: "'c memx_os \<Rightarrow> 'c memx_index \<Rightarrow> 'c memx_world \<Rightarrow> nat" where
  "overlay_page os ix w =
     (let page = unat (os_page_result os); huge = unat (fst (memx_host_huge_page_size os w)) in
      if overlay_huge_pages (config ix) \<and> page < huge \<and> huge \<le> 8 * (regions ix * per_region ix)
      then huge else page)"

lemma overlay_allocate_page:
  assumes "fst (memx_overlay_allocate os bytes hp w) = Some b"
  shows "ob_page_size b =
    (if hp \<and> os_page_result os < fst (memx_host_huge_page_size os w)
        \<and> fst (memx_host_huge_page_size os w) \<le> bytes
     then fst (memx_host_huge_page_size os w) else os_page_result os)"
  using assms unfolding memx_overlay_allocate_def Let_def case_prod_beta
  by (auto split: if_split_asm option.split_asm)

lemma memx_index_optimize_overlay_spec:
  assumes inv: "index_inv live fr ix w" and os: "os_contract os live"
    and cache: "page_cache_ok os (huge_page_cache w)"
  obtains (unsupported) "memx_index_optimize_overlay os (Some ix) w = Some (MEMX_ERROR_UNSUPPORTED, Some ix, w)"
      "\<not> bounded ix"
    | (nomem) w' where "memx_index_optimize_overlay os (Some ix) w = Some (MEMX_ERROR_OUT_OF_MEMORY, Some ix, w')"
      "bounded ix" "index_inv live fr ix w'" "heap w' = heap w"
    | (good) ix' w' g where "memx_index_optimize_overlay os (Some ix) w = Some (MEMX_OK, Some ix', w')"
      "bounded ix" "overlay_inv live fr ix' w'" "config ix' = config ix"
      "region_count ix' = region_count ix" "granules_per_region ix' = granules_per_region ix"
      "\<And>k. k < regions ix * per_region ix \<Longrightarrow> omap ix' w' k = gmap ix (heap w) k"
      "page_power g" "unat (os_page_result os) \<le> unat g"
      "unat (overlay_private_bytes ix') = unat g
         * card (touched (unat g) (8 * per_region ix) (\<lambda>i. is_dense (rdesc ix (heap w) i)) (regions ix))"
      "unat g = overlay_page os ix w"
proof (cases "bounded ix")
  case False
  then show thesis using index_invD(10,11) [OF inv]
    by (intro unsupported) (simp_all add: memx_index_optimize_overlay_def)
next
  case b: True
  note sh = index_invD(2) [OF inv] and modes = index_invD(10,11) [OF inv]
  let ?entries = "region_count ix * granules_per_region ix"
  let ?s = "granules_per_region ix * 8"
  show thesis
  proof (cases "SIZE_MAX div granules_per_region ix < region_count ix \<or> SIZE_MAX div 8 < ?entries")
    case True
    show thesis
      by (rule nomem [of w]) (use True b modes inv in
          \<open>auto simp: memx_index_optimize_overlay_def memx_overlay_platform_supported_def Let_def\<close>)
  next
    case small: False
    have g0: "granules_per_region ix \<noteq> 0" using per_region_pos [OF sh] by (auto simp: unat_eq_iff)
    have n1: "unat ?entries = regions ix * per_region ix"
      using small g0 by (intro entry_count_exact) simp_all
    have "8 * unat ?entries < 2 ^ 64 - 7" using small by (intro SIZE_MAX_div_8) simp
    then have "8 * unat ?entries < 2 ^ 64" by linarith
    then have "unat (?entries * 8) = 8 * unat ?entries" by (rule words_8)
    then have bytes: "unat (?entries * 8) = regions ix * (8 * per_region ix)" unfolding n1 by simp
    have "8 * per_region ix < 2 ^ 64" using sh by (simp add: index_shape_def)
    then have s: "unat ?s = 8 * per_region ix" by (rule words_8)
    obtain ds where ds: "heap w (directory ix) = Some (RegionTable ds)" "length ds = regions ix"
      "table_ok (heap w) ds 0 (regions ix)" "dense_blocks ix (heap w) = table_blocks ds 0 (regions ix)"
      by (rule bounded_table [OF inv b])
    have "ds ! j = 0 \<or> memx_region_type_decode (ds ! j) \<noteq> MEMX_REGION_EMPTY" if "j < length ds" for j
      using rdesc_ok [OF inv, of j] that ds(1,2) b by (auto simp: rdesc_def rslot_def desc_ok_def)
    then have dv: "descriptors_valid ix w 0 (regions ix) = Some True"
      using ds(2) by (intro descriptors_valid_ok [OF ds(1)]) simp_all
    have run: "memx_index_optimize_overlay os (Some ix) w =
      (let (block, w) = memx_overlay_allocate os (?entries * 8) (overlay_huge_pages (config ix)) w
       in case block of
            None \<Rightarrow> Some (MEMX_ERROR_OUT_OF_MEMORY, Some ix, w)
          | Some b \<Rightarrow> do {
              ((private_bytes, _), w) \<leftarrow> overlay_fill ix (ob_entries b) (ob_page_size b) ?s 0
                (regions ix) (0, 0) w;
              let ix' = ix\<lparr>overlay_entries := ob_entries b, overlay_mapping := ob_mapping b,
                          overlay_bytes := ob_reserved_bytes b,
                          overlay_private_bytes := private_bytes, overlay_mode := True\<rparr>;
              w \<leftarrow> overlay_publish ix' 0 (regions ix) w;
              Some (MEMX_OK, Some ix', w) })"
      using small b modes dv
      by (simp add: memx_index_optimize_overlay_def memx_overlay_platform_supported_def Let_def)
    show thesis
      using os cache
    proof (cases rule: memx_overlay_allocate_cases
        [where bytes = "?entries * 8" and hp = "overlay_huge_pages (config ix)"])
      case (fail w1)
      have "world_ok (index_allocator ix) live w1"
        using index_invD(1) [OF inv] fail by (simp add: world_ok_def)
      then have "index_inv live fr ix w1" by (rule index_inv_cong [OF inv fail(2)])
      then show thesis using fail(1,2) b by (intro nomem [of w1]) (simp_all add: run)
    next
      case (good b n w1)
      show thesis
      proof (rule freeze_body [OF inv \<open>bounded ix\<close> bytes s good(2-6)])
        fix acc w2 w3 ix'
        assume a: "overlay_fill ix (ob_entries b) (ob_page_size b) ?s 0 (regions ix) (0, 0) w1 = Some (acc, w2)"
          "ix' = ix\<lparr>overlay_entries := ob_entries b, overlay_mapping := ob_mapping b,
             overlay_bytes := ob_reserved_bytes b, overlay_private_bytes := fst acc,
             overlay_mode := True\<rparr>"
          "overlay_publish ix' 0 (regions ix) w2 = Some w3" "overlay_inv live fr ix' w3"
          "\<And>k. k < regions ix * per_region ix \<Longrightarrow> omap ix' w3 k = gmap ix (heap w) k"
          "unat (fst acc) = unat (ob_page_size b) * card (touched (unat (ob_page_size b))
             (8 * per_region ix) (\<lambda>i. is_dense (rdesc ix (heap w) i)) (regions ix))"
        have "memx_index_optimize_overlay os (Some ix) w = Some (MEMX_OK, Some ix', w3)"
          using a(3) unfolding run good(1) by (simp add: a(1,2) case_prod_beta)
        then show thesis
        proof (rule that(3))
          show "page_power (ob_page_size b)" "unat (os_page_result os) \<le> unat (ob_page_size b)"
            using good(3) by (simp_all add: reservation_def)
          show "unat (overlay_private_bytes ix') = unat (ob_page_size b) * card (touched
            (unat (ob_page_size b)) (8 * per_region ix) (\<lambda>i. is_dense (rdesc ix (heap w) i)) (regions ix))"
            using a(6) by (simp add: a(2))
          show "unat (ob_page_size b) = overlay_page os ix w"
            using overlay_allocate_page [of os "?entries * 8" "overlay_huge_pages (config ix)" w b]
            by (simp add: good(1) overlay_page_def Let_def word_le_nat_alt word_less_nat_alt bytes
                mult.left_commute)
        qed (use a b in \<open>simp_all add: a(2)\<close>)
      qed
    qed
  qed
qed

section \<open>The frozen index\<close>

lemma uniform_bit_1: "is_uniform d \<Longrightarrow> drop_bit 1 d AND 1 = 0"
proof -
  assume "is_uniform d"
  then have "d AND 3 = 1" by (auto simp: descriptor_defs Let_def split: if_splits)
  then have "bit (d AND 3) 1 = bit (1 :: u64) 1" by simp
  then have "\<not> bit d 1" by (simp add: bit_and_3)
  then have "even (drop_bit 1 d)" by (simp add: bit_iff_odd_drop_bit)
  then show ?thesis by (simp only: and_one_eq even_iff_mod_2_eq_zero)
qed

text \<open>The branchless lookup, wherever the address is covered and mapped.\<close>

lemma overlay_trusted_lookup:
  assumes inv: "overlay_inv live fr ix w" and cov: "covered ix a"
    and mapped: "memx_lookup_address (Some ix) w a \<noteq> Some MEMX_HANDLE_INVALID"
    and view: "memx_index_overlay_view (Some ix) True = (MEMX_OK, Some v)"
  shows "memx_overlay_lookup_trusted v w a = memx_lookup_address (Some ix) w a"
proof -
  note sh = overlay_invD(2) [OF inv]
  let ?k = "granule_of ix a" let ?i = "granule_of ix a div per_region ix"
  obtain ds es where t: "heap w (directory ix) = Some (RegionTable ds)" "length ds = regions ix"
    "\<forall>j < regions ix. ds ! j = 0 \<or> is_uniform (ds ! j) \<or> ds ! j = MEMX_DESCRIPTOR_DENSE_TAG"
    "rdesc ix (heap w) = (!) ds"
    "maps w (overlay_entries ix) = Some es" "regions ix * per_region ix \<le> length es"
    by (rule overlay_tables [OF inv])
  have k: "?k < regions ix * per_region ix" by (rule granule_of_lt [OF sh cov])
  then have i: "?i < regions ix" by (rule less_mult_imp_div_less)
  have v: "v = \<lparr>ov_base_address = base_address (config ix), ov_region_shift = region_shift (config ix),
      ov_granule_shift = granule_shift (config ix),
      ov_entry_count = drop_bit (gshift ix) (managed_size (config ix)),
      ov_descriptors = directory ix, ov_dense_overlay = overlay_entries ix\<rparr>"
    using view by (simp add: memx_index_overlay_view_def split: if_splits)
  have pos: "unat (drop_bit (gshift ix) (a - base_address (config ix))) = ?k"
    by (rule flat_offset [OF sh cov])
  have rpos: "unat (drop_bit (rshift ix) (a - base_address (config ix))) = ?i"
  proof -
    have "unat (a - base_address (config ix)) = unat a - base_of ix"
      using cov by (intro unat_sub) (simp add: covered_def word_le_nat_alt)
    then show ?thesis by (simp add: unat_drop granule_of_def granule_div_region [OF sh])
  qed
  have rr: "read_region w (directory ix, ?i) = Some (ds ! ?i)" using t(1,2) i by simp
  have rm: "read_map w (overlay_entries ix) ?k = Some (es ! ?k)" using t(5,6) k by (simp add: read_map_def)
  have look: "memx_lookup_address (Some ix) w a = Some (omap ix w ?k)"
    using overlay_lookup [OF inv, of a] cov by simp
  have nz: "ds ! ?i \<noteq> 0" using mapped look by (auto simp: omap_def t(4) Let_def)
  let ?m = "(0 :: u64) - (drop_bit 1 (ds ! ?i) AND 1)"
  have run: "memx_overlay_lookup_trusted v w a =
      Some ((es ! ?k AND ?m) OR (drop_bit 2 (ds ! ?i) AND NOT ?m))"
    unfolding memx_overlay_lookup_trusted_def v Let_def memx_overlay_view.simps pos rpos
    by (simp only: rr rm bind.bind_lunit)
  consider "is_uniform (ds ! ?i)" | "ds ! ?i = MEMX_DESCRIPTOR_DENSE_TAG" using t(3) i nz by blast
  then show ?thesis
  proof cases
    case 1
    then show ?thesis
      unfolding run look omap_def t(4) Let_def uniform_bit_1 [OF 1]
      by (simp add: memx_uniform_decode_def)
  next
    case 2
    have m: "?m = - 1" unfolding 2 by (simp add: MEMX_DESCRIPTOR_DENSE_TAG_def)
    show ?thesis
      unfolding run m look omap_def t(4) Let_def using 2 t(5) by simp
  qed
qed

lemma overlay_busy:
  assumes "overlay_mode ix" "handle \<noteq> MEMX_HANDLE_INVALID"
  shows "memx_insert (Some ix) base sz handle w = Some (MEMX_ERROR_BUSY, Some ix, w)"
    and "memx_remove (Some ix) base sz handle w = Some (MEMX_ERROR_BUSY, Some ix, w)"
  using assms by (simp_all add: memx_insert_def memx_remove_def)

lemma overlay_destroy:
  assumes inv: "overlay_inv live fr ix w" and os: "os_contract os live"
  obtains w' where "memx_index_destroy (os_munmap os) (Some ix) w = Some w'" "heap w' = fr"
    "maps w' (overlay_entries ix) = None" "world_ok (index_allocator ix) live w'"
proof -
  let ?A = "index_allocator ix"
  let ?w = "memx_overlay_deallocate (os_munmap os) (overlay_mapping ix) (overlay_bytes ix) w"
  have h0: "heap ?w = heap w" by (simp add: memx_overlay_deallocate_def)
  have m0: "maps ?w (overlay_entries ix) = None"
    using overlay_invD(7-9) [OF inv] by (simp add: memx_overlay_deallocate_def)
  have "live (ctx ?w) = live (ctx w)"
    using os by (simp add: memx_overlay_deallocate_def os_contract_def)
  then have ok0: "world_ok ?A live ?w"
    using overlay_invD(1) [OF inv] h0 by (simp add: world_ok_def)
  obtain ds where ds: "heap w (directory ix) = Some (RegionTable ds)"
    using overlay_tables [OF inv] by metis
  then have "heap ?w (directory ix) \<noteq> None" by (simp add: h0)
  then obtain w1 where w1: "memx_deallocate ?A (directory ix) ?w = Some w1"
    "heap w1 = (heap ?w)(directory ix := None)" "world_ok ?A live w1"
    using memx_deallocate_ok [OF ok0] by blast
  have ne: "self ix \<noteq> directory ix" using ds overlay_invD(6) [OF inv] by auto
  then have "heap w1 (self ix) \<noteq> None" using w1(2) h0 overlay_invD(6) [OF inv] by simp
  then obtain w2 where w2: "memx_deallocate ?A (self ix) w1 = Some w2"
    "heap w2 = (heap w1)(self ix := None)" "world_ok ?A live w2"
    using memx_deallocate_ok [OF w1(3)] by blast
  have keep: "maps w2 = maps ?w"
    using w1(1) w2(1) by (auto simp: memx_deallocate_def split: option.splits)
  show thesis
  proof (rule that)
    show "memx_index_destroy (os_munmap os) (Some ix) w = Some w2"
      using overlay_invD(4,5) [OF inv] w1(1) w2(1) by (simp add: memx_index_destroy_def)
    show "heap w2 = fr" using overlay_invD(10) [OF inv] by (auto simp: fun_eq_iff w2(2) w1(2) h0)
    show "maps w2 (overlay_entries ix) = None" by (simp add: keep m0)
  qed (rule w2(3))
qed

end
