(* ===== verification/Memx_Stats.thy ===== *)
theory Memx_Stats
  imports Memx_Freeze
begin

text \<open>
  \<^verbatim>\<open>memx_index_stats\<close> of \<^verbatim>\<open>src/memx.c\<close>.  The lemmas connect the published numbers with the store:
  the two byte totals are, up to saturation at \<^verbatim>\<open>SIZE_MAX\<close>, the sizes of the blocks the index
  owns, summed exactly and summed rounded up to host pages; the region counters partition the
  regions that have a descriptor.
\<close>

section \<open>Saturating arithmetic\<close>

definition memx_sat_add :: "u64 \<Rightarrow> u64 \<Rightarrow> u64" where
  "memx_sat_add left right = (if SIZE_MAX - right < left then SIZE_MAX else left + right)"

definition memx_sat_mul :: "u64 \<Rightarrow> u64 \<Rightarrow> u64" where
  "memx_sat_mul left right =
     (if right \<noteq> 0 \<and> SIZE_MAX div right < left then SIZE_MAX else left * right)"

text \<open>\<^verbatim>\<open>memx_stats_t\<close>, zeroed by \<^verbatim>\<open>memset\<close>; storage mode 0 is ADAPTIVE.\<close>

record memx_stats =
  st_directory_bytes :: u64
  st_representation_bytes :: u64
  st_total_bytes :: u64
  st_page_accounted_bytes :: u64
  st_reserved_bytes :: u64
  st_region_count :: u64
  st_empty_regions :: u64
  st_uniform_regions :: u64
  st_dense_regions :: u64
  st_storage_mode :: memx_storage_mode

definition memx_stats_zero :: memx_stats where
  "memx_stats_zero =
     \<lparr>st_directory_bytes = 0, st_representation_bytes = 0, st_total_bytes = 0,
      st_page_accounted_bytes = 0, st_reserved_bytes = 0, st_region_count = 0,
      st_empty_regions = 0, st_uniform_regions = 0, st_dense_regions = 0,
      st_storage_mode = MEMX_STORAGE_ADAPTIVE\<rparr>"

text \<open>The flat branch, which returns early.\<close>

definition stats_flat :: "u64 \<Rightarrow> 'c memx_index \<Rightarrow> memx_stats \<Rightarrow> memx_stats" where
  "stats_flat page_size ix s = (
     let flat_entry_bytes =
           memx_sat_mul (drop_bit (unat (granule_shift (config ix))) (managed_size (config ix))) 8;
         dir = memx_sat_add sizeof_memx_index flat_entry_bytes
     in s\<lparr>st_directory_bytes := dir, st_dense_regions := region_count ix, st_total_bytes := dir,
          st_page_accounted_bytes :=
            memx_sat_add (memx_page_account sizeof_memx_index page_size)
              (memx_page_account flat_entry_bytes page_size)\<rparr>)"

definition stats_sparse_leaf_bytes :: "'c memx_index \<Rightarrow> u64" where
  "stats_sparse_leaf_bytes ix = memx_sat_add 8 (memx_sat_mul (sparse_leaf_count ix - 1) 8)"

text \<open>Directory bytes and the number of empty regions, for either directory mode.\<close>

definition stats_directory :: "'c memx_index \<Rightarrow> u64 \<times> u64" where
  "stats_directory ix =
     (if bounded ix then
        (memx_sat_add sizeof_memx_index (memx_sat_mul (region_count ix) 8),
         region_count ix - uniform_regions ix - dense_regions ix)
      else
        let dir = memx_sat_add sizeof_memx_index (memx_sat_mul (sparse_root_count ix) 8);
            dir = memx_sat_add dir
                    (memx_sat_mul (allocated_sparse_leaves ix) (stats_sparse_leaf_bytes ix));
            cov = memx_sat_mul (allocated_sparse_leaves ix) (sparse_leaf_count ix);
            used = memx_sat_add (uniform_regions ix) (dense_regions ix)
        in (dir, if used < cov then cov - used else 0))"

definition stats_pages :: "u64 \<Rightarrow> 'c memx_index \<Rightarrow> u64" where
  "stats_pages page_size ix = (
     let acc = memx_page_account sizeof_memx_index page_size;
         acc = (if bounded ix
                then memx_sat_add acc
                       (memx_page_account (memx_sat_mul (region_count ix) 8) page_size)
                else
                  let acc = memx_sat_add acc
                        (memx_page_account (memx_sat_mul (sparse_root_count ix) 8) page_size)
                  in memx_sat_add acc
                       (memx_sat_mul (allocated_sparse_leaves ix)
                          (memx_page_account (stats_sparse_leaf_bytes ix) page_size)))
     in if overlay_mode ix
        then memx_sat_add acc (overlay_private_bytes ix)
        else memx_sat_add acc
               (memx_sat_mul (dense_regions ix) (memx_page_account (dense_bytes ix) page_size)))"

text \<open>\<^term>\<open>None\<close> is a null \<^verbatim>\<open>out_stats\<close>; \<open>page_result\<close> is what \<^verbatim>\<open>sysconf\<close> answers.\<close>

definition memx_index_stats ::
  "u64 \<Rightarrow> 'c memx_index option \<Rightarrow> bool \<Rightarrow> memx_stats option" where
  "memx_index_stats page_result index out_stats_present =
     (if \<not> out_stats_present then None
      else case index of
        None \<Rightarrow> Some memx_stats_zero
      | Some ix \<Rightarrow>
          (let page_size = memx_host_page_size page_result;
               s = memx_stats_zero\<lparr>st_region_count := region_count ix,
                     st_storage_mode :=
                       (if flat_mode ix then MEMX_STORAGE_FLAT
                        else if overlay_mode ix then MEMX_STORAGE_OVERLAY
                        else MEMX_STORAGE_ADAPTIVE)\<rparr>
           in if flat_mode ix then Some (stats_flat page_size ix s)
              else
                let (dir, empty) = stats_directory ix;
                    repr = (if overlay_mode ix then overlay_private_bytes ix
                            else memx_sat_mul (dense_regions ix) (dense_bytes ix))
                in Some (s\<lparr>st_uniform_regions := uniform_regions ix,
                           st_dense_regions := dense_regions ix,
                           st_directory_bytes := dir, st_empty_regions := empty,
                           st_representation_bytes := repr,
                           st_reserved_bytes := (if overlay_mode ix then overlay_bytes ix else 0),
                           st_total_bytes := memx_sat_add dir repr,
                           st_page_accounted_bytes := stats_pages page_size ix\<rparr>)))"

lemma memx_index_stats_total: "\<exists>s. memx_index_stats r index True = Some s"
  by (cases index; cases "case index of None \<Rightarrow> True | Some ix \<Rightarrow> flat_mode ix")
    (simp_all add: memx_index_stats_def Let_def case_prod_unfold)

section \<open>What the arithmetic computes\<close>

text \<open>The largest 64-bit value as a number.\<close>

abbreviation MAXN :: nat where
  "MAXN \<equiv> 18446744073709551615"

lemma unat_le_MAXN: "unat (x :: u64) \<le> MAXN"
  using unat_lt_64 [of x] by linarith

lemma unat_sat_add: "unat (memx_sat_add a b) = min MAXN (unat a + unat b)"
proof (cases "SIZE_MAX - b < a")
  case True
  then have "MAXN < unat a + unat b"
    by (simp add: word_less_nat_alt unat_sub)
  with True show ?thesis by (simp add: memx_sat_add_def)
next
  case False
  then have "unat a + unat b \<le> MAXN"
    by (simp add: word_less_nat_alt unat_sub) (use unat_le_MAXN [of b] in linarith)
  with False show ?thesis by (simp add: memx_sat_add_def unat_add_exact)
qed

lemma unat_sat_mul: "unat (memx_sat_mul a b) = min MAXN (unat a * unat b)"
proof (cases "b \<noteq> 0 \<and> SIZE_MAX div b < a")
  case True
  then have b: "0 < unat b" by (simp add: unat_gt_0)
  from True have "MAXN div unat b < unat a" by (simp add: word_less_nat_alt unat_div)
  then have "MAXN < unat a * unat b" using b by (simp add: div_less_iff_less_mult)
  with True show ?thesis by (simp add: memx_sat_mul_def)
next
  case False
  show ?thesis
  proof (cases "b = 0")
    case b: False
    then have "\<not> SIZE_MAX div b < a" using False by simp
    then have "unat (a * b) = unat a * unat b" using b by (rule entry_count_exact)
    then show ?thesis using \<open>\<not> SIZE_MAX div b < a\<close> unat_le_MAXN [of "a * b"]
      by (simp add: memx_sat_mul_def)
  qed (simp add: memx_sat_mul_def)
qed

text \<open>The least multiple of \<open>P\<close> that is at least \<open>n\<close>.\<close>

definition page_round :: "nat \<Rightarrow> nat \<Rightarrow> nat" where
  "page_round P n = (n + (P - 1)) div P * P"

lemma page_round_least:
  assumes "0 < P"
  shows "P dvd page_round P n" "n \<le> page_round P n" "P dvd m \<Longrightarrow> n \<le> m \<Longrightarrow> page_round P n \<le> m"
proof -
  show "P dvd page_round P n" by (simp add: page_round_def)
  have "n + (P - 1) = (n + (P - 1)) div P * P + (n + (P - 1)) mod P" by simp
  moreover have "(n + (P - 1)) mod P < P" using assms by simp
  ultimately show "n \<le> page_round P n" unfolding page_round_def by linarith
  assume dvd: "P dvd m" and le: "n \<le> m"
  from dvd obtain q where q: "m = P * q" by (rule dvdE)
  have "(n + (P - 1)) div P < q + 1"
    using assms le q by (intro less_mult_imp_div_less) (simp add: algebra_simps)
  then show "page_round P n \<le> m"
    unfolding page_round_def q by (subst mult.commute) (intro mult_le_mono2; simp)
qed

lemma page_round_0 [simp]: "page_round P 0 = 0"
  by (cases P) (simp_all add: page_round_def)

lemma unat_page_account:
  assumes "page_power p"
  shows "unat (memx_page_account b p) = min MAXN (page_round (unat p) (unat b))"
proof (cases "b = 0")
  case nz: False
  obtain k where k: "k < 64" "p = 2 ^ k" "unat p = 2 ^ k" using page_power_mask [OF assms] by blast
  have p1: "unat (p - 1) = 2 ^ k - 1"
    using k by (simp add: pow2_minus_1 unat_mask_64)
  show ?thesis
  proof (cases "SIZE_MAX - (p - 1) < b")
    case True
    have le: "2 ^ k \<le> (2 :: nat) ^ 63" using k(1) by (intro power_increasing) auto
    have "unat (SIZE_MAX - (p - 1)) = unat SIZE_MAX - unat (p - 1)"
      by (rule unat_sub) simp
    then have "unat (SIZE_MAX - (p - 1)) = MAXN - (2 ^ k - 1)" by (simp only: unat_SIZE_MAX p1)
    with True have "MAXN - (2 ^ k - 1) < unat b" by (simp add: word_less_nat_alt)
    then have "2 ^ 64 \<le> unat b + (2 ^ k - 1)" using le by simp
    then have "2 ^ 64 div 2 ^ k \<le> (unat b + (2 ^ k - 1)) div (2 :: nat) ^ k"
      by (rule div_le_mono)
    then have "2 ^ 64 div 2 ^ k * 2 ^ k \<le> (unat b + (2 ^ k - 1)) div 2 ^ k * (2 :: nat) ^ k"
      by (rule mult_le_mono1)
    moreover have "(2 :: nat) ^ 64 div 2 ^ k * 2 ^ k = 2 ^ 64"
      using k(1) by (intro dvd_div_mult_self le_imp_power_dvd) simp
    ultimately have "2 ^ 64 \<le> page_round (2 ^ k) (unat b)" by (simp only: page_round_def)
    then have "MAXN \<le> page_round (2 ^ k) (unat b)" by simp
    with True nz k(3) show ?thesis by (simp add: memx_page_account_def)
  next
    case False
    have le: "2 ^ k \<le> (2 :: nat) ^ 63" using k(1) by (intro power_increasing) auto
    have "unat (SIZE_MAX - (p - 1)) = unat SIZE_MAX - unat (p - 1)"
      by (rule unat_sub) simp
    then have "unat (SIZE_MAX - (p - 1)) = MAXN - (2 ^ k - 1)" by (simp only: unat_SIZE_MAX p1)
    with False have "\<not> MAXN - (2 ^ k - 1) < unat b" by (simp add: word_less_nat_alt)
    then have fit: "unat b + (2 ^ k - 1) < 2 ^ 64" using le by simp
    have "unat (memx_page_account b p) = page_round (2 ^ k) (unat b)"
      using False nz round_up_mask [OF k(1) fit] k(2)
      by (simp add: memx_page_account_def page_round_def)
    then show ?thesis using k(3) unat_le_MAXN [of "memx_page_account b p"] by simp
  qed
qed (simp add: memx_page_account_def)

lemma host_page_power: "page_power (memx_host_page_size r)"
proof (cases "0 < sint r \<and> r AND (r - 1) = 0")
  case True
  then have "r \<noteq> 0" by auto
  then obtain k where "k < 64" "unat r = 2 ^ k" using pow2_test True by blast
  then show ?thesis using True by (auto simp: memx_host_page_size_def page_power_def)
next
  case False
  have "unat (4096 :: u64) = 2 ^ 12" by simp
  then show ?thesis using False unfolding memx_host_page_size_def page_power_def
    by (intro exI [of _ 12]) auto
qed

section \<open>The blocks an index owns\<close>

text \<open>
  The sizes of the owned blocks, each passed through \<open>f\<close>: the identity for the exact
  footprint, rounding up to pages for the page-accounted one.
\<close>

definition footprint :: "(nat \<Rightarrow> nat) \<Rightarrow> 'c memx_index \<Rightarrow> (u64 \<rightharpoonup> memx_object) \<Rightarrow> nat" where
  "footprint f ix h = (\<Sum>p \<in> owned ix h. case h p of Some obj \<Rightarrow> f (object_bytes obj) | None \<Rightarrow> 0)"

lemma leaf_blocks_card:
  assumes "dir_ok ix h" "\<not> bounded ix"
  shows "finite (leaf_blocks ix h)" "card (leaf_blocks ix h) = unat (allocated_sparse_leaves ix)"
proof -
  let ?R = "{r. leaf_at ix h r \<noteq> 0}"
  obtain rts where r: "h (directory ix) = Some (LeafRoots rts)"
    using assms by (auto simp: dir_ok_def)
  have sub: "?R \<subseteq> {..< length rts}" by (auto simp: leaf_at_def r split: if_splits)
  have img: "leaf_blocks ix h = leaf_at ix h ` ?R" using assms(2) by (auto simp: leaf_blocks_def)
  have inj: "inj_on (leaf_at ix h) ?R"
    using assms unfolding inj_on_def dir_ok_def by (metis (mono_tags) mem_Collect_eq)
  show "finite (leaf_blocks ix h)" unfolding img using finite_subset [OF sub] by simp
  show "card (leaf_blocks ix h) = unat (allocated_sparse_leaves ix)"
    unfolding img card_image [OF inj] using assms by (simp add: dir_ok_def)
qed

lemma dense_blocks_card:
  assumes "regions_ok ix h"
  shows "finite (dense_blocks ix h)" "card (dense_blocks ix h) = count_regions ix h MEMX_REGION_DENSE"
proof -
  let ?R = "{i. i < regions ix \<and> is_dense (rdesc ix h i)}"
  have img: "dense_blocks ix h = (\<lambda>i. memx_dense_decode (rdesc ix h i)) ` ?R"
    by (auto simp: dense_blocks_def)
  have inj: "inj_on (\<lambda>i. memx_dense_decode (rdesc ix h i)) ?R"
    using assms by (auto simp: inj_on_def regions_ok_def)
  show "finite (dense_blocks ix h)" unfolding img by simp
  show "card (dense_blocks ix h) = count_regions ix h MEMX_REGION_DENSE"
    unfolding img card_image [OF inj] by (simp add: count_regions_def)
qed

lemma dense_block_size:
  assumes "regions_ok ix h" "p \<in> dense_blocks ix h"
  obtains hs where "h p = Some (HandleTable hs)" "length hs = per_region ix"
proof -
  from assms(2) obtain i where "i < regions ix" "is_dense (rdesc ix h i)"
    "p = memx_dense_decode (rdesc ix h i)" by (auto simp: dense_blocks_def)
  then show thesis using dense_block_kind [OF assms(1)] that by metis
qed

lemma leaf_block_size:
  assumes "dir_ok ix h" "p \<in> leaf_blocks ix h"
  obtains ds where "h p = Some (RegionTable ds)" "length ds = leaf_size ix"
  using assms by (fastforce simp: dir_ok_def leaf_blocks_def split: if_splits)

text \<open>The bytes of the directory itself.\<close>

definition root_bytes :: "'c memx_index \<Rightarrow> nat" where
  "root_bytes ix = (if bounded ix then 8 * regions ix else 8 * unat (sparse_root_count ix))"

lemma footprint_closed:
  assumes inv: "index_inv live fr ix w"
  shows "footprint f ix (heap w) = f 200 + f (root_bytes ix)
    + (if bounded ix then 0 else unat (allocated_sparse_leaves ix) * f (8 * leaf_size ix))
    + unat (dense_regions ix) * f (8 * per_region ix)"
proof -
  let ?h = "heap w"
  let ?s = "\<lambda>p. case ?h p of Some obj \<Rightarrow> f (object_bytes obj) | None \<Rightarrow> 0"
  note dir = index_invD(3) [OF inv] and reg = index_invD(4) [OF inv]
    and self = index_invD(8) [OF inv] and nd = index_invD(6) [OF inv]
  have dirk: "(\<exists>ds. ?h (directory ix) = Some (RegionTable ds) \<and> length ds = regions ix) \<and> bounded ix
      \<or> (\<exists>rts. ?h (directory ix) = Some (LeafRoots rts) \<and> length rts = unat (sparse_root_count ix))
        \<and> \<not> bounded ix"
    using dir by (auto simp: dir_ok_def split: if_splits)
  have D: "(\<Sum>p \<in> dense_blocks ix ?h. ?s p) = unat (dense_regions ix) * f (8 * per_region ix)"
  proof -
    have "?s p = f (8 * per_region ix)" if "p \<in> dense_blocks ix ?h" for p
      by (rule dense_block_size [OF reg that]) simp
    then show ?thesis by (simp add: dense_blocks_card [OF reg] nd)
  qed
  have L: "(\<Sum>p \<in> leaf_blocks ix ?h. ?s p)
      = (if bounded ix then 0 else unat (allocated_sparse_leaves ix) * f (8 * leaf_size ix))"
  proof (cases "bounded ix")
    case False
    have "?s p = f (8 * leaf_size ix)" if "p \<in> leaf_blocks ix ?h" for p
      by (rule leaf_block_size [OF dir that]) simp
    then show ?thesis using False by (simp add: leaf_blocks_card [OF dir False])
  qed (simp add: leaf_blocks_def)
  have fin: "finite (leaf_blocks ix ?h)" "finite (dense_blocks ix ?h)"
    using leaf_blocks_card [OF dir] dense_blocks_card [OF reg]
    by (cases "bounded ix"; simp add: leaf_blocks_def)+
  have lk: "\<exists>ds. ?h p = Some (RegionTable ds)" if "p \<in> leaf_blocks ix ?h" for p
    by (rule leaf_block_size [OF dir that]) blast
  have dk: "\<exists>hs. ?h p = Some (HandleTable hs)" if "p \<in> dense_blocks ix ?h" for p
    by (rule dense_block_size [OF reg that]) blast
  have dnl: "directory ix \<notin> leaf_blocks ix ?h"
  proof
    assume m: "directory ix \<in> leaf_blocks ix ?h"
    have "\<not> bounded ix" using m by (simp add: leaf_blocks_def split: if_splits)
    then show False using lk [OF m] dirk by auto
  qed
  have dnd: "directory ix \<notin> dense_blocks ix ?h" using dk [of "directory ix"] dirk by auto
  have sn: "self ix \<notin> leaf_blocks ix ?h" "self ix \<notin> dense_blocks ix ?h" "self ix \<noteq> directory ix"
    using lk [of "self ix"] dk [of "self ix"] self dirk by auto
  have disj: "leaf_blocks ix ?h \<inter> dense_blocks ix ?h = {}" using lk dk by fastforce
  have "?s (directory ix) = f (root_bytes ix)" using dirk by (auto simp: root_bytes_def)
  moreover have "?s (self ix) = f 200" using self by (simp add: sizeof_memx_index_def)
  moreover have "footprint f ix ?h = ?s (self ix) + ?s (directory ix)
      + (\<Sum>p \<in> leaf_blocks ix ?h. ?s p) + (\<Sum>p \<in> dense_blocks ix ?h. ?s p)"
    using fin dnl dnd sn disj by (simp add: footprint_def owned_def sum.union_disjoint)
  ultimately show ?thesis using D L by simp
qed

section \<open>The published totals\<close>

lemma min_add_sat: "min M (min M (a :: nat) + min M b) = min M (a + b)"
  by (simp add: min_def)

lemma min_add_sat_left: "min M (min M (a :: nat) + b) = min M (a + b)"
  by (simp add: min_def)

lemma min_add_sat_right: "min M ((a :: nat) + min M b) = min M (a + b)"
  by (simp add: min_def)

lemma min_mult_sat: "min M ((a :: nat) * min M b) = min M (a * b)"
proof (cases "b \<le> M \<or> a = 0")
  case False
  then have "M \<le> a * M" "M \<le> a * b" using mult_le_mono [of 1 a M b] by auto
  with False show ?thesis by simp
qed auto

lemmas sat_simps = unat_sat_add unat_sat_mul min_add_sat min_add_sat_left min_add_sat_right
  min_mult_sat

lemma sparse_leaf_bytes:
  assumes "index_shape ix" "\<not> bounded ix"
  shows "unat (stats_sparse_leaf_bytes ix) = 8 * leaf_size ix"
proof -
  have l: "0 < leaf_size ix" by (rule leaf_size_pos [OF assms])
  have "unat (sparse_leaf_bits ix) \<le> 16" "leaf_size ix = 2 ^ unat (sparse_leaf_bits ix)"
    using assms by (auto simp: index_shape_def)
  then have "leaf_size ix \<le> 2 ^ 16" using power_increasing [of _ 16 "2 :: nat"] by simp
  moreover have "unat (sparse_leaf_count ix - 1) = leaf_size ix - 1"
    using l by (intro unat_minus_one) auto
  ultimately show ?thesis using l by (simp add: stats_sparse_leaf_bytes_def sat_simps)
qed

lemma root_bytes_fit:
  assumes sh: "index_shape ix"
  shows "bounded ix \<Longrightarrow> min MAXN (regions ix * 8) = regions ix * 8"
    and "\<not> bounded ix \<Longrightarrow> min MAXN (unat (sparse_root_count ix) * 8) = unat (sparse_root_count ix) * 8"
proof -
  show "min MAXN (regions ix * 8) = regions ix * 8" if "bounded ix"
    using sh that by (simp add: index_shape_def)
  show "min MAXN (unat (sparse_root_count ix) * 8) = unat (sparse_root_count ix) * 8"
    if nb: "\<not> bounded ix"
  proof -
    have "unat (sparse_root_count ix) * 1 \<le> unat (sparse_root_count ix) * leaf_size ix"
      using leaf_size_pos [OF sh nb] by (intro mult_le_mono2) simp
    moreover have "regions ix = unat (sparse_root_count ix) * leaf_size ix" "regions ix \<le> 2 ^ 32"
      using sh nb by (auto simp: index_shape_def)
    ultimately have "unat (sparse_root_count ix) \<le> 2 ^ 32" by linarith
    then show ?thesis by simp
  qed
qed

text \<open>A null pointer for the result writes nothing; an adaptive index answers these fields.\<close>

lemma stats_adaptive:
  assumes inv: "index_inv live fr ix w"
    and s: "memx_index_stats page_result (Some ix) True = Some s"
  shows "unat (st_total_bytes s) = min MAXN (footprint id ix (heap w))"
    and "unat (st_page_accounted_bytes s) =
      min MAXN (footprint (page_round (unat (memx_host_page_size page_result))) ix (heap w))"
    and "st_storage_mode s = MEMX_STORAGE_ADAPTIVE" "st_region_count s = region_count ix"
    and "st_uniform_regions s = uniform_regions ix" "st_dense_regions s = dense_regions ix"
    and "st_empty_regions s = snd (stats_directory ix)" "st_reserved_bytes s = 0"
proof -
  note sh = index_invD(2) [OF inv] and modes = index_invD(10,11) [OF inv]
  let ?P = "memx_host_page_size page_result"
  note pa = unat_page_account [OF host_page_power [of page_result]]
  have db: "unat (dense_bytes ix) = 8 * per_region ix" using sh by (simp add: index_shape_def)
  have sz: "unat sizeof_memx_index = 200" by (simp add: sizeof_memx_index_def)
  have s': "s = memx_stats_zero\<lparr>st_region_count := region_count ix,
      st_storage_mode := MEMX_STORAGE_ADAPTIVE, st_uniform_regions := uniform_regions ix,
      st_dense_regions := dense_regions ix, st_directory_bytes := fst (stats_directory ix),
      st_empty_regions := snd (stats_directory ix),
      st_representation_bytes := memx_sat_mul (dense_regions ix) (dense_bytes ix),
      st_reserved_bytes := 0,
      st_total_bytes := memx_sat_add (fst (stats_directory ix))
        (memx_sat_mul (dense_regions ix) (dense_bytes ix)),
      st_page_accounted_bytes := stats_pages ?P ix\<rparr>"
    using s modes by (simp add: memx_index_stats_def Let_def case_prod_unfold)
  then show "st_storage_mode s = MEMX_STORAGE_ADAPTIVE" "st_region_count s = region_count ix"
    "st_uniform_regions s = uniform_regions ix" "st_dense_regions s = dense_regions ix"
    "st_empty_regions s = snd (stats_directory ix)" "st_reserved_bytes s = 0"
    by simp_all
  show "unat (st_total_bytes s) = min MAXN (footprint id ix (heap w))"
    unfolding footprint_closed [OF inv] s'
    by (cases "bounded ix")
      (simp_all add: stats_directory_def root_bytes_def Let_def sat_simps sz db
        sparse_leaf_bytes [OF sh] mult.commute add.assoc)
  show "unat (st_page_accounted_bytes s) = min MAXN (footprint (page_round (unat ?P)) ix (heap w))"
    unfolding footprint_closed [OF inv] s'
    by (cases "bounded ix")
      (simp_all add: stats_pages_def root_bytes_def Let_def sat_simps sz db pa modes
        root_bytes_fit [OF sh] sparse_leaf_bytes [OF sh] mult.commute add.assoc)
qed

section \<open>The totals in every storage mode\<close>

text \<open>
  The heap blocks an index holds: a flat index its own block and the entry table, a frozen one
  its block and the directory (the dense tables are in the mapping), an adaptive one everything it
  owns.  The private pages of a frozen index lie outside the heap and are accounted on top.
\<close>

definition index_blocks :: "'c memx_index \<Rightarrow> (u64 \<rightharpoonup> memx_object) \<Rightarrow> u64 set" where
  "index_blocks ix h =
     (if flat_mode ix then {self ix, flat_entries ix}
      else if overlay_mode ix then {self ix, directory ix} else owned ix h)"

definition index_bytes :: "(nat \<Rightarrow> nat) \<Rightarrow> 'c memx_index \<Rightarrow> (u64 \<rightharpoonup> memx_object) \<Rightarrow> nat" where
  "index_bytes f ix h =
     (\<Sum>p \<in> index_blocks ix h. case h p of Some obj \<Rightarrow> f (object_bytes obj) | None \<Rightarrow> 0)"

definition private_bytes :: "'c memx_index \<Rightarrow> nat" where
  "private_bytes ix = (if overlay_mode ix then unat (overlay_private_bytes ix) else 0)"

lemma index_bytes_adaptive:
  "index_inv live fr ix w \<Longrightarrow> index_bytes f ix h = footprint f ix h \<and> private_bytes ix = 0"
  by (frule index_invD(10), drule index_invD(11))
    (simp add: index_bytes_def index_blocks_def footprint_def private_bytes_def)

lemma index_bytes_flat:
  assumes "flat_inv live fr ix w"
  shows "index_bytes f ix (heap w) = f 200 + f (8 * (regions ix * per_region ix))"
    "private_bytes ix = 0"
proof -
  obtain hs where h: "heap w (self ix) = Some IndexBlock"
    "heap w (flat_entries ix) = Some (HandleTable hs)" "length hs = regions ix * per_region ix"
    "flat_mode ix" "\<not> overlay_mode ix"
    using assms unfolding flat_inv_def by blast
  then have "self ix \<noteq> flat_entries ix" by auto
  with h show "index_bytes f ix (heap w) = f 200 + f (8 * (regions ix * per_region ix))"
    "private_bytes ix = 0"
    by (simp_all add: index_bytes_def index_blocks_def private_bytes_def sizeof_memx_index_def)
qed

lemma index_bytes_overlay:
  assumes "overlay_inv live fr ix w"
  shows "index_bytes f ix (heap w) = f 200 + f (8 * regions ix)"
    "private_bytes ix = unat (overlay_private_bytes ix)"
proof -
  obtain ds where h: "heap w (directory ix) = Some (RegionTable ds)" "length ds = regions ix"
    using assms unfolding overlay_inv_def by blast
  note o = overlay_invD(4-6) [OF assms]
  have "self ix \<noteq> directory ix" using h o by auto
  with h o show "index_bytes f ix (heap w) = f 200 + f (8 * regions ix)"
    "private_bytes ix = unat (overlay_private_bytes ix)"
    by (simp_all add: index_bytes_def index_blocks_def private_bytes_def sizeof_memx_index_def)
qed

lemma page_round_sat:
  assumes "0 < P"
  shows "min M (page_round P (min M n)) = min M (page_round P n)"
proof (cases "n \<le> M")
  case False
  then have "M \<le> page_round P M" "M \<le> page_round P n"
    using page_round_least(2) [OF assms, of M] page_round_least(2) [OF assms, of n] by simp_all
  then show ?thesis using False by simp
qed simp

lemma stats_flat_totals:
  assumes inv: "flat_inv live fr ix w"
    and s: "memx_index_stats page_result (Some ix) True = Some s"
  defines "P \<equiv> unat (memx_host_page_size page_result)"
  shows "unat (st_total_bytes s) = min MAXN (index_bytes id ix (heap w))"
    "unat (st_page_accounted_bytes s) = min MAXN (index_bytes (page_round P) ix (heap w))"
    "st_reserved_bytes s = 0"
proof -
  have m: "flat_mode ix" "index_shape ix" "bounded ix" using inv by (simp_all add: flat_inv_def)
  have P: "0 < P" using host_page_power [of page_result] by (auto simp: P_def page_power_def)
  have sz: "unat sizeof_memx_index = 200" by (simp add: sizeof_memx_index_def)
  have "unat (managed_size (config ix)) = regions ix * per_region ix * 2 ^ gshift ix"
    using m region_bytes [OF m(2)] by (simp add: index_shape_def)
  then have n: "unat (drop_bit (gshift ix) (managed_size (config ix))) = regions ix * per_region ix"
    by (simp add: unat_drop)
  note pa = unat_page_account [OF host_page_power [of page_result], folded P_def]
  have s': "s = stats_flat (memx_host_page_size page_result) ix (memx_stats_zero\<lparr>st_region_count :=
      region_count ix, st_storage_mode := MEMX_STORAGE_FLAT\<rparr>)"
    using s m(1) by (simp add: memx_index_stats_def Let_def)
  show "st_reserved_bytes s = 0" by (simp add: s' stats_flat_def Let_def memx_stats_zero_def)
  show "unat (st_total_bytes s) = min MAXN (index_bytes id ix (heap w))"
    unfolding index_bytes_flat(1) [OF inv]
    by (simp add: s' stats_flat_def Let_def sat_simps n sz mult.commute)
  have e: "unat (memx_page_account (memx_sat_mul (drop_bit (gshift ix) (managed_size (config ix))) 8)
      (memx_host_page_size page_result)) = min MAXN (page_round P (8 * (regions ix * per_region ix)))"
    unfolding pa unat_sat_mul n using page_round_sat [OF P, of MAXN "8 * (regions ix * per_region ix)"]
    by (simp add: mult.commute)
  show "unat (st_page_accounted_bytes s) = min MAXN (index_bytes (page_round P) ix (heap w))"
    unfolding index_bytes_flat(1) [OF inv]
    by (simp add: s' stats_flat_def Let_def unat_sat_add e) (simp only: pa sz min_add_sat)
qed

lemma stats_overlay_totals:
  assumes inv: "overlay_inv live fr ix w"
    and s: "memx_index_stats page_result (Some ix) True = Some s"
  defines "P \<equiv> unat (memx_host_page_size page_result)"
  shows "unat (st_total_bytes s) = min MAXN (index_bytes id ix (heap w) + private_bytes ix)"
    "unat (st_page_accounted_bytes s)
      = min MAXN (index_bytes (page_round P) ix (heap w) + private_bytes ix)"
    "st_reserved_bytes s = overlay_bytes ix"
proof -
  note m = overlay_invD(2-5) [OF inv]
  have sz: "unat sizeof_memx_index = 200" by (simp add: sizeof_memx_index_def)
  note pa = unat_page_account [OF host_page_power [of page_result], folded P_def]
  note fit = root_bytes_fit(1) [OF m(1,2)]
  have s': "st_total_bytes s = memx_sat_add (fst (stats_directory ix)) (overlay_private_bytes ix)"
    "st_page_accounted_bytes s = stats_pages (memx_host_page_size page_result) ix"
    "st_reserved_bytes s = overlay_bytes ix"
    using s m(3,4) by (auto simp: memx_index_stats_def Let_def case_prod_unfold)
  show "st_reserved_bytes s = overlay_bytes ix" by (rule s'(3))
  show "unat (st_total_bytes s) = min MAXN (index_bytes id ix (heap w) + private_bytes ix)"
    unfolding index_bytes_overlay [OF inv] s'
    using m(2) by (simp add: stats_directory_def sat_simps sz mult.commute add.assoc)
  show "unat (st_page_accounted_bytes s)
      = min MAXN (index_bytes (page_round P) ix (heap w) + private_bytes ix)"
    unfolding index_bytes_overlay [OF inv] s'
    using m by (simp add: stats_pages_def Let_def sat_simps sz pa fit mult.commute add.assoc)
qed

section \<open>The region counters\<close>

text \<open>Regions whose descriptor exists: all of them, or those of an allocated leaf.\<close>

definition present :: "'c memx_index \<Rightarrow> (u64 \<rightharpoonup> memx_object) \<Rightarrow> nat set" where
  "present ix h = {i. i < regions ix \<and> rslot ix h i \<noteq> None}"

lemma present_bounded: "bounded ix \<Longrightarrow> present ix h = {..< regions ix}"
  by (auto simp: present_def rslot_def)

lemma card_present:
  assumes sh: "index_shape ix" and dir: "dir_ok ix h" and nb: "\<not> bounded ix"
  shows "card (present ix h) = unat (allocated_sparse_leaves ix) * leaf_size ix"
proof -
  let ?R = "{r. leaf_at ix h r \<noteq> 0}" and ?L = "leaf_size ix"
  have L: "0 < ?L" by (rule leaf_size_pos [OF sh nb])
  obtain rts where r: "h (directory ix) = Some (LeafRoots rts)" "length rts = unat (sparse_root_count ix)"
    using dir nb by (auto simp: dir_ok_def)
  have small: "r < unat (sparse_root_count ix)" if "leaf_at ix h r \<noteq> 0" for r
    using that by (auto simp: leaf_at_def r split: if_splits)
  have reg: "regions ix = unat (sparse_root_count ix) * ?L"
    using sh nb by (simp add: index_shape_def)
  have "bij_betw (\<lambda>(r, j). r * ?L + j) (?R \<times> {..< ?L}) (present ix h)"
  proof (rule bij_betw_byWitness [where f' = "\<lambda>i. (i div ?L, i mod ?L)"])
    have "r * ?L + j \<in> present ix h" if a: "leaf_at ix h r \<noteq> 0" "j < ?L" for r j
    proof -
      have "r * ?L + ?L \<le> unat (sparse_root_count ix) * ?L"
        using mult_le_mono1 [OF Suc_leI [OF small [OF a(1)]], of ?L] by simp
      with a(2) have "r * ?L + j < regions ix" unfolding reg by linarith
      with a nb show ?thesis by (simp add: present_def rslot_def Let_def)
    qed
    then show "(\<lambda>(r, j). r * ?L + j) ` (?R \<times> {..< ?L}) \<subseteq> present ix h" by auto
    show "(\<lambda>i. (i div ?L, i mod ?L)) ` present ix h \<subseteq> ?R \<times> {..< ?L}"
      using L nb by (auto simp: present_def rslot_def Let_def split: if_splits)
  qed (use L in auto)
  then have "card (present ix h) = card (?R \<times> {..< ?L})" by (simp add: bij_betw_same_card)
  also have "\<dots> = unat (allocated_sparse_leaves ix) * ?L"
    using dir nb by (simp add: card_cartesian_product dir_ok_def)
  finally show ?thesis .
qed

text \<open>Every region that is present is EMPTY, UNIFORM or DENSE, and the last two are present.\<close>

lemma present_partition:
  "card (present ix h) = card {i \<in> present ix h. rdesc ix h i = 0 \<or>
       memx_region_type_decode (rdesc ix h i) = MEMX_REGION_EMPTY}
     + count_regions ix h MEMX_REGION_UNIFORM + count_regions ix h MEMX_REGION_DENSE"
proof -
  let ?T = "\<lambda>t. {i. i < regions ix \<and> memx_region_type_decode (rdesc ix h i) = t}"
  let ?E = "{i \<in> present ix h. rdesc ix h i = 0 \<or>
       memx_region_type_decode (rdesc ix h i) = MEMX_REGION_EMPTY}"
  have sl: "rslot ix h i \<noteq> None" if "memx_region_type_decode (rdesc ix h i) \<noteq> MEMX_REGION_EMPTY" for i
  proof
    assume "rslot ix h i = None"
    then show False using that rdesc_0 [of ix h i] by simp
  qed
  define E where "E = ?E"
  have "present ix h = E \<union> (?T MEMX_REGION_UNIFORM \<union> ?T MEMX_REGION_DENSE)"
    (is "?P = ?Q")
  proof (rule set_eqI)
    fix i
    show "i \<in> ?P \<longleftrightarrow> i \<in> ?Q"
      using sl [of i] by (cases "memx_region_type_decode (rdesc ix h i)") (auto simp: present_def E_def)
  qed
  moreover have "finite E" "E \<inter> (?T MEMX_REGION_UNIFORM \<union> ?T MEMX_REGION_DENSE) = {}"
    by (auto simp: present_def E_def)
  moreover have "?T MEMX_REGION_UNIFORM \<inter> ?T MEMX_REGION_DENSE = {}" by auto
  ultimately have "card (present ix h) =
      card E + (card (?T MEMX_REGION_UNIFORM) + card (?T MEMX_REGION_DENSE))"
    by (simp add: card_Un_disjoint)
  then show ?thesis by (simp add: count_regions_def E_def)
qed

lemma stats_empty:
  assumes inv: "index_inv live fr ix w"
  shows "unat (snd (stats_directory ix)) = card {i \<in> present ix (heap w).
      memx_region_type_decode (rdesc ix (heap w) i) = MEMX_REGION_EMPTY}" (is "_ = card ?E")
    and "unat (snd (stats_directory ix)) + unat (uniform_regions ix) + unat (dense_regions ix)
      = card (present ix (heap w))"
proof -
  note sh = index_invD(2) [OF inv] and dir = index_invD(3) [OF inv]
  let ?u = "unat (uniform_regions ix)" and ?d = "unat (dense_regions ix)"
  have E: "card (present ix (heap w)) = card ?E + ?u + ?d"
  proof -
    have "{i \<in> present ix (heap w). rdesc ix (heap w) i = 0 \<or>
       memx_region_type_decode (rdesc ix (heap w) i) = MEMX_REGION_EMPTY} = ?E" by auto
    then show ?thesis using present_partition [of ix "heap w"] index_invD(6,7) [OF inv] by simp
  qed
  have "unat (snd (stats_directory ix)) + ?u + ?d = card (present ix (heap w))"
  proof (cases "bounded ix")
    case True
    then have c: "regions ix = card ?E + ?u + ?d" using E by (simp add: present_bounded)
    then have a: "unat (region_count ix - uniform_regions ix) = regions ix - ?u"
      by (intro unat_sub_exact) (simp add: word_le_nat_alt)
    have "unat (region_count ix - uniform_regions ix - dense_regions ix) = regions ix - ?u - ?d"
      unfolding a [symmetric] using c by (intro unat_sub_exact) (simp add: word_le_nat_alt a)
    then show ?thesis using True c E by (simp add: stats_directory_def)
  next
    case nb: False
    let ?n = "unat (allocated_sparse_leaves ix) * leaf_size ix"
    have n: "card (present ix (heap w)) = ?n" by (rule card_present [OF sh dir nb])
    have "card (present ix (heap w)) \<le> card {..< regions ix}"
      by (intro card_mono) (auto simp: present_def)
    moreover have "regions ix \<le> 2 ^ 32" using sh nb unfolding index_shape_def by argo
    ultimately have fit: "?n \<le> 4294967296" using n by simp
    let ?cov = "memx_sat_mul (allocated_sparse_leaves ix) (sparse_leaf_count ix)"
    let ?used = "memx_sat_add (uniform_regions ix) (dense_regions ix)"
    have cov: "unat ?cov = ?n" using fit by (simp add: unat_sat_mul)
    have used: "unat ?used = ?u + ?d" using fit E n by (simp add: unat_sat_add)
    have le: "?used \<le> ?cov" using E n by (simp add: word_le_nat_alt cov used)
    have "snd (stats_directory ix) = ?cov - ?used"
      using nb le by (auto simp: stats_directory_def Let_def)
    then have "unat (snd (stats_directory ix)) = ?n - (?u + ?d)"
      using unat_sub_exact [OF le] by (simp only: cov used)
    then show ?thesis using E n by simp
  qed
  then show "unat (snd (stats_directory ix)) + ?u + ?d = card (present ix (heap w))"
    "unat (snd (stats_directory ix)) = card ?E"
    using E by simp_all
qed

section \<open>Classification of an address\<close>

lemma region_type_at:
  assumes inv: "index_inv live fr ix w"
  shows "memx_region_type_at (Some ix) w a True =
    Some (if covered ix a
          then (MEMX_OK, Some (memx_region_type_decode
                  (rdesc ix (heap w) (granule_of ix a div per_region ix))))
          else (MEMX_ERROR_OUT_OF_RANGE, None))"
proof (cases "covered ix a")
  case False
  then show ?thesis
    by (simp add: memx_region_type_at_def memx_address_to_region_spec [OF index_invD(2) [OF inv]])
next
  case True
  note sh = index_invD(2) [OF inv] and dir = index_invD(3) [OF inv]
  let ?i = "granule_of ix a div per_region ix"
  have k: "granule_of ix a < regions ix * per_region ix" by (rule granule_of_lt [OF sh True])
  have ri: "unat (of_nat ?i :: u64) = ?i" by (rule unat_region_index [OF k])
  have i: "?i < regions ix" using k by (simp add: less_mult_imp_div_less)
  have g: "memx_get_region ix (of_nat ?i) w = Some (rslot ix (heap w) ?i)"
    using get_region_spec [OF sh dir, of "of_nat ?i"] i by (simp add: ri)
  show ?thesis
  proof (cases "rslot ix (heap w) ?i")
    case None
    then show ?thesis
      using True g index_invD(10) [OF inv] rdesc_0 [OF None]
      by (simp add: memx_region_type_at_def memx_address_to_region_spec [OF sh])
  next
    case (Some s)
    obtain p j where s: "s = (p, j)" by fastforce
    have sl: "rslot ix (heap w) ?i = Some (p, j)" using Some s by simp
    obtain ds where "heap w p = Some (RegionTable ds)" "j < length ds" "rdesc ix (heap w) ?i = ds ! j"
      using rslot_table [OF sh dir i sl] by metis
    then show ?thesis
      using True g sl index_invD(10) [OF inv]
      by (simp add: memx_region_type_at_def memx_address_to_region_spec [OF sh])
  qed
qed

end
