(* ===== verification/Memx_Interface.thy ===== *)
theory Memx_Interface
  imports Memx_Stats
begin

text \<open>
  The contract of the index as its clients see it, as locales over an opaque state: an
  \<open>address_map\<close> answers lookups, a \<open>range_map\<close> also takes \<^verbatim>\<open>memx_insert\<close> and \<^verbatim>\<open>memx_remove\<close>.
  Inside the locales: no failed call changes a lookup, an insert is undone by the matching
  remove, and a whole sequence of calls behaves like the abstract map it stands for.  The
  interpretations at the end discharge the laws for the adaptive, flat and frozen indexes.
\<close>

section \<open>The abstract address map\<close>

definition in_range :: "u64 \<Rightarrow> u64 \<Rightarrow> u64 \<Rightarrow> bool" where
  "in_range b n a \<longleftrightarrow> unat b \<le> unat a \<and> unat a < unat b + unat n"

definition put :: "u64 \<Rightarrow> u64 \<Rightarrow> u64 \<Rightarrow> (u64 \<Rightarrow> u64) \<Rightarrow> u64 \<Rightarrow> u64" where
  "put b n h m = (\<lambda>a. if in_range b n a then h else m a)"

definition all_in :: "u64 \<Rightarrow> u64 \<Rightarrow> u64 \<Rightarrow> (u64 \<Rightarrow> u64) \<Rightarrow> bool" where
  "all_in b n v m \<longleftrightarrow> (\<forall>a. in_range b n a \<longrightarrow> m a = v)"

datatype map_call = Insert_Call u64 u64 u64 | Remove_Call u64 u64 u64

text \<open>The statuses the contract allows for a call, and the effect of a call that succeeds.\<close>

definition refusals :: "memx_status set" where
  "refusals = {MEMX_ERROR_INVALID_ARGUMENT, MEMX_ERROR_OUT_OF_RANGE}"

fun allowed :: "(u64 \<Rightarrow> u64 \<Rightarrow> bool) \<Rightarrow> map_call \<Rightarrow> (u64 \<Rightarrow> u64) \<Rightarrow> memx_status set" where
  "allowed lg (Insert_Call b n h) m =
     (if h = MEMX_HANDLE_INVALID \<or> \<not> lg b n then refusals
      else if all_in b n MEMX_HANDLE_INVALID m then {MEMX_OK, MEMX_ERROR_OUT_OF_MEMORY}
      else {MEMX_ERROR_OVERLAP})"
| "allowed lg (Remove_Call b n h) m =
     (if h = MEMX_HANDLE_INVALID \<or> \<not> lg b n then refusals
      else if all_in b n h m then {MEMX_OK, MEMX_ERROR_OUT_OF_MEMORY}
      else {MEMX_ERROR_NOT_FOUND})"

fun effect :: "map_call \<Rightarrow> (u64 \<Rightarrow> u64) \<Rightarrow> u64 \<Rightarrow> u64" where
  "effect (Insert_Call b n h) m = put b n h m"
| "effect (Remove_Call b n h) m = put b n MEMX_HANDLE_INVALID m"

fun answers :: "(u64 \<Rightarrow> u64 \<Rightarrow> bool) \<Rightarrow> map_call list \<Rightarrow> memx_status list \<Rightarrow> (u64 \<Rightarrow> u64)
    \<Rightarrow> (u64 \<Rightarrow> u64) \<Rightarrow> bool" where
  "answers lg [] [] m m' \<longleftrightarrow> m' = m"
| "answers lg (c # cs) (st # sts) m m' \<longleftrightarrow>
     st \<in> allowed lg c m \<and> answers lg cs sts (if st = MEMX_OK then effect c m else m) m'"
| "answers lg _ _ m m' \<longleftrightarrow> False"

text \<open>A sequence of calls against a concrete index, collecting the statuses.\<close>

fun run_calls ::
  "(u64 \<Rightarrow> u64 \<Rightarrow> u64 \<Rightarrow> 's \<Rightarrow> (memx_status \<times> 's) option)
     \<Rightarrow> (u64 \<Rightarrow> u64 \<Rightarrow> u64 \<Rightarrow> 's \<Rightarrow> (memx_status \<times> 's) option)
     \<Rightarrow> map_call list \<Rightarrow> 's \<Rightarrow> (memx_status list \<times> 's) option" where
  "run_calls ins rmv [] s = Some ([], s)"
| "run_calls ins rmv (c # cs) s = do {
     (st, s) \<leftarrow> (case c of Insert_Call b n h \<Rightarrow> ins b n h s | Remove_Call b n h \<Rightarrow> rmv b n h s);
     (sts, s) \<leftarrow> run_calls ins rmv cs s;
     Some (st # sts, s)
   }"

section \<open>The contracts\<close>

locale address_map =
  fixes ok :: "'s \<Rightarrow> bool"
    and view :: "'s \<Rightarrow> u64 \<Rightarrow> u64"
    and look :: "'s \<Rightarrow> u64 \<Rightarrow> u64 option"
  assumes look_view: "ok s \<Longrightarrow> look s a = Some (view s a)"
begin

lemma look_total: "ok s \<Longrightarrow> \<exists>h. look s a = Some h"
  by (simp add: look_view)

lemma view_eqI: "ok s \<Longrightarrow> ok s' \<Longrightarrow> (\<And>a. look s a = look s' a) \<Longrightarrow> view s = view s'"
  by (simp add: look_view fun_eq_iff)

end

locale range_map = address_map ok view look
  for ok :: "'s \<Rightarrow> bool" and view look +
  fixes legal :: "'s \<Rightarrow> u64 \<Rightarrow> u64 \<Rightarrow> bool"
    and ins :: "u64 \<Rightarrow> u64 \<Rightarrow> u64 \<Rightarrow> 's \<Rightarrow> (memx_status \<times> 's) option"
    and rmv :: "u64 \<Rightarrow> u64 \<Rightarrow> u64 \<Rightarrow> 's \<Rightarrow> (memx_status \<times> 's) option"
  assumes ins_law: "ok s \<Longrightarrow> \<exists>st s'. ins b n h s = Some (st, s') \<and> ok s' \<and> legal s' = legal s
      \<and> st \<in> allowed (legal s) (Insert_Call b n h) (view s)
      \<and> view s' = (if st = MEMX_OK then put b n h (view s) else view s)"
    and rmv_law: "ok s \<Longrightarrow> \<exists>st s'. rmv b n h s = Some (st, s') \<and> ok s' \<and> legal s' = legal s
      \<and> st \<in> allowed (legal s) (Remove_Call b n h) (view s)
      \<and> view s' = (if st = MEMX_OK then put b n MEMX_HANDLE_INVALID (view s) else view s)"
begin

text \<open>The two laws in the form proofs use them.\<close>

lemma ins_cases:
  assumes "ok s" "ins b n h s = Some (st, s')"
  shows "ok s'" "legal s' = legal s" "st \<in> allowed (legal s) (Insert_Call b n h) (view s)"
    "view s' = (if st = MEMX_OK then put b n h (view s) else view s)"
  using ins_law [OF assms(1), of b n h] assms(2) by auto

lemma rmv_cases:
  assumes "ok s" "rmv b n h s = Some (st, s')"
  shows "ok s'" "legal s' = legal s" "st \<in> allowed (legal s) (Remove_Call b n h) (view s)"
    "view s' = (if st = MEMX_OK then put b n MEMX_HANDLE_INVALID (view s) else view s)"
  using rmv_law [OF assms(1), of b n h] assms(2) by auto

text \<open>After a successful insert the range answers the handle and every other address as before.\<close>

lemma ins_look:
  assumes "ok s" "ins b n h s = Some (MEMX_OK, s')"
  shows "look s' a = (if in_range b n a then Some h else look s a)"
  using ins_cases [OF assms] by (simp add: look_view assms(1) put_def)

lemma ins_fail_look:
  assumes "ok s" "ins b n h s = Some (st, s')" "st \<noteq> MEMX_OK"
  shows "look s' a = look s a"
  using ins_cases [OF assms(1,2)] assms by (simp add: look_view)

lemma rmv_fail_look:
  assumes "ok s" "rmv b n h s = Some (st, s')" "st \<noteq> MEMX_OK"
  shows "look s' a = look s a"
  using rmv_cases [OF assms(1,2)] assms by (simp add: look_view)

text \<open>Removing what was inserted restores every lookup, or reports that memory ran out.\<close>

lemma ins_rmv:
  assumes "ok s" and i: "ins b n h s = Some (MEMX_OK, s1)"
  obtains st s2 where "rmv b n h s1 = Some (st, s2)" "st \<in> {MEMX_OK, MEMX_ERROR_OUT_OF_MEMORY}"
    "ok s2" "st = MEMX_OK \<Longrightarrow> look s2 a = look s a" "st \<noteq> MEMX_OK \<Longrightarrow> look s2 a = look s1 a"
proof -
  note c = ins_cases [OF assms]
  obtain st s2 where r: "rmv b n h s1 = Some (st, s2)" using rmv_law [OF c(1)] by blast
  note d = rmv_cases [OF c(1) r]
  have ne: "h \<noteq> MEMX_HANDLE_INVALID" and lg: "legal s b n" and e: "all_in b n MEMX_HANDLE_INVALID (view s)"
    using c(3) by (auto simp: refusals_def split: if_splits)
  have "all_in b n h (view s1)" using c(4) by (simp add: all_in_def put_def)
  then have "st \<in> {MEMX_OK, MEMX_ERROR_OUT_OF_MEMORY}" using d(3) ne lg c(2) by simp
  moreover have "look s2 a = look s a" if "st = MEMX_OK"
    using that c(1,4) d(1,4) e assms(1) by (auto simp: look_view put_def all_in_def)
  moreover have "look s2 a = look s1 a" if "st \<noteq> MEMX_OK"
    using rmv_fail_look [OF c(1) r that] .
  ultimately show thesis using r d(1) that by blast
qed

text \<open>Every sequence of calls returns, and answers as the abstract map does.\<close>

lemma run_refines:
  assumes "ok s"
  shows "\<exists>sts s'. run_calls ins rmv cs s = Some (sts, s') \<and> ok s' \<and> legal s' = legal s
    \<and> answers (legal s) cs sts (view s) (view s')"
  using assms
proof (induction cs arbitrary: s)
  case (Cons c cs)
  have "\<exists>st s1. (case c of Insert_Call b n h \<Rightarrow> ins b n h s | Remove_Call b n h \<Rightarrow> rmv b n h s)
        = Some (st, s1) \<and> ok s1 \<and> legal s1 = legal s \<and> st \<in> allowed (legal s) c (view s)
      \<and> view s1 = (if st = MEMX_OK then effect c (view s) else view s)"
  proof (cases c)
    case (Insert_Call b n h)
    show ?thesis unfolding Insert_Call map_call.case effect.simps by (rule ins_law [OF Cons.prems])
  next
    case (Remove_Call b n h)
    show ?thesis unfolding Remove_Call map_call.case effect.simps by (rule rmv_law [OF Cons.prems])
  qed
  then obtain st s1 where s1: "(case c of Insert_Call b n h \<Rightarrow> ins b n h s
        | Remove_Call b n h \<Rightarrow> rmv b n h s) = Some (st, s1)" "ok s1" "legal s1 = legal s"
      "st \<in> allowed (legal s) c (view s)"
      "view s1 = (if st = MEMX_OK then effect c (view s) else view s)" by blast
  obtain sts s2 where "run_calls ins rmv cs s1 = Some (sts, s2)" "ok s2" "legal s2 = legal s1"
    "answers (legal s1) cs sts (view s1) (view s2)" using Cons.IH [OF s1(2)] by blast
  then show ?case using s1 by simp
qed simp

end

section \<open>Granules and addresses\<close>

definition aview :: "'c memx_index \<Rightarrow> (nat \<Rightarrow> u64) \<Rightarrow> u64 \<Rightarrow> u64" where
  "aview ix G a = (if covered ix a then G (granule_of ix a) else MEMX_HANDLE_INVALID)"

lemma aview_cong:
  assumes "index_shape ix" "\<And>k. k < regions ix * per_region ix \<Longrightarrow> G k = G' k"
  shows "aview ix G = aview ix G'"
  using assms(2) granule_of_lt [OF assms(1)] by (auto simp: aview_def fun_eq_iff)

lemma range_granules:
  assumes sh: "index_shape ix" and b: "at ix b k0" and e: "at ix e m" and m: "m \<le> regions ix * per_region ix"
    and n: "unat e = unat b + unat n"
  shows "in_range b n a \<longleftrightarrow> covered ix a \<and> k0 \<le> granule_of ix a \<and> granule_of ix a < m"
proof -
  let ?G = "(2 :: nat) ^ gshift ix"
  have be: "unat b = base_of ix + k0 * ?G" "unat b + unat n = base_of ix + m * ?G"
    using b e n by (simp_all add: at_def)
  have top: "base_of ix + m * ?G \<le> base_of ix + regions ix * 2 ^ rshift ix"
    using mult_le_mono1 [OF m, of ?G] by (simp add: region_bytes [OF sh] mult.assoc)
  have lo: "k0 \<le> y div ?G \<longleftrightarrow> k0 * ?G \<le> y" for y by (simp add: less_eq_div_iff_mult_less_eq)
  have hi: "y div ?G < m \<longleftrightarrow> y < m * ?G" for y by (simp add: div_less_iff_less_mult)
  show ?thesis
  proof (cases "base_of ix \<le> unat a")
    case True
    then obtain y where y: "unat a = base_of ix + y" by (auto simp: le_iff_add)
    have bn: "base_of ix + k0 * ?G + unat n = base_of ix + m * ?G" using be by simp
    show ?thesis
      unfolding in_range_def be(1) bn covered_def granule_of_def lo hi y using top by (auto simp: lo hi)
  next
    case False
    then show ?thesis by (simp add: in_range_def covered_def be(1))
  qed
qed

lemma aview_put:
  assumes "index_shape ix" "at ix b k0" "at ix e m" "m \<le> regions ix * per_region ix"
    "unat e = unat b + unat n"
  shows "aview ix (\<lambda>g. if c \<and> k0 \<le> g \<and> g < m then v else G g)
    = (if c then put b n v (aview ix G) else aview ix G)"
  using range_granules [OF assms] by (auto simp: aview_def put_def fun_eq_iff)

lemma aview_all:
  assumes sh: "index_shape ix" and b: "at ix b k0" and e: "at ix e m"
    and m: "m \<le> regions ix * per_region ix" and n: "unat e = unat b + unat n"
  shows "all_in b n v (aview ix G) \<longleftrightarrow> (\<forall>g. k0 \<le> g \<and> g < m \<longrightarrow> G g = v)"
proof
  assume all: "all_in b n v (aview ix G)"
  show "\<forall>g. k0 \<le> g \<and> g < m \<longrightarrow> G g = v"
  proof (intro allI impI)
    fix g assume g: "k0 \<le> g \<and> g < m"
    let ?G = "(2 :: nat) ^ gshift ix"
    define a :: u64 where "a = of_nat (base_of ix + g * ?G)"
    have "g * ?G \<le> m * ?G" using g by simp
    then have "base_of ix + g * ?G \<le> unat e" using e by (simp add: at_def)
    then have "base_of ix + g * ?G < 18446744073709551616" using unat_lt_64 [of e] by linarith
    then have "unat a = base_of ix + g * ?G" unfolding a_def unat_of_nat by simp
    then have at: "at ix a g" by (simp add: at_def)
    have "covered ix a" using at_covered [OF sh at] g m by simp
    moreover have "granule_of ix a = g" by (rule at_granule_of [OF at])
    moreover have "in_range b n a" using range_granules [OF sh b e m n] calculation g by simp
    ultimately show "G g = v" using all by (auto simp: all_in_def aview_def)
  qed
qed (use range_granules [OF assms] in \<open>auto simp: all_in_def aview_def\<close>)

section \<open>The index as a state\<close>

text \<open>A client holds the index and the world it lives in as one state.\<close>

type_synonym 'c index_state = "'c memx_index \<times> 'c memx_world"

definition index_look :: "'c index_state \<Rightarrow> u64 \<Rightarrow> u64 option" where
  "index_look s a = memx_lookup_address (Some (fst s)) (snd s) a"

definition index_legal :: "'c index_state \<Rightarrow> u64 \<Rightarrow> u64 \<Rightarrow> bool" where
  "index_legal s b n \<longleftrightarrow> fst (memx_validate_range (Some (fst s)) b n) = MEMX_OK"

definition index_result ::
  "(memx_status \<times> 'c memx_index option \<times> 'c memx_world) option \<Rightarrow> (memx_status \<times> 'c index_state) option" where
  "index_result r = do {
     (st, ix, w) \<leftarrow> r;
     ix \<leftarrow> ix;
     Some (st, (ix, w))
   }"

definition index_insert ::
  "u64 \<Rightarrow> u64 \<Rightarrow> u64 \<Rightarrow> 'c index_state \<Rightarrow> (memx_status \<times> 'c index_state) option" where
  "index_insert b n h s = index_result (memx_insert (Some (fst s)) b n h (snd s))"

definition index_remove ::
  "u64 \<Rightarrow> u64 \<Rightarrow> u64 \<Rightarrow> 'c index_state \<Rightarrow> (memx_status \<times> 'c index_state) option" where
  "index_remove b n h s = index_result (memx_remove (Some (fst s)) b n h (snd s))"

lemma index_result_simps [simp]:
  "index_result (Some (st, Some ix, w)) = Some (st, (ix, w))"
  "index_result None = None"
  by (simp_all add: index_result_def)

lemma validate_range_refusal:
  "fst (memx_validate_range (Some ix) b n) \<noteq> MEMX_OK \<Longrightarrow> fst (memx_validate_range (Some ix) b n) \<in> refusals"
  by (auto simp: memx_validate_range_def refusals_def split: if_splits option.splits)

text \<open>Validation reads only what every operation keeps.\<close>

lemma same_legal:
  "same_index ix ix' \<Longrightarrow> index_legal (ix', w') = index_legal (ix, w)"
proof -
  assume same: "same_index ix ix'"
  note f = same_index_fields [OF same]
  have e: "memx_address_to_region ix' = memx_address_to_region ix"
    by (simp add: memx_address_to_region_def Let_def fun_eq_iff f)
  have "memx_validate_range (Some ix') b n = memx_validate_range (Some ix) b n" for b n
    unfolding memx_validate_range_def option.case f e ..
  then show ?thesis by (simp add: index_legal_def fun_eq_iff)
qed

text \<open>A call that is refused before it reads the index.\<close>

lemma refused_calls:
  assumes "\<not> overlay_mode ix" and bad: "h = MEMX_HANDLE_INVALID \<or> \<not> index_legal (ix, w) b n"
  shows "\<exists>st. index_insert b n h (ix, w) = Some (st, (ix, w)) \<and> st \<in> refusals"
    and "\<exists>st. index_remove b n h (ix, w) = Some (st, (ix, w)) \<and> st \<in> refusals"
proof -
  obtain st e where v: "memx_validate_range (Some ix) b n = (st, e)" by fastforce
  have r: "st \<in> refusals" if "h \<noteq> MEMX_HANDLE_INVALID"
    using bad that validate_range_refusal [of ix b n] by (simp add: index_legal_def v)
  have o: "MEMX_OK \<notin> refusals" "MEMX_ERROR_INVALID_ARGUMENT \<in> refusals" by (simp_all add: refusals_def)
  show "\<exists>st. index_insert b n h (ix, w) = Some (st, (ix, w)) \<and> st \<in> refusals"
    using assms(1) v r o by (cases "h = MEMX_HANDLE_INVALID"; cases "st = MEMX_OK")
      (auto simp: index_insert_def memx_insert_def)
  show "\<exists>st. index_remove b n h (ix, w) = Some (st, (ix, w)) \<and> st \<in> refusals"
    using assms(1) v r o by (cases "h = MEMX_HANDLE_INVALID"; cases "st = MEMX_OK")
      (auto simp: index_remove_def memx_remove_def)
qed

text \<open>A call that is not: the range in granules.\<close>

lemma legal_range:
  assumes "index_shape ix" "index_legal (ix, w) b n"
  obtains e k0 m where "memx_validate_range (Some ix) b n = (MEMX_OK, e)" "at ix b k0" "at ix e m"
    "k0 < m" "m \<le> regions ix * per_region ix" "unat e = unat b + unat n"
proof -
  obtain st e where v: "memx_validate_range (Some ix) b n = (st, e)" by fastforce
  with assms(2) have v: "memx_validate_range (Some ix) b n = (MEMX_OK, e)" by (simp add: index_legal_def)
  from memx_validate_range_OK [OF assms(1) this] obtain k0 m where
    "at ix b k0" "at ix e m" "k0 < m" "m \<le> regions ix * per_region ix" "unat e = unat b + unat n"
    by metis
  with v show thesis by (rule that)
qed

section \<open>The adaptive index\<close>

definition adaptive_ok ::
  "('c \<Rightarrow> u64 set) \<Rightarrow> (u64 \<rightharpoonup> memx_object) \<Rightarrow> 'c index_state \<Rightarrow> bool" where
  "adaptive_ok live fr s \<longleftrightarrow> index_inv live fr (fst s) (snd s)"

definition adaptive_view :: "'c index_state \<Rightarrow> u64 \<Rightarrow> u64" where
  "adaptive_view s = aview (fst s) (gmap (fst s) (heap (snd s)))"

lemma holds_view:
  assumes "index_shape ix" "at ix b k0" "at ix e m" "m \<le> regions ix * per_region ix"
    "unat e = unat b + unat n"
  shows "holds ix w k0 m v \<longleftrightarrow> all_in b n v (adaptive_view (ix, w))"
  using aview_all [OF assms] by (simp add: holds_def adaptive_view_def)

lemma tracks_adaptive:
  assumes inv: "index_inv live fr ix w"
    and t: "tracks live fr ix (\<lambda>g. if c \<and> k0 \<le> g \<and> g < m then v else gmap ix (heap w) g) ix' w'"
    and r: "at ix b k0" "at ix e m" "m \<le> regions ix * per_region ix" "unat e = unat b + unat n"
  shows "adaptive_ok live fr (ix', w')" "index_legal (ix', w') = index_legal (ix, w)"
    "adaptive_view (ix', w') = (if c then put b n v (adaptive_view (ix, w)) else adaptive_view (ix, w))"
proof -
  note same = tracksD(1) [OF t] and sh = index_invD(2) [OF inv]
  show "adaptive_ok live fr (ix', w')" using tracksD(2) [OF t] by (simp add: adaptive_ok_def)
  show "index_legal (ix', w') = index_legal (ix, w)" by (rule same_legal [OF same])
  have "adaptive_view (ix', w') = aview ix (gmap ix (heap w'))"
    using same_index_view [OF same] by (simp add: adaptive_view_def aview_def fun_eq_iff)
  also have "\<dots> = aview ix (\<lambda>g. if c \<and> k0 \<le> g \<and> g < m then v else gmap ix (heap w) g)"
    by (rule aview_cong [OF sh tracksD(3) [OF t]])
  also have "\<dots> = (if c then put b n v (adaptive_view (ix, w)) else adaptive_view (ix, w))"
    using aview_put [OF sh r] by (simp add: adaptive_view_def)
  finally show "adaptive_view (ix', w') = \<dots>" .
qed

lemma adaptive_insert:
  assumes "adaptive_ok live fr s"
  shows "\<exists>st s'. index_insert b n h s = Some (st, s') \<and> adaptive_ok live fr s'
    \<and> index_legal s' = index_legal s \<and> st \<in> allowed (index_legal s) (Insert_Call b n h) (adaptive_view s)
    \<and> adaptive_view s' = (if st = MEMX_OK then put b n h (adaptive_view s) else adaptive_view s)"
proof -
  obtain ix w where s: "s = (ix, w)" by fastforce
  have inv: "index_inv live fr ix w" using assms by (simp add: adaptive_ok_def s)
  note sh = index_invD(2) [OF inv]
  show ?thesis
  proof (cases "h = MEMX_HANDLE_INVALID \<or> \<not> index_legal (ix, w) b n")
    case True
    then show ?thesis
      using refused_calls(1) [OF index_invD(11) [OF inv] True] assms by (auto simp: s refusals_def)
  next
    case False
    then have h: "h \<noteq> MEMX_HANDLE_INVALID" and lg: "index_legal (ix, w) b n" by auto
    obtain e k0 m where r: "memx_validate_range (Some ix) b n = (MEMX_OK, e)" "at ix b k0" "at ix e m"
      "k0 < m" "m \<le> regions ix * per_region ix" "unat e = unat b + unat n" by (rule legal_range [OF sh lg])
    note hv = holds_view [OF sh r(2,3,5,6), where w = w and v = MEMX_HANDLE_INVALID]
    have "\<exists>st ix' w'. memx_insert (Some ix) b n h w = Some (st, Some ix', w')
        \<and> (if holds ix w k0 m MEMX_HANDLE_INVALID then st \<in> {MEMX_OK, MEMX_ERROR_OUT_OF_MEMORY}
            else st = MEMX_ERROR_OVERLAP)
        \<and> tracks live fr ix (\<lambda>g. if st = MEMX_OK \<and> k0 \<le> g \<and> g < m then h
              else gmap ix (heap w) g) ix' w'"
    proof (rule insert_valid [OF inv h r(1-5)], goal_cases)
      case (1 st ix' w')
      from 1(2,3) have "if holds ix w k0 m MEMX_HANDLE_INVALID
        then st \<in> {MEMX_OK, MEMX_ERROR_OUT_OF_MEMORY} else st = MEMX_ERROR_OVERLAP" by simp
      with 1(1,4) show ?case by blast
    qed
    then obtain st ix' w' where go: "memx_insert (Some ix) b n h w = Some (st, Some ix', w')"
      "if holds ix w k0 m MEMX_HANDLE_INVALID then st \<in> {MEMX_OK, MEMX_ERROR_OUT_OF_MEMORY}
       else st = MEMX_ERROR_OVERLAP"
      "tracks live fr ix (\<lambda>g. if st = MEMX_OK \<and> k0 \<le> g \<and> g < m then h
         else gmap ix (heap w) g) ix' w'" by blast
    have "st \<in> allowed (index_legal s) (Insert_Call b n h) (adaptive_view s)"
      using h lg go(2) hv by (auto simp: s split: if_splits)
    then show ?thesis
      using tracks_adaptive [OF inv go(3) r(2,3,5,6)] go(1) by (simp add: s index_insert_def)
  qed
qed

lemma adaptive_remove:
  assumes "adaptive_ok live fr s"
  shows "\<exists>st s'. index_remove b n h s = Some (st, s') \<and> adaptive_ok live fr s'
    \<and> index_legal s' = index_legal s \<and> st \<in> allowed (index_legal s) (Remove_Call b n h) (adaptive_view s)
    \<and> adaptive_view s' = (if st = MEMX_OK then put b n MEMX_HANDLE_INVALID (adaptive_view s)
                          else adaptive_view s)"
proof -
  obtain ix w where s: "s = (ix, w)" by fastforce
  have inv: "index_inv live fr ix w" using assms by (simp add: adaptive_ok_def s)
  note sh = index_invD(2) [OF inv]
  show ?thesis
  proof (cases "h = MEMX_HANDLE_INVALID \<or> \<not> index_legal (ix, w) b n")
    case True
    then show ?thesis
      using refused_calls(2) [OF index_invD(11) [OF inv] True] assms by (auto simp: s refusals_def)
  next
    case False
    then have h: "h \<noteq> MEMX_HANDLE_INVALID" and lg: "index_legal (ix, w) b n" by auto
    obtain e k0 m where r: "memx_validate_range (Some ix) b n = (MEMX_OK, e)" "at ix b k0" "at ix e m"
      "k0 < m" "m \<le> regions ix * per_region ix" "unat e = unat b + unat n" by (rule legal_range [OF sh lg])
    note hv = holds_view [OF sh r(2,3,5,6), where w = w and v = h]
    have "\<exists>st ix' w'. memx_remove (Some ix) b n h w = Some (st, Some ix', w')
        \<and> (if holds ix w k0 m h then st \<in> {MEMX_OK, MEMX_ERROR_OUT_OF_MEMORY}
            else st = MEMX_ERROR_NOT_FOUND)
        \<and> tracks live fr ix (\<lambda>g. if st = MEMX_OK \<and> k0 \<le> g \<and> g < m then MEMX_HANDLE_INVALID
              else gmap ix (heap w) g) ix' w'"
    proof (rule remove_valid [OF inv h r(1-5)], goal_cases)
      case (1 st ix' w')
      from 1(2,3) have "if holds ix w k0 m h
        then st \<in> {MEMX_OK, MEMX_ERROR_OUT_OF_MEMORY} else st = MEMX_ERROR_NOT_FOUND" by simp
      with 1(1,4) show ?case by blast
    qed
    then obtain st ix' w' where go: "memx_remove (Some ix) b n h w = Some (st, Some ix', w')"
      "if holds ix w k0 m h then st \<in> {MEMX_OK, MEMX_ERROR_OUT_OF_MEMORY}
       else st = MEMX_ERROR_NOT_FOUND"
      "tracks live fr ix (\<lambda>g. if st = MEMX_OK \<and> k0 \<le> g \<and> g < m then MEMX_HANDLE_INVALID
         else gmap ix (heap w) g) ix' w'" by blast
    have "st \<in> allowed (index_legal s) (Remove_Call b n h) (adaptive_view s)"
      using h lg go(2) hv by (auto simp: s split: if_splits)
    then show ?thesis
      using tracks_adaptive [OF inv go(3) r(2,3,5,6)] go(1) by (simp add: s index_remove_def)
  qed
qed

lemma adaptive_look: "adaptive_ok live fr s \<Longrightarrow> index_look s a = Some (adaptive_view s a)"
  by (simp add: adaptive_ok_def index_look_def adaptive_view_def aview_def lookup_granule)

interpretation adaptive: range_map "adaptive_ok live fr" adaptive_view index_look index_legal
    index_insert index_remove for live :: "'c \<Rightarrow> u64 set" and fr
  by unfold_locales (rule adaptive_look adaptive_insert adaptive_remove, assumption)+

section \<open>The flat index\<close>

definition flat_ok ::
  "('c \<Rightarrow> u64 set) \<Rightarrow> (u64 \<rightharpoonup> memx_object) \<Rightarrow> 'c index_state \<Rightarrow> bool" where
  "flat_ok live fr s \<longleftrightarrow> flat_inv live fr (fst s) (snd s)"

definition flat_view :: "'c index_state \<Rightarrow> u64 \<Rightarrow> u64" where
  "flat_view s = aview (fst s) (fmap_of (fst s) (heap (snd s)))"

lemma flat_look: "flat_ok live fr s \<Longrightarrow> index_look s a = Some (flat_view s a)"
  by (simp add: flat_ok_def index_look_def flat_view_def aview_def flat_lookup)

lemma flat_insert_law:
  assumes "flat_ok live fr s"
  shows "\<exists>st s'. index_insert b n h s = Some (st, s') \<and> flat_ok live fr s'
    \<and> index_legal s' = index_legal s \<and> st \<in> allowed (index_legal s) (Insert_Call b n h) (flat_view s)
    \<and> flat_view s' = (if st = MEMX_OK then put b n h (flat_view s) else flat_view s)"
proof -
  obtain ix w where s: "s = (ix, w)" by fastforce
  have inv: "flat_inv live fr ix w" using assms by (simp add: flat_ok_def s)
  note sh = flat_invD(2) [OF inv]
  show ?thesis
  proof (cases "h = MEMX_HANDLE_INVALID \<or> \<not> index_legal (ix, w) b n")
    case True
    then show ?thesis
      using refused_calls(1) [OF flat_invD(5) [OF inv] True] assms by (auto simp: s refusals_def)
  next
    case False
    then have h: "h \<noteq> MEMX_HANDLE_INVALID" and lg: "index_legal (ix, w) b n" by auto
    obtain e k0 m where r: "memx_validate_range (Some ix) b n = (MEMX_OK, e)" "at ix b k0" "at ix e m"
      "k0 < m" "m \<le> regions ix * per_region ix" "unat e = unat b + unat n" by (rule legal_range [OF sh lg])
    have all: "flat_holds ix w k0 m MEMX_HANDLE_INVALID \<longleftrightarrow> all_in b n MEMX_HANDLE_INVALID (flat_view s)"
      using aview_all [OF sh r(2,3,5,6)] by (simp add: flat_holds_def flat_view_def s)
    show ?thesis
    proof (rule flat_insert [OF inv h r(1-5)], goal_cases)
      case 1
      then show ?case
        using all h lg assms by (intro exI [of _ MEMX_ERROR_OVERLAP] exI [of _ s])
          (simp add: s index_insert_def)
    next
      case (2 w')
      have "flat_view (ix, w') = aview ix (\<lambda>g. if True \<and> k0 \<le> g \<and> g < m then h
          else fmap_of ix (heap w) g)"
        unfolding flat_view_def fst_conv snd_conv by (rule aview_cong [OF sh]) (simp add: 2(4))
      then have "flat_view (ix, w') = put b n h (flat_view s)"
        using aview_put [OF sh r(2,3,5,6), where c = True] by (simp add: flat_view_def s)
      then show ?case
        using 2 all h lg by (intro exI [of _ MEMX_OK] exI [of _ "(ix, w')"])
          (simp add: s index_insert_def flat_ok_def index_legal_def fun_eq_iff)
    qed
  qed
qed

lemma flat_remove_law:
  assumes "flat_ok live fr s"
  shows "\<exists>st s'. index_remove b n h s = Some (st, s') \<and> flat_ok live fr s'
    \<and> index_legal s' = index_legal s \<and> st \<in> allowed (index_legal s) (Remove_Call b n h) (flat_view s)
    \<and> flat_view s' = (if st = MEMX_OK then put b n MEMX_HANDLE_INVALID (flat_view s) else flat_view s)"
proof -
  obtain ix w where s: "s = (ix, w)" by fastforce
  have inv: "flat_inv live fr ix w" using assms by (simp add: flat_ok_def s)
  note sh = flat_invD(2) [OF inv]
  show ?thesis
  proof (cases "h = MEMX_HANDLE_INVALID \<or> \<not> index_legal (ix, w) b n")
    case True
    then show ?thesis
      using refused_calls(2) [OF flat_invD(5) [OF inv] True] assms by (auto simp: s refusals_def)
  next
    case False
    then have h: "h \<noteq> MEMX_HANDLE_INVALID" and lg: "index_legal (ix, w) b n" by auto
    obtain e k0 m where r: "memx_validate_range (Some ix) b n = (MEMX_OK, e)" "at ix b k0" "at ix e m"
      "k0 < m" "m \<le> regions ix * per_region ix" "unat e = unat b + unat n" by (rule legal_range [OF sh lg])
    have all: "flat_holds ix w k0 m h \<longleftrightarrow> all_in b n h (flat_view s)"
      using aview_all [OF sh r(2,3,5,6)] by (simp add: flat_holds_def flat_view_def s)
    show ?thesis
    proof (rule flat_remove [OF inv h r(1-5)], goal_cases)
      case 1
      then show ?case
        using all h lg assms by (intro exI [of _ MEMX_ERROR_NOT_FOUND] exI [of _ s])
          (simp add: s index_remove_def)
    next
      case (2 w')
      have "flat_view (ix, w') = aview ix (\<lambda>g. if True \<and> k0 \<le> g \<and> g < m then MEMX_HANDLE_INVALID
          else fmap_of ix (heap w) g)"
        unfolding flat_view_def fst_conv snd_conv by (rule aview_cong [OF sh]) (simp add: 2(4))
      then have "flat_view (ix, w') = put b n MEMX_HANDLE_INVALID (flat_view s)"
        using aview_put [OF sh r(2,3,5,6), where c = True] by (simp add: flat_view_def s)
      then show ?case
        using 2 all h lg by (intro exI [of _ MEMX_OK] exI [of _ "(ix, w')"])
          (simp add: s index_remove_def flat_ok_def index_legal_def fun_eq_iff)
    qed
  qed
qed

interpretation flat: range_map "flat_ok live fr" flat_view index_look index_legal
    index_insert index_remove for live :: "'c \<Rightarrow> u64 set" and fr
  by unfold_locales (rule flat_look flat_insert_law flat_remove_law, assumption)+

section \<open>The frozen index\<close>

definition frozen_ok ::
  "('c \<Rightarrow> u64 set) \<Rightarrow> (u64 \<rightharpoonup> memx_object) \<Rightarrow> 'c index_state \<Rightarrow> bool" where
  "frozen_ok live fr s \<longleftrightarrow> overlay_inv live fr (fst s) (snd s)"

definition frozen_view :: "'c index_state \<Rightarrow> u64 \<Rightarrow> u64" where
  "frozen_view s = aview (fst s) (omap (fst s) (snd s))"

interpretation frozen: address_map "frozen_ok live fr" frozen_view index_look
    for live :: "'c \<Rightarrow> u64 set" and fr
  by unfold_locales (simp add: frozen_ok_def frozen_view_def index_look_def aview_def overlay_lookup)

end
