(* ===== verification/Memx_Examples.thy ===== *)
theory Memx_Examples
  imports Memx_Interface
begin

text \<open>
  Concrete instances for the witnesses: an allocator that hands out the addresses 16, 32, 48,
  \<dots> and keeps the list of live ones, a platform whose \<^verbatim>\<open>mmap\<close> answers a fixed address, and
  indexes created, filled, flattened and frozen with them by running the model.
\<close>

section \<open>An allocator and a platform\<close>

type_synonym bump = "nat \<times> u64 list"

definition bump_allocate :: "bump \<Rightarrow> u64 \<Rightarrow> u64 \<times> bump" where
  "bump_allocate c n =
     (let p = 16 * of_nat (Suc (length (snd c))) in
      if fst c = 0 \<or> p = 0 \<or> p \<in> set (snd c) then (0, c) else (p, (fst c - 1, p # snd c)))"

definition bump_release :: "bump \<Rightarrow> u64 \<Rightarrow> bump" where
  "bump_release c p = (fst c, filter (\<lambda>q. q \<noteq> p) (snd c))"

definition bump_live :: "bump \<Rightarrow> u64 set" where
  "bump_live c = set (snd c)"

definition bump_allocator :: "bump memx_allocator" where
  "bump_allocator = \<lparr>allocate = Some bump_allocate, deallocate = Some bump_release\<rparr>"

definition bump_libc :: "bump libc" where
  "bump_libc = \<lparr>libc_malloc = bump_allocate, libc_free = bump_release\<rparr>"

lemma bump_contract: "allocator_contract bump_allocator bump_live"
  by (auto simp: allocator_contract_def bump_allocator_def bump_allocate_def bump_release_def
      bump_live_def Let_def split: if_splits)

definition empty_world :: "bump memx_world" where
  "empty_world = \<lparr>heap = Map.empty, maps = Map.empty, huge_page_cache = SIZE_MAX, ctx = (100, [])\<rparr>"

lemma empty_world_ok: "world_ok bump_allocator bump_live empty_world"
  using bump_contract by (auto simp: world_ok_def empty_world_def bump_live_def)

text \<open>4 regions of 4 bytes, 2 granules of 2 bytes each, from address 16.\<close>

definition small_config :: "bump memx_config" where
  "small_config = memx_config_default
     \<lparr>region_shift := 2, granule_shift := 1, base_address := 16, managed_size := 16,
      allocator := bump_allocator\<rparr>"

definition sparse_config :: "bump memx_config" where
  "sparse_config = memx_config_default
     \<lparr>directory_mode := MEMX_DIRECTORY_SPARSE, region_shift := 2, granule_shift := 1,
      address_bits := 5, allocator := bump_allocator\<rparr>"

definition created :: "bump memx_config \<Rightarrow> bump index_state" where
  "created cfg = (case memx_index_create bump_libc (Some cfg) True empty_world of
      Some (st, Some ix, w) \<Rightarrow> (ix, w) | _ \<Rightarrow> undefined)"

lemma small_valid: "memx_validate_config bump_libc small_config = (MEMX_OK, small_config)"
  by (simp add: memx_validate_config_def small_config_def memx_config_default_def
      memx_shift_valid_def memx_is_aligned_def MEMX_POLICY_COMPACT_def MEMX_POLICY_BALANCED_def
      MEMX_HINT_TRUSTED_def MEMX_HINT_VALIDATED_def MEMX_DIRECTORY_BOUNDED_def bump_allocator_def Let_def)

lemma sparse_valid: "memx_validate_config bump_libc sparse_config = (MEMX_OK, sparse_config)"
  by (simp add: memx_validate_config_def sparse_config_def memx_config_default_def
      memx_shift_valid_def memx_is_aligned_def MEMX_POLICY_COMPACT_def MEMX_POLICY_BALANCED_def
      MEMX_HINT_TRUSTED_def MEMX_HINT_VALIDATED_def MEMX_DIRECTORY_BOUNDED_def
      MEMX_DIRECTORY_SPARSE_def bump_allocator_def Let_def)

fun succeeds :: "(memx_status \<times> 'a option \<times> 'b) option \<Rightarrow> bool" where
  "succeeds (Some (MEMX_OK, Some x, y)) = True"
| "succeeds _ = False"

lemma succeedsE:
  assumes "succeeds r"
  obtains x y where "r = Some (MEMX_OK, Some x, y)"
  using assms by (cases r rule: succeeds.cases) auto

declare memx_config_default_def [code_unfold]

lemma small_creates: "succeeds (memx_index_create bump_libc (Some small_config) True empty_world)"
  by code_simp

lemma sparse_creates: "succeeds (memx_index_create bump_libc (Some sparse_config) True empty_world)"
  by code_simp

lemma created_run:
  assumes "succeeds (memx_index_create bump_libc (Some cfg) True empty_world)"
  shows "memx_index_create bump_libc (Some cfg) True empty_world
    = Some (MEMX_OK, Some (fst (created cfg)), snd (created cfg))"
  using assms by (cases "memx_index_create bump_libc (Some cfg) True empty_world" rule: succeeds.cases)
    (simp_all add: created_def)

lemma created_inv:
  assumes "memx_validate_config bump_libc cfg = (MEMX_OK, cfg)" "allocator cfg = bump_allocator"
    and run: "succeeds (memx_index_create bump_libc (Some cfg) True empty_world)"
  shows "index_inv bump_live Map.empty (fst (created cfg)) (snd (created cfg))"
proof -
  have ok: "world_ok (allocator cfg) bump_live empty_world" using empty_world_ok assms(2) by simp
  have h: "heap empty_world = Map.empty" by (simp add: empty_world_def)
  note go = created_run [OF run]
  show ?thesis
  proof (rule memx_index_create_spec [OF assms(1) ok], goal_cases)
    case (1 st w')
    then show ?case using go by simp
  next
    case (2 ix w')
    then have "fst (created cfg) = ix" "snd (created cfg) = w'" using go by simp_all
    then show ?case using 2(3) by (simp add: h)
  qed
qed

section \<open>Indexes with contents\<close>

definition small :: "bump index_state" where
  "small = created small_config"

definition sparse :: "bump index_state" where
  "sparse = created sparse_config"

text \<open>One uniform region, one dense region, two empty ones.\<close>

definition mixed :: "bump index_state" where
  "mixed = (case run_calls index_insert index_remove
       [Insert_Call 16 4 7, Insert_Call 20 2 9] small of Some (_, s) \<Rightarrow> s | None \<Rightarrow> undefined)"

text \<open>Every region dense, then flattened.\<close>

definition full :: "bump index_state" where
  "full = (case run_calls index_insert index_remove
       [Insert_Call 16 2 5, Insert_Call 20 2 6, Insert_Call 24 2 7, Insert_Call 28 2 8] small of
     Some (_, s) \<Rightarrow> s | None \<Rightarrow> undefined)"

definition flattened :: "bump index_state" where
  "flattened = (case memx_index_optimize (Some (fst full)) (snd full) of
     Some (_, Some ix, w) \<Rightarrow> (ix, w) | _ \<Rightarrow> undefined)"

definition bump_os :: "bump memx_os" where
  "bump_os = \<lparr>os_page_result = 64, os_probe = None,
     os_mmap = (\<lambda>c n. (if n \<le> 4096 then Some 4096 else None, c)),
     os_mprotect = (\<lambda>c p n. (True, c)), os_madvise = (\<lambda>c p n. c), os_munmap = (\<lambda>c p n. c)\<rparr>"

definition frozen_state :: "bump index_state" where
  "frozen_state = (case memx_index_optimize_overlay bump_os (Some (fst mixed)) (snd mixed) of
     Some (_, Some ix, w) \<Rightarrow> (ix, w) | _ \<Rightarrow> undefined)"

lemma small_inv: "index_inv bump_live Map.empty (fst small) (snd small)"
  unfolding small_def by (rule created_inv [OF small_valid _ small_creates]) (simp add: small_config_def)

lemma sparse_inv: "index_inv bump_live Map.empty (fst sparse) (snd sparse)"
  unfolding sparse_def by (rule created_inv [OF sparse_valid _ sparse_creates]) (simp add: sparse_config_def)

lemma filled_inv:
  assumes "s = (case run_calls index_insert index_remove calls small of Some (_, s) \<Rightarrow> s | None \<Rightarrow> undefined)"
  shows "index_inv bump_live Map.empty (fst s) (snd s)"
proof -
  have "adaptive_ok bump_live Map.empty small" using small_inv by (simp add: adaptive_ok_def)
  from adaptive.run_refines [OF this, of calls] show ?thesis
    unfolding assms adaptive_ok_def by auto
qed

lemma mixed_inv: "index_inv bump_live Map.empty (fst mixed) (snd mixed)"
  by (rule filled_inv [OF mixed_def])

lemma full_inv: "index_inv bump_live Map.empty (fst full) (snd full)"
  by (rule filled_inv [OF full_def])

lemma full_flattens: "succeeds (memx_index_optimize (Some (fst full)) (snd full))"
  by code_simp

lemma flattened_inv: "flat_inv bump_live Map.empty (fst flattened) (snd flattened)"
proof (rule memx_index_optimize_spec [OF full_inv], goal_cases)
  case (3 ix' w')
  then show ?case by (simp add: flattened_def)
qed (use full_flattens in auto)

lemma bump_os_contract: "os_contract bump_os bump_live"
  by (auto simp: os_contract_def bump_os_def word_le_nat_alt split: if_splits)

lemma mixed_cache: "page_cache_ok bump_os (huge_page_cache (snd mixed))"
proof -
  have "huge_page_cache (snd mixed) = SIZE_MAX" by code_simp
  then show ?thesis by (simp add: page_cache_ok_def)
qed

lemma mixed_freezes: "succeeds (memx_index_optimize_overlay bump_os (Some (fst mixed)) (snd mixed))"
  by code_simp

lemma frozen_inv: "overlay_inv bump_live Map.empty (fst frozen_state) (snd frozen_state)"
proof (rule memx_index_optimize_overlay_spec [OF mixed_inv bump_os_contract mixed_cache], goal_cases)
  case (3 ix' w' g)
  then show ?case by (simp add: frozen_state_def)
qed (use mixed_freezes in auto)

end
