(* ===== verification/Memx_Properties.thy ===== *)
theory Memx_Properties
  imports Memx_Examples
begin

text \<open>
  The properties of \<^verbatim>\<open>src/memx.c\<close>, each with a witness on the indexes of \<open>Memx_Examples\<close>: what
  the updates do to lookups, that sequences of calls behave like an abstract address map, that
  the lifecycle returns every block, that the flat and frozen layouts and all read views answer
  like the checked lookup, what the statistics mean, and what the validation guarantees.
\<close>

section \<open>Updates\<close>

text \<open>C1: \<^verbatim>\<open>memx_insert\<close> on any live adaptive index returns, keeps the representation invariant,
  answers a status the contract allows (OK or out of memory exactly when the range is legal and
  free, overlap when it is not free), maps every address of the range on success, and leaves
  every other lookup (on failure: every lookup) as it was.\<close>

theorem memx_insert_correct:
  assumes "index_inv live fr ix w"
  shows "\<exists>st ix' w'. memx_insert (Some ix) base sz handle w = Some (st, Some ix', w')
    \<and> index_inv live fr ix' w'
    \<and> st \<in> allowed (index_legal (ix, w)) (Insert_Call base sz handle) (adaptive_view (ix, w))
    \<and> (\<forall>a. memx_lookup_address (Some ix') w' a =
          (if st = MEMX_OK \<and> in_range base sz a then Some handle
           else memx_lookup_address (Some ix) w a))"
proof -
  have ok: "adaptive_ok live fr (ix, w)" using assms by (simp add: adaptive_ok_def)
  obtain st ix' w' where i: "index_insert base sz handle (ix, w) = Some (st, (ix', w'))"
    using adaptive.ins_law [OF ok] by (metis surj_pair)
  note c = adaptive.ins_cases [OF ok i]
  have "memx_insert (Some ix) base sz handle w = Some (st, Some ix', w')"
    using i by (auto simp: index_insert_def index_result_def bind_eq_Some_conv)
  moreover have "index_look (ix', w') a =
      (if st = MEMX_OK \<and> in_range base sz a then Some handle else index_look (ix, w) a)" for a
    using adaptive.look_view [OF c(1)] adaptive.look_view [OF ok] c(4) by (simp add: put_def)
  ultimately show ?thesis using c(1,3) by (auto simp: adaptive_ok_def index_look_def)
qed

theorem memx_insert_correct_witness:
  "\<exists>st ix' w'. memx_insert (Some (fst small)) 16 4 7 (snd small) = Some (st, Some ix', w')
    \<and> index_inv bump_live Map.empty ix' w'"
  using memx_insert_correct [OF small_inv, of 16 4 7] by blast

text \<open>C2: \<^verbatim>\<open>memx_remove\<close> likewise: OK or out of memory exactly when every address of the legal
  range holds the expected handle, not found otherwise; on success the range is unmapped and the
  rest kept, on failure nothing changes.\<close>

theorem memx_remove_correct:
  assumes "index_inv live fr ix w"
  shows "\<exists>st ix' w'. memx_remove (Some ix) base sz handle w = Some (st, Some ix', w')
    \<and> index_inv live fr ix' w'
    \<and> st \<in> allowed (index_legal (ix, w)) (Remove_Call base sz handle) (adaptive_view (ix, w))
    \<and> (\<forall>a. memx_lookup_address (Some ix') w' a =
          (if st = MEMX_OK \<and> in_range base sz a then Some MEMX_HANDLE_INVALID
           else memx_lookup_address (Some ix) w a))"
proof -
  have ok: "adaptive_ok live fr (ix, w)" using assms by (simp add: adaptive_ok_def)
  obtain st ix' w' where i: "index_remove base sz handle (ix, w) = Some (st, (ix', w'))"
    using adaptive.rmv_law [OF ok] by (metis surj_pair)
  note c = adaptive.rmv_cases [OF ok i]
  have "memx_remove (Some ix) base sz handle w = Some (st, Some ix', w')"
    using i by (auto simp: index_remove_def index_result_def bind_eq_Some_conv)
  moreover have "index_look (ix', w') a =
      (if st = MEMX_OK \<and> in_range base sz a then Some MEMX_HANDLE_INVALID else index_look (ix, w) a)"
    for a
    using adaptive.look_view [OF c(1)] adaptive.look_view [OF ok] c(4) by (simp add: put_def)
  ultimately show ?thesis using c(1,3) by (auto simp: adaptive_ok_def index_look_def)
qed

theorem memx_remove_correct_witness:
  "\<exists>st ix' w'. memx_remove (Some (fst mixed)) 16 4 7 (snd mixed) = Some (st, Some ix', w')
    \<and> index_inv bump_live Map.empty ix' w'"
  using memx_remove_correct [OF mixed_inv, of 16 4 7] by blast

text \<open>C3: every sequence of inserts and removes, whatever their arguments and whenever memory runs
  out, returns, keeps the invariant, and answers status by status as the abstract address map
  does; the final lookups are those of the abstract map.\<close>

theorem memx_calls_refine_address_map:
  assumes "index_inv live fr ix w"
  shows "\<exists>sts ix' w'. run_calls index_insert index_remove calls (ix, w) = Some (sts, (ix', w'))
    \<and> index_inv live fr ix' w'
    \<and> answers (index_legal (ix, w)) calls sts (adaptive_view (ix, w)) (adaptive_view (ix', w'))"
  using adaptive.run_refines [of live fr "(ix, w)" calls] assms by (auto simp: adaptive_ok_def)

theorem memx_calls_refine_address_map_witness:
  "\<exists>sts ix' w'. run_calls index_insert index_remove [Insert_Call 16 4 7, Remove_Call 18 2 7]
      (fst sparse, snd sparse) = Some (sts, (ix', w')) \<and> index_inv bump_live Map.empty ix' w'"
  using memx_calls_refine_address_map [OF sparse_inv, of "[Insert_Call 16 4 7, Remove_Call 18 2 7]"]
  by blast

text \<open>C4: after a successful insert, removing the same range with the same handle either restores
  every lookup or reports that memory ran out and changes none.\<close>

theorem memx_insert_remove_roundtrip:
  assumes "index_inv live fr ix w"
    and "memx_insert (Some ix) base sz handle w = Some (MEMX_OK, Some ix1, w1)"
  shows "\<exists>st ix2 w2. memx_remove (Some ix1) base sz handle w1 = Some (st, Some ix2, w2)
    \<and> st \<in> {MEMX_OK, MEMX_ERROR_OUT_OF_MEMORY}
    \<and> (\<forall>a. memx_lookup_address (Some ix2) w2 a =
          memx_lookup_address (Some (if st = MEMX_OK then ix else ix1)) (if st = MEMX_OK then w else w1) a)"
proof -
  have ok: "adaptive_ok live fr (ix, w)" using assms(1) by (simp add: adaptive_ok_def)
  have i: "index_insert base sz handle (ix, w) = Some (MEMX_OK, (ix1, w1))"
    using assms(2) by (simp add: index_insert_def)
  have ok1: "adaptive_ok live fr (ix1, w1)" by (rule adaptive.ins_cases(1) [OF ok i])
  obtain st ix2 w2 where r: "index_remove base sz handle (ix1, w1) = Some (st, (ix2, w2))"
    using adaptive.rmv_law [OF ok1] by (metis surj_pair)
  have c: "st \<in> {MEMX_OK, MEMX_ERROR_OUT_OF_MEMORY}
      \<and> index_look (ix2, w2) a = (if st = MEMX_OK then index_look (ix, w) a else index_look (ix1, w1) a)"
    for a by (rule adaptive.ins_rmv [OF ok i, where a = a]) (use r in auto)
  have "memx_remove (Some ix1) base sz handle w1 = Some (st, Some ix2, w2)"
    using r by (auto simp: index_remove_def index_result_def bind_eq_Some_conv)
  with c show ?thesis by (auto simp: index_look_def)
qed

theorem memx_insert_remove_roundtrip_witness:
  "\<exists>ix1 w1 st ix2 w2. memx_insert (Some (fst small)) 18 8 7 (snd small) = Some (MEMX_OK, Some ix1, w1)
    \<and> memx_remove (Some ix1) 18 8 7 w1 = Some (st, Some ix2, w2)"
proof -
  have "succeeds (memx_insert (Some (fst small)) 18 8 7 (snd small))" by code_simp
  then obtain ix1 w1 where i: "memx_insert (Some (fst small)) 18 8 7 (snd small)
      = Some (MEMX_OK, Some ix1, w1)" by (rule succeedsE)
  from memx_insert_remove_roundtrip [OF small_inv i] i show ?thesis by blast
qed

section \<open>Lifecycle\<close>

text \<open>C5: with an accepted configuration, \<^verbatim>\<open>memx_index_create\<close> returns: either a failure that has
  given every block back, or an index that satisfies the invariant and maps nothing.\<close>

theorem memx_index_create_correct:
  assumes "memx_validate_config lc cfg = (MEMX_OK, cfg')" and "world_ok (allocator cfg') live w"
  shows "(\<exists>st w'. memx_index_create lc (Some cfg) True w = Some (st, None, w')
        \<and> st \<in> {MEMX_ERROR_OUT_OF_MEMORY, MEMX_ERROR_UNSUPPORTED} \<and> heap w' = heap w)
    \<or> (\<exists>ix w'. memx_index_create lc (Some cfg) True w = Some (MEMX_OK, Some ix, w')
        \<and> config ix = cfg' \<and> index_inv live (heap w) ix w'
        \<and> (\<forall>a. memx_lookup_address (Some ix) w' a = Some MEMX_HANDLE_INVALID))"
proof (rule memx_index_create_spec [OF assms], goal_cases)
  case (2 ix w')
  have "memx_lookup_address (Some ix) w' a = Some MEMX_HANDLE_INVALID" for a
    using lookup_granule [OF 2(3), of a] 2(4) granule_of_lt [OF index_invD(2) [OF 2(3)], of a] by simp
  then show ?case using 2(1-3) by blast
qed blast

theorem memx_index_create_correct_witness:
  "\<exists>ix w'. memx_index_create bump_libc (Some small_config) True empty_world = Some (MEMX_OK, Some ix, w')
    \<and> (\<forall>a. memx_lookup_address (Some ix) w' a = Some MEMX_HANDLE_INVALID)"
proof -
  have "world_ok (allocator small_config) bump_live empty_world"
    using empty_world_ok by (simp add: small_config_def)
  from memx_index_create_correct [OF small_valid this] small_creates show ?thesis by auto
qed

text \<open>C6: the whole lifecycle: create, any sequence of updates, destroy.  Destruction returns, and
  the heap is what it was before the creation: nothing leaks and nothing is freed twice.\<close>

theorem memx_lifecycle_no_leak:
  assumes v: "memx_validate_config lc cfg = (MEMX_OK, cfg')" and ok: "world_ok (allocator cfg') live w"
    and go: "memx_index_create lc (Some cfg) True w = Some (MEMX_OK, Some ix, w1)"
  shows "\<exists>sts ix2 w2 w3. run_calls index_insert index_remove calls (ix, w1) = Some (sts, (ix2, w2))
    \<and> answers (index_legal (ix, w1)) calls sts (\<lambda>a. MEMX_HANDLE_INVALID) (adaptive_view (ix2, w2))
    \<and> memx_index_destroy munmap (Some ix2) w2 = Some w3 \<and> heap w3 = heap w"
proof -
  have fresh: "index_inv live (heap w) ix w1 \<and> adaptive_view (ix, w1) = (\<lambda>a. MEMX_HANDLE_INVALID)"
  proof (rule memx_index_create_spec [OF v ok], goal_cases)
    case (2 ix' w')
    then have e: "ix' = ix" "w' = w1" using go by simp_all
    have "aview ix (gmap ix (heap w1)) = aview ix (\<lambda>k. MEMX_HANDLE_INVALID)"
      using 2(3,4) index_invD(2) [of live "heap w" ix w1] unfolding e by (intro aview_cong) auto
    then show ?case using 2(3) by (simp add: e adaptive_view_def aview_def fun_eq_iff)
  qed (use go in simp)
  have "adaptive_ok live (heap w) (ix, w1)" using fresh by (simp add: adaptive_ok_def)
  from adaptive.run_refines [OF this, of calls] obtain sts ix2 w2 where
    r: "run_calls index_insert index_remove calls (ix, w1) = Some (sts, (ix2, w2))"
      "index_inv live (heap w) ix2 w2"
      "answers (index_legal (ix, w1)) calls sts (adaptive_view (ix, w1)) (adaptive_view (ix2, w2))"
    by (auto simp: adaptive_ok_def)
  from r(2) obtain w3 where "memx_index_destroy munmap (Some ix2) w2 = Some w3" "heap w3 = heap w"
    by (rule memx_index_destroy_spec)
  with r fresh show ?thesis by auto
qed

theorem memx_lifecycle_no_leak_witness:
  "\<exists>sts ix2 w2 w3. run_calls index_insert index_remove [Insert_Call 16 8 1, Remove_Call 18 2 1]
      (fst sparse, snd sparse) = Some (sts, (ix2, w2))
    \<and> memx_index_destroy (\<lambda>c p n. c) (Some ix2) w2 = Some w3 \<and> heap w3 = heap empty_world"
proof -
  have "world_ok (allocator sparse_config) bump_live empty_world"
    using empty_world_ok by (simp add: sparse_config_def)
  from memx_lifecycle_no_leak [OF sparse_valid this created_run [OF sparse_creates],
      of "[Insert_Call 16 8 1, Remove_Call 18 2 1]" "\<lambda>c p n. c"]
  show ?thesis unfolding sparse_def by blast
qed

section \<open>The flat layout\<close>

text \<open>C24: \<^verbatim>\<open>memx_index_optimize\<close> on an adaptive index returns; it is refused exactly when the index
  is sparse or has a region that is not dense, a call that does not succeed leaves the index and
  the heap as they were, and on success the index is flat and every lookup answers as before.\<close>

theorem memx_index_optimize_correct:
  assumes "index_inv live fr ix w"
  shows "\<exists>st ix' w'. memx_index_optimize (Some ix) w = Some (st, Some ix', w')
    \<and> st \<in> {MEMX_OK, MEMX_ERROR_UNSUPPORTED, MEMX_ERROR_OUT_OF_MEMORY}
    \<and> (st = MEMX_ERROR_UNSUPPORTED \<longleftrightarrow> \<not> bounded ix \<or> (\<exists>i < regions ix. \<not> is_dense (rdesc ix (heap w) i)))
    \<and> (st \<noteq> MEMX_OK \<longrightarrow> ix' = ix \<and> heap w' = heap w)
    \<and> (if st = MEMX_OK then flat_inv live fr ix' w' else index_inv live fr ix' w')
    \<and> (\<forall>a. memx_lookup_address (Some ix') w' a = memx_lookup_address (Some ix) w a)"
proof (rule memx_index_optimize_spec [OF assms], goal_cases)
  case (2 w')
  have "memx_lookup_address (Some ix) w' a = memx_lookup_address (Some ix) w a" for a
    using lookup_granule [OF 2(2)] lookup_granule [OF assms] 2(3) by simp
  with 2 optimize_refused [OF assms] show ?case by auto
next
  case (3 ix' w')
  have g: "granule_of ix' = granule_of ix" "covered ix' = covered ix"
    by (simp_all add: granule_of_def covered_def fun_eq_iff 3(3,4))
  have "memx_lookup_address (Some ix') w' a = memx_lookup_address (Some ix) w a" for a
    using flat_lookup [OF 3(2), of a] lookup_granule [OF assms, of a] 3(6)
      granule_of_lt [OF index_invD(2) [OF assms], of a] by (simp add: g)
  with 3 optimize_refused [OF assms] show ?case by auto
qed (use assms in auto)

theorem memx_index_optimize_correct_witness:
  "\<exists>ix' w'. memx_index_optimize (Some (fst full)) (snd full) = Some (MEMX_OK, Some ix', w')
    \<and> memx_lookup_address (Some ix') w' 20 = memx_lookup_address (Some (fst full)) (snd full) 20"
  using memx_index_optimize_correct [OF full_inv] full_flattens by (auto elim: succeedsE)

text \<open>C25: sequences of inserts and removes on a flat index refine the same abstract address map.\<close>

theorem memx_flat_calls_refine_address_map:
  assumes "flat_inv live fr ix w"
  shows "\<exists>sts ix' w'. run_calls index_insert index_remove calls (ix, w) = Some (sts, (ix', w'))
    \<and> flat_inv live fr ix' w'
    \<and> answers (index_legal (ix, w)) calls sts (flat_view (ix, w)) (flat_view (ix', w'))"
  using flat.run_refines [of live fr "(ix, w)" calls] assms by (auto simp: flat_ok_def)

theorem memx_flat_calls_refine_address_map_witness:
  "\<exists>sts ix' w'. run_calls index_insert index_remove [Remove_Call 20 2 6, Insert_Call 20 4 1]
      (fst flattened, snd flattened) = Some (sts, (ix', w')) \<and> flat_inv bump_live Map.empty ix' w'"
  using memx_flat_calls_refine_address_map [OF flattened_inv, of "[Remove_Call 20 2 6, Insert_Call 20 4 1]"]
  by blast

section \<open>The frozen layout\<close>



text \<open>C27: the footprint a freeze publishes: \<open>overlay_private_bytes\<close> is the page size times the
  number of distinct pages the dense regions touch, a page shared by two regions counted once.
  The page is the huge page exactly when the configuration asks for huge pages, the host's huge
  page is larger than its base page and the table fills at least one; otherwise it is the base
  page.\<close>

theorem memx_overlay_private_bytes_exact:
  assumes "index_inv live fr ix w" "os_contract os live" "page_cache_ok os (huge_page_cache w)"
    and "memx_index_optimize_overlay os (Some ix) w = Some (MEMX_OK, Some ix', w')"
  shows "unat (overlay_private_bytes ix') = overlay_page os ix w
    * card (touched (overlay_page os ix w) (8 * per_region ix)
        (\<lambda>i. is_dense (rdesc ix (heap w) i)) (regions ix))"
proof (rule memx_index_optimize_overlay_spec [OF assms(1-3)], goal_cases)
  case (3 ix'' w'' g)
  then show ?case using assms(4) by simp
qed (use assms(4) in simp_all)

theorem memx_overlay_private_bytes_exact_witness:
  "\<exists>ix' w'. memx_index_optimize_overlay bump_os (Some (fst mixed)) (snd mixed) = Some (MEMX_OK, Some ix', w')
    \<and> unat (overlay_private_bytes ix') = 64 * card (touched 64 (8 * per_region (fst mixed))
        (\<lambda>i. is_dense (rdesc (fst mixed) (heap (snd mixed)) i)) (regions (fst mixed)))"
proof -
  obtain ix' w' where r: "memx_index_optimize_overlay bump_os (Some (fst mixed)) (snd mixed)
      = Some (MEMX_OK, Some ix', w')" using mixed_freezes by (rule succeedsE)
  have "overlay_page bump_os (fst mixed) (snd mixed) = 64" by code_simp
  from memx_overlay_private_bytes_exact [OF mixed_inv bump_os_contract mixed_cache r, unfolded this] r
  show ?thesis by blast
qed

text \<open>C28: a frozen index refuses every update and changes nothing: an insert or remove naming a
  valid handle is answered BUSY, whatever its range; one naming the reserved invalid handle is
  answered INVALID\_ARGUMENT, which is checked first.\<close>

theorem memx_frozen_refuses_updates:
  assumes "overlay_inv live fr ix w"
  defines "answer \<equiv> (\<lambda>handle. if handle = MEMX_HANDLE_INVALID then MEMX_ERROR_INVALID_ARGUMENT
                              else MEMX_ERROR_BUSY)"
  shows "memx_insert (Some ix) base sz handle w = Some (answer handle, Some ix, w)
    \<and> memx_remove (Some ix) base sz handle w = Some (answer handle, Some ix, w)"
  using overlay_busy [OF overlay_invD(4) [OF assms(1)]]
  by (cases "handle = MEMX_HANDLE_INVALID") (simp_all add: answer_def memx_insert_def memx_remove_def)

theorem memx_frozen_refuses_updates_witness:
  "memx_insert (Some (fst frozen_state)) 24 4 1 (snd frozen_state)
    = Some (MEMX_ERROR_BUSY, Some (fst frozen_state), snd frozen_state)"
  using memx_frozen_refuses_updates [OF frozen_inv, of 24 4 1] by (simp add: MEMX_HANDLE_INVALID_def)

text \<open>C29: the branchless lookup of the trusted frozen view reads only initialised memory and agrees
  with the checked lookup at every covered, mapped address.\<close>

theorem memx_overlay_lookup_trusted_correct:
  assumes "overlay_inv live fr ix w" "covered ix a"
    and "memx_lookup_address (Some ix) w a \<noteq> Some MEMX_HANDLE_INVALID"
    and "memx_index_overlay_view (Some ix) True = (MEMX_OK, Some v)"
  shows "memx_overlay_lookup_trusted v w a = memx_lookup_address (Some ix) w a"
  by (rule overlay_trusted_lookup [OF assms])

theorem memx_overlay_lookup_trusted_correct_witness:
  "\<exists>v. memx_overlay_lookup_trusted v (snd frozen_state) 20 = Some 9"
proof -
  obtain v where v: "memx_index_overlay_view (Some (fst frozen_state)) True = (MEMX_OK, Some v)"
    using overlay_invD(4) [OF frozen_inv] by (simp add: memx_index_overlay_view_def)
  have l: "memx_lookup_address (Some (fst frozen_state)) (snd frozen_state) 20 = Some 9" by code_simp
  then have c: "covered (fst frozen_state) 20"
    using overlay_lookup [OF frozen_inv, of 20] by (auto simp: MEMX_HANDLE_INVALID_def split: if_splits)
  have "Some 9 \<noteq> Some MEMX_HANDLE_INVALID" by (simp add: MEMX_HANDLE_INVALID_def)
  then show ?thesis
    using memx_overlay_lookup_trusted_correct [OF frozen_inv c _ v] l by auto
qed

text \<open>C30: destroying a flat or a frozen index returns and gives back every block (for the frozen
  index also the mapping).\<close>

theorem memx_index_destroy_optimized:
  assumes "flat_inv live fr ix w \<or> overlay_inv live fr ix w" "os_contract os live"
  shows "\<exists>w'. memx_index_destroy (os_munmap os) (Some ix) w = Some w' \<and> heap w' = fr
    \<and> (overlay_mode ix \<longrightarrow> maps w' (overlay_entries ix) = None)"
proof (cases "flat_inv live fr ix w")
  case True
  then have "\<not> overlay_mode ix" by (rule flat_invD(5))
  then show ?thesis by (rule_tac flat_destroy [OF True, of "os_munmap os"]) blast
next
  case False
  then have "overlay_inv live fr ix w" using assms(1) by simp
  then show ?thesis by (rule overlay_destroy [OF _ assms(2)]) blast
qed

theorem memx_index_destroy_optimized_witness:
  "\<exists>w'. memx_index_destroy (os_munmap bump_os) (Some (fst frozen_state)) (snd frozen_state) = Some w'
    \<and> heap w' = Map.empty"
  using memx_index_destroy_optimized [OF disjI2 [OF frozen_inv] bump_os_contract] by blast

section \<open>Read views\<close>

text \<open>C31: reading through the bounded view, without a bounds check, agrees with the checked lookup
  at every covered address of an adaptive index.\<close>

theorem memx_bounded_view_correct:
  assumes "index_inv live fr ix w" "bounded ix" "covered ix a"
    and "memx_index_bounded_view (Some ix) True = (MEMX_OK, Some v)"
  shows "memx_bounded_lookup_assume_mapped v w a = memx_lookup_address (Some ix) w a"
  by (rule bounded_view_lookup [OF assms])

theorem memx_bounded_view_correct_witness:
  "\<exists>v. memx_bounded_lookup_assume_mapped v (snd mixed) 17 = Some 7"
proof -
  have f: "\<not> flat_mode (fst mixed)" "\<not> overlay_mode (fst mixed)" using index_invD(10,11) [OF mixed_inv] .
  have b: "bounded (fst mixed)" by code_simp
  obtain v where v: "memx_index_bounded_view (Some (fst mixed)) True = (MEMX_OK, Some v)"
    using f b by (simp add: memx_index_bounded_view_def)
  have l: "memx_lookup_address (Some (fst mixed)) (snd mixed) 17 = Some 7" by code_simp
  then have "covered (fst mixed) 17"
    using lookup_granule [OF mixed_inv, of 17] by (auto simp: MEMX_HANDLE_INVALID_def split: if_splits)
  from memx_bounded_view_correct [OF mixed_inv b this v] l show ?thesis by auto
qed

text \<open>The flat view: the entry it reads is inside the table, and it agrees with the checked
  lookup at every covered address.\<close>

theorem memx_flat_view_correct:
  assumes "flat_inv live fr ix w" "covered ix a"
    and "memx_index_flat_view (Some ix) True = (MEMX_OK, Some v)"
  shows "memx_flat_lookup_assume_mapped v w a = memx_lookup_address (Some ix) w a
    \<and> unat (drop_bit (unat (fv_granule_shift v)) (a - fv_base_address v)) < unat (fv_entry_count v)"
  using flat_view_lookup [OF assms] by simp

theorem memx_flat_view_correct_witness:
  "\<exists>v. memx_flat_lookup_assume_mapped v (snd flattened) 24 = Some 7"
proof -
  obtain v where v: "memx_index_flat_view (Some (fst flattened)) True = (MEMX_OK, Some v)"
    using flat_invD(4) [OF flattened_inv] by (simp add: memx_index_flat_view_def)
  have l: "memx_lookup_address (Some (fst flattened)) (snd flattened) 24 = Some 7" by code_simp
  then have "covered (fst flattened) 24"
    using flat_lookup [OF flattened_inv, of 24] by (auto simp: MEMX_HANDLE_INVALID_def split: if_splits)
  from memx_flat_view_correct [OF flattened_inv this v] l show ?thesis by auto
qed

section \<open>Classification and statistics\<close>

text \<open>What the type of a region promises its addresses: an EMPTY region maps nothing, a
  UNIFORM region answers one inline handle everywhere, and an address outside the index is
  reported as out of range.\<close>

theorem memx_region_type_at_correct:
  assumes "index_inv live fr ix w"
  shows "\<exists>st t. memx_region_type_at (Some ix) w a True = Some (st, t)
    \<and> (st = MEMX_OK \<longleftrightarrow> covered ix a)
    \<and> (t = Some MEMX_REGION_EMPTY \<longrightarrow> memx_lookup_address (Some ix) w a = Some MEMX_HANDLE_INVALID)
    \<and> (t = Some MEMX_REGION_UNIFORM \<longrightarrow>
        (\<exists>h \<le> MEMX_INLINE_HANDLE_MAX. \<forall>a'. covered ix a'
           \<and> granule_of ix a' div per_region ix = granule_of ix a div per_region ix
           \<longrightarrow> memx_lookup_address (Some ix) w a' = Some h))"
proof -
  let ?d = "rdesc ix (heap w) (granule_of ix a div per_region ix)"
  have e: "memx_lookup_address (Some ix) w a = Some MEMX_HANDLE_INVALID"
    if "memx_region_type_decode ?d = MEMX_REGION_EMPTY"
    using that by (simp add: lookup_granule [OF assms] gmap_def dvalue_def)
  have u: "\<exists>h \<le> MEMX_INLINE_HANDLE_MAX. \<forall>a'. covered ix a'
      \<and> granule_of ix a' div per_region ix = granule_of ix a div per_region ix
      \<longrightarrow> memx_lookup_address (Some ix) w a' = Some h" if "is_uniform ?d"
    using that by (intro exI [of _ "memx_uniform_decode ?d"])
      (auto simp: lookup_granule [OF assms] gmap_def memx_uniform_decode_inline)
  show ?thesis using e u by (auto simp: region_type_at [OF assms])
qed

theorem memx_region_type_at_correct_witness:
  "\<exists>st t. memx_region_type_at (Some (fst mixed)) (snd mixed) 17 True = Some (st, t)
    \<and> (st = MEMX_OK \<longleftrightarrow> covered (fst mixed) 17)"
  using memx_region_type_at_correct [OF mixed_inv, of 17] by blast

text \<open>C32: the byte totals of \<^verbatim>\<open>memx_index_stats\<close>, whatever the storage mode (adaptive, flat or
  frozen), are the sizes of the blocks the index holds in the heap, summed exactly and summed in
  whole host pages; a frozen index adds the private bytes of its mapping to both and reports the
  mapping's reservation, the other two reserve nothing.  Sums beyond \<^verbatim>\<open>SIZE_MAX\<close> saturate instead
  of wrapping.\<close>

theorem memx_index_stats_footprint:
  assumes "index_inv live fr ix w \<or> flat_inv live fr ix w \<or> overlay_inv live fr ix w"
    and "memx_index_stats page_result (Some ix) True = Some s"
  shows "unat (st_total_bytes s) = min MAXN (index_bytes id ix (heap w) + private_bytes ix)
    \<and> unat (st_page_accounted_bytes s) = min MAXN (private_bytes ix
        + index_bytes (page_round (unat (memx_host_page_size page_result))) ix (heap w))
    \<and> st_reserved_bytes s = (if overlay_mode ix then overlay_bytes ix else 0)"
proof -
  consider "index_inv live fr ix w" | "flat_inv live fr ix w" | "overlay_inv live fr ix w"
    using assms(1) by blast
  then show ?thesis
  proof cases
    case 1
    then show ?thesis using stats_adaptive(1,2,8) [OF 1 assms(2)] index_invD(11) [OF 1]
      by (simp add: index_bytes_adaptive [OF 1])
  next
    case 2
    then show ?thesis using stats_flat_totals [OF 2 assms(2)] flat_invD(5) [OF 2]
      by (simp add: index_bytes_flat(2) [OF 2])
  next
    case 3
    then show ?thesis using stats_overlay_totals [OF 3 assms(2)] overlay_invD(4) [OF 3]
      by (simp add: add.commute)
  qed
qed

theorem memx_index_stats_footprint_witness:
  "(\<exists>s. memx_index_stats 4096 (Some (fst mixed)) True = Some s
    \<and> unat (st_total_bytes s) = min MAXN (footprint id (fst mixed) (heap (snd mixed))))
   \<and> (\<exists>s. memx_index_stats 4096 (Some (fst flattened)) True = Some s \<and> st_reserved_bytes s = 0)
   \<and> (\<exists>s. memx_index_stats 4096 (Some (fst frozen_state)) True = Some s
    \<and> st_reserved_bytes s = overlay_bytes (fst frozen_state))"
proof -
  note total = memx_index_stats_total [of 4096]
  note stats = memx_index_stats_footprint [where page_result = 4096]
  obtain s where s: "memx_index_stats 4096 (Some (fst mixed)) True = Some s" using total by blast
  obtain t where t: "memx_index_stats 4096 (Some (fst flattened)) True = Some t" using total by blast
  obtain u where u: "memx_index_stats 4096 (Some (fst frozen_state)) True = Some u" using total by blast
  show ?thesis
    using s t u stats [OF disjI1 [OF mixed_inv] s] stats [OF disjI2 [OF disjI1 [OF flattened_inv]] t]
      stats [OF disjI2 [OF disjI2 [OF frozen_inv]] u] index_bytes_adaptive [OF mixed_inv]
      flat_invD(5) [OF flattened_inv] overlay_invD(4) [OF frozen_inv] by simp
qed

text \<open>C33: the region counters of \<^verbatim>\<open>memx_index_stats\<close> on an adaptive index: uniform, dense and empty
  add up to the regions that have a descriptor (all regions of a bounded index, those of the allocated leaves of a sparse one), and
  the empty count is the number of those whose descriptor is EMPTY.\<close>

theorem memx_index_stats_counters:
  assumes "index_inv live fr ix w"
    and "memx_index_stats page_result (Some ix) True = Some s"
  shows "unat (st_empty_regions s) + unat (st_uniform_regions s) + unat (st_dense_regions s)
      = card (present ix (heap w))
    \<and> unat (st_empty_regions s) = card {i \<in> present ix (heap w).
        memx_region_type_decode (rdesc ix (heap w) i) = MEMX_REGION_EMPTY}
    \<and> unat (st_uniform_regions s) = count_regions ix (heap w) MEMX_REGION_UNIFORM
    \<and> unat (st_dense_regions s) = count_regions ix (heap w) MEMX_REGION_DENSE"
  using stats_adaptive(5-7) [OF assms] stats_empty [OF assms(1)] index_invD(6,7) [OF assms(1)] by simp

theorem memx_index_stats_counters_witness:
  "\<exists>s. memx_index_stats 4096 (Some (fst sparse)) True = Some s
    \<and> unat (st_empty_regions s) + unat (st_uniform_regions s) + unat (st_dense_regions s)
      = card (present (fst sparse) (heap (snd sparse)))"
proof -
  obtain s where s: "memx_index_stats 4096 (Some (fst sparse)) True = Some s"
    using memx_index_stats_total by blast
  then show ?thesis using memx_index_stats_counters [OF sparse_inv s] by blast
qed

text \<open>\<^verbatim>\<open>memx_page_account\<close> is the least multiple of the host page size that holds the bytes,
  or \<^verbatim>\<open>SIZE_MAX\<close> when that multiple is not a 64-bit value.\<close>

theorem memx_page_account_least:
  "let P = unat (memx_host_page_size r); n = page_round P (unat b) in
    unat (memx_page_account b (memx_host_page_size r)) = min MAXN n
    \<and> P dvd n \<and> unat b \<le> n \<and> (\<forall>m. P dvd m \<and> unat b \<le> m \<longrightarrow> n \<le> m)"
proof -
  have "0 < unat (memx_host_page_size r)" using host_page_power [of r] by (auto simp: page_power_def)
  note least = page_round_least [OF this]
  show ?thesis using unat_page_account [OF host_page_power [of r], of b] least by (simp add: Let_def)
qed

theorem memx_page_account_least_witness:
  "unat (memx_page_account 1 (memx_host_page_size 64)) = min MAXN (page_round 64 1)"
proof -
  have "memx_host_page_size 64 = 64" by code_simp
  then show ?thesis using memx_page_account_least [of 64 1] by (simp add: Let_def)
qed

section \<open>Descriptors and validation\<close>

text \<open>C34: the two descriptor encodings: a uniform descriptor gives back every inline handle, a
  dense descriptor gives back every aligned table address, neither is the EMPTY word, and the tag
  tells them apart.\<close>

theorem memx_descriptor_roundtrip:
  shows "(handle \<le> MEMX_INLINE_HANDLE_MAX \<longrightarrow>
      memx_region_type_decode (memx_uniform_encode handle) = MEMX_REGION_UNIFORM
      \<and> memx_uniform_decode (memx_uniform_encode handle) = handle)
    \<and> (table mod MEMX_INTERNAL_ALIGNMENT = 0 \<longrightarrow>
      memx_region_type_decode (memx_dense_encode table) = MEMX_REGION_DENSE
      \<and> memx_dense_decode (memx_dense_encode table) = table)
    \<and> memx_uniform_encode handle \<noteq> memx_region_init \<and> memx_dense_encode table \<noteq> memx_region_init"
proof -
  have "table AND 3 = 0" if "table mod MEMX_INTERNAL_ALIGNMENT = 0"
    using that by (intro aligned8_aligned4) (simp add: MEMX_INTERNAL_ALIGNMENT_def)
  then show ?thesis
    using memx_uniform_encode_nonzero [of handle] memx_dense_encode_nonzero [of table]
    by (simp add: memx_uniform_roundtrip memx_dense_roundtrip memx_region_init_def)
qed

theorem memx_descriptor_roundtrip_witness:
  "memx_uniform_decode (memx_uniform_encode 41) = 41 \<and> memx_dense_decode (memx_dense_encode 64) = 64"
  using memx_descriptor_roundtrip [of 41 64]
  by (simp add: MEMX_INTERNAL_ALIGNMENT_def inline_handle_iff)

text \<open>C35: the ranges \<^verbatim>\<open>memx_insert\<close> and \<^verbatim>\<open>memx_remove\<close> accept are exactly the nonempty granule-aligned
  ranges that do not wrap and lie inside the index; the end it reports is the exclusive end.\<close>

theorem memx_validate_range_exact:
  assumes "index_shape ix"
  shows "memx_validate_range (Some ix) base sz = (MEMX_OK, e) \<longleftrightarrow>
    sz \<noteq> 0 \<and> 2 ^ gshift ix dvd unat base \<and> 2 ^ gshift ix dvd unat sz
    \<and> unat e = unat base + unat sz
    \<and> base_of ix \<le> unat base \<and> unat base + unat sz \<le> base_of ix + regions ix * 2 ^ rshift ix"
  by (rule validate_range_exact [OF assms])

theorem memx_validate_range_exact_witness:
  "memx_validate_range (Some (fst small)) 18 14 = (MEMX_OK, 32)"
proof -
  have "gshift (fst small) = 1" "rshift (fst small) = 2" "base_of (fst small) = 16" "regions (fst small) = 4"
    by code_simp+
  then show ?thesis
    using memx_validate_range_exact [OF index_invD(2) [OF small_inv], of 18 14 32] by simp
qed

end
