(* ===== verification/Memx_Baseline.thy ===== *)
theory Memx_Baseline
  imports Memx_Interface
begin

text \<open>
  The comparison maps of \<^verbatim>\<open>bench/baselines.c\<close>: the configuration check and the address arithmetic
  the three share, the contract every one of them offers (a locale over an opaque state), and the
  flat map.  Blocks live in the store of \<open>Memx_Memory\<close>; the structure of a map is a raw block
  there and its fields are a record.
\<close>

section \<open>Shared definitions\<close>

record baseline_config =
  bc_base :: u64
  bc_managed_size :: u64
  bc_granule_shift :: u32

text \<open>\<^verbatim>\<open>malloc\<close>, \<^verbatim>\<open>calloc\<close> and \<^verbatim>\<open>free\<close> on the store; \<open>A\<close> holds the C library's allocator.\<close>

definition c_malloc :: "'c memx_allocator \<Rightarrow> u64 \<Rightarrow> 'c memx_world \<Rightarrow> (u64 \<times> 'c memx_world) option" where
  "c_malloc A n w = call_allocate A n w"

text \<open>\<^verbatim>\<open>calloc(count, 8)\<close>: an array of zero words, or null when the size overflows.\<close>

definition c_calloc_words ::
  "'c memx_allocator \<Rightarrow> u64 \<Rightarrow> 'c memx_world \<Rightarrow> (u64 \<times> 'c memx_world) option" where
  "c_calloc_words A count w =
     (if SIZE_MAX div 8 < count then Some (0, w)
      else do {
        (p, w) \<leftarrow> call_allocate A (count * 8) w;
        if p = 0 then Some (0, w)
        else do {
          w \<leftarrow> init_object p (LeafRoots (replicate (unat count) 0)) w;
          Some (p, w)
        }
      })"

text \<open>\<^verbatim>\<open>free(NULL)\<close> does nothing.\<close>

definition c_free :: "'c memx_allocator \<Rightarrow> u64 \<Rightarrow> 'c memx_world \<Rightarrow> 'c memx_world option" where
  "c_free A p w = (if p = 0 then Some w else memx_deallocate A p w)"

definition baseline_page_size :: "u64 \<Rightarrow> u64" where
  "baseline_page_size result =
     (if 0 < sint result \<and> result AND (result - 1) = 0 then result else 4096)"

definition baseline_page_account :: "u64 \<Rightarrow> u64 \<Rightarrow> u64" where
  "baseline_page_account page_result bytes =
     (let page_size = baseline_page_size page_result in
      if bytes = 0 \<or> SIZE_MAX - (page_size - 1) < bytes
      then (if bytes = 0 then 0 else SIZE_MAX)
      else (bytes + page_size - 1) AND NOT (page_size - 1))"

definition baseline_saturating_add :: "u64 \<Rightarrow> u64 \<Rightarrow> u64" where
  "baseline_saturating_add left right = (if SIZE_MAX - right < left then SIZE_MAX else left + right)"

definition baseline_saturating_multiply :: "u64 \<Rightarrow> u64 \<Rightarrow> u64" where
  "baseline_saturating_multiply left right =
     (if left \<noteq> 0 \<and> SIZE_MAX div left < right then SIZE_MAX else left * right)"

text \<open>The result is \<^verbatim>\<open>*entry_count\<close>, \<^term>\<open>None\<close> when the configuration is rejected.\<close>

definition baseline_config_valid :: "baseline_config option \<Rightarrow> u64 option" where
  "baseline_config_valid input =
     (case input of
        None \<Rightarrow> None
      | Some cfg \<Rightarrow>
         (if bc_managed_size cfg = 0 \<or> 64 \<le> bc_granule_shift cfg then None
          else let granule_size = push_bit (unat (bc_granule_shift cfg)) (1 :: u64) in
          if bc_base cfg AND (granule_size - 1) \<noteq> 0
             \<or> bc_managed_size cfg AND (granule_size - 1) \<noteq> 0
             \<or> UINTPTR_MAX - bc_base cfg < bc_managed_size cfg
          then None
          else let entry_count = drop_bit (unat (bc_granule_shift cfg)) (bc_managed_size cfg) in
          if entry_count \<noteq> 0 then Some entry_count else None))"

definition baseline_index :: "baseline_config \<Rightarrow> u64 \<Rightarrow> u64 \<Rightarrow> u64 option" where
  "baseline_index cfg entry_count address =
     (if address < bc_base cfg then None
      else let relative = address - bc_base cfg in
      if bc_managed_size cfg \<le> relative then None
      else let index = drop_bit (unat (bc_granule_shift cfg)) relative in
      if index < entry_count then Some index else None)"

definition baseline_fill_invalid :: "u64 \<Rightarrow> 'c memx_world \<Rightarrow> u64 \<Rightarrow> 'c memx_world option" where
  "baseline_fill_invalid entries w count =
     init_object entries (HandleTable (replicate (unat count) MEMX_HANDLE_INVALID)) w"

text \<open>\<^verbatim>\<open>while (value != 0) { bits += 1; value >>= 1; }\<close>: the number of significant bits.\<close>

fun count_bits :: "u32 \<Rightarrow> nat \<Rightarrow> u32" where
  "count_bits bits v = (if v = 0 then bits else count_bits (bits + 1) (v div 2))"

declare count_bits.simps [simp del]

section \<open>The contract of a point map\<close>

text \<open>
  \<open>cell s a\<close> is the entry an address belongs to, if it is inside the map.  A failed
  \<^verbatim>\<open>set\<close> (outside, or out of memory) changes no lookup.
\<close>

locale point_map = address_map ok view look
  for ok :: "'s \<Rightarrow> bool" and view look +
  fixes cell :: "'s \<Rightarrow> u64 \<Rightarrow> u64 option"
    and assign :: "u64 \<Rightarrow> u64 \<Rightarrow> 's \<Rightarrow> (bool \<times> 's) option"
  assumes assign_law: "ok s \<Longrightarrow> \<exists>b s'. assign a v s = Some (b, s') \<and> ok s' \<and> cell s' = cell s
      \<and> (b \<longrightarrow> cell s a \<noteq> None)
      \<and> view s' = (\<lambda>x. if b \<and> cell s x = cell s a then v else view s x)"
    and outside: "ok s \<Longrightarrow> cell s a = None \<Longrightarrow> view s a = MEMX_HANDLE_INVALID"
begin

lemma assign_cases:
  assumes "ok s" "assign a v s = Some (b, s')"
  shows "ok s'" "cell s' = cell s" "b \<Longrightarrow> cell s a \<noteq> None"
    "view s' = (\<lambda>x. if b \<and> cell s x = cell s a then v else view s x)"
  using assign_law [OF assms(1), of a v] assms(2) by auto

lemma assign_look:
  assumes "ok s" "assign a v s = Some (b, s')"
  shows "look s' x = (if b \<and> cell s x = cell s a then Some v else look s x)"
  using assign_cases [OF assms] look_view assms(1) by simp

lemma outside_refused: "ok s \<Longrightarrow> cell s a = None \<Longrightarrow> assign a v s = Some (b, s') \<Longrightarrow> \<not> b"
  using assign_cases by blast

end

text \<open>A sequence of assignments, collecting the results.\<close>

fun run_sets ::
  "(u64 \<Rightarrow> u64 \<Rightarrow> 's \<Rightarrow> (bool \<times> 's) option) \<Rightarrow> (u64 \<times> u64) list \<Rightarrow> 's \<Rightarrow> (bool list \<times> 's) option" where
  "run_sets f [] s = Some ([], s)"
| "run_sets f ((a, v) # xs) s = do {
     (b, s) \<leftarrow> f a v s;
     (bs, s) \<leftarrow> run_sets f xs s;
     Some (b # bs, s)
   }"

fun replay_sets ::
  "(u64 \<Rightarrow> u64 option) \<Rightarrow> (u64 \<times> u64) list \<Rightarrow> bool list \<Rightarrow> (u64 \<Rightarrow> u64) \<Rightarrow> u64 \<Rightarrow> u64" where
  "replay_sets cl ((a, v) # xs) (b # bs) m =
     replay_sets cl xs bs (\<lambda>x. if b \<and> cl x = cl a then v else m x)"
| "replay_sets cl _ _ m = m"

text \<open>
  Without reference to outcomes: the value last assigned to the entry an address belongs to, and
  the condition under which a run got that far, every assignment to the entry having succeeded.
\<close>

definition last_assigned :: "(u64 \<Rightarrow> u64 option) \<Rightarrow> (u64 \<times> u64) list \<Rightarrow> u64 \<Rightarrow> u64" where
  "last_assigned cl xs a =
     (if cl a = None then MEMX_HANDLE_INVALID
      else case map_of (rev (map (\<lambda>(b, v). (cl b, v)) xs)) (cl a) of
             None \<Rightarrow> MEMX_HANDLE_INVALID | Some v \<Rightarrow> v)"

definition all_granted :: "(u64 \<Rightarrow> u64 option) \<Rightarrow> (u64 \<times> u64) list \<Rightarrow> bool list \<Rightarrow> u64 \<Rightarrow> bool" where
  "all_granted cl xs bs a \<longleftrightarrow>
     (\<forall>i < length xs. cl a \<noteq> None \<and> cl (fst (xs ! i)) = cl a \<longrightarrow> bs ! i)"

definition inside_only :: "(u64 \<Rightarrow> u64 option) \<Rightarrow> (u64 \<times> u64) list \<Rightarrow> bool list \<Rightarrow> bool" where
  "inside_only cl xs bs \<longleftrightarrow> list_all2 (\<lambda>x b. b \<longrightarrow> cl (fst x) \<noteq> None) xs bs"

lemma replay_outside:
  assumes "inside_only cl xs bs" "cl a = None"
  shows "replay_sets cl xs bs m a = m a"
proof -
  have "list_all2 (\<lambda>x b. b \<longrightarrow> cl (fst x) \<noteq> None) xs bs" using assms(1) by (simp add: inside_only_def)
  then show ?thesis
  proof (induction arbitrary: m rule: list_all2_induct)
    case (Cons x xs b bs)
    obtain c v where x: "x = (c, v)" by fastforce
    have "\<not> (b \<and> cl a = cl c)" using Cons.hyps(1) assms(2) by (auto simp: x)
    then show ?case using Cons.IH by (auto simp: x)
  qed simp
qed

lemma all_granted_Cons:
  "all_granted cl (x # xs) (b # bs) a \<longleftrightarrow>
   (cl a \<noteq> None \<and> cl (fst x) = cl a \<longrightarrow> b) \<and> all_granted cl xs bs a"
  by (auto simp: all_granted_def less_Suc_eq_0_disj)

lemma replay_granted:
  assumes "length xs = length bs" "cl a \<noteq> None" "all_granted cl xs bs a"
  shows "replay_sets cl xs bs m a =
    (case map_of (rev (map (\<lambda>(b, v). (cl b, v)) xs)) (cl a) of None \<Rightarrow> m a | Some v \<Rightarrow> v)"
  using assms
proof (induction xs bs arbitrary: m rule: list_induct2)
  case (Cons x xs b bs)
  obtain c v where x: "x = (c, v)" by fastforce
  have "all_granted cl xs bs a" and b: "cl c = cl a \<Longrightarrow> b"
    using Cons.prems by (auto simp: all_granted_Cons x)
  then show ?case using Cons.IH [OF Cons.prems(1)] b
    by (auto simp: x map_add_def split: option.split)
qed simp

lemma replay_last_assigned:
  assumes "inside_only cl xs bs" "all_granted cl xs bs a"
  shows "replay_sets cl xs bs (\<lambda>a. MEMX_HANDLE_INVALID) a = last_assigned cl xs a"
proof (cases "cl a = None")
  case True
  then show ?thesis using replay_outside [OF assms(1)] by (simp add: last_assigned_def)
next
  case False
  have "length xs = length bs" using assms(1) by (auto simp: inside_only_def list_all2_lengthD)
  from replay_granted [of xs bs cl a, OF this False assms(2)] False
  show ?thesis by (simp only: last_assigned_def if_False)
qed

context point_map begin

text \<open>An assignment outside the map never succeeds.\<close>

lemma run_sets_inside:
  assumes "ok s" "run_sets assign xs s = Some (bs, s')"
  shows "inside_only (cell s) xs bs"
  using assms
proof (induction xs arbitrary: s bs)
  case (Cons x xs)
  obtain a v where x: "x = (a, v)" by fastforce
  obtain b s1 where s1: "assign a v s = Some (b, s1)" "ok s1" "cell s1 = cell s" "b \<longrightarrow> cell s a \<noteq> None"
    using assign_law [OF Cons.prems(1)] by blast
  obtain bs1 where "run_sets assign xs s1 = Some (bs1, s')" "bs = b # bs1"
    using Cons.prems(2) s1(1) by (auto simp: x split: bind_split_asm)
  then show ?case using Cons.IH [OF s1(2)] s1(3,4) by (simp add: x inside_only_def)
qed (simp add: inside_only_def)

text \<open>Every sequence of assignments returns, and the lookups are determined by its results.\<close>

lemma run_sets_replay:
  assumes "ok s"
  shows "\<exists>bs s'. run_sets assign xs s = Some (bs, s') \<and> ok s' \<and> cell s' = cell s
    \<and> length bs = length xs \<and> view s' = replay_sets (cell s) xs bs (view s)"
  using assms
proof (induction xs arbitrary: s)
  case (Cons x xs)
  obtain a v where x: "x = (a, v)" by fastforce
  obtain b s1 where s1: "assign a v s = Some (b, s1)" "ok s1" "cell s1 = cell s"
    "view s1 = (\<lambda>x. if b \<and> cell s x = cell s a then v else view s x)"
    using assign_law [OF Cons.prems] by blast
  from Cons.IH [OF s1(2)] obtain bs s2 where
    "run_sets assign xs s1 = Some (bs, s2)" "ok s2" "cell s2 = cell s1" "length bs = length xs"
    "view s2 = replay_sets (cell s1) xs bs (view s1)" by blast
  then show ?case using s1 by (simp add: x)
qed simp

end

section \<open>Arithmetic of the shared code\<close>

text \<open>What an accepted configuration guarantees.\<close>

definition baseline_ok :: "baseline_config \<Rightarrow> u64 \<Rightarrow> bool" where
  "baseline_ok cfg count \<longleftrightarrow> baseline_config_valid (Some cfg) = Some count"

abbreviation bc_g :: "baseline_config \<Rightarrow> nat" where
  "bc_g cfg \<equiv> unat (bc_granule_shift cfg)"

lemma baseline_ok_facts:
  assumes "baseline_ok cfg count"
  shows "bc_g cfg < 64" "0 < unat count" "unat (bc_managed_size cfg) = unat count * 2 ^ bc_g cfg"
    "unat (bc_base cfg) + unat (bc_managed_size cfg) < 2 ^ 64" "2 ^ bc_g cfg dvd unat (bc_base cfg)"
proof -
  have c: "\<not> 64 \<le> bc_granule_shift cfg" "bc_base cfg AND mask (bc_g cfg) = 0"
    "bc_managed_size cfg AND mask (bc_g cfg) = 0" "\<not> UINTPTR_MAX - bc_base cfg < bc_managed_size cfg"
    "count = drop_bit (bc_g cfg) (bc_managed_size cfg)" "count \<noteq> 0"
    using assms by (auto simp: baseline_ok_def baseline_config_valid_def Let_def pow2_minus_1
        split: if_splits)
  show "bc_g cfg < 64" using c(1) by (simp add: word_le_nat_alt)
  show "0 < unat count" using c(6) by (simp add: unat_gt_0)
  show "2 ^ bc_g cfg dvd unat (bc_base cfg)" using c(2) by (simp only: and_mask_eq_0_iff)
  have "2 ^ bc_g cfg dvd unat (bc_managed_size cfg)" using c(3) by (simp only: and_mask_eq_0_iff)
  then show "unat (bc_managed_size cfg) = unat count * 2 ^ bc_g cfg" by (simp add: c(5) unat_drop)
  have "unat (UINTPTR_MAX - bc_base cfg) = unat UINTPTR_MAX - unat (bc_base cfg)"
    by (rule unat_sub) simp
  then have "unat (bc_managed_size cfg) \<le> unat UINTPTR_MAX - unat (bc_base cfg)"
    using c(4) by (simp only: word_le_nat_alt not_less)
  then have "unat (bc_base cfg) + unat (bc_managed_size cfg) < 18446744073709551616"
    using unat_le_MAXN [of "bc_base cfg"] by simp
  then show "unat (bc_base cfg) + unat (bc_managed_size cfg) < 2 ^ 64" by simp
qed

lemma baseline_index_spec:
  assumes "baseline_ok cfg count"
  shows "baseline_index cfg count a =
    (if unat (bc_base cfg) \<le> unat a \<and> unat a < unat (bc_base cfg) + unat (bc_managed_size cfg)
     then Some (drop_bit (bc_g cfg) (a - bc_base cfg)) else None)"
    and "baseline_index cfg count a = Some i \<Longrightarrow>
      unat i = (unat a - unat (bc_base cfg)) div 2 ^ bc_g cfg \<and> unat i < unat count"
proof -
  note f = baseline_ok_facts [OF assms]
  have rel: "unat (a - bc_base cfg) = unat a - unat (bc_base cfg)" if "\<not> a < bc_base cfg"
    using that by (intro unat_sub_exact) simp
  have lt: "drop_bit (bc_g cfg) (a - bc_base cfg) < count"
    if "\<not> a < bc_base cfg" "\<not> bc_managed_size cfg \<le> a - bc_base cfg"
    using that f(3) by (simp add: word_less_nat_alt word_le_nat_alt unat_drop less_mult_imp_div_less)
  show e: "baseline_index cfg count a =
    (if unat (bc_base cfg) \<le> unat a \<and> unat a < unat (bc_base cfg) + unat (bc_managed_size cfg)
     then Some (drop_bit (bc_g cfg) (a - bc_base cfg)) else None)"
    using lt rel by (auto simp: baseline_index_def Let_def word_less_nat_alt word_le_nat_alt)
  show "unat i = (unat a - unat (bc_base cfg)) div 2 ^ bc_g cfg \<and> unat i < unat count"
    if i: "baseline_index cfg count a = Some i"
  proof -
    have "unat (bc_base cfg) \<le> unat a" using i unfolding e by (auto split: if_splits)
    then have "unat i = (unat a - unat (bc_base cfg)) div 2 ^ bc_g cfg"
      using i unfolding e by (auto simp: unat_drop unat_sub word_le_nat_alt split: if_splits)
    moreover have "i < count" using i by (auto simp: baseline_index_def Let_def split: if_splits)
    ultimately show ?thesis by (simp add: word_less_nat_alt)
  qed
qed

lemma c_calloc_cases:
  assumes "world_ok A live w"
  obtains (null) w' where "c_calloc_words A n w = Some (0, w')" "heap w' = heap w" "world_ok A live w'"
    | (block) p w' where "c_calloc_words A n w = Some (p, w')" "p \<noteq> 0" "heap w p = None"
      "heap w' = (heap w)(p \<mapsto> LeafRoots (replicate (unat n) 0))" "world_ok A live w'"
proof (cases "SIZE_MAX div 8 < n")
  case True
  then show thesis using null assms by (simp add: c_calloc_words_def)
next
  case False
  have size: "unat (n * 8) = 8 * unat n" using entry_count_exact [OF False] by simp
  show thesis
  proof (rule call_allocate_cases [OF assms, of "n * 8"], goal_cases)
    case (1 w')
    then show thesis using null False by (simp add: c_calloc_words_def)
  next
    case (2 p w')
    let ?obj = "LeafRoots (replicate (unat n) 0)"
    have i: "init_object p ?obj w' = Some (w'\<lparr>heap := (heap w')(p \<mapsto> ?obj)\<rparr>)"
      using 2(4) size by (intro init_object_ok) auto
    have "world_ok A live (w'\<lparr>heap := (heap w')(p \<mapsto> ?obj)\<rparr>)"
      by (rule world_ok_heap_upd [OF 2(5)]) (simp add: 2(4))
    then show thesis
      using block 2 False i by (simp add: c_calloc_words_def)
  qed
qed

lemma count_bits_spec:
  "v < 2 ^ k \<Longrightarrow> unat b + k < 2 ^ 32 \<Longrightarrow>
   \<exists>n \<le> k. unat (count_bits b v) = unat b + n \<and> v < 2 ^ n \<and> (v \<noteq> 0 \<longrightarrow> 2 ^ (n - 1) \<le> v)"
proof (induction k arbitrary: b v)
  case 0
  then show ?case by (simp add: count_bits.simps)
next
  case (Suc k)
  show ?case
  proof (cases "v = 0")
    case True
    then show ?thesis by (auto simp: count_bits.simps)
  next
    case False
    have b1: "unat (b + 1) = unat b + 1"
      using Suc.prems(2) by (simp add: unat_word_ariths)
    have "v div 2 < 2 ^ k" using Suc.prems(1) by simp
    from Suc.IH [OF this, of "b + 1"] obtain n where
      n: "n \<le> k" "unat (count_bits (b + 1) (v div 2)) = unat b + 1 + n" "v div 2 < 2 ^ n"
        "v div 2 \<noteq> 0 \<longrightarrow> 2 ^ (n - 1) \<le> v div 2"
      using Suc.prems(2) b1 by auto
    have lo: "2 ^ n \<le> v"
    proof (cases "v div 2 = 0")
      case True
      then have "v = 1" using False by simp
      then have "n = 0" using n b1 Suc.prems by (auto simp: count_bits.simps)
      then show ?thesis using \<open>v = 1\<close> by simp
    next
      case d: False
      then have "0 < n" using n(3) by (cases n) auto
      then have "(2 :: nat) ^ n = 2 * 2 ^ (n - 1)" by (cases n) auto
      also have "\<dots> \<le> 2 * (v div 2)" using n(4) d by simp
      also have "\<dots> \<le> v" by simp
      finally show ?thesis .
    qed
    show ?thesis
      using False n lo by (intro exI [of _ "Suc n"]) (auto simp: count_bits.simps [of b v])
  qed
qed

section \<open>The flat map\<close>

text \<open>The entries are the flexible array member: the handle table is the block itself.\<close>

record baseline_flat =
  bf_self :: u64
  bf_config :: baseline_config
  bf_entry_count :: u64

definition baseline_flat_create ::
  "'c memx_allocator \<Rightarrow> baseline_config option \<Rightarrow> 'c memx_world
     \<Rightarrow> (baseline_flat option \<times> 'c memx_world) option" where
  "baseline_flat_create A input w =
     (case baseline_config_valid input of
        None \<Rightarrow> Some (None, w)
      | Some count \<Rightarrow>
         (if (SIZE_MAX - 32) div 8 < count then Some (None, w)
          else do {
            cfg \<leftarrow> input;
            (p, w) \<leftarrow> c_malloc A (32 + count * 8) w;
            if p = 0 then Some (None, w)
            else do {
              w \<leftarrow> baseline_fill_invalid p w count;
              Some (Some \<lparr>bf_self = p, bf_config = cfg, bf_entry_count = count\<rparr>, w)
            }
          }))"

definition baseline_flat_destroy ::
  "'c memx_allocator \<Rightarrow> baseline_flat option \<Rightarrow> 'c memx_world \<Rightarrow> 'c memx_world option" where
  "baseline_flat_destroy A map' w =
     (case map' of None \<Rightarrow> Some w | Some m \<Rightarrow> c_free A (bf_self m) w)"

definition baseline_flat_set ::
  "baseline_flat option \<Rightarrow> u64 \<Rightarrow> u64 \<Rightarrow> 'c memx_world \<Rightarrow> (bool \<times> 'c memx_world) option" where
  "baseline_flat_set map' address v w =
     (case map' of
        None \<Rightarrow> Some (False, w)
      | Some m \<Rightarrow>
         (case baseline_index (bf_config m) (bf_entry_count m) address of
            None \<Rightarrow> Some (False, w)
          | Some index \<Rightarrow> do {
              w \<leftarrow> write_handle (bf_self m) (unat index) v w;
              Some (True, w)
            }))"

definition baseline_flat_lookup :: "baseline_flat option \<Rightarrow> u64 \<Rightarrow> 'c memx_world \<Rightarrow> u64 option" where
  "baseline_flat_lookup map' address w =
     (case map' of
        None \<Rightarrow> Some MEMX_HANDLE_INVALID
      | Some m \<Rightarrow>
         (case baseline_index (bf_config m) (bf_entry_count m) address of
            None \<Rightarrow> Some MEMX_HANDLE_INVALID
          | Some index \<Rightarrow> read_handle w (bf_self m) (unat index)))"

definition baseline_flat_lookup_assume_mapped ::
  "baseline_flat \<Rightarrow> u64 \<Rightarrow> 'c memx_world \<Rightarrow> u64 option" where
  "baseline_flat_lookup_assume_mapped m address w =
     read_handle w (bf_self m)
       (unat (drop_bit (unat (bc_granule_shift (bf_config m))) (address - bc_base (bf_config m))))"

definition baseline_flat_bytes :: "baseline_flat option \<Rightarrow> u64" where
  "baseline_flat_bytes map' =
     (case map' of None \<Rightarrow> 0 | Some m \<Rightarrow> 32 + bf_entry_count m * 8)"

definition baseline_flat_page_accounted_bytes :: "u64 \<Rightarrow> baseline_flat option \<Rightarrow> u64" where
  "baseline_flat_page_accounted_bytes page_result map' =
     (case map' of None \<Rightarrow> 0
      | Some m \<Rightarrow> baseline_page_account page_result (baseline_flat_bytes (Some m)))"

section \<open>Correctness of the flat map\<close>

text \<open>A map and its world as one state; \<open>fr\<close> is the rest of the heap.\<close>

definition bflat_ok ::
  "'c memx_allocator \<Rightarrow> ('c \<Rightarrow> u64 set) \<Rightarrow> (u64 \<rightharpoonup> memx_object) \<Rightarrow> baseline_flat \<times> 'c memx_world \<Rightarrow> bool" where
  "bflat_ok A live fr s \<longleftrightarrow> (case s of (m, w) \<Rightarrow>
     world_ok A live w \<and> baseline_ok (bf_config m) (bf_entry_count m)
     \<and> 8 * unat (bf_entry_count m) + 32 < 2 ^ 64
     \<and> (\<exists>hs. heap w (bf_self m) = Some (HandleTable hs) \<and> length hs = unat (bf_entry_count m))
     \<and> fr = (heap w)(bf_self m := None))"

definition bflat_cell :: "baseline_flat \<times> 'c memx_world \<Rightarrow> u64 \<Rightarrow> u64 option" where
  "bflat_cell s a = baseline_index (bf_config (fst s)) (bf_entry_count (fst s)) a"

definition bflat_view :: "baseline_flat \<times> 'c memx_world \<Rightarrow> u64 \<Rightarrow> u64" where
  "bflat_view s a =
     (case bflat_cell s a of
        None \<Rightarrow> MEMX_HANDLE_INVALID
      | Some i \<Rightarrow> (case heap (snd s) (bf_self (fst s)) of
           Some (HandleTable hs) \<Rightarrow> hs ! unat i | _ \<Rightarrow> MEMX_HANDLE_INVALID))"

definition bflat_look :: "baseline_flat \<times> 'c memx_world \<Rightarrow> u64 \<Rightarrow> u64 option" where
  "bflat_look s a = baseline_flat_lookup (Some (fst s)) a (snd s)"

definition bflat_set ::
  "u64 \<Rightarrow> u64 \<Rightarrow> baseline_flat \<times> 'c memx_world \<Rightarrow> (bool \<times> baseline_flat \<times> 'c memx_world) option" where
  "bflat_set a v s = do {
     (b, w) \<leftarrow> baseline_flat_set (Some (fst s)) a v (snd s);
     Some (b, (fst s, w))
   }"

lemma bflat_read:
  assumes "bflat_ok A live fr (m, w)" "bflat_cell (m, w) a = Some i"
  shows "\<exists>hs. heap w (bf_self m) = Some (HandleTable hs) \<and> unat i < length hs
    \<and> length hs = unat (bf_entry_count m)"
  using assms baseline_index_spec(2) [of "bf_config m" "bf_entry_count m" a i]
  by (auto simp: bflat_ok_def bflat_cell_def)

lemma bflat_look_view: "bflat_ok A live fr s \<Longrightarrow> bflat_look s a = Some (bflat_view s a)"
proof -
  assume ok: "bflat_ok A live fr s"
  obtain m w where s: "s = (m, w)" by fastforce
  show ?thesis
  proof (cases "bflat_cell s a")
    case (Some i)
    then obtain hs where "heap w (bf_self m) = Some (HandleTable hs)" "unat i < length hs"
      using bflat_read [of A live fr m w a i] ok unfolding s by blast
    with Some show ?thesis
      by (simp add: s bflat_look_def bflat_view_def baseline_flat_lookup_def bflat_cell_def)
  qed (simp add: s bflat_look_def bflat_view_def baseline_flat_lookup_def bflat_cell_def)
qed

lemma bflat_set_law:
  assumes ok: "bflat_ok A live fr s"
  shows "\<exists>b s'. bflat_set a v s = Some (b, s') \<and> bflat_ok A live fr s' \<and> bflat_cell s' = bflat_cell s
    \<and> (b \<longrightarrow> bflat_cell s a \<noteq> None)
    \<and> bflat_view s' = (\<lambda>x. if b \<and> bflat_cell s x = bflat_cell s a then v else bflat_view s x)"
proof -
  obtain m w where s: "s = (m, w)" by fastforce
  show ?thesis
  proof (cases "bflat_cell s a")
    case None
    then have "bflat_set a v s = Some (False, s)"
      by (simp add: s bflat_set_def baseline_flat_set_def bflat_cell_def)
    then show ?thesis using ok None by (intro exI [of _ False] exI [of _ s]) simp
  next
    case (Some i)
    then obtain hs where hs: "heap w (bf_self m) = Some (HandleTable hs)" "unat i < length hs"
      "length hs = unat (bf_entry_count m)" using bflat_read [of A live fr m w a i] ok unfolding s by blast
    let ?w = "w\<lparr>heap := (heap w)(bf_self m \<mapsto> HandleTable (hs[unat i := v]))\<rparr>"
    have run: "bflat_set a v s = Some (True, (m, ?w))"
      using Some hs by (simp add: s bflat_set_def baseline_flat_set_def bflat_cell_def write_handle_def)
    have ok': "bflat_ok A live fr (m, ?w)"
      using ok hs(1,3) world_ok_heap_upd [of A live w "bf_self m"] by (auto simp: s bflat_ok_def)
    have cell: "bflat_cell (m, ?w) = bflat_cell s" by (simp add: s bflat_cell_def fun_eq_iff)
    have "bflat_view (m, ?w) x = (if bflat_cell s x = bflat_cell s a then v else bflat_view s x)" for x
    proof (cases "bflat_cell s x")
      case (Some j)
      have c: "bflat_cell (m, w) x = Some j" using Some by (simp only: s)
      have okm: "bflat_ok A live fr (m, w)" using ok by (simp only: s)
      obtain hs' where "heap w (bf_self m) = Some (HandleTable hs')" "unat j < length hs'"
        using bflat_read [OF okm c] by blast
      then have "unat j < length hs" using hs(1) by simp
      then have "bflat_view (m, ?w) x = (if j = i then v else hs ! unat j)"
        using c cell by (simp add: bflat_view_def s nth_list_update unat_eq_iff)
      moreover have "bflat_view s x = hs ! unat j" using c hs(1) by (simp add: bflat_view_def s)
      ultimately show ?thesis using \<open>bflat_cell s a = Some i\<close> Some by simp
    qed (use Some cell in \<open>simp add: bflat_view_def\<close>)
    then show ?thesis
      using run ok' cell Some by (intro exI [of _ True] exI [of _ "(m, ?w)"]) (simp add: fun_eq_iff)
  qed
qed

interpretation bflat: point_map "bflat_ok A live fr" bflat_view bflat_look bflat_cell bflat_set
    for A :: "'c memx_allocator" and live fr
proof
  show "bflat_look s a = Some (bflat_view s a)" if "bflat_ok A live fr s" for s a
    by (rule bflat_look_view [OF that])
  show "\<exists>b s'. bflat_set a v s = Some (b, s') \<and> bflat_ok A live fr s' \<and> bflat_cell s' = bflat_cell s
      \<and> (b \<longrightarrow> bflat_cell s a \<noteq> None)
      \<and> bflat_view s' = (\<lambda>x. if b \<and> bflat_cell s x = bflat_cell s a then v else bflat_view s x)"
    if "bflat_ok A live fr s" for s a v by (rule bflat_set_law [OF that])
qed (simp add: bflat_view_def)

text \<open>The flat map accepts every assignment inside it.\<close>

lemma bflat_granted:
  assumes "bflat_ok A live fr s" "run_sets bflat_set xs s = Some (bs, s')"
  shows "all_granted (bflat_cell s) xs bs a"
  using assms
proof (induction xs arbitrary: s bs)
  case (Cons x xs)
  obtain c v where x: "x = (c, v)" by fastforce
  obtain b s1 where s1: "bflat_set c v s = Some (b, s1)" "bflat_ok A live fr s1" "bflat_cell s1 = bflat_cell s"
    using bflat_set_law [OF Cons.prems(1), of c v] by blast
  obtain bs1 where r: "run_sets bflat_set xs s1 = Some (bs1, s')" "bs = b # bs1"
    using Cons.prems(2) s1(1) by (auto simp: x split: bind_split_asm)
  have "b" if "bflat_cell s c \<noteq> None"
    using s1(1) that
    by (auto simp: bflat_set_def baseline_flat_set_def bflat_cell_def split: bind_split_asm)
  then show ?case using Cons.IH [OF s1(2) r(1)] s1(3) by (auto simp: x r(2) all_granted_Cons)
qed (simp add: all_granted_def)

lemma baseline_flat_create_spec:
  assumes "world_ok A live w"
  obtains (fail) w' where "baseline_flat_create A input w = Some (None, w')" "heap w' = heap w"
    | (good) m w' where "baseline_flat_create A input w = Some (Some m, w')"
      "bflat_ok A live (heap w) (m, w')" "\<And>a. bflat_view (m, w') a = MEMX_HANDLE_INVALID"
      "input = Some (bf_config m)"
proof (cases "baseline_config_valid input")
  case None
  then show thesis using fail by (simp add: baseline_flat_create_def)
next
  case (Some count)
  then obtain cfg where inp: "input = Some cfg" by (cases input) (auto simp: baseline_config_valid_def)
  have bok: "baseline_ok cfg count" using Some by (simp add: baseline_ok_def inp)
  show thesis
  proof (cases "(SIZE_MAX - 32) div 8 < count")
    case True
    then show thesis using Some fail by (simp add: baseline_flat_create_def inp)
  next
    case False
    have fit: "8 * unat count + 32 < 2 ^ 64"
    proof -
      have "unat count \<le> unat (SIZE_MAX - 32) div 8"
        using False by (simp only: not_less word_le_nat_alt unat_div) simp
      then show ?thesis by simp
    qed
    have bytes: "unat (32 + count * 8) = 32 + 8 * unat count"
      using fit by (simp add: unat_word_ariths)
    show thesis
    proof (rule call_allocate_cases [OF assms, of "32 + count * 8"], goal_cases)
      case (1 w')
      then show thesis using fail Some False by (simp add: baseline_flat_create_def inp c_malloc_def)
    next
      case (2 p w')
      let ?obj = "HandleTable (replicate (unat count) MEMX_HANDLE_INVALID)"
      let ?w = "w'\<lparr>heap := (heap w')(p \<mapsto> ?obj)\<rparr>"
      let ?m = "\<lparr>bf_self = p, bf_config = cfg, bf_entry_count = count\<rparr>"
      have "init_object p ?obj w' = Some ?w"
        using 2(4) bytes by (intro init_object_ok) auto
      then have run: "baseline_flat_create A input w = Some (Some ?m, ?w)"
        using 2 Some False by (simp add: baseline_flat_create_def inp c_malloc_def baseline_fill_invalid_def)
      have ok: "bflat_ok A live (heap w) (?m, ?w)"
        using 2 bok fit world_ok_heap_upd [OF 2(5), of p ?obj] by (auto simp: bflat_ok_def fun_eq_iff)
      have "bflat_view (?m, ?w) a = MEMX_HANDLE_INVALID" for a
      proof (cases "bflat_cell (?m, ?w) a")
        case (Some i)
        then have "unat i < unat count" using bflat_read [OF ok] by fastforce
        then show ?thesis using Some by (simp add: bflat_view_def)
      qed (simp add: bflat_view_def)
      then show thesis by (intro good [OF run ok]) (simp_all add: inp)
    qed
  qed
qed

lemma baseline_flat_destroy_spec:
  assumes "bflat_ok A live fr (m, w)"
  obtains w' where "baseline_flat_destroy A (Some m) w = Some w'" "heap w' = fr"
proof -
  have h: "heap w (bf_self m) \<noteq> None" and ok: "world_ok A live w" and fr: "fr = (heap w)(bf_self m := None)"
    using assms by (auto simp: bflat_ok_def)
  have "bf_self m \<noteq> 0" using h ok by (auto simp: world_ok_def)
  then show thesis
    using memx_deallocate_ok [OF ok h] that fr by (auto simp: baseline_flat_destroy_def c_free_def)
qed

end
