(* ===== verification/Memx_TwoLevel.thy ===== *)
theory Memx_TwoLevel
  imports Memx_Baseline
begin

text \<open>
  The two-level map of \<^verbatim>\<open>bench/baselines.c\<close>: a root array of pointers to leaves of handles that
  are allocated on first use.  It offers the contract \<open>point_map\<close>, and its destruction releases
  exactly its blocks.
\<close>

section \<open>State and operations\<close>

record baseline_two_level =
  tl_self :: u64
  tl_config :: baseline_config
  tl_entry_count :: u64
  tl_leaf_bits :: u32
  tl_root_count :: u64
  tl_leaf_count :: u64
  tl_allocated_leaves :: u64
  tl_root :: u64

definition sizeof_two_level :: u64 where
  "sizeof_two_level = 72"

text \<open>The zeroed structure stays a raw block of the store: its fields are the record.\<close>

definition baseline_two_level_create ::
  "'c memx_allocator \<Rightarrow> baseline_config option \<Rightarrow> 'c memx_world
     \<Rightarrow> (baseline_two_level option \<times> 'c memx_world) option" where
  "baseline_two_level_create A input w =
     (case baseline_config_valid input of
        None \<Rightarrow> Some (None, w)
      | Some count \<Rightarrow> do {
          cfg \<leftarrow> input;
          let entry_bits = count_bits 0 (unat (count - 1));
          (p, w) \<leftarrow> c_malloc A sizeof_two_level w;
          if p = 0 then Some (None, w)
          else do {
            let leaf_bits = entry_bits div 2;
            let leaf_count = push_bit (unat leaf_bits) 1;
            let root_count = (count + leaf_count - 1) div leaf_count;
            (root, w) \<leftarrow> c_calloc_words A root_count w;
            if root = 0 then do { w \<leftarrow> c_free A p w; Some (None, w) }
            else Some (Some \<lparr>tl_self = p, tl_config = cfg, tl_entry_count = count,
                   tl_leaf_bits = leaf_bits, tl_root_count = root_count, tl_leaf_count = leaf_count,
                   tl_allocated_leaves = 0, tl_root = root\<rparr>, w)
          }
        })"

fun free_leaves :: "'c memx_allocator \<Rightarrow> u64 \<Rightarrow> nat \<Rightarrow> nat \<Rightarrow> 'c memx_world \<Rightarrow> 'c memx_world option" where
  "free_leaves A table i 0 w = Some w"
| "free_leaves A table i (Suc n) w = do {
     leaf \<leftarrow> read_root w table i;
     w \<leftarrow> c_free A leaf w;
     free_leaves A table (Suc i) n w
   }"

definition baseline_two_level_destroy ::
  "'c memx_allocator \<Rightarrow> baseline_two_level option \<Rightarrow> 'c memx_world \<Rightarrow> 'c memx_world option" where
  "baseline_two_level_destroy A map' w =
     (case map' of
        None \<Rightarrow> Some w
      | Some m \<Rightarrow> do {
          w \<leftarrow> free_leaves A (tl_root m) 0 (unat (tl_root_count m)) w;
          w \<leftarrow> c_free A (tl_root m) w;
          c_free A (tl_self m) w
        })"

definition baseline_two_level_set ::
  "'c memx_allocator \<Rightarrow> baseline_two_level option \<Rightarrow> u64 \<Rightarrow> u64 \<Rightarrow> 'c memx_world
     \<Rightarrow> (bool \<times> baseline_two_level option \<times> 'c memx_world) option" where
  "baseline_two_level_set A map' address v w =
     (case map' of
        None \<Rightarrow> Some (False, map', w)
      | Some m \<Rightarrow>
         (case baseline_index (tl_config m) (tl_entry_count m) address of
            None \<Rightarrow> Some (False, map', w)
          | Some index \<Rightarrow> do {
              let root_index = unat (drop_bit (unat (tl_leaf_bits m)) index);
              let leaf_index = unat (index AND (tl_leaf_count m - 1));
              leaf \<leftarrow> read_root w (tl_root m) root_index;
              (leaf, m, w) \<leftarrow>
                (if leaf = 0 then do {
                   (p, w) \<leftarrow> c_malloc A (tl_leaf_count m * 8) w;
                   if p = 0 then do { w \<leftarrow> write_root (tl_root m) root_index 0 w; Some (0, m, w) }
                   else do {
                     w \<leftarrow> write_root (tl_root m) root_index p w;
                     w \<leftarrow> baseline_fill_invalid p w (tl_leaf_count m);
                     Some (p, m\<lparr>tl_allocated_leaves := tl_allocated_leaves m + 1\<rparr>, w)
                   }
                 }
                 else Some (leaf, m, w));
              if leaf = 0 then Some (False, Some m, w)
              else do {
                w \<leftarrow> write_handle leaf leaf_index v w;
                Some (True, Some m, w)
              }
            }))"

definition baseline_two_level_lookup ::
  "baseline_two_level option \<Rightarrow> u64 \<Rightarrow> 'c memx_world \<Rightarrow> u64 option" where
  "baseline_two_level_lookup map' address w =
     (case map' of
        None \<Rightarrow> Some MEMX_HANDLE_INVALID
      | Some m \<Rightarrow>
         (case baseline_index (tl_config m) (tl_entry_count m) address of
            None \<Rightarrow> Some MEMX_HANDLE_INVALID
          | Some index \<Rightarrow> do {
              leaf \<leftarrow> read_root w (tl_root m) (unat (drop_bit (unat (tl_leaf_bits m)) index));
              if leaf = 0 then Some MEMX_HANDLE_INVALID
              else read_handle w leaf (unat (index AND (tl_leaf_count m - 1)))
            }))"

definition baseline_two_level_bytes :: "baseline_two_level option \<Rightarrow> u64" where
  "baseline_two_level_bytes map' =
     (case map' of None \<Rightarrow> 0
      | Some m \<Rightarrow> sizeof_two_level + tl_root_count m * 8
                  + tl_allocated_leaves m * tl_leaf_count m * 8)"

definition baseline_two_level_page_accounted_bytes :: "u64 \<Rightarrow> baseline_two_level option \<Rightarrow> u64" where
  "baseline_two_level_page_accounted_bytes page_result map' =
     (case map' of None \<Rightarrow> 0
      | Some m \<Rightarrow>
         (let total = baseline_saturating_add
                (baseline_page_account page_result sizeof_two_level)
                (baseline_page_account page_result
                   (baseline_saturating_multiply (tl_root_count m) 8))
          in baseline_saturating_add total
               (baseline_saturating_multiply (tl_allocated_leaves m)
                  (baseline_page_account page_result
                     (baseline_saturating_multiply (tl_leaf_count m) 8)))))"

section \<open>Invariant\<close>

definition tl_leaf :: "baseline_two_level \<Rightarrow> (u64 \<rightharpoonup> memx_object) \<Rightarrow> nat \<Rightarrow> u64" where
  "tl_leaf m h r =
     (case h (tl_root m) of
        Some (LeafRoots rts) \<Rightarrow> (if r < length rts then rts ! r else 0)
      | _ \<Rightarrow> 0)"

definition tl_leaves :: "baseline_two_level \<Rightarrow> (u64 \<rightharpoonup> memx_object) \<Rightarrow> u64 set" where
  "tl_leaves m h = {p. p \<noteq> 0 \<and> (\<exists>r. tl_leaf m h r = p)}"

abbreviation tl_L :: "baseline_two_level \<Rightarrow> nat" where
  "tl_L m \<equiv> unat (tl_leaf_count m)"

definition tl_shape :: "baseline_two_level \<Rightarrow> bool" where
  "tl_shape m \<longleftrightarrow> baseline_ok (tl_config m) (tl_entry_count m)
     \<and> tl_L m = 2 ^ unat (tl_leaf_bits m) \<and> unat (tl_leaf_bits m) \<le> 32
     \<and> unat (tl_entry_count m) \<le> unat (tl_root_count m) * tl_L m"

definition tl_inv ::
  "'c memx_allocator \<Rightarrow> ('c \<Rightarrow> u64 set) \<Rightarrow> (u64 \<rightharpoonup> memx_object) \<Rightarrow> baseline_two_level
     \<Rightarrow> 'c memx_world \<Rightarrow> bool" where
  "tl_inv A live fr m w \<longleftrightarrow>
     world_ok A live w \<and> tl_shape m
     \<and> heap w (tl_self m) = Some (RawBlock sizeof_two_level)
     \<and> (\<exists>rts. heap w (tl_root m) = Some (LeafRoots rts) \<and> length rts = unat (tl_root_count m))
     \<and> (\<forall>r. tl_leaf m (heap w) r \<noteq> 0 \<longrightarrow>
          (\<exists>hs. heap w (tl_leaf m (heap w) r) = Some (HandleTable hs) \<and> length hs = tl_L m))
     \<and> (\<forall>r s. tl_leaf m (heap w) r \<noteq> 0 \<longrightarrow> tl_leaf m (heap w) r = tl_leaf m (heap w) s \<longrightarrow> r = s)
     \<and> (\<forall>q. fr q = (if q \<in> {tl_self m, tl_root m} \<union> tl_leaves m (heap w) then None else heap w q))"

text \<open>The handle of entry \<open>i\<close>.\<close>

definition tl_value :: "baseline_two_level \<Rightarrow> (u64 \<rightharpoonup> memx_object) \<Rightarrow> nat \<Rightarrow> u64" where
  "tl_value m h i =
     (let leaf = tl_leaf m h (i div tl_L m) in
      if leaf = 0 then MEMX_HANDLE_INVALID
      else case h leaf of Some (HandleTable hs) \<Rightarrow> hs ! (i mod tl_L m) | _ \<Rightarrow> MEMX_HANDLE_INVALID)"

lemma tl_invD:
  assumes "tl_inv A live fr m w"
  shows "world_ok A live w" "tl_shape m" "heap w (tl_self m) = Some (RawBlock sizeof_two_level)"
    "\<exists>rts. heap w (tl_root m) = Some (LeafRoots rts) \<and> length rts = unat (tl_root_count m)"
    "tl_leaf m (heap w) r \<noteq> 0 \<Longrightarrow>
      \<exists>hs. heap w (tl_leaf m (heap w) r) = Some (HandleTable hs) \<and> length hs = tl_L m"
    "tl_leaf m (heap w) r \<noteq> 0 \<Longrightarrow> tl_leaf m (heap w) r = tl_leaf m (heap w) s \<Longrightarrow> r = s"
    "fr q = (if q \<in> {tl_self m, tl_root m} \<union> tl_leaves m (heap w) then None else heap w q)"
  using assms unfolding tl_inv_def by blast+

lemma tl_split:
  assumes sh: "tl_shape m" and i: "unat i < unat (tl_entry_count m)"
  shows "unat (drop_bit (unat (tl_leaf_bits m)) i) = unat i div tl_L m"
    "unat (i AND (tl_leaf_count m - 1)) = unat i mod tl_L m"
    "unat i div tl_L m < unat (tl_root_count m)" "0 < tl_L m"
proof -
  have L: "tl_L m = 2 ^ unat (tl_leaf_bits m)" "unat (tl_leaf_bits m) < 64"
    "unat (tl_entry_count m) \<le> unat (tl_root_count m) * tl_L m"
    using sh by (auto simp: tl_shape_def)
  then show "0 < tl_L m" by simp
  show "unat (drop_bit (unat (tl_leaf_bits m)) i) = unat i div tl_L m"
    by (simp only: unat_drop L(1))
  have "tl_leaf_count m = 2 ^ unat (tl_leaf_bits m)"
    unfolding unat_eq_iff using L by (simp only: unat_pow2)
  then have "tl_leaf_count m - 1 = mask (unat (tl_leaf_bits m))" by (simp add: pow2_minus_1)
  then show "unat (i AND (tl_leaf_count m - 1)) = unat i mod tl_L m"
    by (simp only: unat_and_mask L(1))
  show "unat i div tl_L m < unat (tl_root_count m)"
    using i L(3) by (intro less_mult_imp_div_less) simp
qed

lemma tl_read_root:
  assumes "tl_inv A live fr m w" "r < unat (tl_root_count m)"
  shows "read_root w (tl_root m) r = Some (tl_leaf m (heap w) r)"
  using tl_invD(4) [OF assms(1)] assms(2) by (auto simp: tl_leaf_def)

lemma tl_lookup_value:
  assumes inv: "tl_inv A live fr m w"
  shows "baseline_two_level_lookup (Some m) a w =
    Some (case baseline_index (tl_config m) (tl_entry_count m) a of
            None \<Rightarrow> MEMX_HANDLE_INVALID | Some i \<Rightarrow> tl_value m (heap w) (unat i))"
proof (cases "baseline_index (tl_config m) (tl_entry_count m) a")
  case (Some i)
  note sh = tl_invD(2) [OF inv]
  have "baseline_ok (tl_config m) (tl_entry_count m)" using sh by (simp add: tl_shape_def)
  from baseline_index_spec(2) [OF this Some] have i: "unat i < unat (tl_entry_count m)" by simp
  note sp = tl_split [OF sh i]
  let ?leaf = "tl_leaf m (heap w) (unat i div tl_L m)"
  show ?thesis
  proof (cases "?leaf = 0")
    case True
    then show ?thesis
      using Some sp tl_read_root [OF inv sp(3)] by (simp add: baseline_two_level_lookup_def tl_value_def)
  next
    case False
    from tl_invD(5) [OF inv False] obtain hs where
      "heap w ?leaf = Some (HandleTable hs)" "length hs = tl_L m" by blast
    then show ?thesis
      using Some False sp tl_read_root [OF inv sp(3)]
      by (simp add: baseline_two_level_lookup_def tl_value_def Let_def)
  qed
qed (simp add: baseline_two_level_lookup_def)

section \<open>The two steps of an assignment\<close>

text \<open>A new leaf changes no handle.\<close>

lemma tl_add_leaf:
  assumes inv: "tl_inv A live fr m w" and r: "r < unat (tl_root_count m)"
    and none: "tl_leaf m (heap w) r = 0" and p: "p \<noteq> 0" "heap w p = None"
    and rts: "heap w (tl_root m) = Some (LeafRoots rts)"
    and h': "heap w' = (heap w)(tl_root m \<mapsto> LeafRoots (rts[r := p]),
        p \<mapsto> HandleTable (replicate (tl_L m) MEMX_HANDLE_INVALID))"
    and ok: "world_ok A live w'" and m': "m' = m\<lparr>tl_allocated_leaves := x\<rparr>"
  shows "tl_inv A live fr m' w'" "tl_leaf m' (heap w') r = p"
    "i div tl_L m < unat (tl_root_count m) \<Longrightarrow> tl_value m' (heap w') i = tl_value m (heap w) i"
proof -
  have len: "length rts = unat (tl_root_count m)" using tl_invD(4) [OF inv] rts by auto
  have pr: "p \<noteq> tl_root m" "p \<noteq> tl_self m" using p(2) rts tl_invD(3) [OF inv] by auto
  have sr: "tl_self m \<noteq> tl_root m" using rts tl_invD(3) [OF inv] by auto
  have f [simp]: "tl_root m' = tl_root m" "tl_L m' = tl_L m" "tl_self m' = tl_self m"
    "tl_root_count m' = tl_root_count m" "tl_shape m' = tl_shape m" "tl_leaf_count m' = tl_leaf_count m"
    by (simp_all add: m' tl_shape_def)
  have leaf: "tl_leaf m' (heap w') s = (if s = r then p else tl_leaf m (heap w) s)" for s
    using pr r len by (simp add: tl_leaf_def h' rts nth_list_update)
  have old: "heap w' q = heap w q" if "q \<noteq> p" "q \<noteq> tl_root m" for q using that by (simp add: h')
  have lk: "tl_leaf m (heap w) s \<noteq> p \<and> tl_leaf m (heap w) s \<noteq> tl_root m
      \<and> tl_leaf m (heap w) s \<noteq> tl_self m" if "tl_leaf m (heap w) s \<noteq> 0" for s
    using tl_invD(5) [OF inv that] p(2) rts tl_invD(3) [OF inv] by auto
  have p': "heap w' p = Some (HandleTable (replicate (tl_L m) MEMX_HANDLE_INVALID))" by (simp add: h')
  have tabs: "\<exists>hs. heap w' (tl_leaf m' (heap w') s) = Some (HandleTable hs) \<and> length hs = tl_L m"
    if "tl_leaf m' (heap w') s \<noteq> 0" for s
    using that tl_invD(5) [OF inv, of s] lk [of s] old p' by (cases "s = r") (simp_all add: leaf)
  have inj: "s = t" if "tl_leaf m' (heap w') s \<noteq> 0" "tl_leaf m' (heap w') s = tl_leaf m' (heap w') t" for s t
    using that lk [of s] lk [of t] p(1) tl_invD(6) [OF inv, of s t] by (auto simp: leaf split: if_splits)
  have ls: "tl_leaves m' (heap w') = insert p (tl_leaves m (heap w))"
    using none p(1) by (auto simp: tl_leaves_def leaf split: if_splits)
  have frame: "fr q = (if q \<in> {tl_self m, tl_root m} \<union> tl_leaves m' (heap w') then None else heap w' q)" for q
    using tl_invD(7) [OF inv, of q] p(2) old [of q] by (auto simp: ls)
  show "tl_inv A live fr m' w'"
    unfolding tl_inv_def
    using ok tl_invD(2,3) [OF inv] old [of "tl_self m"] pr sr tabs inj frame len
    by (intro conjI allI impI) (auto simp: h')
  show "tl_leaf m' (heap w') r = p" by (simp add: leaf)
  show "tl_value m' (heap w') i = tl_value m (heap w) i" if i: "i div tl_L m < unat (tl_root_count m)"
  proof (cases "i div tl_L m = r")
    case True
    have "0 < tl_L m" using tl_invD(2) [OF inv] by (simp add: tl_shape_def)
    then have "i mod tl_L m < tl_L m" by simp
    then show ?thesis using True none p(1) p' by (simp add: tl_value_def leaf)
  next
    case False
    then show ?thesis
      using lk [of "i div tl_L m"] old unfolding tl_value_def f leaf Let_def by simp
  qed
qed

text \<open>Writing one handle of an existing leaf.\<close>

lemma tl_write:
  assumes inv: "tl_inv A live fr m w" and leaf: "tl_leaf m (heap w) r \<noteq> 0" and l: "l < tl_L m"
    and hs: "heap w (tl_leaf m (heap w) r) = Some (HandleTable hs)"
    and w': "w' = w\<lparr>heap := (heap w)(tl_leaf m (heap w) r \<mapsto> HandleTable (hs[l := v]))\<rparr>"
  shows "tl_inv A live fr m w'"
    "tl_value m (heap w') i =
      (if i div tl_L m = r \<and> i mod tl_L m = l then v else tl_value m (heap w) i)"
proof -
  let ?p = "tl_leaf m (heap w) r"
  obtain rts where rts: "heap w (tl_root m) = Some (LeafRoots rts)" "length rts = unat (tl_root_count m)"
    using tl_invD(4) [OF inv] by blast
  have len: "length hs = tl_L m" using tl_invD(5) [OF inv leaf] hs by simp
  have ne: "?p \<noteq> tl_root m" "?p \<noteq> tl_self m" using hs rts tl_invD(3) [OF inv] by auto
  have same: "tl_leaf m (heap w') s = tl_leaf m (heap w) s" for s
  proof -
    have "heap w' (tl_root m) = heap w (tl_root m)" using ne by (simp add: w')
    then show ?thesis by (simp only: tl_leaf_def)
  qed
  have ls: "tl_leaves m (heap w') = tl_leaves m (heap w)" by (simp add: tl_leaves_def same)
  have pin: "?p \<in> tl_leaves m (heap w)" using leaf by (auto simp: tl_leaves_def)
  have tabs: "\<exists>hs. heap w' (tl_leaf m (heap w) s) = Some (HandleTable hs) \<and> length hs = tl_L m"
    if "tl_leaf m (heap w) s \<noteq> 0" for s
    using tl_invD(5) [OF inv that] len by (simp add: w')
  have frame: "fr q = (if q \<in> {tl_self m, tl_root m} \<union> tl_leaves m (heap w') then None else heap w' q)" for q
    unfolding ls using tl_invD(7) [OF inv, of q] pin ne by (auto simp: w')
  have ok: "world_ok A live w'"
    unfolding w' by (rule world_ok_heap_upd [OF tl_invD(1) [OF inv]]) (simp add: hs)
  have self: "heap w' (tl_self m) = Some (RawBlock sizeof_two_level)"
    "heap w' (tl_root m) = Some (LeafRoots rts)"
    using ne tl_invD(3) [OF inv] rts(1) by (simp_all add: w')
  show "tl_inv A live fr m w'"
    unfolding tl_inv_def same
    using ok tl_invD(2) [OF inv] self rts(2) tabs tl_invD(6) [OF inv] frame by blast
  show "tl_value m (heap w') i =
      (if i div tl_L m = r \<and> i mod tl_L m = l then v else tl_value m (heap w) i)"
  proof (cases "tl_leaf m (heap w) (i div tl_L m) = ?p")
    case True
    then have "i div tl_L m = r" using tl_invD(6) [OF inv leaf, of "i div tl_L m"] by simp
    moreover have "heap w' ?p = Some (HandleTable (hs[l := v]))" by (simp add: w')
    ultimately show ?thesis
      unfolding tl_value_def same Let_def using hs len l leaf by (simp add: nth_list_update)
  next
    case False
    then have "i div tl_L m \<noteq> r" by auto
    moreover have "heap w' (tl_leaf m (heap w) (i div tl_L m)) = heap w (tl_leaf m (heap w) (i div tl_L m))"
      using False by (simp add: w')
    ultimately show ?thesis unfolding tl_value_def same Let_def by simp
  qed
qed

section \<open>The contract\<close>

definition tl_ok ::
  "'c memx_allocator \<Rightarrow> ('c \<Rightarrow> u64 set) \<Rightarrow> (u64 \<rightharpoonup> memx_object)
     \<Rightarrow> baseline_two_level \<times> 'c memx_world \<Rightarrow> bool" where
  "tl_ok A live fr s \<longleftrightarrow> tl_inv A live fr (fst s) (snd s)"

definition tl_cell :: "baseline_two_level \<times> 'c memx_world \<Rightarrow> u64 \<Rightarrow> u64 option" where
  "tl_cell s a = baseline_index (tl_config (fst s)) (tl_entry_count (fst s)) a"

definition tl_view :: "baseline_two_level \<times> 'c memx_world \<Rightarrow> u64 \<Rightarrow> u64" where
  "tl_view s a =
     (case tl_cell s a of
        None \<Rightarrow> MEMX_HANDLE_INVALID | Some i \<Rightarrow> tl_value (fst s) (heap (snd s)) (unat i))"

definition tl_look :: "baseline_two_level \<times> 'c memx_world \<Rightarrow> u64 \<Rightarrow> u64 option" where
  "tl_look s a = baseline_two_level_lookup (Some (fst s)) a (snd s)"

definition tl_set ::
  "'c memx_allocator \<Rightarrow> u64 \<Rightarrow> u64 \<Rightarrow> baseline_two_level \<times> 'c memx_world
     \<Rightarrow> (bool \<times> baseline_two_level \<times> 'c memx_world) option" where
  "tl_set A a v s = do {
     (b, m, w) \<leftarrow> baseline_two_level_set A (Some (fst s)) a v (snd s);
     m \<leftarrow> m;
     Some (b, (m, w))
   }"

lemma tl_cell_bound:
  assumes "tl_inv A live fr m w" "tl_cell (m, w) a = Some i"
  shows "unat i < unat (tl_entry_count m)"
  using assms baseline_index_spec(2) [of "tl_config m" "tl_entry_count m" a i]
  by (simp add: tl_invD(2) tl_shape_def [of m] tl_cell_def) (simp add: tl_inv_def tl_shape_def)

text \<open>One assignment through an existing leaf, seen by the view.\<close>

lemma tl_write_view:
  assumes inv: "tl_inv A live fr m w" and c: "tl_cell (m, w) a = Some i"
    and leaf: "tl_leaf m (heap w) (unat i div tl_L m) \<noteq> 0"
  obtains w' where "write_handle (tl_leaf m (heap w) (unat i div tl_L m)) (unat i mod tl_L m) v w = Some w'"
    "tl_inv A live fr m w'"
    "tl_view (m, w') = (\<lambda>x. if tl_cell (m, w) x = Some i then v else tl_view (m, w) x)"
proof -
  have i: "unat i < unat (tl_entry_count m)" by (rule tl_cell_bound [OF inv c])
  note sp = tl_split [OF tl_invD(2) [OF inv] i]
  let ?p = "tl_leaf m (heap w) (unat i div tl_L m)"
  obtain hs where hs: "heap w ?p = Some (HandleTable hs)" "length hs = tl_L m"
    using tl_invD(5) [OF inv leaf] by blast
  have l: "unat i mod tl_L m < tl_L m" using sp(4) by simp
  define w' where "w' = w\<lparr>heap := (heap w)(?p \<mapsto> HandleTable (hs[unat i mod tl_L m := v]))\<rparr>"
  note wr = tl_write [OF inv leaf l hs(1) w'_def]
  have "tl_view (m, w') x = (if tl_cell (m, w) x = Some i then v else tl_view (m, w) x)" for x
  proof (cases "tl_cell (m, w) x")
    case (Some j)
    have c': "tl_cell (m, w') x = Some j" using Some by (simp add: tl_cell_def)
    have "unat j div tl_L m = unat i div tl_L m \<and> unat j mod tl_L m = unat i mod tl_L m \<longleftrightarrow> j = i"
      by (metis div_mult_mod_eq unat_eq_iff)
    then show ?thesis using Some c' wr(2) [of "unat j"] by (simp add: tl_view_def)
  qed (simp add: tl_view_def tl_cell_def)
  moreover have "write_handle ?p (unat i mod tl_L m) v w = Some w'"
    using hs l by (simp add: write_handle_def w'_def)
  ultimately show thesis using wr(1) by (intro that [of w']) (simp_all add: fun_eq_iff)
qed

lemma tl_set_law:
  assumes ok: "tl_ok A live fr s"
  shows "\<exists>b s'. tl_set A a v s = Some (b, s') \<and> tl_ok A live fr s' \<and> tl_cell s' = tl_cell s
    \<and> (b \<longrightarrow> tl_cell s a \<noteq> None)
    \<and> tl_view s' = (\<lambda>x. if b \<and> tl_cell s x = tl_cell s a then v else tl_view s x)"
proof -
  obtain m w where s: "s = (m, w)" by fastforce
  have inv: "tl_inv A live fr m w" using ok by (simp add: s tl_ok_def)
  show ?thesis
  proof (cases "tl_cell s a")
    case None
    then have "tl_set A a v s = Some (False, s)"
      by (simp add: s tl_set_def baseline_two_level_set_def tl_cell_def)
    then show ?thesis using ok None by (intro exI [of _ False] exI [of _ s]) simp
  next
    case (Some i)
    have c: "tl_cell (m, w) a = Some i" using Some by (simp add: s)
    then have bi: "baseline_index (tl_config m) (tl_entry_count m) a = Some i" by (simp add: tl_cell_def)
    note sh = tl_invD(2) [OF inv]
    note sp = tl_split [OF sh tl_cell_bound [OF inv c]]
    note rr = tl_read_root [OF inv sp(3)]
    let ?r = "unat i div tl_L m"
    show ?thesis
    proof (cases "tl_leaf m (heap w) ?r = 0")
      case False
      obtain w' where w': "write_handle (tl_leaf m (heap w) ?r) (unat i mod tl_L m) v w = Some w'"
        "tl_inv A live fr m w'"
        "tl_view (m, w') = (\<lambda>x. if tl_cell (m, w) x = Some i then v else tl_view (m, w) x)"
        by (rule tl_write_view [OF inv c False])
      have run: "tl_set A a v s = Some (True, (m, w'))"
        using False w'(1) by (simp add: s tl_set_def baseline_two_level_set_def bi sp rr)
      have cl: "tl_cell (m, w') = tl_cell (m, w)" by (simp add: tl_cell_def fun_eq_iff)
      show ?thesis
        unfolding s using run w'(2,3) c cl
        by (intro exI [of _ True] exI [of _ "(m, w')"]) (simp add: s tl_ok_def)
    next
      case True
      obtain rts where rts: "heap w (tl_root m) = Some (LeafRoots rts)" "length rts = unat (tl_root_count m)"
        using tl_invD(4) [OF inv] by blast
      have size: "unat (tl_leaf_count m * 8) = 8 * tl_L m"
      proof -
        have "(2 :: nat) ^ unat (tl_leaf_bits m) \<le> 2 ^ 32"
          using sh by (intro power_increasing) (auto simp: tl_shape_def)
        then have "tl_L m \<le> 2 ^ 32" using sh by (simp add: tl_shape_def)
        then show ?thesis by (subst unat_mult_exact) simp_all
      qed
      show ?thesis
      proof (rule call_allocate_cases [OF tl_invD(1) [OF inv], of "tl_leaf_count m * 8"], goal_cases)
        case (1 w1)
        have z: "rts ! ?r = 0" using True rts sp(3) by (simp add: tl_leaf_def)
        then have "rts[?r := 0] = rts" by (metis list_update_id)
        then have nop: "write_root (tl_root m) ?r 0 w1 = Some (w1\<lparr>heap := heap w\<rparr>)"
          using rts sp(3) 1(2) by (simp add: write_root_def fun_upd_idem)
        let ?w = "w1\<lparr>heap := heap w\<rparr>"
        have "?w = w1" using 1(2) by simp
        then have run: "tl_set A a v s = Some (False, (m, w1))"
          using True 1(1) nop by (simp add: s tl_set_def baseline_two_level_set_def bi sp rr c_malloc_def)
        have "tl_inv A live fr m w1" using inv 1(2,3) by (simp add: tl_inv_def)
        moreover have "tl_cell (m, w1) = tl_cell (m, w)" "tl_view (m, w1) = tl_view (m, w)"
          by (simp_all add: tl_cell_def tl_view_def 1(2) fun_eq_iff split: option.split)
        ultimately show ?case
          using run by (intro exI [of _ False] exI [of _ "(m, w1)"]) (simp add: s tl_ok_def)
      next
        case (2 p w1)
        let ?tab = "HandleTable (replicate (tl_L m) MEMX_HANDLE_INVALID)"
        have pr: "p \<noteq> tl_root m" using 2(3) rts by auto
        let ?w2 = "w1\<lparr>heap := (heap w1)(tl_root m \<mapsto> LeafRoots (rts[?r := p]))\<rparr>"
        let ?w3 = "?w2\<lparr>heap := (heap ?w2)(p \<mapsto> ?tab)\<rparr>"
        let ?m = "m\<lparr>tl_allocated_leaves := tl_allocated_leaves m + 1\<rparr>"
        have r1: "heap w1 (tl_root m) = Some (LeafRoots rts)" using 2(4) pr rts by simp
        have s2: "write_root (tl_root m) ?r p w1 = Some ?w2" using r1 rts(2) sp(3) by (simp add: write_root_def)
        have s3: "init_object p ?tab ?w2 = Some ?w3"
          using 2(4) pr size by (intro init_object_ok) auto
        have ok2: "world_ok A live ?w2" by (rule world_ok_heap_upd [OF 2(5)]) (simp add: r1)
        have ok3: "world_ok A live ?w3" by (rule world_ok_heap_upd [OF ok2]) (simp add: 2(4) pr)
        have h3: "heap ?w3 = (heap w)(tl_root m \<mapsto> LeafRoots (rts[?r := p]), p \<mapsto> ?tab)"
          using 2(4) pr by (auto simp: fun_eq_iff)
        note add = tl_add_leaf [where m' = ?m and x = "tl_allocated_leaves m + 1",
            OF inv sp(3) True 2(2,3) rts(1) h3 ok3 refl]
        have c3: "tl_cell (?m, ?w3) = tl_cell (m, w)" by (simp add: tl_cell_def fun_eq_iff)
        have v3: "tl_view (?m, ?w3) = tl_view (m, w)"
        proof
          fix x show "tl_view (?m, ?w3) x = tl_view (m, w) x"
          proof (cases "tl_cell (m, w) x")
            case (Some j)
            have "unat j div tl_L m < unat (tl_root_count m)"
              by (rule tl_split(3) [OF sh tl_cell_bound [OF inv Some]])
            from add(3) [OF this] show ?thesis unfolding tl_view_def c3 Some by simp
          next
            case None
            show ?thesis unfolding tl_view_def c3 None by simp
          qed
        qed
        have cm: "tl_cell (?m, ?w3) a = Some i" using c c3 by simp
        have Lm: "tl_L ?m = tl_L m" by simp
        have lf: "tl_leaf ?m (heap ?w3) (unat i div tl_L ?m) \<noteq> 0" unfolding Lm add(2) by (rule 2(2))
        obtain w4 where w4: "write_handle (tl_leaf ?m (heap ?w3) (unat i div tl_L ?m)) (unat i mod tl_L ?m) v ?w3
            = Some w4" "tl_inv A live fr ?m w4"
          "tl_view (?m, w4) = (\<lambda>x. if tl_cell (?m, ?w3) x = Some i then v else tl_view (?m, ?w3) x)"
          by (rule tl_write_view [OF add(1) cm lf])
        have "write_handle p (unat i mod tl_L m) v ?w3 = Some w4" using w4(1) unfolding Lm add(2) .
        then have run: "tl_set A a v s = Some (True, (?m, w4))"
          using True 2(1,2) s2 s3
          by (simp add: s tl_set_def baseline_two_level_set_def bi sp rr c_malloc_def baseline_fill_invalid_def)
        have c4: "tl_cell (?m, w4) = tl_cell (m, w)" by (simp add: tl_cell_def fun_eq_iff)
        note v4 = w4(3) [unfolded c3 v3]
        show ?case
          unfolding s using run w4(2) v4 c c4
          by (intro exI [of _ True] exI [of _ "(?m, w4)"]) (simp add: s tl_ok_def)
      qed
    qed
  qed
qed

lemma tl_look_view: "tl_ok A live fr s \<Longrightarrow> tl_look s a = Some (tl_view s a)"
  by (simp add: tl_ok_def tl_look_def tl_view_def tl_cell_def tl_lookup_value split: option.split)

interpretation two_level: point_map "tl_ok A live fr" tl_view tl_look tl_cell "tl_set A"
    for A :: "'c memx_allocator" and live fr
proof
  show "tl_look s a = Some (tl_view s a)" if "tl_ok A live fr s" for s a by (rule tl_look_view [OF that])
  show "\<exists>b s'. tl_set A a v s = Some (b, s') \<and> tl_ok A live fr s' \<and> tl_cell s' = tl_cell s
      \<and> (b \<longrightarrow> tl_cell s a \<noteq> None)
      \<and> tl_view s' = (\<lambda>x. if b \<and> tl_cell s x = tl_cell s a then v else tl_view s x)"
    if "tl_ok A live fr s" for s a v by (rule tl_set_law [OF that])
qed (simp add: tl_view_def)

section \<open>Creation and destruction\<close>

text \<open>The loop that frees a table of pointers: the blocks it names are gone, nothing else is.\<close>

lemma free_leaves_ok:
  "world_ok A live w \<Longrightarrow> heap w table = Some (LeafRoots rts) \<Longrightarrow> i + n \<le> length rts \<Longrightarrow>
   (\<And>r. i \<le> r \<Longrightarrow> r < i + n \<Longrightarrow> rts ! r \<noteq> 0 \<Longrightarrow> heap w (rts ! r) \<noteq> None \<and> rts ! r \<noteq> table) \<Longrightarrow>
   (\<And>r s. i \<le> r \<Longrightarrow> r < i + n \<Longrightarrow> i \<le> s \<Longrightarrow> s < i + n \<Longrightarrow> rts ! r \<noteq> 0 \<Longrightarrow> rts ! r = rts ! s \<Longrightarrow> r = s) \<Longrightarrow>
   \<exists>w'. free_leaves A table i n w = Some w' \<and> world_ok A live w'
     \<and> heap w' = (\<lambda>q. if q \<noteq> 0 \<and> (\<exists>r. i \<le> r \<and> r < i + n \<and> rts ! r = q) then None else heap w q)"
proof (induction A table i n w rule: free_leaves.induct)
  case (1 A table i w)
  then show ?case by (auto simp: fun_eq_iff)
next
  case (2 A table i n w)
  let ?leaf = "rts ! i"
  have rr: "read_root w table i = Some ?leaf" using 2(3,4) by simp
  have "\<exists>w1. c_free A ?leaf w = Some w1 \<and> world_ok A live w1
      \<and> heap w1 = (if ?leaf = 0 then heap w else (heap w)(?leaf := None))"
  proof (cases "?leaf = 0")
    case False
    then have "heap w ?leaf \<noteq> None" using 2(5) [of i] by simp
    then obtain w1 where "memx_deallocate A ?leaf w = Some w1" "heap w1 = (heap w)(?leaf := None)"
      "world_ok A live w1" by (rule memx_deallocate_ok [OF 2(2)])
    then show ?thesis using False by (simp add: c_free_def)
  qed (use 2(2) in \<open>simp add: c_free_def\<close>)
  then obtain w1 where w1: "c_free A ?leaf w = Some w1" "world_ok A live w1"
    "heap w1 = (if ?leaf = 0 then heap w else (heap w)(?leaf := None))" by blast
  have tab: "heap w1 table = Some (LeafRoots rts)"
    using w1(3) 2(3) 2(5) [of i] by auto
  have live1: "heap w1 (rts ! r) \<noteq> None \<and> rts ! r \<noteq> table"
    if r: "Suc i \<le> r" "r < Suc i + n" "rts ! r \<noteq> 0" for r
  proof -
    have "rts ! r \<noteq> ?leaf" using 2(6) [of r i] r by auto
    then show ?thesis using 2(5) [of r] r w1(3) by auto
  qed
  have inj1: "r = s" if "Suc i \<le> r" "r < Suc i + n" "Suc i \<le> s" "s < Suc i + n" "rts ! r \<noteq> 0"
    "rts ! r = rts ! s" for r s using 2(6) [of r s] that by simp
  have "\<exists>w'. free_leaves A table (Suc i) n w1 = Some w' \<and> world_ok A live w'
      \<and> heap w' = (\<lambda>q. if q \<noteq> 0 \<and> (\<exists>r. Suc i \<le> r \<and> r < Suc i + n \<and> rts ! r = q)
          then None else heap w1 q)"
    using 2(4) by (intro 2(1) [OF rr w1(1) w1(2) tab _ live1 inj1]) auto
  then obtain w' where w': "free_leaves A table (Suc i) n w1 = Some w'" "world_ok A live w'"
    "heap w' = (\<lambda>q. if q \<noteq> 0 \<and> (\<exists>r. Suc i \<le> r \<and> r < Suc i + n \<and> rts ! r = q)
        then None else heap w1 q)" by blast
  have split: "(\<exists>r. i \<le> r \<and> r < i + Suc n \<and> rts ! r = q) \<longleftrightarrow>
      ?leaf = q \<or> (\<exists>r. Suc i \<le> r \<and> r < Suc i + n \<and> rts ! r = q)" for q
  proof -
    have "i \<le> r \<and> r < i + Suc n \<and> rts ! r = q \<longleftrightarrow>
        r = i \<and> ?leaf = q \<or> Suc i \<le> r \<and> r < Suc i + n \<and> rts ! r = q" for r
      by (cases "r = i") auto
    then show ?thesis by (simp only: ex_disj_distrib simp_thms)
  qed
  have "heap w' = (\<lambda>q. if q \<noteq> 0 \<and> (\<exists>r. i \<le> r \<and> r < i + Suc n \<and> rts ! r = q) then None else heap w q)"
    unfolding w'(3) w1(3) split by (auto simp: fun_eq_iff)
  then show ?case using rr w1(1) w'(1,2) by simp
qed

lemma baseline_two_level_destroy_spec:
  assumes inv: "tl_inv A live fr m w"
  obtains w' where "baseline_two_level_destroy A (Some m) w = Some w'" "heap w' = fr" "world_ok A live w'"
proof -
  obtain rts where rts: "heap w (tl_root m) = Some (LeafRoots rts)" "length rts = unat (tl_root_count m)"
    using tl_invD(4) [OF inv] by blast
  have leaf: "tl_leaf m (heap w) r = rts ! r" if "r < length rts" for r
    using that by (simp add: tl_leaf_def rts)
  have self: "heap w (tl_self m) = Some (RawBlock sizeof_two_level)" by (rule tl_invD(3) [OF inv])
  have z: "heap w 0 = None" using tl_invD(1) [OF inv] by (simp add: world_ok_def)
  have ls: "tl_leaves m (heap w) = {q. q \<noteq> 0 \<and> (\<exists>r. 0 \<le> r \<and> r < 0 + length rts \<and> rts ! r = q)}"
    unfolding tl_leaves_def by (auto simp: tl_leaf_def rts split: if_splits)
  have lv: "heap w (rts ! r) \<noteq> None \<and> rts ! r \<noteq> tl_root m" if "r < length rts" "rts ! r \<noteq> 0" for r
    using tl_invD(5) [OF inv, of r] leaf [of r] that rts by auto
  have inj: "r = s" if "r < length rts" "s < length rts" "rts ! r \<noteq> 0" "rts ! r = rts ! s" for r s
    using tl_invD(6) [OF inv, of r s] leaf that by simp
  have "\<exists>w'. free_leaves A (tl_root m) 0 (length rts) w = Some w' \<and> world_ok A live w'
      \<and> heap w' = (\<lambda>q. if q \<noteq> 0 \<and> (\<exists>r. 0 \<le> r \<and> r < 0 + length rts \<and> rts ! r = q)
          then None else heap w q)"
    by (rule free_leaves_ok [OF tl_invD(1) [OF inv] rts(1)]) (use lv inj in auto)
  then obtain w1 where w1: "free_leaves A (tl_root m) 0 (length rts) w = Some w1" "world_ok A live w1"
    and h1': "heap w1 = (\<lambda>q. if q \<noteq> 0 \<and> (\<exists>r. 0 \<le> r \<and> r < 0 + length rts \<and> rts ! r = q)
          then None else heap w q)" by blast
  have w1: "free_leaves A (tl_root m) 0 (length rts) w = Some w1" "world_ok A live w1"
    "heap w1 = (\<lambda>q. if q \<in> tl_leaves m (heap w) then None else heap w q)"
    using w1 h1' by (simp_all only: ls mem_Collect_eq)
  have kind: "\<exists>hs. heap w q = Some (HandleTable hs)" if "q \<in> tl_leaves m (heap w)" for q
    using that tl_invD(5) [OF inv] unfolding tl_leaves_def by blast
  have nl: "tl_root m \<notin> tl_leaves m (heap w)" "tl_self m \<notin> tl_leaves m (heap w)"
    using kind [of "tl_root m"] kind [of "tl_self m"] rts(1) self by auto
  have h1: "heap w1 (tl_root m) \<noteq> None" "tl_root m \<noteq> 0" "tl_self m \<noteq> 0" "tl_self m \<noteq> tl_root m"
    using nl rts self z by (auto simp: w1(3))
  obtain w2 where w2: "memx_deallocate A (tl_root m) w1 = Some w2" "heap w2 = (heap w1)(tl_root m := None)"
    "world_ok A live w2" by (rule memx_deallocate_ok [OF w1(2) h1(1)])
  have "heap w2 (tl_self m) \<noteq> None" using nl self h1 by (simp add: w2(2) w1(3))
  then obtain w3 where w3: "memx_deallocate A (tl_self m) w2 = Some w3" "heap w3 = (heap w2)(tl_self m := None)"
    "world_ok A live w3" by (rule memx_deallocate_ok [OF w2(3)])
  have "baseline_two_level_destroy A (Some m) w = Some w3"
    using w1(1) w2(1) w3(1) h1 rts(2) by (simp add: baseline_two_level_destroy_def c_free_def)
  moreover have "heap w3 = fr"
    by (rule ext) (simp add: w3(2) w2(2) w1(3) tl_invD(7) [OF inv])
  ultimately show thesis using that w3(3) by blast
qed

lemma tl_geometry:
  assumes c: "0 < unat (count :: u64)" and fit: "unat count + 2 ^ 32 \<le> 2 ^ 64"
    and lb: "leaf_bits = count_bits 0 (unat (count - 1)) div 2"
    and lc: "leaf_count = push_bit (unat leaf_bits) 1" and rc: "root_count = (count + leaf_count - 1) div leaf_count"
  shows "unat leaf_count = 2 ^ unat leaf_bits" "unat leaf_bits \<le> 32"
    "unat count \<le> unat root_count * unat leaf_count"
proof -
  have "unat (count - 1) < 2 ^ 64" using unsigned_less [of "count - 1"] by simp
  from count_bits_spec [OF this, of 0] obtain n where "n \<le> 64" "unat (count_bits 0 (unat (count - 1))) = n"
    by auto
  then show b: "unat leaf_bits \<le> 32" by (simp add: lb unat_div)
  then show L: "unat leaf_count = 2 ^ unat leaf_bits" by (simp add: lc unat_pow2)
  have "(2 :: nat) ^ unat leaf_bits \<le> 2 ^ 32" using b by (intro power_increasing) auto
  then have Lb: "0 < unat leaf_count" "unat leaf_count \<le> 2 ^ 32" using L by simp_all
  then have "unat count + unat leaf_count \<le> 2 ^ 64" using fit by linarith
  then have s: "unat (count + leaf_count - 1) = unat count + (unat leaf_count - 1)"
  proof -
    have "unat (leaf_count - 1) = unat leaf_count - 1" using Lb(1) by (intro unat_minus_one) auto
    moreover have "count + leaf_count - 1 = count + (leaf_count - 1)" by simp
    moreover have "unat count + unat (leaf_count - 1) < 2 ^ 64"
      using calculation(1) Lb(1) \<open>unat count + unat leaf_count \<le> 2 ^ 64\<close> by linarith
    ultimately show ?thesis by (simp only: unat_add_exact)
  qed
  have "unat root_count = (unat count + (unat leaf_count - 1)) div unat leaf_count"
    by (simp add: rc unat_div s)
  then show "unat count \<le> unat root_count * unat leaf_count"
    using page_round_least(2) [OF Lb(1), of "unat count"] by (simp add: page_round_def)
qed

lemma baseline_two_level_create_spec:
  assumes ok: "world_ok A live w"
    and fit: "\<And>cfg. input = Some cfg \<Longrightarrow> unat (bc_managed_size cfg) + 2 ^ 32 \<le> 2 ^ 64"
  obtains (fail) w' where "baseline_two_level_create A input w = Some (None, w')" "heap w' = heap w"
    | (good) m w' where "baseline_two_level_create A input w = Some (Some m, w')"
      "tl_inv A live (heap w) m w'" "tl_view (m, w') = (\<lambda>a. MEMX_HANDLE_INVALID)"
      "input = Some (tl_config m)" "baseline_config_valid input = Some (tl_entry_count m)"
proof (cases "baseline_config_valid input")
  case None
  then show thesis using fail by (simp add: baseline_two_level_create_def)
next
  case (Some count)
  then obtain cfg where inp: "input = Some cfg" by (cases input) (auto simp: baseline_config_valid_def)
  have bok: "baseline_ok cfg count" using Some by (simp add: baseline_ok_def inp)
  note f = baseline_ok_facts [OF bok]
  have "unat count * 1 \<le> unat count * 2 ^ bc_g cfg" by (intro mult_le_mono2) simp
  then have "unat count \<le> unat (bc_managed_size cfg)" by (simp only: f(3) mult_1_right)
  then have cf: "unat count + 2 ^ 32 \<le> 2 ^ 64" using fit [OF inp] by linarith
  define lb where "lb = count_bits 0 (unat (count - 1)) div 2"
  define lc :: u64 where "lc = push_bit (unat lb) 1"
  define rc where "rc = (count + lc - 1) div lc"
  note geo = tl_geometry [OF f(2) cf lb_def lc_def rc_def]
  note unf = lb_def [symmetric] lc_def [symmetric] rc_def [symmetric]
  show thesis
  proof (rule call_allocate_cases [OF ok, of sizeof_two_level], goal_cases)
    case (1 w1)
    then have "baseline_two_level_create A input w = Some (None, w1)"
      using Some by (simp add: baseline_two_level_create_def inp c_malloc_def)
    then show thesis by (rule fail) (rule 1(2))
  next
    case (2 p w1)
    have run1: "baseline_two_level_create A input w = do {
        (root, w) \<leftarrow> c_calloc_words A rc w1;
        if root = 0 then do { w \<leftarrow> c_free A p w; Some (None, w) }
        else Some (Some \<lparr>tl_self = p, tl_config = cfg, tl_entry_count = count, tl_leaf_bits = lb,
               tl_root_count = rc, tl_leaf_count = lc, tl_allocated_leaves = 0, tl_root = root\<rparr>, w) }"
      using Some 2(1,2) unfolding baseline_two_level_create_def inp c_malloc_def
      by (simp only: option.case bind.bind_lunit Let_def prod.case if_False unf)
    show thesis
    proof (rule c_calloc_cases [OF 2(5), of rc], goal_cases)
      case (1 w2)
      have "heap w2 p \<noteq> None" using 1(2) 2(4) by simp
      then obtain w3 where w3: "memx_deallocate A p w2 = Some w3" "heap w3 = (heap w2)(p := None)"
        by (rule memx_deallocate_ok [OF 1(3)])
      have "baseline_two_level_create A input w = Some (None, w3)"
        using run1 1(1) w3(1) 2(2) by (simp add: c_free_def)
      then show thesis by (rule fail) (use w3(2) 1(2) 2(3,4) in \<open>simp add: fun_upd_idem\<close>)
    next
      case (2 root w2)
      let ?m = "\<lparr>tl_self = p, tl_config = cfg, tl_entry_count = count, tl_leaf_bits = lb,
             tl_root_count = rc, tl_leaf_count = lc, tl_allocated_leaves = 0, tl_root = root\<rparr>"
      note p = \<open>heap w1 = (heap w)(p \<mapsto> RawBlock sizeof_two_level)\<close> \<open>heap w p = None\<close>
      have run: "baseline_two_level_create A input w = Some (Some ?m, w2)"
        using run1 2(1,2) by simp
      have rp: "root \<noteq> p" "heap w root = None" using 2(3) p(1) by (auto split: if_splits)
      have leaf: "tl_leaf ?m (heap w2) r = 0" for r by (simp add: tl_leaf_def 2(4))
      have sh: "tl_shape ?m" using bok geo by (simp add: tl_shape_def)
      have ls: "tl_leaves ?m (heap w2) = {}" by (simp add: tl_leaves_def leaf)
      have fr: "heap w q = (if q \<in> {tl_self ?m, tl_root ?m} \<union> tl_leaves ?m (heap w2) then None
          else heap w2 q)" for q
        unfolding ls using rp p by (simp add: 2(4))
      have "heap w2 (tl_self ?m) = Some (RawBlock sizeof_two_level)"
        "\<exists>rts. heap w2 (tl_root ?m) = Some (LeafRoots rts) \<and> length rts = unat (tl_root_count ?m)"
        using rp p by (simp_all add: 2(4))
      then have inv: "tl_inv A live (heap w) ?m w2"
        unfolding tl_inv_def leaf using 2(5) sh fr by blast
      have view: "tl_view (?m, w2) = (\<lambda>a. MEMX_HANDLE_INVALID)"
        by (simp add: tl_view_def tl_value_def leaf fun_eq_iff split: option.split)
      show thesis
        by (rule good [OF run inv view]) (simp_all add: inp Some [unfolded inp])
    qed
  qed
qed

end
