(* ===== verification/Memx_Radix.thy ===== *)
theory Memx_Radix
  imports Memx_TwoLevel
begin

text \<open>
  The three-level radix map of \<^verbatim>\<open>bench/baselines.c\<close> and its 16-entry leaf cache.  The map offers
  the contract \<open>point_map\<close>; the cache stays coherent under assignments without any
  invalidation, because leaves are never moved or freed before the map is destroyed.
\<close>

section \<open>State and operations\<close>

record baseline_radix =
  rx_self :: u64
  rx_config :: baseline_config
  rx_entry_count :: u64
  rx_leaf_bits :: u32
  rx_middle_bits :: u32
  rx_root_bits :: u32
  rx_leaf_count :: u64
  rx_middle_count :: u64
  rx_root_count :: u64
  rx_allocated_middles :: u64
  rx_allocated_leaves :: u64
  rx_root :: u64

definition sizeof_radix :: u64 where
  "sizeof_radix = 96"

definition baseline_radix_create ::
  "'c memx_allocator \<Rightarrow> baseline_config option \<Rightarrow> 'c memx_world
     \<Rightarrow> (baseline_radix option \<times> 'c memx_world) option" where
  "baseline_radix_create A input w =
     (case baseline_config_valid input of
        None \<Rightarrow> Some (None, w)
      | Some count \<Rightarrow> do {
          cfg \<leftarrow> input;
          let bits = count_bits 0 (unat (count - 1));
          (p, w) \<leftarrow> c_malloc A sizeof_radix w;
          if p = 0 then Some (None, w)
          else do {
            let leaf_bits = bits div 3;
            let middle_bits = bits div 3;
            let root_bits = bits - leaf_bits - middle_bits;
            let root_count = push_bit (unat root_bits) 1;
            (root, w) \<leftarrow> c_calloc_words A root_count w;
            if root = 0 then do { w \<leftarrow> c_free A p w; Some (None, w) }
            else Some (Some \<lparr>rx_self = p, rx_config = cfg, rx_entry_count = count,
                   rx_leaf_bits = leaf_bits, rx_middle_bits = middle_bits, rx_root_bits = root_bits,
                   rx_leaf_count = push_bit (unat leaf_bits) 1,
                   rx_middle_count = push_bit (unat middle_bits) 1, rx_root_count = root_count,
                   rx_allocated_middles = 0, rx_allocated_leaves = 0, rx_root = root\<rparr>, w)
          }
        })"

text \<open>A middle node is a structure with the one field \<open>leaves\<close>: an array of one word.\<close>

fun free_middles ::
  "'c memx_allocator \<Rightarrow> baseline_radix \<Rightarrow> nat \<Rightarrow> nat \<Rightarrow> 'c memx_world \<Rightarrow> 'c memx_world option" where
  "free_middles A m i 0 w = Some w"
| "free_middles A m i (Suc n) w = do {
     middle \<leftarrow> read_root w (rx_root m) i;
     w \<leftarrow> (if middle = 0 then Some w
          else do {
            leaves \<leftarrow> read_root w middle 0;
            w \<leftarrow> free_leaves A leaves 0 (unat (rx_middle_count m)) w;
            w \<leftarrow> c_free A leaves w;
            c_free A middle w
          });
     free_middles A m (Suc i) n w
   }"

definition baseline_radix_destroy ::
  "'c memx_allocator \<Rightarrow> baseline_radix option \<Rightarrow> 'c memx_world \<Rightarrow> 'c memx_world option" where
  "baseline_radix_destroy A map' w =
     (case map' of
        None \<Rightarrow> Some w
      | Some m \<Rightarrow> do {
          w \<leftarrow> free_middles A m 0 (unat (rx_root_count m)) w;
          w \<leftarrow> c_free A (rx_root m) w;
          c_free A (rx_self m) w
        })"

text \<open>Root, middle, leaf and flat index.\<close>

definition baseline_radix_indices :: "baseline_radix \<Rightarrow> u64 \<Rightarrow> (u64 \<times> u64 \<times> u64 \<times> u64) option" where
  "baseline_radix_indices m address =
     (case baseline_index (rx_config m) (rx_entry_count m) address of
        None \<Rightarrow> None
      | Some index \<Rightarrow>
         (let leaf_index = index AND (rx_leaf_count m - 1);
              middle_index = drop_bit (unat (rx_leaf_bits m)) index AND (rx_middle_count m - 1);
              root_index = drop_bit (unat (rx_leaf_bits m + rx_middle_bits m)) index
          in if root_index < rx_root_count m
             then Some (root_index, middle_index, leaf_index, index) else None))"

text \<open>The middle node of a root slot, allocated when it is missing; 0 is the failure.\<close>

definition radix_middle ::
  "'c memx_allocator \<Rightarrow> baseline_radix \<Rightarrow> nat \<Rightarrow> 'c memx_world
     \<Rightarrow> (u64 \<times> baseline_radix \<times> 'c memx_world) option" where
  "radix_middle A m root_index w = do {
     middle \<leftarrow> read_root w (rx_root m) root_index;
     if middle = 0 then do {
       (middle, w) \<leftarrow> c_calloc_words A 1 w;
       if middle = 0 then Some (0, m, w)
       else do {
         (leaves, w) \<leftarrow> c_calloc_words A (rx_middle_count m) w;
         w \<leftarrow> write_root middle 0 leaves w;
         if leaves = 0 then do { w \<leftarrow> c_free A middle w; Some (0, m, w) }
         else do {
           w \<leftarrow> write_root (rx_root m) root_index middle w;
           Some (middle, m\<lparr>rx_allocated_middles := rx_allocated_middles m + 1\<rparr>, w)
         }
       }
     }
     else Some (middle, m, w)
   }"

definition radix_leaf ::
  "'c memx_allocator \<Rightarrow> baseline_radix \<Rightarrow> u64 \<Rightarrow> nat \<Rightarrow> 'c memx_world
     \<Rightarrow> (u64 \<times> baseline_radix \<times> 'c memx_world) option" where
  "radix_leaf A m middle middle_index w = do {
     leaves \<leftarrow> read_root w middle 0;
     leaf \<leftarrow> read_root w leaves middle_index;
     if leaf = 0 then do {
       (leaf, w) \<leftarrow> c_malloc A (rx_leaf_count m * 8) w;
       w \<leftarrow> write_root leaves middle_index leaf w;
       if leaf = 0 then Some (0, m, w)
       else do {
         w \<leftarrow> baseline_fill_invalid leaf w (rx_leaf_count m);
         Some (leaf, m\<lparr>rx_allocated_leaves := rx_allocated_leaves m + 1\<rparr>, w)
       }
     }
     else Some (leaf, m, w)
   }"

definition baseline_radix_set ::
  "'c memx_allocator \<Rightarrow> baseline_radix option \<Rightarrow> u64 \<Rightarrow> u64 \<Rightarrow> 'c memx_world
     \<Rightarrow> (bool \<times> baseline_radix option \<times> 'c memx_world) option" where
  "baseline_radix_set A map' address v w =
     (case map' of
        None \<Rightarrow> Some (False, map', w)
      | Some m \<Rightarrow>
         (case baseline_radix_indices m address of
            None \<Rightarrow> Some (False, map', w)
          | Some (root_index, middle_index, leaf_index, _) \<Rightarrow> do {
              (middle, m, w) \<leftarrow> radix_middle A m (unat root_index) w;
              if middle = 0 then Some (False, Some m, w)
              else do {
                (leaf, m, w) \<leftarrow> radix_leaf A m middle (unat middle_index) w;
                if leaf = 0 then Some (False, Some m, w)
                else do {
                  w \<leftarrow> write_handle leaf (unat leaf_index) v w;
                  Some (True, Some m, w)
                }
              }
            }))"

text \<open>The leaf pointer of a pair of indices, 0 when the middle node or the leaf is missing.\<close>

definition radix_find_leaf :: "baseline_radix \<Rightarrow> nat \<Rightarrow> nat \<Rightarrow> 'c memx_world \<Rightarrow> u64 option" where
  "radix_find_leaf m root_index middle_index w = do {
     middle \<leftarrow> read_root w (rx_root m) root_index;
     if middle = 0 then Some 0
     else do {
       leaves \<leftarrow> read_root w middle 0;
       read_root w leaves middle_index
     }
   }"

definition baseline_radix_lookup :: "baseline_radix option \<Rightarrow> u64 \<Rightarrow> 'c memx_world \<Rightarrow> u64 option" where
  "baseline_radix_lookup map' address w =
     (case map' of
        None \<Rightarrow> Some MEMX_HANDLE_INVALID
      | Some m \<Rightarrow>
         (case baseline_radix_indices m address of
            None \<Rightarrow> Some MEMX_HANDLE_INVALID
          | Some (root_index, middle_index, leaf_index, _) \<Rightarrow> do {
              leaf \<leftarrow> radix_find_leaf m (unat root_index) (unat middle_index) w;
              if leaf = 0 then Some MEMX_HANDLE_INVALID
              else read_handle w leaf (unat leaf_index)
            }))"

definition baseline_radix_bytes :: "baseline_radix option \<Rightarrow> u64" where
  "baseline_radix_bytes map' =
     (case map' of None \<Rightarrow> 0
      | Some m \<Rightarrow> sizeof_radix + rx_root_count m * 8
                  + rx_allocated_middles m * (8 + rx_middle_count m * 8)
                  + rx_allocated_leaves m * rx_leaf_count m * 8)"

definition baseline_radix_page_accounted_bytes :: "u64 \<Rightarrow> baseline_radix option \<Rightarrow> u64" where
  "baseline_radix_page_accounted_bytes page_result map' =
     (case map' of None \<Rightarrow> 0
      | Some m \<Rightarrow>
         (let total = baseline_saturating_add
                (baseline_page_account page_result sizeof_radix)
                (baseline_page_account page_result
                   (baseline_saturating_multiply (rx_root_count m) 8));
              middle_bytes = baseline_saturating_add
                (baseline_page_account page_result 8)
                (baseline_page_account page_result
                   (baseline_saturating_multiply (rx_middle_count m) 8));
              total = baseline_saturating_add total
                (baseline_saturating_multiply (rx_allocated_middles m) middle_bytes)
          in baseline_saturating_add total
               (baseline_saturating_multiply (rx_allocated_leaves m)
                  (baseline_page_account page_result
                     (baseline_saturating_multiply (rx_leaf_count m) 8)))))"

subsection \<open>The leaf cache\<close>

text \<open>16 pairs of a leaf key and a leaf pointer.\<close>

type_synonym baseline_radix_cache = "(u64 \<times> u64) list"

definition baseline_radix_cache_init :: "baseline_radix_cache option \<Rightarrow> baseline_radix_cache option" where
  "baseline_radix_cache_init cache =
     (case cache of None \<Rightarrow> None | Some _ \<Rightarrow> Some (replicate 16 (SIZE_MAX, 0)))"

definition baseline_radix_cached_lookup ::
  "baseline_radix option \<Rightarrow> baseline_radix_cache option \<Rightarrow> u64 \<Rightarrow> 'c memx_world
     \<Rightarrow> (u64 \<times> baseline_radix_cache option) option" where
  "baseline_radix_cached_lookup map' cache address w =
     (case map' of
        None \<Rightarrow> Some (MEMX_HANDLE_INVALID, cache)
      | Some m \<Rightarrow>
         (case cache of
            None \<Rightarrow> Some (MEMX_HANDLE_INVALID, cache)
          | Some entries \<Rightarrow>
             (case baseline_radix_indices m address of
                None \<Rightarrow> Some (MEMX_HANDLE_INVALID, cache)
              | Some (root_index, middle_index, leaf_index, flat_index) \<Rightarrow>
                 (let leaf_key = drop_bit (unat (rx_leaf_bits m)) flat_index;
                      slot = unat (leaf_key AND 15)
                  in if length entries \<noteq> 16 then None
                     else if fst (entries ! slot) = leaf_key \<and> snd (entries ! slot) \<noteq> 0
                     then do {
                       h \<leftarrow> read_handle w (snd (entries ! slot)) (unat leaf_index);
                       Some (h, cache)
                     }
                     else do {
                       leaf \<leftarrow> radix_find_leaf m (unat root_index) (unat middle_index) w;
                       let entries = (if leaf \<noteq> 0 then entries[slot := (leaf_key, leaf)] else entries);
                       h \<leftarrow> (if leaf = 0 then Some MEMX_HANDLE_INVALID
                             else read_handle w leaf (unat leaf_index));
                       Some (h, Some entries)
                     }))))"

section \<open>The tree in the store\<close>

definition word_at :: "(u64 \<rightharpoonup> memx_object) \<Rightarrow> u64 \<Rightarrow> nat \<Rightarrow> u64" where
  "word_at h p i =
     (case h p of Some (LeafRoots ws) \<Rightarrow> (if i < length ws then ws ! i else 0) | _ \<Rightarrow> 0)"

definition rx_mid :: "baseline_radix \<Rightarrow> (u64 \<rightharpoonup> memx_object) \<Rightarrow> nat \<Rightarrow> u64" where
  "rx_mid m h r = word_at h (rx_root m) r"

definition rx_arr :: "baseline_radix \<Rightarrow> (u64 \<rightharpoonup> memx_object) \<Rightarrow> nat \<Rightarrow> u64" where
  "rx_arr m h r = (if rx_mid m h r = 0 then 0 else word_at h (rx_mid m h r) 0)"

definition rx_leaf :: "baseline_radix \<Rightarrow> (u64 \<rightharpoonup> memx_object) \<Rightarrow> nat \<Rightarrow> nat \<Rightarrow> u64" where
  "rx_leaf m h r j = (if rx_arr m h r = 0 then 0 else word_at h (rx_arr m h r) j)"

abbreviation rx_L :: "baseline_radix \<Rightarrow> nat" where "rx_L m \<equiv> unat (rx_leaf_count m)"
abbreviation rx_M :: "baseline_radix \<Rightarrow> nat" where "rx_M m \<equiv> unat (rx_middle_count m)"
abbreviation rx_R :: "baseline_radix \<Rightarrow> nat" where "rx_R m \<equiv> unat (rx_root_count m)"

definition rx_shape :: "baseline_radix \<Rightarrow> bool" where
  "rx_shape m \<longleftrightarrow> baseline_ok (rx_config m) (rx_entry_count m)
     \<and> unat (rx_leaf_bits m) \<le> 21 \<and> unat (rx_middle_bits m) \<le> 21
     \<and> rx_L m = 2 ^ unat (rx_leaf_bits m) \<and> rx_M m = 2 ^ unat (rx_middle_bits m)
     \<and> unat (rx_entry_count m) \<le> rx_R m * (rx_M m * rx_L m)"

text \<open>The blocks below one root slot.\<close>

definition rx_below :: "baseline_radix \<Rightarrow> (u64 \<rightharpoonup> memx_object) \<Rightarrow> nat \<Rightarrow> u64 set" where
  "rx_below m h r = {q. q \<noteq> 0 \<and> (q = rx_mid m h r \<or> q = rx_arr m h r \<or> (\<exists>j. q = rx_leaf m h r j))}"

definition rx_tree :: "baseline_radix \<Rightarrow> (u64 \<rightharpoonup> memx_object) \<Rightarrow> bool" where
  "rx_tree m h \<longleftrightarrow>
     (\<exists>rts. h (rx_root m) = Some (LeafRoots rts) \<and> length rts = rx_R m)
     \<and> (\<forall>r. rx_mid m h r \<noteq> 0 \<longrightarrow>
          h (rx_mid m h r) = Some (LeafRoots [rx_arr m h r]) \<and> rx_arr m h r \<noteq> 0
          \<and> (\<exists>ls. h (rx_arr m h r) = Some (LeafRoots ls) \<and> length ls = rx_M m)
          \<and> rx_mid m h r \<noteq> rx_root m \<and> rx_arr m h r \<noteq> rx_root m)
     \<and> (\<forall>r s. rx_mid m h r \<noteq> 0 \<longrightarrow> rx_mid m h s \<noteq> 0 \<longrightarrow>
          rx_mid m h r \<noteq> rx_arr m h s
          \<and> (rx_mid m h r = rx_mid m h s \<longrightarrow> r = s) \<and> (rx_arr m h r = rx_arr m h s \<longrightarrow> r = s))
     \<and> (\<forall>r j. rx_leaf m h r j \<noteq> 0 \<longrightarrow>
          (\<exists>hs. h (rx_leaf m h r j) = Some (HandleTable hs) \<and> length hs = rx_L m))
     \<and> (\<forall>r j s k. rx_leaf m h r j \<noteq> 0 \<longrightarrow> rx_leaf m h r j = rx_leaf m h s k \<longrightarrow> r = s \<and> j = k)"

definition rx_inv ::
  "'c memx_allocator \<Rightarrow> ('c \<Rightarrow> u64 set) \<Rightarrow> (u64 \<rightharpoonup> memx_object) \<Rightarrow> baseline_radix
     \<Rightarrow> 'c memx_world \<Rightarrow> bool" where
  "rx_inv A live fr m w \<longleftrightarrow>
     world_ok A live w \<and> rx_shape m \<and> rx_tree m (heap w)
     \<and> heap w (rx_self m) = Some (RawBlock sizeof_radix)
     \<and> (\<forall>q. fr q = (if q \<in> {rx_self m, rx_root m} \<or> (\<exists>r. q \<in> rx_below m (heap w) r)
                    then None else heap w q))"

text \<open>The handle at three indices.\<close>

definition rx_value :: "baseline_radix \<Rightarrow> (u64 \<rightharpoonup> memx_object) \<Rightarrow> nat \<Rightarrow> nat \<Rightarrow> nat \<Rightarrow> u64" where
  "rx_value m h r j l =
     (if rx_leaf m h r j = 0 then MEMX_HANDLE_INVALID
      else case h (rx_leaf m h r j) of Some (HandleTable hs) \<Rightarrow> hs ! l | _ \<Rightarrow> MEMX_HANDLE_INVALID)"

lemma rx_treeD:
  assumes "rx_tree m h"
  shows "\<exists>rts. h (rx_root m) = Some (LeafRoots rts) \<and> length rts = rx_R m"
    "rx_mid m h r \<noteq> 0 \<Longrightarrow> h (rx_mid m h r) = Some (LeafRoots [rx_arr m h r])"
    "rx_mid m h r \<noteq> 0 \<Longrightarrow> rx_arr m h r \<noteq> 0"
    "rx_mid m h r \<noteq> 0 \<Longrightarrow> \<exists>ls. h (rx_arr m h r) = Some (LeafRoots ls) \<and> length ls = rx_M m"
    "rx_mid m h r \<noteq> 0 \<Longrightarrow> rx_mid m h r \<noteq> rx_root m"
    "rx_mid m h r \<noteq> 0 \<Longrightarrow> rx_arr m h r \<noteq> rx_root m"
    "rx_mid m h r \<noteq> 0 \<Longrightarrow> rx_mid m h s \<noteq> 0 \<Longrightarrow> rx_mid m h r \<noteq> rx_arr m h s"
    "rx_mid m h r \<noteq> 0 \<Longrightarrow> rx_mid m h r = rx_mid m h s \<Longrightarrow> r = s"
    "rx_mid m h r \<noteq> 0 \<Longrightarrow> rx_mid m h s \<noteq> 0 \<Longrightarrow> rx_arr m h r = rx_arr m h s \<Longrightarrow> r = s"
    "rx_leaf m h r j \<noteq> 0 \<Longrightarrow> \<exists>hs. h (rx_leaf m h r j) = Some (HandleTable hs) \<and> length hs = rx_L m"
    "rx_leaf m h r j \<noteq> 0 \<Longrightarrow> rx_leaf m h r j = rx_leaf m h s k \<Longrightarrow> r = s \<and> j = k"
  using assms unfolding rx_tree_def by metis+

lemma rx_treeI:
  assumes "h (rx_root m) = Some (LeafRoots rts)" "length rts = rx_R m"
    and "\<And>r. rx_mid m h r \<noteq> 0 \<Longrightarrow> h (rx_mid m h r) = Some (LeafRoots [rx_arr m h r])
      \<and> rx_arr m h r \<noteq> 0 \<and> (\<exists>ls. h (rx_arr m h r) = Some (LeafRoots ls) \<and> length ls = rx_M m)
      \<and> rx_mid m h r \<noteq> rx_root m \<and> rx_arr m h r \<noteq> rx_root m"
    and "\<And>r s. rx_mid m h r \<noteq> 0 \<Longrightarrow> rx_mid m h s \<noteq> 0 \<Longrightarrow> rx_mid m h r \<noteq> rx_arr m h s
      \<and> (rx_mid m h r = rx_mid m h s \<longrightarrow> r = s) \<and> (rx_arr m h r = rx_arr m h s \<longrightarrow> r = s)"
    and "\<And>r j. rx_leaf m h r j \<noteq> 0 \<Longrightarrow>
      \<exists>hs. h (rx_leaf m h r j) = Some (HandleTable hs) \<and> length hs = rx_L m"
    and "\<And>r j s k. rx_leaf m h r j \<noteq> 0 \<Longrightarrow> rx_leaf m h r j = rx_leaf m h s k \<Longrightarrow> r = s \<and> j = k"
  shows "rx_tree m h"
  unfolding rx_tree_def using assms by blast

lemma rx_leaf_mid: "rx_leaf m h r j \<noteq> 0 \<Longrightarrow> rx_mid m h r \<noteq> 0"
  by (auto simp: rx_leaf_def rx_arr_def split: if_splits)

lemma rx_arr_mid: "rx_arr m h r \<noteq> 0 \<Longrightarrow> rx_mid m h r \<noteq> 0"
  by (auto simp: rx_arr_def split: if_splits)

lemma rx_split:
  assumes sh: "rx_shape m" and c: "baseline_index (rx_config m) (rx_entry_count m) a = Some i"
  shows "\<exists>ri mi li. baseline_radix_indices m a = Some (ri, mi, li, i)
    \<and> unat ri = unat i div (rx_M m * rx_L m) \<and> unat mi = unat i div rx_L m mod rx_M m
    \<and> unat li = unat i mod rx_L m \<and> unat ri < rx_R m \<and> unat mi < rx_M m \<and> unat li < rx_L m"
proof -
  have L: "rx_L m = 2 ^ unat (rx_leaf_bits m)" "rx_M m = 2 ^ unat (rx_middle_bits m)"
    "unat (rx_leaf_bits m) \<le> 21" "unat (rx_middle_bits m) \<le> 21"
    "unat (rx_entry_count m) \<le> rx_R m * (rx_M m * rx_L m)"
    "baseline_ok (rx_config m) (rx_entry_count m)" using sh by (auto simp: rx_shape_def)
  have i: "unat i < unat (rx_entry_count m)" using baseline_index_spec(2) [OF L(6) c] by simp
  have ml: "x AND (rx_leaf_count m - 1) = x AND mask (unat (rx_leaf_bits m))" for x
  proof -
    have "rx_leaf_count m = 2 ^ unat (rx_leaf_bits m)" unfolding unat_eq_iff using L by (simp add: unat_pow2)
    then show ?thesis by (simp add: pow2_minus_1)
  qed
  have mm: "x AND (rx_middle_count m - 1) = x AND mask (unat (rx_middle_bits m))" for x
  proof -
    have "rx_middle_count m = 2 ^ unat (rx_middle_bits m)" unfolding unat_eq_iff using L by (simp add: unat_pow2)
    then show ?thesis by (simp add: pow2_minus_1)
  qed
  have sum: "unat (rx_leaf_bits m + rx_middle_bits m) = unat (rx_leaf_bits m) + unat (rx_middle_bits m)"
    using L by (simp add: unat_word_ariths)
  have r: "unat (drop_bit (unat (rx_leaf_bits m + rx_middle_bits m)) i) = unat i div (rx_M m * rx_L m)"
    unfolding sum unat_drop L power_add by (simp add: mult.commute)
  have "unat i div (rx_M m * rx_L m) < rx_R m" using i L(5) by (intro less_mult_imp_div_less) simp
  then show ?thesis
    using r c ml mm L
    by (auto simp: baseline_radix_indices_def Let_def word_less_nat_alt unat_and_mask unat_drop)
qed

lemma radix_find_leaf_ok:
  assumes t: "rx_tree m (heap w)" and r: "r < rx_R m" and j: "j < rx_M m"
  shows "radix_find_leaf m r j w = Some (rx_leaf m (heap w) r j)"
proof -
  obtain rts where rts: "heap w (rx_root m) = Some (LeafRoots rts)" "length rts = rx_R m"
    using rx_treeD(1) [OF t] by blast
  have rr: "read_root w (rx_root m) r = Some (rx_mid m (heap w) r)"
    using rts r by (simp add: rx_mid_def word_at_def)
  show ?thesis
  proof (cases "rx_mid m (heap w) r = 0")
    case True
    then show ?thesis using rr by (simp add: radix_find_leaf_def rx_leaf_def rx_arr_def)
  next
    case False
    obtain ls where ls: "heap w (rx_arr m (heap w) r) = Some (LeafRoots ls)" "length ls = rx_M m"
      using rx_treeD(4) [OF t False] by blast
    have r0: "read_root w (rx_mid m (heap w) r) 0 = Some (rx_arr m (heap w) r)"
      using rx_treeD(2) [OF t False] by (simp add: read_root_def)
    have "rx_leaf m (heap w) r j = ls ! j"
      using rx_treeD(3) [OF t False] ls j by (simp add: rx_leaf_def word_at_def)
    moreover have "read_root w (rx_arr m (heap w) r) j = Some (ls ! j)" using ls j by simp
    ultimately show ?thesis using False rr r0 by (simp add: radix_find_leaf_def)
  qed
qed

section \<open>The steps of an assignment\<close>

text \<open>The allocation counters play no part in the shape.\<close>

lemma rx_counters [simp]:
  "rx_mid (m\<lparr>rx_allocated_middles := a\<rparr>) = rx_mid m" "rx_mid (m\<lparr>rx_allocated_leaves := a\<rparr>) = rx_mid m"
  "rx_arr (m\<lparr>rx_allocated_middles := a\<rparr>) = rx_arr m" "rx_arr (m\<lparr>rx_allocated_leaves := a\<rparr>) = rx_arr m"
  "rx_leaf (m\<lparr>rx_allocated_middles := a\<rparr>) = rx_leaf m" "rx_leaf (m\<lparr>rx_allocated_leaves := a\<rparr>) = rx_leaf m"
  "rx_shape (m\<lparr>rx_allocated_middles := a\<rparr>) = rx_shape m" "rx_shape (m\<lparr>rx_allocated_leaves := a\<rparr>) = rx_shape m"
  "rx_below (m\<lparr>rx_allocated_middles := a\<rparr>) = rx_below m" "rx_below (m\<lparr>rx_allocated_leaves := a\<rparr>) = rx_below m"
  "rx_tree (m\<lparr>rx_allocated_middles := a\<rparr>) = rx_tree m" "rx_tree (m\<lparr>rx_allocated_leaves := a\<rparr>) = rx_tree m"
  "rx_value (m\<lparr>rx_allocated_middles := a\<rparr>) = rx_value m" "rx_value (m\<lparr>rx_allocated_leaves := a\<rparr>) = rx_value m"
  by (simp_all add: fun_eq_iff rx_mid_def rx_arr_def rx_leaf_def rx_shape_def rx_below_def rx_tree_def
      rx_value_def)

lemma rx_inv_counters [simp]:
  "rx_inv A live fr (m\<lparr>rx_allocated_middles := a\<rparr>) = rx_inv A live fr m"
  "rx_inv A live fr (m\<lparr>rx_allocated_leaves := a\<rparr>) = rx_inv A live fr m"
  by (simp_all add: fun_eq_iff rx_inv_def)

lemma rx_invD:
  assumes "rx_inv A live fr m w"
  shows "world_ok A live w" "rx_shape m" "rx_tree m (heap w)" "heap w (rx_self m) = Some (RawBlock sizeof_radix)"
    "fr q = (if q \<in> {rx_self m, rx_root m} \<or> (\<exists>r. q \<in> rx_below m (heap w) r) then None else heap w q)"
  using assms unfolding rx_inv_def by blast+

lemma rx_leaf_root:
  assumes "rx_tree m h" "rx_leaf m h r j \<noteq> 0"
  shows "h (rx_leaf m h r j) \<noteq> None" "rx_leaf m h r j \<noteq> rx_root m"
    "rx_mid m h s \<noteq> 0 \<Longrightarrow> rx_leaf m h r j \<noteq> rx_mid m h s \<and> rx_leaf m h r j \<noteq> rx_arr m h s"
  using rx_treeD(1) [OF assms(1)] rx_treeD(10) [OF assms(1,2)] rx_treeD(2,4) [OF assms(1), of s] by auto

text \<open>A new middle node with an empty array of leaves.\<close>

lemma rx_add_middle:
  assumes t: "rx_tree m h" and r: "r < rx_R m" and none: "rx_mid m h r = 0"
    and p: "p \<noteq> 0" "h p = None" and q: "q \<noteq> 0" "h q = None" "p \<noteq> q"
    and rts: "h (rx_root m) = Some (LeafRoots rts)"
    and h': "h' = h(p \<mapsto> LeafRoots [q], q \<mapsto> LeafRoots (replicate (rx_M m) 0),
        rx_root m \<mapsto> LeafRoots (rts[r := p]))"
  shows "rx_mid m h' = (rx_mid m h)(r := p)" "rx_arr m h' = (rx_arr m h)(r := q)"
    "rx_leaf m h' = rx_leaf m h" "rx_tree m h'" "rx_value m h' = rx_value m h"
    "x \<noteq> p \<Longrightarrow> x \<noteq> q \<Longrightarrow> x \<noteq> rx_root m \<Longrightarrow> h' x = h x"
proof -
  have len: "length rts = rx_R m" using rx_treeD(1) [OF t] rts by auto
  have pr: "p \<noteq> rx_root m" "q \<noteq> rx_root m" using p q rts by auto
  show old: "h' x = h x" if "x \<noteq> p" "x \<noteq> q" "x \<noteq> rx_root m" for x using that by (simp add: h')
  have hp: "h' p = Some (LeafRoots [q])" "h' q = Some (LeafRoots (replicate (rx_M m) 0))"
    "h' (rx_root m) = Some (LeafRoots (rts[r := p]))" using pr q by (simp_all add: h')
  have mid: "rx_mid m h' s = (if s = r then p else rx_mid m h s)" for s
    using r len by (simp add: rx_mid_def word_at_def hp rts)
  then show m': "rx_mid m h' = (rx_mid m h)(r := p)" by (simp add: fun_eq_iff)
  have fresh: "x \<noteq> p \<and> x \<noteq> q" if "h x \<noteq> None" for x using that p q by auto
  have mo: "h' (rx_mid m h s) = h (rx_mid m h s)" if "rx_mid m h s \<noteq> 0" for s
    using rx_treeD(2,5) [OF t that] fresh old by auto
  have arr: "rx_arr m h' s = (if s = r then q else rx_arr m h s)" for s
    using mo [of s] p by (simp add: rx_arr_def mid) (simp add: word_at_def hp)
  then show a': "rx_arr m h' = (rx_arr m h)(r := q)" by (simp add: fun_eq_iff)
  have none': "rx_leaf m h r j = 0" "rx_arr m h r = 0" for j
    using none by (simp_all add: rx_leaf_def rx_arr_def)
  have ao: "h' (rx_arr m h s) = h (rx_arr m h s) \<and> rx_mid m h s \<noteq> 0" if "rx_arr m h s \<noteq> 0" for s
    using rx_treeD(4,6) [OF t rx_arr_mid [OF that]] fresh old rx_arr_mid [OF that] by auto
  have leaf: "rx_leaf m h' s j = rx_leaf m h s j" for s j
  proof (cases "s = r")
    case True
    then show ?thesis using none' by (simp add: rx_leaf_def arr) (simp add: word_at_def hp)
  next
    case False
    then show ?thesis using ao [of s] by (simp add: rx_leaf_def arr) (simp add: word_at_def)
  qed
  then show l': "rx_leaf m h' = rx_leaf m h" by (simp add: fun_eq_iff)
  have lo: "h' (rx_leaf m h s j) = h (rx_leaf m h s j)" if "rx_leaf m h s j \<noteq> 0" for s j
    using rx_leaf_root [OF t that] fresh old by metis
  show "rx_value m h' = rx_value m h"
    using lo by (simp add: rx_value_def fun_eq_iff leaf)
  have 1: "h' (rx_mid m h' s) = Some (LeafRoots [rx_arr m h' s]) \<and> rx_arr m h' s \<noteq> 0
      \<and> (\<exists>ls. h' (rx_arr m h' s) = Some (LeafRoots ls) \<and> length ls = rx_M m)
      \<and> rx_mid m h' s \<noteq> rx_root m \<and> rx_arr m h' s \<noteq> rx_root m" if "rx_mid m h' s \<noteq> 0" for s
  proof (cases "s = r")
    case True
    then show ?thesis using hp pr q by (simp add: mid arr)
  next
    case False
    then have ms: "rx_mid m h s \<noteq> 0" using that by (simp add: mid)
    from False rx_treeD(2-6) [OF t ms] mo [OF ms] ao show ?thesis by (simp add: mid arr)
  qed
  have df: "rx_mid m h s \<noteq> p \<and> rx_mid m h s \<noteq> q \<and> rx_arr m h s \<noteq> p \<and> rx_arr m h s \<noteq> q"
    if "rx_mid m h s \<noteq> 0" for s
    using rx_treeD(2,4) [OF t that] fresh by (metis option.distinct(1))
  have 2: "rx_mid m h' s \<noteq> rx_arr m h' u \<and> (rx_mid m h' s = rx_mid m h' u \<longrightarrow> s = u)
      \<and> (rx_arr m h' s = rx_arr m h' u \<longrightarrow> s = u)" if "rx_mid m h' s \<noteq> 0" "rx_mid m h' u \<noteq> 0" for s u
  proof (cases "s = r")
    case True
    then show ?thesis using that(2) df [of u] q(3) by (cases "u = r") (auto simp: mid arr)
  next
    case False
    then have ms: "rx_mid m h s \<noteq> 0" using that(1) by (simp add: mid)
    show ?thesis
    proof (cases "u = r")
      case True
      then show ?thesis using False df [OF ms] by (simp add: mid arr)
    next
      case u: False
      then have mu: "rx_mid m h u \<noteq> 0" using that(2) by (simp add: mid)
      show ?thesis
        using False u rx_treeD(7) [OF t ms mu] rx_treeD(8) [OF t ms] rx_treeD(9) [OF t ms mu]
        by (simp add: mid arr)
    qed
  qed
  show "rx_tree m h'"
  proof (rule rx_treeI)
    show "h' (rx_root m) = Some (LeafRoots (rts[r := p]))" by (rule hp(3))
    show "\<exists>hs. h' (rx_leaf m h' s j) = Some (HandleTable hs) \<and> length hs = rx_L m"
      if "rx_leaf m h' s j \<noteq> 0" for s j
      using that rx_treeD(10) [OF t] lo unfolding l' by simp
    show "s = u \<and> j = k" if "rx_leaf m h' s j \<noteq> 0" "rx_leaf m h' s j = rx_leaf m h' u k" for s j u k
      using that rx_treeD(11) [OF t] unfolding l' by blast
  qed (use len 1 2 in simp_all)
qed

text \<open>When the root, the middle nodes and the arrays are unchanged, so are all inner pointers.\<close>

lemma rx_same_nodes:
  assumes "h' (rx_root m) = h (rx_root m)" and "\<And>s. rx_mid m h s \<noteq> 0 \<Longrightarrow> h' (rx_mid m h s) = h (rx_mid m h s)"
  shows "rx_mid m h' = rx_mid m h" "rx_arr m h' = rx_arr m h"
proof -
  show m: "rx_mid m h' = rx_mid m h" by (simp add: fun_eq_iff rx_mid_def word_at_def assms(1))
  have "rx_arr m h' s = rx_arr m h s" for s
    using assms(2) [of s] by (simp add: rx_arr_def m) (simp add: word_at_def)
  then show "rx_arr m h' = rx_arr m h" by (simp add: fun_eq_iff)
qed

text \<open>A new leaf, all of its handles invalid.\<close>

lemma rx_add_leaf:
  assumes t: "rx_tree m h" and mid: "rx_mid m h r \<noteq> 0" and j: "j < rx_M m"
    and none: "rx_leaf m h r j = 0" and p: "p \<noteq> 0" "h p = None"
    and ls: "h (rx_arr m h r) = Some (LeafRoots ls)"
    and h': "h' = h(rx_arr m h r \<mapsto> LeafRoots (ls[j := p]),
        p \<mapsto> HandleTable (replicate (rx_L m) MEMX_HANDLE_INVALID))"
  shows "rx_mid m h' = rx_mid m h" "rx_arr m h' = rx_arr m h"
    "rx_leaf m h' = (\<lambda>s k. if s = r \<and> k = j then p else rx_leaf m h s k)" "rx_tree m h'"
    "l < rx_L m \<Longrightarrow> rx_value m h' s k l = rx_value m h s k l"
    "x \<noteq> p \<Longrightarrow> x \<noteq> rx_arr m h r \<Longrightarrow> h' x = h x"
proof -
  let ?a = "rx_arr m h r"
  have len: "length ls = rx_M m" using rx_treeD(4) [OF t mid] ls by auto
  have pa: "p \<noteq> ?a" using p ls by auto
  show old: "h' x = h x" if "x \<noteq> p" "x \<noteq> ?a" for x using that by (simp add: h')
  have hp: "h' p = Some (HandleTable (replicate (rx_L m) MEMX_HANDLE_INVALID))"
    "h' ?a = Some (LeafRoots (ls[j := p]))" using pa by (simp_all add: h')
  have root: "rx_root m \<noteq> p" "rx_root m \<noteq> ?a"
    using rx_treeD(1) [OF t] p rx_treeD(6) [OF t mid] by auto
  have mo: "h' (rx_mid m h s) = h (rx_mid m h s)" if "rx_mid m h s \<noteq> 0" for s
    using rx_treeD(2) [OF t that] p rx_treeD(7) [OF t that mid] by (intro old) auto
  show same: "rx_mid m h' = rx_mid m h" "rx_arr m h' = rx_arr m h"
    using rx_same_nodes [of h' m h] old [OF root] mo by blast+
  have ao: "h' (rx_arr m h s) = h (rx_arr m h s)" if "rx_arr m h s \<noteq> 0" "s \<noteq> r" for s
    using rx_treeD(4) [OF t rx_arr_mid [OF that(1)]] p rx_treeD(9) [OF t rx_arr_mid [OF that(1)] mid] that(2)
    by (intro old) auto
  have a0: "?a \<noteq> 0" by (rule rx_treeD(3) [OF t mid])
  have leaf: "rx_leaf m h' s k = (if s = r \<and> k = j then p else rx_leaf m h s k)" for s k
  proof (cases "s = r")
    case True
    then show ?thesis using a0 len j ls by (simp add: rx_leaf_def same) (simp add: word_at_def hp)
  next
    case False
    then show ?thesis using ao [of s] by (simp add: rx_leaf_def same) (simp add: word_at_def)
  qed
  then show l': "rx_leaf m h' = (\<lambda>s k. if s = r \<and> k = j then p else rx_leaf m h s k)"
    by (simp add: fun_eq_iff)
  have lo: "h' (rx_leaf m h s k) = h (rx_leaf m h s k) \<and> rx_leaf m h s k \<noteq> p" if "rx_leaf m h s k \<noteq> 0" for s k
    using rx_leaf_root(1) [OF t that] rx_leaf_root(3) [OF t that mid] p old by metis
  show "rx_value m h' s k l = rx_value m h s k l" if "l < rx_L m"
    using that none p(1) lo [of s k] by (simp add: rx_value_def leaf hp)
  show "rx_tree m h'"
  proof (rule rx_treeI)
    show "h' (rx_root m) = Some (LeafRoots (case h (rx_root m) of Some (LeafRoots rts) \<Rightarrow> rts))"
      "length (case h (rx_root m) of Some (LeafRoots rts) \<Rightarrow> rts) = rx_R m"
      using old [OF root(1,2)] rx_treeD(1) [OF t] by auto
    show "h' (rx_mid m h' s) = Some (LeafRoots [rx_arr m h' s]) \<and> rx_arr m h' s \<noteq> 0
      \<and> (\<exists>ls. h' (rx_arr m h' s) = Some (LeafRoots ls) \<and> length ls = rx_M m)
      \<and> rx_mid m h' s \<noteq> rx_root m \<and> rx_arr m h' s \<noteq> rx_root m" if "rx_mid m h' s \<noteq> 0" for s
    proof -
      have ms: "rx_mid m h s \<noteq> 0" using that by (simp add: same)
      show ?thesis
        using rx_treeD(2-6) [OF t ms] mo [OF ms] ao [of s] hp(2) len unfolding same
        by (cases "s = r") simp_all
    qed
    show "rx_mid m h' s \<noteq> rx_arr m h' u \<and> (rx_mid m h' s = rx_mid m h' u \<longrightarrow> s = u)
        \<and> (rx_arr m h' s = rx_arr m h' u \<longrightarrow> s = u)"
      if "rx_mid m h' s \<noteq> 0" "rx_mid m h' u \<noteq> 0" for s u
      using that rx_treeD(7-9) [OF t, of s u] unfolding same by blast
    show "\<exists>hs. h' (rx_leaf m h' s k) = Some (HandleTable hs) \<and> length hs = rx_L m"
      if "rx_leaf m h' s k \<noteq> 0" for s k
      using that rx_treeD(10) [OF t, of s k] lo [of s k] hp(1) by (cases "s = r \<and> k = j") (auto simp: leaf)
    show "s = u \<and> k = l" if "rx_leaf m h' s k \<noteq> 0" "rx_leaf m h' s k = rx_leaf m h' u l" for s k u l
      using that rx_treeD(11) [OF t, of s k u l] lo [of s k] lo [of u l] p(1)
      by (auto simp: leaf split: if_splits)
  qed
qed

text \<open>Writing one handle of an existing leaf.\<close>

lemma rx_write:
  assumes t: "rx_tree m h" and leaf: "rx_leaf m h r j \<noteq> 0" and l: "l < rx_L m"
    and hs: "h (rx_leaf m h r j) = Some (HandleTable hs)"
    and h': "h' = h(rx_leaf m h r j \<mapsto> HandleTable (hs[l := v]))"
  shows "rx_mid m h' = rx_mid m h" "rx_arr m h' = rx_arr m h" "rx_leaf m h' = rx_leaf m h" "rx_tree m h'"
    "rx_value m h' s k i = (if s = r \<and> k = j \<and> i = l then v else rx_value m h s k i)"
proof -
  let ?p = "rx_leaf m h r j"
  have len: "length hs = rx_L m" using rx_treeD(10) [OF t leaf] hs by auto
  have old: "h' x = h x" if "x \<noteq> ?p" for x using that by (simp add: h')
  have hp: "h' ?p = Some (HandleTable (hs[l := v]))" by (simp add: h')
  have root: "h' (rx_root m) = h (rx_root m)" using rx_leaf_root(2) [OF t leaf] old by metis
  have mo: "h' (rx_mid m h s) = h (rx_mid m h s)" "h' (rx_arr m h s) = h (rx_arr m h s)"
    if "rx_mid m h s \<noteq> 0" for s
    using rx_leaf_root(3) [OF t leaf that] old by metis+
  show same: "rx_mid m h' = rx_mid m h" "rx_arr m h' = rx_arr m h"
    using rx_same_nodes [of h' m h] root mo(1) by blast+
  have lf: "rx_leaf m h' s k = rx_leaf m h s k" for s k
    using mo(2) [OF rx_arr_mid, of s] by (simp add: rx_leaf_def same) (simp add: word_at_def)
  then show l': "rx_leaf m h' = rx_leaf m h" by (simp add: fun_eq_iff)
  have tab: "\<exists>hs. h' (rx_leaf m h s k) = Some (HandleTable hs) \<and> length hs = rx_L m"
    if "rx_leaf m h s k \<noteq> 0" for s k
    using rx_treeD(10) [OF t that] old [of "rx_leaf m h s k"] hp len
    by (cases "rx_leaf m h s k = ?p") auto
  show "rx_tree m h'"
  proof (rule rx_treeI)
    show "h' (rx_root m) = Some (LeafRoots (case h (rx_root m) of Some (LeafRoots rts) \<Rightarrow> rts))"
      "length (case h (rx_root m) of Some (LeafRoots rts) \<Rightarrow> rts) = rx_R m"
      using root rx_treeD(1) [OF t] by auto
    show "h' (rx_mid m h' s) = Some (LeafRoots [rx_arr m h' s]) \<and> rx_arr m h' s \<noteq> 0
      \<and> (\<exists>ls. h' (rx_arr m h' s) = Some (LeafRoots ls) \<and> length ls = rx_M m)
      \<and> rx_mid m h' s \<noteq> rx_root m \<and> rx_arr m h' s \<noteq> rx_root m" if "rx_mid m h' s \<noteq> 0" for s
    proof -
      have ms: "rx_mid m h s \<noteq> 0" using that by (simp add: same)
      show ?thesis using rx_treeD(2-6) [OF t ms] mo [OF ms] unfolding same by simp
    qed
    show "rx_mid m h' s \<noteq> rx_arr m h' u \<and> (rx_mid m h' s = rx_mid m h' u \<longrightarrow> s = u)
        \<and> (rx_arr m h' s = rx_arr m h' u \<longrightarrow> s = u)"
      if "rx_mid m h' s \<noteq> 0" "rx_mid m h' u \<noteq> 0" for s u
      using that rx_treeD(7-9) [OF t, of s u] unfolding same by blast
    show "\<exists>hs. h' (rx_leaf m h' s k) = Some (HandleTable hs) \<and> length hs = rx_L m"
      if "rx_leaf m h' s k \<noteq> 0" for s k using that tab unfolding l' by blast
    show "s = u \<and> k = l" if "rx_leaf m h' s k \<noteq> 0" "rx_leaf m h' s k = rx_leaf m h' u l" for s k u l
      using that rx_treeD(11) [OF t, of s k u l] unfolding l' by blast
  qed
  show "rx_value m h' s k i = (if s = r \<and> k = j \<and> i = l then v else rx_value m h s k i)"
  proof (cases "s = r \<and> k = j")
    case True
    then show ?thesis using leaf hs hp l len by (simp add: rx_value_def lf nth_list_update)
  next
    case False
    then have "rx_leaf m h s k \<noteq> 0 \<Longrightarrow> rx_leaf m h s k \<noteq> ?p"
      using rx_treeD(11) [OF t, of s k r j] by blast
    then show ?thesis using False old by (auto simp: rx_value_def lf)
  qed
qed

section \<open>An assignment\<close>

text \<open>\<open>m'\<close> is \<open>m\<close> with other allocation counters.\<close>

definition rx_grown :: "baseline_radix \<Rightarrow> baseline_radix \<Rightarrow> bool" where
  "rx_grown m m' \<longleftrightarrow> (\<exists>a b. m' = m\<lparr>rx_allocated_middles := a, rx_allocated_leaves := b\<rparr>)"

lemma rx_grown_refl [simp]: "rx_grown m m"
  unfolding rx_grown_def by (intro exI [of _ "rx_allocated_middles m"] exI [of _ "rx_allocated_leaves m"]) simp

lemma rx_grown_upd [simp]:
  "rx_grown m (m\<lparr>rx_allocated_middles := a\<rparr>)" "rx_grown m (m\<lparr>rx_allocated_leaves := b\<rparr>)"
  unfolding rx_grown_def
   apply (intro exI [of _ a] exI [of _ "rx_allocated_leaves m"], simp)
  by (intro exI [of _ "rx_allocated_middles m"] exI [of _ b]) simp

lemma rx_grown_same:
  assumes "rx_grown m m'"
  shows "rx_mid m' = rx_mid m" "rx_arr m' = rx_arr m" "rx_leaf m' = rx_leaf m" "rx_value m' = rx_value m"
    "rx_config m' = rx_config m" "rx_entry_count m' = rx_entry_count m" "rx_leaf_count m' = rx_leaf_count m"
    "rx_middle_count m' = rx_middle_count m" "rx_root_count m' = rx_root_count m" "rx_root m' = rx_root m"
    "rx_inv A live fr m' = rx_inv A live fr m" "baseline_radix_indices m' = baseline_radix_indices m"
    "rx_shape m' = rx_shape m" "rx_leaf_bits m' = rx_leaf_bits m"
  using assms unfolding rx_grown_def
  by (auto simp: baseline_radix_indices_def fun_eq_iff Let_def split: option.split)

lemma rx_grown_trans: "rx_grown m m' \<Longrightarrow> rx_grown m' m'' \<Longrightarrow> rx_grown m m''"
  unfolding rx_grown_def by fastforce

text \<open>What a store keeps of another: every handle, and every leaf where it is.\<close>

definition rx_kept :: "baseline_radix \<Rightarrow> (u64 \<rightharpoonup> memx_object) \<Rightarrow> (u64 \<rightharpoonup> memx_object) \<Rightarrow> bool" where
  "rx_kept m h h' \<longleftrightarrow> (\<forall>r j. rx_leaf m h r j \<noteq> 0 \<longrightarrow> rx_leaf m h' r j = rx_leaf m h r j)
     \<and> (\<forall>r j l. l < rx_L m \<longrightarrow> rx_value m h' r j l = rx_value m h r j l)"

lemma rx_kept_refl [simp]: "rx_kept m h h"
  by (simp add: rx_kept_def)

lemma rx_kept_trans: "rx_kept m h h' \<Longrightarrow> rx_kept m h' h'' \<Longrightarrow> rx_kept m h h''"
  by (simp add: rx_kept_def)

lemma rx_read_mid:
  "rx_inv A live fr m w \<Longrightarrow> r < rx_R m \<Longrightarrow> read_root w (rx_root m) r = Some (rx_mid m (heap w) r)"
  using rx_treeD(1) [of m "heap w"] by (auto simp: rx_inv_def rx_mid_def word_at_def)

lemma rx_inv_heap: "rx_inv A live fr m w \<Longrightarrow> heap w' = heap w \<Longrightarrow> world_ok A live w' \<Longrightarrow> rx_inv A live fr m w'"
  by (simp add: rx_inv_def)

lemma rx_add_middle_inv:
  assumes inv: "rx_inv A live fr m w" and r: "r < rx_R m" and none: "rx_mid m (heap w) r = 0"
    and p: "p \<noteq> 0" "heap w p = None" and q: "q \<noteq> 0" "heap w q = None" "p \<noteq> q"
    and rts: "heap w (rx_root m) = Some (LeafRoots rts)"
    and h': "heap w' = (heap w)(p \<mapsto> LeafRoots [q], q \<mapsto> LeafRoots (replicate (rx_M m) 0),
        rx_root m \<mapsto> LeafRoots (rts[r := p]))"
    and ok: "world_ok A live w'"
  shows "rx_inv A live fr m w'" "rx_kept m (heap w) (heap w')" "rx_mid m (heap w') r = p"
proof -
  note add = rx_add_middle [OF rx_invD(3) [OF inv] r none p q rts h']
  have none': "rx_arr m (heap w) r = 0" "rx_leaf m (heap w) r j = 0" for j
    using none by (simp_all add: rx_arr_def rx_leaf_def)
  have bel: "rx_below m (heap w') s = (if s = r then {p, q} else rx_below m (heap w) s)" for s
    using p(1) q(1) none'(2) by (auto simp: rx_below_def add(1,2,3))
  have bn: "rx_below m (heap w) r = {}" using none none' by (simp add: rx_below_def)
  have self: "rx_self m \<noteq> p" "rx_self m \<noteq> q" "rx_self m \<noteq> rx_root m"
    using rx_invD(4) [OF inv] p q rts by auto
  have root: "rx_root m \<noteq> p" "rx_root m \<noteq> q" using rts p q by auto
  have frame: "fr x = (if x \<in> {rx_self m, rx_root m} \<or> (\<exists>s. x \<in> rx_below m (heap w') s) then None else heap w' x)" for x
  proof -
    have "(\<exists>s. x \<in> rx_below m (heap w') s) \<longleftrightarrow> x = p \<or> x = q \<or> (\<exists>s. x \<in> rx_below m (heap w) s)"
      unfolding bel using bn by (auto split: if_splits)
    then show ?thesis using rx_invD(5) [OF inv, of x] p(2) q(2) add(6) [of x] by auto
  qed
  have "heap w' (rx_self m) = Some (RawBlock sizeof_radix)"
    using add(6) [OF self] rx_invD(4) [OF inv] by simp
  then show "rx_inv A live fr m w'" unfolding rx_inv_def using ok rx_invD(2) [OF inv] add(4) frame by blast
  show "rx_kept m (heap w) (heap w')" by (simp add: rx_kept_def add(3,5))
  show "rx_mid m (heap w') r = p" by (simp add: add(1))
qed

lemma rx_add_leaf_inv:
  assumes inv: "rx_inv A live fr m w" and mid: "rx_mid m (heap w) r \<noteq> 0" and j: "j < rx_M m"
    and none: "rx_leaf m (heap w) r j = 0" and p: "p \<noteq> 0" "heap w p = None"
    and ls: "heap w (rx_arr m (heap w) r) = Some (LeafRoots ls)"
    and h': "heap w' = (heap w)(rx_arr m (heap w) r \<mapsto> LeafRoots (ls[j := p]),
        p \<mapsto> HandleTable (replicate (rx_L m) MEMX_HANDLE_INVALID))"
    and ok: "world_ok A live w'"
  shows "rx_inv A live fr m w'" "rx_kept m (heap w) (heap w')" "rx_leaf m (heap w') r j = p"
proof -
  let ?a = "rx_arr m (heap w) r"
  note t = rx_invD(3) [OF inv]
  note add = rx_add_leaf [OF t mid j none p ls h']
  have a0: "?a \<noteq> 0" by (rule rx_treeD(3) [OF t mid])
  have bel: "rx_below m (heap w') s = (if s = r then insert p (rx_below m (heap w) s) else rx_below m (heap w) s)" for s
    using p(1) none by (auto simp: rx_below_def add(1,2,3))
  have self: "rx_self m \<noteq> p" "rx_self m \<noteq> ?a" using rx_invD(4) [OF inv] p ls by auto
  have ain: "?a \<in> rx_below m (heap w) r" using a0 by (simp add: rx_below_def)
  have frame: "fr x = (if x \<in> {rx_self m, rx_root m} \<or> (\<exists>s. x \<in> rx_below m (heap w') s) then None else heap w' x)" for x
  proof -
    have "(\<exists>s. x \<in> rx_below m (heap w') s) \<longleftrightarrow> x = p \<or> (\<exists>s. x \<in> rx_below m (heap w) s)"
      unfolding bel by (auto split: if_splits)
    moreover have "x \<noteq> p \<Longrightarrow> \<not> (\<exists>s. x \<in> rx_below m (heap w) s) \<Longrightarrow> heap w' x = heap w x"
      using add(6) [of x] ain by blast
    ultimately show ?thesis
      using rx_invD(5) [OF inv, of x] p(2) by (cases "x = p") (simp_all split: if_splits)
  qed
  have "heap w' (rx_self m) = Some (RawBlock sizeof_radix)"
    using add(6) [OF self] rx_invD(4) [OF inv] by simp
  then show "rx_inv A live fr m w'" unfolding rx_inv_def using ok rx_invD(2) [OF inv] add(4) frame by blast
  show "rx_kept m (heap w) (heap w')" using none add(5) by (auto simp: rx_kept_def add(3))
  show "rx_leaf m (heap w') r j = p" by (simp add: add(3))
qed

text \<open>Each of the two allocating steps succeeds or leaves the map as it was.\<close>

lemma radix_middle_ok:
  assumes inv: "rx_inv A live fr m w" and r: "r < rx_R m"
  shows "\<exists>x m' w'. radix_middle A m r w = Some (x, m', w') \<and> rx_grown m m' \<and> rx_inv A live fr m' w'
    \<and> rx_kept m (heap w) (heap w') \<and> (x \<noteq> 0 \<longrightarrow> rx_mid m (heap w') r = x)"
proof -
  note rd = rx_read_mid [OF inv r]
  show ?thesis
  proof (cases "rx_mid m (heap w) r = 0")
    case False
    then have "radix_middle A m r w = Some (rx_mid m (heap w) r, m, w)" by (simp add: radix_middle_def rd)
    then show ?thesis
      by (intro exI [of _ "rx_mid m (heap w) r"] exI [of _ m] exI [of _ w]) (simp add: inv)
  next
    case True
    obtain rts where rts: "heap w (rx_root m) = Some (LeafRoots rts)" "length rts = rx_R m"
      using rx_treeD(1) [OF rx_invD(3) [OF inv]] by blast
    show ?thesis
    proof (rule c_calloc_cases [OF rx_invD(1) [OF inv], of 1], goal_cases)
      case (1 w1)
      have "radix_middle A m r w = Some (0, m, w1)" using True 1(1) by (simp add: radix_middle_def rd)
      then show ?case
        using rx_inv_heap [OF inv 1(2,3)] 1(2)
        by (intro exI [of _ 0] exI [of _ m] exI [of _ w1]) simp
    next
      case (2 p w1)
      have h1: "heap w1 = (heap w)(p \<mapsto> LeafRoots [0])" using 2(4) by simp
      show ?case
      proof (rule c_calloc_cases [OF 2(5), of "rx_middle_count m"], goal_cases)
        case (1 w2)
        have hp: "heap w2 p = Some (LeafRoots [0])" by (simp add: 1(2) h1)
        let ?w3 = "w2\<lparr>heap := (heap w2)(p \<mapsto> LeafRoots [0])\<rparr>"
        have wr: "write_root p 0 0 w2 = Some ?w3" using hp by (simp add: write_root_def)
        have e3: "?w3 = w2" using hp by (simp add: fun_upd_idem)
        obtain w4 where w4: "memx_deallocate A p w2 = Some w4" "heap w4 = (heap w2)(p := None)" "world_ok A live w4"
          by (rule memx_deallocate_ok [OF 1(3), of p]) (use hp in auto)
        have "heap w4 = heap w" using 2(3) by (simp add: w4(2) 1(2) h1 fun_upd_idem)
        moreover have "radix_middle A m r w = Some (0, m, w4)"
          using True 2(1,2) 1(1) wr w4(1) unfolding e3 by (simp add: radix_middle_def rd c_free_def)
        ultimately show ?case
          using rx_inv_heap [OF inv _ w4(3)]
          by (intro exI [of _ 0] exI [of _ m] exI [of _ w4]) simp
      next
        case 22: (2 q w2)
        have q: "heap w q = None" "p \<noteq> q" using 22(3) h1 by (auto split: if_splits)
        have hp: "heap w2 p = Some (LeafRoots [0])" using q(2) by (simp add: 22(4) h1)
        have pr: "p \<noteq> rx_root m" "q \<noteq> rx_root m" using rts(1) 2(3) q(1) by auto
        let ?w3 = "w2\<lparr>heap := (heap w2)(p \<mapsto> LeafRoots [q])\<rparr>"
        let ?w4 = "?w3\<lparr>heap := (heap ?w3)(rx_root m \<mapsto> LeafRoots (rts[r := p]))\<rparr>"
        let ?m = "m\<lparr>rx_allocated_middles := rx_allocated_middles m + 1\<rparr>"
        have s3: "write_root p 0 q w2 = Some ?w3" using hp by (simp add: write_root_def)
        have h3r: "heap ?w3 (rx_root m) = Some (LeafRoots rts)" using pr rts(1) by (simp add: 22(4) h1)
        have s4: "write_root (rx_root m) r p ?w3 = Some ?w4" using h3r rts(2) r by (simp add: write_root_def)
        have ok3: "world_ok A live ?w3" by (rule world_ok_heap_upd [OF 22(5)]) (simp add: hp)
        have ok4: "world_ok A live ?w4" by (rule world_ok_heap_upd [OF ok3]) (simp only: h3r, simp)
        have h4: "heap ?w4 = (heap w)(p \<mapsto> LeafRoots [q], q \<mapsto> LeafRoots (replicate (rx_M m) 0),
            rx_root m \<mapsto> LeafRoots (rts[r := p]))"
          using q(2) by (simp add: 22(4) h1 fun_eq_iff)
        note add = rx_add_middle_inv [OF inv r True 2(2,3) 22(2) q rts(1) h4 ok4]
        have "radix_middle A m r w = Some (p, ?m, ?w4)"
          using True 2(1,2) 22(1,2) s3 s4 by (simp add: radix_middle_def rd)
        then show ?case
          using add by (intro exI [of _ p] exI [of _ ?m] exI [of _ ?w4]) simp
      qed
    qed
  qed
qed

lemma rx_leaf_bytes:
  assumes "rx_shape m"
  shows "unat (rx_leaf_count m * 8) = 8 * rx_L m"
proof -
  have "(2 :: nat) ^ unat (rx_leaf_bits m) \<le> 2 ^ 21"
    using assms by (intro power_increasing) (auto simp: rx_shape_def)
  then have "rx_L m \<le> 2 ^ 21" using assms by (simp add: rx_shape_def)
  then show ?thesis by (subst unat_mult_exact) simp_all
qed

lemma radix_leaf_ok:
  assumes inv: "rx_inv A live fr m w" and mid: "rx_mid m (heap w) r \<noteq> 0" and j: "j < rx_M m"
  shows "\<exists>x m' w'. radix_leaf A m (rx_mid m (heap w) r) j w = Some (x, m', w') \<and> rx_grown m m'
    \<and> rx_inv A live fr m' w' \<and> rx_kept m (heap w) (heap w') \<and> (x \<noteq> 0 \<longrightarrow> rx_leaf m (heap w') r j = x)"
proof -
  note t = rx_invD(3) [OF inv]
  let ?mid = "rx_mid m (heap w) r" and ?a = "rx_arr m (heap w) r"
  have r0: "read_root w ?mid 0 = Some ?a" using rx_treeD(2) [OF t mid] by (simp add: read_root_def)
  obtain ls where ls: "heap w ?a = Some (LeafRoots ls)" "length ls = rx_M m"
    using rx_treeD(4) [OF t mid] by blast
  have lf: "rx_leaf m (heap w) r j = ls ! j"
    using rx_treeD(3) [OF t mid] ls j by (simp add: rx_leaf_def word_at_def)
  have rj: "read_root w ?a j = Some (ls ! j)" using ls j by simp
  show ?thesis
  proof (cases "ls ! j = 0")
    case False
    then have "radix_leaf A m ?mid j w = Some (ls ! j, m, w)" by (simp add: radix_leaf_def r0 rj)
    then show ?thesis
      by (intro exI [of _ "ls ! j"] exI [of _ m] exI [of _ w]) (simp add: inv lf)
  next
    case True
    have none: "rx_leaf m (heap w) r j = 0" using True lf by simp
    show ?thesis
    proof (rule call_allocate_cases [OF rx_invD(1) [OF inv], of "rx_leaf_count m * 8"], goal_cases)
      case (1 w1)
      have "ls[j := 0] = ls" using True by (metis list_update_id)
      then have "write_root ?a j 0 w1 = Some (w1\<lparr>heap := heap w1\<rparr>)"
        using ls j 1(2) by (simp add: write_root_def fun_upd_idem)
      then have "radix_leaf A m ?mid j w = Some (0, m, w1)"
        using True 1(1) by (simp add: radix_leaf_def r0 rj c_malloc_def)
      then show ?case
        using rx_inv_heap [OF inv 1(2,3)] 1(2)
        by (intro exI [of _ 0] exI [of _ m] exI [of _ w1]) simp
    next
      case (2 p w1)
      let ?tab = "HandleTable (replicate (rx_L m) MEMX_HANDLE_INVALID)"
      have pa: "p \<noteq> ?a" using 2(3) ls(1) by auto
      let ?w2 = "w1\<lparr>heap := (heap w1)(?a \<mapsto> LeafRoots (ls[j := p]))\<rparr>"
      let ?w3 = "?w2\<lparr>heap := (heap ?w2)(p \<mapsto> ?tab)\<rparr>"
      let ?m = "m\<lparr>rx_allocated_leaves := rx_allocated_leaves m + 1\<rparr>"
      have h1a: "heap w1 ?a = Some (LeafRoots ls)" using pa ls(1) by (simp add: 2(4))
      have s2: "write_root ?a j p w1 = Some ?w2" using h1a ls(2) j by (simp add: write_root_def)
      have s3: "init_object p ?tab ?w2 = Some ?w3"
        using pa rx_leaf_bytes [OF rx_invD(2) [OF inv]]
        by (intro init_object_ok [where n = "rx_leaf_count m * 8"]) (simp_all add: 2(4))
      have ok2: "world_ok A live ?w2" by (rule world_ok_heap_upd [OF 2(5)]) (simp add: h1a)
      have ok3: "world_ok A live ?w3" by (rule world_ok_heap_upd [OF ok2]) (simp add: 2(4) pa)
      have h3: "heap ?w3 = (heap w)(?a \<mapsto> LeafRoots (ls[j := p]), p \<mapsto> ?tab)"
        using pa by (auto simp: 2(4) fun_eq_iff)
      note add = rx_add_leaf_inv [OF inv mid j none 2(2,3) ls(1) h3 ok3]
      have "radix_leaf A m ?mid j w = Some (p, ?m, ?w3)"
        using True 2(1,2) s2 s3 by (simp add: radix_leaf_def r0 rj c_malloc_def baseline_fill_invalid_def)
      then show ?case
        using add by (intro exI [of _ p] exI [of _ ?m] exI [of _ ?w3]) simp
    qed
  qed
qed

section \<open>The contract\<close>

definition rx_ok ::
  "'c memx_allocator \<Rightarrow> ('c \<Rightarrow> u64 set) \<Rightarrow> (u64 \<rightharpoonup> memx_object)
     \<Rightarrow> baseline_radix \<times> 'c memx_world \<Rightarrow> bool" where
  "rx_ok A live fr s \<longleftrightarrow> rx_inv A live fr (fst s) (snd s)"

definition rx_cell :: "baseline_radix \<times> 'c memx_world \<Rightarrow> u64 \<Rightarrow> u64 option" where
  "rx_cell s a = baseline_index (rx_config (fst s)) (rx_entry_count (fst s)) a"

text \<open>The handle of entry \<open>i\<close>.\<close>

definition rx_at :: "baseline_radix \<Rightarrow> (u64 \<rightharpoonup> memx_object) \<Rightarrow> nat \<Rightarrow> u64" where
  "rx_at m h i = rx_value m h (i div (rx_M m * rx_L m)) (i div rx_L m mod rx_M m) (i mod rx_L m)"

definition rx_view :: "baseline_radix \<times> 'c memx_world \<Rightarrow> u64 \<Rightarrow> u64" where
  "rx_view s a =
     (case rx_cell s a of
        None \<Rightarrow> MEMX_HANDLE_INVALID | Some i \<Rightarrow> rx_at (fst s) (heap (snd s)) (unat i))"

definition rx_look :: "baseline_radix \<times> 'c memx_world \<Rightarrow> u64 \<Rightarrow> u64 option" where
  "rx_look s a = baseline_radix_lookup (Some (fst s)) a (snd s)"

definition rx_set ::
  "'c memx_allocator \<Rightarrow> u64 \<Rightarrow> u64 \<Rightarrow> baseline_radix \<times> 'c memx_world
     \<Rightarrow> (bool \<times> baseline_radix \<times> 'c memx_world) option" where
  "rx_set A a v s = do {
     (b, m, w) \<leftarrow> baseline_radix_set A (Some (fst s)) a v (snd s);
     m \<leftarrow> m;
     Some (b, (m, w))
   }"

lemma rx_no_index:
  "baseline_index (rx_config m) (rx_entry_count m) a = None \<Longrightarrow> baseline_radix_indices m a = None"
  by (simp add: baseline_radix_indices_def)

lemma rx_parts_eq:
  assumes "0 < (L :: nat)" "0 < M"
  shows "i div (M * L) = j div (M * L) \<and> i div L mod M = j div L mod M \<and> i mod L = j mod L \<longleftrightarrow> i = j"
proof
  assume e: "i div (M * L) = j div (M * L) \<and> i div L mod M = j div L mod M \<and> i mod L = j mod L"
  have "x div (M * L) = x div L div M" for x by (simp add: div_mult2_eq mult.commute)
  then have "i div L div M = j div L div M" using e by simp
  then have "i div L = j div L" using e by (metis div_mult_mod_eq)
  then show "i = j" using e by (metis div_mult_mod_eq)
qed simp

lemma rx_shape_pos: "rx_shape m \<Longrightarrow> 0 < rx_L m \<and> 0 < rx_M m"
  by (simp add: rx_shape_def)

lemma rx_read_leaf:
  assumes inv: "rx_inv A live fr m w" and leaf: "rx_leaf m (heap w) r j \<noteq> 0" and l: "l < rx_L m"
  shows "read_handle w (rx_leaf m (heap w) r j) l = Some (rx_value m (heap w) r j l)"
  using rx_treeD(10) [OF rx_invD(3) [OF inv] leaf] leaf l by (auto simp: rx_value_def)

lemma rx_look_view:
  assumes "rx_ok A live fr s"
  shows "rx_look s a = Some (rx_view s a)"
proof -
  obtain m w where s: "s = (m, w)" by fastforce
  have inv: "rx_inv A live fr m w" using assms by (simp add: s rx_ok_def)
  show ?thesis
  proof (cases "baseline_index (rx_config m) (rx_entry_count m) a")
    case None
    then show ?thesis
      by (simp add: s rx_look_def rx_view_def rx_cell_def baseline_radix_lookup_def rx_no_index)
  next
    case (Some i)
    from rx_split [OF rx_invD(2) [OF inv] Some] obtain ri mi li where
      ix: "baseline_radix_indices m a = Some (ri, mi, li, i)"
      "unat ri = unat i div (rx_M m * rx_L m)" "unat mi = unat i div rx_L m mod rx_M m"
      "unat li = unat i mod rx_L m" "unat ri < rx_R m" "unat mi < rx_M m" "unat li < rx_L m" by blast
    have "rx_view s a = rx_value m (heap w) (unat ri) (unat mi) (unat li)"
      using Some by (simp add: s rx_view_def rx_cell_def rx_at_def ix(2-4))
    moreover have "rx_look s a = Some (rx_value m (heap w) (unat ri) (unat mi) (unat li))"
    proof (cases "rx_leaf m (heap w) (unat ri) (unat mi) = 0")
      case True
      then show ?thesis
        using radix_find_leaf_ok [OF rx_invD(3) [OF inv] ix(5,6)]
        by (simp add: s rx_look_def baseline_radix_lookup_def ix(1) rx_value_def)
    next
      case False
      then show ?thesis
        using radix_find_leaf_ok [OF rx_invD(3) [OF inv] ix(5,6)] rx_read_leaf [OF inv False ix(7)]
        by (simp add: s rx_look_def baseline_radix_lookup_def ix(1))
    qed
    ultimately show ?thesis by simp
  qed
qed

text \<open>Keeping the leaves keeps the view.\<close>

lemma rx_kept_at: "rx_shape m \<Longrightarrow> rx_kept m h h' \<Longrightarrow> rx_at m h' i = rx_at m h i"
  by (simp add: rx_kept_def rx_at_def rx_shape_pos)

text \<open>
  What an assignment does: it keeps the tree and the frame, leaves every allocated leaf in place,
  and changes the view at its own granule, and there only, when it reports success.
\<close>

lemma baseline_radix_set_spec:
  assumes inv: "rx_inv A live fr m w"
  shows "\<exists>b m' w'. baseline_radix_set A (Some m) a v w = Some (b, Some m', w') \<and> rx_grown m m'
    \<and> rx_inv A live fr m' w'
    \<and> (\<forall>r j. rx_leaf m (heap w) r j \<noteq> 0 \<longrightarrow> rx_leaf m (heap w') r j = rx_leaf m (heap w) r j)
    \<and> (b \<longrightarrow> rx_cell (m, w) a \<noteq> None)
    \<and> (\<forall>i. rx_at m (heap w') (unat i) =
        (if b \<and> rx_cell (m, w) a = Some i then v else rx_at m (heap w) (unat i)))"
proof (cases "baseline_index (rx_config m) (rx_entry_count m) a")
  case None
  then have "baseline_radix_set A (Some m) a v w = Some (False, Some m, w)"
    by (simp add: baseline_radix_set_def rx_no_index)
  then show ?thesis using inv by (intro exI [of _ False] exI [of _ m] exI [of _ w]) simp
next
  case (Some i)
  note sh = rx_invD(2) [OF inv]
  from rx_split [OF sh Some] obtain ri mi li where
    ix: "baseline_radix_indices m a = Some (ri, mi, li, i)"
    "unat ri = unat i div (rx_M m * rx_L m)" "unat mi = unat i div rx_L m mod rx_M m"
    "unat li = unat i mod rx_L m" "unat ri < rx_R m" "unat mi < rx_M m" "unat li < rx_L m" by blast
  obtain x m1 w1 where 1: "radix_middle A m (unat ri) w = Some (x, m1, w1)" "rx_grown m m1"
    "rx_inv A live fr m1 w1" "rx_kept m (heap w) (heap w1)" "x \<noteq> 0 \<longrightarrow> rx_mid m (heap w1) (unat ri) = x"
    using radix_middle_ok [OF inv ix(5)] by blast
  note g1 = rx_grown_same [OF 1(2)]
  show ?thesis
  proof (cases "x = 0")
    case True
    then have "baseline_radix_set A (Some m) a v w = Some (False, Some m1, w1)"
      by (simp add: baseline_radix_set_def ix(1) 1(1))
    then show ?thesis
      using 1(2,3,4) rx_kept_at [OF sh 1(4)]
      by (intro exI [of _ False] exI [of _ m1] exI [of _ w1]) (simp add: rx_kept_def)
  next
    case False
    then have mid: "rx_mid m1 (heap w1) (unat ri) = x" "rx_mid m1 (heap w1) (unat ri) \<noteq> 0"
      using 1(5) by (simp_all add: g1)
    have j1: "unat mi < rx_M m1" using ix(6) by (simp add: g1)
    obtain y m2 w2 where 2: "radix_leaf A m1 x (unat mi) w1 = Some (y, m2, w2)" "rx_grown m1 m2"
      "rx_inv A live fr m2 w2" "rx_kept m1 (heap w1) (heap w2)"
      "y \<noteq> 0 \<longrightarrow> rx_leaf m1 (heap w2) (unat ri) (unat mi) = y"
      using radix_leaf_ok [OF 1(3) mid(2) j1] unfolding mid(1) by blast
    have k: "rx_kept m (heap w) (heap w2)"
      using 1(4) 2(4) rx_kept_trans by (force simp: rx_kept_def g1)
    have g: "rx_grown m m2" by (rule rx_grown_trans [OF 1(2) 2(2)])
    note g2 = rx_grown_same [OF g]
    show ?thesis
    proof (cases "y = 0")
      case True
      then have "baseline_radix_set A (Some m) a v w = Some (False, Some m2, w2)"
        using False 1(1) 2(1) by (simp add: baseline_radix_set_def ix(1))
      then show ?thesis
        using g 2(3) k rx_kept_at [OF sh k]
        by (intro exI [of _ False] exI [of _ m2] exI [of _ w2]) (simp add: rx_kept_def)
    next
      case y: False
      have leaf: "rx_leaf m2 (heap w2) (unat ri) (unat mi) = y" "rx_leaf m2 (heap w2) (unat ri) (unat mi) \<noteq> 0"
        using y 2(5) by (simp_all add: g1 g2)
      have l2: "unat li < rx_L m2" using ix(7) by (simp add: g2)
      note t2 = rx_invD(3) [OF 2(3)]
      obtain hs where hs: "heap w2 y = Some (HandleTable hs)" "length hs = rx_L m2"
        using rx_treeD(10) [OF t2 leaf(2)] unfolding leaf(1) by blast
      let ?w3 = "w2\<lparr>heap := (heap w2)(y \<mapsto> HandleTable (hs[unat li := v]))\<rparr>"
      have s3: "write_handle y (unat li) v w2 = Some ?w3" using hs l2 by (simp add: write_handle_def)
      have h3: "heap ?w3 = (heap w2)(y \<mapsto> HandleTable (hs[unat li := v]))" by simp
      note wr = rx_write [OF t2 leaf(2) l2, unfolded leaf(1), OF hs(1) h3]
      have ok3: "world_ok A live ?w3" by (rule world_ok_heap_upd [OF rx_invD(1) [OF 2(3)]]) (simp add: hs)
      have bel: "rx_below m2 (heap ?w3) s = rx_below m2 (heap w2) s" for s by (simp only: rx_below_def wr(1-3))
      have yin: "y \<in> rx_below m2 (heap w2) (unat ri)" using leaf y by (auto simp: rx_below_def)
      have ys: "rx_self m2 \<noteq> y" "rx_root m2 \<noteq> y"
        using hs(1) rx_invD(4) [OF 2(3)] rx_treeD(1) [OF t2] by auto
      have frame: "fr q = (if q \<in> {rx_self m2, rx_root m2} \<or> (\<exists>r. q \<in> rx_below m2 (heap ?w3) r) then None
          else heap ?w3 q)" for q
        unfolding bel using rx_invD(5) [OF 2(3), of q] yin by (cases "q = y") auto
      have inv3: "rx_inv A live fr m2 ?w3"
        unfolding rx_inv_def using ok3 rx_invD(2) [OF 2(3)] wr(4) frame ys rx_invD(4) [OF 2(3)] by simp
      have run: "baseline_radix_set A (Some m) a v w = Some (True, Some m2, ?w3)"
        using False 1(1) 2(1) y s3 by (simp add: baseline_radix_set_def ix(1))
      have at: "rx_at m (heap ?w3) (unat k) = (if rx_cell (m, w) a = Some k then v else rx_at m (heap w) (unat k))" for k
      proof -
        have "rx_at m (heap ?w3) (unat k) = (if unat k = unat i then v else rx_at m (heap w2) (unat k))"
          using wr(5) rx_parts_eq [of "rx_L m" "rx_M m" "unat k" "unat i"] rx_shape_pos [OF sh]
          unfolding rx_at_def g2 ix(2-4) by simp
        then show ?thesis using Some rx_kept_at [OF sh k] by (auto simp: rx_cell_def unat_eq_iff)
      qed
      show ?thesis
        using run g inv3 k wr(3) at Some
        by (intro exI [of _ True] exI [of _ m2] exI [of _ ?w3]) (simp add: rx_kept_def g2 rx_cell_def)
    qed
  qed
qed

lemma rx_set_law:
  assumes ok: "rx_ok A live fr s"
  shows "\<exists>b s'. rx_set A a v s = Some (b, s') \<and> rx_ok A live fr s' \<and> rx_cell s' = rx_cell s
    \<and> (b \<longrightarrow> rx_cell s a \<noteq> None)
    \<and> rx_view s' = (\<lambda>x. if b \<and> rx_cell s x = rx_cell s a then v else rx_view s x)"
proof -
  obtain m w where s: "s = (m, w)" by fastforce
  have inv: "rx_inv A live fr m w" using ok by (simp add: s rx_ok_def)
  obtain b m' w' where st: "baseline_radix_set A (Some m) a v w = Some (b, Some m', w')" "rx_grown m m'"
    "rx_inv A live fr m' w'" "b \<longrightarrow> rx_cell (m, w) a \<noteq> None"
    "\<forall>i. rx_at m (heap w') (unat i) = (if b \<and> rx_cell (m, w) a = Some i then v else rx_at m (heap w) (unat i))"
    using baseline_radix_set_spec [OF inv, of a v] by blast
  note g = rx_grown_same [OF st(2)]
  have c: "rx_cell (m', w') = rx_cell (m, w)" by (simp add: rx_cell_def fun_eq_iff g)
  have at: "rx_at m' (heap w') = rx_at m (heap w')" by (simp add: rx_at_def fun_eq_iff g)
  have "rx_view (m', w') x = (if b \<and> rx_cell s x = rx_cell s a then v else rx_view s x)" for x
    using st(4,5) by (auto simp: rx_view_def c s at split: option.split)
  moreover have "rx_set A a v s = Some (b, (m', w'))" using st(1) by (simp add: s rx_set_def)
  ultimately show ?thesis
    using st(3,4) c by (intro exI [of _ b] exI [of _ "(m', w')"]) (simp add: s rx_ok_def fun_eq_iff)
qed

interpretation radix: point_map "rx_ok A live fr" rx_view rx_look rx_cell "rx_set A"
    for A :: "'c memx_allocator" and live fr
proof
  show "rx_look s a = Some (rx_view s a)" if "rx_ok A live fr s" for s a by (rule rx_look_view [OF that])
  show "\<exists>b s'. rx_set A a v s = Some (b, s') \<and> rx_ok A live fr s' \<and> rx_cell s' = rx_cell s
      \<and> (b \<longrightarrow> rx_cell s a \<noteq> None)
      \<and> rx_view s' = (\<lambda>x. if b \<and> rx_cell s x = rx_cell s a then v else rx_view s x)"
    if "rx_ok A live fr s" for s a v by (rule rx_set_law [OF that])
qed (simp add: rx_view_def)

section \<open>Destruction\<close>

lemma rx_belowD:
  assumes t: "rx_tree m h" and x: "x \<in> rx_below m h r"
  shows "x \<noteq> 0" "rx_mid m h r \<noteq> 0" "h x \<noteq> None" "x \<noteq> rx_root m" "h x \<noteq> Some (RawBlock n)"
proof -
  show "x \<noteq> 0" "rx_mid m h r \<noteq> 0"
    using x rx_leaf_mid rx_arr_mid unfolding rx_below_def by blast+
  note mid = this(2)
  consider "x = rx_mid m h r" | "x = rx_arr m h r" | j where "x = rx_leaf m h r j" "rx_leaf m h r j \<noteq> 0"
    using x unfolding rx_below_def by blast
  then have "h x \<noteq> None \<and> x \<noteq> rx_root m \<and> h x \<noteq> Some (RawBlock n)"
  proof cases
    case 1
    then show ?thesis
      using rx_treeD(2,5) [OF t mid] by simp
  next
    case 2
    then show ?thesis
      using rx_treeD(4,6) [OF t mid] by auto
  next
    case 3
    then show ?thesis
      using rx_treeD(10) [OF t 3(2)] rx_leaf_root(2) [OF t 3(2)] by auto
  qed
  then show "h x \<noteq> None" "x \<noteq> rx_root m" "h x \<noteq> Some (RawBlock n)" by blast+
qed

lemma rx_below_disjoint:
  assumes t: "rx_tree m h" and x: "x \<in> rx_below m h r" "x \<in> rx_below m h s"
  shows "r = s"
proof -
  note m = rx_belowD(2) [OF t x(1)] rx_belowD(2) [OF t x(2)]
  have z: "x \<noteq> 0" by (rule rx_belowD(1) [OF t x(1)])
  have c: "x = rx_mid m h q \<or> x = rx_arr m h q \<or> (\<exists>j. x = rx_leaf m h q j)" if "x \<in> rx_below m h q" for q
    using that by (simp add: rx_below_def)
  have n: "rx_leaf m h a j = x \<Longrightarrow> rx_mid m h b \<noteq> 0 \<Longrightarrow> x \<noteq> rx_mid m h b \<and> x \<noteq> rx_arr m h b" for a j b
    using rx_leaf_root(3) [OF t, of a j b] z by auto
  consider (leaf) j where "x = rx_leaf m h r j" | (node) "x = rx_mid m h r \<or> x = rx_arr m h r"
    using c [OF x(1)] by blast
  then show ?thesis
  proof cases
    case (leaf j)
    then obtain k where "x = rx_leaf m h s k" using c [OF x(2)] n [OF leaf [symmetric] m(2)] by blast
    then show ?thesis using leaf z rx_treeD(11) [OF t, of r j s k] by simp
  next
    case node
    have "\<not> (\<exists>k. x = rx_leaf m h s k)" using node n [OF _ m(1)] by blast
    then have "x = rx_mid m h s \<or> x = rx_arr m h s" using c [OF x(2)] by blast
    with node rx_treeD(7) [OF t m] rx_treeD(7) [OF t m(2,1)] rx_treeD(8) [OF t m(1)] rx_treeD(9) [OF t m]
    show ?thesis by (elim disjE) simp_all
  qed
qed

text \<open>Freeing what is below one slot.\<close>

lemma rx_free_slot:
  assumes t: "rx_tree m h" and mid: "rx_mid m h i \<noteq> 0"
    and ok: "world_ok A live w" and same: "\<And>x. x \<in> rx_below m h i \<Longrightarrow> heap w x = h x"
  shows "\<exists>w1 w2 w3. read_root w (rx_mid m h i) 0 = Some (rx_arr m h i)
    \<and> free_leaves A (rx_arr m h i) 0 (rx_M m) w = Some w1 \<and> c_free A (rx_arr m h i) w1 = Some w2
    \<and> c_free A (rx_mid m h i) w2 = Some w3 \<and> world_ok A live w3
    \<and> heap w3 = (\<lambda>x. if x \<in> rx_below m h i then None else heap w x)"
proof -
  let ?mid = "rx_mid m h i" and ?a = "rx_arr m h i"
  have a0: "?a \<noteq> 0" by (rule rx_treeD(3) [OF t mid])
  have b: "?mid \<in> rx_below m h i" "?a \<in> rx_below m h i" using mid a0 by (simp_all add: rx_below_def)
  have rd: "read_root w ?mid 0 = Some ?a"
    using rx_treeD(2) [OF t mid] same [OF b(1)] by (simp add: read_root_def)
  obtain ls where ls: "h ?a = Some (LeafRoots ls)" "length ls = rx_M m"
    using rx_treeD(4) [OF t mid] by blast
  have lf: "rx_leaf m h i k = (if k < rx_M m then ls ! k else 0)" for k
    using a0 ls by (simp add: rx_leaf_def word_at_def)
  have lv: "heap w (ls ! k) \<noteq> None \<and> ls ! k \<noteq> ?a" if "k < rx_M m" "ls ! k \<noteq> 0" for k
  proof -
    have l: "rx_leaf m h i k \<noteq> 0" "rx_leaf m h i k = ls ! k" using that by (simp_all add: lf)
    have "ls ! k \<in> rx_below m h i" using l(1) unfolding rx_below_def l(2) [symmetric] by blast
    then show ?thesis using same [of "ls ! k"] rx_leaf_root(1,3) [OF t l(1)] mid unfolding l(2) by metis
  qed
  have inj: "k = l" if "k < rx_M m" "l < rx_M m" "ls ! k \<noteq> 0" "ls ! k = ls ! l" for k l
    using rx_treeD(11) [OF t, of i k i l] that by (simp add: lf)
  have ha: "heap w ?a = Some (LeafRoots ls)" using same [OF b(2)] ls(1) by simp
  have "\<exists>w1. free_leaves A ?a 0 (length ls) w = Some w1 \<and> world_ok A live w1
      \<and> heap w1 = (\<lambda>q. if q \<noteq> 0 \<and> (\<exists>r. 0 \<le> r \<and> r < 0 + length ls \<and> ls ! r = q) then None else heap w q)"
    by (rule free_leaves_ok [OF ok ha]) (use lv inj ls(2) in auto)
  then obtain w1 where w1: "free_leaves A ?a 0 (rx_M m) w = Some w1" "world_ok A live w1"
    "heap w1 = (\<lambda>q. if q \<noteq> 0 \<and> (\<exists>r < rx_M m. ls ! r = q) then None else heap w q)"
    by (auto simp: ls(2))
  have "\<not> (\<exists>r < rx_M m. ls ! r = ?a)" using lv a0 by metis
  then have "heap w1 ?a \<noteq> None" using ha by (simp add: w1(3))
  then obtain w2 where w2: "memx_deallocate A ?a w1 = Some w2" "heap w2 = (heap w1)(?a := None)"
    "world_ok A live w2" by (rule memx_deallocate_ok [OF w1(2)])
  have ml: "ls ! k \<noteq> ?mid" if "k < rx_M m" "ls ! k \<noteq> 0" for k
    using rx_leaf_root(3) [OF t _ mid, of i k] that by (simp add: lf)
  have ma: "?mid \<noteq> ?a" by (rule rx_treeD(7) [OF t mid mid])
  have "\<not> (\<exists>r < rx_M m. ls ! r = ?mid)" using ml mid by metis
  then have "heap w2 ?mid \<noteq> None"
    using ma same [OF b(1)] rx_treeD(2) [OF t mid] by (simp add: w2(2) w1(3))
  then obtain w3 where w3: "memx_deallocate A ?mid w2 = Some w3" "heap w3 = (heap w2)(?mid := None)"
    "world_ok A live w3" by (rule memx_deallocate_ok [OF w2(3)])
  have "x \<in> rx_below m h i \<longleftrightarrow> x = ?mid \<or> x = ?a \<or> x \<noteq> 0 \<and> (\<exists>r < rx_M m. ls ! r = x)" for x
    using mid a0 by (auto simp: rx_below_def lf)
  then have "heap w3 = (\<lambda>x. if x \<in> rx_below m h i then None else heap w x)"
    by (auto simp: w3(2) w2(2) w1(3) fun_eq_iff)
  then show ?thesis using rd w1(1) w2(1) w3(1,3) a0 mid by (auto simp: c_free_def)
qed

text \<open>The loop over the root: the slots before \<open>i\<close> are freed.\<close>

lemma free_middles_ok:
  "rx_tree m h \<Longrightarrow> i + n = rx_R m \<Longrightarrow> world_ok A live w \<Longrightarrow>
   heap w = (\<lambda>x. if \<exists>s < i. x \<in> rx_below m h s then None else h x) \<Longrightarrow>
   \<exists>w'. free_middles A m i n w = Some w' \<and> world_ok A live w'
     \<and> heap w' = (\<lambda>x. if \<exists>s < rx_R m. x \<in> rx_below m h s then None else h x)"
proof (induction n arbitrary: i w)
  case 0
  then show ?case by simp
next
  case (Suc n)
  note t = Suc.prems(1)
  obtain rts where rts: "h (rx_root m) = Some (LeafRoots rts)" "length rts = rx_R m"
    using rx_treeD(1) [OF t] by blast
  have "\<not> (\<exists>s < i. rx_root m \<in> rx_below m h s)" using rx_belowD(4) [OF t] by blast
  then have rd: "read_root w (rx_root m) i = Some (rx_mid m h i)"
    using rts Suc.prems(2) by (simp add: Suc.prems(4) read_root_def rx_mid_def word_at_def)
  have lt: "(\<exists>s < Suc i. x \<in> rx_below m h s) \<longleftrightarrow> x \<in> rx_below m h i \<or> (\<exists>s < i. x \<in> rx_below m h s)" for x
    by (auto simp: less_Suc_eq)
  show ?case
  proof (cases "rx_mid m h i = 0")
    case True
    then have "rx_below m h i = {}" using rx_belowD(2) [OF t] by blast
    then have "\<exists>w'. free_middles A m (Suc i) n w = Some w' \<and> world_ok A live w'
        \<and> heap w' = (\<lambda>x. if \<exists>s < rx_R m. x \<in> rx_below m h s then None else h x)"
      using Suc.prems by (intro Suc.IH) (simp_all add: lt)
    then show ?thesis using rd True by simp
  next
    case False
    have same: "heap w x = h x" if "x \<in> rx_below m h i" for x
      using rx_below_disjoint [OF t that] by (auto simp: Suc.prems(4))
    obtain w1 w2 w3 where w: "read_root w (rx_mid m h i) 0 = Some (rx_arr m h i)"
      "free_leaves A (rx_arr m h i) 0 (rx_M m) w = Some w1" "c_free A (rx_arr m h i) w1 = Some w2"
      "c_free A (rx_mid m h i) w2 = Some w3" "world_ok A live w3"
      "heap w3 = (\<lambda>x. if x \<in> rx_below m h i then None else heap w x)"
      using rx_free_slot [OF t False Suc.prems(3) same] by blast
    have "\<exists>w'. free_middles A m (Suc i) n w3 = Some w' \<and> world_ok A live w'
        \<and> heap w' = (\<lambda>x. if \<exists>s < rx_R m. x \<in> rx_below m h s then None else h x)"
      using Suc.prems w by (intro Suc.IH) (auto simp: lt fun_eq_iff)
    then show ?thesis using rd False w by simp
  qed
qed

lemma baseline_radix_destroy_spec:
  assumes inv: "rx_inv A live fr m w"
  shows "\<exists>w'. baseline_radix_destroy A (Some m) w = Some w' \<and> heap w' = fr \<and> world_ok A live w'"
proof -
  note t = rx_invD(3) [OF inv]
  obtain rts where rts: "heap w (rx_root m) = Some (LeafRoots rts)" "length rts = rx_R m"
    using rx_treeD(1) [OF t] by blast
  have self: "heap w (rx_self m) = Some (RawBlock sizeof_radix)" by (rule rx_invD(4) [OF inv])
  have z: "heap w 0 = None" using rx_invD(1) [OF inv] by (simp add: world_ok_def)
  obtain w1 where w1: "free_middles A m 0 (rx_R m) w = Some w1" "world_ok A live w1"
    "heap w1 = (\<lambda>x. if \<exists>s < rx_R m. x \<in> rx_below m (heap w) s then None else heap w x)"
    using free_middles_ok [OF t, of 0 "rx_R m" A live w] rx_invD(1) [OF inv] by auto
  have out: "s < rx_R m" if "x \<in> rx_below m (heap w) s" for x s
    using rx_belowD(2) [OF t that] rts by (auto simp: rx_mid_def word_at_def split: if_splits)
  have h1: "heap w1 = (\<lambda>x. if \<exists>s. x \<in> rx_below m (heap w) s then None else heap w x)"
    using out by (auto simp: w1(3) fun_eq_iff)
  have nb: "\<not> (\<exists>s. rx_root m \<in> rx_below m (heap w) s)" "\<not> (\<exists>s. rx_self m \<in> rx_below m (heap w) s)"
    using rx_belowD(4) [OF t] rx_belowD(5) [OF t, of "rx_self m"] self by blast+
  have sr: "rx_self m \<noteq> rx_root m" "rx_root m \<noteq> 0" "rx_self m \<noteq> 0" using self rts z by auto
  have "heap w1 (rx_root m) \<noteq> None" using nb rts by (simp add: h1)
  then obtain w2 where w2: "memx_deallocate A (rx_root m) w1 = Some w2" "heap w2 = (heap w1)(rx_root m := None)"
    "world_ok A live w2" by (rule memx_deallocate_ok [OF w1(2)])
  have "heap w2 (rx_self m) \<noteq> None" using nb self sr by (simp add: w2(2) h1)
  then obtain w3 where w3: "memx_deallocate A (rx_self m) w2 = Some w3" "heap w3 = (heap w2)(rx_self m := None)"
    "world_ok A live w3" by (rule memx_deallocate_ok [OF w2(3)])
  have "heap w3 = fr"
    by (rule ext) (simp add: w3(2) w2(2) h1 rx_invD(5) [OF inv])
  then show ?thesis using w1(1) w2(1) w3(1,3) sr by (simp add: baseline_radix_destroy_def c_free_def)
qed

section \<open>Creation\<close>

lemma rx_geometry:
  assumes c: "0 < unat (count :: u64)" and b: "bits = count_bits 0 (unat (count - 1))"
    and lb: "lb = bits div 3" and rb: "rb = bits - lb - lb"
    and lc: "lc = push_bit (unat lb) (1 :: u64)" and rc: "rc = push_bit (unat rb) (1 :: u64)"
  shows "unat lb \<le> 21" "unat lc = 2 ^ unat lb" "unat count \<le> unat rc * (unat lc * unat lc)"
proof -
  have "unat (count - 1) < 2 ^ 64" using unsigned_less [of "count - 1"] by simp
  from count_bits_spec [OF this, of 0] obtain n where n: "n \<le> 64" "unat bits = n" "unat (count - 1) < 2 ^ n"
    by (auto simp: b)
  have l: "unat lb = n div 3" by (simp add: lb unat_div n(2))
  then show l21: "unat lb \<le> 21" using n(1) by linarith
  have s1: "unat (bits - lb) = n - n div 3"
    using l n(2) by (subst unat_sub) (simp_all add: word_le_nat_alt)
  have r: "unat rb = n - n div 3 - n div 3"
    unfolding rb using l s1 by (subst unat_sub) (simp_all add: word_le_nat_alt)
  have "unat lb < 64" using l21 by linarith
  then show L: "unat lc = 2 ^ unat lb" by (simp add: lc unat_pow2)
  have "unat rb < 64" using r n(1) by linarith
  then have R: "unat rc = 2 ^ unat rb" by (simp add: rc unat_pow2)
  have "unat rb + (unat lb + unat lb) = n" using r l by linarith
  then have "unat rc * (unat lc * unat lc) = 2 ^ n" by (simp only: R L power_add [symmetric])
  moreover have "unat (count - 1) = unat count - 1" using c by (intro unat_minus_one) auto
  ultimately show "unat count \<le> unat rc * (unat lc * unat lc)" using n(3) c by linarith
qed

lemma baseline_radix_create_spec:
  assumes ok: "world_ok A live w"
  obtains (fail) w' where "baseline_radix_create A input w = Some (None, w')" "heap w' = heap w"
    | (good) m w' where "baseline_radix_create A input w = Some (Some m, w')"
      "rx_inv A live (heap w) m w'" "rx_view (m, w') = (\<lambda>a. MEMX_HANDLE_INVALID)"
      "input = Some (rx_config m)" "baseline_config_valid input = Some (rx_entry_count m)"
proof (cases "baseline_config_valid input")
  case None
  then show thesis using fail by (simp add: baseline_radix_create_def)
next
  case (Some count)
  then obtain cfg where inp: "input = Some cfg" by (cases input) (auto simp: baseline_config_valid_def)
  have bok: "baseline_ok cfg count" using Some by (simp add: baseline_ok_def inp)
  note f = baseline_ok_facts [OF bok]
  define bits where "bits = count_bits 0 (unat (count - 1))"
  define lb where "lb = bits div 3"
  define rb where "rb = bits - lb - lb"
  define lc :: u64 where "lc = push_bit (unat lb) 1"
  define rc :: u64 where "rc = push_bit (unat rb) 1"
  note geo = rx_geometry [OF f(2) bits_def lb_def rb_def lc_def rc_def]
  note unf = bits_def [symmetric] lb_def [symmetric] rb_def [symmetric] lc_def [symmetric] rc_def [symmetric]
  let ?m = "\<lambda>p root. \<lparr>rx_self = p, rx_config = cfg, rx_entry_count = count,
      rx_leaf_bits = lb, rx_middle_bits = lb, rx_root_bits = rb, rx_leaf_count = lc, rx_middle_count = lc,
      rx_root_count = rc, rx_allocated_middles = 0, rx_allocated_leaves = 0, rx_root = root\<rparr>"
  show thesis
  proof (rule call_allocate_cases [OF ok, of sizeof_radix], goal_cases)
    case (1 w1)
    then have "baseline_radix_create A input w = Some (None, w1)"
      using Some by (simp add: baseline_radix_create_def inp c_malloc_def)
    then show thesis by (rule fail) (rule 1(2))
  next
    case (2 p w1)
    have run1: "baseline_radix_create A input w = do {
        (root, w) \<leftarrow> c_calloc_words A rc w1;
        if root = 0 then do { w \<leftarrow> c_free A p w; Some (None, w) }
        else Some (Some (?m p root), w) }"
      using Some 2(1,2) unfolding baseline_radix_create_def inp c_malloc_def
      by (simp only: option.case bind.bind_lunit Let_def prod.case if_False unf)
    show thesis
    proof (rule c_calloc_cases [OF 2(5), of rc], goal_cases)
      case (1 w2)
      have "heap w2 p \<noteq> None" using 1(2) 2(4) by simp
      then obtain w3 where w3: "memx_deallocate A p w2 = Some w3" "heap w3 = (heap w2)(p := None)"
        by (rule memx_deallocate_ok [OF 1(3)])
      have "baseline_radix_create A input w = Some (None, w3)"
        using run1 1(1) w3(1) 2(2) by (simp add: c_free_def)
      then show thesis by (rule fail) (use w3(2) 1(2) 2(3,4) in \<open>simp add: fun_upd_idem\<close>)
    next
      case (2 root w2)
      note p = \<open>heap w1 = (heap w)(p \<mapsto> RawBlock sizeof_radix)\<close> \<open>heap w p = None\<close>
      let ?M = "?m p root"
      have run: "baseline_radix_create A input w = Some (Some ?M, w2)" using run1 2(1,2) by simp
      have rp: "root \<noteq> p" "heap w root = None" using 2(3) p(1) by (auto split: if_splits)
      have root: "heap w2 root = Some (LeafRoots (replicate (unat rc) 0))" by (simp add: 2(4))
      have mid: "rx_mid ?M (heap w2) r = 0" for r by (simp add: rx_mid_def word_at_def root)
      have arr: "rx_arr ?M (heap w2) r = 0" for r by (simp add: rx_arr_def mid)
      have leaf: "rx_leaf ?M (heap w2) r j = 0" for r j by (simp add: rx_leaf_def arr)
      have tree: "rx_tree ?M (heap w2)" by (simp add: rx_tree_def mid leaf root)
      have sh: "rx_shape ?M" using bok geo by (simp add: rx_shape_def)
      have bel: "rx_below ?M (heap w2) r = {}" for r by (simp add: rx_below_def mid arr leaf)
      have fr: "heap w q = (if q \<in> {rx_self ?M, rx_root ?M} \<or> (\<exists>r. q \<in> rx_below ?M (heap w2) r) then None
          else heap w2 q)" for q
        unfolding bel using rp p by (simp add: 2(4))
      have "heap w2 (rx_self ?M) = Some (RawBlock sizeof_radix)" using rp p by (simp add: 2(4))
      then have inv: "rx_inv A live (heap w) ?M w2" unfolding rx_inv_def using 2(5) sh tree fr by blast
      have view: "rx_view (?M, w2) = (\<lambda>a. MEMX_HANDLE_INVALID)"
        by (simp add: rx_view_def rx_at_def rx_value_def leaf fun_eq_iff split: option.split)
      show thesis by (rule good [OF run inv view]) (simp_all add: inp Some [unfolded inp])
    qed
  qed
qed

section \<open>The leaf cache is coherent\<close>

text \<open>Every cached pointer is the leaf of its key in the tree.\<close>

definition cache_coherent :: "baseline_radix \<Rightarrow> (u64 \<rightharpoonup> memx_object) \<Rightarrow> baseline_radix_cache \<Rightarrow> bool" where
  "cache_coherent m h entries \<longleftrightarrow> length entries = 16 \<and>
     (\<forall>(key, leaf) \<in> set entries. leaf \<noteq> 0 \<longrightarrow>
        leaf = rx_leaf m h (unat key div rx_M m) (unat key mod rx_M m))"

lemma cache_init_coherent: "baseline_radix_cache_init (Some c) = Some e \<Longrightarrow> cache_coherent m h e"
  by (auto simp: baseline_radix_cache_init_def cache_coherent_def)

lemma cache_coherent_grown: "rx_grown m m' \<Longrightarrow> cache_coherent m' h e = cache_coherent m h e"
  by (simp add: cache_coherent_def rx_grown_same)

lemma cache_coherent_kept:
  "cache_coherent m h e \<Longrightarrow> \<forall>r j. rx_leaf m h r j \<noteq> 0 \<longrightarrow> rx_leaf m h' r j = rx_leaf m h r j \<Longrightarrow>
   cache_coherent m h' e"
  unfolding cache_coherent_def by fastforce

lemma baseline_radix_cached_lookup_spec:
  assumes inv: "rx_inv A live fr m w" and c: "cache_coherent m (heap w) e"
  shows "\<exists>h e'. baseline_radix_cached_lookup (Some m) (Some e) a w = Some (h, Some e')
    \<and> baseline_radix_lookup (Some m) a w = Some h \<and> cache_coherent m (heap w) e'"
proof (cases "baseline_index (rx_config m) (rx_entry_count m) a")
  case None
  then show ?thesis
    using c by (simp add: baseline_radix_cached_lookup_def baseline_radix_lookup_def rx_no_index)
next
  case (Some i)
  note sh = rx_invD(2) [OF inv]
  from rx_split [OF sh Some] obtain ri mi li where
    ix: "baseline_radix_indices m a = Some (ri, mi, li, i)"
    "unat ri = unat i div (rx_M m * rx_L m)" "unat mi = unat i div rx_L m mod rx_M m"
    "unat li = unat i mod rx_L m" "unat ri < rx_R m" "unat mi < rx_M m" "unat li < rx_L m" by blast
  let ?key = "drop_bit (unat (rx_leaf_bits m)) i" and ?leaf = "rx_leaf m (heap w) (unat ri) (unat mi)"
  let ?slot = "unat (?key AND 15)"
  have L: "rx_L m = 2 ^ unat (rx_leaf_bits m)" using sh by (simp add: rx_shape_def)
  have key: "unat ?key div rx_M m = unat ri" "unat ?key mod rx_M m = unat mi"
    by (simp_all only: ix(2,3) unat_drop L div_mult2_eq [symmetric] mult.commute)
  have len: "length e = 16" using c by (simp add: cache_coherent_def)
  have slot: "?slot < 16"
  proof -
    have "?key AND 15 = ?key AND mask 4" by (simp add: mask_eq_exp_minus_1)
    then show ?thesis by (simp add: unat_and_mask)
  qed
  have find: "radix_find_leaf m (unat ri) (unat mi) w = Some ?leaf"
    by (rule radix_find_leaf_ok [OF rx_invD(3) [OF inv] ix(5,6)])
  have rd: "read_handle w ?leaf (unat li) = Some (rx_value m (heap w) (unat ri) (unat mi) (unat li))"
    if "?leaf \<noteq> 0" by (rule rx_read_leaf [OF inv that ix(7)])
  show ?thesis
  proof (cases "fst (e ! ?slot) = ?key \<and> snd (e ! ?slot) \<noteq> 0")
    case True
    have "(fst (e ! ?slot), snd (e ! ?slot)) \<in> set e" using slot len by simp
    then have hit: "snd (e ! ?slot) = ?leaf" using c True key unfolding cache_coherent_def by fastforce
    then have l0: "?leaf \<noteq> 0" using True by simp
    show ?thesis
      using True hit l0 rd [OF l0] find c len
      by (simp add: baseline_radix_cached_lookup_def baseline_radix_lookup_def ix(1) Let_def)
  next
    case miss: False
    have run: "baseline_radix_cached_lookup (Some m) (Some e) a w = do {
        h \<leftarrow> (if ?leaf = 0 then Some MEMX_HANDLE_INVALID else read_handle w ?leaf (unat li));
        Some (h, Some (if ?leaf \<noteq> 0 then e[?slot := (?key, ?leaf)] else e)) }"
      unfolding baseline_radix_cached_lookup_def option.case ix(1) prod.case Let_def if_not_P [OF miss]
      using len find by simp
    have "cache_coherent m (heap w) (e[?slot := (?key, ?leaf)])"
    proof -
      have "leaf = rx_leaf m (heap w) (unat k div rx_M m) (unat k mod rx_M m)"
        if "(k, leaf) \<in> set (e[?slot := (?key, ?leaf)])" "leaf \<noteq> 0" for k leaf
      proof -
        from that(1) set_update_subset_insert [of e ?slot "(?key, ?leaf)"]
        have "(k, leaf) = (?key, ?leaf) \<or> (k, leaf) \<in> set e" by blast
        then show ?thesis using c that(2) key unfolding cache_coherent_def by auto
      qed
      then show ?thesis using len by (auto simp: cache_coherent_def)
    qed
    then show ?thesis
      using run find rd c by (cases "?leaf = 0") (simp_all add: baseline_radix_lookup_def ix(1))
  qed
qed

end
