(* ===== verification/Memx_Maps.thy ===== *)
theory Memx_Maps
  imports Memx_Radix Memx_Examples
begin

text \<open>
  The properties of the comparison maps of \<^verbatim>\<open>bench/baselines.c\<close>: the life of each map from its
  creation to its destruction, their agreement, and the coherence of the radix leaf cache.
\<close>

section \<open>The life of a map\<close>

text \<open>
  The lookups a map answers once \<open>xs\<close> has been assigned with the outcomes \<open>bs\<close>; a run of a
  configuration, whose assignments succeed only inside the managed range.
\<close>

abbreviation replayed :: "baseline_config \<Rightarrow> u64 \<Rightarrow> (u64 \<times> u64) list \<Rightarrow> bool list \<Rightarrow> u64 \<Rightarrow> u64" where
  "replayed cfg count xs bs \<equiv> replay_sets (baseline_index cfg count) xs bs (\<lambda>a. MEMX_HANDLE_INVALID)"

lemma flat_run:
  assumes ok: "world_ok A live w"
    and create: "baseline_flat_create A (Some cfg) w = Some (Some m, w1)"
  shows "\<exists>count bs m' w2. baseline_config_valid (Some cfg) = Some count
    \<and> run_sets bflat_set xs (m, w1) = Some (bs, (m', w2)) \<and> length bs = length xs \<and> bflat_ok A live (heap w) (m', w2)
    \<and> (\<forall>a. baseline_flat_lookup (Some m') a w2 = Some (replayed cfg count xs bs a))
    \<and> inside_only (baseline_index cfg count) xs bs \<and> (\<forall>a. all_granted (baseline_index cfg count) xs bs a)"
proof -
  have "bflat_ok A live (heap w) (m, w1) \<and> bflat_view (m, w1) = (\<lambda>a. MEMX_HANDLE_INVALID) \<and> bf_config m = cfg
      \<and> baseline_config_valid (Some cfg) = Some (bf_entry_count m)"
    by (rule baseline_flat_create_spec [OF ok, of "Some cfg"])
      (use create in \<open>auto simp: bflat_ok_def baseline_ok_def fun_eq_iff\<close>)
  then have st: "bflat_ok A live (heap w) (m, w1)" "bflat_view (m, w1) = (\<lambda>a. MEMX_HANDLE_INVALID)" "bf_config m = cfg"
    "baseline_config_valid (Some cfg) = Some (bf_entry_count m)" by blast+
  obtain bs m' w2 where r: "run_sets bflat_set xs (m, w1) = Some (bs, (m', w2))"
    "bflat_ok A live (heap w) (m', w2)" "length bs = length xs"
    "bflat_view (m', w2) = replay_sets (bflat_cell (m, w1)) xs bs (bflat_view (m, w1))"
    using bflat.run_sets_replay [OF st(1), of xs] by auto
  have c: "bflat_cell (m, w1) = baseline_index cfg (bf_entry_count m)" by (simp add: bflat_cell_def fun_eq_iff st(3))
  then have l: "baseline_flat_lookup (Some m') a w2 = Some (replayed cfg (bf_entry_count m) xs bs a)" for a
    using bflat_look_view [OF r(2), of a] r(4) st(2) by (simp add: bflat_look_def)
  have "inside_only (baseline_index cfg (bf_entry_count m)) xs bs"
    using bflat.run_sets_inside [OF st(1) r(1)] by (simp only: c)
  then show ?thesis using l bflat_granted [OF st(1) r(1)] r(1-3) st(4) unfolding c by blast
qed

lemma two_level_run:
  assumes ok: "world_ok A live w"
    and fit: "unat (bc_managed_size cfg) + 2 ^ 32 \<le> 2 ^ 64"
    and create: "baseline_two_level_create A (Some cfg) w = Some (Some m, w1)"
  shows "\<exists>count bs m' w2. baseline_config_valid (Some cfg) = Some count
    \<and> run_sets (tl_set A) xs (m, w1) = Some (bs, (m', w2)) \<and> length bs = length xs \<and> tl_inv A live (heap w) m' w2
    \<and> (\<forall>a. baseline_two_level_lookup (Some m') a w2 = Some (replayed cfg count xs bs a))
    \<and> inside_only (baseline_index cfg count) xs bs"
proof -
  have "tl_ok A live (heap w) (m, w1) \<and> tl_view (m, w1) = (\<lambda>a. MEMX_HANDLE_INVALID) \<and> tl_config m = cfg
      \<and> baseline_config_valid (Some cfg) = Some (tl_entry_count m)"
    by (rule baseline_two_level_create_spec [OF ok, of "Some cfg"])
      (use create fit in \<open>auto simp: tl_ok_def fun_eq_iff\<close>)
  then have st: "tl_ok A live (heap w) (m, w1)" "tl_view (m, w1) = (\<lambda>a. MEMX_HANDLE_INVALID)" "tl_config m = cfg"
    "baseline_config_valid (Some cfg) = Some (tl_entry_count m)" by blast+
  obtain bs m' w2 where r: "run_sets (tl_set A) xs (m, w1) = Some (bs, (m', w2))"
    "tl_ok A live (heap w) (m', w2)" "length bs = length xs"
    "tl_view (m', w2) = replay_sets (tl_cell (m, w1)) xs bs (tl_view (m, w1))"
    using two_level.run_sets_replay [OF st(1), of xs] by auto
  have c: "tl_cell (m, w1) = baseline_index cfg (tl_entry_count m)" by (simp add: tl_cell_def fun_eq_iff st(3))
  then have l: "baseline_two_level_lookup (Some m') a w2 = Some (replayed cfg (tl_entry_count m) xs bs a)" for a
    using tl_look_view [OF r(2), of a] r(4) st(2) by (simp add: tl_look_def)
  have "inside_only (baseline_index cfg (tl_entry_count m)) xs bs"
    using two_level.run_sets_inside [OF st(1) r(1)] by (simp only: c)
  then show ?thesis using l r(1-3) st(4) by (auto simp: tl_ok_def)
qed

lemma radix_run:
  assumes ok: "world_ok A live w"
    and create: "baseline_radix_create A (Some cfg) w = Some (Some m, w1)"
  shows "\<exists>count bs m' w2. baseline_config_valid (Some cfg) = Some count
    \<and> run_sets (rx_set A) xs (m, w1) = Some (bs, (m', w2)) \<and> length bs = length xs \<and> rx_inv A live (heap w) m' w2
    \<and> (\<forall>a. baseline_radix_lookup (Some m') a w2 = Some (replayed cfg count xs bs a))
    \<and> inside_only (baseline_index cfg count) xs bs"
proof -
  have "rx_ok A live (heap w) (m, w1) \<and> rx_view (m, w1) = (\<lambda>a. MEMX_HANDLE_INVALID) \<and> rx_config m = cfg
      \<and> baseline_config_valid (Some cfg) = Some (rx_entry_count m)"
    by (rule baseline_radix_create_spec [OF ok, of "Some cfg"])
      (use create in \<open>auto simp: rx_ok_def fun_eq_iff\<close>)
  then have st: "rx_ok A live (heap w) (m, w1)" "rx_view (m, w1) = (\<lambda>a. MEMX_HANDLE_INVALID)" "rx_config m = cfg"
    "baseline_config_valid (Some cfg) = Some (rx_entry_count m)" by blast+
  obtain bs m' w2 where r: "run_sets (rx_set A) xs (m, w1) = Some (bs, (m', w2))"
    "rx_ok A live (heap w) (m', w2)" "length bs = length xs"
    "rx_view (m', w2) = replay_sets (rx_cell (m, w1)) xs bs (rx_view (m, w1))"
    using radix.run_sets_replay [OF st(1), of xs] by auto
  have c: "rx_cell (m, w1) = baseline_index cfg (rx_entry_count m)" by (simp add: rx_cell_def fun_eq_iff st(3))
  then have l: "baseline_radix_lookup (Some m') a w2 = Some (replayed cfg (rx_entry_count m) xs bs a)" for a
    using rx_look_view [OF r(2), of a] r(4) st(2) by (simp add: rx_look_def)
  have "inside_only (baseline_index cfg (rx_entry_count m)) xs bs"
    using radix.run_sets_inside [OF st(1) r(1)] by (simp only: c)
  then show ?thesis using l r(1-3) st(4) by (auto simp: rx_ok_def)
qed

text \<open>A configuration for the witnesses: 16 granules of 2 bytes from address 64.\<close>

definition tiny_config :: baseline_config where
  "tiny_config = \<lparr>bc_base = 64, bc_managed_size = 32, bc_granule_shift = 1\<rparr>"

text \<open>Creating a map and assigning to it, keeping the outcomes.\<close>

definition trial ::
  "('m option \<times> 'w) option \<Rightarrow> (u64 \<Rightarrow> u64 \<Rightarrow> 'm \<times> 'w \<Rightarrow> (bool \<times> 'm \<times> 'w) option) \<Rightarrow> bool list option" where
  "trial made assign = do {
     (m, w) \<leftarrow> made;
     m \<leftarrow> m;
     (bs, s) \<leftarrow> run_sets assign [(64, 5), (67, 6), (200, 7)] (m, w);
     Some bs
   }"

lemma trialE:
  assumes "trial made assign = Some bs"
  obtains m w s where "made = Some (Some m, w)" "run_sets assign [(64, 5), (67, 6), (200, 7)] (m, w) = Some (bs, s)"
  using assms by (auto simp: trial_def split: bind_split_asm)

declare count_bits.simps [code]

lemma tiny_flat:
  "trial (baseline_flat_create bump_allocator (Some tiny_config) empty_world) bflat_set = Some [True, True, False]"
  by code_simp

lemma tiny_two_level:
  "trial (baseline_two_level_create bump_allocator (Some tiny_config) empty_world) (tl_set bump_allocator) = Some [True, True, False]"
  by code_simp

lemma tiny_radix:
  "trial (baseline_radix_create bump_allocator (Some tiny_config) empty_world) (rx_set bump_allocator) = Some [True, True, False]"
  by code_simp

text \<open>The flat map from creation to destruction: every sequence of assignments returns, every
  lookup then answers the last accepted assignment to the granule of the address (the invalid
  handle when there is none), and destroying the map leaves the heap it was created in.\<close>

theorem baseline_flat_lifecycle:
  assumes "world_ok A live w"
    and "baseline_flat_create A (Some cfg) w = Some (Some m, w1)"
  shows "\<exists>count bs m' w2 w3. baseline_config_valid (Some cfg) = Some count
    \<and> run_sets bflat_set xs (m, w1) = Some (bs, (m', w2)) \<and> length bs = length xs
    \<and> (\<forall>a. baseline_flat_lookup (Some m') a w2 = Some (replayed cfg count xs bs a))
    \<and> baseline_flat_destroy A (Some m') w2 = Some w3 \<and> heap w3 = heap w"
proof -
  obtain count bs m' w2 where r: "baseline_config_valid (Some cfg) = Some count"
    "run_sets bflat_set xs (m, w1) = Some (bs, (m', w2))" "length bs = length xs" "bflat_ok A live (heap w) (m', w2)"
    "\<forall>a. baseline_flat_lookup (Some m') a w2 = Some (replayed cfg count xs bs a)"
    using flat_run [OF assms, of xs] by blast
  have "\<exists>w3. baseline_flat_destroy A (Some m') w2 = Some w3 \<and> heap w3 = heap w"
    using baseline_flat_destroy_spec [OF r(4)] by blast
  then show ?thesis using r by blast
qed

theorem baseline_flat_lifecycle_witness:
  "\<exists>m w1 bs m' w2 w3. baseline_flat_create bump_allocator (Some tiny_config) empty_world = Some (Some m, w1)
    \<and> run_sets bflat_set [(64, 5), (67, 6), (200, 7)] (m, w1) = Some (bs, (m', w2))
    \<and> baseline_flat_destroy bump_allocator (Some m') w2 = Some w3 \<and> heap w3 = heap empty_world"
proof -
  obtain m w1 where go: "baseline_flat_create bump_allocator (Some tiny_config) empty_world = Some (Some m, w1)"
    by (rule trialE [OF tiny_flat])
  from baseline_flat_lifecycle [OF empty_world_ok go, of "[(64, 5), (67, 6), (200, 7)]"]
  show ?thesis using go by blast
qed

text \<open>C39: the two-level map likewise, as long as the managed size leaves room for the rounding of
  the root count.\<close>

theorem baseline_two_level_lifecycle:
  assumes "world_ok A live w"
    and "unat (bc_managed_size cfg) + 2 ^ 32 \<le> 2 ^ 64"
    and "baseline_two_level_create A (Some cfg) w = Some (Some m, w1)"
  shows "\<exists>count bs m' w2 w3. baseline_config_valid (Some cfg) = Some count
    \<and> run_sets (tl_set A) xs (m, w1) = Some (bs, (m', w2)) \<and> length bs = length xs
    \<and> (\<forall>a. baseline_two_level_lookup (Some m') a w2 = Some (replayed cfg count xs bs a))
    \<and> baseline_two_level_destroy A (Some m') w2 = Some w3 \<and> heap w3 = heap w"
proof -
  obtain count bs m' w2 where r: "baseline_config_valid (Some cfg) = Some count"
    "run_sets (tl_set A) xs (m, w1) = Some (bs, (m', w2))" "length bs = length xs" "tl_inv A live (heap w) m' w2"
    "\<forall>a. baseline_two_level_lookup (Some m') a w2 = Some (replayed cfg count xs bs a)"
    using two_level_run [OF assms, of xs] by blast
  have "\<exists>w3. baseline_two_level_destroy A (Some m') w2 = Some w3 \<and> heap w3 = heap w"
    using baseline_two_level_destroy_spec [OF r(4)] by blast
  then show ?thesis using r by blast
qed

theorem baseline_two_level_lifecycle_witness:
  "\<exists>m w1 bs m' w2 w3. baseline_two_level_create bump_allocator (Some tiny_config) empty_world = Some (Some m, w1)
    \<and> run_sets (tl_set bump_allocator) [(64, 5), (67, 6), (200, 7)] (m, w1) = Some (bs, (m', w2))
    \<and> baseline_two_level_destroy bump_allocator (Some m') w2 = Some w3 \<and> heap w3 = heap empty_world"
proof -
  obtain m w1 where go: "baseline_two_level_create bump_allocator (Some tiny_config) empty_world = Some (Some m, w1)"
    by (rule trialE [OF tiny_two_level])
  from baseline_two_level_lifecycle [OF empty_world_ok _ go, of "[(64, 5), (67, 6), (200, 7)]"]
  show ?thesis using go by (auto simp: tiny_config_def)
qed

text \<open>C36: the radix map likewise, for every configuration it accepts.\<close>

theorem baseline_radix_lifecycle:
  assumes "world_ok A live w"
    and "baseline_radix_create A (Some cfg) w = Some (Some m, w1)"
  shows "\<exists>count bs m' w2 w3. baseline_config_valid (Some cfg) = Some count
    \<and> run_sets (rx_set A) xs (m, w1) = Some (bs, (m', w2)) \<and> length bs = length xs
    \<and> (\<forall>a. baseline_radix_lookup (Some m') a w2 = Some (replayed cfg count xs bs a))
    \<and> baseline_radix_destroy A (Some m') w2 = Some w3 \<and> heap w3 = heap w"
proof -
  obtain count bs m' w2 where r: "baseline_config_valid (Some cfg) = Some count"
    "run_sets (rx_set A) xs (m, w1) = Some (bs, (m', w2))" "length bs = length xs" "rx_inv A live (heap w) m' w2"
    "\<forall>a. baseline_radix_lookup (Some m') a w2 = Some (replayed cfg count xs bs a)"
    using radix_run [OF assms, of xs] by blast
  have "\<exists>w3. baseline_radix_destroy A (Some m') w2 = Some w3 \<and> heap w3 = heap w"
    using baseline_radix_destroy_spec [OF r(4)] by blast
  then show ?thesis using r by blast
qed

theorem baseline_radix_lifecycle_witness:
  "\<exists>m w1 bs m' w2 w3. baseline_radix_create bump_allocator (Some tiny_config) empty_world = Some (Some m, w1)
    \<and> run_sets (rx_set bump_allocator) [(64, 5), (67, 6), (200, 7)] (m, w1) = Some (bs, (m', w2))
    \<and> baseline_radix_destroy bump_allocator (Some m') w2 = Some w3 \<and> heap w3 = heap empty_world"
proof -
  obtain m w1 where go: "baseline_radix_create bump_allocator (Some tiny_config) empty_world = Some (Some m, w1)"
    by (rule trialE [OF tiny_radix])
  from baseline_radix_lifecycle [OF empty_world_ok go, of "[(64, 5), (67, 6), (200, 7)]"]
  show ?thesis using go by blast
qed

section \<open>Agreement\<close>

text \<open>C38: the three maps agree: created for one configuration, each by an allocator and in a heap of
  its own, and given the same assignments, all three runs return; the flat map answers at every
  address the value last assigned to its granule (the invalid handle outside the managed range or
  when nothing was assigned), and the other two answer what the flat map does wherever none of
  their assignments to the granule of the address ran out of memory.  The managed size must leave
  room, \<open>2 ^ 32\<close> below \<open>2 ^ 64\<close>, for the rounding of the two-level root.\<close>

theorem baseline_maps_agree:
  assumes "world_ok A la w" "world_ok B lb u" "world_ok C lc v"
    and "unat (bc_managed_size cfg) + 2 ^ 32 \<le> 2 ^ 64"
    and "baseline_flat_create A (Some cfg) w = Some (Some f, w1)"
    and "baseline_two_level_create B (Some cfg) u = Some (Some t, u1)"
    and "baseline_radix_create C (Some cfg) v = Some (Some r, v1)"
  shows "\<exists>count fs f' w2 ts t' u2 rs r' v2. baseline_config_valid (Some cfg) = Some count
    \<and> run_sets bflat_set xs (f, w1) = Some (fs, (f', w2))
    \<and> run_sets (tl_set B) xs (t, u1) = Some (ts, (t', u2))
    \<and> run_sets (rx_set C) xs (r, v1) = Some (rs, (r', v2))
    \<and> (\<forall>a. baseline_flat_lookup (Some f') a w2
          = Some (last_assigned (baseline_index cfg count) xs a)
      \<and> (all_granted (baseline_index cfg count) xs ts a \<longrightarrow>
          baseline_two_level_lookup (Some t') a u2 = baseline_flat_lookup (Some f') a w2)
      \<and> (all_granted (baseline_index cfg count) xs rs a \<longrightarrow>
          baseline_radix_lookup (Some r') a v2 = baseline_flat_lookup (Some f') a w2))"
proof -
  obtain count fs f' w2 where f: "baseline_config_valid (Some cfg) = Some count"
    "run_sets bflat_set xs (f, w1) = Some (fs, (f', w2))"
    "\<And>a. baseline_flat_lookup (Some f') a w2 = Some (replayed cfg count xs fs a)"
    "inside_only (baseline_index cfg count) xs fs" "\<And>a. all_granted (baseline_index cfg count) xs fs a"
    using flat_run [OF assms(1,5), of xs] by blast
  obtain ts t' u2 where t: "run_sets (tl_set B) xs (t, u1) = Some (ts, (t', u2))"
    "\<And>a. baseline_two_level_lookup (Some t') a u2 = Some (replayed cfg count xs ts a)"
    "inside_only (baseline_index cfg count) xs ts"
    using two_level_run [OF assms(2,4,6), of xs] f(1) by auto
  obtain rs r' v2 where r: "run_sets (rx_set C) xs (r, v1) = Some (rs, (r', v2))"
    "\<And>a. baseline_radix_lookup (Some r') a v2 = Some (replayed cfg count xs rs a)"
    "inside_only (baseline_index cfg count) xs rs"
    using radix_run [OF assms(3,7), of xs] f(1) by auto
  note last = replay_last_assigned [OF f(4,5)] replay_last_assigned [OF t(3)] replay_last_assigned [OF r(3)]
  show ?thesis
    by (rule exI [of _ count], rule exI [of _ fs], rule exI [of _ f'], rule exI [of _ w2],
        rule exI [of _ ts], rule exI [of _ t'], rule exI [of _ u2],
        rule exI [of _ rs], rule exI [of _ r'], rule exI [of _ v2])
      (simp add: f(1-3) t(1,2) r(1,2) last)
qed

theorem baseline_maps_agree_witness:
  "\<exists>f w1 t u1 r v1 fs f' w2 ts t' u2 rs r' v2.
      baseline_flat_create bump_allocator (Some tiny_config) empty_world = Some (Some f, w1)
    \<and> baseline_two_level_create bump_allocator (Some tiny_config) empty_world = Some (Some t, u1)
    \<and> baseline_radix_create bump_allocator (Some tiny_config) empty_world = Some (Some r, v1)
    \<and> run_sets bflat_set [(64, 5), (67, 6), (200, 7)] (f, w1) = Some (fs, (f', w2))
    \<and> run_sets (tl_set bump_allocator) [(64, 5), (67, 6), (200, 7)] (t, u1) = Some (ts, (t', u2))
    \<and> run_sets (rx_set bump_allocator) [(64, 5), (67, 6), (200, 7)] (r, v1) = Some (rs, (r', v2))
    \<and> baseline_flat_lookup (Some f') 66 w2 = Some 6
    \<and> baseline_two_level_lookup (Some t') 66 u2 = Some 6
    \<and> baseline_radix_lookup (Some r') 66 v2 = Some 6"
proof -
  let ?xs = "[(64, 5), (67, 6), (200, 7)] :: (u64 \<times> u64) list"
  obtain f uf sf where f: "baseline_flat_create bump_allocator (Some tiny_config) empty_world = Some (Some f, uf)"
    "run_sets bflat_set ?xs (f, uf) = Some ([True, True, False], sf)"
    by (rule trialE [OF tiny_flat])
  obtain t ut st where t: "baseline_two_level_create bump_allocator (Some tiny_config) empty_world = Some (Some t, ut)"
    "run_sets (tl_set bump_allocator) ?xs (t, ut) = Some ([True, True, False], st)"
    by (rule trialE [OF tiny_two_level])
  obtain r ur sr where r: "baseline_radix_create bump_allocator (Some tiny_config) empty_world = Some (Some r, ur)"
    "run_sets (rx_set bump_allocator) ?xs (r, ur) = Some ([True, True, False], sr)"
    by (rule trialE [OF tiny_radix])
  have room: "unat (bc_managed_size tiny_config) + 2 ^ 32 \<le> 2 ^ 64" by (simp add: tiny_config_def)
  have v: "baseline_config_valid (Some tiny_config) = Some 16" by code_simp
  have l: "last_assigned (baseline_index tiny_config 16) ?xs 66 = 6" by code_simp
  have g: "all_granted (baseline_index tiny_config 16) ?xs [True, True, False] 66"
  proof -
    have "baseline_index tiny_config 16 66 = Some 1" "baseline_index tiny_config 16 200 = None"
      by code_simp+
    then show ?thesis by (simp add: all_granted_Cons) (simp add: all_granted_def)
  qed
  from baseline_maps_agree [OF empty_world_ok empty_world_ok empty_world_ok room f(1) t(1) r(1), of ?xs]
  obtain count fs f' w2 ts t' u2 rs r' v2 where run:
    "baseline_config_valid (Some tiny_config) = Some count"
    "run_sets bflat_set ?xs (f, uf) = Some (fs, (f', w2))"
    "run_sets (tl_set bump_allocator) ?xs (t, ut) = Some (ts, (t', u2))"
    "run_sets (rx_set bump_allocator) ?xs (r, ur) = Some (rs, (r', v2))"
    and look: "\<forall>a. baseline_flat_lookup (Some f') a w2
          = Some (last_assigned (baseline_index tiny_config count) ?xs a)
      \<and> (all_granted (baseline_index tiny_config count) ?xs ts a \<longrightarrow>
          baseline_two_level_lookup (Some t') a u2 = baseline_flat_lookup (Some f') a w2)
      \<and> (all_granted (baseline_index tiny_config count) ?xs rs a \<longrightarrow>
          baseline_radix_lookup (Some r') a v2 = baseline_flat_lookup (Some f') a w2)"
    by blast
  have e: "count = 16" "ts = [True, True, False]" "rs = [True, True, False]"
    using run v t(2) r(2) by simp_all
  have "baseline_flat_lookup (Some f') 66 w2 = Some 6 \<and> baseline_two_level_lookup (Some t') 66 u2 = Some 6
    \<and> baseline_radix_lookup (Some r') 66 v2 = Some 6"
    using spec [OF look, of 66] g l unfolding e by simp
  then show ?thesis using f(1) t(1) r(1) run by blast
qed

section \<open>Unchecked and cached lookups\<close>

text \<open>On a flat map, the lookup without checks answers what the checked one does, and reads
  inside the table, for every address of the managed range.\<close>

theorem baseline_flat_assume_mapped_correct:
  assumes "bflat_ok A live fr (m, w)"
    and "bc_base (bf_config m) \<le> a" and "a - bc_base (bf_config m) < bc_managed_size (bf_config m)"
  shows "\<exists>h. baseline_flat_lookup_assume_mapped m a w = Some h \<and> baseline_flat_lookup (Some m) a w = Some h"
proof -
  let ?c = "bf_config m"
  have bok: "baseline_ok ?c (bf_entry_count m)" using assms(1) by (simp add: bflat_ok_def)
  have "unat a - unat (bc_base ?c) < unat (bc_managed_size ?c)"
    using assms(2,3) by (simp add: word_less_nat_alt unat_sub)
  then have "unat (bc_base ?c) \<le> unat a \<and> unat a < unat (bc_base ?c) + unat (bc_managed_size ?c)"
    using assms(2) by (simp add: word_le_nat_alt)
  then have c: "baseline_index ?c (bf_entry_count m) a = Some (drop_bit (bc_g ?c) (a - bc_base ?c))"
    using baseline_index_spec(1) [OF bok, of a] by simp
  have "bflat_cell (m, w) a = Some (drop_bit (bc_g ?c) (a - bc_base ?c))"
    by (simp only: bflat_cell_def fst_conv c)
  then obtain hs where "heap w (bf_self m) = Some (HandleTable hs)"
    "unat (drop_bit (bc_g ?c) (a - bc_base ?c)) < length hs"
    using bflat_read [OF assms(1)] by blast
  then show ?thesis
    by (simp add: baseline_flat_lookup_assume_mapped_def baseline_flat_lookup_def c)
qed

theorem baseline_flat_assume_mapped_correct_witness:
  "\<exists>m w h. baseline_flat_create bump_allocator (Some tiny_config) empty_world = Some (Some m, w)
    \<and> baseline_flat_lookup_assume_mapped m 95 w = Some h"
proof -
  obtain m w s where go: "baseline_flat_create bump_allocator (Some tiny_config) empty_world = Some (Some m, w)"
    by (rule trialE [OF tiny_flat])
  have "bflat_ok bump_allocator bump_live (heap empty_world) (m, w) \<and> bf_config m = tiny_config"
    by (rule baseline_flat_create_spec [OF empty_world_ok, of "Some tiny_config"]) (use go in auto)
  then show ?thesis
    using go baseline_flat_assume_mapped_correct [of bump_allocator bump_live "heap empty_world" m w 95]
    by (auto simp: tiny_config_def)
qed

text \<open>Assignments interleaved with lookups, through the cache and without it.\<close>

datatype radix_op = Radix_Set u64 u64 | Radix_Get u64

fun run_cached ::
  "'c memx_allocator \<Rightarrow> radix_op list \<Rightarrow> baseline_radix \<times> baseline_radix_cache \<times> 'c memx_world
     \<Rightarrow> ((bool + u64) list \<times> baseline_radix \<times> baseline_radix_cache \<times> 'c memx_world) option" where
  "run_cached A [] s = Some ([], s)"
| "run_cached A (Radix_Set a v # ops) (m, e, w) = do {
     (b, m, w) \<leftarrow> baseline_radix_set A (Some m) a v w;
     m \<leftarrow> m;
     (out, s) \<leftarrow> run_cached A ops (m, e, w);
     Some (Inl b # out, s)
   }"
| "run_cached A (Radix_Get a # ops) (m, e, w) = do {
     (h, e) \<leftarrow> baseline_radix_cached_lookup (Some m) (Some e) a w;
     e \<leftarrow> e;
     (out, s) \<leftarrow> run_cached A ops (m, e, w);
     Some (Inr h # out, s)
   }"

fun run_uncached ::
  "'c memx_allocator \<Rightarrow> radix_op list \<Rightarrow> baseline_radix \<times> 'c memx_world
     \<Rightarrow> ((bool + u64) list \<times> baseline_radix \<times> 'c memx_world) option" where
  "run_uncached A [] s = Some ([], s)"
| "run_uncached A (Radix_Set a v # ops) (m, w) = do {
     (b, m, w) \<leftarrow> baseline_radix_set A (Some m) a v w;
     m \<leftarrow> m;
     (out, s) \<leftarrow> run_uncached A ops (m, w);
     Some (Inl b # out, s)
   }"
| "run_uncached A (Radix_Get a # ops) (m, w) = do {
     h \<leftarrow> baseline_radix_lookup (Some m) a w;
     (out, s) \<leftarrow> run_uncached A ops (m, w);
     Some (Inr h # out, s)
   }"

text \<open>C37: the leaf cache is invisible: starting from a coherent cache (a freshly initialised one is),
  any interleaving of assignments and cached lookups returns and gives the outcomes of the same
  sequence with plain lookups, although assignments never touch the cache.\<close>

theorem baseline_radix_cache_invisible:
  assumes "rx_inv A live fr m w" and "cache_coherent m (heap w) e"
  shows "\<exists>out m' e' w'. run_cached A ops (m, e, w) = Some (out, (m', e', w'))
    \<and> run_uncached A ops (m, w) = Some (out, (m', w')) \<and> cache_coherent m' (heap w') e'"
  using assms
proof (induction ops arbitrary: m e w)
  case (Cons x ops)
  show ?case
  proof (cases x)
    case (Radix_Set a v)
    obtain b m1 w1 where s: "baseline_radix_set A (Some m) a v w = Some (b, Some m1, w1)" "rx_grown m m1"
      "rx_inv A live fr m1 w1"
      "\<forall>r j. rx_leaf m (heap w) r j \<noteq> 0 \<longrightarrow> rx_leaf m (heap w1) r j = rx_leaf m (heap w) r j"
      using baseline_radix_set_spec [OF Cons.prems(1), of a v] by blast
    have "cache_coherent m1 (heap w1) e"
      unfolding cache_coherent_grown [OF s(2)] by (rule cache_coherent_kept [OF Cons.prems(2) s(4)])
    from Cons.IH [OF s(3) this] obtain out m' e' w' where
      "run_cached A ops (m1, e, w1) = Some (out, (m', e', w'))"
      "run_uncached A ops (m1, w1) = Some (out, (m', w'))" "cache_coherent m' (heap w') e'" by blast
    then show ?thesis by (simp add: Radix_Set s(1))
  next
    case (Radix_Get a)
    obtain h e1 where g: "baseline_radix_cached_lookup (Some m) (Some e) a w = Some (h, Some e1)"
      "baseline_radix_lookup (Some m) a w = Some h" "cache_coherent m (heap w) e1"
      using baseline_radix_cached_lookup_spec [OF Cons.prems, of a] by blast
    from Cons.IH [OF Cons.prems(1) g(3)] obtain out m' e' w' where
      "run_cached A ops (m, e1, w) = Some (out, (m', e', w'))"
      "run_uncached A ops (m, w) = Some (out, (m', w'))" "cache_coherent m' (heap w') e'" by blast
    then show ?thesis by (simp add: Radix_Get g(1,2))
  qed
qed simp

theorem baseline_radix_cache_invisible_witness:
  "\<exists>m w e out s s'. baseline_radix_create bump_allocator (Some tiny_config) empty_world = Some (Some m, w)
    \<and> baseline_radix_cache_init (Some []) = Some e
    \<and> run_cached bump_allocator [Radix_Get 64, Radix_Set 64 3, Radix_Get 65] (m, e, w) = Some (out, s)
    \<and> run_uncached bump_allocator [Radix_Get 64, Radix_Set 64 3, Radix_Get 65] (m, w) = Some (out, s')"
proof -
  obtain m w s where go: "baseline_radix_create bump_allocator (Some tiny_config) empty_world = Some (Some m, w)"
    by (rule trialE [OF tiny_radix])
  have inv: "rx_inv bump_allocator bump_live (heap empty_world) m w"
    by (rule baseline_radix_create_spec [OF empty_world_ok, of "Some tiny_config"]) (use go in auto)
  obtain e where e: "baseline_radix_cache_init (Some []) = Some e" by (simp add: baseline_radix_cache_init_def)
  from baseline_radix_cache_invisible [OF inv cache_init_coherent [OF e]] go e show ?thesis by blast
qed

section \<open>The rounding of the two-level root\<close>

text \<open>What a created two-level map is made of, whatever the allocator does.\<close>

lemma c_calloc_words_block:
  "c_calloc_words A n w = Some (p, w') \<Longrightarrow> p \<noteq> 0 \<Longrightarrow>
   heap w' p = Some (LeafRoots (replicate (unat n) 0))"
  by (auto simp: c_calloc_words_def init_object_def
      split: if_split_asm bind_split_asm option.split_asm memx_object.split_asm)

lemma two_level_created:
  assumes "baseline_two_level_create A (Some cfg) w = Some (Some m, w1)"
  shows "baseline_ok cfg (tl_entry_count m)" "tl_config m = cfg"
    "tl_leaf_bits m = count_bits 0 (unat (tl_entry_count m - 1)) div 2"
    "tl_leaf_count m = push_bit (unat (tl_leaf_bits m)) 1"
    "tl_root_count m = (tl_entry_count m + tl_leaf_count m - 1) div tl_leaf_count m"
    "heap w1 (tl_root m) = Some (LeafRoots (replicate (unat (tl_root_count m)) 0))"
  using assms c_calloc_words_block
  unfolding baseline_two_level_create_def Let_def baseline_ok_def
  by (auto split: if_split_asm bind_split_asm option.split_asm)

text \<open>When \<^verbatim>\<open>count + leaf_count - 1\<close> wraps, the quotient is zero.\<close>

lemma wrapped_root_count:
  fixes count :: u64
  assumes "2 ^ 64 < unat count + 2 ^ 32"
    and lb: "leaf_bits = count_bits 0 (unat (count - 1)) div 2"
    and lc: "leaf_count = push_bit (unat leaf_bits) 1"
  shows "(count + leaf_count - 1) div leaf_count = 0"
proof -
  have u: "unat count < 18446744073709551616" using unat_lt_64 [of count] by simp
  have big: "18446744069414584320 < unat count" using assms(1) by simp
  then have v: "unat (count - 1) = unat count - 1" by (intro unat_minus_one) auto
  obtain n where n: "n \<le> 64" "unat (count_bits 0 (unat (count - 1))) = n" "unat (count - 1) < 2 ^ n"
    using count_bits_spec [of "unat (count - 1)" 64 0] unat_lt_64 [of "count - 1"] by auto
  have "n = 64"
  proof (rule ccontr)
    assume "n \<noteq> 64"
    then have "(2 :: nat) ^ n \<le> 2 ^ 63" using n(1) by (intro power_increasing) auto
    then have "(2 :: nat) ^ n \<le> 9223372036854775808" by simp
    then show False using n(3) v big by linarith
  qed
  then have "unat leaf_bits = 32" using n(2) by (simp add: lb unat_div)
  then have lc32: "leaf_count = 4294967296" by (simp add: lc)
  have e: "count + leaf_count - 1 = count + 4294967295" by (simp add: lc32)
  have s: "unat count + 4294967295 = (unat count - 18446744069414584321) + 18446744073709551616"
    using big by linarith
  have "unat (count + 4294967295) = (unat count + 4294967295) mod 18446744073709551616"
    by (simp add: unat_word_ariths)
  also have "\<dots> = (unat count - 18446744069414584321) mod 18446744073709551616"
    unfolding s by (rule mod_add_self2)
  also have "\<dots> \<le> unat count - 18446744069414584321" by (rule mod_less_eq_dividend)
  also have "\<dots> < 4294967296" using u by linarith
  finally have "unat (count + leaf_count - 1) < unat leaf_count" unfolding e by (simp add: lc32)
  then show ?thesis by (simp add: word_unat_eq_iff unat_div)
qed

text \<open>C40: a created two-level map has a root of no entries exactly when its configuration leaves no
  room for rounding the root count up: one-byte granules and a managed size above
  \<open>2 ^ 64 - 2 ^ 32\<close> (the sum \<^verbatim>\<open>count + leaf_count - 1\<close> wraps).  Every assignment to and every lookup at
  an address of its managed range then reads outside the root.\<close>

theorem baseline_two_level_root_wraps:
  assumes "baseline_two_level_create A (Some cfg) w = Some (Some m, w1)"
  shows "(tl_root_count m = 0 \<longleftrightarrow>
      bc_granule_shift cfg = 0 \<and> 2 ^ 64 < unat (bc_managed_size cfg) + 2 ^ 32)
    \<and> (\<forall>a v. tl_root_count m = 0 \<and> unat (bc_base cfg) \<le> unat a
        \<and> unat a < unat (bc_base cfg) + unat (bc_managed_size cfg)
        \<longrightarrow> baseline_two_level_set A (Some m) a v w1 = None
          \<and> baseline_two_level_lookup (Some m) a w1 = None)"
proof (intro conjI allI impI)
  note c = two_level_created [OF assms]
  note f = baseline_ok_facts [OF c(1)]
  show "tl_root_count m = 0 \<longleftrightarrow>
      bc_granule_shift cfg = 0 \<and> 2 ^ 64 < unat (bc_managed_size cfg) + 2 ^ 32"
  proof
    assume z: "tl_root_count m = 0"
    have big: "2 ^ 64 < unat (tl_entry_count m) + 2 ^ 32"
    proof (rule ccontr)
      assume "\<not> ?thesis"
      then have "unat (tl_entry_count m) + 2 ^ 32 \<le> 2 ^ 64" by (simp only: not_less)
      from tl_geometry(3) [OF f(2) this c(3-5)] show False using z f(2) by simp
    qed
    have "bc_g cfg = 0"
    proof (rule ccontr)
      assume "bc_g cfg \<noteq> 0"
      then have "(2 :: nat) ^ 1 \<le> 2 ^ bc_g cfg" by (intro power_increasing) auto
      then have "unat (tl_entry_count m) * 2 \<le> unat (tl_entry_count m) * 2 ^ bc_g cfg"
        by (intro mult_le_mono2) simp
      then have "unat (tl_entry_count m) * 2 \<le> unat (bc_managed_size cfg)" by (simp only: f(3))
      moreover have "2 * (2 ^ 64) < unat (tl_entry_count m) * 2 + 2 ^ 33" using big by simp
      ultimately show False using unat_lt_64 [of "bc_managed_size cfg"] by simp
    qed
    then show "bc_granule_shift cfg = 0 \<and> 2 ^ 64 < unat (bc_managed_size cfg) + 2 ^ 32"
      using big f(3) by (simp add: unat_eq_zero)
  next
    assume r: "bc_granule_shift cfg = 0 \<and> 2 ^ 64 < unat (bc_managed_size cfg) + 2 ^ 32"
    then have "unat (bc_managed_size cfg) = unat (tl_entry_count m)" using f(3) by simp
    with r have "2 ^ 64 < unat (tl_entry_count m) + 2 ^ 32" by argo
    then show "tl_root_count m = 0" using wrapped_root_count [OF _ c(3,4)] c(5) by simp
  qed
  fix a v :: u64
  assume a: "tl_root_count m = 0 \<and> unat (bc_base cfg) \<le> unat a
        \<and> unat a < unat (bc_base cfg) + unat (bc_managed_size cfg)"
  then obtain i where i: "baseline_index (tl_config m) (tl_entry_count m) a = Some i"
    using baseline_index_spec(1) [OF c(1), of a] by (simp add: c(2))
  have "read_root w1 (tl_root m) k = None" for k using c(6) a by (simp add: read_root_def)
  then show "baseline_two_level_set A (Some m) a v w1 = None"
    "baseline_two_level_lookup (Some m) a w1 = None"
    using i by (simp_all add: baseline_two_level_set_def baseline_two_level_lookup_def)
qed

text \<open>An accepted configuration of this kind: one-byte granules over all addresses but one.\<close>

definition wrapping_config :: baseline_config where
  "wrapping_config = \<lparr>bc_base = 0, bc_managed_size = SIZE_MAX, bc_granule_shift = 0\<rparr>"

lemma wrapping_bits: "count_bits 0 18446744073709551614 = 64"
proof -
  obtain n where n: "n \<le> 64" "unat (count_bits 0 18446744073709551614) = n" "(18446744073709551614 :: nat) < 2 ^ n"
    using count_bits_spec [of 18446744073709551614 64 0] by auto
  have "n = 64"
  proof (rule ccontr)
    assume "n \<noteq> 64"
    then have "(2 :: nat) ^ n \<le> 2 ^ 63" using n(1) by (intro power_increasing) auto
    then show False using n(3) by simp
  qed
  then show ?thesis using n(2) by (simp add: word_unat_eq_iff)
qed

lemma wrapping_created:
  "\<exists>m w. baseline_two_level_create bump_allocator (Some wrapping_config) empty_world = Some (Some m, w)"
  by (simp add: baseline_two_level_create_def wrapping_config_def baseline_config_valid_def Let_def
      wrapping_bits c_malloc_def c_calloc_words_def call_allocate_def bump_allocator_def bump_allocate_def
      empty_world_def init_object_def sizeof_two_level_def)

theorem baseline_two_level_root_wraps_witness:
  "\<exists>m w. baseline_two_level_create bump_allocator (Some wrapping_config) empty_world = Some (Some m, w)
    \<and> tl_root_count m = 0
    \<and> baseline_two_level_set bump_allocator (Some m) 5 1 w = None
    \<and> baseline_two_level_lookup (Some m) 5 w = None"
proof -
  obtain m w where go: "baseline_two_level_create bump_allocator (Some wrapping_config) empty_world = Some (Some m, w)"
    using wrapping_created by blast
  from baseline_two_level_root_wraps [OF go] go show ?thesis by (fastforce simp: wrapping_config_def)
qed

end
