(* ===== verification/Memx_Os.thy ===== *)
theory Memx_Os
  imports Memx_Stats
begin

text \<open>
  The Linux memory layer of the heap, \<^verbatim>\<open>src/allocator/os_linux.c\<close>.  The system calls are
  parameters; \<open>mapped\<close> reads the mapped bytes off their state.  The theorems say which bytes each
  operation maps and unmaps: an aligned reservation maps exactly its range or nothing, and a
  large mapping covers its payload.
\<close>

section \<open>System calls\<close>

text \<open>
  \<open>sys_pagesize\<close> is \<^verbatim>\<open>sysconf(_SC_PAGESIZE)\<close>.  \<open>sys_hpage_file\<close> is the kernel's huge-page size
  file: \<^term>\<open>None\<close> when \<^verbatim>\<open>fopen\<close> fails, \<^term>\<open>Some None\<close> when \<^verbatim>\<open>fscanf\<close> reads no number.
  \<open>sys_mmap\<close> takes whether the pages are readable and writable; its result \<^term>\<open>None\<close> is
  \<^verbatim>\<open>MAP_FAILED\<close>.  \<open>sys_remap\<close> is \<^verbatim>\<open>mmap\<close> with \<^verbatim>\<open>MAP_FIXED\<close> and no access.
\<close>

record 'c sys_calls =
  sys_pagesize :: u64
  sys_hpage_file :: "u64 option option"
  sys_mmap :: "'c \<Rightarrow> u64 \<Rightarrow> bool \<Rightarrow> u64 option \<times> 'c"
  sys_remap :: "'c \<Rightarrow> u64 \<Rightarrow> u64 \<Rightarrow> u64 option \<times> 'c"
  sys_mprotect :: "'c \<Rightarrow> u64 \<Rightarrow> u64 \<Rightarrow> bool \<times> 'c"
  sys_madvise :: "'c \<Rightarrow> u64 \<Rightarrow> u64 \<Rightarrow> 'c"
  sys_munmap :: "'c \<Rightarrow> u64 \<Rightarrow> u64 \<Rightarrow> 'c"

section \<open>Operations\<close>

definition memx_os_power_of_two :: "u64 \<Rightarrow> bool" where
  "memx_os_power_of_two v \<longleftrightarrow> v \<noteq> 0 \<and> v AND (v - 1) = 0"

definition memx_os_page_size :: "'c sys_calls \<Rightarrow> u64" where
  "memx_os_page_size sys = (if 0 < sint (sys_pagesize sys) then sys_pagesize sys else 4096)"

text \<open>The static cache is passed and returned; \<^const>\<open>SIZE_MAX\<close> means not yet probed.\<close>

definition memx_os_huge_page_size :: "'c sys_calls \<Rightarrow> u64 \<Rightarrow> u64 \<times> u64" where
  "memx_os_huge_page_size sys cached =
     (if cached \<noteq> SIZE_MAX then (cached, cached)
      else let found = (case sys_hpage_file sys of
                 None \<Rightarrow> 0 | Some None \<Rightarrow> 0 | Some (Some v) \<Rightarrow> v);
               v = (if \<not> memx_os_power_of_two found \<or> found \<le> memx_os_page_size sys then 0 else found)
           in (v, v))"

definition memx_os_advise_huge_pages :: "'c sys_calls \<Rightarrow> u64 \<Rightarrow> u64 \<Rightarrow> 'c \<Rightarrow> 'c" where
  "memx_os_advise_huge_pages sys base sz c =
     (if base \<noteq> 0 \<and> sz \<noteq> 0 then sys_madvise sys c base sz else c)"

text \<open>A range is a base and a size; \<^term>\<open>None\<close> is the result \<^verbatim>\<open>false\<close>.\<close>

definition memx_os_reserve_aligned ::
  "'c sys_calls \<Rightarrow> u64 \<Rightarrow> u64 \<Rightarrow> 'c \<Rightarrow> (u64 \<times> u64) option \<times> 'c" where
  "memx_os_reserve_aligned sys sz alignment c =
     (if sz = 0 \<or> \<not> memx_os_power_of_two alignment \<or> alignment < memx_os_page_size sys
         \<or> SIZE_MAX - alignment < sz then (None, c)
      else
        let request = sz + alignment;
            (mapping, c) = sys_mmap sys c request False
        in case mapping of
             None \<Rightarrow> (None, c)
           | Some mapping \<Rightarrow>
              (let aligned_address = (mapping + alignment - 1) AND NOT (alignment - 1);
                   prefix = aligned_address - mapping;
                   suffix = request - prefix - sz;
                   c = (if prefix \<noteq> 0 then sys_munmap sys c mapping prefix else c);
                   c = (if suffix \<noteq> 0 then sys_munmap sys c (aligned_address + sz) suffix else c)
               in (Some (aligned_address, sz), c)))"

definition memx_os_commit :: "'c sys_calls \<Rightarrow> u64 \<Rightarrow> u64 \<Rightarrow> 'c \<Rightarrow> bool \<times> 'c" where
  "memx_os_commit sys base sz c =
     (if base \<noteq> 0 \<and> sz \<noteq> 0 then sys_mprotect sys c base sz else (False, c))"

definition memx_os_decommit :: "'c sys_calls \<Rightarrow> u64 \<Rightarrow> u64 \<Rightarrow> 'c \<Rightarrow> bool \<times> 'c" where
  "memx_os_decommit sys base sz c =
     (if base = 0 \<or> sz = 0 then (False, c)
      else let (replacement, c) = sys_remap sys c base sz in (replacement = Some base, c))"

definition memx_os_release :: "'c sys_calls \<Rightarrow> u64 \<times> u64 \<Rightarrow> 'c \<Rightarrow> 'c" where
  "memx_os_release sys block c =
     (if fst block \<noteq> 0 \<and> snd block \<noteq> 0 then sys_munmap sys c (fst block) (snd block) else c)"

text \<open>The mapping and the aligned pointer into it.\<close>

definition memx_os_large_allocate ::
  "'c sys_calls \<Rightarrow> u64 \<Rightarrow> u64 \<Rightarrow> 'c \<Rightarrow> ((u64 \<times> u64) \<times> u64) option \<times> 'c" where
  "memx_os_large_allocate sys sz alignment c = (
     let page_size = memx_os_page_size sys;
         effective_alignment = (if alignment < page_size then page_size else alignment)
     in if sz = 0 \<or> \<not> memx_os_power_of_two effective_alignment \<or> SIZE_MAX - effective_alignment < sz
        then (None, c)
        else
          let request = sz + effective_alignment;
              (mapping, c) = sys_mmap sys c request True
          in case mapping of
               None \<Rightarrow> (None, c)
             | Some mapping \<Rightarrow>
                 (Some ((mapping, request),
                        (mapping + effective_alignment - 1) AND NOT (effective_alignment - 1)), c))"

section \<open>What the kernel promises\<close>

text \<open>
  \<open>mapped\<close> is the set of mapped byte addresses.  The page size is a power of two; \<^verbatim>\<open>mmap\<close> answers
  a page-aligned range that was not mapped, rounded up to whole pages, inside the address space
  and away from the null page; \<^verbatim>\<open>munmap\<close> of a page-aligned address unmaps the whole pages of its
  range; the other calls map and unmap nothing.  None of them is the C library's allocator, whose
  live blocks \<open>live\<close> they leave alone.
\<close>

definition byte_range :: "nat \<Rightarrow> nat \<Rightarrow> nat set" where
  "byte_range p n = {p ..< p + n}"

definition page_bytes :: "'c sys_calls \<Rightarrow> nat" where
  "page_bytes sys = unat (memx_os_page_size sys)"

definition mmap_ok :: "'c sys_calls \<Rightarrow> ('c \<Rightarrow> u64 set) \<Rightarrow> ('c \<Rightarrow> nat set) \<Rightarrow> bool" where
  "mmap_ok sys live mapped \<longleftrightarrow> (\<forall>c n rw m c'. sys_mmap sys c n rw = (m, c') \<longrightarrow> live c' = live c
     \<and> (m = None \<longrightarrow> mapped c' = mapped c)
     \<and> (\<forall>p. m = Some p \<longrightarrow> p \<noteq> 0 \<and> page_bytes sys dvd unat p
          \<and> unat p + page_round (page_bytes sys) (unat n) \<le> 2 ^ 64
          \<and> byte_range (unat p) (page_round (page_bytes sys) (unat n)) \<inter> mapped c = {}
          \<and> mapped c' = mapped c \<union> byte_range (unat p) (page_round (page_bytes sys) (unat n))))"

definition munmap_ok :: "'c sys_calls \<Rightarrow> ('c \<Rightarrow> u64 set) \<Rightarrow> ('c \<Rightarrow> nat set) \<Rightarrow> bool" where
  "munmap_ok sys live mapped \<longleftrightarrow> (\<forall>c p n. live (sys_munmap sys c p n) = live c
     \<and> (page_bytes sys dvd unat p \<longrightarrow> mapped (sys_munmap sys c p n)
          = mapped c - byte_range (unat p) (page_round (page_bytes sys) (unat n))))"

definition others_ok :: "'c sys_calls \<Rightarrow> ('c \<Rightarrow> u64 set) \<Rightarrow> ('c \<Rightarrow> nat set) \<Rightarrow> bool" where
  "others_ok sys live mapped \<longleftrightarrow>
     (\<forall>c p n m c'. sys_remap sys c p n = (m, c') \<longrightarrow> live c' = live c \<and> mapped c' = mapped c)
     \<and> (\<forall>c p n b c'. sys_mprotect sys c p n = (b, c') \<longrightarrow> live c' = live c \<and> mapped c' = mapped c)
     \<and> (\<forall>c p n. live (sys_madvise sys c p n) = live c \<and> mapped (sys_madvise sys c p n) = mapped c)"

definition sys_contract ::
  "'c sys_calls \<Rightarrow> ('c \<Rightarrow> u64 set) \<Rightarrow> ('c \<Rightarrow> nat set) \<Rightarrow> bool" where
  "sys_contract sys live mapped \<longleftrightarrow> (\<exists>k < 63. page_bytes sys = 2 ^ k)
     \<and> mmap_ok sys live mapped \<and> munmap_ok sys live mapped \<and> others_ok sys live mapped"

lemma sys_contractD:
  assumes "sys_contract sys live mapped"
  shows "\<exists>k < 63. page_bytes sys = 2 ^ k" "mmap_ok sys live mapped" "munmap_ok sys live mapped"
    "others_ok sys live mapped"
  using assms by (simp_all only: sys_contract_def)

lemma sys_mmap_spec:
  assumes "sys_contract sys live mapped" "sys_mmap sys c n rw = (m, c')"
  shows "live c' = live c" "m = None \<Longrightarrow> mapped c' = mapped c"
    "m = Some p \<Longrightarrow> p \<noteq> 0 \<and> page_bytes sys dvd unat p
       \<and> unat p + page_round (page_bytes sys) (unat n) \<le> 2 ^ 64
       \<and> byte_range (unat p) (page_round (page_bytes sys) (unat n)) \<inter> mapped c = {}
       \<and> mapped c' = mapped c \<union> byte_range (unat p) (page_round (page_bytes sys) (unat n))"
proof -
  from sys_contractD(2) [OF assms(1), unfolded mmap_ok_def, rule_format, OF assms(2)]
  have r: "live c' = live c \<and> (m = None \<longrightarrow> mapped c' = mapped c)
     \<and> (\<forall>p. m = Some p \<longrightarrow> p \<noteq> 0 \<and> page_bytes sys dvd unat p
          \<and> unat p + page_round (page_bytes sys) (unat n) \<le> 2 ^ 64
          \<and> byte_range (unat p) (page_round (page_bytes sys) (unat n)) \<inter> mapped c = {}
          \<and> mapped c' = mapped c \<union> byte_range (unat p) (page_round (page_bytes sys) (unat n)))" by simp
  then show "live c' = live c" "m = None \<Longrightarrow> mapped c' = mapped c" by blast+
  show "m = Some p \<Longrightarrow> p \<noteq> 0 \<and> page_bytes sys dvd unat p
       \<and> unat p + page_round (page_bytes sys) (unat n) \<le> 2 ^ 64
       \<and> byte_range (unat p) (page_round (page_bytes sys) (unat n)) \<inter> mapped c = {}
       \<and> mapped c' = mapped c \<union> byte_range (unat p) (page_round (page_bytes sys) (unat n))"
    using r by (simp only: simp_thms)
qed

lemma sys_munmap_spec:
  assumes "sys_contract sys live mapped"
  shows "live (sys_munmap sys c p n) = live c"
    "page_bytes sys dvd unat p \<Longrightarrow>
       mapped (sys_munmap sys c p n) = mapped c - byte_range (unat p) (page_round (page_bytes sys) (unat n))"
  using sys_contractD(3) [OF assms] by (simp_all add: munmap_ok_def)

lemma sys_page_power:
  assumes "sys_contract sys live mapped"
  obtains k where "k < 63" "page_bytes sys = 2 ^ k"
  using sys_contractD(1) [OF assms] that by auto

lemma sys_other_spec:
  assumes "sys_contract sys live mapped"
  shows "sys_mprotect sys c p n = (b, c') \<Longrightarrow> live c' = live c \<and> mapped c' = mapped c"
    "sys_remap sys c p n = (m, c') \<Longrightarrow> live c' = live c \<and> mapped c' = mapped c"
    "live (sys_madvise sys c p n) = live c \<and> mapped (sys_madvise sys c p n) = mapped c"
  using sys_contractD(4) [OF assms] unfolding others_ok_def by metis+

section \<open>Correctness\<close>

lemma memx_os_power_of_two_iff:
  "memx_os_power_of_two v \<longleftrightarrow> (\<exists>k < 64. unat v = 2 ^ k)"
proof
  assume "memx_os_power_of_two v"
  then have v: "v AND (v - 1) = 0" "v \<noteq> 0" by (simp_all add: memx_os_power_of_two_def)
  show "\<exists>k < 64. unat v = 2 ^ k" by (rule pow2_test [OF v]) blast
next
  assume "\<exists>k < 64. unat v = 2 ^ k"
  then obtain k where k: "k < 64" "unat v = 2 ^ k" by blast
  then have v: "v = 2 ^ k" by (simp add: unat_eq_iff unat_pow2)
  have "(2 :: u64) ^ k AND mask k = 0" unfolding and_mask_eq_0_iff using k v by simp
  then show "memx_os_power_of_two v"
    using k by (auto simp: memx_os_power_of_two_def v pow2_minus_1 unat_eq_iff)
qed

lemma page_round_dvd: "0 < P \<Longrightarrow> P dvd n \<Longrightarrow> page_round P n = n"
  using page_round_least(2) [of P n] page_round_least(3) [of P n n] by simp

text \<open>Rounding an address up to a power of two.\<close>

lemma align_address:
  assumes a: "unat a = 2 ^ k" and k: "k < 64" and fit: "unat p + unat a \<le> (2 :: nat) ^ 64"
  shows "unat ((p + a - 1) AND NOT (a - 1) :: u64) = page_round (unat a) (unat p)"
    "unat p \<le> page_round (unat a) (unat p)" "page_round (unat a) (unat p) < unat p + unat a"
    "unat a dvd page_round (unat a) (unat p)"
proof -
  have a2: "a = 2 ^ k" using a k by (simp add: unat_eq_iff unat_pow2)
  have pos: "0 < unat a" by (simp add: a)
  have a1: "unat (a - 1) = unat a - 1" using pos by (intro unat_minus_one) auto
  have "p + a - 1 = p + (a - 1)" by simp
  moreover have "unat p + unat (a - 1) < 2 ^ 64" using fit pos unfolding a1 by linarith
  ultimately have s: "unat (p + a - 1) = unat p + (unat a - 1)" by (simp only: unat_add_exact a1)
  have "a - 1 = mask k" by (simp add: a2 pow2_minus_1)
  then show "unat ((p + a - 1) AND NOT (a - 1)) = page_round (unat a) (unat p)"
    by (simp only: unat_and_not_mask s page_round_def a)
  show "unat p \<le> page_round (unat a) (unat p)" "unat a dvd page_round (unat a) (unat p)"
    by (rule page_round_least [OF pos])+
  have "page_round (unat a) (unat p) \<le> unat p + (unat a - 1)"
    by (simp add: page_round_def)
  then show "page_round (unat a) (unat p) < unat p + unat a" using pos by linarith
qed

text \<open>An aligned reservation maps exactly its own range, or nothing.\<close>

lemma reserve_spec:
  assumes ct: "sys_contract sys live mapped" and page: "page_bytes sys dvd unat sz"
    and run: "memx_os_reserve_aligned sys sz alignment c = (r, c')"
  shows "live c' = live c" "r = None \<Longrightarrow> mapped c' = mapped c"
    "r = Some (b, n) \<Longrightarrow> n = sz \<and> sz \<noteq> 0 \<and> b \<noteq> 0 \<and> unat alignment dvd unat b \<and> unat b + unat sz \<le> 2 ^ 64
       \<and> byte_range (unat b) (unat sz) \<inter> mapped c = {}
       \<and> mapped c' = mapped c \<union> byte_range (unat b) (unat sz)"
proof -
  let ?P = "page_bytes sys" and ?A = "unat alignment"
  let ?bad = "sz = 0 \<or> \<not> memx_os_power_of_two alignment \<or> alignment < memx_os_page_size sys
         \<or> SIZE_MAX - alignment < sz"
  have all: "live c' = live c \<and> (r = None \<longrightarrow> mapped c' = mapped c)
     \<and> (\<forall>b n. r = Some (b, n) \<longrightarrow> n = sz \<and> sz \<noteq> 0 \<and> b \<noteq> 0 \<and> ?A dvd unat b \<and> unat b + unat sz \<le> 2 ^ 64
       \<and> byte_range (unat b) (unat sz) \<inter> mapped c = {}
       \<and> mapped c' = mapped c \<union> byte_range (unat b) (unat sz))"
  proof (cases ?bad)
    case True
    then show ?thesis using run by (auto simp: memx_os_reserve_aligned_def)
  next
    case False
    obtain k where k: "k < 63" "?P = 2 ^ k" by (rule sys_page_power [OF ct])
    obtain a where a: "a < 64" "?A = 2 ^ a" using False memx_os_power_of_two_iff by blast
    have PA: "?P \<le> ?A" using False by (simp add: page_bytes_def word_less_nat_alt not_less)
    then have "k \<le> a" using k a by (metis one_less_numeral_iff power_le_imp_le_exp semiring_norm(76))
    then have dvd: "?P dvd ?A" using k a by (simp add: le_imp_power_dvd)
    have P0: "0 < ?P" and A0: "0 < ?A" by (simp_all add: k a)
    have "unat sz \<le> unat (SIZE_MAX - alignment)" using False by (simp add: word_less_nat_alt not_less)
    moreover have "unat (SIZE_MAX - alignment) = unat SIZE_MAX - ?A" by (rule unat_sub) simp
    ultimately have "unat sz + ?A \<le> 18446744073709551615"
      using unat_lt_64 [of alignment] unfolding unat_SIZE_MAX by linarith
    then have fit: "unat sz + ?A < 2 ^ 64" by simp
    have req: "unat (sz + alignment) = unat sz + ?A" using fit by (rule unat_add_exact)
    have reqP: "page_round ?P (unat (sz + alignment)) = unat sz + ?A"
      unfolding req by (rule page_round_dvd [OF P0]) (simp add: page dvd)
    obtain m c1 where mm: "sys_mmap sys c (sz + alignment) False = (m, c1)" by fastforce
    note ms = sys_mmap_spec [OF ct mm, unfolded reqP]
    show ?thesis
    proof (cases m)
      case None
      then have "(r, c') = (None, c1)" using run False mm by (simp add: memx_os_reserve_aligned_def)
      then show ?thesis using ms(1,2) None by simp
    next
      case (Some p)
      note mp = ms(3) [OF Some]
      have pA: "unat p + ?A \<le> 2 ^ 64" using mp by linarith
      let ?b = "(p + alignment - 1) AND NOT (alignment - 1)"
      note al = align_address [OF a(2,1) pA]
      let ?B = "page_round ?A (unat p)"
      have b: "unat ?b = ?B" by (rule al(1))
      have PB: "?P dvd ?B" using dvd al(4) dvd_trans by blast
      have pre: "unat (?b - p) = ?B - unat p" using al(1,2) by (subst unat_sub) (simp_all add: word_le_nat_alt)
      have preP: "?P dvd ?B - unat p" using PB mp by (simp add: dvd_diff_nat)
      have suf1: "unat (sz + alignment - (?b - p)) = unat sz + ?A - (?B - unat p)"
        using al(3) req pre by (subst unat_sub) (simp_all add: word_le_nat_alt)
      have suf: "unat (sz + alignment - (?b - p) - sz) = ?A - (?B - unat p)"
        using al(3) suf1 by (subst unat_sub) (simp_all add: word_le_nat_alt)
      have sufP: "?P dvd ?A - (?B - unat p)" using dvd preP by (simp add: dvd_diff_nat)
      have bs: "unat (?b + sz) = ?B + unat sz"
        using mp al(3) b by (subst unat_add_exact) linarith+
      have bsP: "?P dvd ?B + unat sz" using PB page by simp
      define c2 where "c2 = (if ?b - p \<noteq> 0 then sys_munmap sys c1 p (?b - p) else c1)"
      define c3 where "c3 = (if sz + alignment - (?b - p) - sz \<noteq> 0
        then sys_munmap sys c2 (?b + sz) (sz + alignment - (?b - p) - sz) else c2)"
      have "memx_os_reserve_aligned sys sz alignment c = (Some (?b, sz), c3)"
        unfolding memx_os_reserve_aligned_def if_not_P [OF False] Let_def mm prod.case Some option.case
          c3_def c2_def ..
      then have r: "(r, c') = (Some (?b, sz), c3)" using run by simp
      have c2: "live c2 = live c1" "mapped c2 = mapped c1 - byte_range (unat p) (?B - unat p)"
        using sys_munmap_spec [where c = c1 and p = p and n = "?b - p", OF ct] mp pre page_round_dvd [OF P0 preP]
        by (auto simp: c2_def byte_range_def unat_eq_iff)
      have c3: "live c3 = live c2" "mapped c3 = mapped c2 - byte_range (?B + unat sz) (?A - (?B - unat p))"
        using sys_munmap_spec [where c = c2 and p = "?b + sz" and n = "sz + alignment - (?b - p) - sz", OF ct] bsP bs suf
          page_round_dvd [OF P0 sufP]
        by (auto simp: c3_def byte_range_def unat_eq_iff)
      have "0 < unat p" using mp by (simp add: unat_gt_0)
      then have "?B + unat sz \<le> 2 ^ 64" "?B \<noteq> 0" using mp al(2,3) by linarith+
      moreover have out: "x < unat p \<or> unat p + (unat sz + ?A) \<le> x" if "x \<in> mapped c" for x
        using mp that by (auto simp: byte_range_def) (meson disjoint_iff atLeastLessThan_iff linorder_not_less)
      then have "byte_range ?B (unat sz) \<inter> mapped c = {}"
        using al(2,3) by (fastforce simp: byte_range_def)
      moreover have "x \<in> mapped c3 \<longleftrightarrow> x \<in> mapped c \<union> byte_range ?B (unat sz)" for x
        using mp al(2,3) out [of x] unfolding c3(2) c2(2) byte_range_def by auto
      then have "mapped c3 = mapped c \<union> byte_range ?B (unat sz)" by blast
      ultimately show ?thesis
        using r False c2(1) c3(1) ms(1) al(4) b by (auto simp: unat_eq_iff)
    qed
  qed
  show "live c' = live c" "r = None \<Longrightarrow> mapped c' = mapped c" using all by blast+
  show "r = Some (b, n) \<Longrightarrow> n = sz \<and> sz \<noteq> 0 \<and> b \<noteq> 0 \<and> unat alignment dvd unat b \<and> unat b + unat sz \<le> 2 ^ 64
       \<and> byte_range (unat b) (unat sz) \<inter> mapped c = {}
       \<and> mapped c' = mapped c \<union> byte_range (unat b) (unat sz)" using all by simp
qed

lemma page_round_mono: "m \<le> n \<Longrightarrow> page_round P m \<le> page_round P n"
  unfolding page_round_def by (intro mult_le_mono1 div_le_mono) simp

text \<open>A large mapping: the aligned payload lies inside it.\<close>

lemma large_allocate_spec:
  assumes ct: "sys_contract sys live mapped"
    and run: "memx_os_large_allocate sys sz alignment c = (r, c')"
  shows "live c' = live c" "r = None \<Longrightarrow> mapped c' = mapped c"
    "r = Some ((b, n), p) \<Longrightarrow> sz \<noteq> 0 \<and> b \<noteq> 0 \<and> n \<noteq> 0 \<and> p \<noteq> 0 \<and> page_bytes sys dvd unat b
       \<and> (unat alignment \<noteq> 0 \<longrightarrow> (\<exists>k. unat alignment = 2 ^ k) \<longrightarrow> unat alignment dvd unat p)
       \<and> unat b \<le> unat p \<and> unat p + unat sz \<le> unat b + unat n \<and> unat b + unat n \<le> 2 ^ 64
       \<and> byte_range (unat b) (page_round (page_bytes sys) (unat n)) \<inter> mapped c = {}
       \<and> mapped c' = mapped c \<union> byte_range (unat b) (page_round (page_bytes sys) (unat n))"
proof -
  define eff where "eff = (if alignment < memx_os_page_size sys then memx_os_page_size sys else alignment)"
  let ?P = "page_bytes sys" and ?E = "unat eff"
  let ?bad = "sz = 0 \<or> \<not> memx_os_power_of_two eff \<or> SIZE_MAX - eff < sz"
  have all: "live c' = live c \<and> (r = None \<longrightarrow> mapped c' = mapped c)
     \<and> (\<forall>b n p. r = Some ((b, n), p) \<longrightarrow> sz \<noteq> 0 \<and> b \<noteq> 0 \<and> n \<noteq> 0 \<and> p \<noteq> 0 \<and> ?P dvd unat b
       \<and> (unat alignment \<noteq> 0 \<longrightarrow> (\<exists>k. unat alignment = 2 ^ k) \<longrightarrow> unat alignment dvd unat p)
       \<and> unat b \<le> unat p \<and> unat p + unat sz \<le> unat b + unat n \<and> unat b + unat n \<le> 2 ^ 64
       \<and> byte_range (unat b) (page_round ?P (unat n)) \<inter> mapped c = {}
       \<and> mapped c' = mapped c \<union> byte_range (unat b) (page_round ?P (unat n)))"
  proof (cases ?bad)
    case True
    then show ?thesis using run by (auto simp: memx_os_large_allocate_def Let_def eff_def)
  next
    case False
    obtain k where k: "k < 63" "?P = 2 ^ k" by (rule sys_page_power [OF ct])
    obtain e where e: "e < 64" "?E = 2 ^ e" using False memx_os_power_of_two_iff by blast
    have "unat sz \<le> unat (SIZE_MAX - eff)" using False by (simp add: word_less_nat_alt not_less)
    moreover have "unat (SIZE_MAX - eff) = unat SIZE_MAX - ?E" by (rule unat_sub) simp
    ultimately have "unat sz + ?E \<le> 18446744073709551615"
      using unat_lt_64 [of eff] unfolding unat_SIZE_MAX by linarith
    then have fit: "unat sz + ?E < 2 ^ 64" by simp
    have req: "unat (sz + eff) = unat sz + ?E" using fit by (rule unat_add_exact)
    obtain m c1 where mm: "sys_mmap sys c (sz + eff) True = (m, c1)" by fastforce
    have run1: "memx_os_large_allocate sys sz alignment c = (case m of
         None \<Rightarrow> (None, c1)
       | Some mapping \<Rightarrow> (Some ((mapping, sz + eff), (mapping + eff - 1) AND NOT (eff - 1)), c1))"
      unfolding memx_os_large_allocate_def Let_def eff_def [symmetric] if_not_P [OF False] mm prod.case ..
    note ms = sys_mmap_spec [OF ct mm]
    show ?thesis
    proof (cases m)
      case None
      then have "(r, c') = (None, c1)" using run run1 by simp
      then show ?thesis using ms(1,2) None by simp
    next
      case (Some q)
      note mp = ms(3) [OF Some]
      let ?p = "(q + eff - 1) AND NOT (eff - 1)"
      have P0: "0 < ?P" by (simp add: k)
      have "unat (sz + eff) \<le> page_round ?P (unat (sz + eff))" by (rule page_round_least(2) [OF P0])
      then have q2: "unat q + (unat sz + ?E) \<le> 2 ^ 64" using mp unfolding req by linarith
      then have "unat q + ?E \<le> 2 ^ 64" by linarith
      note al = align_address [OF e(2,1) this]
      have "0 < unat q" using mp by (simp add: unat_gt_0)
      then have p0: "0 < unat ?p" unfolding al(1) using al(2) by linarith
      have dv: "unat alignment dvd unat ?p" if a: "unat alignment = 2 ^ a" for a
      proof -
        have "unat alignment dvd ?E"
        proof (cases "alignment < memx_os_page_size sys")
          case True
          then have "(2 :: nat) ^ a < 2 ^ k" using k(2) a by (simp add: word_less_nat_alt page_bytes_def)
          then have "a < k" by simp
          moreover have "?E = ?P" using True by (simp add: eff_def page_bytes_def)
          ultimately show ?thesis using a k(2) by (simp add: le_imp_power_dvd)
        qed (simp add: eff_def)
        then show ?thesis using al(1,4) dvd_trans by metis
      qed
      have r: "(r, c') = (Some ((q, sz + eff), ?p), c1)" using run run1 Some by simp
      have "sz + eff \<noteq> 0" using req e by (auto simp: unat_eq_iff)
      moreover have "?p \<noteq> 0" using p0 by (auto simp: unat_eq_iff)
      moreover have "unat ?p + unat sz \<le> unat q + unat (sz + eff)" "unat q \<le> unat ?p"
        "unat q + unat (sz + eff) \<le> 2 ^ 64"
        using al(1-3) q2 unfolding req by linarith+
      ultimately show ?thesis using r mp ms(1) False dv by auto
    qed
  qed
  show "live c' = live c" "r = None \<Longrightarrow> mapped c' = mapped c" using all by blast+
  show "r = Some ((b, n), p) \<Longrightarrow> sz \<noteq> 0 \<and> b \<noteq> 0 \<and> n \<noteq> 0 \<and> p \<noteq> 0 \<and> page_bytes sys dvd unat b
       \<and> (unat alignment \<noteq> 0 \<longrightarrow> (\<exists>k. unat alignment = 2 ^ k) \<longrightarrow> unat alignment dvd unat p)
       \<and> unat b \<le> unat p \<and> unat p + unat sz \<le> unat b + unat n \<and> unat b + unat n \<le> 2 ^ 64
       \<and> byte_range (unat b) (page_round (page_bytes sys) (unat n)) \<inter> mapped c = {}
       \<and> mapped c' = mapped c \<union> byte_range (unat b) (page_round (page_bytes sys) (unat n))"
    using all by simp
qed

lemma release_spec:
  assumes "sys_contract sys live mapped" and "b \<noteq> 0" "n \<noteq> 0" "page_bytes sys dvd unat b"
  shows "live (memx_os_release sys (b, n) c) = live c"
    "mapped (memx_os_release sys (b, n) c) = mapped c - byte_range (unat b) (page_round (page_bytes sys) (unat n))"
  using sys_munmap_spec [where c = c and p = b and n = n, OF assms(1)] assms(2-)
  by (simp_all add: memx_os_release_def)

lemma release_live: "sys_contract sys live mapped \<Longrightarrow> live (memx_os_release sys r c) = live c"
  by (simp add: memx_os_release_def sys_munmap_spec)

lemma commit_spec:
  "sys_contract sys live mapped \<Longrightarrow> memx_os_commit sys b n c = (ok, c') \<Longrightarrow> live c' = live c \<and> mapped c' = mapped c"
  by (auto simp: memx_os_commit_def dest: sys_other_spec split: if_splits)

lemma advise_spec:
  "sys_contract sys live mapped \<Longrightarrow>
   live (memx_os_advise_huge_pages sys b n c) = live c \<and> mapped (memx_os_advise_huge_pages sys b n c) = mapped c"
  by (simp add: memx_os_advise_huge_pages_def sys_other_spec)

text \<open>The probed size is 0 or a power of two above the page size, and is probed once.\<close>

lemma huge_page_size_spec:
  assumes "cached = SIZE_MAX \<or> cached = 0 \<or> (memx_os_power_of_two cached \<and> memx_os_page_size sys < cached)"
    and "memx_os_huge_page_size sys cached = (v, cached')"
  shows "cached' = v" "v = 0 \<or> (memx_os_power_of_two v \<and> memx_os_page_size sys < v)"
    "memx_os_huge_page_size sys cached' = (v, cached')"
proof -
  have m: "\<not> memx_os_power_of_two SIZE_MAX"
  proof
    assume "memx_os_power_of_two SIZE_MAX"
    then show False by (simp add: memx_os_power_of_two_def)
  qed
  show 1: "cached' = v" using assms(2) by (auto simp: memx_os_huge_page_size_def Let_def split: if_splits)
  show 2: "v = 0 \<or> (memx_os_power_of_two v \<and> memx_os_page_size sys < v)"
    using assms by (auto simp: memx_os_huge_page_size_def Let_def not_le split: if_splits)
  then have "v \<noteq> SIZE_MAX" using m by auto
  then show "memx_os_huge_page_size sys cached' = (v, cached')"
    using 1 by (simp add: memx_os_huge_page_size_def)
qed

end
