(* ===== verification/Memx_Sizes.thy ===== *)
theory Memx_Sizes
  imports Memx_Baseline Memx_Os
begin

text \<open>
  The size arithmetic of \<^verbatim>\<open>src/allocator/heap.c\<close>: the table of size classes, the class of a
  request, rounding to an alignment.  The main fact: \<^verbatim>\<open>memx_heap_class_for_size\<close> answers the
  least class that holds the request, and no class exactly when the request is above 8192.
\<close>

section \<open>The class table\<close>

definition MEMX_HEAP_CLASS_COUNT :: u64 where
  "MEMX_HEAP_CLASS_COUNT = 19"

definition memx_heap_class_sizes :: "u64 list" where
  "memx_heap_class_sizes =
     [16, 24, 32, 48, 64, 96, 128, 192, 256, 384, 512, 768, 1024, 1536, 2048, 3072, 4096, 6144, 8192]"

lemma length_class_sizes [simp]: "length memx_heap_class_sizes = 19"
  by (simp add: memx_heap_class_sizes_def)

definition memx_heap_power_of_two :: "u64 \<Rightarrow> bool" where
  "memx_heap_power_of_two v \<longleftrightarrow> v \<noteq> 0 \<and> v AND (v - 1) = 0"

definition memx_heap_align_up :: "u64 \<Rightarrow> u64 \<Rightarrow> u64" where
  "memx_heap_align_up v alignment =
     (if SIZE_MAX - (alignment - 1) < v then 0
      else (v + alignment - 1) AND NOT (alignment - 1))"

text \<open>The portable branch: the bit width is counted by a loop (\<open>count_bits\<close>).\<close>

definition memx_heap_class_for_size :: "u64 \<Rightarrow> u64" where
  "memx_heap_class_for_size sz =
     (if sz \<le> 16 then 0
      else let v = sz - 1;
               bit_width = count_bits 0 (unat v);
               bit_width = (if bit_width < 5 then 5 else bit_width);
               half = drop_bit (unat (bit_width - 2)) v AND 1
           in ucast ((bit_width - 5) * 2) + half + 1)"

section \<open>The class of a request\<close>

lemma bit_width_exact:
  assumes "2 ^ b \<le> v" "v < 2 ^ Suc b" "b < 64"
  shows "unat (count_bits 0 v) = Suc b"
proof -
  obtain n where n: "n \<le> Suc b" "unat (count_bits 0 v) = n" "v < 2 ^ n"
    using count_bits_spec [OF assms(2), of 0] assms(3) by auto
  have "(2 :: nat) ^ b < 2 ^ n" using assms(1) n(3) by linarith
  then have "b < n" by simp
  then show ?thesis using n by simp
qed

lemma unat_sum3: "unat (x :: u64) + unat y + 1 < 2 ^ 64 \<Longrightarrow> unat (x + y + 1) = unat x + unat y + 1"
  using unat_add_exact [of x y] unat_add_exact [of "x + y" 1] by simp

text \<open>Octave \<open>b\<close>: the values with top bit \<open>b\<close>; the bit below selects the half.\<close>

lemma class_in_octave:
  assumes v: "unat sz = Suc v" and b: "2 ^ b \<le> v" "v < 2 ^ Suc b" "4 \<le> b" "b < 64"
  shows "unat (memx_heap_class_for_size sz) = 2 * (b - 4) + (if v < 2 ^ b + 2 ^ (b - 1) then 1 else 2)"
proof -
  have sz: "\<not> sz \<le> 16"
  proof -
    have "(2 :: nat) ^ 4 \<le> 2 ^ b" using b(3) by (intro power_increasing) auto
    then show ?thesis using v b(1) by (simp add: word_le_nat_alt)
  qed
  have v1: "unat (sz - 1) = v" using v by (subst unat_minus_one) auto
  have bw: "unat (count_bits 0 v) = Suc b" by (rule bit_width_exact [OF b(1,2,4)])
  then have nb: "\<not> count_bits 0 v < 5" using b(3) by (simp add: word_less_nat_alt)
  have m2: "unat (count_bits 0 v - 2) = b - 1"
    using bw b(3) by (subst unat_sub) (simp_all add: word_le_nat_alt)
  have m5: "unat (count_bits 0 v - 5) = b - 4"
    using bw b(3) by (subst unat_sub) (simp_all add: word_le_nat_alt)
  have "unat ((count_bits 0 v - 5) * 2) = unat (count_bits 0 v - 5) * unat (2 :: u32) mod 2 ^ 32"
    using unat_word_ariths(2) [of "count_bits 0 v - 5" 2] by simp
  then have m10: "unat ((count_bits 0 v - 5) * 2) = 2 * (b - 4)" using b(4) unfolding m5 by simp
  have uc: "unat (ucast ((count_bits 0 v - 5) * 2) :: u64) = 2 * (b - 4)"
    unfolding unsigned_ucast_eq m10 using b(4) by (simp add: take_bit_nat_eq_self)
  define e where "e = (2 :: nat) ^ (b - 1)"
  have e: "0 < e" "2 ^ b = 2 * e" "2 ^ Suc b = 4 * e"
  proof -
    have "b = Suc (b - 1)" using b(3) by simp
    then have "(2 :: nat) ^ b = 2 ^ Suc (b - 1)" by metis
    then show "2 ^ b = 2 * e" by (simp only: e_def power_Suc)
    then show "2 ^ Suc b = 4 * e" by simp
  qed (simp add: e_def)
  have "unat (drop_bit (b - 1) (sz - 1) AND 1) = v div e mod 2"
  proof -
    have "drop_bit (b - 1) (sz - 1) AND 1 = drop_bit (b - 1) (sz - 1) AND mask 1"
      by (simp add: mask_eq_exp_minus_1)
    then show ?thesis by (simp only: unat_and_mask unat_drop v1 e_def power_one_right)
  qed
  moreover have "v div e mod 2 = (if v < 3 * e then 0 else 1)"
  proof (cases "v < 3 * e")
    case True
    then have "v div e = 2" using b(1) e by (intro div_nat_eqI) (simp_all add: algebra_simps)
    then show ?thesis using True by simp
  next
    case False
    then have "v div e = 3" using b(2) e by (intro div_nat_eqI) (simp_all add: algebra_simps)
    then show ?thesis using False by simp
  qed
  ultimately have half: "unat (drop_bit (b - 1) (sz - 1) AND 1) = (if v < 3 * e then 0 else 1)" by simp
  have "memx_heap_class_for_size sz
      = ucast ((count_bits 0 v - 5) * 2) + (drop_bit (b - 1) (sz - 1) AND 1) + 1"
    using sz nb by (simp add: memx_heap_class_for_size_def v1 m2 Let_def)
  moreover have "unat (ucast ((count_bits 0 v - 5) * 2) + (drop_bit (b - 1) (sz - 1) AND 1) + 1)
      = 2 * (b - 4) + (if v < 3 * e then 0 else 1) + 1"
    using unat_sum3 [of "ucast ((count_bits 0 v - 5) * 2)" "drop_bit (b - 1) (sz - 1) AND 1"] b(4)
    unfolding uc half by (simp split: if_splits)
  moreover have "2 ^ b + 2 ^ (b - 1) = 3 * e" using e by (simp add: e_def)
  ultimately show ?thesis by simp
qed

lemma octave_of: "0 < (v :: nat) \<Longrightarrow> \<exists>b. 2 ^ b \<le> v \<and> v < 2 ^ Suc b"
proof (induction v rule: less_induct)
  case (less v)
  show ?case
  proof (cases "v = 1")
    case True
    then show ?thesis by (intro exI [of _ 0]) simp
  next
    case False
    then obtain b where "2 ^ b \<le> v div 2" "v div 2 < 2 ^ Suc b" using less.IH [of "v div 2"] less.prems by auto
    then show ?thesis by (intro exI [of _ "Suc b"]) auto
  qed
qed

definition class_size :: "nat \<Rightarrow> nat" where
  "class_size k = unat (memx_heap_class_sizes ! k)"

lemma class_size_octave:
  assumes "4 \<le> b" "b \<le> 12"
  shows "class_size (2 * (b - 4) + 1) = 2 ^ b + 2 ^ (b - 1)" "class_size (2 * (b - 4) + 2) = 2 ^ Suc b"
    "class_size (2 * (b - 4)) = 2 ^ b"
proof -
  have "b \<in> {4, 5, 6, 7, 8, 9, 10, 11, 12}" using assms by auto
  then show "class_size (2 * (b - 4) + 1) = 2 ^ b + 2 ^ (b - 1)" "class_size (2 * (b - 4) + 2) = 2 ^ Suc b"
    "class_size (2 * (b - 4)) = 2 ^ b"
    by (auto simp: class_size_def memx_heap_class_sizes_def)
qed

lemma memx_heap_class_spec:
  assumes "sz \<noteq> 0"
  shows "if unat sz \<le> 8192
     then unat (memx_heap_class_for_size sz) < 19 \<and> unat sz \<le> class_size (unat (memx_heap_class_for_size sz))
       \<and> (unat (memx_heap_class_for_size sz) \<noteq> 0 \<longrightarrow>
            class_size (unat (memx_heap_class_for_size sz) - 1) < unat sz)
     else 19 \<le> unat (memx_heap_class_for_size sz)"
proof (cases "unat sz \<le> 16")
  case True
  then have "memx_heap_class_for_size sz = 0" by (simp add: memx_heap_class_for_size_def word_le_nat_alt)
  then show ?thesis using True by (simp add: class_size_def memx_heap_class_sizes_def)
next
  case False
  then obtain v where v: "unat sz = Suc v" by (cases "unat sz") auto
  then have "0 < v" using False by simp
  then obtain b where b: "2 ^ b \<le> v" "v < 2 ^ Suc b" using octave_of by blast
  have b4: "4 \<le> b"
  proof (rule ccontr)
    assume "\<not> 4 \<le> b"
    then have "(2 :: nat) ^ Suc b \<le> 2 ^ 4" by (intro power_increasing) auto
    then show False using b(2) v False by simp
  qed
  have b64: "b < 64"
  proof (rule ccontr)
    assume "\<not> b < 64"
    then have "(2 :: nat) ^ 64 \<le> 2 ^ b" by (intro power_increasing) auto
    then show False using b(1) v unat_lt_64 [of sz] by simp
  qed
  note cl = class_in_octave [OF v b b4 b64]
  show ?thesis
  proof (cases "b \<le> 12")
    case True
    note cs = class_size_octave [OF b4 True]
    have "(2 :: nat) ^ Suc b \<le> 2 ^ 13" using True by (intro power_increasing) auto
    then have "unat sz \<le> 8192" using v b(2) by simp
    moreover have "2 * (b - 4) + 2 < 19" using True b4 by linarith
    moreover have "2 * (b - 4) + 2 - 1 = 2 * (b - 4) + 1" "2 * (b - 4) + 1 - 1 = 2 * (b - 4)" by simp_all
    ultimately show ?thesis
      using v b cs unfolding cl by (cases "v < 2 ^ b + 2 ^ (b - 1)") (simp_all only: if_True if_False, simp_all)
  next
    case False
    then have "(2 :: nat) ^ 13 \<le> 2 ^ b" by (intro power_increasing) auto
    then have "\<not> unat sz \<le> 8192" using v b(1) by simp
    moreover have "19 \<le> 2 * (b - 4) + 1" using False by linarith
    ultimately show ?thesis unfolding cl by simp
  qed
qed

section \<open>Rounding\<close>

lemma memx_heap_align_up_spec:
  assumes a: "unat a = 2 ^ k" "k < 64"
  shows "memx_heap_align_up v a = (if 2 ^ 64 \<le> unat v + (unat a - 1) then 0
      else of_nat (page_round (unat a) (unat v)))"
proof -
  have pos: "0 < unat a" by (simp add: a)
  have a1: "unat (a - 1) = unat a - 1" using pos by (intro unat_minus_one) auto
  have "unat (SIZE_MAX - (a - 1)) = unat SIZE_MAX - unat (a - 1)" by (rule unat_sub) simp
  then have "SIZE_MAX - (a - 1) < v \<longleftrightarrow> 18446744073709551615 - (unat a - 1) < unat v"
    by (simp only: word_less_nat_alt a1 unat_SIZE_MAX)
  also have "\<dots> \<longleftrightarrow> 2 ^ 64 \<le> unat v + (unat a - 1)" using pos unat_lt_64 [of a] by (simp, linarith)
  finally have g: "SIZE_MAX - (a - 1) < v \<longleftrightarrow> 2 ^ 64 \<le> unat v + (unat a - 1)" .
  show ?thesis
  proof (cases "2 ^ 64 \<le> unat v + (unat a - 1)")
    case True
    then show ?thesis using g by (simp add: memx_heap_align_up_def)
  next
    case False
    then have "unat v + unat a \<le> 2 ^ 64" using pos by linarith
    note al = align_address [OF a this]
    have "(v + a - 1) AND NOT (a - 1) = of_nat (page_round (unat a) (unat v))"
      unfolding al(1) [symmetric] by simp
    then show ?thesis using g False unfolding memx_heap_align_up_def by simp
  qed
qed

end
