(* ===== verification/Memx_Heap.thy ===== *)
theory Memx_Heap
  imports Memx_Sizes Memx_Interface
begin

text \<open>
  The state of the allocator of \<^verbatim>\<open>src/allocator/heap.c\<close> and its small-object operations: spans
  carved into blocks, central bins of chunks, thread caches with a local and a spare segment and a
  queue of remote frees.  Every structure of the code is a record, kept in a store by its address;
  the lists are the code's, linked through the headers.  An operation is \<^term>\<open>None\<close> where the C
  program reads or writes outside such a structure, fails an \<^verbatim>\<open>assert\<close>, or does not return.
  Operations are atomic: a lock makes a critical section one step, and threads are told apart by
  their thread-local lists of caches.
\<close>

section \<open>Structures\<close>

type_synonym u8 = "8 word"

record memx_heap_config =
  hc_reserve_size :: u64
  hc_span_shift :: u32
  hc_cache_batch :: u64
  hc_cache_limit :: u64
  hc_collect_activity_statistics :: bool

text \<open>\<open>bk_link\<close> is the union of \<^verbatim>\<open>next\<close> and \<^verbatim>\<open>owner\<close>.\<close>

record memx_heap_block =
  bk_link :: u64
  bk_requested_size :: u32
  bk_state :: u32

record memx_heap_span =
  sp_magic :: u64
  sp_heap :: u64
  sp_next :: u64
  sp_base :: u64
  sp_block_stride :: u64
  sp_block_count :: u64
  sp_class_index :: u64

record memx_heap_large =
  lg_next :: u64
  lg_mapping :: "u64 \<times> u64"
  lg_pointer :: u64
  lg_requested_size :: u64
  lg_alignment :: u64

text \<open>The arrays with one entry per class are functions of the class.\<close>

record memx_heap_cache =
  ch_heap :: u64
  ch_heap_next :: u64
  ch_tls_next :: u64
  ch_local :: "nat \<Rightarrow> u64"
  ch_local_tail :: "nat \<Rightarrow> u64"
  ch_local_count :: "nat \<Rightarrow> u64"
  ch_spare :: "nat \<Rightarrow> u64"
  ch_spare_tail :: "nat \<Rightarrow> u64"
  ch_spare_count :: "nat \<Rightarrow> u64"
  ch_remote :: "nat \<Rightarrow> u64"
  ch_remote_count :: "nat \<Rightarrow> u64"
  ch_allocation_count :: u64
  ch_cache_hits :: u64
  ch_cache_misses :: u64
  ch_accepting_remote :: bool

text \<open>\<open>hp_class_table\<close> is the array \<open>hp_span_classes\<close> points to.\<close>

record 'c memx_heap =
  hp_self :: u64
  hp_config :: memx_heap_config
  hp_arena :: "u64 \<times> u64"
  hp_span_size :: u64
  hp_span_capacity :: u64
  hp_next_span :: u64
  hp_commit_granularity :: u64
  hp_committed_bytes :: u64
  hp_span_classes :: u64
  hp_class_table :: "u8 list"
  hp_index :: "'c memx_index"
  hp_initialized_class_locks :: u64
  hp_central :: "nat \<Rightarrow> u64"
  hp_central_count :: "nat \<Rightarrow> u64"
  hp_spans :: u64
  hp_large_buckets :: u64
  hp_large_bucket_count :: u64
  hp_large_count :: u64
  hp_caches :: u64
  hp_exclusive_cache :: u64
  hp_live_requested_bytes :: u64
  hp_peak_live_requested_bytes :: u64
  hp_committed_spans :: u64
  hp_large_allocation_count :: u64
  hp_frees :: u64
  hp_remote_frees :: u64
  hp_invalid_frees :: u64
  hp_thread_cache_count :: u64

text \<open>The bytes a pointer handed to a client leads to: their number and contents.\<close>

record payload =
  pl_size :: nat
  pl_bytes :: "nat \<Rightarrow> u8"

text \<open>
  \<open>hw_mem\<close> is the C library's heap with the index in it (and the kernel's state as its context);
  \<open>hw_tls\<close> and \<open>hw_tls_last\<close> are the thread-local variables \<^verbatim>\<open>memx_heap_tls_caches\<close> and
  \<^verbatim>\<open>memx_heap_tls_last_cache\<close> of each thread; \<open>hw_huge_cache\<close> is the static of
  \<^const>\<open>memx_os_huge_page_size\<close>.  One heap is modelled; caches of other heaps may sit in the
  thread-local lists and are told apart by \<^const>\<open>ch_heap\<close>.
\<close>

record 'c heap_world =
  hw_heap :: "'c memx_heap"
  hw_mem :: "'c memx_world"
  hw_blocks :: "u64 \<rightharpoonup> memx_heap_block"
  hw_bytes :: "u64 \<rightharpoonup> payload"
  hw_spans :: "u64 \<rightharpoonup> memx_heap_span"
  hw_larges :: "u64 \<rightharpoonup> memx_heap_large"
  hw_caches :: "u64 \<rightharpoonup> memx_heap_cache"
  hw_tls :: "nat \<Rightarrow> u64"
  hw_tls_last :: "nat \<Rightarrow> u64"
  hw_huge_cache :: u64

text \<open>The C library, the kernel and the threads library, as far as the code calls them.\<close>

record 'c heap_env =
  he_libc :: "'c libc"
  he_sys :: "'c sys_calls"
  he_mutex_init :: "'c \<Rightarrow> bool \<times> 'c"
  he_mutex_destroy :: "'c \<Rightarrow> 'c"

definition he_allocator :: "'c heap_env \<Rightarrow> 'c memx_allocator" where
  "he_allocator E = \<lparr>allocate = Some (memx_default_allocate (he_libc E)),
     deallocate = Some (memx_default_deallocate (he_libc E))\<rparr>"

definition MEMX_HEAP_SPAN_MAGIC :: u64 where
  "MEMX_HEAP_SPAN_MAGIC = 0x6d656d787370616e"

definition sizeof_block :: u64 where "sizeof_block = 16"
definition sizeof_span :: u64 where "sizeof_span = 56"
definition sizeof_cache :: u64 where "sizeof_cache = 1312"
definition sizeof_large :: u64 where "sizeof_large = 48"
definition sizeof_heap :: u64 where "sizeof_heap = 1376"
definition max_align :: u64 where "max_align = 16"

section \<open>Access\<close>

definition set_block ::
  "u64 \<Rightarrow> (memx_heap_block \<Rightarrow> memx_heap_block) \<Rightarrow> 'c heap_world \<Rightarrow> 'c heap_world option" where
  "set_block p f w = do {
     b \<leftarrow> hw_blocks w p;
     Some (w\<lparr>hw_blocks := (hw_blocks w)(p \<mapsto> f b)\<rparr>)
   }"

definition set_cache ::
  "u64 \<Rightarrow> (memx_heap_cache \<Rightarrow> memx_heap_cache) \<Rightarrow> 'c heap_world \<Rightarrow> 'c heap_world option" where
  "set_cache p f w = do {
     c \<leftarrow> hw_caches w p;
     Some (w\<lparr>hw_caches := (hw_caches w)(p \<mapsto> f c)\<rparr>)
   }"

definition upd_heap :: "('c memx_heap \<Rightarrow> 'c memx_heap) \<Rightarrow> 'c heap_world \<Rightarrow> 'c heap_world" where
  "upd_heap f w = w\<lparr>hw_heap := f (hw_heap w)\<rparr>"

definition upd_ctx :: "'c \<Rightarrow> 'c heap_world \<Rightarrow> 'c heap_world" where
  "upd_ctx c w = w\<lparr>hw_mem := (hw_mem w)\<lparr>ctx := c\<rparr>\<rparr>"

text \<open>A 64-bit word in the little-endian byte order of the build.\<close>

fun le_word :: "nat \<Rightarrow> (nat \<Rightarrow> u8) \<Rightarrow> u64" where
  "le_word 0 f = 0"
| "le_word (Suc n) f = le_word n f OR push_bit (8 * n) (ucast (f n))"

definition get_word :: "nat \<Rightarrow> (nat \<Rightarrow> u8) \<Rightarrow> u64" where
  "get_word off f = le_word 8 (\<lambda>i. f (off + i))"

definition put_word :: "nat \<Rightarrow> u64 \<Rightarrow> (nat \<Rightarrow> u8) \<Rightarrow> nat \<Rightarrow> u8" where
  "put_word off v f i = (if off \<le> i \<and> i < off + 8 then ucast (drop_bit (8 * (i - off)) v) else f i)"

text \<open>\<^verbatim>\<open>memx_heap_central_chunk_t\<close>: two words at the start of the payload of the first block.\<close>

definition read_chunk :: "'c heap_world \<Rightarrow> u64 \<Rightarrow> (u64 \<times> u64) option" where
  "read_chunk w head = do {
     pl \<leftarrow> hw_bytes w (head + sizeof_block);
     if pl_size pl < 16 then None else Some (get_word 0 (pl_bytes pl), get_word 8 (pl_bytes pl))
   }"

definition write_chunk :: "u64 \<Rightarrow> u64 \<Rightarrow> u64 \<Rightarrow> 'c heap_world \<Rightarrow> 'c heap_world option" where
  "write_chunk head chunk_next chunk_tail w = do {
     pl \<leftarrow> hw_bytes w (head + sizeof_block);
     if pl_size pl < 16 then None
     else Some (w\<lparr>hw_bytes := (hw_bytes w)(head + sizeof_block \<mapsto>
            pl\<lparr>pl_bytes := put_word 8 chunk_tail (put_word 0 chunk_next (pl_bytes pl))\<rparr>)\<rparr>)
   }"

section \<open>Counters\<close>

definition memx_heap_update_peak :: "u64 \<Rightarrow> 'c heap_world \<Rightarrow> 'c heap_world" where
  "memx_heap_update_peak current w =
     upd_heap (\<lambda>h. if hp_peak_live_requested_bytes h < current
                   then h\<lparr>hp_peak_live_requested_bytes := current\<rparr> else h) w"

definition memx_heap_add_live_counted :: "u64 \<Rightarrow> 'c heap_world \<Rightarrow> 'c heap_world" where
  "memx_heap_add_live_counted bytes w = (
     let previous = hp_live_requested_bytes (hw_heap w) in
     memx_heap_update_peak (previous + bytes)
       (upd_heap (\<lambda>h. h\<lparr>hp_live_requested_bytes := previous + bytes\<rparr>) w))"

abbreviation collects :: "'c heap_world \<Rightarrow> bool" where
  "collects w \<equiv> hc_collect_activity_statistics (hp_config (hw_heap w))"

definition memx_heap_add_live :: "u64 \<Rightarrow> 'c heap_world \<Rightarrow> 'c heap_world" where
  "memx_heap_add_live bytes w = (if collects w then memx_heap_add_live_counted bytes w else w)"

section \<open>Thread caches\<close>

text \<open>The loop of \<^verbatim>\<open>memx_heap_find_cache\<close> along \<^verbatim>\<open>tls_next\<close>.\<close>

partial_function (option) find_cache_loop :: "'c heap_world \<Rightarrow> u64 \<Rightarrow> u64 \<Rightarrow> u64 option" where
  "find_cache_loop w heap' cache =
     (if cache = 0 then Some 0
      else do {
        c \<leftarrow> hw_caches w cache;
        if ch_heap c = heap' then Some cache else find_cache_loop w heap' (ch_tls_next c)
      })"

definition memx_heap_find_cache :: "nat \<Rightarrow> 'c heap_world \<Rightarrow> (u64 \<times> 'c heap_world) option" where
  "memx_heap_find_cache t w = (
     let last = hw_tls_last w t; heap' = hp_self (hw_heap w) in do {
       hit \<leftarrow> (if last = 0 then Some False
               else do { c \<leftarrow> hw_caches w last; Some (ch_heap c = heap') });
       if hit then Some (last, w)
       else do {
         cache \<leftarrow> find_cache_loop w heap' (hw_tls w t);
         if cache = 0 then Some (0, w)
         else Some (cache, w\<lparr>hw_tls_last := (hw_tls_last w)(t := cache)\<rparr>)
       }
     })"

definition new_cache :: "u64 \<Rightarrow> u64 \<Rightarrow> u64 \<Rightarrow> memx_heap_cache" where
  "new_cache heap' heap_next tls_next =
     \<lparr>ch_heap = heap', ch_heap_next = heap_next, ch_tls_next = tls_next,
      ch_local = (\<lambda>k. 0), ch_local_tail = (\<lambda>k. 0), ch_local_count = (\<lambda>k. 0),
      ch_spare = (\<lambda>k. 0), ch_spare_tail = (\<lambda>k. 0), ch_spare_count = (\<lambda>k. 0),
      ch_remote = (\<lambda>k. 0), ch_remote_count = (\<lambda>k. 0), ch_allocation_count = 0,
      ch_cache_hits = 0, ch_cache_misses = 0, ch_accepting_remote = True\<rparr>"

definition memx_heap_create_cache ::
  "'c heap_env \<Rightarrow> nat \<Rightarrow> 'c heap_world \<Rightarrow> (u64 \<times> 'c heap_world) option" where
  "memx_heap_create_cache E t w = do {
     (p, m) \<leftarrow> c_malloc (he_allocator E) sizeof_cache (hw_mem w);
     let w = w\<lparr>hw_mem := m\<rparr>;
     if p = 0 then Some (0, w)
     else
       let (ok, c) = he_mutex_init E (ctx (hw_mem w)); w = upd_ctx c w in
       if \<not> ok then do { m \<leftarrow> c_free (he_allocator E) p (hw_mem w); Some (0, w\<lparr>hw_mem := m\<rparr>) }
       else Some (p,
         upd_heap (\<lambda>h. h\<lparr>hp_exclusive_cache := (if hp_caches h = 0 then p else 0), hp_caches := p,
                         hp_thread_cache_count := hp_thread_cache_count h + 1\<rparr>)
           (w\<lparr>hw_caches := (hw_caches w)(p \<mapsto>
                 new_cache (hp_self (hw_heap w)) (hp_caches (hw_heap w)) (hw_tls w t)),
              hw_tls := (hw_tls w)(t := p), hw_tls_last := (hw_tls_last w)(t := p)\<rparr>))
   }"

definition memx_heap_get_cache ::
  "'c heap_env \<Rightarrow> nat \<Rightarrow> 'c heap_world \<Rightarrow> (u64 \<times> 'c heap_world) option" where
  "memx_heap_get_cache E t w = do {
     (cache, w) \<leftarrow> memx_heap_find_cache t w;
     if cache = 0 then memx_heap_create_cache E t w else Some (cache, w)
   }"

section \<open>Central bins\<close>

definition UINT32_MAX :: u64 where
  "UINT32_MAX = 0xFFFFFFFF"

definition memx_heap_push_central_chunk_locked ::
  "nat \<Rightarrow> u64 \<Rightarrow> u64 \<Rightarrow> u64 \<Rightarrow> 'c heap_world \<Rightarrow> 'c heap_world option" where
  "memx_heap_push_central_chunk_locked k head tail count w =
     (if head = 0 \<or> tail = 0 \<or> count = 0 \<or> UINT32_MAX < count then None
      else do {
        w \<leftarrow> set_block tail (\<lambda>b. b\<lparr>bk_link := 0\<rparr>) w;
        w \<leftarrow> write_chunk head (hp_central (hw_heap w) k) tail w;
        w \<leftarrow> set_block head (\<lambda>b. b\<lparr>bk_requested_size := ucast count\<rparr>) w;
        Some (upd_heap (\<lambda>h. h\<lparr>hp_central := (hp_central h)(k := head),
                hp_central_count := (hp_central_count h)(k := hp_central_count h k + count)\<rparr>) w)
      })"

definition memx_heap_push_central_locked ::
  "nat \<Rightarrow> u64 \<Rightarrow> 'c heap_world \<Rightarrow> 'c heap_world option" where
  "memx_heap_push_central_locked k block w = memx_heap_push_central_chunk_locked k block block 1 w"

section \<open>Spans\<close>

definition memx_heap_commit_through_locked ::
  "'c heap_env \<Rightarrow> u64 \<Rightarrow> 'c heap_world \<Rightarrow> bool \<times> 'c heap_world" where
  "memx_heap_commit_through_locked E required_bytes w = (
     let h = hw_heap w in
     if required_bytes \<le> hp_committed_bytes h then (True, w)
     else let target = memx_heap_align_up required_bytes (hp_commit_granularity h);
              target = (if target = 0 \<or> snd (hp_arena h) < target then snd (hp_arena h) else target);
              (ok, c) = memx_os_commit (he_sys E) (fst (hp_arena h) + hp_committed_bytes h)
                          (target - hp_committed_bytes h) (ctx (hw_mem w));
              w = upd_ctx c w
          in if \<not> ok then (False, w)
             else (True, upd_heap (\<lambda>h. h\<lparr>hp_committed_bytes := target\<rparr>) w))"

text \<open>The claimed span, 0 for the null pointer.  \<^verbatim>\<open>memx_insert\<close> is the index of \<open>Memx_Mutate\<close>.\<close>

definition memx_heap_claim_span ::
  "'c heap_env \<Rightarrow> nat \<Rightarrow> u64 \<Rightarrow> u64 \<Rightarrow> u64 \<Rightarrow> 'c heap_world \<Rightarrow> (u64 \<times> 'c heap_world) option" where
  "memx_heap_claim_span E k header_size stride block_count w = (
     let h = hw_heap w in
     if hp_span_capacity h \<le> hp_next_span h then Some (0, w)
     else
       let base = fst (hp_arena h) + hp_next_span h * hp_span_size h;
           (ok, w) = memx_heap_commit_through_locked E (hp_next_span h * hp_span_size h + hp_span_size h) w
       in if \<not> ok then Some (0, w)
          else
            let span = \<lparr>sp_magic = MEMX_HEAP_SPAN_MAGIC, sp_heap = hp_self h, sp_next = hp_spans h,
                        sp_base = base + header_size, sp_block_stride = stride,
                        sp_block_count = block_count, sp_class_index = of_nat k\<rparr>;
                w = w\<lparr>hw_spans := (hw_spans w)(base \<mapsto> span)\<rparr>
            in do {
              (status, ix, m) \<leftarrow> memx_insert (Some (hp_index (hw_heap w))) base (hp_span_size h) base (hw_mem w);
              ix \<leftarrow> ix;
              let w = upd_heap (\<lambda>h. h\<lparr>hp_index := ix\<rparr>) (w\<lparr>hw_mem := m\<rparr>);
              if status \<noteq> MEMX_OK then Some (0, w)
              else if length (hp_class_table (hw_heap w)) \<le> unat (hp_next_span h) then None
              else Some (base, upd_heap (\<lambda>h. h\<lparr>
                     hp_class_table := (hp_class_table h)[unat (hp_next_span h) := of_nat k],
                     hp_spans := base, hp_next_span := hp_next_span h + 1,
                     hp_committed_spans := hp_committed_spans h + 1\<rparr>) w)
            })"

text \<open>The carving loop: \<open>n\<close> blocks from number \<open>i\<close> on; \<open>head\<close>, \<open>tail\<close> and \<open>count\<close> are the chunk
  under construction.  A new block is zero, as the kernel maps it.\<close>

fun carve_blocks ::
  "nat \<Rightarrow> u64 \<Rightarrow> u64 \<Rightarrow> u64 \<Rightarrow> u64 \<Rightarrow> nat \<Rightarrow> u64 \<Rightarrow> u64 \<Rightarrow> u64 \<Rightarrow> 'c heap_world
     \<Rightarrow> 'c heap_world option" where
  "carve_blocks k base stride limit i 0 head tail count w =
     (if count \<noteq> 0 then memx_heap_push_central_chunk_locked k head tail count w else Some w)"
| "carve_blocks k base stride limit i (Suc n) head tail count w = (
     let block = base + i * stride;
         w = w\<lparr>hw_blocks := (hw_blocks w)(block \<mapsto>
                 \<lparr>bk_link = head, bk_requested_size = 0, bk_state = 0\<rparr>),
               hw_bytes := (hw_bytes w)(block + sizeof_block \<mapsto>
                 \<lparr>pl_size = class_size k, pl_bytes = (\<lambda>_. 0)\<rparr>)\<rparr>;
         tail = (if tail = 0 then block else tail);
         count = count + 1
     in if count = limit then do {
          w \<leftarrow> memx_heap_push_central_chunk_locked k block tail count w;
          carve_blocks k base stride limit (i + 1) n 0 0 0 w
        }
        else carve_blocks k base stride limit (i + 1) n block tail count w)"

definition span_header_size :: u64 where
  "span_header_size = memx_heap_align_up sizeof_span max_align"

definition block_stride :: "nat \<Rightarrow> u64" where
  "block_stride k = memx_heap_align_up (sizeof_block + memx_heap_class_sizes ! k) max_align"

definition memx_heap_create_span_locked ::
  "'c heap_env \<Rightarrow> nat \<Rightarrow> 'c heap_world \<Rightarrow> (bool \<times> 'c heap_world) option" where
  "memx_heap_create_span_locked E k w = (
     let h = hw_heap w; header_size = span_header_size; stride = block_stride k;
         chunk_limit = min (hc_cache_batch (hp_config h)) (hc_cache_limit (hp_config h))
     in if header_size = 0 \<or> stride = 0 \<or> hp_span_size h \<le> header_size then Some (False, w)
        else let block_count = (hp_span_size h - header_size) div stride in
        if block_count = 0 then Some (False, w)
        else do {
          (span, w) \<leftarrow> memx_heap_claim_span E k header_size stride block_count w;
          if span = 0 then Some (False, w)
          else do {
            s \<leftarrow> hw_spans w span;
            w \<leftarrow> carve_blocks k (sp_base s) stride chunk_limit 0 (unat block_count) 0 0 0 w;
            Some (True, w)
          }
        })"

section \<open>Segments of a cache\<close>

definition memx_heap_flush_excess_slow :: "u64 \<Rightarrow> nat \<Rightarrow> 'c heap_world \<Rightarrow> 'c heap_world option" where
  "memx_heap_flush_excess_slow cache k w = do {
     c \<leftarrow> hw_caches w cache;
     w \<leftarrow> (if ch_spare c k \<noteq> 0 \<and> ch_spare_tail c k \<noteq> 0 \<and> ch_spare_count c k \<noteq> 0
               \<and> ch_spare_count c k \<le> UINT32_MAX
            then memx_heap_push_central_chunk_locked k (ch_spare c k) (ch_spare_tail c k)
                   (ch_spare_count c k) w
            else Some w);
     set_cache cache (\<lambda>c. c\<lparr>ch_spare := (ch_spare c)(k := ch_local c k),
         ch_spare_tail := (ch_spare_tail c)(k := ch_local_tail c k),
         ch_spare_count := (ch_spare_count c)(k := ch_local_count c k),
         ch_local := (ch_local c)(k := 0), ch_local_tail := (ch_local_tail c)(k := 0),
         ch_local_count := (ch_local_count c)(k := 0)\<rparr>) w
   }"

definition memx_heap_trim_cache :: "u64 \<Rightarrow> nat \<Rightarrow> 'c heap_world \<Rightarrow> 'c heap_world option" where
  "memx_heap_trim_cache cache k w = do {
     c \<leftarrow> hw_caches w cache;
     let n = ch_local_count c k;
     let limit = hc_cache_limit (hp_config (hw_heap w));
     if limit < n then None
     else if limit div 2 \<le> n \<or> UINT32_MAX \<le> n \<or> limit - n < ch_spare_count c k
     then memx_heap_flush_excess_slow cache k w
     else Some w
   }"

text \<open>Pushing a freed block on the local segment of a cache, the step that
  \<^verbatim>\<open>memx_heap_drain_remote\<close> and \<^verbatim>\<open>memx_heap_route_small\<close> share.\<close>

definition push_local :: "u64 \<Rightarrow> nat \<Rightarrow> u64 \<Rightarrow> 'c heap_world \<Rightarrow> 'c heap_world option" where
  "push_local cache k block w = do {
     c \<leftarrow> hw_caches w cache;
     w \<leftarrow> set_block block (\<lambda>b. b\<lparr>bk_link := ch_local c k\<rparr>) w;
     w \<leftarrow> set_cache cache (\<lambda>c. c\<lparr>
         ch_local_tail := (if ch_local c k = 0 then (ch_local_tail c)(k := block) else ch_local_tail c),
         ch_local := (ch_local c)(k := block),
         ch_local_count := (ch_local_count c)(k := ch_local_count c k + 1)\<rparr>) w;
     memx_heap_trim_cache cache k w
   }"

partial_function (option) drain_loop :: "u64 \<Rightarrow> nat \<Rightarrow> u64 \<Rightarrow> 'c heap_world \<Rightarrow> 'c heap_world option" where
  "drain_loop cache k block w =
     (if block = 0 then Some w
      else do {
        b \<leftarrow> hw_blocks w block;
        w \<leftarrow> push_local cache k block w;
        drain_loop cache k (bk_link b) w
      })"

definition memx_heap_drain_remote :: "u64 \<Rightarrow> nat \<Rightarrow> 'c heap_world \<Rightarrow> 'c heap_world option" where
  "memx_heap_drain_remote cache k w = do {
     c \<leftarrow> hw_caches w cache;
     w \<leftarrow> set_cache cache (\<lambda>c. c\<lparr>ch_remote := (ch_remote c)(k := 0),
            ch_remote_count := (ch_remote_count c)(k := 0)\<rparr>) w;
     drain_loop cache k (ch_remote c k) w
   }"

definition memx_heap_adopt_spare :: "u64 \<Rightarrow> nat \<Rightarrow> 'c heap_world \<Rightarrow> (bool \<times> 'c heap_world) option" where
  "memx_heap_adopt_spare cache k w = do {
     c \<leftarrow> hw_caches w cache;
     if ch_spare c k = 0 then Some (False, w)
     else do {
       w \<leftarrow> set_cache cache (\<lambda>c. c\<lparr>ch_local := (ch_local c)(k := ch_spare c k),
           ch_local_tail := (ch_local_tail c)(k := ch_spare_tail c k),
           ch_local_count := (ch_local_count c)(k := ch_spare_count c k),
           ch_spare := (ch_spare c)(k := 0), ch_spare_tail := (ch_spare_tail c)(k := 0),
           ch_spare_count := (ch_spare_count c)(k := 0)\<rparr>) w;
       Some (True, w)
     }
   }"

text \<open>Taking the first chunk of a central bin.\<close>

definition take_chunk :: "u64 \<Rightarrow> nat \<Rightarrow> 'c heap_world \<Rightarrow> (u64 \<times> 'c heap_world) option" where
  "take_chunk cache k w = do {
     let first = hp_central (hw_heap w) k;
     (chunk_next, tail) \<leftarrow> read_chunk w first;
     b \<leftarrow> hw_blocks w first;
     let moved = (ucast (bk_requested_size b) :: u64);
     c \<leftarrow> hw_caches w cache;
     let w = upd_heap (\<lambda>h. h\<lparr>hp_central := (hp_central h)(k := chunk_next)\<rparr>) w;
     w \<leftarrow> set_block tail (\<lambda>b. b\<lparr>bk_link := ch_local c k\<rparr>) w;
     let w = upd_heap (\<lambda>h. h\<lparr>hp_central_count :=
                (hp_central_count h)(k := hp_central_count h k - moved)\<rparr>) w;
     w \<leftarrow> set_cache cache (\<lambda>c. c\<lparr>
         ch_local_tail := (if ch_local c k = 0 then (ch_local_tail c)(k := tail) else ch_local_tail c),
         ch_local := (ch_local c)(k := first),
         ch_local_count := (ch_local_count c)(k := ch_local_count c k + moved)\<rparr>) w;
     Some (first, w)
   }"

definition memx_heap_refill ::
  "'c heap_env \<Rightarrow> u64 \<Rightarrow> nat \<Rightarrow> 'c heap_world \<Rightarrow> (u64 \<times> 'c heap_world) option" where
  "memx_heap_refill E cache k w = do {
     (adopted, w) \<leftarrow> memx_heap_adopt_spare cache k w;
     if adopted then do { c \<leftarrow> hw_caches w cache; Some (ch_local c k, w) }
     else do {
       w \<leftarrow> memx_heap_drain_remote cache k w;
       c \<leftarrow> hw_caches w cache;
       (_, w) \<leftarrow> (if ch_local c k = 0 then memx_heap_adopt_spare cache k w else Some (False, w));
       c \<leftarrow> hw_caches w cache;
       if ch_local c k \<noteq> 0 then Some (ch_local c k, w)
       else do {
         w \<leftarrow> (if collects w
                then set_cache cache (\<lambda>c. c\<lparr>ch_cache_misses := ch_cache_misses c + 1\<rparr>) w else Some w);
         (ready, w) \<leftarrow> (if hp_central (hw_heap w) k = 0
                         then memx_heap_create_span_locked E k w else Some (True, w));
         if \<not> ready then Some (0, w) else take_chunk cache k w
       }
     }
   }"

section \<open>Allocation\<close>

text \<open>The returned pointer is the block plus its header; 0 is the null pointer.\<close>

definition memx_heap_allocate_small ::
  "'c heap_env \<Rightarrow> nat \<Rightarrow> u64 \<Rightarrow> nat \<Rightarrow> 'c heap_world \<Rightarrow> (u64 \<times> 'c heap_world) option" where
  "memx_heap_allocate_small E t sz k w = do {
     (cache, w) \<leftarrow> memx_heap_get_cache E t w;
     if 19 \<le> k then None
     else if cache = 0 then Some (0, w)
     else do {
       c \<leftarrow> hw_caches w cache;
       let cache_hit = (ch_local c k \<noteq> 0);
       (block, w) \<leftarrow> (if cache_hit then Some (ch_local c k, w) else memx_heap_refill E cache k w);
       if block = 0 then Some (0, w)
       else do {
         b \<leftarrow> hw_blocks w block;
         if bk_state b \<noteq> 0 then None
         else do {
           w \<leftarrow> set_cache cache (\<lambda>c. c\<lparr>ch_local := (ch_local c)(k := bk_link b),
               ch_local_tail := (if bk_link b = 0 then (ch_local_tail c)(k := 0) else ch_local_tail c),
               ch_local_count := (ch_local_count c)(k := ch_local_count c k - 1)\<rparr>) w;
           w \<leftarrow> set_block block (\<lambda>b. b\<lparr>bk_link := cache, bk_requested_size := ucast sz,
               bk_state := 1\<rparr>) w;
           w \<leftarrow> (if collects w then do {
                    w \<leftarrow> set_cache cache (\<lambda>c. c\<lparr>
                        ch_cache_hits := ch_cache_hits c + (if cache_hit then 1 else 0),
                        ch_allocation_count := ch_allocation_count c + 1\<rparr>) w;
                    Some (memx_heap_add_live_counted sz w)
                  }
                  else Some w);
           Some (block + sizeof_block, w)
         }
       }
     }
   }"

section \<open>Release\<close>

text \<open>The counters of a release.\<close>

definition count_release :: "u64 \<Rightarrow> 'c heap_world \<Rightarrow> 'c heap_world" where
  "count_release bytes w =
     (if collects w
      then upd_heap (\<lambda>h. h\<lparr>hp_live_requested_bytes := hp_live_requested_bytes h - bytes,
                           hp_frees := hp_frees h + 1\<rparr>) w
      else w)"

definition memx_heap_route_small ::
  "nat \<Rightarrow> u64 \<Rightarrow> nat \<Rightarrow> 'c heap_world \<Rightarrow> 'c heap_world option" where
  "memx_heap_route_small t block k w = do {
     let current = hw_tls_last w t;
     b \<leftarrow> hw_blocks w block;
     let w = count_release (ucast (bk_requested_size b)) w;
     (owner, current, w) \<leftarrow>
       (if current \<noteq> 0 \<and> current = hp_exclusive_cache (hw_heap w) then Some (current, current, w)
        else if bk_link b \<noteq> current then do {
          (found, w) \<leftarrow> memx_heap_find_cache t w;
          Some (bk_link b, found, w)
        }
        else Some (bk_link b, current, w));
     if owner = current \<and> current \<noteq> 0 then push_local current k block w
     else do {
       accepting \<leftarrow> (if owner = 0 then Some False
                      else do { c \<leftarrow> hw_caches w owner; Some (ch_accepting_remote c) });
       if accepting then do {
         c \<leftarrow> hw_caches w owner;
         w \<leftarrow> set_block block (\<lambda>b. b\<lparr>bk_link := ch_remote c k\<rparr>) w;
         w \<leftarrow> set_cache owner (\<lambda>c. c\<lparr>ch_remote := (ch_remote c)(k := block),
                ch_remote_count := (ch_remote_count c)(k := ch_remote_count c k + 1)\<rparr>) w;
         Some (if collects w then upd_heap (\<lambda>h. h\<lparr>hp_remote_frees := hp_remote_frees h + 1\<rparr>) w else w)
       }
       else memx_heap_push_central_locked k block w
     }
   }"

definition memx_heap_release_small_checked ::
  "nat \<Rightarrow> u64 \<Rightarrow> nat \<Rightarrow> 'c heap_world \<Rightarrow> (bool \<times> 'c heap_world) option" where
  "memx_heap_release_small_checked t block k w = do {
     b \<leftarrow> hw_blocks w block;
     if bk_state b \<noteq> 1
     then Some (False, if collects w
                       then upd_heap (\<lambda>h. h\<lparr>hp_invalid_frees := hp_invalid_frees h + 1\<rparr>) w else w)
     else do {
       w \<leftarrow> set_block block (\<lambda>b. b\<lparr>bk_state := 0\<rparr>) w;
       w \<leftarrow> memx_heap_route_small t block k w;
       Some (True, w)
     }
   }"

definition memx_heap_release_small_unchecked ::
  "nat \<Rightarrow> u64 \<Rightarrow> nat \<Rightarrow> 'c heap_world \<Rightarrow> 'c heap_world option" where
  "memx_heap_release_small_unchecked t block k w = do {
     w \<leftarrow> set_block block (\<lambda>b. b\<lparr>bk_state := 0\<rparr>) w;
     memx_heap_route_small t block k w
   }"

section \<open>Detaching a thread\<close>

text \<open>Unlinking the first cache of the heap from the thread's list; the result is that cache, 0
  when there is none.  \<open>prev\<close> is the cache whose \<^verbatim>\<open>tls_next\<close> the link is, 0 for the head.\<close>

partial_function (option) unlink_cache ::
  "nat \<Rightarrow> u64 \<Rightarrow> u64 \<Rightarrow> 'c heap_world \<Rightarrow> (u64 \<times> 'c heap_world) option" where
  "unlink_cache t prev cache w =
     (if cache = 0 then Some (0, w)
      else do {
        c \<leftarrow> hw_caches w cache;
        if ch_heap c \<noteq> hp_self (hw_heap w) then unlink_cache t cache (ch_tls_next c) w
        else do {
          w \<leftarrow> (if prev = 0 then Some (w\<lparr>hw_tls := (hw_tls w)(t := ch_tls_next c)\<rparr>)
                 else set_cache prev (\<lambda>p. p\<lparr>ch_tls_next := ch_tls_next c\<rparr>) w);
          w \<leftarrow> set_cache cache (\<lambda>c. c\<lparr>ch_tls_next := 0\<rparr>) w;
          Some (cache, w)
        }
      })"

text \<open>The remote queue moves to the local list without trimming.\<close>

partial_function (option) absorb_loop :: "u64 \<Rightarrow> nat \<Rightarrow> u64 \<Rightarrow> 'c heap_world \<Rightarrow> 'c heap_world option" where
  "absorb_loop cache k remote w =
     (if remote = 0 then Some w
      else do {
        b \<leftarrow> hw_blocks w remote;
        c \<leftarrow> hw_caches w cache;
        w \<leftarrow> set_block remote (\<lambda>b. b\<lparr>bk_link := ch_local c k\<rparr>) w;
        w \<leftarrow> set_cache cache (\<lambda>c. c\<lparr>ch_local := (ch_local c)(k := remote),
               ch_local_count := (ch_local_count c)(k := ch_local_count c k + 1)\<rparr>) w;
        absorb_loop cache k (bk_link b) w
      })"

fun absorb_remote :: "u64 \<Rightarrow> nat \<Rightarrow> nat \<Rightarrow> 'c heap_world \<Rightarrow> 'c heap_world option" where
  "absorb_remote cache k 0 w = Some w"
| "absorb_remote cache k (Suc n) w = do {
     c \<leftarrow> hw_caches w cache;
     w \<leftarrow> absorb_loop cache k (ch_remote c k) w;
     w \<leftarrow> set_cache cache (\<lambda>c. c\<lparr>ch_remote := (ch_remote c)(k := 0),
            ch_remote_count := (ch_remote_count c)(k := 0)\<rparr>) w;
     absorb_remote cache (Suc k) n w
   }"

partial_function (option) push_list :: "nat \<Rightarrow> u64 \<Rightarrow> 'c heap_world \<Rightarrow> 'c heap_world option" where
  "push_list k block w =
     (if block = 0 then Some w
      else do {
        b \<leftarrow> hw_blocks w block;
        w \<leftarrow> memx_heap_push_central_locked k block w;
        push_list k (bk_link b) w
      })"

fun flush_classes :: "u64 \<Rightarrow> nat \<Rightarrow> nat \<Rightarrow> 'c heap_world \<Rightarrow> 'c heap_world option" where
  "flush_classes cache k 0 w = Some w"
| "flush_classes cache k (Suc n) w = do {
     c \<leftarrow> hw_caches w cache;
     w \<leftarrow> push_list k (ch_local c k) w;
     w \<leftarrow> push_list k (ch_spare c k) w;
     w \<leftarrow> set_cache cache (\<lambda>c. c\<lparr>ch_local := (ch_local c)(k := 0),
            ch_local_tail := (ch_local_tail c)(k := 0), ch_local_count := (ch_local_count c)(k := 0),
            ch_spare := (ch_spare c)(k := 0), ch_spare_tail := (ch_spare_tail c)(k := 0),
            ch_spare_count := (ch_spare_count c)(k := 0)\<rparr>) w;
     flush_classes cache (Suc k) n w
   }"

definition memx_heap_thread_detach :: "nat \<Rightarrow> u64 \<Rightarrow> 'c heap_world \<Rightarrow> 'c heap_world option" where
  "memx_heap_thread_detach t heap' w =
     (if heap' = 0 then Some w
      else do {
        (cache, w) \<leftarrow> unlink_cache t 0 (hw_tls w t) w;
        if cache = 0 then Some w
        else do {
          let w = (if hw_tls_last w t = cache then w\<lparr>hw_tls_last := (hw_tls_last w)(t := 0)\<rparr> else w);
          w \<leftarrow> set_cache cache (\<lambda>c. c\<lparr>ch_accepting_remote := False\<rparr>) w;
          w \<leftarrow> absorb_remote cache 0 19 w;
          flush_classes cache 0 19 w
        }
      })"

end
