(* ===== verification/Memx_Lists.thy ===== *)
theory Memx_Lists
  imports Memx_Prelude
begin

text \<open>
  Null-terminated lists through a link field, as the allocator keeps its blocks, chunks, records
  and caches: \<open>linked nx p xs\<close> says that following \<open>nx\<close> from \<open>p\<close> visits exactly \<open>xs\<close>.
\<close>

fun linked :: "(u64 \<rightharpoonup> u64) \<Rightarrow> u64 \<Rightarrow> u64 list \<Rightarrow> bool" where
  "linked nx p [] \<longleftrightarrow> p = 0"
| "linked nx p (x # xs) \<longleftrightarrow> p = x \<and> x \<noteq> 0 \<and> (\<exists>q. nx x = Some q \<and> linked nx q xs)"

lemma linked_0 [simp]: "linked nx 0 xs \<longleftrightarrow> xs = []"
  by (cases xs) auto

lemma linked_cases:
  "linked nx p xs \<Longrightarrow> p \<noteq> 0 \<Longrightarrow> \<exists>q ys. xs = p # ys \<and> nx p = Some q \<and> linked nx q ys"
  by (cases xs) auto

lemma linked_cong: "linked nx p xs \<Longrightarrow> (\<And>x. x \<in> set xs \<Longrightarrow> nx' x = nx x) \<Longrightarrow> linked nx' p xs"
  by (induction xs arbitrary: p) auto

lemma linked_unique: "linked nx p xs \<Longrightarrow> linked nx p ys \<Longrightarrow> xs = ys"
proof (induction xs arbitrary: p ys)
  case (Cons x xs)
  then show ?case by (cases ys) auto
qed auto

lemma linked_nonzero: "linked nx p xs \<Longrightarrow> 0 \<notin> set xs"
  by (induction xs arbitrary: p) auto

lemma linked_dom: "linked nx p xs \<Longrightarrow> x \<in> set xs \<Longrightarrow> \<exists>q. nx x = Some q"
  by (induction xs arbitrary: p) auto

lemma linked_empty_iff: "linked nx p xs \<Longrightarrow> p = 0 \<longleftrightarrow> xs = []"
  by (cases xs) auto

text \<open>A list visits no address twice, since its end is reached.\<close>

lemma linked_suffix: "linked nx p (xs @ y # ys) \<Longrightarrow> linked nx y (y # ys)"
  by (induction xs arbitrary: p) auto

lemma linked_distinct: "linked nx p xs \<Longrightarrow> distinct xs"
proof (induction xs arbitrary: p)
  case (Cons x xs)
  then obtain q where q: "p = x" "x \<noteq> 0" "nx x = Some q" "linked nx q xs" by auto
  have "x \<notin> set xs"
  proof
    assume "x \<in> set xs"
    then obtain as bs where s: "xs = as @ x # bs" by (meson split_list)
    have "linked nx x (x # bs)" using q(4) unfolding s by (rule linked_suffix)
    then have "x # bs = x # xs" using Cons.prems linked_unique q(1) by metis
    then show False by (simp add: s)
  qed
  then show ?case using Cons.IH [OF q(4)] by simp
qed simp

text \<open>Pushing a new head, and splicing a list before another.\<close>

lemma linked_push:
  "linked nx p xs \<Longrightarrow> x \<notin> set xs \<Longrightarrow> x \<noteq> 0 \<Longrightarrow> linked (nx(x \<mapsto> p)) x (x # xs)"
  by (auto intro: linked_cong)

lemma linked_upd: "linked nx p xs \<Longrightarrow> x \<notin> set xs \<Longrightarrow> linked (nx(x \<mapsto> v)) p xs"
  by (auto intro: linked_cong)

lemma linked_append:
  "linked nx p (xs @ ys) \<longleftrightarrow> (if xs = [] then linked nx p ys
     else \<exists>q. linked (nx(last xs \<mapsto> 0)) p xs \<and> nx (last xs) = Some q \<and> linked nx q ys)"
  if "distinct xs"
  using that
proof (induction xs arbitrary: p)
  case (Cons x xs)
  show ?case
  proof (cases "xs = []")
    case False
    then have l: "last (x # xs) = last xs" "last xs \<noteq> x" using Cons.prems by auto
    show ?thesis using Cons False l by auto
  qed auto
qed simp

lemma linked_splice:
  assumes xs: "linked nx p xs" "xs \<noteq> []" and ys: "linked nx q ys" and d: "set xs \<inter> set ys = {}"
  shows "linked (nx(last xs \<mapsto> q)) p (xs @ ys)"
proof -
  have dx: "distinct xs" by (rule linked_distinct [OF xs(1)])
  have z: "nx (last xs) = Some 0"
    using xs by (induction xs arbitrary: p) (auto split: if_splits)
  have "linked ((nx(last xs \<mapsto> q))(last xs \<mapsto> 0)) p xs"
    by (rule linked_cong [OF xs(1)]) (simp add: z)
  moreover have "linked (nx(last xs \<mapsto> q)) q ys"
    by (rule linked_upd [OF ys]) (use last_in_set [OF xs(2)] d in blast)
  ultimately show ?thesis using xs(2) dx by (simp add: linked_append)
qed

text \<open>Unlinking a member through its predecessor.\<close>

lemma linked_remove_head: "linked nx x (x # xs) \<Longrightarrow> \<exists>q. nx x = Some q \<and> linked nx q xs"
  by simp

lemma linked_remove:
  assumes "linked nx p (xs @ y # x # ys)" "nx x = Some q"
  shows "linked (nx(y \<mapsto> q)) p (xs @ y # ys)"
proof -
  have d: "distinct (xs @ y # x # ys)" by (rule linked_distinct [OF assms(1)])
  show ?thesis using assms d
  proof (induction xs arbitrary: p)
    case Nil
    then show ?case by (auto intro: linked_cong)
  qed (auto intro: linked_cong)
qed

end
