(* ===== verification/Memx_LargeTable.thy ===== *)
theory Memx_LargeTable
  imports Memx_HeapLarge Memx_Lists
begin

text \<open>
  Correctness of the table of large allocations: the representation invariant, what linking and
  rehashing do to the chains, and the search.
\<close>

section \<open>Chains\<close>

definition lnext :: "(u64 \<rightharpoonup> memx_heap_large) \<Rightarrow> u64 \<rightharpoonup> u64" where
  "lnext L p = map_option lg_next (L p)"

text \<open>\<open>ch i\<close> is the chain of bucket \<open>i\<close> of the table with the words \<open>ws\<close>.\<close>

definition chains_ok ::
  "u64 list \<Rightarrow> (nat \<Rightarrow> u64 list) \<Rightarrow> (u64 \<rightharpoonup> memx_heap_large) \<Rightarrow> bool" where
  "chains_ok ws ch L \<longleftrightarrow> (\<forall>i < length ws. linked (lnext L) (ws ! i) (ch i)
     \<and> (\<forall>x \<in> set (ch i). \<exists>l. L x = Some l
          \<and> unat (memx_heap_large_bucket (lg_pointer l) (of_nat (length ws))) = i))"

definition members :: "u64 list \<Rightarrow> (nat \<Rightarrow> u64 list) \<Rightarrow> u64 set" where
  "members ws ch = (\<Union>i < length ws. set (ch i))"

lemma bucket_in_range:
  assumes "n \<noteq> 0"
  shows "unat (memx_heap_large_bucket p n) < unat n"
proof -
  have "v AND (n - 1) \<le> n - 1" for v :: u64 by (rule word_and_le1)
  then have "memx_heap_large_bucket p n \<le> n - 1" by (simp add: memx_heap_large_bucket_def Let_def)
  moreover have "n - 1 < n"
  proof -
    have "0 < unat n" using assms by (simp add: unat_gt_0)
    moreover have "unat (n - 1) = unat n - 1" using assms by (intro unat_minus_one) auto
    ultimately show ?thesis by (simp add: word_less_nat_alt)
  qed
  ultimately have "memx_heap_large_bucket p n < n" by simp
  then show ?thesis by (simp add: word_less_nat_alt)
qed

lemma chains_okD:
  assumes "chains_ok ws ch L" "i < length ws"
  shows "linked (lnext L) (ws ! i) (ch i)"
    "x \<in> set (ch i) \<Longrightarrow> \<exists>l. L x = Some l
       \<and> unat (memx_heap_large_bucket (lg_pointer l) (of_nat (length ws))) = i"
  using assms by (auto simp: chains_ok_def)

text \<open>A record that is in the table is in the bucket of its pointer.\<close>

lemma member_bucket:
  assumes "chains_ok ws ch L" "x \<in> members ws ch" "L x = Some l"
  shows "x \<in> set (ch (unat (memx_heap_large_bucket (lg_pointer l) (of_nat (length ws)))))"
  using assms by (force simp: members_def chains_ok_def)

lemma chains_ok_cong:
  assumes "chains_ok ws ch L" "\<And>x. x \<in> members ws ch \<Longrightarrow> L' x = L x"
  shows "chains_ok ws ch L'"
  unfolding chains_ok_def
proof (intro allI impI conjI ballI)
  fix i assume i: "i < length ws"
  have e: "L' x = L x" if "x \<in> set (ch i)" for x using assms(2) that i by (auto simp: members_def)
  show "linked (lnext L') (ws ! i) (ch i)"
    by (rule linked_cong [OF chains_okD(1) [OF assms(1) i]]) (simp add: lnext_def e)
  fix x assume "x \<in> set (ch i)"
  then show "\<exists>l. L' x = Some l \<and> unat (memx_heap_large_bucket (lg_pointer l) (of_nat (length ws))) = i"
    using chains_okD(2) [OF assms(1) i] e by simp
qed

lemma link_large_ok:
  assumes h: "heap (hw_mem w) buckets = Some (LeafRoots ws)" and n: "unat n = length ws" "n \<noteq> 0"
    and ok: "chains_ok ws ch (hw_larges w)" and x: "hw_larges w x = Some l" "x \<noteq> 0" "x \<notin> members ws ch"
    and b: "b = unat (memx_heap_large_bucket (lg_pointer l) n)"
  shows "link_large buckets n x (lg_pointer l) w = Some (w\<lparr>
      hw_mem := (hw_mem w)\<lparr>heap := (heap (hw_mem w))(buckets \<mapsto> LeafRoots (ws[b := x]))\<rparr>,
      hw_larges := (hw_larges w)(x \<mapsto> l\<lparr>lg_next := ws ! b\<rparr>)\<rparr>)" (is ?run)
    "chains_ok (ws[b := x]) (ch(b := x # ch b)) ((hw_larges w)(x \<mapsto> l\<lparr>lg_next := ws ! b\<rparr>))" (is ?chains)
    "members (ws[b := x]) (ch(b := x # ch b)) = insert x (members ws ch)" (is ?mem)
proof -
  have bl: "b < length ws" using bucket_in_range [OF n(2), of "lg_pointer l"] n(1) b by simp
  have n': "of_nat (length ws) = n" unfolding n(1) [symmetric] by simp
  show ?run
    using h bl x(1) by (simp add: link_large_def b [symmetric] set_large_def write_bucket_def write_root_def)
  let ?L = "(hw_larges w)(x \<mapsto> l\<lparr>lg_next := ws ! b\<rparr>)"
  have out: "x \<notin> set (ch i)" if "i < length ws" for i using x(3) that by (auto simp: members_def)
  have nx: "lnext ?L = (lnext (hw_larges w))(x \<mapsto> ws ! b)" by (simp add: lnext_def fun_eq_iff)
  show ?chains
    unfolding chains_ok_def length_list_update
  proof (intro allI impI conjI ballI)
    fix i assume i: "i < length ws"
    note ci = chains_okD [OF ok i]
    show "linked (lnext ?L) (ws[b := x] ! i) ((ch(b := x # ch b)) i)"
    proof (cases "i = b")
      case True
      then show ?thesis
        unfolding nx using linked_push [OF ci(1) out [OF i] x(2)] bl by simp
    next
      case False
      then show ?thesis unfolding nx using linked_upd [OF ci(1) out [OF i]] by simp
    qed
    fix y assume y: "y \<in> set ((ch(b := x # ch b)) i)"
    show "\<exists>l. ?L y = Some l \<and> unat (memx_heap_large_bucket (lg_pointer l) (of_nat (length ws))) = i"
    proof (cases "y = x")
      case True
      then have "i = b" using y out [OF i] by (auto split: if_splits)
      then show ?thesis using True b n' by simp
    next
      case False
      then have "y \<in> set (ch i)" using y by (auto split: if_splits)
      then show ?thesis using ci(2) False by simp
    qed
  qed
  show ?mem
    using bl by (auto simp: members_def split: if_splits)
qed

text \<open>Records that differ only in their link.\<close>

definition relinked :: "(u64 \<rightharpoonup> memx_heap_large) \<Rightarrow> (u64 \<rightharpoonup> memx_heap_large) \<Rightarrow> bool" where
  "relinked L L' \<longleftrightarrow> (\<forall>x. map_option (\<lambda>l. l\<lparr>lg_next := 0\<rparr>) (L' x) = map_option (\<lambda>l. l\<lparr>lg_next := 0\<rparr>) (L x))"

lemma relinked_refl [simp]: "relinked L L"
  by (simp add: relinked_def)

lemma relinked_trans: "relinked L L' \<Longrightarrow> relinked L' L'' \<Longrightarrow> relinked L L''"
  by (simp add: relinked_def)

lemma relinked_upd: "L x = Some l \<Longrightarrow> relinked L (L(x \<mapsto> l\<lparr>lg_next := v\<rparr>))"
  by (simp add: relinked_def)

lemma relinked_same:
  assumes "relinked L L'"
  shows "dom L' = dom L" "L x = Some l \<Longrightarrow> \<exists>l'. L' x = Some l' \<and> l'\<lparr>lg_next := 0\<rparr> = l\<lparr>lg_next := 0\<rparr>"
proof -
  have e: "map_option (\<lambda>l. l\<lparr>lg_next := 0\<rparr>) (L' y) = map_option (\<lambda>l. l\<lparr>lg_next := 0\<rparr>) (L y)" for y
    using assms by (simp add: relinked_def)
  have "L' y = None \<longleftrightarrow> L y = None" for y using e [of y] by (metis map_option_is_None)
  then show "dom L' = dom L" by (simp add: dom_def)
  show "L x = Some l \<Longrightarrow> \<exists>l'. L' x = Some l' \<and> l'\<lparr>lg_next := 0\<rparr> = l\<lparr>lg_next := 0\<rparr>"
    using e [of x] by auto
qed

lemma unlinked_eq:
  assumes "l'\<lparr>lg_next := 0\<rparr> = l\<lparr>lg_next := 0\<rparr>"
  shows "lg_mapping l' = lg_mapping l" "lg_pointer l' = lg_pointer l"
    "lg_requested_size l' = lg_requested_size l" "lg_alignment l' = lg_alignment l"
  using assms by (cases l; cases l'; simp)+

text \<open>A whole chain moves into the new table.\<close>

lemma rehash_chain_ok:
  assumes "linked (lnext (hw_larges w)) p xs" "set xs \<inter> members ws ch = {}"
    and "heap (hw_mem w) buckets = Some (LeafRoots ws)" "unat n = length ws" "n \<noteq> 0"
    and "chains_ok ws ch (hw_larges w)"
  shows "\<exists>ws' ch' L'. rehash_chain buckets n p w = Some (w\<lparr>
        hw_mem := (hw_mem w)\<lparr>heap := (heap (hw_mem w))(buckets \<mapsto> LeafRoots ws')\<rparr>, hw_larges := L'\<rparr>)
    \<and> length ws' = length ws \<and> chains_ok ws' ch' L' \<and> members ws' ch' = members ws ch \<union> set xs
    \<and> relinked (hw_larges w) L' \<and> (\<forall>y. y \<notin> set xs \<longrightarrow> L' y = hw_larges w y)"
  using assms
proof (induction xs arbitrary: p w ws ch)
  case Nil
  have "rehash_chain buckets n p w = Some w" using Nil.prems(1) by (subst rehash_chain.simps) simp
  moreover have "w\<lparr>hw_mem := (hw_mem w)\<lparr>heap := (heap (hw_mem w))(buckets \<mapsto> LeafRoots ws)\<rparr>,
      hw_larges := hw_larges w\<rparr> = w"
    using Nil.prems(3) by (simp add: fun_upd_idem)
  ultimately have "rehash_chain buckets n p w = Some (w\<lparr>hw_mem :=
      (hw_mem w)\<lparr>heap := (heap (hw_mem w))(buckets \<mapsto> LeafRoots ws)\<rparr>, hw_larges := hw_larges w\<rparr>)"
    by (simp only:)
  then show ?case
    using Nil.prems(6) by (intro exI [of _ ws] exI [of _ ch] exI [of _ "hw_larges w"] conjI) (assumption | simp)+
next
  case (Cons x xs)
  then obtain q where x: "p = x" "x \<noteq> 0" "lnext (hw_larges w) x = Some q" "linked (lnext (hw_larges w)) q xs"
    by auto
  then obtain l where l: "hw_larges w x = Some l" "lg_next l = q" by (auto simp: lnext_def)
  have xm: "x \<notin> members ws ch" using Cons.prems(2) by auto
  define b where "b = unat (memx_heap_large_bucket (lg_pointer l) n)"
  note lk = link_large_ok [OF Cons.prems(3-6) l(1) x(2) xm b_def]
  let ?w = "w\<lparr>hw_mem := (hw_mem w)\<lparr>heap := (heap (hw_mem w))(buckets \<mapsto> LeafRoots (ws[b := x]))\<rparr>,
      hw_larges := (hw_larges w)(x \<mapsto> l\<lparr>lg_next := ws ! b\<rparr>)\<rparr>"
  have d: "x \<notin> set xs" using linked_distinct [OF Cons.prems(1)] by simp
  have "linked (lnext (hw_larges ?w)) q xs"
    by (rule linked_cong [OF x(4)]) (use d in \<open>auto simp: lnext_def\<close>)
  moreover have "set xs \<inter> members (ws[b := x]) (ch(b := x # ch b)) = {}"
    unfolding lk(3) using Cons.prems(2) d by auto
  moreover have "heap (hw_mem ?w) buckets = Some (LeafRoots (ws[b := x]))" "unat n = length (ws[b := x])"
    using Cons.prems(4) by simp_all
  moreover have "chains_ok (ws[b := x]) (ch(b := x # ch b)) (hw_larges ?w)" using lk(2) by simp
  ultimately obtain ws' ch' L' where r: "rehash_chain buckets n q ?w = Some (?w\<lparr>
        hw_mem := (hw_mem ?w)\<lparr>heap := (heap (hw_mem ?w))(buckets \<mapsto> LeafRoots ws')\<rparr>, hw_larges := L'\<rparr>)"
    "length ws' = length (ws[b := x])" "chains_ok ws' ch' L'"
    "members ws' ch' = members (ws[b := x]) (ch(b := x # ch b)) \<union> set xs"
    "relinked (hw_larges ?w) L'" "\<forall>y. y \<notin> set xs \<longrightarrow> L' y = hw_larges ?w y"
    using Cons.IH [OF _ _ _ _ Cons.prems(5)] by blast
  have "rehash_chain buckets n p w = Some (w\<lparr>
        hw_mem := (hw_mem w)\<lparr>heap := (heap (hw_mem w))(buckets \<mapsto> LeafRoots ws')\<rparr>, hw_larges := L'\<rparr>)"
    using lk(1) r(1) l x(1,2) by (subst rehash_chain.simps) simp
  moreover have "relinked (hw_larges w) (hw_larges ?w)"
    using relinked_upd [of "hw_larges w" x l] l(1) by simp
  ultimately show ?case
    using r(2-6) lk(3)
    by (intro exI [of _ ws'] exI [of _ ch'] exI [of _ L'] conjI)
      (assumption | auto intro: relinked_trans)+
qed

end
