(* ===== verification/Memx_HeapMem.thy ===== *)
theory Memx_HeapMem
  imports Memx_Heap
begin

text \<open>
  The C heap the allocator shares with its address index.  \<open>fr\<close> is the part of it the index does
  not own: the allocator's own structures.  Every call of the C library on that part keeps the
  index intact, and every update of the index keeps that part.
\<close>

section \<open>The environment\<close>

text \<open>The bytes mapped by the calls of the allocator do not change in calls of the C library.\<close>

definition env_contract :: "'c heap_env \<Rightarrow> ('c \<Rightarrow> u64 set) \<Rightarrow> ('c \<Rightarrow> nat set) \<Rightarrow> bool" where
  "env_contract E live mapped \<longleftrightarrow> allocator_contract (he_allocator E) live
     \<and> sys_contract (he_sys E) live mapped
     \<and> (\<forall>c n. mapped (snd (libc_malloc (he_libc E) c n)) = mapped c)
     \<and> (\<forall>c p. mapped (libc_free (he_libc E) c p) = mapped c)
     \<and> (\<forall>c. live (snd (he_mutex_init E c)) = live c \<and> mapped (snd (he_mutex_init E c)) = mapped c)
     \<and> (\<forall>c. live (he_mutex_destroy E c) = live c \<and> mapped (he_mutex_destroy E c) = mapped c)"

lemma env_contractD:
  assumes "env_contract E live mapped"
  shows "allocator_contract (he_allocator E) live" "sys_contract (he_sys E) live mapped"
    "mapped (snd (libc_malloc (he_libc E) c n)) = mapped c" "mapped (libc_free (he_libc E) c p) = mapped c"
    "live (snd (he_mutex_init E c)) = live c" "mapped (snd (he_mutex_init E c)) = mapped c"
    "live (he_mutex_destroy E c) = live c" "mapped (he_mutex_destroy E c) = mapped c"
  using assms by (simp_all add: env_contract_def)

text \<open>The live addresses, marked at the null pointer when the mapped bytes are not \<open>M\<close>: a world that
  is well formed for these has \<open>M\<close> mapped.\<close>

definition tagged :: "('c \<Rightarrow> u64 set) \<Rightarrow> ('c \<Rightarrow> nat set) \<Rightarrow> nat set \<Rightarrow> 'c \<Rightarrow> u64 set" where
  "tagged live mapped M c = live c \<union> (if mapped c = M then {} else {0})"

lemma tagged_contract:
  assumes "env_contract E live mapped"
  shows "allocator_contract (he_allocator E) (tagged live mapped M)"
proof -
  let ?f = "libc_malloc (he_libc E)" and ?g = "libc_free (he_libc E)"
  have f: "if p = 0 then live c' = live c else p \<notin> live c \<and> live c' = insert p (live c)"
    if "?f c n = (p, c')" for c n p c'
    using env_contractD(1) [OF assms] that
    by (auto simp: allocator_contract_def he_allocator_def memx_default_allocate_def)
  have g: "live (?g c p) = live c - {p}" if "p \<noteq> 0" "p \<in> live c" for c p
    using env_contractD(1) [OF assms] that
    by (auto simp: allocator_contract_def he_allocator_def memx_default_deallocate_def)
  have fm: "mapped c' = mapped c" if "?f c n = (p, c')" for c n p c'
    using env_contractD(3) [OF assms, of c n] that by simp
  have f': "if p = 0 then tagged live mapped M c' = tagged live mapped M c
      else p \<notin> tagged live mapped M c \<and> tagged live mapped M c' = insert p (tagged live mapped M c)"
    if "?f c n = (p, c')" for c n p c'
    using f [OF that] fm [OF that] by (auto simp: tagged_def split: if_splits)
  have g': "tagged live mapped M (?g c p) = tagged live mapped M c - {p}"
    if "p \<noteq> 0" "p \<in> tagged live mapped M c" for c p
  proof -
    have "p \<in> live c" using that by (auto simp: tagged_def split: if_splits)
    then show ?thesis using g that(1) env_contractD(4) [OF assms, of c p] by (auto simp: tagged_def)
  qed
  show ?thesis
    unfolding allocator_contract_def he_allocator_def memx_default_allocate_def memx_default_deallocate_def
    using f' g' by auto
qed

lemma world_tagged:
  assumes "env_contract E live mapped"
  shows "world_ok (he_allocator E) (tagged live mapped M) m
    \<longleftrightarrow> world_ok (he_allocator E) live m \<and> mapped (ctx m) = M"
proof
  assume ok: "world_ok (he_allocator E) (tagged live mapped M) m"
  then have "0 \<notin> tagged live mapped M (ctx m)" by (auto simp: world_ok_def)
  then have "mapped (ctx m) = M" by (auto simp: tagged_def split: if_splits)
  then show "world_ok (he_allocator E) live m \<and> mapped (ctx m) = M"
    using ok env_contractD(1) [OF assms] by (simp add: world_ok_def tagged_def)
next
  assume "world_ok (he_allocator E) live m \<and> mapped (ctx m) = M"
  then show "world_ok (he_allocator E) (tagged live mapped M) m"
    using tagged_contract [OF assms] by (simp add: world_ok_def tagged_def)
qed

section \<open>The index and its frame\<close>

lemma owned_desc:
  assumes sh: "index_shape ix" and hh: "\<forall>q. q \<in> owned ix h \<longrightarrow> h' q = h q"
  shows "leaf_at ix h' = leaf_at ix h" "rslot ix h' = rslot ix h" "rdesc ix h' = rdesc ix h"
    "leaf_blocks ix h' = leaf_blocks ix h" "dense_blocks ix h' = dense_blocks ix h" "owned ix h' = owned ix h"
proof -
  have h: "h' q = h q" if "q \<in> owned ix h" for q using hh that by blast
  have d: "h' (directory ix) = h (directory ix)" by (rule h) (simp add: owned_def)
  show lf: "leaf_at ix h' = leaf_at ix h" by (simp add: leaf_at_def d fun_eq_iff)
  show rs: "rslot ix h' = rslot ix h" by (simp add: rslot_def lf fun_eq_iff)
  show rd: "rdesc ix h' = rdesc ix h"
  proof
    fix i
    have "h' p = h p" if "rslot ix h i = Some (p, j)" for p j
    proof (rule h)
      show "p \<in> owned ix h"
        using that by (auto simp: rslot_def owned_def leaf_blocks_def Let_def split: if_splits)
    qed
    then show "rdesc ix h' i = rdesc ix h i"
      unfolding rdesc_def rs by (cases "rslot ix h i") auto
  qed
  show "leaf_blocks ix h' = leaf_blocks ix h" by (simp add: leaf_blocks_def lf)
  moreover show "dense_blocks ix h' = dense_blocks ix h" by (simp add: dense_blocks_def rd)
  ultimately show "owned ix h' = owned ix h" by (simp add: owned_def)
qed

lemma index_outside:
  assumes inv: "index_inv lv fr ix m" and ok: "world_ok (index_allocator ix) lv' m'"
    and h: "\<And>q. q \<in> owned ix (heap m) \<Longrightarrow> heap m' q = heap m q"
  shows "index_inv lv' (\<lambda>q. if q \<in> owned ix (heap m) then None else heap m' q) ix m'"
    "adaptive_view (ix, m') = adaptive_view (ix, m)"
proof -
  note I = index_invD [OF inv]
  have hh: "\<forall>q. q \<in> owned ix (heap m) \<longrightarrow> heap m' q = heap m q" using h by blast
  note O = owned_desc [OF I(2) hh]
  have dense: "heap m' (memx_dense_decode (rdesc ix (heap m) i)) = heap m (memx_dense_decode (rdesc ix (heap m) i))"
    if "i < regions ix" "is_dense (rdesc ix (heap m) i)" for i
    by (rule h) (use that in \<open>auto simp: owned_def dense_blocks_def\<close>)
  have dir: "dir_ok ix (heap m')"
  proof -
    have d: "heap m' (directory ix) = heap m (directory ix)" by (rule h) (simp add: owned_def)
    have l: "heap m' (leaf_at ix (heap m) r) = heap m (leaf_at ix (heap m) r)"
      if "\<not> bounded ix" "leaf_at ix (heap m) r \<noteq> 0" for r
      by (rule h) (use that in \<open>auto simp: owned_def leaf_blocks_def\<close>)
    show ?thesis using I(3) l unfolding dir_ok_def O d by (simp split: if_splits)
  qed
  have reg: "regions_ok ix (heap m')"
    using I(4) dense unfolding regions_ok_def O desc_ok_def by metis
  have dv: "dvalue (heap m') (rdesc ix (heap m) i) g = dvalue (heap m) (rdesc ix (heap m) i) g"
    if "i < regions ix" for i g
  proof (cases "is_dense (rdesc ix (heap m) i)")
    case True
    then show ?thesis using dense [OF that True] by (simp add: dvalue_def)
  next
    case False
    have "memx_region_type_decode (rdesc ix (heap m) i) \<noteq> MEMX_REGION_DENSE"
    proof -
      have "desc_ok (per_region ix) (heap m) (rdesc ix (heap m) i)" using I(4) that by (simp add: regions_ok_def)
      then show ?thesis using False by (auto simp: desc_ok_def)
    qed
    then show ?thesis by (simp add: dvalue_def split: memx_region_type.split)
  qed
  have top: "top_ok ix (heap m')" using I(5) dv unfolding top_ok_def O by simp
  have slf: "heap m' (self ix) = heap m (self ix)" by (rule h) (simp add: owned_def)
  show "index_inv lv' (\<lambda>q. if q \<in> owned ix (heap m) then None else heap m' q) ix m'"
    unfolding index_inv_def
    using ok I dir reg top slf by (simp add: frame_ok_def O count_regions_def)
  have "gmap ix (heap m') k = gmap ix (heap m) k" if "k < regions ix * per_region ix" for k
  proof -
    have "k div per_region ix < regions ix" using that by (simp add: less_mult_imp_div_less)
    then show ?thesis by (simp add: gmap_def O dv)
  qed
  then show "adaptive_view (ix, m') = adaptive_view (ix, m)"
    unfolding adaptive_view_def by (simp, intro aview_cong [OF I(2)])
qed

text \<open>The step that marks a free range.\<close>

lemma index_insert_full:
  assumes inv: "index_inv lv fr ix m" and h: "h \<noteq> MEMX_HANDLE_INVALID"
    and lg: "fst (memx_validate_range (Some ix) b n) = MEMX_OK"
    and free: "all_in b n MEMX_HANDLE_INVALID (adaptive_view (ix, m))"
  shows "\<exists>st ix' m'. memx_insert (Some ix) b n h m = Some (st, Some ix', m')
    \<and> st \<in> {MEMX_OK, MEMX_ERROR_OUT_OF_MEMORY} \<and> index_inv lv fr ix' m' \<and> same_index ix ix'
    \<and> adaptive_view (ix', m') = (if st = MEMX_OK then put b n h (adaptive_view (ix, m)) else adaptive_view (ix, m))"
proof -
  note sh = index_invD(2) [OF inv]
  have lg': "index_legal (ix, m) b n" using lg by (simp add: index_legal_def)
  obtain e k0 k1 where r: "memx_validate_range (Some ix) b n = (MEMX_OK, e)" "at ix b k0" "at ix e k1"
      "k0 < k1" "k1 \<le> regions ix * per_region ix" "unat e = unat b + unat n" by (rule legal_range [OF sh lg'])
  have "holds ix m k0 k1 MEMX_HANDLE_INVALID" using holds_view [OF sh r(2,3,5,6)] free by simp
  then show ?thesis
  proof (rule_tac insert_valid [OF inv h r(1-5)], goal_cases)
    case (1 st ix' m')
    note t = tracks_adaptive [OF inv 1(5) r(2,3,5,6)]
    show ?case
      by (rule exI [of _ st], rule exI [of _ ix'], rule exI [of _ m'], intro conjI)
        (use 1(1,2,4) tracksD(1) [OF 1(5)] t(1,3) in \<open>simp_all add: adaptive_ok_def\<close>)
  qed
qed

section \<open>Calls on the frame\<close>

definition mem_ok ::
  "'c heap_env \<Rightarrow> ('c \<Rightarrow> u64 set) \<Rightarrow> ('c \<Rightarrow> nat set) \<Rightarrow> nat set \<Rightarrow> (u64 \<rightharpoonup> memx_object) \<Rightarrow> 'c memx_index
     \<Rightarrow> 'c memx_world \<Rightarrow> bool" where
  "mem_ok E live mapped M fr ix m \<longleftrightarrow>
     index_inv (tagged live mapped M) fr ix m \<and> index_allocator ix = he_allocator E"

lemma mem_okD:
  assumes "env_contract E live mapped" "mem_ok E live mapped M fr ix m"
  shows "world_ok (he_allocator E) (tagged live mapped M) m" "world_ok (he_allocator E) live m"
    "mapped (ctx m) = M" "fr p = (if p \<in> owned ix (heap m) then None else heap m p)"
    "fr p = Some obj \<Longrightarrow> heap m p = Some obj" "fr 0 = None"
proof -
  show w: "world_ok (he_allocator E) (tagged live mapped M) m"
    using index_invD(1) assms(2) unfolding mem_ok_def by metis
  then show "world_ok (he_allocator E) live m" "mapped (ctx m) = M" using world_tagged [OF assms(1)] by blast+
  have f: "fr p = (if p \<in> owned ix (heap m) then None else heap m p)" for p
    using index_invD(9) assms(2) unfolding mem_ok_def frame_ok_def by blast
  show "fr p = (if p \<in> owned ix (heap m) then None else heap m p)" by (rule f)
  show "fr p = Some obj \<Longrightarrow> heap m p = Some obj" using f [of p] by (simp split: if_splits)
  show "fr 0 = None" using f [of 0] w by (simp add: world_ok_def split: if_splits)
qed

lemma mem_change:
  assumes c: "env_contract E live mapped" and inv: "mem_ok E live mapped M fr ix m"
    and p: "heap m p = None \<or> fr p \<noteq> None" and h: "heap m' = (heap m)(p := v)"
    and ok: "world_ok (he_allocator E) (tagged live mapped M') m'"
  shows "mem_ok E live mapped M' (fr(p := v)) ix m' \<and> adaptive_view (ix, m') = adaptive_view (ix, m)"
proof -
  note D = mem_okD [OF c inv]
  have i: "index_inv (tagged live mapped M) fr ix m" "index_allocator ix = he_allocator E"
    using inv by (simp_all add: mem_ok_def)
  have po: "p \<notin> owned ix (heap m)"
  proof
    assume o: "p \<in> owned ix (heap m)"
    then have "fr p = None" using D(4) [of p] by simp
    then have "heap m p = None" using p by simp
    moreover have "heap m p \<noteq> None"
    proof -
      note I = index_invD [OF i(1)]
      have "p = self ix \<or> p = directory ix \<or> p \<in> leaf_blocks ix (heap m) \<or> p \<in> dense_blocks ix (heap m)"
        using o by (auto simp: owned_def)
      then show ?thesis
        using I(3,4,8) by (auto simp: dir_ok_def leaf_blocks_def dense_blocks_def regions_ok_def desc_ok_def split: if_splits)
    qed
    ultimately show False by simp
  qed
  have e: "heap m' q = heap m q" if "q \<in> owned ix (heap m)" for q using h po that by auto
  have "(\<lambda>q. if q \<in> owned ix (heap m) then None else heap m' q) = fr(p := v)"
    using D(4) po h by (auto simp: fun_eq_iff)
  then show ?thesis
    using index_outside [OF i(1) _ e, of "tagged live mapped M'"] ok i(2) by (simp add: mem_ok_def)
qed

lemma mem_ctx:
  assumes c: "env_contract E live mapped" and inv: "mem_ok E live mapped M fr ix m" and l: "live c' = live (ctx m)"
  shows "mem_ok E live mapped (mapped c') fr ix (m\<lparr>ctx := c'\<rparr>)"
proof -
  have "world_ok (he_allocator E) live (m\<lparr>ctx := c'\<rparr>)"
    using mem_okD(2) [OF c inv] l by (simp add: world_ok_def)
  then have "world_ok (he_allocator E) (tagged live mapped (mapped c')) (m\<lparr>ctx := c'\<rparr>)"
    using world_tagged [OF c] by simp
  then show ?thesis using inv unfolding mem_ok_def by (auto simp: index_inv_def)
qed

text \<open>What a null or a fresh result of an allocation means.\<close>

lemma mem_malloc:
  assumes c: "env_contract E live mapped" and inv: "mem_ok E live mapped M fr ix m"
  shows "\<exists>p m'. c_malloc (he_allocator E) n m = Some (p, m')
    \<and> (if p = 0 then mem_ok E live mapped M fr ix m'
       else fr p = None \<and> heap m p = None \<and> mem_ok E live mapped M (fr(p \<mapsto> RawBlock n)) ix m')
    \<and> adaptive_view (ix, m') = adaptive_view (ix, m)"
proof (rule call_allocate_cases [OF mem_okD(1) [OF c inv], of n], goal_cases)
  case (1 m')
  have h: "heap m' = (heap m)(0 := None)"
    using 1(2) mem_okD(1) [OF c inv] by (simp add: world_ok_def fun_upd_idem)
  have n: "heap m 0 = None" using mem_okD(1) [OF c inv] by (simp add: world_ok_def)
  have "fr(0 := None) = fr" using mem_okD(6) [OF c inv] by (simp add: fun_upd_idem)
  then show ?case using 1(1) mem_change [OF c inv _ h 1(3)] n by (simp add: c_malloc_def)
next
  case (2 p m')
  then have "fr p = None" using mem_okD(5) [OF c inv, of p] by (cases "fr p") auto
  then show ?case using 2 mem_change [OF c inv _ 2(4,5)] by (simp add: c_malloc_def)
qed

lemma mem_calloc:
  assumes c: "env_contract E live mapped" and inv: "mem_ok E live mapped M fr ix m"
  shows "\<exists>p m'. c_calloc_words (he_allocator E) n m = Some (p, m')
    \<and> (if p = 0 then mem_ok E live mapped M fr ix m'
       else fr p = None \<and> heap m p = None
         \<and> mem_ok E live mapped M (fr(p \<mapsto> LeafRoots (replicate (unat n) 0))) ix m')
    \<and> adaptive_view (ix, m') = adaptive_view (ix, m)"
proof (rule c_calloc_cases [OF mem_okD(1) [OF c inv], of n], goal_cases)
  case (1 m')
  have h: "heap m' = (heap m)(0 := None)"
    using 1(2) mem_okD(1) [OF c inv] by (simp add: world_ok_def fun_upd_idem)
  have n: "heap m 0 = None" using mem_okD(1) [OF c inv] by (simp add: world_ok_def)
  have "fr(0 := None) = fr" using mem_okD(6) [OF c inv] by (simp add: fun_upd_idem)
  then show ?case using 1(1) mem_change [OF c inv _ h 1(3)] n by simp
next
  case (2 p m')
  then have "fr p = None" using mem_okD(5) [OF c inv, of p] by (cases "fr p") auto
  then show ?case using 2 mem_change [OF c inv _ 2(4,5)] by simp
qed

lemma mem_free:
  assumes c: "env_contract E live mapped" and inv: "mem_ok E live mapped M fr ix m" and p: "fr p \<noteq> None"
  shows "\<exists>m'. c_free (he_allocator E) p m = Some m' \<and> mem_ok E live mapped M (fr(p := None)) ix m'
    \<and> adaptive_view (ix, m') = adaptive_view (ix, m)"
proof -
  have "p \<noteq> 0" using p mem_okD(6) [OF c inv] by auto
  moreover have "heap m p \<noteq> None" using p mem_okD(5) [OF c inv] by auto
  moreover obtain m' where d: "memx_deallocate (he_allocator E) p m = Some m'" "heap m' = (heap m)(p := None)"
    "world_ok (he_allocator E) (tagged live mapped M) m'"
    by (rule memx_deallocate_ok [OF mem_okD(1) [OF c inv] \<open>heap m p \<noteq> None\<close>])
  ultimately show ?thesis using mem_change [OF c inv _ d(2,3)] p by (simp add: c_free_def)
qed

lemma mem_write:
  assumes c: "env_contract E live mapped" and inv: "mem_ok E live mapped M fr ix m" and p: "fr p = Some obj"
  shows "mem_ok E live mapped M (fr(p \<mapsto> obj')) ix (m\<lparr>heap := (heap m)(p \<mapsto> obj')\<rparr>)
    \<and> adaptive_view (ix, m\<lparr>heap := (heap m)(p \<mapsto> obj')\<rparr>) = adaptive_view (ix, m)"
proof -
  have "world_ok (he_allocator E) (tagged live mapped M) (m\<lparr>heap := (heap m)(p \<mapsto> obj')\<rparr>)"
    by (rule world_ok_heap_upd [OF mem_okD(1) [OF c inv]]) (use mem_okD(5) [OF c inv p] in simp)
  then show ?thesis using mem_change [OF c inv, of p "m\<lparr>heap := (heap m)(p \<mapsto> obj')\<rparr>"] p by simp
qed

end
