(* ===== verification/Memx_Rehash.thy ===== *)
theory Memx_Rehash
  imports Memx_LargeTable Memx_HeapMem
begin

text \<open>
  Growing and shrinking the table of large allocations: the chains of the old buckets move record
  by record into the new ones, and the set of records stays what it was.
\<close>

section \<open>Moving every chain\<close>

lemma chains_disjoint:
  assumes "chains_ok ws ch L" "i < length ws" "j < length ws" "x \<in> set (ch i)" "x \<in> set (ch j)"
  shows "i = j"
proof -
  obtain l where "L x = Some l" "unat (memx_heap_large_bucket (lg_pointer l) (of_nat (length ws))) = i"
    using chains_okD(2) [OF assms(1,2,4)] by blast
  moreover obtain l' where "L x = Some l'" "unat (memx_heap_large_bucket (lg_pointer l') (of_nat (length ws))) = j"
    using chains_okD(2) [OF assms(1,3,5)] by blast
  ultimately show ?thesis by simp
qed

text \<open>The chains of the old table from bucket \<open>i\<close> on.\<close>

definition tail_chains :: "u64 list \<Rightarrow> (nat \<Rightarrow> u64 list) \<Rightarrow> nat \<Rightarrow> u64 set" where
  "tail_chains ws ch i = (\<Union>j \<in> {i ..< length ws}. set (ch j))"

lemma tail_chains_step: "i < length ws \<Longrightarrow> tail_chains ws ch i = set (ch i) \<union> tail_chains ws ch (Suc i)"
proof -
  assume "i < length ws"
  then have "{i ..< length ws} = insert i {Suc i ..< length ws}" by auto
  then show ?thesis by (simp add: tail_chains_def)
qed

lemma rehash_buckets_ok:
  assumes "\<And>j. i \<le> j \<Longrightarrow> j < length os \<Longrightarrow> linked (lnext (hw_larges w)) (os ! j) (oc j)"
    and "\<And>j j' x. i \<le> j \<Longrightarrow> j < length os \<Longrightarrow> i \<le> j' \<Longrightarrow> j' < length os \<Longrightarrow> x \<in> set (oc j) \<Longrightarrow> x \<in> set (oc j') \<Longrightarrow> j = j'"
    and "heap (hw_mem w) old = Some (LeafRoots os)" "old \<noteq> buckets" "n = length os - i" "i \<le> length os"
    and "heap (hw_mem w) buckets = Some (LeafRoots ws)" "unat c = length ws" "c \<noteq> 0"
    and "chains_ok ws ch (hw_larges w)" "tail_chains os oc i \<inter> members ws ch = {}"
  shows "\<exists>ws' ch' L'. rehash_buckets old buckets c i n w = Some (w\<lparr>
        hw_mem := (hw_mem w)\<lparr>heap := (heap (hw_mem w))(buckets \<mapsto> LeafRoots ws')\<rparr>, hw_larges := L'\<rparr>)
    \<and> length ws' = length ws \<and> chains_ok ws' ch' L' \<and> members ws' ch' = members ws ch \<union> tail_chains os oc i
    \<and> relinked (hw_larges w) L' \<and> (\<forall>y. y \<notin> tail_chains os oc i \<longrightarrow> L' y = hw_larges w y)"
  using assms
proof (induction n arbitrary: i w ws ch)
  case 0
  have e: "tail_chains os oc i = {}" using 0(5,6) by (simp add: tail_chains_def)
  have "w\<lparr>hw_mem := (hw_mem w)\<lparr>heap := (heap (hw_mem w))(buckets \<mapsto> LeafRoots ws)\<rparr>,
      hw_larges := hw_larges w\<rparr> = w"
    using 0(7) by (simp add: fun_upd_idem)
  then have "rehash_buckets old buckets c i 0 w = Some (w\<lparr>hw_mem :=
      (hw_mem w)\<lparr>heap := (heap (hw_mem w))(buckets \<mapsto> LeafRoots ws)\<rparr>, hw_larges := hw_larges w\<rparr>)"
    by (simp only: rehash_buckets.simps)
  then show ?case
    using 0(10) by (intro exI [of _ ws] exI [of _ ch] exI [of _ "hw_larges w"] conjI) (assumption | simp add: e)+
next
  case (Suc n)
  have i: "i < length os" using Suc.prems(5) by simp
  have dj: "set (oc i) \<inter> members ws ch = {}" using Suc.prems(11) tail_chains_step [OF i, of oc] by blast
  obtain ws1 ch1 L1 where r1: "rehash_chain buckets c (os ! i) w = Some (w\<lparr>
        hw_mem := (hw_mem w)\<lparr>heap := (heap (hw_mem w))(buckets \<mapsto> LeafRoots ws1)\<rparr>, hw_larges := L1\<rparr>)"
    "length ws1 = length ws" "chains_ok ws1 ch1 L1" "members ws1 ch1 = members ws ch \<union> set (oc i)"
    "relinked (hw_larges w) L1" "\<forall>y. y \<notin> set (oc i) \<longrightarrow> L1 y = hw_larges w y"
    using rehash_chain_ok [OF Suc.prems(1) [OF order_refl i] dj Suc.prems(7-10)] by blast
  define w1 where "w1 = w\<lparr>hw_mem := (hw_mem w)\<lparr>heap := (heap (hw_mem w))(buckets \<mapsto> LeafRoots ws1)\<rparr>, hw_larges := L1\<rparr>"
  have w1: "hw_larges w1 = L1" "heap (hw_mem w1) = (heap (hw_mem w))(buckets \<mapsto> LeafRoots ws1)" by (simp_all add: w1_def)
  have apart: "x \<notin> set (oc j)" if "x \<in> set (oc i)" "Suc i \<le> j" "j < length os" for x j
    using Suc.prems(2) [of i j x] i that by auto
  have lk: "linked (lnext (hw_larges w1)) (os ! j) (oc j)" if j: "Suc i \<le> j" "j < length os" for j
  proof (rule linked_cong [OF Suc.prems(1)])
    fix y assume "y \<in> set (oc j)"
    then have "y \<notin> set (oc i)" using apart [of y j] j by blast
    then show "lnext (hw_larges w1) y = lnext (hw_larges w) y" using r1(6) by (simp add: w1 lnext_def)
  qed (use j in simp_all)
  have dj2: "tail_chains os oc (Suc i) \<inter> members ws1 ch1 = {}"
  proof -
    have "tail_chains os oc (Suc i) \<inter> set (oc i) = {}" using apart by (fastforce simp: tail_chains_def)
    then show ?thesis unfolding r1(4) using Suc.prems(11) tail_chains_step [OF i, of oc] by blast
  qed
  have "\<exists>ws' ch' L'. rehash_buckets old buckets c (Suc i) n w1 = Some (w1\<lparr>
        hw_mem := (hw_mem w1)\<lparr>heap := (heap (hw_mem w1))(buckets \<mapsto> LeafRoots ws')\<rparr>, hw_larges := L'\<rparr>)
    \<and> length ws' = length ws1 \<and> chains_ok ws' ch' L' \<and> members ws' ch' = members ws1 ch1 \<union> tail_chains os oc (Suc i)
    \<and> relinked (hw_larges w1) L' \<and> (\<forall>y. y \<notin> tail_chains os oc (Suc i) \<longrightarrow> L' y = hw_larges w1 y)"
  proof (rule Suc.IH [OF lk _ _ Suc.prems(4) _ _ _ _ Suc.prems(9) _ dj2])
    show "j = j'" if "Suc i \<le> j" "j < length os" "Suc i \<le> j'" "j' < length os" "x \<in> set (oc j)" "x \<in> set (oc j')" for j j' x
      using Suc.prems(2) [of j j' x] that by simp
    show "heap (hw_mem w1) old = Some (LeafRoots os)" using Suc.prems(3,4) by (simp add: w1)
    show "n = length os - Suc i" using Suc.prems(5) by simp
    show "Suc i \<le> length os" using i by simp
    show "heap (hw_mem w1) buckets = Some (LeafRoots ws1)" by (simp add: w1)
    show "unat c = length ws1" using Suc.prems(8) r1(2) by simp
    show "chains_ok ws1 ch1 (hw_larges w1)" using r1(3) by (simp add: w1)
  qed
  then obtain ws' ch' L' where r: "rehash_buckets old buckets c (Suc i) n w1 = Some (w1\<lparr>
        hw_mem := (hw_mem w1)\<lparr>heap := (heap (hw_mem w1))(buckets \<mapsto> LeafRoots ws')\<rparr>, hw_larges := L'\<rparr>)"
    "length ws' = length ws1" "chains_ok ws' ch' L'" "members ws' ch' = members ws1 ch1 \<union> tail_chains os oc (Suc i)"
    "relinked (hw_larges w1) L'" "\<forall>y. y \<notin> tail_chains os oc (Suc i) \<longrightarrow> L' y = hw_larges w1 y" by blast
  have rr: "read_root (hw_mem w) old i = Some (os ! i)" using Suc.prems(3) i by simp
  have "rehash_buckets old buckets c i (Suc n) w = rehash_buckets old buckets c (Suc i) n w1"
    using rr r1(1) by (simp add: w1_def)
  also have "\<dots> = Some (w\<lparr>hw_mem := (hw_mem w)\<lparr>heap := (heap (hw_mem w))(buckets \<mapsto> LeafRoots ws')\<rparr>, hw_larges := L'\<rparr>)"
    unfolding r(1) by (simp add: w1_def)
  finally have run: "rehash_buckets old buckets c i (Suc n) w = \<dots>" .
  have m: "members ws' ch' = members ws ch \<union> tail_chains os oc i"
    unfolding r(4) r1(4) tail_chains_step [OF i] by blast
  have y: "\<forall>y. y \<notin> tail_chains os oc i \<longrightarrow> L' y = hw_larges w y"
    unfolding tail_chains_step [OF i] using r(6) r1(6) by (simp add: w1)
  have "relinked (hw_larges w) L'" using relinked_trans [OF r1(5)] r(5) by (simp add: w1)
  then show ?case using run r(2,3) r1(2) m y
    by (intro exI [of _ ws'] exI [of _ ch'] exI [of _ L'] conjI) (assumption | simp only:)+
qed

section \<open>Rehashing\<close>

text \<open>The table of the heap: its words, its chains, and the records that are in it.\<close>

definition ltable_ok ::
  "(u64 \<rightharpoonup> memx_object) \<Rightarrow> u64 list \<Rightarrow> (nat \<Rightarrow> u64 list) \<Rightarrow> u64 set \<Rightarrow> 'c heap_world \<Rightarrow> bool" where
  "ltable_ok fr ws ch T w \<longleftrightarrow> unat (hp_large_bucket_count (hw_heap w)) = length ws
     \<and> (if ws = [] then hp_large_buckets (hw_heap w) = 0 else fr (hp_large_buckets (hw_heap w)) = Some (LeafRoots ws))
     \<and> chains_ok ws ch (hw_larges w) \<and> members ws ch = T"

lemma ltable_okD:
  assumes "ltable_ok fr ws ch T w"
  shows "unat (hp_large_bucket_count (hw_heap w)) = length ws" "ws = [] \<Longrightarrow> hp_large_buckets (hw_heap w) = 0"
    "ws \<noteq> [] \<Longrightarrow> fr (hp_large_buckets (hw_heap w)) = Some (LeafRoots ws)"
    "chains_ok ws ch (hw_larges w)" "members ws ch = T"
  using assms by (simp_all add: ltable_ok_def split: if_splits)

text \<open>What a change of the table keeps.\<close>

definition table_frame :: "'c heap_world \<Rightarrow> 'c heap_world \<Rightarrow> bool" where
  "table_frame w w' \<longleftrightarrow> (\<exists>b n m L. w' = w\<lparr>hw_heap := (hw_heap w)\<lparr>hp_large_buckets := b, hp_large_bucket_count := n\<rparr>,
     hw_mem := m, hw_larges := L\<rparr> \<and> relinked (hw_larges w) L)"

lemma table_frame_refl [simp]: "table_frame w w"
  by (intro table_frame_def [THEN iffD2] exI [of _ "hp_large_buckets (hw_heap w)"]
      exI [of _ "hp_large_bucket_count (hw_heap w)"] exI [of _ "hw_mem w"] exI [of _ "hw_larges w"]) simp

text \<open>The part of the C heap outside the table.\<close>

definition fr_kept :: "u64 \<Rightarrow> (u64 \<rightharpoonup> memx_object) \<Rightarrow> u64 \<Rightarrow> (u64 \<rightharpoonup> memx_object) \<Rightarrow> bool" where
  "fr_kept b fr b' fr' \<longleftrightarrow> (\<forall>p. p \<noteq> b \<longrightarrow> p \<noteq> b' \<longrightarrow> fr' p = fr p) \<and> (b' \<noteq> b \<longrightarrow> fr b' = None \<and> fr' b = None)"

lemma fr_kept_refl [simp]: "fr_kept b fr b fr"
  by (simp add: fr_kept_def)

lemma fr_kept_raw:
  assumes "fr_kept b fr b' fr'" "fr p = Some (RawBlock n)" "b = 0 \<or> (\<exists>ws. fr b = Some (LeafRoots ws))" "fr 0 = None"
  shows "fr' p = Some (RawBlock n)"
  using assms by (cases "p = b'"; cases "p = b") (auto simp: fr_kept_def)

lemma rehash_ok:
  assumes c: "env_contract E live mapped" and m: "mem_ok E live mapped M fr (hp_index (hw_heap w)) (hw_mem w)"
    and t: "ltable_ok fr ws ch T w" and n: "n \<noteq> 0"
  shows "\<exists>ok w' fr' ws' ch'. memx_heap_large_rehash_locked E n w = Some (ok, w')
    \<and> mem_ok E live mapped M fr' (hp_index (hw_heap w)) (hw_mem w') \<and> ltable_ok fr' ws' ch' T w' \<and> table_frame w w'
    \<and> adaptive_view (hp_index (hw_heap w), hw_mem w') = adaptive_view (hp_index (hw_heap w), hw_mem w)
    \<and> fr_kept (hp_large_buckets (hw_heap w)) fr (hp_large_buckets (hw_heap w')) fr'
    \<and> (if ok then length ws' = unat n else w' = w\<lparr>hw_mem := hw_mem w'\<rparr> \<and> ws' = ws \<and> fr' = fr)"
proof (cases "SIZE_MAX div 8 < n")
  case True
  then have "memx_heap_large_rehash_locked E n w = Some (False, w)" by (simp add: memx_heap_large_rehash_locked_def)
  then show ?thesis using m t by (intro exI [of _ False] exI [of _ w] exI [of _ fr] exI [of _ ws] exI [of _ ch]) simp
next
  case False
  let ?ix = "hp_index (hw_heap w)" and ?old = "hp_large_buckets (hw_heap w)"
  note T = ltable_okD [OF t]
  obtain p m1 where a: "c_calloc_words (he_allocator E) n (hw_mem w) = Some (p, m1)"
    "if p = 0 then mem_ok E live mapped M fr ?ix m1
     else fr p = None \<and> heap (hw_mem w) p = None
       \<and> mem_ok E live mapped M (fr(p \<mapsto> LeafRoots (replicate (unat n) 0))) ?ix m1"
    "adaptive_view (?ix, m1) = adaptive_view (?ix, hw_mem w)"
    using mem_calloc [OF c m] by blast
  show ?thesis
  proof (cases "p = 0")
    case True
    then have "memx_heap_large_rehash_locked E n w = Some (False, w\<lparr>hw_mem := m1\<rparr>)"
      using False a(1) by (simp add: memx_heap_large_rehash_locked_def)
    moreover have "ltable_ok fr ws ch T (w\<lparr>hw_mem := m1\<rparr>)" using t by (simp add: ltable_ok_def)
    moreover have "table_frame w (w\<lparr>hw_mem := m1\<rparr>)"
      by (intro table_frame_def [THEN iffD2] exI [of _ "hp_large_buckets (hw_heap w)"]
          exI [of _ "hp_large_bucket_count (hw_heap w)"] exI [of _ m1] exI [of _ "hw_larges w"]) simp
    ultimately show ?thesis using a(2,3) True
      by (intro exI [of _ False] exI [of _ "w\<lparr>hw_mem := m1\<rparr>"] exI [of _ fr] exI [of _ ws] exI [of _ ch]) simp
  next
    case p0: False
    let ?fr = "fr(p \<mapsto> LeafRoots (replicate (unat n) 0))" and ?w = "w\<lparr>hw_mem := m1\<rparr>"
    have p: "fr p = None" "mem_ok E live mapped M ?fr ?ix m1" using a(2) p0 by simp_all
    note D = mem_okD(5) [OF c p(2)]
    have hp: "heap m1 p = Some (LeafRoots (replicate (unat n) 0))" by (rule D) simp
    have op: "?old \<noteq> p" if "ws \<noteq> []" using T(3) [OF that] p(1) by auto
    have ho: "heap m1 ?old = Some (LeafRoots ws)" if "ws \<noteq> []" by (rule D) (use T(3) that op in simp)
    have z: "chains_ok (replicate (unat n) 0) (\<lambda>_. []) (hw_larges w)" "members (replicate (unat n) 0) (\<lambda>_. []) = {}"
      by (simp_all add: chains_ok_def members_def)
    have tc: "tail_chains ws ch 0 = T" using T(5) by (simp add: tail_chains_def members_def atLeast0LessThan)
    have nl: "unat n = length (replicate (unat n) (0 :: u64))" by simp
    obtain ws' ch' L' where r: "rehash_buckets ?old p n 0 (length ws) ?w = Some (?w\<lparr>
          hw_mem := m1\<lparr>heap := (heap m1)(p \<mapsto> LeafRoots ws')\<rparr>, hw_larges := L'\<rparr>)"
      "length ws' = unat n" "chains_ok ws' ch' L'" "members ws' ch' = T" "relinked (hw_larges w) L'"
    proof (cases "ws = []")
      case True
      have "T = {}" using T(5) True by (simp add: members_def)
      then show thesis using that [where ws' = "replicate (unat n) 0" and ch' = "\<lambda>_. []" and L' = "hw_larges w"] True z hp by (simp add: fun_upd_idem)
    next
      case ne: False
      have "\<exists>ws' ch' L'. rehash_buckets ?old p n 0 (length ws) ?w = Some (?w\<lparr>
          hw_mem := (hw_mem ?w)\<lparr>heap := (heap (hw_mem ?w))(p \<mapsto> LeafRoots ws')\<rparr>, hw_larges := L'\<rparr>)
        \<and> length ws' = length (replicate (unat n) (0 :: u64)) \<and> chains_ok ws' ch' L'
        \<and> members ws' ch' = members (replicate (unat n) 0) (\<lambda>_. []) \<union> tail_chains ws ch 0
        \<and> relinked (hw_larges ?w) L' \<and> (\<forall>y. y \<notin> tail_chains ws ch 0 \<longrightarrow> L' y = hw_larges ?w y)"
      proof (rule rehash_buckets_ok [OF _ _ _ op [OF ne] _ _ _ nl n])
        show "linked (lnext (hw_larges ?w)) (ws ! j) (ch j)" if "j < length ws" for j
          using chains_okD(1) [OF T(4) that] by simp
        show "j = j'" if "j < length ws" "j' < length ws" "x \<in> set (ch j)" "x \<in> set (ch j')" for j j' x
          by (rule chains_disjoint [OF T(4) that])
      qed (use ho [OF ne] hp z in simp_all)
      then show thesis using that z(2) tc by auto
    qed
    define m2 where "m2 = m1\<lparr>heap := (heap m1)(p \<mapsto> LeafRoots ws')\<rparr>"
    have m2: "mem_ok E live mapped M (fr(p \<mapsto> LeafRoots ws')) ?ix m2"
      "adaptive_view (?ix, m2) = adaptive_view (?ix, hw_mem w)"
      using mem_write [OF c p(2), of p "LeafRoots (replicate (unat n) 0)" "LeafRoots ws'"] a(3) by (simp_all add: m2_def)
    obtain m3 where f: "c_free (he_allocator E) ?old m2 = Some m3"
      "mem_ok E live mapped M ((fr(p \<mapsto> LeafRoots ws'))(?old := None)) ?ix m3" "adaptive_view (?ix, m3) = adaptive_view (?ix, m2)"
    proof (cases "ws = []")
      case True
      then have "?old = 0" by (rule T(2))
      moreover have "(fr(p \<mapsto> LeafRoots ws'))(0 := None) = fr(p \<mapsto> LeafRoots ws')"
        using mem_okD(6) [OF c m] p0 by (auto simp: fun_eq_iff)
      ultimately show thesis using that [of m2] m2 by (simp add: c_free_def)
    next
      case ne: False
      then have "(fr(p \<mapsto> LeafRoots ws')) ?old \<noteq> None" using T(3) op by simp
      from mem_free [OF c m2(1) this] show thesis using that by blast
    qed
    define w' where "w' = w\<lparr>hw_heap := (hw_heap w)\<lparr>hp_large_buckets := p, hp_large_bucket_count := n\<rparr>,
       hw_mem := m3, hw_larges := L'\<rparr>"
    have run: "memx_heap_large_rehash_locked E n w = Some (True, w')"
      using False a(1) p0 r(1) f(1) T(1)
      by (simp add: memx_heap_large_rehash_locked_def w'_def m2_def upd_heap_def)
    let ?fr' = "(fr(p \<mapsto> LeafRoots ws'))(?old := None)"
    have po: "p \<noteq> ?old" using T(2) p0 op by (cases "ws = []") auto
    have ws': "ws' \<noteq> []" using r(2) n by (metis list.size(3) unat_eq_zero)
    have "ltable_ok ?fr' ws' ch' T w'"
      using r(2-4) ws' po by (simp add: ltable_ok_def w'_def)
    moreover have "table_frame w w'" using r(5) unfolding table_frame_def w'_def by blast
    moreover have "fr_kept ?old fr p ?fr'" using p(1) by (simp add: fr_kept_def)
    ultimately show ?thesis using run f(2,3) m2(2) r(2)
      by (intro exI [of _ True] exI [of _ w'] exI [of _ ?fr'] exI [of _ ws'] exI [of _ ch']) (simp add: w'_def)
  qed
qed

end
