(* ===== verification/Memx_Pool.thy ===== *)
theory Memx_Pool
  imports Memx_Heap Memx_Lists
begin

text \<open>
  The free blocks of the allocator.  A ghost function gives the list of blocks at every place a
  free block can be: the local and spare segments and the remote queue of a cache, the chunks of
  a central bin, and the hand of the operation that moves them.  The pool invariant ties the
  links, tails, counts and chunk headers of the code to these lists, keeps the lists disjoint,
  and says that together they hold exactly the blocks that are not allocated.
\<close>

section \<open>Chunk headers\<close>

lemma le_word_bytes: "n \<le> 8 \<Longrightarrow> le_word n (\<lambda>i. ucast (drop_bit (8 * i) v)) = take_bit (8 * n) v"
proof (induction n)
  case (Suc n)
  have "take_bit (8 * n) v OR push_bit (8 * n) (ucast (ucast (drop_bit (8 * n) v) :: u8))
      = take_bit (8 * Suc n) v"
    by (rule bit_word_eqI)
      (use Suc.prems in \<open>auto simp: bit_simps not_le less_diff_conv2\<close>)
  then show ?case using Suc by simp
qed simp

lemma le_word_cong: "(\<And>i. i < n \<Longrightarrow> f i = g i) \<Longrightarrow> le_word n f = le_word n g"
  by (induction n) auto

lemma get_put_word [simp]: "get_word off (put_word off v f) = v"
proof -
  have "get_word off (put_word off v f) = le_word 8 (\<lambda>i. ucast (drop_bit (8 * i) v))"
    unfolding get_word_def by (rule le_word_cong) (simp add: put_word_def)
  also have "\<dots> = v" using le_word_bytes [of 8 v] by (simp add: take_bit_word_eq_self)
  finally show ?thesis .
qed

lemma get_put_other [simp]: "off + 8 \<le> off' \<or> off' + 8 \<le> off \<Longrightarrow> get_word off' (put_word off v f) = get_word off' f"
  unfolding get_word_def by (rule le_word_cong) (auto simp: put_word_def)

definition chunk_words :: "(u64 \<rightharpoonup> payload) \<Rightarrow> u64 \<Rightarrow> (u64 \<times> u64) option" where
  "chunk_words by h = (case by (h + sizeof_block) of None \<Rightarrow> None
     | Some pl \<Rightarrow> (if pl_size pl < 16 then None else Some (get_word 0 (pl_bytes pl), get_word 8 (pl_bytes pl))))"

lemma read_chunk_words: "read_chunk w h = chunk_words (hw_bytes w) h"
  by (auto simp: read_chunk_def chunk_words_def split: option.splits)

definition cnext :: "(u64 \<rightharpoonup> payload) \<Rightarrow> u64 \<Rightarrow> u64 option" where
  "cnext by h = map_option fst (chunk_words by h)"

definition bnext :: "(u64 \<rightharpoonup> memx_heap_block) \<Rightarrow> u64 \<Rightarrow> u64 option" where
  "bnext B p = map_option bk_link (B p)"

definition bstate :: "(u64 \<rightharpoonup> memx_heap_block) \<Rightarrow> u64 \<Rightarrow> u32 option" where
  "bstate B p = map_option bk_state (B p)"

section \<open>Places\<close>

datatype place = Local u64 nat | Spare u64 nat | Remote u64 nat | Chunk nat u64 | Hand nat

fun place_class :: "place \<Rightarrow> nat" where
  "place_class (Local c k) = k"
| "place_class (Spare c k) = k"
| "place_class (Remote c k) = k"
| "place_class (Chunk k h) = k"
| "place_class (Hand k) = k"

fun in_hand :: "place \<Rightarrow> bool" where
  "in_hand (Hand k) \<longleftrightarrow> True"
| "in_hand _ \<longleftrightarrow> False"

fun in_bin :: "place \<Rightarrow> bool" where
  "in_bin (Chunk k h) \<longleftrightarrow> True"
| "in_bin _ \<longleftrightarrow> False"

definition hd0 :: "u64 list \<Rightarrow> u64" where
  "hd0 xs = (case xs of [] \<Rightarrow> 0 | x # _ \<Rightarrow> x)"

definition last0 :: "u64 list \<Rightarrow> u64" where
  "last0 xs = (if xs = [] then 0 else last xs)"

lemma hd0_simps [simp]: "hd0 [] = 0" "hd0 (x # xs) = x" "xs \<noteq> [] \<Longrightarrow> hd0 xs = hd xs"
  by (auto simp: hd0_def split: list.split)

lemma last0_simps [simp]: "last0 [] = 0" "xs \<noteq> [] \<Longrightarrow> last0 xs = last xs"
  by (auto simp: last0_def)

section \<open>The lists of free blocks\<close>

type_synonym lists = "place \<Rightarrow> u64 list"

definition lists_ok :: "(u64 \<Rightarrow> nat) \<Rightarrow> (u64 \<rightharpoonup> memx_heap_block) \<Rightarrow> lists \<Rightarrow> bool" where
  "lists_ok cl B fl \<longleftrightarrow>
     (\<forall>P. in_hand P \<or> linked (bnext B) (hd0 (fl P)) (fl P)) \<and> (\<forall>P. distinct (fl P))
     \<and> (\<forall>P Q x. x \<in> set (fl P) \<longrightarrow> x \<in> set (fl Q) \<longrightarrow> P = Q)
     \<and> (\<forall>x. (\<exists>P. x \<in> set (fl P)) \<longleftrightarrow> bstate B x = Some 0)
     \<and> (\<forall>P. \<forall>x \<in> set (fl P). x \<noteq> 0 \<and> cl x = place_class P)"

lemma lists_okD:
  assumes "lists_ok cl B fl"
  shows "\<not> in_hand P \<Longrightarrow> linked (bnext B) (hd0 (fl P)) (fl P)" "distinct (fl P)"
    "x \<in> set (fl P) \<Longrightarrow> x \<in> set (fl Q) \<Longrightarrow> P = Q"
    "x \<in> set (fl P) \<Longrightarrow> bstate B x = Some 0"
    "bstate B x = Some 0 \<Longrightarrow> \<exists>P. x \<in> set (fl P)"
    "x \<in> set (fl P) \<Longrightarrow> x \<noteq> 0" "x \<in> set (fl P) \<Longrightarrow> cl x = place_class P"
  using assms by (auto simp: lists_ok_def)

text \<open>Moving blocks between two places of a class.\<close>

lemma lists_ok_move:
  assumes ok: "lists_ok cl B fl" and PQ: "P \<noteq> Q" "place_class P = place_class Q"
    and d: "distinct xs" "distinct ys" "set xs \<inter> set ys = {}"
    and all: "set xs \<union> set ys = set (fl P) \<union> set (fl Q)"
    and B: "\<And>x. x \<notin> set (fl P) \<union> set (fl Q) \<Longrightarrow> B' x = B x" "\<And>x. bstate B' x = bstate B x"
    and l: "\<not> in_hand P \<Longrightarrow> linked (bnext B') (hd0 xs) xs" "\<not> in_hand Q \<Longrightarrow> linked (bnext B') (hd0 ys) ys"
  shows "lists_ok cl B' (fl(P := xs, Q := ys))"
proof -
  let ?f = "fl(P := xs, Q := ys)"
  have mem: "(x \<in> set (?f R)) \<longrightarrow> (if R = P \<or> R = Q then x \<in> set (fl P) \<union> set (fl Q) else x \<in> set (fl R))" for x R
    using all by auto
  have 1: "in_hand R \<or> linked (bnext B') (hd0 (?f R)) (?f R)" for R
  proof (cases "R = P \<or> R = Q")
    case True
    then show ?thesis using l PQ(1) by auto
  next
    case False
    then have o: "x \<notin> set (fl P) \<union> set (fl Q)" if "x \<in> set (fl R)" for x
      using lists_okD(3) [OF ok that] by blast
    show ?thesis
    proof (cases "in_hand R")
      case n: False
      have "linked (bnext B') (hd0 (fl R)) (fl R)"
        by (rule linked_cong [OF lists_okD(1) [OF ok n]]) (simp only: bnext_def B(1) [OF o])
      then show ?thesis using False by simp
    qed simp
  qed
  have 2: "distinct (?f R)" for R using d(1,2) lists_okD(2) [OF ok] by simp
  have 3: "R = S" if "x \<in> set (?f R)" "x \<in> set (?f S)" for x R S
    using that mem [of x R] mem [of x S] lists_okD(3) [OF ok] d(3) PQ(1)
    by (auto split: if_splits)
  have u: "(\<exists>R. x \<in> set (?f R)) \<longleftrightarrow> (\<exists>R. x \<in> set (fl R))" for x
  proof
    show "\<exists>R. x \<in> set (?f R) \<Longrightarrow> \<exists>R. x \<in> set (fl R)" using mem by (metis UnE)
    assume "\<exists>R. x \<in> set (fl R)"
    then obtain R where R: "x \<in> set (fl R)" by blast
    show "\<exists>R. x \<in> set (?f R)"
    proof (cases "R = P \<or> R = Q")
      case True
      then have "x \<in> set xs \<union> set ys" using R all by auto
      then have "x \<in> set (?f P) \<or> x \<in> set (?f Q)" using PQ(1) by auto
      then show ?thesis by blast
    next
      case False
      then have "x \<in> set (?f R)" using R by simp
      then show ?thesis by blast
    qed
  qed
  have 4: "(\<exists>R. x \<in> set (?f R)) \<longleftrightarrow> bstate B' x = Some 0" for x
    unfolding u B(2) using lists_okD(4,5) [OF ok] by blast
  have 5: "x \<noteq> 0 \<and> cl x = place_class R" if "x \<in> set (?f R)" for x R
    using mem [of x R] that lists_okD(6,7) [OF ok] PQ(2) by (auto split: if_splits)
  show ?thesis unfolding lists_ok_def using 1 2 3 4 5 by blast
qed

text \<open>A block joins the free ones, or leaves them.\<close>

lemma lists_ok_add:
  assumes ok: "lists_ok cl B fl" and x: "bstate B x \<noteq> Some 0" "x \<noteq> 0" "cl x = place_class P" "bk_state b = 0"
    and l: "\<not> in_hand P \<Longrightarrow> bk_link b = hd0 (fl P)"
  shows "lists_ok cl (B(x \<mapsto> b)) (fl(P := x # fl P))"
proof -
  have out: "x \<notin> set (fl R)" for R using lists_okD(4) [OF ok] x(1) by blast
  have 1: "in_hand R \<or> linked (bnext (B(x \<mapsto> b))) (hd0 ((fl(P := x # fl P)) R)) ((fl(P := x # fl P)) R)" for R
  proof (cases "in_hand R")
    case False
    have k: "linked (bnext (B(x \<mapsto> b))) (hd0 (fl R)) (fl R)"
      by (rule linked_cong [OF lists_okD(1) [OF ok False]]) (use out [of R] in \<open>auto simp: bnext_def\<close>)
    then show ?thesis using l False x(2) by (auto simp: bnext_def)
  qed simp
  have 3: "R = S" if "y \<in> set ((fl(P := x # fl P)) R)" "y \<in> set ((fl(P := x # fl P)) S)" for y R S
    using that lists_okD(3) [OF ok] out by (auto split: if_splits)
  have 4: "(\<exists>R. y \<in> set ((fl(P := x # fl P)) R)) \<longleftrightarrow> bstate (B(x \<mapsto> b)) y = Some 0" for y
  proof (cases "y = x")
    case True
    then have "y \<in> set ((fl(P := x # fl P)) P)" by simp
    then show ?thesis using True x(4) by (auto simp: bstate_def)
  next
    case False
    then have "bstate (B(x \<mapsto> b)) y = bstate B y" by (simp add: bstate_def)
    moreover have "y \<in> set ((fl(P := x # fl P)) R) \<longleftrightarrow> y \<in> set (fl R)" for R using False by simp
    ultimately show ?thesis using lists_okD(4,5) [OF ok] by metis
  qed
  have 2: "distinct ((fl(P := x # fl P)) R)" for R using lists_okD(2) [OF ok] out by simp
  have 5: "y \<noteq> 0 \<and> cl y = place_class R" if "y \<in> set ((fl(P := x # fl P)) R)" for y R
    using that lists_okD(6,7) [OF ok] x(2,3) by (auto split: if_splits)
  show ?thesis unfolding lists_ok_def using 1 2 3 4 5 by blast
qed

lemma lists_ok_take:
  assumes ok: "lists_ok cl B fl" and P: "fl P = x # xs" "\<not> in_hand P" and b: "bk_state b \<noteq> 0"
  shows "lists_ok cl (B(x \<mapsto> b)) (fl(P := xs))"
proof -
  have x: "x \<in> set (fl P)" "x \<notin> set xs" using P(1) lists_okD(2) [OF ok, of P] by simp_all
  have out: "x \<notin> set ((fl(P := xs)) R)" for R
    using lists_okD(3) [OF ok x(1)] x(2) by (cases "R = P") auto
  have sub: "y \<in> set (fl R)" if "y \<in> set ((fl(P := xs)) R)" for y R using that P(1) by (auto split: if_splits)
  have 1: "in_hand R \<or> linked (bnext (B(x \<mapsto> b))) (hd0 ((fl(P := xs)) R)) ((fl(P := xs)) R)" for R
  proof (cases "in_hand R")
    case False
    have k: "linked (bnext B) (hd0 ((fl(P := xs)) R)) ((fl(P := xs)) R)"
    proof (cases "R = P")
      case True
      obtain q where q: "linked (bnext B) q xs" using lists_okD(1) [OF ok P(2)] P(1) by auto
      then have "q = hd0 xs" by (cases xs) auto
      then show ?thesis using True q by simp
    next
      case n: False
      then show ?thesis using lists_okD(1) [OF ok False] by simp
    qed
    have "linked (bnext (B(x \<mapsto> b))) (hd0 ((fl(P := xs)) R)) ((fl(P := xs)) R)"
      by (rule linked_cong [OF k]) (use out [of R] in \<open>auto simp: bnext_def\<close>)
    then show ?thesis ..
  qed simp
  have 2: "distinct ((fl(P := xs)) R)" for R using lists_okD(2) [OF ok, of P] lists_okD(2) [OF ok, of R] P(1) by simp
  have 3: "R = S" if "y \<in> set ((fl(P := xs)) R)" "y \<in> set ((fl(P := xs)) S)" for y R S
    using sub [OF that(1)] sub [OF that(2)] by (rule lists_okD(3) [OF ok])
  have 4: "(\<exists>R. y \<in> set ((fl(P := xs)) R)) \<longleftrightarrow> bstate (B(x \<mapsto> b)) y = Some 0" for y
  proof (cases "y = x")
    case True
    then show ?thesis using out b by (auto simp: bstate_def)
  next
    case False
    then have "bstate (B(x \<mapsto> b)) y = bstate B y" by (simp add: bstate_def)
    moreover have "y \<in> set ((fl(P := xs)) R) \<longleftrightarrow> y \<in> set (fl R)" for R using False P(1) by simp
    ultimately show ?thesis using lists_okD(4,5) [OF ok] by metis
  qed
  have 5: "y \<noteq> 0 \<and> cl y = place_class R" if "y \<in> set ((fl(P := xs)) R)" for y R
    using lists_okD(6,7) [OF ok sub [OF that]] by blast
  show ?thesis unfolding lists_ok_def using 1 2 3 4 5 by blast
qed

section \<open>Central bins\<close>

definition chunk_ok ::
  "nat \<Rightarrow> (u64 \<rightharpoonup> memx_heap_block) \<Rightarrow> (u64 \<rightharpoonup> payload) \<Rightarrow> u64 \<Rightarrow> u64 list \<Rightarrow> bool" where
  "chunk_ok cap B by h xs \<longleftrightarrow> xs \<noteq> [] \<and> hd xs = h \<and> length xs \<le> cap
     \<and> map_option snd (chunk_words by h) = Some (last xs)
     \<and> map_option (\<lambda>b. unat (bk_requested_size b)) (B h) = Some (length xs)"

definition bins_ok ::
  "nat \<Rightarrow> (nat \<Rightarrow> u64) \<Rightarrow> (nat \<Rightarrow> u64) \<Rightarrow> (u64 \<rightharpoonup> memx_heap_block) \<Rightarrow> (u64 \<rightharpoonup> payload)
     \<Rightarrow> lists \<Rightarrow> (nat \<Rightarrow> u64 list) \<Rightarrow> bool" where
  "bins_ok cap central count B by fl heads \<longleftrightarrow>
     (\<forall>k. linked (cnext by) (central k) (heads k)
        \<and> count k = of_nat (\<Sum>h \<leftarrow> heads k. length (fl (Chunk k h)))
        \<and> (\<forall>h \<in> set (heads k). chunk_ok cap B by h (fl (Chunk k h)))
        \<and> (\<forall>h. h \<notin> set (heads k) \<longrightarrow> fl (Chunk k h) = []))"

lemma bins_okD:
  assumes "bins_ok cap central count B by fl heads"
  shows "linked (cnext by) (central k) (heads k)"
    "count k = of_nat (\<Sum>h \<leftarrow> heads k. length (fl (Chunk k h)))"
    "h \<in> set (heads k) \<Longrightarrow> chunk_ok cap B by h (fl (Chunk k h))"
    "h \<notin> set (heads k) \<Longrightarrow> fl (Chunk k h) = []"
  using assms by (simp_all add: bins_ok_def)

text \<open>The bins read only their own lists and the headers and payloads of their heads.\<close>

lemma bins_ok_cong:
  assumes ok: "bins_ok cap central count B by fl heads"
    and fl: "\<And>k h. fl' (Chunk k h) = fl (Chunk k h)"
    and h: "\<And>k h. h \<in> set (heads k) \<Longrightarrow> B' h = B h \<and> by' (h + sizeof_block) = by (h + sizeof_block)"
  shows "bins_ok cap central count B' by' fl' heads"
proof -
  have w: "chunk_words by' x = chunk_words by x" if "x \<in> set (heads k)" for x k
    using h [OF that] by (simp add: chunk_words_def)
  have l: "linked (cnext by') (central k) (heads k)" for k
    by (rule linked_cong [OF bins_okD(1) [OF ok]]) (simp only: cnext_def w)
  have c: "chunk_ok cap B' by' x (fl (Chunk k x))" if "x \<in> set (heads k)" for k x
    using bins_okD(3) [OF ok that] h [OF that] w [OF that] by (simp add: chunk_ok_def)
  show ?thesis
    unfolding bins_ok_def fl using l c bins_okD(2,4) [OF ok] by blast
qed

lemma bins_member:
  assumes "bins_ok cap central count B by fl heads" "h \<in> set (heads k)"
  shows "h \<in> set (fl (Chunk k h))"
  using bins_okD(3) [OF assms] unfolding chunk_ok_def by (metis hd_in_set)

lemma chunk_ok_nth:
  "chunk_ok cap B by h xs \<Longrightarrow> \<exists>n. chunk_words by h = Some (n, last xs)"
  by (auto simp: chunk_ok_def)

lemma bins_ok_push:
  assumes ok: "bins_ok cap central count B by fl heads"
    and fresh: "x \<notin> set (heads k)" "x \<noteq> 0" "\<And>j. \<forall>h \<in> set (heads j). h \<noteq> x \<and> B' h = B h \<and> by' (h + sizeof_block) = by (h + sizeof_block)"
    and c: "chunk_ok cap B' by' x xs" and n: "cnext by' x = Some (central k)"
    and fl': "fl' (Chunk k x) = xs" "\<And>j h. j \<noteq> k \<or> h \<noteq> x \<Longrightarrow> fl' (Chunk j h) = fl (Chunk j h)"
  shows "bins_ok cap (central(k := x)) (count(k := count k + of_nat (length xs))) B' by' fl' (heads(k := x # heads k))"
proof -
  have w: "chunk_words by' h = chunk_words by h" if "h \<in> set (heads j)" for h j
    using fresh(3) [of j] that by (simp add: chunk_words_def)
  have l: "linked (cnext by') (central j) (heads j)" for j
    by (rule linked_cong [OF bins_okD(1) [OF ok]]) (simp only: cnext_def w)
  have f: "fl' (Chunk j h) = fl (Chunk j h)" if "h \<in> set (heads j)" for j h
    using that fresh(1) fl'(2) by metis
  have s: "(\<Sum>h \<leftarrow> heads j. length (fl' (Chunk j h))) = (\<Sum>h \<leftarrow> heads j. length (fl (Chunk j h)))" for j
    by (rule arg_cong [where f = sum_list], rule map_cong) (simp_all add: f)
  have co: "chunk_ok cap B' by' h (fl' (Chunk j h))" if "h \<in> set (heads j)" for j h
    using bins_okD(3) [OF ok that] fresh(3) [of j] that w [OF that] f [OF that] by (simp add: chunk_ok_def)
  have e: "fl' (Chunk j h) = []" if "h \<notin> set ((heads(k := x # heads k)) j)" for j h
    using that fl'(2) [of j h] bins_okD(4) [OF ok, of h j] by (cases "j = k") auto
  show ?thesis
    unfolding bins_ok_def
  proof (intro allI conjI ballI impI)
    fix j
    show "linked (cnext by') ((central(k := x)) j) ((heads(k := x # heads k)) j)"
      using l n fresh(2) by simp
    show "(count(k := count k + of_nat (length xs))) j
        = of_nat (\<Sum>h \<leftarrow> (heads(k := x # heads k)) j. length (fl' (Chunk j h)))"
      using bins_okD(2) [OF ok] s fl'(1) by simp
    show "chunk_ok cap B' by' h (fl' (Chunk j h))" if "h \<in> set ((heads(k := x # heads k)) j)" for h
      using that c co fl'(1) by (cases "j = k") auto
    show "fl' (Chunk j h) = []" if "h \<notin> set ((heads(k := x # heads k)) j)" for h
      by (rule e [OF that])
  qed
qed

lemma bins_ok_pop:
  assumes ok: "bins_ok cap central count B by fl heads" and k: "heads k = x # hs"
    and B: "\<And>j. \<forall>h \<in> set (heads j). h \<noteq> x \<longrightarrow> B' h = B h \<and> by' (h + sizeof_block) = by (h + sizeof_block)"
    and other: "\<And>j. j \<noteq> k \<Longrightarrow> x \<notin> set (heads j)"
    and n: "cnext by x = Some q"
    and fl': "fl' (Chunk k x) = []" "\<And>j h. j \<noteq> k \<or> h \<noteq> x \<Longrightarrow> fl' (Chunk j h) = fl (Chunk j h)"
  shows "bins_ok cap (central(k := q)) (count(k := count k - of_nat (length (fl (Chunk k x))))) B' by' fl'
    (heads(k := hs))"
proof -
  have dist: "x \<notin> set hs" using linked_distinct [OF bins_okD(1) [OF ok, of k]] k by simp
  let ?H = "heads(k := hs)"
  have sub: "h \<in> set (heads j)" "h \<noteq> x" if "h \<in> set (?H j)" for h j
    using that k dist other by (auto split: if_splits)
  have w: "chunk_words by' h = chunk_words by h" if "h \<in> set (?H j)" for h j
    using B [of j] sub [OF that] by (simp add: chunk_words_def)
  have l0: "linked (cnext by) ((central(k := q)) j) (?H j)" for j
    using bins_okD(1) [OF ok, of j] k n by (cases "j = k") auto
  have l: "linked (cnext by') ((central(k := q)) j) (?H j)" for j
    by (rule linked_cong [OF l0]) (simp only: cnext_def w)
  have f: "fl' (Chunk j h) = fl (Chunk j h)" if "h \<in> set (?H j)" for j h
    using sub(2) [OF that] fl'(2) by metis
  have s: "(\<Sum>h \<leftarrow> ?H j. length (fl' (Chunk j h))) = (\<Sum>h \<leftarrow> ?H j. length (fl (Chunk j h)))" for j
    by (rule arg_cong [where f = sum_list], rule map_cong) (simp_all only: f)
  have co: "chunk_ok cap B' by' h (fl' (Chunk j h))" if "h \<in> set (?H j)" for j h
    using bins_okD(3) [OF ok sub(1) [OF that]] B [of j] sub [OF that] w [OF that] f [OF that]
    by (simp add: chunk_ok_def)
  have e: "fl' (Chunk j h) = []" if "h \<notin> set (?H j)" for j h
    using that fl' bins_okD(4) [OF ok, of h j] k by (cases "j = k"; cases "h = x") auto
  have cnt: "(count(k := count k - of_nat (length (fl (Chunk k x))))) j
      = of_nat (\<Sum>h \<leftarrow> ?H j. length (fl (Chunk j h)))" for j
    using bins_okD(2) [OF ok, of j] k by (cases "j = k") simp_all
  show ?thesis
    unfolding bins_ok_def
    using l s co e cnt by simp
qed

section \<open>What moving blocks keeps\<close>

definition heap_skel :: "'c memx_heap \<Rightarrow> 'c memx_heap" where
  "heap_skel h = h\<lparr>hp_central := (\<lambda>_. 0), hp_central_count := (\<lambda>_. 0), hp_live_requested_bytes := 0,
     hp_peak_live_requested_bytes := 0, hp_frees := 0, hp_remote_frees := 0, hp_invalid_frees := 0\<rparr>"

definition cache_skel :: "memx_heap_cache \<Rightarrow> u64 \<times> u64 \<times> u64 \<times> bool" where
  "cache_skel c = (ch_heap c, ch_heap_next c, ch_tls_next c, ch_accepting_remote c)"

text \<open>Everything but links, headers and payloads of free blocks, bins, cache segments, counters.\<close>

definition moved :: "'c heap_world \<Rightarrow> 'c heap_world \<Rightarrow> bool" where
  "moved w w' \<longleftrightarrow> hw_mem w' = hw_mem w \<and> hw_spans w' = hw_spans w \<and> hw_larges w' = hw_larges w
     \<and> hw_tls w' = hw_tls w \<and> hw_tls_last w' = hw_tls_last w \<and> hw_huge_cache w' = hw_huge_cache w
     \<and> heap_skel (hw_heap w') = heap_skel (hw_heap w)
     \<and> (\<forall>c. map_option cache_skel (hw_caches w' c) = map_option cache_skel (hw_caches w c))
     \<and> (\<forall>x. bstate (hw_blocks w') x = bstate (hw_blocks w) x)
     \<and> (\<forall>x. bstate (hw_blocks w) x \<noteq> Some 0 \<longrightarrow> hw_blocks w' x = hw_blocks w x)
     \<and> (\<forall>x. bstate (hw_blocks w) x \<noteq> Some 0 \<longrightarrow> hw_bytes w' (x + sizeof_block) = hw_bytes w (x + sizeof_block))
     \<and> (\<forall>p. map_option pl_size (hw_bytes w' p) = map_option pl_size (hw_bytes w p))"

lemma moved_refl [simp]: "moved w w"
  by (simp add: moved_def)

lemma moved_trans: "moved w w' \<Longrightarrow> moved w' w'' \<Longrightarrow> moved w w''"
  unfolding moved_def by metis

lemma heap_skelD:
  assumes "heap_skel h' = heap_skel h"
  shows "hp_self h' = hp_self h" "hp_config h' = hp_config h" "hp_arena h' = hp_arena h"
    "hp_span_size h' = hp_span_size h" "hp_span_capacity h' = hp_span_capacity h"
    "hp_next_span h' = hp_next_span h" "hp_span_classes h' = hp_span_classes h"
    "hp_class_table h' = hp_class_table h" "hp_index h' = hp_index h" "hp_spans h' = hp_spans h"
    "hp_large_buckets h' = hp_large_buckets h" "hp_large_bucket_count h' = hp_large_bucket_count h"
    "hp_large_count h' = hp_large_count h" "hp_caches h' = hp_caches h"
    "hp_exclusive_cache h' = hp_exclusive_cache h" "hp_committed_bytes h' = hp_committed_bytes h"
    "hp_commit_granularity h' = hp_commit_granularity h"
  using assms unfolding heap_skel_def by (cases h; cases h'; simp)+

lemma cache_skelD:
  "cache_skel c' = cache_skel c \<Longrightarrow> ch_heap c' = ch_heap c \<and> ch_heap_next c' = ch_heap_next c
     \<and> ch_tls_next c' = ch_tls_next c \<and> ch_accepting_remote c' = ch_accepting_remote c"
  by (simp add: cache_skel_def)

lemma moved_config: "moved w w' \<Longrightarrow> hp_config (hw_heap w') = hp_config (hw_heap w)"
  unfolding moved_def by (blast dest: heap_skelD(2))

lemma moved_self: "moved w w' \<Longrightarrow> hp_self (hw_heap w') = hp_self (hw_heap w)"
  unfolding moved_def by (blast dest: heap_skelD(1))

lemma moved_caches:
  assumes "moved w w'"
  shows "hw_caches w c = None \<longleftrightarrow> hw_caches w' c = None"
    "hw_caches w c = Some r \<Longrightarrow> \<exists>r'. hw_caches w' c = Some r' \<and> cache_skel r' = cache_skel r"
proof -
  have e: "map_option cache_skel (hw_caches w' c) = map_option cache_skel (hw_caches w c)"
    using assms by (simp add: moved_def)
  show "hw_caches w c = None \<longleftrightarrow> hw_caches w' c = None" using e by (metis map_option_is_None)
  show "hw_caches w c = Some r \<Longrightarrow> \<exists>r'. hw_caches w' c = Some r' \<and> cache_skel r' = cache_skel r"
    using e by auto
qed

text \<open>The steps \<^const>\<open>moved\<close> is made of.\<close>

lemma moved_block:
  assumes "hw_blocks w x = Some b" "bk_state b = 0" "bk_state b' = 0"
  shows "moved w (w\<lparr>hw_blocks := (hw_blocks w)(x \<mapsto> b')\<rparr>)"
  using assms by (auto simp: moved_def bstate_def)

lemma moved_bytes:
  assumes "bstate (hw_blocks w) x = Some 0" "hw_bytes w (x + sizeof_block) = Some pl" "pl_size pl' = pl_size pl"
  shows "moved w (w\<lparr>hw_bytes := (hw_bytes w)(x + sizeof_block \<mapsto> pl')\<rparr>)"
  using assms by (auto simp: moved_def)

lemma moved_cache:
  assumes "hw_caches w c = Some r" "cache_skel r' = cache_skel r"
  shows "moved w (w\<lparr>hw_caches := (hw_caches w)(c \<mapsto> r')\<rparr>)"
  using assms by (auto simp: moved_def)

lemma moved_heap:
  assumes "heap_skel (f (hw_heap w)) = heap_skel (hw_heap w)"
  shows "moved w (upd_heap f w)"
  using assms by (simp add: moved_def upd_heap_def)

section \<open>The pool\<close>

definition cache_cap :: "'c heap_world \<Rightarrow> nat" where
  "cache_cap w = unat (hc_cache_limit (hp_config (hw_heap w)))"

text \<open>The longest chunk: its count is kept in 32 bits.\<close>

definition chunk_cap :: "'c heap_world \<Rightarrow> nat" where
  "chunk_cap w = min (cache_cap w) 4294967295"

definition payloads_ok :: "(u64 \<Rightarrow> nat) \<Rightarrow> (u64 \<rightharpoonup> memx_heap_block) \<Rightarrow> (u64 \<rightharpoonup> payload) \<Rightarrow> bool" where
  "payloads_ok cl B by \<longleftrightarrow> (\<forall>x. B x \<noteq> None \<longrightarrow>
     x \<noteq> 0 \<and> cl x < 19 \<and> map_option pl_size (by (x + sizeof_block)) = Some (class_size (cl x)))"

definition bins_part :: "(u64 \<Rightarrow> nat) \<Rightarrow> lists \<Rightarrow> (nat \<Rightarrow> u64 list) \<Rightarrow> 'c heap_world \<Rightarrow> bool" where
  "bins_part cl fl heads w \<longleftrightarrow> lists_ok cl (hw_blocks w) fl \<and> payloads_ok cl (hw_blocks w) (hw_bytes w)
     \<and> bins_ok (chunk_cap w) (hp_central (hw_heap w)) (hp_central_count (hw_heap w)) (hw_blocks w)
         (hw_bytes w) fl heads
     \<and> (\<forall>x s. bstate (hw_blocks w) x = Some s \<longrightarrow> s = 0 \<or> s = 1) \<and> 2 \<le> cache_cap w"

definition segment :: "u64 \<Rightarrow> u64 \<Rightarrow> u64 \<Rightarrow> u64 list \<Rightarrow> bool" where
  "segment first tail count xs \<longleftrightarrow> first = hd0 xs \<and> tail = last0 xs \<and> unat count = length xs"

text \<open>The lists of one cache: its segments, its remote queue, and the bounds of the segments.\<close>

definition cache_lists :: "'c heap_world \<Rightarrow> lists \<Rightarrow> u64 \<Rightarrow> memx_heap_cache \<Rightarrow> nat \<Rightarrow> bool" where
  "cache_lists w fl c r k \<longleftrightarrow>
     segment (ch_local r k) (ch_local_tail r k) (ch_local_count r k) (fl (Local c k))
     \<and> segment (ch_spare r k) (ch_spare_tail r k) (ch_spare_count r k) (fl (Spare c k))
     \<and> ch_remote r k = hd0 (fl (Remote c k)) \<and> ch_remote_count r k = of_nat (length (fl (Remote c k)))
     \<and> length (fl (Local c k)) \<le> chunk_cap w \<and> length (fl (Spare c k)) \<le> chunk_cap w"

definition cache_ok :: "'c heap_world \<Rightarrow> lists \<Rightarrow> u64 \<Rightarrow> memx_heap_cache \<Rightarrow> nat \<Rightarrow> bool" where
  "cache_ok w fl c r k \<longleftrightarrow> cache_lists w fl c r k \<and> length (fl (Local c k)) < chunk_cap w
     \<and> length (fl (Local c k)) + length (fl (Spare c k)) \<le> cache_cap w"

text \<open>The caches of the heap; the others in the thread lists belong to other heaps.\<close>

definition own_cache :: "'c heap_world \<Rightarrow> u64 \<rightharpoonup> memx_heap_cache" where
  "own_cache w c = (case hw_caches w c of None \<Rightarrow> None
     | Some r \<Rightarrow> (if ch_heap r = hp_self (hw_heap w) then Some r else None))"

text \<open>All caches of the heap and classes but those in \<open>X\<close>.\<close>

definition caches_part :: "lists \<Rightarrow> (u64 \<times> nat) set \<Rightarrow> 'c heap_world \<Rightarrow> bool" where
  "caches_part fl X w \<longleftrightarrow> (\<forall>c k. case own_cache w c of
       None \<Rightarrow> fl (Local c k) = [] \<and> fl (Spare c k) = [] \<and> fl (Remote c k) = []
     | Some r \<Rightarrow> (c, k) \<in> X \<or> cache_ok w fl c r k)"

lemma own_cacheD:
  "own_cache w c = Some r \<Longrightarrow> hw_caches w c = Some r"
  "own_cache w c = Some r \<Longrightarrow> ch_heap r = hp_self (hw_heap w)"
  by (auto simp: own_cache_def split: option.splits if_splits)

lemma own_cacheI: "hw_caches w c = Some r \<Longrightarrow> ch_heap r = hp_self (hw_heap w) \<Longrightarrow> own_cache w c = Some r"
  by (simp add: own_cache_def)

lemma own_cache_upd:
  assumes "own_cache w c = Some r" "hw_caches w' = (hw_caches w)(c \<mapsto> r')"
    and "hp_self (hw_heap w') = hp_self (hw_heap w)" "ch_heap r' = ch_heap r"
  shows "own_cache w' = (own_cache w)(c \<mapsto> r')"
proof
  fix x show "own_cache w' x = ((own_cache w)(c \<mapsto> r')) x"
    using assms own_cacheD(2) [OF assms(1)] by (cases "hw_caches w x") (simp_all add: own_cache_def)
qed

lemma own_cache_set:
  "own_cache w c = Some r \<Longrightarrow> ch_heap r' = ch_heap r \<Longrightarrow>
   own_cache (w\<lparr>hw_caches := (hw_caches w)(c \<mapsto> r')\<rparr>) = (own_cache w)(c \<mapsto> r')"
  by (rule own_cache_upd) simp_all

lemma own_cache_same:
  "hw_caches w' = hw_caches w \<Longrightarrow> hp_self (hw_heap w') = hp_self (hw_heap w) \<Longrightarrow> own_cache w' = own_cache w"
proof -
  assume a: "hw_caches w' = hw_caches w" "hp_self (hw_heap w') = hp_self (hw_heap w)"
  show ?thesis unfolding own_cache_def a ..
qed

lemma moved_own:
  assumes "moved w w'"
  shows "own_cache w' c = None \<longleftrightarrow> own_cache w c = None"
    "own_cache w c = Some r \<Longrightarrow> \<exists>r'. own_cache w' c = Some r' \<and> cache_skel r' = cache_skel r"
proof -
  have e: "map_option cache_skel (hw_caches w' c) = map_option cache_skel (hw_caches w c)"
    using assms by (simp add: moved_def)
  have s: "hp_self (hw_heap w') = hp_self (hw_heap w)"
    using assms unfolding moved_def by (blast dest: heap_skelD(1))
  show "own_cache w' c = None \<longleftrightarrow> own_cache w c = None"
    using e s by (cases "hw_caches w c"; cases "hw_caches w' c") (simp_all add: own_cache_def cache_skel_def)
  show "own_cache w c = Some r \<Longrightarrow> \<exists>r'. own_cache w' c = Some r' \<and> cache_skel r' = cache_skel r"
    using e s by (cases "hw_caches w c"; cases "hw_caches w' c")
      (auto simp: own_cache_def cache_skel_def split: if_splits)
qed

lemma bins_partD:
  assumes "bins_part cl fl heads w"
  shows "lists_ok cl (hw_blocks w) fl" "payloads_ok cl (hw_blocks w) (hw_bytes w)"
    "bins_ok (chunk_cap w) (hp_central (hw_heap w)) (hp_central_count (hw_heap w)) (hw_blocks w) (hw_bytes w) fl heads"
    "bstate (hw_blocks w) x = Some s \<Longrightarrow> s = 0 \<or> s = 1" "2 \<le> cache_cap w" "2 \<le> chunk_cap w"
  using assms by (simp_all add: bins_part_def chunk_cap_def)

lemma class_size_16: "k < 19 \<Longrightarrow> 16 \<le> class_size k"
proof -
  have "\<forall>s \<in> set memx_heap_class_sizes. (16 :: nat) \<le> unat s" by (simp add: memx_heap_class_sizes_def)
  then show "k < 19 \<Longrightarrow> 16 \<le> class_size k" by (simp add: class_size_def)
qed

lemma free_payload:
  assumes "bins_part cl fl heads w" "x \<in> set (fl P)"
  shows "\<exists>b pl. hw_blocks w x = Some b \<and> bk_state b = 0 \<and> x \<noteq> 0 \<and> cl x = place_class P \<and> place_class P < 19
    \<and> hw_bytes w (x + sizeof_block) = Some pl \<and> pl_size pl = class_size (cl x) \<and> 16 \<le> pl_size pl"
proof -
  note L = lists_okD [OF bins_partD(1) [OF assms(1)]]
  obtain b where b: "hw_blocks w x = Some b" "bk_state b = 0" using L(4) [OF assms(2)] by (auto simp: bstate_def)
  have c: "cl x = place_class P" "x \<noteq> 0" using L(6,7) assms(2) by blast+
  have "cl x < 19" "map_option pl_size (hw_bytes w (x + sizeof_block)) = Some (class_size (cl x))"
    using bins_partD(2) [OF assms(1)] b by (auto simp: payloads_ok_def)
  then show ?thesis using b c class_size_16 by auto
qed

lemma payloads_ok_moved:
  assumes "payloads_ok cl (hw_blocks w) (hw_bytes w)" "moved w w'"
  shows "payloads_ok cl (hw_blocks w') (hw_bytes w')"
proof -
  have "hw_blocks w' x = None \<longleftrightarrow> hw_blocks w x = None" for x
    using assms(2) unfolding moved_def bstate_def by (metis map_option_is_None)
  then show ?thesis using assms unfolding payloads_ok_def moved_def by auto
qed

lemma cap_moved: "moved w w' \<Longrightarrow> cache_cap w' = cache_cap w" "moved w w' \<Longrightarrow> chunk_cap w' = chunk_cap w"
  by (simp_all add: cache_cap_def chunk_cap_def moved_config)

lemma bins_partI:
  assumes "bins_part cl fl heads w" "moved w w'" "lists_ok cl (hw_blocks w') fl'"
    and "bins_ok (chunk_cap w) (hp_central (hw_heap w')) (hp_central_count (hw_heap w')) (hw_blocks w')
         (hw_bytes w') fl' heads'"
  shows "bins_part cl fl' heads' w'"
proof -
  have "bstate (hw_blocks w') x = bstate (hw_blocks w) x" for x using assms(2) by (simp add: moved_def)
  then show ?thesis
    unfolding bins_part_def cap_moved [OF assms(2)]
    using assms(3,4) payloads_ok_moved [OF bins_partD(2) [OF assms(1)] assms(2)] bins_partD(4,5) [OF assms(1)]
    by simp
qed


section \<open>Changing caches\<close>

text \<open>The arrays of two caches agree at class \<open>j\<close>.\<close>

definition same_class :: "memx_heap_cache \<Rightarrow> memx_heap_cache \<Rightarrow> nat \<Rightarrow> bool" where
  "same_class r r' j \<longleftrightarrow> ch_local r' j = ch_local r j \<and> ch_local_tail r' j = ch_local_tail r j
     \<and> ch_local_count r' j = ch_local_count r j \<and> ch_spare r' j = ch_spare r j
     \<and> ch_spare_tail r' j = ch_spare_tail r j \<and> ch_spare_count r' j = ch_spare_count r j
     \<and> ch_remote r' j = ch_remote r j \<and> ch_remote_count r' j = ch_remote_count r j"

lemma cache_lists_cong:
  assumes "cache_lists w fl c r k" "chunk_cap w' = chunk_cap w" "same_class r r' k"
    and "fl' (Local c k) = fl (Local c k)" "fl' (Spare c k) = fl (Spare c k)" "fl' (Remote c k) = fl (Remote c k)"
  shows "cache_lists w' fl' c r' k"
  using assms by (simp add: cache_lists_def same_class_def)

lemma cache_ok_cong:
  assumes "cache_ok w fl c r k" "chunk_cap w' = chunk_cap w" "cache_cap w' = cache_cap w" "same_class r r' k"
    and "fl' (Local c k) = fl (Local c k)" "fl' (Spare c k) = fl (Spare c k)" "fl' (Remote c k) = fl (Remote c k)"
  shows "cache_ok w' fl' c r' k"
  using assms cache_lists_cong [of w fl c r k w' r' fl'] by (simp add: cache_ok_def)

lemma same_class_refl [simp]: "same_class r r j"
  by (simp add: same_class_def)

lemma caches_partD:
  assumes "caches_part fl X w"
  shows "own_cache w c = None \<Longrightarrow> fl (Local c k) = []" "own_cache w c = None \<Longrightarrow> fl (Spare c k) = []"
    "own_cache w c = None \<Longrightarrow> fl (Remote c k) = []"
    "own_cache w c = Some r \<Longrightarrow> (c, k) \<notin> X \<Longrightarrow> cache_ok w fl c r k"
  using assms [unfolded caches_part_def, rule_format, of c k] by simp_all

text \<open>One class of one cache changes; its state is checked apart.\<close>

lemma caches_part_step:
  assumes inv: "caches_part fl X w" and cap: "chunk_cap w' = chunk_cap w" "cache_cap w' = cache_cap w"
    and c: "own_cache w c = Some r" "own_cache w' = (own_cache w)(c \<mapsto> r')"
    and X: "X \<subseteq> insert (c, k) Y" and k: "(c, k) \<notin> Y \<Longrightarrow> cache_ok w' fl' c r' k"
    and same: "\<And>j. j \<noteq> k \<Longrightarrow> same_class r r' j"
    and fl: "\<And>d j. d \<noteq> c \<or> j \<noteq> k \<Longrightarrow> fl' (Local d j) = fl (Local d j) \<and> fl' (Spare d j) = fl (Spare d j)
               \<and> fl' (Remote d j) = fl (Remote d j)"
  shows "caches_part fl' Y w'"
  unfolding caches_part_def
proof (intro allI)
  fix d j
  show "case own_cache w' d of None \<Rightarrow> fl' (Local d j) = [] \<and> fl' (Spare d j) = [] \<and> fl' (Remote d j) = []
     | Some r \<Rightarrow> (d, j) \<in> Y \<or> cache_ok w' fl' d r j"
  proof (cases "d = c \<and> j = k")
    case True
    then show ?thesis using c(2) k by auto
  next
    case False
    then have f: "fl' (Local d j) = fl (Local d j)" "fl' (Spare d j) = fl (Spare d j)" "fl' (Remote d j) = fl (Remote d j)"
      using fl by auto
    show ?thesis
    proof (cases "own_cache w' d")
      case None
      then have "own_cache w d = None" using c(2) by (auto split: if_splits)
      then show ?thesis using None caches_partD(1-3) [OF inv] f by simp
    next
      case (Some q')
      obtain q where q: "own_cache w d = Some q" "same_class q q' j"
        using Some c same False by (cases "d = c") auto
      have "(d, j) \<in> Y \<or> (d, j) \<notin> X" using X False by auto
      then show ?thesis
        using Some cache_ok_cong [OF caches_partD(4) [OF inv q(1)] cap q(2) f] by auto
    qed
  qed
qed

lemma caches_part_same:
  assumes inv: "caches_part fl X w" and cap: "chunk_cap w' = chunk_cap w" "cache_cap w' = cache_cap w"
    and c: "own_cache w' = own_cache w"
    and fl: "\<And>d j. (d, j) \<notin> Y \<or> own_cache w d = None \<Longrightarrow> fl' (Local d j) = fl (Local d j)
               \<and> fl' (Spare d j) = fl (Spare d j) \<and> fl' (Remote d j) = fl (Remote d j)"
    and X: "X \<subseteq> Y"
  shows "caches_part fl' Y w'"
  unfolding caches_part_def
proof (intro allI)
  fix d j
  show "case own_cache w' d of None \<Rightarrow> fl' (Local d j) = [] \<and> fl' (Spare d j) = [] \<and> fl' (Remote d j) = []
     | Some r \<Rightarrow> (d, j) \<in> Y \<or> cache_ok w' fl' d r j"
  proof (cases "own_cache w d")
    case None
    then show ?thesis using c caches_partD(1-3) [OF inv] fl by simp
  next
    case (Some r)
    show ?thesis
    proof (cases "(d, j) \<in> Y")
      case False
      then have "(d, j) \<notin> X" using X by auto
      then have "cache_ok w' fl' d r j"
        using cache_ok_cong [OF caches_partD(4) [OF inv Some] cap, of j r fl'] fl False by simp
      then show ?thesis using c Some by simp
    qed (simp add: c Some)
  qed
qed

end
