(* ===== verification/Memx_Segments.thy ===== *)
theory Memx_Segments
  imports Memx_Pool
begin

text \<open>
  The operations that move free blocks, on the pool: every one keeps the pool invariant, returns,
  and leaves allocated blocks and their payloads alone.
\<close>

section \<open>Central bins\<close>

lemma cap_words:
  assumes "n \<le> chunk_cap w"
  shows "unat (of_nat n :: u64) = n" "unat (ucast (of_nat n :: u64) :: u32) = n" "\<not> UINT32_MAX < (of_nat n :: u64)"
proof -
  have n: "n \<le> 4294967295" using assms by (simp add: chunk_cap_def)
  then show u: "unat (of_nat n :: u64) = n" by (simp add: unat_of_nat)
  show "unat (ucast (of_nat n :: u64) :: u32) = n"
    unfolding unsigned_ucast_eq u using n by (simp add: take_bit_nat_eq_self)
  show "\<not> UINT32_MAX < (of_nat n :: u64)" unfolding word_less_nat_alt u using n by (simp add: UINT32_MAX_def)
qed

lemma set_block_eval: "hw_blocks w x = Some b \<Longrightarrow>
    set_block x f w = Some (w\<lparr>hw_blocks := (hw_blocks w)(x \<mapsto> f b)\<rparr>)"
  by (simp add: set_block_def)

lemma set_cache_eval: "hw_caches w c = Some r \<Longrightarrow>
    set_cache c f w = Some (w\<lparr>hw_caches := (hw_caches w)(c \<mapsto> f r)\<rparr>)"
  by (simp add: set_cache_def)

lemma write_chunk_eval:
  assumes "hw_bytes w (h + sizeof_block) = Some pl" "16 \<le> pl_size pl"
  shows "\<exists>pl'. write_chunk h n t w = Some (w\<lparr>hw_bytes := (hw_bytes w)(h + sizeof_block \<mapsto> pl')\<rparr>)
     \<and> pl_size pl' = pl_size pl \<and> chunk_words ((hw_bytes w)(h + sizeof_block \<mapsto> pl')) h = Some (n, t)"
  using assms by (intro exI [of _ "pl\<lparr>pl_bytes := put_word 8 t (put_word 0 n (pl_bytes pl))\<rparr>"])
    (simp add: write_chunk_def chunk_words_def)

text \<open>A free block is the head of no chunk unless it is in a bin.\<close>

lemma not_head:
  assumes "bins_part cl fl heads w" "x \<in> set (fl P)" "\<not> in_bin P \<or> P = Chunk k h" "j \<noteq> k \<or> h \<noteq> x \<or> \<not> in_bin P"
  shows "x \<notin> set (heads j)"
proof
  assume "x \<in> set (heads j)"
  then have "x \<in> set (fl (Chunk j x))" by (rule bins_member [OF bins_partD(3) [OF assms(1)]])
  then have "P = Chunk j x" using lists_okD(3) [OF bins_partD(1) [OF assms(1)] assms(2)] by blast
  then show False using assms(3,4) by auto
qed

lemma linked_rest: "linked nx p (xs @ ys) \<Longrightarrow> linked nx (hd0 ys) ys"
proof (induction xs arbitrary: p)
  case Nil
  then show ?case by (cases ys) auto
qed auto

lemma push_chunk_ok:
  assumes inv: "bins_part cl fl heads w" and P: "\<not> in_bin P" "place_class P = k" "fl P = xs @ ys" "xs \<noteq> []"
    and n: "length xs \<le> chunk_cap w" and l: "linked ((bnext (hw_blocks w))(last xs \<mapsto> 0)) (hd xs) xs"
  shows "\<exists>w'. memx_heap_push_central_chunk_locked k (hd xs) (last xs) (of_nat (length xs)) w = Some w'
    \<and> bins_part cl (fl(P := ys, Chunk k (hd xs) := xs)) (heads(k := hd xs # heads k)) w' \<and> moved w w'
    \<and> hw_caches w' = hw_caches w \<and> (\<forall>y. y \<notin> set xs \<longrightarrow> hw_blocks w' y = hw_blocks w y)"
proof -
  let ?h = "hd xs" and ?t = "last xs" and ?n = "of_nat (length xs) :: u64"
  note L = lists_okD [OF bins_partD(1) [OF inv]] and bins = bins_partD(3) [OF inv]
  have hm: "?h \<in> set (fl P)" and tm: "?t \<in> set (fl P)" using P(3,4) by simp_all
  obtain bh pl where h: "hw_blocks w ?h = Some bh" "bk_state bh = 0" "?h \<noteq> 0"
      "hw_bytes w (?h + sizeof_block) = Some pl" "16 \<le> pl_size pl"
    using free_payload [OF inv hm] by blast
  obtain bt where t: "hw_blocks w ?t = Some bt" "bk_state bt = 0" "?t \<noteq> 0" using free_payload [OF inv tm] by blast
  note cw = cap_words [OF n]
  have n0: "?n \<noteq> 0" using cw(1) P(4) by (metis length_0_conv unat_0)
  define w1 where "w1 = w\<lparr>hw_blocks := (hw_blocks w)(?t \<mapsto> bt\<lparr>bk_link := 0\<rparr>)\<rparr>"
  have m1: "moved w w1" unfolding w1_def by (rule moved_block [OF t(1,2)]) (simp add: t(2))
  obtain pl' where p: "write_chunk ?h (hp_central (hw_heap w) k) ?t w1
        = Some (w1\<lparr>hw_bytes := (hw_bytes w1)(?h + sizeof_block \<mapsto> pl')\<rparr>)" "pl_size pl' = pl_size pl"
      "chunk_words ((hw_bytes w1)(?h + sizeof_block \<mapsto> pl')) ?h = Some (hp_central (hw_heap w) k, ?t)"
    using write_chunk_eval [of w1 ?h pl "hp_central (hw_heap w) k" ?t] h(4,5) by (auto simp: w1_def)
  define w2 where "w2 = w1\<lparr>hw_bytes := (hw_bytes w1)(?h + sizeof_block \<mapsto> pl')\<rparr>"
  have m2: "moved w1 w2" unfolding w2_def
    by (rule moved_bytes [OF _ _ p(2)]) (use h(1,2,4) t(2) in \<open>simp_all add: w1_def bstate_def\<close>)
  obtain b1 where b1: "hw_blocks w2 ?h = Some b1" "bk_state b1 = 0" "?h \<noteq> ?t \<Longrightarrow> b1 = bh"
      "?h = ?t \<Longrightarrow> bk_link b1 = 0"
    using h(1,2) t(1,2) by (cases "?h = ?t") (auto simp: w2_def w1_def)
  let ?b = "b1\<lparr>bk_requested_size := ucast ?n\<rparr>"
  define w3 where "w3 = w2\<lparr>hw_blocks := (hw_blocks w2)(?h \<mapsto> ?b)\<rparr>"
  have m3: "moved w2 w3" unfolding w3_def by (rule moved_block [OF b1(1,2)]) (simp add: b1(2))
  define f where "f = (\<lambda>h :: 'a memx_heap. h\<lparr>hp_central := (hp_central h)(k := ?h),
                hp_central_count := (hp_central_count h)(k := hp_central_count h k + ?n)\<rparr>)"
  let ?w = "upd_heap f w3"
  have m4: "moved w3 ?w" by (rule moved_heap) (simp add: f_def heap_skel_def)
  have mv: "moved w ?w" using m1 m2 m3 m4 by (blast intro: moved_trans)
  have run: "memx_heap_push_central_chunk_locked k ?h ?t ?n w = Some ?w"
  proof -
    have s1: "set_block ?t (\<lambda>b. b\<lparr>bk_link := 0\<rparr>) w = Some w1" by (simp add: set_block_eval [OF t(1)] w1_def)
    have s3: "set_block ?h (\<lambda>b. b\<lparr>bk_requested_size := ucast ?n\<rparr>) w2 = Some w3"
      by (simp add: set_block_eval [OF b1(1)] w3_def)
    have "hw_heap w1 = hw_heap w" by (simp add: w1_def)
    then show ?thesis
      using h(3) t(3) n0 cw(3) s1 p(1) s3
      unfolding memx_heap_push_central_chunk_locked_def f_def w2_def by simp
  qed
  have keep: "hw_blocks ?w y = hw_blocks w y" if "y \<notin> set xs" for y
    using that P(4) by (auto simp: upd_heap_def w3_def w2_def w1_def)
  have lnk: "bnext (hw_blocks ?w) = (bnext (hw_blocks w))(?t \<mapsto> 0)"
  proof
    fix y show "bnext (hw_blocks ?w) y = ((bnext (hw_blocks w))(?t \<mapsto> 0)) y"
      using b1(3,4) h(1) by (cases "?h = ?t") (auto simp: bnext_def upd_heap_def w3_def w2_def w1_def)
  qed
  have nh: "?h \<notin> set (heads j)" for j by (rule not_head [OF inv hm]) (use P(1) in auto)
  have e: "fl (Chunk k ?h) = []" by (rule bins_okD(4) [OF bins nh])
  have PQ: "P \<noteq> Chunk k ?h" using P(1) by auto
  have lo: "lists_ok cl (hw_blocks ?w) (fl(P := ys, Chunk k ?h := xs))"
  proof (rule lists_ok_move [OF bins_partD(1) [OF inv] PQ])
    show "distinct xs" "distinct ys" "set ys \<inter> set xs = {}" using L(2) [of P] P(3) by auto
    assume "\<not> in_hand P"
    then have "linked (bnext (hw_blocks w)) (hd0 ys) ys" using L(1) [of P] linked_rest P(3) by metis
    then show "linked (bnext (hw_blocks ?w)) (hd0 ys) ys"
    proof (rule linked_cong)
      fix x assume "x \<in> set ys"
      then have "x \<notin> set xs" using \<open>set ys \<inter> set xs = {}\<close> by blast
      from keep [OF this] show "bnext (hw_blocks ?w) x = bnext (hw_blocks w) x" by (simp only: bnext_def)
    qed
  next
    show "hw_blocks ?w x = hw_blocks w x" if "x \<notin> set (fl P) \<union> set (fl (Chunk k ?h))" for x
      using keep that P(3) by simp
    show "bstate (hw_blocks ?w) x = bstate (hw_blocks w) x" for x using mv by (simp add: moved_def)
    show "linked (bnext (hw_blocks ?w)) (hd0 xs) xs" using l P(4) unfolding lnk by simp
  qed (use P e in \<open>simp_all add: Un_commute\<close>)
  have other: "h \<noteq> ?h \<and> hw_blocks ?w h = hw_blocks w h \<and> hw_bytes ?w (h + sizeof_block) = hw_bytes w (h + sizeof_block)"
    if "h \<in> set (heads j)" for h j
  proof -
    have "h \<noteq> ?h" using nh that by blast
    moreover have "h \<notin> set xs"
    proof
      assume "h \<in> set xs"
      then have "h \<in> set (fl P)" by (simp add: P(3))
      then show False using not_head [OF inv, of h P k h j] P(1) that by simp
    qed
    moreover have "hw_bytes ?w = (hw_bytes w)(?h + sizeof_block \<mapsto> pl')"
      by (simp add: upd_heap_def w3_def w2_def w1_def)
    ultimately show ?thesis using keep by simp
  qed
  have bo: "bins_ok (chunk_cap w) ((hp_central (hw_heap w))(k := ?h))
      ((hp_central_count (hw_heap w))(k := hp_central_count (hw_heap w) k + ?n)) (hw_blocks ?w) (hw_bytes ?w)
      (fl(P := ys, Chunk k ?h := xs)) (heads(k := ?h # heads k))"
  proof (rule bins_ok_push [OF bins nh h(3)])
    show "\<forall>h \<in> set (heads j). h \<noteq> ?h \<and> hw_blocks ?w h = hw_blocks w h
        \<and> hw_bytes ?w (h + sizeof_block) = hw_bytes w (h + sizeof_block)" for j using other by blast
    have byw: "hw_bytes ?w = (hw_bytes w1)(?h + sizeof_block \<mapsto> pl')"
      by (simp add: upd_heap_def w3_def w2_def)
    show "cnext (hw_bytes ?w) ?h = Some (hp_central (hw_heap w) k)" unfolding byw cnext_def p(3) by simp
    have "hw_blocks ?w ?h = Some ?b" by (simp add: upd_heap_def w3_def)
    then show "chunk_ok (chunk_cap w) (hw_blocks ?w) (hw_bytes ?w) ?h xs"
      unfolding chunk_ok_def byw p(3) using P(4) n cw(2) by simp
    show "(fl(P := ys, Chunk k ?h := xs)) (Chunk j h) = fl (Chunk j h)" if "j \<noteq> k \<or> h \<noteq> ?h" for j h
      using that P(1) by auto
  qed simp
  have "bins_part cl (fl(P := ys, Chunk k ?h := xs)) (heads(k := ?h # heads k)) ?w"
  proof (rule bins_partI [OF inv mv lo])
    have "hw_heap w3 = hw_heap w" by (simp add: w3_def w2_def w1_def)
    then have "hp_central (hw_heap ?w) = (hp_central (hw_heap w))(k := ?h)"
      "hp_central_count (hw_heap ?w) = (hp_central_count (hw_heap w))(k := hp_central_count (hw_heap w) k + ?n)"
      by (simp_all add: upd_heap_def f_def)
    then show "bins_ok (chunk_cap w) (hp_central (hw_heap ?w)) (hp_central_count (hw_heap ?w)) (hw_blocks ?w)
        (hw_bytes ?w) (fl(P := ys, Chunk k ?h := xs)) (heads(k := ?h # heads k))"
      using bo by simp
  qed
  moreover have "hw_caches ?w = hw_caches w" by (simp add: upd_heap_def w3_def w2_def w1_def)
  ultimately show ?thesis using run mv keep by blast
qed

text \<open>\<open>settled\<close>: the pool holds again, the places outside the bins hold the given lists, and only
  the listed blocks were touched.\<close>

definition settled ::
  "(u64 \<Rightarrow> nat) \<Rightarrow> 'c heap_world \<Rightarrow> lists \<Rightarrow> place set \<Rightarrow> u64 set \<Rightarrow> 'c heap_world \<Rightarrow> lists \<Rightarrow> (nat \<Rightarrow> u64 list) \<Rightarrow> bool" where
  "settled cl w gl Ps T w' fl' heads' \<longleftrightarrow> bins_part cl fl' heads' w' \<and> moved w w'
     \<and> (\<forall>P. \<not> in_bin P \<longrightarrow> P \<notin> Ps \<longrightarrow> fl' P = gl P) \<and> (\<forall>y. y \<notin> T \<longrightarrow> hw_blocks w' y = hw_blocks w y)"

lemma settledD:
  assumes "settled cl w gl Ps T w' fl' heads'"
  shows "bins_part cl fl' heads' w'" "moved w w'" "\<not> in_bin P \<Longrightarrow> P \<notin> Ps \<Longrightarrow> fl' P = gl P"
    "y \<notin> T \<Longrightarrow> hw_blocks w' y = hw_blocks w y"
  using assms by (auto simp: settled_def)

lemma push_block_ok:
  assumes inv: "bins_part cl fl heads w" and P: "\<not> in_bin P" "fl P = x # ys"
  shows "\<exists>w' fl' heads'. memx_heap_push_central_locked (place_class P) x w = Some w'
    \<and> settled cl w (fl(P := ys)) {} {x} w' fl' heads' \<and> hw_caches w' = hw_caches w"
proof -
  have xm: "x \<in> set (fl P)" using P(2) by simp
  obtain b where b: "hw_blocks w x = Some b" "x \<noteq> 0" using free_payload [OF inv xm] by blast
  have "\<exists>w'. memx_heap_push_central_chunk_locked (place_class P) (hd [x]) (last [x]) (of_nat (length [x])) w = Some w'
    \<and> bins_part cl (fl(P := ys, Chunk (place_class P) (hd [x]) := [x]))
         (heads(place_class P := hd [x] # heads (place_class P))) w' \<and> moved w w'
    \<and> hw_caches w' = hw_caches w \<and> (\<forall>y. y \<notin> set [x] \<longrightarrow> hw_blocks w' y = hw_blocks w y)"
    by (rule push_chunk_ok [OF inv P(1) refl]) (use P(2) b(2) bins_partD(6) [OF inv] in simp_all)
  then obtain w' where w': "memx_heap_push_central_locked (place_class P) x w = Some w'"
    "bins_part cl (fl(P := ys, Chunk (place_class P) x := [x])) (heads(place_class P := x # heads (place_class P))) w'"
    "moved w w'" "hw_caches w' = hw_caches w" "\<forall>y. y \<notin> set [x] \<longrightarrow> hw_blocks w' y = hw_blocks w y"
    by (auto simp: memx_heap_push_central_locked_def)
  have "settled cl w (fl(P := ys)) {} {x} w' (fl(P := ys, Chunk (place_class P) x := [x]))
      (heads(place_class P := x # heads (place_class P)))"
    unfolding settled_def using w'(2,3,5) P(1) by (metis fun_upd_apply in_bin.simps(1) list.set(1,2) singletonD insert_iff)
  then show ?thesis using w'(1,4) by blast
qed

section \<open>Flushing and trimming\<close>

lemma segment_nonempty:
  assumes "segment first tail count xs" "xs \<noteq> []" "0 \<notin> set xs"
  shows "first = hd xs" "tail = last xs" "first \<noteq> 0" "tail \<noteq> 0" "count \<noteq> 0" "count = of_nat (length xs)"
proof -
  have u: "unat count = length xs" and f: "first = hd xs" "tail = last xs"
    using assms(1,2) by (auto simp: segment_def)
  show "first = hd xs" "tail = last xs" by (rule f)+
  show "first \<noteq> 0" "tail \<noteq> 0" using f assms(2,3) by (metis hd_in_set last_in_set)+
  show "count = of_nat (length xs)" unfolding u [symmetric] by simp
  show "count \<noteq> 0" using u assms(2) by auto
qed

lemma segment_empty [simp]: "segment first tail count [] \<longleftrightarrow> first = 0 \<and> tail = 0 \<and> count = 0"
  by (auto simp: segment_def unat_eq_0)

lemma list_nonzero: "bins_part cl fl heads w \<Longrightarrow> 0 \<notin> set (fl P)"
  using lists_okD(6) [OF bins_partD(1)] by blast

text \<open>Two places swap whole lists in the records only.\<close>

lemma bins_part_swap:
  assumes inv: "bins_part cl fl heads w" and P: "\<not> in_bin P" "\<not> in_bin Q" "P \<noteq> Q" "place_class P = place_class Q"
    and e: "fl Q = []" and c: "hw_blocks w' = hw_blocks w" "hw_bytes w' = hw_bytes w" "moved w w'"
      "hp_central (hw_heap w') = hp_central (hw_heap w)" "hp_central_count (hw_heap w') = hp_central_count (hw_heap w)"
    and h: "\<not> in_hand Q \<Longrightarrow> \<not> in_hand P"
  shows "bins_part cl (fl(P := [], Q := fl P)) heads w'"
proof (rule bins_partI [OF inv c(3)])
  note L = lists_okD [OF bins_partD(1) [OF inv]]
  show "lists_ok cl (hw_blocks w') (fl(P := [], Q := fl P))"
    unfolding c(1)
    by (rule lists_ok_move [OF bins_partD(1) [OF inv] P(3,4)]) (use L(1,2) e h in auto)
  show "bins_ok (chunk_cap w) (hp_central (hw_heap w')) (hp_central_count (hw_heap w')) (hw_blocks w')
      (hw_bytes w') (fl(P := [], Q := fl P)) heads"
    unfolding c by (rule bins_ok_cong [OF bins_partD(3) [OF inv]]) (use P(1,2) in auto)
qed

lemma flush_ok:
  assumes inv: "bins_part cl fl heads w" "caches_part fl {(c, k)} w"
    and r: "own_cache w c = Some r" "cache_lists w fl c r k"
  shows "\<exists>w' fl' heads'. memx_heap_flush_excess_slow c k w = Some w'
    \<and> settled cl w (fl(Spare c k := fl (Local c k), Local c k := [])) {} (set (fl (Spare c k))) w' fl' heads'
    \<and> caches_part fl' {} w'"
proof -
  let ?S = "fl (Spare c k)"
  note seg = r(2) [unfolded cache_lists_def]
  have "\<exists>w1 fl1 heads1. (if ch_spare r k \<noteq> 0 \<and> ch_spare_tail r k \<noteq> 0 \<and> ch_spare_count r k \<noteq> 0
               \<and> ch_spare_count r k \<le> UINT32_MAX
            then memx_heap_push_central_chunk_locked k (ch_spare r k) (ch_spare_tail r k) (ch_spare_count r k) w
            else Some w) = Some w1
      \<and> settled cl w (fl(Spare c k := [])) {} (set ?S) w1 fl1 heads1 \<and> hw_caches w1 = hw_caches w"
  proof (cases "?S = []")
    case True
    then have "settled cl w (fl(Spare c k := [])) {} (set ?S) w fl heads"
      using inv(1) by (simp add: settled_def fun_upd_idem)
    then show ?thesis using seg True by auto
  next
    case False
    have s: "segment (ch_spare r k) (ch_spare_tail r k) (ch_spare_count r k) ?S" "length ?S \<le> chunk_cap w" using seg by auto
    note ne = segment_nonempty [OF s(1) False list_nonzero [OF inv(1)]]
    have u: "ch_spare_count r k \<le> UINT32_MAX" using cap_words(3) [OF s(2)] ne(6) by simp
    have l: "linked (bnext (hw_blocks w)) (hd ?S) ?S"
      using lists_okD(1) [OF bins_partD(1) [OF inv(1)], of "Spare c k"] False by simp
    have dist: "distinct ?S" by (rule lists_okD(2) [OF bins_partD(1) [OF inv(1)]])
    have l0: "linked ((bnext (hw_blocks w))(last ?S \<mapsto> 0)) (hd ?S) ?S"
      using linked_splice [OF l False, of 0 "[]"] by simp
    obtain w1 where w1: "memx_heap_push_central_chunk_locked k (hd ?S) (last ?S) (of_nat (length ?S)) w = Some w1"
      "bins_part cl (fl(Spare c k := [], Chunk k (hd ?S) := ?S)) (heads(k := hd ?S # heads k)) w1" "moved w w1"
      "hw_caches w1 = hw_caches w" "\<forall>y. y \<notin> set ?S \<longrightarrow> hw_blocks w1 y = hw_blocks w y"
      using push_chunk_ok [OF inv(1), of "Spare c k" k ?S "[]"] False s(2) l0 by auto
    have "settled cl w (fl(Spare c k := [])) {} (set ?S) w1 (fl(Spare c k := [], Chunk k (hd ?S) := ?S))
        (heads(k := hd ?S # heads k))"
      unfolding settled_def using w1(2,3,5) by auto
    then show ?thesis using w1(1,4) ne u by auto
  qed
  then obtain w1 fl1 heads1 where w1: "(if ch_spare r k \<noteq> 0 \<and> ch_spare_tail r k \<noteq> 0 \<and> ch_spare_count r k \<noteq> 0
               \<and> ch_spare_count r k \<le> UINT32_MAX
            then memx_heap_push_central_chunk_locked k (ch_spare r k) (ch_spare_tail r k) (ch_spare_count r k) w
            else Some w) = Some w1"
    "settled cl w (fl(Spare c k := [])) {} (set ?S) w1 fl1 heads1" "hw_caches w1 = hw_caches w" by blast
  note S1 = settledD [OF w1(2)]
  let ?r = "r\<lparr>ch_spare := (ch_spare r)(k := ch_local r k),
         ch_spare_tail := (ch_spare_tail r)(k := ch_local_tail r k),
         ch_spare_count := (ch_spare_count r)(k := ch_local_count r k),
         ch_local := (ch_local r)(k := 0), ch_local_tail := (ch_local_tail r)(k := 0),
         ch_local_count := (ch_local_count r)(k := 0)\<rparr>"
  let ?w = "w1\<lparr>hw_caches := (hw_caches w1)(c \<mapsto> ?r)\<rparr>"
  let ?fl = "fl1(Local c k := [], Spare c k := fl1 (Local c k))"
  have r1: "hw_caches w1 c = Some r" using own_cacheD(1) [OF r(1)] w1(3) by simp
  have run: "memx_heap_flush_excess_slow c k w = Some ?w"
    using own_cacheD(1) [OF r(1)] w1(1) set_cache_eval [OF r1] by (simp add: memx_heap_flush_excess_slow_def)
  have m: "moved w1 ?w" by (rule moved_cache [OF r1]) (simp add: cache_skel_def)
  have b: "bins_part cl ?fl heads1 ?w"
    by (rule bins_part_swap [OF S1(1)]) (use m S1(3) [of "Spare c k"] in simp_all)
  have f: "fl1 (Local d j) = fl (Local d j)" "fl1 (Remote d j) = fl (Remote d j)" for d j
    using S1(3) [of "Local d j"] S1(3) [of "Remote d j"] by simp_all
  have st: "settled cl w (fl(Spare c k := fl (Local c k), Local c k := [])) {} (set ?S) ?w ?fl heads1"
    unfolding settled_def
  proof (intro conjI allI impI)
    show "moved w ?w" by (rule moved_trans [OF S1(2) m])
    show "?fl P = (fl(Spare c k := fl (Local c k), Local c k := [])) P" if "\<not> in_bin P" for P
      using that S1(3) [of P] f by simp
    show "hw_blocks ?w y = hw_blocks w y" if "y \<notin> set ?S" for y using S1(4) that by simp
  qed (rule b)
  have cap: "chunk_cap ?w = chunk_cap w" "cache_cap ?w = cache_cap w"
    using cap_moved moved_trans [OF S1(2) m] by blast+
  have "caches_part ?fl {} ?w"
  proof (rule caches_part_step [OF inv(2) cap r(1)])
    show "own_cache ?w = (own_cache w)(c \<mapsto> ?r)"
      by (rule own_cache_upd [OF r(1)]) (use w1(3) moved_self [OF S1(2)] in simp_all)
    show "cache_ok ?w ?fl c ?r k"
      unfolding cache_ok_def cache_lists_def cap
      using seg f bins_partD(5,6) [OF inv(1)] by (auto simp: chunk_cap_def)
    show "same_class r ?r j" if "j \<noteq> k" for j using that by (simp add: same_class_def)
    show "?fl (Local d j) = fl (Local d j) \<and> ?fl (Spare d j) = fl (Spare d j) \<and> ?fl (Remote d j) = fl (Remote d j)"
      if "d \<noteq> c \<or> j \<noteq> k" for d j
      using that f S1(3) [of "Spare d j"] by auto
  qed auto
  then show ?thesis using run st by blast
qed

lemma half_limit: "unat (n :: u64) < unat ((l :: u64) div 2) \<Longrightarrow> unat n < unat l"
  unfolding unat_div by simp

lemma trim_ok:
  assumes inv: "bins_part cl fl heads w" "caches_part fl {(c, k)} w"
    and r: "own_cache w c = Some r" "cache_lists w fl c r k"
  shows "\<exists>w' fl' heads'. memx_heap_trim_cache c k w = Some w'
    \<and> settled cl w fl {Local c k, Spare c k} (set (fl (Spare c k))) w' fl' heads' \<and> caches_part fl' {} w'"
proof -
  let ?n = "ch_local_count r k" and ?l = "hc_cache_limit (hp_config (hw_heap w))"
  have n: "unat ?n = length (fl (Local c k))" "unat (ch_spare_count r k) = length (fl (Spare c k))"
    "length (fl (Local c k)) \<le> chunk_cap w"
    using r(2) by (simp_all add: cache_lists_def segment_def)
  have le: "\<not> ?l < ?n" using n by (simp add: word_less_nat_alt chunk_cap_def cache_cap_def)
  show ?thesis
  proof (cases "?l div 2 \<le> ?n \<or> UINT32_MAX \<le> ?n \<or> ?l - ?n < ch_spare_count r k")
    case True
    obtain w' fl' heads' where f: "memx_heap_flush_excess_slow c k w = Some w'"
      "settled cl w (fl(Spare c k := fl (Local c k), Local c k := [])) {} (set (fl (Spare c k))) w' fl' heads'"
      "caches_part fl' {} w'"
      using flush_ok [OF inv r] by blast
    have "settled cl w fl {Local c k, Spare c k} (set (fl (Spare c k))) w' fl' heads'"
      using f(2) by (simp add: settled_def)
    then show ?thesis using f(1,3) own_cacheD(1) [OF r(1)] le True by (auto simp: memx_heap_trim_cache_def)
  next
    case False
    have "unat ?n < unat (?l div 2)" "unat ?n < unat UINT32_MAX"
      using False by (simp_all add: word_less_nat_alt [symmetric] not_le)
    then have lt: "length (fl (Local c k)) < chunk_cap w"
      using half_limit [of ?n ?l] n(1) by (simp add: chunk_cap_def cache_cap_def UINT32_MAX_def)
    have "unat (ch_spare_count r k) \<le> unat (?l - ?n)" using False by (simp add: word_le_nat_alt not_less)
    moreover have "unat (?l - ?n) = unat ?l - unat ?n" by (rule unat_sub) (use le in simp)
    ultimately have "cache_ok w fl c r k"
      using r(2) lt n by (simp add: cache_ok_def cache_cap_def chunk_cap_def, linarith)
    then have "caches_part fl {} w"
      using caches_part_step [OF inv(2) refl refl r(1), of r k "{}" fl] r(1) by (simp add: fun_upd_idem)
    moreover have "memx_heap_trim_cache c k w = Some w"
      using own_cacheD(1) [OF r(1)] le False by (simp add: memx_heap_trim_cache_def)
    moreover have "settled cl w fl {Local c k, Spare c k} (set (fl (Spare c k))) w fl heads"
      using inv(1) by (simp add: settled_def)
    ultimately show ?thesis by blast
  qed
qed

section \<open>Freeing into a cache\<close>

text \<open>A block goes from the front of one place to the front of a list of a cache.\<close>

lemma shift_block:
  assumes inv: "bins_part cl fl heads w" and x: "fl Q = x # ys" and Q: "\<not> in_bin Q" "P \<noteq> Q"
    and P: "\<not> in_hand P" "\<not> in_bin P" "place_class P = place_class Q" and b: "hw_blocks w x = Some b"
    and w': "hw_blocks w' = (hw_blocks w)(x \<mapsto> b\<lparr>bk_link := hd0 (fl P)\<rparr>)" "hw_bytes w' = hw_bytes w" "moved w w'"
      "hp_central (hw_heap w') = hp_central (hw_heap w)" "hp_central_count (hw_heap w') = hp_central_count (hw_heap w)"
  shows "bins_part cl (fl(Q := ys, P := x # fl P)) heads w'"
proof (rule bins_partI [OF inv w'(3)])
  note L = lists_okD [OF bins_partD(1) [OF inv]]
  have xm: "x \<in> set (fl Q)" by (simp add: x)
  have x0: "x \<noteq> 0" using L(6) [OF xm] .
  have out: "x \<notin> set (fl R)" if "R \<noteq> Q" for R using L(3) [OF xm] that by blast
  have dx: "distinct (x # ys)" using L(2) [of Q] x by simp
  have bn: "bnext (hw_blocks w') = (bnext (hw_blocks w))(x \<mapsto> hd0 (fl P))" by (auto simp: w'(1) bnext_def)
  show "lists_ok cl (hw_blocks w') (fl(Q := ys, P := x # fl P))"
  proof (rule lists_ok_move [OF bins_partD(1) [OF inv]])
    show "distinct ys" using dx by simp
    show "distinct (x # fl P)" using L(2) [of P] out [OF Q(2)] by simp
    show "set ys \<inter> set (x # fl P) = {}"
      using dx L(3) [of _ Q P] x Q(2) by auto
    show "hw_blocks w' z = hw_blocks w z" if "z \<notin> set (fl Q) \<union> set (fl P)" for z
      using that x by (simp add: w'(1))
    show "bstate (hw_blocks w') z = bstate (hw_blocks w) z" for z using w'(3) by (simp add: moved_def)
    have "linked (bnext (hw_blocks w)) (hd0 (fl P)) (fl P)" by (rule L(1) [OF P(1)])
    then have "linked ((bnext (hw_blocks w))(x \<mapsto> hd0 (fl P))) x (x # fl P)"
      by (rule linked_push) (use out [OF Q(2)] x0 in simp_all)
    then show "linked (bnext (hw_blocks w')) (hd0 (x # fl P)) (x # fl P)" by (simp add: bn)
    show "linked (bnext (hw_blocks w')) (hd0 ys) ys" if "\<not> in_hand Q"
    proof -
      have "linked (bnext (hw_blocks w)) (hd0 (fl Q)) ([x] @ ys)" using L(1) [OF that] by (simp add: x)
      then have "linked (bnext (hw_blocks w)) (hd0 ys) ys" using linked_rest [of _ _ "[x]" ys] by simp
      then show ?thesis unfolding bn by (rule linked_upd) (use dx in simp)
    qed
  qed (use x Q(2) P(3) in auto)
  have "x \<notin> set (heads j)" for j by (rule not_head [OF inv xm]) (use Q(1) in simp_all)
  then have "h \<in> set (heads j) \<Longrightarrow> hw_blocks w' h = hw_blocks w h" for h j by (auto simp: w'(1))
  then have "bins_ok (chunk_cap w) (hp_central (hw_heap w)) (hp_central_count (hw_heap w)) (hw_blocks w')
      (hw_bytes w') (fl(Q := ys, P := x # fl P)) heads"
    using P(2) Q(1) by (intro bins_ok_cong [OF bins_partD(3) [OF inv]]) (auto simp: w'(2))
  then show "bins_ok (chunk_cap w) (hp_central (hw_heap w')) (hp_central_count (hw_heap w')) (hw_blocks w')
      (hw_bytes w') (fl(Q := ys, P := x # fl P)) heads"
    by (simp add: w'(4,5))
qed

lemma hand_to:
  assumes inv: "bins_part cl fl heads w" and x: "fl (Hand k) = x # ys"
    and P: "\<not> in_hand P" "\<not> in_bin P" "place_class P = k" and b: "hw_blocks w x = Some b"
    and w': "hw_blocks w' = (hw_blocks w)(x \<mapsto> b\<lparr>bk_link := hd0 (fl P)\<rparr>)" "hw_bytes w' = hw_bytes w" "moved w w'"
      "hp_central (hw_heap w') = hp_central (hw_heap w)" "hp_central_count (hw_heap w') = hp_central_count (hw_heap w)"
  shows "bins_part cl (fl(Hand k := ys, P := x # fl P)) heads w'"
proof -
  have "P \<noteq> Hand k" using P(1) by auto
  then show ?thesis by (intro shift_block [OF inv x _ _ P(1,2) _ b w']) (simp_all add: P(3))
qed

lemma push_local_ok:
  assumes inv: "bins_part cl fl heads w" "caches_part fl {} w"
    and r: "own_cache w c = Some r" and x: "fl (Hand k) = x # ys"
  shows "\<exists>w' fl' heads'. push_local c k x w = Some w'
    \<and> settled cl w (fl(Hand k := ys)) {Local c k, Spare c k} (insert x (set (fl (Spare c k)))) w' fl' heads'
    \<and> caches_part fl' {} w'"
proof -
  note L = lists_okD [OF bins_partD(1) [OF inv(1)]]
  have xm: "x \<in> set (fl (Hand k))" by (simp add: x)
  obtain b where b: "hw_blocks w x = Some b" "bk_state b = 0" "x \<noteq> 0" using free_payload [OF inv(1) xm] by blast
  note co = caches_partD(4) [OF inv(2) r, of k, simplified]
  have seg: "segment (ch_local r k) (ch_local_tail r k) (ch_local_count r k) (fl (Local c k))"
    using co by (simp add: cache_ok_def cache_lists_def)
  let ?r = "r\<lparr>ch_local_tail := (if ch_local r k = 0 then (ch_local_tail r)(k := x) else ch_local_tail r),
         ch_local := (ch_local r)(k := x), ch_local_count := (ch_local_count r)(k := ch_local_count r k + 1)\<rparr>"
  let ?b = "b\<lparr>bk_link := ch_local r k\<rparr>"
  define w1 where "w1 = w\<lparr>hw_blocks := (hw_blocks w)(x \<mapsto> ?b)\<rparr>"
  define w2 where "w2 = w1\<lparr>hw_caches := (hw_caches w1)(c \<mapsto> ?r)\<rparr>"
  let ?fl = "fl(Hand k := ys, Local c k := x # fl (Local c k))"
  have r1: "hw_caches w1 c = Some r" using own_cacheD(1) [OF r] by (simp add: w1_def)
  have m1: "moved w w1" unfolding w1_def by (rule moved_block [OF b(1,2)]) (simp add: b(2))
  have m2: "moved w1 w2" unfolding w2_def by (rule moved_cache [OF r1]) (simp add: cache_skel_def)
  note m = moved_trans [OF m1 m2]
  have bl: "hw_blocks w2 = (hw_blocks w)(x \<mapsto> ?b)" by (simp add: w2_def w1_def)
  have h0: "ch_local r k = hd0 (fl (Local c k))" using seg by (simp add: segment_def)
  have bl': "hw_blocks w2 = (hw_blocks w)(x \<mapsto> b\<lparr>bk_link := hd0 (fl (Local c k))\<rparr>)"
    and bt: "hw_bytes w2 = hw_bytes w"
    and hp: "hp_central (hw_heap w2) = hp_central (hw_heap w)" "hp_central_count (hw_heap w2) = hp_central_count (hw_heap w)"
    by (simp_all add: w2_def w1_def h0)
  have bins: "bins_part cl ?fl heads w2"
    by (rule hand_to [OF inv(1) x _ _ _ b(1) bl' bt m hp]) simp_all
  have cap: "chunk_cap w2 = chunk_cap w" "cache_cap w2 = cache_cap w" using cap_moved [OF m] by simp_all
  have len: "length (fl (Local c k)) < chunk_cap w" using co by (simp add: cache_ok_def)
  have lists: "cache_lists w2 ?fl c ?r k"
  proof -
    have u: "unat (ch_local_count r k + 1) = length (fl (Local c k)) + 1"
    proof -
      have "unat (ch_local_count r k) = length (fl (Local c k))" using seg by (simp add: segment_def)
      moreover have "length (fl (Local c k)) < 4294967295" using len by (simp add: chunk_cap_def)
      ultimately show ?thesis using unat_add_exact [of "ch_local_count r k" 1] by simp
    qed
    have "segment x ((if ch_local r k = 0 then (ch_local_tail r)(k := x) else ch_local_tail r) k)
        (ch_local_count r k + 1) (x # fl (Local c k))"
    proof (cases "fl (Local c k) = []")
      case True
      then show ?thesis using seg u by (simp add: segment_def)
    next
      case False
      then show ?thesis
        using segment_nonempty [OF seg False list_nonzero [OF inv(1)]] u by (simp add: segment_def)
    qed
    then show ?thesis using co len unfolding cache_lists_def cap cache_ok_def by simp
  qed
  have cp: "caches_part ?fl {(c, k)} w2"
  proof (rule caches_part_step [OF inv(2) cap r])
    show "own_cache w2 = (own_cache w)(c \<mapsto> ?r)" by (rule own_cache_upd [OF r]) (simp_all add: w2_def w1_def)
    show "same_class r ?r j" if "j \<noteq> k" for j using that by (simp add: same_class_def)
  qed auto
  have r2: "own_cache w2 c = Some ?r"
    using own_cache_upd [OF r, of w2 ?r] by (simp add: w2_def w1_def)
  obtain w' fl' heads' where t: "memx_heap_trim_cache c k w2 = Some w'"
    "settled cl w2 ?fl {Local c k, Spare c k} (set (?fl (Spare c k))) w' fl' heads'" "caches_part fl' {} w'"
    using trim_ok [OF bins cp r2 lists] by blast
  have "push_local c k x w = Some w'"
    using own_cacheD(1) [OF r] t(1) set_block_eval [OF b(1)] set_cache_eval [OF r1]
    by (simp add: push_local_def w1_def [symmetric] w2_def)
  moreover have "settled cl w (fl(Hand k := ys)) {Local c k, Spare c k} (insert x (set (fl (Spare c k)))) w' fl' heads'"
    unfolding settled_def
  proof (intro conjI allI impI)
    show "moved w w'" by (rule moved_trans [OF m settledD(2) [OF t(2)]])
    show "bins_part cl fl' heads' w'" by (rule settledD(1) [OF t(2)])
    show "fl' P = (fl(Hand k := ys)) P" if "\<not> in_bin P" "P \<notin> {Local c k, Spare c k}" for P
      using settledD(3) [OF t(2) that] that by auto
    show "hw_blocks w' y = hw_blocks w y" if "y \<notin> insert x (set (fl (Spare c k)))" for y
      using settledD(4) [OF t(2), of y] that by (simp add: bl)
  qed
  ultimately show ?thesis using t(3) by blast
qed

lemma drain_loop_ok:
  assumes "bins_part cl fl heads w" "caches_part fl {} w" "own_cache w c \<noteq> None"
    and "linked (bnext (hw_blocks w)) p xs" "fl (Hand k) = xs"
  shows "\<exists>w' fl' heads'. drain_loop c k p w = Some w'
    \<and> settled cl w (fl(Hand k := [])) {Local c k, Spare c k} UNIV w' fl' heads' \<and> caches_part fl' {} w'"
  using assms
proof (induction xs arbitrary: p w fl heads)
  case Nil
  then have "drain_loop c k p w = Some w" by (subst drain_loop.simps) simp
  moreover have "settled cl w (fl(Hand k := [])) {Local c k, Spare c k} UNIV w fl heads"
    using Nil.prems by (simp add: settled_def fun_upd_idem)
  ultimately show ?case using Nil.prems(2) by blast
next
  case (Cons x xs)
  then obtain q where p: "p = x" "x \<noteq> 0" "bnext (hw_blocks w) x = Some q" "linked (bnext (hw_blocks w)) q xs" by auto
  then obtain b where b: "hw_blocks w x = Some b" "bk_link b = q" by (auto simp: bnext_def)
  obtain r where r: "own_cache w c = Some r" using Cons.prems(3) by auto
  obtain w1 fl1 heads1 where s: "push_local c k x w = Some w1"
    "settled cl w (fl(Hand k := xs)) {Local c k, Spare c k} (insert x (set (fl (Spare c k)))) w1 fl1 heads1"
    "caches_part fl1 {} w1"
    using push_local_ok [OF Cons.prems(1,2) r Cons.prems(5)] by blast
  note S = settledD [OF s(2)]
  have l: "linked (bnext (hw_blocks w1)) q xs"
  proof (rule linked_cong [OF p(4)])
    fix y assume y: "y \<in> set xs"
    have "y \<noteq> x" using linked_distinct [OF Cons.prems(4)] y by auto
    moreover have "y \<notin> set (fl (Spare c k))"
      using lists_okD(3) [OF bins_partD(1) [OF Cons.prems(1)], of y "Spare c k" "Hand k"] y Cons.prems(5) by auto
    ultimately show "bnext (hw_blocks w1) y = bnext (hw_blocks w) y" using S(4) [of y] by (simp add: bnext_def)
  qed
  have "own_cache w1 c \<noteq> None" using moved_own(1) [OF S(2), of c] Cons.prems(3) by simp
  moreover have "fl1 (Hand k) = xs" using S(3) [of "Hand k"] by simp
  ultimately obtain w' fl' heads' where d: "drain_loop c k q w1 = Some w'"
    "settled cl w1 (fl1(Hand k := [])) {Local c k, Spare c k} UNIV w' fl' heads'" "caches_part fl' {} w'"
    using Cons.IH [OF S(1) s(3) _ l] by blast
  note D = settledD [OF d(2)]
  have "drain_loop c k p w = Some w'"
    using p(1,2) b s(1) d(1) by (subst drain_loop.simps) simp
  moreover have "settled cl w (fl(Hand k := [])) {Local c k, Spare c k} UNIV w' fl' heads'"
    unfolding settled_def
  proof (intro conjI allI impI)
    show "moved w w'" by (rule moved_trans [OF S(2) D(2)])
    show "fl' P = (fl(Hand k := [])) P" if "\<not> in_bin P" "P \<notin> {Local c k, Spare c k}" for P
      using D(3) [OF that] S(3) [OF that] by auto
  qed (use D(1) in auto)
  ultimately show ?case using d(3) by blast
qed

lemma drain_remote_ok:
  assumes inv: "bins_part cl fl heads w" "caches_part fl {} w" and r: "own_cache w c = Some r"
    and h: "fl (Hand k) = []"
  shows "\<exists>w' fl' heads'. memx_heap_drain_remote c k w = Some w'
    \<and> settled cl w (fl(Remote c k := [])) {Local c k, Spare c k} UNIV w' fl' heads' \<and> caches_part fl' {} w'"
proof -
  let ?r = "r\<lparr>ch_remote := (ch_remote r)(k := 0), ch_remote_count := (ch_remote_count r)(k := 0)\<rparr>"
  let ?w = "w\<lparr>hw_caches := (hw_caches w)(c \<mapsto> ?r)\<rparr>" and ?fl = "fl(Remote c k := [], Hand k := fl (Remote c k))"
  have m: "moved w ?w" by (rule moved_cache [OF own_cacheD(1) [OF r]]) (simp add: cache_skel_def)
  have b: "bins_part cl ?fl heads ?w"
    by (rule bins_part_swap [OF inv(1)]) (use m h in simp_all)
  note co = caches_partD(4) [OF inv(2) r, of k, simplified]
  have cp: "caches_part ?fl {} ?w"
  proof (rule caches_part_step [OF inv(2) _ _ r])
    show "cache_ok ?w ?fl c ?r k"
      using co by (simp add: cache_ok_def cache_lists_def chunk_cap_def cache_cap_def)
    show "own_cache ?w = (own_cache w)(c \<mapsto> ?r)" by (rule own_cache_set [OF r]) simp
    show "same_class r ?r j" if "j \<noteq> k" for j using that by (simp add: same_class_def)
  qed (auto simp: chunk_cap_def cache_cap_def)
  have "linked (bnext (hw_blocks w)) (hd0 (fl (Remote c k))) (fl (Remote c k))"
    by (rule lists_okD(1) [OF bins_partD(1) [OF inv(1)]]) simp
  moreover have "ch_remote r k = hd0 (fl (Remote c k))" using co by (simp add: cache_ok_def cache_lists_def)
  ultimately have l: "linked (bnext (hw_blocks ?w)) (ch_remote r k) (fl (Remote c k))" by simp
  obtain w' fl' heads' where d: "drain_loop c k (ch_remote r k) ?w = Some w'"
    "settled cl ?w (?fl(Hand k := [])) {Local c k, Spare c k} UNIV w' fl' heads'" "caches_part fl' {} w'"
    using drain_loop_ok [OF b cp _ l, of c k] own_cache_set [OF r, of ?r] by auto
  have "memx_heap_drain_remote c k w = Some w'"
    using own_cacheD(1) [OF r] d(1) set_cache_eval [OF own_cacheD(1) [OF r]] by (simp add: memx_heap_drain_remote_def)
  moreover have "settled cl w (fl(Remote c k := [])) {Local c k, Spare c k} UNIV w' fl' heads'"
    using d(2) moved_trans [OF m] h by (auto simp: settled_def)
  ultimately show ?thesis using d(3) by blast
qed

lemma widened: "unat (ucast (v :: u32) :: u64) = unat v"
proof -
  have "unat v < 2 ^ LENGTH(32)" by (rule unsigned_less)
  then have "unat v < 2 ^ 64" by simp
  then show ?thesis unfolding unsigned_ucast_eq by (simp add: take_bit_nat_eq_self)
qed

section \<open>Filling a cache\<close>

text \<open>\<open>stocked\<close>: the local segment has blocks and may be as long as a chunk; one is about to go.\<close>

definition stocked :: "lists \<Rightarrow> u64 \<Rightarrow> nat \<Rightarrow> 'c heap_world \<Rightarrow> bool" where
  "stocked fl c k w \<longleftrightarrow> caches_part fl {(c, k)} w \<and> fl (Local c k) \<noteq> []
     \<and> length (fl (Local c k)) + length (fl (Spare c k)) \<le> cache_cap w
     \<and> (\<exists>r. own_cache w c = Some r \<and> cache_lists w fl c r k)"

lemma caches_part_stocked:
  assumes "caches_part fl {} w" "own_cache w c = Some r" "fl (Local c k) \<noteq> []"
  shows "stocked fl c k w"
proof -
  have "cache_ok w fl c r k" using caches_partD(4) [OF assms(1,2)] by simp
  moreover have "caches_part fl {(c, k)} w" by (rule caches_part_same [OF assms(1)]) auto
  ultimately show ?thesis using assms(2,3) by (auto simp: stocked_def cache_ok_def)
qed

lemma adopt_ok:
  assumes inv: "bins_part cl fl heads w" "caches_part fl {} w" and r: "own_cache w c = Some r"
    and e: "fl (Local c k) = []"
  shows "\<exists>w' fl' heads'. memx_heap_adopt_spare c k w = Some (fl (Spare c k) \<noteq> [], w')
    \<and> settled cl w fl {Local c k, Spare c k} {} w' fl' heads'
    \<and> (if fl (Spare c k) = [] then w' = w \<and> fl' = fl else stocked fl' c k w')"
proof -
  note co = caches_partD(4) [OF inv(2) r, of k, simplified]
  have seg: "segment (ch_spare r k) (ch_spare_tail r k) (ch_spare_count r k) (fl (Spare c k))"
    "length (fl (Spare c k)) \<le> chunk_cap w"
    using co by (simp_all add: cache_ok_def cache_lists_def)
  show ?thesis
  proof (cases "fl (Spare c k) = []")
    case True
    then have "memx_heap_adopt_spare c k w = Some (False, w)"
      using own_cacheD(1) [OF r] seg(1) by (simp add: memx_heap_adopt_spare_def)
    then show ?thesis using True inv(1) by (intro exI [of _ w] exI [of _ fl] exI [of _ heads]) (simp add: settled_def)
  next
    case False
    let ?r = "r\<lparr>ch_local := (ch_local r)(k := ch_spare r k),
           ch_local_tail := (ch_local_tail r)(k := ch_spare_tail r k),
           ch_local_count := (ch_local_count r)(k := ch_spare_count r k),
           ch_spare := (ch_spare r)(k := 0), ch_spare_tail := (ch_spare_tail r)(k := 0),
           ch_spare_count := (ch_spare_count r)(k := 0)\<rparr>"
    let ?w = "w\<lparr>hw_caches := (hw_caches w)(c \<mapsto> ?r)\<rparr>" and ?fl = "fl(Spare c k := [], Local c k := fl (Spare c k))"
    have m: "moved w ?w" by (rule moved_cache [OF own_cacheD(1) [OF r]]) (simp add: cache_skel_def)
    have b: "bins_part cl ?fl heads ?w" by (rule bins_part_swap [OF inv(1)]) (use m e in simp_all)
    have s: "settled cl w fl {Local c k, Spare c k} {} ?w ?fl heads" using b m by (simp add: settled_def)
    have cl: "cache_lists ?w ?fl c ?r k"
      using co by (simp add: cache_ok_def cache_lists_def chunk_cap_def cache_cap_def)
    have "caches_part ?fl {(c, k)} ?w"
    proof (rule caches_part_step [OF inv(2) _ _ r])
      show "own_cache ?w = (own_cache w)(c \<mapsto> ?r)" by (rule own_cache_set [OF r]) simp
      show "same_class r ?r j" if "j \<noteq> k" for j using that by (simp add: same_class_def)
    qed (auto simp: chunk_cap_def cache_cap_def)
    moreover have "own_cache ?w c = Some ?r" using own_cache_set [OF r, of ?r] by simp
    ultimately have "stocked ?fl c k ?w"
      using False cl seg(2) unfolding stocked_def by (auto simp: cache_cap_def chunk_cap_def)
    moreover have "memx_heap_adopt_spare c k w = Some (True, ?w)"
      using own_cacheD(1) [OF r] segment_nonempty(3) [OF seg(1) False list_nonzero [OF inv(1)]]
        set_cache_eval [OF own_cacheD(1) [OF r]]
      by (simp add: memx_heap_adopt_spare_def)
    ultimately show ?thesis using False s by (intro exI [of _ ?w] exI [of _ ?fl] exI [of _ heads]) simp
  qed
qed

lemma take_chunk_ok:
  assumes inv: "bins_part cl fl heads w" "caches_part fl {} w" and r: "own_cache w c = Some r"
    and e: "fl (Local c k) = []" "fl (Spare c k) = []" and n: "hp_central (hw_heap w) k \<noteq> 0"
  shows "\<exists>w' fl' heads'. take_chunk c k w = Some (hd (fl' (Local c k)), w')
    \<and> settled cl w fl {Local c k} UNIV w' fl' heads' \<and> stocked fl' c k w'"
proof -
  note L = lists_okD [OF bins_partD(1) [OF inv(1)]] and bins = bins_partD(3) [OF inv(1)]
  obtain q hs where h: "heads k = hp_central (hw_heap w) k # hs" "cnext (hw_bytes w) (hp_central (hw_heap w) k) = Some q"
    "linked (cnext (hw_bytes w)) q hs"
    using linked_cases [OF bins_okD(1) [OF bins, of k] n] by blast
  define h0 where "h0 = hp_central (hw_heap w) k"
  define C where "C = fl (Chunk k h0)"
  have hk: "heads k = h0 # hs" "cnext (hw_bytes w) h0 = Some q" using h by (simp_all add: h0_def)
  have co: "chunk_ok (chunk_cap w) (hw_blocks w) (hw_bytes w) h0 C"
    using bins_okD(3) [OF bins, of h0 k] hk(1) by (simp add: C_def)
  have C: "C \<noteq> []" "hd C = h0" "length C \<le> chunk_cap w" using co by (simp_all add: chunk_ok_def)
  have cw: "chunk_words (hw_bytes w) h0 = Some (q, last C)" using co hk(2) by (auto simp: chunk_ok_def cnext_def)
  obtain b where b: "hw_blocks w h0 = Some b" "unat (bk_requested_size b) = length C"
    using co by (auto simp: chunk_ok_def)
  have tm: "last C \<in> set (fl (Chunk k h0))" using C(1) by (simp add: C_def)
  obtain bt where t: "hw_blocks w (last C) = Some bt" "bk_state bt = 0" using free_payload [OF inv(1) tm] by blast
  note ok = caches_partD(4) [OF inv(2) r, of k, simplified]
  have loc: "ch_local r k = 0" "ch_local_tail r k = 0" "ch_local_count r k = 0" "ch_spare r k = 0"
    using ok e by (simp_all add: cache_ok_def cache_lists_def)
  have moved_count: "unat (ucast (bk_requested_size b) :: u64) = length C"
    unfolding b(2) [symmetric] by (rule widened)
  have lC: "linked (bnext (hw_blocks w)) (hd0 C) C" unfolding C_def by (rule L(1)) simp
  have t0: "bk_link bt = 0"
  proof -
    have "linked (bnext (hw_blocks w)) (hd0 C) (butlast C @ [last C])" using lC C(1) by simp
    then have "linked (bnext (hw_blocks w)) (last C) [last C]" by (rule linked_suffix)
    then show ?thesis using t(1) by (auto simp: bnext_def)
  qed
  define f1 where "f1 = (\<lambda>h :: 'a memx_heap. h\<lparr>hp_central := (hp_central h)(k := q)\<rparr>)"
  define f2 where "f2 = (\<lambda>h :: 'a memx_heap. h\<lparr>hp_central_count :=
      (hp_central_count h)(k := hp_central_count h k - ucast (bk_requested_size b))\<rparr>)"
  define w1 where "w1 = upd_heap f1 w"
  let ?b = "bt\<lparr>bk_link := 0\<rparr>"
  have same: "(hw_blocks w)(last C \<mapsto> ?b) = hw_blocks w" using t(1) t0 by (auto simp: fun_eq_iff)
  define w2 where "w2 = upd_heap f2 w1"
  let ?r = "r\<lparr>ch_local_tail := (ch_local_tail r)(k := last C), ch_local := (ch_local r)(k := h0),
         ch_local_count := (ch_local_count r)(k := ch_local_count r k + ucast (bk_requested_size b))\<rparr>"
  define w3 where "w3 = w2\<lparr>hw_caches := (hw_caches w2)(c \<mapsto> ?r)\<rparr>"
  let ?fl = "fl(Chunk k h0 := [], Local c k := C)"
  have r2: "hw_caches w2 c = Some r" using own_cacheD(1) [OF r] by (simp add: w2_def w1_def upd_heap_def)
  have m: "moved w w3"
  proof -
    have "moved w w1" unfolding w1_def by (rule moved_heap) (simp add: f1_def heap_skel_def)
    moreover have "moved w1 w2" unfolding w2_def by (rule moved_heap) (simp add: f2_def heap_skel_def)
    moreover have "moved w2 w3" unfolding w3_def by (rule moved_cache [OF r2]) (simp add: cache_skel_def)
    ultimately show ?thesis by (blast intro: moved_trans)
  qed
  have bl: "hw_blocks w3 = hw_blocks w" "hw_bytes w3 = hw_bytes w"
    by (simp_all add: w3_def w2_def w1_def upd_heap_def)
  have run: "take_chunk c k w = Some (h0, w3)"
  proof -
    have "set_block (last C) (\<lambda>b. b\<lparr>bk_link := ch_local r k\<rparr>) w1 = Some w1"
      using set_block_eval [of w1 "last C" bt "\<lambda>b. b\<lparr>bk_link := ch_local r k\<rparr>"] t(1) same loc(1)
      by (simp add: w1_def upd_heap_def)
    moreover have "set_cache c (\<lambda>c. c\<lparr>
         ch_local_tail := (if ch_local c k = 0 then (ch_local_tail c)(k := last C) else ch_local_tail c),
         ch_local := (ch_local c)(k := h0),
         ch_local_count := (ch_local_count c)(k := ch_local_count c k + ucast (bk_requested_size b))\<rparr>) w2 = Some w3"
      using set_cache_eval [OF r2] loc(1) by (simp add: w3_def)
    ultimately show ?thesis
      unfolding take_chunk_def Let_def h0_def [symmetric] read_chunk_words cw
      using b(1) own_cacheD(1) [OF r] by (simp add: w1_def [unfolded f1_def, symmetric] w2_def [unfolded f2_def, symmetric])
  qed
  have bins3: "bins_part cl ?fl (heads(k := hs)) w3"
  proof (rule bins_partI [OF inv(1) m])
    show "lists_ok cl (hw_blocks w3) ?fl"
      unfolding bl by (rule lists_ok_move [OF bins_partD(1) [OF inv(1)]])
        (use L(2) [of "Chunk k h0"] lC e(1) in \<open>auto simp: C_def\<close>)
    have nh: "h0 \<notin> set (heads j)" if "j \<noteq> k" for j
    proof -
      have "h0 \<in> set C" using C(1,2) by (metis hd_in_set)
      then show ?thesis
        using not_head [OF inv(1), of h0 "Chunk k h0" k h0 j] that by (simp add: C_def)
    qed
    have "bins_ok (chunk_cap w) ((hp_central (hw_heap w))(k := q))
        ((hp_central_count (hw_heap w))(k := hp_central_count (hw_heap w) k - of_nat (length (fl (Chunk k h0)))))
        (hw_blocks w) (hw_bytes w) ?fl (heads(k := hs))"
      by (rule bins_ok_pop [OF bins hk(1) _ nh hk(2)]) auto
    moreover have "hp_central (hw_heap w3) = (hp_central (hw_heap w))(k := q)"
      "hp_central_count (hw_heap w3) = (hp_central_count (hw_heap w))(k := hp_central_count (hw_heap w) k - of_nat (length C))"
    proof -
      have "(ucast (bk_requested_size b) :: u64) = of_nat (length C)" unfolding moved_count [symmetric] by simp
      then show "hp_central (hw_heap w3) = (hp_central (hw_heap w))(k := q)"
        "hp_central_count (hw_heap w3) = (hp_central_count (hw_heap w))(k := hp_central_count (hw_heap w) k - of_nat (length C))"
        by (simp_all add: w3_def w2_def w1_def upd_heap_def f1_def f2_def)
    qed
    ultimately show "bins_ok (chunk_cap w) (hp_central (hw_heap w3)) (hp_central_count (hw_heap w3)) (hw_blocks w3)
        (hw_bytes w3) ?fl (heads(k := hs))"
      unfolding bl by (simp add: C_def)
  qed
  have cap: "chunk_cap w3 = chunk_cap w" "cache_cap w3 = cache_cap w" using cap_moved [OF m] by simp_all
  have cp: "caches_part ?fl {(c, k)} w3"
  proof (rule caches_part_step [OF inv(2) cap r])
    show "own_cache w3 = (own_cache w)(c \<mapsto> ?r)"
      by (rule own_cache_upd [OF r]) (simp_all add: w3_def w2_def w1_def upd_heap_def f1_def f2_def)
    show "same_class r ?r j" if "j \<noteq> k" for j using that by (simp add: same_class_def)
  qed auto
  have "cache_lists w3 ?fl c ?r k"
  proof -
    have "segment h0 (last C) (ch_local_count r k + ucast (bk_requested_size b)) C"
      using C(1,2) loc(3) moved_count by (simp add: segment_def)
    then show ?thesis using ok e(2) C(3) unfolding cache_lists_def cap cache_ok_def by simp
  qed
  moreover have "own_cache w3 c = Some ?r"
    using own_cache_upd [OF r, of w3 ?r] by (simp add: w3_def w2_def w1_def upd_heap_def f1_def f2_def)
  ultimately have "stocked ?fl c k w3"
    unfolding stocked_def cap using cp C(1,3) e(2) by (auto simp: chunk_cap_def)
  moreover have "settled cl w fl {Local c k} UNIV w3 ?fl (heads(k := hs))"
    unfolding settled_def using bins3 m by auto
  moreover have "hd (?fl (Local c k)) = h0" using C(2) by simp
  ultimately show ?thesis
    using run by (intro exI [of _ w3] exI [of _ ?fl] exI [of _ "heads(k := hs)"]) simp
qed

section \<open>Allocating and freeing a block\<close>

lemma bins_part_cong:
  assumes "bins_part cl fl heads w" "hw_blocks w' = hw_blocks w" "hw_bytes w' = hw_bytes w"
    and "hp_central (hw_heap w') = hp_central (hw_heap w)" "hp_central_count (hw_heap w') = hp_central_count (hw_heap w)"
    and "hp_config (hw_heap w') = hp_config (hw_heap w)"
  shows "bins_part cl fl heads w'"
  using assms by (simp add: bins_part_def chunk_cap_def cache_cap_def)

lemma caches_part_cong:
  assumes inv: "caches_part fl X w" and c: "own_cache w c = Some r" "own_cache w' = (own_cache w)(c \<mapsto> r')"
    and cfg: "hp_config (hw_heap w') = hp_config (hw_heap w)" and same: "\<And>j. same_class r r' j"
  shows "caches_part fl X w'"
proof -
  have cap: "chunk_cap w' = chunk_cap w" "cache_cap w' = cache_cap w" by (simp_all add: chunk_cap_def cache_cap_def cfg)
  show ?thesis
  proof (rule caches_part_step [OF inv cap c])
    show "cache_ok w' fl c r' 0" if "(c, 0) \<notin> X"
      by (rule cache_ok_cong [OF caches_partD(4) [OF inv c(1) that] cap same]) simp_all
  qed (use same in auto)
qed

lemma caches_part_heap:
  assumes "caches_part fl X w" "own_cache w' = own_cache w" "hp_config (hw_heap w') = hp_config (hw_heap w)"
  shows "caches_part fl X w'"
  by (rule caches_part_same [OF assms(1) _ _ assms(2)]) (simp_all add: chunk_cap_def cache_cap_def assms(3))

lemma payloads_ok_dom:
  assumes "payloads_ok cl B by" "\<And>x. B' x = None \<longleftrightarrow> B x = None"
  shows "payloads_ok cl B' by"
  using assms by (simp add: payloads_ok_def)

lemma bins_part_take:
  assumes inv: "bins_part cl fl heads w" and P: "fl P = x # xs" "\<not> in_hand P" "\<not> in_bin P" and b: "bk_state b = 1"
    and w': "hw_blocks w' = (hw_blocks w)(x \<mapsto> b)" "hw_bytes w' = hw_bytes w"
      "hp_central (hw_heap w') = hp_central (hw_heap w)" "hp_central_count (hw_heap w') = hp_central_count (hw_heap w)"
      "hp_config (hw_heap w') = hp_config (hw_heap w)"
  shows "bins_part cl (fl(P := xs)) heads w'"
proof -
  have xm: "x \<in> set (fl P)" by (simp add: P(1))
  obtain b0 where b0: "hw_blocks w x = Some b0" using free_payload [OF inv xm] by blast
  have nh: "x \<notin> set (heads j)" for j by (rule not_head [OF inv xm]) (use P(3) in simp_all)
  have ne: "P \<noteq> Chunk k h" for k h using P(3) by auto
  have "h \<in> set (heads j) \<Longrightarrow> h \<noteq> x" for h j using nh by blast
  then have "bins_ok (chunk_cap w) (hp_central (hw_heap w)) (hp_central_count (hw_heap w))
      ((hw_blocks w)(x \<mapsto> b)) (hw_bytes w) (fl(P := xs)) heads"
    using ne by (intro bins_ok_cong [OF bins_partD(3) [OF inv]]) auto
  moreover have "lists_ok cl ((hw_blocks w)(x \<mapsto> b)) (fl(P := xs))"
    by (rule lists_ok_take [OF bins_partD(1) [OF inv] P(1,2)]) (simp add: b)
  moreover have "payloads_ok cl ((hw_blocks w)(x \<mapsto> b)) (hw_bytes w)"
    by (rule payloads_ok_dom [OF bins_partD(2) [OF inv]]) (simp add: b0)
  moreover have "bstate ((hw_blocks w)(x \<mapsto> b)) y = Some s \<Longrightarrow> s = 0 \<or> s = 1" for y s
    using bins_partD(4) [OF inv, of y s] b by (auto simp: bstate_def split: if_splits)
  ultimately show ?thesis
    using bins_partD(5) [OF inv] unfolding bins_part_def w' chunk_cap_def cache_cap_def by simp
qed

lemma bins_part_add:
  assumes inv: "bins_part cl fl heads w" and b0: "hw_blocks w x = Some b0" "bk_state b0 \<noteq> 0"
    and k: "k = cl x" "bk_state b = 0"
    and w': "hw_blocks w' = (hw_blocks w)(x \<mapsto> b)" "hw_bytes w' = hw_bytes w"
      "hp_central (hw_heap w') = hp_central (hw_heap w)" "hp_central_count (hw_heap w') = hp_central_count (hw_heap w)"
      "hp_config (hw_heap w') = hp_config (hw_heap w)"
  shows "bins_part cl (fl(Hand k := x # fl (Hand k))) heads w'"
proof -
  have bs: "bstate (hw_blocks w) x \<noteq> Some 0" using b0 by (simp add: bstate_def)
  have x0: "x \<noteq> 0" using bins_partD(2) [OF inv] b0(1) by (auto simp: payloads_ok_def)
  have "h \<noteq> x" if "h \<in> set (heads j)" for h j
    using lists_okD(4) [OF bins_partD(1) [OF inv] bins_member [OF bins_partD(3) [OF inv] that]] bs by auto
  then have "bins_ok (chunk_cap w) (hp_central (hw_heap w)) (hp_central_count (hw_heap w))
      ((hw_blocks w)(x \<mapsto> b)) (hw_bytes w) (fl(Hand k := x # fl (Hand k))) heads"
    by (intro bins_ok_cong [OF bins_partD(3) [OF inv]]) auto
  moreover have "lists_ok cl ((hw_blocks w)(x \<mapsto> b)) (fl(Hand k := x # fl (Hand k)))"
    by (rule lists_ok_add [OF bins_partD(1) [OF inv] bs x0]) (use k in simp_all)
  moreover have "payloads_ok cl ((hw_blocks w)(x \<mapsto> b)) (hw_bytes w)"
    by (rule payloads_ok_dom [OF bins_partD(2) [OF inv]]) (simp add: b0(1))
  moreover have "bstate ((hw_blocks w)(x \<mapsto> b)) y = Some s \<Longrightarrow> s = 0 \<or> s = 1" for y s
    using bins_partD(4) [OF inv, of y s] k(2) by (auto simp: bstate_def split: if_splits)
  ultimately show ?thesis
    using bins_partD(5) [OF inv] unfolding bins_part_def w' chunk_cap_def cache_cap_def by simp
qed

text \<open>The head of a stocked segment leaves it.\<close>

definition pop_local :: "nat \<Rightarrow> u64 \<Rightarrow> memx_heap_cache \<Rightarrow> memx_heap_cache" where
  "pop_local k link c = c\<lparr>ch_local := (ch_local c)(k := link),
     ch_local_tail := (if link = 0 then (ch_local_tail c)(k := 0) else ch_local_tail c),
     ch_local_count := (ch_local_count c)(k := ch_local_count c k - 1)\<rparr>"

lemma pop_ok:
  assumes inv: "bins_part cl fl heads w" "stocked fl c k w" and r: "own_cache w c = Some r"
  shows "\<exists>x xs b. fl (Local c k) = x # xs \<and> ch_local r k = x \<and> x \<noteq> 0 \<and> hw_blocks w x = Some b \<and> bk_state b = 0
    \<and> cl x = k \<and> (\<forall>b' w'. bk_state b' = 1 \<longrightarrow>
         w' = w\<lparr>hw_caches := (hw_caches w)(c \<mapsto> pop_local k (bk_link b) r), hw_blocks := (hw_blocks w)(x \<mapsto> b')\<rparr> \<longrightarrow>
         bins_part cl (fl(Local c k := xs)) heads w' \<and> caches_part (fl(Local c k := xs)) {} w')"
proof -
  let ?P = "Local c k"
  have st: "caches_part fl {(c, k)} w" "fl ?P \<noteq> []" "length (fl ?P) + length (fl (Spare c k)) \<le> cache_cap w"
    "cache_lists w fl c r k"
    using inv(2) r by (auto simp: stocked_def)
  obtain x xs where x: "fl ?P = x # xs" using st(2) by (cases "fl ?P") auto
  have xm: "x \<in> set (fl ?P)" by (simp add: x)
  obtain b where b: "hw_blocks w x = Some b" "bk_state b = 0" "x \<noteq> 0" "cl x = k"
    using free_payload [OF inv(1) xm] by auto
  have seg: "segment (ch_local r k) (ch_local_tail r k) (ch_local_count r k) (x # xs)"
    using st(4) x by (simp add: cache_lists_def)
  have l: "linked (bnext (hw_blocks w)) x (x # xs)"
    using lists_okD(1) [OF bins_partD(1) [OF inv(1)], of ?P] x by simp
  have link: "bk_link b = hd0 xs"
  proof -
    have "linked (bnext (hw_blocks w)) (bk_link b) xs" using l b(1) by (simp add: bnext_def)
    then show ?thesis by (cases xs) auto
  qed
  have nz: "0 \<notin> set xs" using list_nonzero [OF inv(1), of ?P] x by simp
  have result: "bins_part cl (fl(?P := xs)) heads w' \<and> caches_part (fl(?P := xs)) {} w'"
    if b': "bk_state b' = 1" and w': "w' = w\<lparr>hw_caches := (hw_caches w)(c \<mapsto> pop_local k (bk_link b) r),
        hw_blocks := (hw_blocks w)(x \<mapsto> b')\<rparr>" for b' w'
  proof
    show "bins_part cl (fl(?P := xs)) heads w'"
      by (rule bins_part_take [OF inv(1) x _ _ b']) (simp_all add: w')
    show "caches_part (fl(?P := xs)) {} w'"
    proof (rule caches_part_step [OF st(1) _ _ r])
      show "own_cache w' = (own_cache w)(c \<mapsto> pop_local k (bk_link b) r)"
        by (rule own_cache_upd [OF r]) (simp_all add: w' pop_local_def)
      show "same_class r (pop_local k (bk_link b) r) j" if "j \<noteq> k" for j
        using that by (simp add: same_class_def pop_local_def)
      have "unat (ch_local_count r k - 1) = length xs"
        using seg by (subst unat_minus_one) (auto simp: segment_def)
      moreover have "bk_link b = 0 \<longleftrightarrow> xs = []" using nz link by (cases xs) auto
      ultimately have "segment (bk_link b) (if bk_link b = 0 then 0 else ch_local_tail r k) (ch_local_count r k - 1) xs"
        using seg link by (auto simp: segment_def)
      then show "cache_ok w' (fl(?P := xs)) c (pop_local k (bk_link b) r) k"
        using st(3,4) x unfolding cache_ok_def cache_lists_def
        by (auto simp: w' pop_local_def chunk_cap_def cache_cap_def)
    qed (auto simp: w' chunk_cap_def cache_cap_def)
  qed
  have "ch_local r k = x" using seg by (simp add: segment_def)
  then show ?thesis using x b result by blast
qed


text \<open>A block goes to the remote queue of a cache.\<close>

lemma push_remote_ok:
  assumes inv: "bins_part cl fl heads w" "caches_part fl {} w"
    and r: "own_cache w c = Some r" and x: "fl (Hand k) = x # ys"
  shows "\<exists>w' w1. set_block x (\<lambda>b. b\<lparr>bk_link := ch_remote r k\<rparr>) w = Some w1
    \<and> set_cache c (\<lambda>c. c\<lparr>ch_remote := (ch_remote c)(k := x),
         ch_remote_count := (ch_remote_count c)(k := ch_remote_count c k + 1)\<rparr>) w1 = Some w'
    \<and> bins_part cl (fl(Hand k := ys, Remote c k := x # fl (Remote c k))) heads w' \<and> moved w w'
    \<and> caches_part (fl(Hand k := ys, Remote c k := x # fl (Remote c k))) {} w'"
proof -
  have xm: "x \<in> set (fl (Hand k))" by (simp add: x)
  obtain b where b: "hw_blocks w x = Some b" "bk_state b = 0" "x \<noteq> 0" using free_payload [OF inv(1) xm] by blast
  note co = caches_partD(4) [OF inv(2) r, of k, simplified]
  have rem: "ch_remote r k = hd0 (fl (Remote c k))" "ch_remote_count r k = of_nat (length (fl (Remote c k)))"
    using co by (simp_all add: cache_ok_def cache_lists_def)
  let ?r = "r\<lparr>ch_remote := (ch_remote r)(k := x), ch_remote_count := (ch_remote_count r)(k := ch_remote_count r k + 1)\<rparr>"
  let ?b = "b\<lparr>bk_link := ch_remote r k\<rparr>"
  define w1 where "w1 = w\<lparr>hw_blocks := (hw_blocks w)(x \<mapsto> ?b)\<rparr>"
  define w2 where "w2 = w1\<lparr>hw_caches := (hw_caches w1)(c \<mapsto> ?r)\<rparr>"
  let ?fl = "fl(Hand k := ys, Remote c k := x # fl (Remote c k))"
  have r1: "hw_caches w1 c = Some r" using own_cacheD(1) [OF r] by (simp add: w1_def)
  have m1: "moved w w1" unfolding w1_def by (rule moved_block [OF b(1,2)]) (simp add: b(2))
  have m2: "moved w1 w2" unfolding w2_def by (rule moved_cache [OF r1]) (simp add: cache_skel_def)
  note m = moved_trans [OF m1 m2]
  have bl: "hw_blocks w2 = (hw_blocks w)(x \<mapsto> b\<lparr>bk_link := hd0 (fl (Remote c k))\<rparr>)"
    and bt: "hw_bytes w2 = hw_bytes w"
    and hp: "hp_central (hw_heap w2) = hp_central (hw_heap w)" "hp_central_count (hw_heap w2) = hp_central_count (hw_heap w)"
    by (simp_all add: w2_def w1_def rem)
  have bins: "bins_part cl ?fl heads w2"
    by (rule hand_to [OF inv(1) x _ _ _ b(1) bl bt m hp]) simp_all
  have cap: "chunk_cap w2 = chunk_cap w" "cache_cap w2 = cache_cap w" using cap_moved [OF m] by simp_all
  have cp: "caches_part ?fl {} w2"
  proof (rule caches_part_step [OF inv(2) cap r])
    show "own_cache w2 = (own_cache w)(c \<mapsto> ?r)" by (rule own_cache_upd [OF r]) (simp_all add: w2_def w1_def)
    show "same_class r ?r j" if "j \<noteq> k" for j using that by (simp add: same_class_def)
    show "cache_ok w2 ?fl c ?r k" using co rem unfolding cache_ok_def cache_lists_def cap by simp
  qed auto
  have "set_block x (\<lambda>b. b\<lparr>bk_link := ch_remote r k\<rparr>) w = Some w1"
    by (simp add: set_block_eval [OF b(1)] w1_def)
  moreover have "set_cache c (\<lambda>c. c\<lparr>ch_remote := (ch_remote c)(k := x),
      ch_remote_count := (ch_remote_count c)(k := ch_remote_count c k + 1)\<rparr>) w1 = Some w2"
    by (simp add: set_cache_eval [OF r1] w2_def)
  ultimately show ?thesis using bins m cp by blast
qed

end
