(* ===== verification/Memx_Spans.thy ===== *)
theory Memx_Spans
  imports Memx_Segments Memx_HeapMem
begin

text \<open>
  Spans: the carving of a new span into chunks of a central bin, the layout of blocks in the
  arena, and the claim of a span, which enters it in the address index.  A pointer into the
  arena is resolved through the index to exactly the block it belongs to.
\<close>

section \<open>Carving\<close>

text \<open>The pool grows by the free blocks \<open>N\<close>; everything else is as for \<^const>\<open>moved\<close>.\<close>

definition grew :: "u64 set \<Rightarrow> 'c heap_world \<Rightarrow> 'c heap_world \<Rightarrow> bool" where
  "grew N w w' \<longleftrightarrow> hw_mem w' = hw_mem w \<and> hw_spans w' = hw_spans w \<and> hw_larges w' = hw_larges w
     \<and> hw_tls w' = hw_tls w \<and> hw_tls_last w' = hw_tls_last w \<and> hw_huge_cache w' = hw_huge_cache w
     \<and> heap_skel (hw_heap w') = heap_skel (hw_heap w)
     \<and> (\<forall>c. map_option cache_skel (hw_caches w' c) = map_option cache_skel (hw_caches w c))
     \<and> (\<forall>x. bstate (hw_blocks w') x = (if x \<in> N then Some 0 else bstate (hw_blocks w) x))
     \<and> (\<forall>x. x \<notin> N \<longrightarrow> bstate (hw_blocks w) x \<noteq> Some 0 \<longrightarrow> hw_blocks w' x = hw_blocks w x
          \<and> hw_bytes w' (x + sizeof_block) = hw_bytes w (x + sizeof_block))
     \<and> (\<forall>x. x \<notin> N \<longrightarrow> map_option pl_size (hw_bytes w' (x + sizeof_block))
          = map_option pl_size (hw_bytes w (x + sizeof_block)))"

lemma grew_refl [simp]: "grew {} w w"
  by (simp add: grew_def)

lemma moved_grew: "moved w w' \<Longrightarrow> grew {} w w'"
  by (simp add: moved_def grew_def)

lemma grew_trans: "grew N w w' \<Longrightarrow> grew M w' w'' \<Longrightarrow> grew (N \<union> M) w w''"
  unfolding grew_def by (elim conjE, intro conjI allI impI; simp)

lemma grew_moved: "grew N w w' \<Longrightarrow> moved w' w'' \<Longrightarrow> grew N w w''"
  using grew_trans [of N w w' "{}" w''] moved_grew by auto

lemma moved_grew_trans: "moved w w' \<Longrightarrow> grew N w' w'' \<Longrightarrow> grew N w w''"
  using grew_trans [of "{}" w w' N w''] moved_grew by auto

lemma grew_config: "grew N w w' \<Longrightarrow> hp_config (hw_heap w') = hp_config (hw_heap w)"
  unfolding grew_def by (blast dest: heap_skelD(2))

lemma sizeof_inj: "x + sizeof_block = y + sizeof_block \<longleftrightarrow> x = y"
  by simp

text \<open>A new block goes to the hand.\<close>

lemma new_block_ok:
  assumes inv: "bins_part cl fl heads w" and x: "hw_blocks w x = None" "x \<noteq> 0" "cl x = k" "k < 19"
    and b: "bk_state b = 0" and pl: "pl_size pl = class_size k"
    and w': "w' = w\<lparr>hw_blocks := (hw_blocks w)(x \<mapsto> b), hw_bytes := (hw_bytes w)(x + sizeof_block \<mapsto> pl)\<rparr>"
  shows "bins_part cl (fl(Hand k := x # fl (Hand k))) heads w'" "grew {x} w w'"
proof -
  have bs: "bstate (hw_blocks w) x = None" using x(1) by (simp add: bstate_def)
  have "h \<noteq> x" if "h \<in> set (heads j)" for h j
    using lists_okD(4) [OF bins_partD(1) [OF inv] bins_member [OF bins_partD(3) [OF inv] that]] bs by auto
  then have "bins_ok (chunk_cap w) (hp_central (hw_heap w)) (hp_central_count (hw_heap w))
      (hw_blocks w') (hw_bytes w') (fl(Hand k := x # fl (Hand k))) heads"
    by (intro bins_ok_cong [OF bins_partD(3) [OF inv]]) (auto simp: w')
  moreover have "lists_ok cl (hw_blocks w') (fl(Hand k := x # fl (Hand k)))"
    unfolding w' by (simp, rule lists_ok_add [OF bins_partD(1) [OF inv]]) (use bs x b in simp_all)
  moreover have "payloads_ok cl (hw_blocks w') (hw_bytes w')"
    using bins_partD(2) [OF inv] x pl unfolding payloads_ok_def w' by auto
  moreover have "bstate (hw_blocks w') y = Some s \<Longrightarrow> s = 0 \<or> s = 1" for y s
    using bins_partD(4) [OF inv, of y s] b by (auto simp: bstate_def w' split: if_splits)
  ultimately show "bins_part cl (fl(Hand k := x # fl (Hand k))) heads w'"
    using bins_partD(5) [OF inv] unfolding bins_part_def by (simp add: w' chunk_cap_def cache_cap_def)
  show "grew {x} w w'" using b by (auto simp: grew_def w' bstate_def)
qed

lemma flush_hand_ok:
  assumes inv: "bins_part cl fl heads w" and l: "linked (bnext (hw_blocks w)) (hd0 (fl (Hand k))) (fl (Hand k))"
    and n: "fl (Hand k) \<noteq> []" "length (fl (Hand k)) \<le> chunk_cap w"
  shows "\<exists>w' fl' heads'. memx_heap_push_central_chunk_locked k (hd0 (fl (Hand k))) (last0 (fl (Hand k)))
      (of_nat (length (fl (Hand k)))) w = Some w'
    \<and> settled cl w (fl(Hand k := [])) {} (set (fl (Hand k))) w' fl' heads' \<and> hw_caches w' = hw_caches w
    \<and> hp_central (hw_heap w') k \<noteq> 0"
proof -
  let ?xs = "fl (Hand k)"
  have l0: "linked ((bnext (hw_blocks w))(last ?xs \<mapsto> 0)) (hd ?xs) ?xs"
    using linked_splice [OF _ n(1), of "bnext (hw_blocks w)" "hd ?xs" 0 "[]"] l n(1) by simp
  obtain w' where w': "memx_heap_push_central_chunk_locked k (hd ?xs) (last ?xs) (of_nat (length ?xs)) w = Some w'"
    "bins_part cl (fl(Hand k := [], Chunk k (hd ?xs) := ?xs)) (heads(k := hd ?xs # heads k)) w'" "moved w w'"
    "hw_caches w' = hw_caches w" "\<forall>y. y \<notin> set ?xs \<longrightarrow> hw_blocks w' y = hw_blocks w y"
    using push_chunk_ok [OF inv, of "Hand k" k ?xs "[]"] n l0 by auto
  have "settled cl w (fl(Hand k := [])) {} (set ?xs) w' (fl(Hand k := [], Chunk k (hd ?xs) := ?xs))
      (heads(k := hd ?xs # heads k))"
    unfolding settled_def using w'(2,3,5) by auto
  moreover have "hp_central (hw_heap w') k \<noteq> 0"
    using bins_okD(1) [OF bins_partD(3) [OF w'(2)], of k] by auto
  ultimately show ?thesis using w'(1,4) n(1) by auto
qed

lemma carve_ok:
  fixes base stride :: u64
  defines "a j \<equiv> base + of_nat j * stride"
  assumes "bins_part cl fl heads w" "k < 19"
    and "\<And>j. m \<le> j \<Longrightarrow> j < m + n \<Longrightarrow> hw_blocks w (a j) = None \<and> a j \<noteq> 0 \<and> cl (a j) = k"
    and "inj_on a {m ..< m + n}" "L \<noteq> 0" "unat L \<le> chunk_cap w" "length (fl (Hand k)) < unat L"
    and "linked (bnext (hw_blocks w)) (hd0 (fl (Hand k))) (fl (Hand k))"
    and "first = hd0 (fl (Hand k))" "tail = last0 (fl (Hand k))" "count = of_nat (length (fl (Hand k)))"
  shows "\<exists>w' fl' heads'. carve_blocks k base stride L (of_nat m) n first tail count w = Some w'
    \<and> bins_part cl fl' heads' w' \<and> grew (a ` {m ..< m + n}) w w' \<and> hw_caches w' = hw_caches w
    \<and> (\<forall>P. \<not> in_bin P \<longrightarrow> fl' P = (fl(Hand k := [])) P)
    \<and> (n \<noteq> 0 \<or> fl (Hand k) \<noteq> [] \<or> hp_central (hw_heap w) k \<noteq> 0 \<longrightarrow> hp_central (hw_heap w') k \<noteq> 0)"
  using assms(2-)
proof (induction n arbitrary: w fl heads m first tail count)
  case 0
  show ?case
  proof (cases "fl (Hand k) = []")
    case True
    then have "carve_blocks k base stride L (of_nat m) 0 first tail count w = Some w" using 0 by simp
    then show ?thesis using 0(1) True by (intro exI [of _ w] exI [of _ fl] exI [of _ heads]) (simp add: fun_upd_idem)
  next
    case False
    have n: "length (fl (Hand k)) \<le> chunk_cap w" using 0 by simp
    obtain w' fl' heads' where f: "memx_heap_push_central_chunk_locked k (hd0 (fl (Hand k))) (last0 (fl (Hand k)))
        (of_nat (length (fl (Hand k)))) w = Some w'"
      "settled cl w (fl(Hand k := [])) {} (set (fl (Hand k))) w' fl' heads'" "hw_caches w' = hw_caches w"
      "hp_central (hw_heap w') k \<noteq> 0"
      using flush_hand_ok [OF 0(1,8) False n] by blast
    have "count \<noteq> 0" using cap_words(1) [OF n] False 0(11) by (metis length_0_conv unat_0)
    then have "carve_blocks k base stride L (of_nat m) 0 first tail count w = Some w'" using f(1) 0 by simp
    moreover have "grew {} w w'" using moved_grew settledD(2) [OF f(2)] by blast
    ultimately show ?thesis
      using settledD(1,3) [OF f(2)] f(3,4) by (intro exI [of _ w'] exI [of _ fl'] exI [of _ heads']) simp
  qed
next
  case (Suc n)
  let ?x = "a m" and ?xs = "fl (Hand k)"
  let ?b = "\<lparr>bk_link = first, bk_requested_size = 0, bk_state = 0\<rparr>" and ?pl = "\<lparr>pl_size = class_size k, pl_bytes = (\<lambda>_. 0)\<rparr>"
  define w1 where "w1 = w\<lparr>hw_blocks := (hw_blocks w)(?x \<mapsto> ?b), hw_bytes := (hw_bytes w)(?x + sizeof_block \<mapsto> ?pl)\<rparr>"
  have x: "hw_blocks w ?x = None" "?x \<noteq> 0" "cl ?x = k" using Suc.prems(3) [of m] by simp_all
  note nb = new_block_ok [OF Suc.prems(1) x Suc.prems(2) _ _ w1_def, simplified]
  let ?fl = "fl(Hand k := ?x # ?xs)"
  have xo: "?x \<notin> set ?xs"
    using lists_okD(4) [OF bins_partD(1) [OF Suc.prems(1)], of ?x "Hand k"] x(1) by (auto simp: bstate_def)
  have l: "linked (bnext (hw_blocks w1)) ?x (?x # ?xs)"
  proof -
    have "linked ((bnext (hw_blocks w))(?x \<mapsto> hd0 ?xs)) ?x (?x # ?xs)"
      by (rule linked_push [OF Suc.prems(8) xo x(2)])
    moreover have "bnext (hw_blocks w1) = (bnext (hw_blocks w))(?x \<mapsto> hd0 ?xs)"
      by (auto simp: w1_def bnext_def Suc.prems(9))
    ultimately show ?thesis by simp
  qed
  have cap: "chunk_cap w1 = chunk_cap w" by (simp add: w1_def chunk_cap_def cache_cap_def)
  have inj: "a j \<noteq> ?x" if "Suc m \<le> j" "j < Suc m + n" for j
    using inj_onD [OF Suc.prems(4), of j m] that by auto
  have rest: "hw_blocks w1 (a j) = None \<and> a j \<noteq> 0 \<and> cl (a j) = k" if "Suc m \<le> j" "j < Suc m + n" for j
    using Suc.prems(3) [of j] inj [OF that] that by (simp add: w1_def)
  have inj': "inj_on a {Suc m ..< Suc m + n}" using Suc.prems(4) by (rule inj_on_subset) auto
  have tail': "(if tail = 0 then ?x else tail) = last0 (?x # ?xs)"
    using Suc.prems(10) list_nonzero [OF Suc.prems(1), of "Hand k"]
    by (cases "?xs = []") (auto simp: last0_def dest: last_in_set)
  have n1: "length (?x # ?xs) \<le> chunk_cap w1" using Suc.prems(6,7) cap by simp
  have count': "count + 1 = of_nat (length (?x # ?xs))" using Suc.prems(11) by simp
  have set': "insert ?x (a ` {Suc m ..< Suc m + n}) = a ` {m ..< m + Suc n}"
  proof -
    have "{m ..< m + Suc n} = insert m {Suc m ..< Suc m + n}" by auto
    then show ?thesis by simp
  qed
  have i': "of_nat m + 1 = (of_nat (Suc m) :: u64)" by simp
  show ?case
  proof (cases "count + 1 = L")
    case False
    have lt: "length (?fl (Hand k)) < unat L"
      using False Suc.prems(7) cap_words(1) [OF n1] count' by (metis fun_upd_same length_Cons less_antisym not_less_eq unat_eq_iff)
    have hd': "?x = hd0 (?fl (Hand k))" by simp
    have tl': "(if tail = 0 then ?x else tail) = last0 (?fl (Hand k))" using tail' by simp
    have ct': "count + 1 = of_nat (length (?fl (Hand k)))" using count' by simp
    have l': "linked (bnext (hw_blocks w1)) (hd0 (?fl (Hand k))) (?fl (Hand k))" using l by simp
    have L1: "unat L \<le> chunk_cap w1" using Suc.prems(6) cap by simp
    obtain w' fl' heads' where r: "carve_blocks k base stride L (of_nat (Suc m)) n ?x (if tail = 0 then ?x else tail)
        (count + 1) w1 = Some w'" "bins_part cl fl' heads' w'" "grew (a ` {Suc m ..< Suc m + n}) w1 w'"
      "hw_caches w' = hw_caches w1" "\<forall>P. \<not> in_bin P \<longrightarrow> fl' P = (?fl(Hand k := [])) P"
      "hp_central (hw_heap w') k \<noteq> 0"
      using Suc.IH [OF nb(1) Suc.prems(2) rest inj' Suc.prems(5) L1 lt l' hd' tl' ct'] by auto
    have "carve_blocks k base stride L (of_nat m) (Suc n) first tail count w = Some w'"
      using r(1) [folded i'] False by (cases "tail = 0") (simp_all add: Let_def a_def w1_def)
    moreover have "grew (a ` {m ..< m + Suc n}) w w'"
      using grew_trans [OF nb(2) r(3)] set' by simp
    moreover have "\<forall>P. \<not> in_bin P \<longrightarrow> fl' P = (fl(Hand k := [])) P" using r(5) by auto
    ultimately show ?thesis using r(2,4,6) by (auto simp: w1_def)
  next
    case True
    obtain w2 fl2 heads2 where f: "memx_heap_push_central_chunk_locked k (hd0 (?fl (Hand k))) (last0 (?fl (Hand k)))
        (of_nat (length (?fl (Hand k)))) w1 = Some w2"
      "settled cl w1 (?fl(Hand k := [])) {} (set (?fl (Hand k))) w2 fl2 heads2" "hw_caches w2 = hw_caches w1"
      "hp_central (hw_heap w2) k \<noteq> 0"
      using flush_hand_ok [OF nb(1), of k] l n1 by auto
    note F = settledD [OF f(2)]
    have h0: "fl2 (Hand k) = []" using F(3) [of "Hand k"] by simp
    have rest2: "hw_blocks w2 (a j) = None \<and> a j \<noteq> 0 \<and> cl (a j) = k" if "Suc m \<le> j" "j < Suc m + n" for j
    proof -
      have "bstate (hw_blocks w2) (a j) = bstate (hw_blocks w1) (a j)" using F(2) by (simp add: moved_def)
      then show ?thesis using rest [OF that] by (simp add: bstate_def)
    qed
    have L2: "unat L \<le> chunk_cap w2" using Suc.prems(6) cap cap_moved(2) [OF F(2)] by simp
    have lt2: "length (fl2 (Hand k)) < unat L" using h0 Suc.prems(5) by (simp add: unat_gt_0)
    have l2: "linked (bnext (hw_blocks w2)) (hd0 (fl2 (Hand k))) (fl2 (Hand k))" by (simp add: h0)
    have e2: "(0 :: u64) = hd0 (fl2 (Hand k))" "(0 :: u64) = last0 (fl2 (Hand k))" "(0 :: u64) = of_nat (length (fl2 (Hand k)))"
      by (simp_all add: h0)
    obtain w' fl' heads' where r: "carve_blocks k base stride L (of_nat (Suc m)) n 0 0 0 w2 = Some w'"
      "bins_part cl fl' heads' w'" "grew (a ` {Suc m ..< Suc m + n}) w2 w'"
      "hw_caches w' = hw_caches w2" "\<forall>P. \<not> in_bin P \<longrightarrow> fl' P = (fl2(Hand k := [])) P"
      "hp_central (hw_heap w') k \<noteq> 0"
      using Suc.IH [OF F(1) Suc.prems(2) rest2 inj' Suc.prems(5) L2 lt2 l2 e2] f(4) by auto
    have "carve_blocks k base stride L (of_nat m) (Suc n) first tail count w = Some w'"
      using r(1) [folded i'] f(1) True tail' count' by (cases "tail = 0") (simp_all add: Let_def a_def w1_def)
    moreover have "grew (a ` {m ..< m + Suc n}) w w'"
      using grew_trans [OF grew_moved [OF nb(2) F(2)] r(3)] set' by simp
    moreover have "\<forall>P. \<not> in_bin P \<longrightarrow> fl' P = (fl(Hand k := [])) P" using r(5) F(3) by auto
    ultimately show ?thesis using r(2,4,6) f(3) by (auto simp: w1_def)
  qed
qed

section \<open>The layout of the arena\<close>

lemma header_64 [simp]: "span_header_size = 64"
  by (simp add: span_header_size_def memx_heap_align_up_def sizeof_span_def max_align_def)

lemma stride_facts:
  assumes "k < 19"
  shows "16 + class_size k \<le> unat (block_stride k)" "16 dvd unat (block_stride k)" "unat (block_stride k) \<le> 8208"
    "32 \<le> unat (block_stride k)"
proof -
  have "\<forall>s \<in> set memx_heap_class_sizes. 16 + unat s \<le> unat (memx_heap_align_up (16 + s) 16)
      \<and> unat (memx_heap_align_up (16 + s) 16) mod 16 = 0 \<and> unat (memx_heap_align_up (16 + s) 16) \<le> 8208"
    by (simp add: memx_heap_class_sizes_def memx_heap_align_up_def)
  then have "16 + class_size k \<le> unat (block_stride k) \<and> unat (block_stride k) mod 16 = 0 \<and> unat (block_stride k) \<le> 8208"
    using assms by (simp add: block_stride_def class_size_def sizeof_block_def max_align_def)
  then show "16 + class_size k \<le> unat (block_stride k)" "16 dvd unat (block_stride k)" "unat (block_stride k) \<le> 8208"
    by auto
  then show "32 \<le> unat (block_stride k)" using class_size_16 [OF assms] by simp
qed

abbreviation span_bits :: "'c memx_heap \<Rightarrow> nat" where
  "span_bits h \<equiv> unat (hc_span_shift (hp_config h))"

abbreviation arena_start :: "'c memx_heap \<Rightarrow> nat" where
  "arena_start h \<equiv> unat (fst (hp_arena h))"

definition arena_ok :: "'c memx_heap \<Rightarrow> bool" where
  "arena_ok h \<longleftrightarrow> span_bits h < 64 \<and> 12 \<le> span_bits h \<and> unat (hp_span_size h) = 2 ^ span_bits h
     \<and> 64 + 8208 \<le> (2 :: nat) ^ span_bits h
     \<and> unat (snd (hp_arena h)) = unat (hp_span_capacity h) * 2 ^ span_bits h
     \<and> 2 ^ span_bits h dvd arena_start h \<and> 0 < arena_start h
     \<and> arena_start h + unat (snd (hp_arena h)) < 2 ^ 64
     \<and> length (hp_class_table h) = unat (hp_span_capacity h) \<and> unat (hp_next_span h) \<le> unat (hp_span_capacity h)"

lemma arena_okD:
  assumes "arena_ok h"
  shows "span_bits h < 64" "12 \<le> span_bits h" "unat (hp_span_size h) = 2 ^ span_bits h"
    "64 + 8208 \<le> (2 :: nat) ^ span_bits h" "unat (snd (hp_arena h)) = unat (hp_span_capacity h) * 2 ^ span_bits h"
    "2 ^ span_bits h dvd arena_start h" "0 < arena_start h"
    "arena_start h + unat (snd (hp_arena h)) < 18446744073709551616"
    "length (hp_class_table h) = unat (hp_span_capacity h)" "unat (hp_next_span h) \<le> unat (hp_span_capacity h)"
  using assms by (simp_all add: arena_ok_def)

definition span_start :: "'c memx_heap \<Rightarrow> nat \<Rightarrow> u64" where
  "span_start h j = fst (hp_arena h) + of_nat j * hp_span_size h"

definition block_start :: "'c memx_heap \<Rightarrow> nat \<Rightarrow> nat \<Rightarrow> nat \<Rightarrow> u64" where
  "block_start h k j i = span_start h j + 64 + of_nat i * block_stride k"

definition blocks_in :: "'c memx_heap \<Rightarrow> nat \<Rightarrow> nat" where
  "blocks_in h k = (2 ^ span_bits h - 64) div unat (block_stride k)"

definition span_class :: "'c memx_heap \<Rightarrow> nat \<Rightarrow> nat" where
  "span_class h j = unat (hp_class_table h ! j)"

definition span_of :: "'c memx_heap \<Rightarrow> u64 \<Rightarrow> nat" where
  "span_of h x = (unat x - arena_start h) div 2 ^ span_bits h"

definition class_of :: "'c memx_heap \<Rightarrow> u64 \<Rightarrow> nat" where
  "class_of h x = span_class h (span_of h x)"

lemma unat_mult_add:
  fixes a b c :: u64
  assumes "unat c + n * unat b < 2 ^ 64"
  shows "unat (c + of_nat n * b) = unat c + n * unat b"
proof -
  have "unat (c + of_nat n * b) = (unat c + n * unat b) mod 2 ^ 64"
    by (simp add: unat_word_ariths unat_of_nat mod_simps)
  then show ?thesis using assms by simp
qed

lemma span_start_unat:
  assumes h: "arena_ok h" and j: "j \<le> unat (hp_span_capacity h)"
  shows "unat (span_start h j) = arena_start h + j * 2 ^ span_bits h"
proof -
  note A = arena_okD [OF h]
  have "j * 2 ^ span_bits h \<le> unat (snd (hp_arena h))" unfolding A(5) by (rule mult_le_mono1 [OF j])
  then have "unat (fst (hp_arena h)) + j * unat (hp_span_size h) < 2 ^ 64" using A(3,8) by simp
  from unat_mult_add [OF this] show ?thesis by (simp add: span_start_def A(3))
qed

lemma span_room:
  assumes h: "arena_ok h" and j: "j < unat (hp_span_capacity h)"
  shows "arena_start h + j * 2 ^ span_bits h + 2 ^ span_bits h \<le> arena_start h + unat (snd (hp_arena h))"
proof -
  have "(j + 1) * 2 ^ span_bits h \<le> unat (hp_span_capacity h) * 2 ^ span_bits h" by (rule mult_le_mono1) (use j in simp)
  then show ?thesis using arena_okD(5) [OF h] by (simp add: algebra_simps)
qed

lemma block_room:
  assumes k: "k < 19" and i: "i < blocks_in h k"
  shows "64 + i * unat (block_stride k) + unat (block_stride k) \<le> 2 ^ span_bits h"
proof -
  have "(i + 1) * unat (block_stride k) \<le> blocks_in h k * unat (block_stride k)"
    by (rule mult_le_mono1) (use i in simp)
  also have "\<dots> \<le> 2 ^ span_bits h - 64" unfolding blocks_in_def by (rule div_times_less_eq_dividend)
  finally have "i * unat (block_stride k) + unat (block_stride k) \<le> 2 ^ span_bits h - 64" by simp
  moreover have "0 < unat (block_stride k)" using stride_facts(4) [OF k] by simp
  ultimately show ?thesis by linarith
qed

lemma block_start_unat:
  assumes h: "arena_ok h" and j: "j < unat (hp_span_capacity h)" and k: "k < 19" and i: "i < blocks_in h k"
  shows "unat (block_start h k j i) = arena_start h + j * 2 ^ span_bits h + 64 + i * unat (block_stride k)"
    "span_of h (block_start h k j i) = j"
proof -
  note A = arena_okD [OF h]
  have s: "unat (span_start h j) = arena_start h + j * 2 ^ span_bits h" using span_start_unat [OF h] j by simp
  note r = span_room [OF h j] block_room [OF k i]
  have b: "unat (span_start h j + 64) = unat (span_start h j) + 64"
    using unat_add_exact [of "span_start h j" 64] s r A(8) by simp
  have "unat (span_start h j + 64) + i * unat (block_stride k) < 2 ^ 64"
    unfolding b s using r A(8) by simp
  from unat_mult_add [OF this] show u:
    "unat (block_start h k j i) = arena_start h + j * 2 ^ span_bits h + 64 + i * unat (block_stride k)"
    by (simp add: block_start_def b s)
  have "64 + i * unat (block_stride k) < 2 ^ span_bits h" using r(2) stride_facts(4) [OF k] by linarith
  then have "(j * 2 ^ span_bits h + (64 + i * unat (block_stride k))) div 2 ^ span_bits h = j" by simp
  moreover have "unat (block_start h k j i) - arena_start h = j * 2 ^ span_bits h + (64 + i * unat (block_stride k))"
    unfolding u by simp
  ultimately show "span_of h (block_start h k j i) = j" by (simp add: span_of_def)
qed

lemma block_start_inj:
  assumes h: "arena_ok h" and k: "k < 19" and a: "j < unat (hp_span_capacity h)" "i < blocks_in h k"
    and b: "j' < unat (hp_span_capacity h)" "k' < 19" "i' < blocks_in h k'"
    and e: "block_start h k j i = block_start h k' j' i'"
  shows "j = j'" "k = k' \<Longrightarrow> i = i'"
proof -
  show j: "j = j'" using block_start_unat(2) [OF h a(1) k a(2)] block_start_unat(2) [OF h b] e by simp
  assume "k = k'"
  then have "i * unat (block_stride k) = i' * unat (block_stride k)"
    using block_start_unat(1) [OF h a(1) k a(2)] block_start_unat(1) [OF h b] e j by auto
  moreover have "unat (block_stride k) \<noteq> 0" using stride_facts(4) [OF k] by linarith
  ultimately show "i = i'" by simp
qed

lemma block_aligned:
  assumes h: "arena_ok h" and j: "j < unat (hp_span_capacity h)" and k: "k < 19" and i: "i < blocks_in h k"
  shows "16 dvd unat (block_start h k j i)"
proof -
  have "(2 :: nat) ^ 4 dvd 2 ^ span_bits h" by (rule le_imp_power_dvd) (use arena_okD(2) [OF h] in simp)
  then have "(16 :: nat) dvd 2 ^ span_bits h" by simp
  then show ?thesis
    unfolding block_start_unat(1) [OF h j k i]
    using stride_facts(2) [OF k] arena_okD(6) [OF h] by (intro dvd_add) (auto intro: dvd_trans)
qed

text \<open>A span holds a block of every class.\<close>

lemma blocks_in_pos: "arena_ok h \<Longrightarrow> k < 19 \<Longrightarrow> 0 < blocks_in h k"
  using arena_okD(4) [of h] stride_facts(3,4) [of k] by (simp add: blocks_in_def div_greater_zero_iff)

section \<open>Spans and the index\<close>

definition span_ok :: "'c memx_heap \<Rightarrow> (u64 \<rightharpoonup> memx_heap_span) \<Rightarrow> nat \<Rightarrow> bool" where
  "span_ok h S j \<longleftrightarrow> span_class h j < 19 \<and> (\<exists>s. S (span_start h j) = Some s
     \<and> sp_magic s = MEMX_HEAP_SPAN_MAGIC \<and> sp_heap s = hp_self h
     \<and> sp_base s = span_start h j + 64 \<and> sp_block_stride s = block_stride (span_class h j)
     \<and> unat (sp_block_count s) = blocks_in h (span_class h j) \<and> unat (sp_class_index s) = span_class h j)"

definition blocks_at :: "'c memx_heap \<Rightarrow> nat \<Rightarrow> u64 set" where
  "blocks_at h j = block_start h (span_class h j) j ` {0 ..< blocks_in h (span_class h j)}"

definition spans_ok :: "'c heap_world \<Rightarrow> bool" where
  "spans_ok w \<longleftrightarrow> arena_ok (hw_heap w) \<and> (\<forall>j < unat (hp_next_span (hw_heap w)). span_ok (hw_heap w) (hw_spans w) j)
     \<and> dom (hw_blocks w) = (\<Union>j < unat (hp_next_span (hw_heap w)). blocks_at (hw_heap w) j)"

definition index_fits :: "'c memx_heap \<Rightarrow> bool" where
  "index_fits h \<longleftrightarrow> bounded (hp_index h) \<and> base_of (hp_index h) = arena_start h
     \<and> rshift (hp_index h) = span_bits h \<and> gshift (hp_index h) = 12
     \<and> regions (hp_index h) = unat (hp_span_capacity h)"

text \<open>The index maps the bytes of the claimed spans to their first byte, and nothing else.\<close>

definition span_map :: "'c memx_heap \<Rightarrow> u64 \<Rightarrow> u64" where
  "span_map h a = (if arena_start h \<le> unat a \<and> span_of h a < unat (hp_next_span h)
     then span_start h (span_of h a) else MEMX_HANDLE_INVALID)"

definition index_maps :: "'c heap_world \<Rightarrow> bool" where
  "index_maps w \<longleftrightarrow> index_fits (hw_heap w)
     \<and> adaptive_view (hp_index (hw_heap w), hw_mem w) = span_map (hw_heap w)"


lemma spans_okD:
  assumes "spans_ok w"
  shows "arena_ok (hw_heap w)" "j < unat (hp_next_span (hw_heap w)) \<Longrightarrow> span_ok (hw_heap w) (hw_spans w) j"
    "dom (hw_blocks w) = (\<Union>j < unat (hp_next_span (hw_heap w)). blocks_at (hw_heap w) j)"
  using assms by (simp_all add: spans_ok_def)

lemma span_start_inj:
  assumes "arena_ok h" "j \<le> unat (hp_span_capacity h)" "j' \<le> unat (hp_span_capacity h)" "span_start h j = span_start h j'"
  shows "j = j'"
proof -
  have "arena_start h + j * 2 ^ span_bits h = arena_start h + j' * 2 ^ span_bits h"
    unfolding span_start_unat [OF assms(1,2), symmetric] span_start_unat [OF assms(1,3), symmetric] assms(4) ..
  then show ?thesis by simp
qed

text \<open>The commit is the first step of a claim.\<close>

lemma commit_ok:
  assumes c: "env_contract E live mapped" and run: "memx_heap_commit_through_locked E required w = (ok, w')"
  shows "\<exists>c' cb. w' = w\<lparr>hw_mem := (hw_mem w)\<lparr>ctx := c'\<rparr>, hw_heap := (hw_heap w)\<lparr>hp_committed_bytes := cb\<rparr>\<rparr>
    \<and> live c' = live (ctx (hw_mem w)) \<and> mapped c' = mapped (ctx (hw_mem w))"
proof (cases "required \<le> hp_committed_bytes (hw_heap w)")
  case True
  then have "w' = w" using run by (simp add: memx_heap_commit_through_locked_def Let_def)
  then show ?thesis by (intro exI [of _ "ctx (hw_mem w)"] exI [of _ "hp_committed_bytes (hw_heap w)"]) simp
next
  case False
  define tgt where "tgt = (let t = memx_heap_align_up required (hp_commit_granularity (hw_heap w))
    in if t = 0 \<or> snd (hp_arena (hw_heap w)) < t then snd (hp_arena (hw_heap w)) else t)"
  define a where "a = fst (hp_arena (hw_heap w)) + hp_committed_bytes (hw_heap w)"
  define n where "n = tgt - hp_committed_bytes (hw_heap w)"
  have an: "memx_heap_commit_through_locked E required w =
      (case memx_os_commit (he_sys E) a n (ctx (hw_mem w)) of (ok, c) \<Rightarrow>
         if \<not> ok then (False, upd_ctx c w)
         else (True, upd_heap (\<lambda>h. h\<lparr>hp_committed_bytes := tgt\<rparr>) (upd_ctx c w)))"
    unfolding memx_heap_commit_through_locked_def Let_def if_not_P [OF False] a_def n_def tgt_def ..
  obtain o' c' where o: "memx_os_commit (he_sys E) a n (ctx (hw_mem w)) = (o', c')" by fastforce
  have "live c' = live (ctx (hw_mem w)) \<and> mapped c' = mapped (ctx (hw_mem w))"
    by (rule commit_spec [OF env_contractD(2) [OF c] o])
  then show ?thesis
    using run unfolding an o
    by (cases o') (intro exI [of _ c'] exI [of _ "if o' then tgt else hp_committed_bytes (hw_heap w)"];
      auto simp: upd_heap_def upd_ctx_def)+
qed

text \<open>Claiming the next span: the null result changes nothing that matters; otherwise the span is
  described by its header and entered in the class table and in the index.\<close>

definition claimed :: "'c heap_world \<Rightarrow> nat \<Rightarrow> 'c heap_world \<Rightarrow> bool" where
  "claimed w k w' \<longleftrightarrow> (let h = hw_heap w; j = unat (hp_next_span h); h' = hw_heap w' in
     hp_next_span h' = hp_next_span h + 1 \<and> hp_class_table h' = (hp_class_table h)[j := of_nat k]
     \<and> hp_spans h' = span_start h j \<and> (\<exists>s. hw_spans w' (span_start h j) = Some s \<and> sp_next s = hp_spans h)
     \<and> span_ok h' (hw_spans w') j)"

text \<open>The fields no claim touches.\<close>

definition heap_rest :: "'c memx_heap \<Rightarrow> 'c memx_heap" where
  "heap_rest h = h\<lparr>hp_committed_bytes := 0, hp_index := undefined, hp_class_table := [], hp_spans := 0,
     hp_next_span := 0, hp_committed_spans := 0\<rparr>"

lemma div_eq_bounds: "0 < (s :: nat) \<Longrightarrow> d div s = j \<longleftrightarrow> j * s \<le> d \<and> d < (j + 1) * s"
proof
  assume "0 < s" "d div s = j"
  then show "j * s \<le> d \<and> d < (j + 1) * s"
    using div_times_less_eq_dividend [of d s] dividend_less_div_times [of s d] by auto
qed (auto intro: div_nat_eqI simp: algebra_simps)

lemma in_span:
  assumes h: "arena_ok h" and j: "j < unat (hp_span_capacity h)"
  shows "in_range (span_start h j) (hp_span_size h) a \<longleftrightarrow> arena_start h \<le> unat a \<and> span_of h a = j"
proof -
  let ?S = "(2 :: nat) ^ span_bits h"
  have s: "unat (span_start h j) = arena_start h + j * ?S" using span_start_unat [OF h] j by simp
  have "span_of h a = j \<longleftrightarrow> j * ?S \<le> unat a - arena_start h \<and> unat a - arena_start h < (j + 1) * ?S"
    unfolding span_of_def by (rule div_eq_bounds) simp
  then show ?thesis unfolding in_range_def s arena_okD(3) [OF h] by (auto simp: algebra_simps)
qed

lemma span_map_put:
  assumes h: "arena_ok h" and n: "unat (hp_next_span h) < unat (hp_span_capacity h)"
    and h': "hp_arena h' = hp_arena h" "hp_span_size h' = hp_span_size h" "hp_config h' = hp_config h"
      "hp_next_span h' = hp_next_span h + 1"
  shows "put (span_start h (unat (hp_next_span h))) (hp_span_size h) (span_start h (unat (hp_next_span h))) (span_map h)
    = span_map h'"
proof
  fix a
  let ?j = "unat (hp_next_span h)" and ?S = "(2 :: nat) ^ span_bits h"
  have j': "unat (hp_next_span h') = ?j + 1"
    unfolding h'(4) by (rule unat_inc [OF n])
  have so: "span_of h' a = span_of h a" "\<And>j. span_start h' j = span_start h j"
    by (simp_all add: span_of_def span_start_def h')
  note in_span [OF h n, of a]
  then show "put (span_start h ?j) (hp_span_size h) (span_start h ?j) (span_map h) a = span_map h' a"
    using j' so h'(1) by (auto simp: put_def span_map_def)
qed

lemma span_start_valid:
  assumes "arena_ok h" "j \<le> unat (hp_span_capacity h)"
  shows "span_start h j \<noteq> MEMX_HANDLE_INVALID" "span_start h j \<noteq> 0" "2 ^ span_bits h dvd unat (span_start h j)"
proof -
  note A = arena_okD [OF assms(1)] and s = span_start_unat [OF assms]
  show d: "2 ^ span_bits h dvd unat (span_start h j)" unfolding s using A(6) by simp
  show "span_start h j \<noteq> 0" using s A(7) by (metis add_is_0 less_numeral_extra(3) unat_0)
  show "span_start h j \<noteq> MEMX_HANDLE_INVALID"
  proof
    assume "span_start h j = MEMX_HANDLE_INVALID"
    moreover have "(2 :: nat) ^ 1 dvd 2 ^ span_bits h" by (rule le_imp_power_dvd) (use A(2) in simp)
    ultimately have "even (unat MEMX_HANDLE_INVALID)" using d by (metis dvd_trans power_one_right)
    then show False by (simp add: MEMX_HANDLE_INVALID_def)
  qed
qed


text \<open>A claimed range is legal for the index and free in it.\<close>

lemma span_legal:
  assumes h: "arena_ok h" "index_fits h" and j: "j < unat (hp_span_capacity h)" and sh: "index_shape (hp_index h)"
  shows "fst (memx_validate_range (Some (hp_index h)) (span_start h j) (hp_span_size h)) = MEMX_OK"
proof -
  note A = arena_okD [OF h(1)] and s = span_start_unat [OF h(1) less_imp_le [OF j]] and v = span_start_valid [OF h(1) less_imp_le [OF j]]
  have F: "base_of (hp_index h) = arena_start h" "rshift (hp_index h) = span_bits h" "gshift (hp_index h) = 12"
    "regions (hp_index h) = unat (hp_span_capacity h)" using h(2) by (simp_all add: index_fits_def)
  have g: "(2 :: nat) ^ 12 dvd 2 ^ span_bits h" by (rule le_imp_power_dvd [OF A(2)])
  note r = span_room [OF h(1) j]
  have e: "unat (span_start h j + hp_span_size h) = unat (span_start h j) + unat (hp_span_size h)"
    by (rule unat_add_exact) (use r A(3,8) s in simp)
  have ss0: "hp_span_size h \<noteq> 0" using A(3) by auto
  have "memx_validate_range (Some (hp_index h)) (span_start h j) (hp_span_size h)
      = (MEMX_OK, span_start h j + hp_span_size h)"
    unfolding validate_range_exact [OF sh] F
    using ss0 e v(3) g A(3,5) s r by (auto intro: dvd_trans)
  then show ?thesis by simp
qed

definition claim_frame :: "'c heap_world \<Rightarrow> 'c heap_world \<Rightarrow> bool" where
  "claim_frame w w' \<longleftrightarrow> heap_rest (hw_heap w') = heap_rest (hw_heap w) \<and> hw_blocks w' = hw_blocks w
     \<and> hw_bytes w' = hw_bytes w \<and> hw_larges w' = hw_larges w \<and> hw_caches w' = hw_caches w
     \<and> hw_tls w' = hw_tls w \<and> hw_tls_last w' = hw_tls_last w \<and> hw_huge_cache w' = hw_huge_cache w
     \<and> (\<forall>a. a \<noteq> span_start (hw_heap w) (unat (hp_next_span (hw_heap w))) \<longrightarrow> hw_spans w' a = hw_spans w a)"

lemma heap_restD:
  assumes "heap_rest h' = heap_rest h"
  shows "hp_self h' = hp_self h" "hp_config h' = hp_config h" "hp_arena h' = hp_arena h"
    "hp_span_size h' = hp_span_size h" "hp_span_capacity h' = hp_span_capacity h"
    "hp_span_classes h' = hp_span_classes h" "hp_central h' = hp_central h" "hp_central_count h' = hp_central_count h"
    "hp_large_buckets h' = hp_large_buckets h" "hp_large_bucket_count h' = hp_large_bucket_count h"
    "hp_large_count h' = hp_large_count h" "hp_caches h' = hp_caches h"
    "hp_exclusive_cache h' = hp_exclusive_cache h"
  using assms unfolding heap_rest_def by (cases h; cases h'; simp)+

lemma index_maps_cong:
  assumes "index_maps w" "hp_arena (hw_heap w') = hp_arena (hw_heap w)" "hp_span_size (hw_heap w') = hp_span_size (hw_heap w)"
    "hp_span_capacity (hw_heap w') = hp_span_capacity (hw_heap w)" "hp_config (hw_heap w') = hp_config (hw_heap w)"
    "hp_next_span (hw_heap w') = hp_next_span (hw_heap w)" "same_index (hp_index (hw_heap w)) (hp_index (hw_heap w'))"
    "adaptive_view (hp_index (hw_heap w'), hw_mem w') = adaptive_view (hp_index (hw_heap w), hw_mem w)"
  shows "index_maps w'"
  using assms same_index_fields [OF assms(7)]
  by (simp add: index_maps_def index_fits_def span_map_def span_of_def span_start_def fun_eq_iff)

lemma claim_ok:
  assumes c: "env_contract E live mapped" and sp: "spans_ok w" and im: "index_maps w"
    and mem: "mem_ok E live mapped M fr (hp_index (hw_heap w)) (hw_mem w)" and k: "k < 19"
    and bc: "unat block_count = blocks_in (hw_heap w) k"
  shows "\<exists>p w'. memx_heap_claim_span E k 64 (block_stride k) block_count w = Some (p, w')
    \<and> claim_frame w w' \<and> index_maps w' \<and> mem_ok E live mapped M fr (hp_index (hw_heap w')) (hw_mem w')
    \<and> (if p = 0 then hp_next_span (hw_heap w') = hp_next_span (hw_heap w)
          \<and> hp_class_table (hw_heap w') = hp_class_table (hw_heap w) \<and> hp_spans (hw_heap w') = hp_spans (hw_heap w)
       else p = span_start (hw_heap w) (unat (hp_next_span (hw_heap w)))
          \<and> unat (hp_next_span (hw_heap w)) < unat (hp_span_capacity (hw_heap w)) \<and> claimed w k w')"
proof -
  let ?h = "hw_heap w"
  let ?j = "unat (hp_next_span ?h)"
  let ?b = "span_start ?h ?j"
  have ar: "arena_ok ?h" and fit: "index_fits ?h" using sp im by (simp_all add: spans_ok_def index_maps_def)
  note A = arena_okD [OF ar]
  show ?thesis
  proof (cases "hp_span_capacity ?h \<le> hp_next_span ?h")
    case True
    then have "memx_heap_claim_span E k 64 (block_stride k) block_count w = Some (0, w)"
      by (simp add: memx_heap_claim_span_def)
    then show ?thesis using im mem by (simp add: claim_frame_def)
  next
    case False
    then have j: "?j < unat (hp_span_capacity ?h)" by (simp add: word_less_nat_alt not_le)
    have base: "fst (hp_arena ?h) + hp_next_span ?h * hp_span_size ?h = ?b" by (simp add: span_start_def)
    obtain ok w1 where cm: "memx_heap_commit_through_locked E (hp_next_span ?h * hp_span_size ?h + hp_span_size ?h) w = (ok, w1)"
      by fastforce
    obtain c' cb where w1: "w1 = w\<lparr>hw_mem := (hw_mem w)\<lparr>ctx := c'\<rparr>, hw_heap := ?h\<lparr>hp_committed_bytes := cb\<rparr>\<rparr>"
      "live c' = live (ctx (hw_mem w))" "mapped c' = mapped (ctx (hw_mem w))"
      using commit_ok [OF c cm] by blast
    let ?ix = "hp_index ?h" and ?m1 = "(hw_mem w)\<lparr>ctx := c'\<rparr>"
    have mem1: "mem_ok E live mapped M fr ?ix ?m1"
      using mem_ctx [OF c mem w1(2)] w1(3) mem_okD(3) [OF c mem] by simp
    have v1: "adaptive_view (?ix, ?m1) = span_map ?h" using im by (simp add: index_maps_def adaptive_view_def)
    show ?thesis
    proof (cases ok)
      case False
      then have "memx_heap_claim_span E k 64 (block_stride k) block_count w = Some (0, w1)"
        using cm \<open>\<not> hp_span_capacity ?h \<le> hp_next_span ?h\<close> by (simp add: memx_heap_claim_span_def)
      moreover have "index_maps w1"
        by (rule index_maps_cong [OF im]) (simp_all add: w1(1) adaptive_view_def)
      moreover have "claim_frame w w1" by (simp add: claim_frame_def w1(1) heap_rest_def)
      ultimately show ?thesis using mem1 by (simp add: w1(1))
    next
      case True
      define sp' where "sp' = \<lparr>sp_magic = MEMX_HEAP_SPAN_MAGIC, sp_heap = hp_self ?h, sp_next = hp_spans ?h,
          sp_base = ?b + 64, sp_block_stride = block_stride k, sp_block_count = block_count,
          sp_class_index = of_nat k\<rparr>"
      note V = span_start_valid [OF ar less_imp_le [OF j]]
      have inv1: "index_inv (tagged live mapped M) fr ?ix ?m1" "index_allocator ?ix = he_allocator E"
        using mem1 by (simp_all add: mem_ok_def)
      have free: "all_in ?b (hp_span_size ?h) MEMX_HANDLE_INVALID (adaptive_view (?ix, ?m1))"
        unfolding all_in_def v1 in_span [OF ar j] by (simp add: span_map_def)
      obtain st ix' m' where ins: "memx_insert (Some ?ix) ?b (hp_span_size ?h) ?b ?m1 = Some (st, Some ix', m')"
        "st \<in> {MEMX_OK, MEMX_ERROR_OUT_OF_MEMORY}" "index_inv (tagged live mapped M) fr ix' m'" "same_index ?ix ix'"
        "adaptive_view (ix', m') = (if st = MEMX_OK then put ?b (hp_span_size ?h) ?b (span_map ?h) else span_map ?h)"
        using index_insert_full [OF inv1(1) V(1) span_legal [OF ar fit j index_invD(2) [OF inv1(1)]] free]
        unfolding v1 by blast
      have mem': "mem_ok E live mapped M fr ix' m'"
        using ins(3) inv1(2) same_index_fields(1) [OF ins(4)] by (simp add: mem_ok_def)
      let ?w2 = "w1\<lparr>hw_spans := (hw_spans w1)(?b \<mapsto> sp')\<rparr>"
      let ?w3 = "upd_heap (\<lambda>h. h\<lparr>hp_index := ix'\<rparr>) (?w2\<lparr>hw_mem := m'\<rparr>)"
      have h3: "hw_heap ?w3 = ?h\<lparr>hp_committed_bytes := cb, hp_index := ix'\<rparr>" by (simp add: upd_heap_def w1(1))
      have run: "memx_heap_claim_span E k 64 (block_stride k) block_count w
        = (if st \<noteq> MEMX_OK then Some (0, ?w3)
           else if length (hp_class_table (hw_heap ?w3)) \<le> unat (hp_next_span ?h) then None
           else Some (?b, upd_heap (\<lambda>h. h\<lparr>hp_class_table := (hp_class_table h)[unat (hp_next_span h) := of_nat k],
                     hp_spans := ?b, hp_next_span := hp_next_span h + 1,
                     hp_committed_spans := hp_committed_spans h + 1\<rparr>) ?w3))"
        using \<open>\<not> hp_span_capacity ?h \<le> hp_next_span ?h\<close> cm True ins(1)
        unfolding memx_heap_claim_span_def Let_def base
        by (simp add: w1(1) sp'_def upd_heap_def)
      show ?thesis
      proof (cases "st = MEMX_OK")
        case False
        then have "memx_heap_claim_span E k 64 (block_stride k) block_count w = Some (0, ?w3)" using run by simp
        moreover have "index_maps ?w3"
        proof (rule index_maps_cong [OF im])
          show "same_index (hp_index (hw_heap w)) (hp_index (hw_heap ?w3))" using ins(4) h3 by simp
          show "adaptive_view (hp_index (hw_heap ?w3), hw_mem ?w3) = adaptive_view (hp_index (hw_heap w), hw_mem w)"
            using ins(5) False im h3 by (simp add: index_maps_def upd_heap_def)
        qed (simp_all add: h3)
        moreover have "claim_frame w ?w3"
          unfolding claim_frame_def h3 by (simp add: w1(1) upd_heap_def heap_rest_def)
        moreover have "mem_ok E live mapped M fr (hp_index (hw_heap ?w3)) (hw_mem ?w3)"
          using mem' h3 by (simp add: upd_heap_def)
        ultimately show ?thesis by (simp add: h3)
      next
        case True
        let ?w4 = "upd_heap (\<lambda>h. h\<lparr>hp_class_table := (hp_class_table h)[unat (hp_next_span h) := of_nat k],
                     hp_spans := ?b, hp_next_span := hp_next_span h + 1,
                     hp_committed_spans := hp_committed_spans h + 1\<rparr>) ?w3"
        define h4 where "h4 = ?h\<lparr>hp_committed_bytes := cb, hp_index := ix',
            hp_class_table := (hp_class_table ?h)[?j := of_nat k], hp_spans := ?b,
            hp_next_span := hp_next_span ?h + 1, hp_committed_spans := hp_committed_spans ?h + 1\<rparr>"
        have h4: "hw_heap ?w4 = h4" by (simp add: h3 [unfolded upd_heap_def, simplified] upd_heap_def h4_def w1(1))
        have "memx_heap_claim_span E k 64 (block_stride k) block_count w = Some (?b, ?w4)"
          using run True A(9) j by (simp add: h3)
        moreover have "index_maps ?w4"
        proof -
          have "index_fits h4" using fit same_index_fields [OF ins(4)] by (simp add: index_fits_def h4_def)
          moreover have "adaptive_view (ix', m') = span_map h4"
            using ins(5) True span_map_put [OF ar j, of h4] by (simp add: h4_def)
          ultimately show ?thesis unfolding index_maps_def h4 by (simp add: h4_def upd_heap_def)
        qed
        moreover have "claim_frame w ?w4"
          unfolding claim_frame_def h4 by (simp add: w1(1) upd_heap_def heap_rest_def h4_def)
        moreover have "mem_ok E live mapped M fr (hp_index (hw_heap ?w4)) (hw_mem ?w4)"
          using mem' unfolding h4 by (simp add: h4_def upd_heap_def)
        moreover have "claimed w k ?w4"
        proof -
          have cls: "span_class h4 ?j = k"
            using A(9) j k by (simp add: span_class_def h4_def unat_of_nat)
          have "span_ok h4 (hw_spans ?w4) ?j"
            unfolding span_ok_def cls using k bc
            by (simp add: h4_def upd_heap_def sp'_def span_start_def blocks_in_def unat_of_nat)
          then show ?thesis unfolding claimed_def Let_def h4 by (simp add: h4_def upd_heap_def sp'_def)
        qed
        ultimately show ?thesis using V(2) j by simp
      qed
    qed
  qed
qed

end
