(* ===== verification/Memx_Refill.thy ===== *)
theory Memx_Refill
  imports Memx_Spans
begin

text \<open>
  Making a span and filling a cache from a central bin: the whole small-object path below
  allocation, with the layout of spans, the index and the pool kept in step.
\<close>

section \<open>What the small-object path keeps\<close>

definition in_arena :: "'c memx_heap \<Rightarrow> u64 \<Rightarrow> bool" where
  "in_arena h p \<longleftrightarrow> arena_start h \<le> unat p \<and> unat p < arena_start h + unat (snd (hp_arena h))"

definition core :: "'c memx_heap \<Rightarrow> u64 \<times> memx_heap_config \<times> (u64 \<times> u64) \<times> u64 \<times> u64 \<times> u64 \<times> (u64 \<times> u64 \<times> u64) \<times> u64 \<times> u64" where
  "core h = (hp_self h, hp_config h, hp_arena h, hp_span_size h, hp_span_capacity h, hp_span_classes h,
     (hp_large_buckets h, hp_large_bucket_count h, hp_large_count h), hp_caches h, hp_exclusive_cache h)"

lemma coreD:
  assumes "core h' = core h"
  shows "hp_self h' = hp_self h" "hp_config h' = hp_config h" "hp_arena h' = hp_arena h"
    "hp_span_size h' = hp_span_size h" "hp_span_capacity h' = hp_span_capacity h"
    "hp_span_classes h' = hp_span_classes h" "hp_large_buckets h' = hp_large_buckets h"
    "hp_large_bucket_count h' = hp_large_bucket_count h" "hp_large_count h' = hp_large_count h"
    "hp_caches h' = hp_caches h" "hp_exclusive_cache h' = hp_exclusive_cache h"
  using assms by (simp_all add: core_def)

lemma core_skel: "heap_skel h' = heap_skel h \<Longrightarrow> core h' = core h"
proof -
  assume "heap_skel h' = heap_skel h"
  note H = heap_skelD [OF this]
  show ?thesis unfolding core_def H ..
qed

lemma core_rest: "heap_rest h' = heap_rest h \<Longrightarrow> core h' = core h"
proof -
  assume "heap_rest h' = heap_rest h"
  note H = heap_restD [OF this]
  show ?thesis unfolding core_def H ..
qed

text \<open>Live blocks and their payloads, and payloads outside the arena, stay as they are; blocks are
  only added, and added free.\<close>

definition small_frame :: "'c heap_world \<Rightarrow> 'c heap_world \<Rightarrow> bool" where
  "small_frame w w' \<longleftrightarrow> core (hw_heap w') = core (hw_heap w) \<and> hw_larges w' = hw_larges w
     \<and> hw_tls w' = hw_tls w \<and> hw_tls_last w' = hw_tls_last w
     \<and> (\<forall>c. map_option cache_skel (hw_caches w' c) = map_option cache_skel (hw_caches w c))
     \<and> (\<forall>x. bstate (hw_blocks w) x \<noteq> None \<longrightarrow> bstate (hw_blocks w') x = bstate (hw_blocks w) x)
     \<and> (\<forall>x. bstate (hw_blocks w) x = None \<longrightarrow> bstate (hw_blocks w') x \<in> {None, Some 0})
     \<and> (\<forall>x s. bstate (hw_blocks w) x = Some s \<longrightarrow> s \<noteq> 0 \<longrightarrow> hw_blocks w' x = hw_blocks w x
          \<and> hw_bytes w' (x + sizeof_block) = hw_bytes w (x + sizeof_block))
     \<and> (\<forall>p. \<not> in_arena (hw_heap w) p \<longrightarrow> hw_bytes w' p = hw_bytes w p)"

lemma small_frame_refl [simp]: "small_frame w w"
  by (auto simp: small_frame_def)

lemma small_frame_trans:
  assumes a: "small_frame w w'" and b: "small_frame w' w''"
  shows "small_frame w w''"
proof -
  have ar: "in_arena (hw_heap w') p = in_arena (hw_heap w) p" for p
    using a coreD(3) [of "hw_heap w'" "hw_heap w"] by (simp add: small_frame_def in_arena_def)
  have s: "bstate (hw_blocks w'') x \<in> {None, Some 0}" if "bstate (hw_blocks w) x = None" for x
    using a b that unfolding small_frame_def by (metis insertE singletonD insertI1 insert_iff)
  have l: "hw_blocks w'' x = hw_blocks w x \<and> hw_bytes w'' (x + sizeof_block) = hw_bytes w (x + sizeof_block)"
    if "bstate (hw_blocks w) x = Some s" "s \<noteq> 0" for x s
  proof -
    have "bstate (hw_blocks w') x = Some s" using a that unfolding small_frame_def by (metis option.distinct(1))
    then show ?thesis using a b that unfolding small_frame_def by metis
  qed
  show ?thesis
    unfolding small_frame_def
  proof (intro conjI allI impI)
    show "bstate (hw_blocks w'') x = bstate (hw_blocks w) x" if "bstate (hw_blocks w) x \<noteq> None" for x
      using a b that unfolding small_frame_def by metis
    show "hw_bytes w'' p = hw_bytes w p" if "\<not> in_arena (hw_heap w) p" for p
      using a b ar that unfolding small_frame_def by metis
  qed (use a b s l in \<open>auto simp: small_frame_def\<close>)
qed

lemma block_in_arena:
  assumes "spans_ok w" "hw_blocks w x \<noteq> None"
  shows "in_arena (hw_heap w) (x + sizeof_block)" "in_arena (hw_heap w) x" "16 dvd unat x"
    "unat (x + sizeof_block) = unat x + 16"
    "\<exists>j i. j < unat (hp_next_span (hw_heap w)) \<and> span_class (hw_heap w) j < 19
       \<and> i < blocks_in (hw_heap w) (span_class (hw_heap w) j) \<and> x = block_start (hw_heap w) (span_class (hw_heap w) j) j i"
proof -
  let ?h = "hw_heap w"
  note ar = spans_okD(1) [OF assms(1)]
  obtain j i where x: "j < unat (hp_next_span ?h)" "i < blocks_in ?h (span_class ?h j)" "x = block_start ?h (span_class ?h j) j i"
  proof -
    have "x \<in> dom (hw_blocks w)" using assms(2) by auto
    then show thesis using that unfolding spans_okD(3) [OF assms(1)] blocks_at_def by auto
  qed
  have k: "span_class ?h j < 19" using spans_okD(2) [OF assms(1) x(1)] by (simp add: span_ok_def)
  then show "\<exists>j i. j < unat (hp_next_span ?h) \<and> span_class ?h j < 19
       \<and> i < blocks_in ?h (span_class ?h j) \<and> x = block_start ?h (span_class ?h j) j i" using x by blast
  have j: "j < unat (hp_span_capacity ?h)" using x(1) arena_okD(10) [OF ar] by simp
  note u = block_start_unat(1) [OF ar j k x(2), folded x(3)] and r = span_room [OF ar j] block_room [OF k x(2)]
    and A = arena_okD [OF ar] and st = stride_facts(4) [OF k]
  show "16 dvd unat x" unfolding x(3) by (rule block_aligned [OF ar j k x(2)])
  have lt: "unat x + 16 < arena_start ?h + unat (snd (hp_arena ?h))" using u r st by linarith
  then show p: "unat (x + sizeof_block) = unat x + 16"
    using unat_add_exact [of x 16] A(8) by (simp add: sizeof_block_def)
  show "in_arena ?h x" "in_arena ?h (x + sizeof_block)" using lt u by (simp_all add: in_arena_def p)
qed

lemma small_frame_moved:
  assumes "spans_ok w" "moved w w'"
  shows "small_frame w w'"
proof -
  have b: "hw_bytes w' p = hw_bytes w p" if "\<not> in_arena (hw_heap w) p" for p
  proof -
    have "hw_blocks w (p - sizeof_block) = None"
      by (rule ccontr) (use block_in_arena(1) [OF assms(1), of "p - sizeof_block"] that in simp)
    then have "bstate (hw_blocks w) (p - sizeof_block) \<noteq> Some 0" by (simp add: bstate_def)
    then have "hw_bytes w' (p - sizeof_block + sizeof_block) = hw_bytes w (p - sizeof_block + sizeof_block)"
      using assms(2) unfolding moved_def by blast
    then show ?thesis by simp
  qed
  show ?thesis
    using assms(2) b core_skel unfolding moved_def small_frame_def by auto
qed

text \<open>Everything but the pool, when the pool moves.\<close>

lemma spans_ok_cong:
  assumes sp: "spans_ok w" and core: "core (hw_heap w') = core (hw_heap w)"
    and h: "hp_next_span (hw_heap w') = hp_next_span (hw_heap w)" "hp_class_table (hw_heap w') = hp_class_table (hw_heap w)"
    and s: "\<And>j. j < unat (hp_next_span (hw_heap w)) \<Longrightarrow>
      hw_spans w' (span_start (hw_heap w) j) = hw_spans w (span_start (hw_heap w) j)"
    and d: "dom (hw_blocks w') = dom (hw_blocks w)"
  shows "spans_ok w'"
proof -
  note C = coreD [OF core]
  have ss: "span_start (hw_heap w') j = span_start (hw_heap w) j" "span_class (hw_heap w') j = span_class (hw_heap w) j"
      "blocks_in (hw_heap w') k = blocks_in (hw_heap w) k" for j k
    by (simp_all add: span_start_def span_class_def blocks_in_def C h)
  have ba: "blocks_at (hw_heap w') j = blocks_at (hw_heap w) j" for j
    by (simp add: blocks_at_def block_start_def ss)
  have "span_ok (hw_heap w') (hw_spans w') j" if "j < unat (hp_next_span (hw_heap w))" for j
    using spans_okD(2) [OF sp that] s [OF that] by (simp add: span_ok_def ss C)
  then show ?thesis
    using spans_okD(1,3) [OF sp] d unfolding spans_ok_def ba arena_ok_def C h by simp
qed

lemma class_of_cong:
  assumes "core (hw_heap w') = core (hw_heap w)" "hp_class_table (hw_heap w') = hp_class_table (hw_heap w)"
  shows "class_of (hw_heap w') = class_of (hw_heap w)"
  using coreD [OF assms(1)] assms(2) by (simp add: class_of_def span_class_def span_of_def fun_eq_iff)

lemma moved_spans:
  assumes "spans_ok w" "moved w w'"
  shows "spans_ok w'" "class_of (hw_heap w') = class_of (hw_heap w)" "index_maps w \<Longrightarrow> index_maps w'"
    "mem_ok E live mapped M fr (hp_index (hw_heap w)) (hw_mem w) \<Longrightarrow>
     mem_ok E live mapped M fr (hp_index (hw_heap w')) (hw_mem w')"
proof -
  have m: "heap_skel (hw_heap w') = heap_skel (hw_heap w)" "hw_spans w' = hw_spans w" "hw_mem w' = hw_mem w"
    "\<And>x. bstate (hw_blocks w') x = bstate (hw_blocks w) x" using assms(2) by (simp_all add: moved_def)
  note H = heap_skelD [OF m(1)]
  have d: "dom (hw_blocks w') = dom (hw_blocks w)"
  proof -
    have "hw_blocks w' x = None \<longleftrightarrow> hw_blocks w x = None" for x
      using m(4) [of x] unfolding bstate_def by (metis map_option_is_None)
    then show ?thesis by (simp add: dom_def)
  qed
  show "spans_ok w'" by (rule spans_ok_cong [OF assms(1) core_skel [OF m(1)] H(6,8) _ d]) (simp add: m(2))
  show "class_of (hw_heap w') = class_of (hw_heap w)" by (rule class_of_cong [OF core_skel [OF m(1)] H(8)])
  show "index_maps w'" if "index_maps w"
    by (rule index_maps_cong [OF that]) (simp_all add: H m(3))
  show "mem_ok E live mapped M fr (hp_index (hw_heap w')) (hw_mem w')"
    if "mem_ok E live mapped M fr (hp_index (hw_heap w)) (hw_mem w)" using that by (simp add: H m(3))
qed

section \<open>The invariant of the small-object path\<close>

definition small_inv ::
  "'c heap_env \<Rightarrow> ('c \<Rightarrow> u64 set) \<Rightarrow> ('c \<Rightarrow> nat set) \<Rightarrow> nat set \<Rightarrow> (u64 \<rightharpoonup> memx_object) \<Rightarrow> lists
     \<Rightarrow> (nat \<Rightarrow> u64 list) \<Rightarrow> 'c heap_world \<Rightarrow> bool" where
  "small_inv E live mapped M fr fl heads w \<longleftrightarrow> spans_ok w \<and> index_maps w
     \<and> mem_ok E live mapped M fr (hp_index (hw_heap w)) (hw_mem w)
     \<and> bins_part (class_of (hw_heap w)) fl heads w
     \<and> hc_cache_batch (hp_config (hw_heap w)) \<noteq> 0 \<and> unat (hc_cache_batch (hp_config (hw_heap w))) \<le> 4294967295"

lemma small_invD:
  assumes "small_inv E live mapped M fr fl heads w"
  shows "spans_ok w" "index_maps w" "mem_ok E live mapped M fr (hp_index (hw_heap w)) (hw_mem w)"
    "bins_part (class_of (hw_heap w)) fl heads w" "hc_cache_batch (hp_config (hw_heap w)) \<noteq> 0"
    "unat (hc_cache_batch (hp_config (hw_heap w))) \<le> 4294967295"
  using assms by (simp_all add: small_inv_def)

lemma small_inv_moved:
  assumes "small_inv E live mapped M fr fl heads w" "moved w w'" "bins_part (class_of (hw_heap w)) fl' heads' w'"
  shows "small_inv E live mapped M fr fl' heads' w'"
proof -
  note I = small_invD [OF assms(1)]
  show ?thesis
    using moved_spans [OF I(1) assms(2)] I assms(3) moved_config [OF assms(2)] by (simp add: small_inv_def)
qed

lemma bins_part_class:
  assumes inv: "bins_part cl fl heads w" and cl: "\<And>x. hw_blocks w x \<noteq> None \<Longrightarrow> cl' x = cl x"
  shows "bins_part cl' fl heads w"
proof -
  have l: "cl' x = cl x" if "x \<in> set (fl P)" for x P
    by (rule cl) (use lists_okD(4) [OF bins_partD(1) [OF inv] that] in \<open>auto simp: bstate_def\<close>)
  have "lists_ok cl' (hw_blocks w) fl"
    using bins_partD(1) [OF inv] l unfolding lists_ok_def by metis
  moreover have "payloads_ok cl' (hw_blocks w) (hw_bytes w)"
    using bins_partD(2) [OF inv] cl by (simp add: payloads_ok_def)
  ultimately show ?thesis using inv by (simp add: bins_part_def)
qed

lemma chunk_limit:
  assumes "small_inv E live mapped M fr fl heads w"
  shows "min (hc_cache_batch (hp_config (hw_heap w))) (hc_cache_limit (hp_config (hw_heap w))) \<noteq> 0"
    "unat (min (hc_cache_batch (hp_config (hw_heap w))) (hc_cache_limit (hp_config (hw_heap w)))) \<le> chunk_cap w"
proof -
  note I = small_invD [OF assms]
  let ?b = "hc_cache_batch (hp_config (hw_heap w))" and ?l = "hc_cache_limit (hp_config (hw_heap w))"
  have u: "unat (min ?b ?l) = min (unat ?b) (unat ?l)" by (simp add: min_def word_le_nat_alt)
  have l: "2 \<le> unat ?l" using bins_partD(5) [OF I(4)] by (simp add: cache_cap_def)
  show "min ?b ?l \<noteq> 0" using l I(5) by (auto simp: min_def)
  show "unat (min ?b ?l) \<le> chunk_cap w" unfolding u chunk_cap_def cache_cap_def using I(6) by simp
qed

section \<open>Making a span\<close>

lemma dom_bstate: "dom B = {x. bstate B x \<noteq> None}"
  by (auto simp: bstate_def)

lemma dom_grown: "(\<And>x. bstate B' x = (if x \<in> N then Some 0 else bstate B x)) \<Longrightarrow> dom B' = dom B \<union> N"
  by (auto simp: dom_bstate)

lemma create_span_ok:
  assumes c: "env_contract E live mapped" and inv: "small_inv E live mapped M fr fl heads w"
    and h: "fl (Hand k) = []" and k: "k < 19"
  shows "\<exists>ok w' fl' heads'. memx_heap_create_span_locked E k w = Some (ok, w')
    \<and> small_inv E live mapped M fr fl' heads' w' \<and> small_frame w w' \<and> hw_caches w' = hw_caches w
    \<and> (\<forall>P. \<not> in_bin P \<longrightarrow> fl' P = fl P) \<and> (ok \<longrightarrow> hp_central (hw_heap w') k \<noteq> 0)"
proof -
  note I = small_invD [OF inv]
  let ?h = "hw_heap w"
  let ?j = "unat (hp_next_span ?h)" and ?s = "block_stride k"
  note ar = spans_okD(1) [OF I(1)] and A = arena_okD [OF spans_okD(1) [OF I(1)]]
  define bc where "bc = (hp_span_size ?h - 64) div ?s"
  have u64: "unat (64 :: u64) = 64" by simp
  have le64: "64 \<le> hp_span_size ?h" using A(3,4) by (simp add: word_le_nat_alt)
  have bc: "unat bc = blocks_in ?h k"
    using unat_sub [OF le64] A(3) by (simp add: bc_def unat_div blocks_in_def)
  have bc0: "bc \<noteq> 0" using bc blocks_in_pos [OF ar k] by auto
  have guard: "\<not> (span_header_size = 0 \<or> ?s = 0 \<or> hp_span_size ?h \<le> span_header_size)"
    using stride_facts(4) [OF k] A(3,4) by (auto simp: word_le_nat_alt)
  obtain p w1 where cl: "memx_heap_claim_span E k 64 ?s bc w = Some (p, w1)" "claim_frame w w1" "index_maps w1"
    "mem_ok E live mapped M fr (hp_index (hw_heap w1)) (hw_mem w1)"
    "if p = 0 then hp_next_span (hw_heap w1) = hp_next_span ?h
          \<and> hp_class_table (hw_heap w1) = hp_class_table ?h \<and> hp_spans (hw_heap w1) = hp_spans ?h
       else p = span_start ?h ?j \<and> ?j < unat (hp_span_capacity ?h) \<and> claimed w k w1"
    using claim_ok [OF c I(1-3) k bc] by blast
  have F: "heap_rest (hw_heap w1) = heap_rest ?h" "hw_blocks w1 = hw_blocks w" "hw_bytes w1 = hw_bytes w"
      "hw_larges w1 = hw_larges w" "hw_caches w1 = hw_caches w" "hw_tls w1 = hw_tls w" "hw_tls_last w1 = hw_tls_last w"
    using cl(2) by (simp_all add: claim_frame_def)
  note R = heap_restD [OF F(1)] and C1 = core_rest [OF F(1)]
  have sf1: "small_frame w w1" using F C1 by (auto simp: small_frame_def)
  have sp1: "hw_spans w1 (span_start ?h j) = hw_spans w (span_start ?h j)" if "j < ?j" for j
  proof -
    have "span_start ?h j \<noteq> span_start ?h ?j"
      using span_start_inj [OF ar, of j ?j] that A(10) by auto
    then show ?thesis using cl(2) by (simp add: claim_frame_def)
  qed
  show ?thesis
  proof (cases "p = 0")
    case True
    have n: "hp_next_span (hw_heap w1) = hp_next_span ?h" "hp_class_table (hw_heap w1) = hp_class_table ?h"
      using cl(5) True by simp_all
    have "spans_ok w1" by (rule spans_ok_cong [OF I(1) C1 n sp1]) (simp_all add: F)
    moreover have "bins_part (class_of (hw_heap w1)) fl heads w1"
      unfolding class_of_cong [OF C1 n(2)] by (rule bins_part_cong [OF I(4)]) (simp_all add: F R)
    ultimately have "small_inv E live mapped M fr fl heads w1"
      using cl(3,4) I(5,6) by (simp add: small_inv_def R)
    moreover have "memx_heap_create_span_locked E k w = Some (False, w1)"
      unfolding memx_heap_create_span_locked_def Let_def if_not_P [OF guard]
      unfolding header_64 bc_def [symmetric]
      using bc0 cl(1) True by simp
    ultimately show ?thesis using sf1 F(5) by blast
  next
    case False
    have p: "p = span_start ?h ?j" "?j < unat (hp_span_capacity ?h)" and cd: "claimed w k w1" using cl(5) False by auto
    let ?h1 = "hw_heap w1"
    have j1: "unat (hp_next_span ?h1) = ?j + 1"
      using cd unat_inc [OF p(2)] by (simp add: claimed_def Let_def)
    have tab: "hp_class_table ?h1 = (hp_class_table ?h)[?j := of_nat k]" using cd by (simp add: claimed_def Let_def)
    have cls: "span_class ?h1 ?j = k" "\<And>j. j \<noteq> ?j \<Longrightarrow> span_class ?h1 j = span_class ?h j"
      using A(9) p(2) k by (simp_all add: span_class_def tab unat_of_nat)
    have ss: "span_start ?h1 j = span_start ?h j" "span_of ?h1 x = span_of ?h x" "blocks_in ?h1 k' = blocks_in ?h k'"
      "block_start ?h1 k' j i = block_start ?h k' j i" for j x k' i
      by (simp_all add: span_start_def span_of_def blocks_in_def block_start_def R)
    have sok: "span_ok ?h1 (hw_spans w1) ?j" using cd by (simp add: claimed_def Let_def)
    then obtain s where s: "hw_spans w1 p = Some s" "sp_base s = span_start ?h ?j + 64"
      by (auto simp: span_ok_def ss p(1))
    have bins1: "bins_part (class_of ?h1) fl heads w1"
    proof (rule bins_part_class)
      show "bins_part (class_of ?h) fl heads w1" by (rule bins_part_cong [OF I(4)]) (simp_all add: F R)
      fix x assume "hw_blocks w1 x \<noteq> None"
      then obtain j i where x: "j < ?j" "span_class ?h j < 19" "i < blocks_in ?h (span_class ?h j)"
          "x = block_start ?h (span_class ?h j) j i"
        using block_in_arena(5) [OF I(1), of x] unfolding F(2) by blast
      have "span_of ?h x = j" unfolding x(4) using block_start_unat(2) [OF ar _ x(2,3)] x(1) A(10) by simp
      then show "class_of ?h1 x = class_of ?h x" using x(1) cls(2) by (simp add: class_of_def ss)
    qed
    let ?a = "\<lambda>i. span_start ?h ?j + 64 + of_nat i * ?s"
    have a: "?a i = block_start ?h k ?j i" for i by (simp add: block_start_def)
    have fresh: "hw_blocks w1 (?a i) = None \<and> ?a i \<noteq> 0 \<and> class_of ?h1 (?a i) = k" if i: "i < blocks_in ?h k" for i
    proof (intro conjI)
      note u = block_start_unat [OF ar p(2) k i]
      show "hw_blocks w1 (?a i) = None"
      proof (rule ccontr)
        assume "hw_blocks w1 (?a i) \<noteq> None"
        then obtain j' i' where x: "j' < ?j" "span_class ?h j' < 19" "i' < blocks_in ?h (span_class ?h j')"
            "?a i = block_start ?h (span_class ?h j') j' i'"
          using block_in_arena(5) [OF I(1), of "?a i"] unfolding F(2) by blast
        have "?j = j'"
          by (rule block_start_inj(1) [OF ar k p(2) i _ x(2,3)]) (use x(1,4) A(10) a in simp_all)
        then show False using x(1) by simp
      qed
      have "unat (?a i) \<noteq> 0" unfolding a u(1) by simp
      then show "?a i \<noteq> 0" by (metis unat_0)
      show "class_of ?h1 (?a i) = k" unfolding class_of_def ss a u(2) by (rule cls(1))
    qed
    have inj: "inj_on ?a {0 ..< 0 + blocks_in ?h k}"
    proof (rule inj_onI)
      fix x y assume "x \<in> {0 ..< 0 + blocks_in ?h k}" "y \<in> {0 ..< 0 + blocks_in ?h k}" "?a x = ?a y"
      then show "x = y" using block_start_inj(2) [OF ar k p(2) _ p(2) k _ _ refl, of x y] a by simp
    qed
    define L where "L = min (hc_cache_batch (hp_config ?h)) (hc_cache_limit (hp_config ?h))"
    have L: "L \<noteq> 0" "unat L \<le> chunk_cap w1"
      using chunk_limit [OF inv] by (simp_all add: L_def chunk_cap_def cache_cap_def R)
    obtain w2 fl2 heads2 where cv: "carve_blocks k (span_start ?h ?j + 64) ?s L (of_nat 0) (blocks_in ?h k) 0 0 0 w1 = Some w2"
      "bins_part (class_of ?h1) fl2 heads2 w2" "grew (?a ` {0 ..< 0 + blocks_in ?h k}) w1 w2" "hw_caches w2 = hw_caches w1"
      "\<forall>P. \<not> in_bin P \<longrightarrow> fl2 P = (fl(Hand k := [])) P" "hp_central (hw_heap w2) k \<noteq> 0"
      using carve_ok [OF bins1 k _ inj L, of 0 0 0] fresh h L(1) blocks_in_pos [OF ar k] by (auto simp: unat_gt_0)
    let ?N = "?a ` {0 ..< 0 + blocks_in ?h k}"
    have G: "hw_mem w2 = hw_mem w1" "hw_spans w2 = hw_spans w1" "heap_skel (hw_heap w2) = heap_skel ?h1"
      "\<And>x. bstate (hw_blocks w2) x = (if x \<in> ?N then Some 0 else bstate (hw_blocks w1) x)"
      using cv(3) by (simp_all add: grew_def)
    note S = heap_skelD [OF G(3)] and C2 = core_skel [OF G(3)]
    have N: "?N = blocks_at ?h1 ?j" by (auto simp: blocks_at_def cls ss a)
    have dom2: "dom (hw_blocks w2) = dom (hw_blocks w) \<union> ?N"
      using dom_grown [of "hw_blocks w2" ?N "hw_blocks w1", OF G(4)] by (simp only: F(2))
    have ba: "blocks_at ?h1 j = blocks_at ?h j" if "j < ?j" for j
      using that by (simp add: blocks_at_def cls(2) ss)
    have spans1: "spans_ok w2"
      unfolding spans_ok_def
    proof (intro conjI allI impI)
      note C = coreD [OF C2] coreD [OF C1]
      have ss2: "span_start (hw_heap w2) = span_start ?h1" "span_class (hw_heap w2) = span_class ?h1"
        "blocks_in (hw_heap w2) = blocks_in ?h1" "blocks_at (hw_heap w2) = blocks_at ?h1"
        by (simp_all add: span_start_def span_class_def blocks_in_def blocks_at_def block_start_def S fun_eq_iff)
      have so2: "span_ok (hw_heap w2) S' = span_ok ?h1 S'" for S'
        by (simp add: span_ok_def ss2 S fun_eq_iff)
      show "arena_ok (hw_heap w2)"
        using A p(2) unfolding arena_ok_def S R tab j1 by simp
      show "span_ok (hw_heap w2) (hw_spans w2) j" if "j < unat (hp_next_span (hw_heap w2))" for j
      proof (cases "j = ?j")
        case True
        then show ?thesis unfolding so2 G(2) using sok by simp
      next
        case False
        then have j: "j < ?j" using that unfolding S j1 by simp
        show ?thesis
          using spans_okD(2) [OF I(1) j] cls(2) [OF False] sp1 [OF j]
          unfolding so2 G(2) by (simp add: span_ok_def ss R)
      qed
      have "dom (hw_blocks w2) = (\<Union>j<?j. blocks_at ?h j) \<union> blocks_at ?h1 ?j"
        using dom2 spans_okD(3) [OF I(1)] N by simp
      also have "(\<Union>j<?j. blocks_at ?h j) = (\<Union>j<?j. blocks_at ?h1 j)" using ba by simp
      finally show "dom (hw_blocks w2) = (\<Union>j<unat (hp_next_span (hw_heap w2)). blocks_at (hw_heap w2) j)"
        unfolding S j1 ss2 by (auto simp: less_Suc_eq)
    qed
    have small2: "small_inv E live mapped M fr fl2 heads2 w2"
      unfolding small_inv_def
    proof (intro conjI)
      show "index_maps w2" by (rule index_maps_cong [OF cl(3)]) (simp_all add: S G)
      show "mem_ok E live mapped M fr (hp_index (hw_heap w2)) (hw_mem w2)" using cl(4) by (simp add: S G)
      show "bins_part (class_of (hw_heap w2)) fl2 heads2 w2"
        unfolding class_of_cong [OF C2 S(8)] by (rule cv(2))
      show "hc_cache_batch (hp_config (hw_heap w2)) \<noteq> 0" "unat (hc_cache_batch (hp_config (hw_heap w2))) \<le> 4294967295"
        using I(5,6) by (simp_all add: S R)
    qed (rule spans1)
    have sf2: "small_frame w1 w2"
    proof -
      have out: "hw_bytes w2 q = hw_bytes w1 q" if q: "\<not> in_arena ?h1 q" for q
      proof -
        have "q - sizeof_block \<notin> dom (hw_blocks w2)"
          using block_in_arena(1) [OF spans1, of "q - sizeof_block"] q by (auto simp: in_arena_def S)
        then have "q - sizeof_block \<notin> ?N" "bstate (hw_blocks w1) (q - sizeof_block) \<noteq> Some 0"
          using dom2 F(2) by (auto simp: bstate_def)
        then have "hw_bytes w2 (q - sizeof_block + sizeof_block) = hw_bytes w1 (q - sizeof_block + sizeof_block)"
          using cv(3) unfolding grew_def by blast
        then show ?thesis by simp
      qed
      have nN: "x \<notin> ?N" if "bstate (hw_blocks w1) x \<noteq> None" for x
        using fresh that by (auto simp: bstate_def)
      show ?thesis
        using cv(3) C2 out nN unfolding grew_def small_frame_def by auto
    qed
    have "memx_heap_create_span_locked E k w = Some (True, w2)"
      unfolding memx_heap_create_span_locked_def Let_def if_not_P [OF guard]
      unfolding header_64 bc_def [symmetric]
      using bc0 cl(1) False s cv(1) bc by (simp add: L_def)
    moreover have "\<forall>P. \<not> in_bin P \<longrightarrow> fl2 P = fl P" using cv(5) h by auto
    ultimately show ?thesis using small2 small_frame_trans [OF sf1 sf2] cv(4,6) F(5) by auto
  qed
qed

section \<open>Filling a cache\<close>

lemma small_settled:
  assumes "small_inv E live mapped M fr fl heads w" "settled (class_of (hw_heap w)) w gl Ps T w' fl' heads'"
  shows "small_inv E live mapped M fr fl' heads' w'" "small_frame w w'"
  using small_inv_moved [OF assms(1) settledD(2,1) [OF assms(2)]]
    small_frame_moved [OF small_invD(1) [OF assms(1)] settledD(2) [OF assms(2)]] by simp_all

lemma stocked_head:
  assumes "stocked fl c k w" "hw_caches w c = Some r"
  shows "ch_local r k = hd (fl (Local c k))"
  using assms by (auto simp: stocked_def cache_lists_def segment_def dest: own_cacheD(1))

lemma local_empty_iff:
  assumes "bins_part cl fl heads w" "caches_part fl {} w" "own_cache w c = Some r"
  shows "ch_local r k = 0 \<longleftrightarrow> fl (Local c k) = []"
proof -
  have "ch_local r k = hd0 (fl (Local c k))"
    using caches_partD(4) [OF assms(2,3), of k] by (simp add: cache_ok_def cache_lists_def segment_def)
  then show ?thesis using list_nonzero [OF assms(1), of "Local c k"] by (cases "fl (Local c k)") auto
qed

text \<open>Statistics of a cache.\<close>

lemma cache_stat_ok:
  assumes inv: "small_inv E live mapped M fr fl heads w" "caches_part fl X w" and r: "own_cache w c = Some r"
    and r': "cache_skel r' = cache_skel r" "\<And>j. same_class r r' j"
  defines "w' \<equiv> w\<lparr>hw_caches := (hw_caches w)(c \<mapsto> r')\<rparr>"
  shows "small_inv E live mapped M fr fl heads w'" "caches_part fl X w'" "small_frame w w'" "own_cache w' c = Some r'"
proof -
  have m: "moved w w'" unfolding w'_def by (rule moved_cache [OF own_cacheD(1) [OF r] r'(1)])
  have o: "own_cache w' = (own_cache w)(c \<mapsto> r')"
    unfolding w'_def by (rule own_cache_set [OF r]) (use r'(1) in \<open>simp add: cache_skel_def\<close>)
  show "own_cache w' c = Some r'" by (simp add: o)
  show "small_inv E live mapped M fr fl heads w'"
    by (rule small_inv_moved [OF inv(1) m bins_part_cong [OF small_invD(4) [OF inv(1)]]]) (simp_all add: w'_def)
  show "caches_part fl X w'" by (rule caches_part_cong [OF inv(2) r o _ r'(2)]) (simp add: w'_def)
  show "small_frame w w'" by (rule small_frame_moved [OF small_invD(1) [OF inv(1)] m])
qed

lemma small_frame_own:
  assumes "small_frame w w'" "own_cache w c = Some r"
  shows "\<exists>r'. own_cache w' c = Some r'"
proof -
  have e: "map_option cache_skel (hw_caches w' c) = map_option cache_skel (hw_caches w c)"
    and s: "hp_self (hw_heap w') = hp_self (hw_heap w)"
    using assms(1) coreD(1) by (auto simp: small_frame_def)
  from e own_cacheD(1) [OF assms(2)] obtain r' where r': "hw_caches w' c = Some r'" "cache_skel r' = cache_skel r" by auto
  then show ?thesis using s own_cacheD(2) [OF assms(2)] by (auto simp: own_cache_def cache_skel_def)
qed

definition refilled ::
  "'c heap_env \<Rightarrow> ('c \<Rightarrow> u64 set) \<Rightarrow> ('c \<Rightarrow> nat set) \<Rightarrow> nat set \<Rightarrow> (u64 \<rightharpoonup> memx_object) \<Rightarrow> lists \<Rightarrow> u64 \<Rightarrow> nat
     \<Rightarrow> 'c heap_world \<Rightarrow> u64 \<Rightarrow> 'c heap_world \<Rightarrow> bool" where
  "refilled E live mapped M fr fl c k w x w' \<longleftrightarrow> (\<exists>fl' heads'. small_inv E live mapped M fr fl' heads' w'
     \<and> small_frame w w' \<and> (\<forall>j. fl' (Hand j) = fl (Hand j))
     \<and> (if x = 0 then caches_part fl' {} w' else stocked fl' c k w' \<and> x = hd (fl' (Local c k))))"

lemma refilledI:
  assumes inv: "small_inv E live mapped M fr fl' heads' w'" and "small_frame w w'" "\<And>j. fl' (Hand j) = fl (Hand j)"
    and st: "stocked fl' c k w'" "hw_caches w' c = Some r"
  shows "refilled E live mapped M fr fl c k w (ch_local r k) w'" "ch_local r k \<noteq> 0"
proof -
  have x: "ch_local r k = hd (fl' (Local c k))" by (rule stocked_head [OF st])
  show n: "ch_local r k \<noteq> 0"
    unfolding x using list_nonzero [OF small_invD(4) [OF inv], of "Local c k"] st(1)
    by (metis hd_in_set stocked_def)
  show "refilled E live mapped M fr fl c k w (ch_local r k) w'"
    unfolding refilled_def using assms n x by auto
qed

lemma stocked_own: "stocked fl c k w \<Longrightarrow> \<exists>r. own_cache w c = Some r"
  by (auto simp: stocked_def)

lemma refill_ok:
  assumes c: "env_contract E live mapped" and inv: "small_inv E live mapped M fr fl heads w" "caches_part fl {} w"
    and r: "own_cache w c = Some r" and e: "fl (Local c k) = []" and h: "\<And>j. fl (Hand j) = []" and k: "k < 19"
  shows "\<exists>x w'. memx_heap_refill E c k w = Some (x, w') \<and> refilled E live mapped M fr fl c k w x w'"
proof -
  note B = small_invD(4)
  obtain w1 fl1 heads1 where a: "memx_heap_adopt_spare c k w = Some (fl (Spare c k) \<noteq> [], w1)"
    "settled (class_of (hw_heap w)) w fl {Local c k, Spare c k} {} w1 fl1 heads1"
    "if fl (Spare c k) = [] then w1 = w \<and> fl1 = fl else stocked fl1 c k w1"
    using adopt_ok [OF B [OF inv(1)] inv(2) r e] by blast
  note S1 = small_settled [OF inv(1) a(2)]
  have h1: "fl1 (Hand j) = fl (Hand j)" for j using settledD(3) [OF a(2), of "Hand j"] by simp
  show ?thesis
  proof (cases "fl (Spare c k) = []")
    case False
    then have st: "stocked fl1 c k w1" using a(3) by simp
    obtain r1 where r1: "hw_caches w1 c = Some r1" using stocked_own [OF st] own_cacheD(1) by blast
    have "memx_heap_refill E c k w = Some (ch_local r1 k, w1)"
      using a(1) False r1 by (simp add: memx_heap_refill_def)
    then show ?thesis using refilledI(1) [OF S1 h1 st r1] by blast
  next
    case True
    then have w1: "w1 = w" "fl1 = fl" using a(3) by simp_all
    obtain w2 fl2 heads2 where d: "memx_heap_drain_remote c k w = Some w2"
      "settled (class_of (hw_heap w)) w (fl(Remote c k := [])) {Local c k, Spare c k} UNIV w2 fl2 heads2" "caches_part fl2 {} w2"
      using drain_remote_ok [OF B [OF inv(1)] inv(2) r h] by blast
    note S2 = small_settled [OF inv(1) d(2)]
    have h2: "fl2 (Hand j) = fl (Hand j)" for j using settledD(3) [OF d(2), of "Hand j"] by simp
    obtain r2 where r2: "own_cache w2 c = Some r2" using small_frame_own [OF S2(2) r] by blast
    note e2 = local_empty_iff [OF B [OF S2(1)] d(3) r2, of k]
    show ?thesis
    proof (cases "fl2 (Local c k) = []")
      case False
      have "memx_heap_refill E c k w = Some (ch_local r2 k, w2)"
        using a(1) True w1 d(1) e2 False own_cacheD(1) [OF r2] by (simp add: memx_heap_refill_def)
      then show ?thesis
        using refilledI(1) [OF S2 h2 caches_part_stocked [OF d(3) r2 False] own_cacheD(1) [OF r2]] by blast
    next
      case loc: True
      obtain w3 fl3 heads3 where a3: "memx_heap_adopt_spare c k w2 = Some (fl2 (Spare c k) \<noteq> [], w3)"
        "settled (class_of (hw_heap w2)) w2 fl2 {Local c k, Spare c k} {} w3 fl3 heads3"
        "if fl2 (Spare c k) = [] then w3 = w2 \<and> fl3 = fl2 else stocked fl3 c k w3"
        using adopt_ok [OF B [OF S2(1)] d(3) r2 loc] by blast
      note S3 = small_settled [OF S2(1) a3(2)]
      have h3: "fl3 (Hand j) = fl (Hand j)" for j using settledD(3) [OF a3(2), of "Hand j"] h2 by simp
      show ?thesis
      proof (cases "fl2 (Spare c k) = []")
        case False
        then have st: "stocked fl3 c k w3" using a3(3) by simp
        obtain r3 where r3: "hw_caches w3 c = Some r3" using stocked_own [OF st] own_cacheD(1) by blast
        note RI = refilledI [OF S3(1) small_frame_trans [OF S2(2) S3(2)] h3 st r3]
        have "memx_heap_refill E c k w = Some (ch_local r3 k, w3)"
          using a(1) True w1 d(1) e2 loc own_cacheD(1) [OF r2] a3(1) r3 RI(2) by (simp add: memx_heap_refill_def)
        then show ?thesis using RI(1) by blast
      next
        case sp: True
        then have w3: "w3 = w2" "fl3 = fl2" using a3(3) by simp_all
        let ?r = "r2\<lparr>ch_cache_misses := ch_cache_misses r2 + 1\<rparr>"
        define w4 where "w4 = (if collects w2 then w2\<lparr>hw_caches := (hw_caches w2)(c \<mapsto> ?r)\<rparr> else w2)"
        have stat: "(if collects w2 then set_cache c (\<lambda>c. c\<lparr>ch_cache_misses := ch_cache_misses c + 1\<rparr>) w2 else Some w2)
            = Some w4"
          by (simp add: w4_def set_cache_eval [OF own_cacheD(1) [OF r2]])
        have sc: "\<And>j. same_class r2 ?r j" "cache_skel ?r = cache_skel r2" by (simp_all add: same_class_def cache_skel_def)
        note ST = cache_stat_ok [OF S2(1) d(3) r2 sc(2,1)]
        have S4: "small_inv E live mapped M fr fl2 heads2 w4" "caches_part fl2 {} w4" "small_frame w2 w4"
          "\<exists>r. own_cache w4 c = Some r"
          using ST S2(1) d(3) r2 by (auto simp: w4_def)
        note frame4 = small_frame_trans [OF S2(2) S4(3)]
        have "\<exists>ready w5 fl5 heads5. (if hp_central (hw_heap w4) k = 0 then memx_heap_create_span_locked E k w4
              else Some (True, w4)) = Some (ready, w5)
            \<and> small_inv E live mapped M fr fl5 heads5 w5 \<and> small_frame w4 w5 \<and> hw_caches w5 = hw_caches w4
            \<and> (\<forall>P. \<not> in_bin P \<longrightarrow> fl5 P = fl2 P) \<and> (ready \<longrightarrow> hp_central (hw_heap w5) k \<noteq> 0)"
        proof (cases "hp_central (hw_heap w4) k = 0")
          case True
          have "fl2 (Hand k) = []" using h2 h by simp
          then show ?thesis using create_span_ok [OF c S4(1) _ k] True by simp
        next
          case False
          then show ?thesis using S4(1) by auto
        qed
        then obtain ready w5 fl5 heads5 where s5: "(if hp_central (hw_heap w4) k = 0 then memx_heap_create_span_locked E k w4
              else Some (True, w4)) = Some (ready, w5)"
            "small_inv E live mapped M fr fl5 heads5 w5" "small_frame w4 w5" "hw_caches w5 = hw_caches w4"
            "\<forall>P. \<not> in_bin P \<longrightarrow> fl5 P = fl2 P" "ready \<longrightarrow> hp_central (hw_heap w5) k \<noteq> 0" by blast
        have o5: "own_cache w5 = own_cache w4" and cfg5: "hp_config (hw_heap w5) = hp_config (hw_heap w4)"
          using s5(3,4) coreD(1,2) [of "hw_heap w5" "hw_heap w4"] own_cache_same [of w5 w4] by (simp_all add: small_frame_def)
        have cp5: "caches_part fl5 {} w5"
          by (rule caches_part_same [OF S4(2) _ _ o5]) (simp_all add: chunk_cap_def cache_cap_def cfg5 s5(5))
        note frame5 = small_frame_trans [OF frame4 s5(3)]
        have run: "memx_heap_refill E c k w = (if \<not> ready then Some (0, w5) else take_chunk c k w5)"
          using a(1) True w1 d(1) e2 loc own_cacheD(1) [OF r2] a3(1) sp w3 stat s5(1) by (simp add: memx_heap_refill_def)
        have h5: "fl5 (Hand j) = fl (Hand j)" for j using s5(5) h2 by simp
        show ?thesis
        proof (cases ready)
          case False
          have "refilled E live mapped M fr fl c k w 0 w5"
            unfolding refilled_def using s5(2) frame5 h5 cp5 by auto
          then show ?thesis using run False by auto
        next
          case True
          obtain r5 where r5: "own_cache w5 c = Some r5" using S4(4) o5 by auto
          have "fl5 (Local c k) = []" "fl5 (Spare c k) = []" using s5(5) loc sp by simp_all
          then obtain w6 fl6 heads6 where t: "take_chunk c k w5 = Some (hd (fl6 (Local c k)), w6)"
            "settled (class_of (hw_heap w5)) w5 fl5 {Local c k} UNIV w6 fl6 heads6" "stocked fl6 c k w6"
            using take_chunk_ok [OF B [OF s5(2)] cp5 r5] s5(6) True by blast
          note S6 = small_settled [OF s5(2) t(2)]
          have h6: "fl6 (Hand j) = fl (Hand j)" for j using settledD(3) [OF t(2), of "Hand j"] h5 by simp
          obtain r6 where r6: "hw_caches w6 c = Some r6" using stocked_own [OF t(3)] own_cacheD(1) by blast
          note RI = refilledI [OF S6(1) small_frame_trans [OF frame5 S6(2)] h6 t(3) r6]
          show ?thesis
            using run True t(1) RI(1) stocked_head [OF t(3) r6] by auto
        qed
      qed
    qed
  qed
qed

end
