(* ===== verification/Memx_Threads.thy ===== *)
theory Memx_Threads
  imports Memx_Refill
begin

text \<open>
  The caches of the threads: every thread finds its cache of the heap or makes one, every cache
  stays on the list of the heap, and the owner of an allocated block is always a cache of the
  heap, whether or not its thread has detached.
\<close>

section \<open>The lists of caches\<close>

definition tnext :: "'c heap_world \<Rightarrow> u64 \<Rightarrow> u64 option" where
  "tnext w p = map_option ch_tls_next (hw_caches w p)"

definition hnext :: "'c heap_world \<Rightarrow> u64 \<Rightarrow> u64 option" where
  "hnext w p = map_option ch_heap_next (own_cache w p)"

definition tls_ok :: "(nat \<Rightarrow> u64 list) \<Rightarrow> 'c heap_world \<Rightarrow> bool" where
  "tls_ok tls w \<longleftrightarrow> (\<forall>t. linked (tnext w) (hw_tls w t) (tls t)
       \<and> (hw_tls_last w t = 0 \<or> hw_tls_last w t \<in> set (tls t)))
     \<and> (\<forall>t u x. x \<in> set (tls t) \<longrightarrow> x \<in> set (tls u) \<longrightarrow> t = u)"

definition threads_ok ::
  "(u64 \<rightharpoonup> memx_object) \<Rightarrow> (nat \<Rightarrow> u64 list) \<Rightarrow> u64 list \<Rightarrow> 'c heap_world \<Rightarrow> bool" where
  "threads_ok fr tls hl w \<longleftrightarrow> tls_ok tls w \<and> linked (hnext w) (hp_caches (hw_heap w)) hl
     \<and> set hl = dom (own_cache w)
     \<and> (hp_exclusive_cache (hw_heap w) = 0 \<or> own_cache w (hp_exclusive_cache (hw_heap w)) \<noteq> None)
     \<and> (\<forall>c. hw_caches w c \<noteq> None \<longrightarrow> fr c = Some (RawBlock sizeof_cache))"

text \<open>The owner of an allocated block.\<close>

definition owners_ok :: "'c heap_world \<Rightarrow> bool" where
  "owners_ok w \<longleftrightarrow> (\<forall>x b. hw_blocks w x = Some b \<longrightarrow> bk_state b = 1 \<longrightarrow> own_cache w (bk_link b) \<noteq> None)"

lemma tls_okD:
  assumes "tls_ok tls w"
  shows "linked (tnext w) (hw_tls w t) (tls t)" "hw_tls_last w t = 0 \<or> hw_tls_last w t \<in> set (tls t)"
    "x \<in> set (tls t) \<Longrightarrow> x \<in> set (tls u) \<Longrightarrow> t = u" "x \<in> set (tls t) \<Longrightarrow> x \<noteq> 0 \<and> hw_caches w x \<noteq> None"
proof -
  show l: "linked (tnext w) (hw_tls w t) (tls t)" "hw_tls_last w t = 0 \<or> hw_tls_last w t \<in> set (tls t)" 
    "x \<in> set (tls t) \<Longrightarrow> x \<in> set (tls u) \<Longrightarrow> t = u" for t
    using assms by (auto simp: tls_ok_def)
  show "x \<in> set (tls t) \<Longrightarrow> x \<noteq> 0 \<and> hw_caches w x \<noteq> None"
    using linked_nonzero [OF l(1), of t] linked_dom [OF l(1), of x t] by (auto simp: tnext_def)
qed

lemma threads_okD:
  assumes "threads_ok fr tls hl w"
  shows "tls_ok tls w" "linked (hnext w) (hp_caches (hw_heap w)) hl" "set hl = dom (own_cache w)"
    "hp_exclusive_cache (hw_heap w) = 0 \<or> own_cache w (hp_exclusive_cache (hw_heap w)) \<noteq> None"
    "hw_caches w c \<noteq> None \<Longrightarrow> fr c = Some (RawBlock sizeof_cache)"
  using assms by (simp_all add: threads_ok_def)

lemma skel_nexts:
  assumes "\<And>c. map_option cache_skel (hw_caches w' c) = map_option cache_skel (hw_caches w c)"
    and "hp_self (hw_heap w') = hp_self (hw_heap w)"
  shows "tnext w' = tnext w" "hnext w' = hnext w" "own_cache w' c = None \<longleftrightarrow> own_cache w c = None"
    "hw_caches w' c = None \<longleftrightarrow> hw_caches w c = None"
proof -
  show d: "hw_caches w' c = None \<longleftrightarrow> hw_caches w c = None" for c using assms(1) [of c] by (metis map_option_is_None)
  have e: "\<exists>r'. hw_caches w' c = Some r' \<and> cache_skel r' = cache_skel r" if "hw_caches w c = Some r" for c r
    using assms(1) [of c] that by auto
  show "tnext w' = tnext w"
  proof
    fix p show "tnext w' p = tnext w p"
      using d [of p] e [of p] by (cases "hw_caches w p") (auto simp: tnext_def cache_skel_def)
  qed
  have o: "map_option cache_skel (own_cache w' p) = map_option cache_skel (own_cache w p)" for p
    using d [of p] e [of p] assms(2) by (cases "hw_caches w p") (auto simp: own_cache_def cache_skel_def)
  show "hnext w' = hnext w"
  proof
    fix p show "hnext w' p = hnext w p"
      using o [of p] by (cases "own_cache w p"; cases "own_cache w' p") (auto simp: hnext_def cache_skel_def)
  qed
  show "own_cache w' c = None \<longleftrightarrow> own_cache w c = None" using o [of c] by (metis map_option_is_None)
qed

lemma threads_small_frame:
  assumes "threads_ok fr tls hl w" "small_frame w w'"
  shows "threads_ok fr tls hl w'"
proof -
  note T = threads_okD [OF assms(1)]
  have f: "core (hw_heap w') = core (hw_heap w)" "hw_tls w' = hw_tls w" "hw_tls_last w' = hw_tls_last w"
    "\<And>c. map_option cache_skel (hw_caches w' c) = map_option cache_skel (hw_caches w c)"
    using assms(2) by (simp_all add: small_frame_def)
  note C = coreD [OF f(1)]
  note S = skel_nexts [of w' w, OF f(4) C(1)]
  have "dom (own_cache w') = dom (own_cache w)" using S(3) by (auto simp: dom_def)
  then show ?thesis
    using T S(3,4) unfolding threads_ok_def tls_ok_def S(1,2) f(2,3) C by auto
qed

lemma owners_small_frame:
  assumes "owners_ok w" "small_frame w w'"
  shows "owners_ok w'"
  unfolding owners_ok_def
proof (intro allI impI)
  fix x b assume x: "hw_blocks w' x = Some b" "bk_state b = 1"
  have f: "core (hw_heap w') = core (hw_heap w)"
    "\<And>c. map_option cache_skel (hw_caches w' c) = map_option cache_skel (hw_caches w c)"
    using assms(2) by (simp_all add: small_frame_def)
  note S = skel_nexts(3) [of w' w, OF f(2) coreD(1) [OF f(1)]]
  have s': "bstate (hw_blocks w') x = Some 1" using x by (simp add: bstate_def)
  have "bstate (hw_blocks w) x = Some 1"
  proof (cases "bstate (hw_blocks w) x")
    case None
    then have "bstate (hw_blocks w') x \<in> {None, Some 0}" using assms(2) unfolding small_frame_def by blast
    then show ?thesis using s' by simp
  next
    case (Some s)
    then have "bstate (hw_blocks w') x = bstate (hw_blocks w) x" using assms(2) unfolding small_frame_def by blast
    then show ?thesis using s' by simp
  qed
  moreover from this have "hw_blocks w' x = hw_blocks w x"
    using assms(2) unfolding small_frame_def by (metis one_neq_zero)
  ultimately have "own_cache w (bk_link b) \<noteq> None" using assms(1) x unfolding owners_ok_def by metis
  then show "own_cache w' (bk_link b) \<noteq> None" using S [of "bk_link b"] by simp
qed

section \<open>Finding and making a cache\<close>

lemma find_loop_ok:
  assumes "linked (tnext w) p xs"
  shows "\<exists>c. find_cache_loop w (hp_self (hw_heap w)) p = Some c
    \<and> (if c = 0 then (\<forall>x \<in> set xs. own_cache w x = None) else c \<in> set xs \<and> own_cache w c \<noteq> None)"
  using assms
proof (induction xs arbitrary: p)
  case Nil
  then show ?case by (subst find_cache_loop.simps) simp
next
  case (Cons x xs)
  then obtain q where x: "p = x" "x \<noteq> 0" "tnext w x = Some q" "linked (tnext w) q xs" by auto
  then obtain r where r: "hw_caches w x = Some r" "ch_tls_next r = q" by (auto simp: tnext_def)
  show ?case
  proof (cases "ch_heap r = hp_self (hw_heap w)")
    case True
    then have "find_cache_loop w (hp_self (hw_heap w)) p = Some x"
      using x r by (subst find_cache_loop.simps) simp
    then show ?thesis using x(2) own_cacheI [OF r(1) True] by auto
  next
    case False
    then have "find_cache_loop w (hp_self (hw_heap w)) p = find_cache_loop w (hp_self (hw_heap w)) q"
      using x(1,2) r by (subst find_cache_loop.simps) simp
    moreover have "own_cache w x = None" using r(1) False by (simp add: own_cache_def)
    ultimately show ?thesis using Cons.IH [OF x(4)] by (auto split: if_splits)
  qed
qed

lemma last_cache_fields [simp]:
  "tnext (w\<lparr>hw_tls_last := l\<rparr>) = tnext w" "hnext (w\<lparr>hw_tls_last := l\<rparr>) = hnext w"
  "own_cache (w\<lparr>hw_tls_last := l\<rparr>) = own_cache w"
proof -
  show o: "own_cache (w\<lparr>hw_tls_last := l\<rparr>) = own_cache w" by (rule own_cache_same) simp_all
  show "tnext (w\<lparr>hw_tls_last := l\<rparr>) = tnext w" "hnext (w\<lparr>hw_tls_last := l\<rparr>) = hnext w"
    by (simp_all add: tnext_def hnext_def o fun_eq_iff)
qed

lemma find_cache_ok:
  assumes "threads_ok fr tls hl w"
  shows "\<exists>c l. memx_heap_find_cache t w = Some (c, w\<lparr>hw_tls_last := l\<rparr>)
    \<and> threads_ok fr tls hl (w\<lparr>hw_tls_last := l\<rparr>) \<and> (c = 0 \<or> own_cache w c \<noteq> None \<and> c \<in> set (tls t))"
proof -
  note T = threads_okD [OF assms] and L = tls_okD [OF threads_okD(1) [OF assms]]
  have same: "w\<lparr>hw_tls_last := hw_tls_last w\<rparr> = w" by simp
  have "hw_tls_last w t \<noteq> 0 \<Longrightarrow> \<exists>r. hw_caches w (hw_tls_last w t) = Some r" using L(2) [of t] L(4) [where t = t] by fastforce
  then obtain hit where h: "(if hw_tls_last w t = 0 then Some False
               else do { c \<leftarrow> hw_caches w (hw_tls_last w t); Some (ch_heap c = hp_self (hw_heap w)) }) = Some hit"
      "hit \<Longrightarrow> hw_tls_last w t \<noteq> 0 \<and> own_cache w (hw_tls_last w t) \<noteq> None"
    by (cases "hw_tls_last w t = 0") (auto simp: own_cache_def)
  show ?thesis
  proof (cases hit)
    case True
    then have "memx_heap_find_cache t w = Some (hw_tls_last w t, w)"
      using h(1) by (simp add: memx_heap_find_cache_def Let_def)
    then show ?thesis using assms h(2) [OF True] L(2) [of t]
      by (intro exI [of _ "hw_tls_last w t"] exI [of _ "hw_tls_last w"]) simp
  next
    case False
    obtain c where c: "find_cache_loop w (hp_self (hw_heap w)) (hw_tls w t) = Some c"
      "if c = 0 then (\<forall>x \<in> set (tls t). own_cache w x = None) else c \<in> set (tls t) \<and> own_cache w c \<noteq> None"
      using find_loop_ok [OF L(1)] by blast
    let ?l = "if c = 0 then hw_tls_last w else (hw_tls_last w)(t := c)"
    have run: "memx_heap_find_cache t w = Some (c, w\<lparr>hw_tls_last := ?l\<rparr>)"
      using h(1) False c(1) by (simp add: memx_heap_find_cache_def Let_def)
    note n = last_cache_fields [where w = w and l = ?l]
    have "threads_ok fr tls hl (w\<lparr>hw_tls_last := ?l\<rparr>)"
      using T c(2) unfolding threads_ok_def tls_ok_def n by (auto split: if_splits)
    then show ?thesis using run c(2) by (intro exI [of _ c] exI [of _ ?l]) (auto split: if_splits)
  qed
qed

text \<open>The small-object path reads these fields of the heap.\<close>

definition small_fields :: "'c memx_heap \<Rightarrow> (u64 \<times> memx_heap_config \<times> (u64 \<times> u64) \<times> u64 \<times> u64 \<times> u64)
     \<times> u8 list \<times> (nat \<Rightarrow> u64) \<times> (nat \<Rightarrow> u64) \<times> 'c memx_index" where
  "small_fields h = ((hp_self h, hp_config h, hp_arena h, hp_span_size h, hp_span_capacity h, hp_next_span h),
     hp_class_table h, hp_central h, hp_central_count h, hp_index h)"

lemma small_fieldsD:
  assumes "small_fields h' = small_fields h"
  shows "hp_self h' = hp_self h" "hp_config h' = hp_config h" "hp_arena h' = hp_arena h"
    "hp_span_size h' = hp_span_size h" "hp_span_capacity h' = hp_span_capacity h" "hp_next_span h' = hp_next_span h"
    "hp_class_table h' = hp_class_table h" "hp_central h' = hp_central h" "hp_central_count h' = hp_central_count h"
    "hp_index h' = hp_index h"
  using assms by (simp_all add: small_fields_def)

lemma small_inv_mem:
  assumes inv: "small_inv E live mapped M fr fl heads w"
    and h: "small_fields (hw_heap w') = small_fields (hw_heap w)"
    and b: "hw_blocks w' = hw_blocks w" "hw_spans w' = hw_spans w"
    and y: "\<And>x. hw_blocks w x \<noteq> None \<Longrightarrow> hw_bytes w' (x + sizeof_block) = hw_bytes w (x + sizeof_block)"
    and m: "mem_ok E live mapped M' fr' (hp_index (hw_heap w)) (hw_mem w')"
    and v: "adaptive_view (hp_index (hw_heap w), hw_mem w') = adaptive_view (hp_index (hw_heap w), hw_mem w)"
  shows "small_inv E live mapped M' fr' fl heads w'"
proof -
  note I = small_invD [OF inv] and F = small_fieldsD [OF h]
  have cl: "class_of (hw_heap w') = class_of (hw_heap w)"
    by (simp add: class_of_def span_class_def span_of_def F fun_eq_iff)
  have sp: "spans_ok w'"
  proof -
    have ss: "span_start (hw_heap w') = span_start (hw_heap w)" "span_class (hw_heap w') = span_class (hw_heap w)"
      "blocks_in (hw_heap w') = blocks_in (hw_heap w)" "blocks_at (hw_heap w') = blocks_at (hw_heap w)"
      by (simp_all add: span_start_def span_class_def blocks_in_def blocks_at_def block_start_def F fun_eq_iff)
    show ?thesis using I(1) by (simp add: spans_ok_def span_ok_def arena_ok_def ss F b)
  qed
  have bp: "bins_part (class_of (hw_heap w)) fl heads w'"
  proof -
    have ho: "hw_bytes w' (x + sizeof_block) = hw_bytes w (x + sizeof_block)" if "x \<in> set (heads k)" for x k
    proof (rule y)
      show "hw_blocks w x \<noteq> None"
        using free_payload [OF I(4) bins_member [OF bins_partD(3) [OF I(4)] that]] by auto
    qed
    have "bins_ok (chunk_cap w) (hp_central (hw_heap w)) (hp_central_count (hw_heap w)) (hw_blocks w) (hw_bytes w') fl heads"
      by (rule bins_ok_cong [OF bins_partD(3) [OF I(4)]]) (simp_all add: ho)
    moreover have "payloads_ok (class_of (hw_heap w)) (hw_blocks w) (hw_bytes w')"
      using bins_partD(2) [OF I(4)] y by (auto simp: payloads_ok_def)
    ultimately show ?thesis using I(4) by (simp add: bins_part_def b F chunk_cap_def cache_cap_def)
  qed
  have "index_maps w'"
    by (rule index_maps_cong [OF I(2)]) (simp_all add: F v)
  then show ?thesis using sp bp m I(5,6) by (simp add: small_inv_def F cl)
qed

section \<open>The invariant of allocation\<close>

definition alloc_inv ::
  "'c heap_env \<Rightarrow> ('c \<Rightarrow> u64 set) \<Rightarrow> ('c \<Rightarrow> nat set) \<Rightarrow> nat set \<Rightarrow> (u64 \<rightharpoonup> memx_object) \<Rightarrow> lists
     \<Rightarrow> (nat \<Rightarrow> u64 list) \<Rightarrow> (nat \<Rightarrow> u64 list) \<Rightarrow> u64 list \<Rightarrow> 'c heap_world \<Rightarrow> bool" where
  "alloc_inv E live mapped M fr fl heads tls hl w \<longleftrightarrow> small_inv E live mapped M fr fl heads w
     \<and> caches_part fl {} w \<and> threads_ok fr tls hl w \<and> owners_ok w"

lemma alloc_invD:
  assumes "alloc_inv E live mapped M fr fl heads tls hl w"
  shows "small_inv E live mapped M fr fl heads w" "caches_part fl {} w" "threads_ok fr tls hl w" "owners_ok w"
  using assms by (simp_all add: alloc_inv_def)

definition outer :: "'c memx_heap \<Rightarrow> u64 \<times> memx_heap_config \<times> (u64 \<times> u64) \<times> u64 \<times> u64 \<times> u64 \<times> u64 \<times> u64 \<times> u64" where
  "outer h = (hp_self h, hp_config h, hp_arena h, hp_span_size h, hp_span_capacity h, hp_span_classes h,
     hp_large_buckets h, hp_large_bucket_count h, hp_large_count h)"

text \<open>What an allocation keeps, up to the block it hands out.\<close>

definition alloc_frame :: "'c heap_world \<Rightarrow> 'c heap_world \<Rightarrow> bool" where
  "alloc_frame w w' \<longleftrightarrow> outer (hw_heap w') = outer (hw_heap w) \<and> hw_larges w' = hw_larges w
     \<and> (\<forall>x. bstate (hw_blocks w) x \<noteq> None \<longrightarrow> bstate (hw_blocks w') x = bstate (hw_blocks w) x)
     \<and> (\<forall>x. bstate (hw_blocks w) x = None \<longrightarrow> bstate (hw_blocks w') x \<in> {None, Some 0})
     \<and> (\<forall>x s. bstate (hw_blocks w) x = Some s \<longrightarrow> s \<noteq> 0 \<longrightarrow> hw_blocks w' x = hw_blocks w x
          \<and> hw_bytes w' (x + sizeof_block) = hw_bytes w (x + sizeof_block))
     \<and> (\<forall>p. \<not> in_arena (hw_heap w) p \<longrightarrow> hw_bytes w' p = hw_bytes w p)"

lemma alloc_frame_refl [simp]: "alloc_frame w w"
  by (auto simp: alloc_frame_def)

lemma small_alloc_frame: "small_frame w w' \<Longrightarrow> alloc_frame w w'"
  by (simp add: small_frame_def alloc_frame_def core_def outer_def)

lemma alloc_frame_trans:
  assumes a: "alloc_frame w w'" and b: "alloc_frame w' w''"
  shows "alloc_frame w w''"
proof -
  have ar: "in_arena (hw_heap w') p = in_arena (hw_heap w) p" for p
    using a by (simp add: alloc_frame_def outer_def in_arena_def)
  have s: "bstate (hw_blocks w'') x \<in> {None, Some 0}" if "bstate (hw_blocks w) x = None" for x
    using a b that unfolding alloc_frame_def by (metis insertE singletonD insertI1 insert_iff)
  have l: "hw_blocks w'' x = hw_blocks w x \<and> hw_bytes w'' (x + sizeof_block) = hw_bytes w (x + sizeof_block)"
    if "bstate (hw_blocks w) x = Some s" "s \<noteq> 0" for x s
  proof -
    have "bstate (hw_blocks w') x = Some s" using a that unfolding alloc_frame_def by (metis option.distinct(1))
    then show ?thesis using a b that unfolding alloc_frame_def by metis
  qed
  show ?thesis
    unfolding alloc_frame_def
  proof (intro conjI allI impI)
    show "bstate (hw_blocks w'') x = bstate (hw_blocks w) x" if "bstate (hw_blocks w) x \<noteq> None" for x
      using a b that unfolding alloc_frame_def by metis
    show "hw_bytes w'' p = hw_bytes w p" if "\<not> in_arena (hw_heap w) p" for p
      using a b ar that unfolding alloc_frame_def by metis
  qed (use a b s l in \<open>auto simp: alloc_frame_def\<close>)
qed

section \<open>A new cache\<close>

lemma create_cache_ok:
  assumes c: "env_contract E live mapped" and inv: "alloc_inv E live mapped M fr fl heads tls hl w"
  shows "\<exists>p w' fr' tls' hl'. memx_heap_create_cache E t w = Some (p, w')
    \<and> alloc_inv E live mapped M fr' fl heads tls' hl' w' \<and> fr \<subseteq>\<^sub>m fr' \<and> alloc_frame w w'
    \<and> (p = 0 \<or> own_cache w' p \<noteq> None)"
proof -
  note I = alloc_invD [OF inv] and T = threads_okD [OF alloc_invD(3) [OF inv]]
  note mem = small_invD(3) [OF I(1)]
  let ?ix = "hp_index (hw_heap w)"
  obtain p m1 where m1: "c_malloc (he_allocator E) sizeof_cache (hw_mem w) = Some (p, m1)"
    "if p = 0 then mem_ok E live mapped M fr ?ix m1
     else fr p = None \<and> heap (hw_mem w) p = None \<and> mem_ok E live mapped M (fr(p \<mapsto> RawBlock sizeof_cache)) ?ix m1"
    "adaptive_view (?ix, m1) = adaptive_view (?ix, hw_mem w)"
    using mem_malloc [OF c mem] by blast
  have plain: "alloc_inv E live mapped M fr fl heads tls hl (w\<lparr>hw_mem := m\<rparr>) \<and> alloc_frame w (w\<lparr>hw_mem := m\<rparr>)"
    if m: "mem_ok E live mapped M fr ?ix m" "adaptive_view (?ix, m) = adaptive_view (?ix, hw_mem w)" for m
  proof
    let ?w = "w\<lparr>hw_mem := m\<rparr>"
    have o: "own_cache ?w = own_cache w" by (rule own_cache_same) simp_all
    have n: "tnext ?w = tnext w" "hnext ?w = hnext w" by (simp_all add: tnext_def hnext_def o fun_eq_iff)
    have "small_inv E live mapped M fr fl heads ?w" by (rule small_inv_mem [OF I(1)]) (simp_all add: m small_fields_def)
    moreover have "caches_part fl {} ?w" by (rule caches_part_heap [OF I(2) o]) simp
    moreover have "threads_ok fr tls hl ?w" using I(3) by (simp add: threads_ok_def tls_ok_def n o)
    moreover have "owners_ok ?w" using I(4) by (simp add: owners_ok_def o)
    ultimately show "alloc_inv E live mapped M fr fl heads tls hl ?w" by (simp add: alloc_inv_def)
    show "alloc_frame w ?w" by (auto simp: alloc_frame_def)
  qed
  show ?thesis
  proof (cases "p = 0")
    case True
    then have "memx_heap_create_cache E t w = Some (0, w\<lparr>hw_mem := m1\<rparr>)"
      using m1(1) by (simp add: memx_heap_create_cache_def)
    then show ?thesis using plain [of m1] m1(2,3) True by (auto intro!: exI [of _ fr])
  next
    case False
    then have p: "fr p = None" "mem_ok E live mapped M (fr(p \<mapsto> RawBlock sizeof_cache)) ?ix m1" using m1(2) by simp_all
    let ?fr = "fr(p \<mapsto> RawBlock sizeof_cache)"
    obtain ok c' where mi: "he_mutex_init E (ctx m1) = (ok, c')" by fastforce
    have lc: "live c' = live (ctx m1)" "mapped c' = mapped (ctx m1)"
      using env_contractD(5,6) [OF c, of "ctx m1"] mi by simp_all
    let ?m2 = "m1\<lparr>ctx := c'\<rparr>"
    have p2: "mem_ok E live mapped M ?fr ?ix ?m2"
      using mem_ctx [OF c p(2) lc(1)] lc(2) mem_okD(3) [OF c p(2)] by simp
    have v2: "adaptive_view (?ix, ?m2) = adaptive_view (?ix, hw_mem w)" using m1(3) by (simp add: adaptive_view_def)
    show ?thesis
    proof (cases ok)
      case no: False
      obtain m3 where m3: "c_free (he_allocator E) p ?m2 = Some m3" "mem_ok E live mapped M (?fr(p := None)) ?ix m3"
        "adaptive_view (?ix, m3) = adaptive_view (?ix, ?m2)"
        using mem_free [OF c p2, of p] by auto
      have "memx_heap_create_cache E t w = Some (0, w\<lparr>hw_mem := m3\<rparr>)"
        using m1(1) False mi no m3(1) by (simp add: memx_heap_create_cache_def upd_ctx_def)
      moreover have "?fr(p := None) = fr" using p(1) by (simp add: fun_upd_idem)
      ultimately show ?thesis using plain [of m3] m3(2,3) v2 by (auto intro!: exI [of _ fr])
    next
      case yes: True
      let ?new = "new_cache (hp_self (hw_heap w)) (hp_caches (hw_heap w)) (hw_tls w t)"
      define w' where "w' = upd_heap (\<lambda>h. h\<lparr>hp_exclusive_cache := (if hp_caches h = 0 then p else 0), hp_caches := p,
                         hp_thread_cache_count := hp_thread_cache_count h + 1\<rparr>)
           (w\<lparr>hw_mem := ?m2, hw_caches := (hw_caches w)(p \<mapsto> ?new),
              hw_tls := (hw_tls w)(t := p), hw_tls_last := (hw_tls_last w)(t := p)\<rparr>)"
      have run: "memx_heap_create_cache E t w = Some (p, w')"
        using m1(1) False mi yes by (simp add: memx_heap_create_cache_def upd_ctx_def upd_heap_def w'_def)
      have cn: "hw_caches w p = None" using T(5) [of p] p(1) by (cases "hw_caches w p") auto
      then have on: "own_cache w p = None" by (simp add: own_cache_def)
      have o: "own_cache w' = (own_cache w)(p \<mapsto> ?new)"
      proof
        fix x show "own_cache w' x = ((own_cache w)(p \<mapsto> ?new)) x"
          by (cases "hw_caches w x") (auto simp: own_cache_def w'_def upd_heap_def new_cache_def)
      qed
      have tn: "tnext w' = (tnext w)(p \<mapsto> hw_tls w t)"
        by (auto simp: tnext_def w'_def upd_heap_def new_cache_def fun_eq_iff)
      have hn: "hnext w' = (hnext w)(p \<mapsto> hp_caches (hw_heap w))"
        by (auto simp: hnext_def o new_cache_def fun_eq_iff)
      note L = tls_okD [OF T(1)]
      have pt: "p \<notin> set (tls u)" for u using L(4) [of p u] cn by auto
      have ph: "p \<notin> set hl" using T(3) on by auto
      have si: "small_inv E live mapped M ?fr fl heads w'"
        by (rule small_inv_mem [OF I(1)]) (use p2 v2 in \<open>simp_all add: w'_def upd_heap_def small_fields_def\<close>)
      have cp: "caches_part fl {} w'"
        unfolding caches_part_def
      proof (intro allI)
        fix d j
        have cap: "chunk_cap w' = chunk_cap w" "cache_cap w' = cache_cap w"
          by (simp_all add: w'_def upd_heap_def chunk_cap_def cache_cap_def)
        have e: "fl (Local p j) = []" "fl (Spare p j) = []" "fl (Remote p j) = []"
          using caches_partD(1-3) [OF I(2) on] by simp_all
        show "case own_cache w' d of None \<Rightarrow> fl (Local d j) = [] \<and> fl (Spare d j) = [] \<and> fl (Remote d j) = []
          | Some r \<Rightarrow> (d, j) \<in> {} \<or> cache_ok w' fl d r j"
        proof (cases "d = p")
          case True
          then show ?thesis
            using bins_partD(6) [OF small_invD(4) [OF I(1)]] e
            by (simp add: o cache_ok_def cache_lists_def cap new_cache_def)
        next
          case False
          then show ?thesis
            using caches_partD [OF I(2), of d] cache_ok_cong [of w fl d _ j w', OF _ cap same_class_refl refl refl refl]
            by (cases "own_cache w d") (simp_all add: o)
        qed
      qed
      have th: "threads_ok ?fr (tls(t := p # tls t)) (p # hl) w'"
        unfolding threads_ok_def tls_ok_def
      proof (intro conjI allI impI)
        fix u
        show "linked (tnext w') (hw_tls w' u) ((tls(t := p # tls t)) u)"
          unfolding tn using linked_push [OF L(1) pt False, of t] linked_upd [OF L(1) pt]
          by (auto simp: w'_def upd_heap_def)
        show "hw_tls_last w' u = 0 \<or> hw_tls_last w' u \<in> set ((tls(t := p # tls t)) u)"
          using L(2) by (auto simp: w'_def upd_heap_def)
        show "u = v" if "x \<in> set ((tls(t := p # tls t)) u)" "x \<in> set ((tls(t := p # tls t)) v)" for v x
          using that L(3) pt by (auto split: if_splits)
      next
        show "linked (hnext w') (hp_caches (hw_heap w')) (p # hl)"
          unfolding hn using linked_push [OF T(2) ph False] by (simp add: w'_def upd_heap_def)
        show "set (p # hl) = dom (own_cache w')" using T(3) by (simp add: o)
        have "own_cache w' p \<noteq> None" by (simp add: o)
        moreover have "hp_exclusive_cache (hw_heap w') = 0 \<or> hp_exclusive_cache (hw_heap w') = p"
          by (simp add: w'_def upd_heap_def)
        ultimately show "hp_exclusive_cache (hw_heap w') = 0 \<or> own_cache w' (hp_exclusive_cache (hw_heap w')) \<noteq> None"
          by auto
        show "?fr x = Some (RawBlock sizeof_cache)" if "hw_caches w' x \<noteq> None" for x
          using that T(5) by (auto simp: w'_def upd_heap_def split: if_splits)
      qed
      have ow: "owners_ok w'"
      proof -
        have "hw_blocks w' = hw_blocks w" by (simp add: w'_def upd_heap_def)
        then show ?thesis using I(4) by (auto simp: owners_ok_def o)
      qed
      have af: "alloc_frame w w'" by (auto simp: alloc_frame_def outer_def w'_def upd_heap_def)
      have fr: "fr \<subseteq>\<^sub>m ?fr" using p(1) by (auto simp: map_le_def)
      show ?thesis
        using run si cp th ow af fr
        by (intro exI [of _ p] exI [of _ w'] exI [of _ ?fr] exI [of _ "tls(t := p # tls t)"] exI [of _ "p # hl"])
          (simp add: alloc_inv_def o)
    qed
  qed
qed

lemma get_cache_ok:
  assumes c: "env_contract E live mapped" and inv: "alloc_inv E live mapped M fr fl heads tls hl w"
  shows "\<exists>p w' fr' tls' hl'. memx_heap_get_cache E t w = Some (p, w')
    \<and> alloc_inv E live mapped M fr' fl heads tls' hl' w' \<and> fr \<subseteq>\<^sub>m fr' \<and> alloc_frame w w'
    \<and> (p = 0 \<or> own_cache w' p \<noteq> None)"
proof -
  note I = alloc_invD [OF inv]
  obtain q l where f: "memx_heap_find_cache t w = Some (q, w\<lparr>hw_tls_last := l\<rparr>)"
    "threads_ok fr tls hl (w\<lparr>hw_tls_last := l\<rparr>)" "q = 0 \<or> own_cache w q \<noteq> None \<and> q \<in> set (tls t)"
    using find_cache_ok [OF I(3)] by blast
  let ?w = "w\<lparr>hw_tls_last := l\<rparr>"
  have si: "small_inv E live mapped M fr fl heads ?w"
    by (rule small_inv_mem [OF I(1)]) (simp_all add: small_fields_def small_invD(3) [OF I(1)])
  have "caches_part fl {} ?w" by (rule caches_part_heap [OF I(2)]) simp_all
  then have inv': "alloc_inv E live mapped M fr fl heads tls hl ?w"
    using si f(2) I(4) by (simp add: alloc_inv_def owners_ok_def)
  have af: "alloc_frame w ?w" by (auto simp: alloc_frame_def)
  show ?thesis
  proof (cases "q = 0")
    case False
    then have "memx_heap_get_cache E t w = Some (q, ?w)" using f(1) by (simp add: memx_heap_get_cache_def)
    then show ?thesis
      using inv' af f(3) False
      by (intro exI [of _ q] exI [of _ ?w] exI [of _ fr] exI [of _ tls] exI [of _ hl]) simp
  next
    case True
    then have "memx_heap_get_cache E t w = memx_heap_create_cache E t ?w" using f(1) by (simp add: memx_heap_get_cache_def)
    then show ?thesis using create_cache_ok [OF c inv', of t] alloc_frame_trans [OF af] by metis
  qed
qed

end
