(* ===== verification/Memx_SmallPath.thy ===== *)
theory Memx_SmallPath
  imports Memx_Threads
begin

text \<open>
  Allocation and release of small objects: an allocation hands out a block that was free and
  changes no other allocated block; a checked release takes back exactly an allocated block and
  refuses any other; no release loses a block.
\<close>

section \<open>The allocated blocks\<close>

text \<open>The requested size of an allocated small pointer.\<close>

definition small_at :: "'c heap_world \<Rightarrow> u64 \<Rightarrow> u64 option" where
  "small_at w p = (case hw_blocks w (p - sizeof_block) of None \<Rightarrow> None
     | Some b \<Rightarrow> (if bk_state b = 1 then Some (ucast (bk_requested_size b)) else None))"

lemma small_at_Some: "small_at w p = Some n \<longleftrightarrow>
    (\<exists>b. hw_blocks w (p - sizeof_block) = Some b \<and> bk_state b = 1 \<and> n = ucast (bk_requested_size b))"
  by (auto simp: small_at_def split: option.splits)

lemma small_at_None: "small_at w p = None \<longleftrightarrow> bstate (hw_blocks w) (p - sizeof_block) \<noteq> Some 1"
  by (auto simp: small_at_def bstate_def split: option.splits)

definition two_states :: "(u64 \<rightharpoonup> memx_heap_block) \<Rightarrow> bool" where
  "two_states B \<longleftrightarrow> (\<forall>x s. bstate B x = Some s \<longrightarrow> s = 0 \<or> s = 1)"

lemma alloc_frame_states:
  assumes "alloc_frame w w'" "two_states (hw_blocks w)"
  shows "bstate (hw_blocks w') x = Some 1 \<longleftrightarrow> bstate (hw_blocks w) x = Some 1"
    "bstate (hw_blocks w) x = Some 1 \<Longrightarrow> hw_blocks w' x = hw_blocks w x
       \<and> hw_bytes w' (x + sizeof_block) = hw_bytes w (x + sizeof_block)"
proof -
  show "bstate (hw_blocks w') x = Some 1 \<longleftrightarrow> bstate (hw_blocks w) x = Some 1"
  proof (cases "bstate (hw_blocks w) x")
    case None
    then have "bstate (hw_blocks w') x \<in> {None, Some 0}" using assms(1) unfolding alloc_frame_def by blast
    then show ?thesis using None by auto
  next
    case (Some s)
    then have "bstate (hw_blocks w') x = bstate (hw_blocks w) x" using assms(1) unfolding alloc_frame_def by blast
    then show ?thesis by simp
  qed
  show "bstate (hw_blocks w) x = Some 1 \<Longrightarrow> hw_blocks w' x = hw_blocks w x
       \<and> hw_bytes w' (x + sizeof_block) = hw_bytes w (x + sizeof_block)"
    using assms(1) unfolding alloc_frame_def by (metis one_neq_zero)
qed

lemma small_at_frame:
  assumes f: "alloc_frame w w'" and s: "two_states (hw_blocks w)"
  shows "small_at w' = small_at w" "small_at w q \<noteq> None \<Longrightarrow> hw_bytes w' q = hw_bytes w q"
proof -
  note F = alloc_frame_states [OF f s]
  show "small_at w' = small_at w"
  proof
    fix p show "small_at w' p = small_at w p"
    proof (cases "small_at w p")
      case None
      then have "small_at w' p = None" using F(1) by (simp add: small_at_None)
      then show ?thesis using None by simp
    next
      case (Some n)
      then have "bstate (hw_blocks w) (p - sizeof_block) = Some 1" by (auto simp: small_at_Some bstate_def)
      then show ?thesis using F(2) by (simp add: small_at_def)
    qed
  qed
  show "small_at w q \<noteq> None \<Longrightarrow> hw_bytes w' q = hw_bytes w q"
    using F(2) [of "q - sizeof_block"] by (simp add: small_at_None)
qed

section \<open>Steps on the invariant\<close>

lemma small_inv_blocks:
  assumes inv: "small_inv E live mapped M fr fl heads w"
    and h: "small_fields (hw_heap w') = small_fields (hw_heap w)" "hw_spans w' = hw_spans w" "hw_mem w' = hw_mem w"
    and d: "dom (hw_blocks w') = dom (hw_blocks w)" and b: "bins_part (class_of (hw_heap w)) fl' heads' w'"
  shows "small_inv E live mapped M fr fl' heads' w'"
proof -
  note I = small_invD [OF inv] and F = small_fieldsD [OF h(1)]
  have cl: "class_of (hw_heap w') = class_of (hw_heap w)"
    by (simp add: class_of_def span_class_def span_of_def F fun_eq_iff)
  have "spans_ok w'"
  proof -
    have ss: "span_start (hw_heap w') = span_start (hw_heap w)" "span_class (hw_heap w') = span_class (hw_heap w)"
      "blocks_in (hw_heap w') = blocks_in (hw_heap w)" "blocks_at (hw_heap w') = blocks_at (hw_heap w)"
      by (simp_all add: span_start_def span_class_def blocks_in_def blocks_at_def block_start_def F fun_eq_iff)
    show ?thesis using I(1) by (simp add: spans_ok_def span_ok_def arena_ok_def ss F h(2) d)
  qed
  moreover have "index_maps w'" by (rule index_maps_cong [OF I(2)]) (simp_all add: F h)
  ultimately show ?thesis using I(3,5,6) b by (simp add: small_inv_def F h cl)
qed

lemma threads_cong:
  assumes "threads_ok fr tls hl w"
    and sk: "\<And>c. map_option cache_skel (hw_caches w' c) = map_option cache_skel (hw_caches w c)"
    and f: "hw_tls w' = hw_tls w" "hw_tls_last w' = hw_tls_last w"
    and h: "hp_self (hw_heap w') = hp_self (hw_heap w)" "hp_caches (hw_heap w') = hp_caches (hw_heap w)"
      "hp_exclusive_cache (hw_heap w') = hp_exclusive_cache (hw_heap w)"
  shows "threads_ok fr tls hl w'"
proof -
  note S = skel_nexts [of w' w, OF sk h(1)]
  have "dom (own_cache w') = dom (own_cache w)" using S(3) by (auto simp: dom_def)
  then show ?thesis
    using threads_okD [OF assms(1)] S(3,4) unfolding threads_ok_def tls_ok_def S(1,2) f h by auto
qed

text \<open>Counters of the heap and of a cache.\<close>

definition counts :: "('c memx_heap \<Rightarrow> 'c memx_heap) \<Rightarrow> bool" where
  "counts f \<longleftrightarrow> (\<forall>h. small_fields (f h) = small_fields h \<and> outer (f h) = outer h \<and> hp_caches (f h) = hp_caches h
     \<and> hp_exclusive_cache (f h) = hp_exclusive_cache h)"

lemma counters_ok:
  assumes inv: "alloc_inv E live mapped M fr fl heads tls hl w" and f: "counts f"
  shows "alloc_inv E live mapped M fr fl heads tls hl (upd_heap f w)" "alloc_frame w (upd_heap f w)"
proof -
  note I = alloc_invD [OF inv]
  let ?w = "upd_heap f w"
  have h: "small_fields (hw_heap ?w) = small_fields (hw_heap w)" "hp_caches (hw_heap ?w) = hp_caches (hw_heap w)"
    "hp_exclusive_cache (hw_heap ?w) = hp_exclusive_cache (hw_heap w)" "outer (hw_heap ?w) = outer (hw_heap w)"
    using f by (simp_all add: counts_def upd_heap_def)
  have r: "hw_blocks ?w = hw_blocks w" "hw_bytes ?w = hw_bytes w" "hw_spans ?w = hw_spans w" "hw_mem ?w = hw_mem w"
    "hw_caches ?w = hw_caches w" "hw_tls ?w = hw_tls w" "hw_tls_last ?w = hw_tls_last w" "hw_larges ?w = hw_larges w"
    by (simp_all add: upd_heap_def)
  note F = small_fieldsD [OF h(1)]
  have o: "own_cache ?w = own_cache w" by (rule own_cache_same [OF r(5) F(1)])
  have "small_inv E live mapped M fr fl heads ?w"
    by (rule small_inv_blocks [OF I(1) h(1) r(3,4)])
      (simp_all add: r bins_part_cong [OF small_invD(4) [OF I(1)] r(1,2) F(8,9,2)])
  moreover have "caches_part fl {} ?w" by (rule caches_part_heap [OF I(2) o F(2)])
  moreover have "threads_ok fr tls hl ?w" by (rule threads_cong [OF I(3) _ r(6,7) F(1) h(2,3)]) (simp add: r)
  moreover have "owners_ok ?w" using I(4) by (simp add: owners_ok_def o r)
  ultimately show "alloc_inv E live mapped M fr fl heads tls hl ?w" by (simp add: alloc_inv_def)
  show "alloc_frame w ?w" using h(4) by (auto simp: alloc_frame_def r)
qed

lemma alloc_small_frame:
  assumes inv: "alloc_inv E live mapped M fr fl heads tls hl w" and s: "small_frame w w'"
    and n: "small_inv E live mapped M fr fl' heads' w'" "caches_part fl' {} w'"
  shows "alloc_inv E live mapped M fr fl' heads' tls hl w'"
  using alloc_invD [OF inv] n threads_small_frame [OF _ s] owners_small_frame [OF _ s] by (simp add: alloc_inv_def)

lemma alloc_stat_ok:
  assumes inv: "alloc_inv E live mapped M fr fl heads tls hl w" and r: "own_cache w c = Some r"
    and r': "cache_skel r' = cache_skel r" "\<And>j. same_class r r' j"
  shows "alloc_inv E live mapped M fr fl heads tls hl (w\<lparr>hw_caches := (hw_caches w)(c \<mapsto> r')\<rparr>)"
    "alloc_frame w (w\<lparr>hw_caches := (hw_caches w)(c \<mapsto> r')\<rparr>)"
proof -
  note S = cache_stat_ok [OF alloc_invD(1,2) [OF inv] r r']
  show "alloc_inv E live mapped M fr fl heads tls hl (w\<lparr>hw_caches := (hw_caches w)(c \<mapsto> r')\<rparr>)"
    by (rule alloc_small_frame [OF inv S(3) S(1,2)])
  show "alloc_frame w (w\<lparr>hw_caches := (hw_caches w)(c \<mapsto> r')\<rparr>)" by (rule small_alloc_frame [OF S(3)])
qed

lemma counts_live:
  "\<exists>f. memx_heap_add_live_counted n w = upd_heap f w \<and> counts f"
proof -
  let ?v = "hp_live_requested_bytes (hw_heap w) + n"
  let ?f = "\<lambda>h. (if hp_peak_live_requested_bytes h < ?v then h\<lparr>hp_live_requested_bytes := ?v, hp_peak_live_requested_bytes := ?v\<rparr>
      else h\<lparr>hp_live_requested_bytes := ?v\<rparr>)"
  have "memx_heap_add_live_counted n w = upd_heap ?f w"
    by (auto simp: memx_heap_add_live_counted_def memx_heap_update_peak_def upd_heap_def Let_def)
  moreover have "counts ?f" by (auto simp: counts_def small_fields_def outer_def)
  ultimately show ?thesis by blast
qed

section \<open>Allocation\<close>

text \<open>The outcome of an allocation of class \<open>k\<close>.\<close>

definition small_allocated :: "'c heap_world \<Rightarrow> nat \<Rightarrow> u64 \<Rightarrow> u64 \<Rightarrow> 'c heap_world \<Rightarrow> bool" where
  "small_allocated w k sz p w' \<longleftrightarrow> outer (hw_heap w') = outer (hw_heap w) \<and> hw_larges w' = hw_larges w
     \<and> (\<forall>q. \<not> in_arena (hw_heap w) q \<longrightarrow> hw_bytes w' q = hw_bytes w q)
     \<and> (\<forall>q. small_at w q \<noteq> None \<longrightarrow> hw_bytes w' q = hw_bytes w q)
     \<and> (if p = 0 then small_at w' = small_at w
        else small_at w p = None \<and> small_at w' = (small_at w)(p \<mapsto> ucast (ucast sz :: u32))
          \<and> in_arena (hw_heap w) p \<and> 16 dvd unat p \<and> map_option pl_size (hw_bytes w' p) = Some (class_size k))"

lemma small_allocated_frame:
  assumes "alloc_frame w w'" "small_allocated w' k sz p w''"
    and s: "two_states (hw_blocks w)"
  shows "small_allocated w k sz p w''"
proof -
  note F = small_at_frame [OF assms(1) s]
  have o: "outer (hw_heap w') = outer (hw_heap w)" "hw_larges w' = hw_larges w"
    "\<And>q. \<not> in_arena (hw_heap w) q \<Longrightarrow> hw_bytes w' q = hw_bytes w q"
    using assms(1) by (simp_all add: alloc_frame_def)
  have ar: "in_arena (hw_heap w') q = in_arena (hw_heap w) q" for q
    using o(1) by (simp add: outer_def in_arena_def)
  show ?thesis using assms(2) F o unfolding small_allocated_def F(1) ar by auto
qed

lemma small_allocated_then:
  assumes "small_allocated w k sz p w'" "alloc_frame w' w''"
    and s: "two_states (hw_blocks w')" and p: "p \<noteq> 0"
  shows "small_allocated w k sz p w''"
proof -
  note F = small_at_frame [OF assms(2) s]
  have o: "outer (hw_heap w'') = outer (hw_heap w')" "hw_larges w'' = hw_larges w'"
    "\<And>q. \<not> in_arena (hw_heap w') q \<Longrightarrow> hw_bytes w'' q = hw_bytes w' q"
    using assms(2) by (simp_all add: alloc_frame_def)
  have ar: "in_arena (hw_heap w') q = in_arena (hw_heap w) q" for q
    using assms(1) by (simp add: small_allocated_def outer_def in_arena_def)
  have "small_at w' = (small_at w)(p \<mapsto> ucast (ucast sz :: u32))" using assms(1) p by (simp add: small_allocated_def)
  then have "hw_bytes w'' q = hw_bytes w' q" if "small_at w q \<noteq> None \<or> q = p" for q
    using F(2) [of q] that by auto
  then show ?thesis using assms(1) p o ar unfolding small_allocated_def F(1) by auto
qed

lemma alloc_states: "alloc_inv E live mapped M fr fl heads tls hl w \<Longrightarrow> two_states (hw_blocks w)"
  using bins_partD(4) [OF small_invD(4) [OF alloc_invD(1)]] unfolding two_states_def by blast


lemma alloc_small_ok:
  assumes c: "env_contract E live mapped" and inv: "alloc_inv E live mapped M fr fl heads tls hl w"
    and hand: "\<And>j. fl (Hand j) = []" and k: "k < 19"
  shows "\<exists>p w' fr' fl' heads' tls' hl'. memx_heap_allocate_small E t sz k w = Some (p, w')
    \<and> alloc_inv E live mapped M fr' fl' heads' tls' hl' w' \<and> (\<forall>j. fl' (Hand j) = []) \<and> fr \<subseteq>\<^sub>m fr'
    \<and> small_allocated w k sz p w'"
proof -
  obtain cache w1 fr' tls' hl' where g: "memx_heap_get_cache E t w = Some (cache, w1)"
    "alloc_inv E live mapped M fr' fl heads tls' hl' w1" "fr \<subseteq>\<^sub>m fr'" "alloc_frame w w1"
    "cache = 0 \<or> own_cache w1 cache \<noteq> None"
    using get_cache_ok [OF c inv] by blast
  note S0 = alloc_states [OF inv] and S1 = alloc_states [OF g(2)] and I1 = alloc_invD [OF g(2)]
  have null: "small_allocated w k sz 0 w'" if "alloc_frame w w'" for w'
    using that small_at_frame [OF that S0] by (simp add: small_allocated_def alloc_frame_def)
  show ?thesis
  proof (cases "cache = 0")
    case True
    then have "memx_heap_allocate_small E t sz k w = Some (0, w1)" using g(1) k by (simp add: memx_heap_allocate_small_def)
    then show ?thesis using g(2,3) hand null [OF g(4)] by blast
  next
    case False
    then obtain r where r: "own_cache w1 cache = Some r" using g(5) by auto
    note e = local_empty_iff [OF small_invD(4) [OF I1(1)] I1(2) r, of k]
    have "\<exists>x w2. (if ch_local r k \<noteq> 0 then Some (ch_local r k, w1) else memx_heap_refill E cache k w1) = Some (x, w2)
        \<and> refilled E live mapped M fr' fl cache k w1 x w2"
    proof (cases "ch_local r k = 0")
      case True
      then have le: "fl (Local cache k) = []" using e by simp
      show ?thesis using refill_ok [OF c I1(1,2) r le hand k] True by auto
    next
      case False
      then have "fl (Local cache k) \<noteq> []" using e by simp
      from refilledI(1) [OF I1(1) small_frame_refl _ caches_part_stocked [OF I1(2) r this] own_cacheD(1) [OF r]]
      show ?thesis using False by auto
    qed
    then obtain x w2 where x: "(if ch_local r k \<noteq> 0 then Some (ch_local r k, w1) else memx_heap_refill E cache k w1) = Some (x, w2)"
      "refilled E live mapped M fr' fl cache k w1 x w2" by blast
    obtain fl2 heads2 where f: "small_inv E live mapped M fr' fl2 heads2 w2" "small_frame w1 w2" "\<forall>j. fl2 (Hand j) = fl (Hand j)"
      "if x = 0 then caches_part fl2 {} w2 else stocked fl2 cache k w2 \<and> x = hd (fl2 (Local cache k))"
      using x(2) unfolding refilled_def by blast
    note af2 = alloc_frame_trans [OF g(4) small_alloc_frame [OF f(2)]]
    define hit where "hit = (ch_local r k \<noteq> 0)"
    have h2: "\<forall>j. fl2 (Hand j) = []" using f(3) hand by simp
    show ?thesis
    proof (cases "x = 0")
      case True
      have "memx_heap_allocate_small E t sz k w = Some (0, w2)"
        using g(1) k False own_cacheD(1) [OF r] x(1) True by (simp add: memx_heap_allocate_small_def)
      moreover have "alloc_inv E live mapped M fr' fl2 heads2 tls' hl' w2"
        by (rule alloc_small_frame [OF g(2) f(2,1)]) (use f(4) True in simp)
      ultimately show ?thesis using g(3) h2 null [OF af2] by blast
    next
      case x0: False
      then have st: "stocked fl2 cache k w2" "x = hd (fl2 (Local cache k))" using f(4) by simp_all
      obtain r2 where r2: "own_cache w2 cache = Some r2" using stocked_own [OF st(1)] by blast
      obtain xs b where pop: "fl2 (Local cache k) = x # xs" "hw_blocks w2 x = Some b" "bk_state b = 0"
        "class_of (hw_heap w2) x = k"
        "\<And>b' w'. bk_state b' = 1 \<Longrightarrow> w' = w2\<lparr>hw_caches := (hw_caches w2)(cache \<mapsto> pop_local k (bk_link b) r2),
            hw_blocks := (hw_blocks w2)(x \<mapsto> b')\<rparr> \<Longrightarrow>
           bins_part (class_of (hw_heap w2)) (fl2(Local cache k := xs)) heads2 w' \<and> caches_part (fl2(Local cache k := xs)) {} w'"
        using pop_ok [OF small_invD(4) [OF f(1)] st(1) r2] st(2) by auto
      let ?b = "b\<lparr>bk_link := cache, bk_requested_size := ucast sz, bk_state := 1\<rparr>"
      let ?r = "pop_local k (bk_link b) r2" and ?fl = "fl2(Local cache k := xs)"
      define w3 where "w3 = w2\<lparr>hw_caches := (hw_caches w2)(cache \<mapsto> ?r), hw_blocks := (hw_blocks w2)(x \<mapsto> ?b)\<rparr>"
      have P: "bins_part (class_of (hw_heap w2)) ?fl heads2 w3" "caches_part ?fl {} w3"
        using pop(5) [of ?b w3] by (simp_all add: w3_def)
      have si3: "small_inv E live mapped M fr' ?fl heads2 w3"
        by (rule small_inv_blocks [OF f(1) _ _ _ _ P(1)]) (use pop(2) in \<open>auto simp: w3_def\<close>)
      have sk: "map_option cache_skel (hw_caches w3 d) = map_option cache_skel (hw_caches w2 d)" for d
        using own_cacheD(1) [OF r2] by (simp add: w3_def pop_local_def cache_skel_def)
      have o3: "own_cache w3 = (own_cache w2)(cache \<mapsto> ?r)"
        by (rule own_cache_upd [OF r2]) (simp_all add: w3_def pop_local_def)
      have th3: "threads_ok fr' tls' hl' w3"
        by (rule threads_cong [OF threads_small_frame [OF I1(3) f(2)] sk]) (simp_all add: w3_def)
      have ow3: "owners_ok w3"
      proof -
        have "hw_blocks w3 = (hw_blocks w2)(x \<mapsto> ?b)" by (simp add: w3_def)
        then show ?thesis using owners_small_frame [OF I1(4) f(2)] by (auto simp: owners_ok_def o3)
      qed
      have inv3: "alloc_inv E live mapped M fr' ?fl heads2 tls' hl' w3"
        using si3 P(2) th3 ow3 by (simp add: alloc_inv_def)
      let ?r4 = "?r\<lparr>ch_cache_hits := ch_cache_hits ?r + (if hit then 1 else 0),
          ch_allocation_count := ch_allocation_count ?r + 1\<rparr>"
      define w4 where "w4 = (if collects w3 then memx_heap_add_live_counted sz (w3\<lparr>hw_caches := (hw_caches w3)(cache \<mapsto> ?r4)\<rparr>) else w3)"
      have r3: "own_cache w3 cache = Some ?r" by (simp add: o3)
      have inv4: "alloc_inv E live mapped M fr' ?fl heads2 tls' hl' w4" "alloc_frame w3 w4"
      proof -
        note A = alloc_stat_ok [OF inv3 r3, of ?r4]
        have sr: "cache_skel ?r4 = cache_skel ?r" "\<And>j. same_class ?r ?r4 j" by (simp_all add: cache_skel_def same_class_def)
        obtain f where f: "memx_heap_add_live_counted sz (w3\<lparr>hw_caches := (hw_caches w3)(cache \<mapsto> ?r4)\<rparr>)
            = upd_heap f (w3\<lparr>hw_caches := (hw_caches w3)(cache \<mapsto> ?r4)\<rparr>)" "counts f"
          using counts_live by blast
        note CO = counters_ok [OF A(1) [OF sr] f(2)]
        show "alloc_inv E live mapped M fr' ?fl heads2 tls' hl' w4"
          using inv3 CO(1) f(1) by (simp add: w4_def)
        show "alloc_frame w3 w4"
          using alloc_frame_trans [OF A(2) [OF sr] CO(2)] f(1) by (simp add: w4_def)
      qed
      have run: "memx_heap_allocate_small E t sz k w = Some (x + sizeof_block, w4)"
      proof -
        have s1: "set_cache cache (\<lambda>c. c\<lparr>ch_local := (ch_local c)(k := bk_link b),
               ch_local_tail := (if bk_link b = 0 then (ch_local_tail c)(k := 0) else ch_local_tail c),
               ch_local_count := (ch_local_count c)(k := ch_local_count c k - 1)\<rparr>) w2
            = Some (w2\<lparr>hw_caches := (hw_caches w2)(cache \<mapsto> ?r)\<rparr>)"
          using set_cache_eval [OF own_cacheD(1) [OF r2]] by (simp add: pop_local_def)
        have s2: "set_block x (\<lambda>b. b\<lparr>bk_link := cache, bk_requested_size := ucast sz, bk_state := 1\<rparr>)
            (w2\<lparr>hw_caches := (hw_caches w2)(cache \<mapsto> ?r)\<rparr>) = Some w3"
          using set_block_eval [of "w2\<lparr>hw_caches := (hw_caches w2)(cache \<mapsto> ?r)\<rparr>" x b] pop(2) by (simp add: w3_def)
        have s3: "set_cache cache (\<lambda>c. c\<lparr>ch_cache_hits := ch_cache_hits c + (if hit then 1 else 0),
                        ch_allocation_count := ch_allocation_count c + 1\<rparr>) w3
            = Some (w3\<lparr>hw_caches := (hw_caches w3)(cache \<mapsto> ?r4)\<rparr>)"
          by (rule set_cache_eval [OF own_cacheD(1) [OF r3]])
        have fin: "(if collects w3 then do {
              w \<leftarrow> set_cache cache (\<lambda>c. c\<lparr>ch_cache_hits := ch_cache_hits c + (if hit then 1 else 0),
                        ch_allocation_count := ch_allocation_count c + 1\<rparr>) w3;
              Some (memx_heap_add_live_counted sz w)
            } else Some w3) = Some w4"
          by (simp add: s3 w4_def)
        show ?thesis
          using g(1) k False own_cacheD(1) [OF r] x(1) x0 pop(2,3) s1 s2 fin
          unfolding memx_heap_allocate_small_def Let_def hit_def by (simp split del: if_split)
      qed
      have sp2: "spans_ok w2" by (rule small_invD(1) [OF f(1)])
      note ba = block_in_arena [OF sp2, of x]
      have x2: "hw_blocks w2 x \<noteq> None" using pop(2) by simp
      have pn: "x + sizeof_block \<noteq> 0" using ba(4) [OF x2] by (metis add_is_0 unat_0 zero_neq_numeral)
      have S2: "two_states (hw_blocks w2)"
        using bins_partD(4) [OF small_invD(4) [OF f(1)]] unfolding two_states_def by blast
      have sa2: "small_at w2 = small_at w" by (rule small_at_frame(1) [OF af2 S0])
      have "small_allocated w2 k sz (x + sizeof_block) w3"
      proof -
        have sz2: "map_option pl_size (hw_bytes w2 (x + sizeof_block)) = Some (class_size k)"
          using bins_partD(2) [OF small_invD(4) [OF f(1)]] x2 pop(4) by (auto simp: payloads_ok_def)
        have "small_at w3 = (small_at w2)(x + sizeof_block \<mapsto> ucast (ucast sz :: u32))"
        proof
          fix q show "small_at w3 q = ((small_at w2)(x + sizeof_block \<mapsto> ucast (ucast sz :: u32))) q"
          proof (cases "q = x + sizeof_block")
            case True
            then show ?thesis by (simp add: small_at_def w3_def)
          next
            case False
            then have "q - sizeof_block \<noteq> x" by (metis diff_add_cancel)
            then show ?thesis using False by (simp add: small_at_def w3_def)
          qed
        qed
        moreover have "small_at w2 (x + sizeof_block) = None" using pop(2,3) by (simp add: small_at_def)
        moreover have "16 dvd unat (x + sizeof_block)" using ba(3,4) [OF x2] by simp
        ultimately show ?thesis
          unfolding small_allocated_def using pn ba(1) [OF x2] sz2 by (simp add: w3_def)
      qed
      from small_allocated_then [OF this inv4(2) alloc_states [OF inv3] pn]
      have "small_allocated w k sz (x + sizeof_block) w4" by (rule small_allocated_frame [OF af2 _ S0])
      then show ?thesis using run inv4(1) h2 g(3)
        by (intro exI [of _ "x + sizeof_block"] exI [of _ w4] exI [of _ fr'] exI [of _ ?fl] exI [of _ heads2]
            exI [of _ tls'] exI [of _ hl'] conjI allI) simp_all
    qed
  qed
qed

end
