(* ===== verification/Memx_Release.thy ===== *)
theory Memx_Release
  imports Memx_SmallPath
begin

text \<open>
  Release of small objects: a checked release takes back exactly an allocated block and refuses
  any other; an unchecked release takes back an allocated one; no release loses a block.
\<close>

section \<open>Finding the cache of the thread\<close>

lemma find_cache_inv:
  assumes inv: "alloc_inv E live mapped M fr fl heads tls hl w"
  shows "\<exists>c w'. memx_heap_find_cache t w = Some (c, w') \<and> alloc_inv E live mapped M fr fl heads tls hl w'
    \<and> alloc_frame w w' \<and> hw_heap w' = hw_heap w \<and> hw_blocks w' = hw_blocks w
    \<and> own_cache w' = own_cache w \<and> (c = 0 \<or> own_cache w c \<noteq> None)"
proof -
  note I = alloc_invD [OF inv]
  obtain q l where f: "memx_heap_find_cache t w = Some (q, w\<lparr>hw_tls_last := l\<rparr>)"
    "threads_ok fr tls hl (w\<lparr>hw_tls_last := l\<rparr>)" "q = 0 \<or> own_cache w q \<noteq> None \<and> q \<in> set (tls t)"
    using find_cache_ok [OF I(3)] by blast
  let ?w = "w\<lparr>hw_tls_last := l\<rparr>"
  have si: "small_inv E live mapped M fr fl heads ?w"
    by (rule small_inv_mem [OF I(1)]) (simp_all add: small_fields_def small_invD(3) [OF I(1)])
  have "caches_part fl {} ?w" by (rule caches_part_heap [OF I(2)]) simp_all
  then have "alloc_inv E live mapped M fr fl heads tls hl ?w"
    using si f(2) I(4) by (simp add: alloc_inv_def owners_ok_def)
  moreover have "alloc_frame w ?w" by (auto simp: alloc_frame_def)
  ultimately show ?thesis using f(1,3) by (intro exI [of _ q] exI [of _ ?w]) auto
qed

lemma owner_nonzero:
  assumes "threads_ok fr tls hl w" "own_cache w c \<noteq> None"
  shows "c \<noteq> 0"
  using linked_nonzero [OF threads_okD(2) [OF assms(1)]] threads_okD(3) [OF assms(1)] assms(2) by auto

section \<open>Routing a released block\<close>

text \<open>The block goes to the local segment of the thread's own cache, to the remote queue of its
  owner, or to the central bin.\<close>

lemma route_local:
  assumes inv: "alloc_inv E live mapped M fr fl heads tls hl w" and r: "own_cache w c \<noteq> None"
    and x: "fl (Hand k) = [x]" "\<And>j. j \<noteq> k \<Longrightarrow> fl (Hand j) = []"
  shows "\<exists>w' fl' heads'. push_local c k x w = Some w' \<and> alloc_inv E live mapped M fr fl' heads' tls hl w'
    \<and> (\<forall>j. fl' (Hand j) = []) \<and> alloc_frame w w'"
proof -
  note I = alloc_invD [OF inv]
  obtain q where q: "own_cache w c = Some q" using r by auto
  obtain w' fl' heads' where s: "push_local c k x w = Some w'"
    "settled (class_of (hw_heap w)) w (fl(Hand k := [])) {Local c k, Spare c k} (insert x (set (fl (Spare c k)))) w' fl' heads'"
    "caches_part fl' {} w'"
    using push_local_ok [OF small_invD(4) [OF I(1)] I(2) q x(1)] by blast
  note S = small_settled [OF I(1) s(2)]
  have "fl' (Hand j) = []" for j using settledD(3) [OF s(2), of "Hand j"] x(2) [of j] by (cases "j = k") simp_all
  then show ?thesis using s(1) alloc_small_frame [OF inv S(2,1) s(3)] small_alloc_frame [OF S(2)] by blast
qed

lemma route_central:
  assumes inv: "alloc_inv E live mapped M fr fl heads tls hl w"
    and x: "fl (Hand k) = [x]" "\<And>j. j \<noteq> k \<Longrightarrow> fl (Hand j) = []"
  shows "\<exists>w' fl' heads'. memx_heap_push_central_locked k x w = Some w' \<and> alloc_inv E live mapped M fr fl' heads' tls hl w'
    \<and> (\<forall>j. fl' (Hand j) = []) \<and> alloc_frame w w'"
proof -
  note I = alloc_invD [OF inv]
  obtain w' fl' heads' where s: "memx_heap_push_central_locked k x w = Some w'"
    "settled (class_of (hw_heap w)) w (fl(Hand k := [])) {} {x} w' fl' heads'" "hw_caches w' = hw_caches w"
    using push_block_ok [OF small_invD(4) [OF I(1)], of "Hand k" x "[]"] x(1) by auto
  note S = small_settled [OF I(1) s(2)]
  have m: "moved w w'" using settledD(2) [OF s(2)] .
  have o: "own_cache w' = own_cache w" by (rule own_cache_same [OF s(3) moved_self [OF m]])
  have fl': "fl' P = (fl(Hand k := [])) P" if "\<not> in_bin P" for P using settledD(3) [OF s(2) that] by simp
  have "caches_part fl' {} w'"
    by (rule caches_part_same [OF I(2) cap_moved(2,1) [OF m] o]) (simp_all add: fl')
  moreover have "fl' (Hand j) = []" for j using fl' [of "Hand j"] x(2) [of j] by (cases "j = k") simp_all
  ultimately show ?thesis using s(1) alloc_small_frame [OF inv S(2,1)] small_alloc_frame [OF S(2)] by blast
qed

lemma route_remote:
  assumes inv: "alloc_inv E live mapped M fr fl heads tls hl w" and r: "own_cache w c = Some r"
    and x: "fl (Hand k) = [x]" "\<And>j. j \<noteq> k \<Longrightarrow> fl (Hand j) = []"
  shows "\<exists>w1 w' fl'. set_block x (\<lambda>b. b\<lparr>bk_link := ch_remote r k\<rparr>) w = Some w1
    \<and> set_cache c (\<lambda>c. c\<lparr>ch_remote := (ch_remote c)(k := x),
         ch_remote_count := (ch_remote_count c)(k := ch_remote_count c k + 1)\<rparr>) w1 = Some w'
    \<and> alloc_inv E live mapped M fr fl' heads tls hl w' \<and> (\<forall>j. fl' (Hand j) = []) \<and> alloc_frame w w'"
proof -
  note I = alloc_invD [OF inv]
  let ?fl = "fl(Hand k := [], Remote c k := x # fl (Remote c k))"
  obtain w' w1 where s: "set_block x (\<lambda>b. b\<lparr>bk_link := ch_remote r k\<rparr>) w = Some w1"
    "set_cache c (\<lambda>c. c\<lparr>ch_remote := (ch_remote c)(k := x),
         ch_remote_count := (ch_remote_count c)(k := ch_remote_count c k + 1)\<rparr>) w1 = Some w'"
    "bins_part (class_of (hw_heap w)) ?fl heads w'" "moved w w'" "caches_part ?fl {} w'"
    using push_remote_ok [OF small_invD(4) [OF I(1)] I(2) r x(1)] by blast
  note f = small_frame_moved [OF small_invD(1) [OF I(1)] s(4)]
  have "alloc_inv E live mapped M fr ?fl heads tls hl w'"
    by (rule alloc_small_frame [OF inv f small_inv_moved [OF I(1) s(4,3)] s(5)])
  moreover have "\<forall>j. ?fl (Hand j) = []" using x(2) by simp
  ultimately show ?thesis using s(1,2) small_alloc_frame [OF f] by blast
qed

lemma counts_release:
  "\<exists>f. count_release n w = upd_heap f w \<and> counts f"
proof (cases "collects w")
  case True
  then show ?thesis
    by (intro exI conjI) (auto simp: count_release_def counts_def small_fields_def outer_def)
next
  case False
  then show ?thesis by (intro exI [of _ id]) (simp add: count_release_def upd_heap_def counts_def)
qed

lemma counter_if:
  assumes "counts f"
  shows "\<exists>g. (if b then upd_heap f w else w) = upd_heap g w \<and> counts g"
  using assms by (cases b) (auto intro: exI [of _ f] exI [of _ id] simp: upd_heap_def counts_def)

lemma upd_heap_simps [simp]:
  "hw_blocks (upd_heap f w) = hw_blocks w" "hw_caches (upd_heap f w) = hw_caches w"
  "hw_tls (upd_heap f w) = hw_tls w" "hw_tls_last (upd_heap f w) = hw_tls_last w"
  "hw_bytes (upd_heap f w) = hw_bytes w" "hw_heap (upd_heap f w) = f (hw_heap w)"
  "hw_larges (upd_heap f w) = hw_larges w" "hw_mem (upd_heap f w) = hw_mem w" "hw_spans (upd_heap f w) = hw_spans w"
  by (simp_all add: upd_heap_def)

lemma counts_self: "counts f \<Longrightarrow> hp_self (f h) = hp_self h \<and> hp_exclusive_cache (f h) = hp_exclusive_cache h"
  using small_fieldsD(1) by (auto simp: counts_def)

text \<open>The choice of the cache that takes the block.\<close>

definition pick_owner :: "nat \<Rightarrow> u64 \<Rightarrow> 'c heap_world \<Rightarrow> (u64 \<times> u64 \<times> 'c heap_world) option" where
  "pick_owner t link w = (let current = hw_tls_last w t in
     if current \<noteq> 0 \<and> current = hp_exclusive_cache (hw_heap w) then Some (current, current, w)
     else if link \<noteq> current then do { (found, w) \<leftarrow> memx_heap_find_cache t w; Some (link, found, w) }
     else Some (link, current, w))"

lemma route_pick:
  "memx_heap_route_small t x k w = do {
     b \<leftarrow> hw_blocks w x;
     (owner, current, w) \<leftarrow> pick_owner t (bk_link b) (count_release (ucast (bk_requested_size b)) w);
     if owner = current \<and> current \<noteq> 0 then push_local current k x w
     else do {
       accepting \<leftarrow> (if owner = 0 then Some False
                      else do { c \<leftarrow> hw_caches w owner; Some (ch_accepting_remote c) });
       if accepting then do {
         c \<leftarrow> hw_caches w owner;
         w \<leftarrow> set_block x (\<lambda>b. b\<lparr>bk_link := ch_remote c k\<rparr>) w;
         w \<leftarrow> set_cache owner (\<lambda>c. c\<lparr>ch_remote := (ch_remote c)(k := x),
                ch_remote_count := (ch_remote_count c)(k := ch_remote_count c k + 1)\<rparr>) w;
         Some (if collects w then upd_heap (\<lambda>h. h\<lparr>hp_remote_frees := hp_remote_frees h + 1\<rparr>) w else w)
       }
       else memx_heap_push_central_locked k x w
     }
   }"
proof -
  have "hw_tls_last (count_release n w) = hw_tls_last w" for n by (simp add: count_release_def)
  then show ?thesis unfolding memx_heap_route_small_def pick_owner_def Let_def by (simp only: )
qed

lemma pick_owner_ok:
  assumes inv: "alloc_inv E live mapped M fr fl heads tls hl w" and o: "own_cache w link \<noteq> None"
  shows "\<exists>owner current w'. pick_owner t link w = Some (owner, current, w')
    \<and> alloc_inv E live mapped M fr fl heads tls hl w' \<and> alloc_frame w w' \<and> hw_blocks w' = hw_blocks w
    \<and> own_cache w' owner \<noteq> None"
proof (cases "hw_tls_last w t \<noteq> 0 \<and> hw_tls_last w t = hp_exclusive_cache (hw_heap w)")
  case True
  then have "own_cache w (hw_tls_last w t) \<noteq> None" using threads_okD(4) [OF alloc_invD(3) [OF inv]] by auto
  then show ?thesis using True inv by (auto simp: pick_owner_def Let_def)
next
  case False
  show ?thesis
  proof (cases "link = hw_tls_last w t")
    case True
    then show ?thesis using False inv o unfolding pick_owner_def Let_def if_not_P [OF False] by simp
  next
    case n: False
    obtain c w' where "memx_heap_find_cache t w = Some (c, w')" "alloc_inv E live mapped M fr fl heads tls hl w'"
      "alloc_frame w w'" "hw_blocks w' = hw_blocks w" "own_cache w' = own_cache w"
      using find_cache_inv [OF inv] by blast
    then show ?thesis using n o unfolding pick_owner_def Let_def if_not_P [OF False] by simp
  qed
qed

lemma route_ok:
  assumes inv: "alloc_inv E live mapped M fr fl heads tls hl w"
    and b: "hw_blocks w x = Some b" "own_cache w (bk_link b) \<noteq> None"
    and x: "fl (Hand k) = [x]" "\<And>j. j \<noteq> k \<Longrightarrow> fl (Hand j) = []"
  shows "\<exists>w' fl' heads'. memx_heap_route_small t x k w = Some w' \<and> alloc_inv E live mapped M fr fl' heads' tls hl w'
    \<and> (\<forall>j. fl' (Hand j) = []) \<and> alloc_frame w w'"
proof -
  obtain f where f: "count_release (ucast (bk_requested_size b)) w = upd_heap f w" "counts f"
    using counts_release by blast
  let ?w = "upd_heap f w"
  note C = counters_ok [OF inv f(2)] and cs = counts_self [OF f(2)]
  have ow: "own_cache ?w = own_cache w" by (rule own_cache_same) (simp_all add: cs)
  obtain owner current w2 where p: "pick_owner t (bk_link b) ?w = Some (owner, current, w2)"
    "alloc_inv E live mapped M fr fl heads tls hl w2" "alloc_frame ?w w2" "hw_blocks w2 = hw_blocks w"
    "own_cache w2 owner \<noteq> None"
    using pick_owner_ok [OF C(1), of "bk_link b" t] b(2) ow by auto
  note af = alloc_frame_trans [OF C(2) p(3)]
  obtain r where r: "own_cache w2 owner = Some r" using p(5) by auto
  have o0: "owner \<noteq> 0" by (rule owner_nonzero [OF alloc_invD(3) [OF p(2)] p(5)])
  have run: "memx_heap_route_small t x k w =
     (if owner = current \<and> current \<noteq> 0 then push_local current k x w2
      else if ch_accepting_remote r then do {
         w \<leftarrow> set_block x (\<lambda>b. b\<lparr>bk_link := ch_remote r k\<rparr>) w2;
         w \<leftarrow> set_cache owner (\<lambda>c. c\<lparr>ch_remote := (ch_remote c)(k := x),
                ch_remote_count := (ch_remote_count c)(k := ch_remote_count c k + 1)\<rparr>) w;
         Some (if collects w then upd_heap (\<lambda>h. h\<lparr>hp_remote_frees := hp_remote_frees h + 1\<rparr>) w else w)
       }
      else memx_heap_push_central_locked k x w2)"
    using b(1) p(1) o0 own_cacheD(1) [OF r] f(1) unfolding route_pick
    by (cases "ch_accepting_remote r") (simp_all split del: if_split cong: if_cong)
  show ?thesis
  proof (cases "owner = current \<and> current \<noteq> 0")
    case True
    then show ?thesis using route_local [OF p(2,5) x] run alloc_frame_trans [OF af] by auto
  next
    case False
    note run2 = run [unfolded if_not_P [OF False]]
    show ?thesis
    proof (cases "ch_accepting_remote r")
      case no: False
      then show ?thesis using route_central [OF p(2) x] run2 alloc_frame_trans [OF af] by auto
    next
      case yes: True
      obtain w3 w4 fl' where s: "set_block x (\<lambda>b. b\<lparr>bk_link := ch_remote r k\<rparr>) w2 = Some w3"
        "set_cache owner (\<lambda>c. c\<lparr>ch_remote := (ch_remote c)(k := x),
           ch_remote_count := (ch_remote_count c)(k := ch_remote_count c k + 1)\<rparr>) w3 = Some w4"
        "alloc_inv E live mapped M fr fl' heads tls hl w4" "\<forall>j. fl' (Hand j) = []" "alloc_frame w2 w4"
        using route_remote [OF p(2) r x] by blast
      have "counts (\<lambda>h. h\<lparr>hp_remote_frees := hp_remote_frees h + 1\<rparr>)"
        by (simp add: counts_def small_fields_def outer_def)
      from counter_if [OF this] obtain g where g: "(if collects w4 then upd_heap (\<lambda>h. h\<lparr>hp_remote_frees := hp_remote_frees h + 1\<rparr>) w4 else w4)
          = upd_heap g w4" "counts g" by blast
      note G = counters_ok [OF s(3) g(2)]
      have "memx_heap_route_small t x k w = Some (upd_heap g w4)"
        unfolding run2 using yes s(1,2) g(1) by simp
      then show ?thesis using G s(4) alloc_frame_trans [OF alloc_frame_trans [OF af s(5)] G(2)] by blast
    qed
  qed
qed

section \<open>Releasing\<close>

text \<open>The outcome of taking back the allocated pointer \<open>p\<close>.\<close>

definition small_released :: "'c heap_world \<Rightarrow> u64 \<Rightarrow> 'c heap_world \<Rightarrow> bool" where
  "small_released w p w' \<longleftrightarrow> outer (hw_heap w') = outer (hw_heap w) \<and> hw_larges w' = hw_larges w
     \<and> (\<forall>q. \<not> in_arena (hw_heap w) q \<longrightarrow> hw_bytes w' q = hw_bytes w q)
     \<and> (\<forall>q. q \<noteq> p \<longrightarrow> small_at w q \<noteq> None \<longrightarrow> hw_bytes w' q = hw_bytes w q)
     \<and> small_at w' = (small_at w)(p := None)"

lemma release_state:
  assumes inv: "alloc_inv E live mapped M fr fl heads tls hl w" and hand: "\<And>j. fl (Hand j) = []"
    and b: "hw_blocks w x = Some b" "bk_state b = 1" and k: "k = class_of (hw_heap w) x"
  defines "w' \<equiv> w\<lparr>hw_blocks := (hw_blocks w)(x \<mapsto> b\<lparr>bk_state := 0\<rparr>)\<rparr>"
  shows "alloc_inv E live mapped M fr (fl(Hand k := [x])) heads tls hl w'"
    "small_at w' = (small_at w)(x + sizeof_block := None)"
proof -
  note I = alloc_invD [OF inv]
  have s: "hw_blocks w' = (hw_blocks w)(x \<mapsto> b\<lparr>bk_state := 0\<rparr>)" "hw_heap w' = hw_heap w" "hw_caches w' = hw_caches w"
    "hw_bytes w' = hw_bytes w" "hw_spans w' = hw_spans w" "hw_mem w' = hw_mem w" "hw_tls w' = hw_tls w"
    "hw_tls_last w' = hw_tls_last w"
    by (simp_all add: w'_def)
  have o: "own_cache w' = own_cache w" by (rule own_cache_same) (simp_all add: s)
  have "bins_part (class_of (hw_heap w)) (fl(Hand k := x # fl (Hand k))) heads w'"
    by (rule bins_part_add [OF small_invD(4) [OF I(1)] b(1) _ k _ s(1,4)]) (simp_all add: b(2) s)
  then have bp: "bins_part (class_of (hw_heap w)) (fl(Hand k := [x])) heads w'" by (simp add: hand)
  have "small_inv E live mapped M fr (fl(Hand k := [x])) heads w'"
    by (rule small_inv_blocks [OF I(1) _ s(5,6) _ bp]) (use b(1) in \<open>auto simp: s\<close>)
  moreover have "caches_part (fl(Hand k := [x])) {} w'"
    by (rule caches_part_same [OF I(2) _ _ o]) (simp_all add: chunk_cap_def cache_cap_def s)
  moreover have "threads_ok fr tls hl w'" by (rule threads_cong [OF I(3)]) (simp_all add: s)
  moreover have "owners_ok w'" using I(4) by (simp add: owners_ok_def o s)
  ultimately show "alloc_inv E live mapped M fr (fl(Hand k := [x])) heads tls hl w'" by (simp add: alloc_inv_def)
  show "small_at w' = (small_at w)(x + sizeof_block := None)"
  proof
    fix q
    have "q - sizeof_block = x \<longleftrightarrow> q = x + sizeof_block" by (auto simp: algebra_simps)
    then show "small_at w' q = ((small_at w)(x + sizeof_block := None)) q" by (simp add: small_at_def s)
  qed
qed

lemma release_unchecked_ok:
  assumes inv: "alloc_inv E live mapped M fr fl heads tls hl w" and hand: "\<And>j. fl (Hand j) = []"
    and b: "hw_blocks w x = Some b" "bk_state b = 1" and k: "k = class_of (hw_heap w) x"
  shows "\<exists>w' fl' heads'. memx_heap_release_small_unchecked t x k w = Some w'
    \<and> alloc_inv E live mapped M fr fl' heads' tls hl w' \<and> (\<forall>j. fl' (Hand j) = [])
    \<and> small_released w (x + sizeof_block) w'"
proof -
  let ?b = "b\<lparr>bk_state := 0\<rparr>"
  define w1 where "w1 = w\<lparr>hw_blocks := (hw_blocks w)(x \<mapsto> ?b)\<rparr>"
  note R = release_state [OF inv hand b k, folded w1_def]
  have b1: "hw_blocks w1 x = Some ?b" by (simp add: w1_def)
  have "own_cache w1 = own_cache w" by (rule own_cache_same) (simp_all add: w1_def)
  moreover have "own_cache w (bk_link b) \<noteq> None" using alloc_invD(4) [OF inv] b by (auto simp: owners_ok_def)
  ultimately have o1: "own_cache w1 (bk_link ?b) \<noteq> None" by simp
  obtain w' fl' heads' where r: "memx_heap_route_small t x k w1 = Some w'" "alloc_inv E live mapped M fr fl' heads' tls hl w'"
    "\<forall>j. fl' (Hand j) = []" "alloc_frame w1 w'"
    using route_ok [OF R(1) b1 o1, where k = k and t = t] hand by auto
  have run: "memx_heap_release_small_unchecked t x k w = Some w'"
    using r(1) by (simp add: memx_heap_release_small_unchecked_def set_block_eval [OF b(1)] w1_def)
  note F = small_at_frame [OF r(4) alloc_states [OF R(1)]]
  have h1: "hw_heap w1 = hw_heap w" "hw_bytes w1 = hw_bytes w" "hw_larges w1 = hw_larges w" by (simp_all add: w1_def)
  have "small_released w (x + sizeof_block) w'"
    unfolding small_released_def
  proof (intro conjI allI impI)
    show "outer (hw_heap w') = outer (hw_heap w)" "hw_larges w' = hw_larges w"
      using r(4) by (simp_all add: alloc_frame_def h1)
    show "hw_bytes w' q = hw_bytes w q" if "\<not> in_arena (hw_heap w) q" for q
      using r(4) that by (simp add: alloc_frame_def h1)
    show "hw_bytes w' q = hw_bytes w q" if "q \<noteq> x + sizeof_block" "small_at w q \<noteq> None" for q
      using F(2) [of q] that by (simp add: R(2) h1)
    show "small_at w' = (small_at w)(x + sizeof_block := None)" using F(1) R(2) by simp
  qed
  then show ?thesis using run r(2,3) by blast
qed

lemma release_checked_ok:
  assumes inv: "alloc_inv E live mapped M fr fl heads tls hl w" and hand: "\<And>j. fl (Hand j) = []"
    and b: "hw_blocks w x \<noteq> None" and k: "k = class_of (hw_heap w) x"
  shows "\<exists>w' fl' heads'. memx_heap_release_small_checked t x k w = Some (small_at w (x + sizeof_block) \<noteq> None, w')
    \<and> alloc_inv E live mapped M fr fl' heads' tls hl w' \<and> (\<forall>j. fl' (Hand j) = [])
    \<and> small_released w (x + sizeof_block) w'
    \<and> (small_at w (x + sizeof_block) = None \<longrightarrow> hw_blocks w' = hw_blocks w \<and> hw_bytes w' = hw_bytes w)"
proof -
  obtain r where r: "hw_blocks w x = Some r" using b by auto
  have s: "small_at w (x + sizeof_block) \<noteq> None \<longleftrightarrow> bk_state r = 1" by (simp add: small_at_def r)
  show ?thesis
  proof (cases "bk_state r = 1")
    case True
    have "memx_heap_release_small_checked t x k w = do { w \<leftarrow> memx_heap_release_small_unchecked t x k w; Some (True, w) }"
      using r True by (cases "set_block x (\<lambda>b. b\<lparr>bk_state := 0\<rparr>) w")
        (simp_all add: memx_heap_release_small_checked_def memx_heap_release_small_unchecked_def)
    moreover obtain w' fl' heads' where "memx_heap_release_small_unchecked t x k w = Some w'"
      "alloc_inv E live mapped M fr fl' heads' tls hl w'" "\<forall>j. fl' (Hand j) = []" "small_released w (x + sizeof_block) w'"
      using release_unchecked_ok [OF inv hand r True k, of t] by blast
    ultimately show ?thesis using True s
      by (intro exI [of _ w'] exI [of _ fl'] exI [of _ heads']) auto
  next
    case False
    have "counts (\<lambda>h. h\<lparr>hp_invalid_frees := hp_invalid_frees h + 1\<rparr>)"
      by (simp add: counts_def small_fields_def outer_def)
    from counter_if [OF this] obtain g where g: "(if collects w then upd_heap (\<lambda>h. h\<lparr>hp_invalid_frees := hp_invalid_frees h + 1\<rparr>) w else w)
        = upd_heap g w" "counts g" by blast
    note G = counters_ok [OF inv g(2)]
    have run: "memx_heap_release_small_checked t x k w = Some (False, upd_heap g w)"
      using r False g(1) by (simp add: memx_heap_release_small_checked_def)
    have sa: "small_at (upd_heap g w) = small_at w" by (simp add: small_at_def fun_eq_iff)
    have "small_released w (x + sizeof_block) (upd_heap g w)"
      using G(2) False s by (auto simp: small_released_def alloc_frame_def sa)
    then show ?thesis using run G(1) hand False s
      by (intro exI [of _ "upd_heap g w"] exI [of _ fl] exI [of _ heads]) simp
  qed
qed

end
