(* ===== verification/Memx_HeapApi.thy ===== *)
theory Memx_HeapApi
  imports Memx_HeapLarge
begin

text \<open>
  The public interface of \<^verbatim>\<open>src/allocator/heap.c\<close>: creation and destruction of a heap, allocation,
  release, resizing, usable size and statistics.  A heap is passed by its address, 0 for the null
  pointer; the address must be that of the heap in the world.
\<close>

datatype memx_heap_status =
    MEMX_HEAP_OK | MEMX_HEAP_ERROR_INVALID_ARGUMENT | MEMX_HEAP_ERROR_OUT_OF_MEMORY
  | MEMX_HEAP_ERROR_UNSUPPORTED | MEMX_HEAP_ERROR_BUSY

definition memx_heap_status_string :: "u32 \<Rightarrow> string" where
  "memx_heap_status_string code =
     (if code = 0 then ''ok''
      else if code = 1 then ''invalid argument''
      else if code = 2 then ''out of memory''
      else if code = 3 then ''unsupported''
      else if code = 4 then ''busy''
      else ''unknown status'')"

definition memx_heap_config_default :: memx_heap_config where
  "memx_heap_config_default =
     \<lparr>hc_reserve_size = 256 * 1024 * 1024, hc_span_shift = 16, hc_cache_batch = 256,
      hc_cache_limit = 256, hc_collect_activity_statistics = False\<rparr>"

section \<open>Locks\<close>

text \<open>The result of \<^verbatim>\<open>memx_heap_init_locks\<close> with the value it leaves in
  \<^verbatim>\<open>initialized_class_locks\<close>.\<close>

fun init_class_locks :: "'c heap_env \<Rightarrow> nat \<Rightarrow> nat \<Rightarrow> 'c \<Rightarrow> bool \<times> u64 \<times> 'c" where
  "init_class_locks E i 0 c = (True, SIZE_MAX, c)"
| "init_class_locks E i (Suc n) c = (
     let (ok, c) = he_mutex_init E c in
     if \<not> ok then (False, of_nat i, c) else init_class_locks E (Suc i) n c)"

definition memx_heap_init_locks :: "'c heap_env \<Rightarrow> 'c \<Rightarrow> bool \<times> u64 \<times> 'c" where
  "memx_heap_init_locks E c = (
     let (ok, c) = he_mutex_init E c in
     if \<not> ok then (False, 0, c)
     else let (ok, c) = he_mutex_init E c in
     if \<not> ok then (False, 0, he_mutex_destroy E c)
     else init_class_locks E 0 19 c)"

definition memx_heap_destroy_locks :: "'c heap_env \<Rightarrow> u64 \<Rightarrow> 'c \<Rightarrow> 'c" where
  "memx_heap_destroy_locks E initialized c =
     (if initialized = 0 then c
      else let n = (if initialized = SIZE_MAX then 19 else unat initialized)
           in (he_mutex_destroy E ^^ (n + 2)) c)"

section \<open>Creation\<close>

definition heap_config_valid :: "'c sys_calls \<Rightarrow> memx_heap_config \<Rightarrow> bool" where
  "heap_config_valid sys cfg \<longleftrightarrow>
     \<not> (64 \<le> hc_span_shift cfg \<or> hc_cache_batch cfg = 0 \<or> UINT32_MAX < hc_cache_batch cfg
        \<or> hc_cache_limit cfg < 2)
     \<and> (let span_size = push_bit (unat (hc_span_shift cfg)) (1 :: u64);
            page_size = memx_os_page_size sys;
            span_header = span_header_size;
            largest_block_stride = block_stride 18
        in \<not> (\<not> memx_heap_power_of_two page_size \<or> span_size < page_size \<or> span_size mod page_size \<noteq> 0
              \<or> \<not> memx_heap_power_of_two span_size \<or> span_header = 0 \<or> largest_block_stride = 0
              \<or> span_size < span_header \<or> span_size - span_header < largest_block_stride
              \<or> hc_reserve_size cfg = 0 \<or> hc_reserve_size cfg mod span_size \<noteq> 0))"

definition heap_index_config :: "memx_heap_config \<Rightarrow> u64 \<times> u64 \<Rightarrow> 'c memx_config" where
  "heap_index_config cfg arena =
     memx_config_default\<lparr>directory_mode := MEMX_DIRECTORY_BOUNDED, base_address := fst arena,
       managed_size := snd arena, region_shift := hc_span_shift cfg, granule_shift := 12\<rparr>"

text \<open>Giving back what a creation has taken so far: the class table when there is one, the locks
  and the heap structure.\<close>

definition abandon_heap ::
  "'c heap_env \<Rightarrow> u64 \<Rightarrow> u64 \<Rightarrow> u64 \<Rightarrow> 'c heap_world \<Rightarrow> 'c heap_world option" where
  "abandon_heap E p classes locks w = do {
     m \<leftarrow> c_free (he_allocator E) classes (hw_mem w);
     let w = w\<lparr>hw_mem := m\<rparr>;
     let w = upd_ctx (memx_heap_destroy_locks E locks (ctx (hw_mem w))) w;
     m \<leftarrow> c_free (he_allocator E) p (hw_mem w);
     Some (w\<lparr>hw_mem := m\<rparr>)
   }"

text \<open>The result is the status and the heap stored in \<^verbatim>\<open>*out_heap\<close>, 0 for null.\<close>

definition memx_heap_create ::
  "'c heap_env \<Rightarrow> memx_heap_config option \<Rightarrow> bool \<Rightarrow> 'c heap_world
     \<Rightarrow> (memx_heap_status \<times> u64 \<times> 'c heap_world) option" where
  "memx_heap_create E requested out_heap_present w = (
     let cfg = (case requested of None \<Rightarrow> memx_heap_config_default | Some cfg \<Rightarrow> cfg) in
     if \<not> out_heap_present then Some (MEMX_HEAP_ERROR_INVALID_ARGUMENT, 0, w)
     else if \<not> heap_config_valid (he_sys E) cfg then Some (MEMX_HEAP_ERROR_INVALID_ARGUMENT, 0, w)
     else do {
       (p, m) \<leftarrow> c_malloc (he_allocator E) sizeof_heap (hw_mem w);
       let w = w\<lparr>hw_mem := m\<rparr>;
       if p = 0 then Some (MEMX_HEAP_ERROR_OUT_OF_MEMORY, 0, w)
       else
         let span_size = push_bit (unat (hc_span_shift cfg)) (1 :: u64);
             span_capacity = hc_reserve_size cfg div span_size;
             (huge_page_size, cached) = memx_os_huge_page_size (he_sys E) (hw_huge_cache w);
             w = w\<lparr>hw_huge_cache := cached\<rparr>;
             granularity = (if span_size < huge_page_size \<and> hc_reserve_size cfg mod huge_page_size = 0
                            then huge_page_size else span_size);
             (ok, locks, c) = memx_heap_init_locks E (ctx (hw_mem w));
             w = upd_ctx c w
         in if \<not> ok then do {
              w \<leftarrow> abandon_heap E p 0 locks w;
              Some (MEMX_HEAP_ERROR_OUT_OF_MEMORY, 0, w)
            }
            else do {
              (classes, m) \<leftarrow> c_malloc (he_allocator E) span_capacity (hw_mem w);
              let w = w\<lparr>hw_mem := m\<rparr>;
              if classes = 0 then do {
                w \<leftarrow> abandon_heap E p 0 locks w;
                Some (MEMX_HEAP_ERROR_OUT_OF_MEMORY, 0, w)
              }
              else
                let (arena, c) = memx_os_reserve_aligned (he_sys E) (hc_reserve_size cfg) granularity
                                   (ctx (hw_mem w));
                    w = upd_ctx c w
                in case arena of
                     None \<Rightarrow> do {
                       w \<leftarrow> abandon_heap E p classes locks w;
                       Some (MEMX_HEAP_ERROR_OUT_OF_MEMORY, 0, w)
                     }
                   | Some arena \<Rightarrow>
                      (let w = (if granularity \<noteq> span_size
                                then upd_ctx (memx_os_advise_huge_pages (he_sys E) (fst arena) (snd arena)
                                       (ctx (hw_mem w))) w else w)
                       in do {
                         (status, index, m) \<leftarrow> memx_index_create (he_libc E)
                            (Some (heap_index_config cfg arena)) True (hw_mem w);
                         let w = w\<lparr>hw_mem := m\<rparr>;
                         if status \<noteq> MEMX_OK then do {
                           let w = upd_ctx (memx_os_release (he_sys E) arena (ctx (hw_mem w))) w;
                           w \<leftarrow> abandon_heap E p classes locks w;
                           Some (MEMX_HEAP_ERROR_OUT_OF_MEMORY, 0, w)
                         }
                         else do {
                           ix \<leftarrow> index;
                           Some (MEMX_HEAP_OK, p, w\<lparr>hw_heap :=
                             \<lparr>hp_self = p, hp_config = cfg, hp_arena = arena, hp_span_size = span_size,
                              hp_span_capacity = span_capacity, hp_next_span = 0,
                              hp_commit_granularity = granularity, hp_committed_bytes = 0,
                              hp_span_classes = classes,
                              hp_class_table = replicate (unat span_capacity) 0, hp_index = ix,
                              hp_initialized_class_locks = locks,
                              hp_central = (\<lambda>k. 0), hp_central_count = (\<lambda>k. 0), hp_spans = 0,
                              hp_large_buckets = 0, hp_large_bucket_count = 0, hp_large_count = 0,
                              hp_caches = 0, hp_exclusive_cache = 0, hp_live_requested_bytes = 0,
                              hp_peak_live_requested_bytes = 0, hp_committed_spans = 0,
                              hp_large_allocation_count = 0, hp_frees = 0, hp_remote_frees = 0,
                              hp_invalid_frees = 0, hp_thread_cache_count = 0\<rparr>\<rparr>)
                         }
                       })
            }
     })"

section \<open>Destruction\<close>

partial_function (option) release_chain ::
  "'c heap_env \<Rightarrow> u64 \<Rightarrow> 'c heap_world \<Rightarrow> 'c heap_world option" where
  "release_chain E large w =
     (if large = 0 then Some w
      else do {
        l \<leftarrow> hw_larges w large;
        w \<leftarrow> free_large E large (release_mapping E l w);
        release_chain E (lg_next l) w
      })"

fun release_buckets :: "'c heap_env \<Rightarrow> nat \<Rightarrow> nat \<Rightarrow> 'c heap_world \<Rightarrow> 'c heap_world option" where
  "release_buckets E i 0 w = Some w"
| "release_buckets E i (Suc n) w = do {
     large \<leftarrow> read_root (hw_mem w) (hp_large_buckets (hw_heap w)) i;
     w \<leftarrow> release_chain E large w;
     release_buckets E (Suc i) n w
   }"

partial_function (option) free_caches :: "'c heap_env \<Rightarrow> u64 \<Rightarrow> 'c heap_world \<Rightarrow> 'c heap_world option" where
  "free_caches E cache w =
     (if cache = 0 then Some w
      else do {
        c \<leftarrow> hw_caches w cache;
        let w = upd_ctx (he_mutex_destroy E (ctx (hw_mem w))) w;
        m \<leftarrow> c_free (he_allocator E) cache (hw_mem w);
        free_caches E (ch_heap_next c) (w\<lparr>hw_mem := m, hw_caches := (hw_caches w)(cache := None)\<rparr>)
      })"

partial_function (option) clear_spans :: "u64 \<Rightarrow> 'c heap_world \<Rightarrow> 'c heap_world option" where
  "clear_spans span w =
     (if span = 0 then Some w
      else do {
        s \<leftarrow> hw_spans w span;
        clear_spans (sp_next s) (w\<lparr>hw_spans := (hw_spans w)(span \<mapsto> s\<lparr>sp_magic := 0\<rparr>)\<rparr>)
      })"

text \<open>Unmapping the arena ends the life of everything in it.\<close>

definition memx_heap_destroy :: "'c heap_env \<Rightarrow> nat \<Rightarrow> u64 \<Rightarrow> 'c heap_world \<Rightarrow> 'c heap_world option" where
  "memx_heap_destroy E t heap' w =
     (if heap' = 0 then Some w
      else if heap' \<noteq> hp_self (hw_heap w) then None
      else do {
        w \<leftarrow> memx_heap_thread_detach t heap' w;
        w \<leftarrow> release_buckets E 0 (unat (hp_large_bucket_count (hw_heap w))) w;
        m \<leftarrow> c_free (he_allocator E) (hp_large_buckets (hw_heap w)) (hw_mem w);
        let w = w\<lparr>hw_mem := m\<rparr>;
        w \<leftarrow> free_caches E (hp_caches (hw_heap w)) w;
        w \<leftarrow> clear_spans (hp_spans (hw_heap w)) w;
        m \<leftarrow> memx_index_destroy (sys_munmap (he_sys E)) (Some (hp_index (hw_heap w))) (hw_mem w);
        let w = w\<lparr>hw_mem := m\<rparr>;
        let w = (upd_ctx (memx_os_release (he_sys E) (hp_arena (hw_heap w)) (ctx (hw_mem w))) w)
                  \<lparr>hw_blocks := Map.empty, hw_spans := Map.empty, hw_bytes := Map.empty\<rparr>;
        abandon_heap E heap' (hp_span_classes (hw_heap w)) (hp_initialized_class_locks (hw_heap w)) w
      })"

section \<open>Ownership of a pointer\<close>

text \<open>The block and its span, \<^term>\<open>Some None\<close> for the null result.\<close>

definition memx_heap_small_block_locked ::
  "u64 \<Rightarrow> 'c heap_world \<Rightarrow> (u64 \<times> memx_heap_span) option option" where
  "memx_heap_small_block_locked address w = (
     let h = hw_heap w; arena = fst (hp_arena h) in
     if address < arena \<or> snd (hp_arena h) \<le> address - arena then Some None
     else do {
       handle \<leftarrow> memx_lookup_address (Some (hp_index h)) (hw_mem w) address;
       if handle = MEMX_HANDLE_INVALID then Some None
       else if handle = 0 then Some None
       else do {
         s \<leftarrow> hw_spans w handle;
         if sp_magic s \<noteq> MEMX_HEAP_SPAN_MAGIC \<or> sp_heap s \<noteq> hp_self h
            \<or> MEMX_HEAP_CLASS_COUNT \<le> sp_class_index s then Some None
         else if address < sp_base s + sizeof_block then Some None
         else let header_address = address - sizeof_block;
                  offset = header_address - sp_base s
              in if offset mod sp_block_stride s \<noteq> 0 \<or> sp_block_count s \<le> offset div sp_block_stride s
                    \<or> address \<noteq> header_address + sizeof_block then Some None
                 else Some (Some (header_address, s))
       }
     })"

text \<open>What the three callers do: the block, the record of a large pointer, or neither.\<close>

definition memx_heap_requested_size :: "u64 \<Rightarrow> 'c heap_world \<Rightarrow> u64 option" where
  "memx_heap_requested_size pointer w = do {
     small \<leftarrow> memx_heap_small_block_locked pointer w;
     case small of
       Some (block, s) \<Rightarrow> do {
         b \<leftarrow> hw_blocks w block;
         Some (if bk_state b = 1 then ucast (bk_requested_size b) else 0)
       }
     | None \<Rightarrow> do {
         (large, _) \<leftarrow> memx_heap_find_large_locked pointer w;
         if large = 0 then Some 0 else do { l \<leftarrow> hw_larges w large; Some (lg_requested_size l) }
       }
   }"

definition memx_heap_usable_size :: "u64 \<Rightarrow> u64 \<Rightarrow> 'c heap_world \<Rightarrow> u64 option" where
  "memx_heap_usable_size heap' pointer w =
     (if heap' = 0 \<or> pointer = 0 then Some 0
      else if heap' \<noteq> hp_self (hw_heap w) then None
      else do {
        small \<leftarrow> memx_heap_small_block_locked pointer w;
        case small of
          Some (block, s) \<Rightarrow> do {
            b \<leftarrow> hw_blocks w block;
            Some (if bk_state b = 1 then memx_heap_class_sizes ! unat (sp_class_index s) else 0)
          }
        | None \<Rightarrow> do {
            (large, _) \<leftarrow> memx_heap_find_large_locked pointer w;
            if large = 0 then Some 0 else do { l \<leftarrow> hw_larges w large; Some (lg_requested_size l) }
          }
      })"

section \<open>Allocation\<close>

definition memx_heap_malloc ::
  "'c heap_env \<Rightarrow> nat \<Rightarrow> u64 \<Rightarrow> u64 \<Rightarrow> 'c heap_world \<Rightarrow> (u64 \<times> 'c heap_world) option" where
  "memx_heap_malloc E t heap' requested_size w = (
     let sz = (if requested_size = 0 then 1 else requested_size) in
     if heap' = 0 then Some (0, w)
     else if heap' \<noteq> hp_self (hw_heap w) then None
     else let class_index = memx_heap_class_for_size sz in
     if class_index < MEMX_HEAP_CLASS_COUNT
     then memx_heap_allocate_small E t sz (unat class_index) w
     else memx_heap_allocate_large E max_align sz w)"

definition memx_heap_aligned_alloc ::
  "'c heap_env \<Rightarrow> nat \<Rightarrow> u64 \<Rightarrow> u64 \<Rightarrow> u64 \<Rightarrow> 'c heap_world \<Rightarrow> (u64 \<times> 'c heap_world) option" where
  "memx_heap_aligned_alloc E t heap' alignment requested_size w = (
     let sz = (if requested_size = 0 then 1 else requested_size) in
     if heap' = 0 \<or> alignment < 8 \<or> \<not> memx_heap_power_of_two alignment then Some (0, w)
     else if heap' \<noteq> hp_self (hw_heap w) then None
     else let class_index = memx_heap_class_for_size sz in
     if alignment \<le> max_align \<and> class_index < MEMX_HEAP_CLASS_COUNT
     then memx_heap_allocate_small E t sz (unat class_index) w
     else memx_heap_allocate_large E alignment sz w)"

text \<open>\<^verbatim>\<open>memset\<close> and \<^verbatim>\<open>memcpy\<close> on payloads.\<close>

definition fill_bytes :: "u64 \<Rightarrow> u64 \<Rightarrow> 'c heap_world \<Rightarrow> 'c heap_world option" where
  "fill_bytes p n w = do {
     pl \<leftarrow> hw_bytes w p;
     if pl_size pl < unat n then None
     else Some (w\<lparr>hw_bytes := (hw_bytes w)(p \<mapsto>
            pl\<lparr>pl_bytes := (\<lambda>i. if i < unat n then 0 else pl_bytes pl i)\<rparr>)\<rparr>)
   }"

definition copy_bytes :: "u64 \<Rightarrow> u64 \<Rightarrow> u64 \<Rightarrow> 'c heap_world \<Rightarrow> 'c heap_world option" where
  "copy_bytes dst src n w = do {
     from \<leftarrow> hw_bytes w src;
     pl \<leftarrow> hw_bytes w dst;
     if pl_size pl < unat n \<or> pl_size from < unat n then None
     else Some (w\<lparr>hw_bytes := (hw_bytes w)(dst \<mapsto>
            pl\<lparr>pl_bytes := (\<lambda>i. if i < unat n then pl_bytes from i else pl_bytes pl i)\<rparr>)\<rparr>)
   }"

definition memx_heap_calloc ::
  "'c heap_env \<Rightarrow> nat \<Rightarrow> u64 \<Rightarrow> u64 \<Rightarrow> u64 \<Rightarrow> 'c heap_world \<Rightarrow> (u64 \<times> 'c heap_world) option" where
  "memx_heap_calloc E t heap' count sz w =
     (if count \<noteq> 0 \<and> SIZE_MAX div count < sz then Some (0, w)
      else do {
        let bytes = count * sz;
        (pointer, w) \<leftarrow> memx_heap_malloc E t heap' bytes w;
        if pointer = 0 then Some (0, w)
        else do { w \<leftarrow> fill_bytes pointer bytes w; Some (pointer, w) }
      })"

section \<open>Release\<close>

definition memx_heap_class_for_arena_offset :: "'c heap_world \<Rightarrow> u64 \<Rightarrow> nat option" where
  "memx_heap_class_for_arena_offset w offset = (
     let h = hw_heap w; i = unat (drop_bit (unat (hc_span_shift (hp_config h))) offset)
     in if i < length (hp_class_table h) then Some (unat (hp_class_table h ! i)) else None)"

definition memx_heap_free ::
  "'c heap_env \<Rightarrow> nat \<Rightarrow> u64 \<Rightarrow> u64 \<Rightarrow> 'c heap_world \<Rightarrow> (bool \<times> 'c heap_world) option" where
  "memx_heap_free E t heap' pointer w =
     (if pointer = 0 then Some (True, w)
      else if heap' = 0 then Some (False, w)
      else if heap' \<noteq> hp_self (hw_heap w) then None
      else do {
        small \<leftarrow> memx_heap_small_block_locked pointer w;
        case small of
          Some (block, s) \<Rightarrow> memx_heap_release_small_checked t block (unat (sp_class_index s)) w
        | None \<Rightarrow> free_large_pointer E pointer w
      })"

definition memx_heap_free_unchecked ::
  "'c heap_env \<Rightarrow> nat \<Rightarrow> u64 \<Rightarrow> u64 \<Rightarrow> 'c heap_world \<Rightarrow> 'c heap_world option" where
  "memx_heap_free_unchecked E t heap' pointer w =
     (if pointer = 0 \<or> heap' = 0 then Some w
      else if heap' \<noteq> hp_self (hw_heap w) then None
      else let arena = fst (hp_arena (hw_heap w)) in
      if arena \<le> pointer \<and> pointer - arena < snd (hp_arena (hw_heap w)) then do {
        k \<leftarrow> memx_heap_class_for_arena_offset w (pointer - arena);
        memx_heap_release_small_unchecked t (pointer - sizeof_block) k w
      }
      else do { (_, w) \<leftarrow> memx_heap_free E t heap' pointer w; Some w })"

section \<open>Resizing\<close>

definition memx_heap_account_resize :: "u64 \<Rightarrow> u64 \<Rightarrow> 'c heap_world \<Rightarrow> 'c heap_world" where
  "memx_heap_account_resize old_size new_size w =
     (if \<not> collects w then w
      else if old_size < new_size then memx_heap_add_live (new_size - old_size) w
      else upd_heap (\<lambda>h. h\<lparr>hp_live_requested_bytes :=
             hp_live_requested_bytes h - (old_size - new_size)\<rparr>) w)"

definition memx_heap_resize_in_place ::
  "u64 \<Rightarrow> u64 \<Rightarrow> 'c heap_world \<Rightarrow> (bool \<times> 'c heap_world) option" where
  "memx_heap_resize_in_place pointer new_size w = do {
     small \<leftarrow> memx_heap_small_block_locked pointer w;
     (resized, old_size, w) \<leftarrow>
       (case small of
          Some (block, s) \<Rightarrow> do {
            b \<leftarrow> hw_blocks w block;
            if bk_state b = 1 \<and> new_size \<le> memx_heap_class_sizes ! unat (sp_class_index s)
            then do {
              w \<leftarrow> set_block block (\<lambda>b. b\<lparr>bk_requested_size := ucast new_size\<rparr>) w;
              Some (True, ucast (bk_requested_size b), w)
            }
            else Some (False, 0, w)
          }
        | None \<Rightarrow> do {
            (large, _) \<leftarrow> memx_heap_find_large_locked pointer w;
            if large = 0 then Some (False, 0, w)
            else do {
              l \<leftarrow> hw_larges w large;
              if new_size \<le> lg_requested_size l
              then do {
                w \<leftarrow> set_large large (\<lambda>l. l\<lparr>lg_requested_size := new_size\<rparr>) w;
                Some (True, lg_requested_size l, w)
              }
              else Some (False, 0, w)
            }
          });
     Some (resized, if resized then memx_heap_account_resize old_size new_size w else w)
   }"

definition memx_heap_realloc ::
  "'c heap_env \<Rightarrow> nat \<Rightarrow> u64 \<Rightarrow> u64 \<Rightarrow> u64 \<Rightarrow> 'c heap_world \<Rightarrow> (u64 \<times> 'c heap_world) option" where
  "memx_heap_realloc E t heap' pointer sz w =
     (if heap' = 0 then Some (0, w)
      else if pointer = 0 then memx_heap_malloc E t heap' sz w
      else if sz = 0 then do { (_, w) \<leftarrow> memx_heap_free E t heap' pointer w; Some (0, w) }
      else if heap' \<noteq> hp_self (hw_heap w) then None
      else do {
        (resized, w) \<leftarrow> memx_heap_resize_in_place pointer sz w;
        if resized then Some (pointer, w)
        else do {
          old_size \<leftarrow> memx_heap_requested_size pointer w;
          if old_size = 0 then Some (0, w)
          else do {
            (replacement, w) \<leftarrow> memx_heap_malloc E t heap' sz w;
            if replacement = 0 then Some (0, w)
            else do {
              w \<leftarrow> copy_bytes replacement pointer (if old_size < sz then old_size else sz) w;
              (freed, w) \<leftarrow> memx_heap_free E t heap' pointer w;
              if \<not> freed then do {
                w \<leftarrow> memx_heap_free_unchecked E t heap' replacement w;
                Some (0, w)
              }
              else Some (replacement, w)
            }
          }
        }
      })"

definition memx_heap_realloc_unchecked ::
  "'c heap_env \<Rightarrow> nat \<Rightarrow> u64 \<Rightarrow> u64 \<Rightarrow> u64 \<Rightarrow> 'c heap_world \<Rightarrow> (u64 \<times> 'c heap_world) option" where
  "memx_heap_realloc_unchecked E t heap' pointer sz w =
     (if heap' = 0 then Some (0, w)
      else if pointer = 0 then memx_heap_malloc E t heap' sz w
      else if sz = 0 then do { w \<leftarrow> memx_heap_free_unchecked E t heap' pointer w; Some (0, w) }
      else if heap' \<noteq> hp_self (hw_heap w) then None
      else let arena = fst (hp_arena (hw_heap w)) in
      if pointer < arena \<or> snd (hp_arena (hw_heap w)) \<le> pointer - arena
      then memx_heap_realloc E t heap' pointer sz w
      else do {
        let block = pointer - sizeof_block;
        k \<leftarrow> memx_heap_class_for_arena_offset w (pointer - arena);
        b \<leftarrow> hw_blocks w block;
        let old_size = (ucast (bk_requested_size b) :: u64);
        if 19 \<le> k then None
        else if sz \<le> memx_heap_class_sizes ! k then do {
          w \<leftarrow> set_block block (\<lambda>b. b\<lparr>bk_requested_size := ucast sz\<rparr>) w;
          Some (pointer, memx_heap_account_resize old_size sz w)
        }
        else do {
          (replacement, w) \<leftarrow> memx_heap_malloc E t heap' sz w;
          if replacement = 0 then Some (0, w)
          else do {
            w \<leftarrow> copy_bytes replacement pointer old_size w;
            w \<leftarrow> memx_heap_free_unchecked E t heap' pointer w;
            Some (replacement, w)
          }
        }
      })"

section \<open>Statistics\<close>

record memx_heap_stats =
  hs_arena_reserved_bytes :: u64
  hs_arena_committed_bytes :: u64
  hs_live_requested_bytes :: u64
  hs_peak_live_requested_bytes :: u64
  hs_committed_spans :: u64
  hs_small_allocations :: u64
  hs_large_allocations :: u64
  hs_frees :: u64
  hs_remote_frees :: u64
  hs_cache_hits :: u64
  hs_cache_misses :: u64
  hs_invalid_frees :: u64
  hs_active_large_allocations :: u64
  hs_thread_caches :: u64
  hs_large_index_bytes :: u64

definition heap_stats_zero :: memx_heap_stats where
  "heap_stats_zero =
     \<lparr>hs_arena_reserved_bytes = 0, hs_arena_committed_bytes = 0, hs_live_requested_bytes = 0,
      hs_peak_live_requested_bytes = 0, hs_committed_spans = 0, hs_small_allocations = 0,
      hs_large_allocations = 0, hs_frees = 0, hs_remote_frees = 0, hs_cache_hits = 0,
      hs_cache_misses = 0, hs_invalid_frees = 0, hs_active_large_allocations = 0,
      hs_thread_caches = 0, hs_large_index_bytes = 0\<rparr>"

text \<open>The loop over \<^verbatim>\<open>heap->caches\<close>.\<close>

partial_function (option) sum_caches ::
  "'c heap_world \<Rightarrow> u64 \<Rightarrow> u64 \<times> u64 \<times> u64 \<Rightarrow> (u64 \<times> u64 \<times> u64) option" where
  "sum_caches w cache acc =
     (if cache = 0 then Some acc
      else do {
        c \<leftarrow> hw_caches w cache;
        sum_caches w (ch_heap_next c)
          (fst acc + ch_allocation_count c, fst (snd acc) + ch_cache_hits c,
           snd (snd acc) + ch_cache_misses c)
      })"

definition memx_heap_get_stats :: "u64 \<Rightarrow> 'c heap_world \<Rightarrow> memx_heap_stats option" where
  "memx_heap_get_stats heap' w =
     (if heap' = 0 then Some heap_stats_zero
      else if heap' \<noteq> hp_self (hw_heap w) then None
      else do {
        let h = hw_heap w;
        (allocations, hits, misses) \<leftarrow> sum_caches w (hp_caches h) (0, 0, 0);
        Some \<lparr>hs_arena_reserved_bytes = snd (hp_arena h),
              hs_arena_committed_bytes = hp_committed_bytes h,
              hs_live_requested_bytes = hp_live_requested_bytes h,
              hs_peak_live_requested_bytes = hp_peak_live_requested_bytes h,
              hs_committed_spans = hp_committed_spans h,
              hs_small_allocations = allocations,
              hs_large_allocations = hp_large_allocation_count h,
              hs_frees = hp_frees h, hs_remote_frees = hp_remote_frees h,
              hs_cache_hits = hits, hs_cache_misses = misses,
              hs_invalid_frees = hp_invalid_frees h,
              hs_active_large_allocations = hp_large_count h,
              hs_thread_caches = hp_thread_cache_count h,
              hs_large_index_bytes = hp_large_bucket_count h * 8\<rparr>
      })"

end
