(* ===== verification/Memx_Owner.thy ===== *)
theory Memx_Owner
  imports Memx_Release Memx_HeapApi
begin

text \<open>
  Ownership of a pointer: the allocator finds the block of a pointer through the address index,
  the span header and the stride of the blocks.  A pointer resolves exactly when it is the payload
  of a block of a span, to that block and its class; any other address resolves to nothing.
\<close>

section \<open>The address index\<close>

lemma lookup_span_map:
  assumes "small_inv E live mapped M fr fl heads w"
  shows "memx_lookup_address (Some (hp_index (hw_heap w))) (hw_mem w) a = Some (span_map (hw_heap w) a)"
proof -
  note I = small_invD [OF assms]
  have "adaptive_ok (tagged live mapped M) fr (hp_index (hw_heap w), hw_mem w)"
    using I(3) by (simp add: adaptive_ok_def mem_ok_def)
  from adaptive_look [OF this, of a] show ?thesis using I(2) by (simp add: index_look_def index_maps_def)
qed

lemma in_arena_iff:
  assumes "arena_ok h"
  shows "in_arena h p \<longleftrightarrow> \<not> (p < fst (hp_arena h) \<or> snd (hp_arena h) \<le> p - fst (hp_arena h))"
proof (cases "p < fst (hp_arena h)")
  case True
  then show ?thesis by (simp add: in_arena_def word_less_nat_alt)
next
  case False
  then have "unat (p - fst (hp_arena h)) = unat p - arena_start h" by (simp add: unat_sub_exact word_le_nat_alt not_less)
  then show ?thesis using False by (auto simp: in_arena_def word_less_nat_alt word_le_nat_alt)
qed

section \<open>The block of a pointer\<close>

lemma span_of_in_arena:
  assumes ar: "arena_ok h" and p: "in_arena h p"
  shows "span_of h p < unat (hp_span_capacity h)"
    "arena_start h + span_of h p * 2 ^ span_bits h \<le> unat p"
    "unat p < arena_start h + span_of h p * 2 ^ span_bits h + 2 ^ span_bits h"
proof -
  let ?S = "(2 :: nat) ^ span_bits h"
  have "unat p - arena_start h < unat (hp_span_capacity h) * ?S"
    using p arena_okD(5) [OF ar] unfolding in_arena_def by linarith
  then show "span_of h p < unat (hp_span_capacity h)" by (simp add: span_of_def less_mult_imp_div_less)
  have "span_of h p * ?S \<le> unat p - arena_start h \<and> unat p - arena_start h < (span_of h p + 1) * ?S"
    using div_eq_bounds [of ?S "unat p - arena_start h" "span_of h p"] by (simp add: span_of_def)
  then show "arena_start h + span_of h p * ?S \<le> unat p" "unat p < arena_start h + span_of h p * ?S + ?S"
    using p by (auto simp: in_arena_def algebra_simps)
qed

text \<open>The tests of the code on an address of a claimed span pick out its blocks.\<close>

lemma block_test:
  assumes ar: "arena_ok h" and p: "in_arena h p" and j: "j = span_of h p" and k: "k = span_class h j" "k < 19"
  defines "base \<equiv> span_start h j + 64"
  shows "(sizeof_block \<le> p - base \<and> base + sizeof_block \<le> p \<and> (p - sizeof_block - base) mod block_stride k = 0
      \<and> unat ((p - sizeof_block - base) div block_stride k) < blocks_in h k)
    \<longleftrightarrow> p - sizeof_block \<in> blocks_at h j"
    "base + sizeof_block \<le> p \<Longrightarrow> unat (p - sizeof_block) = unat p - 16"
proof -
  note A = arena_okD [OF ar] and P = span_of_in_arena [OF ar p, folded j]
  have s: "unat (span_start h j) = arena_start h + j * 2 ^ span_bits h" using span_start_unat [OF ar] P(1) by simp
  note r = span_room [OF ar P(1)]
  have b: "unat base = unat (span_start h j) + 64"
    using unat_add_exact [of "span_start h j" 64] s r A(4,8) by (simp add: base_def)
  have b16: "unat (base + sizeof_block) = unat base + 16"
    using unat_add_exact [of base 16] b s r A(4,8) by (simp add: sizeof_block_def)
  have pm: "unat (p - sizeof_block) = unat p - 16" if "base + sizeof_block \<le> p"
    using that b16 unat_sub_exact [of 16 p] by (simp add: sizeof_block_def word_le_nat_alt)
  then show "base + sizeof_block \<le> p \<Longrightarrow> unat (p - sizeof_block) = unat p - 16" .
  have st: "0 < unat (block_stride k)" using stride_facts(4) [OF k(2)] by simp
  show "(sizeof_block \<le> p - base \<and> base + sizeof_block \<le> p \<and> (p - sizeof_block - base) mod block_stride k = 0
      \<and> unat ((p - sizeof_block - base) div block_stride k) < blocks_in h k)
    \<longleftrightarrow> p - sizeof_block \<in> blocks_at h j" (is "?L \<longleftrightarrow> _")
  proof
    assume L: ?L
    let ?o = "p - sizeof_block - base" and ?i = "unat ((p - sizeof_block - base) div block_stride k)"
    have "block_stride k * (?o div block_stride k) = ?o"
      using L by (metis mult_div_mod_eq add.right_neutral)
    then have "p - sizeof_block = block_start h k j ?i"
      by (simp add: block_start_def base_def algebra_simps)
    then show "p - sizeof_block \<in> blocks_at h j" using L k(1) by (auto simp: blocks_at_def)
  next
    assume "p - sizeof_block \<in> blocks_at h j"
    then obtain i where i: "i < blocks_in h k" "p - sizeof_block = block_start h k j i" using k(1) by (auto simp: blocks_at_def)
    note u = block_start_unat(1) [OF ar P(1) k(2) i(1)] and rm = block_room [OF k(2) i(1)]
    have pe: "p = block_start h k j i + 16" using i(2) by (simp add: sizeof_block_def algebra_simps)
    have pu: "unat p = unat (block_start h k j i) + 16"
      unfolding pe by (rule unat_add_exact [of _ 16, simplified]) (use u rm r A(8) stride_facts(4) [OF k(2)] in linarith)
    have le: "base + sizeof_block \<le> p" using pu u b16 b s by (simp add: word_le_nat_alt)
    have "unat (p - base) = unat p - unat base"
      by (rule unat_sub_exact) (use pu u b s in \<open>simp add: word_le_nat_alt\<close>)
    then have le2: "sizeof_block \<le> p - base" using pu u b s by (simp add: sizeof_block_def word_le_nat_alt)
    have o: "unat (p - sizeof_block - base) = i * unat (block_stride k)"
      using unat_sub_exact [of base "p - sizeof_block"] pm [OF le] pu u b s by (simp add: word_le_nat_alt)
    have m: "(p - sizeof_block - base) mod block_stride k = 0" by (simp add: unat_eq_iff unat_mod o)
    have d: "unat ((p - sizeof_block - base) div block_stride k) = i" using st by (simp add: unat_div o)
    show ?L using le le2 m d i(1) by simp
  qed
qed

lemma small_block_ok:
  assumes inv: "small_inv E live mapped M fr fl heads w"
  shows "\<exists>r. memx_heap_small_block_locked p w = Some r
    \<and> (if in_arena (hw_heap w) p \<and> hw_blocks w (p - sizeof_block) \<noteq> None
       then \<exists>s. r = Some (p - sizeof_block, s) \<and> unat (sp_class_index s) = class_of (hw_heap w) (p - sizeof_block)
       else r = None)"
proof -
  let ?h = "hw_heap w" and ?x = "p - sizeof_block"
  note I = small_invD [OF inv] and ar = spans_okD(1) [OF small_invD(1) [OF inv]]
  note L = lookup_span_map [OF inv, of p]
  show ?thesis
  proof (cases "in_arena ?h p")
    case False
    then show ?thesis using in_arena_iff [OF ar, of p] by (simp add: memx_heap_small_block_locked_def)
  next
    case True
    note P = span_of_in_arena [OF ar True]
    have g: "\<not> (p < fst (hp_arena ?h) \<or> snd (hp_arena ?h) \<le> p - fst (hp_arena ?h))"
      using in_arena_iff [OF ar, of p] True by simp
    let ?j = "span_of ?h p"
    have xj: "span_of ?h ?x = ?j" if x: "hw_blocks w ?x \<noteq> None"
    proof -
      obtain j i where ji: "j < unat (hp_next_span ?h)" "span_class ?h j < 19" "i < blocks_in ?h (span_class ?h j)"
        "?x = block_start ?h (span_class ?h j) j i" using block_in_arena(5) [OF I(1) x] by blast
      have jc: "j < unat (hp_span_capacity ?h)" using ji(1) arena_okD(10) [OF ar] by simp
      note u = block_start_unat [OF ar jc ji(2,3), folded ji(4)] and rm = block_room [OF ji(2,3)]
      have "unat p = unat ?x + 16" using block_in_arena(4) [OF I(1) x] by simp
      then have "unat p - arena_start ?h = j * 2 ^ span_bits ?h + (80 + i * unat (block_stride (span_class ?h j)))"
        using u by simp
      moreover have "80 + i * unat (block_stride (span_class ?h j)) < 2 ^ span_bits ?h"
        using rm stride_facts(4) [OF ji(2)] by linarith
      ultimately have "span_of ?h p = j" by (simp add: span_of_def)
      then show ?thesis using u(2) by simp
    qed
    show ?thesis
    proof (cases "?j < unat (hp_next_span ?h)")
      case False
      have "hw_blocks w ?x = None"
      proof (rule ccontr)
        assume x: "hw_blocks w ?x \<noteq> None"
        obtain j i where ji: "j < unat (hp_next_span ?h)" "span_class ?h j < 19" "i < blocks_in ?h (span_class ?h j)"
          "?x = block_start ?h (span_class ?h j) j i" using block_in_arena(5) [OF I(1) x] by blast
        have jc: "j < unat (hp_span_capacity ?h)" using ji(1) arena_okD(10) [OF ar] by simp
        have "span_of ?h ?x = j" using block_start_unat(2) [OF ar jc ji(2,3)] ji(4) by simp
        then show False using xj [OF x] False ji(1) by simp
      qed
      moreover have "memx_heap_small_block_locked p w = Some None"
        using g L False unfolding memx_heap_small_block_locked_def Let_def if_not_P [OF g] by (simp add: span_map_def)
      ultimately show ?thesis by simp
    next
      case jn: True
      have sm: "span_map ?h p = span_start ?h ?j" using True jn by (simp add: span_map_def in_arena_def)
      obtain s where s: "span_class ?h ?j < 19" "hw_spans w (span_start ?h ?j) = Some s"
        "sp_magic s = MEMX_HEAP_SPAN_MAGIC" "sp_heap s = hp_self ?h" "sp_base s = span_start ?h ?j + 64"
        "sp_block_stride s = block_stride (span_class ?h ?j)" "unat (sp_block_count s) = blocks_in ?h (span_class ?h ?j)"
        "unat (sp_class_index s) = span_class ?h ?j"
        using spans_okD(2) [OF I(1) jn] unfolding span_ok_def by blast
      note v = span_start_valid [OF ar less_imp_le [OF P(1)]]
      have ci: "\<not> MEMX_HEAP_CLASS_COUNT \<le> sp_class_index s"
        using s(1,8) by (simp add: MEMX_HEAP_CLASS_COUNT_def word_le_nat_alt)
      let ?k = "span_class ?h ?j" and ?b = "span_start ?h ?j + 64"
      note T = block_test [OF ar True refl refl s(1)]
      have run: "memx_heap_small_block_locked p w =
          (if p < ?b + sizeof_block then Some None
           else if (?x - ?b) mod block_stride ?k \<noteq> 0 \<or> sp_block_count s \<le> (?x - ?b) div block_stride ?k
           then Some None else Some (Some (?x, s)))"
        using L v ci s(2-6) unfolding memx_heap_small_block_locked_def Let_def if_not_P [OF g] sm
        by (simp split del: if_split cong: if_cong)
      have bx: "hw_blocks w ?x \<noteq> None \<longleftrightarrow> ?x \<in> blocks_at ?h ?j"
      proof
        assume x: "hw_blocks w ?x \<noteq> None"
        obtain j i where ji: "j < unat (hp_next_span ?h)" "span_class ?h j < 19" "i < blocks_in ?h (span_class ?h j)"
          "?x = block_start ?h (span_class ?h j) j i" using block_in_arena(5) [OF I(1) x] by blast
        have jc: "j < unat (hp_span_capacity ?h)" using ji(1) arena_okD(10) [OF ar] by simp
        have "?j = j" using block_start_unat(2) [OF ar jc ji(2,3)] ji(4) xj [OF x] by simp
        then show "?x \<in> blocks_at ?h ?j" using ji(3,4) by (auto simp: blocks_at_def)
      next
        assume "?x \<in> blocks_at ?h ?j"
        then show "hw_blocks w ?x \<noteq> None" using spans_okD(3) [OF I(1)] jn by auto
      qed
      have ge: "sizeof_block \<le> p - ?b" if le: "?b + sizeof_block \<le> p"
      proof -
        have "unat ?b = unat (span_start ?h ?j) + 64"
          using unat_add_exact [of "span_start ?h ?j" 64] span_start_unat [OF ar less_imp_le [OF P(1)]]
            span_room [OF ar P(1)] arena_okD(4,8) [OF ar] by simp
        then have "unat (?b + sizeof_block) = unat ?b + 16"
          using unat_add_exact [of ?b 16] span_start_unat [OF ar less_imp_le [OF P(1)]]
            span_room [OF ar P(1)] arena_okD(4,8) [OF ar] by (simp add: sizeof_block_def)
        then show ?thesis using le unat_sub_exact [of ?b p] by (simp add: word_le_nat_alt sizeof_block_def)
      qed
      have "memx_heap_small_block_locked p w = Some (if ?x \<in> blocks_at ?h ?j then Some (?x, s) else None)"
      proof (cases "?b + sizeof_block \<le> p")
        case True
        have "sp_block_count s \<le> (?x - ?b) div block_stride ?k
            \<longleftrightarrow> \<not> unat ((?x - ?b) div block_stride ?k) < blocks_in ?h ?k"
          by (simp only: word_le_nat_alt s(7) not_less)
        then have mem: "?x \<in> blocks_at ?h ?j \<longleftrightarrow> (?x - ?b) mod block_stride ?k = 0
            \<and> \<not> sp_block_count s \<le> (?x - ?b) div block_stride ?k"
          unfolding T(1) [symmetric] using True ge [OF True] by blast
        have t: "\<not> p < ?b + sizeof_block" using True by (simp only: not_less)
        show ?thesis unfolding run mem if_not_P [OF t] by simp
      next
        case False
        then have "?x \<notin> blocks_at ?h ?j" unfolding T(1) [symmetric] by blast
        moreover have "p < ?b + sizeof_block" using False by (simp only: not_le)
        ultimately show ?thesis unfolding run by simp
      qed
      moreover have "class_of ?h ?x = ?k" if "?x \<in> blocks_at ?h ?j" using xj bx that by (simp add: class_of_def)
      ultimately show ?thesis using bx True s(8) by (auto split: if_splits)
    qed
  qed
qed

end
