(* ===== verification/Memx_LargeSteps.thy ===== *)
theory Memx_LargeSteps
  imports Memx_Rehash Memx_Owner
begin

text \<open>
  The steps on the table of large allocations: reserving room, linking a record, finding the
  record of a pointer and the link that leads to it, unlinking it, and shrinking.
\<close>

section \<open>Steps of the table\<close>

text \<open>A step may move the table and its links, and nothing else; blocks of the C heap that are not
  the table stay.\<close>

definition table_step ::
  "'c heap_env \<Rightarrow> ('c \<Rightarrow> u64 set) \<Rightarrow> ('c \<Rightarrow> nat set) \<Rightarrow> nat set \<Rightarrow> (u64 \<rightharpoonup> memx_object) \<Rightarrow> 'c heap_world
     \<Rightarrow> (u64 \<rightharpoonup> memx_object) \<Rightarrow> 'c heap_world \<Rightarrow> bool" where
  "table_step E live mapped M fr w fr' w' \<longleftrightarrow> mem_ok E live mapped M fr' (hp_index (hw_heap w')) (hw_mem w')
     \<and> table_frame w w' \<and> hp_index (hw_heap w') = hp_index (hw_heap w)
     \<and> adaptive_view (hp_index (hw_heap w'), hw_mem w') = adaptive_view (hp_index (hw_heap w), hw_mem w)
     \<and> (\<forall>p n. fr p = Some (RawBlock n) \<longrightarrow> fr' p = Some (RawBlock n))"

lemma table_frameD:
  assumes "table_frame w w'"
  shows "relinked (hw_larges w) (hw_larges w')" "hp_index (hw_heap w') = hp_index (hw_heap w)"
    "hw_blocks w' = hw_blocks w" "hw_bytes w' = hw_bytes w" "hw_spans w' = hw_spans w" "hw_caches w' = hw_caches w"
    "hw_tls w' = hw_tls w" "hw_tls_last w' = hw_tls_last w"
    "(hw_heap w')\<lparr>hp_large_buckets := 0, hp_large_bucket_count := 0\<rparr>
       = (hw_heap w)\<lparr>hp_large_buckets := 0, hp_large_bucket_count := 0\<rparr>"
  using assms by (auto simp: table_frame_def)

lemma table_frame_trans:
  assumes "table_frame w w'" "table_frame w' w''"
  shows "table_frame w w''"
proof -
  obtain b n m L where 1: "w' = w\<lparr>hw_heap := (hw_heap w)\<lparr>hp_large_buckets := b, hp_large_bucket_count := n\<rparr>,
     hw_mem := m, hw_larges := L\<rparr>" "relinked (hw_larges w) L" using assms(1) unfolding table_frame_def by blast
  obtain b' n' m' L' where 2: "w'' = w'\<lparr>hw_heap := (hw_heap w')\<lparr>hp_large_buckets := b', hp_large_bucket_count := n'\<rparr>,
     hw_mem := m', hw_larges := L'\<rparr>" "relinked (hw_larges w') L'" using assms(2) unfolding table_frame_def by blast
  have "relinked (hw_larges w) L'" using relinked_trans [OF 1(2)] 2(2) 1(1) by simp
  then show ?thesis unfolding table_frame_def
    by (intro exI [of _ b'] exI [of _ n'] exI [of _ m'] exI [of _ L']) (simp add: 1(1) 2(1))
qed

lemma table_stepD:
  assumes "table_step E live mapped M fr w fr' w'"
  shows "mem_ok E live mapped M fr' (hp_index (hw_heap w')) (hw_mem w')" "table_frame w w'"
    "hp_index (hw_heap w') = hp_index (hw_heap w)"
    "adaptive_view (hp_index (hw_heap w'), hw_mem w') = adaptive_view (hp_index (hw_heap w), hw_mem w)"
    "fr p = Some (RawBlock n) \<Longrightarrow> fr' p = Some (RawBlock n)"
  using assms unfolding table_step_def by blast+

lemma table_step_trans:
  assumes "table_step E live mapped M fr w fr' w'" "table_step E live mapped M fr' w' fr'' w''"
  shows "table_step E live mapped M fr w fr'' w''"
  using table_frame_trans assms unfolding table_step_def by auto

lemma table_step_refl:
  "mem_ok E live mapped M fr (hp_index (hw_heap w)) (hw_mem w) \<Longrightarrow> table_step E live mapped M fr w fr w"
  by (simp add: table_step_def)

lemma table_buckets:
  assumes "ltable_ok fr ws ch T w"
  shows "hp_large_buckets (hw_heap w) = 0 \<or> (\<exists>ws. fr (hp_large_buckets (hw_heap w)) = Some (LeafRoots ws))"
  using ltable_okD(2,3) [OF assms] by (cases "ws = []") auto

section \<open>Reserving and shrinking\<close>

lemma rehash_step:
  assumes c: "env_contract E live mapped" and m: "mem_ok E live mapped M fr (hp_index (hw_heap w)) (hw_mem w)"
    and t: "ltable_ok fr ws ch T w" and n: "n \<noteq> 0"
  shows "\<exists>ok w' fr' ws' ch'. memx_heap_large_rehash_locked E n w = Some (ok, w')
    \<and> table_step E live mapped M fr w fr' w' \<and> ltable_ok fr' ws' ch' T w' \<and> (ok \<longrightarrow> ws' \<noteq> [])"
proof -
  obtain ok w' fr' ws' ch' where r: "memx_heap_large_rehash_locked E n w = Some (ok, w')"
    "mem_ok E live mapped M fr' (hp_index (hw_heap w)) (hw_mem w')" "ltable_ok fr' ws' ch' T w'" "table_frame w w'"
    "adaptive_view (hp_index (hw_heap w), hw_mem w') = adaptive_view (hp_index (hw_heap w), hw_mem w)"
    "fr_kept (hp_large_buckets (hw_heap w)) fr (hp_large_buckets (hw_heap w')) fr'"
    "if ok then length ws' = unat n else w' = w\<lparr>hw_mem := hw_mem w'\<rparr> \<and> ws' = ws \<and> fr' = fr"
    using rehash_ok [OF assms] by blast
  have "table_step E live mapped M fr w fr' w'"
    using r(2,4,5) fr_kept_raw [OF r(6) _ table_buckets [OF t] mem_okD(6) [OF c m]] table_frameD(2) [OF r(4)]
    by (simp add: table_step_def)
  moreover have "ok \<longrightarrow> ws' \<noteq> []" using r(7) n by (auto simp: unat_eq_zero)
  ultimately show ?thesis using r(1,3) by blast
qed

lemma double_nonzero:
  assumes "(c :: u64) \<noteq> 0" "\<not> SIZE_MAX div 2 < c"
  shows "c * 2 \<noteq> 0"
proof -
  have "unat c \<le> 9223372036854775807"
    using assms(2) by (simp add: word_less_nat_alt unat_SIZE_MAX unat_div)
  then have "unat (c * 2) = unat c * 2" by (simp add: unat_word_ariths)
  moreover have "unat c \<noteq> 0" using assms(1) by (simp add: unat_eq_zero)
  ultimately show ?thesis by (metis mult_is_0 unat_0 zero_neq_numeral)
qed

lemma reserve_ok:
  assumes c: "env_contract E live mapped" and m: "mem_ok E live mapped M fr (hp_index (hw_heap w)) (hw_mem w)"
    and t: "ltable_ok fr ws ch T w"
  shows "\<exists>ok w' fr' ws' ch'. memx_heap_large_reserve_locked E w = Some (ok, w')
    \<and> table_step E live mapped M fr w fr' w' \<and> ltable_ok fr' ws' ch' T w' \<and> (ok \<longrightarrow> ws' \<noteq> [])"
proof -
  let ?n = "hp_large_bucket_count (hw_heap w)"
  show ?thesis
  proof (cases "hp_large_count (hw_heap w) < ?n")
    case True
    then have "unat ?n \<noteq> 0" by (auto simp: word_less_nat_alt)
    then have "ws \<noteq> []" using ltable_okD(1) [OF t] by auto
    moreover have "memx_heap_large_reserve_locked E w = Some (True, w)"
      using True by (simp add: memx_heap_large_reserve_locked_def)
    ultimately show ?thesis using t table_step_refl [OF m] by blast
  next
    case full: False
    show ?thesis
    proof (cases "SIZE_MAX div 2 < ?n")
      case True
      then have "memx_heap_large_reserve_locked E w = Some (False, w)"
        using full by (simp add: memx_heap_large_reserve_locked_def)
      then show ?thesis using t table_step_refl [OF m] by blast
    next
      case False
      have "(if ?n = 0 then MEMX_HEAP_LARGE_MIN_BUCKETS else ?n * 2) \<noteq> 0"
        using double_nonzero [of ?n] False by (simp add: MEMX_HEAP_LARGE_MIN_BUCKETS_def)
      from rehash_step [OF c m t this] show ?thesis
        using full False by (simp add: memx_heap_large_reserve_locked_def Let_def)
    qed
  qed
qed

text \<open>Shrinking needs the count of the records to be right: it drops the table of none.\<close>

lemma card_u64: "card (S :: u64 set) < 2 ^ 64 \<or> S = UNIV"
proof (cases "S = UNIV")
  case False
  then have "card S < card (UNIV :: u64 set)" by (intro psubset_card_mono) auto
  then show ?thesis by (simp add: card_word)
qed simp

lemma count_card:
  assumes "n = (of_nat (card S) :: u64)" "(0 :: u64) \<notin> S"
  shows "unat n = card S"
proof -
  have "card S < 2 ^ 64" using card_u64 [of S] assms(2) by auto
  then show ?thesis unfolding assms(1) by (simp add: unat_of_nat)
qed

lemma shrink_ok:
  assumes c: "env_contract E live mapped" and m: "mem_ok E live mapped M fr (hp_index (hw_heap w)) (hw_mem w)"
    and t: "ltable_ok fr ws ch T w" and n: "hp_large_count (hw_heap w) = of_nat (card T)" "0 \<notin> T"
  shows "\<exists>w' fr' ws' ch'. memx_heap_large_shrink_locked E w = Some w'
    \<and> table_step E live mapped M fr w fr' w' \<and> ltable_ok fr' ws' ch' T w'"
proof -
  let ?h = "hw_heap w" and ?b = "hp_large_buckets (hw_heap w)"
  note T = ltable_okD [OF t]
  show ?thesis
  proof (cases "hp_large_count ?h = 0")
    case True
    then have T0: "T = {}" using count_card [OF n] by simp
    obtain m' where f: "c_free (he_allocator E) ?b (hw_mem w) = Some m'"
      "mem_ok E live mapped M (fr(?b := None)) (hp_index ?h) m'"
      "adaptive_view (hp_index ?h, m') = adaptive_view (hp_index ?h, hw_mem w)"
    proof (cases "ws = []")
      case True
      then have "?b = 0" by (rule T(2))
      then show thesis using that [of "hw_mem w"] m mem_okD(6) [OF c m] by (simp add: c_free_def fun_upd_idem)
    next
      case False
      then have "fr ?b \<noteq> None" using T(3) by simp
      from mem_free [OF c m this] show thesis using that by blast
    qed
    define w' where "w' = w\<lparr>hw_heap := ?h\<lparr>hp_large_buckets := 0, hp_large_bucket_count := 0\<rparr>, hw_mem := m'\<rparr>"
    have "memx_heap_large_shrink_locked E w = Some w'"
      using True f(1) by (simp add: memx_heap_large_shrink_locked_def w'_def upd_heap_def)
    moreover have "table_frame w w'"
      unfolding table_frame_def w'_def
      by (intro exI [of _ 0] exI [of _ 0] exI [of _ m'] exI [of _ "hw_larges w"]) simp
    moreover have "(fr(?b := None)) p = Some (RawBlock k)" if "fr p = Some (RawBlock k)" for p k
      using that table_buckets [OF t] mem_okD(6) [OF c m] by auto
    ultimately show ?thesis using f(2,3) T0
      by (intro exI [of _ w'] exI [of _ "fr(?b := None)"] exI [of _ "[]"] exI [of _ "\<lambda>_. []"])
        (simp add: table_step_def ltable_ok_def w'_def chains_ok_def members_def)
  next
    case some: False
    show ?thesis
    proof (cases "MEMX_HEAP_LARGE_MIN_BUCKETS < hp_large_bucket_count ?h
        \<and> hp_large_count ?h \<le> hp_large_bucket_count ?h div 4")
      case True
      have "hp_large_bucket_count ?h div 2 \<noteq> 0"
      proof
        assume z: "hp_large_bucket_count ?h div 2 = 0"
        have "unat (hp_large_bucket_count ?h div 2) = unat (hp_large_bucket_count ?h) div 2" by (simp add: unat_div)
        then have "unat (hp_large_bucket_count ?h) div 2 = 0" using z by simp
        moreover have "64 < unat (hp_large_bucket_count ?h)"
          using True by (simp add: MEMX_HEAP_LARGE_MIN_BUCKETS_def word_less_nat_alt)
        ultimately show False by linarith
      qed
      from rehash_step [OF c m t this] obtain ok w' fr' ws' ch' where
        "memx_heap_large_rehash_locked E (hp_large_bucket_count ?h div 2) w = Some (ok, w')"
        "table_step E live mapped M fr w fr' w'" "ltable_ok fr' ws' ch' T w'" by blast
      moreover from this have "memx_heap_large_shrink_locked E w = Some w'"
        using some True by (simp add: memx_heap_large_shrink_locked_def Let_def)
      ultimately show ?thesis by blast
    next
      case False
      then have "memx_heap_large_shrink_locked E w = Some w"
        using some by (auto simp: memx_heap_large_shrink_locked_def)
      then show ?thesis using t table_step_refl [OF m] by blast
    qed
  qed
qed

section \<open>Linking\<close>

lemma link_ok:
  assumes c: "env_contract E live mapped" and m: "mem_ok E live mapped M fr (hp_index (hw_heap w)) (hw_mem w)"
    and t: "ltable_ok fr ws ch T w" "ws \<noteq> []" and x: "hw_larges w x = Some l" "x \<noteq> 0" "x \<notin> T"
  shows "\<exists>w' fr' ws' ch'. link_large (hp_large_buckets (hw_heap w)) (hp_large_bucket_count (hw_heap w)) x (lg_pointer l) w
      = Some w' \<and> table_step E live mapped M fr w fr' w' \<and> ltable_ok fr' ws' ch' (insert x T) w'"
proof -
  let ?b = "hp_large_buckets (hw_heap w)" and ?n = "hp_large_bucket_count (hw_heap w)"
  note T = ltable_okD [OF t(1)]
  have hb: "heap (hw_mem w) ?b = Some (LeafRoots ws)" by (rule mem_okD(5) [OF c m T(3) [OF t(2)]])
  have n0: "?n \<noteq> 0" using T(1) t(2) by (metis length_0_conv unat_0)
  define i where "i = unat (memx_heap_large_bucket (lg_pointer l) ?n)"
  have xm: "x \<notin> members ws ch" using x(3) T(5) by simp
  note L = link_large_ok [OF hb T(1) n0 T(4) x(1,2) xm i_def]
  let ?m = "(hw_mem w)\<lparr>heap := (heap (hw_mem w))(?b \<mapsto> LeafRoots (ws[i := x]))\<rparr>"
  define w' where "w' = w\<lparr>hw_mem := ?m, hw_larges := (hw_larges w)(x \<mapsto> l\<lparr>lg_next := ws ! i\<rparr>)\<rparr>"
  let ?fr = "fr(?b \<mapsto> LeafRoots (ws[i := x]))"
  note mw = mem_write [OF c m T(3) [OF t(2)], of "LeafRoots (ws[i := x])"]
  have "table_frame w w'"
    unfolding table_frame_def w'_def
    by (intro exI [of _ ?b] exI [of _ ?n] exI [of _ ?m] exI [of _ "(hw_larges w)(x \<mapsto> l\<lparr>lg_next := ws ! i\<rparr>)"])
      (simp add: relinked_upd [of "hw_larges w" x l, OF x(1)])
  moreover have "?fr p = Some (RawBlock k)" if "fr p = Some (RawBlock k)" for p k
    using that T(3) [OF t(2)] by auto
  ultimately have "table_step E live mapped M fr w ?fr w'"
    using mw by (simp add: table_step_def w'_def)
  moreover have "ltable_ok ?fr (ws[i := x]) (ch(i := x # ch i)) (insert x T) w'"
    using L(2,3) T(1,5) t(2) by (simp add: ltable_ok_def w'_def)
  ultimately show ?thesis using L(1) unfolding w'_def by blast
qed

section \<open>Searching\<close>

lemma find_loop_large:
  assumes "linked (lnext L) p (ys @ xs)" "linked (lnext L) q xs" "link = (if ys = [] then k else Next_Link (last ys))"
    and "L = hw_larges w" "\<And>y l. y \<in> set ys \<Longrightarrow> L y = Some l \<Longrightarrow> lg_pointer l \<noteq> a"
  shows "\<exists>r link'. find_large_loop w a link q = Some (r, link')
    \<and> (if r = 0 then (\<forall>x \<in> set (ys @ xs). \<forall>l. L x = Some l \<longrightarrow> lg_pointer l \<noteq> a)
       else \<exists>ys' zs l. ys @ xs = ys' @ r # zs \<and> L r = Some l \<and> lg_pointer l = a
         \<and> link' = (if ys' = [] then k else Next_Link (last ys')))"
  using assms
proof (induction xs arbitrary: ys q link)
  case Nil
  then show ?case by (subst find_large_loop.simps) auto
next
  case (Cons x xs)
  then obtain r where r: "q = x" "x \<noteq> 0" "lnext L x = Some r" "linked (lnext L) r xs" by auto
  then obtain l where l: "L x = Some l" "lg_next l = r" by (auto simp: lnext_def)
  show ?case
  proof (cases "lg_pointer l = a")
    case True
    then have "find_large_loop w a link q = Some (x, link)"
      using r(1,2) l(1) Cons.prems(4) by (subst find_large_loop.simps) simp
    then show ?thesis using r(2) l(1) True Cons.prems(3)
      by (intro exI [of _ x] exI [of _ link]) auto
  next
    case False
    have "find_large_loop w a link q = find_large_loop w a (Next_Link x) r"
      using r(1,2) l False Cons.prems(4) by (subst find_large_loop.simps) simp
    moreover have "\<exists>s link'. find_large_loop w a (Next_Link x) r = Some (s, link')
      \<and> (if s = 0 then (\<forall>x \<in> set ((ys @ [x]) @ xs). \<forall>l. L x = Some l \<longrightarrow> lg_pointer l \<noteq> a)
         else \<exists>ys' zs l. (ys @ [x]) @ xs = ys' @ s # zs \<and> L s = Some l \<and> lg_pointer l = a
           \<and> link' = (if ys' = [] then k else Next_Link (last ys')))"
      by (rule Cons.IH [OF _ r(4) _ Cons.prems(4)]) (use Cons.prems(1,5) l(1) False in auto)
    ultimately show ?thesis by (simp only: append.assoc append_Cons append_Nil)
  qed
qed

text \<open>The search answers the record of the pointer, and the link it hangs on.\<close>

lemma find_large_ok:
  assumes c: "env_contract E live mapped" and m: "mem_ok E live mapped M fr (hp_index (hw_heap w)) (hw_mem w)"
    and t: "ltable_ok fr ws ch T w"
  shows "\<exists>r link. memx_heap_find_large_locked a w = Some (r, link)
    \<and> (if r = 0 then (\<forall>x \<in> T. \<forall>l. hw_larges w x = Some l \<longrightarrow> lg_pointer l \<noteq> a)
       else \<exists>i ys zs l. i < length ws \<and> ch i = ys @ r # zs \<and> hw_larges w r = Some l \<and> lg_pointer l = a \<and> r \<in> T
         \<and> link = (if ys = [] then Bucket_Link i else Next_Link (last ys)))"
proof -
  let ?h = "hw_heap w" and ?n = "hp_large_bucket_count (hw_heap w)"
  note T = ltable_okD [OF t]
  show ?thesis
  proof (cases "ws = []")
    case True
    then have "?n = 0" "T = {}" using T(1,5) by (simp_all add: unat_eq_zero members_def)
    then show ?thesis by (simp add: memx_heap_find_large_locked_def)
  next
    case False
    have hb: "heap (hw_mem w) (hp_large_buckets ?h) = Some (LeafRoots ws)" by (rule mem_okD(5) [OF c m T(3) [OF False]])
    have n0: "?n \<noteq> 0" using T(1) False by (metis length_0_conv unat_0)
    have nl: "of_nat (length ws) = ?n" unfolding T(1) [symmetric] by simp
    define i where "i = unat (memx_heap_large_bucket a ?n)"
    have i: "i < length ws" using bucket_in_range [OF n0, of a] T(1) by (simp add: i_def)
    note lk = chains_okD(1) [OF T(4) i]
    obtain r link where f: "find_large_loop w a (Bucket_Link i) (ws ! i) = Some (r, link)"
      "if r = 0 then (\<forall>x \<in> set ([] @ ch i). \<forall>l. hw_larges w x = Some l \<longrightarrow> lg_pointer l \<noteq> a)
       else \<exists>ys' zs l. [] @ ch i = ys' @ r # zs \<and> hw_larges w r = Some l \<and> lg_pointer l = a
         \<and> link = (if ys' = [] then Bucket_Link i else Next_Link (last ys'))"
      using find_loop_large [of "hw_larges w" "ws ! i" "[]" "ch i" "ws ! i" "Bucket_Link i" "Bucket_Link i" w a] lk
      by auto
    have run: "memx_heap_find_large_locked a w = Some (r, link)"
      using f(1) n0 hb i by (simp add: memx_heap_find_large_locked_def i_def [symmetric])
    show ?thesis
    proof (cases "r = 0")
      case True
      have "lg_pointer l \<noteq> a" if "x \<in> T" "hw_larges w x = Some l" for x l
      proof
        assume "lg_pointer l = a"
        then have "x \<in> set (ch i)" using member_bucket [OF T(4), of x l] that T(5) nl by (simp add: i_def)
        then show False using f(2) True that(2) \<open>lg_pointer l = a\<close> by auto
      qed
      then show ?thesis using run True by auto
    next
      case n: False
      then obtain ys zs l where y: "ch i = ys @ r # zs" "hw_larges w r = Some l" "lg_pointer l = a"
        "link = (if ys = [] then Bucket_Link i else Next_Link (last ys))" using f(2) by auto
      have "r \<in> T" using y(1) i T(5) by (force simp: members_def)
      then show ?thesis using run n i y by auto
    qed
  qed
qed

section \<open>Unlinking\<close>

lemma unlink_chains:
  assumes ok: "chains_ok ws ch L" and i: "i < length ws" "ch i = ys @ r # zs" and l: "L r = Some l"
  shows "ys = [] \<Longrightarrow> chains_ok (ws[i := lg_next l]) (ch(i := zs)) L"
    "ys \<noteq> [] \<Longrightarrow> \<exists>p. L (last ys) = Some p
       \<and> chains_ok ws (ch(i := ys @ zs)) (L(last ys \<mapsto> p\<lparr>lg_next := lg_next l\<rparr>))"
    "members ws (ch(i := ys @ zs)) = members ws ch - {r}"
proof -
  note C = chains_okD [OF ok]
  have d: "distinct (ys @ r # zs)" using linked_distinct [OF C(1) [OF i(1)]] i(2) by simp
  have apart: "x \<notin> set (ch j)" if "x \<in> set (ch i)" "j < length ws" "j \<noteq> i" for x j
    using chains_disjoint [OF ok i(1) that(2,1)] that(3) by blast
  show "members ws (ch(i := ys @ zs)) = members ws ch - {r}"
  proof
    show "members ws (ch(i := ys @ zs)) \<subseteq> members ws ch - {r}"
    proof
      fix x assume "x \<in> members ws (ch(i := ys @ zs))"
      then obtain j where j: "j < length ws" "x \<in> set ((ch(i := ys @ zs)) j)" by (auto simp: members_def)
      then have "x \<in> set (ch j)" using i(2) by (auto split: if_splits)
      moreover have "x \<noteq> r"
      proof
        assume "x = r"
        then show False using j d apart [of r j] i(2) by (auto split: if_splits)
      qed
      ultimately show "x \<in> members ws ch - {r}" using j(1) by (auto simp: members_def)
    qed
    show "members ws ch - {r} \<subseteq> members ws (ch(i := ys @ zs))"
    proof
      fix x assume x: "x \<in> members ws ch - {r}"
      then obtain j where j: "j < length ws" "x \<in> set (ch j)" by (auto simp: members_def)
      have "x \<in> set ((ch(i := ys @ zs)) j)" using j(2) x i(2) by auto
      then show "x \<in> members ws (ch(i := ys @ zs))" using j(1) unfolding members_def by blast
    qed
  qed
  have pn: "lnext L r = Some (lg_next l)" by (simp add: lnext_def l)
  show "ys = [] \<Longrightarrow> chains_ok (ws[i := lg_next l]) (ch(i := zs)) L"
  proof -
    assume y: "ys = []"
    have lz: "linked (lnext L) (lg_next l) zs" using C(1) [OF i(1)] i(2) y pn by auto
    show "chains_ok (ws[i := lg_next l]) (ch(i := zs)) L"
      unfolding chains_ok_def length_list_update
    proof (intro allI impI conjI ballI)
      fix j assume j: "j < length ws"
      show "linked (lnext L) (ws[i := lg_next l] ! j) ((ch(i := zs)) j)" using lz C(1) [OF j] j by (cases "j = i") auto
      fix x assume "x \<in> set ((ch(i := zs)) j)"
      then have "x \<in> set (ch j)" using i(2) by (auto split: if_splits)
      then show "\<exists>l. L x = Some l \<and> unat (memx_heap_large_bucket (lg_pointer l) (of_nat (length ws))) = j"
        by (rule C(2) [OF j])
    qed
  qed
  show "\<exists>p. L (last ys) = Some p \<and> chains_ok ws (ch(i := ys @ zs)) (L(last ys \<mapsto> p\<lparr>lg_next := lg_next l\<rparr>))"
    if y: "ys \<noteq> []"
  proof -
    have ly: "last ys \<in> set (ch i)" using i(2) y by simp
    obtain p where p: "L (last ys) = Some p" using C(2) [OF i(1) ly] by blast
    let ?L = "L(last ys \<mapsto> p\<lparr>lg_next := lg_next l\<rparr>)"
    have nx: "lnext ?L = (lnext L)(last ys \<mapsto> lg_next l)" by (simp add: lnext_def fun_eq_iff)
    have sp: "ys = butlast ys @ [last ys]" using y by simp
    have "linked (lnext L) (ws ! i) (butlast ys @ last ys # r # zs)"
      using C(1) [OF i(1)] i(2) sp by (metis append.assoc append_Cons append_Nil)
    from linked_remove [OF this pn]
    have li: "linked (lnext ?L) (ws ! i) (ys @ zs)" unfolding nx using sp by (metis append.assoc append_Cons append_Nil)
    have "chains_ok ws (ch(i := ys @ zs)) ?L"
      unfolding chains_ok_def
    proof (intro allI impI conjI ballI)
      fix j assume j: "j < length ws"
      show "linked (lnext ?L) (ws ! j) ((ch(i := ys @ zs)) j)"
      proof (cases "j = i")
        case True
        then show ?thesis using li by simp
      next
        case False
        then show ?thesis unfolding nx using linked_upd [OF C(1) [OF j] apart [OF ly j False]] by simp
      qed
      fix x assume "x \<in> set ((ch(i := ys @ zs)) j)"
      then have "x \<in> set (ch j)" using i(2) by (auto split: if_splits)
      then obtain q where "L x = Some q" "unat (memx_heap_large_bucket (lg_pointer q) (of_nat (length ws))) = j"
        using C(2) [OF j] by blast
      then show "\<exists>l. ?L x = Some l \<and> unat (memx_heap_large_bucket (lg_pointer l) (of_nat (length ws))) = j"
        using p by auto
    qed
    then show ?thesis using p by blast
  qed
qed

lemma unlink_ok:
  assumes c: "env_contract E live mapped" and m: "mem_ok E live mapped M fr (hp_index (hw_heap w)) (hw_mem w)"
    and t: "ltable_ok fr ws ch T w" and r: "i < length ws" "ch i = ys @ r # zs" "hw_larges w r = Some l"
  shows "\<exists>w' fr' ws' ch'. write_link (if ys = [] then Bucket_Link i else Next_Link (last ys)) (lg_next l) w = Some w'
    \<and> table_step E live mapped M fr w fr' w' \<and> ltable_ok fr' ws' ch' (T - {r}) w'"
proof -
  let ?b = "hp_large_buckets (hw_heap w)" and ?n = "hp_large_bucket_count (hw_heap w)"
  note T = ltable_okD [OF t] and U = unlink_chains [OF ltable_okD(4) [OF t] r]
  have ne: "ws \<noteq> []" using r(1) by auto
  show ?thesis
  proof (cases "ys = []")
    case True
    have hb: "heap (hw_mem w) ?b = Some (LeafRoots ws)" by (rule mem_okD(5) [OF c m T(3) [OF ne]])
    let ?ws = "ws[i := lg_next l]" and ?fr = "fr(?b \<mapsto> LeafRoots (ws[i := lg_next l]))"
    let ?m = "(hw_mem w)\<lparr>heap := (heap (hw_mem w))(?b \<mapsto> LeafRoots ?ws)\<rparr>"
    define w' where "w' = w\<lparr>hw_mem := ?m\<rparr>"
    note mw = mem_write [OF c m T(3) [OF ne], of "LeafRoots ?ws"]
    have "write_link (Bucket_Link i) (lg_next l) w = Some w'"
      using hb r(1) by (simp add: write_link_def write_bucket_def w'_def)
    moreover have "table_frame w w'"
      unfolding table_frame_def w'_def by (intro exI [of _ ?b] exI [of _ ?n] exI [of _ ?m] exI [of _ "hw_larges w"]) simp
    moreover have "?fr p = Some (RawBlock k)" if "fr p = Some (RawBlock k)" for p k using that T(3) [OF ne] by auto
    ultimately have s: "write_link (Bucket_Link i) (lg_next l) w = Some w'" "table_step E live mapped M fr w ?fr w'"
      using mw by (simp_all add: table_step_def w'_def)
    have "members ?ws (ch(i := zs)) = T - {r}" using U(3) T(5) True by (simp add: members_def)
    then have "ltable_ok ?fr ?ws (ch(i := zs)) (T - {r}) w'"
      using U(1) [OF True] T(1) ne by (simp add: ltable_ok_def w'_def)
    then show ?thesis using s True by auto
  next
    case False
    obtain p where p: "hw_larges w (last ys) = Some p"
      "chains_ok ws (ch(i := ys @ zs)) ((hw_larges w)(last ys \<mapsto> p\<lparr>lg_next := lg_next l\<rparr>))"
      using U(2) [OF False] by blast
    define w' where "w' = w\<lparr>hw_larges := (hw_larges w)(last ys \<mapsto> p\<lparr>lg_next := lg_next l\<rparr>)\<rparr>"
    have "write_link (Next_Link (last ys)) (lg_next l) w = Some w'"
      using p(1) by (simp add: write_link_def set_large_def w'_def)
    moreover have "table_frame w w'"
      unfolding table_frame_def w'_def
      by (intro exI [of _ ?b] exI [of _ ?n] exI [of _ "hw_mem w"]
          exI [of _ "(hw_larges w)(last ys \<mapsto> p\<lparr>lg_next := lg_next l\<rparr>)"]) (simp add: relinked_upd [of "hw_larges w" "last ys" p, OF p(1)])
    ultimately have s: "write_link (Next_Link (last ys)) (lg_next l) w = Some w'" "table_step E live mapped M fr w fr w'"
      using m by (simp_all add: table_step_def w'_def)
    have "ltable_ok fr ws (ch(i := ys @ zs)) (T - {r}) w'"
      using p(2) U(3) T ne by (simp add: ltable_ok_def w'_def)
    then show ?thesis using s False by auto
  qed
qed

end
