(* ===== verification/Memx_LargePath.thy ===== *)
theory Memx_LargePath
  imports Memx_LargeSteps
begin

text \<open>
  Allocation and release of large objects: each is a mapping of its own, apart from the arena and
  from every other; the table holds exactly the live ones.
\<close>

section \<open>The large allocations\<close>

definition large_range :: "'c heap_env \<Rightarrow> memx_heap_large \<Rightarrow> nat set" where
  "large_range E l = byte_range (unat (fst (lg_mapping l))) (page_round (page_bytes (he_sys E)) (unat (snd (lg_mapping l))))"

definition arena_range :: "'c memx_heap \<Rightarrow> nat set" where
  "arena_range h = byte_range (arena_start h) (unat (snd (hp_arena h)))"

definition record_ok ::
  "'c heap_env \<Rightarrow> nat set \<Rightarrow> 'c memx_heap \<Rightarrow> (u64 \<rightharpoonup> payload) \<Rightarrow> memx_heap_large \<Rightarrow> bool" where
  "record_ok E M h y l \<longleftrightarrow> (let b = fst (lg_mapping l); n = snd (lg_mapping l); p = lg_pointer l in
     b \<noteq> 0 \<and> n \<noteq> 0 \<and> p \<noteq> 0 \<and> lg_requested_size l \<noteq> 0 \<and> page_bytes (he_sys E) dvd unat b
     \<and> unat b \<le> unat p \<and> unat p + unat (lg_requested_size l) \<le> unat b + unat n \<and> unat b + unat n \<le> 2 ^ 64
     \<and> map_option pl_size (y p) = Some (unat b + unat n - unat p))
     \<and> large_range E l \<subseteq> M \<and> large_range E l \<inter> arena_range h = {}"

definition records_ok :: "'c heap_env \<Rightarrow> nat set \<Rightarrow> (u64 \<rightharpoonup> memx_object) \<Rightarrow> 'c heap_world \<Rightarrow> bool" where
  "records_ok E M fr w \<longleftrightarrow> arena_range (hw_heap w) \<subseteq> M
     \<and> (\<forall>x l. hw_larges w x = Some l \<longrightarrow> x \<noteq> 0 \<and> fr x = Some (RawBlock sizeof_large) \<and> record_ok E M (hw_heap w) (hw_bytes w) l)
     \<and> (\<forall>x y l l'. hw_larges w x = Some l \<longrightarrow> hw_larges w y = Some l' \<longrightarrow> x \<noteq> y
          \<longrightarrow> large_range E l \<inter> large_range E l' = {})"

lemma records_okD:
  assumes "records_ok E M fr w"
  shows "arena_range (hw_heap w) \<subseteq> M" "hw_larges w x = Some l \<Longrightarrow> x \<noteq> 0"
    "hw_larges w x = Some l \<Longrightarrow> fr x = Some (RawBlock sizeof_large)"
    "hw_larges w x = Some l \<Longrightarrow> record_ok E M (hw_heap w) (hw_bytes w) l"
    "hw_larges w x = Some l \<Longrightarrow> hw_larges w y = Some l' \<Longrightarrow> x \<noteq> y \<Longrightarrow> large_range E l \<inter> large_range E l' = {}"
  using assms unfolding records_ok_def by blast+

lemma record_okD:
  assumes "record_ok E M h y l"
  shows "fst (lg_mapping l) \<noteq> 0" "snd (lg_mapping l) \<noteq> 0" "lg_pointer l \<noteq> 0" "lg_requested_size l \<noteq> 0"
    "page_bytes (he_sys E) dvd unat (fst (lg_mapping l))" "unat (fst (lg_mapping l)) \<le> unat (lg_pointer l)"
    "unat (lg_pointer l) + unat (lg_requested_size l) \<le> unat (fst (lg_mapping l)) + unat (snd (lg_mapping l))"
    "unat (fst (lg_mapping l)) + unat (snd (lg_mapping l)) \<le> 2 ^ 64"
    "map_option pl_size (y (lg_pointer l)) = Some (unat (fst (lg_mapping l)) + unat (snd (lg_mapping l)) - unat (lg_pointer l))"
    "large_range E l \<subseteq> M" "large_range E l \<inter> arena_range h = {}"
  using assms by (simp_all add: record_ok_def Let_def)

lemma in_arena_range: "in_arena h p \<longleftrightarrow> unat p \<in> arena_range h"
  by (simp add: in_arena_def arena_range_def byte_range_def)

lemma page_round_le: "page_bytes (he_sys E) = 2 ^ k \<Longrightarrow> n \<le> page_round (page_bytes (he_sys E)) n"
  by (simp add: page_round_least)

text \<open>The bytes a client may use lie in the mapping.\<close>

lemma large_bytes:
  assumes c: "env_contract E live mapped" and r: "record_ok E M h y l"
  shows "byte_range (unat (lg_pointer l)) (unat (lg_requested_size l)) \<subseteq> large_range E l"
    "unat (lg_pointer l) \<in> large_range E l"
proof -
  note R = record_okD [OF r]
  obtain k where k: "page_bytes (he_sys E) = 2 ^ k" using sys_contractD(1) [OF env_contractD(2) [OF c]] by blast
  note le = page_round_le [OF k, of "unat (snd (lg_mapping l))"]
  show s: "byte_range (unat (lg_pointer l)) (unat (lg_requested_size l)) \<subseteq> large_range E l"
    using R(6,7) le by (auto simp: byte_range_def large_range_def)
  have "unat (lg_requested_size l) \<noteq> 0" using R(4) by (simp add: unat_eq_zero)
  then have "unat (lg_pointer l) \<in> byte_range (unat (lg_pointer l)) (unat (lg_requested_size l))" by (simp add: byte_range_def)
  then show "unat (lg_pointer l) \<in> large_range E l" using s by blast
qed

lemma record_outside:
  assumes "env_contract E live mapped" "record_ok E M h y l"
  shows "\<not> in_arena h (lg_pointer l)"
  using large_bytes(2) [OF assms] record_okD(11) [OF assms(2)] by (auto simp: in_arena_range)

lemma record_pointers:
  assumes c: "env_contract E live mapped" and r: "records_ok E M fr w"
    and x: "hw_larges w x = Some l" "hw_larges w y = Some l'" "lg_pointer l = lg_pointer l'"
  shows "x = y"
proof (rule ccontr)
  assume "x \<noteq> y"
  from records_okD(5) [OF r x(1,2) this] show False
    using large_bytes(2) [OF c records_okD(4) [OF r x(1)]] large_bytes(2) [OF c records_okD(4) [OF r x(2)]] x(3) by auto
qed

text \<open>The requested size of a live large pointer.\<close>

definition large_at :: "'c heap_world \<Rightarrow> u64 \<Rightarrow> u64 \<Rightarrow> bool" where
  "large_at w p n \<longleftrightarrow> (\<exists>x l. hw_larges w x = Some l \<and> lg_pointer l = p \<and> lg_requested_size l = n)"

section \<open>Frames\<close>

text \<open>What the large path keeps of the small one.\<close>

definition large_frame :: "'c heap_world \<Rightarrow> 'c heap_world \<Rightarrow> bool" where
  "large_frame w w' \<longleftrightarrow> small_fields (hw_heap w') = small_fields (hw_heap w)
     \<and> hp_caches (hw_heap w') = hp_caches (hw_heap w) \<and> hp_exclusive_cache (hw_heap w') = hp_exclusive_cache (hw_heap w)
     \<and> hw_blocks w' = hw_blocks w \<and> hw_spans w' = hw_spans w \<and> hw_caches w' = hw_caches w
     \<and> hw_tls w' = hw_tls w \<and> hw_tls_last w' = hw_tls_last w
     \<and> (\<forall>p. in_arena (hw_heap w) p \<longrightarrow> hw_bytes w' p = hw_bytes w p)"

lemma large_frame_refl [simp]: "large_frame w w"
  by (simp add: large_frame_def)

lemma large_frame_trans:
  assumes "large_frame w w'" "large_frame w' w''"
  shows "large_frame w w''"
proof -
  have "in_arena (hw_heap w') p = in_arena (hw_heap w) p" for p
    using small_fieldsD(3) [of "hw_heap w'" "hw_heap w"] assms(1) by (simp add: large_frame_def in_arena_def)
  then show ?thesis using assms unfolding large_frame_def by simp
qed

lemma table_large_frame: "table_frame w w' \<Longrightarrow> large_frame w w'"
  by (auto simp: table_frame_def large_frame_def small_fields_def)

lemma alloc_inv_large:
  assumes inv: "alloc_inv E live mapped M fr fl heads tls hl w" and f: "large_frame w w'"
    and m: "mem_ok E live mapped M' fr' (hp_index (hw_heap w')) (hw_mem w')"
    and v: "adaptive_view (hp_index (hw_heap w'), hw_mem w') = adaptive_view (hp_index (hw_heap w), hw_mem w)"
    and fr: "\<And>p. fr p = Some (RawBlock sizeof_cache) \<Longrightarrow> fr' p = Some (RawBlock sizeof_cache)"
  shows "alloc_inv E live mapped M' fr' fl heads tls hl w'"
proof -
  note I = alloc_invD [OF inv]
  have h: "small_fields (hw_heap w') = small_fields (hw_heap w)" "hp_caches (hw_heap w') = hp_caches (hw_heap w)"
    "hp_exclusive_cache (hw_heap w') = hp_exclusive_cache (hw_heap w)"
    "hw_blocks w' = hw_blocks w" "hw_spans w' = hw_spans w" "hw_caches w' = hw_caches w"
    "hw_tls w' = hw_tls w" "hw_tls_last w' = hw_tls_last w"
    "\<And>p. in_arena (hw_heap w) p \<Longrightarrow> hw_bytes w' p = hw_bytes w p"
    using f by (simp_all add: large_frame_def)
  note F = small_fieldsD [OF h(1)]
  have o: "own_cache w' = own_cache w" by (rule own_cache_same [OF h(6) F(1)])
  have "small_inv E live mapped M' fr' fl heads w'"
  proof (rule small_inv_mem [OF I(1) h(1,4,5)])
    show "hw_bytes w' (x + sizeof_block) = hw_bytes w (x + sizeof_block)" if "hw_blocks w x \<noteq> None" for x
      by (rule h(9)) (rule block_in_arena(1) [OF small_invD(1) [OF I(1)] that])
  qed (use m v F(10) in simp_all)
  moreover have "caches_part fl {} w'" by (rule caches_part_heap [OF I(2) o F(2)])
  moreover have "threads_ok fr' tls hl w'"
  proof -
    have n: "tnext w' = tnext w" "hnext w' = hnext w" by (simp_all add: tnext_def hnext_def o h fun_eq_iff)
    show ?thesis using I(3) fr unfolding threads_ok_def tls_ok_def n o h by blast
  qed
  moreover have "owners_ok w'" using I(4) by (simp add: owners_ok_def o h)
  ultimately show ?thesis by (simp add: alloc_inv_def)
qed

lemma unlinked_record:
  assumes "l'\<lparr>lg_next := 0\<rparr> = l\<lparr>lg_next := 0\<rparr>"
  shows "record_ok E M h y l' \<longleftrightarrow> record_ok E M h y l" "large_range E l' = large_range E l"
  by (simp_all add: record_ok_def large_range_def unlinked_eq [OF assms])

lemma relinked_sym: "relinked L L' \<Longrightarrow> relinked L' L"
  by (simp add: relinked_def)

lemma records_table:
  assumes r: "records_ok E M fr w" and t: "table_frame w w'"
    and fr: "\<And>p n. fr p = Some (RawBlock n) \<Longrightarrow> fr' p = Some (RawBlock n)"
  shows "records_ok E M fr' w'" "large_at w' = large_at w" "dom (hw_larges w') = dom (hw_larges w)"
proof -
  note F = table_frameD [OF t]
  note S = relinked_same [OF F(1)] and S' = relinked_same [OF relinked_sym [OF F(1)]]
  show "dom (hw_larges w') = dom (hw_larges w)" by (rule S(1))
  have ar: "arena_range (hw_heap w') = arena_range (hw_heap w)"
    using t by (auto simp: table_frame_def arena_range_def)
  have rk: "record_ok E M (hw_heap w') y l = record_ok E M (hw_heap w) y l" for l y
    by (simp add: record_ok_def ar)
  have prior: "\<exists>l. hw_larges w x = Some l \<and> l\<lparr>lg_next := 0\<rparr> = l'\<lparr>lg_next := 0\<rparr>" if "hw_larges w' x = Some l'" for x l'
    by (rule S'(2) [OF that])
  show "records_ok E M fr' w'"
    unfolding records_ok_def rk
  proof (intro conjI allI impI)
    show "arena_range (hw_heap w') \<subseteq> M" using records_okD(1) [OF r] ar by simp
    fix x l assume x: "hw_larges w' x = Some l"
    obtain l0 where l0: "hw_larges w x = Some l0" "l0\<lparr>lg_next := 0\<rparr> = l\<lparr>lg_next := 0\<rparr>" using prior [OF x] by blast
    show "x \<noteq> 0" by (rule records_okD(2) [OF r l0(1)])
    show "fr' x = Some (RawBlock sizeof_large)" by (rule fr [OF records_okD(3) [OF r l0(1)]])
    show "record_ok E M (hw_heap w) (hw_bytes w') l"
      using records_okD(4) [OF r l0(1)] by (simp add: unlinked_record(1) [OF l0(2)] F(4))
    fix y l' assume y: "hw_larges w' y = Some l'" "x \<noteq> y"
    obtain l1 where l1: "hw_larges w y = Some l1" "l1\<lparr>lg_next := 0\<rparr> = l'\<lparr>lg_next := 0\<rparr>" using prior [OF y(1)] by blast
    show "large_range E l \<inter> large_range E l' = {}"
      using records_okD(5) [OF r l0(1) l1(1) y(2)] by (simp add: unlinked_record(2) [OF l0(2)] unlinked_record(2) [OF l1(2)])
  qed
  show "large_at w' = large_at w"
  proof (intro ext iffI)
    fix p n assume "large_at w' p n"
    then obtain x l where x: "hw_larges w' x = Some l" "lg_pointer l = p" "lg_requested_size l = n" by (auto simp: large_at_def)
    obtain l0 where "hw_larges w x = Some l0" "l0\<lparr>lg_next := 0\<rparr> = l\<lparr>lg_next := 0\<rparr>" using prior [OF x(1)] by blast
    then show "large_at w p n" using x unlinked_eq unfolding large_at_def by metis
  next
    fix p n assume "large_at w p n"
    then obtain x l where x: "hw_larges w x = Some l" "lg_pointer l = p" "lg_requested_size l = n" by (auto simp: large_at_def)
    obtain l0 where "hw_larges w' x = Some l0" "l0\<lparr>lg_next := 0\<rparr> = l\<lparr>lg_next := 0\<rparr>" using S(2) [OF x(1)] by blast
    then show "large_at w' p n" using x unlinked_eq unfolding large_at_def by metis
  qed
qed

section \<open>The invariant\<close>

text \<open>\<open>X\<close> holds the records that are being made or dropped, and are not in the table.\<close>

definition large_part ::
  "'c heap_env \<Rightarrow> nat set \<Rightarrow> (u64 \<rightharpoonup> memx_object) \<Rightarrow> u64 list \<Rightarrow> (nat \<Rightarrow> u64 list) \<Rightarrow> u64 set \<Rightarrow> 'c heap_world \<Rightarrow> bool" where
  "large_part E M fr ws ch X w \<longleftrightarrow> ltable_ok fr ws ch (dom (hw_larges w) - X) w
     \<and> hp_large_count (hw_heap w) = of_nat (card (dom (hw_larges w) - X)) \<and> records_ok E M fr w"

lemma large_partD:
  assumes "large_part E M fr ws ch X w"
  shows "ltable_ok fr ws ch (dom (hw_larges w) - X) w"
    "hp_large_count (hw_heap w) = of_nat (card (dom (hw_larges w) - X))" "records_ok E M fr w"
  using assms by (simp_all add: large_part_def)

lemma large_step:
  assumes inv: "alloc_inv E live mapped M fr fl heads tls hl w" and r: "records_ok E M fr w"
    and s: "table_step E live mapped M fr w fr' w'"
  shows "alloc_inv E live mapped M fr' fl heads tls hl w'" "records_ok E M fr' w'" "large_frame w w'"
    "large_at w' = large_at w" "dom (hw_larges w') = dom (hw_larges w)" "hw_bytes w' = hw_bytes w"
    "hp_large_count (hw_heap w') = hp_large_count (hw_heap w)"
    "hw_larges w x = Some l \<Longrightarrow> \<exists>l'. hw_larges w' x = Some l' \<and> l'\<lparr>lg_next := 0\<rparr> = l\<lparr>lg_next := 0\<rparr>"
proof -
  note S = table_stepD [OF s] and R = records_table [OF r table_stepD(2) [OF s] table_stepD(5) [OF s]]
  show "large_frame w w'" by (rule table_large_frame [OF S(2)])
  then show "alloc_inv E live mapped M fr' fl heads tls hl w'" by (rule alloc_inv_large [OF inv _ S(1,4,5)])
  show "records_ok E M fr' w'" "large_at w' = large_at w" "dom (hw_larges w') = dom (hw_larges w)"
    using R by simp_all
  show "hw_bytes w' = hw_bytes w" by (rule table_frameD(4) [OF S(2)])
  show "hp_large_count (hw_heap w') = hp_large_count (hw_heap w)" using S(2) by (auto simp: table_frame_def)
  show "hw_larges w x = Some l \<Longrightarrow> \<exists>l'. hw_larges w' x = Some l' \<and> l'\<lparr>lg_next := 0\<rparr> = l\<lparr>lg_next := 0\<rparr>"
    by (rule relinked_same(2) [OF table_frameD(1) [OF S(2)]])
qed

text \<open>Counters.\<close>

lemma large_counters:
  assumes inv: "alloc_inv E live mapped M fr fl heads tls hl w" and p: "large_part E M fr ws ch X w" and f: "counts f"
  shows "alloc_inv E live mapped M fr fl heads tls hl (upd_heap f w)" "large_part E M fr ws ch X (upd_heap f w)"
    "large_frame w (upd_heap f w)" "large_at (upd_heap f w) = large_at w"
proof -
  note P = large_partD [OF p]
  show "alloc_inv E live mapped M fr fl heads tls hl (upd_heap f w)" by (rule counters_ok(1) [OF inv f])
  have o: "outer (f (hw_heap w)) = outer (hw_heap w)" "small_fields (f (hw_heap w)) = small_fields (hw_heap w)"
    "hp_caches (f (hw_heap w)) = hp_caches (hw_heap w)" "hp_exclusive_cache (f (hw_heap w)) = hp_exclusive_cache (hw_heap w)"
    using f by (simp_all add: counts_def)
  then show "large_frame w (upd_heap f w)" by (simp add: large_frame_def)
  have ar: "arena_range (f (hw_heap w)) = arena_range (hw_heap w)" using o(1) by (simp add: outer_def arena_range_def)
  have "records_ok E M fr (upd_heap f w)" using P(3) by (simp add: records_ok_def record_ok_def ar)
  then show "large_part E M fr ws ch X (upd_heap f w)"
    using P(1,2) o(1) by (simp add: large_part_def ltable_ok_def outer_def)
  show "large_at (upd_heap f w) = large_at w" by (simp add: large_at_def fun_eq_iff)
qed

section \<open>A record comes and goes\<close>

lemma enter_record:
  assumes c: "env_contract E live mapped" and inv: "alloc_inv E live mapped M fr fl heads tls hl w"
    and p: "large_part E M fr ws ch {} w" and x: "fr x = None" "x \<noteq> 0"
    and l: "record_ok E (M \<union> large_range E l) (hw_heap w) ((hw_bytes w)(lg_pointer l \<mapsto> pl)) l" "large_range E l \<inter> M = {}"
    and m: "mem_ok E live mapped (M \<union> large_range E l) (fr(x \<mapsto> RawBlock sizeof_large)) (hp_index (hw_heap w)) m"
      "adaptive_view (hp_index (hw_heap w), m) = adaptive_view (hp_index (hw_heap w), hw_mem w)"
  defines "w' \<equiv> w\<lparr>hw_mem := m, hw_larges := (hw_larges w)(x \<mapsto> l), hw_bytes := (hw_bytes w)(lg_pointer l \<mapsto> pl)\<rparr>"
  shows "alloc_inv E live mapped (M \<union> large_range E l) (fr(x \<mapsto> RawBlock sizeof_large)) fl heads tls hl w'"
    "large_part E (M \<union> large_range E l) (fr(x \<mapsto> RawBlock sizeof_large)) ws ch {x} w'" "large_frame w w'"
    "large_at w' = (\<lambda>q n. if q = lg_pointer l then n = lg_requested_size l else large_at w q n)"
    "\<not> large_at w (lg_pointer l) n" "\<not> in_arena (hw_heap w) (lg_pointer l)"
proof -
  note P = large_partD [OF p]
  let ?M = "M \<union> large_range E l" and ?fr = "fr(x \<mapsto> RawBlock sizeof_large)"
  have xn: "hw_larges w x = None" using records_okD(3) [OF P(3)] x(1) by (cases "hw_larges w x") auto
  have pout: "\<not> in_arena (hw_heap w) (lg_pointer l)" by (rule record_outside [OF c l(1)])
  then show "\<not> in_arena (hw_heap w) (lg_pointer l)" .
  have dif: "lg_pointer k \<noteq> lg_pointer l" if "hw_larges w y = Some k" for y k
  proof
    assume e: "lg_pointer k = lg_pointer l"
    note K = records_okD(4) [OF P(3) that]
    show False using large_bytes(2) [OF c K] large_bytes(2) [OF c l(1)] record_okD(10) [OF K] l(2) e by auto
  qed
  then show "\<not> large_at w (lg_pointer l) n" by (auto simp: large_at_def)
  show lf: "large_frame w w'" using pout by (auto simp: large_frame_def w'_def)
  show "alloc_inv E live mapped ?M ?fr fl heads tls hl w'"
    by (rule alloc_inv_large [OF inv lf]) (use m x(1) in \<open>auto simp: w'_def\<close>)
  have rest: "record_ok E ?M (hw_heap w) ((hw_bytes w)(lg_pointer l \<mapsto> pl)) k" if "hw_larges w y = Some k" for y k
    using records_okD(4) [OF P(3) that] dif [OF that] unfolding record_ok_def by auto
  have "records_ok E ?M ?fr w'"
    unfolding records_ok_def
  proof (intro conjI allI impI)
    show "arena_range (hw_heap w') \<subseteq> ?M" using records_okD(1) [OF P(3)] by (auto simp: w'_def)
    fix y k assume y: "hw_larges w' y = Some k"
    show "y \<noteq> 0" "?fr y = Some (RawBlock sizeof_large)" "record_ok E ?M (hw_heap w') (hw_bytes w') k"
      using y x(2) l(1) rest records_okD(2,3) [OF P(3)] by (auto simp: w'_def split: if_splits)
    fix z k' assume z: "hw_larges w' z = Some k'" "y \<noteq> z"
    have sub: "large_range E k \<subseteq> M" if "hw_larges w y = Some k" for y k
      by (rule record_okD(10) [OF records_okD(4) [OF P(3) that]])
    show "large_range E k \<inter> large_range E k' = {}"
    proof (cases "y = x")
      case True
      then have "k = l" "hw_larges w z = Some k'" using y z by (simp_all add: w'_def)
      then show ?thesis using sub [of z k'] l(2) by auto
    next
      case False
      then have yk: "hw_larges w y = Some k" using y by (simp add: w'_def)
      show ?thesis
      proof (cases "z = x")
        case True
        then have "k' = l" using z by (simp add: w'_def)
        then show ?thesis using sub [OF yk] l(2) by auto
      next
        case False
        then show ?thesis using records_okD(5) [OF P(3) yk _ z(2)] z(1) by (simp add: w'_def)
      qed
    qed
  qed
  moreover have d: "dom (hw_larges w') - {x} = dom (hw_larges w) - {}" using xn by (auto simp: w'_def)
  moreover have "ltable_ok ?fr ws ch (dom (hw_larges w) - {}) w'"
  proof -
    note T = ltable_okD [OF P(1)]
    have "chains_ok ws ch ((hw_larges w)(x \<mapsto> l))"
      by (rule chains_ok_cong [OF T(4)]) (use T(5) xn in auto)
    moreover have "hp_large_buckets (hw_heap w) \<noteq> x" if "ws \<noteq> []" using T(3) [OF that] x(1) by auto
    ultimately show ?thesis using T by (simp add: ltable_ok_def w'_def)
  qed
  ultimately show "large_part E ?M ?fr ws ch {x} w'"
    using P(2) unfolding large_part_def d by (simp add: w'_def)
  show "large_at w' = (\<lambda>q n. if q = lg_pointer l then n = lg_requested_size l else large_at w q n)"
  proof (intro ext)
    fix q n
    show "large_at w' q n = (if q = lg_pointer l then n = lg_requested_size l else large_at w q n)"
    proof (cases "q = lg_pointer l")
      case True
      then show ?thesis using dif by (auto simp: large_at_def w'_def)
    next
      case False
      have "large_at w' q n \<longleftrightarrow> large_at w q n"
      proof
        assume "large_at w' q n"
        then show "large_at w q n" using False by (auto simp: large_at_def w'_def split: if_splits)
      next
        assume "large_at w q n"
        then obtain y k where y: "hw_larges w y = Some k" "lg_pointer k = q" "lg_requested_size k = n" by (auto simp: large_at_def)
        moreover from y(1) have "y \<noteq> x" using xn by auto
        ultimately show "large_at w' q n" by (auto simp: large_at_def w'_def)
      qed
      then show ?thesis using False by simp
    qed
  qed
qed

lemma drop_record:
  assumes c: "env_contract E live mapped" and inv: "alloc_inv E live mapped M fr fl heads tls hl w"
    and p: "large_part E M fr ws ch {x} w" and x: "hw_larges w x = Some l0" "l0\<lparr>lg_next := 0\<rparr> = l\<lparr>lg_next := 0\<rparr>"
  shows "\<exists>w'. free_large E x (release_mapping E l w) = Some w'
    \<and> alloc_inv E live mapped (M - large_range E l) (fr(x := None)) fl heads tls hl w'
    \<and> large_part E (M - large_range E l) (fr(x := None)) ws ch {} w' \<and> large_frame w w'
    \<and> large_at w' = (\<lambda>q n. q \<noteq> lg_pointer l \<and> large_at w q n)
    \<and> hw_bytes w' = (hw_bytes w)(lg_pointer l := None)"
proof -
  note P = large_partD [OF p] and U = unlinked_eq [OF x(2)]
  have l: "record_ok E M (hw_heap w) (hw_bytes w) l" using records_okD(4) [OF P(3) x(1)] by (simp add: unlinked_record(1) [OF x(2)])
  note R = record_okD [OF l]
  let ?M = "M - large_range E l" and ?ix = "hp_index (hw_heap w)"
  define c' where "c' = memx_os_release (he_sys E) (lg_mapping l) (ctx (hw_mem w))"
  note mem = small_invD(3) [OF alloc_invD(1) [OF inv]]
  have cm: "live c' = live (ctx (hw_mem w))" "mapped c' = ?M"
    using release_spec [OF env_contractD(2) [OF c] R(1,2,5), of "ctx (hw_mem w)"] mem_okD(3) [OF c mem]
    by (simp_all add: c'_def large_range_def)
  have m1: "mem_ok E live mapped ?M fr ?ix ((hw_mem w)\<lparr>ctx := c'\<rparr>)" using mem_ctx [OF c mem cm(1)] cm(2) by simp
  have fx: "fr x \<noteq> None" using records_okD(3) [OF P(3) x(1)] by simp
  obtain m2 where m2: "c_free (he_allocator E) x ((hw_mem w)\<lparr>ctx := c'\<rparr>) = Some m2"
    "mem_ok E live mapped ?M (fr(x := None)) ?ix m2" "adaptive_view (?ix, m2) = adaptive_view (?ix, hw_mem w)"
    using mem_free [OF c m1 fx] by (auto simp: adaptive_view_def)
  define w' where "w' = w\<lparr>hw_mem := m2, hw_bytes := (hw_bytes w)(lg_pointer l := None), hw_larges := (hw_larges w)(x := None)\<rparr>"
  have run: "free_large E x (release_mapping E l w) = Some w'"
    using m2(1) by (simp add: free_large_def release_mapping_def upd_ctx_def w'_def c'_def)
  have pout: "\<not> in_arena (hw_heap w) (lg_pointer l)" by (rule record_outside [OF c l])
  have lf: "large_frame w w'" using pout by (auto simp: large_frame_def w'_def)
  have ai: "alloc_inv E live mapped ?M (fr(x := None)) fl heads tls hl w'"
  proof (rule alloc_inv_large [OF inv lf])
    have "sizeof_large \<noteq> sizeof_cache" by (simp add: sizeof_large_def sizeof_cache_def)
    then show "(fr(x := None)) q = Some (RawBlock sizeof_cache)" if "fr q = Some (RawBlock sizeof_cache)" for q
      using that records_okD(3) [OF P(3) x(1)] by auto
  qed (use m2 in \<open>simp_all add: w'_def\<close>)
  have dif: "lg_pointer k \<noteq> lg_pointer l \<and> large_range E k \<inter> large_range E l = {}" if "hw_larges w y = Some k" "y \<noteq> x" for y k
    using record_pointers [OF c P(3) that(1) x(1)] records_okD(5) [OF P(3) that(1) x(1) that(2)] that(2) U(2)
      unlinked_record(2) [OF x(2)] by auto
  have "records_ok E ?M (fr(x := None)) w'"
    unfolding records_ok_def
  proof (intro conjI allI impI)
    show "arena_range (hw_heap w') \<subseteq> ?M" using records_okD(1) [OF P(3)] R(11) by (auto simp: w'_def)
    fix y k assume "hw_larges w' y = Some k"
    then have y: "hw_larges w y = Some k" "y \<noteq> x" by (auto simp: w'_def split: if_splits)
    show "y \<noteq> 0" by (rule records_okD(2) [OF P(3) y(1)])
    show "(fr(x := None)) y = Some (RawBlock sizeof_large)" using records_okD(3) [OF P(3) y(1)] y(2) by simp
    show "record_ok E ?M (hw_heap w') (hw_bytes w') k"
      using records_okD(4) [OF P(3) y(1)] dif [OF y] unfolding record_ok_def w'_def by auto
    fix z k' assume "hw_larges w' z = Some k'" "y \<noteq> z"
    then show "large_range E k \<inter> large_range E k' = {}"
      using records_okD(5) [OF P(3) y(1)] by (auto simp: w'_def split: if_splits)
  qed
  moreover have d: "dom (hw_larges w') - {} = dom (hw_larges w) - {x}" by (auto simp: w'_def)
  moreover have "ltable_ok (fr(x := None)) ws ch (dom (hw_larges w) - {x}) w'"
  proof -
    note T = ltable_okD [OF P(1)]
    have "chains_ok ws ch ((hw_larges w)(x := None))"
      by (rule chains_ok_cong [OF T(4)]) (use T(5) in auto)
    moreover have "hp_large_buckets (hw_heap w) \<noteq> x" if "ws \<noteq> []"
      using T(3) [OF that] records_okD(3) [OF P(3) x(1)] by auto
    ultimately show ?thesis using T by (simp add: ltable_ok_def w'_def)
  qed
  ultimately have lp: "large_part E ?M (fr(x := None)) ws ch {} w'"
    using P(2) unfolding large_part_def d by (simp add: w'_def)
  have la: "large_at w' = (\<lambda>q n. q \<noteq> lg_pointer l \<and> large_at w q n)"
  proof (intro ext iffI)
    fix q n assume "large_at w' q n"
    then show "q \<noteq> lg_pointer l \<and> large_at w q n" using dif by (auto simp: large_at_def w'_def split: if_splits)
  next
    fix q n assume a: "q \<noteq> lg_pointer l \<and> large_at w q n"
    then obtain y k where y: "hw_larges w y = Some k" "lg_pointer k = q" "lg_requested_size k = n" by (auto simp: large_at_def)
    then have "y \<noteq> x" using a x(1) U(2) by auto
    then show "large_at w' q n" using y by (auto simp: large_at_def w'_def)
  qed
  show ?thesis using run ai lp lf la by (intro exI [of _ w']) (simp add: w'_def)
qed

section \<open>Allocation\<close>

definition large_allocated :: "'c heap_world \<Rightarrow> u64 \<Rightarrow> u64 \<Rightarrow> u64 \<Rightarrow> 'c heap_world \<Rightarrow> bool" where
  "large_allocated w al sz p w' \<longleftrightarrow> large_frame w w' \<and> (\<forall>q n. large_at w q n \<longrightarrow> hw_bytes w' q = hw_bytes w q)
     \<and> (if p = 0 then large_at w' = large_at w
        else (\<forall>n. \<not> large_at w p n) \<and> \<not> in_arena (hw_heap w) p
          \<and> large_at w' = (\<lambda>q n. if q = p then n = sz else large_at w q n)
          \<and> (\<exists>pl. hw_bytes w' p = Some pl \<and> unat sz \<le> pl_size pl)
          \<and> (unat al \<noteq> 0 \<longrightarrow> (\<exists>k. unat al = 2 ^ k) \<longrightarrow> unat al dvd unat p))"

lemma mem_plain:
  assumes inv: "alloc_inv E live mapped M fr fl heads tls hl w" and p: "large_part E M fr ws ch {} w"
    and m: "mem_ok E live mapped M fr (hp_index (hw_heap w)) m"
      "adaptive_view (hp_index (hw_heap w), m) = adaptive_view (hp_index (hw_heap w), hw_mem w)"
  shows "alloc_inv E live mapped M fr fl heads tls hl (w\<lparr>hw_mem := m\<rparr>)" "large_part E M fr ws ch {} (w\<lparr>hw_mem := m\<rparr>)"
    "large_allocated w al sz 0 (w\<lparr>hw_mem := m\<rparr>)"
proof -
  have f: "large_frame w (w\<lparr>hw_mem := m\<rparr>)" by (simp add: large_frame_def)
  show "alloc_inv E live mapped M fr fl heads tls hl (w\<lparr>hw_mem := m\<rparr>)"
    by (rule alloc_inv_large [OF inv f]) (use m in simp_all)
  show "large_part E M fr ws ch {} (w\<lparr>hw_mem := m\<rparr>)"
    using p by (simp add: large_part_def ltable_ok_def records_ok_def)
  show "large_allocated w al sz 0 (w\<lparr>hw_mem := m\<rparr>)" using f by (simp add: large_allocated_def large_at_def fun_eq_iff)
qed

lemma counts_add_live: "\<exists>f. memx_heap_add_live n w = upd_heap f w \<and> counts f"
  using counts_live [of n w] by (auto simp: memx_heap_add_live_def upd_heap_def counts_def intro: exI [of _ id])

lemma upd_heap_comp: "upd_heap f (upd_heap g w) = upd_heap (f \<circ> g) w"
  by (simp add: upd_heap_def)

lemma counts_comp: "counts f \<Longrightarrow> counts g \<Longrightarrow> counts (f \<circ> g)"
  by (simp add: counts_def)

text \<open>A new count of the records.\<close>

lemma count_step:
  assumes inv: "alloc_inv E live mapped M fr fl heads tls hl w" and t: "ltable_ok fr ws ch (dom (hw_larges w) - X) w"
    and r: "records_ok E M fr w" and n: "n = of_nat (card (dom (hw_larges w) - X))"
  defines "w' \<equiv> upd_heap (\<lambda>h. h\<lparr>hp_large_count := n\<rparr>) w"
  shows "alloc_inv E live mapped M fr fl heads tls hl w'" "large_part E M fr ws ch X w'" "large_frame w w'"
    "large_at w' = large_at w"
proof -
  show lf: "large_frame w w'" by (simp add: large_frame_def w'_def small_fields_def)
  show "alloc_inv E live mapped M fr fl heads tls hl w'"
    by (rule alloc_inv_large [OF inv lf]) (use small_invD(3) [OF alloc_invD(1) [OF inv]] in \<open>simp_all add: w'_def\<close>)
  show "large_part E M fr ws ch X w'"
    using t r n by (simp add: large_part_def ltable_ok_def records_ok_def record_ok_def arena_range_def w'_def)
  show "large_at w' = large_at w" by (simp add: large_at_def w'_def fun_eq_iff)
qed

lemma allocate_large_ok:
  assumes c: "env_contract E live mapped" and inv: "alloc_inv E live mapped M fr fl heads tls hl w"
    and p: "large_part E M fr ws ch {} w"
  shows "\<exists>r w' M' fr' ws' ch'. memx_heap_allocate_large E al sz w = Some (r, w')
    \<and> alloc_inv E live mapped M' fr' fl heads tls hl w' \<and> large_part E M' fr' ws' ch' {} w' \<and> large_allocated w al sz r w'"
proof -
  let ?ix = "hp_index (hw_heap w)"
  note mem = small_invD(3) [OF alloc_invD(1) [OF inv]] and P = large_partD [OF p]
  obtain x m1 where a: "c_malloc (he_allocator E) sizeof_large (hw_mem w) = Some (x, m1)"
    "if x = 0 then mem_ok E live mapped M fr ?ix m1
     else fr x = None \<and> heap (hw_mem w) x = None \<and> mem_ok E live mapped M (fr(x \<mapsto> RawBlock sizeof_large)) ?ix m1"
    "adaptive_view (?ix, m1) = adaptive_view (?ix, hw_mem w)"
    using mem_malloc [OF c mem] by blast
  show ?thesis
  proof (cases "x = 0")
    case True
    then have "memx_heap_allocate_large E al sz w = Some (0, w\<lparr>hw_mem := m1\<rparr>)"
      using a(1) by (simp add: memx_heap_allocate_large_def)
    moreover have "mem_ok E live mapped M fr ?ix m1" using a(2) True by simp
    ultimately show ?thesis using mem_plain [OF inv p _ a(3)] by blast
  next
    case x0: False
    let ?fr = "fr(x \<mapsto> RawBlock sizeof_large)"
    have fx: "fr x = None" and m1: "mem_ok E live mapped M ?fr ?ix m1" using a(2) x0 by simp_all
    obtain res c' where os: "memx_os_large_allocate (he_sys E) sz al (ctx m1) = (res, c')" by fastforce
    note L = large_allocate_spec [OF env_contractD(2) [OF c] os]
    let ?m2 = "m1\<lparr>ctx := c'\<rparr>"
    have m2: "mem_ok E live mapped (mapped c') ?fr ?ix ?m2" by (rule mem_ctx [OF c m1 L(1)])
    have v2: "adaptive_view (?ix, ?m2) = adaptive_view (?ix, hw_mem w)" using a(3) by (simp add: adaptive_view_def)
    have Mc: "mapped (ctx m1) = M" by (rule mem_okD(3) [OF c m1])
    have xn: "hw_larges w x = None" using records_okD(3) [OF P(3)] fx by (cases "hw_larges w x") auto
    show ?thesis
    proof (cases res)
      case None
      have m2': "mem_ok E live mapped M ?fr ?ix ?m2" using m2 L(2) [OF None] Mc by simp
      obtain m3 where m3: "c_free (he_allocator E) x ?m2 = Some m3" "mem_ok E live mapped M (?fr(x := None)) ?ix m3"
        "adaptive_view (?ix, m3) = adaptive_view (?ix, ?m2)"
        using mem_free [OF c m2', of x] by auto
      have "(hw_larges w)(x := None) = hw_larges w" "?fr(x := None) = fr" using xn fx by (simp_all add: fun_upd_idem)
      then have "memx_heap_allocate_large E al sz w = Some (0, w\<lparr>hw_mem := m3\<rparr>)" "mem_ok E live mapped M fr ?ix m3"
        using a(1) x0 os None m3(1,2)
        by (simp_all add: memx_heap_allocate_large_def upd_ctx_def free_large_def)
      then show ?thesis using mem_plain [OF inv p] m3(3) v2 by metis
    next
      case (Some mp)
      obtain b n q where mp: "mp = ((b, n), q)" by (metis surj_pair)
      define l where "l = \<lparr>lg_next = 0, lg_mapping = (b, n), lg_pointer = q, lg_requested_size = sz, lg_alignment = al\<rparr>"
      define pl where "pl = \<lparr>pl_size = unat b + unat n - unat q, pl_bytes = (\<lambda>_. 0)\<rparr>"
      have S: "sz \<noteq> 0" "b \<noteq> 0" "n \<noteq> 0" "q \<noteq> 0" "page_bytes (he_sys E) dvd unat b"
        "unat al \<noteq> 0 \<longrightarrow> (\<exists>k. unat al = 2 ^ k) \<longrightarrow> unat al dvd unat q"
        "unat b \<le> unat q" "unat q + unat sz \<le> unat b + unat n" "unat b + unat n \<le> 2 ^ 64"
        "large_range E l \<inter> M = {}" "mapped c' = M \<union> large_range E l"
        using L(3) Some mp Mc by (simp_all add: large_range_def l_def)
      have lok: "record_ok E (M \<union> large_range E l) (hw_heap w) ((hw_bytes w)(lg_pointer l \<mapsto> pl)) l"
        using S records_okD(1) [OF P(3)] by (auto simp: record_ok_def l_def pl_def)
      define w2 where "w2 = w\<lparr>hw_mem := ?m2, hw_larges := (hw_larges w)(x \<mapsto> l), hw_bytes := (hw_bytes w)(lg_pointer l \<mapsto> pl)\<rparr>"
      note N = enter_record [OF c inv p fx x0 lok S(10) m2 [unfolded S(11)] v2, folded w2_def]
      note P2 = large_partD [OF N(2)]
      obtain ok w3 fr3 ws3 ch3 where rs: "memx_heap_large_reserve_locked E w2 = Some (ok, w3)"
        "table_step E live mapped (M \<union> large_range E l) ?fr w2 fr3 w3"
        "ltable_ok fr3 ws3 ch3 (dom (hw_larges w2) - {x}) w3" "ok \<longrightarrow> ws3 \<noteq> []"
        using reserve_ok [OF c small_invD(3) [OF alloc_invD(1) [OF N(1)]] P2(1)] by blast
      note R3 = large_step [OF N(1) P2(3) rs(2)]
      have "hw_larges w2 x = Some l" by (simp add: w2_def)
      from R3(8) [OF this] obtain l3 where l3: "hw_larges w3 x = Some l3" "l3\<lparr>lg_next := 0\<rparr> = l\<lparr>lg_next := 0\<rparr>" by blast
      have lp3: "large_part E (M \<union> large_range E l) fr3 ws3 ch3 {x} w3"
        using rs(3) R3(2,5,7) P2(2) by (simp add: large_part_def)
      have run: "memx_heap_allocate_large E al sz w =
          (if \<not> ok then do { w \<leftarrow> free_large E x (release_mapping E l w3); Some (0, w) }
           else do {
             w \<leftarrow> link_large (hp_large_buckets (hw_heap w3)) (hp_large_bucket_count (hw_heap w3)) x q w3;
             let w = upd_heap (\<lambda>h. h\<lparr>hp_large_count := hp_large_count h + 1\<rparr>) w;
             let w = (if collects w
                      then upd_heap (\<lambda>h. h\<lparr>hp_large_allocation_count := hp_large_allocation_count h + 1\<rparr>) w else w);
             Some (q, memx_heap_add_live sz w)
           })"
        using a(1) x0 os Some mp rs(1)
        by (simp add: memx_heap_allocate_large_def upd_ctx_def w2_def l_def pl_def split del: if_split cong: if_cong)
      have qb: "lg_pointer l = q" "lg_requested_size l = sz" by (simp_all add: l_def)
      have by3: "hw_bytes w3 = (hw_bytes w)(q \<mapsto> pl)" using R3(6) by (simp add: w2_def qb)
      have fresh: "\<not> large_at w q k" for k using N(5) by (simp add: qb)
      show ?thesis
      proof (cases ok)
        case False
        obtain w4 where d: "free_large E x (release_mapping E l w3) = Some w4"
          "alloc_inv E live mapped (M \<union> large_range E l - large_range E l) (fr3(x := None)) fl heads tls hl w4"
          "large_part E (M \<union> large_range E l - large_range E l) (fr3(x := None)) ws3 ch3 {} w4" "large_frame w3 w4"
          "large_at w4 = (\<lambda>k n. k \<noteq> lg_pointer l \<and> large_at w3 k n)" "hw_bytes w4 = (hw_bytes w3)(lg_pointer l := None)"
          using drop_record [OF c R3(1) lp3 l3] by blast
        have lf: "large_frame w w4" using large_frame_trans [OF N(3) large_frame_trans [OF R3(3) d(4)]] .
        have la: "large_at w4 = large_at w"
          unfolding d(5) R3(4) N(4) using fresh by (auto simp: qb fun_eq_iff)
        have "large_allocated w al sz 0 w4"
          using lf la fresh d(6) by3 by (auto simp: large_allocated_def qb)
        then show ?thesis using run False d(1-3) by auto
      next
        case True
        have xT: "x \<notin> dom (hw_larges w2) - {x}" by simp
        obtain w4 fr4 ws4 ch4 where k: "link_large (hp_large_buckets (hw_heap w3)) (hp_large_bucket_count (hw_heap w3)) x (lg_pointer l3) w3 = Some w4"
          "table_step E live mapped (M \<union> large_range E l) fr3 w3 fr4 w4"
          "ltable_ok fr4 ws4 ch4 (insert x (dom (hw_larges w2) - {x})) w4"
          using link_ok [OF c small_invD(3) [OF alloc_invD(1) [OF R3(1)]] rs(3) _ l3(1) x0 xT] rs(4) True by blast
        note R4 = large_step [OF R3(1,2) k(2)]
        have q3: "lg_pointer l3 = q" using unlinked_eq(2) [OF l3(2)] qb by simp
        have d4: "dom (hw_larges w4) = insert x (dom (hw_larges w2) - {x})" "dom (hw_larges w4) = insert x (dom (hw_larges w))"
          using R4(5) R3(5) by (auto simp: w2_def)
        have cn: "hp_large_count (hw_heap w4) + 1 = of_nat (card (dom (hw_larges w4) - {}))"
        proof -
          have "hp_large_count (hw_heap w4) = of_nat (card (dom (hw_larges w2) - {x}))"
            using R4(7) R3(7) P2(2) by simp
          moreover have "dom (hw_larges w2) - {x} = dom (hw_larges w)" using xn by (auto simp: w2_def)
          ultimately show ?thesis using d4(2) xn by (simp add: add.commute card_insert_disjoint domIff)
        qed
        have t4: "ltable_ok fr4 ws4 ch4 (dom (hw_larges w4) - {}) w4" using k(3) d4(1) by simp
        define w5 where "w5 = upd_heap (\<lambda>h. h\<lparr>hp_large_count := hp_large_count (hw_heap w4) + 1\<rparr>) w4"
        note C5 = count_step [OF R4(1) t4 R4(2) cn, folded w5_def]
        have "counts (\<lambda>h. h\<lparr>hp_large_allocation_count := hp_large_allocation_count h + 1\<rparr>)"
          by (simp add: counts_def small_fields_def outer_def)
        from counter_if [OF this] obtain g where g: "(if collects w5 then upd_heap (\<lambda>h. h\<lparr>hp_large_allocation_count :=
            hp_large_allocation_count h + 1\<rparr>) w5 else w5) = upd_heap g w5" "counts g" by blast
        obtain g' where g': "memx_heap_add_live sz (upd_heap g w5) = upd_heap g' (upd_heap g w5)" "counts g'"
          using counts_add_live by blast
        define w6 where "w6 = upd_heap (g' \<circ> g) w5"
        note C6 = large_counters [OF C5(1,2) counts_comp [OF g'(2) g(2)], folded w6_def]
        have e5: "upd_heap (\<lambda>h. h\<lparr>hp_large_count := hp_large_count h + 1\<rparr>) w4 = w5" by (simp add: w5_def upd_heap_def)
        have fin: "memx_heap_allocate_large E al sz w = Some (q, w6)"
          unfolding run Let_def using True
          by (simp only: k(1) [unfolded q3] not_True_eq_False if_False Option.bind.bind_lunit e5 g(1) g'(1) w6_def upd_heap_comp [symmetric])
        have lf: "large_frame w w6"
          using large_frame_trans [OF N(3) large_frame_trans [OF R3(3) large_frame_trans [OF R4(3) large_frame_trans [OF C5(3) C6(3)]]]] .
        have la: "large_at w6 = (\<lambda>k n. if k = q then n = sz else large_at w k n)"
          unfolding C6(4) C5(4) R4(4) R3(4) N(4) qb ..
        have by6: "hw_bytes w6 = (hw_bytes w)(q \<mapsto> pl)" using R4(6) by3 by (simp add: w6_def w5_def)
        have "large_allocated w al sz q w6"
          using lf la fresh by6 S N(6) qb unfolding large_allocated_def by (auto simp: pl_def)
        then show ?thesis using fin C6(1,2) by blast
      qed
    qed
  qed
qed

section \<open>Release\<close>

definition large_released :: "'c heap_world \<Rightarrow> u64 \<Rightarrow> 'c heap_world \<Rightarrow> bool" where
  "large_released w p w' \<longleftrightarrow> large_frame w w' \<and> large_at w' = (\<lambda>q n. q \<noteq> p \<and> large_at w q n)
     \<and> (\<forall>q. q \<noteq> p \<longrightarrow> hw_bytes w' q = hw_bytes w q)"

text \<open>A pointer outside the spans is released exactly when it is a live large one.\<close>

lemma free_large_pointer_ok:
  assumes c: "env_contract E live mapped" and inv: "alloc_inv E live mapped M fr fl heads tls hl w"
    and p: "large_part E M fr ws ch {} w"
  shows "\<exists>w' M' fr' ws' ch'. free_large_pointer E q w = Some ((\<exists>n. large_at w q n), w')
    \<and> alloc_inv E live mapped M' fr' fl heads tls hl w' \<and> large_part E M' fr' ws' ch' {} w' \<and> large_released w q w'
    \<and> ((\<forall>n. \<not> large_at w q n) \<longrightarrow> hw_bytes w' = hw_bytes w)"
proof -
  note mem = small_invD(3) [OF alloc_invD(1) [OF inv]] and P = large_partD [OF p]
  obtain r link where f: "memx_heap_find_large_locked q w = Some (r, link)"
    "if r = 0 then (\<forall>x \<in> dom (hw_larges w) - {}. \<forall>l. hw_larges w x = Some l \<longrightarrow> lg_pointer l \<noteq> q)
       else \<exists>i ys zs l. i < length ws \<and> ch i = ys @ r # zs \<and> hw_larges w r = Some l \<and> lg_pointer l = q
         \<and> r \<in> dom (hw_larges w) - {} \<and> link = (if ys = [] then Bucket_Link i else Next_Link (last ys))"
    using find_large_ok [OF c mem P(1)] by blast
  show ?thesis
  proof (cases "r = 0")
    case True
    have no: "\<not> large_at w q n" for n using f(2) True by (auto simp: large_at_def)
    have "counts (\<lambda>h. h\<lparr>hp_invalid_frees := hp_invalid_frees h + 1\<rparr>)"
      by (simp add: counts_def small_fields_def outer_def)
    from counter_if [OF this] obtain g where g: "(if collects w then upd_heap (\<lambda>h. h\<lparr>hp_invalid_frees := hp_invalid_frees h + 1\<rparr>) w else w)
        = upd_heap g w" "counts g" by blast
    note C = large_counters [OF inv p g(2)]
    have "free_large_pointer E q w = Some (False, upd_heap g w)" using f(1) True g(1) by (simp add: free_large_pointer_def)
    moreover have "large_released w q (upd_heap g w)" using C(3,4) no by (auto simp: large_released_def fun_eq_iff)
    ultimately show ?thesis using C(1,2) no
      by (intro exI [of _ "upd_heap g w"] exI [of _ M] exI [of _ fr] exI [of _ ws] exI [of _ ch]) simp
  next
    case r0: False
    then obtain i ys zs l where y: "i < length ws" "ch i = ys @ r # zs" "hw_larges w r = Some l" "lg_pointer l = q"
      "link = (if ys = [] then Bucket_Link i else Next_Link (last ys))" using f(2) by auto
    obtain w1 fr1 ws1 ch1 where u: "write_link link (lg_next l) w = Some w1" "table_step E live mapped M fr w fr1 w1"
      "ltable_ok fr1 ws1 ch1 (dom (hw_larges w) - {} - {r}) w1"
      using unlink_ok [OF c mem P(1) y(1-3)] y(5) by blast
    note R1 = large_step [OF inv P(3) u(2)]
    obtain l1 where l1: "hw_larges w1 r = Some l1" "l1\<lparr>lg_next := 0\<rparr> = l\<lparr>lg_next := 0\<rparr>" using R1(8) [OF y(3)] by blast
    have t1: "ltable_ok fr1 ws1 ch1 (dom (hw_larges w1) - {r}) w1" using u(3) R1(5) by simp
    have cn: "hp_large_count (hw_heap w1) - 1 = of_nat (card (dom (hw_larges w1) - {r}))"
    proof -
      have "r \<in> dom (hw_larges w1)" using l1 by auto
      then have "card (dom (hw_larges w1)) = Suc (card (dom (hw_larges w1) - {r}))" by (metis card.remove finite)
      then show ?thesis using R1(5,7) P(2) by simp
    qed
    define w2 where "w2 = upd_heap (\<lambda>h. h\<lparr>hp_large_count := hp_large_count (hw_heap w1) - 1\<rparr>) w1"
    note C2 = count_step [OF R1(1) t1 R1(2) cn, folded w2_def]
    note P2 = large_partD [OF C2(2)]
    have z2: "0 \<notin> dom (hw_larges w2) - {r}" using records_okD(2) [OF P2(3)] by auto
    obtain w3 fr3 ws3 ch3 where s: "memx_heap_large_shrink_locked E w2 = Some w3" "table_step E live mapped M fr1 w2 fr3 w3"
      "ltable_ok fr3 ws3 ch3 (dom (hw_larges w2) - {r}) w3"
      using shrink_ok [OF c small_invD(3) [OF alloc_invD(1) [OF C2(1)]] P2(1,2) z2] by blast
    note R3 = large_step [OF C2(1) P2(3) s(2)]
    have lp3: "large_part E M fr3 ws3 ch3 {r} w3" using s(3) R3(2,5,7) P2(2) by (simp add: large_part_def)
    have "hw_larges w2 r = Some l1" using l1 by (simp add: w2_def)
    from R3(8) [OF this] obtain l3 where l3: "hw_larges w3 r = Some l3" "l3\<lparr>lg_next := 0\<rparr> = l1\<lparr>lg_next := 0\<rparr>" by blast
    obtain g where g: "count_release (lg_requested_size l3) w3 = upd_heap g w3" "counts g" using counts_release by blast
    define w4 where "w4 = upd_heap g w3"
    note C4 = large_counters [OF R3(1) lp3 g(2), folded w4_def]
    have l4: "hw_larges w4 r = Some l3" using l3(1) by (simp add: w4_def)
    obtain w5 where d: "free_large E r (release_mapping E l3 w4) = Some w5"
      "alloc_inv E live mapped (M - large_range E l3) (fr3(r := None)) fl heads tls hl w5"
      "large_part E (M - large_range E l3) (fr3(r := None)) ws3 ch3 {} w5" "large_frame w4 w5"
      "large_at w5 = (\<lambda>k n. k \<noteq> lg_pointer l3 \<and> large_at w4 k n)" "hw_bytes w5 = (hw_bytes w4)(lg_pointer l3 := None)"
      using drop_record [OF c C4(1,2) l4 refl] by blast
    have q3: "lg_pointer l3 = q" using unlinked_eq(2) [OF l1(2)] unlinked_eq(2) [OF l3(2)] y(4) by simp
    have e2: "upd_heap (\<lambda>h. h\<lparr>hp_large_count := hp_large_count h - 1\<rparr>) w1 = w2" by (simp add: w2_def upd_heap_def)
    have yes: "\<exists>n. large_at w q n" using y(3,4) by (auto simp: large_at_def)
    have run: "free_large_pointer E q w = Some (True, w5)"
      using f(1) r0 y(3) u(1) e2 s(1) l3(1) g(1) d(1) by (simp add: free_large_pointer_def w4_def [symmetric])
    have lf: "large_frame w w5"
      using large_frame_trans [OF R1(3) large_frame_trans [OF C2(3) large_frame_trans [OF R3(3) large_frame_trans [OF C4(3) d(4)]]]] .
    have "large_at w5 = (\<lambda>k n. k \<noteq> q \<and> large_at w k n)" unfolding d(5) C4(4) R3(4) C2(4) R1(4) q3 ..
    moreover have "hw_bytes w5 = (hw_bytes w)(q := None)" using d(6) R3(6) R1(6) by (simp add: q3 w4_def w2_def)
    ultimately have "large_released w q w5" using lf by (simp add: large_released_def)
    then show ?thesis using run yes d(2,3)
      by (intro exI [of _ w5] exI [of _ "M - large_range E l3"] exI [of _ "fr3(r := None)"] exI [of _ ws3] exI [of _ ch3]) auto
  qed
qed

end
