(* ===== verification/Memx_Client.thy ===== *)
theory Memx_Client
  imports Memx_LargePath
begin

text \<open>
  What a client sees of the allocator: a map from pointers to byte strings.  The heap invariant
  joins the small-object path, the table of large allocations and the sizes of live objects; the
  objects of a heap are its live pointers with the bytes the client may use.
\<close>

section \<open>The heap invariant\<close>

text \<open>A live small object has a size, and its payload has room for it.\<close>

definition sizes_ok :: "'c heap_world \<Rightarrow> bool" where
  "sizes_ok w \<longleftrightarrow> (\<forall>p n. small_at w p = Some n \<longrightarrow> n \<noteq> 0
     \<and> (\<exists>pl. hw_bytes w p = Some pl \<and> unat n \<le> pl_size pl))"

definition heap_ok ::
  "'c heap_env \<Rightarrow> ('c \<Rightarrow> u64 set) \<Rightarrow> ('c \<Rightarrow> nat set) \<Rightarrow> 'c heap_world \<Rightarrow> bool" where
  "heap_ok E live mapped w \<longleftrightarrow> (\<exists>M fr fl heads tls hl ws ch. alloc_inv E live mapped M fr fl heads tls hl w
     \<and> (\<forall>j. fl (Hand j) = []) \<and> large_part E M fr ws ch {} w) \<and> sizes_ok w \<and> hp_self (hw_heap w) \<noteq> 0"

lemma heap_okE:
  assumes "heap_ok E live mapped w"
  obtains M fr fl heads tls hl ws ch where "alloc_inv E live mapped M fr fl heads tls hl w"
    "\<And>j. fl (Hand j) = []" "large_part E M fr ws ch {} w" "sizes_ok w" "hp_self (hw_heap w) \<noteq> 0"
  using assms unfolding heap_ok_def by blast

lemma heap_okI:
  assumes "alloc_inv E live mapped M fr fl heads tls hl w" "\<forall>j. fl (Hand j) = []"
    "large_part E M fr ws ch {} w" "sizes_ok w" "hp_self (hw_heap w) \<noteq> 0"
  shows "heap_ok E live mapped w"
  using assms unfolding heap_ok_def by blast

section \<open>Objects\<close>

definition size_at :: "'c heap_world \<Rightarrow> u64 \<Rightarrow> u64 \<Rightarrow> bool" where
  "size_at w p n \<longleftrightarrow> small_at w p = Some n \<or> large_at w p n"

definition object_at :: "'c heap_world \<Rightarrow> u64 \<Rightarrow> u8 list \<Rightarrow> bool" where
  "object_at w p bs \<longleftrightarrow> (\<exists>n pl. size_at w p n \<and> hw_bytes w p = Some pl \<and> bs = map (pl_bytes pl) [0 ..< unat n])"

definition objects :: "'c heap_world \<Rightarrow> (u64 \<rightharpoonup> u8 list) \<Rightarrow> bool" where
  "objects w A \<longleftrightarrow> (\<forall>p bs. A p = Some bs \<longleftrightarrow> object_at w p bs)"

lemma small_live:
  assumes inv: "alloc_inv E live mapped M fr fl heads tls hl w" and p: "small_at w p = Some n"
  shows "in_arena (hw_heap w) p" "p \<noteq> 0" "16 dvd unat p"
    "\<exists>b. hw_blocks w (p - sizeof_block) = Some b \<and> bk_state b = 1 \<and> n = ucast (bk_requested_size b)"
    "map_option pl_size (hw_bytes w p) = Some (class_size (class_of (hw_heap w) (p - sizeof_block)))"
    "class_of (hw_heap w) (p - sizeof_block) < 19"
proof -
  obtain b where b: "hw_blocks w (p - sizeof_block) = Some b" "bk_state b = 1" "n = ucast (bk_requested_size b)"
    using p by (auto simp: small_at_Some)
  note I = alloc_invD [OF inv]
  have x: "hw_blocks w (p - sizeof_block) \<noteq> None" using b by simp
  note A = block_in_arena [OF small_invD(1) [OF I(1)] x]
  show "in_arena (hw_heap w) p" using A(1) by simp
  have u: "unat p = unat (p - sizeof_block) + 16" using A(4) by simp
  then show "p \<noteq> 0" by auto
  show "16 dvd unat p" unfolding u using A(3) by simp
  show "\<exists>b. hw_blocks w (p - sizeof_block) = Some b \<and> bk_state b = 1 \<and> n = ucast (bk_requested_size b)" using b by blast
  have "payloads_ok (class_of (hw_heap w)) (hw_blocks w) (hw_bytes w)" by (rule bins_partD(2) [OF small_invD(4) [OF I(1)]])
  then show "map_option pl_size (hw_bytes w p) = Some (class_size (class_of (hw_heap w) (p - sizeof_block)))"
    "class_of (hw_heap w) (p - sizeof_block) < 19" using x by (auto simp: payloads_ok_def)
qed

lemma large_live:
  assumes c: "env_contract E live mapped" and p: "large_part E M fr ws ch X w" "large_at w p n"
  shows "\<not> in_arena (hw_heap w) p" "p \<noteq> 0" "n \<noteq> 0" "large_at w p m \<longleftrightarrow> m = n"
    "\<exists>pl. hw_bytes w p = Some pl \<and> unat n \<le> pl_size pl"
proof -
  note R = large_partD(3) [OF p(1)]
  obtain x l where x: "hw_larges w x = Some l" "lg_pointer l = p" "lg_requested_size l = n" using p(2) by (auto simp: large_at_def)
  note K = records_okD(4) [OF R x(1)] and D = record_okD [OF records_okD(4) [OF R x(1)]]
  show "\<not> in_arena (hw_heap w) p" using record_outside [OF c K] x(2) by simp
  show "p \<noteq> 0" "n \<noteq> 0" using D(3,4) x by simp_all
  show "\<exists>pl. hw_bytes w p = Some pl \<and> unat n \<le> pl_size pl" using D(6,7,9) x by auto
  show "large_at w p m \<longleftrightarrow> m = n"
  proof
    assume "large_at w p m"
    then obtain y k where "hw_larges w y = Some k" "lg_pointer k = p" "lg_requested_size k = m" by (auto simp: large_at_def)
    then show "m = n" using record_pointers [OF c R, of y k x l] x by auto
  qed (use p(2) in simp)
qed

text \<open>The size of a live pointer is one, not null, and fits in its payload.\<close>

lemma size_facts:
  assumes c: "env_contract E live mapped" and h: "heap_ok E live mapped w" and p: "size_at w p n"
  shows "p \<noteq> 0" "n \<noteq> 0" "size_at w p m \<longleftrightarrow> m = n" "\<exists>pl. hw_bytes w p = Some pl \<and> unat n \<le> pl_size pl"
proof -
  obtain M fr fl heads tls hl ws ch where H: "alloc_inv E live mapped M fr fl heads tls hl w"
    "large_part E M fr ws ch {} w" "sizes_ok w"
    by (rule heap_okE [OF h]) blast
  consider "small_at w p = Some n" | "large_at w p n" using p by (auto simp: size_at_def)
  then have "p \<noteq> 0 \<and> n \<noteq> 0 \<and> (size_at w p m \<longleftrightarrow> m = n) \<and> (\<exists>pl. hw_bytes w p = Some pl \<and> unat n \<le> pl_size pl)"
  proof cases
    case 1
    have "\<not> large_at w p k" for k using large_live(1) [OF c H(2)] small_live(1) [OF H(1) 1] by blast
    then have "size_at w p m \<longleftrightarrow> m = n" using 1 by (auto simp: size_at_def)
    then show ?thesis using small_live(2) [OF H(1) 1] H(3) 1 unfolding sizes_ok_def by blast
  next
    case 2
    note L = large_live [OF c H(2) 2]
    have "small_at w p \<noteq> Some k" for k using small_live(1) [OF H(1), of p k] L(1) by blast
    then have "size_at w p m \<longleftrightarrow> m = n" using L(4) [of m] by (auto simp: size_at_def)
    then show ?thesis using L(2,3,5) by blast
  qed
  then show "p \<noteq> 0" "n \<noteq> 0" "size_at w p m \<longleftrightarrow> m = n" "\<exists>pl. hw_bytes w p = Some pl \<and> unat n \<le> pl_size pl" by blast+
qed

lemma objects_size:
  assumes c: "env_contract E live mapped" and h: "heap_ok E live mapped w" and o: "objects w A"
  shows "A p = Some bs \<Longrightarrow> size_at w p (of_nat (length bs))" "size_at w p n \<Longrightarrow> \<exists>bs. A p = Some bs \<and> length bs = unat n"
    "A p = None \<longleftrightarrow> (\<forall>n. \<not> size_at w p n)"
proof -
  show 1: "\<exists>bs. A p = Some bs \<and> length bs = unat n" if a: "size_at w p n" for n
  proof -
    obtain pl where "hw_bytes w p = Some pl" using size_facts(4) [OF c h a] by blast
    then have "object_at w p (map (pl_bytes pl) [0 ..< unat n])" using a unfolding object_at_def by blast
    then have "A p = Some (map (pl_bytes pl) [0 ..< unat n])" using o by (simp add: objects_def)
    then show ?thesis by simp
  qed
  show 2: "size_at w p (of_nat (length bs))" if a: "A p = Some bs" for bs
  proof -
    have "object_at w p bs" using o a by (simp add: objects_def)
    then show ?thesis unfolding object_at_def by (elim exE conjE) simp
  qed
  show "A p = None \<longleftrightarrow> (\<forall>n. \<not> size_at w p n)" using 1 2 by (cases "A p") auto
qed

text \<open>Every heap has its objects.\<close>

lemma objects_exist:
  assumes c: "env_contract E live mapped" and h: "heap_ok E live mapped w"
  shows "\<exists>A. objects w A"
proof -
  have f: "bs = bs'" if a: "object_at w p bs" "object_at w p bs'" for p bs bs'
  proof -
    obtain n pl where n: "size_at w p n" "hw_bytes w p = Some pl" "bs = map (pl_bytes pl) [0 ..< unat n]"
      using a(1) unfolding object_at_def by blast
    obtain m pm where m: "size_at w p m" "hw_bytes w p = Some pm" "bs' = map (pl_bytes pm) [0 ..< unat m]"
      using a(2) unfolding object_at_def by blast
    have "m = n" using size_facts(3) [OF c h n(1)] m(1) by blast
    then show ?thesis using n m by simp
  qed
  let ?A = "\<lambda>p. if \<exists>bs. object_at w p bs then Some (SOME bs. object_at w p bs) else None"
  have "?A p = Some bs \<longleftrightarrow> object_at w p bs" for p bs
    using f [of p] someI [of "object_at w p"] by (auto split: if_splits)
  then show ?thesis unfolding objects_def by (intro exI [of _ ?A]) blast
qed

text \<open>How the objects change when the sizes and the bytes do.\<close>

lemma objects_upd:
  assumes o: "objects w A"
    and s: "\<And>q n. q \<noteq> p \<Longrightarrow> size_at w' q n \<longleftrightarrow> size_at w q n"
    and y: "\<And>q n. q \<noteq> p \<Longrightarrow> size_at w q n \<Longrightarrow> hw_bytes w' q = hw_bytes w q"
    and v: "\<And>bs. v = Some bs \<longleftrightarrow> object_at w' p bs"
  shows "objects w' (A(p := v))"
  unfolding objects_def
proof (intro allI)
  fix q bs
  show "(A(p := v)) q = Some bs \<longleftrightarrow> object_at w' q bs"
  proof (cases "q = p")
    case True
    then show ?thesis using v by simp
  next
    case False
    have "object_at w' q bs \<longleftrightarrow> object_at w q bs" using s [OF False] y [OF False] unfolding object_at_def by metis
    then show ?thesis using False o by (simp add: objects_def)
  qed
qed

lemma objects_same:
  assumes o: "objects w A" and s: "\<And>q n. size_at w' q n \<longleftrightarrow> size_at w q n"
    and y: "\<And>q n. size_at w q n \<Longrightarrow> hw_bytes w' q = hw_bytes w q"
  shows "objects w' A"
  using o s y unfolding objects_def object_at_def by metis

section \<open>The paths on the heap\<close>

lemma arena_fields:
  assumes "outer h' = outer h"
  shows "hp_self h' = hp_self h" "hp_arena h' = hp_arena h" "in_arena h' = in_arena h" "arena_range h' = arena_range h"
    "hp_config h' = hp_config h" "hp_span_size h' = hp_span_size h" "hp_large_buckets h' = hp_large_buckets h"
    "hp_large_bucket_count h' = hp_large_bucket_count h" "hp_large_count h' = hp_large_count h"
    "hp_span_capacity h' = hp_span_capacity h" "hp_span_classes h' = hp_span_classes h"
  using assms by (simp_all add: outer_def in_arena_def arena_range_def fun_eq_iff)

text \<open>The small path leaves the large one alone.\<close>

lemma large_part_small:
  assumes c: "env_contract E live mapped" and p: "large_part E M fr ws ch X w" and fr: "fr \<subseteq>\<^sub>m fr'"
    and f: "outer (hw_heap w') = outer (hw_heap w)" "hw_larges w' = hw_larges w"
      "\<And>q. \<not> in_arena (hw_heap w) q \<Longrightarrow> hw_bytes w' q = hw_bytes w q"
  shows "large_part E M fr' ws ch X w'" "large_at w' = large_at w"
proof -
  note P = large_partD [OF p] and O = arena_fields [OF f(1)]
  have frs: "fr' q = Some v" if "fr q = Some v" for q v using fr that by (force simp: map_le_def)
  have "ltable_ok fr' ws ch (dom (hw_larges w) - X) w'"
    using P(1) frs by (auto simp: ltable_ok_def O f(2))
  moreover have "records_ok E M fr' w'"
    unfolding records_ok_def
  proof (intro conjI allI impI)
    show "arena_range (hw_heap w') \<subseteq> M" using records_okD(1) [OF P(3)] by (simp add: O)
    fix x l assume "hw_larges w' x = Some l"
    then have x: "hw_larges w x = Some l" by (simp add: f(2))
    show "x \<noteq> 0" by (rule records_okD(2) [OF P(3) x])
    show "fr' x = Some (RawBlock sizeof_large)" by (rule frs [OF records_okD(3) [OF P(3) x]])
    note K = records_okD(4) [OF P(3) x]
    show "record_ok E M (hw_heap w') (hw_bytes w') l"
      using K f(3) [OF record_outside [OF c K]] by (simp add: record_ok_def O)
    show "large_range E l \<inter> large_range E l' = {}" if "hw_larges w' y = Some l'" "x \<noteq> y" for y l'
      using records_okD(5) [OF P(3) x] that by (simp add: f(2))
  qed
  ultimately show "large_part E M fr' ws ch X w'" using P(2) by (simp add: large_part_def f(2) O)
  show "large_at w' = large_at w" by (simp add: large_at_def f(2) fun_eq_iff)
qed

lemma small_at_large:
  assumes "large_frame w w'"
  shows "small_at w' = small_at w"
  using assms by (simp add: large_frame_def small_at_def fun_eq_iff)

lemma sizes_large:
  assumes inv: "alloc_inv E live mapped M fr fl heads tls hl w" and s: "sizes_ok w" and f: "large_frame w w'"
  shows "sizes_ok w'"
proof -
  have "hw_bytes w' p = hw_bytes w p" if "small_at w p = Some n" for p n
    using f small_live(1) [OF inv that] by (simp add: large_frame_def)
  then show ?thesis using s unfolding sizes_ok_def small_at_large [OF f] by auto
qed

lemma self_large: "large_frame w w' \<Longrightarrow> hp_self (hw_heap w') = hp_self (hw_heap w)"
  using small_fieldsD(1) by (auto simp: large_frame_def)

text \<open>An allocation of the small path.\<close>

definition allocated :: "(u64 \<rightharpoonup> u8 list) \<Rightarrow> u64 \<Rightarrow> u64 \<Rightarrow> (u64 \<rightharpoonup> u8 list) \<Rightarrow> bool" where
  "allocated A n p A' \<longleftrightarrow> (if p = 0 then A' = A
     else A p = None \<and> (\<exists>bs. length bs = unat n \<and> A' = A(p \<mapsto> bs)))"

lemma allocatedI:
  "p \<noteq> 0 \<Longrightarrow> A p = None \<Longrightarrow> length bs = unat n \<Longrightarrow> allocated A n p (A(p \<mapsto> bs))"
  unfolding allocated_def by auto

lemma small_ok:
  assumes c: "env_contract E live mapped" and h: "heap_ok E live mapped w" and o: "objects w A"
    and k: "k < 19" "n \<noteq> 0" "unat n \<le> class_size k"
  shows "\<exists>p w' A'. memx_heap_allocate_small E t n k w = Some (p, w') \<and> heap_ok E live mapped w' \<and> objects w' A'
    \<and> outer (hw_heap w') = outer (hw_heap w) \<and> allocated A n p A' \<and> 16 dvd unat p"
proof -
  obtain M fr fl heads tls hl ws ch where H: "alloc_inv E live mapped M fr fl heads tls hl w"
    "\<And>j. fl (Hand j) = []" "large_part E M fr ws ch {} w" "sizes_ok w" "hp_self (hw_heap w) \<noteq> 0"
    by (rule heap_okE [OF h]) blast
  obtain p w' fr' fl' heads' tls' hl' where a: "memx_heap_allocate_small E t n k w = Some (p, w')"
    "alloc_inv E live mapped M fr' fl' heads' tls' hl' w'" "\<forall>j. fl' (Hand j) = []" "fr \<subseteq>\<^sub>m fr'"
    "small_allocated w k n p w'"
    using alloc_small_ok [OF c H(1,2) k(1), where t = t and sz = n] by blast
  have s: "outer (hw_heap w') = outer (hw_heap w)" "hw_larges w' = hw_larges w"
    "\<And>q. \<not> in_arena (hw_heap w) q \<Longrightarrow> hw_bytes w' q = hw_bytes w q"
    "\<And>q. small_at w q \<noteq> None \<Longrightarrow> hw_bytes w' q = hw_bytes w q"
    using a(5) by (simp_all add: small_allocated_def)
  note L = large_part_small [OF c H(3) a(4) s(1-3)]
  have lb: "hw_bytes w' q = hw_bytes w q" if "large_at w q m" for q m
    by (rule s(3)) (rule large_live(1) [OF c H(3) that])
  have un: "(ucast (ucast n :: u32) :: u64) = n"
  proof -
    have "class_size k \<le> 8192"
    proof -
      have "\<forall>s \<in> set memx_heap_class_sizes. unat s \<le> 8192" by (simp add: memx_heap_class_sizes_def)
      then show ?thesis using k(1) by (simp add: class_size_def)
    qed
    then have n: "unat n < 2 ^ 32" using k(3) by simp
    have "unat (ucast (ucast n :: u32) :: u64) = unat (ucast n :: u32)" by (rule widened)
    also have "\<dots> = unat n" using n by (simp add: unsigned_ucast_eq take_bit_nat_eq_self)
    finally show ?thesis by (simp only: unat_eq_iff)
  qed
  show ?thesis
  proof (cases "p = 0")
    case True
    have sa: "small_at w' = small_at w" using a(5) True by (simp add: small_allocated_def)
    have "sizes_ok w'" using H(4) s(4) unfolding sizes_ok_def sa by (metis option.distinct(1))
    then have "heap_ok E live mapped w'"
      using heap_okI [OF a(2,3) L(1)] H(5) arena_fields(1) [OF s(1)] by simp
    moreover have "objects w' A"
      by (rule objects_same [OF o]) (use s(4) lb in \<open>auto simp: size_at_def sa L(2)\<close>)
    ultimately show ?thesis using a(1) s(1) True by (intro exI [of _ 0] exI [of _ w'] exI [of _ A]) (simp add: allocated_def)
  next
    case False
    have sa: "small_at w p = None" "small_at w' = (small_at w)(p \<mapsto> n)" "in_arena (hw_heap w) p" "16 dvd unat p"
      "map_option pl_size (hw_bytes w' p) = Some (class_size k)"
      using a(5) False by (simp_all add: small_allocated_def un)
    obtain pl where pl: "hw_bytes w' p = Some pl" "pl_size pl = class_size k" using sa(5) by auto
    have "sizes_ok w'" using H(4) s(4) pl k(2,3) unfolding sizes_ok_def sa(2) by (auto split: if_splits)
    then have hk: "heap_ok E live mapped w'"
      using heap_okI [OF a(2,3) L(1)] H(5) arena_fields(1) [OF s(1)] by simp
    have nl: "\<not> large_at w p m" for m using large_live(1) [OF c H(3)] sa(3) by blast
    have "objects w' (A(p \<mapsto> map (pl_bytes pl) [0 ..< unat n]))"
    proof (rule objects_upd [OF o])
      show "size_at w' q m \<longleftrightarrow> size_at w q m" if "q \<noteq> p" for q m using that by (simp add: size_at_def sa(2) L(2))
      show "hw_bytes w' q = hw_bytes w q" if "q \<noteq> p" "size_at w q m" for q m
        using that s(4) lb by (auto simp: size_at_def)
      show "Some (map (pl_bytes pl) [0 ..< unat n]) = Some bs \<longleftrightarrow> object_at w' p bs" for bs
        using pl nl by (auto simp: object_at_def size_at_def sa(2) L(2))
    qed
    moreover have "A p = None" using objects_size(3) [OF c h o, of p] sa(1) nl by (simp add: size_at_def)
    ultimately show ?thesis using a(1) hk s(1) False sa(4) allocatedI [of p A "map (pl_bytes pl) [0 ..< unat n]" n]
      by (intro exI [of _ p] exI [of _ w'] exI [of _ "A(p \<mapsto> map (pl_bytes pl) [0 ..< unat n])"]) simp
  qed
qed

lemma outer_large: "large_frame w w' \<Longrightarrow> hp_self (hw_heap w') = hp_self (hw_heap w) \<and> hp_arena (hw_heap w') = hp_arena (hw_heap w)"
  using small_fieldsD by (auto simp: large_frame_def)

lemma large_ok:
  assumes c: "env_contract E live mapped" and h: "heap_ok E live mapped w" and o: "objects w A"
  shows "\<exists>p w' A'. memx_heap_allocate_large E al n w = Some (p, w') \<and> heap_ok E live mapped w' \<and> objects w' A'
    \<and> large_frame w w' \<and> allocated A n p A' \<and> (unat al \<noteq> 0 \<longrightarrow> (\<exists>k. unat al = 2 ^ k) \<longrightarrow> unat al dvd unat p)"
proof -
  obtain M fr fl heads tls hl ws ch where H: "alloc_inv E live mapped M fr fl heads tls hl w"
    "\<And>j. fl (Hand j) = []" "large_part E M fr ws ch {} w" "sizes_ok w" "hp_self (hw_heap w) \<noteq> 0"
    by (rule heap_okE [OF h]) blast
  obtain p w' M' fr' ws' ch' where a: "memx_heap_allocate_large E al n w = Some (p, w')"
    "alloc_inv E live mapped M' fr' fl heads tls hl w'" "large_part E M' fr' ws' ch' {} w'" "large_allocated w al n p w'"
    using allocate_large_ok [OF c H(1,3)] by blast
  have s: "large_frame w w'" "\<And>q m. large_at w q m \<Longrightarrow> hw_bytes w' q = hw_bytes w q"
    using a(4) by (auto simp: large_allocated_def)
  note sa = small_at_large [OF s(1)]
  have sb: "hw_bytes w' q = hw_bytes w q" if "small_at w q = Some m" for q m
    using s(1) small_live(1) [OF H(1) that] by (simp add: large_frame_def)
  have hk: "heap_ok E live mapped w'"
    by (rule heap_okI [OF a(2) _ a(3) sizes_large [OF H(1,4) s(1)]]) (use H(2,5) self_large [OF s(1)] in simp_all)
  show ?thesis
  proof (cases "p = 0")
    case True
    have la: "large_at w' = large_at w" using a(4) True by (simp add: large_allocated_def)
    have "objects w' A" by (rule objects_same [OF o]) (use s(2) sb in \<open>auto simp: size_at_def sa la\<close>)
    then show ?thesis using a(1) hk s(1) True by (intro exI [of _ 0] exI [of _ w'] exI [of _ A]) (simp add: allocated_def)
  next
    case False
    have g: "\<And>m. \<not> large_at w p m" "\<not> in_arena (hw_heap w) p" "large_at w' = (\<lambda>q m. if q = p then m = n else large_at w q m)"
      "\<exists>pl. hw_bytes w' p = Some pl \<and> unat n \<le> pl_size pl" "unat al \<noteq> 0 \<longrightarrow> (\<exists>k. unat al = 2 ^ k) \<longrightarrow> unat al dvd unat p"
      using a(4) False by (simp_all add: large_allocated_def)
    have ns: "small_at w p \<noteq> Some m" for m using small_live(1) [OF H(1), of p m] g(2) by blast
    obtain pl where pl: "hw_bytes w' p = Some pl" using g(4) by blast
    have "objects w' (A(p \<mapsto> map (pl_bytes pl) [0 ..< unat n]))"
    proof (rule objects_upd [OF o])
      show "size_at w' q m \<longleftrightarrow> size_at w q m" if "q \<noteq> p" for q m using that by (simp add: size_at_def sa g(3))
      show "hw_bytes w' q = hw_bytes w q" if "q \<noteq> p" "size_at w q m" for q m
        using that s(2) sb by (auto simp: size_at_def)
      show "Some (map (pl_bytes pl) [0 ..< unat n]) = Some bs \<longleftrightarrow> object_at w' p bs" for bs
        using pl ns by (auto simp: object_at_def size_at_def sa g(3))
    qed
    moreover have "A p = None" using objects_size(3) [OF c h o, of p] ns g(1) by (simp add: size_at_def)
    ultimately show ?thesis using a(1) hk s(1) False g(5) allocatedI [of p A "map (pl_bytes pl) [0 ..< unat n]" n]
      by (intro exI [of _ p] exI [of _ w'] exI [of _ "A(p \<mapsto> map (pl_bytes pl) [0 ..< unat n])"]) simp
  qed
qed

end
