(* ===== verification/Memx_Resize.thy ===== *)
theory Memx_Resize
  imports Memx_Client
begin

text \<open>
  The steps behind the public calls that change an object in place: writes to its bytes, which are
  also what a client does between calls, and a new size in its header or record.
\<close>

section \<open>Resolving a pointer\<close>

lemma resolve:
  assumes inv: "alloc_inv E live mapped M fr fl heads tls hl w"
  shows "\<exists>r. memx_heap_small_block_locked p w = Some r
    \<and> (case r of None \<Rightarrow> small_at w p = None
       | Some (x, s) \<Rightarrow> x = p - sizeof_block \<and> hw_blocks w x \<noteq> None \<and> in_arena (hw_heap w) p
           \<and> unat (sp_class_index s) = class_of (hw_heap w) x)"
proof -
  note S = small_block_ok [OF alloc_invD(1) [OF inv], of p]
  show ?thesis
  proof (cases "in_arena (hw_heap w) p \<and> hw_blocks w (p - sizeof_block) \<noteq> None")
    case True
    then show ?thesis using S by auto
  next
    case False
    then have "memx_heap_small_block_locked p w = Some None" using S by auto
    moreover have "small_at w p = None"
    proof (rule ccontr)
      assume "small_at w p \<noteq> None"
      then obtain n where n: "small_at w p = Some n" by auto
      show False using small_live(1,4) [OF inv n] False by auto
    qed
    ultimately show ?thesis by simp
  qed
qed

text \<open>A live pointer and its block lie in the same span.\<close>

lemma block_span:
  assumes sp: "spans_ok w" and x: "hw_blocks w (p - sizeof_block) \<noteq> None"
  shows "span_of (hw_heap w) p = span_of (hw_heap w) (p - sizeof_block)"
proof -
  let ?h = "hw_heap w" and ?x = "p - sizeof_block"
  note ar = spans_okD(1) [OF sp]
  obtain j i where ji: "j < unat (hp_next_span ?h)" "span_class ?h j < 19" "i < blocks_in ?h (span_class ?h j)"
    "?x = block_start ?h (span_class ?h j) j i" using block_in_arena(5) [OF sp x] by blast
  have jc: "j < unat (hp_span_capacity ?h)" using ji(1) arena_okD(10) [OF ar] by simp
  note u = block_start_unat [OF ar jc ji(2,3), folded ji(4)] and rm = block_room [OF ji(2,3)]
  have "unat p = unat ?x + 16" using block_in_arena(4) [OF sp x] by simp
  then have "unat p - arena_start ?h = j * 2 ^ span_bits ?h + (80 + i * unat (block_stride (span_class ?h j)))"
    using u by simp
  moreover have "80 + i * unat (block_stride (span_class ?h j)) < 2 ^ span_bits ?h"
    using rm stride_facts(4) [OF ji(2)] by linarith
  ultimately have "span_of ?h p = j" by (simp add: span_of_def)
  then show ?thesis using u(2) by simp
qed

lemma class_table_ok:
  assumes sp: "spans_ok w" and x: "hw_blocks w (p - sizeof_block) \<noteq> None"
  shows "memx_heap_class_for_arena_offset w (p - fst (hp_arena (hw_heap w))) = Some (class_of (hw_heap w) (p - sizeof_block))"
proof -
  let ?h = "hw_heap w"
  note ar = spans_okD(1) [OF sp]
  have p: "in_arena ?h p" using block_in_arena(1) [OF sp x] by simp
  have "unat (p - fst (hp_arena ?h)) = unat p - arena_start ?h"
    by (rule unat_sub_exact) (use p in \<open>simp add: in_arena_def word_le_nat_alt\<close>)
  then have d: "unat (drop_bit (unat (hc_span_shift (hp_config ?h))) (p - fst (hp_arena ?h))) = span_of ?h p"
    by (simp add: span_of_def unat_drop)
  have "span_of ?h p < length (hp_class_table ?h)" using span_of_in_arena(1) [OF ar p] arena_okD(9) [OF ar] by simp
  then show ?thesis
    by (simp add: memx_heap_class_for_arena_offset_def Let_def d class_of_def span_class_def block_span [OF sp x])
qed

section \<open>Writing to an object\<close>

lemma payload_write:
  assumes c: "env_contract E live mapped" and inv: "alloc_inv E live mapped M fr fl heads tls hl w"
    and p: "large_part E M fr ws ch {} w" and s: "size_at w q n" and y: "hw_bytes w q = Some pl" "pl_size pl' = pl_size pl"
  defines "w' \<equiv> w\<lparr>hw_bytes := (hw_bytes w)(q \<mapsto> pl')\<rparr>"
  shows "alloc_inv E live mapped M fr fl heads tls hl w'" "large_part E M fr ws ch {} w'"
    "small_at w' = small_at w" "large_at w' = large_at w"
proof -
  note I = alloc_invD [OF inv] and P = large_partD [OF p]
  have sz: "map_option pl_size (hw_bytes w' z) = map_option pl_size (hw_bytes w z)" for z
    by (simp add: w'_def y)
  have free: "hw_bytes w' (x + sizeof_block) = hw_bytes w (x + sizeof_block)" if x: "bstate (hw_blocks w) x = Some 0" for x
  proof -
    have bx: "hw_blocks w x \<noteq> None" using x by (auto simp: bstate_def)
    have "x + sizeof_block \<noteq> q"
    proof
      assume e: "x + sizeof_block = q"
      then have "small_at w q = None" using x by (auto simp: small_at_None)
      then have "large_at w q n" using s by (simp add: size_at_def)
      then show False using large_live(1) [OF c p] block_in_arena(1) [OF small_invD(1) [OF I(1)] bx] e by blast
    qed
    then show ?thesis by (simp add: w'_def)
  qed
  have bp: "bins_part (class_of (hw_heap w)) fl heads w'"
  proof -
    note B = bins_partD [OF small_invD(4) [OF I(1)]]
    have "bins_ok (chunk_cap w) (hp_central (hw_heap w)) (hp_central_count (hw_heap w)) (hw_blocks w) (hw_bytes w') fl heads"
    proof (rule bins_ok_cong [OF B(3)])
      show "hw_blocks w x = hw_blocks w x \<and> hw_bytes w' (x + sizeof_block) = hw_bytes w (x + sizeof_block)"
        if "x \<in> set (heads k)" for k x
        using free [of x] lists_okD(4) [OF B(1) bins_member [OF B(3) that]] by simp
    qed simp
    moreover have "payloads_ok (class_of (hw_heap w)) (hw_blocks w) (hw_bytes w')"
      using B(2) sz by (simp add: payloads_ok_def)
    ultimately show ?thesis using B(1,4,5) by (simp add: bins_part_def chunk_cap_def cache_cap_def w'_def)
  qed
  have si: "small_inv E live mapped M fr fl heads w'"
    by (rule small_inv_blocks [OF I(1) _ _ _ _ bp]) (simp_all add: w'_def)
  have o: "own_cache w' = own_cache w" by (rule own_cache_same) (simp_all add: w'_def)
  have "caches_part fl {} w'" by (rule caches_part_heap [OF I(2) o]) (simp add: w'_def)
  moreover have "threads_ok fr tls hl w'" by (rule threads_cong [OF I(3)]) (simp_all add: w'_def)
  moreover have "owners_ok w'" using I(4) by (simp add: owners_ok_def o) (simp add: w'_def)
  ultimately show "alloc_inv E live mapped M fr fl heads tls hl w'" using si by (simp add: alloc_inv_def)
  show "small_at w' = small_at w" "large_at w' = large_at w" by (simp_all add: small_at_def large_at_def w'_def fun_eq_iff)
  have L: "hw_larges w' = hw_larges w" "hw_heap w' = hw_heap w" by (simp_all add: w'_def)
  have "record_ok E M (hw_heap w) (hw_bytes w') l \<longleftrightarrow> record_ok E M (hw_heap w) (hw_bytes w) l" for l
    by (simp add: record_ok_def sz)
  then have "records_ok E M fr w'" using P(3) by (simp add: records_ok_def L)
  then show "large_part E M fr ws ch {} w'" using P(1,2) by (simp add: large_part_def ltable_ok_def L)
qed

text \<open>A client writes to one of its objects, or the allocator does on its behalf.\<close>

lemma write_object:
  assumes c: "env_contract E live mapped" and h: "heap_ok E live mapped w" and o: "objects w A"
    and s: "size_at w q n" and y: "hw_bytes w q = Some pl" "pl_size pl' = pl_size pl"
  defines "w' \<equiv> w\<lparr>hw_bytes := (hw_bytes w)(q \<mapsto> pl')\<rparr>"
  shows "heap_ok E live mapped w'" "objects w' (A(q \<mapsto> map (pl_bytes pl') [0 ..< unat n]))" "size_at w' = size_at w"
proof -
  obtain M fr fl heads tls hl ws ch where H: "alloc_inv E live mapped M fr fl heads tls hl w"
    "\<And>j. fl (Hand j) = []" "large_part E M fr ws ch {} w" "sizes_ok w" "hp_self (hw_heap w) \<noteq> 0"
    by (rule heap_okE [OF h]) blast
  note W = payload_write [OF c H(1,3) s y, folded w'_def]
  show sz: "size_at w' = size_at w" by (simp add: size_at_def W fun_eq_iff)
  have so: "sizes_ok w'"
    unfolding sizes_ok_def W(3)
  proof (intro allI impI)
    fix p m assume "small_at w p = Some m"
    then have "m \<noteq> 0 \<and> (\<exists>pl. hw_bytes w p = Some pl \<and> unat m \<le> pl_size pl)" using H(4) by (simp add: sizes_ok_def)
    then show "m \<noteq> 0 \<and> (\<exists>pl. hw_bytes w' p = Some pl \<and> unat m \<le> pl_size pl)"
      using y by (cases "p = q") (auto simp: w'_def)
  qed
  show "heap_ok E live mapped w'"
    by (rule heap_okI [OF W(1) _ W(2) so]) (use H(2,5) in \<open>simp_all add: w'_def\<close>)
  show "objects w' (A(q \<mapsto> map (pl_bytes pl') [0 ..< unat n]))"
  proof (rule objects_upd [OF o])
    show "size_at w' p m \<longleftrightarrow> size_at w p m" for p m by (simp add: sz)
    show "hw_bytes w' p = hw_bytes w p" if "p \<noteq> q" for p using that by (simp add: w'_def)
    show "Some (map (pl_bytes pl') [0 ..< unat n]) = Some bs \<longleftrightarrow> object_at w' q bs" for bs
      using size_facts(3) [OF c h s] s by (auto simp: object_at_def sz) (auto simp: w'_def)
  qed
qed

section \<open>A new size\<close>

text \<open>The header of a live small block.\<close>

lemma header_write:
  fixes v :: u32
  assumes inv: "alloc_inv E live mapped M fr fl heads tls hl w"
    and b: "hw_blocks w x = Some b" "bk_state b = 1"
  defines "w' \<equiv> w\<lparr>hw_blocks := (hw_blocks w)(x \<mapsto> b\<lparr>bk_requested_size := v\<rparr>)\<rparr>"
  shows "alloc_inv E live mapped M fr fl heads tls hl w'"
    "small_at w' = (small_at w)(x + sizeof_block \<mapsto> ucast v)"
proof -
  note I = alloc_invD [OF inv]
  let ?B = "(hw_blocks w)(x \<mapsto> b\<lparr>bk_requested_size := v\<rparr>)"
  have bs: "bstate ?B y = bstate (hw_blocks w) y" for y using b by (simp add: bstate_def)
  have bp: "bins_part (class_of (hw_heap w)) fl heads w'"
  proof -
    note B = bins_partD [OF small_invD(4) [OF I(1)]] and L = lists_okD [OF bins_partD(1) [OF small_invD(4) [OF I(1)]]]
    have out: "y \<noteq> x" if "y \<in> set (fl P)" for y P using L(4) [OF that] b by (auto simp: bstate_def)
    have "lists_ok (class_of (hw_heap w)) ?B fl"
      unfolding lists_ok_def bs
    proof (intro conjI allI)
      fix P
      show "in_hand P \<or> linked (bnext ?B) (hd0 (fl P)) (fl P)"
      proof (cases "in_hand P")
        case False
        have "linked (bnext ?B) (hd0 (fl P)) (fl P)"
          by (rule linked_cong [OF L(1) [OF False]]) (use out in \<open>simp add: bnext_def\<close>)
        then show ?thesis ..
      qed simp
    qed (use L in blast)+
    moreover have "bins_ok (chunk_cap w) (hp_central (hw_heap w)) (hp_central_count (hw_heap w)) ?B (hw_bytes w) fl heads"
      by (rule bins_ok_cong [OF B(3)]) (use out bins_member [OF B(3)] in auto)
    moreover have "payloads_ok (class_of (hw_heap w)) ?B (hw_bytes w)"
      by (rule payloads_ok_dom [OF B(2)]) (simp add: b)
    ultimately show ?thesis using B(4,5) bs by (simp add: bins_part_def chunk_cap_def cache_cap_def w'_def)
  qed
  have si: "small_inv E live mapped M fr fl heads w'"
    by (rule small_inv_blocks [OF I(1) _ _ _ _ bp]) (use b in \<open>auto simp: w'_def\<close>)
  have o: "own_cache w' = own_cache w" by (rule own_cache_same) (simp_all add: w'_def)
  have "caches_part fl {} w'" by (rule caches_part_heap [OF I(2) o]) (simp add: w'_def)
  moreover have "threads_ok fr tls hl w'" by (rule threads_cong [OF I(3)]) (simp_all add: w'_def)
  moreover have "owners_ok w'"
  proof -
    have "own_cache w (bk_link b) \<noteq> None" using I(4) b by (auto simp: owners_ok_def)
    then show ?thesis using I(4) unfolding owners_ok_def o by (auto simp: w'_def)
  qed
  ultimately show "alloc_inv E live mapped M fr fl heads tls hl w'" using si by (simp add: alloc_inv_def)
  show "small_at w' = (small_at w)(x + sizeof_block \<mapsto> ucast v)"
  proof
    fix q
    have "q - sizeof_block = x \<longleftrightarrow> q = x + sizeof_block" by (auto simp: algebra_simps)
    then show "small_at w' q = ((small_at w)(x + sizeof_block \<mapsto> ucast v)) q" using b by (simp add: small_at_def w'_def)
  qed
qed

text \<open>The record of a live large pointer.\<close>

lemma record_write:
  fixes n :: u64
  assumes c: "env_contract E live mapped" and inv: "alloc_inv E live mapped M fr fl heads tls hl w"
    and p: "large_part E M fr ws ch {} w" and r: "hw_larges w r = Some l" and n: "n \<noteq> 0" "n \<le> lg_requested_size l"
  defines "w' \<equiv> w\<lparr>hw_larges := (hw_larges w)(r \<mapsto> l\<lparr>lg_requested_size := n\<rparr>)\<rparr>"
  shows "alloc_inv E live mapped M fr fl heads tls hl w'" "large_part E M fr ws ch {} w'" "large_frame w w'"
    "large_at w' = (\<lambda>q m. if q = lg_pointer l then m = n else large_at w q m)"
proof -
  note P = large_partD [OF p]
  let ?l = "l\<lparr>lg_requested_size := n\<rparr>"
  show lf: "large_frame w w'" by (simp add: large_frame_def w'_def)
  show "alloc_inv E live mapped M fr fl heads tls hl w'"
    by (rule alloc_inv_large [OF inv lf]) (use small_invD(3) [OF alloc_invD(1) [OF inv]] in \<open>simp_all add: w'_def\<close>)
  have L: "hw_larges w' = (hw_larges w)(r \<mapsto> ?l)" by (simp add: w'_def)
  have nx: "lnext (hw_larges w') = lnext (hw_larges w)" using r by (auto simp: lnext_def L)
  have "chains_ok ws ch (hw_larges w')"
    unfolding chains_ok_def nx
  proof (intro allI impI conjI ballI)
    fix i assume i: "i < length ws"
    note C = chains_okD [OF ltable_okD(4) [OF P(1)] i]
    show "linked (lnext (hw_larges w)) (ws ! i) (ch i)" by (rule C(1))
    fix x assume "x \<in> set (ch i)"
    from C(2) [OF this] r show "\<exists>l. hw_larges w' x = Some l \<and> unat (memx_heap_large_bucket (lg_pointer l) (of_nat (length ws))) = i"
      by (auto simp: L)
  qed
  moreover have dm: "dom (hw_larges w') = dom (hw_larges w)" using r by (auto simp: L)
  ultimately have "ltable_ok fr ws ch (dom (hw_larges w') - {}) w'"
    using ltable_okD [OF P(1)] unfolding ltable_ok_def dm by (simp add: w'_def)
  moreover have "records_ok E M fr w'"
    unfolding records_ok_def
  proof (intro conjI allI impI)
    show "arena_range (hw_heap w') \<subseteq> M" using records_okD(1) [OF P(3)] by (simp add: w'_def)
    fix x k assume x: "hw_larges w' x = Some k"
    obtain k0 where k0: "hw_larges w x = Some k0" "large_range E k = large_range E k0"
      "record_ok E M (hw_heap w) (hw_bytes w) k0 \<Longrightarrow> record_ok E M (hw_heap w) (hw_bytes w) k"
    proof (cases "x = r")
      case True
      then have k: "k = ?l" using x by (simp add: L)
      have lr: "large_range E ?l = large_range E l" by (simp add: large_range_def)
      have "record_ok E M (hw_heap w) (hw_bytes w) ?l" if "record_ok E M (hw_heap w) (hw_bytes w) l"
        using that n unfolding record_ok_def lr by (auto simp: Let_def word_le_nat_alt)
      then show thesis using that r True k lr by blast
    next
      case False
      then show thesis using that x by (simp add: L)
    qed
    show "x \<noteq> 0" "fr x = Some (RawBlock sizeof_large)" by (rule records_okD(2,3) [OF P(3) k0(1)])+
    show "record_ok E M (hw_heap w') (hw_bytes w') k"
      using k0(3) [OF records_okD(4) [OF P(3) k0(1)]] by (simp add: w'_def)
    fix y k' assume y: "hw_larges w' y = Some k'" "x \<noteq> y"
    then obtain k1 where k1: "hw_larges w y = Some k1" "large_range E k' = large_range E k1"
      using r by (cases "y = r") (auto simp: L large_range_def)
    show "large_range E k \<inter> large_range E k' = {}" using records_okD(5) [OF P(3) k0(1) k1(1) y(2)] k0(2) k1(2) by simp
  qed
  ultimately show "large_part E M fr ws ch {} w'" using P(2) dm by (simp add: large_part_def) (simp add: w'_def)
  show "large_at w' = (\<lambda>q m. if q = lg_pointer l then m = n else large_at w q m)"
  proof (intro ext)
    fix q m
    show "large_at w' q m = (if q = lg_pointer l then m = n else large_at w q m)"
    proof (cases "q = lg_pointer l")
      case True
      have "x = r" if "hw_larges w x = Some k" "lg_pointer k = q" for x k
        by (rule record_pointers [OF c P(3) that(1) r]) (use that True in simp)
      then show ?thesis using True by (auto simp: large_at_def L split: if_splits)
    next
      case False
      have "hw_larges w' x = Some k \<longleftrightarrow> hw_larges w x = Some k" if "lg_pointer k = q" for x k
        using False r that by (auto simp: L split: if_splits)
      then have "large_at w' q m \<longleftrightarrow> large_at w q m" unfolding large_at_def by metis
      then show ?thesis using False by simp
    qed
  qed
qed

end
