(* ===== verification/Memx_Calls.thy ===== *)
theory Memx_Calls
  imports Memx_Resize
begin

text \<open>
  The public calls of the allocator on the objects of a client: each returns, keeps the heap
  invariant, and changes the objects as documented, whatever the threads that make the calls.
\<close>

section \<open>Allocation\<close>

lemma max_align_power: "unat max_align \<noteq> 0" "\<exists>k. unat max_align = 2 ^ k" "unat max_align = 16"
proof -
  show "unat max_align = 16" by (simp add: max_align_def)
  then have "unat max_align = 2 ^ 4" by simp
  then show "\<exists>k. unat max_align = 2 ^ k" by blast
  show "unat max_align \<noteq> 0" by (simp add: max_align_def)
qed

text \<open>The size a request gets: one byte for none.\<close>

definition request :: "u64 \<Rightarrow> u64" where
  "request n = (if n = 0 then 1 else n)"

lemma request_nonzero [simp]: "request n \<noteq> 0"
  by (simp add: request_def)

definition same_heap :: "'c heap_world \<Rightarrow> 'c heap_world \<Rightarrow> bool" where
  "same_heap w w' \<longleftrightarrow> hp_self (hw_heap w') = hp_self (hw_heap w) \<and> hp_arena (hw_heap w') = hp_arena (hw_heap w)"

lemma same_heap_refl [simp]: "same_heap w w"
  by (simp add: same_heap_def)

lemma same_heap_trans: "same_heap w w' \<Longrightarrow> same_heap w' w'' \<Longrightarrow> same_heap w w''"
  by (simp add: same_heap_def)

lemma same_heap_outer: "outer (hw_heap w') = outer (hw_heap w) \<Longrightarrow> same_heap w w'"
  using arena_fields(1,2) by (auto simp: same_heap_def)

lemma same_heap_large: "large_frame w w' \<Longrightarrow> same_heap w w'"
  using outer_large by (auto simp: same_heap_def)

text \<open>Both paths, as the size and the alignment choose them.\<close>

lemma allocate_ok:
  assumes c: "env_contract E live mapped" and h: "heap_ok E live mapped w" and o: "objects w A"
  shows "\<exists>p w' A'. (if small \<and> memx_heap_class_for_size (request n) < MEMX_HEAP_CLASS_COUNT
        then memx_heap_allocate_small E t (request n) (unat (memx_heap_class_for_size (request n))) w
        else memx_heap_allocate_large E al (request n) w) = Some (p, w')
    \<and> heap_ok E live mapped w' \<and> objects w' A' \<and> same_heap w w' \<and> allocated A (request n) p A'
    \<and> (small \<and> unat (request n) \<le> 8192 \<longrightarrow> 16 dvd unat p)
    \<and> (\<not> (small \<and> unat (request n) \<le> 8192) \<longrightarrow> unat al \<noteq> 0 \<longrightarrow> (\<exists>k. unat al = 2 ^ k) \<longrightarrow> unat al dvd unat p)"
proof -
  let ?k = "unat (memx_heap_class_for_size (request n))"
  have cls: "memx_heap_class_for_size (request n) < MEMX_HEAP_CLASS_COUNT \<longleftrightarrow> ?k < 19"
    by (simp add: MEMX_HEAP_CLASS_COUNT_def word_less_nat_alt)
  note K = memx_heap_class_spec [OF request_nonzero [of n]]
  show ?thesis
  proof (cases "small \<and> ?k < 19")
    case True
    then have s: "unat (request n) \<le> 8192" "unat (request n) \<le> class_size ?k" using K by (auto split: if_splits)
    obtain p w' A' where "memx_heap_allocate_small E t (request n) ?k w = Some (p, w')" "heap_ok E live mapped w'"
      "objects w' A'" "outer (hw_heap w') = outer (hw_heap w)" "allocated A (request n) p A'" "16 dvd unat p"
      using small_ok [OF c h o _ request_nonzero s(2), of t] True by blast
    moreover from this have "same_heap w w'" by (intro same_heap_outer)
    ultimately show ?thesis using True s(1) cls
      by (intro exI [of _ p] exI [of _ w'] exI [of _ A']) simp
  next
    case False
    then have s: "\<not> (small \<and> unat (request n) \<le> 8192)" using K by auto
    obtain p w' A' where "memx_heap_allocate_large E al (request n) w = Some (p, w')" "heap_ok E live mapped w'"
      "objects w' A'" "large_frame w w'" "allocated A (request n) p A'"
      "unat al \<noteq> 0 \<longrightarrow> (\<exists>k. unat al = 2 ^ k) \<longrightarrow> unat al dvd unat p"
      using large_ok [OF c h o, of al "request n"] by blast
    then show ?thesis using False cls s same_heap_large by auto
  qed
qed

lemma malloc_ok:
  assumes c: "env_contract E live mapped" and h: "heap_ok E live mapped w" and o: "objects w A"
  shows "\<exists>p w' A'. memx_heap_malloc E t (hp_self (hw_heap w)) n w = Some (p, w') \<and> heap_ok E live mapped w'
    \<and> objects w' A' \<and> same_heap w w' \<and> allocated A (request n) p A' \<and> 16 dvd unat p"
proof -
  have hp0: "hp_self (hw_heap w) \<noteq> 0" using h by (simp add: heap_ok_def)
  have "memx_heap_malloc E t (hp_self (hw_heap w)) n w =
     (if True \<and> memx_heap_class_for_size (request n) < MEMX_HEAP_CLASS_COUNT
        then memx_heap_allocate_small E t (request n) (unat (memx_heap_class_for_size (request n))) w
        else memx_heap_allocate_large E max_align (request n) w)"
    using hp0 by (simp add: memx_heap_malloc_def request_def)
  then show ?thesis using allocate_ok [OF c h o, of True n t max_align] max_align_power by auto
qed

lemma power_of_two_test: "memx_heap_power_of_two v \<longleftrightarrow> (\<exists>k < 64. unat v = 2 ^ k)"
  using memx_os_power_of_two_iff [of v] by (simp add: memx_heap_power_of_two_def memx_os_power_of_two_def)

lemma aligned_alloc_ok:
  assumes c: "env_contract E live mapped" and h: "heap_ok E live mapped w" and o: "objects w A"
  shows "\<exists>p w' A'. memx_heap_aligned_alloc E t (hp_self (hw_heap w)) al n w = Some (p, w') \<and> heap_ok E live mapped w'
    \<and> objects w' A' \<and> same_heap w w' \<and> allocated A (request n) p A'
    \<and> (if 8 \<le> unat al \<and> (\<exists>k. unat al = 2 ^ k) then unat al dvd unat p else p = 0 \<and> w' = w)"
proof -
  have hp0: "hp_self (hw_heap w) \<noteq> 0" using h by (simp add: heap_ok_def)
  show ?thesis
  proof (cases "al < 8 \<or> \<not> memx_heap_power_of_two al")
    case True
    then have "memx_heap_aligned_alloc E t (hp_self (hw_heap w)) al n w = Some (0, w)"
      by (auto simp: memx_heap_aligned_alloc_def Let_def)
    moreover have "\<not> (8 \<le> unat al \<and> (\<exists>k. unat al = 2 ^ k))"
    proof
      assume a: "8 \<le> unat al \<and> (\<exists>k. unat al = 2 ^ k)"
      then obtain k where k: "unat al = 2 ^ k" by blast
      have "(2 :: nat) ^ k < 2 ^ 64" using unat_lt_64 [of al] k by simp
      then have "k < 64" by (rule power_less_imp_less_exp [rotated]) simp
      then show False using True a k power_of_two_test by (auto simp: word_less_nat_alt)
    qed
    ultimately show ?thesis using h o
      by (intro exI [of _ 0] exI [of _ w] exI [of _ A]) (simp only: allocated_def same_heap_refl, simp)
  next
    case False
    then obtain k where k: "unat al = 2 ^ k" using power_of_two_test by blast
    have a8: "8 \<le> unat al" using False by (simp add: word_less_nat_alt)
    have e: "memx_heap_aligned_alloc E t (hp_self (hw_heap w)) al n w =
       (if al \<le> max_align \<and> memx_heap_class_for_size (request n) < MEMX_HEAP_CLASS_COUNT
        then memx_heap_allocate_small E t (request n) (unat (memx_heap_class_for_size (request n))) w
        else memx_heap_allocate_large E al (request n) w)"
      using hp0 False by (simp add: memx_heap_aligned_alloc_def request_def Let_def)
    obtain p w' A' where r: "memx_heap_aligned_alloc E t (hp_self (hw_heap w)) al n w = Some (p, w')"
      "heap_ok E live mapped w'" "objects w' A'" "same_heap w w'" "allocated A (request n) p A'"
      "al \<le> max_align \<and> unat (request n) \<le> 8192 \<longrightarrow> 16 dvd unat p"
      "\<not> (al \<le> max_align \<and> unat (request n) \<le> 8192) \<longrightarrow> unat al \<noteq> 0 \<longrightarrow> (\<exists>k. unat al = 2 ^ k) \<longrightarrow> unat al dvd unat p"
      using allocate_ok [OF c h o, of "al \<le> max_align" n t al] unfolding e by blast
    have "unat al dvd unat p"
    proof (cases "al \<le> max_align \<and> unat (request n) \<le> 8192")
      case True
      then have "2 ^ k \<le> (2 :: nat) ^ 4" using k by (simp add: word_le_nat_alt max_align_def)
      then have "k \<le> 4" by (rule power_le_imp_le_exp [rotated]) simp
      then have "(2 :: nat) ^ k dvd 2 ^ 4" by (rule le_imp_power_dvd)
      then have "unat al dvd 16" using k by simp
      then show ?thesis using r(6) True by (auto intro: dvd_trans)
    next
      case n: False
      have "unat al \<noteq> 0" using a8 by simp
      then show ?thesis using r(7) n k by blast
    qed
    then show ?thesis using r(1-5) a8 k by auto
  qed
qed

text \<open>Zeroed memory.\<close>

lemma fill_ok:
  assumes c: "env_contract E live mapped" and h: "heap_ok E live mapped w" and o: "objects w A"
    and p: "A p = Some bs" and n: "unat n \<le> length bs"
  shows "\<exists>w'. fill_bytes p n w = Some w' \<and> heap_ok E live mapped w' \<and> same_heap w w'
    \<and> objects w' (A(p \<mapsto> replicate (unat n) 0 @ drop (unat n) bs))"
proof -
  have "object_at w p bs" using o p by (simp add: objects_def)
  then obtain m pl where m: "size_at w p m" "hw_bytes w p = Some pl" "bs = map (pl_bytes pl) [0 ..< unat m]"
    unfolding object_at_def by (elim exE conjE) rule
  obtain pl0 where "hw_bytes w p = Some pl0" "unat m \<le> pl_size pl0" using size_facts(4) [OF c h m(1)] by blast
  then have sz: "unat m \<le> pl_size pl" using m(2) by simp
  have nm: "unat n \<le> unat m" using n m(3) by simp
  let ?pl = "pl\<lparr>pl_bytes := (\<lambda>i. if i < unat n then 0 else pl_bytes pl i)\<rparr>"
  have run: "fill_bytes p n w = Some (w\<lparr>hw_bytes := (hw_bytes w)(p \<mapsto> ?pl)\<rparr>)"
    using m(2) sz nm by (simp add: fill_bytes_def)
  have e: "map (pl_bytes ?pl) [0 ..< unat m] = replicate (unat n) 0 @ drop (unat n) bs"
    by (rule nth_equalityI) (use nm in \<open>auto simp: m(3) nth_append\<close>)
  note W = write_object [OF c h o m(1,2), of ?pl]
  show ?thesis using run W(1,2) unfolding e by (simp add: same_heap_def)
qed

lemma allocatedD:
  assumes "allocated A n p A'" "p \<noteq> 0"
  obtains bs where "A p = None" "length bs = unat n" "A' = A(p \<mapsto> bs)"
  using assms unfolding allocated_def by auto

lemma calloc_ok:
  assumes c: "env_contract E live mapped" and h: "heap_ok E live mapped w" and o: "objects w A"
  shows "\<exists>p w' A'. memx_heap_calloc E t (hp_self (hw_heap w)) count sz w = Some (p, w') \<and> heap_ok E live mapped w'
    \<and> objects w' A' \<and> same_heap w w'
    \<and> (if p = 0 then A' = A
       else A p = None \<and> unat count * unat sz < 2 ^ 64 \<and> 16 dvd unat p
         \<and> (\<exists>bs. A' = A(p \<mapsto> bs) \<and> length bs = unat (request (count * sz))
              \<and> take (unat count * unat sz) bs = replicate (unat count * unat sz) 0))"
proof (cases "count \<noteq> 0 \<and> SIZE_MAX div count < sz")
  case True
  then have "memx_heap_calloc E t (hp_self (hw_heap w)) count sz w = Some (0, w)" by (simp add: memx_heap_calloc_def)
  then show ?thesis using h o by (intro exI [of _ 0] exI [of _ w] exI [of _ A]) simp
next
  case False
  have fit: "unat count * unat sz < 2 ^ 64"
  proof (cases "count = 0")
    case False
    then have "unat sz \<le> 18446744073709551615 div unat count"
      using \<open>\<not> (count \<noteq> 0 \<and> SIZE_MAX div count < sz)\<close> by (simp add: word_less_nat_alt unat_div unat_SIZE_MAX not_less)
    then have "unat count * unat sz \<le> unat count * (18446744073709551615 div unat count)" by (rule mult_le_mono2)
    also have "\<dots> \<le> 18446744073709551615" by (rule times_div_less_eq_dividend)
    finally show ?thesis by simp
  qed simp
  then have bytes: "unat (count * sz) = unat count * unat sz" by (simp add: unat_mult_exact)
  obtain p w1 A1 where m: "memx_heap_malloc E t (hp_self (hw_heap w)) (count * sz) w = Some (p, w1)" "heap_ok E live mapped w1"
    "objects w1 A1" "same_heap w w1" "allocated A (request (count * sz)) p A1" "16 dvd unat p"
    using malloc_ok [OF c h o] by blast
  show ?thesis
  proof (cases "p = 0")
    case True
    then have "memx_heap_calloc E t (hp_self (hw_heap w)) count sz w = Some (0, w1)"
      unfolding memx_heap_calloc_def if_not_P [OF False] using m(1) by simp
    moreover have "A1 = A" using m(5) True by (simp add: allocated_def)
    ultimately show ?thesis using m(2-4) by (intro exI [of _ 0] exI [of _ w1] exI [of _ A]) simp
  next
    case p0: False
    obtain bs where bs: "A p = None" "length bs = unat (request (count * sz))" "A1 = A(p \<mapsto> bs)"
      by (rule allocatedD [OF m(5) p0])
    have le: "unat (count * sz) \<le> length bs" using bs(2) by (simp add: request_def)
    obtain w2 where f: "fill_bytes p (count * sz) w1 = Some w2" "heap_ok E live mapped w2" "same_heap w1 w2"
      "objects w2 (A1(p \<mapsto> replicate (unat (count * sz)) 0 @ drop (unat (count * sz)) bs))"
      using fill_ok [OF c m(2,3) _ le, of p] bs(3) by auto
    let ?bs = "replicate (unat (count * sz)) 0 @ drop (unat (count * sz)) bs"
    have run: "memx_heap_calloc E t (hp_self (hw_heap w)) count sz w = Some (p, w2)"
      unfolding memx_heap_calloc_def if_not_P [OF False] using m(1) p0 f(1) by simp
    have "A1(p \<mapsto> ?bs) = A(p \<mapsto> ?bs)" using bs(3) by simp
    moreover have "length ?bs = unat (request (count * sz))" using le bs(2) by simp
    moreover have "take (unat count * unat sz) ?bs = replicate (unat count * unat sz) 0" by (simp add: bytes)
    ultimately have "(\<exists>cs. A1(p \<mapsto> ?bs) = A(p \<mapsto> cs) \<and> length cs = unat (request (count * sz))
              \<and> take (unat count * unat sz) cs = replicate (unat count * unat sz) 0)" by blast
    then show ?thesis using run f(2,4) same_heap_trans [OF m(4) f(3)] bs(1) fit m(6) p0
      by (intro exI [of _ p] exI [of _ w2] exI [of _ "A1(p \<mapsto> ?bs)"]) simp
  qed
qed

section \<open>Release\<close>

lemma released_small:
  assumes c: "env_contract E live mapped" and h: "large_part E M fr ws ch {} w" "sizes_ok w" "hp_self (hw_heap w) \<noteq> 0"
    and o: "objects w A" and n: "\<And>m. \<not> large_at w p m"
    and w': "alloc_inv E live mapped M fr fl' heads' tls hl w'" "\<forall>j. fl' (Hand j) = []" "small_released w p w'"
  shows "heap_ok E live mapped w'" "objects w' (A(p := None))" "same_heap w w'"
proof -
  have s: "outer (hw_heap w') = outer (hw_heap w)" "hw_larges w' = hw_larges w"
    "\<And>q. \<not> in_arena (hw_heap w) q \<Longrightarrow> hw_bytes w' q = hw_bytes w q"
    "\<And>q. q \<noteq> p \<Longrightarrow> small_at w q \<noteq> None \<Longrightarrow> hw_bytes w' q = hw_bytes w q" "small_at w' = (small_at w)(p := None)"
    using w'(3) by (simp_all add: small_released_def)
  note L = large_part_small [OF c h(1) map_le_refl s(1-3)]
  show "same_heap w w'" by (rule same_heap_outer [OF s(1)])
  have so: "sizes_ok w'" using h(2) s(4) unfolding sizes_ok_def s(5) by (auto split: if_splits)
  have hp: "hp_self (hw_heap w') \<noteq> 0" unfolding arena_fields(1) [OF s(1)] by (rule h(3))
  show "heap_ok E live mapped w'" by (rule heap_okI [OF w'(1,2) L(1) so hp])
  show "objects w' (A(p := None))"
  proof (rule objects_upd [OF o])
    show "size_at w' q m \<longleftrightarrow> size_at w q m" if "q \<noteq> p" for q m using that by (simp add: size_at_def s(5) L(2))
    show "hw_bytes w' q = hw_bytes w q" if q: "q \<noteq> p" "size_at w q m" for q m
    proof (cases "small_at w q = None")
      case True
      then have "large_at w q m" using q(2) by (simp add: size_at_def)
      then show ?thesis using s(3) large_live(1) [OF c h(1)] by blast
    qed (use s(4) q in blast)
    show "None = Some bs \<longleftrightarrow> object_at w' p bs" for bs using n by (simp add: object_at_def size_at_def s(5) L(2))
  qed
qed

text \<open>A release is accepted exactly for the null pointer and for live ones.\<close>

lemma free_ok:
  assumes c: "env_contract E live mapped" and h: "heap_ok E live mapped w" and o: "objects w A" and p0: "p \<noteq> 0"
  shows "\<exists>w'. memx_heap_free E t (hp_self (hw_heap w)) p w = Some (A p \<noteq> None, w') \<and> heap_ok E live mapped w'
    \<and> objects w' (A(p := None)) \<and> same_heap w w'"
proof -
  obtain M fr fl heads tls hl ws ch where H: "alloc_inv E live mapped M fr fl heads tls hl w"
    "\<And>j. fl (Hand j) = []" "large_part E M fr ws ch {} w" "sizes_ok w" "hp_self (hw_heap w) \<noteq> 0"
    by (rule heap_okE [OF h]) blast
  obtain r where r: "memx_heap_small_block_locked p w = Some r" "case r of None \<Rightarrow> small_at w p = None
       | Some (x, s) \<Rightarrow> x = p - sizeof_block \<and> hw_blocks w x \<noteq> None \<and> in_arena (hw_heap w) p
           \<and> unat (sp_class_index s) = class_of (hw_heap w) x" using resolve [OF H(1)] by blast
  note live = objects_size(3) [OF c h o, of p]
  show ?thesis
  proof (cases r)
    case (Some xs)
    obtain x s where xs: "xs = (x, s)" by fastforce
    have x: "x = p - sizeof_block" "hw_blocks w x \<noteq> None" "in_arena (hw_heap w) p"
      "unat (sp_class_index s) = class_of (hw_heap w) x" using r(2) [unfolded Some xs option.case prod.case] by blast+
    have xp: "x + sizeof_block = p" by (simp add: x(1))
    obtain w' fl' heads' where rc: "memx_heap_release_small_checked t x (unat (sp_class_index s)) w = Some (small_at w p \<noteq> None, w')"
      "alloc_inv E live mapped M fr fl' heads' tls hl w'" "\<forall>j. fl' (Hand j) = []" "small_released w p w'"
      using release_checked_ok [OF H(1,2) x(2,4), of t] xp by auto
    have nl: "\<not> large_at w p m" for m using large_live(1) [OF c H(3)] x(3) by blast
    have "small_at w p \<noteq> None \<longleftrightarrow> A p \<noteq> None" using live nl by (auto simp: size_at_def)
    then have "memx_heap_free E t (hp_self (hw_heap w)) p w = Some (A p \<noteq> None, w')"
      using p0 H(5) r(1) Some xs rc(1) by (simp add: memx_heap_free_def)
    then show ?thesis using released_small [OF c H(3-5) o nl rc(2-4)] by blast
  next
    case None
    have ns: "small_at w p = None" using r(2) None by simp
    obtain w' M' fr' ws' ch' where f: "free_large_pointer E p w = Some ((\<exists>n. large_at w p n), w')"
      "alloc_inv E live mapped M' fr' fl heads tls hl w'" "large_part E M' fr' ws' ch' {} w'" "large_released w p w'"
      using free_large_pointer_ok [OF c H(1,3)] by blast
    have lr: "large_frame w w'" "large_at w' = (\<lambda>q n. q \<noteq> p \<and> large_at w q n)" "\<And>q. q \<noteq> p \<Longrightarrow> hw_bytes w' q = hw_bytes w q"
      using f(4) by (simp_all add: large_released_def)
    have "(\<exists>n. large_at w p n) \<longleftrightarrow> A p \<noteq> None" using live ns by (auto simp: size_at_def)
    then have run: "memx_heap_free E t (hp_self (hw_heap w)) p w = Some (A p \<noteq> None, w')"
      using p0 H(5) r(1) None f(1) by (simp add: memx_heap_free_def)
    have "heap_ok E live mapped w'"
      by (rule heap_okI [OF f(2) _ f(3) sizes_large [OF H(1,4) lr(1)]]) (use H(2,5) self_large [OF lr(1)] in simp_all)
    moreover have "objects w' (A(p := None))"
    proof (rule objects_upd [OF o])
      show "size_at w' q m \<longleftrightarrow> size_at w q m" if "q \<noteq> p" for q m
        using that by (simp add: size_at_def small_at_large [OF lr(1)] lr(2))
      show "None = Some bs \<longleftrightarrow> object_at w' p bs" for bs
        using ns by (simp add: object_at_def size_at_def small_at_large [OF lr(1)] lr(2))
    qed (use lr(3) in blast)
    ultimately show ?thesis using run same_heap_large [OF lr(1)] by blast
  qed
qed

lemma free_unchecked_ok:
  assumes c: "env_contract E live mapped" and h: "heap_ok E live mapped w" and o: "objects w A" and p: "A p \<noteq> None"
  shows "\<exists>w'. memx_heap_free_unchecked E t (hp_self (hw_heap w)) p w = Some w' \<and> heap_ok E live mapped w'
    \<and> objects w' (A(p := None)) \<and> same_heap w w'"
proof -
  obtain M fr fl heads tls hl ws ch where H: "alloc_inv E live mapped M fr fl heads tls hl w"
    "\<And>j. fl (Hand j) = []" "large_part E M fr ws ch {} w" "sizes_ok w" "hp_self (hw_heap w) \<noteq> 0"
    by (rule heap_okE [OF h]) blast
  note sp = small_invD(1) [OF alloc_invD(1) [OF H(1)]] and ar = spans_okD(1) [OF small_invD(1) [OF alloc_invD(1) [OF H(1)]]]
  obtain n where n: "size_at w p n" using p objects_size(3) [OF c h o, of p] by auto
  have p0: "p \<noteq> 0" by (rule size_facts(1) [OF c h n])
  have ai: "fst (hp_arena (hw_heap w)) \<le> p \<and> p - fst (hp_arena (hw_heap w)) < snd (hp_arena (hw_heap w)) \<longleftrightarrow> in_arena (hw_heap w) p"
    using in_arena_iff [OF ar, of p] by (auto simp: not_less not_le)
  show ?thesis
  proof (cases "in_arena (hw_heap w) p")
    case True
    then have nl: "\<not> large_at w p m" for m using large_live(1) [OF c H(3)] by blast
    then have sm: "small_at w p = Some n" using n by (simp add: size_at_def)
    obtain b where b: "hw_blocks w (p - sizeof_block) = Some b" "bk_state b = 1" using small_live(4) [OF H(1) sm] by blast
    have ct: "memx_heap_class_for_arena_offset w (p - fst (hp_arena (hw_heap w))) = Some (class_of (hw_heap w) (p - sizeof_block))"
      by (rule class_table_ok [OF sp]) (use b in simp)
    obtain w' fl' heads' where r: "memx_heap_release_small_unchecked t (p - sizeof_block) (class_of (hw_heap w) (p - sizeof_block)) w = Some w'"
      "alloc_inv E live mapped M fr fl' heads' tls hl w'" "\<forall>j. fl' (Hand j) = []" "small_released w p w'"
      using release_unchecked_ok [OF H(1,2) b refl, of t] by auto
    have "memx_heap_free_unchecked E t (hp_self (hw_heap w)) p w = Some w'"
      using p0 H(5) ai True ct r(1) by (simp add: memx_heap_free_unchecked_def)
    then show ?thesis using released_small [OF c H(3-5) o nl r(2-4)] by blast
  next
    case False
    obtain w' where f: "memx_heap_free E t (hp_self (hw_heap w)) p w = Some (A p \<noteq> None, w')" "heap_ok E live mapped w'"
      "objects w' (A(p := None))" "same_heap w w'" using free_ok [OF c h o p0] by blast
    have "memx_heap_free_unchecked E t (hp_self (hw_heap w)) p w = Some w'"
      unfolding memx_heap_free_unchecked_def Let_def if_not_P [OF False [folded ai]]
      using p0 H(5) f(1) by simp
    then show ?thesis using f(2-4) by blast
  qed
qed

end
