(* ===== verification/Memx_Realloc.thy ===== *)
theory Memx_Realloc
  imports Memx_Calls
begin

text \<open>
  Resizing: a live object keeps its bytes up to the smaller of the two sizes, in place or in a new
  object, and a call that fails leaves every object as it was.  Also the calls that only ask for
  sizes.
\<close>

section \<open>Asking for sizes\<close>

lemma find_large_value:
  assumes c: "env_contract E live mapped" and inv: "alloc_inv E live mapped M fr fl heads tls hl w"
    and p: "large_part E M fr ws ch {} w"
  shows "\<exists>r link. memx_heap_find_large_locked q w = Some (r, link)
    \<and> (if r = 0 then (\<forall>n. \<not> large_at w q n)
       else \<exists>l. hw_larges w r = Some l \<and> lg_pointer l = q \<and> large_at w q (lg_requested_size l))"
proof -
  obtain r link where f: "memx_heap_find_large_locked q w = Some (r, link)"
    "if r = 0 then (\<forall>x \<in> dom (hw_larges w) - {}. \<forall>l. hw_larges w x = Some l \<longrightarrow> lg_pointer l \<noteq> q)
       else \<exists>i ys zs l. i < length ws \<and> ch i = ys @ r # zs \<and> hw_larges w r = Some l \<and> lg_pointer l = q
         \<and> r \<in> dom (hw_larges w) - {} \<and> link = (if ys = [] then Bucket_Link i else Next_Link (last ys))"
    using find_large_ok [OF c small_invD(3) [OF alloc_invD(1) [OF inv]] large_partD(1) [OF p]] by blast
  have "if r = 0 then (\<forall>n. \<not> large_at w q n)
       else \<exists>l. hw_larges w r = Some l \<and> lg_pointer l = q \<and> large_at w q (lg_requested_size l)"
  proof (cases "r = 0")
    case True
    then show ?thesis using f(2) by (auto simp: large_at_def)
  next
    case False
    then obtain l where "hw_larges w r = Some l" "lg_pointer l = q" using f(2) by auto
    then show ?thesis using False by (auto simp: large_at_def)
  qed
  then show ?thesis using f(1) by blast
qed

definition object_size :: "(u64 \<rightharpoonup> u8 list) \<Rightarrow> u64 \<Rightarrow> nat" where
  "object_size A p = (case A p of None \<Rightarrow> 0 | Some bs \<Rightarrow> length bs)"

lemma object_size_at:
  assumes "env_contract E live mapped" "heap_ok E live mapped w" "objects w A"
  shows "size_at w p n \<Longrightarrow> object_size A p = unat n" "(\<And>n. \<not> size_at w p n) \<Longrightarrow> object_size A p = 0"
  using objects_size [OF assms, of p] by (auto simp: object_size_def split: option.splits)

lemma requested_size_ok:
  assumes c: "env_contract E live mapped" and h: "heap_ok E live mapped w" and o: "objects w A"
  shows "\<exists>n. memx_heap_requested_size p w = Some n \<and> unat n = object_size A p"
proof -
  obtain M fr fl heads tls hl ws ch where H: "alloc_inv E live mapped M fr fl heads tls hl w"
    "large_part E M fr ws ch {} w" "sizes_ok w"
    by (rule heap_okE [OF h]) blast
  note S = object_size_at [OF c h o]
  obtain r where r: "memx_heap_small_block_locked p w = Some r" "case r of None \<Rightarrow> small_at w p = None
       | Some (x, s) \<Rightarrow> x = p - sizeof_block \<and> hw_blocks w x \<noteq> None \<and> in_arena (hw_heap w) p
           \<and> unat (sp_class_index s) = class_of (hw_heap w) x" using resolve [OF H(1)] by blast
  show ?thesis
  proof (cases r)
    case (Some xs)
    obtain x s where xs: "xs = (x, s)" by fastforce
    have x: "x = p - sizeof_block" "hw_blocks w x \<noteq> None" "in_arena (hw_heap w) p"
      using r(2) [unfolded Some xs option.case prod.case] by blast+
    obtain b where b: "hw_blocks w x = Some b" using x(2) by auto
    have nl: "\<not> large_at w p m" for m using large_live(1) [OF c H(2)] x(3) by blast
    have run: "memx_heap_requested_size p w = Some (if bk_state b = 1 then ucast (bk_requested_size b) else 0)"
      using r(1) Some xs b by (simp add: memx_heap_requested_size_def)
    show ?thesis
    proof (cases "bk_state b = 1")
      case True
      then have "size_at w p (ucast (bk_requested_size b))" using b x(1) by (simp add: size_at_def small_at_def)
      then show ?thesis using run True S(1) by simp
    next
      case False
      then have "\<not> size_at w p n" for n using b x(1) nl by (simp add: size_at_def small_at_def)
      then show ?thesis using run False S(2) by simp
    qed
  next
    case None
    have ns: "small_at w p = None" using r(2) None by simp
    obtain y link where f: "memx_heap_find_large_locked p w = Some (y, link)"
      "if y = 0 then (\<forall>n. \<not> large_at w p n)
       else \<exists>l. hw_larges w y = Some l \<and> lg_pointer l = p \<and> large_at w p (lg_requested_size l)"
      using find_large_value [OF c H(1,2)] by blast
    show ?thesis
    proof (cases "y = 0")
      case True
      then have "\<not> size_at w p n" for n using f(2) ns by (simp add: size_at_def)
      then show ?thesis using r(1) None f(1) True S(2) by (simp add: memx_heap_requested_size_def)
    next
      case False
      then obtain l where l: "hw_larges w y = Some l" "large_at w p (lg_requested_size l)" using f(2) by auto
      then have "size_at w p (lg_requested_size l)" by (simp add: size_at_def)
      then show ?thesis using r(1) None f(1) False l(1) S(1) by (simp add: memx_heap_requested_size_def)
    qed
  qed
qed

text \<open>The usable size covers the object and lies in its payload; it is null for other pointers.\<close>

lemma usable_size_ok:
  assumes c: "env_contract E live mapped" and h: "heap_ok E live mapped w" and o: "objects w A"
  shows "\<exists>n. memx_heap_usable_size (hp_self (hw_heap w)) p w = Some n \<and> object_size A p \<le> unat n
    \<and> (A p = None \<longrightarrow> n = 0) \<and> (A p \<noteq> None \<longrightarrow> (\<exists>pl. hw_bytes w p = Some pl \<and> unat n \<le> pl_size pl))"
proof -
  obtain M fr fl heads tls hl ws ch where H: "alloc_inv E live mapped M fr fl heads tls hl w"
    "large_part E M fr ws ch {} w" "sizes_ok w" "hp_self (hw_heap w) \<noteq> 0"
    by (rule heap_okE [OF h]) blast
  note S = object_size_at [OF c h o] and D = objects_size(3) [OF c h o, of p]
  show ?thesis
  proof (cases "p = 0")
    case True
    have "\<not> size_at w p n" for n using size_facts(1) [OF c h, of p n] True by blast
    then have "A p = None" "object_size A p = 0" using D S(2) by blast+
    then show ?thesis using True by (simp add: memx_heap_usable_size_def)
  next
    case p0: False
    obtain r where r: "memx_heap_small_block_locked p w = Some r" "case r of None \<Rightarrow> small_at w p = None
       | Some (x, s) \<Rightarrow> x = p - sizeof_block \<and> hw_blocks w x \<noteq> None \<and> in_arena (hw_heap w) p
           \<and> unat (sp_class_index s) = class_of (hw_heap w) x" using resolve [OF H(1)] by blast
    show ?thesis
    proof (cases r)
      case (Some xs)
      obtain x s where xs: "xs = (x, s)" by fastforce
      have x: "x = p - sizeof_block" "hw_blocks w x \<noteq> None" "in_arena (hw_heap w) p"
        "unat (sp_class_index s) = class_of (hw_heap w) x"
        using r(2) [unfolded Some xs option.case prod.case] by blast+
      obtain b where b: "hw_blocks w x = Some b" using x(2) by auto
      have nl: "\<not> large_at w p m" for m using large_live(1) [OF c H(2)] x(3) by blast
      have run: "memx_heap_usable_size (hp_self (hw_heap w)) p w
          = Some (if bk_state b = 1 then memx_heap_class_sizes ! unat (sp_class_index s) else 0)"
        using p0 H(4) r(1) Some xs b by (simp add: memx_heap_usable_size_def)
      show ?thesis
      proof (cases "bk_state b = 1")
        case True
        define n where "n = (ucast (bk_requested_size b) :: u64)"
        have sm: "small_at w p = Some n" using b x(1) True by (simp add: small_at_def n_def)
        then have "size_at w p n" by (simp add: size_at_def)
        then have sz: "object_size A p = unat n" "A p \<noteq> None" using S(1) D by blast+
        note L = small_live(5) [OF H(1) sm, folded x(1)]
        obtain pl where pl: "hw_bytes w p = Some pl" "unat n \<le> pl_size pl" using H(3) sm by (auto simp: sizes_ok_def)
        have "pl_size pl = unat (memx_heap_class_sizes ! unat (sp_class_index s))"
          using L pl(1) x(4) by (simp add: class_size_def)
        then show ?thesis using run True sz pl by auto
      next
        case False
        then have "\<not> size_at w p n" for n using b x(1) nl by (simp add: size_at_def small_at_def)
        then have "A p = None" "object_size A p = 0" using D S(2) by blast+
        then show ?thesis using run False by simp
      qed
    next
      case None
      have ns: "small_at w p = None" using r(2) None by simp
      obtain y link where f: "memx_heap_find_large_locked p w = Some (y, link)"
        "if y = 0 then (\<forall>n. \<not> large_at w p n)
         else \<exists>l. hw_larges w y = Some l \<and> lg_pointer l = p \<and> large_at w p (lg_requested_size l)"
        using find_large_value [OF c H(1,2)] by blast
      show ?thesis
      proof (cases "y = 0")
        case True
        then have "\<not> size_at w p n" for n using f(2) ns by (simp add: size_at_def)
        then have "A p = None" "object_size A p = 0" using D S(2) by blast+
        then show ?thesis using p0 H(4) r(1) None f(1) True by (simp add: memx_heap_usable_size_def)
      next
        case False
        then obtain l where l: "hw_larges w y = Some l" "large_at w p (lg_requested_size l)" using f(2) by auto
        then have sa: "size_at w p (lg_requested_size l)" by (simp add: size_at_def)
        then have "object_size A p = unat (lg_requested_size l)" "A p \<noteq> None" using S(1) D by blast+
        moreover have "memx_heap_usable_size (hp_self (hw_heap w)) p w = Some (lg_requested_size l)"
          using p0 H(4) r(1) None f(1) False l(1) by (simp add: memx_heap_usable_size_def)
        ultimately show ?thesis using size_facts(4) [OF c h sa] by auto
      qed
    qed
  qed
qed

section \<open>Counters\<close>

lemma heap_counts:
  assumes h: "heap_ok E live mapped w" and o: "objects w A" and f: "counts f"
  shows "heap_ok E live mapped (upd_heap f w)" "objects (upd_heap f w) A" "same_heap w (upd_heap f w)"
proof -
  obtain M fr fl heads tls hl ws ch where H: "alloc_inv E live mapped M fr fl heads tls hl w"
    "\<And>j. fl (Hand j) = []" "large_part E M fr ws ch {} w" "sizes_ok w" "hp_self (hw_heap w) \<noteq> 0"
    by (rule heap_okE [OF h]) blast
  note L = large_counters [OF H(1,3) f]
  have sz: "size_at (upd_heap f w) = size_at w"
    by (simp add: size_at_def small_at_large [OF L(3)] L(4) fun_eq_iff)
  show "same_heap w (upd_heap f w)" by (rule same_heap_large [OF L(3)])
  have hp: "hp_self (hw_heap (upd_heap f w)) \<noteq> 0" using self_large [OF L(3)] H(5) by simp
  show "heap_ok E live mapped (upd_heap f w)"
    by (rule heap_okI [OF L(1) _ L(2) sizes_large [OF H(1,4) L(3)] hp]) (simp add: H(2))
  show "objects (upd_heap f w) A" by (rule objects_same [OF o]) (simp_all add: sz)
qed

lemma counts_resize: "\<exists>f. memx_heap_account_resize a b w = upd_heap f w \<and> counts f"
proof (cases "collects w \<and> \<not> a < b")
  case True
  then show ?thesis
    by (intro exI [of _ "\<lambda>h. h\<lparr>hp_live_requested_bytes := hp_live_requested_bytes h - (a - b)\<rparr>"])
      (simp add: memx_heap_account_resize_def counts_def small_fields_def outer_def)
next
  case False
  have id: "w = upd_heap id w" "counts id" by (simp_all add: upd_heap_def counts_def)
  show ?thesis
  proof (cases "collects w")
    case True
    then show ?thesis using False counts_add_live [of "b - a" w] by (simp add: memx_heap_account_resize_def)
  next
    case n: False
    then have "memx_heap_account_resize a b w = w" by (simp add: memx_heap_account_resize_def)
    then show ?thesis using id by metis
  qed
qed

section \<open>Resizing in place\<close>

text \<open>The bytes of \<open>bs\<close> up to the smaller size, in an object of \<open>n\<close> bytes.\<close>

definition resized :: "u8 list \<Rightarrow> u64 \<Rightarrow> u8 list \<Rightarrow> bool" where
  "resized bs n bs' \<longleftrightarrow> length bs' = unat n
     \<and> take (min (length bs) (unat n)) bs' = take (min (length bs) (unat n)) bs"

lemma resized_map: "resized (map f [0 ..< unat m]) n (map f [0 ..< unat n])"
  by (simp add: resized_def take_map min_def)

lemma small_resize:
  assumes c: "env_contract E live mapped" and h: "heap_ok E live mapped w" and o: "objects w A"
    and b: "hw_blocks w (p - sizeof_block) = Some b" "bk_state b = 1"
    and n: "n \<noteq> 0" "unat n \<le> class_size (class_of (hw_heap w) (p - sizeof_block))"
  defines "w' \<equiv> w\<lparr>hw_blocks := (hw_blocks w)(p - sizeof_block \<mapsto> b\<lparr>bk_requested_size := ucast n\<rparr>)\<rparr>"
  shows "heap_ok E live mapped w' \<and> same_heap w w' \<and> (\<exists>bs bs'. A p = Some bs \<and> resized bs n bs' \<and> objects w' (A(p \<mapsto> bs')))"
proof -
  obtain M fr fl heads tls hl ws ch where H: "alloc_inv E live mapped M fr fl heads tls hl w"
    "\<And>j. fl (Hand j) = []" "large_part E M fr ws ch {} w" "sizes_ok w" "hp_self (hw_heap w) \<noteq> 0"
    by (rule heap_okE [OF h]) blast
  note W = header_write [OF H(1) b, of "ucast n", folded w'_def]
  define m where "m = (ucast (bk_requested_size b) :: u64)"
  have sm: "small_at w p = Some m" using b by (simp add: small_at_def m_def)
  note L = small_live [OF H(1) sm]
  have nl: "\<not> large_at w p k" for k using large_live(1) [OF c H(3)] L(1) by blast
  have un: "(ucast (ucast n :: u32) :: u64) = n"
  proof -
    have "\<forall>s \<in> set memx_heap_class_sizes. unat s \<le> 8192" by (simp add: memx_heap_class_sizes_def)
    then have "class_size (class_of (hw_heap w) (p - sizeof_block)) \<le> 8192" using L(6) by (simp add: class_size_def)
    then have n32: "unat n < 2 ^ 32" using n(2) by simp
    have "unat (ucast (ucast n :: u32) :: u64) = unat (ucast n :: u32)" by (rule widened)
    also have "\<dots> = unat n" using n32 by (simp add: unsigned_ucast_eq take_bit_nat_eq_self)
    finally show ?thesis by (simp only: unat_eq_iff)
  qed
  have sa: "small_at w' = (small_at w)(p \<mapsto> n)" using W(2) un by simp
  have fr: "hw_bytes w' = hw_bytes w" "hw_heap w' = hw_heap w" "hw_larges w' = hw_larges w" by (simp_all add: w'_def)
  have la: "large_at w' = large_at w" by (simp add: large_at_def fr fun_eq_iff)
  have lp: "large_part E M fr ws ch {} w'" using H(3) by (simp add: large_part_def ltable_ok_def records_ok_def fr)
  obtain pl where pl: "hw_bytes w p = Some pl" "pl_size pl = class_size (class_of (hw_heap w) (p - sizeof_block))"
    using L(5) by auto
  have so: "sizes_ok w'"
    unfolding sizes_ok_def sa fr
  proof (intro allI impI)
    fix q k assume k: "((small_at w)(p \<mapsto> n)) q = Some k"
    show "k \<noteq> 0 \<and> (\<exists>pl. hw_bytes w q = Some pl \<and> unat k \<le> pl_size pl)"
      using k H(4) n pl by (cases "q = p") (auto simp: sizes_ok_def)
  qed
  have "heap_ok E live mapped w'"
    by (rule heap_okI [OF W(1) _ lp so]) (use H(2,5) in \<open>simp_all add: fr\<close>)
  moreover have "same_heap w w'" by (simp add: same_heap_def fr)
  moreover have "A p = Some (map (pl_bytes pl) [0 ..< unat m])"
    using o sm pl(1) by (auto simp: objects_def object_at_def size_at_def)
  moreover have "objects w' (A(p \<mapsto> map (pl_bytes pl) [0 ..< unat n]))"
  proof (rule objects_upd [OF o])
    show "size_at w' q k \<longleftrightarrow> size_at w q k" if "q \<noteq> p" for q k using that by (simp add: size_at_def sa la)
    show "Some (map (pl_bytes pl) [0 ..< unat n]) = Some bs \<longleftrightarrow> object_at w' p bs" for bs
      using pl(1) nl by (auto simp: object_at_def size_at_def sa la fr)
  qed (simp add: fr)
  ultimately show ?thesis using resized_map by blast
qed

lemma large_resize:
  assumes c: "env_contract E live mapped" and h: "heap_ok E live mapped w" and o: "objects w A"
    and l: "hw_larges w r = Some l" and n: "n \<noteq> 0" "n \<le> lg_requested_size l"
  defines "w' \<equiv> w\<lparr>hw_larges := (hw_larges w)(r \<mapsto> l\<lparr>lg_requested_size := n\<rparr>)\<rparr>" and "p \<equiv> lg_pointer l"
  shows "heap_ok E live mapped w' \<and> same_heap w w' \<and> (\<exists>bs bs'. A p = Some bs \<and> resized bs n bs' \<and> objects w' (A(p \<mapsto> bs')))"
proof -
  obtain M fr fl heads tls hl ws ch where H: "alloc_inv E live mapped M fr fl heads tls hl w"
    "\<And>j. fl (Hand j) = []" "large_part E M fr ws ch {} w" "sizes_ok w" "hp_self (hw_heap w) \<noteq> 0"
    by (rule heap_okE [OF h]) blast
  note W = record_write [OF c H(1,3) l n, folded w'_def p_def]
  have lg: "large_at w p (lg_requested_size l)" using l by (auto simp: large_at_def p_def)
  note L = large_live [OF c H(3) lg]
  have ns: "small_at w p \<noteq> Some k" for k using small_live(1) [OF H(1), of p k] L(1) by blast
  have sa: "small_at w' = small_at w" by (rule small_at_large [OF W(3)])
  have fr: "hw_bytes w' = hw_bytes w" by (simp add: w'_def)
  obtain pl where pl: "hw_bytes w p = Some pl" using L(5) by blast
  have hp: "hp_self (hw_heap w') \<noteq> 0" using self_large [OF W(3)] H(5) by simp
  have "heap_ok E live mapped w'"
    by (rule heap_okI [OF W(1) _ W(2) sizes_large [OF H(1,4) W(3)] hp]) (simp add: H(2))
  moreover have "same_heap w w'" by (rule same_heap_large [OF W(3)])
  moreover have "A p = Some (map (pl_bytes pl) [0 ..< unat (lg_requested_size l)])"
    using o lg pl by (auto simp: objects_def object_at_def size_at_def)
  moreover have "objects w' (A(p \<mapsto> map (pl_bytes pl) [0 ..< unat n]))"
  proof (rule objects_upd [OF o])
    show "size_at w' q k \<longleftrightarrow> size_at w q k" if "q \<noteq> p" for q k using that by (simp add: size_at_def sa W(4))
    show "Some (map (pl_bytes pl) [0 ..< unat n]) = Some bs \<longleftrightarrow> object_at w' p bs" for bs
      using pl ns by (auto simp: object_at_def size_at_def sa W(4) fr)
  qed (simp add: fr)
  ultimately show ?thesis using resized_map by blast
qed

lemma resize_in_place_ok:
  assumes c: "env_contract E live mapped" and h: "heap_ok E live mapped w" and o: "objects w A" and n: "n \<noteq> 0"
  shows "\<exists>ok w'. memx_heap_resize_in_place p n w = Some (ok, w')
    \<and> (if ok then heap_ok E live mapped w' \<and> same_heap w w'
         \<and> (\<exists>bs bs'. A p = Some bs \<and> resized bs n bs' \<and> objects w' (A(p \<mapsto> bs')))
       else w' = w)"
proof -
  obtain M fr fl heads tls hl ws ch where H: "alloc_inv E live mapped M fr fl heads tls hl w"
    "large_part E M fr ws ch {} w" "sizes_ok w" "hp_self (hw_heap w) \<noteq> 0"
    by (rule heap_okE [OF h]) blast
  have fin: "\<exists>ok w''. Some (True, memx_heap_account_resize a n w') = Some (ok, w'') \<and> (if ok then heap_ok E live mapped w''
      \<and> same_heap w w'' \<and> (\<exists>bs bs'. A p = Some bs \<and> resized bs n bs' \<and> objects w'' (A(p \<mapsto> bs'))) else w'' = w)"
    if r: "heap_ok E live mapped w' \<and> same_heap w w' \<and> (\<exists>bs bs'. A p = Some bs \<and> resized bs n bs' \<and> objects w' (A(p \<mapsto> bs')))"
    for a w'
  proof -
    obtain bs bs' where b: "A p = Some bs" "resized bs n bs'" "objects w' (A(p \<mapsto> bs'))" using r by blast
    obtain f where f: "memx_heap_account_resize a n w' = upd_heap f w'" "counts f" using counts_resize by blast
    note C = heap_counts [OF _ b(3) f(2), of E live mapped]
    show ?thesis using C r b(1,2) same_heap_trans f(1)
      by (intro exI [of _ True] exI [of _ "upd_heap f w'"]) auto
  qed
  obtain r where r: "memx_heap_small_block_locked p w = Some r" "case r of None \<Rightarrow> small_at w p = None
       | Some (x, s) \<Rightarrow> x = p - sizeof_block \<and> hw_blocks w x \<noteq> None \<and> in_arena (hw_heap w) p
           \<and> unat (sp_class_index s) = class_of (hw_heap w) x" using resolve [OF H(1)] by blast
  show ?thesis
  proof (cases r)
    case (Some xs)
    obtain x s where xs: "xs = (x, s)" by fastforce
    have x: "x = p - sizeof_block" "hw_blocks w x \<noteq> None" "in_arena (hw_heap w) p"
      "unat (sp_class_index s) = class_of (hw_heap w) x"
      using r(2) [unfolded Some xs option.case prod.case] by blast+
    obtain b where b: "hw_blocks w x = Some b" using x(2) by auto
    let ?w = "w\<lparr>hw_blocks := (hw_blocks w)(x \<mapsto> b\<lparr>bk_requested_size := ucast n\<rparr>)\<rparr>"
    show ?thesis
    proof (cases "bk_state b = 1 \<and> n \<le> memx_heap_class_sizes ! unat (sp_class_index s)")
      case True
      have "memx_heap_resize_in_place p n w = Some (True, memx_heap_account_resize (ucast (bk_requested_size b)) n ?w)"
        using r(1) Some xs b True by (simp add: memx_heap_resize_in_place_def set_block_eval)
      moreover have "unat n \<le> class_size (class_of (hw_heap w) (p - sizeof_block))"
        using True x(1,4) by (simp add: class_size_def word_le_nat_alt)
      ultimately show ?thesis
        using fin [OF small_resize [OF c h o _ _ n, of p b]] b x(1) True by auto
    next
      case False
      then have "memx_heap_resize_in_place p n w = Some (False, w)"
        using r(1) Some xs b by (auto simp: memx_heap_resize_in_place_def)
      then show ?thesis by (intro exI [of _ False] exI [of _ w]) simp
    qed
  next
    case None
    obtain y link where f: "memx_heap_find_large_locked p w = Some (y, link)"
      "if y = 0 then (\<forall>n. \<not> large_at w p n)
       else \<exists>l. hw_larges w y = Some l \<and> lg_pointer l = p \<and> large_at w p (lg_requested_size l)"
      using find_large_value [OF c H(1,2)] by blast
    show ?thesis
    proof (cases "y = 0")
      case True
      then have "memx_heap_resize_in_place p n w = Some (False, w)"
        using r(1) None f(1) by (simp add: memx_heap_resize_in_place_def)
      then show ?thesis by (intro exI [of _ False] exI [of _ w]) simp
    next
      case False
      then obtain l where l: "hw_larges w y = Some l" "lg_pointer l = p" using f(2) by auto
      let ?w = "w\<lparr>hw_larges := (hw_larges w)(y \<mapsto> l\<lparr>lg_requested_size := n\<rparr>)\<rparr>"
      show ?thesis
      proof (cases "n \<le> lg_requested_size l")
        case True
        have "memx_heap_resize_in_place p n w = Some (True, memx_heap_account_resize (lg_requested_size l) n ?w)"
          using r(1) None f(1) False l(1) True by (simp add: memx_heap_resize_in_place_def set_large_def)
        then show ?thesis using fin [OF large_resize [OF c h o l(1) n True, unfolded l(2)]] by simp
      next
        case no: False
        then have "memx_heap_resize_in_place p n w = Some (False, w)"
          using r(1) None f(1) False l(1) by (simp add: memx_heap_resize_in_place_def)
        then show ?thesis by (intro exI [of _ False] exI [of _ w]) simp
      qed
    qed
  qed
qed

section \<open>Copying\<close>

lemma copy_ok:
  assumes c: "env_contract E live mapped" and h: "heap_ok E live mapped w" and o: "objects w A"
    and a: "A src = Some bs" "A dst = Some cs" and n: "unat n \<le> length bs" "unat n \<le> length cs"
  shows "\<exists>w'. copy_bytes dst src n w = Some w' \<and> heap_ok E live mapped w' \<and> same_heap w w'
    \<and> objects w' (A(dst \<mapsto> take (unat n) bs @ drop (unat n) cs))"
proof -
  have "object_at w src bs" "object_at w dst cs" using o a by (simp_all add: objects_def)
  then obtain k f m pl where m: "size_at w src k" "hw_bytes w src = Some f" "bs = map (pl_bytes f) [0 ..< unat k]"
    "size_at w dst m" "hw_bytes w dst = Some pl" "cs = map (pl_bytes pl) [0 ..< unat m]"
    unfolding object_at_def by blast
  have sz: "unat k \<le> pl_size f" "unat m \<le> pl_size pl"
    using size_facts(4) [OF c h m(1)] size_facts(4) [OF c h m(4)] m(2,5) by auto
  have nm: "unat n \<le> unat k" "unat n \<le> unat m" using n m(3,6) by simp_all
  let ?pl = "pl\<lparr>pl_bytes := (\<lambda>i. if i < unat n then pl_bytes f i else pl_bytes pl i)\<rparr>"
  have run: "copy_bytes dst src n w = Some (w\<lparr>hw_bytes := (hw_bytes w)(dst \<mapsto> ?pl)\<rparr>)"
    using m(2,5) sz nm by (simp add: copy_bytes_def)
  have e: "map (pl_bytes ?pl) [0 ..< unat m] = take (unat n) bs @ drop (unat n) cs"
    by (rule nth_equalityI) (use nm in \<open>auto simp: m(3,6) nth_append\<close>)
  note W = write_object [OF c h o m(4,5), of ?pl]
  show ?thesis using run W(1,2) unfolding e by (simp add: same_heap_def)
qed

section \<open>Resizing\<close>

text \<open>The documented effect of a resize to \<open>n\<close> bytes that answers \<open>q\<close>.\<close>

definition reallocated :: "(u64 \<rightharpoonup> u8 list) \<Rightarrow> u64 \<Rightarrow> u64 \<Rightarrow> u64 \<Rightarrow> (u64 \<rightharpoonup> u8 list) \<Rightarrow> bool" where
  "reallocated A p n q A' \<longleftrightarrow> (if q = 0 then A' = A
     else (q = p \<or> A q = None) \<and> (\<exists>bs bs'. A p = Some bs \<and> resized bs n bs' \<and> A' = (A(p := None))(q \<mapsto> bs')))"

lemma resized_copy:
  assumes "length cs = unat n" "k = (if length bs < unat n then length bs else unat n)"
  shows "resized bs n (take k bs @ drop k cs)"
  using assms by (auto simp: resized_def min_def)

text \<open>Allocating, copying and releasing the old object.\<close>

lemma move_object:
  assumes c: "env_contract E live mapped" and h: "heap_ok E live mapped w" and o: "objects w A"
    and a: "A p = Some bs" and n: "n \<noteq> 0" and k: "unat k = (if length bs < unat n then length bs else unat n)"
  shows "\<exists>q w1 A1. memx_heap_malloc E t (hp_self (hw_heap w)) n w = Some (q, w1) \<and> heap_ok E live mapped w1
    \<and> same_heap w w1 \<and> objects w1 A1 \<and> (if q = 0 then A1 = A
       else q \<noteq> p \<and> A1 p = Some bs \<and> (\<exists>w2 A2. copy_bytes q p k w1 = Some w2 \<and> heap_ok E live mapped w2 \<and> same_heap w w2
         \<and> objects w2 A2 \<and> A2 p = Some bs \<and> reallocated A p n q (A2(p := None))))"
proof -
  obtain q w1 A1 where m: "memx_heap_malloc E t (hp_self (hw_heap w)) n w = Some (q, w1)" "heap_ok E live mapped w1"
    "objects w1 A1" "same_heap w w1" "allocated A (request n) q A1"
    using malloc_ok [OF c h o] by blast
  show ?thesis
  proof (cases "q = 0")
    case True
    then have "A1 = A" using m(5) by (simp add: allocated_def)
    then show ?thesis using m(1-4) True by (intro exI [of _ q] exI [of _ w1] exI [of _ A1]) simp
  next
    case False
    obtain cs where cs: "A q = None" "length cs = unat (request n)" "A1 = A(q \<mapsto> cs)" by (rule allocatedD [OF m(5) False])
    have qp: "q \<noteq> p" using cs(1) a by auto
    have a1: "A1 p = Some bs" "A1 q = Some cs" using cs(3) a qp by simp_all
    have ln: "length cs = unat n" using cs(2) n by (simp add: request_def)
    have le: "unat k \<le> length bs" "unat k \<le> length cs" using k ln by auto
    obtain w2 where w2: "copy_bytes q p k w1 = Some w2" "heap_ok E live mapped w2" "same_heap w1 w2"
      "objects w2 (A1(q \<mapsto> take (unat k) bs @ drop (unat k) cs))"
      using copy_ok [OF c m(2,3) a1 le] by blast
    let ?A2 = "A1(q \<mapsto> take (unat k) bs @ drop (unat k) cs)"
    have "?A2(p := None) = (A(p := None))(q \<mapsto> take (unat k) bs @ drop (unat k) cs)" using cs(3) qp by (auto simp: fun_eq_iff)
    then have "reallocated A p n q (?A2(p := None))"
      using False cs(1) a resized_copy [OF ln k] unfolding reallocated_def by auto
    moreover have "?A2 p = Some bs" using a1(1) qp by simp
    ultimately have "\<exists>w2 A2. copy_bytes q p k w1 = Some w2 \<and> heap_ok E live mapped w2 \<and> same_heap w w2
         \<and> objects w2 A2 \<and> A2 p = Some bs \<and> reallocated A p n q (A2(p := None))"
      using w2(1,2,4) same_heap_trans [OF m(4) w2(3)] by blast
    then show ?thesis using m(1-4) False qp a1(1) by (intro exI [of _ q] exI [of _ w1] exI [of _ A1]) simp
  qed
qed

lemma same_heap_self: "same_heap w w' \<Longrightarrow> hp_self (hw_heap w) = hp_self (hw_heap w')"
  by (simp add: same_heap_def)

lemma realloc_ok:
  assumes c: "env_contract E live mapped" and h: "heap_ok E live mapped w" and o: "objects w A" and pn: "p \<noteq> 0" "n \<noteq> 0"
  shows "\<exists>q w' A'. memx_heap_realloc E t (hp_self (hw_heap w)) p n w = Some (q, w') \<and> heap_ok E live mapped w'
    \<and> objects w' A' \<and> same_heap w w' \<and> reallocated A p n q A'"
proof -
  have hp0: "hp_self (hw_heap w) \<noteq> 0" using h by (simp add: heap_ok_def)
  obtain ok w1 where r: "memx_heap_resize_in_place p n w = Some (ok, w1)"
    "if ok then heap_ok E live mapped w1 \<and> same_heap w w1
         \<and> (\<exists>bs bs'. A p = Some bs \<and> resized bs n bs' \<and> objects w1 (A(p \<mapsto> bs')))
       else w1 = w" using resize_in_place_ok [OF c h o pn(2)] by blast
  show ?thesis
  proof (cases ok)
    case True
    then obtain bs bs' where b: "A p = Some bs" "resized bs n bs'" "objects w1 (A(p \<mapsto> bs'))" "heap_ok E live mapped w1" "same_heap w w1"
      using r(2) by auto
    have "memx_heap_realloc E t (hp_self (hw_heap w)) p n w = Some (p, w1)"
      using hp0 pn r(1) True by (simp add: memx_heap_realloc_def)
    moreover have "reallocated A p n p (A(p \<mapsto> bs'))" using b(1,2) pn(1) unfolding reallocated_def by auto
    ultimately show ?thesis using b(3-5) by blast
  next
    case False
    then have w1: "w1 = w" using r(2) by simp
    obtain k where k: "memx_heap_requested_size p w = Some k" "unat k = object_size A p"
      using requested_size_ok [OF c h o] by blast
    let ?k = "if k < n then k else n"
    show ?thesis
    proof (cases "k = 0")
      case True
      then have "memx_heap_realloc E t (hp_self (hw_heap w)) p n w = Some (0, w)"
        using hp0 pn r(1) False w1 k(1) by (simp add: memx_heap_realloc_def)
      then show ?thesis using h o by (intro exI [of _ 0] exI [of _ w] exI [of _ A]) (simp add: reallocated_def)
    next
      case k0: False
      then have "unat k \<noteq> 0" by (simp add: unat_eq_zero)
      then obtain bs where bs: "A p = Some bs" "unat k = length bs" using k(2) by (auto simp: object_size_def split: option.splits)
      have kk: "unat ?k = (if length bs < unat n then length bs else unat n)" using bs(2) by (simp add: word_less_nat_alt)
      obtain q v A1 where m: "memx_heap_malloc E t (hp_self (hw_heap w)) n w = Some (q, v)" "heap_ok E live mapped v"
        "same_heap w v" "objects v A1" "if q = 0 then A1 = A
       else q \<noteq> p \<and> A1 p = Some bs \<and> (\<exists>w2 A2. copy_bytes q p ?k v = Some w2 \<and> heap_ok E live mapped w2 \<and> same_heap w w2
         \<and> objects w2 A2 \<and> A2 p = Some bs \<and> reallocated A p n q (A2(p := None)))"
        using move_object [OF c h o bs(1) pn(2) kk] by blast
      show ?thesis
      proof (cases "q = 0")
        case True
        then have "memx_heap_realloc E t (hp_self (hw_heap w)) p n w = Some (0, v)" "A1 = A"
          using hp0 pn r(1) False w1 k(1) k0 m(1,5) by (simp_all add: memx_heap_realloc_def)
        then show ?thesis using m(2-4) by (intro exI [of _ 0] exI [of _ v] exI [of _ A]) (simp add: reallocated_def)
      next
        case q0: False
        then obtain u A2 where u: "copy_bytes q p ?k v = Some u" "heap_ok E live mapped u" "same_heap w u" "objects u A2"
          "A2 p = Some bs" "reallocated A p n q (A2(p := None))" using m(5) by auto
        obtain x where x: "memx_heap_free E t (hp_self (hw_heap u)) p u = Some (A2 p \<noteq> None, x)" "heap_ok E live mapped x"
          "objects x (A2(p := None))" "same_heap u x" using free_ok [OF c u(2,4) pn(1)] by blast
        have fx: "memx_heap_free E t (hp_self (hw_heap w)) p u = Some (True, x)"
          using x(1) u(5) same_heap_self [OF u(3)] by simp
        have "memx_heap_realloc E t (hp_self (hw_heap w)) p n w = Some (q, x)"
          using hp0 pn r(1) False w1 k(1) k0 m(1) q0 u(1) fx by (simp add: memx_heap_realloc_def)
        then show ?thesis using x(2,3) same_heap_trans [OF u(3) x(4)] u(6) by blast
      qed
    qed
  qed
qed

section \<open>Resizing without checks\<close>

lemma realloc_unchecked_ok:
  assumes c: "env_contract E live mapped" and h: "heap_ok E live mapped w" and o: "objects w A"
    and a: "A p = Some bs" and n: "n \<noteq> 0"
  shows "\<exists>q w' A'. memx_heap_realloc_unchecked E t (hp_self (hw_heap w)) p n w = Some (q, w')
    \<and> heap_ok E live mapped w' \<and> objects w' A' \<and> same_heap w w' \<and> reallocated A p n q A'"
proof -
  obtain M fr fl heads tls hl ws ch where H: "alloc_inv E live mapped M fr fl heads tls hl w"
    "\<And>j. fl (Hand j) = []" "large_part E M fr ws ch {} w" "sizes_ok w" "hp_self (hw_heap w) \<noteq> 0"
    by (rule heap_okE [OF h]) blast
  note sp = small_invD(1) [OF alloc_invD(1) [OF H(1)]] and ar = spans_okD(1) [OF small_invD(1) [OF alloc_invD(1) [OF H(1)]]]
  obtain m where m: "size_at w p m" using a objects_size(3) [OF c h o, of p] by auto
  have p0: "p \<noteq> 0" by (rule size_facts(1) [OF c h m])
  have ai: "p < fst (hp_arena (hw_heap w)) \<or> snd (hp_arena (hw_heap w)) \<le> p - fst (hp_arena (hw_heap w)) \<longleftrightarrow> \<not> in_arena (hw_heap w) p"
    using in_arena_iff [OF ar, of p] by (auto simp: not_less not_le)
  show ?thesis
  proof (cases "in_arena (hw_heap w) p")
    case False
    have "memx_heap_realloc_unchecked E t (hp_self (hw_heap w)) p n w = memx_heap_realloc E t (hp_self (hw_heap w)) p n w"
      unfolding memx_heap_realloc_unchecked_def Let_def using ai False p0 n H(5) by simp
    then show ?thesis using realloc_ok [OF c h o p0 n] by simp
  next
    case True
    let ?hp = "hp_self (hw_heap w)" and ?x = "p - sizeof_block" and ?k = "class_of (hw_heap w) (p - sizeof_block)"
    have nl: "\<not> large_at w p i" for i using large_live(1) [OF c H(3)] True by blast
    then have sm: "small_at w p = Some m" using m by (simp add: size_at_def)
    obtain b where b: "hw_blocks w ?x = Some b" "bk_state b = 1" "m = ucast (bk_requested_size b)"
      using small_live(4) [OF H(1) sm] by blast
    note L = small_live [OF H(1) sm]
    have ct: "memx_heap_class_for_arena_offset w (p - fst (hp_arena (hw_heap w))) = Some ?k"
      by (rule class_table_ok [OF sp]) (use b in simp)
    have lb: "unat m = length bs"
      using objects_size(2) [OF c h o m] a by simp
    have mk: "unat m \<le> class_size ?k" using L(5) H(4) [unfolded sizes_ok_def, rule_format, OF sm] by auto
    have k19: "\<not> 19 \<le> ?k" using L(6) by simp
    have go: "memx_heap_realloc_unchecked E t ?hp p n w = (
        if n \<le> memx_heap_class_sizes ! ?k
        then Some (p, memx_heap_account_resize m n (w\<lparr>hw_blocks := (hw_blocks w)(?x \<mapsto> b\<lparr>bk_requested_size := ucast n\<rparr>)\<rparr>))
        else do {
          (replacement, w) \<leftarrow> memx_heap_malloc E t ?hp n w;
          if replacement = 0 then Some (0, w)
          else do {
            w \<leftarrow> copy_bytes replacement p m w;
            w \<leftarrow> memx_heap_free_unchecked E t ?hp p w;
            Some (replacement, w)
          }
        })"
      unfolding memx_heap_realloc_unchecked_def Let_def
      using ai True p0 n H(5) ct b L(6) set_block_eval [OF b(1)] by (simp add: Let_def cong: if_cong)
    show ?thesis
    proof (cases "n \<le> memx_heap_class_sizes ! ?k")
      case fits: True
      have nk: "unat n \<le> class_size ?k" using fits by (simp add: class_size_def word_le_nat_alt)
      let ?w = "w\<lparr>hw_blocks := (hw_blocks w)(?x \<mapsto> b\<lparr>bk_requested_size := ucast n\<rparr>)\<rparr>"
      obtain bs' where r: "heap_ok E live mapped ?w" "same_heap w ?w" "resized bs n bs'" "objects ?w (A(p \<mapsto> bs'))"
        using small_resize [OF c h o b(1,2) n nk] a by auto
      obtain f where f: "memx_heap_account_resize m n ?w = upd_heap f ?w" "counts f" using counts_resize by blast
      note C = heap_counts [OF r(1,4) f(2)]
      have "reallocated A p n p (A(p \<mapsto> bs'))" using a r(3) p0 unfolding reallocated_def by auto
      then show ?thesis using go fits f(1) C same_heap_trans [OF r(2) C(3)]
        by (intro exI [of _ p] exI [of _ "upd_heap f ?w"] exI [of _ "A(p \<mapsto> bs')"]) simp
    next
      case grow: False
      have "unat m \<le> unat n" using grow mk by (simp add: class_size_def word_le_nat_alt)
      then have kk: "unat m = (if length bs < unat n then length bs else unat n)" using lb by simp
      obtain q v A1 where v: "memx_heap_malloc E t (hp_self (hw_heap w)) n w = Some (q, v)" "heap_ok E live mapped v"
        "same_heap w v" "objects v A1" "if q = 0 then A1 = A
       else q \<noteq> p \<and> A1 p = Some bs \<and> (\<exists>w2 A2. copy_bytes q p m v = Some w2 \<and> heap_ok E live mapped w2 \<and> same_heap w w2
         \<and> objects w2 A2 \<and> A2 p = Some bs \<and> reallocated A p n q (A2(p := None)))"
        using move_object [OF c h o a n kk] by blast
      show ?thesis
      proof (cases "q = 0")
        case True
        then have "A1 = A" using v(5) by simp
        then show ?thesis using go grow v(1-4) True
          by (intro exI [of _ 0] exI [of _ v] exI [of _ A]) (simp add: reallocated_def)
      next
        case q0: False
        then obtain u A2 where u: "copy_bytes q p m v = Some u" "heap_ok E live mapped u" "same_heap w u" "objects u A2"
          "A2 p = Some bs" "reallocated A p n q (A2(p := None))" using v(5) by auto
        have a2: "A2 p \<noteq> None" using u(5) by simp
        obtain x where x: "memx_heap_free_unchecked E t (hp_self (hw_heap u)) p u = Some x" "heap_ok E live mapped x"
          "objects x (A2(p := None))" "same_heap u x" using free_unchecked_ok [OF c u(2,4) a2] by blast
        have "memx_heap_realloc_unchecked E t (hp_self (hw_heap w)) p n w = Some (q, x)"
          using go grow v(1) q0 u(1) x(1) same_heap_self [OF u(3)] by simp
        then show ?thesis using x(2,3) same_heap_trans [OF u(3) x(4)] u(6) by blast
      qed
    qed
  qed
qed

end
