(* ===== verification/Memx_Separation.thy ===== *)
theory Memx_Separation
  imports Memx_Realloc
begin

text \<open>
  Objects do not overlap: the bytes of two live objects are disjoint, and all of them are mapped.
\<close>

lemma small_bytes:
  assumes inv: "alloc_inv E live mapped M fr fl heads tls hl w" and s: "sizes_ok w" and p: "small_at w p = Some n"
  shows "\<exists>j i. let h = hw_heap w; k = span_class h j in j < unat (hp_span_capacity h) \<and> k < 19 \<and> i < blocks_in h k
    \<and> unat p = arena_start h + j * 2 ^ span_bits h + 80 + i * unat (block_stride k)
    \<and> unat n + 16 \<le> unat (block_stride k)"
proof -
  let ?h = "hw_heap w" and ?x = "p - sizeof_block"
  note L = small_live [OF inv p] and sp = small_invD(1) [OF alloc_invD(1) [OF inv]]
  note ar = spans_okD(1) [OF sp]
  have x: "hw_blocks w ?x \<noteq> None" using L(4) by auto
  obtain j i where ji: "j < unat (hp_next_span ?h)" "span_class ?h j < 19" "i < blocks_in ?h (span_class ?h j)"
    "?x = block_start ?h (span_class ?h j) j i" using block_in_arena(5) [OF sp x] by blast
  have jc: "j < unat (hp_span_capacity ?h)" using ji(1) arena_okD(10) [OF ar] by simp
  note u = block_start_unat [OF ar jc ji(2,3), folded ji(4)]
  have "unat p = unat ?x + 16" using block_in_arena(4) [OF sp x] by simp
  moreover have "class_of ?h ?x = span_class ?h j" by (simp add: class_of_def u(2))
  moreover have "unat n \<le> class_size (class_of ?h ?x)"
    using L(5) s [unfolded sizes_ok_def, rule_format, OF p] by auto
  ultimately show ?thesis using stride_facts(1) [OF ji(2)] jc ji(2,3) u(1) unfolding Let_def
    by (intro exI [of _ j] exI [of _ i]) simp
qed

lemma apart_steps:
  assumes "(i :: nat) < i'" "n \<le> s"
  shows "i * s + n \<le> i' * s"
proof -
  have "i * s + s \<le> i' * s" using mult_le_mono1 [of "Suc i" i' s] assms(1) by simp
  then show ?thesis using assms(2) by simp
qed

lemma small_apart:
  assumes inv: "alloc_inv E live mapped M fr fl heads tls hl w" and s: "sizes_ok w"
    and p: "small_at w p = Some n" and q: "small_at w q = Some m" and pq: "unat p < unat q"
  shows "unat p + unat n \<le> unat q"
proof -
  let ?h = "hw_heap w"
  obtain j i where 1: "j < unat (hp_span_capacity ?h)" "span_class ?h j < 19" "i < blocks_in ?h (span_class ?h j)"
    "unat p = arena_start ?h + j * 2 ^ span_bits ?h + 80 + i * unat (block_stride (span_class ?h j))"
    "unat n + 16 \<le> unat (block_stride (span_class ?h j))" using small_bytes [OF inv s p] by (auto simp: Let_def)
  obtain j' i' where 2: "span_class ?h j' < 19" "i' < blocks_in ?h (span_class ?h j')"
    "unat q = arena_start ?h + j' * 2 ^ span_bits ?h + 80 + i' * unat (block_stride (span_class ?h j'))"
    "unat m + 16 \<le> unat (block_stride (span_class ?h j'))" using small_bytes [OF inv s q] by (auto simp: Let_def)
  note r1 = block_room [OF 1(2,3)] and r2 = block_room [OF 2(1,2)]
  consider "j < j'" | "j = j'" | "j' < j" by linarith
  then show ?thesis
  proof cases
    case 1
    have "j * 2 ^ span_bits ?h + 2 ^ span_bits ?h \<le> j' * 2 ^ span_bits ?h" by (rule apart_steps [OF 1]) simp
    then show ?thesis using \<open>unat p = _\<close> 2(3) r1 \<open>unat n + 16 \<le> _\<close> by linarith
  next
    case 2
    then have e: "unat q = arena_start ?h + j * 2 ^ span_bits ?h + 80 + i' * unat (block_stride (span_class ?h j))"
      using \<open>unat q = _\<close> by simp
    have "i * unat (block_stride (span_class ?h j)) < i' * unat (block_stride (span_class ?h j))"
      using pq e 1(4) by linarith
    then have "i < i'" by simp
    then have "i * unat (block_stride (span_class ?h j)) + unat n \<le> i' * unat (block_stride (span_class ?h j))"
      by (rule apart_steps) (use 1(5) in simp)
    then show ?thesis using e 1(4) by linarith
  next
    case 3
    have "j' * 2 ^ span_bits ?h + 2 ^ span_bits ?h \<le> j * 2 ^ span_bits ?h" by (rule apart_steps [OF 3]) simp
    then have False using pq 1(4) 2(3) r2 \<open>unat m + 16 \<le> _\<close> by linarith
    then show ?thesis ..
  qed
qed

lemma small_range:
  assumes inv: "alloc_inv E live mapped M fr fl heads tls hl w" and s: "sizes_ok w" and p: "small_at w p = Some n"
  shows "byte_range (unat p) (unat n) \<subseteq> arena_range (hw_heap w)"
proof -
  let ?h = "hw_heap w"
  obtain j i where 1: "j < unat (hp_span_capacity ?h)" "span_class ?h j < 19" "i < blocks_in ?h (span_class ?h j)"
    "unat p = arena_start ?h + j * 2 ^ span_bits ?h + 80 + i * unat (block_stride (span_class ?h j))"
    "unat n + 16 \<le> unat (block_stride (span_class ?h j))" using small_bytes [OF inv s p] by (auto simp: Let_def)
  have "unat p + unat n \<le> arena_start ?h + unat (snd (hp_arena ?h))"
    using 1(4,5) block_room [OF 1(2,3)] span_room [OF spans_okD(1) [OF small_invD(1) [OF alloc_invD(1) [OF inv]]] 1(1)]
    by linarith
  then show ?thesis using 1(4) by (auto simp: byte_range_def arena_range_def)
qed

lemma large_in:
  assumes c: "env_contract E live mapped" and p: "large_part E M fr ws ch {} w" and n: "large_at w p n"
  shows "\<exists>x l. hw_larges w x = Some l \<and> lg_pointer l = p \<and> byte_range (unat p) (unat n) \<subseteq> large_range E l
    \<and> large_range E l \<subseteq> M \<and> large_range E l \<inter> arena_range (hw_heap w) = {}"
proof -
  obtain x l where x: "hw_larges w x = Some l" "lg_pointer l = p" "lg_requested_size l = n" using n by (auto simp: large_at_def)
  note K = records_okD(4) [OF large_partD(3) [OF p] x(1)]
  show ?thesis using large_bytes(1) [OF c K] record_okD(10,11) [OF K] x by blast
qed

lemma objects_apart:
  assumes c: "env_contract E live mapped" and h: "heap_ok E live mapped w" and o: "objects w A"
    and p: "A p = Some bs" and q: "A q = Some cs" and pq: "p \<noteq> q"
  shows "byte_range (unat p) (length bs) \<inter> byte_range (unat q) (length cs) = {}"
proof -
  obtain M fr fl heads tls hl ws ch where H: "alloc_inv E live mapped M fr fl heads tls hl w"
    "large_part E M fr ws ch {} w" "sizes_ok w"
    by (rule heap_okE [OF h]) blast
  have sz: "\<exists>n. size_at w r n \<and> unat n = length ds" if "A r = Some ds" for r ds
    using objects_size(1) [OF c h o that] objects_size(2) [OF c h o objects_size(1) [OF c h o that]] that
    by (intro exI [of _ "of_nat (length ds)"]) auto
  obtain n where n: "size_at w p n" "unat n = length bs" using sz [OF p] by blast
  obtain m where m: "size_at w q m" "unat m = length cs" using sz [OF q] by blast
  have mixed: "byte_range (unat r) (unat i) \<inter> byte_range (unat t) (unat j) = {}"
    if a: "small_at w r = Some i" "large_at w t j" for r i t j
    using small_range [OF H(1,3) a(1)] large_in [OF c H(2) a(2)] by blast
  have un: "unat p \<noteq> unat q" using pq by (simp add: unat_eq_iff)
  have "byte_range (unat p) (unat n) \<inter> byte_range (unat q) (unat m) = {}"
  proof (cases "small_at w p = Some n")
    case sp: True
    show ?thesis
    proof (cases "small_at w q = Some m")
      case True
      then show ?thesis
        using small_apart [OF H(1,3) sp True] small_apart [OF H(1,3) True sp] un by (force simp: byte_range_def)
    next
      case False
      then show ?thesis using mixed [OF sp] m(1) by (simp add: size_at_def)
    qed
  next
    case False
    then have lp: "large_at w p n" using n(1) by (simp add: size_at_def)
    show ?thesis
    proof (cases "small_at w q = Some m")
      case True
      then show ?thesis using mixed [OF True lp] by blast
    next
      case False
      then have lq: "large_at w q m" using m(1) by (simp add: size_at_def)
      obtain x l where x: "hw_larges w x = Some l" "lg_pointer l = p" "byte_range (unat p) (unat n) \<subseteq> large_range E l"
        using large_in [OF c H(2) lp] by blast
      obtain y k where y: "hw_larges w y = Some k" "lg_pointer k = q" "byte_range (unat q) (unat m) \<subseteq> large_range E k"
        using large_in [OF c H(2) lq] by blast
      have "x \<noteq> y" using x y pq by auto
      then show ?thesis using records_okD(5) [OF large_partD(3) [OF H(2)] x(1) y(1)] x(3) y(3) by blast
    qed
  qed
  then show ?thesis using n(2) m(2) by simp
qed

lemma objects_mapped:
  assumes c: "env_contract E live mapped" and h: "heap_ok E live mapped w" and o: "objects w A" and p: "A p = Some bs"
  shows "byte_range (unat p) (length bs) \<subseteq> mapped (ctx (hw_mem w))"
proof -
  obtain M fr fl heads tls hl ws ch where H: "alloc_inv E live mapped M fr fl heads tls hl w"
    "large_part E M fr ws ch {} w" "sizes_ok w"
    by (rule heap_okE [OF h]) blast
  have M: "mapped (ctx (hw_mem w)) = M" by (rule mem_okD(3) [OF c small_invD(3) [OF alloc_invD(1) [OF H(1)]]])
  note s = objects_size(1) [OF c h o p]
  have l: "unat (of_nat (length bs) :: u64) = length bs" using objects_size(2) [OF c h o s] p by auto
  have "byte_range (unat p) (unat (of_nat (length bs) :: u64)) \<subseteq> M"
  proof (cases "small_at w p = Some (of_nat (length bs))")
    case True
    then show ?thesis using small_range [OF H(1,3) True] records_okD(1) [OF large_partD(3) [OF H(2)]] by blast
  next
    case False
    then have "large_at w p (of_nat (length bs))" using s by (simp add: size_at_def)
    then show ?thesis using large_in [OF c H(2)] by blast
  qed
  then show ?thesis unfolding M l .
qed

end
