(* ===== verification/Memx_Detach.thy ===== *)
theory Memx_Detach
  imports Memx_Calls
begin

text \<open>
  \<^const>\<open>memx_heap_thread_detach\<close>: the thread's cache of the heap leaves the thread's list and gives
  every free block it holds to the central bins.  The invariant holds again and no object changes.
\<close>

section \<open>Emptying a cache\<close>

text \<open>While a cache is emptied, its records know only the heads of its lists.\<close>

definition loose :: "lists \<Rightarrow> u64 \<Rightarrow> memx_heap_cache \<Rightarrow> nat \<Rightarrow> bool" where
  "loose fl c r j \<longleftrightarrow> ch_local r j = hd0 (fl (Local c j)) \<and> ch_spare r j = hd0 (fl (Spare c j))
     \<and> ch_remote r j = hd0 (fl (Remote c j))"

definition drained :: "lists \<Rightarrow> u64 \<Rightarrow> memx_heap_cache \<Rightarrow> nat \<Rightarrow> bool" where
  "drained fl c r j \<longleftrightarrow> fl (Remote c j) = [] \<and> ch_remote_count r j = 0"

definition emptied :: "lists \<Rightarrow> u64 \<Rightarrow> memx_heap_cache \<Rightarrow> nat \<Rightarrow> bool" where
  "emptied fl c r j \<longleftrightarrow> fl (Local c j) = [] \<and> fl (Spare c j) = [] \<and> ch_local_tail r j = 0
     \<and> ch_local_count r j = 0 \<and> ch_spare_tail r j = 0 \<and> ch_spare_count r j = 0"

text \<open>The lists that are neither in a bin nor in the cache stay as they are.\<close>

definition others_kept :: "u64 \<Rightarrow> lists \<Rightarrow> lists \<Rightarrow> bool" where
  "others_kept c fl fl' \<longleftrightarrow> (\<forall>P. \<not> in_bin P \<longrightarrow> (\<forall>j. P \<noteq> Local c j \<and> P \<noteq> Spare c j \<and> P \<noteq> Remote c j) \<longrightarrow> fl' P = fl P)"

lemma others_kept_refl [simp]: "others_kept c fl fl"
  by (simp add: others_kept_def)

lemma others_kept_trans: "others_kept c fl fl' \<Longrightarrow> others_kept c fl' fl'' \<Longrightarrow> others_kept c fl fl''"
  by (simp add: others_kept_def)

text \<open>The first \<open>n\<close> classes have no remote blocks left, the first \<open>m\<close> no blocks at all.\<close>

definition detaching ::
  "(u64 \<Rightarrow> nat) \<Rightarrow> u64 \<Rightarrow> nat \<Rightarrow> nat \<Rightarrow> lists \<Rightarrow> (nat \<Rightarrow> u64 list) \<Rightarrow> memx_heap_cache \<Rightarrow> 'c heap_world \<Rightarrow> bool" where
  "detaching cl c n m fl heads r w \<longleftrightarrow> bins_part cl fl heads w \<and> caches_part fl ({c} \<times> {..<19}) w
     \<and> own_cache w c = Some r \<and> (\<forall>j. fl (Hand j) = [])
     \<and> (\<forall>j < 19. loose fl c r j) \<and> (\<forall>j < n. drained fl c r j) \<and> (\<forall>j < m. emptied fl c r j)"

lemma detachingD:
  assumes "detaching cl c n m fl heads r w"
  shows "bins_part cl fl heads w" "caches_part fl ({c} \<times> {..<19}) w" "own_cache w c = Some r" "fl (Hand j) = []"
    "j < 19 \<Longrightarrow> loose fl c r j" "j < n \<Longrightarrow> drained fl c r j" "j < m \<Longrightarrow> emptied fl c r j"
  using assms by (simp_all add: detaching_def)

lemma cache_loose: "cache_ok w fl c r j \<Longrightarrow> loose fl c r j"
  by (simp add: cache_ok_def cache_lists_def segment_def loose_def)

section \<open>The remote queue\<close>

text \<open>One class, from the first remote block on.\<close>

lemma absorb_loop_ok:
  assumes "bins_part cl fl heads w" "own_cache w c = Some r" "ch_local r k = hd0 (fl (Local c k))"
    and "fl (Remote c k) = xs" "k < 19"
  shows "\<exists>w' fl' r'. absorb_loop c k (hd0 xs) w = Some w' \<and> bins_part cl fl' heads w' \<and> moved w w'
    \<and> own_cache w' = (own_cache w)(c \<mapsto> r') \<and> cache_skel r' = cache_skel r \<and> (\<forall>j. j \<noteq> k \<longrightarrow> same_class r r' j)
    \<and> ch_spare r' k = ch_spare r k \<and> ch_local r' k = hd0 (fl' (Local c k)) \<and> fl' (Remote c k) = []
    \<and> (\<forall>P. P \<noteq> Local c k \<longrightarrow> P \<noteq> Remote c k \<longrightarrow> fl' P = fl P)"
  using assms
proof (induction xs arbitrary: w fl r)
  case Nil
  have "absorb_loop c k (hd0 []) w = Some w" by (subst absorb_loop.simps) simp
  then show ?case using Nil.prems
    by (intro exI [of _ w] exI [of _ fl] exI [of _ r]) (simp add: fun_upd_idem)
next
  case (Cons x xs)
  let ?P = "Local c k" and ?Q = "Remote c k"
  note r = Cons.prems(2)
  have xm: "x \<in> set (fl ?Q)" by (simp add: Cons.prems(4))
  obtain b where b: "hw_blocks w x = Some b" "bk_state b = 0" "x \<noteq> 0" using free_payload [OF Cons.prems(1) xm] by blast
  have l: "linked (bnext (hw_blocks w)) (hd0 (fl ?Q)) (fl ?Q)"
    by (rule lists_okD(1) [OF bins_partD(1) [OF Cons.prems(1)]]) simp
  then have nx: "bk_link b = hd0 xs"
    using b(1) linked_rest [of _ x "[x]" xs] by (cases xs) (auto simp: Cons.prems(4) bnext_def)
  let ?r = "r\<lparr>ch_local := (ch_local r)(k := x), ch_local_count := (ch_local_count r)(k := ch_local_count r k + 1)\<rparr>"
  define w1 where "w1 = w\<lparr>hw_blocks := (hw_blocks w)(x \<mapsto> b\<lparr>bk_link := ch_local r k\<rparr>)\<rparr>"
  define w2 where "w2 = w1\<lparr>hw_caches := (hw_caches w1)(c \<mapsto> ?r)\<rparr>"
  let ?fl = "fl(?Q := xs, ?P := x # fl ?P)"
  have r1: "hw_caches w1 c = Some r" using own_cacheD(1) [OF r] by (simp add: w1_def)
  have m1: "moved w w1" unfolding w1_def by (rule moved_block [OF b(1,2)]) (simp add: b(2))
  have m2: "moved w1 w2" unfolding w2_def by (rule moved_cache [OF r1]) (simp add: cache_skel_def)
  note m = moved_trans [OF m1 m2]
  have bl: "hw_blocks w2 = (hw_blocks w)(x \<mapsto> b\<lparr>bk_link := hd0 (fl ?P)\<rparr>)" "hw_bytes w2 = hw_bytes w"
    "hp_central (hw_heap w2) = hp_central (hw_heap w)" "hp_central_count (hw_heap w2) = hp_central_count (hw_heap w)"
    by (simp_all add: w2_def w1_def Cons.prems(3))
  have B: "bins_part cl ?fl heads w2"
    by (rule shift_block [OF Cons.prems(1,4) _ _ _ _ _ b(1) bl(1,2) m bl(3,4)]) simp_all
  have o: "own_cache w2 = (own_cache w)(c \<mapsto> ?r)"
    by (rule own_cache_upd [OF r]) (simp_all add: w2_def w1_def)
  have step: "absorb_loop c k (hd0 (x # xs)) w = absorb_loop c k (hd0 xs) w2"
    using b(1,3) nx own_cacheD(1) [OF r] set_cache_eval [OF r1]
    by (subst absorb_loop.simps) (simp add: set_block_eval [OF b(1)] w1_def [symmetric] w2_def)
  have pre: "own_cache w2 c = Some ?r" "ch_local ?r k = hd0 (?fl ?P)" "?fl ?Q = xs" by (simp_all add: o)
  obtain w' fl' r' where ih: "absorb_loop c k (hd0 xs) w2 = Some w'" "bins_part cl fl' heads w'" "moved w2 w'"
    "own_cache w' = (own_cache w2)(c \<mapsto> r')" "cache_skel r' = cache_skel ?r" "\<And>j. j \<noteq> k \<Longrightarrow> same_class ?r r' j"
    "ch_spare r' k = ch_spare ?r k" "ch_local r' k = hd0 (fl' ?P)" "fl' ?Q = []"
    "\<And>P. P \<noteq> ?P \<Longrightarrow> P \<noteq> ?Q \<Longrightarrow> fl' P = ?fl P"
    using Cons.IH [OF B pre Cons.prems(5)] by blast
  have "same_class r r' j" if "j \<noteq> k" for j using ih(6) [OF that] that by (simp add: same_class_def)
  moreover have "fl' P = fl P" if "P \<noteq> ?P" "P \<noteq> ?Q" for P using ih(10) [OF that] that by simp
  ultimately show ?case unfolding step
    using ih(1-5,7-9) moved_trans [OF m ih(3)] o
    by (intro exI [of _ w'] exI [of _ fl'] exI [of _ r']) (simp add: cache_skel_def)
qed


lemma absorb_remote_ok:
  assumes "detaching cl c k 0 fl heads r w" "k + n = 19"
  shows "\<exists>w' fl' r'. absorb_remote c k n w = Some w' \<and> detaching cl c 19 0 fl' heads r' w' \<and> moved w w'
    \<and> others_kept c fl fl'"
  using assms
proof (induction n arbitrary: k w fl r)
  case 0
  then show ?case by (intro exI [of _ w] exI [of _ fl] exI [of _ r]) simp
next
  case (Suc n)
  note D = detachingD [OF Suc.prems(1)]
  have k: "k < 19" using Suc.prems(2) by simp
  note lo = D(5) [OF k, unfolded loose_def]
  obtain w1 fl1 r1 where a: "absorb_loop c k (ch_remote r k) w = Some w1" "bins_part cl fl1 heads w1" "moved w w1"
    "own_cache w1 = (own_cache w)(c \<mapsto> r1)" "cache_skel r1 = cache_skel r" "\<And>j. j \<noteq> k \<Longrightarrow> same_class r r1 j"
    "ch_spare r1 k = ch_spare r k" "ch_local r1 k = hd0 (fl1 (Local c k))" "fl1 (Remote c k) = []"
    "\<And>P. P \<noteq> Local c k \<Longrightarrow> P \<noteq> Remote c k \<Longrightarrow> fl1 P = fl P"
    using absorb_loop_ok [OF D(1,3) _ refl k] lo by auto
  let ?r = "r1\<lparr>ch_remote := (ch_remote r1)(k := 0), ch_remote_count := (ch_remote_count r1)(k := 0)\<rparr>"
  let ?w = "w1\<lparr>hw_caches := (hw_caches w1)(c \<mapsto> ?r)\<rparr>"
  have o1: "own_cache w1 c = Some r1" by (simp add: a(4))
  have m: "moved w1 ?w" by (rule moved_cache [OF own_cacheD(1) [OF o1]]) (simp add: cache_skel_def)
  have o: "own_cache ?w = (own_cache w)(c \<mapsto> ?r)"
    using own_cache_set [OF o1, of ?r] a(4) by simp
  have B: "bins_part cl fl1 heads ?w" by (rule bins_part_cong [OF a(2)]) simp_all
  have cap: "chunk_cap ?w = chunk_cap w" "cache_cap ?w = cache_cap w"
    using cap_moved [OF moved_trans [OF a(3) m]] by simp_all
  have C: "caches_part fl1 ({c} \<times> {..<19}) ?w"
    by (rule caches_part_step [OF D(2) cap D(3) o]) (use k a(6,10) in \<open>auto simp: same_class_def\<close>)
  have same: "same_class r ?r j" "fl1 (Local c j) = fl (Local c j)" "fl1 (Spare c j) = fl (Spare c j)"
    "fl1 (Remote c j) = fl (Remote c j)" if "j \<noteq> k" for j
    using a(6) [OF that] a(10) that by (simp_all add: same_class_def)
  have "detaching cl c (Suc k) 0 fl1 heads ?r ?w"
    unfolding detaching_def
  proof (intro conjI allI impI)
    show "fl1 (Hand j) = []" for j using a(10) [of "Hand j"] D(4) by simp
    show "loose fl1 c ?r j" if "j < 19" for j
    proof (cases "j = k")
      case True
      then show ?thesis using a(7-9) a(10) [of "Spare c k"] lo by (simp add: loose_def)
    next
      case False
      then show ?thesis using D(5) [OF that] same [OF False] by (simp add: loose_def same_class_def)
    qed
    show "drained fl1 c ?r j" if "j < Suc k" for j
    proof (cases "j = k")
      case True
      then show ?thesis using a(9) by (simp add: drained_def)
    next
      case False
      then show ?thesis using D(6) [of j] that same [OF False] by (simp add: drained_def same_class_def)
    qed
  qed (use B C o in simp_all)
  from Suc.IH [OF this] obtain w' fl' r' where ih: "absorb_remote c (Suc k) n ?w = Some w'"
    "detaching cl c 19 0 fl' heads r' w'" "moved ?w w'" "others_kept c fl1 fl'" using Suc.prems(2) by auto
  have "absorb_remote c k (Suc n) w = Some w'"
    using own_cacheD(1) [OF D(3)] a(1) set_cache_eval [OF own_cacheD(1) [OF o1]] ih(1) by simp
  moreover have "others_kept c fl fl1" unfolding others_kept_def using a(10) by blast
  ultimately show ?case
    using ih(2) moved_trans [OF moved_trans [OF a(3) m] ih(3)] others_kept_trans [OF _ ih(4)] by blast
qed

section \<open>The central bins\<close>

lemma push_list_ok:
  assumes "bins_part cl fl heads w" "\<not> in_bin P" "\<not> in_hand P" "place_class P = k" "fl P = xs"
  shows "\<exists>w' fl' heads'. push_list k (hd0 xs) w = Some w'
    \<and> settled cl w (fl(P := [])) {} UNIV w' fl' heads' \<and> hw_caches w' = hw_caches w"
  using assms
proof (induction xs arbitrary: w fl heads)
  case Nil
  then show ?case by (subst push_list.simps) (simp add: settled_def fun_upd_idem, blast)
next
  case (Cons x xs)
  have xm: "x \<in> set (fl P)" by (simp add: Cons.prems(5))
  obtain b where b: "hw_blocks w x = Some b" "x \<noteq> 0" using free_payload [OF Cons.prems(1) xm] by blast
  have l: "linked (bnext (hw_blocks w)) (hd0 (fl P)) (fl P)"
    by (rule lists_okD(1) [OF bins_partD(1) [OF Cons.prems(1)] Cons.prems(3)])
  have nx: "bk_link b = hd0 xs"
    using l b(1) linked_rest [of _ x "[x]" xs] by (cases xs) (auto simp: Cons.prems(5) bnext_def)
  obtain w1 fl1 heads1 where p: "memx_heap_push_central_locked k x w = Some w1"
    "settled cl w (fl(P := xs)) {} {x} w1 fl1 heads1" "hw_caches w1 = hw_caches w"
    using push_block_ok [OF Cons.prems(1,2,5)] Cons.prems(4) by auto
  note S = settledD [OF p(2)]
  have "fl1 P = xs" using S(3) [OF Cons.prems(2)] by simp
  from Cons.IH [OF S(1) Cons.prems(2-4) this] obtain w' fl' heads' where
    ih: "push_list k (hd0 xs) w1 = Some w'" "settled cl w1 (fl1(P := [])) {} UNIV w' fl' heads'" "hw_caches w' = hw_caches w1"
    by blast
  have "push_list k (hd0 (x # xs)) w = Some w'"
    using b p(1) nx ih(1) by (subst push_list.simps) simp
  moreover have "settled cl w (fl(P := [])) {} UNIV w' fl' heads'"
    unfolding settled_def
  proof (intro conjI allI impI)
    show "fl' Q = (fl(P := [])) Q" if "\<not> in_bin Q" for Q
      using settledD(3) [OF ih(2) that] S(3) [OF that] by simp
  qed (use settledD(1,2) [OF ih(2)] moved_trans [OF S(2)] in simp_all)
  moreover have "hw_caches w' = hw_caches w" using ih(3) p(3) by simp
  ultimately show ?case by blast
qed

lemma flush_classes_ok:
  assumes "detaching cl c 19 k fl heads r w" "k + n = 19"
  shows "\<exists>w' fl' heads' r'. flush_classes c k n w = Some w' \<and> detaching cl c 19 19 fl' heads' r' w' \<and> moved w w'
    \<and> others_kept c fl fl'"
  using assms
proof (induction n arbitrary: k w fl heads r)
  case 0
  then show ?case by (intro exI [of _ w] exI [of _ fl] exI [of _ heads] exI [of _ r]) simp
next
  case (Suc n)
  note D = detachingD [OF Suc.prems(1)]
  have k: "k < 19" using Suc.prems(2) by simp
  note lo = D(5) [OF k, unfolded loose_def]
  obtain w1 fl1 heads1 where p1: "push_list k (ch_local r k) w = Some w1"
    "settled cl w (fl(Local c k := [])) {} UNIV w1 fl1 heads1" "hw_caches w1 = hw_caches w"
    using push_list_ok [OF D(1), of "Local c k" k] lo by auto
  note S1 = settledD [OF p1(2)]
  have sp: "fl1 (Spare c k) = fl (Spare c k)" using S1(3) [of "Spare c k"] by simp
  obtain w2 fl2 heads2 where p2: "push_list k (ch_spare r k) w1 = Some w2"
    "settled cl w1 (fl1(Spare c k := [])) {} UNIV w2 fl2 heads2" "hw_caches w2 = hw_caches w1"
    using push_list_ok [OF S1(1), of "Spare c k" k] lo sp by auto
  note S2 = settledD [OF p2(2)]
  have f: "fl2 P = (fl(Local c k := [], Spare c k := [])) P" if "\<not> in_bin P" for P
    using S2(3) [OF that] S1(3) [OF that] by simp
  let ?r = "r\<lparr>ch_local := (ch_local r)(k := 0),
            ch_local_tail := (ch_local_tail r)(k := 0), ch_local_count := (ch_local_count r)(k := 0),
            ch_spare := (ch_spare r)(k := 0), ch_spare_tail := (ch_spare_tail r)(k := 0),
            ch_spare_count := (ch_spare_count r)(k := 0)\<rparr>"
  let ?w = "w2\<lparr>hw_caches := (hw_caches w2)(c \<mapsto> ?r)\<rparr>"
  note m12 = moved_trans [OF S1(2) S2(2)]
  have c2: "hw_caches w2 c = Some r" using own_cacheD(1) [OF D(3)] p1(3) p2(3) by simp
  have m: "moved w2 ?w" by (rule moved_cache [OF c2]) (simp add: cache_skel_def)
  note mm = moved_trans [OF m12 m]
  have o: "own_cache ?w = (own_cache w)(c \<mapsto> ?r)"
    by (rule own_cache_upd [OF D(3)]) (use p1(3) p2(3) moved_self [OF m12] in simp_all)
  have B: "bins_part cl fl2 heads2 ?w" by (rule bins_part_cong [OF S2(1)]) simp_all
  have cap: "chunk_cap ?w = chunk_cap w" "cache_cap ?w = cache_cap w" using cap_moved [OF mm] by simp_all
  have C: "caches_part fl2 ({c} \<times> {..<19}) ?w"
    by (rule caches_part_step [OF D(2) cap D(3) o]) (use k f in \<open>auto simp: same_class_def\<close>)
  have "detaching cl c 19 (Suc k) fl2 heads2 ?r ?w"
    unfolding detaching_def
  proof (intro conjI allI impI)
    show "fl2 (Hand j) = []" for j using f [of "Hand j"] D(4) by simp
    show "loose fl2 c ?r j" if "j < 19" for j
      using D(5) [OF that] f by (simp add: loose_def)
    show "drained fl2 c ?r j" if "j < 19" for j
      using D(6) [OF that] f by (simp add: drained_def)
    show "emptied fl2 c ?r j" if "j < Suc k" for j
      using D(7) [of j] that f by (cases "j = k") (simp_all add: emptied_def)
  qed (use B C o in simp_all)
  from Suc.IH [OF this] obtain w' fl' heads' r' where ih: "flush_classes c (Suc k) n ?w = Some w'"
    "detaching cl c 19 19 fl' heads' r' w'" "moved ?w w'" "others_kept c fl2 fl'" using Suc.prems(2) by auto
  have "flush_classes c k (Suc n) w = Some w'"
    using own_cacheD(1) [OF D(3)] p1(1) p2(1) set_cache_eval [OF c2] ih(1) by simp
  moreover have "others_kept c fl fl2" unfolding others_kept_def using f by simp
  ultimately show ?case using ih(2) moved_trans [OF mm ih(3)] others_kept_trans [OF _ ih(4)] by blast
qed

text \<open>An empty cache is an ordinary one again.\<close>

lemma detaching_done:
  assumes "detaching cl c 19 19 fl heads r w"
  shows "caches_part fl {} w"
proof -
  note D = detachingD [OF assms]
  have ok: "cache_ok w fl c r j" if j: "j < 19" for j
    using D(5-7) [OF j] bins_partD(5,6) [OF D(1)]
    by (simp add: cache_ok_def cache_lists_def loose_def drained_def emptied_def)
  show ?thesis
    unfolding caches_part_def
  proof (intro allI)
    fix d j
    show "case own_cache w d of None \<Rightarrow> fl (Local d j) = [] \<and> fl (Spare d j) = [] \<and> fl (Remote d j) = []
     | Some r \<Rightarrow> (d, j) \<in> {} \<or> cache_ok w fl d r j"
    proof (cases "own_cache w d")
      case None
      then show ?thesis using caches_partD(1-3) [OF D(2) None] by simp
    next
      case (Some q)
      show ?thesis
      proof (cases "d = c \<and> j < 19")
        case True
        then show ?thesis using ok [of j] D(3) Some by simp
      next
        case False
        then have "(d, j) \<notin> {c} \<times> {..<19}" by auto
        then show ?thesis using caches_partD(4) [OF D(2) Some] Some by simp
      qed
    qed
  qed
qed

text \<open>What the lists of a cache and the bins hold, read from the heads and links of the state.\<close>

definition cache_holds :: "'c heap_world \<Rightarrow> u64 \<Rightarrow> nat \<Rightarrow> u64 \<Rightarrow> bool" where
  "cache_holds w c k x \<longleftrightarrow> (\<exists>r xs. hw_caches w c = Some r \<and> x \<in> set xs
     \<and> (linked (bnext (hw_blocks w)) (ch_local r k) xs \<or> linked (bnext (hw_blocks w)) (ch_spare r k) xs
        \<or> linked (bnext (hw_blocks w)) (ch_remote r k) xs))"

definition bin_holds :: "'c heap_world \<Rightarrow> nat \<Rightarrow> u64 \<Rightarrow> bool" where
  "bin_holds w k x \<longleftrightarrow> (\<exists>hs h xs. linked (cnext (hw_bytes w)) (hp_central (hw_heap w) k) hs \<and> h \<in> set hs
     \<and> linked (bnext (hw_blocks w)) h xs \<and> x \<in> set xs)"

definition cache_empty :: "memx_heap_cache \<Rightarrow> bool" where
  "cache_empty r \<longleftrightarrow> (\<forall>k < 19. ch_local r k = 0 \<and> ch_local_tail r k = 0 \<and> ch_local_count r k = 0
     \<and> ch_spare r k = 0 \<and> ch_spare_tail r k = 0 \<and> ch_spare_count r k = 0
     \<and> ch_remote r k = 0 \<and> ch_remote_count r k = 0)"

lemma cache_holds_lists:
  assumes "bins_part cl fl heads w" "caches_part fl {} w" "own_cache w c = Some r"
  shows "cache_holds w c k x \<longleftrightarrow> x \<in> set (fl (Local c k)) \<or> x \<in> set (fl (Spare c k)) \<or> x \<in> set (fl (Remote c k))"
proof -
  note L = lists_okD(1) [OF bins_partD(1) [OF assms(1)]]
  have lo: "loose fl c r k" using cache_loose [OF caches_partD(4) [OF assms(2,3)]] by simp
  have l: "linked (bnext (hw_blocks w)) (ch_local r k) (fl (Local c k))"
    "linked (bnext (hw_blocks w)) (ch_spare r k) (fl (Spare c k))"
    "linked (bnext (hw_blocks w)) (ch_remote r k) (fl (Remote c k))"
    using L [of "Local c k"] L [of "Spare c k"] L [of "Remote c k"] lo by (simp_all add: loose_def)
  have u: "(\<exists>ys. x \<in> set ys \<and> linked (bnext (hw_blocks w)) p ys) \<longleftrightarrow> x \<in> set xs"
    if "linked (bnext (hw_blocks w)) p xs" for p xs using that linked_unique [OF _ that] by blast
  have "cache_holds w c k x \<longleftrightarrow> (\<exists>ys. x \<in> set ys \<and> linked (bnext (hw_blocks w)) (ch_local r k) ys)
      \<or> (\<exists>ys. x \<in> set ys \<and> linked (bnext (hw_blocks w)) (ch_spare r k) ys)
      \<or> (\<exists>ys. x \<in> set ys \<and> linked (bnext (hw_blocks w)) (ch_remote r k) ys)"
    unfolding cache_holds_def using own_cacheD(1) [OF assms(3)] by auto
  then show ?thesis unfolding u [OF l(1)] u [OF l(2)] u [OF l(3)] .
qed

lemma bin_holds_lists:
  assumes "bins_part cl fl heads w"
  shows "bin_holds w k x \<longleftrightarrow> (\<exists>h. x \<in> set (fl (Chunk k h)))"
proof -
  note B = bins_okD [OF bins_partD(3) [OF assms]]
  have l: "linked (bnext (hw_blocks w)) h (fl (Chunk k h))" if "h \<in> set (heads k)" for h
    using lists_okD(1) [OF bins_partD(1) [OF assms], of "Chunk k h"] B(3) [OF that]
    by (cases "fl (Chunk k h)") (auto simp: chunk_ok_def)
  show ?thesis
  proof
    assume "bin_holds w k x"
    then obtain hs h xs where h: "linked (cnext (hw_bytes w)) (hp_central (hw_heap w) k) hs" "h \<in> set hs"
      "linked (bnext (hw_blocks w)) h xs" "x \<in> set xs" by (auto simp: bin_holds_def)
    have "hs = heads k" by (rule linked_unique [OF h(1) B(1)])
    then have "xs = fl (Chunk k h)" using linked_unique [OF h(3) l] h(2) by simp
    then show "\<exists>h. x \<in> set (fl (Chunk k h))" using h(4) by blast
  next
    assume "\<exists>h. x \<in> set (fl (Chunk k h))"
    then obtain h where h: "x \<in> set (fl (Chunk k h))" by blast
    then have "h \<in> set (heads k)" using B(4) [of h k] by (cases "h \<in> set (heads k)") auto
    then show "bin_holds w k x" using h l B(1) [of k] unfolding bin_holds_def by blast
  qed
qed

text \<open>The blocks that leave the cache are the ones that join the bins.\<close>

lemma emptied_into_bins:
  assumes b: "bins_part cl fl heads w" "bins_part cl fl' heads' w'" and m: "moved w w'"
    and k: "others_kept c fl fl'" "\<forall>j < 19. fl' (Local c j) = [] \<and> fl' (Spare c j) = [] \<and> fl' (Remote c j) = []"
    and n: "n < 19"
  shows "(\<exists>h. x \<in> set (fl' (Chunk n h))) \<longleftrightarrow> (\<exists>h. x \<in> set (fl (Chunk n h)))
    \<or> x \<in> set (fl (Local c n)) \<or> x \<in> set (fl (Spare c n)) \<or> x \<in> set (fl (Remote c n))"
proof -
  note L = lists_okD [OF bins_partD(1) [OF b(1)]] and L' = lists_okD [OF bins_partD(1) [OF b(2)]]
  have st: "bstate (hw_blocks w') x = bstate (hw_blocks w) x" using m by (simp add: moved_def)
  have kept: "x \<in> set (fl' P) \<longleftrightarrow> x \<in> set (fl P)"
    if "\<not> in_bin P" "\<And>j. P \<noteq> Local c j \<and> P \<noteq> Spare c j \<and> P \<noteq> Remote c j" for P
    using k(1) that by (simp add: others_kept_def)
  show ?thesis
  proof
    assume "\<exists>h. x \<in> set (fl' (Chunk n h))"
    then obtain h where h: "x \<in> set (fl' (Chunk n h))" by blast
    have "bstate (hw_blocks w) x = Some 0" using L'(4) [OF h] st by simp
    then obtain P where P: "x \<in> set (fl P)" using L(5) by blast
    have "place_class P = n" using L(7) [OF P] L'(7) [OF h] by simp
    moreover have "P = Chunk n h" if "\<not> in_bin P" "\<And>j. P \<noteq> Local c j \<and> P \<noteq> Spare c j \<and> P \<noteq> Remote c j"
      using L'(3) [OF _ h, of P] kept [OF that] P by simp
    ultimately show "(\<exists>h. x \<in> set (fl (Chunk n h)))
      \<or> x \<in> set (fl (Local c n)) \<or> x \<in> set (fl (Spare c n)) \<or> x \<in> set (fl (Remote c n))"
      using P by (cases P) auto
  next
    assume "(\<exists>h. x \<in> set (fl (Chunk n h)))
      \<or> x \<in> set (fl (Local c n)) \<or> x \<in> set (fl (Spare c n)) \<or> x \<in> set (fl (Remote c n))"
    then obtain P where P: "x \<in> set (fl P)" "place_class P = n"
      "in_bin P \<or> P = Local c n \<or> P = Spare c n \<or> P = Remote c n" by fastforce
    have "bstate (hw_blocks w') x = Some 0" using L(4) [OF P(1)] st by simp
    then obtain Q where Q: "x \<in> set (fl' Q)" using L'(5) by blast
    have cq: "place_class Q = n" using L'(7) [OF Q] L(7) [OF P(1)] P(2) by simp
    have "in_bin Q"
    proof (rule ccontr)
      assume nb: "\<not> in_bin Q"
      have "Q = Local c n \<or> Q = Spare c n \<or> Q = Remote c n"
      proof (rule ccontr)
        assume no: "\<not> ?thesis"
        then have o: "Q \<noteq> Local c j \<and> Q \<noteq> Spare c j \<and> Q \<noteq> Remote c j" for j using cq by auto
        have "Q = P" using L(3) [OF _ P(1), of Q] kept [OF nb o] Q by simp
        then show False using P(3) nb no by blast
      qed
      then show False using k(2) n Q by auto
    qed
    then show "\<exists>h. x \<in> set (fl' (Chunk n h))" using Q cq by (cases Q) auto
  qed
qed

text \<open>Both phases together.\<close>

lemma empty_cache_ok:
  assumes inv: "bins_part cl fl heads w" "caches_part fl {} w" and r: "own_cache w c = Some r"
    and h: "\<And>j. fl (Hand j) = []"
  shows "\<exists>w1 w' fl' heads' r'. absorb_remote c 0 19 w = Some w1 \<and> flush_classes c 0 19 w1 = Some w'
    \<and> bins_part cl fl' heads' w' \<and> caches_part fl' {} w' \<and> moved w w' \<and> (\<forall>j. fl' (Hand j) = [])
    \<and> own_cache w' c = Some r' \<and> cache_empty r'
    \<and> (\<forall>k < 19. \<forall>x. bin_holds w' k x \<longleftrightarrow> bin_holds w k x \<or> cache_holds w c k x)"
proof -
  have C: "caches_part fl ({c} \<times> {..<19}) w"
    by (rule caches_part_same [OF inv(2)]) simp_all
  have "detaching cl c 0 0 fl heads r w"
    using inv(1) C r h cache_loose [OF caches_partD(4) [OF inv(2) r]] by (simp add: detaching_def)
  then obtain w1 fl1 r1 where a: "absorb_remote c 0 19 w = Some w1" "detaching cl c 19 0 fl1 heads r1 w1" "moved w w1"
    "others_kept c fl fl1"
    using absorb_remote_ok [of cl c 0 fl heads r w 19] by auto
  obtain w' fl' heads' r' where f: "flush_classes c 0 19 w1 = Some w'" "detaching cl c 19 19 fl' heads' r' w'" "moved w1 w'"
    "others_kept c fl1 fl'"
    using flush_classes_ok [OF a(2)] by auto
  note D = detachingD [OF f(2)]
  have none: "fl' (Local c j) = [] \<and> fl' (Spare c j) = [] \<and> fl' (Remote c j) = []" if "j < 19" for j
    using D(6,7) [OF that] by (simp add: drained_def emptied_def)
  have e: "cache_empty r'"
    using D(5-7) none by (simp add: cache_empty_def drained_def emptied_def loose_def)
  have m: "moved w w'" by (rule moved_trans [OF a(3) f(3)])
  have "bin_holds w' k x \<longleftrightarrow> bin_holds w k x \<or> cache_holds w c k x" if "k < 19" for k x
    unfolding bin_holds_lists [OF D(1)] bin_holds_lists [OF inv(1)] cache_holds_lists [OF inv r]
    using none by (intro emptied_into_bins [OF inv(1) D(1) m others_kept_trans [OF a(4) f(4)] _ that]) simp
  then show ?thesis using a(1) f(1) D(1,3,4) detaching_done [OF f(2)] m e by blast
qed


section \<open>The list of the thread\<close>

text \<open>Only links of the thread lists and the flag for remote blocks differ.\<close>

definition link_skel :: "memx_heap_cache \<Rightarrow> memx_heap_cache" where
  "link_skel c = c\<lparr>ch_tls_next := 0, ch_accepting_remote := False\<rparr>"

definition rethreaded :: "'c heap_world \<Rightarrow> 'c heap_world \<Rightarrow> bool" where
  "rethreaded w w' \<longleftrightarrow> hw_heap w' = hw_heap w \<and> hw_mem w' = hw_mem w \<and> hw_blocks w' = hw_blocks w
     \<and> hw_bytes w' = hw_bytes w \<and> hw_spans w' = hw_spans w \<and> hw_larges w' = hw_larges w
     \<and> (\<forall>c. map_option link_skel (hw_caches w' c) = map_option link_skel (hw_caches w c))"

lemma rethreadedD:
  assumes "rethreaded w w'"
  shows "hw_heap w' = hw_heap w" "hw_mem w' = hw_mem w" "hw_blocks w' = hw_blocks w"
    "hw_bytes w' = hw_bytes w" "hw_spans w' = hw_spans w" "hw_larges w' = hw_larges w"
    "map_option link_skel (hw_caches w' c) = map_option link_skel (hw_caches w c)"
  using assms by (simp_all add: rethreaded_def)

lemma rethreaded_refl [simp]: "rethreaded w w"
  by (simp add: rethreaded_def)

lemma rethreaded_trans: "rethreaded w w' \<Longrightarrow> rethreaded w' w'' \<Longrightarrow> rethreaded w w''"
  by (simp add: rethreaded_def)

lemma rethreaded_cache:
  "hw_caches w c = Some r \<Longrightarrow> link_skel r' = link_skel r \<Longrightarrow> rethreaded w (w\<lparr>hw_caches := (hw_caches w)(c \<mapsto> r')\<rparr>)"
  by (simp add: rethreaded_def)

lemma link_skelD:
  assumes "link_skel r' = link_skel r"
  shows "ch_heap r' = ch_heap r" "ch_heap_next r' = ch_heap_next r" "same_class r r' j"
  using assms unfolding link_skel_def same_class_def by (cases r; cases r'; simp)+

lemma rethreaded_own:
  assumes "rethreaded w w'"
  shows "map_option link_skel (own_cache w' c) = map_option link_skel (own_cache w c)"
proof -
  note R = rethreadedD [OF assms]
  show ?thesis
  proof (cases "hw_caches w c")
    case None
    then have "hw_caches w' c = None" using R(7) [of c] by simp
    then show ?thesis using None by (simp add: own_cache_def)
  next
    case (Some r)
    then obtain r' where r': "hw_caches w' c = Some r'" "link_skel r' = link_skel r" using R(7) [of c] by auto
    then show ?thesis using Some link_skelD(1) [OF r'(2)] by (simp add: own_cache_def R(1))
  qed
qed

lemma rethreaded_inv:
  assumes inv: "alloc_inv E live mapped M fr fl heads tls hl w" and re: "rethreaded w w'" and t: "tls_ok tls' w'"
  shows "alloc_inv E live mapped M fr fl heads tls' hl w'"
proof -
  note I = alloc_invD [OF inv] and R = rethreadedD [OF re] and T = threads_okD [OF alloc_invD(3) [OF inv]]
  note o = rethreaded_own [OF re]
  have none: "own_cache w' c = None \<longleftrightarrow> own_cache w c = None" for c using o [of c] by (metis map_option_is_None)
  have "bins_part (class_of (hw_heap w)) fl heads w'"
    by (rule bins_part_cong [OF small_invD(4) [OF I(1)]]) (simp_all add: R(1-4))
  then have "small_inv E live mapped M fr fl heads w'"
    using small_invD [OF I(1)] by (simp add: small_inv_def spans_ok_def index_maps_def R(1-5))
  moreover have "caches_part fl {} w'"
    unfolding caches_part_def
  proof (intro allI)
    fix c k
    show "case own_cache w' c of None \<Rightarrow> fl (Local c k) = [] \<and> fl (Spare c k) = [] \<and> fl (Remote c k) = []
     | Some r \<Rightarrow> (c, k) \<in> {} \<or> cache_ok w' fl c r k"
    proof (cases "own_cache w c")
      case None
      then show ?thesis using caches_partD(1-3) [OF I(2) None] none [of c] by simp
    next
      case (Some r)
      then obtain r' where r': "own_cache w' c = Some r'" "link_skel r' = link_skel r" using o [of c] by auto
      have "cache_ok w' fl c r' k"
        by (rule cache_ok_cong [OF caches_partD(4) [OF I(2) Some] _ _ link_skelD(3) [OF r'(2)]])
          (simp_all add: chunk_cap_def cache_cap_def R(1))
      then show ?thesis using r'(1) by simp
    qed
  qed
  moreover have "threads_ok fr tls' hl w'"
  proof -
    have "hnext w' c = hnext w c" for c
    proof (cases "own_cache w c")
      case None
      then show ?thesis using none [of c] by (simp add: hnext_def)
    next
      case (Some r)
      then obtain r' where r': "own_cache w' c = Some r'" "link_skel r' = link_skel r" using o [of c] by auto
      then show ?thesis using Some link_skelD(2) [OF r'(2)] by (simp add: hnext_def)
    qed
    then have "hnext w' = hnext w" by (rule ext)
    moreover have "dom (own_cache w') = dom (own_cache w)" using none by (auto simp: dom_def)
    moreover have "hw_caches w' c = None \<longleftrightarrow> hw_caches w c = None" for c
      using R(7) [of c] by (metis map_option_is_None)
    ultimately show ?thesis using T t none by (simp add: threads_ok_def R(1))
  qed
  moreover have "owners_ok w'" using I(4) none by (simp add: owners_ok_def R(3))
  ultimately show ?thesis by (simp add: alloc_inv_def)
qed

text \<open>\<open>pre\<close> is the part of the list already passed.\<close>

lemma unlink_cache_ok:
  assumes "linked (tnext w) (hw_tls w t) (pre @ xs)" "prev = last0 pre"
  shows "\<exists>c w'. unlink_cache t prev (hd0 xs) w = Some (c, w')
    \<and> (if c = 0 then w' = w \<and> (\<forall>x \<in> set xs. own_cache w x = None)
       else own_cache w c \<noteq> None \<and> rethreaded w w' \<and> hw_tls_last w' = hw_tls_last w
         \<and> (\<forall>u. u \<noteq> t \<longrightarrow> hw_tls w' u = hw_tls w u)
         \<and> (\<exists>ys zs. xs = ys @ c # zs \<and> linked (tnext w') (hw_tls w' t) (pre @ ys @ zs)
               \<and> (\<forall>y \<in> set ys. own_cache w y = None)) \<and> tnext w' c = Some 0
         \<and> (\<forall>x. x \<notin> set (pre @ xs) \<longrightarrow> tnext w' x = tnext w x))"
  using assms
proof (induction xs arbitrary: pre prev)
  case Nil
  then show ?case by (subst unlink_cache.simps) simp
next
  case (Cons x xs)
  have dist: "distinct (pre @ x # xs)" by (rule linked_distinct [OF Cons.prems(1)])
  have lx: "linked (tnext w) x (x # xs)" by (rule linked_suffix [OF Cons.prems(1)])
  then obtain r where r: "hw_caches w x = Some r" "x \<noteq> 0" "linked (tnext w) (ch_tls_next r) xs"
    by (auto simp: tnext_def)
  have hd: "hd0 xs = ch_tls_next r" using r(3) by (cases xs) auto
  show ?case
  proof (cases "ch_heap r = hp_self (hw_heap w)")
    case False
    have go: "unlink_cache t prev (hd0 (x # xs)) w = unlink_cache t x (hd0 xs) w"
      using r False hd by (subst unlink_cache.simps) simp
    have none: "own_cache w x = None" using r(1) False by (simp add: own_cache_def)
    have "linked (tnext w) (hw_tls w t) ((pre @ [x]) @ xs)" "x = last0 (pre @ [x])"
      using Cons.prems(1) by simp_all
    from Cons.IH [OF this] obtain c w' where ih: "unlink_cache t x (hd0 xs) w = Some (c, w')"
      "if c = 0 then w' = w \<and> (\<forall>x \<in> set xs. own_cache w x = None)
       else own_cache w c \<noteq> None \<and> rethreaded w w' \<and> hw_tls_last w' = hw_tls_last w
         \<and> (\<forall>u. u \<noteq> t \<longrightarrow> hw_tls w' u = hw_tls w u)
         \<and> (\<exists>ys zs. xs = ys @ c # zs \<and> linked (tnext w') (hw_tls w' t) ((pre @ [x]) @ ys @ zs)
               \<and> (\<forall>y \<in> set ys. own_cache w y = None)) \<and> tnext w' c = Some 0
         \<and> (\<forall>y. y \<notin> set ((pre @ [x]) @ xs) \<longrightarrow> tnext w' y = tnext w y)" by blast
    show ?thesis
    proof (cases "c = 0")
      case True
      then show ?thesis using go none ih by (intro exI [of _ 0] exI [of _ w]) simp
    next
      case c0: False
      then obtain ys zs where yz: "xs = ys @ c # zs" "linked (tnext w') (hw_tls w' t) ((pre @ [x]) @ ys @ zs)"
        "\<forall>y \<in> set ys. own_cache w y = None"
        using ih(2) by auto
      have "\<exists>ys' zs'. x # xs = ys' @ c # zs' \<and> linked (tnext w') (hw_tls w' t) (pre @ ys' @ zs')
          \<and> (\<forall>y \<in> set ys'. own_cache w y = None)"
        using yz none by (intro exI [of _ "x # ys"] exI [of _ zs]) simp
      then show ?thesis using go ih c0 by (intro exI [of _ c] exI [of _ w']) simp
    qed
  next
    case True
    define r' where "r' = r\<lparr>ch_tls_next := 0\<rparr>"
    have oc: "own_cache w x \<noteq> None" using own_cacheI [OF r(1) True] by simp
    show ?thesis
    proof (cases "pre = []")
      case True': True
      let ?w = "w\<lparr>hw_tls := (hw_tls w)(t := ch_tls_next r), hw_caches := (hw_caches w)(x \<mapsto> r')\<rparr>"
      have "prev = 0" using Cons.prems(2) True' by simp
      then have "unlink_cache t prev (hd0 (x # xs)) w = Some (x, ?w)"
        using r True by (subst unlink_cache.simps) (simp add: set_cache_def r'_def)
      moreover have "rethreaded w ?w" using r(1) by (simp add: rethreaded_def link_skel_def r'_def)
      moreover have "tnext ?w x = Some 0" by (simp add: tnext_def r'_def)
      moreover have tn: "tnext ?w y = tnext w y" if "y \<noteq> x" for y using that by (simp add: tnext_def)
      moreover have "linked (tnext ?w) (ch_tls_next r) xs"
        by (rule linked_cong [OF r(3)], rule tn) (use dist in auto)
      ultimately show ?thesis using r(2) oc True'
        by (intro exI [of _ x] exI [of _ ?w]) (auto intro: exI [of _ "[]"])
    next
      case False
      then obtain as y where pre: "pre = as @ [y]" by (metis rev_exhaust)
      have py: "prev = y" using Cons.prems(2) pre by simp
      have ls: "linked (tnext w) (hw_tls w t) (as @ y # x # xs)" using Cons.prems(1) pre by simp
      have y0: "y \<noteq> 0" "y \<noteq> x" using linked_nonzero [OF ls] dist pre by auto
      obtain q where q: "hw_caches w y = Some q"
        using linked_dom [OF ls, of y] by (auto simp: tnext_def)
      let ?q = "q\<lparr>ch_tls_next := ch_tls_next r\<rparr>"
      let ?w1 = "w\<lparr>hw_caches := (hw_caches w)(y \<mapsto> ?q)\<rparr>"
      let ?w = "?w1\<lparr>hw_caches := (hw_caches ?w1)(x \<mapsto> r')\<rparr>"
      have "unlink_cache t prev (hd0 (x # xs)) w = Some (x, ?w)"
        using r True y0 py q by (subst unlink_cache.simps) (simp add: set_cache_def r'_def)
      moreover have "rethreaded w ?w" using r(1) q y0(2) by (simp add: rethreaded_def link_skel_def r'_def)
      moreover have "tnext ?w = (tnext w)(y \<mapsto> ch_tls_next r, x \<mapsto> 0)"
        using y0(2) by (auto simp: tnext_def r'_def fun_eq_iff)
      moreover have "linked ((tnext w)(y \<mapsto> ch_tls_next r, x \<mapsto> 0)) (hw_tls w t) (as @ y # xs)"
      proof (rule linked_upd [OF linked_remove [OF ls]])
        show "tnext w x = Some (ch_tls_next r)" using r(1) by (simp add: tnext_def)
        show "x \<notin> set (as @ y # xs)" using dist pre by auto
      qed
      ultimately show ?thesis using r(2) oc pre
        by (intro exI [of _ x] exI [of _ ?w]) (auto intro: exI [of _ "[]"])
    qed
  qed
qed


section \<open>Detaching\<close>

text \<open>The links of the thread after its cache \<open>c\<close> has left the list.\<close>

definition cut_links :: "nat \<Rightarrow> u64 \<Rightarrow> 'c heap_world \<Rightarrow> 'c heap_world" where
  "cut_links t c w = (if hw_tls_last w t = c then w\<lparr>hw_tls_last := (hw_tls_last w)(t := 0)\<rparr> else w)"

text \<open>The cache \<open>c\<close> is the first of the heap in the list of the thread.\<close>

definition thread_cache :: "nat \<Rightarrow> 'c heap_world \<Rightarrow> u64 list \<Rightarrow> u64 \<Rightarrow> u64 list \<Rightarrow> bool" where
  "thread_cache t w pre c suf \<longleftrightarrow> linked (tnext w) (hw_tls w t) (pre @ c # suf) \<and> own_cache w c \<noteq> None
     \<and> (\<forall>d \<in> set pre. own_cache w d = None)"

lemma first_split:
  "pre @ c # suf = ys @ d # zs \<Longrightarrow> P c \<Longrightarrow> P d \<Longrightarrow> \<forall>x \<in> set pre. \<not> P x \<Longrightarrow> \<forall>x \<in> set ys. \<not> P x
    \<Longrightarrow> pre = ys \<and> c = d \<and> suf = zs"
proof (induction pre arbitrary: ys)
  case Nil
  then show ?case by (cases ys) auto
next
  case (Cons x pre)
  then show ?case by (cases ys) auto
qed

lemma thread_cache_unique:
  assumes "thread_cache t w pre c suf" "thread_cache t w ys d zs"
  shows "pre = ys \<and> c = d \<and> suf = zs"
proof -
  have "pre @ c # suf = ys @ d # zs" using assms linked_unique unfolding thread_cache_def by blast
  then show ?thesis using assms unfolding thread_cache_def
    by (intro first_split [where P = "\<lambda>x. own_cache w x \<noteq> None"]) auto
qed

text \<open>What detaching promises: the thread's cache leaves its list empty and closed, and its blocks are
  in the central bins.\<close>

definition detached :: "nat \<Rightarrow> 'c heap_world \<Rightarrow> 'c heap_world \<Rightarrow> bool" where
  "detached t w w' \<longleftrightarrow>
     (\<forall>pre c suf. thread_cache t w pre c suf \<longrightarrow>
        linked (tnext w') (hw_tls w' t) (pre @ suf) \<and> hw_tls_last w' t \<noteq> c
        \<and> (\<exists>r. own_cache w' c = Some r \<and> cache_empty r \<and> \<not> ch_accepting_remote r \<and> ch_tls_next r = 0)
        \<and> (\<forall>k < 19. \<forall>x. bin_holds w' k x \<longleftrightarrow> bin_holds w k x \<or> cache_holds w c k x))
     \<and> ((\<nexists>pre c suf. thread_cache t w pre c suf) \<longrightarrow> w' = w)"

lemma rethreaded_holds:
  assumes "rethreaded w w'"
  shows "bin_holds w' = bin_holds w" "cache_holds w' = cache_holds w"
proof -
  note R = rethreadedD [OF assms]
  show "bin_holds w' = bin_holds w" by (simp add: bin_holds_def fun_eq_iff R(1,3,4))
  show "cache_holds w' = cache_holds w"
  proof (intro ext)
    fix c k x
    show "cache_holds w' c k x = cache_holds w c k x"
    proof (cases "hw_caches w c")
      case None
      then show ?thesis using R(7) [of c] by (simp add: cache_holds_def)
    next
      case (Some r)
      then obtain r' where "hw_caches w' c = Some r'" "link_skel r' = link_skel r" using R(7) [of c] by auto
      then show ?thesis using Some link_skelD(3) [of r' r k] by (simp add: cache_holds_def R(3) same_class_def)
    qed
  qed
qed

lemma detach_links_ok:
  assumes inv: "alloc_inv E live mapped M fr fl heads tls hl w"
  shows "\<exists>c w1. unlink_cache t 0 (hw_tls w t) w = Some (c, w1)
    \<and> (if c = 0 then w1 = w \<and> (\<nexists>pre c suf. thread_cache t w pre c suf)
       else own_cache w c \<noteq> None \<and> (\<exists>w2 tls' pre suf.
         set_cache c (\<lambda>c. c\<lparr>ch_accepting_remote := False\<rparr>) (cut_links t c w1) = Some w2
         \<and> rethreaded w w2 \<and> alloc_inv E live mapped M fr fl heads tls' hl w2
         \<and> thread_cache t w pre c suf \<and> linked (tnext w2) (hw_tls w2 t) (pre @ suf) \<and> hw_tls_last w2 t \<noteq> c
         \<and> (\<exists>r. hw_caches w2 c = Some r \<and> \<not> ch_accepting_remote r \<and> ch_tls_next r = 0)))"
proof -
  note T = tls_okD [OF threads_okD(1) [OF alloc_invD(3) [OF inv]]]
  have hd: "hw_tls w t = hd0 (tls t)" using T(1) [of t] by (cases "tls t") auto
  obtain c w1 where u: "unlink_cache t 0 (hw_tls w t) w = Some (c, w1)"
    "if c = 0 then w1 = w \<and> (\<forall>x \<in> set (tls t). own_cache w x = None)
       else own_cache w c \<noteq> None \<and> rethreaded w w1 \<and> hw_tls_last w1 = hw_tls_last w
         \<and> (\<forall>u. u \<noteq> t \<longrightarrow> hw_tls w1 u = hw_tls w u)
         \<and> (\<exists>ys zs. tls t = ys @ c # zs \<and> linked (tnext w1) (hw_tls w1 t) ([] @ ys @ zs)
               \<and> (\<forall>y \<in> set ys. own_cache w y = None)) \<and> tnext w1 c = Some 0
         \<and> (\<forall>x. x \<notin> set ([] @ tls t) \<longrightarrow> tnext w1 x = tnext w x)"
    using unlink_cache_ok [of w t "[]" "tls t" 0] T(1) [of t] hd by auto
  show ?thesis
  proof (cases "c = 0")
    case True
    have "False" if "thread_cache t w pre d suf" for pre d suf
    proof -
      have "pre @ d # suf = tls t" using that linked_unique [OF _ T(1) [of t]] by (simp add: thread_cache_def)
      then have "d \<in> set (tls t)" by (metis in_set_conv_decomp)
      then show False using that u(2) True by (simp add: thread_cache_def)
    qed
    then show ?thesis using u True by auto
  next
    case False
    then obtain ys zs where v: "own_cache w c \<noteq> None" "rethreaded w w1" "hw_tls_last w1 = hw_tls_last w"
      "\<And>u. u \<noteq> t \<Longrightarrow> hw_tls w1 u = hw_tls w u" "tls t = ys @ c # zs" "linked (tnext w1) (hw_tls w1 t) (ys @ zs)"
      "\<And>x. x \<notin> set (tls t) \<Longrightarrow> tnext w1 x = tnext w x"
      "\<forall>y \<in> set ys. own_cache w y = None" "tnext w1 c = Some 0"
      using u(2) by auto
    have tc: "thread_cache t w ys c zs" using T(1) [of t] v(1,5,8) by (simp add: thread_cache_def)
    obtain q where "hw_caches w c = Some q" using v(1) by (auto simp: own_cache_def split: option.splits)
    then obtain r where r: "hw_caches w1 c = Some r" using rethreadedD(7) [OF v(2), of c] by auto
    let ?r = "r\<lparr>ch_accepting_remote := False\<rparr>" and ?v = "cut_links t c w1"
    define w2 where "w2 = ?v\<lparr>hw_caches := (hw_caches w1)(c \<mapsto> ?r)\<rparr>"
    have cv: "hw_caches ?v = hw_caches w1" by (simp add: cut_links_def)
    have run: "set_cache c (\<lambda>c. c\<lparr>ch_accepting_remote := False\<rparr>) ?v = Some w2"
      using r by (simp add: set_cache_def w2_def cv)
    have re: "rethreaded w w2"
      by (rule rethreaded_trans [OF v(2)]) (simp add: rethreaded_def w2_def cut_links_def r link_skel_def)
    define tls' where "tls' = tls(t := ys @ zs)"
    have dist: "distinct (ys @ c # zs)" using linked_distinct [OF T(1) [of t]] v(5) by simp
    have tn: "tnext w2 x = tnext w1 x" for x using r by (simp add: tnext_def w2_def)
    have tl: "hw_tls w2 = hw_tls w1" "hw_tls_last w2 = (hw_tls_last w)(t := (if hw_tls_last w t = c then 0 else hw_tls_last w t))"
      using v(3) by (simp_all add: w2_def cut_links_def fun_eq_iff)
    have "tls_ok tls' w2"
      unfolding tls_ok_def
    proof (intro conjI allI impI)
      fix s
      show "linked (tnext w2) (hw_tls w2 s) (tls' s)"
      proof (cases "s = t")
        case True
        then show ?thesis using linked_cong [OF v(6) tn] by (simp add: tls'_def tl(1))
      next
        case no: False
        then have "x \<notin> set (tls t)" if "x \<in> set (tls s)" for x using T(3) that by blast
        then have "linked (tnext w1) (hw_tls w s) (tls s)" using v(7) by (intro linked_cong [OF T(1)]) blast
        then show ?thesis using linked_cong [OF _ tn] no v(4) by (simp add: tls'_def tl(1))
      qed
      show "hw_tls_last w2 s = 0 \<or> hw_tls_last w2 s \<in> set (tls' s)"
        using T(2) [of s] T(2) [of t] v(5) by (auto simp: tl(2) tls'_def)
    next
      fix s s' x assume "x \<in> set (tls' s)" "x \<in> set (tls' s')"
      then have "x \<in> set (tls s)" "x \<in> set (tls s')" using v(5) by (auto simp: tls'_def split: if_splits)
      then show "s = s'" by (rule T(3))
    qed
    then have "alloc_inv E live mapped M fr fl heads tls' hl w2" by (rule rethreaded_inv [OF inv re])
    moreover have "linked (tnext w2) (hw_tls w2 t) (ys @ zs)" using linked_cong [OF v(6) tn] by (simp add: tl(1))
    moreover have "hw_tls_last w2 t \<noteq> c" using False by (simp add: tl(2))
    moreover have "hw_caches w2 c = Some ?r \<and> \<not> ch_accepting_remote ?r \<and> ch_tls_next ?r = 0"
      using v(9) r by (simp add: w2_def tnext_def)
    ultimately show ?thesis using u(1) False v(1) run re tc by auto
  qed
qed

lemma detach_ok:
  assumes c: "env_contract E live mapped" and h: "heap_ok E live mapped w" and o: "objects w A"
  shows "\<exists>w'. memx_heap_thread_detach t (hp_self (hw_heap w)) w = Some w' \<and> heap_ok E live mapped w'
    \<and> objects w' A \<and> same_heap w w' \<and> detached t w w'"
proof -
  obtain M fr fl heads tls hl ws ch where H: "alloc_inv E live mapped M fr fl heads tls hl w"
    "\<And>j. fl (Hand j) = []" "large_part E M fr ws ch {} w" "sizes_ok w" "hp_self (hw_heap w) \<noteq> 0"
    by (rule heap_okE [OF h]) blast
  obtain d w1 where u: "unlink_cache t 0 (hw_tls w t) w = Some (d, w1)"
    "if d = 0 then w1 = w \<and> (\<nexists>pre c suf. thread_cache t w pre c suf)
       else own_cache w d \<noteq> None \<and> (\<exists>w2 tls' pre suf.
         set_cache d (\<lambda>c. c\<lparr>ch_accepting_remote := False\<rparr>) (cut_links t d w1) = Some w2
         \<and> rethreaded w w2 \<and> alloc_inv E live mapped M fr fl heads tls' hl w2
         \<and> thread_cache t w pre d suf \<and> linked (tnext w2) (hw_tls w2 t) (pre @ suf) \<and> hw_tls_last w2 t \<noteq> d
         \<and> (\<exists>r. hw_caches w2 d = Some r \<and> \<not> ch_accepting_remote r \<and> ch_tls_next r = 0))"
    using detach_links_ok [OF H(1)] by blast
  show ?thesis
  proof (cases "d = 0")
    case True
    then have "memx_heap_thread_detach t (hp_self (hw_heap w)) w = Some w"
      using u H(5) by (simp add: memx_heap_thread_detach_def)
    moreover have "detached t w w" using u(2) True by (simp add: detached_def)
    ultimately show ?thesis using h o by simp
  next
    case False
    then obtain w2 tls' pre suf q where v: "own_cache w d \<noteq> None"
      "set_cache d (\<lambda>c. c\<lparr>ch_accepting_remote := False\<rparr>) (cut_links t d w1) = Some w2"
      "rethreaded w w2" "alloc_inv E live mapped M fr fl heads tls' hl w2"
      "thread_cache t w pre d suf" "linked (tnext w2) (hw_tls w2 t) (pre @ suf)" "hw_tls_last w2 t \<noteq> d"
      "hw_caches w2 d = Some q" "\<not> ch_accepting_remote q" "ch_tls_next q = 0" using u(2) by auto
    note R = rethreadedD [OF v(3)] and I = alloc_invD [OF v(4)]
    obtain r where r: "own_cache w2 d = Some r" using rethreaded_own [OF v(3), of d] v(1) by auto
    obtain w3 w' fl' heads' r' where e: "absorb_remote d 0 19 w2 = Some w3" "flush_classes d 0 19 w3 = Some w'"
      "bins_part (class_of (hw_heap w2)) fl' heads' w'" "caches_part fl' {} w'" "moved w2 w'" "\<forall>j. fl' (Hand j) = []"
      "own_cache w' d = Some r'" "cache_empty r'"
      "\<forall>k < 19. \<forall>x. bin_holds w' k x \<longleftrightarrow> bin_holds w2 k x \<or> cache_holds w2 d k x"
      using empty_cache_ok [OF small_invD(4) [OF I(1)] I(2) r H(2)] by blast
    have run: "memx_heap_thread_detach t (hp_self (hw_heap w)) w = Some w'"
      using H(5) u(1) False v(2) [unfolded cut_links_def] e(1,2)
      by (simp add: memx_heap_thread_detach_def Let_def)
    have sk: "cache_skel r' = cache_skel q"
      using moved_caches(2) [OF e(5) v(8)] own_cacheD(1) [OF e(7)] by (metis option.inject)
    have mt: "hw_tls w' = hw_tls w2" "hw_tls_last w' = hw_tls_last w2" "tnext w' = tnext w2"
    proof -
      show "hw_tls w' = hw_tls w2" "hw_tls_last w' = hw_tls_last w2" using e(5) unfolding moved_def by blast+
      show "tnext w' = tnext w2"
      proof (rule skel_nexts(1))
        show "map_option cache_skel (hw_caches w' c) = map_option cache_skel (hw_caches w2 c)" for c
          using e(5) unfolding moved_def by blast
      qed (rule moved_self [OF e(5)])
    qed
    have dt: "detached t w w'"
      unfolding detached_def
    proof (intro conjI allI impI)
      fix p c s assume "thread_cache t w p c s"
      from thread_cache_unique [OF this v(5)] have pcs: "p = pre" "c = d" "s = suf" by simp_all
      show "linked (tnext w') (hw_tls w' t) (p @ s)" "hw_tls_last w' t \<noteq> c" using v(6,7) by (simp_all add: pcs mt)
      show "\<exists>r. own_cache w' c = Some r \<and> cache_empty r \<and> \<not> ch_accepting_remote r \<and> ch_tls_next r = 0"
        using e(7,8) cache_skelD [OF sk] v(9,10) by (simp add: pcs)
      show "bin_holds w' k x = (bin_holds w k x \<or> cache_holds w c k x)" if "k < 19" for k x
        using e(9) that by (simp add: pcs rethreaded_holds [OF v(3)])
    qed (use v(5) in blast)
    note sf = small_frame_moved [OF small_invD(1) [OF I(1)] e(5)]
    have ai: "alloc_inv E live mapped M fr fl' heads' tls' hl w'"
      by (rule alloc_small_frame [OF v(4) sf small_inv_moved [OF I(1) e(5,3)] e(4)])
    have af: "alloc_frame w2 w'" by (rule small_alloc_frame [OF sf])
    note F = small_at_frame [OF af alloc_states [OF v(4)]]
    have s2: "small_at w2 = small_at w" by (simp add: small_at_def R(3) fun_eq_iff)
    have f: "outer (hw_heap w') = outer (hw_heap w)" "hw_larges w' = hw_larges w"
      "\<And>q. \<not> in_arena (hw_heap w) q \<Longrightarrow> hw_bytes w' q = hw_bytes w q"
      "small_at w' = small_at w" "\<And>q. small_at w q \<noteq> None \<Longrightarrow> hw_bytes w' q = hw_bytes w q"
      using af F R(1,3,4,6) s2 by (simp_all add: alloc_frame_def)
    note L = large_part_small [OF c H(3) map_le_refl f(1-3)]
    have so: "sizes_ok w'" using H(4) f(5) unfolding sizes_ok_def f(4) by (metis option.distinct(1))
    have hp: "hp_self (hw_heap w') \<noteq> 0" unfolding arena_fields(1) [OF f(1)] by (rule H(5))
    have ok: "heap_ok E live mapped w'" by (rule heap_okI [OF ai e(6) L(1) so hp])
    have sz: "size_at w' = size_at w" by (simp add: size_at_def f(4) L(2) fun_eq_iff)
    have "hw_bytes w' q = hw_bytes w q" if q: "size_at w q m" for q m
    proof (cases "small_at w q = None")
      case True
      then have "large_at w q m" using q by (simp add: size_at_def)
      then show ?thesis using f(3) large_live(1) [OF c H(3)] by blast
    qed (rule f(5))
    then have "objects w' A" by (intro objects_same [OF o]) (simp_all add: sz)
    then show ?thesis using run ok same_heap_outer [OF f(1)] dt by blast
  qed
qed

end
