(* ===== verification/Memx_Sequences.thy ===== *)
theory Memx_Sequences
  imports Memx_Separation Memx_Detach
begin

text \<open>
  Sequences of calls by several threads, against the abstract heap: a partial function from the
  address of an object to its bytes.  A call is one step, as the locks of the code make it; a
  sequence lists the steps of all threads in the order they take effect.
\<close>

section \<open>Calls\<close>

text \<open>\<open>Write_Call p i b\<close> is the client storing a byte at offset \<open>i\<close> of the object at \<open>p\<close>, when there
  is such an object and such an offset.\<close>

datatype heap_call =
    Malloc_Call u64 | Aligned_Call u64 u64 | Calloc_Call u64 u64 | Free_Call u64 | Realloc_Call u64 u64
  | Size_Call u64 | Write_Call u64 nat u8 | Detach_Call

datatype heap_answer = Pointer u64 | Flag bool | Size u64 | Done

definition client_write :: "u64 \<Rightarrow> nat \<Rightarrow> u8 \<Rightarrow> 'c heap_world \<Rightarrow> 'c heap_world option" where
  "client_write p i b w = do {
     n \<leftarrow> memx_heap_requested_size p w;
     if unat n \<le> i then Some w
     else do {
       pl \<leftarrow> hw_bytes w p;
       Some (w\<lparr>hw_bytes := (hw_bytes w)(p \<mapsto> pl\<lparr>pl_bytes := (pl_bytes pl)(i := b)\<rparr>)\<rparr>)
     }
   }"

fun heap_step ::
  "'c heap_env \<Rightarrow> nat \<Rightarrow> heap_call \<Rightarrow> 'c heap_world \<Rightarrow> (heap_answer \<times> 'c heap_world) option" where
  "heap_step E t (Malloc_Call n) w =
     map_option (apfst Pointer) (memx_heap_malloc E t (hp_self (hw_heap w)) n w)"
| "heap_step E t (Aligned_Call al n) w =
     map_option (apfst Pointer) (memx_heap_aligned_alloc E t (hp_self (hw_heap w)) al n w)"
| "heap_step E t (Calloc_Call n sz) w =
     map_option (apfst Pointer) (memx_heap_calloc E t (hp_self (hw_heap w)) n sz w)"
| "heap_step E t (Free_Call p) w = map_option (apfst Flag) (memx_heap_free E t (hp_self (hw_heap w)) p w)"
| "heap_step E t (Realloc_Call p n) w =
     map_option (apfst Pointer) (memx_heap_realloc E t (hp_self (hw_heap w)) p n w)"
| "heap_step E t (Size_Call p) w = map_option (\<lambda>n. (Size n, w)) (memx_heap_requested_size p w)"
| "heap_step E t (Write_Call p i b) w = map_option (Pair Done) (client_write p i b w)"
| "heap_step E t Detach_Call w = map_option (Pair Done) (memx_heap_thread_detach t (hp_self (hw_heap w)) w)"

fun heap_run ::
  "'c heap_env \<Rightarrow> (nat \<times> heap_call) list \<Rightarrow> 'c heap_world \<Rightarrow> (heap_answer list \<times> 'c heap_world) option" where
  "heap_run E [] w = Some ([], w)"
| "heap_run E ((t, c) # cs) w = do {
     (a, w) \<leftarrow> heap_step E t c w;
     (as, w) \<leftarrow> heap_run E cs w;
     Some (a # as, w)
   }"

section \<open>The abstract heap\<close>

type_synonym objects = "u64 \<rightharpoonup> u8 list"

definition calloced :: "objects \<Rightarrow> u64 \<Rightarrow> u64 \<Rightarrow> u64 \<Rightarrow> objects \<Rightarrow> bool" where
  "calloced A count sz p A' \<longleftrightarrow> (if p = 0 then A' = A
     else A p = None \<and> unat count * unat sz < 2 ^ 64
       \<and> (\<exists>bs. A' = A(p \<mapsto> bs) \<and> length bs = unat (request (count * sz))
            \<and> take (unat count * unat sz) bs = replicate (unat count * unat sz) 0))"

text \<open>\<open>heap_spec c A a A'\<close>: call \<open>c\<close> on the objects \<open>A\<close> may answer \<open>a\<close> and leave \<open>A'\<close>.\<close>

fun heap_spec :: "heap_call \<Rightarrow> objects \<Rightarrow> heap_answer \<Rightarrow> objects \<Rightarrow> bool" where
  "heap_spec (Malloc_Call n) A a A' \<longleftrightarrow>
     (\<exists>p. a = Pointer p \<and> allocated A (request n) p A' \<and> 16 dvd unat p)"
| "heap_spec (Aligned_Call al n) A a A' \<longleftrightarrow> (\<exists>p. a = Pointer p \<and> allocated A (request n) p A'
     \<and> (if 8 \<le> unat al \<and> (\<exists>k. unat al = 2 ^ k) then unat al dvd unat p else p = 0))"
| "heap_spec (Calloc_Call n sz) A a A' \<longleftrightarrow> (\<exists>p. a = Pointer p \<and> calloced A n sz p A')"
| "heap_spec (Free_Call p) A a A' \<longleftrightarrow> a = Flag (p = 0 \<or> A p \<noteq> None) \<and> A' = A(p := None)"
| "heap_spec (Realloc_Call p n) A a A' \<longleftrightarrow> (\<exists>q. a = Pointer q
     \<and> (if p = 0 then allocated A (request n) q A' else if n = 0 then q = 0 \<and> A' = A(p := None)
        else reallocated A p n q A'))"
| "heap_spec (Size_Call p) A a A' \<longleftrightarrow> (\<exists>n. a = Size n \<and> unat n = object_size A p \<and> A' = A)"
| "heap_spec (Write_Call p i b) A a A' \<longleftrightarrow> a = Done
     \<and> A' = (case A p of Some bs \<Rightarrow> A(p \<mapsto> bs[i := b]) | None \<Rightarrow> A)"
| "heap_spec Detach_Call A a A' \<longleftrightarrow> a = Done \<and> A' = A"

fun heap_specs :: "(nat \<times> heap_call) list \<Rightarrow> objects \<Rightarrow> heap_answer list \<Rightarrow> objects \<Rightarrow> bool" where
  "heap_specs [] A as A' \<longleftrightarrow> as = [] \<and> A' = A"
| "heap_specs ((t, c) # cs) A as A' \<longleftrightarrow>
     (\<exists>a as' B. as = a # as' \<and> heap_spec c A a B \<and> heap_specs cs B as' A')"

section \<open>One step\<close>

lemma write_ok:
  assumes c: "env_contract E live mapped" and h: "heap_ok E live mapped w" and o: "objects w A"
  shows "\<exists>w'. client_write p i b w = Some w' \<and> heap_ok E live mapped w' \<and> same_heap w w'
    \<and> objects w' (case A p of Some bs \<Rightarrow> A(p \<mapsto> bs[i := b]) | None \<Rightarrow> A)"
proof -
  obtain n where n: "memx_heap_requested_size p w = Some n" "unat n = object_size A p"
    using requested_size_ok [OF c h o] by blast
  show ?thesis
  proof (cases "unat n \<le> i")
    case True
    have "(case A p of Some bs \<Rightarrow> A(p \<mapsto> bs[i := b]) | None \<Rightarrow> A) = A"
      using n(2) True by (cases "A p") (simp_all add: object_size_def list_update_beyond fun_upd_idem)
    then show ?thesis using n(1) True h o by (simp add: client_write_def)
  next
    case False
    then obtain bs where bs: "A p = Some bs" "length bs = unat n"
      using n(2) by (cases "A p") (simp_all add: object_size_def)
    then obtain m pl where m: "size_at w p m" "hw_bytes w p = Some pl" "bs = map (pl_bytes pl) [0 ..< unat m]"
      using o by (auto simp: objects_def object_at_def)
    let ?pl = "pl\<lparr>pl_bytes := (pl_bytes pl)(i := b)\<rparr>"
    have e: "map (pl_bytes ?pl) [0 ..< unat m] = bs[i := b]"
      by (rule nth_equalityI) (use False bs m(3) in \<open>auto simp: nth_list_update\<close>)
    note W = write_object [OF c h o m(1,2), of ?pl]
    show ?thesis using n(1) False m(2) W(1,2) bs(1) unfolding e by (simp add: client_write_def same_heap_def)
  qed
qed

lemma objects_null:
  assumes "env_contract E live mapped" "heap_ok E live mapped w" "objects w A"
  shows "A 0 = None"
  using size_facts(1) [OF assms(1,2)] objects_size(3) [OF assms, of 0] by blast

lemma heap_step_ok:
  assumes c: "env_contract E live mapped" and h: "heap_ok E live mapped w" and o: "objects w A"
  shows "\<exists>a w' A'. heap_step E t call w = Some (a, w') \<and> heap_ok E live mapped w' \<and> objects w' A'
    \<and> same_heap w w' \<and> heap_spec call A a A'"
proof (cases call)
  case (Malloc_Call n)
  obtain p w' A' where "memx_heap_malloc E t (hp_self (hw_heap w)) n w = Some (p, w')" "heap_ok E live mapped w'"
    "objects w' A'" "same_heap w w'" "allocated A (request n) p A'" "16 dvd unat p" using malloc_ok [OF c h o] by blast
  then show ?thesis unfolding Malloc_Call by (intro exI [of _ "Pointer p"] exI [of _ w'] exI [of _ A']) simp
next
  case (Aligned_Call al n)
  obtain p w' A' where "memx_heap_aligned_alloc E t (hp_self (hw_heap w)) al n w = Some (p, w')" "heap_ok E live mapped w'"
    "objects w' A'" "same_heap w w'" "allocated A (request n) p A'"
    "if 8 \<le> unat al \<and> (\<exists>k. unat al = 2 ^ k) then unat al dvd unat p else p = 0 \<and> w' = w"
    using aligned_alloc_ok [OF c h o] by blast
  then show ?thesis unfolding Aligned_Call
    by (intro exI [of _ "Pointer p"] exI [of _ w'] exI [of _ A']) (auto split: if_splits)
next
  case (Calloc_Call n sz)
  obtain p w' A' where r: "memx_heap_calloc E t (hp_self (hw_heap w)) n sz w = Some (p, w')" "heap_ok E live mapped w'"
    "objects w' A'" "same_heap w w'" and e: "if p = 0 then A' = A
       else A p = None \<and> unat n * unat sz < 2 ^ 64 \<and> 16 dvd unat p
         \<and> (\<exists>bs. A' = A(p \<mapsto> bs) \<and> length bs = unat (request (n * sz))
              \<and> take (unat n * unat sz) bs = replicate (unat n * unat sz) 0)"
    using calloc_ok [OF c h o] by blast
  have "calloced A n sz p A'" using e by (simp add: calloced_def split: if_splits)
  with r show ?thesis unfolding Calloc_Call by (intro exI [of _ "Pointer p"] exI [of _ w'] exI [of _ A']) simp
next
  case (Free_Call p)
  show ?thesis
  proof (cases "p = 0")
    case True
    have "A(0 := None) = A" using objects_null [OF c h o] by (simp add: fun_upd_idem)
    then show ?thesis using True h o unfolding Free_Call
      by (intro exI [of _ "Flag True"] exI [of _ w] exI [of _ A]) (simp add: memx_heap_free_def)
  next
    case False
    obtain w' where "memx_heap_free E t (hp_self (hw_heap w)) p w = Some (A p \<noteq> None, w')" "heap_ok E live mapped w'"
      "objects w' (A(p := None))" "same_heap w w'" using free_ok [OF c h o False] by blast
    then show ?thesis using False unfolding Free_Call
      by (intro exI [of _ "Flag (A p \<noteq> None)"] exI [of _ w'] exI [of _ "A(p := None)"]) simp
  qed
next
  case (Realloc_Call p n)
  have hp: "hp_self (hw_heap w) \<noteq> 0" using h by (simp add: heap_ok_def)
  show ?thesis
  proof (cases "p = 0")
    case True
    have go: "memx_heap_realloc E t (hp_self (hw_heap w)) p n w = memx_heap_malloc E t (hp_self (hw_heap w)) n w"
      using hp True by (simp add: memx_heap_realloc_def)
    obtain q w' A' where "memx_heap_malloc E t (hp_self (hw_heap w)) n w = Some (q, w')" "heap_ok E live mapped w'"
      "objects w' A'" "same_heap w w'" "allocated A (request n) q A'" using malloc_ok [OF c h o] by blast
    then show ?thesis using go True unfolding Realloc_Call
      by (intro exI [of _ "Pointer q"] exI [of _ w'] exI [of _ A']) simp
  next
    case p0: False
    show ?thesis
    proof (cases "n = 0")
      case True
      obtain w' where "memx_heap_free E t (hp_self (hw_heap w)) p w = Some (A p \<noteq> None, w')" "heap_ok E live mapped w'"
        "objects w' (A(p := None))" "same_heap w w'" using free_ok [OF c h o p0] by blast
      moreover from this have "memx_heap_realloc E t (hp_self (hw_heap w)) p n w = Some (0, w')"
        using hp p0 True by (simp add: memx_heap_realloc_def)
      ultimately show ?thesis using p0 True unfolding Realloc_Call
        by (intro exI [of _ "Pointer 0"] exI [of _ w'] exI [of _ "A(p := None)"]) simp
    next
      case False
      obtain q w' A' where "memx_heap_realloc E t (hp_self (hw_heap w)) p n w = Some (q, w')" "heap_ok E live mapped w'"
        "objects w' A'" "same_heap w w'" "reallocated A p n q A'" using realloc_ok [OF c h o p0 False] by blast
      then show ?thesis using p0 False unfolding Realloc_Call
        by (intro exI [of _ "Pointer q"] exI [of _ w'] exI [of _ A']) simp
    qed
  qed
next
  case (Size_Call p)
  obtain n where "memx_heap_requested_size p w = Some n" "unat n = object_size A p"
    using requested_size_ok [OF c h o] by blast
  then show ?thesis using h o unfolding Size_Call by (intro exI [of _ "Size n"] exI [of _ w] exI [of _ A]) simp
next
  case (Write_Call p i b)
  show ?thesis using write_ok [OF c h o, of p i b] unfolding Write_Call by auto
next
  case Detach_Call
  show ?thesis using detach_ok [OF c h o, of t] unfolding Detach_Call by auto
qed

section \<open>Runs\<close>

lemma heap_run_ok:
  assumes c: "env_contract E live mapped" and h: "heap_ok E live mapped w" and o: "objects w A"
  shows "\<exists>as w' A'. heap_run E cs w = Some (as, w') \<and> heap_ok E live mapped w' \<and> objects w' A'
    \<and> same_heap w w' \<and> heap_specs cs A as A'"
  using h o
proof (induction cs arbitrary: w A)
  case Nil
  then show ?case by simp
next
  case (Cons tc cs)
  obtain t call where tc: "tc = (t, call)" by fastforce
  obtain a w1 A1 where 1: "heap_step E t call w = Some (a, w1)" "heap_ok E live mapped w1" "objects w1 A1"
    "same_heap w w1" "heap_spec call A a A1" using heap_step_ok [OF c Cons.prems] by blast
  obtain as w2 A2 where 2: "heap_run E cs w1 = Some (as, w2)" "heap_ok E live mapped w2" "objects w2 A2"
    "same_heap w1 w2" "heap_specs cs A1 as A2" using Cons.IH [OF 1(2,3)] by blast
  have "heap_run E (tc # cs) w = Some (a # as, w2)" using 1(1) 2(1) by (simp add: tc)
  moreover have "heap_specs (tc # cs) A (a # as) A2" using 1(5) 2(5) by (auto simp: tc)
  ultimately show ?case using 2(2,3) same_heap_trans [OF 1(4) 2(4)] by blast
qed

lemma heap_run_append:
  "heap_run E (cs @ ds) w = do {
     (as, w) \<leftarrow> heap_run E cs w;
     (bs, w) \<leftarrow> heap_run E ds w;
     Some (as @ bs, w)
   }"
proof (induction cs arbitrary: w)
  case Nil
  then show ?case by (cases "heap_run E ds w") auto
next
  case (Cons tc cs)
  obtain t call where tc: "tc = (t, call)" by fastforce
  show ?case
  proof (cases "heap_step E t call w")
    case (Some r)
    obtain a w1 where r: "r = (a, w1)" by fastforce
    show ?thesis
    proof (cases "heap_run E cs w1")
      case None
      then show ?thesis using Some r Cons.IH [of w1] by (simp add: tc)
    next
      case s: (Some q)
      obtain as w2 where q: "q = (as, w2)" by fastforce
      then show ?thesis using Some r s Cons.IH [of w1] by (cases "heap_run E ds w2") (auto simp: tc)
    qed
  qed (simp add: tc)
qed

end
