(* ===== verification/Memx_Birth.thy ===== *)
theory Memx_Birth
  imports Memx_Realloc
begin

text \<open>
  The creation of a heap: \<^const>\<open>memx_heap_create\<close> returns, and either every block and every mapped
  page is given back, or the new heap satisfies the invariant of the allocator and has no objects.
\<close>

section \<open>The configuration\<close>

lemma heap_config_facts:
  assumes "heap_config_valid sys cfg"
  defines "k \<equiv> unat (hc_span_shift cfg)"
  shows "k < 64" "12 \<le> k" "unat (push_bit k (1 :: u64)) = 2 ^ k" "64 + 8208 \<le> (2 :: nat) ^ k"
    "page_bytes sys dvd 2 ^ k" "2 ^ k dvd unat (hc_reserve_size cfg)" "hc_reserve_size cfg \<noteq> 0"
    "hc_cache_batch cfg \<noteq> 0" "unat (hc_cache_batch cfg) \<le> 4294967295" "2 \<le> unat (hc_cache_limit cfg)"
proof -
  have v: "\<not> 64 \<le> hc_span_shift cfg" "hc_cache_batch cfg \<noteq> 0" "\<not> UINT32_MAX < hc_cache_batch cfg"
      "\<not> hc_cache_limit cfg < 2" "push_bit k (1 :: u64) mod memx_os_page_size sys = 0"
      "\<not> push_bit k (1 :: u64) < span_header_size" "\<not> push_bit k (1 :: u64) - span_header_size < block_stride 18"
      "hc_reserve_size cfg \<noteq> 0" "hc_reserve_size cfg mod push_bit k (1 :: u64) = 0"
    using assms(1) by (simp_all add: heap_config_valid_def Let_def k_def del: push_bit_of_1)
  show k: "k < 64" using v(1) by (simp add: k_def word_le_nat_alt)
  then show s: "unat (push_bit k (1 :: u64)) = 2 ^ k" by (simp add: unat_pow2)
  have "unat span_header_size = 64"
    by (simp add: span_header_size_def memx_heap_align_up_def sizeof_span_def max_align_def)
  moreover have "unat (block_stride 18) = 8208" by code_simp
  moreover have "unat (push_bit k (1 :: u64) - span_header_size) = unat (push_bit k (1 :: u64)) - unat span_header_size"
    by (rule unat_sub) (use v(6) in \<open>simp add: not_less\<close>)
  ultimately show big: "64 + 8208 \<le> (2 :: nat) ^ k"
    using v(6,7) s by (simp add: word_less_nat_alt del: push_bit_of_1)
  show "12 \<le> k"
  proof (rule ccontr)
    assume "\<not> 12 \<le> k"
    then have "(2 :: nat) ^ k \<le> 2 ^ 12" by (intro power_increasing) simp_all
    then show False using big by simp
  qed
  have "unat (push_bit k (1 :: u64) mod memx_os_page_size sys) = 0" using v(5) by simp
  then show "page_bytes sys dvd 2 ^ k" unfolding unat_mod s page_bytes_def by (simp add: mod_eq_0_iff_dvd)
  have "unat (hc_reserve_size cfg mod push_bit k (1 :: u64)) = 0" using v(9) by simp
  then show "2 ^ k dvd unat (hc_reserve_size cfg)" unfolding unat_mod s by (simp add: mod_eq_0_iff_dvd)
  show "hc_cache_batch cfg \<noteq> 0" "hc_reserve_size cfg \<noteq> 0" using v by simp_all
  show "unat (hc_cache_batch cfg) \<le> 4294967295"
    using v(3) by (simp add: not_less word_le_nat_alt UINT32_MAX_def)
  show "2 \<le> unat (hc_cache_limit cfg)" using v(4) by (simp add: not_less word_le_nat_alt)
qed

section \<open>Locks\<close>

lemma class_locks_frame:
  assumes "env_contract E live mapped"
  shows "init_class_locks E i n c = (ok, locks, c') \<Longrightarrow> live c' = live c \<and> mapped c' = mapped c"
proof (induction n arbitrary: i c)
  case (Suc n)
  then show ?case
    using env_contractD(5,6) [OF assms, of c]
    by (cases "he_mutex_init E c") (auto simp: Let_def split: if_splits)
qed simp

lemma init_locks_frame:
  assumes e: "env_contract E live mapped" and run: "memx_heap_init_locks E c = (ok, locks, c')"
  shows "live c' = live c" "mapped c' = mapped c"
proof -
  obtain b1 c1 b2 c2 where m: "he_mutex_init E c = (b1, c1)" "he_mutex_init E c1 = (b2, c2)" by fastforce
  have l: "live c1 = live c" "mapped c1 = mapped c" "live c2 = live c" "mapped c2 = mapped c"
    using env_contractD(5,6) [OF e, of c] env_contractD(5,6) [OF e, of c1] m by simp_all
  have "live c' = live c \<and> mapped c' = mapped c"
    using run m l class_locks_frame [OF e, of 0 19 c2] env_contractD(7,8) [OF e, of c2]
    by (auto simp: memx_heap_init_locks_def split: if_splits)
  then show "live c' = live c" "mapped c' = mapped c" by simp_all
qed

lemma destroy_locks_frame:
  assumes e: "env_contract E live mapped"
  shows "live (memx_heap_destroy_locks E n c) = live c" "mapped (memx_heap_destroy_locks E n c) = mapped c"
proof -
  have "live ((he_mutex_destroy E ^^ i) c) = live c \<and> mapped ((he_mutex_destroy E ^^ i) c) = mapped c" for i
    by (induction i) (simp_all add: env_contractD(7,8) [OF e])
  then show "live (memx_heap_destroy_locks E n c) = live c" "mapped (memx_heap_destroy_locks E n c) = mapped c"
    by (simp_all add: memx_heap_destroy_locks_def env_contractD(7,8) [OF e])
qed

section \<open>Steps on the memory\<close>

text \<open>The C heap holds exactly \<open>h\<close>, the mapped bytes are \<open>M\<close>.\<close>

definition holding ::
  "'c heap_env \<Rightarrow> ('c \<Rightarrow> u64 set) \<Rightarrow> ('c \<Rightarrow> nat set) \<Rightarrow> nat set \<Rightarrow> (u64 \<rightharpoonup> memx_object) \<Rightarrow> 'c memx_world \<Rightarrow> bool" where
  "holding E live mapped M h m \<longleftrightarrow> world_ok (he_allocator E) (tagged live mapped M) m \<and> heap m = h"

lemma holding_ctx:
  assumes e: "env_contract E live mapped" and h: "holding E live mapped M h m" and c: "live c = live (ctx m)"
  shows "holding E live mapped (mapped c) h (m\<lparr>ctx := c\<rparr>)"
proof -
  have "world_ok (he_allocator E) live m" using h world_tagged [OF e] by (simp add: holding_def)
  then have "world_ok (he_allocator E) live (m\<lparr>ctx := c\<rparr>)" using c by (simp add: world_ok_def)
  then show ?thesis using h world_tagged [OF e] by (simp add: holding_def)
qed

lemma holding_mapped:
  assumes "env_contract E live mapped" "holding E live mapped M h m"
  shows "mapped (ctx m) = M"
  using world_tagged [OF assms(1)] assms(2) by (simp add: holding_def)

lemma holding_null: "holding E live mapped M h m \<Longrightarrow> h 0 = None"
  by (auto simp: holding_def world_ok_def)

lemma holding_malloc:
  assumes "holding E live mapped M h m"
  shows "\<exists>p m'. c_malloc (he_allocator E) n m = Some (p, m')
    \<and> (if p = 0 then holding E live mapped M h m'
       else h p = None \<and> holding E live mapped M (h(p \<mapsto> RawBlock n)) m')"
  using assms unfolding holding_def c_malloc_def
  by (auto elim!: call_allocate_cases [where n = n, of _ _ m])

lemma holding_free:
  assumes "holding E live mapped M h m" "p = 0 \<or> h p \<noteq> None"
  shows "\<exists>m'. c_free (he_allocator E) p m = Some m' \<and> holding E live mapped M (h(p := None)) m'"
proof (cases "p = 0")
  case True
  have "h 0 = None" using assms(1) by (rule holding_null)
  then show ?thesis using True assms(1) by (simp add: c_free_def fun_upd_idem)
next
  case False
  obtain m' where "memx_deallocate (he_allocator E) p m = Some m'" "heap m' = (heap m)(p := None)"
    "world_ok (he_allocator E) (tagged live mapped M) m'"
    by (rule memx_deallocate_ok) (use assms False in \<open>auto simp: holding_def\<close>)
  then show ?thesis using False assms(1) by (simp add: c_free_def holding_def)
qed

lemma abandon_ok:
  assumes e: "env_contract E live mapped" and h: "holding E live mapped M h (hw_mem w)"
    and p: "h p \<noteq> None" "classes = 0 \<or> h classes \<noteq> None \<and> classes \<noteq> p"
  shows "\<exists>m. abandon_heap E p classes locks w = Some (w\<lparr>hw_mem := m\<rparr>)
    \<and> holding E live mapped M (h(classes := None, p := None)) m"
proof -
  obtain m1 where 1: "c_free (he_allocator E) classes (hw_mem w) = Some m1"
    "holding E live mapped M (h(classes := None)) m1"
    using holding_free [OF h] p(2) by blast
  let ?c = "memx_heap_destroy_locks E locks (ctx m1)"
  have 2: "holding E live mapped M (h(classes := None)) (m1\<lparr>ctx := ?c\<rparr>)"
    using holding_ctx [OF e 1(2), of ?c] destroy_locks_frame [OF e] holding_mapped [OF e 1(2)] by simp
  have 0: "h 0 = None" using h by (rule holding_null)
  have ne: "classes \<noteq> p" using p 0 by auto
  then have pn: "(h(classes := None)) p \<noteq> None" using p(1) by simp
  obtain m2 where "c_free (he_allocator E) p (m1\<lparr>ctx := ?c\<rparr>) = Some m2"
    "holding E live mapped M (h(classes := None, p := None)) m2"
    using holding_free [OF 2, of p] pn by blast
  then show ?thesis using 1(1) by (intro exI [of _ m2]) (simp add: abandon_heap_def upd_ctx_def)
qed


section \<open>The new heap\<close>

definition fresh_world ::
  "'c heap_env \<Rightarrow> ('c \<Rightarrow> u64 set) \<Rightarrow> 'c heap_world \<Rightarrow> bool" where
  "fresh_world E live w \<longleftrightarrow> world_ok (he_allocator E) live (hw_mem w) \<and> hw_blocks w = Map.empty
     \<and> hw_bytes w = Map.empty \<and> hw_spans w = Map.empty \<and> hw_larges w = Map.empty
     \<and> hw_caches w = Map.empty \<and> hw_tls w = (\<lambda>t. 0) \<and> hw_tls_last w = (\<lambda>t. 0)"

lemma fresh_worldD:
  assumes "fresh_world E live w"
  shows "world_ok (he_allocator E) live (hw_mem w)" "hw_blocks w = Map.empty" "hw_bytes w = Map.empty"
    "hw_spans w = Map.empty" "hw_larges w = Map.empty" "hw_caches w = Map.empty"
    "hw_tls w = (\<lambda>t. 0)" "hw_tls_last w = (\<lambda>t. 0)"
  using assms by (simp_all add: fresh_world_def)

definition born_heap :: "'c sys_calls \<Rightarrow> memx_heap_config \<Rightarrow> u64 \<times> u64 \<Rightarrow> 'c memx_heap \<Rightarrow> bool" where
  "born_heap sys cfg arena h \<longleftrightarrow> hp_self h \<noteq> 0 \<and> hp_config h = cfg \<and> hp_arena h = arena
     \<and> hp_span_size h = push_bit (unat (hc_span_shift cfg)) 1
     \<and> hp_span_capacity h = hc_reserve_size cfg div push_bit (unat (hc_span_shift cfg)) 1
     \<and> hp_next_span h = 0 \<and> hp_class_table h = replicate (unat (hp_span_capacity h)) 0
     \<and> hp_central h = (\<lambda>k. 0) \<and> hp_central_count h = (\<lambda>k. 0) \<and> hp_large_buckets h = 0
     \<and> hp_large_bucket_count h = 0 \<and> hp_large_count h = 0 \<and> hp_caches h = 0 \<and> hp_exclusive_cache h = 0
     \<and> config (hp_index h) = (heap_index_config cfg arena)\<lparr>allocator := allocator (config (hp_index h))\<rparr>"

lemma born_heapD:
  assumes "born_heap sys cfg arena h"
  shows "hp_self h \<noteq> 0" "hp_config h = cfg" "hp_arena h = arena"
    "hp_span_size h = push_bit (unat (hc_span_shift cfg)) 1"
    "hp_span_capacity h = hc_reserve_size cfg div push_bit (unat (hc_span_shift cfg)) 1"
    "hp_next_span h = 0" "hp_class_table h = replicate (unat (hp_span_capacity h)) 0"
    "hp_central h = (\<lambda>k. 0)" "hp_central_count h = (\<lambda>k. 0)" "hp_large_buckets h = 0"
    "hp_large_bucket_count h = 0" "hp_large_count h = 0" "hp_caches h = 0" "hp_exclusive_cache h = 0"
    "config (hp_index h) = (heap_index_config cfg arena)\<lparr>allocator := allocator (config (hp_index h))\<rparr>"
  using assms unfolding born_heap_def by blast+

lemma born_ok:
  assumes cfg: "heap_config_valid (he_sys E) cfg" and b: "born_heap (he_sys E) cfg arena (hw_heap w)"
    and w: "hw_blocks w = Map.empty" "hw_spans w = Map.empty" "hw_larges w = Map.empty"
      "hw_caches w = Map.empty" "hw_tls w = (\<lambda>t. 0)" "hw_tls_last w = (\<lambda>t. 0)"
    and ix: "mem_ok E live mapped M fr (hp_index (hw_heap w)) (hw_mem w)"
      "\<And>k. k < regions (hp_index (hw_heap w)) * per_region (hp_index (hw_heap w)) \<Longrightarrow>
         gmap (hp_index (hw_heap w)) (heap (hw_mem w)) k = MEMX_HANDLE_INVALID"
    and ar: "snd arena = hc_reserve_size cfg" "fst arena \<noteq> 0" "byte_range (unat (fst arena)) (unat (snd arena)) \<subseteq> M"
  shows "heap_ok E live mapped w \<and> objects w Map.empty"
proof -
  let ?h = "hw_heap w" and ?ix = "hp_index (hw_heap w)"
  note F = heap_config_facts [OF cfg] and B = born_heapD [OF b]
  have sh: "index_shape ?ix" using ix(1) by (auto simp: mem_ok_def intro: index_invD)
  have bd: "bounded ?ix" "base_address (config ?ix) = fst arena" "managed_size (config ?ix) = snd arena"
    "region_shift (config ?ix) = hc_span_shift cfg" "granule_shift (config ?ix) = 12"
    by (subst B(15), simp add: heap_index_config_def)+
  have sb: "span_bits ?h = unat (hc_span_shift cfg)" "arena_start ?h = unat (fst arena)"
    by (simp_all add: B)
  have s: "2 ^ unat (hc_span_shift cfg) dvd unat (fst arena)"
    "unat (snd arena) = regions ?ix * 2 ^ unat (hc_span_shift cfg)"
    "unat (fst arena) + regions ?ix * 2 ^ unat (hc_span_shift cfg) < 2 ^ 64"
    using sh bd by (simp_all add: index_shape_def)
  have cap: "unat (hp_span_capacity ?h) = regions ?ix"
    unfolding B(5) unat_div F(3) using s(2) ar(1) by simp
  have aok: "arena_ok ?h"
    unfolding arena_ok_def sb cap B(3,4,6,7) F(3) using F(1,2,4) s ar(2) by (simp add: unat_gt_0)
  have view: "adaptive_view (?ix, hw_mem w) = span_map ?h"
  proof -
    have "aview ?ix (gmap ?ix (heap (hw_mem w))) = aview ?ix (\<lambda>k. MEMX_HANDLE_INVALID)"
      by (rule aview_cong [OF sh ix(2)])
    then show ?thesis by (simp add: adaptive_view_def span_map_def aview_def B(6) fun_eq_iff)
  qed
  let ?fl = "\<lambda>P. []" and ?hs = "\<lambda>k. []"
  have own: "own_cache w = Map.empty" by (simp add: own_cache_def w fun_eq_iff)
  have si: "small_inv E live mapped M fr ?fl ?hs w"
    unfolding small_inv_def
  proof (intro conjI)
    show "spans_ok w" using aok by (simp add: spans_ok_def B(6) w)
    show "index_maps w" using view bd cap by (simp add: index_maps_def index_fits_def sb)
    show "mem_ok E live mapped M fr (hp_index (hw_heap w)) (hw_mem w)" by (rule ix(1))
    show "bins_part (class_of (hw_heap w)) ?fl ?hs w"
      using F(10) by (simp add: bins_part_def lists_ok_def payloads_ok_def bins_ok_def B w bstate_def cache_cap_def)
    show "hc_cache_batch (hp_config (hw_heap w)) \<noteq> 0" "unat (hc_cache_batch (hp_config (hw_heap w))) \<le> 4294967295"
      using F by (simp_all add: B(2))
  qed
  have "threads_ok fr ?hs [] w"
    by (simp add: threads_ok_def tls_ok_def w B own)
  moreover have "caches_part ?fl {} w" by (simp add: caches_part_def own)
  moreover have "owners_ok w" by (simp add: owners_ok_def w)
  ultimately have ai: "alloc_inv E live mapped M fr ?fl ?hs ?hs [] w" using si by (simp add: alloc_inv_def)
  have lp: "large_part E M fr [] ?hs {} w"
    using ar(3) by (simp add: large_part_def ltable_ok_def chains_ok_def members_def B w records_ok_def
        arena_range_def)
  have none: "small_at w p = None" for p by (simp add: small_at_None bstate_def w)
  have "heap_ok E live mapped w"
    by (rule heap_okI [OF ai _ lp]) (simp_all add: sizes_ok_def none B)
  moreover have "objects w Map.empty"
    by (simp add: objects_def object_at_def size_at_def none large_at_def w)
  ultimately show ?thesis ..
qed


section \<open>The steps of a creation\<close>

lemma index_step:
  assumes h: "holding E live mapped M h m"
  shows "\<exists>st ix m'. memx_index_create (he_libc E) (Some (heap_index_config cfg arena)) True m = Some (st, ix, m')
    \<and> (if st = MEMX_OK then \<exists>i. ix = Some i \<and> mem_ok E live mapped M h i m'
          \<and> config i = (heap_index_config cfg arena)\<lparr>allocator := he_allocator E\<rparr>
          \<and> (\<forall>k < regions i * per_region i. gmap i (heap m') k = MEMX_HANDLE_INVALID)
        else holding E live mapped M h m')"
proof -
  let ?c = "heap_index_config cfg arena"
  let ?c' = "?c\<lparr>allocator := he_allocator E\<rparr>"
  obtain st cfg' where v: "memx_validate_config (he_libc E) ?c = (st, cfg')" by fastforce
  show ?thesis
  proof (cases "st = MEMX_OK")
    case False
    then show ?thesis using v h by (simp add: memx_index_create_def)
  next
    case True
    then have "cfg' = ?c'"
      using v by (auto simp: memx_validate_config_def heap_index_config_def memx_config_default_def
          he_allocator_def Let_def split: if_splits)
    then have v': "memx_validate_config (he_libc E) ?c = (MEMX_OK, ?c')" using v True by simp
    have w: "world_ok (allocator ?c') (tagged live mapped M) m" using h by (simp add: holding_def)
    show ?thesis
    proof (rule memx_index_create_spec [OF v' w], goal_cases)
      case (1 st' m')
      then show ?case using h by (auto simp: holding_def)
    next
      case (2 i m')
      then show ?case using h by (auto simp: holding_def mem_ok_def)
    qed
  qed
qed

lemma release_mapped:
  assumes e: "env_contract E live mapped" and c: "mapped c = M \<union> byte_range (unat b) (unat n)"
    "byte_range (unat b) (unat n) \<inter> M = {}" "b \<noteq> 0" "n \<noteq> 0"
    and pg: "page_bytes (he_sys E) dvd unat b" "page_bytes (he_sys E) dvd unat n"
  shows "mapped (memx_os_release (he_sys E) (b, n) c) = M" "live (memx_os_release (he_sys E) (b, n) c) = live c"
proof -
  note s = sys_munmap_spec [OF env_contractD(2) [OF e]]
  obtain k where "page_bytes (he_sys E) = 2 ^ k" by (rule sys_page_power [OF env_contractD(2) [OF e]])
  then have "page_round (page_bytes (he_sys E)) (unat n) = unat n" using pg(2) by (intro page_round_dvd) simp_all
  then show "mapped (memx_os_release (he_sys E) (b, n) c) = M"
    using s(2) [OF pg(1), of c n] c by (auto simp: memx_os_release_def)
  show "live (memx_os_release (he_sys E) (b, n) c) = live c" using s(1) by (simp add: memx_os_release_def)
qed

text \<open>What a creation leaves when it fails.\<close>

definition undone ::
  "'c heap_env \<Rightarrow> ('c \<Rightarrow> u64 set) \<Rightarrow> ('c \<Rightarrow> nat set) \<Rightarrow> 'c heap_world \<Rightarrow> 'c heap_world \<Rightarrow> bool" where
  "undone E live mapped w w' \<longleftrightarrow> fresh_world E live w' \<and> heap (hw_mem w') = heap (hw_mem w)
     \<and> mapped (ctx (hw_mem w')) = mapped (ctx (hw_mem w))"

lemma undoneI:
  assumes e: "env_contract E live mapped" and f: "fresh_world E live w"
    and h: "holding E live mapped (mapped (ctx (hw_mem w))) (heap (hw_mem w)) m"
  shows "undone E live mapped w (w\<lparr>hw_huge_cache := c, hw_mem := m\<rparr>)"
proof -
  have "world_ok (he_allocator E) live m" using h world_tagged [OF e] by (simp add: holding_def)
  then show ?thesis
    using f h holding_mapped [OF e h] by (simp add: undone_def fresh_world_def holding_def)
qed

text \<open>The second half of a creation, from the class table on.\<close>

definition create_arena ::
  "'c heap_env \<Rightarrow> memx_heap_config \<Rightarrow> u64 \<Rightarrow> u64 \<Rightarrow> u64 \<Rightarrow> u64 \<Rightarrow> u64 \<Rightarrow> u64 \<Rightarrow> 'c heap_world
     \<Rightarrow> (memx_heap_status \<times> u64 \<times> 'c heap_world) option" where
  "create_arena E cfg p locks span_size span_capacity granularity classes w = (
     let (arena, c) = memx_os_reserve_aligned (he_sys E) (hc_reserve_size cfg) granularity (ctx (hw_mem w));
         w = upd_ctx c w
     in case arena of
          None \<Rightarrow> do {
            w \<leftarrow> abandon_heap E p classes locks w;
            Some (MEMX_HEAP_ERROR_OUT_OF_MEMORY, 0, w)
          }
        | Some arena \<Rightarrow>
           (let w = (if granularity \<noteq> span_size
                     then upd_ctx (memx_os_advise_huge_pages (he_sys E) (fst arena) (snd arena)
                            (ctx (hw_mem w))) w else w)
            in do {
              (status, index, m) \<leftarrow> memx_index_create (he_libc E)
                 (Some (heap_index_config cfg arena)) True (hw_mem w);
              let w = w\<lparr>hw_mem := m\<rparr>;
              if status \<noteq> MEMX_OK then do {
                let w = upd_ctx (memx_os_release (he_sys E) arena (ctx (hw_mem w))) w;
                w \<leftarrow> abandon_heap E p classes locks w;
                Some (MEMX_HEAP_ERROR_OUT_OF_MEMORY, 0, w)
              }
              else do {
                ix \<leftarrow> index;
                Some (MEMX_HEAP_OK, p, w\<lparr>hw_heap :=
                  \<lparr>hp_self = p, hp_config = cfg, hp_arena = arena, hp_span_size = span_size,
                   hp_span_capacity = span_capacity, hp_next_span = 0,
                   hp_commit_granularity = granularity, hp_committed_bytes = 0,
                   hp_span_classes = classes,
                   hp_class_table = replicate (unat span_capacity) 0, hp_index = ix,
                   hp_initialized_class_locks = locks,
                   hp_central = (\<lambda>k. 0), hp_central_count = (\<lambda>k. 0), hp_spans = 0,
                   hp_large_buckets = 0, hp_large_bucket_count = 0, hp_large_count = 0,
                   hp_caches = 0, hp_exclusive_cache = 0, hp_live_requested_bytes = 0,
                   hp_peak_live_requested_bytes = 0, hp_committed_spans = 0,
                   hp_large_allocation_count = 0, hp_frees = 0, hp_remote_frees = 0,
                   hp_invalid_frees = 0, hp_thread_cache_count = 0\<rparr>\<rparr>)
              }
            }))"

lemma create_arena_ok:
  assumes e: "env_contract E live mapped" and v: "heap_config_valid (he_sys E) cfg"
    and w: "hw_blocks w = Map.empty" "hw_spans w = Map.empty" "hw_larges w = Map.empty"
      "hw_caches w = Map.empty" "hw_tls w = (\<lambda>t. 0)" "hw_tls_last w = (\<lambda>t. 0)"
    and h: "holding E live mapped M h (hw_mem w)" and p: "h p \<noteq> None" "h classes \<noteq> None" "classes \<noteq> p"
  defines "s \<equiv> push_bit (unat (hc_span_shift cfg)) (1 :: u64)"
  defines "n \<equiv> hc_reserve_size cfg div s"
  shows "\<exists>st q w'. create_arena E cfg p locks s n granularity classes w = Some (st, q, w')
    \<and> (if st = MEMX_HEAP_OK then q = p \<and> hp_self (hw_heap w') = p \<and> hp_config (hw_heap w') = cfg
          \<and> heap_ok E live mapped w' \<and> objects w' Map.empty
        else q = 0 \<and> (\<exists>m. w' = w\<lparr>hw_mem := m\<rparr> \<and> holding E live mapped M (h(classes := None, p := None)) m))"
proof -
  note F = heap_config_facts [OF v]
  let ?P = "page_bytes (he_sys E)"
  obtain arena c4 where r: "memx_os_reserve_aligned (he_sys E) (hc_reserve_size cfg) granularity (ctx (hw_mem w)) = (arena, c4)"
    by fastforce
  have pg: "?P dvd unat (hc_reserve_size cfg)" using F(5,6) by (rule dvd_trans)
  note R = reserve_spec [OF env_contractD(2) [OF e] pg r]
  have Mm: "mapped (ctx (hw_mem w)) = M" by (rule holding_mapped [OF e h])
  have p0: "p \<noteq> 0" using p(1) holding_null [OF h] by auto
  show ?thesis
  proof (cases arena)
    case None
    have "holding E live mapped M h (hw_mem (upd_ctx c4 w))"
      using holding_ctx [OF e h R(1)] R(2) [OF None] Mm by (simp add: upd_ctx_def)
    then obtain m where a: "abandon_heap E p classes locks (upd_ctx c4 w) = Some (upd_ctx c4 w\<lparr>hw_mem := m\<rparr>)"
      "holding E live mapped M (h(classes := None, p := None)) m"
      using abandon_ok [where h = h and M = M and p = p and classes = classes, OF e] p by blast
    then have "create_arena E cfg p locks s n granularity classes w = Some (MEMX_HEAP_ERROR_OUT_OF_MEMORY, 0, w\<lparr>hw_mem := m\<rparr>)"
      using None r by (simp add: create_arena_def upd_ctx_def)
    then show ?thesis using a(2) by (simp, blast)
  next
    case (Some ab)
    obtain b sz where ab: "ab = (b, sz)" by fastforce
    note R3 = R(3) [OF Some [unfolded ab]]
    define c5 where "c5 = (if granularity \<noteq> s then memx_os_advise_huge_pages (he_sys E) b sz c4 else c4)"
    have c5: "live c5 = live (ctx (hw_mem w))" "mapped c5 = M \<union> byte_range (unat b) (unat sz)"
      using R(1) R3 Mm sys_other_spec(3) [OF env_contractD(2) [OF e]]
      by (simp_all add: c5_def memx_os_advise_huge_pages_def)
    let ?M = "M \<union> byte_range (unat b) (unat sz)"
    define w5 where "w5 = upd_ctx c5 w"
    have H5: "holding E live mapped ?M h (hw_mem w5)"
      using holding_ctx [OF e h c5(1)] c5(2) by (simp add: w5_def upd_ctx_def)
    obtain st ix m6 where i: "memx_index_create (he_libc E) (Some (heap_index_config cfg ab)) True (hw_mem w5) = Some (st, ix, m6)"
      "if st = MEMX_OK then \<exists>i. ix = Some i \<and> mem_ok E live mapped ?M h i m6
          \<and> config i = (heap_index_config cfg ab)\<lparr>allocator := he_allocator E\<rparr>
          \<and> (\<forall>k < regions i * per_region i. gmap i (heap m6) k = MEMX_HANDLE_INVALID)
        else holding E live mapped ?M h m6"
      using index_step [OF H5] by metis
    have go: "create_arena E cfg p locks s n granularity classes w = (
        if st \<noteq> MEMX_OK then do {
          w \<leftarrow> abandon_heap E p classes locks (upd_ctx (memx_os_release (he_sys E) ab (ctx m6)) (w5\<lparr>hw_mem := m6\<rparr>));
          Some (MEMX_HEAP_ERROR_OUT_OF_MEMORY, 0, w)
        }
        else do {
          ix \<leftarrow> ix;
          Some (MEMX_HEAP_OK, p, w5\<lparr>hw_mem := m6, hw_heap :=
                  \<lparr>hp_self = p, hp_config = cfg, hp_arena = ab, hp_span_size = s,
                   hp_span_capacity = n, hp_next_span = 0,
                   hp_commit_granularity = granularity, hp_committed_bytes = 0,
                   hp_span_classes = classes,
                   hp_class_table = replicate (unat n) 0, hp_index = ix,
                   hp_initialized_class_locks = locks,
                   hp_central = (\<lambda>k. 0), hp_central_count = (\<lambda>k. 0), hp_spans = 0,
                   hp_large_buckets = 0, hp_large_bucket_count = 0, hp_large_count = 0,
                   hp_caches = 0, hp_exclusive_cache = 0, hp_live_requested_bytes = 0,
                   hp_peak_live_requested_bytes = 0, hp_committed_spans = 0,
                   hp_large_allocation_count = 0, hp_frees = 0, hp_remote_frees = 0,
                   hp_invalid_frees = 0, hp_thread_cache_count = 0\<rparr>\<rparr>)
        })"
      using r i(1) Some unfolding w5_def c5_def
      by (cases "granularity = s") (simp_all add: create_arena_def upd_ctx_def ab)
    show ?thesis
    proof (cases "st = MEMX_OK")
      case False
      let ?c = "memx_os_release (he_sys E) ab (ctx m6)"
      have H6: "holding E live mapped ?M h m6" using i(2) False by simp
      have G: "unat granularity dvd unat b" using R3 by simp
      have "memx_os_power_of_two granularity \<and> \<not> granularity < memx_os_page_size (he_sys E)"
        using r Some by (auto simp: memx_os_reserve_aligned_def split: if_splits)
      then obtain j where j: "unat granularity = 2 ^ j" "?P \<le> 2 ^ j"
        unfolding memx_os_power_of_two_iff by (auto simp: page_bytes_def not_less word_le_nat_alt)
      obtain i where "?P = 2 ^ i" by (rule sys_page_power [OF env_contractD(2) [OF e]])
      then have "?P dvd unat granularity" using j by (simp add: le_imp_power_dvd)
      then have pb: "?P dvd unat b" using G by (rule dvd_trans)
      have rel: "mapped ?c = M" "live ?c = live (ctx m6)"
        using release_mapped [OF e holding_mapped [OF e H6] _ _ _ pb] R3 pg Mm by (auto simp: ab)
      have "holding E live mapped M h (hw_mem (upd_ctx ?c (w5\<lparr>hw_mem := m6\<rparr>)))"
        using holding_ctx [OF e H6 rel(2)] rel(1) by (simp add: upd_ctx_def)
      then obtain m where a: "abandon_heap E p classes locks (upd_ctx ?c (w5\<lparr>hw_mem := m6\<rparr>))
          = Some (upd_ctx ?c (w5\<lparr>hw_mem := m6\<rparr>)\<lparr>hw_mem := m\<rparr>)"
        "holding E live mapped M (h(classes := None, p := None)) m"
        using abandon_ok [where h = h and M = M and p = p and classes = classes, OF e] p by blast
      have "upd_ctx ?c (w5\<lparr>hw_mem := m6\<rparr>)\<lparr>hw_mem := m\<rparr> = w\<lparr>hw_mem := m\<rparr>"
        by (simp add: w5_def upd_ctx_def)
      then have "create_arena E cfg p locks s n granularity classes w
          = Some (MEMX_HEAP_ERROR_OUT_OF_MEMORY, 0, w\<lparr>hw_mem := m\<rparr>)"
        unfolding go using False a(1) by simp
      then show ?thesis using a(2) by (simp, blast)
    next
      case True
      then obtain i where i': "ix = Some i" "mem_ok E live mapped ?M h i m6"
          "config i = (heap_index_config cfg ab)\<lparr>allocator := he_allocator E\<rparr>"
          "\<And>k. k < regions i * per_region i \<Longrightarrow> gmap i (heap m6) k = MEMX_HANDLE_INVALID"
        using i(2) by auto
      obtain w' where w': "create_arena E cfg p locks s n granularity classes w = Some (MEMX_HEAP_OK, p, w')"
        "hw_mem w' = m6" "hw_blocks w' = hw_blocks w" "hw_spans w' = hw_spans w" "hw_larges w' = hw_larges w"
        "hw_caches w' = hw_caches w" "hw_tls w' = hw_tls w" "hw_tls_last w' = hw_tls_last w"
        "hp_index (hw_heap w') = i" "hp_self (hw_heap w') = p" "born_heap (he_sys E) cfg ab (hw_heap w')"
      proof
        show "create_arena E cfg p locks s n granularity classes w = Some (MEMX_HEAP_OK, p, the (map_option (snd \<circ> snd)
            (create_arena E cfg p locks s n granularity classes w)))"
          unfolding go using True i'(1) by simp
      qed (unfold go, use True i'(1,3) p0 in \<open>simp_all add: w5_def upd_ctx_def born_heap_def s_def n_def\<close>)
      have "heap_ok E live mapped w' \<and> objects w' Map.empty"
        by (rule born_ok [OF v w'(11)]) (use w' w i'(2,4) R3 in \<open>auto simp: ab\<close>)
      then show ?thesis using w'(1,10) born_heapD(2) [OF w'(11)] by (intro exI [of _ MEMX_HEAP_OK] exI [of _ p] exI [of _ w']) simp
    qed
  qed
qed

lemma heap_create_ok:
  fixes requested :: "memx_heap_config option"
  assumes e: "env_contract E live mapped" and f: "fresh_world E live w"
  defines "cfg \<equiv> (case requested of None \<Rightarrow> memx_heap_config_default | Some c \<Rightarrow> c)"
  shows "\<exists>st p w'. memx_heap_create E requested wanted w = Some (st, p, w')
    \<and> (if st = MEMX_HEAP_OK
        then wanted \<and> heap_config_valid (he_sys E) cfg \<and> hp_self (hw_heap w') = p \<and> hp_config (hw_heap w') = cfg
          \<and> heap_ok E live mapped w' \<and> objects w' Map.empty
        else p = 0 \<and> undone E live mapped w w')"
proof (cases "wanted \<and> heap_config_valid (he_sys E) cfg")
  case False
  have "undone E live mapped w w" using f by (simp add: undone_def)
  moreover have "memx_heap_create E requested wanted w = Some (MEMX_HEAP_ERROR_INVALID_ARGUMENT, 0, w)"
    using False unfolding memx_heap_create_def Let_def cfg_def by auto
  ultimately show ?thesis by simp
next
  case True
  let ?M = "mapped (ctx (hw_mem w))" and ?h = "heap (hw_mem w)"
  let ?s = "push_bit (unat (hc_span_shift cfg)) (1 :: u64)"
  let ?n = "hc_reserve_size cfg div ?s"
  note F = heap_config_facts [OF conjunct2 [OF True]]
  obtain H C where hc: "memx_os_huge_page_size (he_sys E) (hw_huge_cache w) = (H, C)" by fastforce
  define gr where "gr = (if ?s < H \<and> hc_reserve_size cfg mod H = 0 then H else ?s)"
  have H0: "holding E live mapped ?M ?h (hw_mem w)"
    using fresh_worldD(1) [OF f] world_tagged [OF e] by (simp add: holding_def)
  obtain p m1 where p: "c_malloc (he_allocator E) sizeof_heap (hw_mem w) = Some (p, m1)"
    "if p = 0 then holding E live mapped ?M ?h m1
     else ?h p = None \<and> holding E live mapped ?M (?h(p \<mapsto> RawBlock sizeof_heap)) m1"
    using holding_malloc [OF H0] by blast
  have out: "\<And>c m. holding E live mapped ?M ?h m \<Longrightarrow> undone E live mapped w (w\<lparr>hw_huge_cache := c, hw_mem := m\<rparr>)"
    by (rule undoneI [OF e f])
  show ?thesis
  proof (cases "p = 0")
    case True': True
    have "memx_heap_create E requested wanted w = Some (MEMX_HEAP_ERROR_OUT_OF_MEMORY, 0, w\<lparr>hw_mem := m1\<rparr>)"
      using True p(1) True' by (simp add: memx_heap_create_def cfg_def)
    moreover have "undone E live mapped w (w\<lparr>hw_mem := m1\<rparr>)"
      using out [of m1 "hw_huge_cache w"] p(2) True' by simp
    ultimately show ?thesis by simp
  next
    case p0: False
    let ?h1 = "?h(p \<mapsto> RawBlock sizeof_heap)"
    have H1: "holding E live mapped ?M ?h1 m1" "?h p = None" using p(2) p0 by simp_all
    obtain lok locks c2 where l: "memx_heap_init_locks E (ctx m1) = (lok, locks, c2)" by (metis prod_cases3)
    have H2: "holding E live mapped ?M ?h1 (m1\<lparr>ctx := c2\<rparr>)"
      using holding_ctx [OF e H1(1)] init_locks_frame [OF e l] holding_mapped [OF e H1(1)] by metis
    define w2 where "w2 = w\<lparr>hw_huge_cache := C, hw_mem := m1\<lparr>ctx := c2\<rparr>\<rparr>"
    have w2m: "hw_mem w2 = m1\<lparr>ctx := c2\<rparr>" by (simp add: w2_def)
    have back1: "?h1(0 := None, p := None) = ?h" using H1(2) holding_null [OF H0] by (auto simp: fun_eq_iff)
    have run: "memx_heap_create E requested wanted w = (
        if \<not> lok then do {
          w \<leftarrow> abandon_heap E p 0 locks w2;
          Some (MEMX_HEAP_ERROR_OUT_OF_MEMORY, 0, w)
        }
        else do {
          (classes, m) \<leftarrow> c_malloc (he_allocator E) ?n (hw_mem w2);
          let w = w2\<lparr>hw_mem := m\<rparr>;
          if classes = 0 then do {
            w \<leftarrow> abandon_heap E p 0 locks w;
            Some (MEMX_HEAP_ERROR_OUT_OF_MEMORY, 0, w)
          }
          else create_arena E cfg p locks ?s ?n gr classes w
        })"
      using True p(1) p0 l
      by (simp add: memx_heap_create_def cfg_def [symmetric] Let_def hc gr_def [symmetric] create_arena_def
          w2_def upd_ctx_def del: push_bit_of_1 cong: if_cong option.case_cong split del: if_split)
    show ?thesis
    proof (cases lok)
      case F: False
      obtain m where a: "abandon_heap E p 0 locks w2 = Some (w2\<lparr>hw_mem := m\<rparr>)"
        "holding E live mapped ?M (?h1(0 := None, p := None)) m"
        using abandon_ok [OF e, of ?M ?h1 w2 p 0] H2 w2m by auto
      show ?thesis
        unfolding run using F a(1) out [of m C] a(2) back1 by (simp add: w2_def)
    next
      case lT: True
      obtain cl m3 where cl: "c_malloc (he_allocator E) ?n (hw_mem w2) = Some (cl, m3)"
        "if cl = 0 then holding E live mapped ?M ?h1 m3
         else ?h1 cl = None \<and> holding E live mapped ?M (?h1(cl \<mapsto> RawBlock ?n)) m3"
        using holding_malloc [of E live mapped ?M ?h1 "hw_mem w2"] H2 w2m by metis
      let ?w3 = "w2\<lparr>hw_mem := m3\<rparr>"
      show ?thesis
      proof (cases "cl = 0")
        case F: True
        obtain m where a: "abandon_heap E p 0 locks ?w3 = Some (?w3\<lparr>hw_mem := m\<rparr>)"
          "holding E live mapped ?M (?h1(0 := None, p := None)) m"
          using abandon_ok [OF e, of ?M ?h1 ?w3 p 0] cl(2) F by auto
        show ?thesis
          unfolding run using F lT cl(1) a(1) out [of m C] a(2) back1 by (simp add: w2_def)
      next
        case c0: False
        let ?h3 = "?h1(cl \<mapsto> RawBlock ?n)"
        have H3: "holding E live mapped ?M ?h3 (hw_mem ?w3)" "?h1 cl = None" using cl(2) c0 by simp_all
        have ne: "cl \<noteq> p" using H3(2) by auto
        have undo: "?h3(cl := None, p := None) = ?h" using H1(2) H3(2) ne by (auto simp: fun_eq_iff)
        have "\<exists>st q w'. create_arena E cfg p locks ?s ?n gr cl ?w3 = Some (st, q, w')
          \<and> (if st = MEMX_HEAP_OK then q = p \<and> hp_self (hw_heap w') = p \<and> hp_config (hw_heap w') = cfg
                \<and> heap_ok E live mapped w' \<and> objects w' Map.empty
              else q = 0 \<and> (\<exists>m. w' = ?w3\<lparr>hw_mem := m\<rparr> \<and> holding E live mapped ?M (?h3(cl := None, p := None)) m))"
          by (rule create_arena_ok [OF e conjunct2 [OF True] _ _ _ _ _ _ H3(1)])
            (use fresh_worldD [OF f] ne in \<open>simp_all add: w2_def\<close>)
        then obtain st q w' where c: "create_arena E cfg p locks ?s ?n gr cl ?w3 = Some (st, q, w')"
          "if st = MEMX_HEAP_OK then q = p \<and> hp_self (hw_heap w') = p \<and> hp_config (hw_heap w') = cfg
                \<and> heap_ok E live mapped w' \<and> objects w' Map.empty
              else q = 0 \<and> (\<exists>m. w' = ?w3\<lparr>hw_mem := m\<rparr> \<and> holding E live mapped ?M ?h m)"
          unfolding undo by blast
        have "memx_heap_create E requested wanted w = Some (st, q, w')"
          unfolding run using lT cl(1) c0 c(1) by (simp del: push_bit_of_1)
        moreover have "undone E live mapped w w'" if "st \<noteq> MEMX_HEAP_OK"
          using c(2) that out [of _ C] by (auto simp: w2_def)
        ultimately show ?thesis using c(2) True by auto
      qed
    qed
  qed
qed

end
