(* ===== verification/Memx_Progress.thy ===== *)
theory Memx_Progress
  imports Memx_Realloc
begin

text \<open>
  Progress: an allocation above the largest class answers an object whenever the C library and the
  kernel grant the three requests it makes of them.
\<close>

definition table_size :: "'c heap_world \<Rightarrow> u64" where
  "table_size w = (if hp_large_bucket_count (hw_heap w) = 0 then MEMX_HEAP_LARGE_MIN_BUCKETS
     else hp_large_bucket_count (hw_heap w) * 2)"

text \<open>The record, the mapping and a larger table, in the states in which the code asks for them.\<close>

definition supplied :: "'c heap_env \<Rightarrow> u64 \<Rightarrow> u64 \<Rightarrow> u64 \<Rightarrow> 'c \<Rightarrow> bool" where
  "supplied E al n buckets c \<longleftrightarrow> (
     let (x, c) = libc_malloc (he_libc E) c sizeof_large;
         (r, c) = memx_os_large_allocate (he_sys E) n al c;
         (b, c) = libc_malloc (he_libc E) c (buckets * 8)
     in x \<noteq> 0 \<and> r \<noteq> None \<and> b \<noteq> 0)"

lemma calloc_supplied:
  assumes "c_calloc_words (he_allocator E) n m = Some (p, m')" "n \<le> SIZE_MAX div 8"
    and "fst (libc_malloc (he_libc E) (ctx m) (n * 8)) \<noteq> 0"
  shows "p \<noteq> 0"
  using assms by (auto simp: c_calloc_words_def call_allocate_def he_allocator_def memx_default_allocate_def
      split_beta Let_def split: if_splits bind_splits)

lemma reserve_supplied:
  assumes run: "memx_heap_large_reserve_locked E w = Some (granted, w')"
    and few: "hp_large_bucket_count (hw_heap w) < 0x800000000000000"
    and b: "fst (libc_malloc (he_libc E) (ctx (hw_mem w)) (table_size w * 8)) \<noteq> 0"
  shows granted
proof -
  let ?n = "hp_large_bucket_count (hw_heap w)"
  have u: "unat ?n < 0x800000000000000" using few by (simp add: word_less_nat_alt)
  have "unat (?n * 2) = unat ?n * 2" using u unat_mult_exact [of ?n 2] by simp
  then have le: "table_size w \<le> SIZE_MAX div 8"
    using u by (simp add: table_size_def MEMX_HEAP_LARGE_MIN_BUCKETS_def word_le_nat_alt unat_div)
  have "?n \<le> SIZE_MAX div 2" using u by (simp add: word_le_nat_alt unat_div)
  then have no: "\<not> SIZE_MAX div 2 < ?n" by simp
  show ?thesis
  proof (cases "hp_large_count (hw_heap w) < ?n")
    case True
    then show ?thesis using run by (simp add: memx_heap_large_reserve_locked_def)
  next
    case False
    then have r: "memx_heap_large_rehash_locked E (table_size w) w = Some (granted, w')"
      using run no by (simp add: memx_heap_large_reserve_locked_def table_size_def Let_def split del: if_split)
    have nl: "\<not> SIZE_MAX div 8 < table_size w" using le by (simp only: not_less)
    note r = r [unfolded memx_heap_large_rehash_locked_def if_not_P [OF nl]]
    obtain p m where c: "c_calloc_words (he_allocator E) (table_size w) (hw_mem w) = Some (p, m)"
      using r by (cases "c_calloc_words (he_allocator E) (table_size w) (hw_mem w)") auto
    have "p \<noteq> 0" by (rule calloc_supplied [OF c le b])
    then show ?thesis using r c by (auto simp: Let_def split: bind_splits)
  qed
qed

lemma allocate_large_supplied:
  assumes run: "memx_heap_allocate_large E al n w = Some (p, w')"
    and few: "hp_large_bucket_count (hw_heap w) < 0x800000000000000"
    and s: "supplied E al n (table_size w) (ctx (hw_mem w))"
  shows "\<exists>c mp c'. memx_os_large_allocate (he_sys E) n al c = (Some (mp, p), c')"
proof -
  obtain x c1 where x: "libc_malloc (he_libc E) (ctx (hw_mem w)) sizeof_large = (x, c1)" by fastforce
  obtain r c2 where r: "memx_os_large_allocate (he_sys E) n al c1 = (r, c2)" by fastforce
  have ok: "x \<noteq> 0" "r \<noteq> None" "fst (libc_malloc (he_libc E) c2 (table_size w * 8)) \<noteq> 0"
    using s x r by (auto simp: supplied_def split_beta)
  obtain mp ptr where mp: "r = Some (mp, ptr)" using ok(2) by auto
  obtain m1 where m1: "c_malloc (he_allocator E) sizeof_large (hw_mem w) = Some (x, m1)" "ctx m1 = c1"
    using x ok(1) by (simp add: c_malloc_def call_allocate_def he_allocator_def memx_default_allocate_def)
  let ?l = "\<lparr>lg_next = 0, lg_mapping = mp, lg_pointer = ptr, lg_requested_size = n, lg_alignment = al\<rparr>"
  define w2 where "w2 = upd_ctx c2 (w\<lparr>hw_mem := m1\<rparr>)\<lparr>hw_larges := (hw_larges w)(x \<mapsto> ?l),
      hw_bytes := (hw_bytes w)(ptr \<mapsto>
        \<lparr>pl_size = unat (fst mp) + unat (snd mp) - unat ptr, pl_bytes = (\<lambda>_. 0)\<rparr>)\<rparr>"
  have f: "hw_heap w2 = hw_heap w" "ctx (hw_mem w2) = c2" "table_size w2 = table_size w"
    by (simp_all add: w2_def upd_ctx_def table_size_def)
  have "\<exists>granted w3. memx_heap_large_reserve_locked E w2 = Some (granted, w3) \<and> (granted \<longrightarrow> p = ptr)"
  proof (cases "memx_heap_large_reserve_locked E w2")
    case None
    then show ?thesis using run m1 r mp ok(1) by (simp add: memx_heap_allocate_large_def w2_def upd_ctx_def)
  next
    case (Some gw)
    obtain g w3 where gw: "gw = (g, w3)" by fastforce
    have "g \<longrightarrow> p = ptr"
      using run m1 r mp ok(1) Some gw
      by (auto simp: memx_heap_allocate_large_def w2_def upd_ctx_def Let_def split: bind_splits)
    then show ?thesis using Some gw by blast
  qed
  then obtain g w3 where g: "memx_heap_large_reserve_locked E w2 = Some (g, w3)" "g \<longrightarrow> p = ptr" by blast
  have g by (rule reserve_supplied [OF g(1)]) (use few ok(3) in \<open>simp_all add: f\<close>)
  then show ?thesis using g(2) r mp by blast
qed

section \<open>The first large object\<close>

lemma link_large_state:
  assumes "link_large buckets n x p w = Some w'"
  shows "ctx (hw_mem w') = ctx (hw_mem w)" "hw_heap w' = hw_heap w"
  using assms
  by (auto simp: link_large_def set_large_def write_bucket_def write_root_def Let_def
      split: bind_splits memx_object.splits option.splits if_splits)

lemma reserve_first:
  assumes run: "memx_heap_large_reserve_locked E w = Some (granted, w')" and granted
    and z: "hp_large_bucket_count (hw_heap w) = 0" "hp_large_buckets (hw_heap w) = 0"
  shows "ctx (hw_mem w') = snd (libc_malloc (he_libc E) (ctx (hw_mem w)) (MEMX_HEAP_LARGE_MIN_BUCKETS * 8))"
    "hp_large_bucket_count (hw_heap w') = MEMX_HEAP_LARGE_MIN_BUCKETS"
  using run \<open>granted\<close> z
  by (auto simp: memx_heap_large_reserve_locked_def memx_heap_large_rehash_locked_def c_calloc_words_def
      call_allocate_def he_allocator_def memx_default_allocate_def init_object_def c_free_def upd_heap_def
      MEMX_HEAP_LARGE_MIN_BUCKETS_def Let_def split: bind_splits if_splits prod.splits)

lemma allocate_first_state:
  assumes run: "memx_heap_allocate_large E al n w = Some (p, w')"
    and z: "hp_large_bucket_count (hw_heap w) = 0" "hp_large_buckets (hw_heap w) = 0"
    and x: "libc_malloc (he_libc E) (ctx (hw_mem w)) sizeof_large = (x, c1)" "x \<noteq> 0"
    and r: "memx_os_large_allocate (he_sys E) n al c1 = (Some (mp, ptr), c2)"
    and b: "libc_malloc (he_libc E) c2 (MEMX_HEAP_LARGE_MIN_BUCKETS * 8) = (b, c3)" "b \<noteq> 0"
  shows "ctx (hw_mem w') = c3" "hp_large_bucket_count (hw_heap w') = MEMX_HEAP_LARGE_MIN_BUCKETS"
proof -
  obtain m1 where m1: "c_malloc (he_allocator E) sizeof_large (hw_mem w) = Some (x, m1)" "ctx m1 = c1"
    using x by (simp add: c_malloc_def call_allocate_def he_allocator_def memx_default_allocate_def)
  let ?l = "\<lparr>lg_next = 0, lg_mapping = mp, lg_pointer = ptr, lg_requested_size = n, lg_alignment = al\<rparr>"
  define w2 where "w2 = upd_ctx c2 (w\<lparr>hw_mem := m1\<rparr>)\<lparr>hw_larges := (hw_larges w)(x \<mapsto> ?l),
      hw_bytes := (hw_bytes w)(ptr \<mapsto>
        \<lparr>pl_size = unat (fst mp) + unat (snd mp) - unat ptr, pl_bytes = (\<lambda>_. 0)\<rparr>)\<rparr>"
  have f: "hw_heap w2 = hw_heap w" "ctx (hw_mem w2) = c2" "table_size w2 = MEMX_HEAP_LARGE_MIN_BUCKETS"
    by (simp_all add: w2_def upd_ctx_def table_size_def z)
  obtain g w3 where g: "memx_heap_large_reserve_locked E w2 = Some (g, w3)"
    using run m1 r x(2)
    by (cases "memx_heap_large_reserve_locked E w2") (auto simp: memx_heap_allocate_large_def w2_def upd_ctx_def)
  have granted: g by (rule reserve_supplied [OF g]) (use b z in \<open>simp_all add: f\<close>)
  have z2: "hp_large_bucket_count (hw_heap w2) = 0" "hp_large_buckets (hw_heap w2) = 0" by (simp_all add: f z)
  note R = reserve_first [OF g granted z2]
  have "\<exists>w4. link_large (hp_large_buckets (hw_heap w3)) (hp_large_bucket_count (hw_heap w3)) x ptr w3 = Some w4
      \<and> hw_mem w' = hw_mem w4 \<and> hp_large_bucket_count (hw_heap w') = hp_large_bucket_count (hw_heap w4)"
    using run m1 r x(2) g granted
    by (auto simp: memx_heap_allocate_large_def w2_def upd_ctx_def Let_def upd_heap_def memx_heap_add_live_def
        memx_heap_add_live_counted_def memx_heap_update_peak_def split: bind_splits if_splits)
  then obtain w4 where l: "link_large (hp_large_buckets (hw_heap w3)) (hp_large_bucket_count (hw_heap w3)) x ptr w3 = Some w4"
    "hw_mem w' = hw_mem w4" "hp_large_bucket_count (hw_heap w') = hp_large_bucket_count (hw_heap w4)" by blast
  show "ctx (hw_mem w') = c3" "hp_large_bucket_count (hw_heap w') = MEMX_HEAP_LARGE_MIN_BUCKETS"
    using l(2,3) link_large_state [OF l(1)] R b by (simp_all add: f)
qed

lemma malloc_large:
  assumes n: "8192 < n" and h: "heap_ok E live mapped w"
  shows "memx_heap_malloc E t (hp_self (hw_heap w)) n w = memx_heap_allocate_large E max_align n w"
proof -
  have n0: "n \<noteq> 0" and big: "\<not> unat n \<le> 8192" using n by (auto simp: word_less_nat_alt)
  have "19 \<le> unat (memx_heap_class_for_size n)" using memx_heap_class_spec [OF n0] big by simp
  then have "\<not> memx_heap_class_for_size n < MEMX_HEAP_CLASS_COUNT"
    by (simp add: MEMX_HEAP_CLASS_COUNT_def word_less_nat_alt)
  then show ?thesis using n0 h by (simp add: memx_heap_malloc_def heap_ok_def Let_def)
qed

lemma malloc_supplied:
  assumes c: "env_contract E live mapped" and n: "8192 < n"
    and run: "memx_heap_malloc E t (hp_self (hw_heap w)) n w = Some (p, w')" and h: "heap_ok E live mapped w"
    and few: "hp_large_bucket_count (hw_heap w) < 0x800000000000000"
    and s: "supplied E max_align n (table_size w) (ctx (hw_mem w))"
  shows "p \<noteq> 0"
proof -
  have "memx_heap_allocate_large E max_align n w = Some (p, w')" using run malloc_large [OF n h] by simp
  then obtain d b k d' where "memx_os_large_allocate (he_sys E) n max_align d = (Some ((b, k), p), d')"
    using allocate_large_supplied [OF _ few s] by (metis prod.collapse)
  then show ?thesis using large_allocate_spec(3) [OF env_contractD(2) [OF c]] by blast
qed

end
