(* ===== verification/Memx_HeapExamples.thy ===== *)
theory Memx_HeapExamples
  imports Memx_Birth Memx_Progress Memx_Examples
begin

text \<open>
  A concrete environment for the witnesses of the heap: the C library's allocator of the index
  witnesses, and a kernel that maps fresh pages upwards and keeps a log of what it has mapped and
  unmapped.  A heap with an arena of two spans is created in it.
\<close>

section \<open>A kernel\<close>

datatype os_event = Mapped u64 u64 | Unmapped u64 u64

type_synonym desk = "bump \<times> os_event list"

text \<open>Page numbers and counts stay small, so that nothing overflows.\<close>

definition small_pages :: "u64 \<Rightarrow> u64 \<Rightarrow> bool" where
  "small_pages k j \<longleftrightarrow> k < 0x40000000 \<and> j < 0x40000000"

fun top_page :: "os_event list \<Rightarrow> u64" where
  "top_page [] = 16"
| "top_page (Mapped k j # l) = (if small_pages k j then max (top_page l) (k + j) else top_page l)"
| "top_page (Unmapped p n # l) = top_page l"

fun mapped_bytes :: "os_event list \<Rightarrow> nat set" where
  "mapped_bytes [] = {}"
| "mapped_bytes (Mapped k j # l) =
     (if small_pages k j then mapped_bytes l \<union> byte_range (4096 * unat k) (4096 * unat j) else mapped_bytes l)"
| "mapped_bytes (Unmapped p n # l) =
     mapped_bytes l - (if 4096 dvd unat p then byte_range (unat p) (page_round 4096 (unat n)) else {})"

definition desk_mmap :: "desk \<Rightarrow> u64 \<Rightarrow> bool \<Rightarrow> u64 option \<times> desk" where
  "desk_mmap c n rw = (let k = top_page (snd c); j = drop_bit 12 (n + 4095) in
     if n < 0x10000000 \<and> k < 0x40000000 then (Some (push_bit 12 k), (fst c, Mapped k j # snd c)) else (None, c))"

definition desk_sys :: "desk sys_calls" where
  "desk_sys = \<lparr>sys_pagesize = 4096, sys_hpage_file = None, sys_mmap = desk_mmap,
     sys_remap = (\<lambda>c p n. (None, c)), sys_mprotect = (\<lambda>c p n. (True, c)), sys_madvise = (\<lambda>c p n. c),
     sys_munmap = (\<lambda>c p n. (fst c, Unmapped p n # snd c))\<rparr>"

definition desk_libc :: "desk libc" where
  "desk_libc = \<lparr>libc_malloc = (\<lambda>c n. let (p, b) = bump_allocate (fst c) n in (p, (b, snd c))),
     libc_free = (\<lambda>c p. (bump_release (fst c) p, snd c))\<rparr>"

definition desk_env :: "desk heap_env" where
  "desk_env = \<lparr>he_libc = desk_libc, he_sys = desk_sys, he_mutex_init = (\<lambda>c. (True, c)), he_mutex_destroy = (\<lambda>c. c)\<rparr>"

definition desk_live :: "desk \<Rightarrow> u64 set" where
  "desk_live c = bump_live (fst c)"

definition desk_mapped :: "desk \<Rightarrow> nat set" where
  "desk_mapped c = mapped_bytes (snd c)"

section \<open>The contract\<close>

lemma small_sum: "small_pages k j \<Longrightarrow> unat (k + j) = unat k + unat j"
  by (rule unat_add_exact) (simp add: small_pages_def word_less_nat_alt)

lemma top_page_pos: "16 \<le> unat (top_page l)"
proof (induction l rule: top_page.induct)
  case (2 k j l)
  then show ?case using small_sum [of k j] by (auto simp: max_def word_le_nat_alt)
qed simp_all

lemma mapped_below: "x \<in> mapped_bytes l \<Longrightarrow> x < 4096 * unat (top_page l)"
proof (induction l rule: top_page.induct)
  case (2 k j l)
  show ?case
  proof (cases "small_pages k j")
    case True
    have m: "unat (max (top_page l) (k + j)) = max (unat (top_page l)) (unat k + unat j)"
      using small_sum [OF True] by (simp add: max_def word_le_nat_alt)
    have "x < 4096 * unat (top_page l) \<or> x < 4096 * (unat k + unat j)"
      using 2 True by (auto simp: byte_range_def)
    then have "x < 4096 * max (unat (top_page l)) (unat k + unat j)" by (simp add: max_def) linarith
    then show ?thesis using True by (simp add: m)
  qed (use 2 in simp)
qed auto

lemma pages_round: "unat (n :: u64) < 0x10000000 \<Longrightarrow> 4096 * unat (drop_bit 12 (n + 4095)) = page_round 4096 (unat n)"
proof -
  assume "unat n < 0x10000000"
  then have "unat (n + 4095) = unat n + 4095" using unat_add_exact [of n 4095] by simp
  then show ?thesis by (simp add: unat_div drop_bit_eq_div page_round_def)
qed

lemma desk_mmap_ok: "mmap_ok desk_sys desk_live desk_mapped"
  unfolding mmap_ok_def
proof (intro allI impI)
  fix c n rw m c'
  assume run: "sys_mmap desk_sys c n rw = (m, c')"
  let ?k = "top_page (snd c)" and ?j = "drop_bit 12 (n + 4095) :: u64"
  have pg: "page_bytes desk_sys = 4096"
    by (simp add: page_bytes_def memx_os_page_size_def desk_sys_def)
  show "desk_live c' = desk_live c \<and> (m = None \<longrightarrow> desk_mapped c' = desk_mapped c)
     \<and> (\<forall>p. m = Some p \<longrightarrow> p \<noteq> 0 \<and> page_bytes desk_sys dvd unat p
          \<and> unat p + page_round (page_bytes desk_sys) (unat n) \<le> 2 ^ 64
          \<and> byte_range (unat p) (page_round (page_bytes desk_sys) (unat n)) \<inter> desk_mapped c = {}
          \<and> desk_mapped c' = desk_mapped c \<union> byte_range (unat p) (page_round (page_bytes desk_sys) (unat n)))"
  proof (cases "n < 0x10000000 \<and> ?k < 0x40000000")
    case True
    then have r: "m = Some (push_bit 12 ?k)" "c' = (fst c, Mapped ?k ?j # snd c)"
      using run by (auto simp: desk_sys_def desk_mmap_def Let_def)
    have b: "unat n < 0x10000000" "unat ?k < 0x40000000" using True by (simp_all add: word_less_nat_alt)
    have jr: "4096 * unat ?j = page_round 4096 (unat n)" by (rule pages_round [OF b(1)])
    have "page_round 4096 (unat n) < unat n + 4096" by (simp add: page_round_def)
    then have jb: "unat ?j < 0x40000000" using jr b(1) by linarith
    have sp: "small_pages ?k ?j" using True jb by (simp add: small_pages_def word_less_nat_alt)
    have u: "unat (push_bit 12 ?k) = 4096 * unat ?k"
      using b(2) by (simp add: push_bit_eq_mult unat_mult_exact)
    have nz: "push_bit 12 ?k \<noteq> 0"
    proof
      assume "push_bit 12 ?k = 0"
      then have "4096 * unat ?k = 0" using u by (metis unat_0)
      then show False using top_page_pos [of "snd c"] by simp
    qed
    have "byte_range (4096 * unat ?k) (4096 * unat ?j) \<inter> mapped_bytes (snd c) = {}"
      using mapped_below [of _ "snd c"] by (fastforce simp: byte_range_def)
    then show ?thesis
      using r sp b jb nz unfolding pg jr [symmetric]
      by (simp add: u desk_live_def desk_mapped_def)
  qed (use run in \<open>auto simp: desk_sys_def desk_mmap_def Let_def\<close>)
qed

lemma desk_contract: "env_contract desk_env desk_live desk_mapped"
proof -
  have pg: "page_bytes desk_sys = 4096"
    by (simp add: page_bytes_def memx_os_page_size_def desk_sys_def)
  have "\<exists>k<63. (4096 :: nat) = 2 ^ k" by (intro exI [of _ 12]) simp
  then have s: "sys_contract desk_sys desk_live desk_mapped"
    unfolding sys_contract_def pg
    using desk_mmap_ok by (simp add: munmap_ok_def others_ok_def desk_sys_def desk_live_def desk_mapped_def pg [unfolded desk_sys_def])
  have "allocator_contract bump_allocator bump_live" by (rule bump_contract)
  then have b: "\<And>b n p b'. bump_allocate b n = (p, b') \<Longrightarrow>
      (if p = 0 then bump_live b' = bump_live b else p \<notin> bump_live b \<and> bump_live b' = insert p (bump_live b))"
    and r: "\<And>b p. p \<noteq> 0 \<Longrightarrow> p \<in> bump_live b \<Longrightarrow> bump_live (bump_release b p) = bump_live b - {p}"
    by (simp_all only: allocator_contract_def bump_allocator_def memx_allocator.simps option.inject) blast+
  have d: "if p = 0 then desk_live c' = desk_live c else p \<notin> desk_live c \<and> desk_live c' = insert p (desk_live c)"
    if "libc_malloc desk_libc c n = (p, c')" for c n p c'
    using b [of "fst c" n p "fst c'"] that by (cases "bump_allocate (fst c) n") (auto simp: desk_libc_def desk_live_def)
  have r': "desk_live (libc_free desk_libc c p) = desk_live c - {p}" if "p \<noteq> 0" "p \<in> desk_live c" for c p
    using r [of p "fst c"] that by (simp add: desk_libc_def desk_live_def)
  have f: "allocate (he_allocator desk_env) = Some (libc_malloc desk_libc)"
    "deallocate (he_allocator desk_env) = Some (libc_free desk_libc)"
    by (simp_all add: he_allocator_def desk_env_def memx_default_allocate_def memx_default_deallocate_def fun_eq_iff)
  have a: "allocator_contract (he_allocator desk_env) desk_live"
    unfolding allocator_contract_def
    by (intro exI [of _ "libc_malloc desk_libc"] exI [of _ "libc_free desk_libc"] conjI allI impI f d r')
  show ?thesis
    using s a by (simp add: env_contract_def desk_env_def desk_libc_def desk_live_def desk_mapped_def split_beta Let_def)
qed

section \<open>A heap\<close>

definition desk_world :: "desk heap_world" where
  "desk_world = \<lparr>hw_heap = undefined,
     hw_mem = \<lparr>heap = Map.empty, maps = Map.empty, huge_page_cache = SIZE_MAX, ctx = ((100, []), [])\<rparr>,
     hw_blocks = Map.empty, hw_bytes = Map.empty, hw_spans = Map.empty, hw_larges = Map.empty,
     hw_caches = Map.empty, hw_tls = (\<lambda>t. 0), hw_tls_last = (\<lambda>t. 0), hw_huge_cache = SIZE_MAX\<rparr>"

definition desk_config :: memx_heap_config where
  "desk_config = \<lparr>hc_reserve_size = 0x8000, hc_span_shift = 14, hc_cache_batch = 4, hc_cache_limit = 4,
     hc_collect_activity_statistics = True\<rparr>"

lemma desk_fresh: "fresh_world desk_env desk_live desk_world"
  using desk_contract
  by (simp add: fresh_world_def desk_world_def world_ok_def env_contract_def desk_live_def bump_live_def)

fun created_ok :: "(memx_heap_status \<times> u64 \<times> 'w) option \<Rightarrow> bool" where
  "created_ok (Some (MEMX_HEAP_OK, p, w)) = True"
| "created_ok _ = False"

declare memx_config_default_def [code_unfold]

lemma desk_creates: "created_ok (memx_heap_create desk_env (Some desk_config) True desk_world)"
  by code_simp


definition desk_heap :: "desk heap_world" where
  "desk_heap = (case memx_heap_create desk_env (Some desk_config) True desk_world of
     Some (st, p, w) \<Rightarrow> w | None \<Rightarrow> desk_world)"

lemma desk_created:
  "\<exists>p. memx_heap_create desk_env (Some desk_config) True desk_world = Some (MEMX_HEAP_OK, p, desk_heap)"
  using desk_creates
  by (cases "memx_heap_create desk_env (Some desk_config) True desk_world" rule: created_ok.cases)
    (simp_all add: desk_heap_def)

lemma desk_heap_ok: "heap_ok desk_env desk_live desk_mapped desk_heap" "objects desk_heap Map.empty"
  using heap_create_ok [OF desk_contract desk_fresh, of "Some desk_config" True] desk_created by auto

section \<open>A thread with a cache\<close>

text \<open>Giving a thread its cache keeps the invariant and every object.\<close>

lemma get_cache_heap_ok:
  assumes c: "env_contract E live mapped" and h: "heap_ok E live mapped w" and o: "objects w A"
  shows "\<exists>p w'. memx_heap_get_cache E t w = Some (p, w') \<and> heap_ok E live mapped w' \<and> objects w' A"
proof -
  obtain M fr fl heads tls hl ws ch where H: "alloc_inv E live mapped M fr fl heads tls hl w"
    "\<And>j. fl (Hand j) = []" "large_part E M fr ws ch {} w" "sizes_ok w" "hp_self (hw_heap w) \<noteq> 0"
    by (rule heap_okE [OF h]) blast
  obtain p w' fr' tls' hl' where g: "memx_heap_get_cache E t w = Some (p, w')"
    "alloc_inv E live mapped M fr' fl heads tls' hl' w'" "fr \<subseteq>\<^sub>m fr'" "alloc_frame w w'"
    using get_cache_ok [OF c H(1)] by blast
  have "small_allocated w k n 0 w'" for k n
    using g(4) small_at_frame [OF g(4) alloc_states [OF H(1)]] by (simp add: small_allocated_def alloc_frame_def)
  then have s: "outer (hw_heap w') = outer (hw_heap w)" "hw_larges w' = hw_larges w"
    "\<And>q. \<not> in_arena (hw_heap w) q \<Longrightarrow> hw_bytes w' q = hw_bytes w q"
    "\<And>q. small_at w q \<noteq> None \<Longrightarrow> hw_bytes w' q = hw_bytes w q" and sa: "small_at w' = small_at w"
    by (simp_all add: small_allocated_def)
  note L = large_part_small [OF c H(3) g(3) s(1-3)]
  have lb: "hw_bytes w' q = hw_bytes w q" if "large_at w q m" for q m
    by (rule s(3)) (rule large_live(1) [OF c H(3) that])
  have "sizes_ok w'" using H(4) s(4) unfolding sizes_ok_def sa by (metis option.distinct(1))
  then have "heap_ok E live mapped w'"
    using heap_okI [OF g(2) allI [OF H(2)] L(1)] H(2,5) arena_fields(1) [OF s(1)] by simp
  moreover have "objects w' A"
    by (rule objects_same [OF o]) (use s(4) lb in \<open>auto simp: size_at_def sa L(2)\<close>)
  ultimately show ?thesis using g(1) by blast
qed

declare find_cache_loop.simps [code]

definition desk_cached :: "desk heap_world" where
  "desk_cached = (case memx_heap_get_cache desk_env 0 desk_heap of Some (c, w) \<Rightarrow> w | None \<Rightarrow> desk_heap)"

lemma desk_cached_made: "hw_tls desk_cached 0 = 80 \<and> hp_self (hw_heap desk_cached) = hp_self (hw_heap desk_heap)
   \<and> (case hw_caches desk_cached 80 of Some r \<Rightarrow> ch_tls_next r = 0 \<and> ch_heap r = hp_self (hw_heap desk_cached) | None \<Rightarrow> False)"
  by code_simp

lemma desk_cached_ok: "heap_ok desk_env desk_live desk_mapped desk_cached" "objects desk_cached Map.empty"
  using get_cache_heap_ok [OF desk_contract desk_heap_ok, of 0] by (auto simp: desk_cached_def)

section \<open>Two objects\<close>

text \<open>What the first large allocation asks for is granted.\<close>

lemma desk_supplied: "supplied desk_env max_align 9000 64 (ctx (hw_mem desk_heap))"
  by code_simp

lemma desk_table: "hp_large_bucket_count (hw_heap desk_heap) = 0"
  by code_simp

text \<open>The state of the environment after it, computed call by call.\<close>

definition desk_calls :: "desk \<Rightarrow> u64 \<times> (u64 \<times> u64) option \<times> u64 \<times> desk" where
  "desk_calls c = (let (x, c) = libc_malloc desk_libc c sizeof_large;
     (r, c) = memx_os_large_allocate desk_sys 9000 max_align c;
     (b, c) = libc_malloc desk_libc c (MEMX_HEAP_LARGE_MIN_BUCKETS * 8) in (x, map_option fst r, b, c))"

lemma desk_second_supplied:
  "supplied desk_env max_align 9000 128 (snd (snd (snd (desk_calls (ctx (hw_mem desk_heap))))))"
  by code_simp

lemma desk_one:
  "\<exists>p w A bs. memx_heap_malloc desk_env 0 (hp_self (hw_heap desk_heap)) 9000 desk_heap = Some (p, w)
    \<and> heap_ok desk_env desk_live desk_mapped w \<and> objects w A \<and> A p = Some bs \<and> length bs = 9000
    \<and> same_heap desk_heap w \<and> ctx (hw_mem w) = snd (snd (snd (desk_calls (ctx (hw_mem desk_heap)))))
    \<and> hp_large_bucket_count (hw_heap w) = 64"
proof -
  let ?c = "ctx (hw_mem desk_heap)"
  obtain p w A where m: "memx_heap_malloc desk_env 0 (hp_self (hw_heap desk_heap)) 9000 desk_heap = Some (p, w)"
    "heap_ok desk_env desk_live desk_mapped w" "objects w A" "same_heap desk_heap w" "allocated Map.empty (request 9000) p A"
    using malloc_ok [OF desk_contract desk_heap_ok] by blast
  have t: "table_size desk_heap = 64"
    by (simp add: table_size_def desk_table MEMX_HEAP_LARGE_MIN_BUCKETS_def)
  have s: "supplied desk_env max_align 9000 (table_size desk_heap) ?c" using desk_supplied by (simp add: t)
  have p0: "p \<noteq> 0" by (rule malloc_supplied [OF desk_contract _ m(1) desk_heap_ok(1) _ s]) (simp_all add: desk_table)
  obtain bs where bs: "A p = Some bs" "length bs = 9000"
    using m(5) p0 by (auto simp: allocated_def request_def)
  obtain x c1 r c2 b c3 where c: "libc_malloc desk_libc ?c sizeof_large = (x, c1)"
    "memx_os_large_allocate desk_sys 9000 max_align c1 = (r, c2)"
    "libc_malloc desk_libc c2 (MEMX_HEAP_LARGE_MIN_BUCKETS * 8) = (b, c3)" by (metis surj_pair)
  have nz: "x \<noteq> 0" "r \<noteq> None" "b \<noteq> 0"
    using s c by (auto simp: supplied_def t desk_env_def MEMX_HEAP_LARGE_MIN_BUCKETS_def)
  obtain mp ptr where r: "r = Some (mp, ptr)" using nz(2) by auto
  have e: "memx_heap_allocate_large desk_env max_align 9000 desk_heap = Some (p, w)"
    using m(1) malloc_large [OF _ desk_heap_ok(1), of 9000] by simp
  have z: "hp_large_bucket_count (hw_heap desk_heap) = 0" "hp_large_buckets (hw_heap desk_heap) = 0"
    by (rule desk_table, code_simp)
  have "ctx (hw_mem w) = c3" "hp_large_bucket_count (hw_heap w) = MEMX_HEAP_LARGE_MIN_BUCKETS"
    using allocate_first_state [OF e z, of x c1 mp ptr c2 b c3] c nz r by (simp_all add: desk_env_def)
  moreover have "snd (snd (snd (desk_calls ?c))) = c3" using c by (simp add: desk_calls_def)
  ultimately show ?thesis using m(1-4) bs by (auto simp: MEMX_HEAP_LARGE_MIN_BUCKETS_def)
qed

lemma desk_two:
  "\<exists>w A p q bs cs. heap_ok desk_env desk_live desk_mapped w \<and> objects w A \<and> A p = Some bs \<and> A q = Some cs
    \<and> p \<noteq> q \<and> length bs = 9000 \<and> length cs = 9000"
proof -
  obtain p w A bs where 1: "heap_ok desk_env desk_live desk_mapped w" "objects w A" "A p = Some bs" "length bs = 9000"
    "ctx (hw_mem w) = snd (snd (snd (desk_calls (ctx (hw_mem desk_heap)))))" "hp_large_bucket_count (hw_heap w) = 64"
    using desk_one by blast
  obtain q w' A' where m: "memx_heap_malloc desk_env 0 (hp_self (hw_heap w)) 9000 w = Some (q, w')"
    "heap_ok desk_env desk_live desk_mapped w'" "objects w' A'" "same_heap w w'" "allocated A (request 9000) q A'"
    using malloc_ok [OF desk_contract 1(1,2)] by blast
  have s: "supplied desk_env max_align 9000 (table_size w) (ctx (hw_mem w))"
    using desk_second_supplied by (simp add: 1(5,6) table_size_def)
  have q0: "q \<noteq> 0" by (rule malloc_supplied [OF desk_contract _ m(1) 1(1) _ s]) (simp_all add: 1(6))
  obtain cs where cs: "A q = None" "length cs = unat (request 9000)" "A' = A(q \<mapsto> cs)" by (rule allocatedD [OF m(5) q0])
  have "q \<noteq> p" using cs(1) 1(3) by auto
  then show ?thesis using m(2,3) cs 1(3,4)
    by (intro exI [of _ w'] exI [of _ A'] exI [of _ p] exI [of _ q] exI [of _ bs] exI [of _ cs]) (simp add: request_def)
qed

end
