(* ===== verification/Memx_HeapProperties.thy ===== *)
theory Memx_HeapProperties
  imports Memx_Sequences Memx_HeapExamples
begin

text \<open>
  The promises of the allocator to its clients.  \<open>objects w A\<close> reads a world as the abstract heap
  \<open>A\<close>, from the address of a live object to its bytes; \<^const>\<open>heap_ok\<close> is the invariant, and
  \<^const>\<open>env_contract\<close> what the C library and the kernel document.
\<close>

section \<open>Creation and sequences of calls\<close>

text \<open>C8: \<^verbatim>\<open>memx_heap_create\<close> returns.  Either it reports an error, and then the C heap and the
  mapped bytes are what they were, or the new heap satisfies the invariant and has no objects; a
  configuration it does not accept is an error.\<close>

theorem memx_heap_create_correct:
  assumes "env_contract E live mapped" and "fresh_world E live w"
  shows "\<exists>st p w'. memx_heap_create E (Some cfg) True w = Some (st, p, w')
    \<and> (if st = MEMX_HEAP_OK
        then heap_config_valid (he_sys E) cfg \<and> hp_self (hw_heap w') = p \<and> hp_config (hw_heap w') = cfg
          \<and> heap_ok E live mapped w' \<and> objects w' Map.empty
        else p = 0 \<and> heap (hw_mem w') = heap (hw_mem w)
          \<and> mapped (ctx (hw_mem w')) = mapped (ctx (hw_mem w)))"
  using heap_create_ok [OF assms, of "Some cfg" True] by (auto simp: undone_def split: if_splits)

theorem memx_heap_create_correct_witness:
  "\<exists>p w'. memx_heap_create desk_env (Some desk_config) True desk_world = Some (MEMX_HEAP_OK, p, w')
    \<and> heap_ok desk_env desk_live desk_mapped w' \<and> objects w' Map.empty"
proof -
  obtain p where "memx_heap_create desk_env (Some desk_config) True desk_world = Some (MEMX_HEAP_OK, p, desk_heap)"
    using desk_created by blast
  with memx_heap_create_correct [OF desk_contract desk_fresh, of desk_config] show ?thesis by auto
qed

text \<open>C7: after a successful creation every sequence of calls by any threads returns, and the
  answers are those of the abstract heap: allocations answer fresh objects or null and keep every
  other object, frees are accepted exactly for null and live pointers, resizes keep the bytes, and
  bytes change only where a client writes.\<close>

theorem memx_heap_calls_refine:
  assumes "env_contract E live mapped" and "fresh_world E live w"
    and "memx_heap_create E (Some cfg) True w = Some (MEMX_HEAP_OK, p, w1)"
  shows "\<exists>as w' A. heap_run E calls w1 = Some (as, w') \<and> heap_specs calls Map.empty as A
    \<and> objects w' A \<and> heap_ok E live mapped w'"
proof -
  have "heap_ok E live mapped w1" "objects w1 Map.empty"
    using heap_create_ok [OF assms(1,2), of "Some cfg" True] assms(3) by auto
  from heap_run_ok [OF assms(1) this, of calls] show ?thesis by blast
qed

theorem memx_heap_calls_refine_witness:
  "\<exists>as w' A. heap_run desk_env [(0, Malloc_Call 24), (1, Calloc_Call 3 7), (0, Detach_Call), (1, Free_Call 99)] desk_heap
      = Some (as, w')
    \<and> heap_specs [(0, Malloc_Call 24), (1, Calloc_Call 3 7), (0, Detach_Call), (1, Free_Call 99)] Map.empty as A"
proof -
  obtain p where "memx_heap_create desk_env (Some desk_config) True desk_world = Some (MEMX_HEAP_OK, p, desk_heap)"
    using desk_created by blast
  from memx_heap_calls_refine [OF desk_contract desk_fresh this] show ?thesis by blast
qed

section \<open>The operations\<close>

text \<open>C9: \<^verbatim>\<open>memx_heap_malloc\<close> returns null and changes no object, or a 16-byte aligned pointer to a
  new object of the requested size (1 for a request of 0), and every other object keeps its bytes.\<close>

theorem memx_heap_malloc_correct:
  assumes "env_contract E live mapped" and "heap_ok E live mapped w" and "objects w A"
  shows "\<exists>p w' A'. memx_heap_malloc E t (hp_self (hw_heap w)) n w = Some (p, w') \<and> heap_ok E live mapped w'
    \<and> objects w' A' \<and> 16 dvd unat p
    \<and> (if p = 0 then A' = A
       else A p = None \<and> (\<exists>bs. length bs = unat (if n = 0 then 1 else n) \<and> A' = A(p \<mapsto> bs)))"
proof -
  obtain p w' A' where "memx_heap_malloc E t (hp_self (hw_heap w)) n w = Some (p, w')" "heap_ok E live mapped w'"
    "objects w' A'" "allocated A (request n) p A'" "16 dvd unat p" using malloc_ok [OF assms] by blast
  then show ?thesis unfolding allocated_def request_def
    by (intro exI [of _ p] exI [of _ w'] exI [of _ A']) simp
qed

theorem memx_heap_malloc_correct_witness:
  "\<exists>p w' A'. memx_heap_malloc desk_env 0 (hp_self (hw_heap desk_heap)) 24 desk_heap = Some (p, w')
    \<and> objects w' A' \<and> (if p = 0 then A' = Map.empty else \<exists>bs. length bs = 24 \<and> A' = [p \<mapsto> bs])"
  using memx_heap_malloc_correct [OF desk_contract desk_heap_ok, of 0 24]
  by (elim exE conjE) (intro exI conjI, assumption+, auto split: if_splits)

text \<open>C12: \<^verbatim>\<open>memx_heap_calloc\<close> refuses every product that does not fit a word, and otherwise answers
  null or a new object whose first \<open>count * sz\<close> bytes are zero.\<close>

theorem memx_heap_calloc_correct:
  assumes "env_contract E live mapped" and "heap_ok E live mapped w" and "objects w A"
  shows "\<exists>p w' A'. memx_heap_calloc E t (hp_self (hw_heap w)) count sz w = Some (p, w') \<and> heap_ok E live mapped w'
    \<and> objects w' A'
    \<and> (if p = 0 then A' = A
       else A p = None \<and> unat count * unat sz < 2 ^ 64 \<and> 16 dvd unat p
         \<and> (\<exists>bs. A' = A(p \<mapsto> bs) \<and> length bs = unat (request (count * sz))
              \<and> take (unat count * unat sz) bs = replicate (unat count * unat sz) 0))"
  using calloc_ok [OF assms, of t count sz] by blast

theorem memx_heap_calloc_correct_witness:
  "\<exists>p w' A'. memx_heap_calloc desk_env 0 (hp_self (hw_heap desk_heap)) 3 7 desk_heap = Some (p, w')
    \<and> objects w' A' \<and> (p \<noteq> 0 \<longrightarrow> (\<exists>bs. A' = [p \<mapsto> bs] \<and> take 21 bs = replicate 21 0))"
proof -
  obtain p w' A' where r: "memx_heap_calloc desk_env 0 (hp_self (hw_heap desk_heap)) 3 7 desk_heap = Some (p, w')"
    "objects w' A'" "if p = 0 then A' = Map.empty
       else Map.empty p = (None :: u8 list option) \<and> unat (3 :: u64) * unat (7 :: u64) < 2 ^ 64 \<and> 16 dvd unat p
         \<and> (\<exists>bs. A' = Map.empty(p \<mapsto> bs) \<and> length bs = unat (request (3 * 7))
              \<and> take (unat (3 :: u64) * unat (7 :: u64)) bs = replicate (unat (3 :: u64) * unat (7 :: u64)) 0)"
    using memx_heap_calloc_correct [OF desk_contract desk_heap_ok, of 0 3 7] by blast
  have "p \<noteq> 0 \<longrightarrow> (\<exists>bs. A' = [p \<mapsto> bs] \<and> take 21 bs = replicate 21 0)" using r(3) by auto
  then show ?thesis using r(1,2) by blast
qed

text \<open>C10: \<^verbatim>\<open>memx_heap_free\<close> accepts a pointer exactly when it is null or a live object: a second
  free, an interior pointer and a foreign address are refused, and then no object changes.\<close>

theorem memx_heap_free_exact:
  assumes "env_contract E live mapped" and "heap_ok E live mapped w" and "objects w A"
  shows "\<exists>w'. memx_heap_free E t (hp_self (hw_heap w)) p w = Some (p = 0 \<or> A p \<noteq> None, w')
    \<and> heap_ok E live mapped w' \<and> objects w' (A(p := None))"
proof (cases "p = 0")
  case True
  have "A(p := None) = A" using objects_null [OF assms] True by (simp add: fun_upd_idem)
  then show ?thesis using True assms(2,3) by (simp add: memx_heap_free_def)
next
  case False
  then show ?thesis using free_ok [OF assms False, of t] by auto
qed

theorem memx_heap_free_exact_witness:
  "\<exists>p w w1 w2. heap_ok desk_env desk_live desk_mapped w
    \<and> memx_heap_free desk_env 0 (hp_self (hw_heap w)) p w = Some (True, w1)
    \<and> memx_heap_free desk_env 1 (hp_self (hw_heap w1)) p w1 = Some (False, w2)"
proof -
  obtain p w A bs where 1: "heap_ok desk_env desk_live desk_mapped w" "objects w A" "A p = Some bs"
    using desk_one by blast
  have p0: "p \<noteq> 0" using objects_null [OF desk_contract 1(1,2)] 1(3) by auto
  obtain w1 where w1: "memx_heap_free desk_env 0 (hp_self (hw_heap w)) p w = Some (p = 0 \<or> A p \<noteq> None, w1)"
    "heap_ok desk_env desk_live desk_mapped w1" "objects w1 (A(p := None))"
    using memx_heap_free_exact [OF desk_contract 1(1,2)] by blast
  obtain w2 where "memx_heap_free desk_env 1 (hp_self (hw_heap w1)) p w1
      = Some (p = 0 \<or> (A(p := None)) p \<noteq> None, w2)"
    using memx_heap_free_exact [OF desk_contract w1(2,3)] by blast
  then show ?thesis using 1(1,3) w1(1) p0 by auto
qed

text \<open>C11: \<^verbatim>\<open>memx_heap_realloc\<close> of a nonnull pointer to a positive size answers null and changes no
  object, which it always does for a pointer that is not live, or the pointer of an object of the
  new size that begins with the old bytes; the old object is then gone unless it is the answer.\<close>

theorem memx_heap_realloc_correct:
  assumes "env_contract E live mapped" and "heap_ok E live mapped w" and "objects w A" and "p \<noteq> 0" and "n \<noteq> 0"
  shows "\<exists>q w' A'. memx_heap_realloc E t (hp_self (hw_heap w)) p n w = Some (q, w') \<and> heap_ok E live mapped w'
    \<and> objects w' A'
    \<and> (if q = 0 then A' = A
       else (q = p \<or> A q = None) \<and> (\<exists>bs bs'. A p = Some bs \<and> length bs' = unat n
         \<and> take (min (length bs) (unat n)) bs' = take (min (length bs) (unat n)) bs
         \<and> A' = (A(p := None))(q \<mapsto> bs')))"
  using realloc_ok [OF assms, of t] unfolding reallocated_def resized_def
  by (elim exE conjE) (intro exI conjI, assumption+, auto split: if_splits)

theorem memx_heap_realloc_correct_witness:
  "\<exists>p w q w' A'. heap_ok desk_env desk_live desk_mapped w
    \<and> memx_heap_realloc desk_env 1 (hp_self (hw_heap w)) p 12000 w = Some (q, w') \<and> objects w' A'
    \<and> (q \<noteq> 0 \<longrightarrow> (\<exists>bs'. A' q = Some bs' \<and> length bs' = 12000))"
proof -
  obtain p w A bs where 1: "heap_ok desk_env desk_live desk_mapped w" "objects w A" "A p = Some bs"
    using desk_one by blast
  have p0: "p \<noteq> 0" using objects_null [OF desk_contract 1(1,2)] 1(3) by auto
  obtain q w' A' where r: "memx_heap_realloc desk_env 1 (hp_self (hw_heap w)) p 12000 w = Some (q, w')" "objects w' A'"
    "if q = 0 then A' = A
       else (q = p \<or> A q = None) \<and> (\<exists>bs bs'. A p = Some bs \<and> length bs' = unat (12000 :: u64)
         \<and> take (min (length bs) (unat (12000 :: u64))) bs' = take (min (length bs) (unat (12000 :: u64))) bs
         \<and> A' = (A(p := None))(q \<mapsto> bs'))"
    using memx_heap_realloc_correct [OF desk_contract 1(1,2) p0, of 12000 1] by auto
  have "q \<noteq> 0 \<longrightarrow> (\<exists>bs'. A' q = Some bs' \<and> length bs' = 12000)" using r(3) by auto
  then show ?thesis using 1(1) r(1,2) by blast
qed

text \<open>C14: on a live pointer the unchecked operations do what the checked ones promise:
  \<^verbatim>\<open>memx_heap_free_unchecked\<close> ends the life of the object and of no other, and
  \<^verbatim>\<open>memx_heap_realloc_unchecked\<close> resizes it.\<close>

theorem memx_heap_unchecked_correct:
  assumes "env_contract E live mapped" and "heap_ok E live mapped w" and "objects w A" and "A p = Some bs"
    and "n \<noteq> 0"
  shows "(\<exists>w'. memx_heap_free_unchecked E t (hp_self (hw_heap w)) p w = Some w' \<and> heap_ok E live mapped w'
      \<and> objects w' (A(p := None)))
    \<and> (\<exists>q w' A'. memx_heap_realloc_unchecked E t (hp_self (hw_heap w)) p n w = Some (q, w')
      \<and> heap_ok E live mapped w' \<and> objects w' A' \<and> reallocated A p n q A')"
proof -
  have "A p \<noteq> None" using assms(4) by simp
  then show ?thesis
    using free_unchecked_ok [OF assms(1-3), of p t] realloc_unchecked_ok [OF assms, of t] by blast
qed

theorem memx_heap_unchecked_correct_witness:
  "\<exists>p w w' A'. heap_ok desk_env desk_live desk_mapped w
    \<and> memx_heap_free_unchecked desk_env 3 (hp_self (hw_heap w)) p w = Some w' \<and> objects w' A' \<and> A' p = None"
proof -
  obtain p w A bs where 1: "heap_ok desk_env desk_live desk_mapped w" "objects w A" "A p = Some bs"
    using desk_one by blast
  obtain w' where "memx_heap_free_unchecked desk_env 3 (hp_self (hw_heap w)) p w = Some w'" "objects w' (A(p := None))"
    using memx_heap_unchecked_correct [OF desk_contract 1, of 1 3] by auto
  then show ?thesis using 1(1) fun_upd_same by metis
qed

section \<open>Objects in memory\<close>

text \<open>C13: live objects do not overlap, and their bytes are mapped.\<close>

theorem memx_heap_objects_apart:
  assumes "env_contract E live mapped" and "heap_ok E live mapped w" and "objects w A"
    and "A p = Some bs" and "A q = Some cs" and "p \<noteq> q"
  shows "byte_range (unat p) (length bs) \<inter> byte_range (unat q) (length cs) = {}
    \<and> byte_range (unat p) (length bs) \<subseteq> mapped (ctx (hw_mem w))"
  using objects_apart [OF assms] objects_mapped [OF assms(1-4)] by blast

theorem memx_heap_objects_apart_witness:
  "\<exists>w p q. heap_ok desk_env desk_live desk_mapped w
    \<and> byte_range (unat p) 9000 \<inter> byte_range (unat (q :: u64)) 9000 = {}
    \<and> byte_range (unat (p :: u64)) 9000 \<subseteq> desk_mapped (ctx (hw_mem w))"
proof -
  obtain w A p q bs cs where 1: "heap_ok desk_env desk_live desk_mapped w" "objects w A" "A p = Some bs"
    "A q = Some cs" "p \<noteq> q" "length bs = 9000" "length cs = 9000" using desk_two by blast
  from memx_heap_objects_apart [OF desk_contract 1(1-5)] 1(1,6,7) show ?thesis by auto
qed

section \<open>Progress\<close>

text \<open>C15: detaching a thread returns in every state, and no object is lost or changed.  If the thread has a
  cache of the heap, the cache leaves the thread's list and is the thread's last cache no more, its queue
  is closed to remote frees, all its lists and counts are zero, and in every class the blocks of the
  central bin are those it held before and those the cache held, the ones other threads have freed to
  it included; without a cache, nothing changes.\<close>

theorem memx_heap_thread_detach_returns:
  assumes "env_contract E live mapped" and "heap_ok E live mapped w" and "objects w A"
  shows "\<exists>w'. memx_heap_thread_detach t (hp_self (hw_heap w)) w = Some w' \<and> heap_ok E live mapped w' \<and> objects w' A
    \<and> detached t w w'"
  using detach_ok [OF assms, of t] by blast

theorem memx_heap_thread_detach_returns_witness:
  "\<exists>w'. hw_tls desk_cached 0 = 80
    \<and> memx_heap_thread_detach 0 (hp_self (hw_heap desk_cached)) desk_cached = Some w' \<and> hw_tls w' 0 = 0
    \<and> (\<exists>r. own_cache w' 80 = Some r \<and> cache_empty r \<and> \<not> ch_accepting_remote r)"
proof -
  have tc: "thread_cache 0 desk_cached [] 80 []"
    using desk_cached_made by (auto simp: thread_cache_def tnext_def own_cache_def split: option.splits)
  obtain w' where d: "memx_heap_thread_detach 0 (hp_self (hw_heap desk_cached)) desk_cached = Some w'"
    "detached 0 desk_cached w'"
    using memx_heap_thread_detach_returns [OF desk_contract desk_cached_ok, of 0] by blast
  then have "linked (tnext w') (hw_tls w' 0) ([] @ [])
      \<and> (\<exists>r. own_cache w' 80 = Some r \<and> cache_empty r \<and> \<not> ch_accepting_remote r)"
    using tc unfolding detached_def by blast
  then show ?thesis using d(1) desk_cached_made by auto
qed

text \<open>C16: an allocation above the largest class answers an object whenever the requests it makes are
  granted: the record by \<^verbatim>\<open>malloc\<close>, the mapping by \<^verbatim>\<open>mmap\<close>, and a larger table by \<^verbatim>\<open>calloc\<close>; the
  table must have fewer than \<open>2 ^ 59\<close> buckets, so that its doubled size is a 64-bit number of bytes.\<close>

theorem memx_heap_large_allocation_progress:
  assumes "env_contract E live mapped" and "heap_ok E live mapped w" and "8192 < n"
    and "hp_large_bucket_count (hw_heap w) < 0x800000000000000"
    and "supplied E max_align n (table_size w) (ctx (hw_mem w))"
  shows "\<exists>p w'. memx_heap_malloc E t (hp_self (hw_heap w)) n w = Some (p, w') \<and> p \<noteq> 0"
proof -
  obtain A where "objects w A" using objects_exist [OF assms(1,2)] by blast
  then obtain p w' where r: "memx_heap_malloc E t (hp_self (hw_heap w)) n w = Some (p, w')"
    using malloc_ok [OF assms(1,2), of A t n] by blast
  have "p \<noteq> 0" by (rule malloc_supplied [OF assms(1,3) r assms(2,4,5)])
  with r show ?thesis by blast
qed

theorem memx_heap_large_allocation_progress_witness:
  "\<exists>p w'. memx_heap_malloc desk_env 2 (hp_self (hw_heap desk_heap)) 9000 desk_heap = Some (p, w') \<and> p \<noteq> 0"
proof -
  have t: "table_size desk_heap = 64"
    by (simp add: table_size_def desk_table MEMX_HEAP_LARGE_MIN_BUCKETS_def)
  show ?thesis
    by (rule memx_heap_large_allocation_progress [OF desk_contract desk_heap_ok(1)])
      (simp_all add: desk_table t desk_supplied)
qed

section \<open>Size classes\<close>

lemma class_size_mono: "i \<le> j \<Longrightarrow> j < 19 \<Longrightarrow> class_size i \<le> class_size j"
proof -
  assume a: "i \<le> j" "j < 19"
  have "sorted (map unat memx_heap_class_sizes)" by (simp add: memx_heap_class_sizes_def)
  moreover have l: "length memx_heap_class_sizes = 19" by (simp add: memx_heap_class_sizes_def)
  ultimately have "map unat memx_heap_class_sizes ! i \<le> map unat memx_heap_class_sizes ! j"
    using a by (intro sorted_nth_mono) simp_all
  then show ?thesis using a l by (simp add: class_size_def)
qed

text \<open>C17: the size class of a request: a positive size up to 8192 gets the least of the 19 classes that
  holds it, found through the table of leading bits, and a larger one is sent to the large path.\<close>

theorem memx_heap_class_for_size_least:
  assumes "sz \<noteq> 0"
  shows "if unat sz \<le> 8192
     then unat (memx_heap_class_for_size sz) < 19
       \<and> unat (memx_heap_class_for_size sz) = (LEAST k. unat sz \<le> class_size k)
     else 19 \<le> unat (memx_heap_class_for_size sz)"
proof (cases "unat sz \<le> 8192")
  case True
  let ?c = "unat (memx_heap_class_for_size sz)"
  have s: "?c < 19" "unat sz \<le> class_size ?c" "?c \<noteq> 0 \<Longrightarrow> class_size (?c - 1) < unat sz"
    using memx_heap_class_spec [OF assms] True by simp_all
  have "?c \<le> k" if k: "unat sz \<le> class_size k" for k
  proof (rule ccontr)
    assume "\<not> ?c \<le> k"
    then have "class_size k \<le> class_size (?c - 1)" "?c \<noteq> 0" using s(1) by (auto intro: class_size_mono)
    then show False using s(3) k by simp
  qed
  then have "(LEAST k. unat sz \<le> class_size k) = ?c" using s(2) by (intro Least_equality) auto
  then show ?thesis using True s(1) by simp
next
  case False
  then show ?thesis using memx_heap_class_spec [OF assms] by simp
qed

theorem memx_heap_class_for_size_least_witness:
  "unat (memx_heap_class_for_size 100) = (LEAST k. 100 \<le> class_size k)"
  using memx_heap_class_for_size_least [of 100] by simp

end
