(* ===== verification/Memx_Trace.thy ===== *)
theory Memx_Trace
  imports Memx_Baseline
begin

text \<open>
  Allocation traces, \<^verbatim>\<open>bench/trace.c\<close> and \<^verbatim>\<open>bench/trace.h\<close>: the event array, the structural
  validation, the lifecycle validator with its open-addressing hash map, and the statistics.  The
  event array, the slots and the thread table are raw blocks of the store of \<open>Memx_Memory\<close>; what
  they hold is a list beside the block's address.  A result \<^term>\<open>None\<close> is undefined behaviour or a
  loop that does not end.
\<close>

section \<open>The data of a trace\<close>

type_synonym memx_trace_operation = u32

definition MEMX_TRACE_INSERT :: memx_trace_operation where "MEMX_TRACE_INSERT = 0"
definition MEMX_TRACE_LOOKUP :: memx_trace_operation where "MEMX_TRACE_LOOKUP = 1"
definition MEMX_TRACE_RETIRE :: memx_trace_operation where "MEMX_TRACE_RETIRE = 2"
definition MEMX_TRACE_REMOVE :: memx_trace_operation where "MEMX_TRACE_REMOVE = 3"
definition MEMX_TRACE_QUIESCENT :: memx_trace_operation where "MEMX_TRACE_QUIESCENT = 4"

lemmas trace_operations = MEMX_TRACE_INSERT_def MEMX_TRACE_LOOKUP_def MEMX_TRACE_RETIRE_def
  MEMX_TRACE_REMOVE_def MEMX_TRACE_QUIESCENT_def

definition MEMX_TRACE_FORMAT_VERSION :: u32 where "MEMX_TRACE_FORMAT_VERSION = 1"
definition TRACE_INITIAL_EVENTS :: u64 where "TRACE_INITIAL_EVENTS = 1024"
definition TRACE_MAX_LIFECYCLE_GRANULES :: u64 where "TRACE_MAX_LIFECYCLE_GRANULES = push_bit 26 1"

record memx_trace_event =
  ev_sequence :: u64
  ev_thread_id :: u32
  ev_operation :: memx_trace_operation
  ev_address :: u64
  ev_size :: u64
  ev_handle :: u64

text \<open>\<open>tr_contents\<close> is what the block \<open>tr_events\<close> holds; \<^verbatim>\<open>event_count\<close> is its length.\<close>

record memx_trace =
  tr_version :: u32
  tr_region_shift :: u32
  tr_granule_shift :: u32
  tr_events :: u64
  tr_contents :: "memx_trace_event list"
  tr_event_capacity :: u64

definition tr_event_count :: "memx_trace \<Rightarrow> u64" where
  "tr_event_count t = of_nat (length (tr_contents t))"

record memx_trace_stats =
  ts_inserts :: u64
  ts_lookups :: u64
  ts_retires :: u64
  ts_removes :: u64
  ts_quiescent_events :: u64
  ts_distinct_threads :: u64
  ts_minimum_address :: u64
  ts_maximum_address_exclusive :: u64
  ts_peak_live_bytes :: u64
  ts_final_live_bytes :: u64

datatype memx_trace_status =
    MEMX_TRACE_OK
  | MEMX_TRACE_ERROR_ARGUMENT
  | MEMX_TRACE_ERROR_IO
  | MEMX_TRACE_ERROR_FORMAT
  | MEMX_TRACE_ERROR_VERSION
  | MEMX_TRACE_ERROR_MEMORY
  | MEMX_TRACE_ERROR_SEMANTIC

text \<open>\<^verbatim>\<open>sizeof\<close> of an event, a slot and a thread identifier.\<close>

definition sizeof_event :: u64 where "sizeof_event = 40"
definition sizeof_slot :: u64 where "sizeof_slot = 24"
definition sizeof_thread :: u64 where "sizeof_thread = 4"

text \<open>
  The C library: the allocator, and \<^verbatim>\<open>realloc\<close>, which answers null and leaves the block, or a
  block of the new size in place of it (\<^verbatim>\<open>realloc(NULL, n)\<close> makes one).
\<close>

record 'c trace_libc =
  tc_allocator :: "'c memx_allocator"
  tc_realloc :: "'c \<Rightarrow> u64 \<Rightarrow> u64 \<Rightarrow> u64 \<times> 'c"

definition c_realloc :: "'c trace_libc \<Rightarrow> u64 \<Rightarrow> u64 \<Rightarrow> 'c memx_world \<Rightarrow> (u64 \<times> 'c memx_world) option" where
  "c_realloc L p n w =
     (if p \<noteq> 0 \<and> heap w p = None then None
      else let (q, c) = tc_realloc L (ctx w) p n in
           if q = 0 then Some (0, w\<lparr>ctx := c\<rparr>)
           else Some (q, w\<lparr>heap := (heap w)(p := None, q \<mapsto> RawBlock n), ctx := c\<rparr>))"

definition c_calloc :: "'c trace_libc \<Rightarrow> u64 \<Rightarrow> u64 \<Rightarrow> 'c memx_world \<Rightarrow> (u64 \<times> 'c memx_world) option" where
  "c_calloc L count sz w =
     (if sz \<noteq> 0 \<and> SIZE_MAX div sz < count then Some (0, w) else c_malloc (tc_allocator L) (count * sz) w)"

section \<open>Traces\<close>

text \<open>A pointer argument that may be null is an option.\<close>

definition initial_trace :: memx_trace where
  "initial_trace = \<lparr>tr_version = MEMX_TRACE_FORMAT_VERSION, tr_region_shift = 21, tr_granule_shift = 12,
     tr_events = 0, tr_contents = [], tr_event_capacity = 0\<rparr>"

definition memx_trace_init :: "memx_trace option \<Rightarrow> memx_trace option" where
  "memx_trace_init trace = (case trace of None \<Rightarrow> None | Some t \<Rightarrow> Some initial_trace)"

definition memx_trace_destroy ::
  "'c trace_libc \<Rightarrow> memx_trace option \<Rightarrow> 'c memx_world \<Rightarrow> (memx_trace option \<times> 'c memx_world) option" where
  "memx_trace_destroy L trace w =
     (case trace of
        None \<Rightarrow> Some (None, w)
      | Some t \<Rightarrow> do {
          w \<leftarrow> c_free (tc_allocator L) (tr_events t) w;
          Some (memx_trace_init (Some t), w)
        })"

definition append_event ::
  "'c trace_libc \<Rightarrow> memx_trace \<Rightarrow> memx_trace_event \<Rightarrow> 'c memx_world
     \<Rightarrow> (memx_trace_status \<times> memx_trace \<times> 'c memx_world) option" where
  "append_event L t event w =
     (if tr_event_count t = tr_event_capacity t
      then let capacity = (if tr_event_capacity t = 0 then TRACE_INITIAL_EVENTS else tr_event_capacity t * 2) in
           if capacity < tr_event_capacity t \<or> SIZE_MAX div sizeof_event < capacity
           then Some (MEMX_TRACE_ERROR_MEMORY, t, w)
           else do {
             (replacement, w) \<leftarrow> c_realloc L (tr_events t) (capacity * sizeof_event) w;
             if replacement = 0 then Some (MEMX_TRACE_ERROR_MEMORY, t, w)
             else Some (MEMX_TRACE_OK,
               t\<lparr>tr_events := replacement, tr_event_capacity := capacity, tr_contents := tr_contents t @ [event]\<rparr>, w)
           }
      else Some (MEMX_TRACE_OK, t\<lparr>tr_contents := tr_contents t @ [event]\<rparr>, w))"

definition memx_trace_append ::
  "'c trace_libc \<Rightarrow> memx_trace option \<Rightarrow> memx_trace_event option \<Rightarrow> 'c memx_world
     \<Rightarrow> (memx_trace_status \<times> memx_trace option \<times> 'c memx_world) option" where
  "memx_trace_append L trace event w =
     (case (trace, event) of
        (Some t, Some e) \<Rightarrow> do { (status, t, w) \<leftarrow> append_event L t e w; Some (status, Some t, w) }
      | _ \<Rightarrow> Some (MEMX_TRACE_ERROR_ARGUMENT, trace, w))"

definition memx_trace_operation_name :: "memx_trace_operation \<Rightarrow> string" where
  "memx_trace_operation_name operation =
     (if operation = MEMX_TRACE_INSERT then ''INSERT''
      else if operation = MEMX_TRACE_LOOKUP then ''LOOKUP''
      else if operation = MEMX_TRACE_RETIRE then ''RETIRE''
      else if operation = MEMX_TRACE_REMOVE then ''REMOVE''
      else if operation = MEMX_TRACE_QUIESCENT then ''QUIESCENT''
      else ''UNKNOWN'')"

fun memx_trace_status_string :: "memx_trace_status \<Rightarrow> string" where
  "memx_trace_status_string MEMX_TRACE_OK = ''ok''"
| "memx_trace_status_string MEMX_TRACE_ERROR_ARGUMENT = ''invalid argument''"
| "memx_trace_status_string MEMX_TRACE_ERROR_IO = ''I/O error''"
| "memx_trace_status_string MEMX_TRACE_ERROR_FORMAT = ''format error''"
| "memx_trace_status_string MEMX_TRACE_ERROR_VERSION = ''unsupported version''"
| "memx_trace_status_string MEMX_TRACE_ERROR_MEMORY = ''out of memory''"
| "memx_trace_status_string MEMX_TRACE_ERROR_SEMANTIC = ''semantic error''"

section \<open>Structural validation\<close>

definition range_operation :: "memx_trace_event \<Rightarrow> bool" where
  "range_operation e \<longleftrightarrow> ev_operation e = MEMX_TRACE_INSERT \<or> ev_operation e = MEMX_TRACE_RETIRE
     \<or> ev_operation e = MEMX_TRACE_REMOVE"

text \<open>The condition of the loop that rejects an event, but for its sequence number.\<close>

definition event_malformed :: "u64 \<Rightarrow> memx_trace_event \<Rightarrow> bool" where
  "event_malformed granule_mask e \<longleftrightarrow>
     MEMX_TRACE_QUIESCENT < ev_operation e
     \<or> (range_operation e \<and> (ev_size e = 0
         \<or> ev_address e AND granule_mask \<noteq> 0
         \<or> ev_size e AND granule_mask \<noteq> 0
         \<or> UINTPTR_MAX - ev_address e < ev_size e))
     \<or> ((ev_operation e = MEMX_TRACE_INSERT \<or> ev_operation e = MEMX_TRACE_REMOVE)
         \<and> ev_handle e = MEMX_HANDLE_INVALID)
     \<or> (ev_operation e = MEMX_TRACE_LOOKUP \<and> (ev_size e \<noteq> 0 \<or> ev_address e = UINTPTR_MAX))
     \<or> (ev_operation e = MEMX_TRACE_QUIESCENT \<and> (ev_address e \<noteq> 0 \<or> ev_size e \<noteq> 0))"

text \<open>The result is the status and \<^verbatim>\<open>*out_error_event\<close>.\<close>

fun validate_events ::
  "u64 \<Rightarrow> u64 \<Rightarrow> u64 \<Rightarrow> memx_trace_event list \<Rightarrow> memx_trace_status \<times> u64" where
  "validate_events granule_mask previous_sequence i [] = (MEMX_TRACE_OK, 0)"
| "validate_events granule_mask previous_sequence i (e # es) =
     (if i \<noteq> 0 \<and> ev_sequence e \<le> previous_sequence \<or> event_malformed granule_mask e
      then (MEMX_TRACE_ERROR_SEMANTIC, i)
      else validate_events granule_mask (ev_sequence e) (i + 1) es)"

definition memx_trace_validate :: "memx_trace option \<Rightarrow> memx_trace_status \<times> u64" where
  "memx_trace_validate trace =
     (case trace of
        None \<Rightarrow> (MEMX_TRACE_ERROR_SEMANTIC, 0)
      | Some t \<Rightarrow>
          (if tr_version t \<noteq> MEMX_TRACE_FORMAT_VERSION \<or> 64 \<le> tr_region_shift t \<or> 64 \<le> tr_granule_shift t
              \<or> tr_region_shift t < tr_granule_shift t
           then (MEMX_TRACE_ERROR_SEMANTIC, 0)
           else validate_events (push_bit (unat (tr_granule_shift t)) 1 - 1) 0 0 (tr_contents t)))"

section \<open>The hash map of the lifecycle validator\<close>

datatype trace_slot_state = TRACE_SLOT_EMPTY | TRACE_SLOT_LIVE | TRACE_SLOT_TOMBSTONE

record trace_lifecycle_slot =
  sl_granule :: u64
  sl_handle :: u64
  sl_state :: trace_slot_state
  sl_retired :: bool

record trace_lifecycle_map =
  lm_slots :: "trace_lifecycle_slot list"
  lm_capacity :: u64
  lm_live_count :: u64

definition trace_hash_address :: "u64 \<Rightarrow> u64" where
  "trace_hash_address v =
     (let v = v XOR drop_bit 30 v;
          v = v * 0xbf58476d1ce4e5b9;
          v = v XOR drop_bit 27 v;
          v = v * 0x94d049bb133111eb
      in v XOR drop_bit 31 v)"

text \<open>
  The probe loop with \<open>n\<close> probes left; a slot is named by its position, null by \<^term>\<open>None\<close>.  The
  mask keeps every position below the capacity.
\<close>

fun find_loop ::
  "trace_lifecycle_map \<Rightarrow> u64 \<Rightarrow> bool \<Rightarrow> nat \<Rightarrow> u64 \<Rightarrow> u64 option \<Rightarrow> u64 option" where
  "find_loop m granule for_insert 0 position first_tombstone = first_tombstone"
| "find_loop m granule for_insert (Suc n) position first_tombstone =
     (let slot = lm_slots m ! unat position;
          following = (position + 1) AND (lm_capacity m - 1) in
      if sl_state slot = TRACE_SLOT_EMPTY
      then (if for_insert \<and> first_tombstone \<noteq> None then first_tombstone else Some position)
      else if sl_state slot = TRACE_SLOT_TOMBSTONE
      then find_loop m granule for_insert n following
             (if for_insert \<and> first_tombstone = None then Some position else first_tombstone)
      else if sl_granule slot = granule then Some position
      else find_loop m granule for_insert n following first_tombstone)"

definition trace_lifecycle_find :: "trace_lifecycle_map \<Rightarrow> u64 \<Rightarrow> bool \<Rightarrow> u64 option" where
  "trace_lifecycle_find m granule for_insert =
     find_loop m granule for_insert (unat (lm_capacity m))
       (trace_hash_address granule AND (lm_capacity m - 1)) None"

definition slot_at :: "trace_lifecycle_map \<Rightarrow> u64 \<Rightarrow> trace_lifecycle_slot" where
  "slot_at m position = lm_slots m ! unat position"

definition set_slot ::
  "u64 \<Rightarrow> (trace_lifecycle_slot \<Rightarrow> trace_lifecycle_slot) \<Rightarrow> trace_lifecycle_map \<Rightarrow> trace_lifecycle_map" where
  "set_slot position f m = m\<lparr>lm_slots := (lm_slots m)[unat position := f (slot_at m position)]\<rparr>"

fun count_inserts :: "u64 \<Rightarrow> u64 \<Rightarrow> memx_trace_event list \<Rightarrow> u64 option" where
  "count_inserts granule_size possible_live [] = Some possible_live"
| "count_inserts granule_size possible_live (e # es) =
     (if ev_operation e = MEMX_TRACE_INSERT
      then let count = ev_size e div granule_size in
           if TRACE_MAX_LIFECYCLE_GRANULES - possible_live < count then None
           else count_inserts granule_size (possible_live + count) es
      else count_inserts granule_size possible_live es)"

partial_function (option) grow_capacity :: "u64 \<Rightarrow> u64 \<Rightarrow> (memx_trace_status \<times> u64) option" where
  "grow_capacity possible_live capacity =
     (if capacity < possible_live * 2
      then if SIZE_MAX div 2 < capacity then Some (MEMX_TRACE_ERROR_MEMORY, capacity)
           else grow_capacity possible_live (capacity * 2)
      else Some (MEMX_TRACE_OK, capacity))"

definition trace_lifecycle_capacity :: "memx_trace \<Rightarrow> (memx_trace_status \<times> u64) option" where
  "trace_lifecycle_capacity t =
     (case count_inserts (push_bit (unat (tr_granule_shift t)) 1) 0 (tr_contents t) of
        None \<Rightarrow> Some (MEMX_TRACE_ERROR_MEMORY, 0)
      | Some possible_live \<Rightarrow> grow_capacity possible_live 8)"

text \<open>
  \<^verbatim>\<open>for (address = event->address; address < end; address += granule_size)\<close> over a body that may
  leave the function with \<^verbatim>\<open>false\<close>.
\<close>

partial_function (option) each_granule ::
  "(u64 \<Rightarrow> trace_lifecycle_map \<Rightarrow> bool \<times> trace_lifecycle_map) \<Rightarrow> u64 \<Rightarrow> u64 \<Rightarrow> u64 \<Rightarrow> trace_lifecycle_map
     \<Rightarrow> (bool \<times> trace_lifecycle_map) option" where
  "each_granule body granule_size end' address m =
     (if address < end'
      then (let (valid, m) = body address m in
            if \<not> valid then Some (False, m)
            else each_granule body granule_size end' (address + granule_size) m)
      else Some (True, m))"

definition event_end :: "memx_trace_event \<Rightarrow> u64" where
  "event_end e = ev_address e + ev_size e"

definition trace_lifecycle_range_matches ::
  "trace_lifecycle_map \<Rightarrow> memx_trace_event \<Rightarrow> u64 \<Rightarrow> bool \<Rightarrow> (bool \<times> trace_lifecycle_map) option" where
  "trace_lifecycle_range_matches m e granule_size require_active =
     each_granule (\<lambda>address m.
       (case trace_lifecycle_find m address False of
          None \<Rightarrow> (False, m)
        | Some slot \<Rightarrow>
            (\<not> (sl_state (slot_at m slot) \<noteq> TRACE_SLOT_LIVE \<or> sl_handle (slot_at m slot) \<noteq> ev_handle e
                \<or> require_active \<and> sl_retired (slot_at m slot)), m)))
       granule_size (event_end e) (ev_address e) m"

definition trace_lifecycle_insert ::
  "trace_lifecycle_map \<Rightarrow> memx_trace_event \<Rightarrow> u64 \<Rightarrow> (bool \<times> trace_lifecycle_map) option" where
  "trace_lifecycle_insert m e granule_size = do {
     (free, m) \<leftarrow> each_granule (\<lambda>address m.
       (case trace_lifecycle_find m address False of
          None \<Rightarrow> (True, m)
        | Some slot \<Rightarrow> (sl_state (slot_at m slot) \<noteq> TRACE_SLOT_LIVE, m)))
       granule_size (event_end e) (ev_address e) m;
     if \<not> free then Some (False, m)
     else each_granule (\<lambda>address m.
       (case trace_lifecycle_find m address True of
          None \<Rightarrow> (False, m)
        | Some slot \<Rightarrow>
            (True, (set_slot slot (\<lambda>s. s\<lparr>sl_granule := address, sl_handle := ev_handle e,
               sl_state := TRACE_SLOT_LIVE, sl_retired := False\<rparr>) m)\<lparr>lm_live_count := lm_live_count m + 1\<rparr>)))
       granule_size (event_end e) (ev_address e) m
   }"

definition trace_lifecycle_retire ::
  "trace_lifecycle_map \<Rightarrow> memx_trace_event \<Rightarrow> u64 \<Rightarrow> (bool \<times> trace_lifecycle_map) option" where
  "trace_lifecycle_retire m e granule_size =
     each_granule (\<lambda>address m.
       (case trace_lifecycle_find m address False of
          None \<Rightarrow> (False, m)
        | Some slot \<Rightarrow> (True, set_slot slot (\<lambda>s. s\<lparr>sl_retired := True\<rparr>) m)))
       granule_size (event_end e) (ev_address e) m"

definition trace_lifecycle_remove ::
  "trace_lifecycle_map \<Rightarrow> memx_trace_event \<Rightarrow> u64 \<Rightarrow> (bool \<times> trace_lifecycle_map) option" where
  "trace_lifecycle_remove m e granule_size =
     each_granule (\<lambda>address m.
       (case trace_lifecycle_find m address False of
          None \<Rightarrow> (False, m)
        | Some slot \<Rightarrow>
            (if lm_live_count m = 0 then (False, m)
             else (True, (set_slot slot (\<lambda>s. s\<lparr>sl_state := TRACE_SLOT_TOMBSTONE, sl_retired := False\<rparr>) m)
                     \<lparr>lm_live_count := lm_live_count m - 1\<rparr>))))
       granule_size (event_end e) (ev_address e) m"

definition trace_lifecycle_lookup_matches ::
  "trace_lifecycle_map \<Rightarrow> memx_trace_event \<Rightarrow> u64 \<Rightarrow> bool" where
  "trace_lifecycle_lookup_matches m e granule_mask =
     (let granule = ev_address e AND NOT granule_mask;
          actual = (case trace_lifecycle_find m granule False of
              None \<Rightarrow> MEMX_HANDLE_INVALID
            | Some slot \<Rightarrow> (if sl_state (slot_at m slot) \<noteq> TRACE_SLOT_LIVE then MEMX_HANDLE_INVALID
                            else sl_handle (slot_at m slot)))
      in actual = ev_handle e)"

section \<open>Lifecycle validation\<close>

definition lifecycle_step ::
  "u64 \<Rightarrow> memx_trace_event \<Rightarrow> trace_lifecycle_map \<Rightarrow> (bool \<times> trace_lifecycle_map) option" where
  "lifecycle_step granule_size e m =
     (if ev_operation e = MEMX_TRACE_INSERT then trace_lifecycle_insert m e granule_size
      else if ev_operation e = MEMX_TRACE_LOOKUP
      then Some (trace_lifecycle_lookup_matches m e (granule_size - 1), m)
      else if ev_operation e = MEMX_TRACE_RETIRE
      then do {
        (valid, m) \<leftarrow> trace_lifecycle_range_matches m e granule_size True;
        if valid then trace_lifecycle_retire m e granule_size else Some (False, m)
      }
      else if ev_operation e = MEMX_TRACE_REMOVE
      then do {
        (valid, m) \<leftarrow> trace_lifecycle_range_matches m e granule_size False;
        if valid then trace_lifecycle_remove m e granule_size else Some (False, m)
      }
      else if ev_operation e = MEMX_TRACE_QUIESCENT then Some (True, m)
      else Some (False, m))"

fun lifecycle_events ::
  "u64 \<Rightarrow> u64 \<Rightarrow> memx_trace_event list \<Rightarrow> trace_lifecycle_map \<Rightarrow> (memx_trace_status \<times> u64) option" where
  "lifecycle_events granule_size i [] m = Some (MEMX_TRACE_OK, 0)"
| "lifecycle_events granule_size i (e # es) m = do {
     (valid, m) \<leftarrow> lifecycle_step granule_size e m;
     if \<not> valid then Some (MEMX_TRACE_ERROR_SEMANTIC, i)
     else lifecycle_events granule_size (i + 1) es m
   }"

text \<open>What \<^verbatim>\<open>calloc\<close> leaves in a slot.\<close>

definition empty_slot :: trace_lifecycle_slot where
  "empty_slot = \<lparr>sl_granule = 0, sl_handle = 0, sl_state = TRACE_SLOT_EMPTY, sl_retired = False\<rparr>"

text \<open>The result is the status, \<^verbatim>\<open>*out_error_event\<close> and the world.\<close>

definition memx_trace_validate_lifecycle ::
  "'c trace_libc \<Rightarrow> memx_trace option \<Rightarrow> 'c memx_world \<Rightarrow> (memx_trace_status \<times> u64 \<times> 'c memx_world) option" where
  "memx_trace_validate_lifecycle L trace w =
     (case memx_trace_validate trace of (status, i) \<Rightarrow>
        if status \<noteq> MEMX_TRACE_OK then Some (status, i, w)
        else case trace of None \<Rightarrow> None
        | Some t \<Rightarrow> do {
            (status, capacity) \<leftarrow> trace_lifecycle_capacity t;
            if status \<noteq> MEMX_TRACE_OK then Some (status, 0, w)
            else do {
              (slots, w) \<leftarrow> c_calloc L capacity sizeof_slot w;
              if slots = 0 then Some (MEMX_TRACE_ERROR_MEMORY, 0, w)
              else do {
                let m = \<lparr>lm_slots = replicate (unat capacity) empty_slot, lm_capacity = capacity, lm_live_count = 0\<rparr>;
                (status, i) \<leftarrow> lifecycle_events (push_bit (unat (tr_granule_shift t)) 1) 0 (tr_contents t) m;
                w \<leftarrow> c_free (tc_allocator L) slots w;
                Some (status, i, w)
              }
            }
          })"

section \<open>Statistics\<close>

definition stats_extent :: "memx_trace_event \<Rightarrow> memx_trace_stats \<Rightarrow> memx_trace_stats" where
  "stats_extent e s =
     (if ev_operation e \<noteq> MEMX_TRACE_QUIESCENT
      then let end' = (if ev_operation e = MEMX_TRACE_LOOKUP then ev_address e + 1 else ev_address e + ev_size e);
               s = (if ev_address e < ts_minimum_address s then s\<lparr>ts_minimum_address := ev_address e\<rparr> else s)
           in if ts_maximum_address_exclusive s < end' then s\<lparr>ts_maximum_address_exclusive := end'\<rparr> else s
      else s)"

definition stats_event ::
  "memx_trace_event \<Rightarrow> u64 \<Rightarrow> memx_trace_stats \<Rightarrow> (u64 \<times> memx_trace_stats) option" where
  "stats_event e live_bytes s =
     (if ev_operation e = MEMX_TRACE_INSERT
      then let live_bytes = live_bytes + ev_size e;
               s = s\<lparr>ts_inserts := ts_inserts s + 1\<rparr>
           in Some (live_bytes, if ts_peak_live_bytes s < live_bytes then s\<lparr>ts_peak_live_bytes := live_bytes\<rparr> else s)
      else if ev_operation e = MEMX_TRACE_LOOKUP
      then Some (live_bytes, s\<lparr>ts_lookups := ts_lookups s + 1\<rparr>)
      else if ev_operation e = MEMX_TRACE_RETIRE
      then Some (live_bytes, s\<lparr>ts_retires := ts_retires s + 1\<rparr>)
      else if ev_operation e = MEMX_TRACE_REMOVE
      then Some (if live_bytes < ev_size e then 0 else live_bytes - ev_size e, s\<lparr>ts_removes := ts_removes s + 1\<rparr>)
      else if ev_operation e = MEMX_TRACE_QUIESCENT
      then Some (live_bytes, s\<lparr>ts_quiescent_events := ts_quiescent_events s + 1\<rparr>)
      else None)"

text \<open>\<open>threads\<close> is the filled part of the table, so its length is \<^verbatim>\<open>thread_count\<close>; the result is
  \<^term>\<open>None\<close> for the \<^verbatim>\<open>default\<close> of the switch.\<close>

fun stats_loop ::
  "memx_trace_event list \<Rightarrow> u32 list \<Rightarrow> u64 \<Rightarrow> memx_trace_stats
     \<Rightarrow> (u32 list \<times> u64 \<times> memx_trace_stats) option" where
  "stats_loop [] threads live_bytes s = Some (threads, live_bytes, s)"
| "stats_loop (e # es) threads live_bytes s =
     (let threads = (if ev_thread_id e \<in> set threads then threads else threads @ [ev_thread_id e]) in
      case stats_event e live_bytes (stats_extent e s) of
        None \<Rightarrow> None
      | Some (live_bytes, s) \<Rightarrow> stats_loop es threads live_bytes s)"

definition stats_zero :: memx_trace_stats where
  "stats_zero = \<lparr>ts_inserts = 0, ts_lookups = 0, ts_retires = 0, ts_removes = 0, ts_quiescent_events = 0,
     ts_distinct_threads = 0, ts_minimum_address = 0, ts_maximum_address_exclusive = 0,
     ts_peak_live_bytes = 0, ts_final_live_bytes = 0\<rparr>"

text \<open>The result is the status, the statistics when it is \<^const>\<open>MEMX_TRACE_OK\<close>, and the world.\<close>

definition memx_trace_calculate_stats ::
  "'c trace_libc \<Rightarrow> memx_trace option \<Rightarrow> bool \<Rightarrow> 'c memx_world
     \<Rightarrow> (memx_trace_status \<times> memx_trace_stats option \<times> 'c memx_world) option" where
  "memx_trace_calculate_stats L trace out_stats_present w =
     (case trace of
        None \<Rightarrow> Some (MEMX_TRACE_ERROR_ARGUMENT, None, w)
      | Some t \<Rightarrow>
         if \<not> out_stats_present then Some (MEMX_TRACE_ERROR_ARGUMENT, None, w)
         else do {
           (status, _, w) \<leftarrow> memx_trace_validate_lifecycle L (Some t) w;
           if status \<noteq> MEMX_TRACE_OK then Some (status, None, w)
           else do {
             (threads, w) \<leftarrow> (if tr_event_count t = 0 then Some (0, w)
               else c_malloc (tc_allocator L) (tr_event_count t * sizeof_thread) w);
             if tr_event_count t \<noteq> 0 \<and> threads = 0 then Some (MEMX_TRACE_ERROR_MEMORY, None, w)
             else do {
               let r = stats_loop (tr_contents t) [] 0 (stats_zero\<lparr>ts_minimum_address := UINTPTR_MAX\<rparr>);
               w \<leftarrow> c_free (tc_allocator L) threads w;
               (case r of
                  None \<Rightarrow> Some (MEMX_TRACE_ERROR_SEMANTIC, None, w)
                | Some (seen, live_bytes, s) \<Rightarrow>
                    let s = (if ts_minimum_address s = UINTPTR_MAX then s\<lparr>ts_minimum_address := 0\<rparr> else s)
                    in Some (MEMX_TRACE_OK, Some (s\<lparr>ts_distinct_threads := of_nat (length seen),
                         ts_final_live_bytes := live_bytes\<rparr>), w))
             }
           }
         })"

end
