(* ===== verification/Memx_TraceMap.thy ===== *)
theory Memx_TraceMap
  imports Memx_Trace
begin

text \<open>
  The open-addressing map of the lifecycle validator is a map from granules to handles with their
  retired flag: every live slot is reached from the hash of its granule over slots that are not
  empty, so a probe finds it, and a probe for an absent granule ends at an empty slot.
\<close>

section \<open>Probe sequences\<close>

definition probe :: "nat \<Rightarrow> u64 \<Rightarrow> nat \<Rightarrow> nat" where
  "probe k x j = (unat (trace_hash_address x) + j) mod 2 ^ k"

definition hits :: "trace_lifecycle_map \<Rightarrow> nat \<Rightarrow> u64 \<Rightarrow> bool" where
  "hits m q x \<longleftrightarrow> sl_state (lm_slots m ! q) = TRACE_SLOT_LIVE \<and> sl_granule (lm_slots m ! q) = x"

text \<open>A probe for \<open>x\<close> passes the slots before step \<open>d\<close>.\<close>

definition passes :: "nat \<Rightarrow> trace_lifecycle_map \<Rightarrow> u64 \<Rightarrow> nat \<Rightarrow> bool" where
  "passes k m x d \<longleftrightarrow>
     (\<forall>j < d. sl_state (lm_slots m ! probe k x j) \<noteq> TRACE_SLOT_EMPTY \<and> \<not> hits m (probe k x j) x)"

definition slots_ok :: "nat \<Rightarrow> trace_lifecycle_map \<Rightarrow> bool" where
  "slots_ok k m \<longleftrightarrow> k < 64 \<and> lm_capacity m = 2 ^ k \<and> length (lm_slots m) = 2 ^ k
     \<and> (\<forall>q < 2 ^ k. sl_state (lm_slots m ! q) = TRACE_SLOT_LIVE \<longrightarrow>
          (\<exists>d < 2 ^ k. q = probe k (sl_granule (lm_slots m ! q)) d \<and> passes k m (sl_granule (lm_slots m ! q)) d))
     \<and> unat (lm_live_count m) = card {q. q < 2 ^ k \<and> sl_state (lm_slots m ! q) = TRACE_SLOT_LIVE}"

lemma slots_okD:
  assumes "slots_ok k m"
  shows "k < 64" "lm_capacity m = 2 ^ k" "length (lm_slots m) = 2 ^ k"
    "\<And>q. q < 2 ^ k \<Longrightarrow> sl_state (lm_slots m ! q) = TRACE_SLOT_LIVE \<Longrightarrow>
       \<exists>d < 2 ^ k. q = probe k (sl_granule (lm_slots m ! q)) d \<and> passes k m (sl_granule (lm_slots m ! q)) d"
    "unat (lm_live_count m) = card {q. q < 2 ^ k \<and> sl_state (lm_slots m ! q) = TRACE_SLOT_LIVE}"
  using assms unfolding slots_ok_def by blast+

definition slots_view :: "trace_lifecycle_map \<Rightarrow> u64 \<rightharpoonup> u64 \<times> bool" where
  "slots_view m x =
     (case List.find (\<lambda>s. sl_state s = TRACE_SLOT_LIVE \<and> sl_granule s = x) (lm_slots m) of
        None \<Rightarrow> None
      | Some s \<Rightarrow> Some (sl_handle s, sl_retired s))"

text \<open>How many slots are not empty: tombstones are never emptied.\<close>

definition slots_used :: "nat \<Rightarrow> trace_lifecycle_map \<Rightarrow> nat" where
  "slots_used k m = card {q. q < 2 ^ k \<and> sl_state (lm_slots m ! q) \<noteq> TRACE_SLOT_EMPTY}"

lemma probe_less [simp]: "probe k x j < 2 ^ k"
  by (simp add: probe_def)

lemma probe_cover: "q < 2 ^ k \<Longrightarrow> \<exists>d < 2 ^ k. q = probe k x d"
proof -
  assume q: "q < 2 ^ k"
  let ?h = "unat (trace_hash_address x) mod 2 ^ k"
  have h: "?h < 2 ^ k" by simp
  have "probe k x ((q + (2 ^ k - ?h)) mod 2 ^ k) = (?h + (q + (2 ^ k - ?h))) mod 2 ^ k"
    by (simp add: probe_def mod_simps)
  also have "?h + (q + (2 ^ k - ?h)) = q + 2 ^ k" using h by linarith
  also have "(q + 2 ^ k) mod 2 ^ k = q" using q by simp
  finally show ?thesis by (intro exI [of _ "(q + (2 ^ k - ?h)) mod 2 ^ k"]) simp
qed

lemma probe_first: "k < 64 \<Longrightarrow> unat (trace_hash_address x AND (2 ^ k - 1)) = probe k x 0"
  by (simp add: pow2_minus_1 unat_and_mask probe_def)

lemma probe_following:
  assumes "k < 64" "unat (p :: u64) = probe k x i"
  shows "unat ((p + 1) AND (2 ^ k - 1)) = probe k x (Suc i)"
proof -
  have "(2 :: nat) ^ k \<le> 2 ^ 63" using assms(1) by (intro power_increasing) simp_all
  moreover have "unat p < 2 ^ k" using assms(2) by simp
  ultimately have "unat (p + 1) = unat p + 1" using unat_add_exact [of p 1] by simp
  then show ?thesis by (simp add: pow2_minus_1 unat_and_mask assms(2)) (simp add: probe_def mod_simps)
qed

section \<open>Finding\<close>

lemma find_loop_hit:
  assumes "k < 64" "lm_capacity m = 2 ^ k"
  shows "unat p = probe k x i \<Longrightarrow> i \<le> d \<Longrightarrow> d < i + n \<Longrightarrow> hits m (probe k x d) x \<Longrightarrow>
    (\<And>j. i \<le> j \<Longrightarrow> j < d \<Longrightarrow> sl_state (lm_slots m ! probe k x j) \<noteq> TRACE_SLOT_EMPTY
       \<and> \<not> hits m (probe k x j) x) \<Longrightarrow>
    \<exists>q. find_loop m x ins n p ft = Some q \<and> unat q = probe k x d"
proof (induction n arbitrary: p i ft)
  case 0
  then show ?case by simp
next
  case (Suc n)
  show ?case
  proof (cases "i = d")
    case True
    then show ?thesis using Suc.prems by (simp add: Let_def hits_def)
  next
    case False
    note F = probe_following [OF assms(1) Suc.prems(1)]
    have "\<exists>q. find_loop m x ins n ((p + 1) AND (lm_capacity m - 1)) ft' = Some q \<and> unat q = probe k x d" for ft'
      unfolding assms(2) using Suc.prems False by (intro Suc.IH [OF F]) auto
    moreover have "sl_state (lm_slots m ! unat p) \<noteq> TRACE_SLOT_EMPTY" "\<not> hits m (unat p) x"
      using Suc.prems(5) [of i] Suc.prems(1,2) False by auto
    ultimately show ?thesis
      by (cases "sl_state (lm_slots m ! unat p)") (auto simp: Let_def hits_def)
  qed
qed

lemma find_loop_absent:
  assumes "k < 64" "lm_capacity m = 2 ^ k"
  shows "unat p = probe k x i \<Longrightarrow> i \<le> d \<Longrightarrow> d < i + n \<Longrightarrow>
    sl_state (lm_slots m ! probe k x d) = TRACE_SLOT_EMPTY \<Longrightarrow>
    (\<And>j. i \<le> j \<Longrightarrow> j < d \<Longrightarrow> sl_state (lm_slots m ! probe k x j) \<noteq> TRACE_SLOT_EMPTY
       \<and> \<not> hits m (probe k x j) x) \<Longrightarrow> (ft \<noteq> None \<Longrightarrow> ins) \<Longrightarrow>
    (ft \<noteq> None \<and> find_loop m x ins n p ft = ft)
    \<or> (\<exists>q e. find_loop m x ins n p ft = Some q \<and> unat q = probe k x e \<and> i \<le> e \<and> e \<le> d
        \<and> sl_state (lm_slots m ! probe k x e) \<noteq> TRACE_SLOT_LIVE \<and> (\<not> ins \<longrightarrow> e = d))"
proof (induction n arbitrary: p i ft)
  case 0
  then show ?case by simp
next
  case (Suc n)
  show ?case
  proof (cases "i = d")
    case True
    then show ?thesis using Suc.prems by (cases ft) (auto simp: Let_def)
  next
    case False
    note F = probe_following [OF assms(1) Suc.prems(1)]
    have n: "sl_state (lm_slots m ! unat p) \<noteq> TRACE_SLOT_EMPTY" "\<not> hits m (unat p) x"
      using Suc.prems(5) [of i] Suc.prems(1,2) False by auto
    have IH: "(ft' \<noteq> None \<and> find_loop m x ins n ((p + 1) AND (lm_capacity m - 1)) ft' = ft')
      \<or> (\<exists>q e. find_loop m x ins n ((p + 1) AND (lm_capacity m - 1)) ft' = Some q \<and> unat q = probe k x e
          \<and> Suc i \<le> e \<and> e \<le> d \<and> sl_state (lm_slots m ! probe k x e) \<noteq> TRACE_SLOT_LIVE \<and> (\<not> ins \<longrightarrow> e = d))"
      if "ft' \<noteq> None \<Longrightarrow> ins" for ft'
      unfolding assms(2) using Suc.prems False that by (intro Suc.IH [OF F]) auto
    show ?thesis
    proof (cases "sl_state (lm_slots m ! unat p) = TRACE_SLOT_TOMBSTONE")
      case False
      then have e: "find_loop m x ins (Suc n) p ft = find_loop m x ins n ((p + 1) AND (lm_capacity m - 1)) ft"
        using n by (cases "sl_state (lm_slots m ! unat p)") (auto simp: Let_def hits_def)
      show ?thesis unfolding e using IH [OF Suc.prems(6)] Suc_leD by blast
    next
      case tomb: True
      let ?ft = "if ins \<and> ft = None then Some p else ft"
      have e: "find_loop m x ins (Suc n) p ft = find_loop m x ins n ((p + 1) AND (lm_capacity m - 1)) ?ft"
        using tomb by (simp add: Let_def)
      have c: "?ft \<noteq> None \<Longrightarrow> ins" using Suc.prems(6) by (auto split: if_splits)
      from IH [OF c] show ?thesis
      proof
        assume a: "?ft \<noteq> None \<and> find_loop m x ins n ((p + 1) AND (lm_capacity m - 1)) ?ft = ?ft"
        show ?thesis
        proof (cases ft)
          case None
          then have "ins" "find_loop m x ins (Suc n) p ft = Some p" using a c e by auto
          then show ?thesis using Suc.prems(1,2) tomb None
            by (intro disjI2 exI [of _ p] exI [of _ i]) simp
        next
          case (Some v)
          then show ?thesis using a e by simp
        qed
      next
        assume "\<exists>q e. find_loop m x ins n ((p + 1) AND (lm_capacity m - 1)) ?ft = Some q \<and> unat q = probe k x e
          \<and> Suc i \<le> e \<and> e \<le> d \<and> sl_state (lm_slots m ! probe k x e) \<noteq> TRACE_SLOT_LIVE \<and> (\<not> ins \<longrightarrow> e = d)"
        then show ?thesis unfolding e using Suc_leD by blast
      qed
    qed
  qed
qed

lemma unat_capacity: "slots_ok k m \<Longrightarrow> unat (lm_capacity m) = 2 ^ k"
  using slots_okD(1,2) [of k m] by (simp add: unat_pow2)

lemma find_hit:
  assumes "slots_ok k m" "q < 2 ^ k" "hits m q x"
  shows "\<exists>p. trace_lifecycle_find m x ins = Some p \<and> unat p = q"
proof -
  obtain d where d: "d < 2 ^ k" "q = probe k x d" "passes k m x d"
    using slots_okD(4) [OF assms(1,2)] assms(3) by (auto simp: hits_def)
  have "\<exists>p. find_loop m x ins (2 ^ k) (trace_hash_address x AND (lm_capacity m - 1)) None = Some p
      \<and> unat p = probe k x d"
    by (rule find_loop_hit [OF slots_okD(1,2) [OF assms(1)], where i = 0])
      (use d assms(3) probe_first [OF slots_okD(1) [OF assms(1)]] in
        \<open>auto simp: passes_def slots_okD(2) [OF assms(1)]\<close>)
  then show ?thesis by (simp add: trace_lifecycle_find_def unat_capacity [OF assms(1)] d(2))
qed

lemma find_free:
  assumes "slots_ok k m" "\<And>q. q < 2 ^ k \<Longrightarrow> \<not> hits m q x" "slots_used k m < 2 ^ k"
  shows "\<exists>p e. trace_lifecycle_find m x ins = Some p \<and> unat p = probe k x e \<and> e < 2 ^ k \<and> passes k m x e
    \<and> sl_state (lm_slots m ! probe k x e) \<noteq> TRACE_SLOT_LIVE"
proof -
  have "\<exists>q < 2 ^ k. sl_state (lm_slots m ! q) = TRACE_SLOT_EMPTY"
  proof (rule ccontr)
    assume "\<not> ?thesis"
    then have "{q. q < 2 ^ k \<and> sl_state (lm_slots m ! q) \<noteq> TRACE_SLOT_EMPTY} = {..< 2 ^ k}" by auto
    then show False using assms(3) by (simp add: slots_used_def)
  qed
  then have ex: "\<exists>d. d < 2 ^ k \<and> sl_state (lm_slots m ! probe k x d) = TRACE_SLOT_EMPTY"
    using probe_cover [where k = k and x = x] by blast
  define d where "d = (LEAST d. d < 2 ^ k \<and> sl_state (lm_slots m ! probe k x d) = TRACE_SLOT_EMPTY)"
  have d: "d < 2 ^ k" "sl_state (lm_slots m ! probe k x d) = TRACE_SLOT_EMPTY"
    using LeastI_ex [OF ex] unfolding d_def by auto
  have before: "sl_state (lm_slots m ! probe k x j) \<noteq> TRACE_SLOT_EMPTY \<and> \<not> hits m (probe k x j) x" if "j < d" for j
  proof
    show "sl_state (lm_slots m ! probe k x j) \<noteq> TRACE_SLOT_EMPTY"
      using not_less_Least [OF that [unfolded d_def]] that d(1) by auto
  qed (rule assms(2), simp)
  have "\<exists>q e. find_loop m x ins (2 ^ k) (trace_hash_address x AND (lm_capacity m - 1)) None = Some q
      \<and> unat q = probe k x e \<and> 0 \<le> e \<and> e \<le> d
      \<and> sl_state (lm_slots m ! probe k x e) \<noteq> TRACE_SLOT_LIVE \<and> (\<not> ins \<longrightarrow> e = d)"
    using find_loop_absent [OF slots_okD(1,2) [OF assms(1)], where p = "trace_hash_address x AND (lm_capacity m - 1)"
        and x = x and i = 0 and d = d and n = "2 ^ k" and ft = None and ins = ins] d before
      probe_first [OF slots_okD(1) [OF assms(1)]] by (auto simp: slots_okD(2) [OF assms(1)])
  then show ?thesis using d(1) before
    by (fastforce simp: trace_lifecycle_find_def unat_capacity [OF assms(1)] passes_def)
qed

section \<open>The view\<close>

lemma hits_unique:
  assumes "slots_ok k m" "p < 2 ^ k" "q < 2 ^ k" "hits m p x" "hits m q x"
  shows "p = q"
  using find_hit [OF assms(1,2,4), of False] find_hit [OF assms(1,3,5), of False] by auto

lemma slots_view_hit:
  assumes "slots_ok k m" "q < 2 ^ k" "hits m q x"
  shows "slots_view m x = Some (sl_handle (lm_slots m ! q), sl_retired (lm_slots m ! q))"
proof -
  have "List.find (\<lambda>s. sl_state s = TRACE_SLOT_LIVE \<and> sl_granule s = x) (lm_slots m) = Some (lm_slots m ! q)"
    unfolding find_Some_iff
  proof (intro exI [of _ q] conjI allI impI)
    show "q < length (lm_slots m)" using assms(2) by (simp add: slots_okD(3) [OF assms(1)])
    show "sl_state (lm_slots m ! q) = TRACE_SLOT_LIVE" "sl_granule (lm_slots m ! q) = x"
      using assms(3) by (auto simp: hits_def)
    fix j assume "j < q"
    then show "\<not> (sl_state (lm_slots m ! j) = TRACE_SLOT_LIVE \<and> sl_granule (lm_slots m ! j) = x)"
      using hits_unique [OF assms(1) _ assms(2) _ assms(3), of j] assms(2) by (auto simp: hits_def)
  qed simp
  then show ?thesis by (simp add: slots_view_def)
qed

lemma slots_view_none:
  assumes "slots_ok k m" "\<And>q. q < 2 ^ k \<Longrightarrow> \<not> hits m q x"
  shows "slots_view m x = None"
proof -
  have "List.find (\<lambda>s. sl_state s = TRACE_SLOT_LIVE \<and> sl_granule s = x) (lm_slots m) = None"
    using assms(2) by (auto simp: find_None_iff in_set_conv_nth slots_okD(3) [OF assms(1)] hits_def)
  then show ?thesis by (simp add: slots_view_def)
qed

lemma slots_view_SomeD:
  assumes "slots_ok k m" "slots_view m x = Some v"
  obtains q where "q < 2 ^ k" "hits m q x" "v = (sl_handle (lm_slots m ! q), sl_retired (lm_slots m ! q))"
proof (cases "\<exists>q < 2 ^ k. hits m q x")
  case True
  then obtain q where "q < 2 ^ k" "hits m q x" by blast
  with that slots_view_hit [OF assms(1) this] assms(2) show thesis by auto
next
  case False
  with slots_view_none [OF assms(1), of x] assms(2) show thesis by auto
qed

lemma slots_view_NoneD:
  assumes "slots_ok k m" "slots_view m x = None" "q < 2 ^ k"
  shows "\<not> hits m q x"
  using slots_view_hit [OF assms(1,3), of x] assms(2) by auto

text \<open>A probe for an unmapped granule finds a slot that is not live, one for a mapped granule its slot.\<close>

lemma find_unmapped:
  assumes "slots_ok k m" "slots_used k m < 2 ^ k" "slots_view m x = None"
  obtains p e where "trace_lifecycle_find m x ins = Some p" "unat p = probe k x e" "e < 2 ^ k" "passes k m x e"
    "sl_state (slot_at m p) \<noteq> TRACE_SLOT_LIVE"
proof -
  have n: "\<not> hits m q x" if "q < 2 ^ k" for q using slots_view_NoneD [OF assms(1,3) that] .
  obtain p e where "trace_lifecycle_find m x ins = Some p" "unat p = probe k x e" "e < 2 ^ k" "passes k m x e"
    "sl_state (lm_slots m ! probe k x e) \<noteq> TRACE_SLOT_LIVE"
    using find_free [OF assms(1) n assms(2)] by blast
  then show thesis using that by (simp add: slot_at_def)
qed

lemma find_mapped:
  assumes "slots_ok k m" "slots_view m x = Some (h, r)"
  obtains p where "trace_lifecycle_find m x ins = Some p" "unat p < 2 ^ k" "hits m (unat p) x"
    "sl_handle (slot_at m p) = h" "sl_retired (slot_at m p) = r" "sl_state (slot_at m p) = TRACE_SLOT_LIVE"
proof -
  obtain q where q: "q < 2 ^ k" "hits m q x" "(h, r) = (sl_handle (lm_slots m ! q), sl_retired (lm_slots m ! q))"
    by (rule slots_view_SomeD [OF assms])
  obtain p where "trace_lifecycle_find m x ins = Some p" "unat p = q" using find_hit [OF assms(1) q(1,2)] by blast
  then show thesis using that q by (simp add: slot_at_def hits_def)
qed

section \<open>Changing a slot\<close>

lemma probe_inj: "probe k x i = probe k x j \<Longrightarrow> i < j \<Longrightarrow> j < 2 ^ k \<Longrightarrow> False"
proof -
  assume a: "probe k x i = probe k x j" "i < j" "j < 2 ^ k"
  have "(unat (trace_hash_address x) + j) mod 2 ^ k = (unat (trace_hash_address x) + i) mod 2 ^ k"
    using a(1) by (simp add: probe_def)
  then have "(2 :: nat) ^ k dvd (unat (trace_hash_address x) + j) - (unat (trace_hash_address x) + i)"
    using a(2) by (subst (asm) mod_eq_dvd_iff_nat) simp_all
  then have "(2 :: nat) ^ k dvd j - i" by simp
  then show False using a(2,3) by (auto dest!: dvd_imp_le)
qed

lemma hits_upd:
  assumes "lm_slots m' = (lm_slots m)[q := s]" "q < length (lm_slots m)"
  shows "hits m' r y \<longleftrightarrow> (if r = q then sl_state s = TRACE_SLOT_LIVE \<and> sl_granule s = y else hits m r y)"
  using assms by (auto simp: hits_def)

lemma passes_upd:
  assumes "passes k m y d" "lm_slots m' = (lm_slots m)[q := s]" "q < length (lm_slots m)"
    and "sl_state s \<noteq> TRACE_SLOT_EMPTY"
    and "sl_state s = TRACE_SLOT_LIVE \<Longrightarrow> sl_granule s = y \<Longrightarrow> q = probe k y d" "d < 2 ^ k"
  shows "passes k m' y d"
  unfolding passes_def
proof (intro allI impI)
  fix j assume j: "j < d"
  have p: "sl_state (lm_slots m ! probe k y j) \<noteq> TRACE_SLOT_EMPTY" "\<not> hits m (probe k y j) y"
    using assms(1) j by (auto simp: passes_def)
  have "\<not> (sl_state s = TRACE_SLOT_LIVE \<and> sl_granule s = y)" if "probe k y j = q"
    using probe_inj [of k y j d] j assms(5,6) that by auto
  then show "sl_state (lm_slots m' ! probe k y j) \<noteq> TRACE_SLOT_EMPTY \<and> \<not> hits m' (probe k y j) y"
    using p assms(2-4) by (cases "probe k y j = q") (auto simp: hits_upd [OF assms(2,3)])
qed

lemma slots_ok_upd:
  assumes ok: "slots_ok k m" and q: "q < 2 ^ k"
    and m': "lm_slots m' = (lm_slots m)[q := s]" "lm_capacity m' = lm_capacity m"
    and s: "sl_state s \<noteq> TRACE_SLOT_EMPTY"
    and live: "sl_state s = TRACE_SLOT_LIVE \<Longrightarrow>
      (\<exists>d < 2 ^ k. q = probe k (sl_granule s) d \<and> passes k m (sl_granule s) d)
      \<and> (\<forall>r < 2 ^ k. r \<noteq> q \<longrightarrow> \<not> hits m r (sl_granule s))"
    and count: "unat (lm_live_count m') = card {r. r < 2 ^ k \<and> sl_state (lm_slots m' ! r) = TRACE_SLOT_LIVE}"
  shows "slots_ok k m'"
proof -
  note S = slots_okD [OF ok]
  have l: "q < length (lm_slots m)" using q S(3) by simp
  have "\<exists>d < 2 ^ k. r = probe k (sl_granule (lm_slots m' ! r)) d \<and> passes k m' (sl_granule (lm_slots m' ! r)) d"
    if r: "r < 2 ^ k" "sl_state (lm_slots m' ! r) = TRACE_SLOT_LIVE" for r
  proof (cases "r = q")
    case True
    then have e: "lm_slots m' ! r = s" using m'(1) l by simp
    then obtain d where d: "d < 2 ^ k" "q = probe k (sl_granule s) d" "passes k m (sl_granule s) d"
      using live r(2) by auto
    have "passes k m' (sl_granule s) d" by (rule passes_upd [OF d(3) m'(1) l s d(2,1)])
    then show ?thesis using d(1,2) e True by (intro exI [of _ d]) simp
  next
    case False
    then have e: "lm_slots m' ! r = lm_slots m ! r" using m'(1) by simp
    then obtain d where d: "d < 2 ^ k" "r = probe k (sl_granule (lm_slots m ! r)) d"
      "passes k m (sl_granule (lm_slots m ! r)) d" using S(4) [OF r(1)] r(2) by auto
    have "sl_granule s \<noteq> sl_granule (lm_slots m ! r)" if "sl_state s = TRACE_SLOT_LIVE"
      using live [OF that] r False e by (auto simp: hits_def)
    then have "passes k m' (sl_granule (lm_slots m ! r)) d" by (intro passes_upd [OF d(3) m'(1) l s _ d(1)]) blast
    then show ?thesis unfolding e using d(1,2) by blast
  qed
  then show ?thesis using S(1-3) m' count by (simp add: slots_ok_def)
qed

lemma slots_view_upd:
  assumes "slots_ok k m" "slots_ok k m'" "q < 2 ^ k" "lm_slots m' = (lm_slots m)[q := s]"
  shows "slots_view m' y = (if sl_state s = TRACE_SLOT_LIVE \<and> sl_granule s = y then Some (sl_handle s, sl_retired s)
    else if hits m q y then None else slots_view m y)"
proof -
  have l: "q < length (lm_slots m)" using assms(3) slots_okD(3) [OF assms(1)] by simp
  note H = hits_upd [OF assms(4) l]
  show ?thesis
  proof (cases "\<exists>r < 2 ^ k. hits m' r y")
    case True
    then obtain r where r: "r < 2 ^ k" "hits m' r y" by blast
    have v: "slots_view m' y = Some (sl_handle (lm_slots m' ! r), sl_retired (lm_slots m' ! r))"
      by (rule slots_view_hit [OF assms(2) r])
    show ?thesis
    proof (cases "r = q")
      case True
      then show ?thesis using v r(2) l assms(4) H [of q y] by auto
    next
      case False
      then have h: "hits m r y" using H [of r y] r(2) by simp
      have "\<not> (sl_state s = TRACE_SLOT_LIVE \<and> sl_granule s = y)"
        using hits_unique [OF assms(2,3) r(1) _ r(2)] False H [of q y] by auto
      moreover have "\<not> hits m q y" using hits_unique [OF assms(1,3) r(1) _ h] False by auto
      ultimately show ?thesis using v slots_view_hit [OF assms(1) r(1) h] assms(4) False by auto
    qed
  next
    case False
    then have n: "\<not> hits m' r y" if "r < 2 ^ k" for r using that by blast
    have "slots_view m y = None" if "\<not> hits m q y"
      by (rule slots_view_none [OF assms(1)]) (use n H that in \<open>metis (full_types)\<close>)
    then show ?thesis using slots_view_none [OF assms(2) n] n [OF assms(3)] H [of q y] by auto
  qed
qed

lemma card_upd:
  assumes "q < (n :: nat)" "length xs = n"
  shows "card {r. r < n \<and> P (xs[q := s] ! r)}
    = card {r. r < n \<and> P (xs ! r)} + (if P s then 1 else 0) - (if P (xs ! q) then 1 else 0)"
proof -
  let ?R = "{r. r < n \<and> r \<noteq> q \<and> P (xs ! r)}"
  have R: "finite ?R" "q \<notin> ?R" by auto
  have "{r. r < n \<and> P (xs[q := s] ! r)} = (if P s then insert q ?R else ?R)"
    using assms by (auto simp: nth_list_update split: if_splits)
  moreover have "{r. r < n \<and> P (xs ! r)} = (if P (xs ! q) then insert q ?R else ?R)"
    using assms(1) by (auto split: if_splits)
  ultimately show ?thesis using R by simp
qed

text \<open>The three changes the validator makes.\<close>

lemma slot_put:
  fixes h :: u64
  assumes ok: "slots_ok k m" and used: "slots_used k m < 2 ^ k" and x: "slots_view m x = None"
    and p: "unat p = probe k x e" "e < 2 ^ k" "passes k m x e" "sl_state (slot_at m p) \<noteq> TRACE_SLOT_LIVE"
  defines "m' \<equiv> (set_slot p (\<lambda>s. s\<lparr>sl_granule := x, sl_handle := h, sl_state := TRACE_SLOT_LIVE,
      sl_retired := False\<rparr>) m)\<lparr>lm_live_count := lm_live_count m + 1\<rparr>"
  shows "slots_ok k m'" "slots_view m' = (slots_view m)(x \<mapsto> (h, False))" "slots_used k m' \<le> Suc (slots_used k m)"
proof -
  note S = slots_okD [OF ok]
  let ?q = "unat p"
  define s where "s = (slot_at m p)\<lparr>sl_granule := x, sl_handle := h, sl_state := TRACE_SLOT_LIVE, sl_retired := False\<rparr>"
  have s: "sl_state s = TRACE_SLOT_LIVE" "sl_granule s = x" "sl_handle s = h" "sl_retired s = False"
    by (simp_all add: s_def)
  have q: "?q < 2 ^ k" using p(1) by simp
  have m': "lm_slots m' = (lm_slots m)[?q := s]" "lm_capacity m' = lm_capacity m"
    "lm_live_count m' = lm_live_count m + 1" by (simp_all add: m'_def set_slot_def s_def)
  have "card {r. r < 2 ^ k \<and> sl_state (lm_slots m ! r) = TRACE_SLOT_LIVE} \<le> card {..< (2 :: nat) ^ k}"
    by (rule card_mono) auto
  moreover have "(2 :: nat) ^ k \<le> 2 ^ 63" using S(1) by (intro power_increasing) simp_all
  ultimately have c: "unat (lm_live_count m') = unat (lm_live_count m) + 1"
    using unat_add_exact [of "lm_live_count m" 1] m'(3) S(5) by simp
  show 1: "slots_ok k m'"
  proof (rule slots_ok_upd [OF ok q m'(1,2)])
    show "unat (lm_live_count m') = card {r. r < 2 ^ k \<and> sl_state (lm_slots m' ! r) = TRACE_SLOT_LIVE}"
      unfolding m'(1) c using card_upd [OF q S(3), of "\<lambda>s. sl_state s = TRACE_SLOT_LIVE" s] p(4) S(5)
      by (simp add: s slot_at_def)
  qed (use s p slots_view_NoneD [OF ok x] in auto)
  show "slots_view m' = (slots_view m)(x \<mapsto> (h, False))"
    using slots_view_upd [OF ok 1 q m'(1)] p(4) s by (auto simp: fun_eq_iff hits_def slot_at_def)
  show "slots_used k m' \<le> Suc (slots_used k m)"
    using card_upd [OF q S(3), of "\<lambda>s. sl_state s \<noteq> TRACE_SLOT_EMPTY" s]
    by (simp add: slots_used_def m'(1) s)
qed

lemma slot_retire:
  assumes ok: "slots_ok k m" and p: "unat p < 2 ^ k" "hits m (unat p) x"
  defines "m' \<equiv> set_slot p (\<lambda>s. s\<lparr>sl_retired := True\<rparr>) m"
  shows "slots_ok k m'" "slots_view m' = (slots_view m)(x \<mapsto> (sl_handle (slot_at m p), True))"
    "slots_used k m' = slots_used k m"
proof -
  note S = slots_okD [OF ok]
  define s where "s = (slot_at m p)\<lparr>sl_retired := True\<rparr>"
  have old: "sl_state (lm_slots m ! unat p) = TRACE_SLOT_LIVE" using p(2) by (simp add: hits_def)
  have s: "sl_state s = TRACE_SLOT_LIVE" "sl_granule s = x" "sl_handle s = sl_handle (slot_at m p)" "sl_retired s"
    using p(2) by (simp_all add: s_def slot_at_def hits_def)
  have m': "lm_slots m' = (lm_slots m)[unat p := s]" "lm_capacity m' = lm_capacity m" "lm_live_count m' = lm_live_count m"
    by (simp_all add: m'_def set_slot_def s_def)
  show 1: "slots_ok k m'"
  proof (rule slots_ok_upd [OF ok p(1) m'(1,2)])
    show "unat (lm_live_count m') = card {r. r < 2 ^ k \<and> sl_state (lm_slots m' ! r) = TRACE_SLOT_LIVE}"
      using card_upd [OF p(1) S(3), of "\<lambda>s. sl_state s = TRACE_SLOT_LIVE" s] old by (simp add: m' s S(5))
    show "(\<exists>d < 2 ^ k. unat p = probe k (sl_granule s) d \<and> passes k m (sl_granule s) d)
      \<and> (\<forall>r < 2 ^ k. r \<noteq> unat p \<longrightarrow> \<not> hits m r (sl_granule s))"
      using S(4) [OF p(1) old] p(2) hits_unique [OF ok _ p(1) _ p(2)] by (auto simp: s(2) hits_def)
  qed (simp add: s)
  show "slots_view m' = (slots_view m)(x \<mapsto> (sl_handle (slot_at m p), True))"
    using slots_view_upd [OF ok 1 p(1) m'(1)] p(2) s by (auto simp: fun_eq_iff hits_def)
  show "slots_used k m' = slots_used k m"
    using card_upd [OF p(1) S(3), of "\<lambda>s. sl_state s \<noteq> TRACE_SLOT_EMPTY" s] old s(1)
    by (simp add: slots_used_def m'(1))
qed

lemma slot_drop:
  assumes ok: "slots_ok k m" and p: "unat p < 2 ^ k" "hits m (unat p) x"
  defines "m' \<equiv> (set_slot p (\<lambda>s. s\<lparr>sl_state := TRACE_SLOT_TOMBSTONE, sl_retired := False\<rparr>) m)
      \<lparr>lm_live_count := lm_live_count m - 1\<rparr>"
  shows "slots_ok k m'" "slots_view m' = (slots_view m)(x := None)" "slots_used k m' = slots_used k m"
    "lm_live_count m \<noteq> 0"
proof -
  note S = slots_okD [OF ok]
  define s where "s = (slot_at m p)\<lparr>sl_state := TRACE_SLOT_TOMBSTONE, sl_retired := False\<rparr>"
  have old: "sl_state (lm_slots m ! unat p) = TRACE_SLOT_LIVE" using p(2) by (simp add: hits_def)
  have s: "sl_state s = TRACE_SLOT_TOMBSTONE" by (simp add: s_def)
  have m': "lm_slots m' = (lm_slots m)[unat p := s]" "lm_capacity m' = lm_capacity m"
    "lm_live_count m' = lm_live_count m - 1" by (simp_all add: m'_def set_slot_def s_def)
  have "unat p \<in> {r. r < 2 ^ k \<and> sl_state (lm_slots m ! r) = TRACE_SLOT_LIVE}" using old p(1) by simp
  then have "0 < unat (lm_live_count m)" unfolding S(5) by (intro card_gt_0_iff [THEN iffD2]) auto
  then show 0: "lm_live_count m \<noteq> 0" by auto
  then have c: "unat (lm_live_count m') = unat (lm_live_count m) - 1"
    using unat_sub_exact [of 1 "lm_live_count m"] by (simp add: m'(3) word_le_nat_alt unat_gt_0 Suc_le_eq)
  show 1: "slots_ok k m'"
  proof (rule slots_ok_upd [OF ok p(1) m'(1,2)])
    show "unat (lm_live_count m') = card {r. r < 2 ^ k \<and> sl_state (lm_slots m' ! r) = TRACE_SLOT_LIVE}"
      using card_upd [OF p(1) S(3), of "\<lambda>s. sl_state s = TRACE_SLOT_LIVE" s] old by (simp add: m'(1) s c S(5))
  qed (simp_all add: s)
  show "slots_view m' = (slots_view m)(x := None)"
    using slots_view_upd [OF ok 1 p(1) m'(1)] p(2) s by (auto simp: fun_eq_iff hits_def)
  show "slots_used k m' = slots_used k m"
    using card_upd [OF p(1) S(3), of "\<lambda>s. sl_state s \<noteq> TRACE_SLOT_EMPTY" s] old s
    by (simp add: slots_used_def m'(1))
qed

end
