(* ===== verification/Memx_TraceLife.thy ===== *)
theory Memx_TraceLife
  imports Memx_TraceMap
begin

text \<open>
  Lifecycle validation against an abstract oracle: a trace is replayed over a map from granules to
  a handle and a retired flag, and the validator accepts and refuses the events the oracle does.
\<close>

section \<open>The oracle\<close>

definition event_granules :: "nat \<Rightarrow> memx_trace_event \<Rightarrow> u64 list" where
  "event_granules g e = map (\<lambda>i. ev_address e + of_nat i * 2 ^ g) [0 ..< unat (ev_size e) div 2 ^ g]"

definition replay_event ::
  "nat \<Rightarrow> memx_trace_event \<Rightarrow> (u64 \<rightharpoonup> u64 \<times> bool) \<Rightarrow> (u64 \<rightharpoonup> u64 \<times> bool) option" where
  "replay_event g e M =
     (let G = set (event_granules g e); h = ev_handle e in
      if ev_operation e = MEMX_TRACE_INSERT
      then if \<forall>x \<in> G. M x = None then Some (\<lambda>x. if x \<in> G then Some (h, False) else M x) else None
      else if ev_operation e = MEMX_TRACE_LOOKUP
      then if (case M (ev_address e AND NOT (mask g)) of None \<Rightarrow> MEMX_HANDLE_INVALID | Some (h', r) \<Rightarrow> h') = h
           then Some M else None
      else if ev_operation e = MEMX_TRACE_RETIRE
      then if \<forall>x \<in> G. M x = Some (h, False) then Some (\<lambda>x. if x \<in> G then Some (h, True) else M x) else None
      else if ev_operation e = MEMX_TRACE_REMOVE
      then if \<forall>x \<in> G. M x = Some (h, False) \<or> M x = Some (h, True)
           then Some (\<lambda>x. if x \<in> G then None else M x) else None
      else if ev_operation e = MEMX_TRACE_QUIESCENT then Some M
      else None)"

text \<open>The maps after each accepted event, up to the first the oracle refuses.\<close>

fun replay_maps ::
  "nat \<Rightarrow> memx_trace_event list \<Rightarrow> (u64 \<rightharpoonup> u64 \<times> bool) \<Rightarrow> (u64 \<rightharpoonup> u64 \<times> bool) list" where
  "replay_maps g [] M = []"
| "replay_maps g (e # es) M =
     (case replay_event g e M of None \<Rightarrow> [] | Some M' \<Rightarrow> M' # replay_maps g es M')"

definition replay_accepts :: "nat \<Rightarrow> memx_trace_event list \<Rightarrow> bool" where
  "replay_accepts g es \<longleftrightarrow> length (replay_maps g es Map.empty) = length es"

definition event_inserts :: "nat \<Rightarrow> memx_trace_event \<Rightarrow> nat" where
  "event_inserts g e = (if ev_operation e = MEMX_TRACE_INSERT then unat (ev_size e) div 2 ^ g else 0)"

definition inserted :: "nat \<Rightarrow> memx_trace_event list \<Rightarrow> nat" where
  "inserted g es = (\<Sum>e\<leftarrow>es. event_inserts g e)"

lemma inserted_simps [simp]: "inserted g [] = 0" "inserted g (e # es) = event_inserts g e + inserted g es"
  by (simp_all add: inserted_def)

section \<open>The loop over a range\<close>

fun all_granules ::
  "(u64 \<Rightarrow> trace_lifecycle_map \<Rightarrow> bool \<times> trace_lifecycle_map) \<Rightarrow> u64 list \<Rightarrow> trace_lifecycle_map
     \<Rightarrow> bool \<times> trace_lifecycle_map" where
  "all_granules body [] m = (True, m)"
| "all_granules body (x # xs) m =
     (let (valid, m) = body x m in if \<not> valid then (False, m) else all_granules body xs m)"

lemma unat_granule:
  assumes "g < 64" "unat (a :: u64) + n * 2 ^ g < 2 ^ 64"
  shows "unat (a + of_nat n * 2 ^ g) = unat a + n * 2 ^ g"
proof -
  have "n * 1 \<le> n * 2 ^ g" by (intro mult_le_mono2) simp
  then have "n < 2 ^ 64" using assms(2) by linarith
  then have n: "unat (of_nat n :: u64) = n" by (simp add: unsigned_of_nat take_bit_nat_eq_self)
  have "unat (of_nat n * 2 ^ g :: u64) = n * 2 ^ g"
    using unat_mult_exact [of "of_nat n" "2 ^ g"] assms by (simp add: n unat_pow2)
  then show ?thesis using unat_add_exact [of a "of_nat n * 2 ^ g"] assms(2) by simp
qed

lemma each_granule_run:
  assumes "g < 64"
  shows "unat a + n * 2 ^ g < 2 ^ 64 \<Longrightarrow>
    each_granule body (2 ^ g) (a + of_nat n * 2 ^ g) a m
      = Some (all_granules body (map (\<lambda>i. a + of_nat i * 2 ^ g) [0 ..< n]) m)"
proof (induction n arbitrary: a m)
  case 0
  then show ?case by (simp add: each_granule.simps)
next
  case (Suc n)
  have p: "(0 :: nat) < 2 ^ g" by simp
  have lt: "a < a + of_nat (Suc n) * 2 ^ g"
    unfolding word_less_nat_alt unat_granule [OF assms Suc.prems] using p by simp
  have b: "unat (a + 2 ^ g) = unat a + 2 ^ g" using unat_granule [OF assms, of a 1] Suc.prems by simp
  have e: "a + of_nat (Suc n) * 2 ^ g = (a + 2 ^ g) + of_nat n * 2 ^ g" by (simp add: algebra_simps)
  have l: "map (\<lambda>i. a + of_nat i * 2 ^ g) [0 ..< Suc n] = a # map (\<lambda>i. (a + 2 ^ g) + of_nat i * 2 ^ g) [0 ..< n]"
    by (simp add: upt_conv_Cons map_Suc_upt [symmetric] algebra_simps del: upt_Suc)
  have IH: "each_granule body (2 ^ g) (a + of_nat (Suc n) * 2 ^ g) (a + 2 ^ g) m'
      = Some (all_granules body (map (\<lambda>i. (a + 2 ^ g) + of_nat i * 2 ^ g) [0 ..< n]) m')" for m'
    unfolding e by (rule Suc.IH) (use Suc.prems b in \<open>simp add: algebra_simps\<close>)
  show ?case unfolding l each_granule.simps [of _ _ _ a] using lt IH by (simp add: split_beta Let_def)
qed

section \<open>Well-formed ranges\<close>

definition range_wf :: "nat \<Rightarrow> memx_trace_event \<Rightarrow> bool" where
  "range_wf g e \<longleftrightarrow> ev_size e \<noteq> 0 \<and> 2 ^ g dvd unat (ev_address e) \<and> 2 ^ g dvd unat (ev_size e)
     \<and> unat (ev_address e) + unat (ev_size e) < 2 ^ 64"

lemma malformed_range:
  assumes "g < 64" "\<not> event_malformed (2 ^ g - 1) e" "range_operation e"
  shows "range_wf g e"
proof -
  have "ev_size e \<le> UINTPTR_MAX - ev_address e" using assms(2,3) by (simp add: event_malformed_def not_less)
  then have "unat (ev_size e) \<le> unat (UINTPTR_MAX - ev_address e)" by (simp add: word_le_nat_alt)
  also have "unat (UINTPTR_MAX - ev_address e) = 18446744073709551615 - unat (ev_address e)"
    by (simp add: unat_sub_exact)
  finally show ?thesis
    using assms(2,3) unat_lt_64 [of "ev_address e"] unfolding range_wf_def
    by (simp add: event_malformed_def pow2_minus_1 and_mask_eq_0_iff del: unat_lt_64)
qed

lemma event_run:
  assumes "g < 64" "range_wf g e"
  shows "each_granule body (2 ^ g) (event_end e) (ev_address e) m = Some (all_granules body (event_granules g e) m)"
proof -
  let ?n = "unat (ev_size e) div 2 ^ g"
  have s: "?n * 2 ^ g = unat (ev_size e)" using assms(2) by (simp add: range_wf_def)
  have "of_nat ?n * 2 ^ g = (of_nat (?n * 2 ^ g) :: u64)" by simp
  then have "event_end e = ev_address e + of_nat ?n * 2 ^ g" by (simp add: event_end_def s)
  then show ?thesis using each_granule_run [OF assms(1), of "ev_address e" ?n body m] assms(2) s
    by (simp add: range_wf_def event_granules_def)
qed

lemma event_granules_nth:
  assumes "g < 64" "range_wf g e" "i < unat (ev_size e) div 2 ^ g"
  shows "unat (ev_address e + of_nat i * 2 ^ g) = unat (ev_address e) + i * 2 ^ g"
    "i * 2 ^ g + 2 ^ g \<le> unat (ev_size e)"
proof -
  have "Suc i * 2 ^ g \<le> unat (ev_size e) div 2 ^ g * 2 ^ g" using assms(3) by (intro mult_le_mono1) simp
  then show 2: "i * 2 ^ g + 2 ^ g \<le> unat (ev_size e)" using assms(2) by (simp add: range_wf_def)
  show "unat (ev_address e + of_nat i * 2 ^ g) = unat (ev_address e) + i * 2 ^ g"
    using assms(2) 2 by (intro unat_granule [OF assms(1)]) (simp add: range_wf_def)
qed

lemma event_granules_distinct:
  assumes "g < 64" "range_wf g e"
  shows "distinct (event_granules g e)"
  unfolding event_granules_def distinct_map
proof (intro conjI inj_onI)
  fix i j assume a: "i \<in> set [0 ..< unat (ev_size e) div 2 ^ g]" "j \<in> set [0 ..< unat (ev_size e) div 2 ^ g]"
    and "ev_address e + of_nat i * 2 ^ g = ev_address e + of_nat j * 2 ^ g"
  then have u: "unat (ev_address e + of_nat i * 2 ^ g) = unat (ev_address e + of_nat j * 2 ^ g)" by (simp only:)
  have l: "i < unat (ev_size e) div 2 ^ g" "j < unat (ev_size e) div 2 ^ g" using a by simp_all
  have "unat (ev_address e) + i * 2 ^ g = unat (ev_address e) + j * 2 ^ g"
    using u unfolding event_granules_nth(1) [OF assms l(1)] event_granules_nth(1) [OF assms l(2)] .
  then show "i = j" by simp
qed simp

lemma length_event_granules [simp]: "length (event_granules g e) = unat (ev_size e) div 2 ^ g"
  by (simp add: event_granules_def)

text \<open>The granules of a well-formed range are the aligned addresses in it.\<close>

lemma event_granules_memI:
  "i < unat (ev_size e) div 2 ^ g \<Longrightarrow> ev_address e + of_nat i * 2 ^ g \<in> set (event_granules g e)"
  unfolding event_granules_def set_map by (rule imageI) simp

lemma event_granules_memE:
  assumes "x \<in> set (event_granules g e)"
  obtains i where "i < unat (ev_size e) div 2 ^ g" "x = ev_address e + of_nat i * 2 ^ g"
proof -
  obtain i where "i \<in> set [0 ..< unat (ev_size e) div 2 ^ g]" "x = ev_address e + of_nat i * 2 ^ g"
    using assms unfolding event_granules_def set_map by (rule imageE)
  then show thesis using that by simp
qed

lemma event_granules_set:
  assumes "g < 64" "range_wf g e"
  shows "x \<in> set (event_granules g e) \<longleftrightarrow> 2 ^ g dvd unat x \<and> unat (ev_address e) \<le> unat x
    \<and> unat x < unat (ev_address e) + unat (ev_size e)"
proof
  note W = assms(2) [unfolded range_wf_def]
  assume "x \<in> set (event_granules g e)"
  then obtain i where i: "i < unat (ev_size e) div 2 ^ g" "x = ev_address e + of_nat i * 2 ^ g"
    by (rule event_granules_memE)
  note N = event_granules_nth [OF assms i(1)]
  have "2 ^ g dvd unat (ev_address e) + i * 2 ^ g" using W by (intro dvd_add) simp_all
  moreover have "(0 :: nat) < 2 ^ g" by simp
  then have "i * 2 ^ g < unat (ev_size e)" using N(2) by linarith
  ultimately show "2 ^ g dvd unat x \<and> unat (ev_address e) \<le> unat x
    \<and> unat x < unat (ev_address e) + unat (ev_size e)" unfolding i(2) N(1) by linarith
next
  note W = assms(2) [unfolded range_wf_def]
  assume x: "2 ^ g dvd unat x \<and> unat (ev_address e) \<le> unat x \<and> unat x < unat (ev_address e) + unat (ev_size e)"
  define y where "y = unat x - unat (ev_address e)"
  have d: "2 ^ g dvd y" unfolding y_def using x W by (intro dvd_diff_nat) simp_all
  have "y < unat (ev_size e)" using x unfolding y_def by linarith
  then have i: "y div 2 ^ g < unat (ev_size e) div 2 ^ g" using d W by (intro div_less_mono) simp_all
  have "unat (ev_address e + of_nat (y div 2 ^ g) * 2 ^ g) = unat (ev_address e) + y"
    unfolding event_granules_nth(1) [OF assms i] dvd_div_mult_self [OF d] ..
  also have "\<dots> = unat x" using x unfolding y_def by linarith
  finally have "x = ev_address e + of_nat (y div 2 ^ g) * 2 ^ g" by (simp only: word_unat_eq_iff)
  then show "x \<in> set (event_granules g e)" using event_granules_memI [OF i] by simp
qed

section \<open>The bodies over a list of granules\<close>

lemma all_granules_test:
  assumes "\<And>x. x \<in> set xs \<Longrightarrow> body x m = (P x, m)"
  shows "all_granules body xs m = (\<forall>x \<in> set xs. P x, m)"
  using assms by (induction xs) (auto simp: Let_def)

lemma all_granules_put:
  assumes "\<And>x m p. body x m = (case trace_lifecycle_find m x True of
          None \<Rightarrow> (False, m)
        | Some slot \<Rightarrow>
            (True, (set_slot slot (\<lambda>s. s\<lparr>sl_granule := x, sl_handle := h,
               sl_state := TRACE_SLOT_LIVE, sl_retired := False\<rparr>) m)\<lparr>lm_live_count := lm_live_count m + 1\<rparr>))"
  shows "slots_ok k m \<Longrightarrow> distinct xs \<Longrightarrow> \<forall>x \<in> set xs. slots_view m x = None \<Longrightarrow>
    slots_used k m + length xs < 2 ^ k \<Longrightarrow>
    \<exists>m'. all_granules body xs m = (True, m') \<and> slots_ok k m'
      \<and> slots_view m' = (\<lambda>x. if x \<in> set xs then Some (h, False) else slots_view m x)
      \<and> slots_used k m' \<le> slots_used k m + length xs"
proof (induction xs arbitrary: m)
  case Nil
  then show ?case by simp
next
  case (Cons x xs)
  have u: "slots_used k m < 2 ^ k" and x: "slots_view m x = None" using Cons.prems by simp_all
  obtain p e where p: "trace_lifecycle_find m x True = Some p" "unat p = probe k x e" "e < 2 ^ k" "passes k m x e"
    "sl_state (slot_at m p) \<noteq> TRACE_SLOT_LIVE"
    by (rule find_unmapped [OF Cons.prems(1) u x])
  note P = slot_put [OF Cons.prems(1) u x p(2-5), where h = h]
  let ?m = "(set_slot p (\<lambda>s. s\<lparr>sl_granule := x, sl_handle := h, sl_state := TRACE_SLOT_LIVE,
      sl_retired := False\<rparr>) m)\<lparr>lm_live_count := lm_live_count m + 1\<rparr>"
  have "\<forall>y \<in> set xs. slots_view ?m y = None" using Cons.prems(2,3) by (auto simp: P(2))
  moreover have "slots_used k ?m + length xs < 2 ^ k" using P(3) Cons.prems(4) by simp
  ultimately obtain m' where m': "all_granules body xs ?m = (True, m')" "slots_ok k m'"
    "slots_view m' = (\<lambda>x. if x \<in> set xs then Some (h, False) else slots_view ?m x)"
    "slots_used k m' \<le> slots_used k ?m + length xs"
    using Cons.IH [OF P(1)] Cons.prems(2) by auto
  have "all_granules body (x # xs) m = (True, m')" using m'(1) by (simp add: assms p(1))
  moreover have "slots_view m' = (\<lambda>y. if y \<in> set (x # xs) then Some (h, False) else slots_view m y)"
    by (auto simp: m'(3) P(2) fun_eq_iff)
  ultimately show ?case using m'(2,4) P(3) by (intro exI [of _ m']) simp
qed

lemma all_granules_retire:
  assumes "\<And>x m. body x m = (case trace_lifecycle_find m x False of
          None \<Rightarrow> (False, m)
        | Some slot \<Rightarrow> (True, set_slot slot (\<lambda>s. s\<lparr>sl_retired := True\<rparr>) m))"
  shows "slots_ok k m \<Longrightarrow> distinct xs \<Longrightarrow> \<forall>x \<in> set xs. \<exists>r. slots_view m x = Some (h, r) \<Longrightarrow>
    slots_used k m < 2 ^ k \<Longrightarrow>
    \<exists>m'. all_granules body xs m = (True, m') \<and> slots_ok k m'
      \<and> slots_view m' = (\<lambda>x. if x \<in> set xs then Some (h, True) else slots_view m x)
      \<and> slots_used k m' = slots_used k m"
proof (induction xs arbitrary: m)
  case Nil
  then show ?case by simp
next
  case (Cons x xs)
  obtain r where r: "slots_view m x = Some (h, r)" using Cons.prems by auto
  obtain p where p: "trace_lifecycle_find m x False = Some p" "unat p < 2 ^ k" "hits m (unat p) x"
    "sl_handle (slot_at m p) = h"
    by (rule find_mapped [OF Cons.prems(1) r])
  note P = slot_retire [OF Cons.prems(1) p(2,3)]
  let ?m = "set_slot p (\<lambda>s. s\<lparr>sl_retired := True\<rparr>) m"
  have "\<forall>y \<in> set xs. \<exists>r. slots_view ?m y = Some (h, r)" using Cons.prems(2,3) by (auto simp: P(2))
  then obtain m' where m': "all_granules body xs ?m = (True, m')" "slots_ok k m'"
    "slots_view m' = (\<lambda>x. if x \<in> set xs then Some (h, True) else slots_view ?m x)"
    "slots_used k m' = slots_used k ?m"
    using Cons.IH [OF P(1)] Cons.prems(2,4) P(3) by auto
  have "all_granules body (x # xs) m = (True, m')" using m'(1) by (simp add: assms p(1))
  moreover have "slots_view m' = (\<lambda>y. if y \<in> set (x # xs) then Some (h, True) else slots_view m y)"
    by (auto simp: m'(3) P(2) p(4) fun_eq_iff)
  ultimately show ?case using m'(2,4) P(3) by (intro exI [of _ m']) simp
qed

lemma all_granules_drop:
  assumes "\<And>x m. body x m = (case trace_lifecycle_find m x False of
          None \<Rightarrow> (False, m)
        | Some slot \<Rightarrow>
            (if lm_live_count m = 0 then (False, m)
             else (True, (set_slot slot (\<lambda>s. s\<lparr>sl_state := TRACE_SLOT_TOMBSTONE, sl_retired := False\<rparr>) m)
                     \<lparr>lm_live_count := lm_live_count m - 1\<rparr>)))"
  shows "slots_ok k m \<Longrightarrow> distinct xs \<Longrightarrow> \<forall>x \<in> set xs. slots_view m x \<noteq> None \<Longrightarrow>
    slots_used k m < 2 ^ k \<Longrightarrow>
    \<exists>m'. all_granules body xs m = (True, m') \<and> slots_ok k m'
      \<and> slots_view m' = (\<lambda>x. if x \<in> set xs then None else slots_view m x)
      \<and> slots_used k m' = slots_used k m"
proof (induction xs arbitrary: m)
  case Nil
  then show ?case by simp
next
  case (Cons x xs)
  obtain h r where r: "slots_view m x = Some (h, r)" using Cons.prems by auto
  obtain p where p: "trace_lifecycle_find m x False = Some p" "unat p < 2 ^ k" "hits m (unat p) x"
    by (rule find_mapped [OF Cons.prems(1) r])
  note P = slot_drop [OF Cons.prems(1) p(2,3)]
  let ?m = "(set_slot p (\<lambda>s. s\<lparr>sl_state := TRACE_SLOT_TOMBSTONE, sl_retired := False\<rparr>) m)
                     \<lparr>lm_live_count := lm_live_count m - 1\<rparr>"
  have "\<forall>y \<in> set xs. slots_view ?m y \<noteq> None" using Cons.prems(2,3) by (auto simp: P(2))
  then obtain m' where m': "all_granules body xs ?m = (True, m')" "slots_ok k m'"
    "slots_view m' = (\<lambda>x. if x \<in> set xs then None else slots_view ?m x)"
    "slots_used k m' = slots_used k ?m"
    using Cons.IH [OF P(1)] Cons.prems(2,4) P(3) by auto
  have "all_granules body (x # xs) m = (True, m')" using m'(1) by (simp add: assms p(1) P(4))
  moreover have "slots_view m' = (\<lambda>y. if y \<in> set (x # xs) then None else slots_view m y)"
    by (auto simp: m'(3) P(2) fun_eq_iff)
  ultimately show ?case using m'(2,4) P(3) by (intro exI [of _ m']) simp
qed

end
