(* ===== verification/Memx_TraceCheck.thy ===== *)
theory Memx_TraceCheck
  imports Memx_TraceLife
begin

text \<open>
  The validator refines the oracle: event by event on the hash map, and then as a whole, with the
  capacity it computes, the blocks it allocates and releases, and the statistics.
\<close>

section \<open>One event\<close>

lemma matches_run:
  assumes "g < 64" "range_wf g e" "slots_ok k m" "slots_used k m < 2 ^ k"
  shows "trace_lifecycle_range_matches m e (2 ^ g) active = Some
    (\<forall>x \<in> set (event_granules g e). \<exists>r. slots_view m x = Some (ev_handle e, r) \<and> (active \<longrightarrow> \<not> r), m)"
proof -
  have "(case trace_lifecycle_find m x False of None \<Rightarrow> (False, m)
        | Some slot \<Rightarrow> (\<not> (sl_state (slot_at m slot) \<noteq> TRACE_SLOT_LIVE \<or> sl_handle (slot_at m slot) \<noteq> ev_handle e
            \<or> active \<and> sl_retired (slot_at m slot)), m))
    = (\<exists>r. slots_view m x = Some (ev_handle e, r) \<and> (active \<longrightarrow> \<not> r), m)" for x
  proof (cases "slots_view m x")
    case None
    obtain p where "trace_lifecycle_find m x False = Some p" "sl_state (slot_at m p) \<noteq> TRACE_SLOT_LIVE"
      by (rule find_unmapped [OF assms(3,4) None])
    then show ?thesis using None by simp
  next
    case (Some v)
    obtain h r where v: "v = (h, r)" by fastforce
    obtain p where "trace_lifecycle_find m x False = Some p" "sl_handle (slot_at m p) = h"
      "sl_retired (slot_at m p) = r" "sl_state (slot_at m p) = TRACE_SLOT_LIVE"
      by (rule find_mapped [OF assms(3) Some [unfolded v]])
    then show ?thesis using Some v by auto
  qed
  then show ?thesis unfolding trace_lifecycle_range_matches_def event_run [OF assms(1,2)]
    by (subst all_granules_test) simp_all
qed

lemma insert_run:
  assumes "g < 64" "range_wf g e" "slots_ok k m"
    and "slots_used k m + unat (ev_size e) div 2 ^ g < 2 ^ k"
  shows "if \<forall>x \<in> set (event_granules g e). slots_view m x = None
    then \<exists>m'. trace_lifecycle_insert m e (2 ^ g) = Some (True, m') \<and> slots_ok k m'
      \<and> slots_view m' = (\<lambda>x. if x \<in> set (event_granules g e) then Some (ev_handle e, False) else slots_view m x)
      \<and> slots_used k m' \<le> slots_used k m + unat (ev_size e) div 2 ^ g
    else trace_lifecycle_insert m e (2 ^ g) = Some (False, m)"
proof -
  have u: "slots_used k m < 2 ^ k" using assms(4) by simp
  have "(case trace_lifecycle_find m x False of None \<Rightarrow> (True, m)
        | Some slot \<Rightarrow> (sl_state (slot_at m slot) \<noteq> TRACE_SLOT_LIVE, m)) = (slots_view m x = None, m)" for x
  proof (cases "slots_view m x")
    case None
    obtain p where "trace_lifecycle_find m x False = Some p" "sl_state (slot_at m p) \<noteq> TRACE_SLOT_LIVE"
      by (rule find_unmapped [OF assms(3) u None])
    then show ?thesis using None by simp
  next
    case (Some v)
    obtain h r where v: "v = (h, r)" by fastforce
    obtain p where "trace_lifecycle_find m x False = Some p" "sl_state (slot_at m p) = TRACE_SLOT_LIVE"
      by (rule find_mapped [OF assms(3) Some [unfolded v]])
    then show ?thesis using Some by simp
  qed
  then have t: "all_granules (\<lambda>address m. (case trace_lifecycle_find m address False of None \<Rightarrow> (True, m)
        | Some slot \<Rightarrow> (sl_state (slot_at m slot) \<noteq> TRACE_SLOT_LIVE, m))) (event_granules g e) m
      = (\<forall>x \<in> set (event_granules g e). slots_view m x = None, m)"
    by (subst all_granules_test) simp_all
  show ?thesis
  proof (cases "\<forall>x \<in> set (event_granules g e). slots_view m x = None")
    case False
    then have b: "(\<forall>x \<in> set (event_granules g e). slots_view m x = None) = False" by blast
    show ?thesis unfolding trace_lifecycle_insert_def event_run [OF assms(1,2)] t b by simp
  next
    case True
    let ?body = "\<lambda>address m. (case trace_lifecycle_find m address True of None \<Rightarrow> (False, m)
        | Some slot \<Rightarrow> (True, (set_slot slot (\<lambda>s. s\<lparr>sl_granule := address, sl_handle := ev_handle e,
               sl_state := TRACE_SLOT_LIVE, sl_retired := False\<rparr>) m)\<lparr>lm_live_count := lm_live_count m + 1\<rparr>))"
    have "\<exists>m'. all_granules ?body (event_granules g e) m = (True, m') \<and> slots_ok k m'
      \<and> slots_view m' = (\<lambda>x. if x \<in> set (event_granules g e) then Some (ev_handle e, False) else slots_view m x)
      \<and> slots_used k m' \<le> slots_used k m + length (event_granules g e)"
      using assms(4) True by (intro all_granules_put assms(3) event_granules_distinct [OF assms(1,2)]) simp_all
    then show ?thesis using True
      unfolding trace_lifecycle_insert_def event_run [OF assms(1,2)] t length_event_granules by simp
  qed
qed

lemma operations_distinct:
  "MEMX_TRACE_LOOKUP \<noteq> MEMX_TRACE_INSERT" "MEMX_TRACE_RETIRE \<noteq> MEMX_TRACE_INSERT"
  "MEMX_TRACE_REMOVE \<noteq> MEMX_TRACE_INSERT" "MEMX_TRACE_QUIESCENT \<noteq> MEMX_TRACE_INSERT"
  "MEMX_TRACE_RETIRE \<noteq> MEMX_TRACE_LOOKUP" "MEMX_TRACE_REMOVE \<noteq> MEMX_TRACE_LOOKUP"
  "MEMX_TRACE_QUIESCENT \<noteq> MEMX_TRACE_LOOKUP" "MEMX_TRACE_REMOVE \<noteq> MEMX_TRACE_RETIRE"
  "MEMX_TRACE_QUIESCENT \<noteq> MEMX_TRACE_RETIRE" "MEMX_TRACE_QUIESCENT \<noteq> MEMX_TRACE_REMOVE"
  by (simp_all add: trace_operations)

lemmas operation_select = operations_distinct if_True if_False Let_def simp_thms(6)

lemma step_refines:
  assumes "g < 64" "\<not> event_malformed (2 ^ g - 1) e" "slots_ok k m" "slots_used k m + event_inserts g e < 2 ^ k"
  shows "\<exists>v m'. lifecycle_step (2 ^ g) e m = Some (v, m')
    \<and> (case replay_event g e (slots_view m) of
         None \<Rightarrow> \<not> v
       | Some M \<Rightarrow> v \<and> slots_ok k m' \<and> slots_view m' = M \<and> slots_used k m' \<le> slots_used k m + event_inserts g e)"
proof -
  have u: "slots_used k m < 2 ^ k" using assms(4) by simp
  consider (insert) "ev_operation e = MEMX_TRACE_INSERT" | (lookup) "ev_operation e = MEMX_TRACE_LOOKUP"
    | (retire) "ev_operation e = MEMX_TRACE_RETIRE" | (remove) "ev_operation e = MEMX_TRACE_REMOVE"
    | (quiet) "ev_operation e = MEMX_TRACE_QUIESCENT"
    | (other) "ev_operation e \<notin> {MEMX_TRACE_INSERT, MEMX_TRACE_LOOKUP, MEMX_TRACE_RETIRE, MEMX_TRACE_REMOVE,
        MEMX_TRACE_QUIESCENT}" by blast
  then show ?thesis
  proof cases
    case insert
    have W: "range_wf g e" using insert by (intro malformed_range [OF assms(1,2)]) (simp add: range_operation_def)
    let ?X = "set (event_granules g e)"
    have S: "lifecycle_step (2 ^ g) e m = trace_lifecycle_insert m e (2 ^ g)"
      using insert by (simp add: lifecycle_step_def)
    have R: "replay_event g e (slots_view m) = (if \<forall>x \<in> ?X. slots_view m x = None
        then Some (\<lambda>x. if x \<in> ?X then Some (ev_handle e, False) else slots_view m x) else None)"
      by (simp only: replay_event_def insert operation_select)
    have i: "event_inserts g e = unat (ev_size e) div 2 ^ g" using insert by (simp add: event_inserts_def)
    note I = insert_run [OF assms(1) W assms(3) assms(4) [unfolded i]]
    show ?thesis
    proof (cases "\<forall>x \<in> ?X. slots_view m x = None")
      case False
      then have b: "(\<forall>x \<in> ?X. slots_view m x = None) = False" by blast
      show ?thesis using I unfolding S R b if_False by (intro exI [of _ False] exI [of _ m]) simp
    next
      case True
      then show ?thesis using I unfolding S R i if_P [OF True] by auto
    qed
  next
    case lookup
    have "(case trace_lifecycle_find m x False of None \<Rightarrow> MEMX_HANDLE_INVALID
        | Some slot \<Rightarrow> (if sl_state (slot_at m slot) \<noteq> TRACE_SLOT_LIVE then MEMX_HANDLE_INVALID
                        else sl_handle (slot_at m slot)))
      = (case slots_view m x of None \<Rightarrow> MEMX_HANDLE_INVALID | Some (h, r) \<Rightarrow> h)" for x
    proof (cases "slots_view m x")
      case None
      obtain p where "trace_lifecycle_find m x False = Some p" "sl_state (slot_at m p) \<noteq> TRACE_SLOT_LIVE"
        by (rule find_unmapped [OF assms(3) u None])
      then show ?thesis using None by simp
    next
      case (Some v)
      obtain h r where v: "v = (h, r)" by fastforce
      obtain p where "trace_lifecycle_find m x False = Some p" "sl_handle (slot_at m p) = h"
        "sl_state (slot_at m p) = TRACE_SLOT_LIVE"
        by (rule find_mapped [OF assms(3) Some [unfolded v]])
      then show ?thesis using Some v by simp
    qed
    then show ?thesis using lookup assms(3)
      by (simp add: lifecycle_step_def replay_event_def trace_lifecycle_lookup_matches_def Let_def pow2_minus_1
          trace_operations)
  next
    case retire
    have W: "range_wf g e" using retire by (intro malformed_range [OF assms(1,2)]) (simp add: range_operation_def)
    let ?X = "set (event_granules g e)"
    have M: "trace_lifecycle_range_matches m e (2 ^ g) True
        = Some (\<forall>x \<in> ?X. slots_view m x = Some (ev_handle e, False), m)"
      unfolding matches_run [OF assms(1) W assms(3) u] by auto
    have S: "lifecycle_step (2 ^ g) e m = (do { (valid, m) \<leftarrow> trace_lifecycle_range_matches m e (2 ^ g) True;
        if valid then trace_lifecycle_retire m e (2 ^ g) else Some (False, m) })"
      by (simp only: lifecycle_step_def retire operation_select)
    have R: "replay_event g e (slots_view m) = (if \<forall>x \<in> ?X. slots_view m x = Some (ev_handle e, False)
        then Some (\<lambda>x. if x \<in> ?X then Some (ev_handle e, True) else slots_view m x) else None)"
      by (simp only: replay_event_def retire operation_select)
    show ?thesis
    proof (cases "\<forall>x \<in> ?X. slots_view m x = Some (ev_handle e, False)")
      case False
      then have b: "(\<forall>x \<in> ?X. slots_view m x = Some (ev_handle e, False)) = False" by blast
      show ?thesis unfolding S M R b if_False by (intro exI [of _ False] exI [of _ m]) simp
    next
      case True
      then have "\<exists>m'. trace_lifecycle_retire m e (2 ^ g) = Some (True, m') \<and> slots_ok k m'
          \<and> slots_view m' = (\<lambda>x. if x \<in> ?X then Some (ev_handle e, True) else slots_view m x)
          \<and> slots_used k m' = slots_used k m"
        unfolding trace_lifecycle_retire_def event_run [OF assms(1) W] option.inject
        using event_granules_distinct [OF assms(1) W] by (intro all_granules_retire [OF refl assms(3) _ _ u]) auto
      then show ?thesis unfolding S M R if_P [OF True] using True by auto
    qed
  next
    case remove
    have W: "range_wf g e" using remove by (intro malformed_range [OF assms(1,2)]) (simp add: range_operation_def)
    let ?X = "set (event_granules g e)"
    let ?P = "\<forall>x \<in> ?X. slots_view m x = Some (ev_handle e, False) \<or> slots_view m x = Some (ev_handle e, True)"
    have "(\<forall>x \<in> ?X. \<exists>r. slots_view m x = Some (ev_handle e, r) \<and> (False \<longrightarrow> \<not> r)) = ?P"
      by (rule ball_cong [OF refl]) (metis (full_types))
    then have M: "trace_lifecycle_range_matches m e (2 ^ g) False = Some (?P, m)"
      unfolding matches_run [OF assms(1) W assms(3) u] by simp
    have S: "lifecycle_step (2 ^ g) e m = (do { (valid, m) \<leftarrow> trace_lifecycle_range_matches m e (2 ^ g) False;
        if valid then trace_lifecycle_remove m e (2 ^ g) else Some (False, m) })"
      by (simp only: lifecycle_step_def remove operation_select)
    have R: "replay_event g e (slots_view m) = (if ?P then Some (\<lambda>x. if x \<in> ?X then None else slots_view m x) else None)"
      by (simp only: replay_event_def remove operation_select)
    show ?thesis
    proof (cases ?P)
      case False
      then have b: "?P = False" by blast
      show ?thesis unfolding S M R b if_False by (intro exI [of _ False] exI [of _ m]) simp
    next
      case True
      have "\<forall>x \<in> ?X. slots_view m x \<noteq> None"
      proof
        fix x assume "x \<in> ?X"
        with True have "slots_view m x = Some (ev_handle e, False) \<or> slots_view m x = Some (ev_handle e, True)"
          by (rule bspec)
        then show "slots_view m x \<noteq> None" by auto
      qed
      then have "\<exists>m'. trace_lifecycle_remove m e (2 ^ g) = Some (True, m') \<and> slots_ok k m'
          \<and> slots_view m' = (\<lambda>x. if x \<in> ?X then None else slots_view m x) \<and> slots_used k m' = slots_used k m"
        unfolding trace_lifecycle_remove_def event_run [OF assms(1) W] option.inject
        using event_granules_distinct [OF assms(1) W] by (intro all_granules_drop [OF refl assms(3) _ _ u])
      then have "\<exists>m'. lifecycle_step (2 ^ g) e m = Some (True, m') \<and> slots_ok k m'
          \<and> slots_view m' = (\<lambda>x. if x \<in> ?X then None else slots_view m x) \<and> slots_used k m' = slots_used k m"
        unfolding S M using True by simp
      then show ?thesis unfolding R if_P [OF True] by auto
    qed
  next
    case quiet
    have "lifecycle_step (2 ^ g) e m = Some (True, m)" "replay_event g e (slots_view m) = Some (slots_view m)"
      by (simp_all only: lifecycle_step_def replay_event_def quiet operation_select)
    then show ?thesis using assms(3) by (intro exI [of _ True] exI [of _ m]) simp
  next
    case other
    then have o: "(ev_operation e = MEMX_TRACE_INSERT) = False" "(ev_operation e = MEMX_TRACE_LOOKUP) = False"
      "(ev_operation e = MEMX_TRACE_RETIRE) = False" "(ev_operation e = MEMX_TRACE_REMOVE) = False"
      "(ev_operation e = MEMX_TRACE_QUIESCENT) = False" by blast+
    have "lifecycle_step (2 ^ g) e m = Some (False, m)" "replay_event g e (slots_view m) = None"
      by (simp_all only: lifecycle_step_def replay_event_def o operation_select)
    then show ?thesis by (intro exI [of _ False] exI [of _ m]) simp
  qed
qed

section \<open>All events\<close>

definition replay_result :: "nat \<Rightarrow> u64 \<Rightarrow> memx_trace_event list \<Rightarrow> (u64 \<rightharpoonup> u64 \<times> bool) \<Rightarrow> memx_trace_status \<times> u64" where
  "replay_result g i es M =
     (let n = length (replay_maps g es M)
      in if n = length es then (MEMX_TRACE_OK, 0) else (MEMX_TRACE_ERROR_SEMANTIC, i + of_nat n))"

lemma events_refine:
  assumes "g < 64"
  shows "\<forall>e \<in> set es. \<not> event_malformed (2 ^ g - 1) e \<Longrightarrow> slots_ok k m \<Longrightarrow>
    slots_used k m + inserted g es < 2 ^ k \<Longrightarrow>
    lifecycle_events (2 ^ g) i es m = Some (replay_result g i es (slots_view m))"
proof (induction es arbitrary: i m)
  case Nil
  then show ?case by (simp add: replay_result_def)
next
  case (Cons e es)
  have e: "\<not> event_malformed (2 ^ g - 1) e" "slots_used k m + event_inserts g e < 2 ^ k" using Cons.prems by simp_all
  obtain v m' where s: "lifecycle_step (2 ^ g) e m = Some (v, m')"
    "case replay_event g e (slots_view m) of None \<Rightarrow> \<not> v
       | Some M \<Rightarrow> v \<and> slots_ok k m' \<and> slots_view m' = M \<and> slots_used k m' \<le> slots_used k m + event_inserts g e"
    using step_refines [OF assms e(1) Cons.prems(2) e(2)] by blast
  show ?case
  proof (cases "replay_event g e (slots_view m)")
    case None
    then show ?thesis using s by (simp add: replay_result_def)
  next
    case (Some M)
    then have m': "v" "slots_ok k m'" "slots_view m' = M" "slots_used k m' \<le> slots_used k m + event_inserts g e"
      using s(2) by simp_all
    have "lifecycle_events (2 ^ g) (i + 1) es m' = Some (replay_result g (i + 1) es (slots_view m'))"
      using Cons.prems m'(4) by (intro Cons.IH [OF _ m'(2)]) simp_all
    then show ?thesis using s(1) m'(1,3) Some by (simp add: replay_result_def Let_def algebra_simps)
  qed
qed

section \<open>Capacity\<close>

lemma count_inserts_exact:
  assumes "g < 64"
  shows "unat pl \<le> 2 ^ 26 \<Longrightarrow>
    count_inserts (2 ^ g) pl es
      = (if unat pl + inserted g es \<le> 2 ^ 26 then Some (pl + of_nat (inserted g es)) else None)"
proof (induction es arbitrary: pl)
  case Nil
  then show ?case by simp
next
  case (Cons e es)
  have M: "unat TRACE_MAX_LIFECYCLE_GRANULES = 2 ^ 26" by (simp add: TRACE_MAX_LIFECYCLE_GRANULES_def)
  show ?case
  proof (cases "ev_operation e = MEMX_TRACE_INSERT")
    case False
    then show ?thesis using Cons by (simp add: event_inserts_def)
  next
    case True
    let ?c = "ev_size e div 2 ^ g"
    have c: "unat ?c = event_inserts g e" using True assms by (simp add: event_inserts_def unat_div_distrib unat_pow2)
    have d: "unat (TRACE_MAX_LIFECYCLE_GRANULES - pl) = 2 ^ 26 - unat pl"
      using Cons.prems M by (simp add: unat_sub_exact word_le_nat_alt)
    show ?thesis
    proof (cases "TRACE_MAX_LIFECYCLE_GRANULES - pl < ?c")
      case over: True
      then have "2 ^ 26 - unat pl < event_inserts g e" using c d by (simp add: word_less_nat_alt)
      then show ?thesis using over True by simp
    next
      case fits: False
      then have le: "unat pl + event_inserts g e \<le> 2 ^ 26" using c d Cons.prems by (simp add: word_less_nat_alt)
      then have s: "unat (pl + ?c) = unat pl + event_inserts g e" using unat_add_exact [of pl ?c] c by simp
      have v: "?c = of_nat (event_inserts g e)" unfolding c [symmetric] by simp
      show ?thesis using True fits Cons.IH [of "pl + ?c"] le s by (simp add: v algebra_simps)
    qed
  qed
qed

lemma grow_capacity_exact:
  assumes "unat pl \<le> 2 ^ 26"
  shows "j \<le> 27 \<Longrightarrow> \<exists>k. j \<le> k \<and> k \<le> max j 27 \<and> grow_capacity pl (2 ^ j) = Some (MEMX_TRACE_OK, 2 ^ k)
     \<and> 2 * unat pl \<le> 2 ^ k"
proof (induction "27 - j" arbitrary: j rule: less_induct)
  case less
  have d: "unat (pl * 2) = 2 * unat pl" using unat_mult_exact [of pl 2] assms by simp
  have p: "unat (2 ^ j :: u64) = 2 ^ j" using less.prems by (simp add: unat_pow2)
  show ?case
  proof (cases "2 ^ j < pl * 2")
    case False
    then have "2 * unat pl \<le> 2 ^ j" using d p by (simp add: word_less_nat_alt)
    then show ?thesis using False by (intro exI [of _ j]) (simp add: grow_capacity.simps)
  next
    case True
    have "(2 :: nat) ^ j < 2 ^ 27" using True d p assms by (simp add: word_less_nat_alt)
    then have j: "j < 27" by (rule power_less_imp_less_exp [rotated]) simp
    then obtain k where k: "Suc j \<le> k" "k \<le> max (Suc j) 27" "grow_capacity pl (2 ^ Suc j) = Some (MEMX_TRACE_OK, 2 ^ k)"
      "2 * unat pl \<le> 2 ^ k"
      using less.hyps [of "Suc j"] diff_less_mono2 [of j "Suc j" 27] by auto
    have "\<not> SIZE_MAX div 2 < 2 ^ j"
      using \<open>(2 :: nat) ^ j < 2 ^ 27\<close> p by (simp add: word_less_nat_alt unat_div_distrib)
    then show ?thesis using True k j by (intro exI [of _ k]) (simp add: grow_capacity.simps [of pl "2 ^ j"] mult.commute)
  qed
qed

lemma lifecycle_capacity:
  assumes "unat (tr_granule_shift t) < 64"
  shows "if inserted (unat (tr_granule_shift t)) (tr_contents t) \<le> 2 ^ 26
    then \<exists>k. 3 \<le> k \<and> k \<le> 27 \<and> trace_lifecycle_capacity t = Some (MEMX_TRACE_OK, 2 ^ k)
      \<and> 2 * inserted (unat (tr_granule_shift t)) (tr_contents t) \<le> 2 ^ k
    else trace_lifecycle_capacity t = Some (MEMX_TRACE_ERROR_MEMORY, 0)"
proof -
  let ?n = "inserted (unat (tr_granule_shift t)) (tr_contents t)"
  note C = count_inserts_exact [OF assms, of 0 "tr_contents t"]
  show ?thesis
  proof (cases "?n \<le> 2 ^ 26")
    case False
    then show ?thesis using C by (simp add: trace_lifecycle_capacity_def)
  next
    case True
    then have n: "unat (of_nat ?n :: u64) = ?n" by (simp add: unsigned_of_nat take_bit_nat_eq_self)
    obtain k where k: "3 \<le> k" "k \<le> 27" "grow_capacity (of_nat ?n) (2 ^ 3) = Some (MEMX_TRACE_OK, 2 ^ k)"
      "2 * unat (of_nat ?n :: u64) \<le> 2 ^ k"
      using grow_capacity_exact [of "of_nat ?n" 3] True n by auto
    have "trace_lifecycle_capacity t = Some (MEMX_TRACE_OK, 2 ^ k)"
      using True C k(3) by (simp add: trace_lifecycle_capacity_def)
    then show ?thesis unfolding if_P [OF True] using k n by (intro exI [of _ k]) simp
  qed
qed

section \<open>The validator\<close>

lemma empty_slots_ok:
  assumes "3 \<le> k" "k < 64"
  defines "m \<equiv> \<lparr>lm_slots = replicate (2 ^ k) empty_slot, lm_capacity = 2 ^ k, lm_live_count = 0\<rparr>"
  shows "slots_ok k m" "slots_used k m = 0" "slots_view m = Map.empty"
proof -
  have e: "sl_state (lm_slots m ! q) = TRACE_SLOT_EMPTY" if "q < 2 ^ k" for q
    using that by (simp add: m_def empty_slot_def)
  then have n: "{q. q < 2 ^ k \<and> sl_state (lm_slots m ! q) = TRACE_SLOT_LIVE} = {}"
    "{q. q < 2 ^ k \<and> sl_state (lm_slots m ! q) \<noteq> TRACE_SLOT_EMPTY} = {}" by auto
  show ok: "slots_ok k m" unfolding slots_ok_def n(1) using assms(2) e by (simp add: m_def)
  show "slots_used k m = 0" by (simp add: slots_used_def n(2))
  show "slots_view m = Map.empty" using slots_view_none [OF ok] e by (auto simp: hits_def fun_eq_iff)
qed

text \<open>What an accepted header and events satisfy.\<close>

lemma validate_events_wf:
  "validate_events mask' s i es = (MEMX_TRACE_OK, j) \<Longrightarrow> \<forall>e \<in> set es. \<not> event_malformed mask' e"
  by (induction es arbitrary: s i) (auto split: if_splits)

lemma validate_wf:
  assumes "memx_trace_validate (Some t) = (MEMX_TRACE_OK, j)"
  shows "unat (tr_granule_shift t) < 64" "\<forall>e \<in> set (tr_contents t). \<not> event_malformed (2 ^ unat (tr_granule_shift t) - 1) e"
  using assms validate_events_wf [of "2 ^ unat (tr_granule_shift t) - 1" 0 0 "tr_contents t"]
  by (auto simp: memx_trace_validate_def word_le_nat_alt push_bit_eq_mult split: if_splits)

lemma c_calloc_raw_cases:
  assumes "world_ok (tc_allocator L) live w"
  obtains (null) w' where "c_calloc L n s w = Some (0, w')" "heap w' = heap w" "world_ok (tc_allocator L) live w'"
    | (block) p w' where "c_calloc L n s w = Some (p, w')" "p \<noteq> 0" "heap w p = None"
      "heap w' = (heap w)(p \<mapsto> RawBlock (n * s))" "world_ok (tc_allocator L) live w'"
proof (cases "s \<noteq> 0 \<and> SIZE_MAX div s < n")
  case True
  then show thesis using null assms by (simp add: c_calloc_def)
next
  case False
  then have "c_calloc L n s w = call_allocate (tc_allocator L) (n * s) w" by (auto simp: c_calloc_def c_malloc_def)
  then show thesis using call_allocate_cases [OF assms, of "n * s" thesis] null block by (metis (no_types))
qed

lemma free_block:
  assumes "world_ok A live w" "heap w p \<noteq> None"
  obtains w' where "c_free A p w = Some w'" "heap w' = (heap w)(p := None)" "world_ok A live w'"
proof -
  obtain w' where "memx_deallocate A p w = Some w'" "heap w' = (heap w)(p := None)" "world_ok A live w'"
    using memx_deallocate_ok [OF assms(1)] assms(2) by blast
  moreover have "p \<noteq> 0" using assms by (auto simp: world_ok_def)
  ultimately show thesis using that by (simp add: c_free_def)
qed

text \<open>The structural rules: the header, increasing sequence numbers, and the shape of each event.\<close>

definition event_wf :: "nat \<Rightarrow> memx_trace_event \<Rightarrow> bool" where
  "event_wf g e \<longleftrightarrow>
     (if ev_operation e = MEMX_TRACE_INSERT \<or> ev_operation e = MEMX_TRACE_REMOVE
      then range_wf g e \<and> ev_handle e \<noteq> MEMX_HANDLE_INVALID
      else if ev_operation e = MEMX_TRACE_RETIRE then range_wf g e
      else if ev_operation e = MEMX_TRACE_LOOKUP then ev_size e = 0 \<and> ev_address e \<noteq> UINTPTR_MAX
      else ev_operation e = MEMX_TRACE_QUIESCENT \<and> ev_address e = 0 \<and> ev_size e = 0)"

definition trace_wf :: "memx_trace \<Rightarrow> bool" where
  "trace_wf t \<longleftrightarrow> tr_version t = MEMX_TRACE_FORMAT_VERSION
     \<and> tr_granule_shift t \<le> tr_region_shift t \<and> tr_region_shift t < 64
     \<and> (\<forall>e \<in> set (tr_contents t). event_wf (unat (tr_granule_shift t)) e)
     \<and> sorted_wrt (<) (map ev_sequence (tr_contents t))"

lemma range_wf_exact:
  assumes "g < 64"
  shows "range_wf g e \<longleftrightarrow> \<not> (ev_size e = 0 \<or> ev_address e AND (2 ^ g - 1) \<noteq> 0 \<or> ev_size e AND (2 ^ g - 1) \<noteq> 0
    \<or> UINTPTR_MAX - ev_address e < ev_size e)"
proof -
  have "unat (UINTPTR_MAX - ev_address e) = 18446744073709551615 - unat (ev_address e)"
    by (simp add: unat_sub_exact)
  then have "UINTPTR_MAX - ev_address e < ev_size e \<longleftrightarrow> \<not> unat (ev_address e) + unat (ev_size e) < 2 ^ 64"
    using unat_lt_64 [of "ev_address e"] by (auto simp: word_less_nat_alt simp del: unat_lt_64)
  then show ?thesis by (auto simp: range_wf_def pow2_minus_1 and_mask_eq_0_iff)
qed

lemma operations_bounded:
  "\<not> MEMX_TRACE_QUIESCENT < MEMX_TRACE_INSERT" "\<not> MEMX_TRACE_QUIESCENT < MEMX_TRACE_LOOKUP"
  "\<not> MEMX_TRACE_QUIESCENT < MEMX_TRACE_RETIRE" "\<not> MEMX_TRACE_QUIESCENT < MEMX_TRACE_REMOVE"
  by (simp_all add: trace_operations)

lemma event_wf_exact:
  assumes "g < 64"
  shows "event_wf g e \<longleftrightarrow> \<not> event_malformed (2 ^ g - 1) e"
proof -
  have q: "MEMX_TRACE_QUIESCENT < ev_operation e \<longleftrightarrow> ev_operation e \<notin> {MEMX_TRACE_INSERT, MEMX_TRACE_LOOKUP,
      MEMX_TRACE_RETIRE, MEMX_TRACE_REMOVE, MEMX_TRACE_QUIESCENT}" (is "?l \<longleftrightarrow> ?r")
  proof
    show "?l \<Longrightarrow> ?r" by (auto simp: trace_operations)
    assume r: ?r
    show ?l
    proof (rule ccontr)
      assume "\<not> ?l"
      then have "unat (ev_operation e) \<le> 4" by (simp add: trace_operations word_le_nat_alt not_less)
      then have "unat (ev_operation e) = unat (0 :: u32) \<or> unat (ev_operation e) = unat (1 :: u32)
          \<or> unat (ev_operation e) = unat (2 :: u32) \<or> unat (ev_operation e) = unat (3 :: u32)
          \<or> unat (ev_operation e) = unat (4 :: u32)" by simp linarith
      then have "ev_operation e \<in> {0, 1, 2, 3, 4}" unfolding word_unat_eq_iff [symmetric] by simp
      then show False using r by (auto simp: trace_operations)
    qed
  qed
  note R = range_wf_exact [OF assms, of e]
  consider "ev_operation e = MEMX_TRACE_INSERT" | "ev_operation e = MEMX_TRACE_LOOKUP"
    | "ev_operation e = MEMX_TRACE_RETIRE" | "ev_operation e = MEMX_TRACE_REMOVE"
    | "ev_operation e = MEMX_TRACE_QUIESCENT" | "MEMX_TRACE_QUIESCENT < ev_operation e"
    using q by blast
  then show ?thesis
  proof cases
    case 6
    then show ?thesis using q by (auto simp: event_wf_def event_malformed_def)
  qed (simp_all add: event_wf_def event_malformed_def range_operation_def q R operations_distinct
      operations_distinct [symmetric] operations_bounded)
qed

lemma validate_events_sorted:
  assumes "g < 64"
  shows "unat i + length es < 2 ^ 64 \<Longrightarrow> fst (validate_events (2 ^ g - 1) s i es) = MEMX_TRACE_OK
    \<longleftrightarrow> (\<forall>e \<in> set es. event_wf g e) \<and> sorted_wrt (<) (map ev_sequence es)
        \<and> (i \<noteq> 0 \<longrightarrow> es \<noteq> [] \<longrightarrow> s < ev_sequence (hd es))"
proof (induction es arbitrary: s i)
  case Nil
  then show ?case by simp
next
  case (Cons e es)
  have i: "unat (i + 1) = unat i + 1" using unat_add_exact [of i 1] Cons.prems by simp
  then have "i + 1 \<noteq> 0" by auto
  then have IH: "fst (validate_events (2 ^ g - 1) (ev_sequence e) (i + 1) es) = MEMX_TRACE_OK
    \<longleftrightarrow> (\<forall>e \<in> set es. event_wf g e) \<and> sorted_wrt (<) (map ev_sequence es)
        \<and> (es \<noteq> [] \<longrightarrow> ev_sequence e < ev_sequence (hd es))"
    using Cons.IH [of "i + 1" "ev_sequence e"] Cons.prems i by simp
  have s: "sorted_wrt (<) (map ev_sequence (e # es)) \<longleftrightarrow> sorted_wrt (<) (map ev_sequence es)
        \<and> (es \<noteq> [] \<longrightarrow> ev_sequence e < ev_sequence (hd es))"
    by (cases es) auto
  show ?case unfolding s using IH event_wf_exact [OF assms, of e] by (auto simp: not_le)
qed

lemma trace_wf_exact:
  assumes "length (tr_contents t) < 2 ^ 64"
  shows "fst (memx_trace_validate (Some t)) = MEMX_TRACE_OK \<longleftrightarrow> trace_wf t"
    "fst (memx_trace_validate (Some t)) \<noteq> MEMX_TRACE_OK \<Longrightarrow>
      fst (memx_trace_validate (Some t)) = MEMX_TRACE_ERROR_SEMANTIC"
proof -
  have p: "push_bit (unat (tr_granule_shift t)) 1 - 1 = (2 :: u64) ^ unat (tr_granule_shift t) - 1"
    by (simp add: push_bit_eq_mult)
  show "fst (memx_trace_validate (Some t)) = MEMX_TRACE_OK \<longleftrightarrow> trace_wf t"
  proof (cases "tr_granule_shift t < 64")
    case True
    then have "unat (tr_granule_shift t) < 64" by (simp add: word_less_nat_alt)
    then show ?thesis using validate_events_sorted [of "unat (tr_granule_shift t)" 0 "tr_contents t" 0] assms
      unfolding memx_trace_validate_def trace_wf_def option.case p by (auto simp: not_le not_less)
  next
    case False
    then show ?thesis by (auto simp: memx_trace_validate_def trace_wf_def not_less dest: order.trans)
  qed
  have "fst (validate_events m s i es) \<noteq> MEMX_TRACE_OK \<Longrightarrow> fst (validate_events m s i es) = MEMX_TRACE_ERROR_SEMANTIC"
    for m s i es by (induction es arbitrary: s i) (auto split: if_splits)
  then show "fst (memx_trace_validate (Some t)) \<noteq> MEMX_TRACE_OK \<Longrightarrow>
      fst (memx_trace_validate (Some t)) = MEMX_TRACE_ERROR_SEMANTIC"
    by (auto simp: memx_trace_validate_def split: if_splits)
qed

lemma validate_lifecycle_ok:
  assumes "world_ok (tc_allocator L) live w"
  shows "\<exists>st i w'. memx_trace_validate_lifecycle L (Some t) w = Some (st, i, w') \<and> heap w' = heap w
    \<and> world_ok (tc_allocator L) live w'
    \<and> (if fst (memx_trace_validate (Some t)) \<noteq> MEMX_TRACE_OK then (st, i) = memx_trace_validate (Some t)
       else if 2 ^ 26 < inserted (unat (tr_granule_shift t)) (tr_contents t) then st = MEMX_TRACE_ERROR_MEMORY \<and> i = 0
       else (st, i) = replay_result (unat (tr_granule_shift t)) 0 (tr_contents t) Map.empty
         \<or> st = MEMX_TRACE_ERROR_MEMORY \<and> i = 0 \<and> (\<exists>n w2. c_malloc (tc_allocator L) n w = Some (0, w2)))"
proof -
  obtain s j where v: "memx_trace_validate (Some t) = (s, j)" by fastforce
  let ?g = "unat (tr_granule_shift t)"
  let ?n = "inserted ?g (tr_contents t)"
  show ?thesis
  proof (cases "s = MEMX_TRACE_OK")
    case False
    then show ?thesis using assms v by (simp add: memx_trace_validate_lifecycle_def)
  next
    case ok: True
    note W = validate_wf [OF v [unfolded ok]]
    have D: "memx_trace_validate_lifecycle L (Some t) w = (do {
            (status, capacity) \<leftarrow> trace_lifecycle_capacity t;
            if status \<noteq> MEMX_TRACE_OK then Some (status, 0, w)
            else do {
              (slots, w) \<leftarrow> c_calloc L capacity sizeof_slot w;
              if slots = 0 then Some (MEMX_TRACE_ERROR_MEMORY, 0, w)
              else do {
                let m = \<lparr>lm_slots = replicate (unat capacity) empty_slot, lm_capacity = capacity, lm_live_count = 0\<rparr>;
                (status, i) \<leftarrow> lifecycle_events (push_bit ?g 1) 0 (tr_contents t) m;
                w \<leftarrow> c_free (tc_allocator L) slots w;
                Some (status, i, w)
              }
            }
          })" using v ok by (simp add: memx_trace_validate_lifecycle_def)
    show ?thesis
    proof (cases "?n \<le> 2 ^ 26")
      case False
      then have "trace_lifecycle_capacity t = Some (MEMX_TRACE_ERROR_MEMORY, 0)"
        using lifecycle_capacity [OF W(1)] by simp
      then show ?thesis unfolding D using False assms v ok by simp
    next
      case True
      then obtain k where k: "3 \<le> k" "k \<le> 27" "trace_lifecycle_capacity t = Some (MEMX_TRACE_OK, 2 ^ k)"
        "2 * ?n \<le> 2 ^ k" using lifecycle_capacity [OF W(1)] by auto
      have uk: "unat (2 ^ k :: u64) = 2 ^ k" using k(2) by (simp add: unat_pow2)
      let ?m = "\<lparr>lm_slots = replicate (2 ^ k) empty_slot, lm_capacity = 2 ^ k, lm_live_count = 0\<rparr>"
      have k64: "k < 64" using k(2) by simp
      note M = empty_slots_ok [OF k(1) k64]
      have "(0 :: nat) < 2 ^ k" by simp
      then have "?n < 2 ^ k" using k(4) by linarith
      then have E: "lifecycle_events (push_bit ?g 1) 0 (tr_contents t) ?m = Some (replay_result ?g 0 (tr_contents t) Map.empty)"
        using events_refine [OF W(1,2) M(1), of 0] M(2,3) by (simp add: push_bit_eq_mult)
      have c: "c_calloc L (2 ^ k) sizeof_slot w = c_malloc (tc_allocator L) (2 ^ k * sizeof_slot) w"
      proof -
        have "(2 :: nat) ^ k \<le> 2 ^ 27" using k(2) by (intro power_increasing) simp_all
        then have "\<not> SIZE_MAX div sizeof_slot < 2 ^ k"
          by (simp add: word_less_nat_alt uk sizeof_slot_def unat_div_distrib)
        then show ?thesis by (simp add: c_calloc_def)
      qed
      show ?thesis
      proof (rule c_calloc_raw_cases [OF assms, of "2 ^ k" sizeof_slot])
        fix w' assume w': "c_calloc L (2 ^ k) sizeof_slot w = Some (0, w')" "heap w' = heap w"
          "world_ok (tc_allocator L) live w'"
        then have "\<exists>n w2. c_malloc (tc_allocator L) n w = Some (0, w2)" using c by metis
        then show ?thesis unfolding D using k(3) w' v ok True by simp
      next
        fix p w' assume w': "c_calloc L (2 ^ k) sizeof_slot w = Some (p, w')" "p \<noteq> 0" "heap w p = None"
          "heap w' = (heap w)(p \<mapsto> RawBlock (2 ^ k * sizeof_slot))" "world_ok (tc_allocator L) live w'"
        have "heap w' p \<noteq> None" using w'(4) by simp
        from free_block [OF w'(5) this] obtain w2 where w2: "c_free (tc_allocator L) p w' = Some w2"
          "heap w2 = (heap w')(p := None)" "world_ok (tc_allocator L) live w2" by metis
        have h: "heap w2 = heap w" using w2(2) w'(3,4) by (simp add: fun_upd_idem)
        obtain st i where r: "replay_result ?g 0 (tr_contents t) Map.empty = (st, i)" by fastforce
        have "memx_trace_validate_lifecycle L (Some t) w = Some (st, i, w2)"
          unfolding D using k(3) w'(1,2) w2(1) E r by (simp add: uk)
        then show ?thesis using h w2(3) v ok True r by simp
      qed
    qed
  qed
qed

lemma validate_lifecycle_accepts:
  assumes "world_ok (tc_allocator L) live w" "length (tr_contents t) < 2 ^ 64"
  shows "\<exists>st i w'. memx_trace_validate_lifecycle L (Some t) w = Some (st, i, w') \<and> heap w' = heap w
    \<and> world_ok (tc_allocator L) live w'
    \<and> (st = MEMX_TRACE_OK \<longrightarrow> trace_wf t \<and> replay_accepts (unat (tr_granule_shift t)) (tr_contents t))"
proof -
  obtain st i w' where v: "memx_trace_validate_lifecycle L (Some t) w = Some (st, i, w')" "heap w' = heap w"
    "world_ok (tc_allocator L) live w'"
    "if fst (memx_trace_validate (Some t)) \<noteq> MEMX_TRACE_OK then (st, i) = memx_trace_validate (Some t)
       else if 2 ^ 26 < inserted (unat (tr_granule_shift t)) (tr_contents t) then st = MEMX_TRACE_ERROR_MEMORY \<and> i = 0
       else (st, i) = replay_result (unat (tr_granule_shift t)) 0 (tr_contents t) Map.empty
         \<or> st = MEMX_TRACE_ERROR_MEMORY \<and> i = 0 \<and> (\<exists>n w2. c_malloc (tc_allocator L) n w = Some (0, w2))"
    using validate_lifecycle_ok [OF assms(1), of t] by blast
  have "st = MEMX_TRACE_OK \<longrightarrow> trace_wf t \<and> replay_accepts (unat (tr_granule_shift t)) (tr_contents t)"
  proof
    assume ok: "st = MEMX_TRACE_OK"
    have a: "fst (memx_trace_validate (Some t)) = MEMX_TRACE_OK"
    proof (rule ccontr)
      assume n: "\<not> ?thesis"
      then have "(st, i) = memx_trace_validate (Some t)" using v(4) by simp
      then show False using ok n by (metis fst_conv)
    qed
    then have "(st, i) = replay_result (unat (tr_granule_shift t)) 0 (tr_contents t) Map.empty"
      using v(4) ok by (auto split: if_splits)
    then have "replay_accepts (unat (tr_granule_shift t)) (tr_contents t)"
      using ok by (auto simp: replay_result_def replay_accepts_def Let_def split: if_splits)
    then show "trace_wf t \<and> replay_accepts (unat (tr_granule_shift t)) (tr_contents t)"
      using a trace_wf_exact(1) [OF assms(2)] by blast
  qed
  with v(1-3) show ?thesis by blast
qed

end
