(* ===== verification/Memx_TraceStats.thy ===== *)
theory Memx_TraceStats
  imports Memx_TraceCheck
begin

text \<open>
  The statistics of a trace against the oracle's maps: the live bytes are the bytes of the mapped
  granules, no sum wraps, and the clamp of \<^verbatim>\<open>REMOVE\<close> never acts.
\<close>

section \<open>Mapped bytes\<close>

definition live_granules :: "(u64 \<rightharpoonup> u64 \<times> bool) \<Rightarrow> nat" where
  "live_granules M = card (dom M)"

definition live_bytes_of :: "nat \<Rightarrow> (u64 \<rightharpoonup> u64 \<times> bool) \<Rightarrow> nat" where
  "live_bytes_of g M = live_granules M * 2 ^ g"

definition grid :: "nat \<Rightarrow> u64 set" where
  "grid g = {x. 2 ^ g dvd unat x \<and> unat x + 2 ^ g < 2 ^ 64}"

lemma grid_card: "card (grid g) * 2 ^ g < 2 ^ 64"
proof -
  let ?N = "(2 ^ 64 - 1) div 2 ^ g :: nat"
  have "inj_on (\<lambda>x. unat x div 2 ^ g) (grid g)"
  proof (rule inj_onI)
    fix x y assume a: "x \<in> grid g" "y \<in> grid g" "unat x div 2 ^ g = unat y div 2 ^ g"
    have "unat x = unat x div 2 ^ g * 2 ^ g" using a(1) by (simp add: grid_def)
    also have "\<dots> = unat y" using a(2,3) by (simp add: grid_def)
    finally show "x = y" by (simp only: word_unat_eq_iff)
  qed
  moreover have "(\<lambda>x. unat x div 2 ^ g) ` grid g \<subseteq> {..< ?N}"
  proof (rule image_subsetI)
    fix x assume "x \<in> grid g"
    then have x: "2 ^ g dvd unat x" "unat x + 2 ^ g \<le> 2 ^ 64 - 1" by (simp_all add: grid_def)
    have "unat x div 2 ^ g + 1 = (unat x + 2 ^ g) div 2 ^ g" by (subst div_add_self2) simp_all
    also have "\<dots> \<le> ?N" by (rule div_le_mono [OF x(2)])
    finally show "unat x div 2 ^ g \<in> {..< ?N}" by simp
  qed
  ultimately have "card (grid g) \<le> card {..< ?N}" by (rule card_inj_on_le) simp
  then have "card (grid g) * 2 ^ g \<le> ?N * 2 ^ g" by simp
  also have "\<dots> \<le> 2 ^ 64 - 1" by (rule div_times_less_eq_dividend)
  finally show ?thesis by simp
qed

lemma live_bytes_less:
  assumes "dom M \<subseteq> grid g"
  shows "live_bytes_of g M < 2 ^ 64"
proof -
  have "card (dom M) \<le> card (grid g)" using assms by (intro card_mono) simp_all
  then have "card (dom M) * 2 ^ g \<le> card (grid g) * 2 ^ g" by (rule mult_le_mono1)
  from le_less_trans [OF this grid_card] show ?thesis by (simp only: live_bytes_of_def live_granules_def)
qed

lemma granules_grid:
  assumes "g < 64" "range_wf g e"
  shows "set (event_granules g e) \<subseteq> grid g"
proof
  fix x assume "x \<in> set (event_granules g e)"
  then obtain i where i: "i < unat (ev_size e) div 2 ^ g" "x = ev_address e + of_nat i * 2 ^ g"
    by (rule event_granules_memE)
  have "2 ^ g dvd unat x"
    using event_granules_set [OF assms, of x] event_granules_memI [OF i(1)] i(2) by simp
  moreover have "unat x + 2 ^ g \<le> unat (ev_address e) + unat (ev_size e)"
    unfolding i(2) event_granules_nth(1) [OF assms i(1)] using event_granules_nth(2) [OF assms i(1)] by simp
  ultimately show "x \<in> grid g" using assms(2) by (simp add: grid_def range_wf_def)
qed

lemma granules_bytes:
  assumes "g < 64" "range_wf g e"
  shows "card (set (event_granules g e)) * 2 ^ g = unat (ev_size e)"
  using distinct_card [OF event_granules_distinct [OF assms]] assms(2) by (simp add: range_wf_def)

lemma replay_quiet:
  assumes "replay_event g e M = Some M'" "ev_operation e \<noteq> MEMX_TRACE_INSERT"
    "ev_operation e \<noteq> MEMX_TRACE_RETIRE" "ev_operation e \<noteq> MEMX_TRACE_REMOVE"
  shows "M' = M"
proof -
  have "replay_event g e M = Some M' \<Longrightarrow> Some M' = Some M"
    unfolding replay_event_def Let_def if_not_P [OF assms(2)] if_not_P [OF assms(3)] if_not_P [OF assms(4)]
    by (simp_all only: option.distinct simp_thms split: if_splits)
  with assms(1) show ?thesis by simp
qed

text \<open>What one accepted event does to the mapped bytes.\<close>

lemma replay_bytes:
  assumes g: "g < 64" and wf: "event_wf g e" and r: "replay_event g e M = Some M'" and d: "dom M \<subseteq> grid g"
  shows "dom M' \<subseteq> grid g"
    and "live_bytes_of g M' = (if ev_operation e = MEMX_TRACE_INSERT then live_bytes_of g M + unat (ev_size e)
      else if ev_operation e = MEMX_TRACE_REMOVE then live_bytes_of g M - unat (ev_size e) else live_bytes_of g M)"
    and "ev_operation e = MEMX_TRACE_REMOVE \<Longrightarrow> unat (ev_size e) \<le> live_bytes_of g M"
proof -
  let ?X = "set (event_granules g e)"
  have "dom M' \<subseteq> grid g \<and> live_bytes_of g M' = (if ev_operation e = MEMX_TRACE_INSERT then live_bytes_of g M + unat (ev_size e)
      else if ev_operation e = MEMX_TRACE_REMOVE then live_bytes_of g M - unat (ev_size e) else live_bytes_of g M)
    \<and> (ev_operation e = MEMX_TRACE_REMOVE \<longrightarrow> unat (ev_size e) \<le> live_bytes_of g M)"
  proof (cases "ev_operation e = MEMX_TRACE_INSERT")
    case True
    then have W: "range_wf g e" using wf by (simp add: event_wf_def)
    have n: "\<forall>x \<in> ?X. M x = None" and M': "M' = (\<lambda>x. if x \<in> ?X then Some (ev_handle e, False) else M x)"
      using r True unfolding replay_event_def Let_def by (simp_all split: if_splits)
    have D: "dom M' = dom M \<union> ?X" by (auto simp: M' dom_def)
    have "dom M \<inter> ?X = {}" using n by (auto simp: dom_def)
    then have "card (dom M') = card (dom M) + card ?X" unfolding D by (intro card_Un_disjoint) simp_all
    then show ?thesis using True D d granules_grid [OF g W] granules_bytes [OF g W]
      by (simp add: live_bytes_of_def live_granules_def add_mult_distrib operations_distinct [symmetric])
  next
    case ni: False
    show ?thesis
    proof (cases "ev_operation e = MEMX_TRACE_REMOVE")
      case True
      then have W: "range_wf g e" using wf by (simp add: event_wf_def)
      have n: "\<forall>x \<in> ?X. M x = Some (ev_handle e, False) \<or> M x = Some (ev_handle e, True)"
        and M': "M' = (\<lambda>x. if x \<in> ?X then None else M x)"
        using r True unfolding replay_event_def Let_def True
        by (simp_all only: operations_distinct if_False if_True split: if_splits) blast+
      have X: "?X \<subseteq> dom M"
      proof
        fix x assume "x \<in> ?X"
        with n have "M x = Some (ev_handle e, False) \<or> M x = Some (ev_handle e, True)" by (rule bspec)
        then show "x \<in> dom M" by auto
      qed
      have D: "dom M' = dom M - ?X" by (auto simp: M' dom_def)
      have c: "card (dom M') = card (dom M) - card ?X" unfolding D by (rule card_Diff_subset) (simp_all add: X)
      have "card ?X \<le> card (dom M)" by (rule card_mono) (simp_all add: X)
      then have "card ?X * 2 ^ g \<le> card (dom M) * 2 ^ g" by simp
      then show ?thesis using True ni c D d granules_bytes [OF g W]
        by (auto simp: live_bytes_of_def live_granules_def diff_mult_distrib)
    next
      case False
      have "dom M' = dom M"
      proof (cases "ev_operation e = MEMX_TRACE_RETIRE")
        case True
        have n: "\<forall>x \<in> ?X. M x = Some (ev_handle e, False)"
          and M': "M' = (\<lambda>x. if x \<in> ?X then Some (ev_handle e, True) else M x)"
          using r unfolding replay_event_def Let_def True
          by (simp_all only: operations_distinct if_False if_True split: if_splits) blast+
        have "M x \<noteq> None" if "x \<in> ?X" for x using n that by simp
        then show ?thesis by (auto simp: M' dom_def)
      next
        case nr: False
        have "M' = M" by (rule replay_quiet [OF r ni nr False])
        then show ?thesis by simp
      qed
      then show ?thesis using d False ni by (simp add: live_bytes_of_def live_granules_def)
    qed
  qed
  then show "dom M' \<subseteq> grid g"
    and "live_bytes_of g M' = (if ev_operation e = MEMX_TRACE_INSERT then live_bytes_of g M + unat (ev_size e)
      else if ev_operation e = MEMX_TRACE_REMOVE then live_bytes_of g M - unat (ev_size e) else live_bytes_of g M)"
    and "ev_operation e = MEMX_TRACE_REMOVE \<Longrightarrow> unat (ev_size e) \<le> live_bytes_of g M" by blast+
qed

section \<open>The loop\<close>

definition count_op :: "memx_trace_operation \<Rightarrow> memx_trace_event list \<Rightarrow> u64" where
  "count_op k es = of_nat (length (filter (\<lambda>e. ev_operation e = k) es))"

lemma count_op_simps [simp]:
  "count_op k [] = 0" "count_op k (e # es) = (if ev_operation e = k then 1 else 0) + count_op k es"
  by (simp_all add: count_op_def)

text \<open>The references of a trace: the first address and the exclusive end of each.\<close>

definition event_stop :: "memx_trace_event \<Rightarrow> nat" where
  "event_stop e = unat (ev_address e) + (if ev_operation e = MEMX_TRACE_LOOKUP then 1 else unat (ev_size e))"

definition references :: "memx_trace_event list \<Rightarrow> memx_trace_event list" where
  "references es = filter (\<lambda>e. ev_operation e \<noteq> MEMX_TRACE_QUIESCENT) es"

definition counted :: "memx_trace_event list \<Rightarrow> memx_trace_stats \<Rightarrow> memx_trace_stats \<Rightarrow> bool" where
  "counted es s s' \<longleftrightarrow> ts_inserts s' = ts_inserts s + count_op MEMX_TRACE_INSERT es
     \<and> ts_lookups s' = ts_lookups s + count_op MEMX_TRACE_LOOKUP es
     \<and> ts_retires s' = ts_retires s + count_op MEMX_TRACE_RETIRE es
     \<and> ts_removes s' = ts_removes s + count_op MEMX_TRACE_REMOVE es
     \<and> ts_quiescent_events s' = ts_quiescent_events s + count_op MEMX_TRACE_QUIESCENT es"

lemma stats_event_cases:
  assumes "ev_operation e \<in> {MEMX_TRACE_INSERT, MEMX_TRACE_LOOKUP, MEMX_TRACE_RETIRE, MEMX_TRACE_REMOVE,
      MEMX_TRACE_QUIESCENT}"
  shows "\<exists>s'. stats_event e b s = Some
      (if ev_operation e = MEMX_TRACE_INSERT then b + ev_size e
       else if ev_operation e = MEMX_TRACE_REMOVE then (if b < ev_size e then 0 else b - ev_size e) else b, s')
    \<and> counted [e] s s'
    \<and> ts_minimum_address s' = ts_minimum_address s \<and> ts_maximum_address_exclusive s' = ts_maximum_address_exclusive s
    \<and> ts_peak_live_bytes s' = (if ev_operation e = MEMX_TRACE_INSERT then max (ts_peak_live_bytes s) (b + ev_size e)
        else ts_peak_live_bytes s)"
proof -
  consider "ev_operation e = MEMX_TRACE_INSERT" | "ev_operation e = MEMX_TRACE_LOOKUP"
    | "ev_operation e = MEMX_TRACE_RETIRE" | "ev_operation e = MEMX_TRACE_REMOVE"
    | "ev_operation e = MEMX_TRACE_QUIESCENT" using assms by blast
  then show ?thesis
  proof cases
    case 1
    have m: "max (ts_peak_live_bytes s) (b + ev_size e)
        = (if ts_peak_live_bytes s < b + ev_size e then b + ev_size e else ts_peak_live_bytes s)"
      by (simp add: max_def less_le)
    show ?thesis unfolding m using 1
      by (simp add: stats_event_def counted_def Let_def operations_distinct operations_distinct [symmetric])
  qed (simp_all add: stats_event_def counted_def Let_def operations_distinct operations_distinct [symmetric])
qed

lemma extent_minimum:
  "unat (ts_minimum_address (stats_extent e s)) = Min (insert (unat (ts_minimum_address s))
     ((\<lambda>e. unat (ev_address e)) ` set (references [e])))"
  by (auto simp: stats_extent_def references_def Let_def word_less_nat_alt min_def)

lemma stop_unat:
  assumes "g < 64" "event_wf g e" "ev_operation e \<noteq> MEMX_TRACE_QUIESCENT"
  shows "unat (if ev_operation e = MEMX_TRACE_LOOKUP then ev_address e + 1 else ev_address e + ev_size e) = event_stop e"
proof (cases "ev_operation e = MEMX_TRACE_LOOKUP")
  case True
  then have "ev_address e \<noteq> UINTPTR_MAX" using assms(2)
    by (simp add: event_wf_def operations_distinct operations_distinct [symmetric])
  then have "unat (ev_address e) \<noteq> 18446744073709551615" by (auto simp: word_unat_eq_iff)
  then have "unat (ev_address e) + 1 < 18446744073709551616" using unat_lt_64 [of "ev_address e"] by linarith
  then show ?thesis using True unat_add_exact [of "ev_address e" 1] by (simp add: event_stop_def)
next
  case False
  then have "range_wf g e" using assms(2,3) by (auto simp: event_wf_def split: if_splits)
  then show ?thesis using False unat_add_exact [of "ev_address e" "ev_size e"]
    by (simp add: event_stop_def range_wf_def)
qed

lemma extent_maximum:
  assumes "g < 64" "event_wf g e"
  shows "unat (ts_maximum_address_exclusive (stats_extent e s)) = Max (insert (unat (ts_maximum_address_exclusive s))
     (event_stop ` set (references [e])))"
proof (cases "ev_operation e = MEMX_TRACE_QUIESCENT")
  case True
  then show ?thesis by (simp add: stats_extent_def references_def)
next
  case False
  note S = stop_unat [OF assms False]
  show ?thesis using False S
    by (auto simp: stats_extent_def references_def Let_def word_less_nat_alt max_def split: if_splits)
qed

lemma extent_rest:
  "ts_peak_live_bytes (stats_extent e s) = ts_peak_live_bytes s" "counted es (stats_extent e s) s' = counted es s s'"
  by (auto simp: stats_extent_def Let_def counted_def)

lemma min_step: "finite A \<Longrightarrow> finite B \<Longrightarrow> y = Min (insert (x :: nat) A) \<Longrightarrow> z = Min (insert y B) \<Longrightarrow> z = Min (insert x (A \<union> B))"
proof -
  assume a: "finite A" "finite B" "y = Min (insert x A)" "z = Min (insert y B)"
  show ?thesis
  proof (cases "B = {}")
    case True
    then show ?thesis using a by simp
  next
    case False
    have "Min (insert x A \<union> B) = min (Min (insert x A)) (Min B)" using a(1,2) False by (intro Min_Un) simp_all
    also have "\<dots> = Min (insert y B)" unfolding a(3) [symmetric] using a(2) False by simp
    finally show ?thesis using a(4) by simp
  qed
qed

lemma max_step: "finite A \<Longrightarrow> finite B \<Longrightarrow> y = Max (insert (x :: nat) A) \<Longrightarrow> z = Max (insert y B) \<Longrightarrow> z = Max (insert x (A \<union> B))"
proof -
  assume a: "finite A" "finite B" "y = Max (insert x A)" "z = Max (insert y B)"
  show ?thesis
  proof (cases "B = {}")
    case True
    then show ?thesis using a by simp
  next
    case False
    have "Max (insert x A \<union> B) = max (Max (insert x A)) (Max B)" using a(1,2) False by (intro Max_Un) simp_all
    also have "\<dots> = Max (insert y B)" unfolding a(3) [symmetric] using a(2) False by simp
    finally show ?thesis using a(4) by simp
  qed
qed

lemma stats_loop_ok:
  assumes g: "g < 64"
  shows "\<forall>e \<in> set es. event_wf g e \<Longrightarrow> length (replay_maps g es M) = length es \<Longrightarrow> dom M \<subseteq> grid g \<Longrightarrow>
    unat b = live_bytes_of g M \<Longrightarrow> b \<le> ts_peak_live_bytes s \<Longrightarrow> distinct threads \<Longrightarrow>
    \<exists>threads' b' s'. stats_loop es threads b s = Some (threads', b', s')
      \<and> distinct threads' \<and> set threads' = set threads \<union> ev_thread_id ` set es
      \<and> unat b' = live_bytes_of g (last (M # replay_maps g es M))
      \<and> unat (ts_peak_live_bytes s') = Max (insert (unat (ts_peak_live_bytes s)) (live_bytes_of g ` set (replay_maps g es M)))
      \<and> counted es s s'
      \<and> unat (ts_minimum_address s') = Min (insert (unat (ts_minimum_address s))
          ((\<lambda>e. unat (ev_address e)) ` set (references es)))
      \<and> unat (ts_maximum_address_exclusive s') = Max (insert (unat (ts_maximum_address_exclusive s))
          (event_stop ` set (references es)))"
proof (induction es arbitrary: M b s threads)
  case Nil
  then show ?case by (simp add: counted_def references_def)
next
  case (Cons e es)
  let ?threads = "if ev_thread_id e \<in> set threads then threads else threads @ [ev_thread_id e]"
  have wf: "event_wf g e" using Cons.prems(1) by simp
  obtain M' where M': "replay_event g e M = Some M'" "length (replay_maps g es M') = length es"
    using Cons.prems(2) by (auto split: option.splits)
  note B = replay_bytes [OF g wf M'(1) Cons.prems(3)]
  note L = live_bytes_less [OF B(1)]
  have op: "ev_operation e \<in> {MEMX_TRACE_INSERT, MEMX_TRACE_LOOKUP, MEMX_TRACE_RETIRE, MEMX_TRACE_REMOVE,
      MEMX_TRACE_QUIESCENT}" using wf by (auto simp: event_wf_def split: if_splits)
  define b1 where "b1 = (if ev_operation e = MEMX_TRACE_INSERT then b + ev_size e
       else if ev_operation e = MEMX_TRACE_REMOVE then (if b < ev_size e then 0 else b - ev_size e) else b)"
  let ?s = "stats_extent e s"
  obtain s1 where s1: "stats_event e b ?s = Some (b1, s1)" "counted [e] ?s s1"
    "ts_minimum_address s1 = ts_minimum_address ?s"
    "ts_maximum_address_exclusive s1 = ts_maximum_address_exclusive ?s"
    "ts_peak_live_bytes s1 = (if ev_operation e = MEMX_TRACE_INSERT then max (ts_peak_live_bytes ?s) (b + ev_size e)
        else ts_peak_live_bytes ?s)"
    using stats_event_cases [OF op, of b ?s] unfolding b1_def by blast
  have b1: "unat b1 = live_bytes_of g M'"
    unfolding b1_def using B(2,3) L Cons.prems(4) unat_add_exact [of b "ev_size e"]
    by (auto simp: unat_sub_exact word_less_nat_alt word_le_nat_alt not_less)
  have p1: "b1 \<le> ts_peak_live_bytes s1" "unat (ts_peak_live_bytes s1)
      = Max (insert (unat (ts_peak_live_bytes s)) (live_bytes_of g ` {M'}))"
  proof -
    have le: "unat b \<le> unat (ts_peak_live_bytes s)" using Cons.prems(5) by (simp add: word_le_nat_alt)
    have mx: "unat (max x y) = max (unat x) (unat y)" for x y :: u64 by (simp add: max_def word_le_nat_alt)
    show m: "unat (ts_peak_live_bytes s1) = Max (insert (unat (ts_peak_live_bytes s)) (live_bytes_of g ` {M'}))"
    proof (cases "ev_operation e = MEMX_TRACE_INSERT")
      case True
      then show ?thesis using b1 unfolding s1(5) extent_rest(1) b1_def by (simp add: mx)
    next
      case False
      then have "live_bytes_of g M' \<le> unat b" using B(2) Cons.prems(4) by (simp split: if_splits)
      then show ?thesis using False le unfolding s1(5) extent_rest(1) by simp
    qed
    show "b1 \<le> ts_peak_live_bytes s1" unfolding word_le_nat_alt m b1 by simp
  qed
  have es: "\<forall>e \<in> set es. event_wf g e" using Cons.prems(1) by simp
  have th: "distinct ?threads" using Cons.prems(6) by simp
  obtain threads' b' s' where IH: "stats_loop es ?threads b1 s1 = Some (threads', b', s')"
      "distinct threads'" "set threads' = set ?threads \<union> ev_thread_id ` set es"
      "unat b' = live_bytes_of g (last (M' # replay_maps g es M'))"
      "unat (ts_peak_live_bytes s') = Max (insert (unat (ts_peak_live_bytes s1)) (live_bytes_of g ` set (replay_maps g es M')))"
      "counted es s1 s'"
      "unat (ts_minimum_address s') = Min (insert (unat (ts_minimum_address s1))
          ((\<lambda>e. unat (ev_address e)) ` set (references es)))"
      "unat (ts_maximum_address_exclusive s') = Max (insert (unat (ts_maximum_address_exclusive s1))
          (event_stop ` set (references es)))"
    using Cons.IH [OF es M'(2) B(1) b1 p1(1) th] by blast
  have r: "set (references (e # es)) = set (references [e]) \<union> set (references es)" by (auto simp: references_def)
  show ?case
  proof (intro exI conjI)
    show "stats_loop (e # es) threads b s = Some (threads', b', s')" using s1(1) IH(1) by simp
    show "distinct threads'" by (rule IH(2))
    show "set threads' = set threads \<union> ev_thread_id ` set (e # es)" using IH(3) by auto
    show "unat b' = live_bytes_of g (last (M # replay_maps g (e # es) M))" using IH(4) M'(1) by simp
    have "unat (ts_peak_live_bytes s') = Max (insert (unat (ts_peak_live_bytes s))
        (live_bytes_of g ` {M'} \<union> live_bytes_of g ` set (replay_maps g es M')))"
      by (rule max_step [OF _ _ p1(2) IH(5)]) simp_all
    then show "unat (ts_peak_live_bytes s') = Max (insert (unat (ts_peak_live_bytes s))
        (live_bytes_of g ` set (replay_maps g (e # es) M)))" using M'(1) by simp
    show "counted (e # es) s s'" using s1(2) IH(6) by (simp add: counted_def extent_rest(2) [unfolded counted_def])
        (simp add: stats_extent_def Let_def)
    show "unat (ts_minimum_address s') = Min (insert (unat (ts_minimum_address s))
          ((\<lambda>e. unat (ev_address e)) ` set (references (e # es))))"
      unfolding r image_Un by (rule min_step [OF _ _ extent_minimum IH(7) [unfolded s1(3)]]) simp_all
    show "unat (ts_maximum_address_exclusive s') = Max (insert (unat (ts_maximum_address_exclusive s))
          (event_stop ` set (references (e # es))))"
      unfolding r image_Un by (rule max_step [OF _ _ extent_maximum [OF g wf] IH(8) [unfolded s1(4)]]) simp_all
  qed
qed

section \<open>The result\<close>

definition stats_exact :: "nat \<Rightarrow> memx_trace_event list \<Rightarrow> memx_trace_stats \<Rightarrow> bool" where
  "stats_exact g es s \<longleftrightarrow> counted es stats_zero s
     \<and> ts_distinct_threads s = of_nat (card (ev_thread_id ` set es))
     \<and> unat (ts_final_live_bytes s) = live_bytes_of g (last (Map.empty # replay_maps g es Map.empty))
     \<and> unat (ts_peak_live_bytes s) = Max (insert 0 (live_bytes_of g ` set (replay_maps g es Map.empty)))
     \<and> unat (ts_minimum_address s) =
         (if references es = [] then 0 else Min ((\<lambda>e. unat (ev_address e)) ` set (references es)))
     \<and> unat (ts_maximum_address_exclusive s) = Max (insert 0 (event_stop ` set (references es)))"

lemma reference_below:
  assumes "g < 64" "event_wf g e" "e \<in> set (references es)"
  shows "unat (ev_address e) < 18446744073709551615"
proof (cases "ev_operation e = MEMX_TRACE_LOOKUP")
  case True
  then have "ev_address e \<noteq> UINTPTR_MAX" using assms(2)
    by (simp add: event_wf_def operations_distinct operations_distinct [symmetric])
  then have "unat (ev_address e) \<noteq> 18446744073709551615" by (auto simp: word_unat_eq_iff)
  then show ?thesis using unat_lt_64 [of "ev_address e"] by linarith
next
  case False
  have "ev_operation e \<noteq> MEMX_TRACE_QUIESCENT" using assms(3) by (simp add: references_def)
  then have W: "range_wf g e" using assms(2) False by (auto simp: event_wf_def split: if_splits)
  then have "unat (ev_size e) \<noteq> 0" by (auto simp: range_wf_def word_unat_eq_iff)
  then show ?thesis using W unfolding range_wf_def by simp
qed

lemma stats_result:
  assumes g: "g < 64" and wf: "\<forall>e \<in> set es. event_wf g e" and acc: "replay_accepts g es"
  shows "\<exists>seen b s. stats_loop es [] 0 (stats_zero\<lparr>ts_minimum_address := UINTPTR_MAX\<rparr>) = Some (seen, b, s)
    \<and> stats_exact g es ((if ts_minimum_address s = UINTPTR_MAX then s\<lparr>ts_minimum_address := 0\<rparr> else s)
        \<lparr>ts_distinct_threads := of_nat (length seen), ts_final_live_bytes := b\<rparr>)"
proof -
  let ?s0 = "stats_zero\<lparr>ts_minimum_address := UINTPTR_MAX\<rparr>"
  let ?A = "(\<lambda>e. unat (ev_address e)) ` set (references es)"
  have z: "unat (0 :: u64) = live_bytes_of g Map.empty" by (simp add: live_bytes_of_def live_granules_def)
  have d: "dom Map.empty \<subseteq> grid g" by simp
  have p: "(0 :: u64) \<le> ts_peak_live_bytes ?s0" by simp
  from stats_loop_ok [OF g wf acc [unfolded replay_accepts_def] d z p, of "[]"]
  obtain seen b s where l: "stats_loop es [] 0 ?s0 = Some (seen, b, s)" "distinct seen" "set seen = ev_thread_id ` set es"
    "unat b = live_bytes_of g (last (Map.empty # replay_maps g es Map.empty))"
    "unat (ts_peak_live_bytes s) = Max (insert (unat (ts_peak_live_bytes ?s0)) (live_bytes_of g ` set (replay_maps g es Map.empty)))"
    "counted es ?s0 s" "unat (ts_minimum_address s) = Min (insert (unat (ts_minimum_address ?s0)) ?A)"
    "unat (ts_maximum_address_exclusive s) = Max (insert (unat (ts_maximum_address_exclusive ?s0)) (event_stop ` set (references es)))"
    by auto
  have below: "x < 18446744073709551615" if "x \<in> ?A" for x
    using that reference_below [OF g] wf by (auto simp: references_def)
  have m: "ts_minimum_address s = UINTPTR_MAX \<longleftrightarrow> references es = []"
    "references es \<noteq> [] \<Longrightarrow> unat (ts_minimum_address s) = Min ?A"
  proof -
    show 2: "unat (ts_minimum_address s) = Min ?A" if "references es \<noteq> []"
    proof -
      have ne: "?A \<noteq> {}" using that by simp
      then have "Min ?A \<in> ?A" by (intro Min_in) simp_all
      from below [OF this] have lt: "Min ?A \<le> 18446744073709551615" by simp
      have "unat (ts_minimum_address ?s0) = 18446744073709551615" by simp
      then have "unat (ts_minimum_address s) = min 18446744073709551615 (Min ?A)"
        using l(7) Min_insert [of ?A, OF _ ne] by simp
      then show ?thesis using lt by (simp only: min_absorb2)
    qed
    show "ts_minimum_address s = UINTPTR_MAX \<longleftrightarrow> references es = []"
    proof
      assume a: "ts_minimum_address s = UINTPTR_MAX"
      show "references es = []"
      proof (rule ccontr)
        assume n: "references es \<noteq> []"
        then have "Min ?A \<in> ?A" by (intro Min_in) simp_all
        from below [OF this] show False using 2 [OF n] a by simp
      qed
    next
      assume "references es = []"
      then have "unat (ts_minimum_address s) = unat UINTPTR_MAX" using l(7) by (simp add: stats_zero_def)
      then show "ts_minimum_address s = UINTPTR_MAX" by (simp only: word_unat_eq_iff)
    qed
  qed
  have "length seen = card (ev_thread_id ` set es)" using distinct_card [OF l(2)] l(3) by simp
  then have "stats_exact g es ((if ts_minimum_address s = UINTPTR_MAX then s\<lparr>ts_minimum_address := 0\<rparr> else s)
        \<lparr>ts_distinct_threads := of_nat (length seen), ts_final_live_bytes := b\<rparr>)"
    using l(4-6,8) m unfolding stats_exact_def by (auto simp: counted_def stats_zero_def)
  with l(1) show ?thesis by blast
qed

lemma calculate_stats_ok:
  assumes W: "world_ok (tc_allocator L) live w" and T: "length (tr_contents t) < 2 ^ 64"
  shows "\<exists>st s w'. memx_trace_calculate_stats L (Some t) True w = Some (st, s, w') \<and> heap w' = heap w
    \<and> world_ok (tc_allocator L) live w'
    \<and> (st = MEMX_TRACE_OK \<longrightarrow> trace_wf t \<and> replay_accepts (unat (tr_granule_shift t)) (tr_contents t)
        \<and> (\<exists>r. s = Some r \<and> stats_exact (unat (tr_granule_shift t)) (tr_contents t) r))"
proof -
  let ?g = "unat (tr_granule_shift t)"
  let ?A = "tc_allocator L"
  obtain st i w1 where v: "memx_trace_validate_lifecycle L (Some t) w = Some (st, i, w1)" "heap w1 = heap w"
    "world_ok ?A live w1" "st = MEMX_TRACE_OK \<longrightarrow> trace_wf t \<and> replay_accepts ?g (tr_contents t)"
    using validate_lifecycle_accepts [OF W T] by blast
  show ?thesis
  proof (cases "st = MEMX_TRACE_OK")
    case False
    then show ?thesis using v(1-3) by (simp add: memx_trace_calculate_stats_def)
  next
    case True
    then have A: "trace_wf t" "replay_accepts ?g (tr_contents t)" using v(4) by blast+
    have g: "?g < 64" and wf: "\<forall>e \<in> set (tr_contents t). event_wf ?g e"
      using A(1) by (auto simp: trace_wf_def word_less_nat_alt word_le_nat_alt)
    obtain seen b s where r: "stats_loop (tr_contents t) [] 0 (stats_zero\<lparr>ts_minimum_address := UINTPTR_MAX\<rparr>) = Some (seen, b, s)"
      "stats_exact ?g (tr_contents t) ((if ts_minimum_address s = UINTPTR_MAX then s\<lparr>ts_minimum_address := 0\<rparr> else s)
        \<lparr>ts_distinct_threads := of_nat (length seen), ts_final_live_bytes := b\<rparr>)"
      using stats_result [OF g wf A(2)] by blast
    let ?r = "(if ts_minimum_address s = UINTPTR_MAX then s\<lparr>ts_minimum_address := 0\<rparr> else s)
        \<lparr>ts_distinct_threads := of_nat (length seen), ts_final_live_bytes := b\<rparr>"
    have D: "memx_trace_calculate_stats L (Some t) True w = (do {
             (threads, w) \<leftarrow> (if tr_event_count t = 0 then Some (0, w1)
               else c_malloc ?A (tr_event_count t * sizeof_thread) w1);
             if tr_event_count t \<noteq> 0 \<and> threads = 0 then Some (MEMX_TRACE_ERROR_MEMORY, None, w)
             else do { w \<leftarrow> c_free ?A threads w; Some (MEMX_TRACE_OK, Some ?r, w) } })"
      unfolding memx_trace_calculate_stats_def using True
      by (simp add: v(1) r(1) Let_def cong: if_cong)
    show ?thesis
    proof (cases "tr_event_count t = 0")
      case True
      then show ?thesis unfolding D using v(2,3) A r(2) by (simp add: c_free_def)
    next
      case ne: False
      show ?thesis
      proof (rule call_allocate_cases [OF v(3), of "tr_event_count t * sizeof_thread"])
        fix w2 assume "call_allocate ?A (tr_event_count t * sizeof_thread) w1 = Some (0, w2)" "heap w2 = heap w1"
          "world_ok ?A live w2"
        then show ?thesis unfolding D using ne v(2) by (simp add: c_malloc_def)
      next
        fix p w2 assume p: "call_allocate ?A (tr_event_count t * sizeof_thread) w1 = Some (p, w2)" "p \<noteq> 0"
          "heap w1 p = None" "heap w2 = (heap w1)(p \<mapsto> RawBlock (tr_event_count t * sizeof_thread))" "world_ok ?A live w2"
        have "heap w2 p \<noteq> None" using p(4) by simp
        from free_block [OF p(5) this] obtain w3 where "c_free ?A p w2 = Some w3" "heap w3 = (heap w2)(p := None)"
          "world_ok ?A live w3" by metis
        then show ?thesis unfolding D using ne p(1-4) v(2) A r(2) by (simp add: c_malloc_def fun_upd_idem)
      qed
    qed
  qed
qed

end
