(* ===== verification/Memx_TraceText.thy ===== *)
theory Memx_TraceText
  imports Memx_Trace
begin

text \<open>
  The text format of a trace, \<^verbatim>\<open>memx_trace_read_file\<close> and \<^verbatim>\<open>memx_trace_write_file\<close> with their parsing
  helpers.  A C string is the list of its characters before the terminator; \<^verbatim>\<open>isspace\<close>, \<^verbatim>\<open>strtoull\<close>,
  \<^verbatim>\<open>fgets\<close> and the conversions of \<^verbatim>\<open>fprintf\<close> are those of the C standard in the C locale.
\<close>

section \<open>The C library on strings\<close>

definition newline :: char where "newline = CHR 0x0A"

definition isspace :: "char \<Rightarrow> bool" where
  "isspace c \<longleftrightarrow> c = CHR '' '' \<or> 9 \<le> (of_char c :: nat) \<and> (of_char c :: nat) \<le> 13"

text \<open>The value of a digit or letter, 36 for any other character.\<close>

definition digit_value :: "char \<Rightarrow> nat" where
  "digit_value c =
     (let n = of_char c :: nat in
      if 48 \<le> n \<and> n \<le> 57 then n - 48
      else if 97 \<le> n \<and> n \<le> 122 then n - 87
      else if 65 \<le> n \<and> n \<le> 90 then n - 55
      else 36)"

fun scan_digits :: "nat \<Rightarrow> nat \<Rightarrow> string \<Rightarrow> nat \<times> string" where
  "scan_digits base value [] = (value, [])"
| "scan_digits base value (c # cs) =
     (if digit_value c < base then scan_digits base (value * base + digit_value c) cs else (value, c # cs))"

text \<open>Base 0: hexadecimal after \<^verbatim>\<open>0x\<close> and a digit, else octal after 0, else decimal.\<close>

definition number_base :: "string \<Rightarrow> nat \<times> string" where
  "number_base t =
     (if take 1 t = ''0''
      then if 3 \<le> length t \<and> (t ! 1 = CHR ''x'' \<or> t ! 1 = CHR ''X'') \<and> digit_value (t ! 2) < 16
           then (16, drop 2 t) else (8, t)
      else (10, t))"

definition number_sign :: "string \<Rightarrow> bool \<times> string" where
  "number_sign t = (if take 1 t = ''-'' then (True, drop 1 t) else if take 1 t = ''+'' then (False, drop 1 t) else (False, t))"

text \<open>\<^verbatim>\<open>strtoull(text, &end, 0)\<close>: the value, the string at \<^verbatim>\<open>end\<close>, and whether \<^verbatim>\<open>errno\<close> is set.\<close>

definition strtoull :: "string \<Rightarrow> u64 \<times> string \<times> bool" where
  "strtoull text =
     (let (negative, t) = number_sign (dropWhile isspace text);
          (base, digits) = number_base t;
          (value, rest) = scan_digits base 0 digits
      in if rest = digits then (0, text, False)
         else if 2 ^ 64 \<le> value then (UINTPTR_MAX, rest, True)
         else (if negative then - of_nat value else of_nat value, rest, False))"

text \<open>\<^verbatim>\<open>%u\<close> and \<^verbatim>\<open>%x\<close>.\<close>

fun print_base :: "nat \<Rightarrow> nat \<Rightarrow> string" where
  "print_base base n =
     (if n < base \<or> base < 2 then [''0123456789abcdef'' ! n]
      else print_base base (n div base) @ [''0123456789abcdef'' ! (n mod base)])"

declare print_base.simps [simp del]

section \<open>Files\<close>

text \<open>
  An open input: its bytes, whether a read fails after them, and whether closing it succeeds.  An
  open output: which of its \<^verbatim>\<open>fprintf\<close> calls succeed, and whether closing it does.
\<close>

record trace_input =
  fi_content :: string
  fi_error :: bool
  fi_close_ok :: bool

record trace_output =
  fo_print_ok :: "nat \<Rightarrow> bool"
  fo_close_ok :: bool

definition TRACE_LINE_CAPACITY :: nat where "TRACE_LINE_CAPACITY = 1024"

fun fgets_chunk :: "nat \<Rightarrow> string \<Rightarrow> string \<times> string" where
  "fgets_chunk 0 s = ([], s)"
| "fgets_chunk (Suc n) [] = ([], [])"
| "fgets_chunk (Suc n) (c # cs) =
     (if c = newline then ([c], cs) else let (line, rest) = fgets_chunk n cs in (c # line, rest))"

text \<open>
  \<^verbatim>\<open>fgets(line, sizeof(line), input)\<close>: null at the end and when a read fails, else the bytes stored,
  \<^verbatim>\<open>feof(input)\<close> afterwards, and what is left.
\<close>

definition fgets :: "bool \<Rightarrow> string \<Rightarrow> (string \<times> bool \<times> string) option" where
  "fgets fails s =
     (if s = [] then None
      else let (line, rest) = fgets_chunk (TRACE_LINE_CAPACITY - 1) s;
               complete = newline \<in> set line \<or> length line = TRACE_LINE_CAPACITY - 1
           in if \<not> complete \<and> fails then None else Some (line, \<not> complete, rest))"

definition c_string :: "string \<Rightarrow> string" where
  "c_string bytes = takeWhile (\<lambda>c. c \<noteq> CHR 0x00) bytes"

section \<open>Parsing\<close>

definition trim_left :: "string \<Rightarrow> string" where
  "trim_left text = dropWhile isspace text"

definition trim_right :: "string \<Rightarrow> string" where
  "trim_right text = rev (dropWhile isspace (rev text))"

definition parse_u64 :: "string \<Rightarrow> u64 option" where
  "parse_u64 text =
     (case strtoull text of (value, end', errno) \<Rightarrow>
        if errno \<or> end' = text \<or> end' \<noteq> [] then None else Some value)"

definition parse_size_value :: "string \<Rightarrow> u64 option" where
  "parse_size_value text =
     (case parse_u64 text of None \<Rightarrow> None | Some value \<Rightarrow> if SIZE_MAX < value then None else Some value)"

definition parse_uintptr :: "string \<Rightarrow> u64 option" where
  "parse_uintptr text =
     (case parse_u64 text of None \<Rightarrow> None | Some value \<Rightarrow> if UINTPTR_MAX < value then None else Some value)"

definition parse_unsigned_value :: "string \<Rightarrow> u32 option" where
  "parse_unsigned_value text =
     (case parse_u64 text of None \<Rightarrow> None | Some value \<Rightarrow> if 0xffffffff < value then None else Some (ucast value))"

definition parse_operation :: "string \<Rightarrow> memx_trace_operation option" where
  "parse_operation text =
     (if text = ''INSERT'' then Some MEMX_TRACE_INSERT
      else if text = ''LOOKUP'' then Some MEMX_TRACE_LOOKUP
      else if text = ''RETIRE'' then Some MEMX_TRACE_RETIRE
      else if text = ''REMOVE'' then Some MEMX_TRACE_REMOVE
      else if text = ''QUIESCENT'' then Some MEMX_TRACE_QUIESCENT
      else None)"

text \<open>The fields stored, so that \<^verbatim>\<open>count\<close> is their number; the loop ends when the array is full.\<close>

fun split_csv :: "string \<Rightarrow> nat \<Rightarrow> string list" where
  "split_csv cursor 0 = []"
| "split_csv cursor (Suc capacity) =
     trim_right (trim_left (takeWhile (\<lambda>c. c \<noteq> CHR '','') cursor))
     # (if CHR '','' \<in> set cursor then split_csv (drop 1 (dropWhile (\<lambda>c. c \<noteq> CHR '','') cursor)) capacity else [])"

definition parse_header_line :: "memx_trace \<Rightarrow> string \<Rightarrow> memx_trace_status \<times> memx_trace" where
  "parse_header_line trace line =
     (if CHR ''='' \<notin> set line then (MEMX_TRACE_ERROR_FORMAT, trace)
      else let name = trim_right (trim_left (takeWhile (\<lambda>c. c \<noteq> CHR ''='') line));
               value = trim_right (trim_left (drop 1 (dropWhile (\<lambda>c. c \<noteq> CHR ''='') line)))
           in case parse_unsigned_value value of
                None \<Rightarrow> (MEMX_TRACE_ERROR_FORMAT, trace)
              | Some parsed \<Rightarrow>
                  (if name = ''version'' then (MEMX_TRACE_OK, trace\<lparr>tr_version := parsed\<rparr>)
                   else if name = ''region_shift'' then (MEMX_TRACE_OK, trace\<lparr>tr_region_shift := parsed\<rparr>)
                   else if name = ''granule_shift'' then (MEMX_TRACE_OK, trace\<lparr>tr_granule_shift := parsed\<rparr>)
                   else (MEMX_TRACE_ERROR_FORMAT, trace)))"

definition parse_fields :: "string list \<Rightarrow> memx_trace_event option" where
  "parse_fields columns =
     (if length columns \<noteq> 6 then None
      else do {
        sequence \<leftarrow> parse_u64 (columns ! 0);
        thread \<leftarrow> parse_u64 (columns ! 1);
        if 0xffffffff < thread then None
        else do {
          operation \<leftarrow> parse_operation (columns ! 2);
          address \<leftarrow> parse_uintptr (columns ! 3);
          sz \<leftarrow> parse_size_value (columns ! 4);
          handle \<leftarrow> parse_uintptr (columns ! 5);
          Some \<lparr>ev_sequence = sequence, ev_thread_id = ucast thread, ev_operation = operation,
            ev_address = address, ev_size = sz, ev_handle = handle\<rparr>
        }
      })"

definition parse_event_line ::
  "'c trace_libc \<Rightarrow> memx_trace \<Rightarrow> string \<Rightarrow> 'c memx_world
     \<Rightarrow> (memx_trace_status \<times> memx_trace \<times> 'c memx_world) option" where
  "parse_event_line L trace line w =
     (case parse_fields (split_csv line 6) of
        None \<Rightarrow> Some (MEMX_TRACE_ERROR_FORMAT, trace, w)
      | Some event \<Rightarrow> append_event L trace event w)"

section \<open>Reading a file\<close>

record trace_reader =
  rd_trace :: memx_trace
  rd_line_number :: u64
  rd_saw_magic :: bool
  rd_saw_columns :: bool

text \<open>The body of the loop after the length check: \<^verbatim>\<open>continue\<close> is \<^const>\<open>MEMX_TRACE_OK\<close>, \<^verbatim>\<open>break\<close> an error.\<close>

definition read_line ::
  "'c trace_libc \<Rightarrow> string \<Rightarrow> trace_reader \<Rightarrow> 'c memx_world
     \<Rightarrow> (memx_trace_status \<times> trace_reader \<times> 'c memx_world) option" where
  "read_line L line r w =
     (let content = trim_left (trim_right line) in
      if content = [] \<or> hd content = CHR ''#'' then Some (MEMX_TRACE_OK, r, w)
      else if \<not> rd_saw_magic r
      then if content \<noteq> ''MEMX_TRACE'' then Some (MEMX_TRACE_ERROR_FORMAT, r, w)
           else Some (MEMX_TRACE_OK, r\<lparr>rd_saw_magic := True\<rparr>, w)
      else if \<not> rd_saw_columns r \<and> CHR ''='' \<in> set content
      then let (status, trace) = parse_header_line (rd_trace r) content in Some (status, r\<lparr>rd_trace := trace\<rparr>, w)
      else if \<not> rd_saw_columns r
      then if content \<noteq> ''sequence,thread,operation,address,size,handle'' then Some (MEMX_TRACE_ERROR_FORMAT, r, w)
           else Some (MEMX_TRACE_OK, r\<lparr>rd_saw_columns := True\<rparr>, w)
      else do {
        (status, trace, w) \<leftarrow> parse_event_line L (rd_trace r) content w;
        Some (status, r\<lparr>rd_trace := trace\<rparr>, w)
      })"

lemma fgets_chunk_rest: "length (snd (fgets_chunk n s)) \<le> length s"
  by (induction n s rule: fgets_chunk.induct) (auto simp: Let_def split_beta)

lemma fgets_rest:
  assumes "fgets fails s = Some (line, eof, rest)"
  shows "length rest < length s"
proof -
  obtain c cs where s: "s = c # cs" using assms by (cases s) (simp_all add: fgets_def)
  have rest: "rest = snd (fgets_chunk 1023 s)"
    using assms by (auto simp: fgets_def TRACE_LINE_CAPACITY_def Let_def split: prod.splits if_splits)
  have "snd (fgets_chunk 1023 s) = (if c = newline then cs else snd (fgets_chunk 1022 cs))"
    unfolding s using fgets_chunk.simps(3) [of 1022 c cs] by (simp add: split_beta)
  then show ?thesis using fgets_chunk_rest [of 1022 cs] unfolding rest s by (simp split: if_splits)
qed

text \<open>The result is the status after the loop, whether a read failed, the reader and the world.\<close>

function (sequential) read_lines ::
  "'c trace_libc \<Rightarrow> bool \<Rightarrow> string \<Rightarrow> trace_reader \<Rightarrow> 'c memx_world
     \<Rightarrow> (memx_trace_status \<times> bool \<times> trace_reader \<times> 'c memx_world) option" where
  "read_lines L fails s r w =
     (case fgets fails s of
        None \<Rightarrow> Some (MEMX_TRACE_OK, fails, r, w)
      | Some (bytes, eof, rest) \<Rightarrow>
          (let line = c_string bytes;
               r = r\<lparr>rd_line_number := rd_line_number r + 1\<rparr>
           in if newline \<notin> set line \<and> \<not> eof then Some (MEMX_TRACE_ERROR_FORMAT, False, r, w)
              else case read_line L line r w of
                     None \<Rightarrow> None
                   | Some (status, r, w) \<Rightarrow>
                       (if status \<noteq> MEMX_TRACE_OK then Some (status, False, r, w)
                        else read_lines L fails rest r w)))"
  by pat_completeness auto
termination by (relation "measure (\<lambda>(L, fails, s, r, w). length s)") (auto dest: fgets_rest)

declare read_lines.simps [simp del]

text \<open>
  \<open>fopen\<close> is the file a path opens.  The result is the status, \<^verbatim>\<open>*out_trace\<close>, \<^verbatim>\<open>*out_error_line\<close> and the
  world.
\<close>

definition memx_trace_read_file ::
  "'c trace_libc \<Rightarrow> (string \<Rightarrow> trace_input option) \<Rightarrow> string option \<Rightarrow> memx_trace option \<Rightarrow> 'c memx_world
     \<Rightarrow> (memx_trace_status \<times> memx_trace option \<times> u64 \<times> 'c memx_world) option" where
  "memx_trace_read_file L fopen path out_trace w =
     (case (path, out_trace) of
        (Some path, Some out) \<Rightarrow>
          (case fopen path of
             None \<Rightarrow> Some (MEMX_TRACE_ERROR_IO, Some out, 0, w)
           | Some input \<Rightarrow> do {
               (status, ferror, r, w) \<leftarrow> read_lines L (fi_error input) (fi_content input)
                 \<lparr>rd_trace = initial_trace, rd_line_number = 0, rd_saw_magic = False, rd_saw_columns = False\<rparr> w;
               let status = (if ferror then MEMX_TRACE_ERROR_IO else status);
               let status = (if \<not> fi_close_ok input \<and> status = MEMX_TRACE_OK then MEMX_TRACE_ERROR_IO else status);
               let status = (if status = MEMX_TRACE_OK \<and> (\<not> rd_saw_magic r \<or> \<not> rd_saw_columns r)
                             then MEMX_TRACE_ERROR_FORMAT else status);
               let status = (if status = MEMX_TRACE_OK \<and> tr_version (rd_trace r) \<noteq> MEMX_TRACE_FORMAT_VERSION
                             then MEMX_TRACE_ERROR_VERSION else status);
               (status, error_line, w) \<leftarrow>
                 (if status = MEMX_TRACE_OK
                  then do {
                    (status, error_event, w) \<leftarrow> memx_trace_validate_lifecycle L (Some (rd_trace r)) w;
                    Some (status, if status \<noteq> MEMX_TRACE_OK then error_event + 1 else 0, w)
                  }
                  else Some (status, rd_line_number r, w));
               if status \<noteq> MEMX_TRACE_OK
               then do {
                 (_, w) \<leftarrow> memx_trace_destroy L (Some (rd_trace r)) w;
                 Some (status, Some out, error_line, w)
               }
               else do {
                 (_, w) \<leftarrow> memx_trace_destroy L (Some out) w;
                 Some (MEMX_TRACE_OK, Some (rd_trace r), error_line, w)
               }
             })
      | _ \<Rightarrow> Some (MEMX_TRACE_ERROR_ARGUMENT, out_trace, 0, w))"

section \<open>Writing a file\<close>

definition print_header :: "memx_trace \<Rightarrow> string" where
  "print_header t =
     ''MEMX_TRACE'' @ [newline]
     @ ''version='' @ print_base 10 (unat (tr_version t)) @ [newline]
     @ ''region_shift='' @ print_base 10 (unat (tr_region_shift t)) @ [newline]
     @ ''granule_shift='' @ print_base 10 (unat (tr_granule_shift t)) @ [newline]
     @ ''sequence,thread,operation,address,size,handle'' @ [newline]"

definition print_event :: "memx_trace_event \<Rightarrow> string" where
  "print_event e =
     print_base 10 (unat (ev_sequence e)) @ '','' @ print_base 10 (unat (ev_thread_id e)) @ '',''
     @ memx_trace_operation_name (ev_operation e) @ '',0x'' @ print_base 16 (unat (ev_address e)) @ '',''
     @ print_base 10 (unat (ev_size e)) @ '',0x'' @ print_base 16 (unat (ev_handle e)) @ [newline]"

text \<open>The loop over the events: the text of the calls that succeed, and whether they all do.\<close>

fun print_events :: "(nat \<Rightarrow> bool) \<Rightarrow> nat \<Rightarrow> memx_trace_event list \<Rightarrow> string \<Rightarrow> bool \<times> string" where
  "print_events print_ok i [] text = (True, text)"
| "print_events print_ok i (e # es) text =
     (if \<not> print_ok i then (False, text) else print_events print_ok (i + 1) es (text @ print_event e))"

text \<open>The result is the status, the content of the file when it was opened, and the world.\<close>

definition memx_trace_write_file ::
  "'c trace_libc \<Rightarrow> (string \<Rightarrow> trace_output option) \<Rightarrow> string option \<Rightarrow> memx_trace option \<Rightarrow> 'c memx_world
     \<Rightarrow> (memx_trace_status \<times> string option \<times> 'c memx_world) option" where
  "memx_trace_write_file L fopen path trace w =
     (case (path, trace) of
        (Some path, Some t) \<Rightarrow> do {
          (status, _, w) \<leftarrow> memx_trace_validate_lifecycle L (Some t) w;
          if status \<noteq> MEMX_TRACE_OK then Some (status, None, w)
          else case fopen path of
                 None \<Rightarrow> Some (MEMX_TRACE_ERROR_IO, None, w)
               | Some output \<Rightarrow>
                   (if \<not> fo_print_ok output 0 then Some (MEMX_TRACE_ERROR_IO, Some [], w)
                    else let (written, text) = print_events (fo_print_ok output) 1 (tr_contents t) (print_header t)
                         in if \<not> written then Some (MEMX_TRACE_ERROR_IO, Some text, w)
                            else Some (if fo_close_ok output then MEMX_TRACE_OK else MEMX_TRACE_ERROR_IO, Some text, w))
        }
      | _ \<Rightarrow> Some (MEMX_TRACE_ERROR_ARGUMENT, None, w))"

end
