(* ===== verification/Memx_TraceFile.thy ===== *)
theory Memx_TraceFile
  imports Memx_TraceText Memx_TraceCheck
begin

text \<open>
  Reading a trace from a file of any content: the loader is memory safe, returns, accepts only valid
  traces, and leaves the destination and the heap as they were when it fails.
\<close>

section \<open>Event arrays\<close>

definition realloc_contract :: "'c trace_libc \<Rightarrow> ('c \<Rightarrow> u64 set) \<Rightarrow> bool" where
  "realloc_contract L live \<longleftrightarrow>
     (\<forall>c p n q c'. tc_realloc L c p n = (q, c') \<longrightarrow> 0 \<notin> live c \<longrightarrow> p = 0 \<or> p \<in> live c \<longrightarrow>
        (if q = 0 then live c' = live c
         else (q = p \<or> q \<notin> live c) \<and> live c' = insert q (live c - {p})))"

text \<open>A trace owns the block of its events, and the events fit.\<close>

definition trace_mem :: "memx_trace \<Rightarrow> 'c memx_world \<Rightarrow> bool" where
  "trace_mem t w \<longleftrightarrow> (if tr_events t = 0 then tr_event_capacity t = 0 else heap w (tr_events t) \<noteq> None)
     \<and> length (tr_contents t) \<le> unat (tr_event_capacity t)"

text \<open>The heap but for the block of a trace.\<close>

definition without :: "memx_trace \<Rightarrow> 'c memx_world \<Rightarrow> u64 \<rightharpoonup> memx_object" where
  "without t w = (heap w)(tr_events t := None)"

definition same_header :: "memx_trace \<Rightarrow> memx_trace \<Rightarrow> bool" where
  "same_header t t' \<longleftrightarrow> tr_version t' = tr_version t \<and> tr_region_shift t' = tr_region_shift t
     \<and> tr_granule_shift t' = tr_granule_shift t"

lemma trace_mem_cong: "heap w' = heap w \<Longrightarrow> trace_mem t w' = trace_mem t w"
  "heap w' = heap w \<Longrightarrow> without t w' = without t w"
  by (simp_all add: trace_mem_def without_def)

lemma trace_mem_length:
  assumes "trace_mem t w"
  shows "length (tr_contents t) < 2 ^ 64"
proof -
  have "length (tr_contents t) \<le> unat (tr_event_capacity t)" using assms by (simp add: trace_mem_def)
  from le_less_trans [OF this unat_lt_64] show ?thesis by simp
qed

lemma realloc_cases:
  assumes "world_ok (tc_allocator L) live w" "realloc_contract L live" "p \<noteq> 0 \<Longrightarrow> heap w p \<noteq> None"
  obtains (null) w' where "c_realloc L p n w = Some (0, w')" "heap w' = heap w" "world_ok (tc_allocator L) live w'"
    | (block) q w' where "c_realloc L p n w = Some (q, w')" "q \<noteq> 0" "heap w' = (heap w)(p := None, q \<mapsto> RawBlock n)"
      "(heap w)(p := None, q := None) = (heap w)(p := None)" "world_ok (tc_allocator L) live w'"
proof -
  obtain q c where r: "tc_realloc L (ctx w) p n = (q, c)" by fastforce
  have W: "allocator_contract (tc_allocator L) live" "dom (heap w) = live (ctx w)" "heap w 0 = None"
    using assms(1) by (auto simp: world_ok_def)
  have "0 \<notin> live (ctx w)" using W(2,3) by auto
  moreover have "p = 0 \<or> p \<in> live (ctx w)" using assms(3) W(2) by auto
  ultimately have R: "if q = 0 then live c = live (ctx w)
      else (q = p \<or> q \<notin> live (ctx w)) \<and> live c = insert q (live (ctx w) - {p})"
    using assms(2) r unfolding realloc_contract_def by blast
  have nb: "\<not> (p \<noteq> 0 \<and> heap w p = None)" using assms(3) by blast
  show thesis
  proof (cases "q = 0")
    case True
    then have "c_realloc L p n w = Some (0, w\<lparr>ctx := c\<rparr>)" unfolding c_realloc_def if_not_P [OF nb] by (simp add: r)
    moreover have "world_ok (tc_allocator L) live (w\<lparr>ctx := c\<rparr>)" using W R True by (simp add: world_ok_def)
    ultimately show thesis using null by simp
  next
    case False
    let ?w = "w\<lparr>heap := (heap w)(p := None, q \<mapsto> RawBlock n), ctx := c\<rparr>"
    have c: "c_realloc L p n w = Some (q, ?w)"
      unfolding c_realloc_def if_not_P [OF nb] using False by (simp add: r)
    have q: "q = p \<or> heap w q = None" using R False W(2) by auto
    have e: "(heap w)(p := None, q := None) = (heap w)(p := None)" using q by (auto simp: fun_eq_iff)
    have "world_ok (tc_allocator L) live ?w" using W R False q by (auto simp: world_ok_def)
    with c e False show thesis using block by simp
  qed
qed

lemma append_event_ok:
  assumes W: "world_ok (tc_allocator L) live w" and R: "realloc_contract L live" and T: "trace_mem t w"
  shows "\<exists>st t' w'. append_event L t e w = Some (st, t', w') \<and> world_ok (tc_allocator L) live w' \<and> trace_mem t' w'
    \<and> without t' w' = without t w \<and> same_header t t'
    \<and> (if st = MEMX_TRACE_OK then tr_contents t' = tr_contents t @ [e] else st = MEMX_TRACE_ERROR_MEMORY \<and> t' = t)"
proof (cases "tr_event_count t = tr_event_capacity t")
  case False
  have "length (tr_contents t) \<noteq> unat (tr_event_capacity t)" using False unfolding tr_event_count_def by auto
  then show ?thesis using False T W by (auto simp: append_event_def trace_mem_def without_def same_header_def)
next
  case True
  have "unat (of_nat (length (tr_contents t)) :: u64) = length (tr_contents t)"
    using trace_mem_length [OF T] by (simp add: unsigned_of_nat take_bit_nat_eq_self)
  then have len: "length (tr_contents t) = unat (tr_event_capacity t)"
    using True unfolding tr_event_count_def by simp
  define capacity where "capacity = (if tr_event_capacity t = 0 then TRACE_INITIAL_EVENTS else tr_event_capacity t * 2)"
  show ?thesis
  proof (cases "capacity < tr_event_capacity t \<or> SIZE_MAX div sizeof_event < capacity")
    case over: True
    then show ?thesis using True T W by (simp add: append_event_def capacity_def [symmetric] same_header_def)
  next
    case fits: False
    have "capacity \<noteq> tr_event_capacity t"
    proof
      assume a: "capacity = tr_event_capacity t"
      show False
      proof (cases "tr_event_capacity t = 0")
        case True
        then show False using a by (simp add: capacity_def TRACE_INITIAL_EVENTS_def)
      next
        case False
        then have "tr_event_capacity t + tr_event_capacity t = tr_event_capacity t + 0"
          using a by (simp add: capacity_def)
        then show False using False by (simp only: add_left_cancel)
      qed
    qed
    moreover have "tr_event_capacity t \<le> capacity" using fits by (intro leI) blast
    ultimately have "tr_event_capacity t < capacity" by (intro le_neq_trans) simp_all
    then have cap: "unat (tr_event_capacity t) < unat capacity" by (simp add: word_less_nat_alt)
    have D: "append_event L t e w = (do {
             (replacement, w) \<leftarrow> c_realloc L (tr_events t) (capacity * sizeof_event) w;
             if replacement = 0 then Some (MEMX_TRACE_ERROR_MEMORY, t, w)
             else Some (MEMX_TRACE_OK,
               t\<lparr>tr_events := replacement, tr_event_capacity := capacity, tr_contents := tr_contents t @ [e]\<rparr>, w) })"
      using True fits by (simp add: append_event_def capacity_def [symmetric])
    have own: "tr_events t \<noteq> 0 \<Longrightarrow> heap w (tr_events t) \<noteq> None" using T by (simp add: trace_mem_def)
    show ?thesis
    proof (rule realloc_cases [OF W R own, of "capacity * sizeof_event"])
      fix w' assume "c_realloc L (tr_events t) (capacity * sizeof_event) w = Some (0, w')" "heap w' = heap w"
        "world_ok (tc_allocator L) live w'"
      then show ?thesis unfolding D using T by (simp add: trace_mem_def without_def same_header_def)
    next
      fix q w' assume q: "c_realloc L (tr_events t) (capacity * sizeof_event) w = Some (q, w')" "q \<noteq> 0"
        "heap w' = (heap w)(tr_events t := None, q \<mapsto> RawBlock (capacity * sizeof_event))"
        "(heap w)(tr_events t := None, q := None) = (heap w)(tr_events t := None)" "world_ok (tc_allocator L) live w'"
      then show ?thesis unfolding D using len cap
        by (simp add: trace_mem_def without_def same_header_def)
    qed
  qed
qed

section \<open>The loop over the lines\<close>

lemma parse_event_line_ok:
  assumes "world_ok (tc_allocator L) live w" "realloc_contract L live" "trace_mem t w"
  shows "\<exists>st t' w'. parse_event_line L t line w = Some (st, t', w') \<and> world_ok (tc_allocator L) live w' \<and> trace_mem t' w'
    \<and> without t' w' = without t w"
proof (cases "parse_fields (split_csv line 6)")
  case None
  then show ?thesis using assms by (simp add: parse_event_line_def)
next
  case (Some e)
  then show ?thesis using append_event_ok [OF assms, of e] by (auto simp: parse_event_line_def)
qed

lemma parse_header_line_ok:
  "parse_header_line t line = (st, t') \<Longrightarrow> tr_events t' = tr_events t \<and> tr_contents t' = tr_contents t
     \<and> tr_event_capacity t' = tr_event_capacity t"
  by (auto simp: parse_header_line_def Let_def split: if_splits option.splits)

lemma read_line_ok:
  assumes "world_ok (tc_allocator L) live w" "realloc_contract L live" "trace_mem (rd_trace r) w"
  shows "\<exists>st r' w'. read_line L line r w = Some (st, r', w') \<and> world_ok (tc_allocator L) live w'
    \<and> trace_mem (rd_trace r') w' \<and> without (rd_trace r') w' = without (rd_trace r) w"
proof -
  obtain sth th where h: "parse_header_line (rd_trace r) (trim_left (trim_right line)) = (sth, th)" by fastforce
  note H = parse_header_line_ok [OF h]
  have th: "trace_mem th w" "without th w = without (rd_trace r) w" using assms(3) H
    by (auto simp: trace_mem_def without_def)
  obtain ste te we where e: "parse_event_line L (rd_trace r) (trim_left (trim_right line)) w = Some (ste, te, we)"
    "world_ok (tc_allocator L) live we" "trace_mem te we" "without te we = without (rd_trace r) w"
    using parse_event_line_ok [OF assms] by blast
  show ?thesis unfolding read_line_def Let_def h e(1) using assms(1,3) th e(2-4) by simp
qed

lemma read_lines_ok:
  assumes "realloc_contract L live"
  shows "world_ok (tc_allocator L) live w \<Longrightarrow> trace_mem (rd_trace r) w \<Longrightarrow>
    \<exists>st ferror r' w'. read_lines L fails s r w = Some (st, ferror, r', w') \<and> world_ok (tc_allocator L) live w'
      \<and> trace_mem (rd_trace r') w' \<and> without (rd_trace r') w' = without (rd_trace r) w"
proof (induction "length s" arbitrary: s r w rule: less_induct)
  case less
  show ?case
  proof (cases "fgets fails s")
    case None
    then show ?thesis using less.prems by (simp add: read_lines.simps [of L fails s])
  next
    case (Some v)
    obtain bytes eof rest where v: "v = (bytes, eof, rest)" by (cases v)
    let ?r = "r\<lparr>rd_line_number := rd_line_number r + 1\<rparr>"
    have D: "read_lines L fails s r w =
      (if newline \<notin> set (c_string bytes) \<and> \<not> eof then Some (MEMX_TRACE_ERROR_FORMAT, False, ?r, w)
       else case read_line L (c_string bytes) ?r w of
              None \<Rightarrow> None
            | Some (status, r, w) \<Rightarrow>
                (if status \<noteq> MEMX_TRACE_OK then Some (status, False, r, w) else read_lines L fails rest r w))"
      by (simp add: read_lines.simps [of L fails s] Some v Let_def)
    have "trace_mem (rd_trace ?r) w" using less.prems(2) by simp
    from read_line_ok [OF less.prems(1) assms this, of "c_string bytes"]
    obtain st r' w' where l: "read_line L (c_string bytes) ?r w = Some (st, r', w')" "world_ok (tc_allocator L) live w'"
      "trace_mem (rd_trace r') w'" "without (rd_trace r') w' = without (rd_trace r) w" by auto
    have "length rest < length s" by (rule fgets_rest [OF Some [unfolded v]])
    from less.hyps [OF this l(2,3)] show ?thesis unfolding D using l less.prems by auto
  qed
qed

section \<open>The file\<close>

lemma destroy_ok:
  assumes "world_ok (tc_allocator L) live w" "trace_mem t w"
  shows "\<exists>w'. memx_trace_destroy L (Some t) w = Some (Some initial_trace, w') \<and> heap w' = without t w
    \<and> world_ok (tc_allocator L) live w'"
proof (cases "tr_events t = 0")
  case True
  moreover have "heap w 0 = None" using assms(1) by (simp add: world_ok_def)
  ultimately show ?thesis using assms(1)
    by (simp add: memx_trace_destroy_def c_free_def memx_trace_init_def without_def fun_upd_idem)
next
  case False
  then have "heap w (tr_events t) \<noteq> None" using assms(2) by (simp add: trace_mem_def)
  from free_block [OF assms(1) this] obtain w' where "c_free (tc_allocator L) (tr_events t) w = Some w'"
    "heap w' = (heap w)(tr_events t := None)" "world_ok (tc_allocator L) live w'" by metis
  then show ?thesis by (simp add: memx_trace_destroy_def memx_trace_init_def without_def)
qed

lemma read_file_ok:
  assumes W: "world_ok (tc_allocator L) live w" and R: "realloc_contract L live" and T: "trace_mem out w"
  shows "\<exists>st out' line w'. memx_trace_read_file L fopen (Some path) (Some out) w = Some (st, Some out', line, w')
    \<and> world_ok (tc_allocator L) live w'
    \<and> (if st = MEMX_TRACE_OK
       then trace_wf out' \<and> replay_accepts (unat (tr_granule_shift out')) (tr_contents out')
         \<and> trace_mem out' w' \<and> without out' w' = without out w
       else out' = out \<and> heap w' = heap w)"
proof (cases "fopen path")
  case None
  then show ?thesis using W by (simp add: memx_trace_read_file_def)
next
  case (Some input)
  let ?r = "\<lparr>rd_trace = initial_trace, rd_line_number = 0, rd_saw_magic = False, rd_saw_columns = False\<rparr>"
  have h0: "heap w 0 = None" using W by (simp add: world_ok_def)
  have i: "trace_mem (rd_trace ?r) w" by (simp add: initial_trace_def trace_mem_def)
  obtain st0 fe r w1 where l: "read_lines L (fi_error input) (fi_content input) ?r w = Some (st0, fe, r, w1)"
    "world_ok (tc_allocator L) live w1" "trace_mem (rd_trace r) w1" "without (rd_trace r) w1 = heap w"
    using read_lines_ok [OF R W i, of "fi_error input" "fi_content input"] h0
    by (auto simp: without_def initial_trace_def fun_upd_idem)
  define st3 where "st3 = (let status = (if fe then MEMX_TRACE_ERROR_IO else st0);
               status = (if \<not> fi_close_ok input \<and> status = MEMX_TRACE_OK then MEMX_TRACE_ERROR_IO else status);
               status = (if status = MEMX_TRACE_OK \<and> (\<not> rd_saw_magic r \<or> \<not> rd_saw_columns r)
                             then MEMX_TRACE_ERROR_FORMAT else status)
        in (if status = MEMX_TRACE_OK \<and> tr_version (rd_trace r) \<noteq> MEMX_TRACE_FORMAT_VERSION
                             then MEMX_TRACE_ERROR_VERSION else status))"
  define check where "check = (if st3 = MEMX_TRACE_OK
                  then do {
                    (status, error_event, w) \<leftarrow> memx_trace_validate_lifecycle L (Some (rd_trace r)) w1;
                    Some (status, if status \<noteq> MEMX_TRACE_OK then error_event + 1 else 0, w)
                  }
                  else Some (st3, rd_line_number r, w1))"
  have D: "memx_trace_read_file L fopen (Some path) (Some out) w = (do {
      (status, error_line, w) \<leftarrow> check;
      if status \<noteq> MEMX_TRACE_OK
      then do { (_, w) \<leftarrow> memx_trace_destroy L (Some (rd_trace r)) w; Some (status, Some out, error_line, w) }
      else do { (_, w) \<leftarrow> memx_trace_destroy L (Some out) w; Some (MEMX_TRACE_OK, Some (rd_trace r), error_line, w) } })"
    unfolding memx_trace_read_file_def check_def st3_def by (simp add: Some l(1) Let_def)
  obtain st line w2 where c: "check = Some (st, line, w2)" "heap w2 = heap w1" "world_ok (tc_allocator L) live w2"
    "st = MEMX_TRACE_OK \<longrightarrow> trace_wf (rd_trace r)
       \<and> replay_accepts (unat (tr_granule_shift (rd_trace r))) (tr_contents (rd_trace r))"
  proof (cases "st3 = MEMX_TRACE_OK")
    case False
    then show thesis using that l(2) by (simp add: check_def)
  next
    case True
    then show thesis using that validate_lifecycle_accepts [OF l(2) trace_mem_length [OF l(3)]] by (auto simp: check_def)
  qed
  note C = trace_mem_cong [OF c(2), of "rd_trace r"]
  show ?thesis
  proof (cases "st = MEMX_TRACE_OK")
    case False
    from destroy_ok [OF c(3), of "rd_trace r"] l(3,4) C obtain w3 where
      "memx_trace_destroy L (Some (rd_trace r)) w2 = Some (Some initial_trace, w3)" "heap w3 = heap w"
      "world_ok (tc_allocator L) live w3" by auto
    then show ?thesis unfolding D c(1) using False by simp
  next
    case True
    have sub: "heap w x \<noteq> None \<Longrightarrow> heap w1 x \<noteq> None \<and> x \<noteq> tr_events (rd_trace r)" for x
      using fun_cong [OF l(4), of x] by (auto simp: without_def split: if_splits)
    have out: "trace_mem out w2" using T sub c(2) by (auto simp: trace_mem_def)
    from destroy_ok [OF c(3) out] obtain w3 where w3:
      "memx_trace_destroy L (Some out) w2 = Some (Some initial_trace, w3)" "heap w3 = without out w2"
      "world_ok (tc_allocator L) live w3" by blast
    have ne: "tr_events (rd_trace r) \<noteq> 0 \<Longrightarrow> tr_events out \<noteq> tr_events (rd_trace r)"
      using T sub [of "tr_events out"] by (auto simp: trace_mem_def)
    have m: "trace_mem (rd_trace r) w3" using l(3) ne w3(2) c(2)
      by (cases "tr_events (rd_trace r) = 0") (auto simp: trace_mem_def without_def)
    have "without (rd_trace r) w3 = without out w"
      unfolding without_def w3(2) c(2) l(4) [unfolded without_def, symmetric] by (auto simp: fun_eq_iff)
    then show ?thesis unfolding D c(1) using True w3(1,3) c(4) m by simp
  qed
qed

end
