(* ===== verification/Memx_TraceRoundtrip.thy ===== *)
theory Memx_TraceRoundtrip
  imports Memx_TraceFile
begin

text \<open>
  The writer and the loader agree: numbers, events and headers are read back as they were printed,
  so a file the writer completed loads as the trace it was written from.
\<close>

section \<open>Numbers\<close>

definition plain :: "char \<Rightarrow> bool" where
  "plain c \<longleftrightarrow> \<not> isspace c \<and> c \<noteq> CHR 0x00 \<and> c \<noteq> CHR '','' \<and> c \<noteq> CHR ''='' \<and> c \<noteq> CHR ''#''"

abbreviation hexdigit :: "nat \<Rightarrow> char" where
  "hexdigit d \<equiv> ''0123456789abcdef'' ! d"

lemma hexdigit_facts:
  assumes "d < 16"
  shows "digit_value (hexdigit d) = d" "plain (hexdigit d)" "hexdigit d \<noteq> CHR ''-''" "hexdigit d \<noteq> CHR ''+''"
    "hexdigit d = CHR ''0'' \<longleftrightarrow> d = 0"
proof -
  have "d = 0 \<or> d = 1 \<or> d = 2 \<or> d = 3 \<or> d = 4 \<or> d = 5 \<or> d = 6 \<or> d = 7 \<or> d = 8 \<or> d = 9 \<or> d = 10 \<or> d = 11
      \<or> d = 12 \<or> d = 13 \<or> d = 14 \<or> d = 15" using assms by presburger
  then have "digit_value (hexdigit d) = d \<and> plain (hexdigit d) \<and> hexdigit d \<noteq> CHR ''-'' \<and> hexdigit d \<noteq> CHR ''+''
      \<and> (hexdigit d = CHR ''0'' \<longleftrightarrow> d = 0)"
    by (elim disjE) (simp_all add: digit_value_def plain_def isspace_def)
  then show "digit_value (hexdigit d) = d" "plain (hexdigit d)" "hexdigit d \<noteq> CHR ''-''" "hexdigit d \<noteq> CHR ''+''"
    "hexdigit d = CHR ''0'' \<longleftrightarrow> d = 0" by blast+
qed

lemma print_base_rec:
  assumes "2 \<le> b"
  shows "print_base b n = (if n < b then [hexdigit n] else print_base b (n div b) @ [hexdigit (n mod b)])"
  using assms by (subst print_base.simps) simp

lemma print_base_induct [case_names digit more]:
  assumes "2 \<le> b" "\<And>n. n < b \<Longrightarrow> P n" "\<And>n. b \<le> n \<Longrightarrow> P (n div b) \<Longrightarrow> P n"
  shows "P (n :: nat)"
proof (induction n rule: less_induct)
  case (less n)
  show ?case
  proof (cases "n < b")
    case True
    then show ?thesis by (rule assms(2))
  next
    case False
    then have "0 < n" "1 < b" using assms(1) by linarith+
    then have "n div b < n" by (intro div_less_dividend)
    then have "P (n div b)" by (rule less.IH)
    moreover have "b \<le> n" using False by simp
    ultimately show ?thesis by (rule assms(3) [rotated])
  qed
qed

lemma print_base_plain:
  assumes "2 \<le> b" "b \<le> 16"
  shows "\<forall>c \<in> set (print_base b n). plain c"
proof (induction n rule: print_base_induct [OF assms(1)])
  case (1 n)
  then show ?case using assms hexdigit_facts(2) [of n] by (simp add: print_base_rec [OF assms(1), of n])
next
  case (2 n)
  have "n mod b < b" using assms(1) by simp
  then have "n mod b < 16" using assms(2) by linarith
  then show ?case using 2 hexdigit_facts(2) [of "n mod b"] by (simp add: print_base_rec [OF assms(1), of n])
qed

lemma print_base_nonempty [simp]: "print_base b n \<noteq> []" "[] \<noteq> print_base b n"
  by (subst print_base.simps, simp)+

lemma print_base_hd:
  assumes "2 \<le> b" "b \<le> 16"
  shows "\<exists>d < b. hd (print_base b n) = hexdigit d \<and> (n \<noteq> 0 \<longrightarrow> d \<noteq> 0)"
proof (induction n rule: print_base_induct [OF assms(1)])
  case (1 n)
  then show ?case by (intro exI [of _ n]) (simp add: print_base_rec [OF assms(1), of n])
next
  case (2 n)
  then have "n div b \<noteq> 0" using assms(1) by (auto simp: div_eq_0_iff)
  then obtain d where "d < b" "hd (print_base b (n div b)) = hexdigit d" "d \<noteq> 0" using 2(2) by blast
  then show ?case using 2(1) by (intro exI [of _ d]) (simp add: print_base_rec [OF assms(1), of n] hd_append2)
qed

lemma scan_print:
  assumes "2 \<le> b" "b \<le> 16"
  shows "\<exists>k. scan_digits b v (print_base b n @ rest) = scan_digits b (v * b ^ k + n) rest"
proof (induction n arbitrary: rest rule: print_base_induct [OF assms(1)])
  case (1 n)
  then have "scan_digits b v (print_base b n @ rest) = scan_digits b (v * b ^ 1 + n) rest"
    using assms hexdigit_facts(1) [of n] by (simp add: print_base_rec [OF assms(1), of n])
  then show ?case by blast
next
  case (2 n)
  have m: "n mod b < b" using assms(1) by simp
  then have d: "digit_value (hexdigit (n mod b)) = n mod b" using assms(2) by (intro hexdigit_facts(1)) linarith
  obtain k where k: "scan_digits b v (print_base b (n div b) @ hexdigit (n mod b) # rest)
      = scan_digits b (v * b ^ k + n div b) (hexdigit (n mod b) # rest)" using 2(2) by blast
  have e: "(v * b ^ k + n div b) * b + n mod b = v * b ^ Suc k + n"
    by (simp add: add_mult_distrib)
  have "scan_digits b (v * b ^ k + n div b) (hexdigit (n mod b) # rest) = scan_digits b (v * b ^ Suc k + n) rest"
    unfolding scan_digits.simps d using m e by simp
  moreover have "print_base b n @ rest = print_base b (n div b) @ hexdigit (n mod b) # rest"
    using 2(1) by (simp add: print_base_rec [OF assms(1), of n])
  ultimately have "scan_digits b v (print_base b n @ rest) = scan_digits b (v * b ^ Suc k + n) rest"
    using k by simp
  then show ?case by blast
qed

lemma scan_print_all:
  assumes "2 \<le> b" "b \<le> 16"
  shows "scan_digits b 0 (print_base b n) = (n, [])"
  using scan_print [OF assms, of 0 n "[]"] by auto

lemma print_base_length:
  assumes "2 \<le> b"
  shows "n < b ^ Suc k \<Longrightarrow> length (print_base b n) \<le> Suc k"
proof (induction k arbitrary: n)
  case 0
  then show ?case using assms by (simp add: print_base_rec)
next
  case (Suc k)
  have "n div b < b ^ Suc k" using Suc.prems assms by (simp add: less_mult_imp_div_less mult.commute)
  then have "length (print_base b (n div b)) \<le> Suc k" by (rule Suc.IH)
  then show ?case using assms by (simp add: print_base_rec [of b n])
qed

lemma dropWhile_plain: "\<forall>c \<in> set s. plain c \<Longrightarrow> dropWhile isspace s = s"
  by (cases s) (simp_all add: plain_def)

lemma number_sign_digits:
  assumes "2 \<le> b" "b \<le> 16"
  shows "number_sign (print_base b n) = (False, print_base b n)"
proof -
  obtain c cs where p: "print_base b n = c # cs" by (cases "print_base b n") simp_all
  obtain d where "d < b" "c = hexdigit d" using print_base_hd [OF assms, of n] p by auto
  then have "c \<noteq> CHR ''-''" "c \<noteq> CHR ''+''" using hexdigit_facts(3,4) [of d] assms(2) by auto
  then show ?thesis by (simp add: number_sign_def p)
qed

lemma parse_print_decimal:
  assumes "n < 2 ^ 64"
  shows "parse_u64 (print_base 10 n) = Some (of_nat n)"
proof -
  let ?t = "print_base 10 n"
  have s: "dropWhile isspace ?t = ?t" using print_base_plain [of 10 n] by (intro dropWhile_plain) simp
  have b: "\<exists>b. number_base ?t = (b, ?t) \<and> scan_digits b 0 ?t = (n, [])"
  proof (cases "n = 0")
    case True
    have "?t = ''0''" using True by (simp add: print_base_rec)
    then show ?thesis using True by (simp add: number_base_def digit_value_def)
  next
    case False
    obtain c cs where p: "?t = c # cs" by (cases ?t) simp_all
    obtain d where "d < 10" "c = hexdigit d" "d \<noteq> 0" using print_base_hd [of 10 n] p False by auto
    then have "c \<noteq> CHR ''0''" using hexdigit_facts(5) [of d] by simp
    then have "number_base ?t = (10, ?t)" by (simp add: number_base_def p)
    then show ?thesis using scan_print_all [of 10 n] by simp
  qed
  then obtain b where "number_base ?t = (b, ?t)" "scan_digits b 0 ?t = (n, [])" by blast
  then have "strtoull ?t = (of_nat n, [], False)"
    using assms number_sign_digits [of 10 n] by (simp add: strtoull_def s)
  then show ?thesis by (simp add: parse_u64_def)
qed

lemma parse_print_hex:
  assumes "n < 2 ^ 64"
  shows "parse_u64 (''0x'' @ print_base 16 n) = Some (of_nat n)"
proof -
  let ?p = "print_base 16 n"
  obtain c cs where p: "?p = c # cs" by (cases ?p) simp_all
  obtain d where "d < 16" "c = hexdigit d" using print_base_hd [of 16 n] p by auto
  then have "digit_value c < 16" using hexdigit_facts(1) [of d] by simp
  then have b: "number_base (''0x'' @ ?p) = (16, ?p)" by (simp add: number_base_def p)
  have s: "dropWhile isspace (''0x'' @ ?p) = ''0x'' @ ?p" by (simp add: isspace_def)
  have g: "number_sign (''0x'' @ ?p) = (False, ''0x'' @ ?p)" by (simp add: number_sign_def)
  have "strtoull (''0x'' @ ?p) = (of_nat n, [], False)"
    unfolding strtoull_def s g prod.case Let_def b scan_print_all [of 16 n, simplified]
    using assms by simp
  then show ?thesis by (simp add: parse_u64_def)
qed

lemma parse_unsigned_print: "parse_unsigned_value (print_base 10 (unat (x :: u32))) = Some x"
proof -
  have "unat x < 2 ^ 32" using unsigned_less [of x] by simp
  then have l: "unat x < 2 ^ 64" by simp
  then have l2: "unat (of_nat (unat x) :: u64) = unat x"
    by (subst unsigned_of_nat) (simp add: take_bit_nat_eq_self)
  have "\<not> 0xffffffff < (of_nat (unat x) :: u64)"
    using \<open>unat x < 2 ^ 32\<close> unfolding word_less_nat_alt l2 by simp
  moreover have "(ucast (ucast x :: u64) :: u32) = x" by (rule bit_word_eqI) (simp add: bit_simps)
  then have "(ucast (of_nat (unat x) :: u64) :: u32) = x" by simp
  ultimately show ?thesis by (simp add: parse_unsigned_value_def parse_print_decimal [OF l])
qed

section \<open>Lines\<close>

lemma trim_plain:
  assumes "\<forall>c \<in> set s. \<not> isspace c"
  shows "trim_left s = s" "trim_right s = s"
proof -
  have "dropWhile isspace t = t" if "\<forall>c \<in> set t. \<not> isspace c" for t using that by (cases t) simp_all
  from this [of s] this [of "rev s"] show "trim_left s = s" "trim_right s = s"
    using assms by (simp_all add: trim_left_def trim_right_def)
qed

lemma split_csv_field:
  assumes "\<forall>c \<in> set f. plain c"
  shows "split_csv (f @ CHR '','' # rest) (Suc n) = f # split_csv rest n" "split_csv f (Suc n) = [f]"
proof -
  have c: "\<forall>c \<in> set f. c \<noteq> CHR '',''" "\<forall>c \<in> set f. \<not> isspace c" using assms by (auto simp: plain_def)
  have t: "takeWhile (\<lambda>c. c \<noteq> CHR '','') (f @ CHR '','' # rest) = f"
    "dropWhile (\<lambda>c. c \<noteq> CHR '','') (f @ CHR '','' # rest) = CHR '','' # rest"
    using c(1) by (simp_all add: takeWhile_append2 dropWhile_append2)
  have m: "CHR '','' \<in> set (f @ CHR '','' # rest)" by simp
  show "split_csv (f @ CHR '','' # rest) (Suc n) = f # split_csv rest n"
    unfolding split_csv.simps t trim_plain [OF c(2)] if_P [OF m] by simp
  have a: "takeWhile (\<lambda>c. c \<noteq> CHR '','') f = f" using c(1) by (simp add: takeWhile_eq_all_conv)
  have n: "CHR '','' \<notin> set f" using c(1) by blast
  show "split_csv f (Suc n) = [f]" unfolding split_csv.simps a trim_plain [OF c(2)] if_not_P [OF n] ..
qed

definition event_text :: "memx_trace_event \<Rightarrow> string" where
  "event_text e = print_base 10 (unat (ev_sequence e)) @ CHR '','' # print_base 10 (unat (ev_thread_id e)) @ CHR '','' #
     memx_trace_operation_name (ev_operation e) @ CHR '','' # (''0x'' @ print_base 16 (unat (ev_address e))) @ CHR '','' #
     print_base 10 (unat (ev_size e)) @ CHR '','' # ''0x'' @ print_base 16 (unat (ev_handle e))"

lemma print_event_text: "print_event e = event_text e @ [newline]"
  by (simp add: print_event_def event_text_def)

lemma parse_operation_name:
  assumes "event_wf g e"
  shows "parse_operation (memx_trace_operation_name (ev_operation e)) = Some (ev_operation e)"
    "\<forall>c \<in> set (memx_trace_operation_name (ev_operation e)). plain c"
    "length (memx_trace_operation_name (ev_operation e)) \<le> 9"
proof -
  have "ev_operation e = MEMX_TRACE_INSERT \<or> ev_operation e = MEMX_TRACE_LOOKUP \<or> ev_operation e = MEMX_TRACE_RETIRE
      \<or> ev_operation e = MEMX_TRACE_REMOVE \<or> ev_operation e = MEMX_TRACE_QUIESCENT"
    using assms by (auto simp: event_wf_def split: if_splits)
  then have "parse_operation (memx_trace_operation_name (ev_operation e)) = Some (ev_operation e)
      \<and> (\<forall>c \<in> set (memx_trace_operation_name (ev_operation e)). plain c)
      \<and> length (memx_trace_operation_name (ev_operation e)) \<le> 9"
    by (elim disjE) (simp_all add: memx_trace_operation_name_def parse_operation_def operations_distinct
        operations_distinct [symmetric] plain_def isspace_def)
  then show "parse_operation (memx_trace_operation_name (ev_operation e)) = Some (ev_operation e)"
    "\<forall>c \<in> set (memx_trace_operation_name (ev_operation e)). plain c"
    "length (memx_trace_operation_name (ev_operation e)) \<le> 9" by blast+
qed

lemma plain_digits: "\<forall>c \<in> set (print_base 10 n). plain c" "\<forall>c \<in> set (print_base 16 n). plain c"
  "\<forall>c \<in> set (''0x'' @ print_base 16 n). plain c"
proof -
  show "\<forall>c \<in> set (print_base 10 n). plain c" by (rule print_base_plain) simp_all
  show 16: "\<forall>c \<in> set (print_base 16 n). plain c" by (rule print_base_plain) simp_all
  have "\<forall>c \<in> set ''0x''. plain c" by (simp add: plain_def isspace_def)
  with 16 show "\<forall>c \<in> set (''0x'' @ print_base 16 n). plain c" by auto
qed

text \<open>A printed event is read back.\<close>

lemma parse_event_text:
  assumes "event_wf g e"
  shows "parse_fields (split_csv (event_text e) 6) = Some e"
proof -
  note O = parse_operation_name [OF assms]
  have six: "6 = Suc (Suc (Suc (Suc (Suc (Suc 0)))))" by simp
  have c: "split_csv (event_text e) 6 = [print_base 10 (unat (ev_sequence e)), print_base 10 (unat (ev_thread_id e)),
     memx_trace_operation_name (ev_operation e), ''0x'' @ print_base 16 (unat (ev_address e)),
     print_base 10 (unat (ev_size e)), ''0x'' @ print_base 16 (unat (ev_handle e))]"
    unfolding event_text_def six split_csv_field(1) [OF plain_digits(1)] split_csv_field(1) [OF O(2)]
      split_csv_field(1) [OF plain_digits(3)] split_csv_field(2) [OF plain_digits(3)] ..
  have p: "parse_u64 (print_base 10 (unat (x :: u64))) = Some x" for x
    using parse_print_decimal [of "unat x"] unat_lt_64 [of x] by simp
  have h: "parse_u64 (''0x'' @ print_base 16 (unat (x :: u64))) = Some x" for x
    using parse_print_hex [of "unat x"] unat_lt_64 [of x] by simp
  have t: "\<exists>v. parse_u64 (print_base 10 (unat (x :: u32))) = Some v \<and> \<not> 0xffffffff < v \<and> ucast v = x" for x
    using parse_unsigned_print [of x] by (auto simp: parse_unsigned_value_def split: option.splits if_splits)
  obtain v where v: "parse_u64 (print_base 10 (unat (ev_thread_id e))) = Some v" "\<not> 0xffffffff < v"
    "ucast v = ev_thread_id e" using t by blast
  have le: "\<not> UINTPTR_MAX < x" for x :: u64 by (simp add: not_less)
  show ?thesis unfolding c parse_fields_def
    using v(2) by (simp add: p h [simplified] v(1,3) O(1) parse_uintptr_def parse_size_value_def le)
qed

lemma event_text_plain:
  assumes "event_wf g e"
  shows "\<forall>c \<in> set (event_text e). \<not> isspace c \<and> c \<noteq> CHR 0x00" "event_text e \<noteq> []" "hd (event_text e) \<noteq> CHR ''#''"
    "length (event_text e) < 1023"
proof -
  note O = parse_operation_name [OF assms]
  have P: "\<not> isspace c \<and> c \<noteq> CHR 0x00" if "plain c" for c using that by (simp add: plain_def)
  show "\<forall>c \<in> set (event_text e). \<not> isspace c \<and> c \<noteq> CHR 0x00"
  proof
    fix c assume "c \<in> set (event_text e)"
    then have "c = CHR '','' \<or> c = CHR ''0'' \<or> c = CHR ''x'' \<or> plain c"
      unfolding event_text_def using plain_digits O(2) by auto
    then show "\<not> isspace c \<and> c \<noteq> CHR 0x00" by (elim disjE) (simp_all add: isspace_def P [unfolded isspace_def])
  qed
  show "event_text e \<noteq> []" by (simp add: event_text_def)
  have "hd (event_text e) \<in> set (print_base 10 (unat (ev_sequence e)))" by (simp add: event_text_def hd_append2)
  then show "hd (event_text e) \<noteq> CHR ''#''" using plain_digits(1) by (auto simp: plain_def)
  have d: "length (print_base 10 (unat (x :: u64))) \<le> 20" for x
    using print_base_length [of 10 "unat x" 19] unat_lt_64 [of x] by simp
  have h: "length (print_base 16 (unat (x :: u64))) \<le> 16" for x
    using print_base_length [of 16 "unat x" 15] unat_lt_64 [of x] by simp
  have t: "length (print_base 10 (unat (x :: u32))) \<le> 10" for x
  proof -
    have "unat x < 2 ^ 32" using unsigned_less [of x] by simp
    then show ?thesis using print_base_length [of 10 "unat x" 9] by simp
  qed
  show "length (event_text e) < 1023"
    using O(3) d [of "ev_sequence e"] t [of "ev_thread_id e"] h [of "ev_address e"] d [of "ev_size e"]
      h [of "ev_handle e"] unfolding event_text_def by simp
qed

section \<open>Reading lines\<close>

lemma fgets_chunk_line:
  "newline \<notin> set line \<Longrightarrow> length line < n \<Longrightarrow> fgets_chunk n (line @ newline # rest) = (line @ [newline], rest)"
proof (induction line arbitrary: n)
  case Nil
  then show ?case by (cases n) simp_all
next
  case (Cons c cs)
  then obtain k where k: "n = Suc k" by (cases n) simp_all
  show ?case using Cons unfolding k by auto
qed

lemma read_lines_line:
  assumes "\<forall>c \<in> set line. \<not> isspace c \<and> c \<noteq> CHR 0x00" "length line < 1023"
  shows "read_lines L fails (line @ newline # rest) r w =
    (case read_line L (line @ [newline]) (r\<lparr>rd_line_number := rd_line_number r + 1\<rparr>) w of
       None \<Rightarrow> None
     | Some (status, r, w) \<Rightarrow> (if status \<noteq> MEMX_TRACE_OK then Some (status, False, r, w) else read_lines L fails rest r w))"
proof -
  have n: "isspace newline" by (simp add: isspace_def newline_def)
  then have l: "newline \<notin> set line" using assms(1) by blast
  have f: "fgets fails (line @ newline # rest) = Some (line @ [newline], False, rest)"
    using fgets_chunk_line [OF l assms(2), of rest] by (simp add: fgets_def TRACE_LINE_CAPACITY_def)
  have c: "c_string (line @ [newline]) = line @ [newline]"
    unfolding c_string_def takeWhile_eq_all_conv using assms(1) by (auto simp: newline_def)
  show ?thesis by (subst read_lines.simps) (simp add: f c Let_def)
qed

lemma read_line_content:
  assumes "\<forall>c \<in> set line. \<not> isspace c"
  shows "trim_left (trim_right (line @ [newline])) = line"
proof -
  have "trim_right (line @ [newline]) = trim_right line" by (simp add: trim_right_def isspace_def newline_def)
  then show ?thesis by (simp add: trim_plain [OF assms])
qed

lemma read_events:
  assumes R: "realloc_contract L live" and "\<forall>e \<in> set es. event_wf g e"
  shows "world_ok (tc_allocator L) live w \<Longrightarrow> trace_mem (rd_trace r) w \<Longrightarrow> rd_saw_magic r \<Longrightarrow> rd_saw_columns r \<Longrightarrow>
    \<exists>st r' w'. read_lines L False (concat (map print_event es)) r w = Some (st, False, r', w')
      \<and> (st = MEMX_TRACE_ERROR_MEMORY
        \<or> st = MEMX_TRACE_OK \<and> rd_saw_magic r' \<and> rd_saw_columns r' \<and> same_header (rd_trace r) (rd_trace r')
          \<and> tr_contents (rd_trace r') = tr_contents (rd_trace r) @ es)"
  using assms(2)
proof (induction es arbitrary: r w)
  case Nil
  then show ?case by (simp add: read_lines.simps fgets_def same_header_def)
next
  case (Cons e es)
  have e: "event_wf g e" using Cons.prems(5) by simp
  note T = event_text_plain [OF e]
  let ?r = "r\<lparr>rd_line_number := rd_line_number r + 1\<rparr>"
  have T1: "\<forall>c \<in> set (event_text e). \<not> isspace c" using T(1) by blast
  have l: "read_line L (event_text e @ [newline]) ?r w = (do {
        (status, trace, w) \<leftarrow> append_event L (rd_trace r) e w; Some (status, ?r\<lparr>rd_trace := trace\<rparr>, w) })"
    using T(2,3) Cons.prems(3,4)
    by (simp add: read_line_def read_line_content [OF T1] parse_event_line_def parse_event_text [OF e])
  obtain st t' w' where a: "append_event L (rd_trace r) e w = Some (st, t', w')" "world_ok (tc_allocator L) live w'"
    "trace_mem t' w'" "same_header (rd_trace r) t'"
    "if st = MEMX_TRACE_OK then tr_contents t' = tr_contents (rd_trace r) @ [e]
     else st = MEMX_TRACE_ERROR_MEMORY \<and> t' = rd_trace r"
    using append_event_ok [OF Cons.prems(1) R Cons.prems(2), of e] by blast
  have D: "read_lines L False (concat (map print_event (e # es))) r w
    = (if st \<noteq> MEMX_TRACE_OK then Some (st, False, ?r\<lparr>rd_trace := t'\<rparr>, w')
       else read_lines L False (concat (map print_event es)) (?r\<lparr>rd_trace := t'\<rparr>) w')"
    using read_lines_line [OF T(1,4), of L False "concat (map print_event es)" r w] l a(1)
    by (simp add: print_event_text)
  show ?case
  proof (cases "st = MEMX_TRACE_OK")
    case False
    then show ?thesis unfolding D using a(5) by simp
  next
    case True
    have es: "\<forall>e \<in> set es. event_wf g e" using Cons.prems(5) by simp
    have "\<exists>st r' w''. read_lines L False (concat (map print_event es)) (?r\<lparr>rd_trace := t'\<rparr>) w' = Some (st, False, r', w'')
      \<and> (st = MEMX_TRACE_ERROR_MEMORY
        \<or> st = MEMX_TRACE_OK \<and> rd_saw_magic r' \<and> rd_saw_columns r' \<and> same_header (rd_trace (?r\<lparr>rd_trace := t'\<rparr>)) (rd_trace r')
          \<and> tr_contents (rd_trace r') = tr_contents (rd_trace (?r\<lparr>rd_trace := t'\<rparr>)) @ es)"
      using a(2,3) Cons.prems(3,4) by (intro Cons.IH [OF _ _ _ _ es]) simp_all
    then show ?thesis unfolding D using True a(4,5) by (auto simp: same_header_def)
  qed
qed

section \<open>The header\<close>

lemma parse_header_text:
  assumes "\<forall>c \<in> set name. plain c"
  shows "parse_header_line t (name @ CHR ''='' # print_base 10 (unat (v :: u32)))
    = (if name = ''version'' then (MEMX_TRACE_OK, t\<lparr>tr_version := v\<rparr>)
       else if name = ''region_shift'' then (MEMX_TRACE_OK, t\<lparr>tr_region_shift := v\<rparr>)
       else if name = ''granule_shift'' then (MEMX_TRACE_OK, t\<lparr>tr_granule_shift := v\<rparr>)
       else (MEMX_TRACE_ERROR_FORMAT, t))"
proof -
  have c: "\<forall>c \<in> set name. c \<noteq> CHR ''=''" "\<forall>c \<in> set name. \<not> isspace c"
    "\<forall>c \<in> set (print_base 10 (unat v)). \<not> isspace c"
    using assms plain_digits(1) by (auto simp: plain_def)
  have t: "takeWhile (\<lambda>c. c \<noteq> CHR ''='') (name @ CHR ''='' # print_base 10 (unat v)) = name"
    "dropWhile (\<lambda>c. c \<noteq> CHR ''='') (name @ CHR ''='' # print_base 10 (unat v)) = CHR ''='' # print_base 10 (unat v)"
    using c(1) by (simp_all add: takeWhile_append2 dropWhile_append2)
  have d: "drop 1 (CHR ''='' # print_base 10 (unat v)) = print_base 10 (unat v)" by simp
  have m: "\<not> CHR ''='' \<notin> set (name @ CHR ''='' # print_base 10 (unat v))" by simp
  show ?thesis
    unfolding parse_header_line_def if_not_P [OF m] Let_def t d trim_plain [OF c(2)] trim_plain [OF c(3)]
      parse_unsigned_print option.case ..
qed

lemma read_header_line:
  assumes "\<forall>c \<in> set name. plain c" "name \<noteq> []" "length name \<le> 20" "rd_saw_magic r" "\<not> rd_saw_columns r"
    and "parse_header_line (rd_trace r) (name @ CHR ''='' # print_base 10 (unat (v :: u32))) = (MEMX_TRACE_OK, t')"
  shows "read_lines L False ((name @ CHR ''='' # print_base 10 (unat v)) @ newline # rest) r w
    = read_lines L False rest (r\<lparr>rd_line_number := rd_line_number r + 1, rd_trace := t'\<rparr>) w"
proof -
  let ?line = "name @ CHR ''='' # print_base 10 (unat v)"
  have "\<not> isspace (CHR ''='')" by (simp add: isspace_def)
  then have c: "\<forall>c \<in> set ?line. \<not> isspace c \<and> c \<noteq> CHR 0x00" "\<forall>c \<in> set ?line. \<not> isspace c"
    using assms(1) plain_digits(1) by (auto simp: plain_def)
  have "unat v < 2 ^ 32" using unsigned_less [of v] by simp
  then have l: "length ?line < 1023" using assms(3) print_base_length [of 10 "unat v" 9] by simp
  have h: "hd ?line \<noteq> CHR ''#''" using assms(1,2) by (cases name) (simp_all add: plain_def)
  show ?thesis unfolding read_lines_line [OF c(1) l] read_line_def read_line_content [OF c(2)] Let_def
    using assms(4-6) h by simp
qed

lemma read_header:
  "read_lines L False (print_header t @ rest)
     \<lparr>rd_trace = initial_trace, rd_line_number = 0, rd_saw_magic = False, rd_saw_columns = False\<rparr> w
   = read_lines L False rest \<lparr>rd_trace = initial_trace\<lparr>tr_version := tr_version t, tr_region_shift := tr_region_shift t,
       tr_granule_shift := tr_granule_shift t\<rparr>, rd_line_number = 5, rd_saw_magic = True, rd_saw_columns = True\<rparr> w"
proof -
  let ?columns = "''sequence,thread,operation,address,size,handle''"
  have sp: "\<forall>c \<in> set ''MEMX_TRACE''. \<not> isspace c \<and> c \<noteq> CHR 0x00" "\<forall>c \<in> set ''MEMX_TRACE''. \<not> isspace c"
    "\<forall>c \<in> set ?columns. \<not> isspace c \<and> c \<noteq> CHR 0x00" "\<forall>c \<in> set ?columns. \<not> isspace c"
    by (simp_all add: isspace_def)
  have m: "read_lines L False (''MEMX_TRACE'' @ newline # xs) r w
      = read_lines L False xs (r\<lparr>rd_line_number := rd_line_number r + 1, rd_saw_magic := True\<rparr>) w"
    if "\<not> rd_saw_magic r" for xs r
    using that by (subst read_lines_line [OF sp(1)]) (simp_all add: read_line_def read_line_content [OF sp(2), simplified])
  have k: "read_lines L False (?columns @ newline # xs) r w
      = read_lines L False xs (r\<lparr>rd_line_number := rd_line_number r + 1, rd_saw_columns := True\<rparr>) w"
    if "rd_saw_magic r" "\<not> rd_saw_columns r" for xs r
    using that by (subst read_lines_line [OF sp(3)]) (simp_all add: read_line_def read_line_content [OF sp(4), simplified])
  have n: "\<forall>c \<in> set ''version''. plain c" "\<forall>c \<in> set ''region_shift''. plain c" "\<forall>c \<in> set ''granule_shift''. plain c"
    by (simp_all add: plain_def isspace_def)
  have H: "print_header t @ rest = ''MEMX_TRACE'' @ newline #
      (''version'' @ CHR ''='' # print_base 10 (unat (tr_version t))) @ newline #
      (''region_shift'' @ CHR ''='' # print_base 10 (unat (tr_region_shift t))) @ newline #
      (''granule_shift'' @ CHR ''='' # print_base 10 (unat (tr_granule_shift t))) @ newline #
      ?columns @ newline # rest"
    by (simp add: print_header_def)
  let ?r = "\<lparr>rd_trace = initial_trace, rd_line_number = 0, rd_saw_magic = False, rd_saw_columns = False\<rparr>"
  let ?r1 = "\<lparr>rd_trace = initial_trace, rd_line_number = 1, rd_saw_magic = True, rd_saw_columns = False\<rparr>"
  let ?r2 = "\<lparr>rd_trace = initial_trace\<lparr>tr_version := tr_version t\<rparr>, rd_line_number = 2, rd_saw_magic = True,
      rd_saw_columns = False\<rparr>"
  let ?r3 = "\<lparr>rd_trace = initial_trace\<lparr>tr_version := tr_version t, tr_region_shift := tr_region_shift t\<rparr>,
      rd_line_number = 3, rd_saw_magic = True, rd_saw_columns = False\<rparr>"
  let ?r4 = "\<lparr>rd_trace = initial_trace\<lparr>tr_version := tr_version t, tr_region_shift := tr_region_shift t,
      tr_granule_shift := tr_granule_shift t\<rparr>, rd_line_number = 4, rd_saw_magic = True, rd_saw_columns = False\<rparr>"
  have s1: "read_lines L False (''MEMX_TRACE'' @ newline # xs) ?r w = read_lines L False xs ?r1 w" for xs
    by (subst m) simp_all
  have s2: "read_lines L False ((''version'' @ CHR ''='' # print_base 10 (unat (tr_version t))) @ newline # xs) ?r1 w
      = read_lines L False xs ?r2 w" for xs
    by (subst read_header_line [OF n(1), where t' = "initial_trace\<lparr>tr_version := tr_version t\<rparr>"])
      (simp_all only: parse_header_text [OF n(1)], simp_all)
  have s3: "read_lines L False ((''region_shift'' @ CHR ''='' # print_base 10 (unat (tr_region_shift t))) @ newline # xs) ?r2 w
      = read_lines L False xs ?r3 w" for xs
    by (subst read_header_line [OF n(2), where t' = "rd_trace ?r3"])
      (simp_all only: parse_header_text [OF n(2)], simp_all)
  have s4: "read_lines L False ((''granule_shift'' @ CHR ''='' # print_base 10 (unat (tr_granule_shift t))) @ newline # xs) ?r3 w
      = read_lines L False xs ?r4 w" for xs
    by (subst read_header_line [OF n(3), where t' = "rd_trace ?r4"])
      (simp_all only: parse_header_text [OF n(3)], simp_all)
  have s5: "read_lines L False (?columns @ newline # xs) ?r4 w = read_lines L False xs (?r4\<lparr>rd_line_number := 5,
      rd_saw_columns := True\<rparr>) w" for xs
    by (subst k) simp_all
  show ?thesis unfolding H s1 s2 s3 s4 s5 by simp
qed

section \<open>The file\<close>

lemma print_events_text:
  "print_events ok i es s = (True, s') \<Longrightarrow> s' = s @ concat (map print_event es)"
proof (induction es arbitrary: i s)
  case Nil
  then show ?case by simp
next
  case (Cons e es)
  then have "print_events ok (i + 1) es (s @ print_event e) = (True, s')" by (simp split: if_splits)
  from Cons.IH [OF this] show ?case by simp
qed

lemma write_file_ok:
  assumes W: "world_ok (tc_allocator L) live w" and T: "trace_mem t w"
    and r: "memx_trace_write_file L fopen (Some path) (Some t) w = Some (MEMX_TRACE_OK, Some text, w')"
  shows "text = print_header t @ concat (map print_event (tr_contents t))" "trace_wf t"
    "inserted (unat (tr_granule_shift t)) (tr_contents t) \<le> 2 ^ 26"
    "replay_accepts (unat (tr_granule_shift t)) (tr_contents t)"
proof -
  obtain st i w1 where v: "memx_trace_validate_lifecycle L (Some t) w = Some (st, i, w1)"
    "if fst (memx_trace_validate (Some t)) \<noteq> MEMX_TRACE_OK then (st, i) = memx_trace_validate (Some t)
       else if 2 ^ 26 < inserted (unat (tr_granule_shift t)) (tr_contents t) then st = MEMX_TRACE_ERROR_MEMORY \<and> i = 0
       else (st, i) = replay_result (unat (tr_granule_shift t)) 0 (tr_contents t) Map.empty
         \<or> st = MEMX_TRACE_ERROR_MEMORY \<and> i = 0 \<and> (\<exists>n w2. c_malloc (tc_allocator L) n w = Some (0, w2))"
    using validate_lifecycle_ok [OF W, of t] by blast
  have ok: "st = MEMX_TRACE_OK" using r v(1) by (auto simp: memx_trace_write_file_def split: if_splits)
  obtain fo where "fopen path = Some fo"
    using r v(1) ok by (auto simp: memx_trace_write_file_def split: option.splits)
  then show "text = print_header t @ concat (map print_event (tr_contents t))"
    using r v(1) ok print_events_text
    by (auto simp: memx_trace_write_file_def Let_def split: prod.splits if_splits)
  obtain st' i' w2 where v': "memx_trace_validate_lifecycle L (Some t) w = Some (st', i', w2)"
    "st' = MEMX_TRACE_OK \<longrightarrow> trace_wf t \<and> replay_accepts (unat (tr_granule_shift t)) (tr_contents t)"
    using validate_lifecycle_accepts [OF W trace_mem_length [OF T]] by blast
  then show t: "trace_wf t" "replay_accepts (unat (tr_granule_shift t)) (tr_contents t)" using v(1) ok by auto
  have "fst (memx_trace_validate (Some t)) = MEMX_TRACE_OK"
    using trace_wf_exact(1) [OF trace_mem_length [OF T]] t(1) by blast
  then show "inserted (unat (tr_granule_shift t)) (tr_contents t) \<le> 2 ^ 26"
    using v(2) ok by (simp split: if_splits)
qed

lemma trace_wf_cong: "same_header t t' \<Longrightarrow> tr_contents t' = tr_contents t \<Longrightarrow> trace_wf t' = trace_wf t"
  by (simp add: same_header_def trace_wf_def)

lemma roundtrip_ok:
  assumes W: "world_ok (tc_allocator L) live w" and R: "realloc_contract L live" and T: "trace_mem out w"
    and t: "trace_wf t" "inserted (unat (tr_granule_shift t)) (tr_contents t) \<le> 2 ^ 26"
      "replay_accepts (unat (tr_granule_shift t)) (tr_contents t)"
    and f: "fopen path = Some \<lparr>fi_content = print_header t @ concat (map print_event (tr_contents t)),
      fi_error = False, fi_close_ok = True\<rparr>"
  shows "\<exists>st out' line w'. memx_trace_read_file L fopen (Some path) (Some out) w = Some (st, Some out', line, w')
    \<and> (st = MEMX_TRACE_OK \<and> same_header t out' \<and> tr_contents out' = tr_contents t
      \<or> st = MEMX_TRACE_ERROR_MEMORY \<and> out' = out)"
proof -
  let ?g = "unat (tr_granule_shift t)"
  let ?text = "print_header t @ concat (map print_event (tr_contents t))"
  let ?start = "\<lparr>rd_trace = initial_trace, rd_line_number = 0, rd_saw_magic = False, rd_saw_columns = False\<rparr>"
  let ?r = "\<lparr>rd_trace = initial_trace\<lparr>tr_version := tr_version t, tr_region_shift := tr_region_shift t,
       tr_granule_shift := tr_granule_shift t\<rparr>, rd_line_number = 5, rd_saw_magic = True, rd_saw_columns = True\<rparr>"
  have wf: "\<forall>e \<in> set (tr_contents t). event_wf ?g e" using t(1) by (simp add: trace_wf_def)
  have m: "trace_mem (rd_trace ?r) w" "trace_mem (rd_trace ?start) w" by (simp_all add: initial_trace_def trace_mem_def)
  have "\<exists>st r' w1. read_lines L False (concat (map print_event (tr_contents t))) ?r w = Some (st, False, r', w1)
      \<and> (st = MEMX_TRACE_ERROR_MEMORY \<or> st = MEMX_TRACE_OK \<and> rd_saw_magic r' \<and> rd_saw_columns r'
        \<and> same_header (rd_trace ?r) (rd_trace r') \<and> tr_contents (rd_trace r') = tr_contents (rd_trace ?r) @ tr_contents t)"
    by (rule read_events [OF R wf W m(1)]) simp_all
  then obtain st r' w1 where e0: "read_lines L False (concat (map print_event (tr_contents t))) ?r w = Some (st, False, r', w1)"
    and e2: "st = MEMX_TRACE_ERROR_MEMORY \<or> st = MEMX_TRACE_OK \<and> rd_saw_magic r' \<and> rd_saw_columns r'
      \<and> same_header (rd_trace ?r) (rd_trace r') \<and> tr_contents (rd_trace r') = tr_contents (rd_trace ?r) @ tr_contents t"
    by blast
  have e1: "read_lines L False ?text ?start w = Some (st, False, r', w1)"
    using read_header [of L t "concat (map print_event (tr_contents t))" w] e0 by (rule trans)
  note e = e1 e2
  obtain st2 out2 line2 w2 where f2: "memx_trace_read_file L fopen (Some path) (Some out) w = Some (st2, Some out2, line2, w2)"
    "if st2 = MEMX_TRACE_OK then True else out2 = out"
    using read_file_ok [OF W R T, of fopen path] by (auto split: if_splits)
  from read_lines_ok [OF R W m(2), of False ?text] e(1) have w1: "world_ok (tc_allocator L) live w1"
    "trace_mem (rd_trace r') w1" by auto
  show ?thesis
  proof (cases "st = MEMX_TRACE_OK")
    case False
    then have "st = MEMX_TRACE_ERROR_MEMORY" using e(2) by blast
    then have "st2 = MEMX_TRACE_ERROR_MEMORY" using f2(1) unfolding memx_trace_read_file_def
      by (auto simp: f e(1) bind_eq_Some_conv)
    then show ?thesis using f2 by simp
  next
    case True
    then have h: "same_header t (rd_trace r')" "tr_contents (rd_trace r') = tr_contents t" "rd_saw_magic r'" "rd_saw_columns r'"
      using e(2) by (auto simp: same_header_def initial_trace_def)
    have v: "tr_version (rd_trace r') = MEMX_TRACE_FORMAT_VERSION" "tr_granule_shift (rd_trace r') = tr_granule_shift t"
      using h(1) t(1) by (simp_all add: same_header_def trace_wf_def)
    obtain st3 i3 w3 where c: "memx_trace_validate_lifecycle L (Some (rd_trace r')) w1 = Some (st3, i3, w3)"
      "if fst (memx_trace_validate (Some (rd_trace r'))) \<noteq> MEMX_TRACE_OK then (st3, i3) = memx_trace_validate (Some (rd_trace r'))
       else if 2 ^ 26 < inserted ?g (tr_contents t) then st3 = MEMX_TRACE_ERROR_MEMORY \<and> i3 = 0
       else (st3, i3) = replay_result ?g 0 (tr_contents t) Map.empty
         \<or> st3 = MEMX_TRACE_ERROR_MEMORY \<and> i3 = 0 \<and> (\<exists>n w2. c_malloc (tc_allocator L) n w1 = Some (0, w2))"
      using validate_lifecycle_ok [OF w1(1), of "rd_trace r'"] unfolding h(2) v(2) by blast
    have "fst (memx_trace_validate (Some (rd_trace r'))) = MEMX_TRACE_OK"
      using trace_wf_exact(1) [OF trace_mem_length [OF w1(2)]] trace_wf_cong [OF h(1,2)] t(1) by blast
    moreover have "replay_result ?g 0 (tr_contents t) Map.empty = (MEMX_TRACE_OK, 0)"
      using t(3) by (simp add: replay_result_def replay_accepts_def)
    ultimately have s: "st3 = MEMX_TRACE_OK \<or> st3 = MEMX_TRACE_ERROR_MEMORY" using c(2) t(2) by auto
    have "st2 = st3 \<and> (st3 = MEMX_TRACE_OK \<longrightarrow> out2 = rd_trace r')"
      using f2(1) True h(3,4) v(1) unfolding memx_trace_read_file_def
      by (auto simp: f e(1) c(1) bind_eq_Some_conv split: if_splits)
    then show ?thesis using f2 s h by auto
  qed
qed

end
