(* ===== verification/Memx_TraceProperties.thy ===== *)
theory Memx_TraceProperties
  imports Memx_TraceStats Memx_TraceRoundtrip Memx_Examples
begin

text \<open>
  The promises of \<^verbatim>\<open>bench/trace.c\<close>: the validator accepts the traces a replay over an abstract map
  accepts, the loader is transactional, what is written is read back, and the statistics are exact.
\<close>

section \<open>A trace for the witnesses\<close>

definition bump_realloc :: "bump \<Rightarrow> u64 \<Rightarrow> u64 \<Rightarrow> u64 \<times> bump" where
  "bump_realloc c p n = (if p = 0 then bump_allocate c n else (p, c))"

definition trace_desk :: "bump trace_libc" where
  "trace_desk = \<lparr>tc_allocator = bump_allocator, tc_realloc = bump_realloc\<rparr>"

lemma trace_desk_realloc: "realloc_contract trace_desk bump_live"
  by (auto simp: realloc_contract_def trace_desk_def bump_realloc_def bump_allocate_def bump_live_def Let_def
      split: if_splits)

lemma trace_desk_world: "world_ok (tc_allocator trace_desk) bump_live empty_world"
  using empty_world_ok by (simp add: trace_desk_def)

definition sample_event :: "u64 \<Rightarrow> memx_trace_operation \<Rightarrow> u64 \<Rightarrow> u64 \<Rightarrow> u64 \<Rightarrow> memx_trace_event" where
  "sample_event s k a n h = \<lparr>ev_sequence = s, ev_thread_id = 3, ev_operation = k, ev_address = a, ev_size = n,
     ev_handle = h\<rparr>"

text \<open>Two granules inserted, looked up and removed, beside a trace that inserts one of them twice.\<close>

definition sample_events :: "memx_trace_event list" where
  "sample_events = [sample_event 1 MEMX_TRACE_INSERT 0x1000 0x2000 7, sample_event 2 MEMX_TRACE_LOOKUP 0x2011 0 7,
     sample_event 5 MEMX_TRACE_REMOVE 0x1000 0x2000 7]"

definition overlap_events :: "memx_trace_event list" where
  "overlap_events = [sample_event 1 MEMX_TRACE_INSERT 0x1000 0x2000 7, sample_event 2 MEMX_TRACE_INSERT 0x2000 0x1000 8]"

definition sample_trace :: "memx_trace_event list \<Rightarrow> memx_trace" where
  "sample_trace es = \<lparr>tr_version = 1, tr_region_shift = 21, tr_granule_shift = 12, tr_events = 16, tr_contents = es,
     tr_event_capacity = 1024\<rparr>"

definition sample_world :: "bump memx_world" where
  "sample_world = empty_world\<lparr>heap := [16 \<mapsto> RawBlock 40960], ctx := (99, [16])\<rparr>"

lemma sample_trace_select [simp]:
  "tr_contents (sample_trace es) = es" "unat (tr_granule_shift (sample_trace es)) = 12"
  by (simp_all add: sample_trace_def)

lemma sample_length: "length sample_events = 3" "length overlap_events = 2"
  by (simp_all add: sample_events_def overlap_events_def)

lemma sample_world_ok: "world_ok (tc_allocator trace_desk) bump_live sample_world"
  using bump_contract by (auto simp: world_ok_def sample_world_def bump_live_def trace_desk_def)

lemma sample_mem: "length es \<le> 1024 \<Longrightarrow> trace_mem (sample_trace es) sample_world"
  by (simp add: trace_mem_def sample_trace_def sample_world_def)

lemma sample_granules:
  "event_granules 12 (sample_event s k 0x1000 0x2000 h) = [0x1000, 0x2000]"
  "event_granules 12 (sample_event s k 0x2000 0x1000 h) = [0x2000]"
  by (simp_all add: event_granules_def sample_event_def upt_conv_Cons)

lemma sample_select [simp]:
  "ev_sequence (sample_event s k a n h) = s" "ev_operation (sample_event s k a n h) = k"
  "ev_address (sample_event s k a n h) = a" "ev_size (sample_event s k a n h) = n" "ev_handle (sample_event s k a n h) = h"
  by (simp_all add: sample_event_def)

lemma sample_wf: "trace_wf (sample_trace sample_events)" "trace_wf (sample_trace overlap_events)"
  by (simp_all add: trace_wf_def sample_trace_def sample_events_def overlap_events_def event_wf_def range_wf_def
      MEMX_TRACE_FORMAT_VERSION_def trace_operations MEMX_HANDLE_INVALID_def)

lemma sample_thread [simp]: "ev_thread_id (sample_event s k a n h) = 3"
  by (simp add: sample_event_def)

lemma sample_replay:
  "replay_accepts 12 sample_events" "replay_maps 12 overlap_events Map.empty = [[0x1000 \<mapsto> (7, False), 0x2000 \<mapsto> (7, False)]]"
  "inserted 12 sample_events = 2" "inserted 12 overlap_events = 3"
  "replay_maps 12 sample_events Map.empty
    = [[0x1000 \<mapsto> (7, False), 0x2000 \<mapsto> (7, False)], [0x1000 \<mapsto> (7, False), 0x2000 \<mapsto> (7, False)], Map.empty]"
proof -
  have m: "(0x2011 :: u64) AND NOT (mask 12) = 0x2000" by (simp add: mask_eq_exp_minus_1)
  have i: "replay_event 12 (sample_event 1 MEMX_TRACE_INSERT 0x1000 0x2000 7) Map.empty
      = Some [0x1000 \<mapsto> (7, False), 0x2000 \<mapsto> (7, False)]"
    by (auto simp: replay_event_def sample_granules Let_def fun_eq_iff)
  have l: "replay_event 12 (sample_event 2 MEMX_TRACE_LOOKUP 0x2011 0 7) [0x1000 \<mapsto> (7, False), 0x2000 \<mapsto> (7, False)]
      = Some [0x1000 \<mapsto> (7, False), 0x2000 \<mapsto> (7, False)]"
    unfolding replay_event_def Let_def sample_select m by (simp add: trace_operations)
  have r: "replay_event 12 (sample_event 5 MEMX_TRACE_REMOVE 0x1000 0x2000 7) [0x1000 \<mapsto> (7, False), 0x2000 \<mapsto> (7, False)]
      = Some Map.empty"
    unfolding replay_event_def Let_def sample_select sample_granules by (auto simp: trace_operations fun_eq_iff)
  have n: "replay_event 12 (sample_event 2 MEMX_TRACE_INSERT 0x2000 0x1000 8) [0x1000 \<mapsto> (7, False), 0x2000 \<mapsto> (7, False)]
      = None"
    unfolding replay_event_def Let_def sample_select sample_granules by (simp add: trace_operations)
  show "replay_maps 12 sample_events Map.empty
    = [[0x1000 \<mapsto> (7, False), 0x2000 \<mapsto> (7, False)], [0x1000 \<mapsto> (7, False), 0x2000 \<mapsto> (7, False)], Map.empty]"
    unfolding sample_events_def by (simp add: i l r)
  show "replay_accepts 12 sample_events" unfolding replay_accepts_def sample_events_def by (simp add: i l r)
  show "replay_maps 12 overlap_events Map.empty = [[0x1000 \<mapsto> (7, False), 0x2000 \<mapsto> (7, False)]]"
    unfolding overlap_events_def by (simp add: i n)
  show "inserted 12 sample_events = 2" "inserted 12 overlap_events = 3"
    by (simp_all add: sample_events_def overlap_events_def event_inserts_def trace_operations)
qed

section \<open>Validation\<close>

text \<open>C18: the lifecycle validator answers what a replay over a map from granules to handles answers: a
  structurally bad trace is a semantic error, more than \<open>2 ^ 26\<close> inserted granules a memory error,
  and otherwise, unless \<^verbatim>\<open>calloc\<close> refuses, it accepts exactly the traces the replay accepts and names
  the first event the replay refuses.  The heap is left as it was.\<close>

theorem memx_trace_validate_lifecycle_correct:
  fixes t defines "g \<equiv> unat (tr_granule_shift t)" and "es \<equiv> tr_contents t"
  assumes "world_ok (tc_allocator L) live w" and "length es < 2 ^ 64"
  shows "\<exists>st i w'. memx_trace_validate_lifecycle L (Some t) w = Some (st, i, w') \<and> heap w' = heap w
    \<and> (if \<not> trace_wf t then st = MEMX_TRACE_ERROR_SEMANTIC
       else if 2 ^ 26 < inserted g es then st = MEMX_TRACE_ERROR_MEMORY
       else st = MEMX_TRACE_ERROR_MEMORY \<and> (\<exists>n w2. c_malloc (tc_allocator L) n w = Some (0, w2))
         \<or> st = (if replay_accepts g es then MEMX_TRACE_OK else MEMX_TRACE_ERROR_SEMANTIC)
           \<and> i = (if replay_accepts g es then 0 else of_nat (length (replay_maps g es Map.empty))))"
proof -
  obtain st i w' where v: "memx_trace_validate_lifecycle L (Some t) w = Some (st, i, w')" "heap w' = heap w"
    "if fst (memx_trace_validate (Some t)) \<noteq> MEMX_TRACE_OK then (st, i) = memx_trace_validate (Some t)
       else if 2 ^ 26 < inserted g es then st = MEMX_TRACE_ERROR_MEMORY \<and> i = 0
       else (st, i) = replay_result g 0 es Map.empty
         \<or> st = MEMX_TRACE_ERROR_MEMORY \<and> i = 0 \<and> (\<exists>n w2. c_malloc (tc_allocator L) n w = Some (0, w2))"
    using validate_lifecycle_ok [OF assms(3), of t] unfolding g_def es_def by blast
  note X = trace_wf_exact [OF assms(4) [unfolded es_def]]
  show ?thesis
  proof (intro exI conjI)
    show "if \<not> trace_wf t then st = MEMX_TRACE_ERROR_SEMANTIC
       else if 2 ^ 26 < inserted g es then st = MEMX_TRACE_ERROR_MEMORY
       else st = MEMX_TRACE_ERROR_MEMORY \<and> (\<exists>n w2. c_malloc (tc_allocator L) n w = Some (0, w2))
         \<or> st = (if replay_accepts g es then MEMX_TRACE_OK else MEMX_TRACE_ERROR_SEMANTIC)
           \<and> i = (if replay_accepts g es then 0 else of_nat (length (replay_maps g es Map.empty)))"
    proof (cases "trace_wf t")
      case False
      then have r: "(st, i) = memx_trace_validate (Some t)" "fst (memx_trace_validate (Some t)) = MEMX_TRACE_ERROR_SEMANTIC"
        using v(3) X by simp_all
      have "st = MEMX_TRACE_ERROR_SEMANTIC" using r(2) unfolding r(1) [symmetric] by simp
      then show ?thesis using False by simp
    next
      case True
      then show ?thesis using v(3) X(1)
        by (auto simp: replay_result_def replay_accepts_def Let_def split: if_splits)
    qed
  qed (rule v)+
qed

theorem memx_trace_validate_lifecycle_correct_witness:
  "\<exists>w' w2. memx_trace_validate_lifecycle trace_desk (Some (sample_trace sample_events)) empty_world
      = Some (MEMX_TRACE_OK, 0, w')
    \<and> memx_trace_validate_lifecycle trace_desk (Some (sample_trace overlap_events)) empty_world
      = Some (MEMX_TRACE_ERROR_SEMANTIC, 1, w2)"
proof -
  have n: "\<not> (\<exists>n w2. c_malloc (tc_allocator trace_desk) n empty_world = Some (0, w2))"
    by (simp add: c_malloc_def call_allocate_def trace_desk_def bump_allocator_def bump_allocate_def empty_world_def)
  have "\<exists>w'. memx_trace_validate_lifecycle trace_desk (Some (sample_trace sample_events)) empty_world
      = Some (MEMX_TRACE_OK, 0, w')"
    using memx_trace_validate_lifecycle_correct [OF trace_desk_world, of "sample_trace sample_events"]
      sample_wf(1) sample_replay n by (auto simp: sample_length)
  moreover have "\<exists>w'. memx_trace_validate_lifecycle trace_desk (Some (sample_trace overlap_events)) empty_world
      = Some (MEMX_TRACE_ERROR_SEMANTIC, 1, w')"
    using memx_trace_validate_lifecycle_correct [OF trace_desk_world, of "sample_trace overlap_events"]
      sample_wf(2) sample_replay n by (auto simp: sample_length replay_accepts_def)
  ultimately show ?thesis by blast
qed

section \<open>Files\<close>

text \<open>C22: loading a file of any content returns.  If it fails, the destination and the heap are what they
  were; if it succeeds, the destination holds a valid trace whose replay is accepted, and its old
  event array is released.\<close>

theorem memx_trace_read_file_transactional:
  assumes "world_ok (tc_allocator L) live w" and "realloc_contract L live" and "trace_mem out w"
  shows "\<exists>st out' line w'. memx_trace_read_file L fopen (Some path) (Some out) w = Some (st, Some out', line, w')
    \<and> (if st = MEMX_TRACE_OK
       then trace_wf out' \<and> replay_accepts (unat (tr_granule_shift out')) (tr_contents out')
         \<and> trace_mem out' w' \<and> without out' w' = without out w
       else out' = out \<and> heap w' = heap w)"
  using read_file_ok [OF assms] by blast

theorem memx_trace_read_file_transactional_witness:
  "\<exists>st out' line w'. memx_trace_read_file trace_desk
      (\<lambda>p. Some \<lparr>fi_content = ''MEMX_TRACE garbage'', fi_error = False, fi_close_ok = True\<rparr>) (Some ''x'')
      (Some (sample_trace sample_events)) sample_world = Some (st, Some out', line, w')
    \<and> (st \<noteq> MEMX_TRACE_OK \<longrightarrow> out' = sample_trace sample_events \<and> heap w' = heap sample_world)"
proof -
  have "length sample_events \<le> 1024" by (simp add: sample_events_def)
  from memx_trace_read_file_transactional [OF sample_world_ok trace_desk_realloc sample_mem [OF this],
      of "\<lambda>p. Some \<lparr>fi_content = ''MEMX_TRACE garbage'', fi_error = False, fi_close_ok = True\<rparr>" "''x''"]
  show ?thesis by (auto split: if_splits)
qed

text \<open>C21: a file that the writer completed loads as the trace it was written from, unless the loader
  runs out of memory: the header and every event are the same.\<close>

theorem memx_trace_write_read_roundtrip:
  assumes "world_ok (tc_allocator L) live w" and "trace_mem t w"
    and "memx_trace_write_file L fout (Some path) (Some t) w = Some (MEMX_TRACE_OK, Some content, w1)"
    and "world_ok (tc_allocator L) live w2" and "realloc_contract L live" and "trace_mem out w2"
    and "fin path = Some \<lparr>fi_content = content, fi_error = False, fi_close_ok = True\<rparr>"
  shows "\<exists>st out' line w'. memx_trace_read_file L fin (Some path) (Some out) w2 = Some (st, Some out', line, w')
    \<and> (st = MEMX_TRACE_OK \<and> same_header t out' \<and> tr_contents out' = tr_contents t
      \<or> st = MEMX_TRACE_ERROR_MEMORY \<and> out' = out)"
  using write_file_ok [OF assms(1-3)] roundtrip_ok [OF assms(4-6)] assms(7) by blast

theorem memx_trace_write_read_roundtrip_witness:
  "\<exists>content w1 st out' line w'.
    memx_trace_write_file trace_desk (\<lambda>p. Some \<lparr>fo_print_ok = \<lambda>i. True, fo_close_ok = True\<rparr>) (Some ''x'')
      (Some (sample_trace sample_events)) sample_world = Some (MEMX_TRACE_OK, Some content, w1)
    \<and> memx_trace_read_file trace_desk
      (\<lambda>p. Some \<lparr>fi_content = content, fi_error = False, fi_close_ok = True\<rparr>) (Some ''x'')
      (Some (sample_trace [])) sample_world = Some (st, Some out', line, w')
    \<and> (st = MEMX_TRACE_OK \<longrightarrow> tr_contents out' = sample_events)"
proof -
  have "\<exists>w1. memx_trace_validate_lifecycle trace_desk (Some (sample_trace sample_events)) sample_world = Some (MEMX_TRACE_OK, 0, w1)"
  proof -
    have n: "\<not> (\<exists>n w2. c_malloc (tc_allocator trace_desk) n sample_world = Some (0, w2))"
      by (simp add: c_malloc_def call_allocate_def trace_desk_def bump_allocator_def bump_allocate_def sample_world_def)
    have "length (tr_contents (sample_trace sample_events)) < 2 ^ 64" by (simp add: sample_length)
    from trace_wf_exact [OF this] have wf: "fst (memx_trace_validate (Some (sample_trace sample_events))) = MEMX_TRACE_OK"
      using sample_wf(1) by simp
    show ?thesis
      using validate_lifecycle_ok [OF sample_world_ok, of "sample_trace sample_events"] wf n
      by (auto simp: replay_result_def sample_replay sample_length)
  qed
  then obtain content w1 where c: "memx_trace_write_file trace_desk (\<lambda>p. Some \<lparr>fo_print_ok = \<lambda>i. True, fo_close_ok = True\<rparr>)
      (Some ''x'') (Some (sample_trace sample_events)) sample_world = Some (MEMX_TRACE_OK, Some content, w1)"
    by (auto simp: memx_trace_write_file_def sample_events_def Let_def)
  have l: "length sample_events \<le> 1024" "length [] \<le> 1024" by (simp_all add: sample_events_def)
  from memx_trace_write_read_roundtrip [OF sample_world_ok sample_mem [OF l(1)] c sample_world_ok trace_desk_realloc
      sample_mem [OF l(2)], of "\<lambda>p. Some \<lparr>fi_content = content, fi_error = False, fi_close_ok = True\<rparr>"]
  have "\<exists>st out' line w'. memx_trace_read_file trace_desk
      (\<lambda>p. Some \<lparr>fi_content = content, fi_error = False, fi_close_ok = True\<rparr>) (Some ''x'')
      (Some (sample_trace [])) sample_world = Some (st, Some out', line, w')
    \<and> (st = MEMX_TRACE_OK \<longrightarrow> tr_contents out' = sample_events)" by auto
  with c show ?thesis by blast
qed

text \<open>Splitting a line stops at six fields: the array is full before the loop looks for more, so the text of
  an event followed by a comma and anything else gives the fields of the event.\<close>

theorem memx_trace_extra_columns_ignored:
  assumes "event_wf g e"
  shows "parse_fields (split_csv (event_text e @ CHR '','' # extra) 6) = Some e"
proof -
  have six: "6 = Suc (Suc (Suc (Suc (Suc (Suc 0)))))" by simp
  note O = parse_operation_name(2) [OF assms]
  have e: "event_text e @ CHR '','' # extra = print_base 10 (unat (ev_sequence e)) @ CHR '','' #
     print_base 10 (unat (ev_thread_id e)) @ CHR '','' # memx_trace_operation_name (ev_operation e) @ CHR '','' #
     (''0x'' @ print_base 16 (unat (ev_address e))) @ CHR '','' # print_base 10 (unat (ev_size e)) @ CHR '','' #
     (''0x'' @ print_base 16 (unat (ev_handle e))) @ CHR '','' # extra"
    by (simp add: event_text_def)
  let ?columns = "[print_base 10 (unat (ev_sequence e)), print_base 10 (unat (ev_thread_id e)),
     memx_trace_operation_name (ev_operation e), ''0x'' @ print_base 16 (unat (ev_address e)),
     print_base 10 (unat (ev_size e)), ''0x'' @ print_base 16 (unat (ev_handle e))]"
  have "split_csv (event_text e @ CHR '','' # extra) 6 = ?columns"
    unfolding e six split_csv_field(1) [OF plain_digits(1)] split_csv_field(1) [OF O]
      split_csv_field(1) [OF plain_digits(3)] split_csv.simps(1) ..
  moreover have "split_csv (event_text e) 6 = ?columns"
    unfolding event_text_def six split_csv_field(1) [OF plain_digits(1)] split_csv_field(1) [OF O]
      split_csv_field(1) [OF plain_digits(3)] split_csv_field(2) [OF plain_digits(3)] ..
  ultimately show ?thesis using parse_event_text [OF assms] by simp
qed

theorem memx_trace_extra_columns_ignored_witness:
  "parse_fields (split_csv (event_text (sample_event 9 MEMX_TRACE_LOOKUP 0x2011 0 7) @ '',8,9'') 6)
     = Some (sample_event 9 MEMX_TRACE_LOOKUP 0x2011 0 7)"
  by (rule memx_trace_extra_columns_ignored [where g = 12 and extra = "''8,9''"])
    (simp add: event_wf_def trace_operations)

section \<open>Statistics\<close>

text \<open>C23: the statistics of a trace: when they are reported, every operation is counted, the number of
  threads is exact, the live bytes are the bytes of the granules mapped at the end and at the peak of
  the replay, with no sum that wraps and no clamp that acts, and the address interval is the least
  that holds every reference.\<close>

theorem memx_trace_calculate_stats_exact:
  assumes "world_ok (tc_allocator L) live w" and "length (tr_contents t) < 2 ^ 64"
  shows "\<exists>st s w'. memx_trace_calculate_stats L (Some t) True w = Some (st, s, w') \<and> heap w' = heap w
    \<and> (st = MEMX_TRACE_OK \<longrightarrow> (\<exists>r. s = Some r \<and> stats_exact (unat (tr_granule_shift t)) (tr_contents t) r))"
  using calculate_stats_ok [OF assms] by blast

theorem memx_trace_calculate_stats_exact_witness:
  "\<exists>st s w'. memx_trace_calculate_stats trace_desk (Some (sample_trace sample_events)) True empty_world = Some (st, s, w')
    \<and> (st = MEMX_TRACE_OK \<longrightarrow> (\<exists>r. s = Some r \<and> stats_exact 12 sample_events r))"
proof -
  have "length (tr_contents (sample_trace sample_events)) < 2 ^ 64" by (simp add: sample_length)
  from memx_trace_calculate_stats_exact [OF trace_desk_world this] show ?thesis
    unfolding sample_trace_select by blast
qed

end
