(* ===== verification/Memx_Replay.thy ===== *)
theory Memx_Replay
  imports Memx_TraceProperties Memx_Interface
begin

text \<open>
  Trace replay, \<^verbatim>\<open>bench/memx_trace_replay.c\<close>: a trace the validators accept is replayed against an
  address index in bounded and in sparse mode, every lookup compared with the handle the trace
  records.  The printed report is left out (it holds floating-point rates); the exit code, the
  counters it would print and the memory are modelled.
\<close>

section \<open>The tool\<close>

definition EXIT_SUCCESS :: u32 where "EXIT_SUCCESS = 0"
definition EXIT_FAILURE :: u32 where "EXIT_FAILURE = 1"

text \<open>A run ends the process with an exit code, or goes on.\<close>

datatype 'a run = Exited u32 | Returned 'a

record replay_result_t =
  rr_applied_events :: u64
  rr_lookup_count :: u64
  rr_lookup_failures :: u64
  rr_mutation_failures :: u64
  rr_lookup_nanoseconds :: u64
  rr_checksum :: u64
  rr_index_stats :: memx_stats
  rr_peak_page_accounted_bytes :: u64

definition replay_result_zero :: replay_result_t where
  "replay_result_zero = \<lparr>rr_applied_events = 0, rr_lookup_count = 0, rr_lookup_failures = 0,
     rr_mutation_failures = 0, rr_lookup_nanoseconds = 0, rr_checksum = 0,
     rr_index_stats = memx_stats_zero, rr_peak_page_accounted_bytes = 0\<rparr>"

text \<open>\<open>clk n\<close> is what the \<open>n\<close>-th \<^verbatim>\<open>clock_gettime\<close> stores, seconds and nanoseconds, or its failure.\<close>

type_synonym replay_clock = "nat \<Rightarrow> (u64 \<times> u64) option"

definition nanoseconds :: "replay_clock \<Rightarrow> nat \<Rightarrow> u64 run" where
  "nanoseconds clk n =
     (case clk n of
        None \<Rightarrow> Exited EXIT_FAILURE
      | Some (tv_sec, tv_nsec) \<Rightarrow> Returned (tv_sec * 1000000000 + tv_nsec))"

text \<open>The result is the base and the size of the interval, or 0.\<close>

definition align_coverage :: "memx_trace \<Rightarrow> memx_trace_stats \<Rightarrow> (u64 \<times> u64) option" where
  "align_coverage t s =
     (let region_size = push_bit (unat (tr_region_shift t)) (1 :: u64);
          mask' = region_size - 1;
          base = ts_minimum_address s AND NOT mask'
      in if ts_maximum_address_exclusive s = 0 then None
         else if UINTPTR_MAX - mask' < ts_maximum_address_exclusive s then None
         else let high = (ts_maximum_address_exclusive s + mask') AND NOT mask'
              in if high \<le> base \<or> SIZE_MAX < high - base then None
                 else Some (base, high - base))"

definition count_lookup :: "u64 \<Rightarrow> u64 \<Rightarrow> memx_trace_event \<Rightarrow> replay_result_t \<Rightarrow> replay_result_t" where
  "count_lookup elapsed handle e r =
     (let r = r\<lparr>rr_lookup_nanoseconds := rr_lookup_nanoseconds r + elapsed,
                rr_lookup_count := rr_lookup_count r + 1,
                rr_checksum := rr_checksum r + handle\<rparr>;
          r = r\<lparr>rr_checksum := rr_checksum r XOR push_bit 9 (rr_checksum r)\<rparr>
      in if handle \<noteq> ev_handle e then r\<lparr>rr_lookup_failures := rr_lookup_failures r + 1\<rparr> else r)"

text \<open>The \<^verbatim>\<open>switch\<close> of the event loop; \<open>n\<close> counts the clock readings.\<close>

definition replay_switch ::
  "replay_clock \<Rightarrow> memx_trace_event \<Rightarrow> 'c index_state \<Rightarrow> replay_result_t \<Rightarrow> nat
     \<Rightarrow> (memx_status \<times> 'c index_state \<times> replay_result_t \<times> nat) run option" where
  "replay_switch clk e s r n =
     (if ev_operation e = MEMX_TRACE_INSERT
      then do {
        (status, s) \<leftarrow> index_insert (ev_address e) (ev_size e) (ev_handle e) s;
        Some (Returned (status, s, r, n))
      }
      else if ev_operation e = MEMX_TRACE_LOOKUP
      then (case nanoseconds clk n of
              Exited code \<Rightarrow> Some (Exited code)
            | Returned begin' \<Rightarrow> do {
                handle \<leftarrow> index_look s (ev_address e);
                (case nanoseconds clk (n + 1) of
                   Exited code \<Rightarrow> Some (Exited code)
                 | Returned end' \<Rightarrow>
                     Some (Returned (MEMX_OK, s, count_lookup (end' - begin') handle e r, n + 2)))
              })
      else if ev_operation e = MEMX_TRACE_RETIRE then Some (Returned (MEMX_OK, s, r, n))
      else if ev_operation e = MEMX_TRACE_REMOVE
      then do {
        (status, s) \<leftarrow> index_remove (ev_address e) (ev_size e) (ev_handle e) s;
        Some (Returned (status, s, r, n))
      }
      else if ev_operation e = MEMX_TRACE_QUIESCENT then Some (Returned (MEMX_OK, s, r, n))
      else Some (Returned (MEMX_ERROR_INVALID_ARGUMENT, s, r, n)))"

definition replay_step ::
  "replay_clock \<Rightarrow> u64 \<Rightarrow> memx_trace_event \<Rightarrow> 'c index_state \<Rightarrow> replay_result_t \<Rightarrow> nat
     \<Rightarrow> ('c index_state \<times> replay_result_t \<times> nat) run option" where
  "replay_step clk page_result e s r n = do {
     switch \<leftarrow> replay_switch clk e s (r\<lparr>rr_applied_events := rr_applied_events r + 1\<rparr>) n;
     (case switch of
        Exited code \<Rightarrow> Some (Exited code)
      | Returned (status, s, r, n) \<Rightarrow>
          (let r = (if status \<noteq> MEMX_OK then r\<lparr>rr_mutation_failures := rr_mutation_failures r + 1\<rparr> else r)
           in if ev_operation e = MEMX_TRACE_INSERT \<or> ev_operation e = MEMX_TRACE_REMOVE
              then do {
                current \<leftarrow> memx_index_stats page_result (Some (fst s)) True;
                Some (Returned (s,
                  if rr_peak_page_accounted_bytes r < st_page_accounted_bytes current
                  then r\<lparr>rr_peak_page_accounted_bytes := st_page_accounted_bytes current\<rparr> else r, n))
              }
              else Some (Returned (s, r, n))))
   }"

fun replay_loop ::
  "replay_clock \<Rightarrow> u64 \<Rightarrow> memx_trace_event list \<Rightarrow> 'c index_state \<Rightarrow> replay_result_t \<Rightarrow> nat
     \<Rightarrow> ('c index_state \<times> replay_result_t \<times> nat) run option" where
  "replay_loop clk page_result [] s r n = Some (Returned (s, r, n))"
| "replay_loop clk page_result (e # es) s r n = do {
     step \<leftarrow> replay_step clk page_result e s r n;
     (case step of
        Exited code \<Rightarrow> Some (Exited code)
      | Returned (s, r, n) \<Rightarrow> replay_loop clk page_result es s r n)
   }"

definition replay_config :: "memx_trace \<Rightarrow> u32 \<Rightarrow> u64 \<Rightarrow> u64 \<Rightarrow> 'c memx_config" where
  "replay_config t mode bounded_base bounded_size =
     (let cfg = memx_config_default\<lparr>directory_mode := mode, region_shift := tr_region_shift t,
                                    granule_shift := tr_granule_shift t\<rparr>
      in if mode = MEMX_DIRECTORY_BOUNDED
         then cfg\<lparr>base_address := bounded_base, managed_size := bounded_size\<rparr>
         else cfg\<lparr>base_address := 0, managed_size := 0, address_bits := 48\<rparr>)"

text \<open>
  What the tool calls: \<^verbatim>\<open>malloc\<close>, \<^verbatim>\<open>free\<close> and \<^verbatim>\<open>realloc\<close>, the clock, the answer of
  \<^verbatim>\<open>sysconf(_SC_PAGESIZE)\<close> and \<^verbatim>\<open>munmap\<close>.
\<close>

record 'c replay_host =
  rh_libc :: "'c libc"
  rh_realloc :: "'c \<Rightarrow> u64 \<Rightarrow> u64 \<Rightarrow> u64 \<times> 'c"
  rh_clock :: replay_clock
  rh_page_result :: u64
  rh_munmap :: "'c \<Rightarrow> u64 \<Rightarrow> u64 \<Rightarrow> 'c"

definition replay_allocator :: "'c replay_host \<Rightarrow> 'c memx_allocator" where
  "replay_allocator R = \<lparr>allocate = Some (libc_malloc (rh_libc R)), deallocate = Some (libc_free (rh_libc R))\<rparr>"

definition replay_libc :: "'c replay_host \<Rightarrow> 'c trace_libc" where
  "replay_libc R = \<lparr>tc_allocator = replay_allocator R, tc_realloc = rh_realloc R\<rparr>"

text \<open>The result is the C result, \<^verbatim>\<open>*result\<close>, the clock and the world.\<close>

definition replay ::
  "'c replay_host \<Rightarrow> memx_trace \<Rightarrow> u32 \<Rightarrow> u64 \<Rightarrow> u64 \<Rightarrow> nat \<Rightarrow> 'c memx_world
     \<Rightarrow> (bool \<times> replay_result_t \<times> nat \<times> 'c memx_world) run option" where
  "replay R t mode bounded_base bounded_size n w = do {
     (status, index, w) \<leftarrow> memx_index_create (rh_libc R)
        (Some (replay_config t mode bounded_base bounded_size)) True w;
     if status \<noteq> MEMX_OK then Some (Returned (False, replay_result_zero, n, w))
     else do {
       ix \<leftarrow> index;
       loop \<leftarrow> replay_loop (rh_clock R) (rh_page_result R) (tr_contents t) (ix, w) replay_result_zero n;
       (case loop of
          Exited code \<Rightarrow> Some (Exited code)
        | Returned ((ix, w), r, n) \<Rightarrow> do {
            final \<leftarrow> memx_index_stats (rh_page_result R) (Some ix) True;
            w \<leftarrow> memx_index_destroy (rh_munmap R) (Some ix) w;
            Some (Returned (True, r\<lparr>rr_index_stats := final\<rparr>, n, w))
          })
     }
   }"

text \<open>\<^verbatim>\<open>main\<close> after \<^verbatim>\<open>memx_trace_read_file\<close>: both replays, the release of the trace and the exit code.\<close>

definition replay_both ::
  "'c replay_host \<Rightarrow> memx_trace \<Rightarrow> u64 \<Rightarrow> u64 \<Rightarrow> 'c memx_world \<Rightarrow> (u32 \<times> 'c memx_world) run option" where
  "replay_both R t base sz w = do {
     run \<leftarrow> replay R t MEMX_DIRECTORY_BOUNDED base sz 0 w;
     (case run of
        Exited code \<Rightarrow> Some (Exited code)
      | Returned (done', bounded', n, w) \<Rightarrow>
          if \<not> done' then do {
            (_, w) \<leftarrow> memx_trace_destroy (replay_libc R) (Some t) w;
            Some (Returned (EXIT_FAILURE, w))
          }
          else do {
            run \<leftarrow> replay R t MEMX_DIRECTORY_SPARSE base sz n w;
            (case run of
               Exited code \<Rightarrow> Some (Exited code)
             | Returned (done', sparse', n, w) \<Rightarrow> do {
                 (_, w) \<leftarrow> memx_trace_destroy (replay_libc R) (Some t) w;
                 Some (Returned
                   (if done' \<and> rr_lookup_failures bounded' = 0 \<and> rr_lookup_failures sparse' = 0
                       \<and> rr_mutation_failures bounded' = 0 \<and> rr_mutation_failures sparse' = 0
                    then EXIT_SUCCESS else EXIT_FAILURE, w))
               })
          })
   }"

definition replay_main ::
  "'c replay_host \<Rightarrow> (string \<Rightarrow> trace_input option) \<Rightarrow> string list \<Rightarrow> 'c memx_world
     \<Rightarrow> (u32 \<times> 'c memx_world) run option" where
  "replay_main R fopen argv w =
     (if length argv \<noteq> 2 then Some (Returned (EXIT_FAILURE, w))
      else do {
        (status, out, _, w) \<leftarrow> memx_trace_read_file (replay_libc R) fopen (Some (argv ! 1)) (Some initial_trace) w;
        if status \<noteq> MEMX_TRACE_OK then Some (Returned (EXIT_FAILURE, w))
        else do {
          t \<leftarrow> out;
          (status, stats, w) \<leftarrow> memx_trace_calculate_stats (replay_libc R) (Some t) True w;
          (case (if status \<noteq> MEMX_TRACE_OK then None else Option.bind stats (align_coverage t)) of
             None \<Rightarrow> do {
               (_, w) \<leftarrow> memx_trace_destroy (replay_libc R) (Some t) w;
               Some (Returned (EXIT_FAILURE, w))
             }
           | Some (base, sz) \<Rightarrow> replay_both R t base sz w)
        }
      })"

end
