(* ===== verification/Memx_ReplayRun.thy ===== *)
theory Memx_ReplayRun
  imports Memx_Replay
begin

text \<open>
  The replay tool is correct: an index that is replayed an accepted trace answers every lookup as
  the oracle of \<open>Memx_TraceLife\<close> does, until memory runs out; and the tool returns with the heap it
  started from, whatever the file holds.
\<close>

section \<open>The oracle as an address map\<close>

definition oracle_view :: "nat \<Rightarrow> (u64 \<rightharpoonup> u64 \<times> bool) \<Rightarrow> u64 \<Rightarrow> u64" where
  "oracle_view g M a = (case M (a AND NOT (mask g)) of None \<Rightarrow> MEMX_HANDLE_INVALID | Some (h, r) \<Rightarrow> h)"

lemma oracle_view_empty [simp]: "oracle_view g Map.empty = (\<lambda>a. MEMX_HANDLE_INVALID)"
  by (simp add: oracle_view_def fun_eq_iff)

lemma granule_in_range:
  assumes "g < 64" "range_wf g e"
  shows "a AND NOT (mask g) \<in> set (event_granules g e) \<longleftrightarrow> in_range (ev_address e) (ev_size e) a"
proof -
  note W = assms(2) [unfolded range_wf_def]
  obtain k where k: "unat (ev_address e) = 2 ^ g * k" using W by (auto elim: dvdE)
  obtain m where m: "unat (ev_size e) = 2 ^ g * m" using W by (auto elim: dvdE)
  let ?q = "unat a div 2 ^ g"
  have u: "unat (a AND NOT (mask g)) = ?q * 2 ^ g" by (rule unat_and_not_mask)
  have s: "unat (ev_address e) + unat (ev_size e) = (k + m) * 2 ^ g" unfolding k m by (simp add: algebra_simps)
  have k': "unat (ev_address e) = k * 2 ^ g" unfolding k by simp
  have lo: "k * 2 ^ g \<le> ?q * 2 ^ g \<longleftrightarrow> k * 2 ^ g \<le> unat a" by (simp add: less_eq_div_iff_mult_less_eq)
  have hi: "?q * 2 ^ g < (k + m) * 2 ^ g \<longleftrightarrow> unat a < (k + m) * 2 ^ g" by (simp add: div_less_iff_less_mult)
  have d: "2 ^ g dvd ?q * 2 ^ g" by simp
  show ?thesis unfolding event_granules_set [OF assms] in_range_def u s unfolding k' lo hi using d by blast
qed

lemma oracle_put:
  assumes "g < 64" "range_wf g e"
  shows "oracle_view g (\<lambda>x. if x \<in> set (event_granules g e) then v else M x)
    = put (ev_address e) (ev_size e) (case v of None \<Rightarrow> MEMX_HANDLE_INVALID | Some (h, r) \<Rightarrow> h) (oracle_view g M)"
  using granule_in_range [OF assms] by (auto simp: oracle_view_def put_def fun_eq_iff)

lemma oracle_all:
  assumes "g < 64" "range_wf g e"
    and "\<forall>x \<in> set (event_granules g e). (case M x of None \<Rightarrow> MEMX_HANDLE_INVALID | Some (h, r) \<Rightarrow> h) = v"
  shows "all_in (ev_address e) (ev_size e) v (oracle_view g M)"
  unfolding all_in_def oracle_view_def using granule_in_range [OF assms(1,2)] assms(3) by blast

lemma oracle_retire:
  assumes "\<forall>x \<in> G. M x = Some (h, False)"
  shows "oracle_view g (\<lambda>x. if x \<in> G then Some (h, True) else M x) = oracle_view g M"
  using assms by (auto simp: oracle_view_def fun_eq_iff split: option.splits)

section \<open>What a replay counts\<close>

definition mutation :: "memx_trace_event \<Rightarrow> bool" where
  "mutation e \<longleftrightarrow> ev_operation e = MEMX_TRACE_INSERT \<or> ev_operation e = MEMX_TRACE_REMOVE"

text \<open>The calls a trace makes on the index.\<close>

fun trace_calls :: "memx_trace_event list \<Rightarrow> map_call list" where
  "trace_calls [] = []"
| "trace_calls (e # es) =
     (if ev_operation e = MEMX_TRACE_INSERT
      then Insert_Call (ev_address e) (ev_size e) (ev_handle e) # trace_calls es
      else if ev_operation e = MEMX_TRACE_REMOVE
      then Remove_Call (ev_address e) (ev_size e) (ev_handle e) # trace_calls es
      else trace_calls es)"

text \<open>The checksum of a trace whose lookups all answer the recorded handles.\<close>

fun trace_checksum :: "memx_trace_event list \<Rightarrow> u64 \<Rightarrow> u64" where
  "trace_checksum [] c = c"
| "trace_checksum (e # es) c =
     trace_checksum es (if ev_operation e = MEMX_TRACE_LOOKUP
       then (c + ev_handle e) XOR push_bit 9 (c + ev_handle e) else c)"

definition failures :: "memx_status list \<Rightarrow> nat" where
  "failures sts = length (filter (\<lambda>st. st \<noteq> MEMX_OK) sts)"

lemma failures_simps [simp]: "failures [] = 0" "failures (st # sts) = (if st = MEMX_OK then 0 else 1) + failures sts"
  by (simp_all add: failures_def)

lemma failures_0: "failures sts = 0 \<longleftrightarrow> (\<forall>st \<in> set sts. st = MEMX_OK)"
  by (induction sts) auto

definition clock_failed :: "replay_clock \<Rightarrow> bool" where
  "clock_failed clk \<longleftrightarrow> (\<exists>n. clk n = None)"

section \<open>Every replay returns\<close>

text \<open>One event: the state is the one the call leaves, and the counters are what they count.\<close>

definition event_done ::
  "memx_trace_event \<Rightarrow> memx_status \<Rightarrow> u64 \<Rightarrow> replay_result_t \<Rightarrow> replay_result_t \<Rightarrow> bool" where
  "event_done e st handle r r' \<longleftrightarrow>
     rr_applied_events r' = rr_applied_events r + 1
     \<and> rr_mutation_failures r' = rr_mutation_failures r + (if st = MEMX_OK then 0 else 1)
     \<and> (if ev_operation e = MEMX_TRACE_LOOKUP
        then rr_lookup_count r' = rr_lookup_count r + 1
          \<and> rr_lookup_failures r' = rr_lookup_failures r + (if handle = ev_handle e then 0 else 1)
          \<and> rr_checksum r' = (rr_checksum r + handle) XOR push_bit 9 (rr_checksum r + handle)
        else rr_lookup_count r' = rr_lookup_count r \<and> rr_lookup_failures r' = rr_lookup_failures r
          \<and> rr_checksum r' = rr_checksum r)"

definition event_call :: "memx_trace_event \<Rightarrow> 'c index_state \<Rightarrow> (memx_status \<times> 'c index_state) option" where
  "event_call e s =
     (if ev_operation e = MEMX_TRACE_INSERT then index_insert (ev_address e) (ev_size e) (ev_handle e) s
      else if ev_operation e = MEMX_TRACE_REMOVE then index_remove (ev_address e) (ev_size e) (ev_handle e) s
      else if MEMX_TRACE_QUIESCENT < ev_operation e then Some (MEMX_ERROR_INVALID_ARGUMENT, s)
      else Some (MEMX_OK, s))"

lemma operation_cases:
  fixes k :: memx_trace_operation
  obtains "k = MEMX_TRACE_INSERT" | "k = MEMX_TRACE_LOOKUP" | "k = MEMX_TRACE_RETIRE"
    | "k = MEMX_TRACE_REMOVE" | "k = MEMX_TRACE_QUIESCENT"
    | "MEMX_TRACE_QUIESCENT < k" "k \<notin> {MEMX_TRACE_INSERT, MEMX_TRACE_LOOKUP, MEMX_TRACE_RETIRE,
        MEMX_TRACE_REMOVE, MEMX_TRACE_QUIESCENT}"
proof -
  have "unat k \<le> 4 \<Longrightarrow> unat k = unat (0 :: u32) \<or> unat k = unat (1 :: u32) \<or> unat k = unat (2 :: u32)
    \<or> unat k = unat (3 :: u32) \<or> unat k = unat (4 :: u32)" by simp linarith
  then have "unat k \<le> 4 \<Longrightarrow> k \<in> {0, 1, 2, 3, 4}" unfolding word_unat_eq_iff [symmetric] by simp
  moreover have "MEMX_TRACE_QUIESCENT < k \<longleftrightarrow> \<not> unat k \<le> 4"
    by (simp add: trace_operations word_less_nat_alt not_le)
  moreover have "k \<in> {0, 1, 2, 3, 4} \<Longrightarrow> unat k \<le> 4" by auto
  ultimately show thesis using that unfolding trace_operations by blast
qed

lemma step_finish:
  obtains r' where "(let r = (if st \<noteq> MEMX_OK then r\<lparr>rr_mutation_failures := rr_mutation_failures r + 1\<rparr> else r)
           in if ev_operation e = MEMX_TRACE_INSERT \<or> ev_operation e = MEMX_TRACE_REMOVE
              then do {
                current \<leftarrow> memx_index_stats page_result (Some (fst s)) True;
                Some (Returned (s,
                  if rr_peak_page_accounted_bytes r < st_page_accounted_bytes current
                  then r\<lparr>rr_peak_page_accounted_bytes := st_page_accounted_bytes current\<rparr> else r, n))
              }
              else Some (Returned (s, r, n))) = Some (Returned (s, r', n))"
    "rr_applied_events r' = rr_applied_events r" "rr_lookup_count r' = rr_lookup_count r"
    "rr_lookup_failures r' = rr_lookup_failures r" "rr_checksum r' = rr_checksum r"
    "rr_mutation_failures r' = rr_mutation_failures r + (if st = MEMX_OK then 0 else 1)"
proof -
  obtain c where c: "memx_index_stats page_result (Some (fst s)) True = Some c"
    using memx_index_stats_total by blast
  let ?r = "if st \<noteq> MEMX_OK then r\<lparr>rr_mutation_failures := rr_mutation_failures r + 1\<rparr> else r"
  let ?p = "if rr_peak_page_accounted_bytes ?r < st_page_accounted_bytes c
      then ?r\<lparr>rr_peak_page_accounted_bytes := st_page_accounted_bytes c\<rparr> else ?r"
  show thesis
    by (rule that [of "if ev_operation e = MEMX_TRACE_INSERT \<or> ev_operation e = MEMX_TRACE_REMOVE then ?p else ?r"])
      (simp_all add: c Let_def)
qed

text \<open>The switch leaves the counters of the loop alone but for those of a lookup.\<close>

lemma switch_ok:
  assumes "adaptive_ok live fr s"
  obtains (clock) "replay_switch clk e s r n = Some (Exited EXIT_FAILURE)" "clock_failed clk"
    | (on) st s' r' n' where "replay_switch clk e s r n = Some (Returned (st, s', r', n'))"
      "event_call e s = Some (st, s')" "adaptive_ok live fr s'"
      "rr_applied_events r' = rr_applied_events r" "rr_mutation_failures r' = rr_mutation_failures r"
      "if ev_operation e = MEMX_TRACE_LOOKUP
        then rr_lookup_count r' = rr_lookup_count r + 1
          \<and> rr_lookup_failures r' = rr_lookup_failures r + (if adaptive_view s (ev_address e) = ev_handle e then 0 else 1)
          \<and> rr_checksum r' = (rr_checksum r + adaptive_view s (ev_address e))
              XOR push_bit 9 (rr_checksum r + adaptive_view s (ev_address e))
        else rr_lookup_count r' = rr_lookup_count r \<and> rr_lookup_failures r' = rr_lookup_failures r
          \<and> rr_checksum r' = rr_checksum r"
proof (cases "ev_operation e" rule: operation_cases)
  case 1
  obtain st s' where c: "index_insert (ev_address e) (ev_size e) (ev_handle e) s = Some (st, s')"
    using adaptive.ins_law [OF assms] by blast
  show thesis using c adaptive.ins_cases(1) [OF assms c]
    by (intro on [of st s' r n]) (simp_all add: replay_switch_def event_call_def 1 trace_operations)
next
  case 2
  note l = adaptive.look_view [OF assms, of "ev_address e"]
  show thesis
  proof (cases "clk n = None \<or> clk (n + 1) = None")
    case True
    then have "replay_switch clk e s r n = Some (Exited EXIT_FAILURE)"
      by (auto simp: replay_switch_def 2 operation_select nanoseconds_def l split: option.splits)
    then show thesis using True by (intro clock) (auto simp: clock_failed_def)
  next
    case False
    then obtain a b where ab: "nanoseconds clk n = Returned a" "nanoseconds clk (n + 1) = Returned b"
      by (auto simp: nanoseconds_def)
    let ?r = "count_lookup (b - a) (adaptive_view s (ev_address e)) e r"
    have "event_call e s = Some (MEMX_OK, s)" by (simp add: event_call_def 2 trace_operations)
    moreover have "replay_switch clk e s r n
        = Some (Returned (MEMX_OK, s, ?r, n + 2))"
      using ab by (simp add: replay_switch_def 2 trace_operations l)
    moreover have "rr_lookup_count ?r = rr_lookup_count r + 1"
        "rr_lookup_failures ?r = rr_lookup_failures r + (if adaptive_view s (ev_address e) = ev_handle e then 0 else 1)"
        "rr_checksum ?r = (rr_checksum r + adaptive_view s (ev_address e))
          XOR push_bit 9 (rr_checksum r + adaptive_view s (ev_address e))"
        "rr_applied_events ?r = rr_applied_events r" "rr_mutation_failures ?r = rr_mutation_failures r"
      by (simp_all add: count_lookup_def Let_def)
    ultimately show thesis using assms 2 by (intro on [of MEMX_OK s ?r "n + 2"]) simp_all
  qed
next
  case 4
  obtain st s' where c: "index_remove (ev_address e) (ev_size e) (ev_handle e) s = Some (st, s')"
    using adaptive.rmv_law [OF assms] by blast
  show thesis using c adaptive.rmv_cases(1) [OF assms c]
    by (intro on [of st s' r n]) (simp_all add: replay_switch_def event_call_def 4 trace_operations)
next
  case 3
  show thesis using assms
    by (intro on [of MEMX_OK s r n]) (simp_all add: replay_switch_def event_call_def 3 trace_operations)
next
  case 5
  show thesis using assms
    by (intro on [of MEMX_OK s r n]) (simp_all add: replay_switch_def event_call_def 5 trace_operations)
next
  case 6
  show thesis using assms 6
    by (intro on [of MEMX_ERROR_INVALID_ARGUMENT s r n]) (simp_all add: replay_switch_def event_call_def)
qed

lemma replay_step_ok:
  assumes "adaptive_ok live fr s"
  obtains (clock) "replay_step clk page_result e s r n = Some (Exited EXIT_FAILURE)" "clock_failed clk"
    | (on) st s' r' n' where "replay_step clk page_result e s r n = Some (Returned (s', r', n'))"
      "event_call e s = Some (st, s')" "adaptive_ok live fr s'"
      "event_done e st (adaptive_view s (ev_address e)) r r'"
  using assms
proof (cases rule: switch_ok [where clk = clk and e = e and n = n
      and r = "r\<lparr>rr_applied_events := rr_applied_events r + 1\<rparr>"])
  case clock
  then show thesis using that(1) by (simp add: replay_step_def)
next
  case (on st s' r1 n')
  obtain r' where f: "replay_step clk page_result e s r n = Some (Returned (s', r', n'))"
    "rr_applied_events r' = rr_applied_events r1" "rr_lookup_count r' = rr_lookup_count r1"
    "rr_lookup_failures r' = rr_lookup_failures r1" "rr_checksum r' = rr_checksum r1"
    "rr_mutation_failures r' = rr_mutation_failures r1 + (if st = MEMX_OK then 0 else 1)"
    by (rule step_finish [of st r1 e page_result s' n']) (simp add: replay_step_def on(1))
  have "event_done e st (adaptive_view s (ev_address e)) r r'"
    using on(4-6) f(2-6) by (simp add: event_done_def split: if_splits)
  then show thesis using that(2) f(1) on(2,3) by blast
qed

section \<open>The loop\<close>

text \<open>Whatever the trace, the loop ends, and the counters are exact.\<close>

definition loop_done ::
  "memx_trace_event list \<Rightarrow> memx_status list \<Rightarrow> replay_result_t \<Rightarrow> replay_result_t \<Rightarrow> bool" where
  "loop_done es sts r r' \<longleftrightarrow>
     rr_applied_events r' = rr_applied_events r + of_nat (length es)
     \<and> rr_lookup_count r' = rr_lookup_count r + count_op MEMX_TRACE_LOOKUP es
     \<and> rr_mutation_failures r' = rr_mutation_failures r + of_nat (failures sts)"

definition known_operation :: "memx_trace_event \<Rightarrow> bool" where
  "known_operation e \<longleftrightarrow> \<not> MEMX_TRACE_QUIESCENT < ev_operation e"

text \<open>One step of the calls a trace makes.\<close>

lemma calls_step:
  assumes "known_operation e" "event_call e s = Some (st, s')"
    and "run_calls index_insert index_remove (trace_calls es) s' = Some (sts, s2)"
  shows "run_calls index_insert index_remove (trace_calls (e # es)) s
      = Some (if mutation e then st # sts else sts, s2) \<and> (\<not> mutation e \<longrightarrow> st = MEMX_OK \<and> s' = s)"
proof (cases "ev_operation e" rule: operation_cases)
  case 6
  then show ?thesis using assms(1) by (simp add: known_operation_def)
qed (use assms(2,3) in \<open>simp_all add: event_call_def mutation_def trace_operations\<close>)

lemma replay_loop_ok:
  assumes "\<forall>e \<in> set es. known_operation e" "adaptive_ok live fr s"
  shows "(replay_loop clk page_result es s r n = Some (Exited EXIT_FAILURE) \<and> clock_failed clk)
    \<or> (\<exists>sts s' r' n'. replay_loop clk page_result es s r n = Some (Returned (s', r', n')) \<and> adaptive_ok live fr s'
        \<and> run_calls index_insert index_remove (trace_calls es) s = Some (sts, s') \<and> loop_done es sts r r')"
  using assms
proof (induction es arbitrary: s r n)
  case Nil
  then show ?case by (simp add: loop_done_def)
next
  case (Cons e es)
  from Cons.prems(2) show ?case
  proof (cases rule: replay_step_ok [where clk = clk and page_result = page_result and e = e and r = r and n = n])
    case clock
    then show ?thesis by simp
  next
    case (on st s1 r1 n1)
    note step = on
    have l: "replay_loop clk page_result (e # es) s r n = replay_loop clk page_result es s1 r1 n1"
      by (simp add: on(1))
    have k: "known_operation e" "\<forall>e \<in> set es. known_operation e" using Cons.prems(1) by simp_all
    from Cons.IH [OF k(2) step(3), of r1 n1] consider
        (x) "replay_loop clk page_result es s1 r1 n1 = Some (Exited EXIT_FAILURE)" "clock_failed clk"
      | (y) sts s' r' n' where "replay_loop clk page_result es s1 r1 n1 = Some (Returned (s', r', n'))"
          "adaptive_ok live fr s'" "run_calls index_insert index_remove (trace_calls es) s1 = Some (sts, s')"
          "loop_done es sts r1 r'" by blast
    then show ?thesis
    proof cases
      case x
      then show ?thesis unfolding l by blast
    next
      case a: y
      note c = calls_step [OF k(1) step(2) a(3)]
      have "loop_done (e # es) (if mutation e then st # sts else sts) r r'"
        using a(4) step(4) c by (auto simp: loop_done_def event_done_def split: if_splits)
      then show ?thesis unfolding l using a(1,2) c by blast
    qed
  qed
qed

text \<open>On an accepted trace whose ranges the index covers, it agrees with the oracle until a call runs
  out of memory.\<close>

lemma accepts_Cons:
  assumes "length (replay_maps g (e # es) M) = length (e # es)"
  obtains M' where "replay_event g e M = Some M'" "length (replay_maps g es M') = length es"
  using assms by (auto split: option.splits)

lemma accepted_mutation:
  assumes g: "g < 64" and wf: "event_wf g e" and ev: "replay_event g e M = Some M'"
    and ok: "adaptive_ok live fr s" and view: "adaptive_view s = oracle_view g M"
    and lg: "mutation e \<Longrightarrow> index_legal s (ev_address e) (ev_size e)"
    and c: "event_call e s = Some (st, s')"
  shows "st = MEMX_OK \<and> adaptive_view s' = oracle_view g M' \<or> mutation e \<and> st = MEMX_ERROR_OUT_OF_MEMORY"
    and "index_legal s' = index_legal s"
proof -
  let ?b = "ev_address e" and ?n = "ev_size e" and ?h = "ev_handle e" and ?G = "set (event_granules g e)"
  have "(st = MEMX_OK \<and> adaptive_view s' = oracle_view g M' \<or> mutation e \<and> st = MEMX_ERROR_OUT_OF_MEMORY)
    \<and> index_legal s' = index_legal s"
  proof (cases "ev_operation e" rule: operation_cases)
    case 1
    then have w: "range_wf g e" "?h \<noteq> MEMX_HANDLE_INVALID" and m: "mutation e" using wf
      by (simp_all add: event_wf_def mutation_def)
    have free: "\<forall>x \<in> ?G. M x = None" and M': "M' = (\<lambda>x. if x \<in> ?G then Some (?h, False) else M x)"
      using ev by (auto simp: replay_event_def 1 Let_def split: if_splits)
    have i: "index_insert ?b ?n ?h s = Some (st, s')" using c by (simp add: event_call_def 1)
    note I = adaptive.ins_cases [OF ok i]
    have "all_in ?b ?n MEMX_HANDLE_INVALID (adaptive_view s)"
      unfolding view using free by (intro oracle_all [OF g w(1)]) simp
    then have "st \<in> {MEMX_OK, MEMX_ERROR_OUT_OF_MEMORY}" using I(3) lg [OF m] w(2) by simp
    moreover have "oracle_view g M' = put ?b ?n ?h (adaptive_view s)"
      unfolding M' view using oracle_put [OF g w(1), of "Some (?h, False)" M] by simp
    ultimately show ?thesis using I(2,4) m by auto
  next
    case 4
    then have o: "ev_operation e \<noteq> MEMX_TRACE_INSERT" by (simp add: trace_operations)
    with 4 have w: "range_wf g e" "?h \<noteq> MEMX_HANDLE_INVALID" and m: "mutation e" using wf
      by (simp_all add: event_wf_def mutation_def)
    have held: "\<forall>x \<in> ?G. M x = Some (?h, False) \<or> M x = Some (?h, True)"
      and M': "M' = (\<lambda>x. if x \<in> ?G then None else M x)"
      using ev by (auto simp: replay_event_def 4 trace_operations Let_def split: if_splits)
    have i: "index_remove ?b ?n ?h s = Some (st, s')" using c by (simp add: event_call_def o 4 trace_operations)
    note I = adaptive.rmv_cases [OF ok i]
    have "all_in ?b ?n ?h (adaptive_view s)"
      unfolding view using held by (intro oracle_all [OF g w(1)]) (auto split: option.splits)
    then have "st \<in> {MEMX_OK, MEMX_ERROR_OUT_OF_MEMORY}" using I(3) lg [OF m] w(2) by simp
    moreover have "oracle_view g M' = put ?b ?n MEMX_HANDLE_INVALID (adaptive_view s)"
      unfolding M' view using oracle_put [OF g w(1), of None M] by simp
    ultimately show ?thesis using I(2,4) m by auto
  next
    case 2
    then have "st = MEMX_OK \<and> s' = s" using c by (simp add: event_call_def trace_operations)
    moreover have "M' = M" using ev by (auto simp: replay_event_def 2 trace_operations Let_def split: if_splits)
    ultimately show ?thesis using view by simp
  next
    case 3
    then have "st = MEMX_OK \<and> s' = s" using c by (simp add: event_call_def trace_operations)
    moreover have "\<forall>x \<in> ?G. M x = Some (?h, False)" "M' = (\<lambda>x. if x \<in> ?G then Some (?h, True) else M x)"
      using ev by (auto simp: replay_event_def 3 trace_operations Let_def split: if_splits)
    ultimately show ?thesis using view oracle_retire by simp
  next
    case 5
    then have "st = MEMX_OK \<and> s' = s" using c by (simp add: event_call_def trace_operations)
    moreover have "M' = M" using ev by (auto simp: replay_event_def 5 trace_operations Let_def split: if_splits)
    ultimately show ?thesis using view by simp
  next
    case 6
    then show ?thesis using ev by (simp add: replay_event_def Let_def)
  qed
  then show "st = MEMX_OK \<and> adaptive_view s' = oracle_view g M' \<or> mutation e \<and> st = MEMX_ERROR_OUT_OF_MEMORY"
    "index_legal s' = index_legal s" by blast+
qed

lemma accepted_lookup:
  assumes "replay_event g e M = Some M'" "ev_operation e = MEMX_TRACE_LOOKUP"
  shows "oracle_view g M (ev_address e) = ev_handle e"
  using assms by (simp add: replay_event_def trace_operations oracle_view_def Let_def split: if_splits)

lemma wf_known: "event_wf g e \<Longrightarrow> known_operation e"
  by (auto simp: event_wf_def known_operation_def trace_operations split: if_splits)

lemma calls_unstep:
  assumes "known_operation e" "event_call e s = Some (st, s1)"
    and "run_calls index_insert index_remove (trace_calls (e # es)) s = Some (sts, s')"
  obtains sts1 where "run_calls index_insert index_remove (trace_calls es) s1 = Some (sts1, s')"
    "sts = (if mutation e then st # sts1 else sts1)" "\<not> mutation e \<Longrightarrow> st = MEMX_OK"
proof (cases "run_calls index_insert index_remove (trace_calls es) s1")
  case None
  then have "run_calls index_insert index_remove (trace_calls (e # es)) s = None"
    using assms(1,2) by (cases "ev_operation e" rule: operation_cases)
      (simp_all add: event_call_def known_operation_def trace_operations)
  then show thesis using assms(3) by simp
next
  case (Some x)
  moreover obtain sts1 s2 where "x = (sts1, s2)" by (cases x)
  ultimately have x: "run_calls index_insert index_remove (trace_calls es) s1 = Some (sts1, s2)" by simp
  note c = calls_step [OF assms(1,2) x]
  then have "s2 = s'" "sts = (if mutation e then st # sts1 else sts1)" using assms(3) by simp_all
  with x c that show thesis by blast
qed

lemma replay_loop_agrees:
  assumes g: "g < 64"
  shows "\<forall>e \<in> set es. event_wf g e \<Longrightarrow> length (replay_maps g es M) = length es \<Longrightarrow> adaptive_ok live fr s \<Longrightarrow>
    adaptive_view s = oracle_view g M \<Longrightarrow>
    \<forall>e \<in> set es. mutation e \<longrightarrow> index_legal s (ev_address e) (ev_size e) \<Longrightarrow>
    replay_loop clk page_result es s r n = Some (Returned (s', r', n')) \<Longrightarrow>
    run_calls index_insert index_remove (trace_calls es) s = Some (sts, s') \<Longrightarrow>
    find (\<lambda>st. st \<noteq> MEMX_OK) sts \<in> {None, Some MEMX_ERROR_OUT_OF_MEMORY}
    \<and> (failures sts = 0 \<longrightarrow> rr_lookup_failures r' = rr_lookup_failures r
        \<and> rr_checksum r' = trace_checksum es (rr_checksum r))"
proof (induction es arbitrary: M s r n sts)
  case Nil
  then show ?case by simp
next
  case (Cons e es)
  note ok = Cons.prems(3) and view = Cons.prems(4)
  have wf: "event_wf g e" "\<forall>e \<in> set es. event_wf g e" using Cons.prems(1) by simp_all
  obtain M' where M': "replay_event g e M = Some M'" "length (replay_maps g es M') = length es"
    using Cons.prems(2) by (rule accepts_Cons)
  from ok show ?case
  proof (cases rule: replay_step_ok [where clk = clk and page_result = page_result and e = e and r = r and n = n])
    case clock
    then show ?thesis using Cons.prems(6) by simp
  next
    case step: (on st s1 r1 n1)
    obtain sts1 where c: "run_calls index_insert index_remove (trace_calls es) s1 = Some (sts1, s')"
      "sts = (if mutation e then st # sts1 else sts1)" "\<not> mutation e \<Longrightarrow> st = MEMX_OK"
      by (rule calls_unstep [OF wf_known [OF wf(1)] step(2) Cons.prems(7)]) blast
    have lg: "mutation e \<Longrightarrow> index_legal s (ev_address e) (ev_size e)" using Cons.prems(5) by simp
    note A = accepted_mutation [OF g wf(1) M'(1) ok view lg step(2)]
    show ?thesis
    proof (cases "st = MEMX_OK")
      case False
      then have "mutation e" "st = MEMX_ERROR_OUT_OF_MEMORY" using c(3) A(1) by auto
      then show ?thesis using False c(2) by simp
    next
      case True
      then have v: "adaptive_view s1 = oracle_view g M'" using A(1) by auto
      have l: "\<forall>e \<in> set es. mutation e \<longrightarrow> index_legal s1 (ev_address e) (ev_size e)"
        using Cons.prems(5) A(2) by simp
      have run: "replay_loop clk page_result es s1 r1 n1 = Some (Returned (s', r', n'))"
        using Cons.prems(6) step(1) by simp
      note IH = Cons.IH [OF wf(2) M'(2) step(3) v l run c(1)]
      have f: "find (\<lambda>st. st \<noteq> MEMX_OK) sts = find (\<lambda>st. st \<noteq> MEMX_OK) sts1" "failures sts = failures sts1"
        using c(2) True by simp_all
      have "rr_lookup_failures r1 = rr_lookup_failures r
        \<and> trace_checksum (e # es) (rr_checksum r) = trace_checksum es (rr_checksum r1)"
        using step(4) accepted_lookup [OF M'(1)] unfolding view event_done_def by (simp split: if_splits)
      then show ?thesis using IH unfolding f by simp
    qed
  qed
qed

section \<open>The index a replay makes\<close>

text \<open>What \<^verbatim>\<open>replay\<close> manages: the interval in bounded mode, 48 bits of addresses in sparse mode.\<close>

definition covers :: "u32 \<Rightarrow> u64 \<Rightarrow> u64 \<Rightarrow> memx_trace_event list \<Rightarrow> bool" where
  "covers mode base sz es \<longleftrightarrow> (\<forall>e \<in> set es. mutation e \<longrightarrow>
     (if mode = MEMX_DIRECTORY_BOUNDED
      then unat base \<le> unat (ev_address e) \<and> unat (ev_address e) + unat (ev_size e) \<le> unat base + unat sz
      else unat (ev_address e) + unat (ev_size e) \<le> 2 ^ 48))"

lemma default_callbacks:
  "\<lparr>allocate = Some (memx_default_allocate (rh_libc R)), deallocate = Some (memx_default_deallocate (rh_libc R))\<rparr>
    = replay_allocator R"
  by (simp add: replay_allocator_def memx_default_allocate_def [abs_def] memx_default_deallocate_def [abs_def] fun_eq_iff)

lemma replay_config_valid:
  assumes "memx_validate_config (rh_libc R) (replay_config t mode base sz) = (MEMX_OK, cfg)"
  shows "allocator cfg = replay_allocator R" "directory_mode cfg = mode"
    "region_shift cfg = tr_region_shift t" "granule_shift cfg = tr_granule_shift t"
    "mode = MEMX_DIRECTORY_BOUNDED \<Longrightarrow> base_address cfg = base \<and> managed_size cfg = sz"
    "mode \<noteq> MEMX_DIRECTORY_BOUNDED \<Longrightarrow> address_bits cfg = 48"
  using assms by (auto simp: memx_validate_config_def replay_config_def memx_config_default_def Let_def
      default_callbacks split: if_splits)

lemma covers_legal:
  fixes R :: "'c replay_host"
  assumes inv: "index_inv live fr ix w" and cfg: "config ix = cfg"
    and v: "memx_validate_config (rh_libc R) (replay_config t mode base sz) = (MEMX_OK, cfg)"
    and wf: "event_wf (unat (tr_granule_shift t)) e" and m: "mutation e" and c: "covers mode base sz [e]"
  shows "index_legal (ix, w) (ev_address e) (ev_size e)"
proof -
  note sh = index_invD(2) [OF inv] and C = replay_config_valid [OF v]
  have w: "range_wf (unat (tr_granule_shift t)) e" using wf m by (auto simp: event_wf_def mutation_def split: if_splits)
  let ?a = "unat (ev_address e)" and ?n = "unat (ev_size e)"
  have top: "base_of ix \<le> ?a \<and> ?a + ?n \<le> base_of ix + regions ix * 2 ^ rshift ix"
  proof (cases "mode = MEMX_DIRECTORY_BOUNDED")
    case True
    then have "bounded ix" by (simp add: cfg C(2))
    then have "unat (managed_size cfg) = regions ix * 2 ^ rshift ix" using sh by (simp add: index_shape_def cfg)
    then show ?thesis using c m True C(5) by (simp add: covers_def cfg)
  next
    case False
    then have nb: "\<not> bounded ix" by (simp add: cfg C(2))
    have "base_of ix = 0" "regions ix * 2 ^ rshift ix = 2 ^ unat (address_bits cfg)"
      using sh unfolding index_shape_def if_not_P [OF nb] unfolding cfg by blast+
    then show ?thesis using c m False C(6) by (simp add: covers_def)
  qed
  have s: "?a + ?n < 2 ^ 64" using w by (simp add: range_wf_def)
  have "memx_validate_range (Some ix) (ev_address e) (ev_size e) = (MEMX_OK, ev_address e + ev_size e)"
    unfolding validate_range_exact [OF sh] using w top unat_add_exact [OF s]
    by (simp add: range_wf_def cfg C(4))
  then show ?thesis by (simp add: index_legal_def)
qed

text \<open>A replay returns and gives its memory back; what it reports is about the calls of the trace on a
  fresh index.\<close>

definition replay_report ::
  "('c \<Rightarrow> u64 set) \<Rightarrow> (u64 \<rightharpoonup> memx_object) \<Rightarrow> memx_trace \<Rightarrow> replay_result_t \<Rightarrow> bool" where
  "replay_report live fr t r \<longleftrightarrow>
     (\<exists>s sts s'. adaptive_ok live fr s \<and> adaptive_view s = (\<lambda>a. MEMX_HANDLE_INVALID)
       \<and> run_calls index_insert index_remove (trace_calls (tr_contents t)) s = Some (sts, s')
       \<and> rr_applied_events r = of_nat (length (tr_contents t))
       \<and> rr_lookup_count r = count_op MEMX_TRACE_LOOKUP (tr_contents t)
       \<and> rr_mutation_failures r = of_nat (failures sts)
       \<and> find (\<lambda>st. st \<noteq> MEMX_OK) sts \<in> {None, Some MEMX_ERROR_OUT_OF_MEMORY}
       \<and> (failures sts = 0 \<longrightarrow> rr_lookup_failures r = 0 \<and> rr_checksum r = trace_checksum (tr_contents t) 0))"

lemma memx_index_create_invalid:
  assumes "fst (memx_validate_config lc cfg) \<noteq> MEMX_OK"
  shows "memx_index_create lc (Some cfg) True w = Some (fst (memx_validate_config lc cfg), None, w)"
  using assms by (simp add: memx_index_create_def case_prod_unfold split: prod.splits)

lemma replay_ok:
  fixes R :: "'c replay_host" and w :: "'c memx_world"
  assumes W: "world_ok (replay_allocator R) live w" and wf: "trace_wf t"
    and acc: "replay_accepts (unat (tr_granule_shift t)) (tr_contents t)"
  obtains (clock) "replay R t mode base sz n w = Some (Exited EXIT_FAILURE)" "clock_failed (rh_clock R)"
    | (home) made r n' w' where "replay R t mode base sz n w = Some (Returned (made, r, n', w'))"
      "heap w' = heap w" "world_ok (replay_allocator R) live w'"
      "made \<Longrightarrow> covers mode base sz (tr_contents t) \<Longrightarrow> replay_report live (heap w) t r"
proof -
  let ?g = "unat (tr_granule_shift t)" and ?es = "tr_contents t" and ?cfg = "replay_config t mode base sz"
  have g: "?g < 64" and ewf: "\<forall>e \<in> set ?es. event_wf ?g e"
    using wf by (auto simp: trace_wf_def word_less_nat_alt word_le_nat_alt)
  have len: "length (replay_maps ?g ?es Map.empty) = length ?es" using acc by (simp add: replay_accepts_def)
  obtain st cfg where v: "memx_validate_config (rh_libc R) ?cfg = (st, cfg)" by fastforce
  show thesis
  proof (cases "st = MEMX_OK")
    case False
    then have "memx_index_create (rh_libc R) (Some ?cfg) True w = Some (st, None, w)"
      using memx_index_create_invalid [of "rh_libc R" ?cfg w] v by simp
    then have "replay R t mode base sz n w = Some (Returned (False, replay_result_zero, n, w))"
      using False by (simp add: replay_def)
    then show thesis using W by (intro home [of False replay_result_zero n w]) simp_all
  next
    case True
    note v = v [unfolded True] note C = replay_config_valid [OF v]
    have W': "world_ok (allocator cfg) live w" using W C(1) by simp
    from v W' show thesis
    proof (cases rule: memx_index_create_spec)
      case (fail st w')
      then have "replay R t mode base sz n w = Some (Returned (False, replay_result_zero, n, w'))"
        by (auto simp: replay_def)
      then show thesis using fail(3,4) C(1) by (intro home [of False replay_result_zero n w']) simp_all
    next
      case (good ix w1)
      have ok: "adaptive_ok live (heap w) (ix, w1)" using good(3) by (simp add: adaptive_ok_def)
      have "aview ix (gmap ix (heap w1)) = aview ix (\<lambda>k. MEMX_HANDLE_INVALID)"
        by (rule aview_cong [OF index_invD(2) [OF good(3)] good(4)])
      then have view: "adaptive_view (ix, w1) = (\<lambda>a. MEMX_HANDLE_INVALID)"
        by (simp add: adaptive_view_def aview_def fun_eq_iff)
      have k: "\<forall>e \<in> set ?es. known_operation e" using ewf wf_known by blast
      let ?run = "replay_loop (rh_clock R) (rh_page_result R) ?es (ix, w1) replay_result_zero n"
      have start: "replay R t mode base sz n w = do {
         loop \<leftarrow> ?run;
         (case loop of
            Exited code \<Rightarrow> Some (Exited code)
          | Returned ((ix, w), r, n) \<Rightarrow> do {
              final \<leftarrow> memx_index_stats (rh_page_result R) (Some ix) True;
              w \<leftarrow> memx_index_destroy (rh_munmap R) (Some ix) w;
              Some (Returned (True, r\<lparr>rr_index_stats := final\<rparr>, n, w))
            }) }"
        using good(1) by (simp add: replay_def)
      from replay_loop_ok [OF k ok, of "rh_clock R" "rh_page_result R" replay_result_zero n] consider
          (x) "?run = Some (Exited EXIT_FAILURE)" "clock_failed (rh_clock R)"
        | (y) sts s' r' n' where "?run = Some (Returned (s', r', n'))" "adaptive_ok live (heap w) s'"
            "run_calls index_insert index_remove (trace_calls ?es) (ix, w1) = Some (sts, s')"
            "loop_done ?es sts replay_result_zero r'" by blast
      then show thesis
      proof cases
        case x
        then show thesis by (intro clock) (simp_all add: start)
      next
        case y
        obtain ix2 w2 where s': "s' = (ix2, w2)" by (cases s')
        have inv2: "index_inv live (heap w) ix2 w2" using y(2) by (simp add: adaptive_ok_def s')
        obtain final where f: "memx_index_stats (rh_page_result R) (Some ix2) True = Some final"
          using memx_index_stats_total by blast
        obtain w' where d: "memx_index_destroy (rh_munmap R) (Some ix2) w2 = Some w'" "heap w' = heap w"
          "world_ok (index_allocator ix2) live w'" by (rule memx_index_destroy_spec [OF inv2])
        have "replay R t mode base sz n w
            = Some (Returned (True, r'\<lparr>rr_index_stats := final\<rparr>, n', w'))"
          unfolding start y(1) s' by (simp add: f d(1))
        moreover have "world_ok (replay_allocator R) live w'" using d(3) W by (simp add: world_ok_def)
        moreover have "replay_report live (heap w) t (r'\<lparr>rr_index_stats := final\<rparr>)"
          if c: "covers mode base sz ?es"
        proof -
          have "index_legal (ix, w1) (ev_address e) (ev_size e)" if "e \<in> set ?es" "mutation e" for e
          proof (rule covers_legal [OF good(3,2) v _ that(2)])
            show "event_wf ?g e" using ewf that(1) by blast
            show "covers mode base sz [e]" unfolding covers_def using c [unfolded covers_def] that(1) by auto
          qed
          then have lg: "\<forall>e \<in> set ?es. mutation e \<longrightarrow> index_legal (ix, w1) (ev_address e) (ev_size e)" by blast
          have ov: "adaptive_view (ix, w1) = oracle_view ?g Map.empty" unfolding view by simp
          note A = replay_loop_agrees [OF g ewf len ok ov lg y(1,3)]
          show ?thesis unfolding replay_report_def
            using ok view y(3,4) A
            by (intro exI [of _ "(ix, w1)"] exI [of _ sts] exI [of _ s'])
              (simp add: loop_done_def replay_result_zero_def)
        qed
        ultimately show thesis using d(2) by (intro home)
      qed
    qed
  qed
qed

section \<open>The interval of a trace\<close>

text \<open>The statistics' interval, widened to whole regions, covers every call of the trace.\<close>

lemma align_coverage_covers:
  assumes r: "unat (tr_region_shift t) < 64" and wf: "\<forall>e \<in> set (tr_contents t). event_wf g e"
    and s: "stats_exact g (tr_contents t) s" and a: "align_coverage t s = Some (base, sz)"
  shows "covers MEMX_DIRECTORY_BOUNDED base sz (tr_contents t)"
proof -
  let ?r = "unat (tr_region_shift t)" and ?es = "tr_contents t"
  let ?lo = "ts_minimum_address s" and ?hi = "ts_maximum_address_exclusive s"
  let ?high = "(?hi + mask ?r) AND NOT (mask ?r)"
  have p: "push_bit ?r (1 :: u64) - 1 = mask ?r" by (simp add: pow2_minus_1)
  have A: "\<not> UINTPTR_MAX - mask ?r < ?hi" "\<not> ?high \<le> base" "base = ?lo AND NOT (mask ?r)" "sz = ?high - base"
    using a unfolding align_coverage_def Let_def p by (auto split: if_splits)
  have "unat (UINTPTR_MAX - mask ?r) = 18446744073709551615 - (2 ^ ?r - 1)"
    using r by (simp add: unat_sub_exact unat_mask_64)
  then have "unat ?hi + (2 ^ ?r - 1) < 2 ^ 64"
    using A(1) unat_lt_64 [of "mask ?r :: u64"] r by (simp add: word_less_nat_alt unat_mask_64 not_less)
  then have h: "unat ?high = (unat ?hi + (2 ^ ?r - 1)) div 2 ^ ?r * 2 ^ ?r"
    using r by (simp add: unat_and_not_mask unat_add_exact unat_mask_64)
  have "unat ?hi \<le> unat ?high"
  proof -
    have "(unat ?hi + (2 ^ ?r - 1)) mod 2 ^ ?r < 2 ^ ?r" by simp
    then show ?thesis unfolding h minus_mod_eq_div_mult [symmetric] by linarith
  qed
  moreover have "unat base \<le> unat ?lo" unfolding A(3) unat_and_not_mask by (rule div_times_less_eq_dividend)
  moreover have "unat base + unat sz = unat ?high"
    using A(2) unfolding A(4) by (simp add: unat_sub_exact word_le_nat_alt)
  moreover have "unat ?lo \<le> unat (ev_address e) \<and> unat (ev_address e) + unat (ev_size e) \<le> unat ?hi"
    if e: "e \<in> set ?es" "mutation e" for e
  proof -
    have m: "e \<in> set (references ?es)" using e by (auto simp: references_def mutation_def trace_operations)
    then have ne: "references ?es \<noteq> []" by auto
    have "ev_operation e \<noteq> MEMX_TRACE_LOOKUP" using e(2) by (auto simp: mutation_def trace_operations)
    then have stop: "event_stop e = unat (ev_address e) + unat (ev_size e)" by (simp add: event_stop_def)
    have "unat ?lo = Min ((\<lambda>e. unat (ev_address e)) ` set (references ?es))" using s ne by (simp add: stats_exact_def)
    then have "unat ?lo \<le> unat (ev_address e)" using m by (simp add: Min_le)
    moreover have "unat ?hi = Max (insert 0 (event_stop ` set (references ?es)))" using s by (simp add: stats_exact_def)
    then have "event_stop e \<le> unat ?hi" using m by (simp add: Max_ge)
    ultimately show ?thesis unfolding stop by blast
  qed
  ultimately show ?thesis unfolding covers_def by (auto intro: order.trans)
qed

end
