(* ===== verification/Memx_ReplayProperties.thy ===== *)
theory Memx_ReplayProperties
  imports Memx_ReplayRun Memx_Examples
begin

text \<open>
  The properties of trace replay, with witnesses on the sample trace of \<open>Memx_TraceProperties\<close> and the
  bump allocator.
\<close>

section \<open>Lemmas\<close>

lemma run_calls_length: "run_calls ins rmv cs s = Some (sts, s') \<Longrightarrow> length sts = length cs"
  by (induction cs arbitrary: s sts) (auto simp: bind_eq_Some_conv)

lemma trace_calls_length: "length (trace_calls es) \<le> length es"
  by (induction es) auto

lemma failures_length: "failures sts \<le> length sts"
  by (simp add: failures_def)

text \<open>No mutation failed if the counter says so: it cannot have wrapped.\<close>

lemma report_clean:
  fixes live :: "'c \<Rightarrow> u64 set"
  assumes "replay_report live fr t r" "rr_mutation_failures r = 0" "length (tr_contents t) < 2 ^ 64"
  shows "rr_lookup_failures r = 0 \<and> rr_checksum r = trace_checksum (tr_contents t) 0"
proof -
  obtain s :: "'c index_state" and sts s' where r: "run_calls index_insert index_remove (trace_calls (tr_contents t)) s = Some (sts, s')"
    "rr_mutation_failures r = of_nat (failures sts)"
    "failures sts = 0 \<longrightarrow> rr_lookup_failures r = 0 \<and> rr_checksum r = trace_checksum (tr_contents t) 0"
    using assms(1) unfolding replay_report_def by (elim exE conjE) (rule that)
  have "failures sts < 2 ^ 64"
    using failures_length [of sts] trace_calls_length [of "tr_contents t"] run_calls_length [OF r(1)] assms(3) by simp
  then have "unat (of_nat (failures sts) :: u64) = failures sts" by (simp add: unsigned_of_nat take_bit_nat_eq_self)
  then have "failures sts = 0" using assms(2) r(2) by simp
  then show ?thesis using r(3) by blast
qed

text \<open>The rest of the tool: whatever the two replays do, the trace is released.\<close>

lemma world_ok_replay: "tc_allocator (replay_libc R) = replay_allocator R"
  by (simp add: replay_libc_def)

lemma replay_both_ok:
  fixes R :: "'c replay_host"
  assumes W: "world_ok (replay_allocator R) live w" and T: "trace_mem t w" and wf: "trace_wf t"
    and acc: "replay_accepts (unat (tr_granule_shift t)) (tr_contents t)"
  obtains (clock) "replay_both R t base sz w = Some (Exited EXIT_FAILURE)" "clock_failed (rh_clock R)"
    | (home) c w' where "replay_both R t base sz w = Some (Returned (c, w'))" "heap w' = without t w"
      "c = EXIT_SUCCESS \<or> c = EXIT_FAILURE"
proof -
  have free: "\<exists>w3. memx_trace_destroy (replay_libc R) (Some t) w2 = Some (Some initial_trace, w3) \<and> heap w3 = without t w"
    if "heap w2 = heap w" "world_ok (replay_allocator R) live w2" for w2
    using destroy_ok [of "replay_libc R" live w2 t] that T trace_mem_cong [OF that(1), of t]
    by (auto simp: world_ok_replay)
  from W wf acc show thesis
  proof (cases rule: replay_ok [where mode = MEMX_DIRECTORY_BOUNDED and base = base and sz = sz and n = 0])
    case clock
    then show thesis by (intro that(1)) (simp_all add: replay_both_def)
  next
    case first: (home made r n w1)
    show thesis
    proof (cases made)
      case False
      obtain w3 where "memx_trace_destroy (replay_libc R) (Some t) w1 = Some (Some initial_trace, w3)" "heap w3 = without t w"
        using free [OF first(2,3)] by blast
      then show thesis using False first(1)
        by (intro that(2) [of EXIT_FAILURE w3]) (simp_all add: replay_both_def)
    next
      case True
      from first(3) wf acc show thesis
      proof (cases rule: replay_ok [where mode = MEMX_DIRECTORY_SPARSE and base = base and sz = sz and n = n])
        case clock
        then show thesis using True first(1) by (intro that(1)) (simp_all add: replay_both_def)
      next
        case second: (home made2 r2 n2 w2)
        have h: "heap w2 = heap w" using first(2) second(2) by simp
        obtain w3 where d: "memx_trace_destroy (replay_libc R) (Some t) w2 = Some (Some initial_trace, w3)"
          "heap w3 = without t w" using free [OF h second(3)] by blast
        let ?c = "if made2 \<and> rr_lookup_failures r = 0 \<and> rr_lookup_failures r2 = 0
            \<and> rr_mutation_failures r = 0 \<and> rr_mutation_failures r2 = 0 then EXIT_SUCCESS else EXIT_FAILURE"
        have "replay_both R t base sz w = Some (Returned (?c, w3))"
          using True first(1) second(1) d(1) by (simp add: replay_both_def)
        then show thesis using d(2) by (intro that(2)) auto
      qed
    qed
  qed
qed

section \<open>A host for the witnesses\<close>

definition replay_desk :: "bump replay_host" where
  "replay_desk = \<lparr>rh_libc = bump_libc, rh_realloc = bump_realloc, rh_clock = (\<lambda>n. Some (0, of_nat n)),
     rh_page_result = 4096, rh_munmap = (\<lambda>c p n. c)\<rparr>"

lemma replay_desk_parts: "replay_allocator replay_desk = bump_allocator" "replay_libc replay_desk = trace_desk"
  "\<not> clock_failed (rh_clock replay_desk)"
  by (simp_all add: replay_allocator_def replay_libc_def replay_desk_def bump_libc_def bump_allocator_def
      trace_desk_def clock_failed_def)

definition sample_stats :: memx_trace_stats where
  "sample_stats = \<lparr>ts_inserts = 1, ts_lookups = 1, ts_retires = 0, ts_removes = 1, ts_quiescent_events = 0,
     ts_distinct_threads = 1, ts_minimum_address = 0x1000, ts_maximum_address_exclusive = 0x3000,
     ts_peak_live_bytes = 0x2000, ts_final_live_bytes = 0\<rparr>"

lemma sample_stats_exact: "stats_exact 12 sample_events sample_stats"
proof -
  have m: "replay_maps 12 sample_events Map.empty
      = [[0x1000 \<mapsto> (7, False), 0x2000 \<mapsto> (7, False)], [0x1000 \<mapsto> (7, False), 0x2000 \<mapsto> (7, False)], Map.empty]"
    by (rule sample_replay(5))
  have r: "references sample_events = sample_events"
    by (simp add: references_def sample_events_def trace_operations)
  show ?thesis unfolding stats_exact_def m r
    by (simp add: sample_stats_def sample_events_def counted_def stats_zero_def trace_operations
        live_bytes_of_def live_granules_def event_stop_def)
qed

text \<open>A run that cannot have exited came back.\<close>

lemma run_home:
  assumes "\<exists>x. f = Some x \<and> (case x of Exited c \<Rightarrow> P c | Returned y \<Rightarrow> Q y)" "\<And>c. \<not> P c"
  obtains y where "f = Some (Returned y)" "Q y"
proof -
  obtain x where x: "f = Some x" "case x of Exited c \<Rightarrow> P c | Returned y \<Rightarrow> Q y" using assms(1) by blast
  show thesis using x assms(2) that by (cases x) auto
qed

lemma sample_coverage: "align_coverage (sample_trace sample_events) sample_stats = Some (0, 0x200000)"
  by (simp add: align_coverage_def sample_trace_def sample_stats_def Let_def)

section \<open>Properties\<close>

text \<open>C19: a trace that validation accepts replays on an index as it does on the oracle.  In bounded mode over
  the interval of the statistics, or in sparse mode below 48 bits, the replay returns with the heap as
  it was, unless the clock fails; if the index could be made, the counters are those of the calls of
  the trace on a fresh index, the first call to fail, if any, ran out of memory, and if none failed
  then every lookup answered the recorded handle and the checksum is a function of the trace alone.\<close>

theorem memx_replay_correct:
  fixes R :: "'c replay_host" and w :: "'c memx_world"
  assumes "world_ok (replay_allocator R) live w" and "trace_wf t" and "length (tr_contents t) < 2 ^ 64"
    and "replay_accepts (unat (tr_granule_shift t)) (tr_contents t)"
    and "mode = MEMX_DIRECTORY_BOUNDED
        \<and> (\<exists>s. stats_exact (unat (tr_granule_shift t)) (tr_contents t) s \<and> align_coverage t s = Some (base, sz))
      \<or> mode = MEMX_DIRECTORY_SPARSE
        \<and> (\<forall>e \<in> set (tr_contents t). unat (ev_address e) + unat (ev_size e) \<le> 2 ^ 48)"
  shows "\<exists>x. replay R t mode base sz n w = Some x
    \<and> (case x of
        Exited c \<Rightarrow> c = EXIT_FAILURE \<and> clock_failed (rh_clock R)
      | Returned (made, r, n', w') \<Rightarrow> heap w' = heap w
          \<and> (made \<longrightarrow> replay_report live (heap w) t r
              \<and> (rr_mutation_failures r = 0 \<longrightarrow>
                  rr_lookup_failures r = 0 \<and> rr_checksum r = trace_checksum (tr_contents t) 0)))"
proof -
  have wf: "unat (tr_region_shift t) < 64" "\<forall>e \<in> set (tr_contents t). event_wf (unat (tr_granule_shift t)) e"
    using assms(2) by (auto simp: trace_wf_def word_less_nat_alt)
  have c: "covers mode base sz (tr_contents t)"
    using assms(5) align_coverage_covers [OF wf]
    by (auto simp: covers_def MEMX_DIRECTORY_BOUNDED_def MEMX_DIRECTORY_SPARSE_def)
  from assms(1,2,4) show ?thesis
  proof (cases rule: replay_ok [where mode = mode and base = base and sz = sz and n = n])
    case clock
    then show ?thesis by simp
  next
    case (home made r n' w')
    then show ?thesis using c report_clean [OF _ _ assms(3)] by auto
  qed
qed

theorem memx_replay_correct_witness:
  "\<exists>made r n w1 made' r' n' w2.
    replay replay_desk (sample_trace sample_events) MEMX_DIRECTORY_BOUNDED 0 0x200000 0 empty_world
      = Some (Returned (made, r, n, w1)) \<and> heap w1 = heap empty_world
    \<and> (made \<longrightarrow> replay_report bump_live (heap empty_world) (sample_trace sample_events) r)
    \<and> replay replay_desk (sample_trace sample_events) MEMX_DIRECTORY_SPARSE 0 0 0 empty_world
      = Some (Returned (made', r', n', w2)) \<and> heap w2 = heap empty_world
    \<and> (made' \<longrightarrow> replay_report bump_live (heap empty_world) (sample_trace sample_events) r')"
proof -
  have W: "world_ok (replay_allocator replay_desk) bump_live empty_world"
    using empty_world_ok by (simp add: replay_desk_parts)
  have len: "length (tr_contents (sample_trace sample_events)) < 2 ^ 64" by (simp add: sample_length)
  have acc: "replay_accepts (unat (tr_granule_shift (sample_trace sample_events))) (tr_contents (sample_trace sample_events))"
    using sample_replay(1) by simp
  note R = memx_replay_correct [OF W sample_wf(1) len acc]
  have b: "\<exists>s. stats_exact (unat (tr_granule_shift (sample_trace sample_events))) (tr_contents (sample_trace sample_events)) s
      \<and> align_coverage (sample_trace sample_events) s = Some (0, 0x200000)"
    using sample_stats_exact sample_coverage by auto
  have s: "\<forall>e \<in> set (tr_contents (sample_trace sample_events)). unat (ev_address e) + unat (ev_size e) \<le> 2 ^ 48"
    by (simp add: sample_events_def)
  have nc: "\<not> (c = EXIT_FAILURE \<and> clock_failed (rh_clock replay_desk))" for c by (simp add: replay_desk_parts)
  have "\<exists>x r n w1. replay replay_desk (sample_trace sample_events) MEMX_DIRECTORY_BOUNDED 0 0x200000 0 empty_world
      = Some (Returned (x, r, n, w1)) \<and> heap w1 = heap empty_world
      \<and> (x \<longrightarrow> replay_report bump_live (heap empty_world) (sample_trace sample_events) r)"
    by (rule run_home [OF R [of MEMX_DIRECTORY_BOUNDED 0 "0x200000" 0] nc]) (use b in auto)
  moreover have "\<exists>x r n w1. replay replay_desk (sample_trace sample_events) MEMX_DIRECTORY_SPARSE 0 0 0 empty_world
      = Some (Returned (x, r, n, w1)) \<and> heap w1 = heap empty_world
      \<and> (x \<longrightarrow> replay_report bump_live (heap empty_world) (sample_trace sample_events) r)"
    by (rule run_home [OF R [of MEMX_DIRECTORY_SPARSE 0 0 0] nc]) (use s in auto)
  ultimately show ?thesis by blast
qed

text \<open>C20: the tool is safe on every file and every command line: it returns, unless the clock fails, with an
  exit code and with every block it allocated released, and it reports success only after it has
  loaded a trace that validation accepts.\<close>

theorem memx_replay_main_clean:
  fixes R :: "'c replay_host" and w :: "'c memx_world"
  assumes "world_ok (replay_allocator R) live w" and "realloc_contract (replay_libc R) live"
  shows "\<exists>x. replay_main R fopen argv w = Some x
    \<and> (case x of
        Exited c \<Rightarrow> c = EXIT_FAILURE \<and> clock_failed (rh_clock R)
      | Returned (c, w') \<Rightarrow> heap w' = heap w
          \<and> (c = EXIT_FAILURE \<or> c = EXIT_SUCCESS \<and> length argv = 2
              \<and> (\<exists>t line w1. memx_trace_read_file (replay_libc R) fopen (Some (argv ! 1)) (Some initial_trace) w
                    = Some (MEMX_TRACE_OK, Some t, line, w1)
                  \<and> trace_wf t \<and> replay_accepts (unat (tr_granule_shift t)) (tr_contents t))))"
proof (cases "length argv = 2")
  case False
  then show ?thesis by (simp add: replay_main_def)
next
  case two: True
  let ?L = "replay_libc R"
  have W: "world_ok (tc_allocator ?L) live w" using assms(1) by (simp add: world_ok_replay)
  have i: "trace_mem initial_trace w" by (simp add: trace_mem_def initial_trace_def)
  have wi: "without initial_trace w = heap w"
    using assms(1) by (simp add: without_def initial_trace_def world_ok_def fun_upd_idem)
  obtain st out line w1 where rd: "memx_trace_read_file ?L fopen (Some (argv ! 1)) (Some initial_trace) w
      = Some (st, Some out, line, w1)" "world_ok (tc_allocator ?L) live w1"
    "if st = MEMX_TRACE_OK
       then trace_wf out \<and> replay_accepts (unat (tr_granule_shift out)) (tr_contents out)
         \<and> trace_mem out w1 \<and> without out w1 = without initial_trace w
       else out = initial_trace \<and> heap w1 = heap w"
    using read_file_ok [OF W assms(2) i] by blast
  show ?thesis
  proof (cases "st = MEMX_TRACE_OK")
    case False
    then show ?thesis using two rd by (simp add: replay_main_def)
  next
    case True
    then have t: "trace_wf out" "replay_accepts (unat (tr_granule_shift out)) (tr_contents out)"
      "trace_mem out w1" "without out w1 = heap w" using rd(3) wi by simp_all
    have "length (tr_contents out) \<le> unat (tr_event_capacity out)" using t(3) by (simp add: trace_mem_def)
    then have len: "length (tr_contents out) < 2 ^ 64" by (rule order.strict_trans1) simp
    obtain st2 s w2 where cs: "memx_trace_calculate_stats ?L (Some out) True w1 = Some (st2, s, w2)"
      "heap w2 = heap w1" "world_ok (tc_allocator ?L) live w2"
      using calculate_stats_ok [OF rd(2) len] by blast
    have m2: "trace_mem out w2" "without out w2 = heap w" using t(3,4) trace_mem_cong [OF cs(2)] by simp_all
    let ?cov = "if st2 \<noteq> MEMX_TRACE_OK then None else Option.bind s (align_coverage out)"
    show ?thesis
    proof (cases ?cov)
      case None
      obtain w3 where "memx_trace_destroy ?L (Some out) w2 = Some (Some initial_trace, w3)" "heap w3 = heap w"
        using destroy_ok [OF cs(3) m2(1)] m2(2) by auto
      then have "replay_main R fopen argv w = Some (Returned (EXIT_FAILURE, w3))" "heap w3 = heap w"
        using two rd(1) True cs(1) None by (simp_all add: replay_main_def)
      then show ?thesis by simp
    next
      case (Some p)
      obtain base sz where p: "p = (base, sz)" by (cases p)
      have run: "replay_main R fopen argv w = replay_both R out base sz w2"
        using two rd(1) True cs(1) Some p by (simp add: replay_main_def)
      from cs(3) [unfolded world_ok_replay] m2(1) t(1,2) show ?thesis
      proof (cases rule: replay_both_ok [where base = base and sz = sz])
        case clock
        then show ?thesis by (simp add: run)
      next
        case (home c w')
        then show ?thesis using m2(2) two rd(1) True t by (auto simp: run)
      qed
    qed
  qed
qed

theorem memx_replay_main_clean_witness:
  "\<exists>c w'. replay_main replay_desk (\<lambda>p. Some \<lparr>fi_content = ''MEMX_TRACE garbage'', fi_error = False, fi_close_ok = True\<rparr>)
      [''replay'', ''x''] empty_world = Some (Returned (c, w')) \<and> heap w' = heap empty_world"
proof -
  have W: "world_ok (replay_allocator replay_desk) bump_live empty_world"
    using empty_world_ok by (simp add: replay_desk_parts)
  have L: "realloc_contract (replay_libc replay_desk) bump_live"
    using trace_desk_realloc by (simp add: replay_desk_parts)
  have nc: "\<not> (c = EXIT_FAILURE \<and> clock_failed (rh_clock replay_desk))" for c by (simp add: replay_desk_parts)
  show ?thesis
    by (rule run_home [OF memx_replay_main_clean [OF W L,
          of "\<lambda>p. Some \<lparr>fi_content = ''MEMX_TRACE garbage'', fi_error = False, fi_close_ok = True\<rparr>"
            "[''replay'', ''x'']"] nc]) auto
qed

end
