(* ===== verification/Spec2Isabelle.thy ===== *)
theory Spec2Isabelle
  imports Memx_Properties Memx_Maps Memx_HeapProperties Memx_TraceProperties Memx_ReplayProperties
begin

text \<open>
  \<^bold>\<open>Verification of the memx library.\<close>

  \<^bold>\<open>The program.\<close>  memx is a C library with two parts.  The address index (\<^verbatim>\<open>src/memx.c\<close>,
  \<^verbatim>\<open>include/memx/memx.h\<close>) maps ranges of an address space to handles, granule by granule, in a bounded or
  a sparse directory of regions; a region is empty, uniform (one handle) or dense (a table).  A full
  index can be flattened into one table, or frozen into a memory-mapped overlay.  The heap
  (\<^verbatim>\<open>src/allocator/heap.c\<close>, \<^verbatim>\<open>src/allocator/os_linux.c\<close>, \<^verbatim>\<open>include/memx/allocator.h\<close>) is an allocator with
  per-thread caches, central bins and spans in one reserved arena, and a table of large mappings; it
  finds the span of a pointer through an address index of its own.  The benchmarks bring three
  comparison maps (\<^verbatim>\<open>bench/baselines.c\<close>), a recorded-trace format with its validators
  (\<^verbatim>\<open>bench/trace.c\<close>) and a tool that replays a trace against an index
  (\<^verbatim>\<open>bench/memx_trace_replay.c\<close>).  The clients call the index and the heap; the heap calls the index and the
  kernel; the trace tools check in a hash map of their own what an index should answer.

  \<^bold>\<open>Conventions.\<close>  \<^verbatim>\<open>size_t\<close>, \<^verbatim>\<open>uintptr_t\<close> and pointers are \<open>64 word\<close>, \<^verbatim>\<open>unsigned\<close> and \<^verbatim>\<open>uint32_t\<close> are
  \<open>32 word\<close> (an LP64 build), so that every wrap-around is there; null is 0.  Memory is an explicit
  store (\<^verbatim>\<open>Memx_Memory\<close>): a block the allocator hands out is an object at its address.  An operation
  returns \<open>None\<close> for undefined behaviour (a read outside a live block, a double free inside the
  library, a null callback) and for a loop that does not end; a theorem \<open>f x = Some y\<close> is therefore
  memory safety and termination at once.  Loops that are not structural are
  \<^verbatim>\<open>partial_function (option)\<close>, so no fuel bounds occur.  Errors are the status values of the code.

  \<^bold>\<open>Environment.\<close>  The user's allocator is a pair of functions on an opaque context, with the contract
  \<open>allocator_contract\<close> (null, or a block that is not live; a release ends its life); \<open>os_contract\<close> and
  \<open>sys_contract\<close> say what \<^verbatim>\<open>mmap\<close>, \<^verbatim>\<open>munmap\<close>, \<^verbatim>\<open>mprotect\<close> and \<^verbatim>\<open>madvise\<close> document, \<open>env_contract\<close> joins them
  for the heap, and \<open>realloc_contract\<close> is \<^verbatim>\<open>realloc\<close>.  Each is an argument of the definitions that use
  it, each may refuse any request, and each is instantiated in \<^verbatim>\<open>Memx_Examples\<close>,
  \<^verbatim>\<open>Memx_HeapExamples\<close>, \<^verbatim>\<open>Memx_TraceProperties\<close> and \<^verbatim>\<open>Memx_ReplayProperties\<close> for the witnesses.

  \<^bold>\<open>Theories, in the order of the code.\<close>

  \<^item> \<^verbatim>\<open>Memx_Prelude\<close>, \<^verbatim>\<open>Memx_Lists\<close>: words read through \<open>unat\<close>, linked lists in a store.
  \<^item> The index: \<^verbatim>\<open>Memx_Config\<close> (configuration, arithmetic), \<^verbatim>\<open>Memx_Descriptor\<close> (the tagged region
    word), \<^verbatim>\<open>Memx_Memory\<close> (the store), \<^verbatim>\<open>Memx_Index\<close> (\<^verbatim>\<open>struct memx_index\<close>, creation, destruction,
    lookup), \<^verbatim>\<open>Memx_Mutate\<close> (\<^verbatim>\<open>memx_insert\<close>, \<^verbatim>\<open>memx_remove\<close> and what they call), \<^verbatim>\<open>Memx_Flat\<close> (the flat
    layout and the read views), \<^verbatim>\<open>Memx_Overlay\<close> (the frozen layout), \<^verbatim>\<open>Memx_Stats\<close>.
    \<^verbatim>\<open>Memx_Invariant\<close> has the representation invariant and the abstraction to a map from granules to
    handles; \<^verbatim>\<open>Memx_Walk\<close>, \<^verbatim>\<open>Memx_Range\<close>, \<^verbatim>\<open>Memx_Steps\<close>, \<^verbatim>\<open>Memx_Leaf\<close>, \<^verbatim>\<open>Memx_Insert\<close>, \<^verbatim>\<open>Memx_Remove\<close>,
    \<^verbatim>\<open>Memx_Lifecycle\<close> and \<^verbatim>\<open>Memx_Freeze\<close> prove that every operation keeps it and refines the map.
    \<^verbatim>\<open>Memx_Interface\<close> states the contract of an index as locales and interprets them on the two
    modes; \<^verbatim>\<open>Memx_Properties\<close> has the properties.
  \<^item> The comparison maps: \<^verbatim>\<open>Memx_Baseline\<close> (the shared contract and the flat map), \<^verbatim>\<open>Memx_TwoLevel\<close>,
    \<^verbatim>\<open>Memx_Radix\<close>, \<^verbatim>\<open>Memx_Maps\<close> (properties).
  \<^item> The heap: \<^verbatim>\<open>Memx_Os\<close> (the kernel layer), \<^verbatim>\<open>Memx_Sizes\<close> (size classes), \<^verbatim>\<open>Memx_Heap\<close> (state, spans,
    caches, small objects), \<^verbatim>\<open>Memx_HeapLarge\<close> (large mappings), \<^verbatim>\<open>Memx_HeapApi\<close> (the public calls).
    \<^verbatim>\<open>Memx_HeapMem\<close>, \<^verbatim>\<open>Memx_Pool\<close>, \<^verbatim>\<open>Memx_Segments\<close>, \<^verbatim>\<open>Memx_Spans\<close>, \<^verbatim>\<open>Memx_Refill\<close>, \<^verbatim>\<open>Memx_Threads\<close>,
    \<^verbatim>\<open>Memx_SmallPath\<close>, \<^verbatim>\<open>Memx_Release\<close> and \<^verbatim>\<open>Memx_Owner\<close> hold the pool invariant (every block is in
    exactly one list, in one hand or allocated) and the small paths; \<^verbatim>\<open>Memx_LargeTable\<close>,
    \<^verbatim>\<open>Memx_Rehash\<close>, \<^verbatim>\<open>Memx_LargeSteps\<close> and \<^verbatim>\<open>Memx_LargePath\<close> the large ones.  \<^verbatim>\<open>Memx_Client\<close> joins them
    to the heap invariant and to the abstract heap, a map from live pointers to their bytes;
    \<^verbatim>\<open>Memx_Resize\<close>, \<^verbatim>\<open>Memx_Calls\<close>, \<^verbatim>\<open>Memx_Realloc\<close>, \<^verbatim>\<open>Memx_Detach\<close>, \<^verbatim>\<open>Memx_Birth\<close>,
    \<^verbatim>\<open>Memx_Separation\<close>, \<^verbatim>\<open>Memx_Progress\<close> and \<^verbatim>\<open>Memx_Sequences\<close> prove the calls against it;
    \<^verbatim>\<open>Memx_HeapProperties\<close> has the properties.
  \<^item> The traces: \<^verbatim>\<open>Memx_Trace\<close> (events, validators, the hash map, statistics), \<^verbatim>\<open>Memx_TraceText\<close> (the
    file format), \<^verbatim>\<open>Memx_TraceMap\<close> (open addressing with tombstones), \<^verbatim>\<open>Memx_TraceLife\<close> and
    \<^verbatim>\<open>Memx_TraceCheck\<close> (the validator refines a replay over a map), \<^verbatim>\<open>Memx_TraceStats\<close>,
    \<^verbatim>\<open>Memx_TraceFile\<close> and \<^verbatim>\<open>Memx_TraceRoundtrip\<close> (loader and writer), \<^verbatim>\<open>Memx_TraceProperties\<close>.
    \<^verbatim>\<open>Memx_Replay\<close> is the replay tool, which joins traces and index; \<^verbatim>\<open>Memx_ReplayRun\<close> carries
    the oracle of the validator through a replay; \<^verbatim>\<open>Memx_ReplayProperties\<close> has the properties.

  \<^bold>\<open>What is shown.\<close>  For the index: every call returns, keeps the invariant and does to the map from
  addresses to handles what the header documents, in every layout and on every error path, with no
  block leaked; the optimised layouts and the trusted views answer what the adaptive index answers;
  the statistics are the bytes of the store in every layout.  For the heap: creation is all or nothing; any sequence
  of calls of any threads answers what the abstract heap allows (fresh aligned objects, exact frees,
  bytes kept by a resize, zeroed \<^verbatim>\<open>calloc\<close>); live objects are disjoint and mapped; detaching
  empties the cache of the thread into the central bins; large allocations succeed when their
  requests are granted.  For the maps: one contract for all three, their agreement, the invisible
  cache of the radix map, and the configurations whose two-level root wraps.  For the traces: validation is a replay, loading is
  transactional, writing and loading are inverse, statistics are exact, and an index that is replayed
  an accepted trace answers every lookup with the recorded handle until memory runs out.

  \<^bold>\<open>Concurrency.\<close>  The mutexes of the heap make its critical sections atomic, so a sequence of calls
  lists them in the order in which they take effect; the remote-free queue of a cache is modelled
  with its atomic exchange and its push as single steps.  Weak-memory effects are not modelled.

  \<^bold>\<open>Not modelled.\<close>  The lock operations beyond their initialisation and destruction; the platform
  branches other than 64-bit Linux; the malloc shim (dynamic linking of libc entry points); the
  benchmark drivers and the fuzz targets (timing, printing and test harnesses); the Python tools and
  the build files.
\<close>

end
